(* ===== verification/Pride_Base.thy ===== *)
theory Pride_Base
  imports Main
begin

text \<open>
  Shared vocabulary of the development: the faults a C++ operation of the repository can end
  in (a failed \<open>assert\<close>, gem5's \<open>panic\<close> and \<open>fatal\<close>, an access outside an array, a
  division by zero), a result type with its bind, the fixed-width arithmetic of
  \<open>uint32_t\<close> and \<open>uint64_t\<close> written out on \<open>nat\<close>, and the loops "first index that
  satisfies a test" that many of the source's tables use.

  Conventions.  Ticks and addresses are 64-bit in the source and \<open>nat\<close> here: sums of ticks
  are not wrapped (2^64 picoseconds are more than 200 days of simulated time), but every
  subtraction is the wrapping one (\<open>sub64\<close>, \<open>sub32\<close>), since a negative difference would
  become a huge delay.  32-bit and 8-bit counters wrap (\<open>inc32\<close>, \<open>dec32\<close>).  The 64-bit
  statistics counters (names \<open>s_...\<close>) are plain naturals.
\<close>

section \<open>Faults and results\<close>

datatype fault = AssertFail | PanicFail | FatalExit | OutOfBounds | DivideByZero

type_synonym 'a result = "fault + 'a"
type_synonym tick = nat
type_synonym addr = nat

named_theorems result_simps "evaluation of result binds"
named_theorems width_simps "fixed-width arithmetic that does not wrap"

definition rbind :: "'a result \<Rightarrow> ('a \<Rightarrow> 'b result) \<Rightarrow> 'b result" where
  "rbind m f = (case m of Inl e \<Rightarrow> Inl e | Inr x \<Rightarrow> f x)"

definition check :: "bool \<Rightarrow> fault \<Rightarrow> unit result" where
  "check P e = (if P then Inr () else Inl e)"

lemma rbind_Inr [simp, result_simps]: "rbind (Inr x) f = f x"
  by (simp add: rbind_def)

lemma rbind_Inl [simp, result_simps]: "rbind (Inl e) f = Inl e"
  by (simp add: rbind_def)

lemma check_True [simp]: "check True e = Inr ()"
  by (simp add: check_def)

lemma check_False [simp]: "check False e = Inl e"
  by (simp add: check_def)

lemma rbind_check [result_simps]: "rbind (check P e) f = (if P then f () else Inl e)"
  by (simp add: check_def)

lemma rbind_eq_Inr_iff: "rbind m f = Inr y \<longleftrightarrow> (\<exists>x. m = Inr x \<and> f x = Inr y)"
  by (cases m) auto

lemma rbind_InrE:
  assumes "rbind m f = Inr y"
  obtains x where "m = Inr x" "f x = Inr y"
  using assms by (auto simp: rbind_eq_Inr_iff)

lemma rbind_assoc: "rbind (rbind m f) g = rbind m (\<lambda>x. rbind (f x) g)"
  by (cases m) auto

text \<open>A loop over a list whose body may fault.\<close>

fun rfold :: "('s \<Rightarrow> 'a \<Rightarrow> 's result) \<Rightarrow> 's \<Rightarrow> 'a list \<Rightarrow> 's result" where
  "rfold f s [] = Inr s"
| "rfold f s (x # xs) = rbind (f s x) (\<lambda>s'. rfold f s' xs)"

lemma rfold_append: "rfold f s (xs @ ys) = rbind (rfold f s xs) (\<lambda>s'. rfold f s' ys)"
  by (induction xs arbitrary: s) (simp_all add: rbind_assoc)

lemma rfold_total:
  assumes "I s" and "\<And>s x. I s \<Longrightarrow> x \<in> set xs \<Longrightarrow> \<exists>s'. f s x = Inr s' \<and> I s'"
  shows "\<exists>s'. rfold f s xs = Inr s' \<and> I s'"
  using assms
proof (induction xs arbitrary: s)
  case Nil
  then show ?case by simp
next
  case (Cons x xs)
  obtain s1 where s1: "f s x = Inr s1" "I s1"
    using Cons.prems(2)[OF Cons.prems(1), of x] by auto
  then show ?case
    using Cons.IH[of s1] Cons.prems(2) by auto
qed

section \<open>Fixed-width arithmetic\<close>

definition u8 :: "nat \<Rightarrow> nat" where "u8 n = n mod 2 ^ 8"
definition u32 :: "nat \<Rightarrow> nat" where "u32 n = n mod 2 ^ 32"
definition u64 :: "nat \<Rightarrow> nat" where "u64 n = n mod 2 ^ 64"

definition inc32 :: "nat \<Rightarrow> nat" where "inc32 n = (n + 1) mod 2 ^ 32"

text \<open>\<open>n--\<close> on a \<open>uint32_t\<close>: 0 becomes the largest value.\<close>

definition dec32 :: "nat \<Rightarrow> nat" where "dec32 n = (if n = 0 then 2 ^ 32 - 1 else n - 1)"

definition sub32 :: "nat \<Rightarrow> nat \<Rightarrow> nat" where
  "sub32 a b = (if b \<le> a then a - b else a + 2 ^ 32 - b)"

definition sub64 :: "nat \<Rightarrow> nat \<Rightarrow> nat" where
  "sub64 a b = (if b \<le> a then a - b else a + 2 ^ 64 - b)"

text \<open>Conversion of an unsigned value to \<open>int\<close> (32 bits, two's complement).\<close>

definition to_int32 :: "nat \<Rightarrow> int" where
  "to_int32 n = (if n mod 2 ^ 32 < 2 ^ 31 then int (n mod 2 ^ 32) else int (n mod 2 ^ 32) - 2 ^ 32)"

lemma u32_id [width_simps]: "n < 4294967296 \<Longrightarrow> u32 n = n"
  by (simp add: u32_def)

lemma u8_id [width_simps]: "n < 256 \<Longrightarrow> u8 n = n"
  by (simp add: u8_def)

lemma inc32_id [width_simps]: "n < 4294967295 \<Longrightarrow> inc32 n = Suc n"
  by (simp add: inc32_def)

lemma dec32_pos [width_simps]: "0 < n \<Longrightarrow> dec32 n = n - 1"
  by (simp add: dec32_def)

lemma sub64_le [width_simps]: "b \<le> a \<Longrightarrow> sub64 a b = a - b"
  by (simp add: sub64_def)

lemma sub32_le [width_simps]: "b \<le> a \<Longrightarrow> sub32 a b = a - b"
  by (simp add: sub32_def)

lemma dec32_inc32: "n < 4294967296 \<Longrightarrow> dec32 (inc32 n) = n"
proof -
  assume "n < 4294967296"
  then consider "n < 4294967295" | "n = 4294967295" by arith
  then show ?thesis by cases (simp_all add: inc32_id dec32_pos, simp add: dec32_def inc32_def)
qed

lemma to_int32_small: "n < 2147483648 \<Longrightarrow> to_int32 n = int n"
  by (simp add: to_int32_def)

section \<open>First-match loops\<close>

text \<open>\<open>for (i = 0; i < n; i++) if (P i) \<open>{\<close> ...; break; \<open>}\<close>\<close> acts on the least index that
  satisfies \<open>P\<close>, or on none.\<close>

definition first_idx :: "(nat \<Rightarrow> bool) \<Rightarrow> nat \<Rightarrow> nat option" where
  "first_idx P n = List.find P [0..<n]"

lemma first_idx_None: "first_idx P n = None \<longleftrightarrow> (\<forall>i<n. \<not> P i)"
  by (auto simp: first_idx_def find_None_iff)

lemma first_idx_SomeD:
  assumes "first_idx P n = Some i"
  shows "i < n" "P i" "\<And>j. j < i \<Longrightarrow> \<not> P j"
proof -
  from assms obtain k where k: "k < n" "P ([0..<n] ! k)" "i = [0..<n] ! k"
    "\<forall>j<k. \<not> P ([0..<n] ! j)"
    by (auto simp: first_idx_def find_Some_iff)
  then show "i < n" "P i" by simp_all
  show "\<not> P j" if "j < i" for j using k that by simp
qed

lemma first_idx_ex: "i < n \<Longrightarrow> P i \<Longrightarrow> \<exists>j. first_idx P n = Some j"
  by (metis first_idx_None option.exhaust)

lemma first_idx_Some_iff:
  "first_idx P n = Some i \<longleftrightarrow> i < n \<and> P i \<and> (\<forall>j<i. \<not> P j)"
proof
  assume "first_idx P n = Some i"
  then show "i < n \<and> P i \<and> (\<forall>j<i. \<not> P j)" by (auto dest: first_idx_SomeD)
next
  assume a: "i < n \<and> P i \<and> (\<forall>j<i. \<not> P j)"
  then obtain j where j: "first_idx P n = Some j" using first_idx_ex by blast
  then have "j = i" using a first_idx_SomeD[OF j] by (metis linorder_neqE_nat)
  with j show "first_idx P n = Some i" by simp
qed

section \<open>Lists updated in place\<close>

lemma sum_list_update_Suc:
  "i < length xs \<Longrightarrow> sum_list (xs[i := Suc (xs ! i)]) = Suc (sum_list xs)"
  by (induction xs arbitrary: i) (auto split: nat.splits)

lemma sum_list_const_le:
  assumes "\<forall>x\<in>set xs. b \<le> x"
  shows "b * length xs \<le> sum_list (xs :: nat list)"
  using assms by (induction xs) auto

lemma count_list_snoc: "count_list (xs @ [x]) y = count_list xs y + (if x = y then 1 else 0)"
  by simp

lemma map_update_same:
  "i < length xs \<Longrightarrow> f y = f (xs ! i) \<Longrightarrow> map f (xs[i := y]) = map f xs"
  by (metis list_update_id map_update)

text \<open>Overwriting an element that did not satisfy \<open>P\<close>.\<close>

lemma ex_update_dead:
  assumes "w < length bs" "\<not> P (bs ! w)"
  shows "(\<exists>y\<in>set (bs[w := b]). P y) \<longleftrightarrow> P b \<or> (\<exists>y\<in>set bs. P y)"
proof
  assume "\<exists>y\<in>set (bs[w := b]). P y"
  then show "P b \<or> (\<exists>y\<in>set bs. P y)" using set_update_subset_insert[of bs w b] by blast
next
  assume "P b \<or> (\<exists>y\<in>set bs. P y)"
  then show "\<exists>y\<in>set (bs[w := b]). P y"
  proof
    assume "P b"
    then show ?thesis using set_update_memI[OF assms(1)] by blast
  next
    assume "\<exists>y\<in>set bs. P y"
    then obtain j where j: "j < length bs" "P (bs ! j)" by (auto simp: in_set_conv_nth)
    then have "bs[w := b] ! j = bs ! j" using assms(2) by (cases "j = w") simp_all
    then show ?thesis using j by (metis length_list_update nth_mem)
  qed
qed

end
