(* ===== verification/Fifo_Interface.thy ===== *)
theory Fifo_Interface
  imports Pride_Base
begin

text \<open>
  The contract of PrIDE's tracker: a bounded FIFO of aggressor rows.  An insertion into a full
  tracker drops the oldest row, a mitigation takes the oldest row out.  The contract is stated
  as a specification on lists (\<open>afifo_step\<close>, \<open>afifo_run\<close>), a locale \<open>fifo_tracker\<close> for
  the operations of an implementation, and the lemmas a client of any tracker relies on.
  Two implementations exist in the repository: \<open>Tracker\<close> of gem5's \<open>mem/tracker.h\<close> and
  \<open>Tracker\<close> of the Monte-Carlo simulation.  Both keep the rows in a ring; the ring lemmas
  here serve both.
\<close>

section \<open>Rings\<close>

definition ring_contents :: "'a list \<Rightarrow> nat \<Rightarrow> nat \<Rightarrow> nat \<Rightarrow> 'a list" where
  "ring_contents xs h n c = map (\<lambda>i. xs ! ((h + i) mod c)) [0..<n]"

lemma length_ring_contents [simp]: "length (ring_contents xs h n c) = n"
  by (simp add: ring_contents_def)

lemma ring_contents_0 [simp]: "ring_contents xs h 0 c = []"
  by (simp add: ring_contents_def)

lemma ring_contents_hd: "0 < n \<Longrightarrow> h < c \<Longrightarrow> hd (ring_contents xs h n c) = xs ! h"
  by (simp add: ring_contents_def hd_map)

lemma ring_contents_nth [simp]: "i < n \<Longrightarrow> ring_contents xs h n c ! i = xs ! ((h + i) mod c)"
  by (simp add: ring_contents_def)

lemma ring_contents_pop:
  assumes "0 < n"
  shows "ring_contents xs ((h + 1) mod c) (n - 1) c = tl (ring_contents xs h n c)"
proof (rule nth_equalityI)
  fix i assume "i < length (ring_contents xs ((h + 1) mod c) (n - 1) c)"
  then have i: "i < n - 1" "Suc i < n" by simp_all
  have "((h + 1) mod c + i) mod c = (h + Suc i) mod c"
    by (metis add.assoc add_Suc_right mod_add_left_eq plus_1_eq_Suc Suc_eq_plus1)
  then show "ring_contents xs ((h + 1) mod c) (n - 1) c ! i = tl (ring_contents xs h n c) ! i"
    using i by (simp add: nth_tl)
qed simp

lemma ring_slot_neq:
  assumes "i < n" "n < c"
  shows "(h + i) mod c \<noteq> (h + n) mod (c::nat)"
proof
  assume eq: "(h + i) mod c = (h + n) mod c"
  then have "c dvd (h + n) - (h + i)"
    using assms by (metis add_le_cancel_left less_imp_le mod_eq_dvd_iff_nat)
  then show False using assms by (auto dest: dvd_imp_le)
qed

lemma ring_contents_push:
  assumes "n < c" "length xs = c"
  shows "ring_contents (xs[(h + n) mod c := x]) h (n + 1) c = ring_contents xs h n c @ [x]"
proof -
  have "0 < c" using assms by simp
  then have top: "xs[(h + n) mod c := x] ! ((h + n) mod c) = x"
    using assms by simp
  have rest: "xs[(h + n) mod c := x] ! ((h + i) mod c) = xs ! ((h + i) mod c)" if "i < n" for i
    using ring_slot_neq[OF that assms(1), of h] by simp
  show ?thesis using top rest by (simp add: ring_contents_def)
qed

section \<open>The specification\<close>

datatype 'a tracker_event = Insert_Row 'a | Mitigate

datatype 'a departure = Issued 'a | Evicted 'a

fun row_of :: "'a departure \<Rightarrow> 'a" where
  "row_of (Issued x) = x"
| "row_of (Evicted x) = x"

fun afifo_step :: "nat \<Rightarrow> 'a list \<Rightarrow> 'a tracker_event \<Rightarrow> 'a list \<times> 'a departure list" where
  "afifo_step c q (Insert_Row x) =
     (if length q = c then (tl q @ [x], [Evicted (hd q)]) else (q @ [x], []))"
| "afifo_step c q Mitigate =
     (case q of [] \<Rightarrow> ([], []) | x # q' \<Rightarrow> (q', [Issued x]))"

fun afifo_run :: "nat \<Rightarrow> 'a list \<Rightarrow> 'a tracker_event list \<Rightarrow> 'a list \<times> 'a departure list" where
  "afifo_run c q [] = (q, [])"
| "afifo_run c q (e # es) =
     (let (q1, d1) = afifo_step c q e; (q2, d2) = afifo_run c q1 es in (q2, d1 @ d2))"

fun inserted :: "'a tracker_event list \<Rightarrow> 'a list" where
  "inserted [] = []"
| "inserted (Insert_Row x # es) = x # inserted es"
| "inserted (Mitigate # es) = inserted es"

fun mitigations :: "'a tracker_event list \<Rightarrow> nat" where
  "mitigations [] = 0"
| "mitigations (Insert_Row x # es) = mitigations es"
| "mitigations (Mitigate # es) = Suc (mitigations es)"

definition issued :: "'a departure list \<Rightarrow> 'a list" where
  "issued ds = concat (map (\<lambda>d. case d of Issued x \<Rightarrow> [x] | Evicted x \<Rightarrow> []) ds)"

lemma issued_simps [simp]:
  "issued [] = []"
  "issued (Issued x # ds) = x # issued ds"
  "issued (Evicted x # ds) = issued ds"
  "issued (ds @ ds') = issued ds @ issued ds'"
  by (simp_all add: issued_def)

lemma set_issued_subset: "set (issued ds) \<subseteq> row_of ` set ds"
proof (induction ds)
  case (Cons d ds)
  then show ?case by (cases d) auto
qed simp

lemma length_inserted_mitigations: "length (inserted es) + mitigations es = length es"
  by (induction es rule: inserted.induct) auto

lemma afifo_step_length:
  "0 < c \<Longrightarrow> length q \<le> c \<Longrightarrow> length (fst (afifo_step c q e)) \<le> c"
  by (cases e) (auto split: list.splits)

text \<open>Rows leave in the order they came: nothing is lost, duplicated or reordered.\<close>

lemma afifo_step_order:
  assumes "0 < c" "length q \<le> c" "afifo_step c q e = (q', ds)"
  shows "map row_of ds @ q' = q @ inserted [e]"
proof (cases e)
  case (Insert_Row x)
  then show ?thesis using assms by (cases q) (auto split: if_splits)
next
  case Mitigate
  then show ?thesis using assms by (auto split: list.splits)
qed

lemma inserted_Cons: "inserted (e # es) = inserted [e] @ inserted es"
  by (cases e) auto

lemma afifo_run_order:
  assumes "0 < c" "length q \<le> c" "afifo_run c q es = (q', ds)"
  shows "map row_of ds @ q' = q @ inserted es"
  using assms
proof (induction es arbitrary: q q' ds)
  case Nil
  then show ?case by simp
next
  case (Cons e es)
  obtain q1 d1 where s: "afifo_step c q e = (q1, d1)" by fastforce
  obtain q2 d2 where r: "afifo_run c q1 es = (q2, d2)" by fastforce
  have eq: "q' = q2" "ds = d1 @ d2" using Cons.prems(3) s r by simp_all
  have "length q1 \<le> c" using afifo_step_length[OF Cons.prems(1,2), of e] s by simp
  then have "map row_of d2 @ q2 = q1 @ inserted es"
    using Cons.IH Cons.prems(1) r by blast
  moreover have "map row_of d1 @ q1 = q @ inserted [e]"
    using afifo_step_order[OF Cons.prems(1,2) s] .
  ultimately show ?case
    using eq inserted_Cons[of e es] by simp
qed

lemma afifo_run_length:
  assumes "0 < c" "length q \<le> c"
  shows "length (fst (afifo_run c q es)) \<le> c"
  using assms
proof (induction es arbitrary: q)
  case (Cons e es)
  obtain q1 d1 where s: "afifo_step c q e = (q1, d1)" by fastforce
  then show ?case
    using afifo_step_length[OF Cons.prems, of e] Cons.IH[of q1] Cons.prems(1)
    by (cases "afifo_run c q1 es") simp
qed simp

text \<open>
  A row can only be dropped by an insertion that finds the queue full, and every mitigation
  of a non-empty queue takes one row out.  Together: while the old rows and the new ones fit,
  nothing is dropped, and after as many mitigations as there were rows all of them are issued.
\<close>

lemma afifo_run_no_eviction:
  assumes "length q + length (inserted es) \<le> c" "afifo_run c q es = (q', ds)"
  shows "ds = map Issued (issued ds)"
  using assms
proof (induction es arbitrary: q q' ds)
  case Nil
  then show ?case by simp
next
  case (Cons e es)
  obtain q1 d1 where s: "afifo_step c q e = (q1, d1)" by fastforce
  obtain q2 d2 where r: "afifo_run c q1 es = (q2, d2)" by fastforce
  have ds: "ds = d1 @ d2" using Cons.prems(2) s r by simp
  have "d1 = map Issued (issued d1) \<and> length q1 + length (inserted es) \<le> c"
    using s Cons.prems(1) by (cases e) (auto split: if_splits list.splits)
  then show ?case using Cons.IH[OF _ r] ds by auto
qed

lemma afifo_run_departures:
  assumes "0 < c" "afifo_run c q es = (q', ds)"
  shows "min (mitigations es) (length q) \<le> length ds"
  using assms
proof (induction es arbitrary: q q' ds)
  case Nil
  then show ?case by simp
next
  case (Cons e es)
  obtain q1 d1 where s: "afifo_step c q e = (q1, d1)" by fastforce
  obtain q2 d2 where r: "afifo_run c q1 es = (q2, d2)" by fastforce
  have ds: "ds = d1 @ d2" using Cons.prems(2) s r by simp
  have "min (mitigations (e # es)) (length q) \<le> length d1 + min (mitigations es) (length q1)"
    using s Cons.prems(1) by (cases e) (auto split: if_splits list.splits)
  then show ?case using Cons.IH[OF Cons.prems(1) r] ds by simp
qed

lemma afifo_run_issues_old:
  assumes "length q + length (inserted es) \<le> c" "0 < c" "afifo_run c q es = (q', ds)"
    "length q \<le> mitigations es"
  shows "take (length q) (issued ds) = q"
proof -
  have "length q \<le> length ds"
    using afifo_run_departures[OF assms(2,3)] assms(4) by simp
  moreover have "take (length q) (map row_of ds @ q') = q"
    using afifo_run_order[OF assms(2) _ assms(3)] assms(1) by simp
  ultimately have "take (length q) (map row_of ds) = q" by simp
  moreover have "map row_of ds = issued ds"
    by (subst afifo_run_no_eviction[OF assms(1,3)]) (simp add: comp_def)
  ultimately show ?thesis by simp
qed

section \<open>The interface of an implementation\<close>

text \<open>
  A run of an implementation: \<open>ins\<close> may fault (an access outside the ring), \<open>mit\<close> answers
  the row to mitigate, or \<open>None\<close> when there is none.
\<close>

fun tracker_run ::
  "('t \<Rightarrow> 'a \<Rightarrow> 't result) \<Rightarrow> ('t \<Rightarrow> 't \<times> 'a option) \<Rightarrow> 't \<Rightarrow> 'a tracker_event list
    \<Rightarrow> ('t \<times> 'a list) result" where
  "tracker_run ins mit t [] = Inr (t, [])"
| "tracker_run ins mit t (Insert_Row x # es) =
     rbind (ins t x) (\<lambda>t'. tracker_run ins mit t' es)"
| "tracker_run ins mit t (Mitigate # es) =
     (let (t', r) = mit t in
      rbind (tracker_run ins mit t' es)
        (\<lambda>(t'', rs). Inr (t'', case r of None \<Rightarrow> rs | Some x \<Rightarrow> x # rs)))"

locale fifo_tracker =
  fixes ins :: "'t \<Rightarrow> 'a \<Rightarrow> 't result"
    and mit :: "'t \<Rightarrow> 't \<times> 'a option"
    and contents :: "'t \<Rightarrow> 'a list"
    and inv :: "'t \<Rightarrow> bool"
    and ok :: "'a \<Rightarrow> bool"
    and cap :: nat
  assumes cap_pos: "0 < cap"
    and contents_le: "inv t \<Longrightarrow> length (contents t) \<le> cap"
    and ins_total: "inv t \<Longrightarrow> ok x \<Longrightarrow> \<exists>t'. ins t x = Inr t' \<and> inv t'"
    and ins_contents: "inv t \<Longrightarrow> ok x \<Longrightarrow> ins t x = Inr t' \<Longrightarrow>
      contents t' = fst (afifo_step cap (contents t) (Insert_Row x))"
    and mit_inv: "inv t \<Longrightarrow> inv (fst (mit t))"
    and mit_contents: "inv t \<Longrightarrow> contents (fst (mit t)) = tl (contents t)"
    and mit_answer: "inv t \<Longrightarrow>
      snd (mit t) = (case contents t of [] \<Rightarrow> None | x # _ \<Rightarrow> Some x)"
begin

text \<open>Every run of an implementation is a run of the specification, with the same answers.\<close>

lemma run_refines:
  assumes "inv t" "\<forall>x\<in>set (inserted es). ok x"
  shows "\<exists>t'. tracker_run ins mit t es = Inr (t', issued (snd (afifo_run cap (contents t) es)))
    \<and> inv t' \<and> contents t' = fst (afifo_run cap (contents t) es)"
  using assms
proof (induction es arbitrary: t)
  case Nil
  then show ?case by simp
next
  case (Cons e es)
  show ?case
  proof (cases e)
    case (Insert_Row x)
    with Cons.prems obtain t1 where t1: "ins t x = Inr t1" "inv t1"
      using ins_total[of t x] by auto
    have c1: "contents t1 = fst (afifo_step cap (contents t) e)"
      using ins_contents[OF _ _ t1(1)] Cons.prems Insert_Row by simp
    obtain t' where t': "tracker_run ins mit t1 es
        = Inr (t', issued (snd (afifo_run cap (contents t1) es)))"
      "inv t'" "contents t' = fst (afifo_run cap (contents t1) es)"
      using Cons.IH[OF t1(2)] Cons.prems Insert_Row by auto
    show ?thesis using t1 t' c1 Insert_Row
      by (cases "afifo_run cap (contents t1) es") (auto split: if_splits)
  next
    case Mitigate
    obtain t1 r where m: "mit t = (t1, r)" by fastforce
    have t1: "inv t1" "contents t1 = tl (contents t)"
      "r = (case contents t of [] \<Rightarrow> None | x # _ \<Rightarrow> Some x)"
      using mit_inv[OF Cons.prems(1)] mit_contents[OF Cons.prems(1)]
        mit_answer[OF Cons.prems(1)] m by simp_all
    obtain t' where t': "tracker_run ins mit t1 es
        = Inr (t', issued (snd (afifo_run cap (contents t1) es)))"
      "inv t'" "contents t' = fst (afifo_run cap (contents t1) es)"
      using Cons.IH[OF t1(1)] Cons.prems Mitigate by auto
    show ?thesis using m t1 t' Mitigate
      by (cases "contents t"; cases "afifo_run cap (contents t1) es") auto
  qed
qed

text \<open>
  The delivery guarantee: while the rows held and the rows arriving fit, every row held is
  handed out for mitigation, in order, by the time as many mitigations have happened.
\<close>

lemma run_issues_held:
  assumes "inv t" "\<forall>x\<in>set (inserted es). ok x"
    "length (contents t) + length (inserted es) \<le> cap" "length (contents t) \<le> mitigations es"
  shows "\<exists>t' rs. tracker_run ins mit t es = Inr (t', rs)
    \<and> take (length (contents t)) rs = contents t"
proof -
  obtain q' ds where r: "afifo_run cap (contents t) es = (q', ds)" by fastforce
  show ?thesis
    using run_refines[OF assms(1,2)] afifo_run_issues_old[OF assms(3) cap_pos r assms(4)] r
    by auto
qed

text \<open>Nothing is invented: every answer was held at the start or inserted since.\<close>

lemma run_answers_inserted:
  assumes "inv t" "\<forall>x\<in>set (inserted es). ok x" "tracker_run ins mit t es = Inr (t', rs)"
  shows "set rs \<subseteq> set (contents t) \<union> set (inserted es)"
proof -
  obtain q' ds where r: "afifo_run cap (contents t) es = (q', ds)" by fastforce
  have "map row_of ds @ q' = contents t @ inserted es"
    by (rule afifo_run_order[OF cap_pos contents_le[OF assms(1)] r])
  then have "set (map row_of ds @ q') = set (contents t @ inserted es)" by (rule arg_cong)
  then have "set (issued ds) \<subseteq> set (contents t) \<union> set (inserted es)"
    using set_issued_subset[of ds] by auto
  then show ?thesis using run_refines[OF assms(1,2)] assms(3) r by auto
qed

end

end
