(* ===== verification/Ring_Tracker.thy ===== *)
theory Ring_Tracker
  imports Fifo_Interface
begin

text \<open>
  \<open>Tracker\<close> of \<open>performance/gem5/src/mem/tracker.h\<close>: PrIDE's per-bank tracker, a ring of
  \<open>int\<close> row numbers.  \<open>remove\<close> answers -1 on an empty tracker.  The vector is indexed without
  a bounds check in the source; here an index outside it is the fault \<open>OutOfBounds\<close>.
  The counters \<open>num_remove\<close>, \<open>num_evict\<close>, \<open>num_insert\<close> are \<open>long long\<close> and do not
  overflow.  The constructor's size and \<open>Init\<close>'s are separate: \<open>Init\<close> resizes the vector and
  leaves \<open>max_size\<close> alone, as the source does.
\<close>

section \<open>State and operations\<close>

record tracker =
  tk_max_size :: nat
  tk_ring :: "int list"
  tk_num_valid :: nat
  tk_head :: nat
  tk_tail :: nat
  tk_num_remove :: nat
  tk_num_evict :: nat
  tk_num_insert :: nat

text \<open>\<open>tracker.resize(size, -1)\<close>\<close>

definition vec_resize :: "int list \<Rightarrow> nat \<Rightarrow> int list" where
  "vec_resize v n = take n v @ replicate (n - length v) (-1)"

definition tracker_new :: "nat \<Rightarrow> tracker" where
  "tracker_new n =
     \<lparr> tk_max_size = n, tk_ring = vec_resize [] n, tk_num_valid = 0, tk_head = 0,
       tk_tail = 0, tk_num_remove = 0, tk_num_evict = 0, tk_num_insert = 0 \<rparr>"

definition tracker_Init :: "tracker \<Rightarrow> nat \<Rightarrow> tracker" where
  "tracker_Init t n = t\<lparr>tk_ring := vec_resize (tk_ring t) n\<rparr>"

definition tracker_remove :: "tracker \<Rightarrow> (tracker \<times> int) result" where
  "tracker_remove t =
     (if 0 < tk_num_valid t then
        if tk_head t < length (tk_ring t) then
          if tk_max_size t = 0 then Inl DivideByZero
          else Inr (t\<lparr>tk_head := (tk_head t + 1) mod tk_max_size t,
                      tk_num_valid := tk_num_valid t - 1\<rparr>, tk_ring t ! tk_head t)
        else Inl OutOfBounds
      else Inr (t, -1))"

definition tracker_issue_mitig :: "tracker \<Rightarrow> (tracker \<times> int) result" where
  "tracker_issue_mitig t = tracker_remove (t\<lparr>tk_num_remove := tk_num_remove t + 1\<rparr>)"

definition tracker_insert :: "tracker \<Rightarrow> int \<Rightarrow> tracker result" where
  "tracker_insert t addr =
     rbind (if tk_num_valid t = tk_max_size t
            then rbind (tracker_remove (t\<lparr>tk_num_evict := tk_num_evict t + 1\<rparr>)) (\<lambda>(t', _). Inr t')
            else Inr t)
       (\<lambda>t1. if tk_tail t1 < length (tk_ring t1) then
               if tk_max_size t1 = 0 then Inl DivideByZero
               else Inr (t1\<lparr>tk_ring := (tk_ring t1)[tk_tail t1 := addr],
                            tk_tail := (tk_tail t1 + 1) mod tk_max_size t1,
                            tk_num_valid := tk_num_valid t1 + 1,
                            tk_num_insert := tk_num_insert t1 + 1\<rparr>)
             else Inl OutOfBounds)"

section \<open>Invariant and contents\<close>

definition tracker_contents :: "tracker \<Rightarrow> int list" where
  "tracker_contents t = ring_contents (tk_ring t) (tk_head t) (tk_num_valid t) (tk_max_size t)"

text \<open>The ring part of the invariant, and what is true of the rows held: none is the -1
  that \<open>remove\<close> answers for an empty tracker.\<close>

definition tracker_wf :: "tracker \<Rightarrow> bool" where
  "tracker_wf t \<longleftrightarrow> 0 < tk_max_size t \<and> length (tk_ring t) = tk_max_size t \<and>
     tk_head t < tk_max_size t \<and> tk_num_valid t \<le> tk_max_size t \<and>
     tk_tail t = (tk_head t + tk_num_valid t) mod tk_max_size t \<and>
     -1 \<notin> set (tracker_contents t)"

lemma length_vec_resize [simp]: "length (vec_resize v n) = n"
  by (simp add: vec_resize_def)

lemma vec_resize_same: "length v = n \<Longrightarrow> vec_resize v n = v"
  by (simp add: vec_resize_def)

lemma tracker_new_wf: "0 < n \<Longrightarrow> tracker_wf (tracker_new n)"
  by (simp add: tracker_wf_def tracker_new_def tracker_contents_def)

lemma tracker_Init_same: "tracker_wf t \<Longrightarrow> tracker_Init t (tk_max_size t) = t"
  by (simp add: tracker_wf_def tracker_Init_def vec_resize_same)

lemma length_tracker_contents [simp]: "length (tracker_contents t) = tk_num_valid t"
  by (simp add: tracker_contents_def)

lemma tracker_contents_congs [simp]:
  "tracker_contents (t\<lparr>tk_num_remove := a\<rparr>) = tracker_contents t"
  "tracker_contents (t\<lparr>tk_num_evict := a\<rparr>) = tracker_contents t"
  by (simp_all add: tracker_contents_def)

lemma tracker_wf_congs [simp]:
  "tracker_wf (t\<lparr>tk_num_remove := a\<rparr>) = tracker_wf t"
  "tracker_wf (t\<lparr>tk_num_evict := a\<rparr>) = tracker_wf t"
  by (simp_all add: tracker_wf_def)

lemma tracker_remove_wf:
  assumes "tracker_wf t"
  shows "\<exists>t'. tracker_remove t =
      Inr (t', case tracker_contents t of [] \<Rightarrow> -1 | x # _ \<Rightarrow> x)
    \<and> tracker_wf t' \<and> tracker_contents t' = tl (tracker_contents t)
    \<and> tk_num_valid t' = tk_num_valid t - 1 \<and> tk_max_size t' = tk_max_size t
    \<and> tk_num_remove t' = tk_num_remove t \<and> tk_num_evict t' = tk_num_evict t
    \<and> tk_num_insert t' = tk_num_insert t"
proof (cases "tk_num_valid t = 0")
  case True
  then have "tracker_contents t = []" by (metis length_0_conv length_tracker_contents)
  then show ?thesis using True assms by (simp add: tracker_remove_def)
next
  case False
  let ?t = "t\<lparr>tk_head := (tk_head t + 1) mod tk_max_size t, tk_num_valid := tk_num_valid t - 1\<rparr>"
  have wf: "0 < tk_max_size t" "length (tk_ring t) = tk_max_size t" "tk_head t < tk_max_size t"
    "tk_num_valid t \<le> tk_max_size t" "tk_tail t = (tk_head t + tk_num_valid t) mod tk_max_size t"
    "-1 \<notin> set (tracker_contents t)"
    using assms by (simp_all add: tracker_wf_def)
  have cont: "tracker_contents ?t = tl (tracker_contents t)"
    using ring_contents_pop[of "tk_num_valid t" "tk_ring t" "tk_head t" "tk_max_size t"] False
    by (simp add: tracker_contents_def)
  obtain x xs where c: "tracker_contents t = x # xs"
    using False by (metis length_0_conv length_tracker_contents neq_Nil_conv)
  have "x = tk_ring t ! tk_head t"
    using ring_contents_hd[of "tk_num_valid t" "tk_head t" "tk_max_size t" "tk_ring t"] False wf c
    by (simp add: tracker_contents_def)
  moreover have "((tk_head t + 1) mod tk_max_size t + (tk_num_valid t - 1)) mod tk_max_size t
      = tk_tail t"
    using False wf(5) by (subst mod_add_left_eq) simp
  ultimately show ?thesis
    using wf c cont False by (auto simp: tracker_remove_def tracker_wf_def)
qed

lemma tracker_issue_mitig_wf:
  assumes "tracker_wf t"
  shows "\<exists>t'. tracker_issue_mitig t =
      Inr (t', case tracker_contents t of [] \<Rightarrow> -1 | x # _ \<Rightarrow> x)
    \<and> tracker_wf t' \<and> tracker_contents t' = tl (tracker_contents t)
    \<and> tk_num_valid t' = tk_num_valid t - 1 \<and> tk_max_size t' = tk_max_size t
    \<and> tk_num_remove t' = tk_num_remove t + 1 \<and> tk_num_evict t' = tk_num_evict t
    \<and> tk_num_insert t' = tk_num_insert t"
  using tracker_remove_wf[of "t\<lparr>tk_num_remove := tk_num_remove t + 1\<rparr>"] assms
  by (simp add: tracker_issue_mitig_def)

text \<open>The part of \<open>insert\<close> after the eviction.\<close>

lemma tracker_push:
  assumes "tracker_wf t" "tk_num_valid t < tk_max_size t" "addr \<noteq> -1"
  defines "t' \<equiv> t\<lparr>tk_ring := (tk_ring t)[tk_tail t := addr],
      tk_tail := (tk_tail t + 1) mod tk_max_size t, tk_num_valid := tk_num_valid t + 1,
      tk_num_insert := tk_num_insert t + 1\<rparr>"
  shows "tracker_wf t' \<and> tracker_contents t' = tracker_contents t @ [addr]"
proof -
  have wf: "0 < tk_max_size t" "length (tk_ring t) = tk_max_size t"
    "tk_tail t = (tk_head t + tk_num_valid t) mod tk_max_size t"
    using assms(1) by (simp_all add: tracker_wf_def)
  have "tracker_contents t' = tracker_contents t @ [addr]"
    using ring_contents_push[of "tk_num_valid t" "tk_max_size t" "tk_ring t" "tk_head t" addr]
      assms(2) wf by (simp add: tracker_contents_def t'_def)
  moreover have "tk_tail t' = (tk_head t' + tk_num_valid t') mod tk_max_size t'"
    using wf(3) by (simp add: t'_def mod_Suc_eq)
  ultimately show ?thesis
    using assms(1-3) by (auto simp: tracker_wf_def t'_def)
qed

lemma tracker_insert_wf:
  assumes "tracker_wf t" "addr \<noteq> -1"
  shows "\<exists>t'. tracker_insert t addr = Inr t' \<and> tracker_wf t'
    \<and> tracker_contents t' =
        fst (afifo_step (tk_max_size t) (tracker_contents t) (Insert_Row addr))
    \<and> tk_max_size t' = tk_max_size t \<and> tk_num_insert t' = tk_num_insert t + 1
    \<and> tk_num_remove t' = tk_num_remove t
    \<and> tk_num_evict t' = tk_num_evict t + (if tk_num_valid t = tk_max_size t then 1 else 0)
    \<and> tk_num_valid t' = min (tk_num_valid t + 1) (tk_max_size t)"
proof -
  obtain t1 where t1: "(if tk_num_valid t = tk_max_size t
      then rbind (tracker_remove (t\<lparr>tk_num_evict := tk_num_evict t + 1\<rparr>)) (\<lambda>(t', _). Inr t')
      else Inr t) = Inr t1" "tracker_wf t1" "tk_max_size t1 = tk_max_size t"
    "tk_num_valid t1 = (if tk_num_valid t = tk_max_size t then tk_num_valid t - 1 else tk_num_valid t)"
    "tracker_contents t1 = (if tk_num_valid t = tk_max_size t then tl (tracker_contents t)
       else tracker_contents t)"
    "tk_num_insert t1 = tk_num_insert t" "tk_num_remove t1 = tk_num_remove t"
    "tk_num_evict t1 = tk_num_evict t + (if tk_num_valid t = tk_max_size t then 1 else 0)"
    using tracker_remove_wf[of "t\<lparr>tk_num_evict := tk_num_evict t + 1\<rparr>"] assms(1)
    by (cases "tk_num_valid t = tk_max_size t") auto
  have "tk_num_valid t \<le> tk_max_size t" "0 < tk_max_size t"
    using assms(1) by (simp_all add: tracker_wf_def)
  then have lt: "tk_num_valid t1 < tk_max_size t1" using t1(3,4) by auto
  have tail: "tk_tail t1 < length (tk_ring t1)" "tk_max_size t1 \<noteq> 0"
    using t1(2) by (simp_all add: tracker_wf_def)
  show ?thesis
    using tracker_push[OF t1(2) lt assms(2)] t1 tail lt \<open>tk_num_valid t \<le> tk_max_size t\<close>
    unfolding tracker_insert_def t1(1) by auto
qed

text \<open>The tracker with the mitigation answer read as an option (-1 is "none").\<close>

definition mitig_option :: "tracker \<Rightarrow> tracker \<times> int option" where
  "mitig_option t = (case tracker_issue_mitig t of
      Inl _ \<Rightarrow> (t, None)
    | Inr (t', a) \<Rightarrow> (t', if a = -1 then None else Some a))"

definition tracker_cap_wf :: "nat \<Rightarrow> tracker \<Rightarrow> bool" where
  "tracker_cap_wf n t \<longleftrightarrow> tracker_wf t \<and> tk_max_size t = n"

lemma mitig_option_wf:
  assumes "tracker_wf t"
  shows "tracker_wf (fst (mitig_option t))"
    "tk_max_size (fst (mitig_option t)) = tk_max_size t"
    "tracker_contents (fst (mitig_option t)) = tl (tracker_contents t)"
    "snd (mitig_option t) = (case tracker_contents t of [] \<Rightarrow> None | x # _ \<Rightarrow> Some x)"
proof -
  obtain t' where m: "tracker_issue_mitig t =
      Inr (t', case tracker_contents t of [] \<Rightarrow> -1 | x # _ \<Rightarrow> x)"
    "tracker_wf t'" "tracker_contents t' = tl (tracker_contents t)"
    "tk_max_size t' = tk_max_size t"
    using tracker_issue_mitig_wf[OF assms] by auto
  have "-1 \<notin> set (tracker_contents t)" using assms by (simp add: tracker_wf_def)
  with m show "tracker_wf (fst (mitig_option t))"
    "tk_max_size (fst (mitig_option t)) = tk_max_size t"
    "tracker_contents (fst (mitig_option t)) = tl (tracker_contents t)"
    "snd (mitig_option t) = (case tracker_contents t of [] \<Rightarrow> None | x # _ \<Rightarrow> Some x)"
    by (auto simp: mitig_option_def split: list.splits)
qed

text \<open>gem5's trackers have the constructor's default size, 6 (\<open>RFM::RFM\<close> allocates them with
  \<open>new Tracker[...]\<close> and calls \<open>Init\<close> with \<open>tracker_size\<close>, whose default is 6 too).\<close>

definition default_size :: nat where "default_size = 6"

interpretation pride_tracker: fifo_tracker tracker_insert mitig_option tracker_contents
  "tracker_cap_wf default_size" "\<lambda>a. a \<noteq> -1" default_size
proof
  show "0 < default_size" by (simp add: default_size_def)
next
  fix t :: tracker and x :: int
  assume "tracker_cap_wf default_size t" "x \<noteq> -1"
  then show "\<exists>t'. tracker_insert t x = Inr t' \<and> tracker_cap_wf default_size t'"
    using tracker_insert_wf[of t x] by (auto simp: tracker_cap_wf_def)
next
  fix t t' :: tracker and x :: int
  assume "tracker_cap_wf default_size t" "x \<noteq> -1" "tracker_insert t x = Inr t'"
  then show "tracker_contents t' = fst (afifo_step default_size (tracker_contents t) (Insert_Row x))"
    using tracker_insert_wf[of t x] by (auto simp: tracker_cap_wf_def)
qed (auto simp: tracker_cap_wf_def mitig_option_wf, simp add: tracker_wf_def)

section \<open>Statistics\<close>

lemma tracker_remove_stats:
  assumes "tracker_remove t = Inr (t', a)"
  shows "tk_num_insert t' = tk_num_insert t" "tk_num_evict t' = tk_num_evict t"
    "tk_num_remove t' = tk_num_remove t"
    "tk_num_valid t' = (if 0 < tk_num_valid t then tk_num_valid t - 1 else 0)"
  using assms by (auto simp: tracker_remove_def split: if_splits)

lemma tracker_insert_stats:
  assumes "tracker_insert t x = Inr t'"
  shows "tk_num_insert t' = tk_num_insert t + 1" "tk_num_remove t' = tk_num_remove t"
    "0 < tk_max_size t \<Longrightarrow> tk_num_evict t' + tk_num_valid t' = tk_num_evict t + tk_num_valid t + 1"
proof -
  obtain t1 where t1: "(if tk_num_valid t = tk_max_size t
            then rbind (tracker_remove (t\<lparr>tk_num_evict := tk_num_evict t + 1\<rparr>)) (\<lambda>(t', _). Inr t')
            else Inr t) = Inr t1"
    and t': "tk_num_insert t' = tk_num_insert t1 + 1" "tk_num_remove t' = tk_num_remove t1"
      "tk_num_evict t' = tk_num_evict t1" "tk_num_valid t' = tk_num_valid t1 + 1"
    using assms by (auto simp: tracker_insert_def rbind_eq_Inr_iff split: if_splits)
  have "tk_num_insert t1 = tk_num_insert t" "tk_num_remove t1 = tk_num_remove t"
    "0 < tk_max_size t \<Longrightarrow> tk_num_evict t1 + tk_num_valid t1 = tk_num_evict t + tk_num_valid t"
    using t1 tracker_remove_stats[of "t\<lparr>tk_num_evict := tk_num_evict t + 1\<rparr>"]
    by (auto simp: rbind_eq_Inr_iff split: if_splits)
  then show "tk_num_insert t' = tk_num_insert t + 1" "tk_num_remove t' = tk_num_remove t"
    "0 < tk_max_size t \<Longrightarrow> tk_num_evict t' + tk_num_valid t' = tk_num_evict t + tk_num_valid t + 1"
    using t' by simp_all
qed

lemma mitig_option_stats:
  assumes "tracker_wf t"
  shows "tk_num_insert (fst (mitig_option t)) = tk_num_insert t"
    "tk_num_remove (fst (mitig_option t)) = tk_num_remove t + 1"
    "tk_num_evict (fst (mitig_option t)) + tk_num_valid (fst (mitig_option t)) +
       (case snd (mitig_option t) of None \<Rightarrow> 0 | Some _ \<Rightarrow> 1) = tk_num_evict t + tk_num_valid t"
proof -
  obtain t' a where m: "tracker_issue_mitig t = Inr (t', a)"
    using tracker_issue_mitig_wf[OF assms] by auto
  have fst: "fst (mitig_option t) = t'" by (simp add: mitig_option_def m)
  note st = tracker_remove_stats[OF m[unfolded tracker_issue_mitig_def]]
  show "tk_num_insert (fst (mitig_option t)) = tk_num_insert t"
    "tk_num_remove (fst (mitig_option t)) = tk_num_remove t + 1"
    using st by (simp_all add: fst)
  have "length (tracker_contents t) = tk_num_valid t" by simp
  then show "tk_num_evict (fst (mitig_option t)) + tk_num_valid (fst (mitig_option t)) +
       (case snd (mitig_option t) of None \<Rightarrow> 0 | Some _ \<Rightarrow> 1) = tk_num_evict t + tk_num_valid t"
    unfolding mitig_option_wf(4)[OF assms] fst using st
    by (cases "tracker_contents t") simp_all
qed

lemma tracker_run_stats:
  assumes "tracker_cap_wf default_size t" "\<forall>x\<in>set (inserted es). x \<noteq> -1"
    "tracker_run tracker_insert mitig_option t es = Inr (t', rs)"
  shows "tk_num_insert t' = tk_num_insert t + length (inserted es) \<and>
    tk_num_remove t' = tk_num_remove t + mitigations es \<and>
    tk_num_evict t' + tk_num_valid t' + length rs =
      tk_num_evict t + tk_num_valid t + length (inserted es)"
  using assms
proof (induction es arbitrary: t rs)
  case Nil
  then show ?case by simp
next
  case (Cons e es)
  show ?case
  proof (cases e)
    case (Insert_Row x)
    then obtain t1 where t1: "tracker_insert t x = Inr t1"
      "tracker_run tracker_insert mitig_option t1 es = Inr (t', rs)"
      using Cons.prems(3) by (auto simp: rbind_eq_Inr_iff)
    have "tracker_cap_wf default_size t1"
      using pride_tracker.ins_total[OF Cons.prems(1), of x] Cons.prems(2) Insert_Row t1 by auto
    then show ?thesis
      using Cons.IH[OF _ _ t1(2)] Cons.prems(1,2) tracker_insert_stats[OF t1(1)] Insert_Row
      by (simp add: tracker_cap_wf_def tracker_wf_def)
  next
    case Mitigate
    obtain t1 r where m: "mitig_option t = (t1, r)" by fastforce
    then obtain qs where r: "tracker_run tracker_insert mitig_option t1 es = Inr (t', qs)"
      "rs = (case r of None \<Rightarrow> qs | Some x \<Rightarrow> x # qs)"
      using Cons.prems(3) Mitigate by (auto simp: rbind_eq_Inr_iff)
    have "tracker_cap_wf default_size t1" using pride_tracker.mit_inv[OF Cons.prems(1)] m by simp
    then show ?thesis
      using Cons.IH[OF _ _ r(1)] Cons.prems(1,2) mitig_option_stats[of t] m r(2) Mitigate
      by (auto simp: tracker_cap_wf_def split: option.splits)
  qed
qed

section \<open>A size other than the constructor's\<close>

text \<open>After \<open>Init n\<close> with \<open>n\<close> below the constructor's size the vector is shorter than
  \<open>max_size\<close>: the state after \<open>k\<close> insertions.\<close>

lemma tracker_short_insert:
  assumes "length (tk_ring t) = n" "tk_max_size t = c" "n < c" "tk_num_valid t = k" "tk_tail t = k" "k \<le> n"
  shows "if k = n then tracker_insert t x = Inl OutOfBounds
    else \<exists>t'. tracker_insert t x = Inr t' \<and> length (tk_ring t') = n \<and> tk_max_size t' = c \<and>
      tk_num_valid t' = Suc k \<and> tk_tail t' = Suc k"
  using assms by (auto simp: tracker_insert_def)

lemma tracker_short_run:
  assumes "length (tk_ring t) = n" "tk_max_size t = c" "n < c" "tk_num_valid t = k" "tk_tail t = k" "k \<le> n"
    "n < k + length xs"
  shows "rfold tracker_insert t xs = Inl OutOfBounds"
  using assms
proof (induction xs arbitrary: t k)
  case (Cons x xs)
  show ?case
  proof (cases "k = n")
    case True
    then show ?thesis using tracker_short_insert[OF Cons.prems(1-6), of x] by simp
  next
    case False
    then obtain t' where "tracker_insert t x = Inr t'" "length (tk_ring t') = n" "tk_max_size t' = c"
      "tk_num_valid t' = Suc k" "tk_tail t' = Suc k"
      using tracker_short_insert[OF Cons.prems(1-6), of x] by auto
    then show ?thesis using Cons.IH[of t' "Suc k"] Cons.prems False by simp
  qed
qed simp

section \<open>Properties\<close>

text \<open>C2: From a fresh tracker of the default size, every sequence of row insertions and mitigations
  behaves as a bounded FIFO queue that drops its oldest row when it is full: no access leaves the
  ring, the mitigated rows are those the queue issues, in the same order, and the rows held at the
  end are the queue's.\<close>

theorem tracker_refines_fifo:
  assumes "-1 \<notin> set (inserted es)"
  shows "\<exists>t. tracker_run tracker_insert mitig_option (tracker_new default_size) es =
      Inr (t, issued (snd (afifo_run default_size [] es))) \<and>
    tracker_contents t = fst (afifo_run default_size [] es)"
proof -
  have "tracker_cap_wf default_size (tracker_new default_size)"
    by (simp add: tracker_cap_wf_def tracker_new_wf default_size_def) (simp add: tracker_new_def)
  moreover have "tracker_contents (tracker_new default_size) = []"
    by (simp add: tracker_new_def tracker_contents_def)
  ultimately show ?thesis
    using pride_tracker.run_refines[of "tracker_new default_size" es] assms by auto
qed

theorem tracker_refines_fifo_witness:
  "\<exists>t. tracker_run tracker_insert mitig_option (tracker_new default_size) [Insert_Row 7, Mitigate] =
      Inr (t, issued (snd (afifo_run default_size [] [Insert_Row 7, Mitigate]))) \<and>
    tracker_contents t = fst (afifo_run default_size [] [Insert_Row 7, Mitigate])"
  by (rule tracker_refines_fifo) simp

text \<open>Delivery guarantee: as long as the rows a tracker holds and the rows sampled afterwards
  fit in it, every row held is handed out for mitigation, in order, by the time as many mitigations
  have happened as rows were held.\<close>

theorem tracker_delivers_held_rows:
  assumes "tracker_cap_wf default_size t" "-1 \<notin> set (inserted es)"
    and "tk_num_valid t + length (inserted es) \<le> default_size" "tk_num_valid t \<le> mitigations es"
  shows "\<exists>t' rs. tracker_run tracker_insert mitig_option t es = Inr (t', rs) \<and>
    take (tk_num_valid t) rs = tracker_contents t"
  using pride_tracker.run_issues_held[OF assms(1), of es] assms(2-4) by auto

theorem tracker_delivers_held_rows_witness:
  "\<exists>t' rs. tracker_run tracker_insert mitig_option
       \<lparr>tk_max_size = 6, tk_ring = [5, 9, -1, -1, -1, -1], tk_num_valid = 2, tk_head = 0, tk_tail = 2,
        tk_num_remove = 0, tk_num_evict = 0, tk_num_insert = 2\<rparr>
       [Mitigate, Insert_Row 4, Mitigate] = Inr (t', rs) \<and> take 2 rs = [5, 9]"
  using tracker_delivers_held_rows
    [of "\<lparr>tk_max_size = 6, tk_ring = [5, 9, -1, -1, -1, -1], tk_num_valid = 2, tk_head = 0, tk_tail = 2,
        tk_num_remove = 0, tk_num_evict = 0, tk_num_insert = 2\<rparr>" "[Mitigate, Insert_Row 4, Mitigate]"]
  by (simp add: tracker_cap_wf_def tracker_wf_def default_size_def tracker_contents_def
      ring_contents_def numeral_2_eq_2)

text \<open>The tracker's counters account for every row: \<open>num_insert\<close> counts the insertions and
  \<open>num_remove\<close> the mitigation attempts, and every inserted row was evicted, is held, or was handed
  out for mitigation.\<close>

theorem tracker_accounting:
  assumes "-1 \<notin> set (inserted es)"
    and "tracker_run tracker_insert mitig_option (tracker_new default_size) es = Inr (t, rs)"
  shows "tk_num_insert t = length (inserted es) \<and> tk_num_remove t = mitigations es \<and>
    tk_num_insert t = tk_num_evict t + tk_num_valid t + length rs"
proof -
  have "tracker_cap_wf default_size (tracker_new default_size)"
    by (simp add: tracker_cap_wf_def tracker_new_wf default_size_def) (simp add: tracker_new_def)
  moreover have "\<forall>x\<in>set (inserted es). x \<noteq> -1" using assms(1) by auto
  ultimately show ?thesis
    using tracker_run_stats[OF _ _ assms(2)] by (simp add: tracker_new_def)
qed

theorem tracker_accounting_witness:
  "\<exists>t rs. tracker_run tracker_insert mitig_option (tracker_new default_size) [Insert_Row 7, Mitigate, Mitigate] = Inr (t, rs) \<and>
    tk_num_insert t = 1 \<and> tk_num_remove t = 2 \<and> tk_num_evict t + tk_num_valid t + length rs = 1"
proof -
  obtain t rs where r: "tracker_run tracker_insert mitig_option (tracker_new default_size)
      [Insert_Row 7, Mitigate, Mitigate] = Inr (t, rs)"
    by (simp add: tracker_insert_def tracker_new_def mitig_option_def tracker_issue_mitig_def
        tracker_remove_def default_size_def vec_resize_def)
  show ?thesis using tracker_accounting[OF _ r] r by auto
qed

text \<open>\<open>Init\<close> with a size below the constructor's leaves \<open>max_size\<close> too large: as soon as
  one row more than the new size has been inserted without a mitigation, the insertion writes
  outside the vector.\<close>

theorem tracker_Init_short_overflows:
  assumes "n < m" "n < length xs"
  shows "rfold tracker_insert (tracker_Init (tracker_new m) n) xs = Inl OutOfBounds"
  using assms by (intro tracker_short_run[where n = n and c = m and k = 0])
    (simp_all add: tracker_Init_def tracker_new_def)

theorem tracker_Init_short_overflows_witness:
  "rfold tracker_insert (tracker_Init (tracker_new default_size) 2) [10, 11, 12] = Inl OutOfBounds"
  by (rule tracker_Init_short_overflows) (simp_all add: default_size_def)

end
