(* ===== verification/Monte_Carlo.thy ===== *)
theory Monte_Carlo
  imports Complex_Main Fifo_Interface
begin

text \<open>
  The Monte-Carlo simulation of PrIDE's tracker,
  \<open>security/0_loss_probability/monte_carlo\<close>: the tracker of \<open>tracker.cpp\<close> (a ring of
  entries with a read pointer and a fill count, and per-position statistics) and the loop of
  \<open>sim.cpp\<close>.  \<open>hits k\<close> says whether the k-th draw is below the insertion probability; \<open>Sim_Program\<close>
  runs the loop with the generator that draws.  Doubles are reals here.
\<close>

section \<open>tracker.h and tracker.cpp\<close>

definition MAX_POS :: nat where "MAX_POS = 1024"
definition MAX_UNS :: nat where "MAX_UNS = 4294967295"

record mc_entry =
  en_pos :: nat
  en_addr :: nat

record mc_tracker =
  mt_entries :: "mc_entry list"
  mt_num_entries :: nat
  mt_num_valids :: nat
  mt_ptr :: nat
  mt_s_inserts :: nat
  mt_s_loss :: nat
  mt_s_inserts_pos :: "nat list"
  mt_s_loss_pos :: "nat list"

definition mc_tracker_new :: "nat \<Rightarrow> mc_tracker" where
  "mc_tracker_new entries =
     \<lparr> mt_entries = replicate entries \<lparr>en_pos = 0, en_addr = 0\<rparr>, mt_num_entries = entries,
       mt_num_valids = 0, mt_ptr = 0, mt_s_inserts = 0, mt_s_loss = 0,
       mt_s_inserts_pos = replicate MAX_POS 0, mt_s_loss_pos = replicate MAX_POS 0 \<rparr>"

text \<open>\<open>tracker_remove\<close>: the position of the oldest entry, or \<open>MAX_UNS\<close>.\<close>

definition mc_tracker_remove :: "mc_tracker \<Rightarrow> (mc_tracker \<times> nat) result" where
  "mc_tracker_remove t =
     (if 0 < mt_num_valids t then
        if mt_ptr t < length (mt_entries t) then
          if mt_num_entries t = 0 then Inl DivideByZero
          else Inr (t\<lparr>mt_ptr := u32 (mt_ptr t + 1) mod mt_num_entries t,
                      mt_num_valids := mt_num_valids t - 1\<rparr>, en_pos (mt_entries t ! mt_ptr t))
        else Inl OutOfBounds
      else Inr (t, MAX_UNS))"

definition mc_tracker_insert :: "mc_tracker \<Rightarrow> nat \<Rightarrow> nat \<Rightarrow> mc_tracker result" where
  "mc_tracker_insert t addr pos =
     rbind
       (if mt_num_valids t = mt_num_entries t then
          rbind (mc_tracker_remove t) (\<lambda>(t1, victim_pos).
            if victim_pos < length (mt_s_loss_pos t1) then
              Inr (t1\<lparr>mt_s_loss := mt_s_loss t1 + 1,
                      mt_s_loss_pos := (mt_s_loss_pos t1)[victim_pos := mt_s_loss_pos t1 ! victim_pos + 1]\<rparr>)
            else Inl OutOfBounds)
        else Inr t)
       (\<lambda>t1. if mt_num_entries t1 = 0 then Inl DivideByZero
         else let index = u32 (mt_ptr t1 + mt_num_valids t1) mod mt_num_entries t1 in
           if index < length (mt_entries t1) \<and> pos < length (mt_s_inserts_pos t1) then
             Inr (t1\<lparr>mt_entries := (mt_entries t1)[index := \<lparr>en_pos = pos, en_addr = addr\<rparr>],
                     mt_num_valids := mt_num_valids t1 + 1,
                     mt_s_inserts := mt_s_inserts t1 + 1,
                     mt_s_inserts_pos := (mt_s_inserts_pos t1)[pos := mt_s_inserts_pos t1 ! pos + 1]\<rparr>)
           else Inl OutOfBounds)"

text \<open>The loop of \<open>tracker_get_loss_prob\<close> keeps the largest ratio.  Position \<open>ii\<close> with no
  insertion gives 0/0, a NaN, whose comparison is false (a loss without an insertion would be
  an infinity; \<open>mc_loss_le_inserts\<close> excludes it).\<close>

fun mc_loss_max :: "mc_tracker \<Rightarrow> nat list \<Rightarrow> real \<Rightarrow> real" where
  "mc_loss_max t [] m = m"
| "mc_loss_max t (ii # is) m =
     (let my_loss_prob = real (mt_s_loss_pos t ! ii) / real (mt_s_inserts_pos t ! ii) in
      mc_loss_max t is
        (if mt_s_inserts_pos t ! ii = 0 then m
         else if m < my_loss_prob then my_loss_prob else m))"

definition mc_get_loss_prob :: "nat \<Rightarrow> mc_tracker \<Rightarrow> real" where
  "mc_get_loss_prob trefi t = mc_loss_max t [0..<trefi] 0"

section \<open>sim.cpp\<close>

definition MAX_ITER :: nat where "MAX_ITER = 100 * 1000 * 1000"

definition do_refresh :: "mc_tracker \<Rightarrow> mc_tracker result" where
  "do_refresh t = rbind (mc_tracker_remove t) (\<lambda>(t', _). Inr t')"

text \<open>The body of the \<open>while\<close> loop of \<open>sim_monte_carlo\<close>, for activation \<open>act_count\<close>.\<close>

definition sim_body :: "nat \<Rightarrow> (nat \<Rightarrow> bool) \<Rightarrow> nat \<Rightarrow> mc_tracker \<Rightarrow> mc_tracker result" where
  "sim_body trefi hits act_count t =
     rbind (if act_count mod trefi = 0 then do_refresh t else Inr t)
       (\<lambda>t1. if hits act_count
             then (let pos = act_count mod trefi; addr = pos in mc_tracker_insert t1 addr pos)
             else Inr t1)"

function sim_loop ::
  "nat \<Rightarrow> nat \<Rightarrow> (nat \<Rightarrow> bool) \<Rightarrow> nat \<Rightarrow> mc_tracker \<Rightarrow> mc_tracker result" where
  "sim_loop max_iter trefi hits act_count t =
     (if trefi = 0 then Inl DivideByZero
      else if act_count div trefi < max_iter then
        (case sim_body trefi hits act_count t of
           Inl e \<Rightarrow> Inl e
         | Inr t' \<Rightarrow> sim_loop max_iter trefi hits (act_count + 1) t')
      else Inr t)"
  by pat_completeness auto
termination
  by (relation "measure (\<lambda>(max_iter, trefi, hits, act_count, t). trefi * max_iter - act_count)")
     (auto simp: div_less_iff_less_mult mult.commute intro!: diff_less_mono2)

declare sim_loop.simps [simp del]

definition sim_monte_carlo ::
  "nat \<Rightarrow> nat \<Rightarrow> (nat \<Rightarrow> bool) \<Rightarrow> nat \<Rightarrow> real result" where
  "sim_monte_carlo max_iter trefi hits tracker_size =
     rbind (sim_loop max_iter trefi hits 0 (mc_tracker_new tracker_size))
       (\<lambda>t. Inr (mc_get_loss_prob trefi t))"

section \<open>Invariant\<close>

definition mc_contents :: "mc_tracker \<Rightarrow> nat list" where
  "mc_contents t =
     map en_pos (ring_contents (mt_entries t) (mt_ptr t) (mt_num_valids t) (mt_num_entries t))"

definition mc_ring_wf :: "mc_tracker \<Rightarrow> bool" where
  "mc_ring_wf t \<longleftrightarrow> 0 < mt_num_entries t \<and> mt_num_entries t < 2 ^ 31 \<and>
     length (mt_entries t) = mt_num_entries t \<and> mt_ptr t < mt_num_entries t \<and>
     mt_num_valids t \<le> mt_num_entries t"

definition mc_stats_wf :: "mc_tracker \<Rightarrow> bool" where
  "mc_stats_wf t \<longleftrightarrow> length (mt_s_inserts_pos t) = MAX_POS \<and> length (mt_s_loss_pos t) = MAX_POS \<and>
     (\<forall>p\<in>set (mc_contents t). p < MAX_POS) \<and>
     (\<forall>p<MAX_POS. mt_s_loss_pos t ! p + count_list (mc_contents t) p \<le> mt_s_inserts_pos t ! p) \<and>
     mt_s_inserts t = sum_list (mt_s_inserts_pos t) \<and> mt_s_loss t = sum_list (mt_s_loss_pos t)"

definition mc_wf :: "mc_tracker \<Rightarrow> bool" where
  "mc_wf t \<longleftrightarrow> mc_ring_wf t \<and> mc_stats_wf t"

lemma length_mc_contents [simp]: "length (mc_contents t) = mt_num_valids t"
  by (simp add: mc_contents_def)

lemma mc_new_wf: "0 < n \<Longrightarrow> n < 2147483648 \<Longrightarrow> mc_wf (mc_tracker_new n)"
  by (simp add: mc_wf_def mc_ring_wf_def mc_stats_wf_def mc_tracker_new_def mc_contents_def)

lemma mc_remove_spec:
  assumes "mc_ring_wf t"
  shows "\<exists>t'. mc_tracker_remove t =
      Inr (t', case mc_contents t of [] \<Rightarrow> MAX_UNS | p # _ \<Rightarrow> p)
    \<and> mc_ring_wf t' \<and> mc_contents t' = tl (mc_contents t)
    \<and> mt_num_entries t' = mt_num_entries t \<and> mt_num_valids t' = mt_num_valids t - 1
    \<and> mt_s_inserts t' = mt_s_inserts t \<and> mt_s_loss t' = mt_s_loss t
    \<and> mt_s_inserts_pos t' = mt_s_inserts_pos t \<and> mt_s_loss_pos t' = mt_s_loss_pos t"
proof (cases "mt_num_valids t = 0")
  case True
  then have "mc_contents t = []" by (metis length_0_conv length_mc_contents)
  then show ?thesis using True assms by (simp add: mc_tracker_remove_def)
next
  case False
  let ?t = "t\<lparr>mt_ptr := u32 (mt_ptr t + 1) mod mt_num_entries t,
              mt_num_valids := mt_num_valids t - 1\<rparr>"
  have wf: "0 < mt_num_entries t" "length (mt_entries t) = mt_num_entries t"
    "mt_ptr t < mt_num_entries t" "mt_num_valids t \<le> mt_num_entries t"
    "mt_num_entries t < 2147483648"
    using assms by (simp_all add: mc_ring_wf_def)
  then have u: "u32 (Suc (mt_ptr t)) = Suc (mt_ptr t)" by (simp add: u32_id)
  have cont: "mc_contents ?t = tl (mc_contents t)"
    using ring_contents_pop[of "mt_num_valids t" "mt_entries t" "mt_ptr t" "mt_num_entries t"] False
    by (simp add: mc_contents_def u map_tl)
  obtain p ps where c: "mc_contents t = p # ps"
    using False by (metis length_0_conv length_mc_contents neq_Nil_conv)
  have "p = en_pos (mt_entries t ! mt_ptr t)"
    using ring_contents_hd[of "mt_num_valids t" "mt_ptr t" "mt_num_entries t" "mt_entries t"]
      False wf c by (cases "ring_contents (mt_entries t) (mt_ptr t) (mt_num_valids t) (mt_num_entries t)")
        (auto simp: mc_contents_def)
  then show ?thesis
    using wf c cont False u by (auto simp: mc_tracker_remove_def mc_ring_wf_def)
qed

lemma mc_remove_wf:
  assumes "mc_wf t" "mc_tracker_remove t = Inr (t', p)"
  shows "mc_wf t'"
proof -
  have c: "count_list (tl (mc_contents t)) q \<le> count_list (mc_contents t) q" for q
    by (cases "mc_contents t") auto
  show ?thesis
    using mc_remove_spec[of t] assms c
    by (auto simp: mc_wf_def mc_stats_wf_def dest!: list.set_sel(2) split: list.splits)
       (metis add_left_mono le_trans)
qed

lemma mc_stats_lossD: "mc_stats_wf t \<Longrightarrow> p < MAX_POS \<Longrightarrow>
    mt_s_loss_pos t ! p + count_list (mc_contents t) p \<le> mt_s_inserts_pos t ! p"
  by (simp add: mc_stats_wf_def)

text \<open>\<open>insert\<close> in two halves: making room, then storing.\<close>

lemma mc_make_room:
  assumes "mc_wf t" "mt_num_valids t = mt_num_entries t"
  shows "\<exists>t1. rbind (mc_tracker_remove t) (\<lambda>(t1, victim_pos).
            if victim_pos < length (mt_s_loss_pos t1) then
              Inr (t1\<lparr>mt_s_loss := mt_s_loss t1 + 1,
                mt_s_loss_pos := (mt_s_loss_pos t1)[victim_pos := mt_s_loss_pos t1 ! victim_pos + 1]\<rparr>)
            else Inl OutOfBounds) = Inr t1
    \<and> mc_wf t1 \<and> mt_num_entries t1 = mt_num_entries t
    \<and> mt_num_valids t1 = mt_num_valids t - 1 \<and> mc_contents t1 = tl (mc_contents t)
    \<and> mt_s_inserts t1 = mt_s_inserts t \<and> mt_s_loss t1 = mt_s_loss t + 1"
proof -
  have "0 < mt_num_valids t" using assms by (simp add: mc_wf_def mc_ring_wf_def)
  then obtain p ps where c: "mc_contents t = p # ps"
    by (metis length_0_conv length_mc_contents neq_Nil_conv neq0_conv)
  obtain t' where t': "mc_tracker_remove t = Inr (t', p)" "mc_ring_wf t'" "mc_contents t' = ps"
    "mt_num_entries t' = mt_num_entries t" "mt_num_valids t' = mt_num_valids t - 1"
    "mt_s_inserts t' = mt_s_inserts t" "mt_s_loss t' = mt_s_loss t"
    "mt_s_inserts_pos t' = mt_s_inserts_pos t" "mt_s_loss_pos t' = mt_s_loss_pos t"
    using mc_remove_spec[of t] assms(1) c by (auto simp: mc_wf_def)
  have st: "mc_stats_wf t" using assms(1) by (simp add: mc_wf_def)
  have p: "p < MAX_POS" "length (mt_s_loss_pos t) = MAX_POS" using st c by (simp_all add: mc_stats_wf_def)
  let ?t = "t'\<lparr>mt_s_loss := mt_s_loss t' + 1,
                mt_s_loss_pos := (mt_s_loss_pos t')[p := mt_s_loss_pos t' ! p + 1]\<rparr>"
  have cc: "mc_contents ?t = ps" using t'(3) by (simp add: mc_contents_def)
  have "mc_stats_wf ?t"
    unfolding mc_stats_wf_def cc
  proof (intro conjI allI impI)
    fix q assume q: "q < MAX_POS"
    show "mt_s_loss_pos ?t ! q + count_list ps q \<le> mt_s_inserts_pos ?t ! q"
      using mc_stats_lossD[OF st q] p t' c by (auto simp: nth_list_update)
  qed (use st t' c p in \<open>auto simp: mc_stats_wf_def sum_list_update_Suc\<close>)
  moreover have "mc_ring_wf ?t" using t'(2) by (simp add: mc_ring_wf_def)
  ultimately show ?thesis using t' p c cc by (simp add: mc_wf_def)
qed

lemma mc_store:
  fixes a :: nat
  assumes "mc_wf t" "mt_num_valids t < mt_num_entries t" "pos < MAX_POS"
  defines "i \<equiv> u32 (mt_ptr t + mt_num_valids t) mod mt_num_entries t"
  defines "t' \<equiv> t\<lparr>mt_entries := (mt_entries t)[i := \<lparr>en_pos = pos, en_addr = a\<rparr>],
      mt_num_valids := mt_num_valids t + 1, mt_s_inserts := mt_s_inserts t + 1,
      mt_s_inserts_pos := (mt_s_inserts_pos t)[pos := mt_s_inserts_pos t ! pos + 1]\<rparr>"
  shows "i < length (mt_entries t) \<and> pos < length (mt_s_inserts_pos t) \<and> mc_wf t'
    \<and> mc_contents t' = mc_contents t @ [pos]"
proof -
  have r: "0 < mt_num_entries t" "length (mt_entries t) = mt_num_entries t"
    "mt_num_entries t < 2147483648" "mt_ptr t < mt_num_entries t"
    using assms(1) by (simp_all add: mc_wf_def mc_ring_wf_def)
  have st: "mc_stats_wf t" using assms(1) by (simp add: mc_wf_def)
  have i: "i = (mt_ptr t + mt_num_valids t) mod mt_num_entries t"
    using r assms(2) by (simp add: i_def u32_id)
  have cont: "mc_contents t' = mc_contents t @ [pos]"
    using ring_contents_push[of "mt_num_valids t" "mt_num_entries t" "mt_entries t" "mt_ptr t"]
      assms(2) r by (simp add: mc_contents_def t'_def i)
  have "mc_stats_wf t'"
    unfolding mc_stats_wf_def cont
  proof (intro conjI allI impI)
    fix q assume q: "q < MAX_POS"
    show "mt_s_loss_pos t' ! q + count_list (mc_contents t @ [pos]) q \<le> mt_s_inserts_pos t' ! q"
      using mc_stats_lossD[OF st q] st assms(3) by (auto simp: t'_def mc_stats_wf_def nth_list_update)
  qed (use st assms(3) in \<open>auto simp: mc_stats_wf_def t'_def sum_list_update_Suc\<close>)
  moreover have "mc_ring_wf t'"
    using assms(1,2) r by (simp add: mc_wf_def mc_ring_wf_def t'_def)
  ultimately show ?thesis
    using cont i r st assms(3) by (simp add: mc_wf_def mc_stats_wf_def)
qed

lemma mc_insert_spec:
  assumes "mc_wf t" "pos < MAX_POS"
  shows "\<exists>t'. mc_tracker_insert t a pos = Inr t' \<and> mc_wf t'
    \<and> mt_num_entries t' = mt_num_entries t
    \<and> mc_contents t' = fst (afifo_step (mt_num_entries t) (mc_contents t) (Insert_Row pos))
    \<and> mt_s_inserts t' = mt_s_inserts t + 1
    \<and> mt_s_loss t' = mt_s_loss t + (if mt_num_valids t = mt_num_entries t then 1 else 0)"
proof (cases "mt_num_valids t = mt_num_entries t")
  case True
  obtain t1 where t1: "rbind (mc_tracker_remove t) (\<lambda>(t1, victim_pos).
            if victim_pos < length (mt_s_loss_pos t1) then
              Inr (t1\<lparr>mt_s_loss := mt_s_loss t1 + 1,
                mt_s_loss_pos := (mt_s_loss_pos t1)[victim_pos := mt_s_loss_pos t1 ! victim_pos + 1]\<rparr>)
            else Inl OutOfBounds) = Inr t1"
    "mc_wf t1" "mt_num_entries t1 = mt_num_entries t" "mt_num_valids t1 = mt_num_valids t - 1"
    "mc_contents t1 = tl (mc_contents t)" "mt_s_inserts t1 = mt_s_inserts t"
    "mt_s_loss t1 = mt_s_loss t + 1"
    using mc_make_room[OF assms(1) True] by auto
  have "0 < mt_num_entries t" using assms(1) by (simp add: mc_wf_def mc_ring_wf_def)
  then show ?thesis
    using mc_store[OF t1(2) _ assms(2), of a] t1 True
    unfolding mc_tracker_insert_def by (simp add: Let_def)
next
  case False
  then have "mt_num_valids t < mt_num_entries t" "0 < mt_num_entries t"
    using assms(1) by (simp_all add: mc_wf_def mc_ring_wf_def)
  then show ?thesis
    using mc_store[OF assms(1) _ assms(2), of a] False
    unfolding mc_tracker_insert_def by (simp add: Let_def)
qed

text \<open>The simulation's tracker keeps the tracker contract for its positions.\<close>

definition mc_mitig_option :: "mc_tracker \<Rightarrow> mc_tracker \<times> nat option" where
  "mc_mitig_option t = (case mc_tracker_remove t of
      Inl _ \<Rightarrow> (t, None)
    | Inr (t', p) \<Rightarrow> (t', if p = MAX_UNS then None else Some p))"

definition mc_cap_wf :: "nat \<Rightarrow> mc_tracker \<Rightarrow> bool" where
  "mc_cap_wf n t \<longleftrightarrow> mc_wf t \<and> mt_num_entries t = n"

lemma mc_mitig_option_spec:
  assumes "mc_wf t"
  shows "mc_wf (fst (mc_mitig_option t))"
    "mt_num_entries (fst (mc_mitig_option t)) = mt_num_entries t"
    "mc_contents (fst (mc_mitig_option t)) = tl (mc_contents t)"
    "snd (mc_mitig_option t) = (case mc_contents t of [] \<Rightarrow> None | p # _ \<Rightarrow> Some p)"
proof -
  obtain t' where t': "mc_tracker_remove t =
      Inr (t', case mc_contents t of [] \<Rightarrow> MAX_UNS | p # _ \<Rightarrow> p)"
    "mc_contents t' = tl (mc_contents t)" "mt_num_entries t' = mt_num_entries t"
    using mc_remove_spec[of t] assms by (auto simp: mc_wf_def)
  have "MAX_UNS \<notin> set (mc_contents t)"
    using assms by (auto simp: mc_wf_def mc_stats_wf_def MAX_POS_def MAX_UNS_def)
  then show "mc_wf (fst (mc_mitig_option t))"
    "mt_num_entries (fst (mc_mitig_option t)) = mt_num_entries t"
    "mc_contents (fst (mc_mitig_option t)) = tl (mc_contents t)"
    "snd (mc_mitig_option t) = (case mc_contents t of [] \<Rightarrow> None | p # _ \<Rightarrow> Some p)"
    using t' mc_remove_wf[OF assms t'(1)] by (auto simp: mc_mitig_option_def split: list.splits)
qed

text \<open>\<open>sim.cpp\<close>'s default capacity is 6; its runs use 1, 2, 4, 8 and 16.\<close>

interpretation sim_tracker: fifo_tracker "\<lambda>t p. mc_tracker_insert t p p" mc_mitig_option
  mc_contents "mc_cap_wf 6" "\<lambda>p. p < MAX_POS" 6
proof
  fix t t' :: mc_tracker and x :: nat
  assume "mc_cap_wf 6 t" "x < MAX_POS" "mc_tracker_insert t x x = Inr t'"
  then show "mc_contents t' = fst (afifo_step 6 (mc_contents t) (Insert_Row x))"
    using mc_insert_spec[of t x x] by (auto simp: mc_cap_wf_def)
next
  fix t :: mc_tracker and x :: nat
  assume "mc_cap_wf 6 t" "x < MAX_POS"
  then show "\<exists>t'. mc_tracker_insert t x x = Inr t' \<and> mc_cap_wf 6 t'"
    using mc_insert_spec[of t x x] by (auto simp: mc_cap_wf_def)
qed (auto simp: mc_cap_wf_def mc_mitig_option_spec, simp add: mc_wf_def mc_ring_wf_def)

section \<open>The simulation\<close>

lemma sim_body_spec:
  assumes "mc_wf t" "0 < trefi" "trefi \<le> MAX_POS"
  shows "\<exists>t'. sim_body trefi hits k t = Inr t' \<and> mc_wf t' \<and> mt_num_entries t' = mt_num_entries t
    \<and> mt_s_inserts t' = mt_s_inserts t + (if hits k then 1 else 0)"
proof -
  obtain t1 where t1: "(if k mod trefi = 0 then do_refresh t else Inr t) = Inr t1" "mc_wf t1"
    "mt_num_entries t1 = mt_num_entries t" "mt_s_inserts t1 = mt_s_inserts t"
  proof (cases "k mod trefi = 0")
    case True
    obtain t' p where t': "mc_tracker_remove t = Inr (t', p)" "mt_num_entries t' = mt_num_entries t"
      "mt_s_inserts t' = mt_s_inserts t"
      using mc_remove_spec[of t] assms(1) by (auto simp: mc_wf_def)
    then show ?thesis using that[of t'] True mc_remove_wf[OF assms(1) t'(1)]
      by (simp add: do_refresh_def)
  qed (use that assms in auto)
  have "k mod trefi < MAX_POS" using assms(2,3) by (meson mod_less_divisor order_less_le_trans)
  then show ?thesis
    using mc_insert_spec[OF t1(2), of "k mod trefi" "k mod trefi"] t1
    unfolding sim_body_def t1(1) by (auto simp: Let_def)
qed

text \<open>From activation \<open>k\<close> to the end, the loop inserts exactly the rows the draws select.\<close>

lemma sim_loop_spec:
  assumes "mc_wf t" "0 < trefi" "trefi \<le> MAX_POS"
  shows "\<exists>t'. sim_loop max_iter trefi hits k t = Inr t' \<and> mc_wf t'
    \<and> mt_num_entries t' = mt_num_entries t
    \<and> mt_s_inserts t' = mt_s_inserts t + card {j. k \<le> j \<and> j < trefi * max_iter \<and> hits j}"
  using assms
proof (induction max_iter trefi hits k t rule: sim_loop.induct)
  case (1 max_iter trefi hits k t)
  show ?case
  proof (cases "k div trefi < max_iter")
    case True
    then have k: "k < trefi * max_iter" using "1.prems"(2) by (simp add: div_less_iff_less_mult mult.commute)
    obtain t1 where t1: "sim_body trefi hits k t = Inr t1" "mc_wf t1"
      "mt_num_entries t1 = mt_num_entries t"
      "mt_s_inserts t1 = mt_s_inserts t + (if hits k then 1 else 0)"
      using sim_body_spec[OF "1.prems", of hits k] by auto
    let ?J = "\<lambda>k. {j. k \<le> j \<and> j < trefi * max_iter \<and> hits j}"
    have split: "?J k = (if hits k then insert k (?J (k + 1)) else ?J (k + 1))"
    proof -
      have "j \<in> ?J k \<longleftrightarrow> j \<in> (if hits k then insert k (?J (k + 1)) else ?J (k + 1))" for j
        using k by (cases "j = k") auto
      then show ?thesis by blast
    qed
    have "finite (?J (k + 1))" by simp
    then have card: "card (?J k) = card (?J (k + 1)) + (if hits k then 1 else 0)"
      unfolding split by simp
    obtain t' where "sim_loop max_iter trefi hits (k + 1) t1 = Inr t'" "mc_wf t'"
      "mt_num_entries t' = mt_num_entries t1"
      "mt_s_inserts t' = mt_s_inserts t1 + card (?J (k + 1))"
      using "1.IH"[OF _ True t1(1)] t1(2) "1.prems"(2,3) by auto
    then show ?thesis
      using t1 True "1.prems"(2) card by (simp add: sim_loop.simps[of max_iter trefi hits k t])
  next
    case False
    then have none: "{j. k \<le> j \<and> j < trefi * max_iter \<and> hits j} = {}"
      using "1.prems"(2) by (auto simp: div_less_iff_less_mult mult.commute)
    show ?thesis
      unfolding none using False "1.prems"(1,2)
      by (simp add: sim_loop.simps[of max_iter trefi hits k t])
  qed
qed

lemma mc_loss_ratio:
  assumes "mc_wf t" "p < MAX_POS"
  shows "mt_s_loss_pos t ! p \<le> mt_s_inserts_pos t ! p"
  using mc_stats_lossD[of t p] assms by (simp add: mc_wf_def)

lemma mc_loss_max_bounds:
  assumes "mc_wf t" "\<forall>p\<in>set ps. p < MAX_POS" "0 \<le> m" "m \<le> 1"
  shows "0 \<le> mc_loss_max t ps m \<and> mc_loss_max t ps m \<le> 1 \<and> m \<le> mc_loss_max t ps m"
  using assms
proof (induction ps arbitrary: m)
  case (Cons p ps)
  let ?r = "real (mt_s_loss_pos t ! p) / real (mt_s_inserts_pos t ! p)"
  let ?m = "if mt_s_inserts_pos t ! p = 0 then m else if m < ?r then ?r else m"
  have "?r \<le> 1" using mc_loss_ratio[of t p] Cons.prems by (simp add: divide_le_eq)
  then have "0 \<le> ?m" "?m \<le> 1" "m \<le> ?m" using Cons.prems by auto
  then have "0 \<le> mc_loss_max t ps ?m \<and> mc_loss_max t ps ?m \<le> 1 \<and> ?m \<le> mc_loss_max t ps ?m"
    using Cons.IH Cons.prems by simp
  with \<open>m \<le> ?m\<close> show ?case by (simp add: Let_def)
qed simp

lemma mc_loss_max_upper:
  assumes "mc_wf t" "\<forall>p\<in>set ps. p < MAX_POS" "0 \<le> m" "m \<le> 1" "q \<in> set ps" "0 < mt_s_inserts_pos t ! q"
  shows "real (mt_s_loss_pos t ! q) / real (mt_s_inserts_pos t ! q) \<le> mc_loss_max t ps m"
  using assms
proof (induction ps arbitrary: m)
  case (Cons p ps)
  let ?r = "real (mt_s_loss_pos t ! p) / real (mt_s_inserts_pos t ! p)"
  let ?m = "if mt_s_inserts_pos t ! p = 0 then m else if m < ?r then ?r else m"
  have "?r \<le> 1" using mc_loss_ratio[of t p] Cons.prems by (simp add: divide_le_eq)
  then have m: "0 \<le> ?m" "?m \<le> 1" using Cons.prems by auto
  show ?case
  proof (cases "q \<in> set ps")
    case True
    then show ?thesis using Cons.IH[of ?m] Cons.prems m by (simp add: Let_def)
  next
    case False
    then have q: "q = p" using Cons.prems by simp
    then have "?r \<le> ?m" using Cons.prems by simp
    also have "?m \<le> mc_loss_max t ps ?m"
      using mc_loss_max_bounds[of t ps ?m] Cons.prems m by simp
    finally show ?thesis using q by (simp add: Let_def)
  qed
qed simp

section \<open>Properties\<close>

text \<open>The Monte Carlo simulation runs to its end for every window of at most 1024 activations
  and every tracker size below 2^31: no array access is out of bounds, and the number of insertions
  it counts is the number of activations whose draw was below the insertion probability.\<close>

theorem simulation_counts_insertions:
  assumes "0 < trefi" "trefi \<le> MAX_POS" "0 < n" "n < 2147483648"
  shows "\<exists>t. sim_loop max_iter trefi hits 0 (mc_tracker_new n) = Inr t \<and>
    mt_s_inserts t = card {j. j < trefi * max_iter \<and> hits j} \<and> mt_s_loss t \<le> mt_s_inserts t"
proof -
  have z: "mt_s_inserts (mc_tracker_new n) = 0" by (simp add: mc_tracker_new_def)
  obtain t where t: "sim_loop max_iter trefi hits 0 (mc_tracker_new n) = Inr t" "mc_wf t"
    "mt_s_inserts t = card {j. j < trefi * max_iter \<and> hits j}"
    using sim_loop_spec[OF mc_new_wf[OF assms(3,4)] assms(1,2), of max_iter hits 0] by (auto simp: z)
  have "sum_list (mt_s_loss_pos t) \<le> sum_list (mt_s_inserts_pos t)"
  proof (rule sum_list_mono2)
    show "length (mt_s_loss_pos t) = length (mt_s_inserts_pos t)"
      using t(2) by (simp add: mc_wf_def mc_stats_wf_def)
    show "\<And>i. i < length (mt_s_loss_pos t) \<longrightarrow> mt_s_loss_pos t ! i \<le> mt_s_inserts_pos t ! i"
      using mc_loss_ratio[OF t(2)] t(2) by (simp add: mc_wf_def mc_stats_wf_def)
  qed
  then show ?thesis using t by (auto simp: mc_wf_def mc_stats_wf_def)
qed

theorem simulation_counts_insertions_witness:
  "\<exists>t. sim_loop MAX_ITER 79 (\<lambda>j. j mod 80 = 0) 0 (mc_tracker_new 16) = Inr t \<and>
    mt_s_inserts t = card {j. j < 79 * MAX_ITER \<and> j mod 80 = 0} \<and> mt_s_loss t \<le> mt_s_inserts t"
  by (rule simulation_counts_insertions) (simp_all add: MAX_POS_def)

text \<open>C18: The loss probability the simulation reports is a probability, and it is at least the
  loss ratio of every position of the refresh window that had an insertion.\<close>

theorem simulation_loss_probability:
  assumes "0 < trefi" "trefi \<le> MAX_POS" "0 < n" "n < 2147483648"
  shows "\<exists>t p. sim_loop max_iter trefi hits 0 (mc_tracker_new n) = Inr t \<and>
    sim_monte_carlo max_iter trefi hits n = Inr p \<and> 0 \<le> p \<and> p \<le> 1 \<and>
    (\<forall>pos<trefi. 0 < mt_s_inserts_pos t ! pos \<longrightarrow>
       real (mt_s_loss_pos t ! pos) / real (mt_s_inserts_pos t ! pos) \<le> p)"
proof -
  obtain t where t: "sim_loop max_iter trefi hits 0 (mc_tracker_new n) = Inr t" "mc_wf t"
    using sim_loop_spec[OF mc_new_wf[OF assms(3,4)] assms(1,2), of max_iter hits 0] by auto
  have ps: "\<forall>p\<in>set [0..<trefi]. p < MAX_POS" using assms(2) by simp
  show ?thesis
    using t mc_loss_max_bounds[OF t(2) ps, of 0] mc_loss_max_upper[OF t(2) ps, of 0]
    by (simp add: sim_monte_carlo_def mc_get_loss_prob_def)
qed

theorem simulation_loss_probability_witness:
  "\<exists>t p. sim_loop MAX_ITER 79 (\<lambda>j. j mod 80 = 0) 0 (mc_tracker_new 6) = Inr t \<and>
    sim_monte_carlo MAX_ITER 79 (\<lambda>j. j mod 80 = 0) 6 = Inr p \<and> 0 \<le> p \<and> p \<le> 1 \<and>
    (\<forall>pos<79. 0 < mt_s_inserts_pos t ! pos \<longrightarrow>
       real (mt_s_loss_pos t ! pos) / real (mt_s_inserts_pos t ! pos) \<le> p)"
  by (rule simulation_loss_probability) (simp_all add: MAX_POS_def)

end
