(* ===== verification/Detector_Interface.thy ===== *)
theory Detector_Interface
  imports Pride_Base
begin

text \<open>
  The contract of an aggressor detector (\<open>RH_Detector\<close> of \<open>mem/rowhammer_detector.hh\<close>) for
  one bank: an estimate \<open>est\<close> of every row's activations that an access of the row raises by
  one, a level \<open>base\<close> that all untracked rows share, and a flag at every multiple of the
  threshold.  The lemmas proved from the contract say that, as long as the shared level stays
  below the threshold, no row is activated \<open>k * threshold\<close> times without being flagged
  \<open>k\<close> times.
\<close>

text \<open>A run of activations; the answer lists the flagged activations in order.\<close>

fun det_run :: "('d \<Rightarrow> nat \<Rightarrow> ('d \<times> bool) result) \<Rightarrow> 'd \<Rightarrow> nat list \<Rightarrow> ('d \<times> nat list) result" where
  "det_run acc d [] = Inr (d, [])"
| "det_run acc d (r # rs) =
     rbind (acc d r) (\<lambda>(d1, f).
       rbind (det_run acc d1 rs) (\<lambda>(d2, fs). Inr (d2, if f then r # fs else fs)))"

locale rh_detector =
  fixes acc :: "'d \<Rightarrow> nat \<Rightarrow> ('d \<times> bool) result"
    and est :: "'d \<Rightarrow> nat \<Rightarrow> nat"
    and base :: "'d \<Rightarrow> nat"
    and inv :: "nat \<Rightarrow> 'd \<Rightarrow> bool"
    and ok :: "nat \<Rightarrow> bool"
    and th :: nat
    and cap :: nat
    and lim :: nat
  assumes inv_th: "inv N d \<Longrightarrow> 0 < th"
    and acc_total: "inv N d \<Longrightarrow> ok r \<Longrightarrow> N < lim \<Longrightarrow> \<exists>d' f. acc d r = Inr (d', f) \<and> inv (Suc N) d'"
    and acc_own: "inv N d \<Longrightarrow> ok r \<Longrightarrow> N < lim \<Longrightarrow> acc d r = Inr (d', f) \<Longrightarrow> est d' r = Suc (est d r)"
    and acc_other: "inv N d \<Longrightarrow> ok r \<Longrightarrow> N < lim \<Longrightarrow> acc d r = Inr (d', f) \<Longrightarrow> q \<noteq> r \<Longrightarrow>
      est d' q = est d q \<or> est d q = base d \<and> est d' q = base d'"
    and base_mono: "inv N d \<Longrightarrow> ok r \<Longrightarrow> N < lim \<Longrightarrow> acc d r = Inr (d', f) \<Longrightarrow> base d \<le> base d'"
    and acc_flag: "inv N d \<Longrightarrow> ok r \<Longrightarrow> N < lim \<Longrightarrow> acc d r = Inr (d', f) \<Longrightarrow>
      f \<longleftrightarrow> th dvd est d' r \<and> (f \<or> est d' r \<noteq> base d')"
    and base_bound: "inv N d \<Longrightarrow> base d * (cap + 1) \<le> N"
begin

lemma base_below:
  assumes "inv N d" "N < th * (cap + 1)"
  shows "base d < th"
proof (rule ccontr)
  assume "\<not> base d < th"
  then have "th * (cap + 1) \<le> base d * (cap + 1)" by (intro mult_le_mono1) simp
  with base_bound[OF assms(1)] assms(2) show False by linarith
qed

lemma est_mono:
  assumes "inv N d" "ok r" "N < lim" "acc d r = Inr (d', f)"
  shows "est d q + (if q = r then 1 else 0) \<le> est d' q"
proof (cases "q = r")
  case True
  then show ?thesis using acc_own[OF assms] by simp
next
  case False
  then show ?thesis using acc_other[OF assms, of q] base_mono[OF assms] by auto
qed

text \<open>Estimates never fall below the number of activations.\<close>

lemma run_est:
  assumes "inv N d" "\<forall>r\<in>set rs. ok r" "N + length rs \<le> lim"
  shows "\<exists>d' fs. det_run acc d rs = Inr (d', fs) \<and> inv (N + length rs) d'
    \<and> base d \<le> base d' \<and> (\<forall>q. est d q + count_list rs q \<le> est d' q)"
  using assms
proof (induction rs arbitrary: N d)
  case Nil
  then show ?case by simp
next
  case (Cons r rs)
  have r: "ok r" "N < lim" using Cons.prems by simp_all
  obtain d1 f where a: "acc d r = Inr (d1, f)" "inv (Suc N) d1"
    using acc_total[OF Cons.prems(1) r] by auto
  obtain d' fs where d': "det_run acc d1 rs = Inr (d', fs)" "inv (Suc N + length rs) d'"
    "base d1 \<le> base d'" "\<forall>q. est d1 q + count_list rs q \<le> est d' q"
    using Cons.IH[OF a(2)] Cons.prems by auto
  have "est d q + count_list (r # rs) q \<le> est d' q" for q
    using est_mono[OF Cons.prems(1) r a(1), of q] d'(4)[rule_format, of q] by (auto split: if_splits)
  moreover have "base d \<le> base d'"
    using base_mono[OF Cons.prems(1) r a(1)] d'(3) by simp
  ultimately show ?case using a d' by simp
qed

lemma step_flags:
  assumes "inv N d" "ok r" "N < lim" "acc d r = Inr (d', f)" "base d' < th"
  shows "est d' q div th = est d q div th + (if f \<and> q = r then 1 else 0)"
proof (cases "q = r")
  case True
  have own: "est d' r = Suc (est d r)" by (rule acc_own[OF assms(1-4)])
  have "f \<longleftrightarrow> th dvd est d' r"
  proof -
    have "\<not> th dvd est d' r" if "est d' r = base d'" "est d' r \<noteq> 0"
      using that assms(5) by (auto dest: dvd_imp_le)
    then show ?thesis using acc_flag[OF assms(1-4)] own by auto
  qed
  then show ?thesis using True own by (simp add: div_Suc dvd_eq_mod_eq_0)
next
  case False
  then show ?thesis
    using acc_other[OF assms(1-4) False] base_mono[OF assms(1-4)] assms(5) by auto
qed

text \<open>While the shared level is below the threshold, a row's flags are exactly the multiples
  of the threshold its estimate has passed.\<close>

lemma run_flags:
  assumes "inv N d" "\<forall>r\<in>set rs. ok r" "N + length rs \<le> lim" "N + length rs < th * (cap + 1)"
    "det_run acc d rs = Inr (d', fs)"
  shows "est d' q div th = est d q div th + count_list fs q"
  using assms
proof (induction rs arbitrary: N d fs)
  case Nil
  then show ?case by simp
next
  case (Cons r rs)
  have r: "ok r" "N < lim" using Cons.prems by simp_all
  obtain d1 f where a: "acc d r = Inr (d1, f)" "inv (Suc N) d1"
    using acc_total[OF Cons.prems(1) r] by auto
  obtain gs where g: "det_run acc d1 rs = Inr (d', gs)" "fs = (if f then r # gs else gs)"
    using Cons.prems(5) a(1) by (auto simp: rbind_eq_Inr_iff)
  have b: "base d1 < th" using base_below[OF a(2)] Cons.prems(4) by simp
  have "est d' q div th = est d1 q div th + count_list gs q"
    using Cons.IH[OF a(2) _ _ _ g(1)] Cons.prems(2-4) by simp
  then show ?case using step_flags[OF Cons.prems(1) r a(1) b, of q] g(2) by auto
qed

text \<open>The detection guarantee.\<close>

lemma run_detects:
  assumes "inv 0 d" "\<forall>r\<in>set rs. ok r" "length rs \<le> lim" "length rs < th * (cap + 1)"
  shows "\<exists>d' fs. det_run acc d rs = Inr (d', fs) \<and>
    (\<forall>q. count_list rs q div th \<le> est d q div th + count_list fs q)"
proof -
  obtain d' fs where d': "det_run acc d rs = Inr (d', fs)"
    "\<forall>q. est d q + count_list rs q \<le> est d' q"
    using run_est[OF assms(1,2)] assms(3) by auto
  have "count_list rs q div th \<le> est d q div th + count_list fs q" for q
  proof -
    have "count_list rs q div th \<le> est d' q div th"
      using d'(2)[rule_format, of q] by (intro div_le_mono) simp
    then show ?thesis
      using run_flags[OF assms(1,2) _ _ d'(1), of q] assms(3,4) by simp
  qed
  then show ?thesis using d'(1) by blast
qed

end

text \<open>A detector that also answers the functional lookup "is this row tracked".\<close>

locale rh_detector_lookup = rh_detector +
  fixes look :: "'d \<Rightarrow> nat \<Rightarrow> bool result"
  assumes look_total: "inv N d \<Longrightarrow> ok r \<Longrightarrow> \<exists>b. look d r = Inr b"
    and look_untracked: "inv N d \<Longrightarrow> ok r \<Longrightarrow> look d r = Inr False \<Longrightarrow> est d r = base d"
begin

text \<open>A row the lookup does not know has been activated fewer than \<open>th\<close> times.\<close>

lemma untracked_cold:
  assumes "inv N d" "ok r" "N < th * (cap + 1)" "look d r = Inr False"
  shows "est d r < th"
  using base_below[OF assms(1,3)] look_untracked[OF assms(1,2,4)] by simp

end

end
