(* ===== verification/Misra_Gries.thy ===== *)
theory Misra_Gries
  imports Detector_Interface
begin

text \<open>
  \<open>Misra_Gries\<close> of \<open>performance/gem5/src/mem/rowhammer_detector.{hh,cc}\<close>: per bank a table of
  counters with a spill counter and a reverse index \<open>rowHasEntry\<close> (entry number plus one, 0
  for none).  A failed \<open>assert\<close> and an index outside an array are faults.  The members that
  \<open>new Tracker[...]\<close> leaves uninitialised are the argument \<open>mem\<close> of the constructor.
\<close>

section \<open>State\<close>

record mg_entry =
  mg_valid :: bool
  mg_addr :: nat
  mg_count :: nat

record mg_tracker =
  mg_entries :: "mg_entry list"
  mg_spill_counter :: nat
  mg_uniq_rows :: "nat set"
  mg_rowHasEntry :: "nat \<Rightarrow> nat"
  mg_s_num_reset :: nat
  mg_s_glob_spill_count :: nat
  mg_s_num_access :: nat
  mg_s_num_install :: nat
  mg_s_aggressors :: nat

record misra_gries =
  mg_trackers :: "nat \<Rightarrow> nat \<Rightarrow> nat \<Rightarrow> mg_tracker"
  mg_threshold :: nat
  mg_numEntries :: nat
  mg_numRows :: nat
  mg_numBanks :: nat
  mg_numRanks :: nat
  mg_numChannels :: nat
  mg_s_numUniqRows :: nat

definition mg_entry0 :: mg_entry where
  "mg_entry0 = \<lparr>mg_valid = False, mg_addr = 0, mg_count = 0\<rparr>"

section \<open>Operations\<close>

definition mg_new ::
  "(nat \<Rightarrow> nat \<Rightarrow> nat \<Rightarrow> mg_tracker) \<Rightarrow> nat \<Rightarrow> nat \<Rightarrow> nat \<Rightarrow> nat \<Rightarrow> nat \<Rightarrow> nat \<Rightarrow> misra_gries" where
  "mg_new mem numEntries threshold numRows numBanks numRanks numChannels =
     \<lparr> mg_trackers = (\<lambda>ii jj kk. (mem ii jj kk)\<lparr>mg_entries := replicate numEntries mg_entry0,
           mg_uniq_rows := {}, mg_rowHasEntry := (\<lambda>_. 0)\<rparr>),
       mg_threshold = threshold, mg_numEntries = numEntries, mg_numRows = numRows,
       mg_numBanks = numBanks, mg_numRanks = numRanks, mg_numChannels = numChannels,
       mg_s_numUniqRows = 0 \<rparr>"

text \<open>The body of the three nested loops of \<open>reset\<close>.\<close>

definition mg_tracker_reset :: "nat \<Rightarrow> nat \<Rightarrow> mg_tracker \<Rightarrow> mg_tracker" where
  "mg_tracker_reset numEntries numRows t =
     t\<lparr>mg_s_num_reset := inc32 (mg_s_num_reset t),
       mg_s_glob_spill_count := u32 (mg_s_glob_spill_count t + mg_spill_counter t),
       mg_spill_counter := 0,
       mg_entries := map (\<lambda>e. e\<lparr>mg_valid := False, mg_count := 0, mg_addr := 0\<rparr>)
                         (take numEntries (mg_entries t)) @ drop numEntries (mg_entries t),
       mg_rowHasEntry := (\<lambda>r. if r < numRows then 0 else mg_rowHasEntry t r)\<rparr>"

definition mg_reset :: "misra_gries \<Rightarrow> misra_gries" where
  "mg_reset m = m\<lparr>mg_trackers := (\<lambda>ii jj kk.
     if ii < mg_numChannels m \<and> jj < mg_numRanks m \<and> kk < mg_numBanks m
     then mg_tracker_reset (mg_numEntries m) (mg_numRows m) (mg_trackers m ii jj kk)
     else mg_trackers m ii jj kk)\<rparr>"

text \<open>The block run when a count reaches a multiple of the threshold: the row enters
  \<open>uniq_rows\<close>, and \<open>s_numUniqRows\<close> counts it the first time.\<close>

definition mg_flag_row :: "nat \<Rightarrow> mg_tracker \<Rightarrow> nat \<Rightarrow> mg_tracker \<times> nat" where
  "mg_flag_row row t uniq =
     (t\<lparr>mg_uniq_rows := insert row (mg_uniq_rows t)\<rparr>,
      if row \<in> mg_uniq_rows t then uniq else uniq + 1)"

text \<open>First part of \<open>access\<close>: the row has an entry.\<close>

definition mg_hit :: "nat \<Rightarrow> nat \<Rightarrow> bool \<Rightarrow> mg_tracker \<Rightarrow> nat \<Rightarrow> (mg_tracker \<times> nat \<times> bool) result" where
  "mg_hit threshold row isFuncLookup t uniq =
     (let entryID = mg_rowHasEntry t row - 1 in
      if \<not> entryID < length (mg_entries t) then Inl OutOfBounds
      else if \<not> (mg_valid (mg_entries t ! entryID) \<and> mg_addr (mg_entries t ! entryID) = row)
      then Inl AssertFail
      else if isFuncLookup then Inr (t, uniq, False)
      else let count = inc32 (mg_count (mg_entries t ! entryID));
               t1 = t\<lparr>mg_entries := (mg_entries t)[entryID := (mg_entries t ! entryID)\<lparr>mg_count := count\<rparr>]\<rparr>
           in if threshold = 0 then Inl DivideByZero
              else if count mod threshold = 0
              then let (t2, uniq2) = mg_flag_row row t1 uniq in Inr (t2, uniq2, True)
              else Inr (t1, uniq, False))"

text \<open>The replacement at entry \<open>ii\<close>, whose count equals the spill counter.\<close>

definition mg_install :: "nat \<Rightarrow> nat \<Rightarrow> mg_tracker \<Rightarrow> nat \<Rightarrow> nat \<Rightarrow> (mg_tracker \<times> nat \<times> bool) result" where
  "mg_install threshold row t uniq ii =
     (let e = mg_entries t ! ii;
          rhe = (if mg_valid e then (mg_rowHasEntry t)(mg_addr e := 0) else mg_rowHasEntry t);
          count = inc32 (mg_count e);
          t1 = t\<lparr>mg_entries := (mg_entries t)[ii := \<lparr>mg_valid = True, mg_addr = row, mg_count = count\<rparr>],
                 mg_s_num_install := mg_s_num_install t + 1,
                 mg_rowHasEntry := rhe(row := ii + 1)\<rparr>
      in if threshold = 0 then Inl DivideByZero
         else if count mod threshold = 0
         then let (t2, uniq2) = mg_flag_row row t1 uniq in Inr (t2, uniq2, True)
         else Inr (t1, uniq, False))"

text \<open>Second part: no entry.  The loop stops at the first entry whose count equals the spill
  counter, or fails the assertion at an invalid entry before it; with neither, the spill
  counter grows.\<close>

definition mg_miss :: "nat \<Rightarrow> nat \<Rightarrow> nat \<Rightarrow> mg_tracker \<Rightarrow> nat \<Rightarrow> (mg_tracker \<times> nat \<times> bool) result" where
  "mg_miss numEntries threshold row t uniq =
     (case first_idx (\<lambda>ii. mg_count (mg_entries t ! ii) = mg_spill_counter t
                          \<or> \<not> mg_valid (mg_entries t ! ii)) numEntries of
        Some ii \<Rightarrow>
          if mg_count (mg_entries t ! ii) = mg_spill_counter t
          then mg_install threshold row t uniq ii
          else Inl AssertFail
      | None \<Rightarrow> Inr (t\<lparr>mg_spill_counter := inc32 (mg_spill_counter t)\<rparr>, uniq, False))"

text \<open>\<open>access\<close> on the tracker of one bank.  The answer is \<open>aggressor_detected\<close>, or
  \<open>entry_found\<close> for a functional lookup.\<close>

definition mg_bank_access ::
  "nat \<Rightarrow> nat \<Rightarrow> nat \<Rightarrow> bool \<Rightarrow> mg_tracker \<Rightarrow> nat \<Rightarrow> (mg_tracker \<times> nat \<times> bool) result" where
  "mg_bank_access numEntries threshold row isFuncLookup t uniq =
     (let t0 = (if isFuncLookup then t else t\<lparr>mg_s_num_access := mg_s_num_access t + 1\<rparr>);
          has = (mg_rowHasEntry t0 row \<noteq> 0)
      in rbind (if has then mg_hit threshold row isFuncLookup t0 uniq
                else if isFuncLookup then Inr (t0, uniq, False)
                else mg_miss numEntries threshold row t0 uniq)
           (\<lambda>(t1, uniq1, aggressor).
              if isFuncLookup then Inr (t1, uniq1, has)
              else if aggressor
              then Inr (t1\<lparr>mg_s_aggressors := mg_s_aggressors t1 + 1\<rparr>, uniq1, True)
              else Inr (t1, uniq1, False)))"

definition mg_access ::
  "misra_gries \<Rightarrow> nat \<Rightarrow> nat \<Rightarrow> nat \<Rightarrow> nat \<Rightarrow> bool \<Rightarrow> (misra_gries \<times> bool) result" where
  "mg_access m row bankID rankID channelID isFuncLookup =
     (if row < mg_numRows m \<and> bankID < mg_numBanks m \<and> rankID < mg_numRanks m
         \<and> channelID < mg_numChannels m
      then rbind (mg_bank_access (mg_numEntries m) (mg_threshold m) row isFuncLookup
                    (mg_trackers m channelID rankID bankID) (mg_s_numUniqRows m))
             (\<lambda>(t, uniq, answer).
                Inr (m\<lparr>mg_trackers := (mg_trackers m)(channelID :=
                         (mg_trackers m channelID)(rankID :=
                           (mg_trackers m channelID rankID)(bankID := t))),
                       mg_s_numUniqRows := uniq\<rparr>, answer))
      else Inl OutOfBounds)"

section \<open>Invariant\<close>

text \<open>\<open>mg_index_wf\<close>: the reverse index and the table agree.  \<open>mg_count_wf N\<close>: after \<open>N\<close>
  accesses since the last reset the counts and the spill counter add up to \<open>N\<close>, and the
  spill counter is a lower bound of every count.\<close>

definition mg_index_wf :: "nat \<Rightarrow> mg_tracker \<Rightarrow> bool" where
  "mg_index_wf n t \<longleftrightarrow> length (mg_entries t) = n \<and>
     (\<forall>i<n. mg_valid (mg_entries t ! i) \<longrightarrow> mg_rowHasEntry t (mg_addr (mg_entries t ! i)) = i + 1) \<and>
     (\<forall>r. mg_rowHasEntry t r \<noteq> 0 \<longrightarrow> mg_rowHasEntry t r \<le> n \<and>
        mg_valid (mg_entries t ! (mg_rowHasEntry t r - 1)) \<and>
        mg_addr (mg_entries t ! (mg_rowHasEntry t r - 1)) = r)"

definition mg_count_wf :: "nat \<Rightarrow> mg_tracker \<Rightarrow> bool" where
  "mg_count_wf N t \<longleftrightarrow> sum_list (map mg_count (mg_entries t)) + mg_spill_counter t = N \<and>
     (\<forall>e\<in>set (mg_entries t). mg_spill_counter t \<le> mg_count e) \<and>
     (\<forall>e\<in>set (mg_entries t). \<not> mg_valid e \<longrightarrow> mg_count e = 0)"

definition mg_wf :: "nat \<Rightarrow> nat \<Rightarrow> mg_tracker \<Rightarrow> bool" where
  "mg_wf n N t \<longleftrightarrow> mg_index_wf n t \<and> mg_count_wf N t"

text \<open>What the tracker knows of a row: its count, or the spill counter.\<close>

definition mg_estimate :: "mg_tracker \<Rightarrow> nat \<Rightarrow> nat" where
  "mg_estimate t r =
     (if mg_rowHasEntry t r \<noteq> 0 then mg_count (mg_entries t ! (mg_rowHasEntry t r - 1))
      else mg_spill_counter t)"

lemma mg_wf_congs [simp]:
  "mg_wf n N (t\<lparr>mg_s_num_access := a\<rparr>) = mg_wf n N t"
  "mg_wf n N (t\<lparr>mg_s_aggressors := b\<rparr>) = mg_wf n N t"
  "mg_wf n N (t\<lparr>mg_uniq_rows := c\<rparr>) = mg_wf n N t"
  by (simp_all add: mg_wf_def mg_index_wf_def mg_count_wf_def)

lemma mg_estimate_congs [simp]:
  "mg_estimate (t\<lparr>mg_s_num_access := a\<rparr>) = mg_estimate t"
  "mg_estimate (t\<lparr>mg_s_aggressors := b\<rparr>) = mg_estimate t"
  "mg_estimate (t\<lparr>mg_uniq_rows := c\<rparr>) = mg_estimate t"
  by (simp_all add: mg_estimate_def fun_eq_iff)

lemma mg_indexD:
  assumes "mg_wf n N t" "mg_rowHasEntry t r \<noteq> 0"
  obtains i where "i < n" "i < length (mg_entries t)" "mg_rowHasEntry t r = Suc i"
    "mg_valid (mg_entries t ! i)" "mg_addr (mg_entries t ! i) = r"
proof (rule that)
  let ?i = "mg_rowHasEntry t r - 1"
  have *: "mg_rowHasEntry t r \<le> n \<and> mg_valid (mg_entries t ! ?i) \<and> mg_addr (mg_entries t ! ?i) = r"
    using assms unfolding mg_wf_def mg_index_wf_def by blast
  then show "mg_rowHasEntry t r = Suc ?i" "?i < n" "mg_valid (mg_entries t ! ?i)"
    "mg_addr (mg_entries t ! ?i) = r" using assms(2) by auto
  then show "?i < length (mg_entries t)" using assms(1) by (simp add: mg_wf_def mg_index_wf_def)
qed

lemma mg_validD:
  assumes "mg_wf n N t" "i < n" "mg_valid (mg_entries t ! i)"
  shows "mg_rowHasEntry t (mg_addr (mg_entries t ! i)) = Suc i"
  using assms by (simp add: mg_wf_def mg_index_wf_def)

lemma mg_lengthD: "mg_wf n N t \<Longrightarrow> length (mg_entries t) = n"
  by (simp add: mg_wf_def mg_index_wf_def)

lemma mg_count_le:
  assumes "mg_wf n N t" "i < n"
  shows "mg_count (mg_entries t ! i) + mg_spill_counter t \<le> N"
proof -
  have "mg_count (mg_entries t ! i) \<in> set (map mg_count (mg_entries t))"
    using assms by (simp add: mg_lengthD)
  then have "mg_count (mg_entries t ! i) \<le> sum_list (map mg_count (mg_entries t))"
    by (rule member_le_sum_list) simp_all
  then show ?thesis using assms(1) by (simp add: mg_wf_def mg_count_wf_def)
qed

lemma mg_spill_bound:
  assumes "mg_wf n N t"
  shows "mg_spill_counter t * (n + 1) \<le> N"
proof -
  have "mg_spill_counter t * length (map mg_count (mg_entries t)) \<le> sum_list (map mg_count (mg_entries t))"
    using assms by (intro sum_list_const_le) (auto simp: mg_wf_def mg_count_wf_def)
  then show ?thesis using assms by (simp add: mg_wf_def mg_count_wf_def mg_index_wf_def)
qed

text \<open>Raising one entry's count by one.\<close>

lemma mg_count_wf_raise:
  assumes "mg_count_wf N t" "i < length (mg_entries t)"
    "mg_count e = Suc (mg_count (mg_entries t ! i))" "mg_valid e"
    "mg_entries t' = (mg_entries t)[i := e]" "mg_spill_counter t' = mg_spill_counter t"
  shows "mg_count_wf (Suc N) t'"
proof -
  have "map mg_count ((mg_entries t)[i := e])
      = (map mg_count (mg_entries t))[i := Suc (map mg_count (mg_entries t) ! i)]"
    using assms(2,3) by (simp add: map_update)
  then have "sum_list (map mg_count ((mg_entries t)[i := e])) = Suc (sum_list (map mg_count (mg_entries t)))"
    using assms(2) sum_list_update_Suc[of i "map mg_count (mg_entries t)"] by simp
  moreover have "mg_spill_counter t \<le> mg_count x" "\<not> mg_valid x \<longrightarrow> mg_count x = 0"
    if "x \<in> set ((mg_entries t)[i := e])" for x
  proof -
    from that have "x = e \<or> x \<in> set (mg_entries t)"
      by (metis set_update_subset_insert insertE subsetD)
    moreover have "mg_spill_counter t \<le> mg_count (mg_entries t ! i)"
      using assms(1,2) by (simp add: mg_count_wf_def)
    ultimately show "mg_spill_counter t \<le> mg_count x" "\<not> mg_valid x \<longrightarrow> mg_count x = 0"
      using assms(1,3,4) by (auto simp: mg_count_wf_def)
  qed
  ultimately show ?thesis
    using assms(1,5,6) by (simp add: mg_count_wf_def)
qed

lemma mg_index_wf_raise:
  assumes "mg_index_wf n t" "i < n" "mg_valid e = mg_valid (mg_entries t ! i)"
    "mg_addr e = mg_addr (mg_entries t ! i)" "mg_entries t' = (mg_entries t)[i := e]"
    "mg_rowHasEntry t' = mg_rowHasEntry t"
  shows "mg_index_wf n t'"
  using assms by (auto simp: mg_index_wf_def nth_list_update)

lemma mg_flag_row_simps:
  "fst (mg_flag_row row t u) = t\<lparr>mg_uniq_rows := insert row (mg_uniq_rows t)\<rparr>"
  by (simp add: mg_flag_row_def)

text \<open>The number of multiples of the threshold that the counters have passed: the flags raised
  since the last reset.\<close>

definition mg_flags :: "nat \<Rightarrow> mg_tracker \<Rightarrow> nat" where
  "mg_flags th t = sum_list (map (\<lambda>e. mg_count e div th) (mg_entries t))"

lemma mg_flags_congs [simp]:
  "mg_flags th (t\<lparr>mg_s_num_access := a\<rparr>) = mg_flags th t"
  "mg_flags th (t\<lparr>mg_s_aggressors := b\<rparr>) = mg_flags th t"
  "mg_flags th (t\<lparr>mg_uniq_rows := c\<rparr>) = mg_flags th t"
  "mg_flags th (t\<lparr>mg_spill_counter := d\<rparr>) = mg_flags th t"
  by (simp_all add: mg_flags_def)

lemma mg_flags_raise:
  assumes "i < length (mg_entries t)" "mg_count e = Suc (mg_count (mg_entries t ! i))" "0 < th"
    "mg_entries t' = (mg_entries t)[i := e]"
  shows "mg_flags th t' = mg_flags th t + (if th dvd Suc (mg_count (mg_entries t ! i)) then 1 else 0)"
proof -
  let ?f = "\<lambda>e. mg_count e div th"
  have le: "?f (mg_entries t ! i) \<le> sum_list (map ?f (mg_entries t))"
    using assms(1) by (intro member_le_sum_list) auto
  have "mg_flags th t' = sum_list (map ?f (mg_entries t)) + ?f e - ?f (mg_entries t ! i)"
    using assms(1,4) sum_list_update[of i "map ?f (mg_entries t)" "?f e"]
    by (simp add: mg_flags_def map_update)
  then show ?thesis using le assms(2,3) by (simp add: mg_flags_def div_Suc dvd_eq_mod_eq_0)
qed

lemma mg_flags_bound:
  assumes "mg_wf n N t"
  shows "th * mg_flags th t \<le> N"
proof -
  have "th * sum_list (map (\<lambda>e. mg_count e div th) es) \<le> sum_list (map mg_count es)" for es
    by (induction es) (auto simp: distrib_left intro: add_mono)
  from this[of "mg_entries t"] show ?thesis
    using assms by (simp add: mg_flags_def mg_wf_def mg_count_wf_def)
qed

lemma mg_tracked_card:
  assumes "mg_wf n N t"
  shows "finite {r. mg_rowHasEntry t r \<noteq> 0}" "card {r. mg_rowHasEntry t r \<noteq> 0} \<le> n"
proof -
  have sub: "{r. mg_rowHasEntry t r \<noteq> 0} \<subseteq> (\<lambda>i. mg_addr (mg_entries t ! i)) ` {..<n}"
    using mg_indexD[OF assms] by blast
  show "finite {r. mg_rowHasEntry t r \<noteq> 0}" by (rule finite_subset[OF sub]) simp
  have "card {r. mg_rowHasEntry t r \<noteq> 0} \<le> card ((\<lambda>i. mg_addr (mg_entries t ! i)) ` {..<n})"
    by (rule card_mono[OF _ sub]) simp
  also have "\<dots> \<le> n" using card_image_le[of "{..<n}" "\<lambda>i. mg_addr (mg_entries t ! i)"] by simp
  finally show "card {r. mg_rowHasEntry t r \<noteq> 0} \<le> n" .
qed

text \<open>What an activation must establish, for the three ways it can go.\<close>

definition mg_stepped ::
  "nat \<Rightarrow> nat \<Rightarrow> nat \<Rightarrow> nat \<Rightarrow> mg_tracker \<Rightarrow> mg_tracker \<Rightarrow> bool \<Rightarrow> bool" where
  "mg_stepped n th N row t t' f \<longleftrightarrow> mg_wf n (Suc N) t' \<and>
     mg_estimate t' row = Suc (mg_estimate t row) \<and>
     (\<forall>q. q \<noteq> row \<longrightarrow> mg_estimate t' q = mg_estimate t q \<or>
        mg_estimate t q = mg_spill_counter t \<and> mg_estimate t' q = mg_spill_counter t') \<and>
     mg_spill_counter t \<le> mg_spill_counter t' \<and>
     (f \<longleftrightarrow> th dvd mg_estimate t' row \<and> mg_rowHasEntry t' row \<noteq> 0) \<and>
     (mg_rowHasEntry t' row = 0 \<longrightarrow> mg_estimate t' row = mg_spill_counter t') \<and>
     mg_flags th t' = mg_flags th t + (if f then 1 else 0)"

lemma mg_stepped_congs [simp]:
  "mg_stepped n th N row (t\<lparr>mg_s_num_access := a\<rparr>) t' f = mg_stepped n th N row t t' f"
  "mg_stepped n th N row t (t'\<lparr>mg_s_aggressors := b\<rparr>) f = mg_stepped n th N row t t' f"
  "mg_stepped n th N row t (t'\<lparr>mg_uniq_rows := c\<rparr>) f = mg_stepped n th N row t t' f"
  by (simp_all add: mg_stepped_def)

lemma mg_hit_spec:
  assumes wf: "mg_wf n N t" and has: "mg_rowHasEntry t row \<noteq> 0"
    and th: "0 < th" and N: "N < 4294967295"
  shows "\<exists>t' u' f. mg_hit th row False t u = Inr (t', u', f) \<and> mg_stepped n th N row t t' f"
proof -
  obtain i where i: "i < n" "i < length (mg_entries t)" "mg_rowHasEntry t row = Suc i"
    "mg_valid (mg_entries t ! i)" "mg_addr (mg_entries t ! i) = row"
    using mg_indexD[OF wf has] by blast
  have c: "inc32 (mg_count (mg_entries t ! i)) = Suc (mg_count (mg_entries t ! i))"
    using mg_count_le[OF wf i(1)] N by (intro inc32_id) linarith
  let ?e = "(mg_entries t ! i)\<lparr>mg_count := Suc (mg_count (mg_entries t ! i))\<rparr>"
  let ?t = "t\<lparr>mg_entries := (mg_entries t)[i := ?e]\<rparr>"
  have wf': "mg_wf n (Suc N) ?t"
    using wf i mg_count_wf_raise[of N t i ?e ?t] mg_index_wf_raise[of n t i ?e ?t]
    by (simp add: mg_wf_def)
  have other: "mg_estimate ?t q = mg_estimate t q" if "q \<noteq> row" for q
  proof (cases "mg_rowHasEntry t q = 0")
    case False
    then obtain j where "mg_rowHasEntry t q = Suc j" "mg_addr (mg_entries t ! j) = q"
      using mg_indexD[OF wf False] by metis
    then show ?thesis using that i(5) by (cases "j = i") (auto simp: mg_estimate_def)
  qed (simp add: mg_estimate_def)
  have st: "mg_stepped n th N row t ?t (th dvd Suc (mg_count (mg_entries t ! i)))"
    using wf' other i mg_flags_raise[of i t ?e th ?t] th by (auto simp: mg_stepped_def mg_estimate_def)
  have "mg_hit th row False t u =
      (if th dvd Suc (mg_count (mg_entries t ! i))
       then Inr (fst (mg_flag_row row ?t u), snd (mg_flag_row row ?t u), True)
       else Inr (?t, u, False))"
    using i th c by (simp add: mg_hit_def Let_def dvd_eq_mod_eq_0 split: prod.splits)
  then show ?thesis using st by (auto simp: mg_flag_row_simps)
qed

lemma mg_install_index:
  assumes wf: "mg_wf n N t" and none: "mg_rowHasEntry t row = 0" and ii: "ii < n"
    and e: "mg_valid e" "mg_addr e = row"
    and t': "mg_entries t' = (mg_entries t)[ii := e]"
      "mg_rowHasEntry t' = (if mg_valid (mg_entries t ! ii)
         then (mg_rowHasEntry t)(mg_addr (mg_entries t ! ii) := 0) else mg_rowHasEntry t)(row := ii + 1)"
  shows "mg_index_wf n t'"
proof -
  let ?old = "mg_addr (mg_entries t ! ii)"
  have len: "length (mg_entries t) = n" by (rule mg_lengthD[OF wf])
  have valid: "mg_rowHasEntry t' (mg_addr (mg_entries t' ! i)) = i + 1"
    if "i < n" "mg_valid (mg_entries t' ! i)" for i
  proof (cases "i = ii")
    case True
    then show ?thesis using t' e ii len by simp
  next
    case False
    then have v: "mg_valid (mg_entries t ! i)" "mg_entries t' ! i = mg_entries t ! i"
      using that t' by simp_all
    have r: "mg_rowHasEntry t (mg_addr (mg_entries t ! i)) = Suc i"
      by (rule mg_validD[OF wf that(1) v(1)])
    have "mg_addr (mg_entries t ! i) \<noteq> row" using r none by auto
    moreover have "mg_valid (mg_entries t ! ii) \<Longrightarrow> mg_addr (mg_entries t ! i) \<noteq> ?old"
      using r mg_validD[OF wf ii] False by auto
    ultimately show ?thesis using r t' v by auto
  qed
  have entry: "mg_rowHasEntry t' r \<le> n \<and> mg_valid (mg_entries t' ! (mg_rowHasEntry t' r - 1))
      \<and> mg_addr (mg_entries t' ! (mg_rowHasEntry t' r - 1)) = r"
    if "mg_rowHasEntry t' r \<noteq> 0" for r
  proof (cases "r = row")
    case True
    then show ?thesis using t' e ii len by simp
  next
    case False
    then have h: "mg_rowHasEntry t r \<noteq> 0" "mg_rowHasEntry t' r = mg_rowHasEntry t r"
      using that t' by (auto split: if_splits)
    obtain i where i: "i < n" "mg_rowHasEntry t r = Suc i" "mg_valid (mg_entries t ! i)"
      "mg_addr (mg_entries t ! i) = r"
      using mg_indexD[OF wf h(1)] by blast
    have "i \<noteq> ii"
    proof
      assume "i = ii"
      then have "mg_rowHasEntry t' r = 0" using i False t' by simp
      with that show False by simp
    qed
    then show ?thesis using i h t' by simp
  qed
  show ?thesis using valid entry len t' by (simp add: mg_index_wf_def)
qed

lemma mg_install_spec:
  assumes wf: "mg_wf n N t" and none: "mg_rowHasEntry t row = 0" and ii: "ii < n"
    and cnt: "mg_count (mg_entries t ! ii) = mg_spill_counter t"
    and th: "0 < th" and N: "N < 4294967295"
  shows "\<exists>t' u' f. mg_install th row t u ii = Inr (t', u', f) \<and> mg_stepped n th N row t t' f"
proof -
  let ?c = "mg_spill_counter t"
  let ?e = "\<lparr>mg_valid = True, mg_addr = row, mg_count = Suc ?c\<rparr>"
  let ?rhe = "(if mg_valid (mg_entries t ! ii)
      then (mg_rowHasEntry t)(mg_addr (mg_entries t ! ii) := 0) else mg_rowHasEntry t)(row := ii + 1)"
  let ?t = "t\<lparr>mg_entries := (mg_entries t)[ii := ?e],
              mg_s_num_install := mg_s_num_install t + 1, mg_rowHasEntry := ?rhe\<rparr>"
  have len: "length (mg_entries t) = n" by (rule mg_lengthD[OF wf])
  have c: "inc32 (mg_count (mg_entries t ! ii)) = Suc ?c"
    using mg_count_le[OF wf ii] N cnt by (subst inc32_id) auto
  have wf': "mg_wf n (Suc N) ?t"
    using mg_install_index[OF wf none ii, of ?e ?t] mg_count_wf_raise[of N t ii ?e ?t] wf len ii cnt
    by (simp add: mg_wf_def)
  have own: "mg_estimate t row = ?c" "mg_estimate ?t row = Suc ?c"
    using none ii len by (simp_all add: mg_estimate_def)
  have other: "mg_estimate ?t q = mg_estimate t q" if q: "q \<noteq> row" for q
  proof (cases "mg_rowHasEntry t q = 0")
    case True
    then show ?thesis using q by (simp add: mg_estimate_def)
  next
    case False
    then obtain i where i: "i < n" "mg_rowHasEntry t q = Suc i" "mg_valid (mg_entries t ! i)"
      "mg_addr (mg_entries t ! i) = q"
      using mg_indexD[OF wf False] by blast
    show ?thesis
    proof (cases "i = ii")
      case True
      then show ?thesis using i q cnt by (simp add: mg_estimate_def)
    next
      case False
      then have "mg_valid (mg_entries t ! ii) \<Longrightarrow> mg_addr (mg_entries t ! ii) \<noteq> q"
        using mg_validD[OF wf ii] i(2) by auto
      then show ?thesis using i q False by (auto simp: mg_estimate_def)
    qed
  qed
  have st: "mg_stepped n th N row t ?t (th dvd Suc ?c)"
    using wf' own other mg_flags_raise[of ii t ?e th ?t] ii len cnt th by (simp add: mg_stepped_def)
  define T where "T = ?t"
  have "mg_install th row t u ii =
      (if th dvd Suc ?c
       then Inr (fst (mg_flag_row row T u), snd (mg_flag_row row T u), True)
       else Inr (T, u, False))"
    using th c by (simp add: mg_install_def T_def Let_def dvd_eq_mod_eq_0 split: prod.splits)
  moreover have "mg_stepped n th N row t (fst (mg_flag_row row T u)) (th dvd Suc ?c)"
    "mg_stepped n th N row t T (th dvd Suc ?c)"
    using st[folded T_def] by (simp_all add: mg_flag_row_simps)
  ultimately show ?thesis by (cases "th dvd Suc ?c") fastforce+
qed

lemma mg_miss_spec:
  assumes wf: "mg_wf n N t" and none: "mg_rowHasEntry t row = 0"
    and th: "0 < th" and N: "N < 4294967295"
  shows "\<exists>t' u' f. mg_miss n th row t u = Inr (t', u', f) \<and> mg_stepped n th N row t t' f"
proof (cases "first_idx (\<lambda>ii. mg_count (mg_entries t ! ii) = mg_spill_counter t
    \<or> \<not> mg_valid (mg_entries t ! ii)) n")
  case (Some ii)
  have len: "length (mg_entries t) = n" by (rule mg_lengthD[OF wf])
  have ii: "ii < n" "mg_count (mg_entries t ! ii) = mg_spill_counter t \<or> \<not> mg_valid (mg_entries t ! ii)"
    using first_idx_SomeD[OF Some] by blast+
  have "mg_entries t ! ii \<in> set (mg_entries t)" using ii len by simp
  then have "mg_count (mg_entries t ! ii) = mg_spill_counter t"
    using ii(2) wf by (auto simp: mg_wf_def mg_count_wf_def)
  then show ?thesis
    using mg_install_spec[OF wf none ii(1) _ th N, of u] Some by (simp add: mg_miss_def)
next
  case None
  have len: "length (mg_entries t) = n" by (rule mg_lengthD[OF wf])
  have above: "mg_valid e \<and> mg_spill_counter t < mg_count e" if e: "e \<in> set (mg_entries t)" for e
  proof -
    obtain j where j: "j < n" "mg_entries t ! j = e"
      using e unfolding in_set_conv_nth len by blast
    have "mg_count (mg_entries t ! j) \<noteq> mg_spill_counter t \<and> mg_valid (mg_entries t ! j)"
      using None j(1) unfolding first_idx_None by blast
    then have "mg_valid e" "mg_count e \<noteq> mg_spill_counter t" unfolding j(2) by blast+
    moreover have "mg_spill_counter t \<le> mg_count e"
      using e wf by (simp add: mg_wf_def mg_count_wf_def)
    ultimately show ?thesis by simp
  qed
  have "mg_spill_counter t \<le> N" using wf by (simp add: mg_wf_def mg_count_wf_def)
  then have c: "inc32 (mg_spill_counter t) = Suc (mg_spill_counter t)"
    using N by (intro inc32_id) simp
  let ?t = "t\<lparr>mg_spill_counter := Suc (mg_spill_counter t)\<rparr>"
  have "mg_index_wf n ?t" using wf by (simp add: mg_wf_def mg_index_wf_def)
  moreover have "mg_count_wf (Suc N) ?t"
    using wf above by (simp add: mg_wf_def mg_count_wf_def Suc_le_eq)
  ultimately have "mg_wf n (Suc N) ?t" by (simp add: mg_wf_def)
  moreover have "mg_estimate ?t q = mg_estimate t q \<or>
      mg_estimate t q = mg_spill_counter t \<and> mg_estimate ?t q = mg_spill_counter ?t" for q
    by (simp add: mg_estimate_def)
  ultimately have "mg_stepped n th N row t ?t False"
    using none by (simp add: mg_stepped_def mg_estimate_def)
  then show ?thesis using None c by (auto simp: mg_miss_def)
qed

lemma mg_bank_access_spec:
  assumes "mg_wf n N t" "0 < th" "N < 4294967295"
  shows "\<exists>t' u' f. mg_bank_access n th row False t u = Inr (t', u', f)
    \<and> mg_stepped n th N row t t' f"
proof -
  let ?t = "t\<lparr>mg_s_num_access := mg_s_num_access t + 1\<rparr>"
  have wf: "mg_wf n N ?t" using assms(1) by simp
  obtain t1 u1 f where r: "(if mg_rowHasEntry ?t row \<noteq> 0 then mg_hit th row False ?t u
      else mg_miss n th row ?t u) = Inr (t1, u1, f)" "mg_stepped n th N row ?t t1 f"
    using mg_hit_spec[OF wf _ assms(2,3), of row u] mg_miss_spec[OF wf _ assms(2,3), of row u]
    by (cases "mg_rowHasEntry ?t row \<noteq> 0") auto
  show ?thesis
    using r unfolding mg_bank_access_def Let_def
    by (cases f) (auto split: if_splits)
qed

text \<open>A functional lookup changes nothing and answers whether the row has an entry.\<close>

lemma mg_bank_lookup:
  assumes "mg_wf n N t"
  shows "mg_bank_access n th row True t u = Inr (t, u, mg_rowHasEntry t row \<noteq> 0)"
proof (cases "mg_rowHasEntry t row = 0")
  case False
  obtain i where "i < length (mg_entries t)" "mg_rowHasEntry t row = Suc i"
    "mg_valid (mg_entries t ! i)" "mg_addr (mg_entries t ! i) = row"
    using mg_indexD[OF assms False] by blast
  then show ?thesis by (simp add: mg_bank_access_def mg_hit_def Let_def)
qed (simp add: mg_bank_access_def)

text \<open>A fresh tracker, and one just reset, start from zero.\<close>

lemma mg_tracker_reset_wf:
  assumes "length (mg_entries t) = n" "\<forall>r\<ge>R. mg_rowHasEntry t r = 0"
  shows "mg_wf n 0 (mg_tracker_reset n R t)" "mg_estimate (mg_tracker_reset n R t) r = 0"
proof -
  have rhe: "mg_rowHasEntry (mg_tracker_reset n R t) r = 0" for r
    using assms(2) by (simp add: mg_tracker_reset_def)
  have es: "mg_entries (mg_tracker_reset n R t) =
      map (\<lambda>e. e\<lparr>mg_valid := False, mg_count := 0, mg_addr := 0\<rparr>) (mg_entries t)"
    using assms(1) by (simp add: mg_tracker_reset_def)
  have sp: "mg_spill_counter (mg_tracker_reset n R t) = 0" by (simp add: mg_tracker_reset_def)
  show "mg_wf n 0 (mg_tracker_reset n R t)"
    using assms(1) by (auto simp: mg_wf_def mg_index_wf_def mg_count_wf_def rhe es sp comp_def
        simp flip: map_replicate_const)
  show "mg_estimate (mg_tracker_reset n R t) r = 0" by (simp add: mg_estimate_def rhe sp)
qed

section \<open>The detector contract\<close>

definition mg_bank_inv ::
  "nat \<Rightarrow> nat \<Rightarrow> nat \<Rightarrow> nat \<Rightarrow> nat \<Rightarrow> nat \<Rightarrow> nat \<Rightarrow> misra_gries \<Rightarrow> bool" where
  "mg_bank_inv n th R b k c N m \<longleftrightarrow> 0 < th \<and> mg_numEntries m = n \<and> mg_threshold m = th \<and>
     mg_numRows m = R \<and> b < mg_numBanks m \<and> k < mg_numRanks m \<and> c < mg_numChannels m \<and>
     mg_wf n N (mg_trackers m c k b)"

definition mg_lookup :: "misra_gries \<Rightarrow> nat \<Rightarrow> nat \<Rightarrow> nat \<Rightarrow> nat \<Rightarrow> bool result" where
  "mg_lookup m row b k c = rbind (mg_access m row b k c True) (\<lambda>(_, found). Inr found)"

lemma mg_access_spec:
  assumes "mg_bank_inv n th R b k c N m" "row < R" "N < 4294967295"
  shows "\<exists>m' f. mg_access m row b k c False = Inr (m', f) \<and> mg_bank_inv n th R b k c (Suc N) m'
    \<and> mg_stepped n th N row (mg_trackers m c k b) (mg_trackers m' c k b) f
    \<and> (\<forall>c' k' b'. (c', k', b') \<noteq> (c, k, b) \<longrightarrow> mg_trackers m' c' k' b' = mg_trackers m c' k' b')"
proof -
  obtain t' u' f where r: "mg_bank_access n th row False (mg_trackers m c k b) (mg_s_numUniqRows m)
      = Inr (t', u', f)" "mg_stepped n th N row (mg_trackers m c k b) t' f"
    using mg_bank_access_spec[of n N "mg_trackers m c k b" th] assms
    unfolding mg_bank_inv_def by blast
  show ?thesis
    using assms r by (auto simp: mg_access_def mg_bank_inv_def mg_stepped_def)
qed

lemma mg_access_lookup:
  assumes "mg_bank_inv n th R b k c N m" "row < R"
  shows "mg_access m row b k c True = Inr (m, mg_rowHasEntry (mg_trackers m c k b) row \<noteq> 0)"
  using assms mg_bank_lookup[of n N "mg_trackers m c k b" th row "mg_s_numUniqRows m"]
  by (simp add: mg_access_def mg_bank_inv_def)

lemma mg_stepped_unique:
  assumes "mg_bank_inv n th R b k c N m" "row < R" "N < 4294967295"
    "mg_access m row b k c False = Inr (m', f)"
  shows "mg_stepped n th N row (mg_trackers m c k b) (mg_trackers m' c k b) f"
  using mg_access_spec[OF assms(1-3)] assms(4) by auto

interpretation mg: rh_detector_lookup
  "\<lambda>m row. mg_access m row b k c False" "\<lambda>m. mg_estimate (mg_trackers m c k b)"
  "\<lambda>m. mg_spill_counter (mg_trackers m c k b)" "mg_bank_inv n th R b k c" "\<lambda>row. row < R"
  th n 4294967295 "\<lambda>m row. mg_lookup m row b k c"
  for n th R b k c
proof
  fix N m and r :: nat
  assume a: "mg_bank_inv n th R b k c N m"
  show "0 < th" using a by (simp add: mg_bank_inv_def)
  show "mg_spill_counter (mg_trackers m c k b) * (n + 1) \<le> N"
    using a by (intro mg_spill_bound) (simp add: mg_bank_inv_def)
  assume r: "r < R"
  show "\<exists>x. mg_lookup m r b k c = Inr x"
    using mg_access_lookup[OF a r] by (simp add: mg_lookup_def)
  show "mg_estimate (mg_trackers m c k b) r = mg_spill_counter (mg_trackers m c k b)"
    if "mg_lookup m r b k c = Inr False"
    using that mg_access_lookup[OF a r] by (simp add: mg_lookup_def mg_estimate_def)
  assume N: "N < 4294967295"
  show "\<exists>m' f. mg_access m r b k c False = Inr (m', f) \<and> mg_bank_inv n th R b k c (Suc N) m'"
    using mg_access_spec[OF a r N] by blast
  fix m' f assume acc: "mg_access m r b k c False = Inr (m', f)"
  note st = mg_stepped_unique[OF a r N acc]
  show "mg_estimate (mg_trackers m' c k b) r = Suc (mg_estimate (mg_trackers m c k b) r)"
    "mg_spill_counter (mg_trackers m c k b) \<le> mg_spill_counter (mg_trackers m' c k b)"
    using st by (simp_all add: mg_stepped_def)
  show "f = (th dvd mg_estimate (mg_trackers m' c k b) r \<and>
      (f \<or> mg_estimate (mg_trackers m' c k b) r \<noteq> mg_spill_counter (mg_trackers m' c k b)))"
    using st by (auto simp: mg_stepped_def)
  show "mg_estimate (mg_trackers m' c k b) q = mg_estimate (mg_trackers m c k b) q \<or>
      mg_estimate (mg_trackers m c k b) q = mg_spill_counter (mg_trackers m c k b) \<and>
      mg_estimate (mg_trackers m' c k b) q = mg_spill_counter (mg_trackers m' c k b)"
    if "q \<noteq> r" for q
    using st that by (simp add: mg_stepped_def)
qed

text \<open>A constructed detector is in its initial state if the memory of its trackers was zero.\<close>

lemma mg_new_inv:
  assumes "0 < th" "b < nb" "k < nk" "c < nc" "mg_spill_counter (mem c k b) = 0"
  shows "mg_bank_inv n th R b k c 0 (mg_new mem n th R nb nk nc)"
    "mg_estimate (mg_trackers (mg_new mem n th R nb nk nc) c k b) r = 0"
  using assms by (simp_all add: mg_bank_inv_def mg_new_def mg_wf_def mg_index_wf_def
      mg_count_wf_def mg_entry0_def mg_estimate_def)

lemma mg_reset_inv:
  assumes "mg_bank_inv n th R b k c N m" "\<forall>r\<ge>R. mg_rowHasEntry (mg_trackers m c k b) r = 0"
  shows "mg_bank_inv n th R b k c 0 (mg_reset m)"
    "mg_estimate (mg_trackers (mg_reset m) c k b) r = 0"
  using assms mg_tracker_reset_wf[of "mg_trackers m c k b" n R]
  by (auto simp: mg_bank_inv_def mg_reset_def mg_lengthD)

section \<open>Properties\<close>

text \<open>C10: Detection guarantee of the aggressor detector: with \<open>n\<close> counters per bank and threshold
  \<open>th\<close>, in a window of fewer than \<open>th * (n + 1)\<close> activations of a bank no assertion of the detector
  fails and every row activated \<open>k * th\<close> times is reported at least \<open>k\<close> times.\<close>

theorem misra_gries_detects:
  assumes "0 < th" "b < nb" "k < nk" "c < nc" "mg_spill_counter (mem c k b) = 0"
    and "\<forall>r\<in>set rows. r < R" "length rows < th * (n + 1)" "length rows \<le> 4294967295"
  shows "\<exists>m' flags. det_run (\<lambda>m r. mg_access m r b k c False) (mg_new mem n th R nb nk nc) rows = Inr (m', flags) \<and>
    (\<forall>q. count_list rows q div th \<le> count_list flags q)"
  using mg.run_detects[OF mg_new_inv(1)[where mem = mem and c = c and k = k and b = b, OF assms(1-5)], of rows R n] mg_new_inv(2)[where mem = mem and c = c and k = k and b = b, OF assms(1-5), where n = n and R = R]
    assms(6-8) by auto

theorem misra_gries_detects_witness:
  "\<exists>m' flags. det_run (\<lambda>m r. mg_access m r 0 0 0 False)
      (mg_new (\<lambda>_ _ _. \<lparr>mg_entries = [], mg_spill_counter = 0, mg_uniq_rows = {}, mg_rowHasEntry = (\<lambda>_. 0),
         mg_s_num_reset = 0, mg_s_glob_spill_count = 0, mg_s_num_access = 0, mg_s_num_install = 0, mg_s_aggressors = 0\<rparr>)
       1 2 8 1 1 1) [3, 5, 3] = Inr (m', flags) \<and>
    (\<forall>q. count_list [3, 5, 3] q div 2 \<le> count_list flags q)"
  by (rule misra_gries_detects) simp_all

text \<open>A detector that raises a flag has seen the threshold: every \<open>th\<close> activations of a bank
  raise at most one flag, so a window of \<open>A\<close> activations causes at most \<open>A div th\<close> mitigations.\<close>

theorem misra_gries_flag_budget:
  assumes "0 < th" "b < nb" "k < nk" "c < nc" "mg_spill_counter (mem c k b) = 0"
    and "\<forall>r\<in>set rows. r < R" "length rows \<le> 4294967295"
  shows "\<exists>m' flags. det_run (\<lambda>m r. mg_access m r b k c False) (mg_new mem n th R nb nk nc) rows = Inr (m', flags) \<and>
    th * length flags \<le> length rows"
proof -
  have run: "\<exists>m' flags. det_run (\<lambda>m r. mg_access m r b k c False) m rs = Inr (m', flags) \<and>
      mg_bank_inv n th R b k c (N + length rs) m' \<and>
      mg_flags th (mg_trackers m' c k b) = mg_flags th (mg_trackers m c k b) + length flags"
    if "mg_bank_inv n th R b k c N m" "\<forall>r\<in>set rs. r < R" "N + length rs \<le> 4294967295" for N m rs
    using that
  proof (induction rs arbitrary: N m)
    case (Cons r rs)
    obtain m1 f where a: "mg_access m r b k c False = Inr (m1, f)" "mg_bank_inv n th R b k c (Suc N) m1"
      "mg_flags th (mg_trackers m1 c k b) = mg_flags th (mg_trackers m c k b) + (if f then 1 else 0)"
      using mg_access_spec[OF Cons.prems(1), of r] Cons.prems(2,3) by (auto simp: mg_stepped_def)
    then show ?case using Cons.IH[OF a(2)] Cons.prems(2,3) by auto
  qed simp
  let ?m = "mg_new mem n th R nb nk nc"
  have "mg_flags th (mg_trackers ?m c k b) = 0"
    by (simp add: mg_flags_def mg_new_def mg_entry0_def sum_list_replicate)
  then obtain m' flags where r: "det_run (\<lambda>m r. mg_access m r b k c False) ?m rows = Inr (m', flags)"
    "mg_bank_inv n th R b k c (length rows) m'" "mg_flags th (mg_trackers m' c k b) = length flags"
    using run[OF mg_new_inv(1)[where mem = mem and c = c and k = k and b = b, OF assms(1-5)] assms(6)] assms(7) by auto
  then show ?thesis
    using mg_flags_bound[of n "length rows" "mg_trackers m' c k b" th] by (auto simp: mg_bank_inv_def)
qed

theorem misra_gries_flag_budget_witness:
  "\<exists>m' flags. det_run (\<lambda>m r. mg_access m r 0 0 0 False)
      (mg_new (\<lambda>_ _ _. \<lparr>mg_entries = [], mg_spill_counter = 0, mg_uniq_rows = {}, mg_rowHasEntry = (\<lambda>_. 0),
         mg_s_num_reset = 0, mg_s_glob_spill_count = 0, mg_s_num_access = 0, mg_s_num_install = 0, mg_s_aggressors = 0\<rparr>)
       1 2 8 1 1 1) [3, 5, 3, 3, 3] = Inr (m', flags) \<and> 2 * length flags \<le> length [3::nat, 5, 3, 3, 3]"
  by (rule misra_gries_flag_budget) simp_all

text \<open>A row the functional lookup does not find has been activated fewer than \<open>th\<close> times in the
  window, so it is safe to swap an aggressor into it.\<close>

theorem misra_gries_untracked_is_cold:
  assumes "0 < th" "b < nb" "k < nk" "c < nc" "mg_spill_counter (mem c k b) = 0"
    and "\<forall>r\<in>set rows. r < R" "length rows < th * (n + 1)" "length rows \<le> 4294967295"
    and "det_run (\<lambda>m r. mg_access m r b k c False) (mg_new mem n th R nb nk nc) rows = Inr (m', flags)"
    and "q < R" "mg_lookup m' q b k c = Inr False"
  shows "count_list rows q < th"
proof -
  obtain d' fs where d': "det_run (\<lambda>m r. mg_access m r b k c False) (mg_new mem n th R nb nk nc) rows = Inr (d', fs)"
    "mg_bank_inv n th R b k c (length rows) d'"
    "\<forall>q. count_list rows q \<le> mg_estimate (mg_trackers d' c k b) q"
    using mg.run_est[OF mg_new_inv(1)[where mem = mem and c = c and k = k and b = b, OF assms(1-5)], of rows R n] mg_new_inv(2)[where mem = mem and c = c and k = k and b = b, OF assms(1-5), where n = n and R = R]
      assms(6,8) by auto
  have "m' = d'" using assms(9) d'(1) by simp
  then have "mg_estimate (mg_trackers d' c k b) q < th"
    using mg.untracked_cold[OF d'(2)] assms(7,10,11) by blast
  then show ?thesis using d'(3)[rule_format, of q] by linarith
qed

theorem misra_gries_untracked_is_cold_witness:
  "\<exists>m' flags. det_run (\<lambda>m r. mg_access m r 0 0 0 False)
      (mg_new (\<lambda>_ _ _. \<lparr>mg_entries = [], mg_spill_counter = 0, mg_uniq_rows = {}, mg_rowHasEntry = (\<lambda>_. 0),
         mg_s_num_reset = 0, mg_s_glob_spill_count = 0, mg_s_num_access = 0, mg_s_num_install = 0, mg_s_aggressors = 0\<rparr>)
       1 2 8 1 1 1) [3] = Inr (m', flags) \<and> mg_lookup m' 5 0 0 0 = Inr False \<and> count_list [3::nat] 5 < 2"
proof -
  let ?mem = "\<lambda>_ _ _. \<lparr>mg_entries = [], mg_spill_counter = 0, mg_uniq_rows = {}, mg_rowHasEntry = (\<lambda>_. 0),
         mg_s_num_reset = 0, mg_s_glob_spill_count = 0, mg_s_num_access = 0, mg_s_num_install = 0, mg_s_aggressors = 0\<rparr>"
  obtain m' flags where r: "det_run (\<lambda>m r. mg_access m r 0 0 0 False) (mg_new ?mem 1 2 8 1 1 1) [3] = Inr (m', flags)"
    and l: "mg_lookup m' 5 0 0 0 = Inr False"
    by (simp add: mg_new_def mg_access_def mg_bank_access_def mg_miss_def mg_install_def first_idx_def
        mg_entry0_def Let_def inc32_def mg_lookup_def)
  have "count_list [3::nat] 5 < 2"
    by (rule misra_gries_untracked_is_cold[OF _ _ _ _ _ _ _ _ r _ l]) simp_all
  then show ?thesis using r l by blast
qed

text \<open>The constructor does not initialise the spill counter: if the allocated memory is not
  zero there, the very first activation of the bank fails the assertion that every entry is
  valid.\<close>

theorem misra_gries_uninitialised_spill_fails:
  assumes "mg_spill_counter (mem c k b) \<noteq> 0" "0 < n" "b < nb" "k < nk" "c < nc" "r < R"
  shows "mg_access (mg_new mem n th R nb nk nc) r b k c False = Inl AssertFail"
proof -
  have "first_idx (\<lambda>ii. mg_count (replicate n mg_entry0 ! ii) = mg_spill_counter (mem c k b)
      \<or> \<not> mg_valid (replicate n mg_entry0 ! ii)) n = Some 0"
    using assms(2) by (auto simp: first_idx_Some_iff mg_entry0_def)
  moreover have "mg_count (replicate n mg_entry0 ! 0) \<noteq> mg_spill_counter (mem c k b)"
    using assms(1,2) by (simp add: mg_entry0_def)
  ultimately show ?thesis
    using assms by (simp add: mg_access_def mg_new_def mg_bank_access_def mg_miss_def)
qed

theorem misra_gries_uninitialised_spill_fails_witness:
  "mg_access (mg_new (\<lambda>_ _ _. \<lparr>mg_entries = [], mg_spill_counter = 1, mg_uniq_rows = {}, mg_rowHasEntry = (\<lambda>_. 0),
         mg_s_num_reset = 0, mg_s_glob_spill_count = 0, mg_s_num_access = 0, mg_s_num_install = 0, mg_s_aggressors = 0\<rparr>)
       4 2 8 1 1 1) 3 0 0 0 False = Inl AssertFail"
  by (rule misra_gries_uninitialised_spill_fails) simp_all

end
