(* ===== verification/Defense_Base.thy ===== *)
theory Defense_Base
  imports Misra_Gries
begin

text \<open>
  What the Rowhammer defenses of \<open>mem/rowhammer_mitigation.{hh,cc}\<close> share: the \<open>Decision\<close>
  they answer, the virtual interface of the detector as a record of functions (its one
  implementation is \<open>Misra_Gries\<close>), the refresh window, and the per-row statistics collected
  at a reset.
\<close>

section \<open>Decision\<close>

record decision =
  d_mitigate :: bool
  d_isActionSwap :: "bool list"
  d_validAddrs :: nat
  d_addrs :: "nat list"
  d_remappedAddr :: nat
  d_delay :: tick
  d_SRAM_delay :: tick
  d_MC_delay :: tick
  d_bus_delay :: tick
  d_bank_delay :: tick

text \<open>\<open>resetDecision\<close>, the same in the four classes (\<open>remappedAddr\<close> is unsigned: -1 is
  2^64-1).\<close>

definition resetDecision :: "decision \<Rightarrow> decision" where
  "resetDecision d = d\<lparr>d_validAddrs := 0, d_remappedAddr := 2 ^ 64 - 1, d_mitigate := False,
     d_delay := 0, d_MC_delay := 0, d_SRAM_delay := 0, d_bus_delay := 0, d_bank_delay := 0,
     d_isActionSwap := replicate 6 False, d_addrs := replicate 6 0\<rparr>"

text \<open>\<open>isActionSwap[validAddrs] = true; addrs[validAddrs] = a; validAddrs++\<close>\<close>

definition push_addr :: "decision \<Rightarrow> nat \<Rightarrow> decision result" where
  "push_addr d a =
     (if d_validAddrs d < length (d_addrs d) \<and> d_validAddrs d < length (d_isActionSwap d)
      then Inr (d\<lparr>d_isActionSwap := (d_isActionSwap d)[d_validAddrs d := True],
                  d_addrs := (d_addrs d)[d_validAddrs d := a],
                  d_validAddrs := d_validAddrs d + 1\<rparr>)
      else Inl OutOfBounds)"

text \<open>The swap actions of a decision: the valid addresses.\<close>

definition actions :: "decision \<Rightarrow> nat list" where
  "actions d = take (d_validAddrs d) (d_addrs d)"

definition decision_wf :: "decision \<Rightarrow> bool" where
  "decision_wf d \<longleftrightarrow> length (d_addrs d) = 6 \<and> length (d_isActionSwap d) = 6 \<and> d_validAddrs d \<le> 6"

lemma resetDecision_wf [simp]: "decision_wf (resetDecision d)"
  by (simp add: decision_wf_def resetDecision_def)

lemma actions_reset [simp]: "actions (resetDecision d) = []"
  by (simp add: actions_def resetDecision_def)

lemma length_actions: "decision_wf d \<Longrightarrow> length (actions d) = d_validAddrs d"
  by (simp add: decision_wf_def actions_def)

lemma push_addr_spec:
  assumes "decision_wf d" "length (actions d) < 6"
  shows "\<exists>d'. push_addr d a = Inr d' \<and> decision_wf d' \<and> actions d' = actions d @ [a] \<and>
    d_mitigate d' = d_mitigate d"
proof -
  have v: "d_validAddrs d < 6" using assms by (simp add: length_actions)
  then show ?thesis
    using assms(1) by (auto simp: push_addr_def decision_wf_def actions_def take_Suc_conv_app_nth)
qed

lemma push_addr_full: "decision_wf d \<Longrightarrow> length (actions d) = 6 \<Longrightarrow> push_addr d a = Inl OutOfBounds"
  by (simp add: push_addr_def decision_wf_def length_actions)

section \<open>The detector's virtual functions\<close>

record 'd detector_ops =
  det_access :: "'d \<Rightarrow> nat \<Rightarrow> nat \<Rightarrow> nat \<Rightarrow> nat \<Rightarrow> bool \<Rightarrow> ('d \<times> bool) result"
  det_reset :: "'d \<Rightarrow> 'd"

definition mg_ops :: "misra_gries detector_ops" where
  "mg_ops = \<lparr>det_access = mg_access, det_reset = mg_reset\<rparr>"

section \<open>Refresh window\<close>

text \<open>64 ms in picoseconds.\<close>

definition REFRESH_WINDOW :: tick where "REFRESH_WINDOW = 64000000000"

section \<open>Statistics of a reset\<close>

text \<open>The loop over the decimal buckets: bucket \<open>i\<close> holds the counts from \<open>10^i\<close> below
  \<open>10^(i+1)\<close>, and the last bucket everything above.\<close>

function log_bucket :: "nat \<Rightarrow> nat \<Rightarrow> nat \<Rightarrow> nat \<Rightarrow> nat option" where
  "log_bucket buckets n i logval =
     (if i < buckets then
        let next_logval = 10 * logval in
        if logval \<le> n \<and> (n < next_logval \<or> i = buckets - 1) then Some i
        else log_bucket buckets n (i + 1) next_logval
      else None)"
  by pat_completeness auto
termination
  by (relation "measure (\<lambda>(buckets, n, i, logval). buckets - i)") auto

declare log_bucket.simps [simp del]

text \<open>One iteration of the loop over all rows: the count of rows at or over the threshold,
  the bucket counts, and the per-row counter, which is cleared.\<close>

record row_stats =
  rs_RH :: nat
  rs_log :: "nat list"
  rs_acc :: "nat \<Rightarrow> nat"

definition row_stats_step :: "nat \<Rightarrow> row_stats \<Rightarrow> nat \<Rightarrow> row_stats" where
  "row_stats_step threshold s rval =
     (let n = rs_acc s rval;
          rh = (if threshold \<le> n then rs_RH s + 1 else rs_RH s);
          lg = (case log_bucket 4 n 0 1 of
                  Some i \<Rightarrow> (rs_log s)[i := rs_log s ! i + 1] | None \<Rightarrow> rs_log s)
      in \<lparr>rs_RH = rh, rs_log = lg, rs_acc = (rs_acc s)(rval := 0)\<rparr>)"

definition row_stats_loop :: "nat \<Rightarrow> row_stats \<Rightarrow> nat \<Rightarrow> row_stats" where
  "row_stats_loop threshold s n = foldl (row_stats_step threshold) s [0..<n]"

lemma row_stats_loop_Suc:
  "row_stats_loop th s (Suc n) = row_stats_step th (row_stats_loop th s n) n"
  by (simp add: row_stats_loop_def)

lemma row_stats_loop_acc:
  "rs_acc (row_stats_loop th s n) r = (if r < n then 0 else rs_acc s r)"
proof (induction n arbitrary: r)
  case (Suc n)
  show ?case by (simp add: row_stats_loop_Suc row_stats_step_def Let_def Suc less_Suc_eq)
qed (simp add: row_stats_loop_def)

lemma row_stats_loop_RH:
  "rs_RH (row_stats_loop th s n) = rs_RH s + card {r. r < n \<and> th \<le> rs_acc s r}"
proof (induction n)
  case (Suc n)
  have "{r. r < Suc n \<and> th \<le> rs_acc s r} = {r. r < n \<and> th \<le> rs_acc s r} \<union>
      (if th \<le> rs_acc s n then {n} else {})"
    by (auto simp: less_Suc_eq)
  then have "card {r. r < Suc n \<and> th \<le> rs_acc s r} =
      card {r. r < n \<and> th \<le> rs_acc s r} + (if th \<le> rs_acc s n then 1 else 0)"
    by simp
  moreover have "rs_acc (row_stats_loop th s n) n = rs_acc s n" by (simp add: row_stats_loop_acc)
  ultimately show ?case
    using Suc by (simp add: row_stats_loop_Suc row_stats_step_def Let_def)
qed (simp add: row_stats_loop_def)

text \<open>Every count from 1 on falls in one bucket, the one of its decimal length.\<close>

lemma log_bucket_4:
  "log_bucket 4 n 0 1 =
     (if n = 0 then None else if n < 10 then Some 0 else if n < 100 then Some 1
      else if n < 1000 then Some 2 else Some 3)"
  by (simp add: log_bucket.simps Let_def)

end
