(* ===== verification/Remap_Interface.thy ===== *)
theory Remap_Interface
  imports Pride_Base
begin

text \<open>
  The contract of the structures that move aggressor rows: \<open>place\<close> gives the physical location
  of a row.  A defense is only transparent to software when two rows never share a location
  (\<open>row_placement\<close>).  A swap table promises more: its map is an involution of the rows
  (\<open>row_swap_table\<close>), so the locations are the rows themselves, permuted.
\<close>

locale row_placement =
  fixes place :: "'t \<Rightarrow> nat \<Rightarrow> nat"
    and inv :: "nat \<Rightarrow> 't \<Rightarrow> bool"
  assumes place_inj: "inv n t \<Longrightarrow> r < n \<Longrightarrow> q < n \<Longrightarrow> place t r = place t q \<Longrightarrow> r = q"
begin

lemma inj_on_place: "inv n t \<Longrightarrow> inj_on (place t) {..<n}"
  by (rule inj_onI) (auto intro: place_inj)

lemma card_places: "inv n t \<Longrightarrow> card (place t ` {..<n}) = n"
  using card_image[OF inj_on_place] by simp

end

locale row_swap_table =
  fixes remap :: "'t \<Rightarrow> nat \<Rightarrow> nat"
    and inv :: "nat \<Rightarrow> 't \<Rightarrow> bool"
  assumes remap_less: "inv n t \<Longrightarrow> r < n \<Longrightarrow> remap t r < n"
    and remap_invol: "inv n t \<Longrightarrow> r < n \<Longrightarrow> remap t (remap t r) = r"
begin

lemma remap_inj: "inv n t \<Longrightarrow> r < n \<Longrightarrow> q < n \<Longrightarrow> remap t r = remap t q \<Longrightarrow> r = q"
  by (metis remap_invol)

lemma remap_bij:
  assumes "inv n t"
  shows "bij_betw (remap t) {..<n} {..<n}"
proof (rule bij_betw_byWitness[where f' = "remap t"])
  show "\<forall>a\<in>{..<n}. remap t (remap t a) = a" "\<forall>a\<in>{..<n}. remap t (remap t a) = a"
    using remap_invol[OF assms] by simp_all
  show "remap t ` {..<n} \<subseteq> {..<n}" "remap t ` {..<n} \<subseteq> {..<n}"
    using remap_less[OF assms] by blast+
qed

end

sublocale row_swap_table \<subseteq> placed: row_placement remap inv
  by unfold_locales (rule remap_inj)

end
