(* ===== verification/Row_Swap.thy ===== *)
theory Row_Swap
  imports Defense_Base Remap_Interface
begin

text \<open>
  \<open>Randomized_Row_Swap\<close> of \<open>mem/rowhammer_mitigation.cc\<close>: per bank a Row Indirection Table of
  swap tuples with a reverse index, and the operations that swap an aggressor with a random
  cold row, re-swap it, and un-swap an old tuple when the table is over its demand size.
  \<open>rand()\<close> is a stream \<open>rnd\<close> read at a position kept in the state; the detector is the record
  of functions of \<open>Defense_Base\<close>.  The lemmas show that the table stays an involution of the
  bank's rows, and that no assertion of an insertion fails while two tuples are left unlocked
  and enough rows are cold.
\<close>

section \<open>State\<close>

record rit_entry =
  rit_valid :: bool
  rit_locked :: bool
  rit_orig :: nat
  rit_remapped :: nat

record rit =
  rit_tuples :: "rit_entry list"
  rit_rowHasEntry :: "nat \<Rightarrow> nat"
  rit_valid_tuples :: nat

record 'd rrs =
  rrs_numRows :: nat
  rrs_numBanks :: nat
  rrs_numRanks :: nat
  rrs_numChannels :: nat
  rrs_last_reset :: tick
  rrs_threshold :: nat
  rrs_detector :: 'd
  rrs_decision :: decision
  rrs_numAccessesToRow :: "nat \<Rightarrow> nat"
  rrs_swapDelay :: tick
  rrs_SRAM_RIT_accDelay :: tick
  rrs_tables :: "nat \<Rightarrow> nat \<Rightarrow> nat \<Rightarrow> rit"
  rrs_maxValidTuples :: nat
  rrs_numTuples :: nat
  rrs_rand_pos :: nat
  rrs_s_remapped_row_accessed :: nat
  rrs_s_clean_install :: nat
  rrs_s_only_unswap :: nat
  rrs_s_clean_reswap :: nat
  rrs_s_dirty_reswap :: nat
  rrs_s_num_resets :: nat
  rrs_s_num_accesses :: nat
  rrs_s_numLogRowAccesses :: "nat list"
  rrs_s_numRowAccesses_RH :: nat
  rrs_s_randRowGenerationFailed :: nat

definition rit_entry0 :: rit_entry where
  "rit_entry0 = \<lparr>rit_valid = False, rit_locked = False, rit_orig = 0, rit_remapped = 0\<rparr>"

text \<open>The constructor.  The detector and the delays are set by the memory controller after it,
  the members it leaves uninitialised come from \<open>mem\<close>; the product with the 42.8% overhead is
  truncated to an integer.\<close>

definition rrs_new :: "'d rrs \<Rightarrow> nat \<Rightarrow> nat \<Rightarrow> nat \<Rightarrow> nat \<Rightarrow> nat \<Rightarrow> nat \<Rightarrow> 'd rrs" where
  "rrs_new mem demandTuples numRows threshold numBanks numRanks numChannels =
     (let numTuples = 1428571 * demandTuples div 1000000 in
      mem\<lparr> rrs_threshold := threshold, rrs_numRows := numRows,
           rrs_maxValidTuples := demandTuples, rrs_numTuples := numTuples,
           rrs_numBanks := numBanks, rrs_numRanks := numRanks, rrs_numChannels := numChannels,
           rrs_last_reset := 0,
           rrs_tables := (\<lambda>ii jj kk. \<lparr>rit_tuples = replicate numTuples rit_entry0,
             rit_rowHasEntry = (\<lambda>_. 0), rit_valid_tuples = 0\<rparr>),
           rrs_rand_pos := 0,
           rrs_numAccessesToRow := (\<lambda>_. 0),
           rrs_s_numRowAccesses_RH := 0, rrs_s_numLogRowAccesses := replicate 4 0,
           rrs_s_remapped_row_accessed := 0, rrs_s_clean_install := 0, rrs_s_only_unswap := 0,
           rrs_s_clean_reswap := 0, rrs_s_dirty_reswap := 0, rrs_s_num_resets := 0,
           rrs_s_num_accesses := 0,
           rrs_decision := resetDecision (rrs_decision mem)\<rparr>)"

definition rrs_table :: "'d rrs \<Rightarrow> nat \<Rightarrow> nat \<Rightarrow> nat \<Rightarrow> rit" where
  "rrs_table s bankID rankID channelID = rrs_tables s channelID rankID bankID"

definition rrs_set_table :: "'d rrs \<Rightarrow> nat \<Rightarrow> nat \<Rightarrow> nat \<Rightarrow> rit \<Rightarrow> 'd rrs" where
  "rrs_set_table s bankID rankID channelID t =
     s\<lparr>rrs_tables := (rrs_tables s)(channelID := (rrs_tables s channelID)(rankID :=
         (rrs_tables s channelID rankID)(bankID := t)))\<rparr>"

section \<open>Operations\<close>

text \<open>The entry of a row, with the assertion that guards its use in \<open>getRemappedAddr\<close> and
  \<open>insertTuple\<close>.\<close>

definition rit_find :: "rit \<Rightarrow> nat \<Rightarrow> nat option result" where
  "rit_find t row =
     (if rit_rowHasEntry t row = 0 then Inr None
      else let entryID = rit_rowHasEntry t row - 1 in
        if \<not> entryID < length (rit_tuples t) then Inl OutOfBounds
        else if rit_valid (rit_tuples t ! entryID) \<and>
                (rit_orig (rit_tuples t ! entryID) = row \<or> rit_remapped (rit_tuples t ! entryID) = row)
        then Inr (Some entryID)
        else Inl AssertFail)"

definition rrs_getRemappedAddr ::
  "'d rrs \<Rightarrow> nat \<Rightarrow> nat \<Rightarrow> nat \<Rightarrow> nat \<Rightarrow> bool \<Rightarrow> ('d rrs \<times> nat) result" where
  "rrs_getRemappedAddr s row bankID rankID channelID isFuncLookup =
     (let t = rrs_table s bankID rankID channelID in
      rbind (rit_find t row) (\<lambda>m.
        case m of
          None \<Rightarrow> Inr (s, row)
        | Some e \<Rightarrow>
            let a = (if rit_orig (rit_tuples t ! e) = row then rit_remapped (rit_tuples t ! e)
                     else rit_orig (rit_tuples t ! e))
            in Inr (if isFuncLookup then s
                    else s\<lparr>rrs_s_remapped_row_accessed := rrs_s_remapped_row_accessed s + 1\<rparr>, a)))"

text \<open>The test of a candidate row: not the row to avoid, not in the table, not tracked by the
  detector (which is asked only when the first two hold).\<close>

definition rrs_candidate ::
  "'d detector_ops \<Rightarrow> nat \<Rightarrow> nat \<Rightarrow> nat \<Rightarrow> nat \<Rightarrow> 'd rrs \<Rightarrow> nat \<Rightarrow> ('d rrs \<times> bool) result" where
  "rrs_candidate ops avoidRow bankID rankID channelID s row =
     (if row \<noteq> avoidRow \<and> rit_rowHasEntry (rrs_table s bankID rankID channelID) row = 0
      then rbind (det_access ops (rrs_detector s) row bankID rankID channelID True)
             (\<lambda>(d, f). Inr (s\<lparr>rrs_detector := d\<rparr>, \<not> f))
      else Inr (s, False))"

text \<open>At most \<open>tries\<close> random guesses.\<close>

fun rrs_guess ::
  "'d detector_ops \<Rightarrow> (nat \<Rightarrow> nat) \<Rightarrow> nat \<Rightarrow> nat \<Rightarrow> nat \<Rightarrow> nat \<Rightarrow> nat \<Rightarrow> 'd rrs \<Rightarrow> ('d rrs \<times> nat option) result"
where
  "rrs_guess ops rnd avoidRow bankID rankID channelID 0 s = Inr (s, None)"
| "rrs_guess ops rnd avoidRow bankID rankID channelID (Suc tries) s =
     (if rrs_numRows s = 0 then Inl DivideByZero
      else let guessRow = rnd (rrs_rand_pos s) mod rrs_numRows s;
               s0 = s\<lparr>rrs_rand_pos := rrs_rand_pos s + 1\<rparr>
           in rbind (rrs_candidate ops avoidRow bankID rankID channelID s0 guessRow) (\<lambda>(s1, good).
                if good then Inr (s1, Some guessRow)
                else rrs_guess ops rnd avoidRow bankID rankID channelID tries s1))"

text \<open>The scan over all rows that replaces ten failed guesses.\<close>

fun rrs_scan ::
  "'d detector_ops \<Rightarrow> nat \<Rightarrow> nat \<Rightarrow> nat \<Rightarrow> nat \<Rightarrow> nat list \<Rightarrow> 'd rrs \<Rightarrow> ('d rrs \<times> nat option) result"
where
  "rrs_scan ops avoidRow bankID rankID channelID [] s = Inr (s, None)"
| "rrs_scan ops avoidRow bankID rankID channelID (ii # rows) s =
     rbind (rrs_candidate ops avoidRow bankID rankID channelID s ii) (\<lambda>(s1, good).
       if good then Inr (s1, Some ii)
       else rrs_scan ops avoidRow bankID rankID channelID rows s1)"

definition rrs_generateRandomRowAddr ::
  "'d detector_ops \<Rightarrow> (nat \<Rightarrow> nat) \<Rightarrow> 'd rrs \<Rightarrow> nat \<Rightarrow> nat \<Rightarrow> nat \<Rightarrow> nat \<Rightarrow> ('d rrs \<times> nat) result" where
  "rrs_generateRandomRowAddr ops rnd s avoidRow bankID rankID channelID =
     rbind (rrs_guess ops rnd avoidRow bankID rankID channelID 10 s) (\<lambda>(s1, g).
       case g of
         Some r \<Rightarrow> Inr (s1, r)
       | None \<Rightarrow>
           rbind (rrs_scan ops avoidRow bankID rankID channelID [0..<rrs_numRows s1]
                    (s1\<lparr>rrs_s_randRowGenerationFailed := rrs_s_randRowGenerationFailed s1 + 1\<rparr>))
             (\<lambda>(s2, h). case h of Some r \<Rightarrow> Inr (s2, r) | None \<Rightarrow> Inl AssertFail))"

text \<open>Re-swap: tuple \<open>e\<close> holds \<open><X, A>\<close> and becomes \<open><X, Y>\<close>; the answer names \<open>A\<close>.\<close>

definition rit_reswap :: "rit \<Rightarrow> nat \<Rightarrow> nat \<Rightarrow> nat \<Rightarrow> rit \<times> nat" where
  "rit_reswap t e row y =
     (let en = (rit_tuples t ! e)\<lparr>rit_locked := True\<rparr> in
      if rit_orig en = row
      then (t\<lparr>rit_tuples := (rit_tuples t)[e := en\<lparr>rit_remapped := y\<rparr>],
              rit_rowHasEntry := (rit_rowHasEntry t)(rit_remapped en := 0, y := e + 1)\<rparr>,
            rit_remapped en)
      else (t\<lparr>rit_tuples := (rit_tuples t)[e := en\<lparr>rit_orig := y\<rparr>],
              rit_rowHasEntry := (rit_rowHasEntry t)(rit_orig en := 0, y := e + 1)\<rparr>,
            rit_orig en))"

text \<open>Install \<open><a, b>\<close> in the first invalid tuple; with none the loop does nothing.\<close>

definition rit_install :: "nat \<Rightarrow> rit \<Rightarrow> nat \<Rightarrow> nat \<Rightarrow> rit" where
  "rit_install numTuples t a b =
     (case first_idx (\<lambda>ii. \<not> rit_valid (rit_tuples t ! ii)) numTuples of
        None \<Rightarrow> t
      | Some ii \<Rightarrow>
          t\<lparr>rit_tuples := (rit_tuples t)[ii :=
               \<lparr>rit_valid = True, rit_locked = True, rit_orig = a, rit_remapped = b\<rparr>],
            rit_rowHasEntry := (rit_rowHasEntry t)(a := ii + 1, b := ii + 1),
            rit_valid_tuples := rit_valid_tuples t + 1\<rparr>)"

text \<open>Un-swap: the first valid tuple that is not locked leaves the table.\<close>

definition rit_evict :: "nat \<Rightarrow> rit \<Rightarrow> (rit \<times> nat \<times> nat) result" where
  "rit_evict numTuples t =
     (case first_idx (\<lambda>ii. rit_valid (rit_tuples t ! ii) \<and> \<not> rit_locked (rit_tuples t ! ii)) numTuples of
        None \<Rightarrow> Inl AssertFail
      | Some ii \<Rightarrow>
          let en = rit_tuples t ! ii in
          Inr (t\<lparr>rit_tuples := (rit_tuples t)[ii := rit_entry0],
                 rit_rowHasEntry := (rit_rowHasEntry t)(rit_orig en := 0, rit_remapped en := 0),
                 rit_valid_tuples := rit_valid_tuples t - 1\<rparr>,
               rit_orig en, rit_remapped en))"

definition rrs_push :: "'d rrs \<Rightarrow> nat \<Rightarrow> 'd rrs result" where
  "rrs_push s a = rbind (push_addr (rrs_decision s) a) (\<lambda>d. Inr (s\<lparr>rrs_decision := d\<rparr>))"

text \<open>The end of \<open>insertTuple\<close>: evict if the table is over its demand size, and count the
  kind of swap.\<close>

definition rrs_settle :: "'d rrs \<Rightarrow> nat \<Rightarrow> nat \<Rightarrow> nat \<Rightarrow> bool \<Rightarrow> 'd rrs result" where
  "rrs_settle s bankID rankID channelID reswap =
     (let t = rrs_table s bankID rankID channelID in
      if rrs_maxValidTuples s < rit_valid_tuples t then
        rbind (rit_evict (rrs_numTuples s) t) (\<lambda>(t1, o1, r1).
        rbind (rrs_push s o1) (\<lambda>s1.
        rbind (rrs_push s1 r1) (\<lambda>s2.
          let s3 = rrs_set_table s2 bankID rankID channelID t1 in
          if rit_valid_tuples t1 \<le> rrs_maxValidTuples s
          then Inr (if reswap then s3\<lparr>rrs_s_dirty_reswap := rrs_s_dirty_reswap s3 + 1\<rparr>
                    else s3\<lparr>rrs_s_only_unswap := rrs_s_only_unswap s3 + 1\<rparr>)
          else Inl AssertFail)))
      else Inr (if reswap then s\<lparr>rrs_s_clean_reswap := rrs_s_clean_reswap s + 1\<rparr>
                else s\<lparr>rrs_s_clean_install := rrs_s_clean_install s + 1\<rparr>))"

definition rrs_insertTuple ::
  "'d detector_ops \<Rightarrow> (nat \<Rightarrow> nat) \<Rightarrow> 'd rrs \<Rightarrow> nat \<Rightarrow> nat \<Rightarrow> nat \<Rightarrow> nat \<Rightarrow> 'd rrs result" where
  "rrs_insertTuple ops rnd s row bankID rankID channelID =
     rbind (rrs_push s row) (\<lambda>s0.
     rbind (rrs_generateRandomRowAddr ops rnd s0 row bankID rankID channelID) (\<lambda>(s1, y).
     rbind (rrs_push s1 y) (\<lambda>s2.
     rbind (rit_find (rrs_table s2 bankID rankID channelID) row) (\<lambda>m.
       case m of
         Some e \<Rightarrow>
           let (t1, prev) = rit_reswap (rrs_table s2 bankID rankID channelID) e row y;
               s3 = rrs_set_table s2 bankID rankID channelID t1
           in rbind (rrs_generateRandomRowAddr ops rnd s3 prev bankID rankID channelID) (\<lambda>(s4, b).
              rbind (rrs_push s4 prev) (\<lambda>s5.
              rbind (rrs_push s5 b) (\<lambda>s6.
                rrs_settle (rrs_set_table s6 bankID rankID channelID
                    (rit_install (rrs_numTuples s6) (rrs_table s6 bankID rankID channelID) prev b))
                  bankID rankID channelID True)))
       | None \<Rightarrow>
           rrs_settle (rrs_set_table s2 bankID rankID channelID
               (rit_install (rrs_numTuples s2) (rrs_table s2 bankID rankID channelID) row y))
             bankID rankID channelID False))))"

definition rrs_reset :: "'d detector_ops \<Rightarrow> 'd rrs \<Rightarrow> 'd rrs" where
  "rrs_reset ops s =
     (let unlock = (\<lambda>t. t\<lparr>rit_tuples := map (\<lambda>e. e\<lparr>rit_locked := False\<rparr>) (rit_tuples t)\<rparr>);
          st = row_stats_loop (rrs_threshold s)
                 \<lparr>rs_RH = rrs_s_numRowAccesses_RH s, rs_log = rrs_s_numLogRowAccesses s,
                  rs_acc = rrs_numAccessesToRow s\<rparr>
                 (u32 (rrs_numRows s * rrs_numBanks s * rrs_numRanks s * rrs_numChannels s))
      in s\<lparr> rrs_tables := (\<lambda>ii jj kk.
              if ii < rrs_numChannels s \<and> jj < rrs_numRanks s \<and> kk < rrs_numBanks s
              then unlock (rrs_tables s ii jj kk) else rrs_tables s ii jj kk),
            rrs_detector := det_reset ops (rrs_detector s),
            rrs_s_num_resets := rrs_s_num_resets s + 1,
            rrs_s_numRowAccesses_RH := rs_RH st, rrs_s_numLogRowAccesses := rs_log st,
            rrs_numAccessesToRow := rs_acc st\<rparr>)"

definition rrs_access ::
  "'d detector_ops \<Rightarrow> (nat \<Rightarrow> nat) \<Rightarrow> 'd rrs \<Rightarrow> tick \<Rightarrow> nat \<Rightarrow> nat \<Rightarrow> nat \<Rightarrow> nat \<Rightarrow> 'd rrs result" where
  "rrs_access ops rnd s currTick row bankID rankID channelID =
     (if row < rrs_numRows s \<and> bankID < rrs_numBanks s \<and> rankID < rrs_numRanks s
         \<and> channelID < rrs_numChannels s
      then
        let s1 = s\<lparr>rrs_s_num_accesses := rrs_s_num_accesses s + 1,
                   rrs_decision := resetDecision (rrs_decision s)\<rparr>;
            s2 = (if REFRESH_WINDOW \<le> sub64 currTick (rrs_last_reset s1)
                  then rrs_reset ops (s1\<lparr>rrs_last_reset := currTick\<rparr>) else s1);
            idx = bankID + rrs_numBanks s2 * row;
            s3 = s2\<lparr>rrs_numAccessesToRow := (rrs_numAccessesToRow s2)(idx := inc32 (rrs_numAccessesToRow s2 idx))\<rparr>
        in rbind (det_access ops (rrs_detector s3) row bankID rankID channelID False) (\<lambda>(d, f).
             let s4 = s3\<lparr>rrs_detector := d, rrs_decision := (rrs_decision s3)\<lparr>d_mitigate := f,
                          d_SRAM_delay := d_SRAM_delay (rrs_decision s3) + rrs_SRAM_RIT_accDelay s3\<rparr>\<rparr>
             in if f
                then rbind (rrs_insertTuple ops rnd s4 row bankID rankID channelID) (\<lambda>s5.
                       Inr (s5\<lparr>rrs_decision := (rrs_decision s5)\<lparr>d_delay :=
                          rrs_swapDelay s5 * d_validAddrs (rrs_decision s5) div 2\<rparr>\<rparr>))
                else Inr s4)
      else Inl OutOfBounds)"

section \<open>Invariant of a table\<close>

text \<open>The row that holds the data of \<open>r\<close>, and the set of valid (and of locked) tuples.\<close>

definition rit_remap :: "rit \<Rightarrow> nat \<Rightarrow> nat" where
  "rit_remap t r =
     (if rit_rowHasEntry t r = 0 then r
      else let en = rit_tuples t ! (rit_rowHasEntry t r - 1) in
        if rit_orig en = r then rit_remapped en else rit_orig en)"

definition valid_ids :: "nat \<Rightarrow> rit \<Rightarrow> nat set" where
  "valid_ids N t = {i. i < N \<and> rit_valid (rit_tuples t ! i)}"

definition locked_ids :: "nat \<Rightarrow> rit \<Rightarrow> nat set" where
  "locked_ids N t = {i. i < N \<and> rit_valid (rit_tuples t ! i) \<and> rit_locked (rit_tuples t ! i)}"

definition rit_index_wf :: "nat \<Rightarrow> nat \<Rightarrow> rit \<Rightarrow> bool" where
  "rit_index_wf N n t \<longleftrightarrow> length (rit_tuples t) = N \<and>
     (\<forall>r. rit_rowHasEntry t r \<noteq> 0 \<longrightarrow> rit_rowHasEntry t r \<le> N \<and>
        (let en = rit_tuples t ! (rit_rowHasEntry t r - 1) in
          rit_valid en \<and> (rit_orig en = r \<or> rit_remapped en = r))) \<and>
     (\<forall>i<N. let en = rit_tuples t ! i in rit_valid en \<longrightarrow>
        rit_orig en < n \<and> rit_remapped en < n \<and> rit_orig en \<noteq> rit_remapped en \<and>
        rit_rowHasEntry t (rit_orig en) = i + 1 \<and> rit_rowHasEntry t (rit_remapped en) = i + 1)"

definition rit_wf :: "nat \<Rightarrow> nat \<Rightarrow> rit \<Rightarrow> bool" where
  "rit_wf N n t \<longleftrightarrow> rit_index_wf N n t \<and> rit_valid_tuples t = card (valid_ids N t)"

lemma rit_index_row:
  assumes "rit_index_wf N n t" "rit_rowHasEntry t r = Suc i"
  shows "i < N" "rit_valid (rit_tuples t ! i)"
    "rit_orig (rit_tuples t ! i) = r \<or> rit_remapped (rit_tuples t ! i) = r"
  using assms unfolding rit_index_wf_def Let_def
  by (metis Suc_le_eq diff_Suc_1 nat.distinct(1))+

lemma rit_index_tuple:
  assumes "rit_index_wf N n t" "i < N" "rit_valid (rit_tuples t ! i)"
  shows "rit_orig (rit_tuples t ! i) < n" "rit_remapped (rit_tuples t ! i) < n"
    "rit_orig (rit_tuples t ! i) \<noteq> rit_remapped (rit_tuples t ! i)"
    "rit_rowHasEntry t (rit_orig (rit_tuples t ! i)) = Suc i"
    "rit_rowHasEntry t (rit_remapped (rit_tuples t ! i)) = Suc i"
  using assms unfolding rit_index_wf_def Let_def by simp_all

lemma rit_index_length: "rit_index_wf N n t \<Longrightarrow> length (rit_tuples t) = N"
  by (simp add: rit_index_wf_def)

lemma rit_index_wfI:
  assumes "length (rit_tuples t) = N"
    and "\<And>r i. rit_rowHasEntry t r = Suc i \<Longrightarrow> i < N \<and> rit_valid (rit_tuples t ! i) \<and>
      (rit_orig (rit_tuples t ! i) = r \<or> rit_remapped (rit_tuples t ! i) = r)"
    and "\<And>i. i < N \<Longrightarrow> rit_valid (rit_tuples t ! i) \<Longrightarrow>
      rit_orig (rit_tuples t ! i) < n \<and> rit_remapped (rit_tuples t ! i) < n \<and>
      rit_orig (rit_tuples t ! i) \<noteq> rit_remapped (rit_tuples t ! i) \<and>
      rit_rowHasEntry t (rit_orig (rit_tuples t ! i)) = Suc i \<and>
      rit_rowHasEntry t (rit_remapped (rit_tuples t ! i)) = Suc i"
  shows "rit_index_wf N n t"
  unfolding rit_index_wf_def Let_def
proof (intro conjI allI impI)
  fix r assume "rit_rowHasEntry t r \<noteq> 0"
  then obtain i where i: "rit_rowHasEntry t r = Suc i" by (cases "rit_rowHasEntry t r") auto
  show "rit_rowHasEntry t r \<le> N" "rit_valid (rit_tuples t ! (rit_rowHasEntry t r - 1))"
    "rit_orig (rit_tuples t ! (rit_rowHasEntry t r - 1)) = r \<or>
      rit_remapped (rit_tuples t ! (rit_rowHasEntry t r - 1)) = r"
    using assms(2)[OF i] i by simp_all
qed (use assms in simp_all)

lemma rit_remap_free: "rit_rowHasEntry t r = 0 \<Longrightarrow> rit_remap t r = r"
  by (simp add: rit_remap_def)

lemma rit_remap_tuple:
  assumes "rit_index_wf N n t" "i < N" "rit_valid (rit_tuples t ! i)"
  shows "rit_remap t (rit_orig (rit_tuples t ! i)) = rit_remapped (rit_tuples t ! i)"
    "rit_remap t (rit_remapped (rit_tuples t ! i)) = rit_orig (rit_tuples t ! i)"
  using rit_index_tuple[OF assms] by (simp_all add: rit_remap_def)

text \<open>A row is free or one of the two rows of a valid tuple.\<close>

lemma rit_row_cases:
  assumes "rit_index_wf N n t"
  obtains (free) "rit_rowHasEntry t r = 0"
  | (orig) i where "i < N" "rit_valid (rit_tuples t ! i)" "rit_rowHasEntry t r = Suc i"
      "r = rit_orig (rit_tuples t ! i)"
  | (remapped) i where "i < N" "rit_valid (rit_tuples t ! i)" "rit_rowHasEntry t r = Suc i"
      "r = rit_remapped (rit_tuples t ! i)"
proof (cases "rit_rowHasEntry t r")
  case 0
  then show ?thesis by (rule free)
next
  case (Suc i)
  show ?thesis using rit_index_row[OF assms Suc] orig[of i] remapped[of i] Suc by metis
qed

lemma rit_remap_less:
  assumes "rit_index_wf N n t" "r < n"
  shows "rit_remap t r < n"
  using assms(1)
proof (cases rule: rit_row_cases[of N n t r])
  case free
  then show ?thesis using assms(2) by (simp add: rit_remap_free)
next
  case (orig i)
  then show ?thesis using rit_remap_tuple rit_index_tuple assms(1) by metis
next
  case (remapped i)
  then show ?thesis using rit_remap_tuple rit_index_tuple assms(1) by metis
qed

lemma rit_remap_invol:
  assumes "rit_index_wf N n t"
  shows "rit_remap t (rit_remap t r) = r"
  using assms(1)
proof (cases rule: rit_row_cases[of N n t r])
  case free
  then show ?thesis by (simp add: rit_remap_free)
next
  case (orig i)
  then show ?thesis using rit_remap_tuple[OF assms orig(1,2)] by simp
next
  case (remapped i)
  then show ?thesis using rit_remap_tuple[OF assms remapped(1,2)] by simp
qed

interpretation rit_table: row_swap_table rit_remap "rit_wf N" for N
  by unfold_locales (auto simp: rit_wf_def intro: rit_remap_less rit_remap_invol)

lemma rit_find_spec:
  assumes "rit_index_wf N n t"
  shows "rit_find t r = Inr (if rit_rowHasEntry t r = 0 then None else Some (rit_rowHasEntry t r - 1))"
  using assms(1)
  by (cases rule: rit_row_cases[of N n t r]) (auto simp: rit_find_def rit_index_length[OF assms])

section \<open>The table operations\<close>

lemma finite_ids [simp]: "finite (valid_ids N t)" "finite (locked_ids N t)"
  by (simp_all add: valid_ids_def locked_ids_def)

lemma locked_le_valid: "locked_ids N t \<subseteq> valid_ids N t"
  by (auto simp: valid_ids_def locked_ids_def)

lemma free_slot:
  assumes "card (valid_ids N t) < N"
  shows "\<exists>i. first_idx (\<lambda>ii. \<not> rit_valid (rit_tuples t ! ii)) N = Some i"
proof -
  have "\<not> {..<N} \<subseteq> valid_ids N t"
    using card_mono[OF finite_ids(1), of "{..<N}" N t] assms by auto
  then obtain i where "i < N" "\<not> rit_valid (rit_tuples t ! i)"
    unfolding valid_ids_def by blast
  then show ?thesis by (rule first_idx_ex)
qed

text \<open>What an operation does to the table: the map, the rows in use, the number of valid and
  of locked tuples.\<close>

definition rit_becomes ::
  "nat \<Rightarrow> nat \<Rightarrow> rit \<Rightarrow> (nat \<Rightarrow> nat) \<Rightarrow> nat set \<Rightarrow> nat \<Rightarrow> nat \<Rightarrow> bool" where
  "rit_becomes N n t f used valid locked \<longleftrightarrow> rit_wf N n t \<and> rit_remap t = f \<and>
     {r. rit_rowHasEntry t r \<noteq> 0} = used \<and> card (valid_ids N t) = valid \<and>
     card (locked_ids N t) \<le> locked"

lemma rit_install_spec:
  assumes wf: "rit_wf N n t" and room: "card (valid_ids N t) < N"
    and rows: "a < n" "b < n" "a \<noteq> b" "rit_rowHasEntry t a = 0" "rit_rowHasEntry t b = 0"
  shows "rit_becomes N n (rit_install N t a b) ((rit_remap t)(a := b, b := a))
    (insert a (insert b {r. rit_rowHasEntry t r \<noteq> 0})) (Suc (card (valid_ids N t)))
    (Suc (card (locked_ids N t)))"
proof -
  obtain i where i: "first_idx (\<lambda>ii. \<not> rit_valid (rit_tuples t ! ii)) N = Some i"
    using free_slot[OF room] by blast
  then have iN: "i < N" "\<not> rit_valid (rit_tuples t ! i)" by (auto dest: first_idx_SomeD)
  have ix: "rit_index_wf N n t" using wf by (simp add: rit_wf_def)
  note len = rit_index_length[OF ix]
  define e where "e = \<lparr>rit_valid = True, rit_locked = True, rit_orig = a, rit_remapped = b\<rparr>"
  define t' where "t' = rit_install N t a b"
  have t': "rit_tuples t' = (rit_tuples t)[i := e]"
    "rit_rowHasEntry t' = (rit_rowHasEntry t)(a := i + 1, b := i + 1)"
    "rit_valid_tuples t' = rit_valid_tuples t + 1"
    by (simp_all add: t'_def rit_install_def i e_def)
  have old: "rit_rowHasEntry t r \<noteq> Suc i" for r
    using rit_index_row[OF ix, of r i] iN by auto
  have ix': "rit_index_wf N n t'"
  proof (rule rit_index_wfI)
    show "length (rit_tuples t') = N" by (simp add: t' len)
  next
    fix r j assume h: "rit_rowHasEntry t' r = Suc j"
    show "j < N \<and> rit_valid (rit_tuples t' ! j) \<and>
      (rit_orig (rit_tuples t' ! j) = r \<or> rit_remapped (rit_tuples t' ! j) = r)"
    proof (cases "r = a \<or> r = b")
      case True
      then have "j = i" using h rows(3) by (auto simp: t' split: if_splits)
      then show ?thesis using True iN by (auto simp: t' len e_def)
    next
      case False
      then have "rit_rowHasEntry t r = Suc j" using h by (simp add: t')
      then show ?thesis using rit_index_row[OF ix] old[of r] by (cases "j = i") (simp_all add: t')
    qed
  next
    fix j assume j: "j < N" "rit_valid (rit_tuples t' ! j)"
    show "rit_orig (rit_tuples t' ! j) < n \<and> rit_remapped (rit_tuples t' ! j) < n \<and>
      rit_orig (rit_tuples t' ! j) \<noteq> rit_remapped (rit_tuples t' ! j) \<and>
      rit_rowHasEntry t' (rit_orig (rit_tuples t' ! j)) = Suc j \<and>
      rit_rowHasEntry t' (rit_remapped (rit_tuples t' ! j)) = Suc j"
    proof (cases "j = i")
      case True
      then show ?thesis using rows iN by (simp add: t' len e_def)
    next
      case False
      then show ?thesis using rit_index_tuple[OF ix j(1)] j rows by (auto simp: t')
    qed
  qed
  have v: "valid_ids N t' = insert i (valid_ids N t)" "i \<notin> valid_ids N t"
    using iN by (auto simp: valid_ids_def t' len e_def nth_list_update)
  have l: "locked_ids N t' = insert i (locked_ids N t)"
    using iN by (auto simp: locked_ids_def t' len e_def nth_list_update split: if_splits)
  have "rit_remap t' = (rit_remap t)(a := b, b := a)"
  proof
    fix r
    show "rit_remap t' r = ((rit_remap t)(a := b, b := a)) r"
    proof (cases "r = a \<or> r = b")
      case True
      then show ?thesis using iN rows(3) by (auto simp: rit_remap_def t' len e_def)
    next
      case False
      then have "rit_rowHasEntry t' r = rit_rowHasEntry t r" by (simp add: t')
      moreover have "rit_tuples t' ! (rit_rowHasEntry t r - 1) = rit_tuples t ! (rit_rowHasEntry t r - 1)"
        if "rit_rowHasEntry t r \<noteq> 0"
        using that old[of r] by (cases "rit_rowHasEntry t r") (auto simp: t')
      ultimately show ?thesis using False by (auto simp: rit_remap_def)
    qed
  qed
  moreover have "{r. rit_rowHasEntry t' r \<noteq> 0} = insert a (insert b {r. rit_rowHasEntry t r \<noteq> 0})"
    by (auto simp: t')
  moreover have "rit_wf N n t'" using ix' v wf by (simp add: rit_wf_def t')
  ultimately show ?thesis
    unfolding rit_becomes_def t'_def[symmetric] using v l by (simp add: card_insert_if)
qed

lemma rit_evict_spec:
  assumes wf: "rit_wf N n t" and unl: "card (locked_ids N t) < card (valid_ids N t)"
  shows "\<exists>t' a b. rit_evict N t = Inr (t', a, b) \<and> a \<noteq> b \<and> rit_remap t a = b \<and> rit_remap t b = a \<and>
    rit_rowHasEntry t a \<noteq> 0 \<and> rit_rowHasEntry t b \<noteq> 0 \<and>
    rit_becomes N n t' ((rit_remap t)(a := a, b := b)) ({r. rit_rowHasEntry t r \<noteq> 0} - {a, b})
      (card (valid_ids N t) - 1) (card (locked_ids N t)) \<and> locked_ids N t' = locked_ids N t \<and>
    (\<exists>i\<in>valid_ids N t - locked_ids N t. rit_orig (rit_tuples t ! i) = a \<and> rit_remapped (rit_tuples t ! i) = b)"
proof -
  have "\<not> valid_ids N t \<subseteq> locked_ids N t"
    using card_mono[OF finite_ids(2), of "valid_ids N t" N t] unl by auto
  then obtain k where "k < N" "rit_valid (rit_tuples t ! k) \<and> \<not> rit_locked (rit_tuples t ! k)"
    unfolding valid_ids_def locked_ids_def by blast
  from first_idx_ex[OF this(1), where P = "\<lambda>ii. rit_valid (rit_tuples t ! ii) \<and> \<not> rit_locked (rit_tuples t ! ii)", OF this(2)]
  obtain i where i: "first_idx (\<lambda>ii. rit_valid (rit_tuples t ! ii) \<and> \<not> rit_locked (rit_tuples t ! ii)) N = Some i" ..
  then have iN: "i < N" "rit_valid (rit_tuples t ! i)" "\<not> rit_locked (rit_tuples t ! i)"
    by (auto dest: first_idx_SomeD)
  have ix: "rit_index_wf N n t" using wf by (simp add: rit_wf_def)
  note len = rit_index_length[OF ix]
  note T = rit_index_tuple[OF ix iN(1,2)]
  define a where "a = rit_orig (rit_tuples t ! i)"
  define b where "b = rit_remapped (rit_tuples t ! i)"
  define t' where "t' = t\<lparr>rit_tuples := (rit_tuples t)[i := rit_entry0],
    rit_rowHasEntry := (rit_rowHasEntry t)(a := 0, b := 0), rit_valid_tuples := rit_valid_tuples t - 1\<rparr>"
  note T = T[folded a_def b_def]
  have t': "rit_tuples t' = (rit_tuples t)[i := rit_entry0]"
    "rit_rowHasEntry t' = (rit_rowHasEntry t)(a := 0, b := 0)"
    "rit_valid_tuples t' = rit_valid_tuples t - 1"
    by (simp_all add: t'_def)
  have ev: "rit_evict N t = Inr (t', a, b)"
    by (simp add: rit_evict_def i t'_def a_def b_def Let_def)
  have old: "rit_rowHasEntry t r = Suc i \<longleftrightarrow> r = a \<or> r = b" for r
    using rit_index_row(3)[OF ix, of r i] T a_def b_def by auto
  have ix': "rit_index_wf N n t'"
  proof (rule rit_index_wfI)
    show "length (rit_tuples t') = N" by (simp add: t' len)
  next
    fix r j assume h: "rit_rowHasEntry t' r = Suc j"
    then have r: "rit_rowHasEntry t r = Suc j" "r \<noteq> a" "r \<noteq> b" by (simp_all add: t' split: if_splits)
    then have "j \<noteq> i" using old[of r] by auto
    then show "j < N \<and> rit_valid (rit_tuples t' ! j) \<and>
      (rit_orig (rit_tuples t' ! j) = r \<or> rit_remapped (rit_tuples t' ! j) = r)"
      using rit_index_row[OF ix r(1)] by (simp add: t')
  next
    fix j assume j: "j < N" "rit_valid (rit_tuples t' ! j)"
    have ji: "j \<noteq> i" using j by (auto simp: t' len rit_entry0_def)
    note J = rit_index_tuple[OF ix j(1)]
    have "rit_orig (rit_tuples t ! j) \<noteq> a \<and> rit_orig (rit_tuples t ! j) \<noteq> b \<and>
      rit_remapped (rit_tuples t ! j) \<noteq> a \<and> rit_remapped (rit_tuples t ! j) \<noteq> b"
      using J j ji T by (auto simp: t')
    then show "rit_orig (rit_tuples t' ! j) < n \<and> rit_remapped (rit_tuples t' ! j) < n \<and>
      rit_orig (rit_tuples t' ! j) \<noteq> rit_remapped (rit_tuples t' ! j) \<and>
      rit_rowHasEntry t' (rit_orig (rit_tuples t' ! j)) = Suc j \<and>
      rit_rowHasEntry t' (rit_remapped (rit_tuples t' ! j)) = Suc j"
      using J j ji by (simp add: t')
  qed
  have v: "valid_ids N t' = valid_ids N t - {i}" "i \<in> valid_ids N t"
    using iN by (auto simp: valid_ids_def t' len rit_entry0_def nth_list_update)
  have l: "locked_ids N t' = locked_ids N t"
    using iN by (auto simp: locked_ids_def t' len rit_entry0_def nth_list_update split: if_splits)
  have "rit_remap t' = (rit_remap t)(a := a, b := b)"
  proof
    fix r
    have "rit_tuples t' ! (rit_rowHasEntry t r - 1) = rit_tuples t ! (rit_rowHasEntry t r - 1)"
      if "rit_rowHasEntry t r \<noteq> 0" "r \<noteq> a" "r \<noteq> b"
      using that old[of r] by (cases "rit_rowHasEntry t r") (auto simp: t')
    then show "rit_remap t' r = ((rit_remap t)(a := a, b := b)) r"
      by (auto simp: rit_remap_def t'(2))
  qed
  moreover have "{r. rit_rowHasEntry t' r \<noteq> 0} = {r. rit_rowHasEntry t r \<noteq> 0} - {a, b}"
    by (auto simp: t')
  moreover have "rit_wf N n t'" using ix' v wf by (simp add: rit_wf_def t')
  ultimately have "rit_becomes N n t' ((rit_remap t)(a := a, b := b)) ({r. rit_rowHasEntry t r \<noteq> 0} - {a, b})
      (card (valid_ids N t) - 1) (card (locked_ids N t))"
    unfolding rit_becomes_def using v l by simp
  moreover have "rit_remap t a = b" "rit_remap t b = a"
    using rit_remap_tuple[OF ix iN(1,2)] by (simp_all add: a_def b_def)
  moreover have "i \<in> valid_ids N t - locked_ids N t" using v iN by (simp add: locked_ids_def)
  ultimately show ?thesis using ev T l a_def b_def by auto
qed

lemma rit_reswap_spec:
  assumes wf: "rit_wf N n t" and e: "rit_rowHasEntry t x = Suc e"
    and y: "y < n" "y \<noteq> x" "rit_rowHasEntry t y = 0"
  shows "\<exists>t'. rit_reswap t e x y = (t', rit_remap t x) \<and>
    rit_remap t x \<noteq> x \<and> rit_remap t x \<noteq> y \<and> rit_remap t x < n \<and>
    rit_becomes N n t' ((rit_remap t)(x := y, y := x, rit_remap t x := rit_remap t x))
      (insert y ({r. rit_rowHasEntry t r \<noteq> 0} - {rit_remap t x}))
      (card (valid_ids N t)) (Suc (card (locked_ids N t)))"
proof -
  have ix: "rit_index_wf N n t" using wf by (simp add: rit_wf_def)
  note len = rit_index_length[OF ix]
  note X = rit_index_row[OF ix e]
  note T = rit_index_tuple[OF ix X(1,2)]
  define a where "a = rit_remap t x"
  have a: "a = (if rit_orig (rit_tuples t ! e) = x then rit_remapped (rit_tuples t ! e)
      else rit_orig (rit_tuples t ! e))"
    by (simp add: a_def rit_remap_def e Let_def)
  have ax: "a \<noteq> x" "a < n" "rit_rowHasEntry t a = Suc e" using a X(3) T by auto
  have ay: "a \<noteq> y" using ax(3) y(3) by auto
  have old: "rit_rowHasEntry t r = Suc e \<longleftrightarrow> r = x \<or> r = a" for r
    using rit_index_row(3)[OF ix, of r e] ax e a X(3) by auto
  obtain t' where r: "rit_reswap t e x y = (t', a)"
    and t'1: "rit_rowHasEntry t' = (rit_rowHasEntry t)(a := 0, y := e + 1)"
    and t'2: "rit_valid_tuples t' = rit_valid_tuples t"
    and t'3: "length (rit_tuples t') = N" "\<And>j. j \<noteq> e \<Longrightarrow> rit_tuples t' ! j = rit_tuples t ! j"
    and t'4: "rit_valid (rit_tuples t' ! e)" "rit_locked (rit_tuples t' ! e)"
      "rit_orig (rit_tuples t' ! e) = x \<and> rit_remapped (rit_tuples t' ! e) = y \<or>
       rit_orig (rit_tuples t' ! e) = y \<and> rit_remapped (rit_tuples t' ! e) = x"
  proof (cases "rit_orig (rit_tuples t ! e) = x")
    case True
    show ?thesis by (rule that[of "fst (rit_reswap t e x y)"]) (use True X len a in \<open>simp_all add: rit_reswap_def Let_def\<close>)
  next
    case False
    show ?thesis by (rule that[of "fst (rit_reswap t e x y)"]) (use False X len a in \<open>simp_all add: rit_reswap_def Let_def\<close>)
  qed
  have xn: "x < n" using X(3) T by auto
  have ix': "rit_index_wf N n t'"
  proof (rule rit_index_wfI)
    show "length (rit_tuples t') = N" by (rule t'3)
  next
    fix r j assume h: "rit_rowHasEntry t' r = Suc j"
    show "j < N \<and> rit_valid (rit_tuples t' ! j) \<and>
      (rit_orig (rit_tuples t' ! j) = r \<or> rit_remapped (rit_tuples t' ! j) = r)"
    proof (cases "r = y")
      case True
      then show ?thesis using h t'4 X(1) by (auto simp: t'1)
    next
      case False
      then have r: "r \<noteq> a" "rit_rowHasEntry t r = Suc j" using h by (auto simp: t'1 split: if_splits)
      show ?thesis
      proof (cases "j = e")
        case True
        then have "r = x" using r old by auto
        then show ?thesis using True t'4 X(1) by auto
      next
        case False
        then show ?thesis using rit_index_row[OF ix r(2)] t'3 by simp
      qed
    qed
  next
    fix j assume j: "j < N" "rit_valid (rit_tuples t' ! j)"
    show "rit_orig (rit_tuples t' ! j) < n \<and> rit_remapped (rit_tuples t' ! j) < n \<and>
      rit_orig (rit_tuples t' ! j) \<noteq> rit_remapped (rit_tuples t' ! j) \<and>
      rit_rowHasEntry t' (rit_orig (rit_tuples t' ! j)) = Suc j \<and>
      rit_rowHasEntry t' (rit_remapped (rit_tuples t' ! j)) = Suc j"
    proof (cases "j = e")
      case True
      then show ?thesis using t'4 xn y e ax(1) by (auto simp: t'1)
    next
      case False
      note J = rit_index_tuple[OF ix j(1)]
      have "rit_valid (rit_tuples t ! j)" using j False t'3 by simp
      note J = J[OF this]
      have "a \<noteq> rit_orig (rit_tuples t ! j)" "a \<noteq> rit_remapped (rit_tuples t ! j)"
        "y \<noteq> rit_orig (rit_tuples t ! j)" "y \<noteq> rit_remapped (rit_tuples t ! j)"
        using J False ax(3) y(3) by auto
      then show ?thesis using J False t'3 by (simp add: t'1)
    qed
  qed
  have v: "valid_ids N t' = valid_ids N t"
  proof -
    have "rit_valid (rit_tuples t' ! i) = rit_valid (rit_tuples t ! i)" for i
      using t'3(2)[of i] t'4(1) X(2) by (cases "i = e") simp_all
    then show ?thesis by (simp add: valid_ids_def)
  qed
  have l: "locked_ids N t' \<subseteq> insert e (locked_ids N t)"
    using t'3(2) unfolding locked_ids_def by (metis (no_types, lifting) insertCI insert_iff mem_Collect_eq subsetI)
  have l: "card (locked_ids N t') \<le> Suc (card (locked_ids N t))"
    using card_mono[OF _ l] card_insert_le_m1[of "Suc (card (locked_ids N t))" "locked_ids N t" e] by simp
  have "rit_remap t' = (rit_remap t)(x := y, y := x, a := a)"
  proof
    fix r
    consider "r = x" | "r = y" | "r = a" | "r \<noteq> x" "r \<noteq> y" "r \<noteq> a" by blast
    then show "rit_remap t' r = ((rit_remap t)(x := y, y := x, a := a)) r"
    proof cases
      case 1
      then show ?thesis using e y(2) ax(1) t'4(3) by (auto simp: rit_remap_def t'1)
    next
      case 2
      then show ?thesis using y(2) ay t'4(3) by (auto simp: rit_remap_def t'1)
    next
      case 3
      then show ?thesis using ay by (simp add: rit_remap_def t'1)
    next
      case 4
      then have "rit_tuples t' ! (rit_rowHasEntry t r - 1) = rit_tuples t ! (rit_rowHasEntry t r - 1)"
        if "rit_rowHasEntry t r \<noteq> 0"
        using that old[of r] t'3(2) by (cases "rit_rowHasEntry t r") auto
      then show ?thesis using 4 by (auto simp: rit_remap_def t'1)
    qed
  qed
  moreover have "{r. rit_rowHasEntry t' r \<noteq> 0} = insert y ({r. rit_rowHasEntry t r \<noteq> 0} - {a})"
    using ay by (auto simp: t'1)
  moreover have "rit_wf N n t'" using ix' v wf by (simp add: rit_wf_def t'2)
  ultimately have "rit_becomes N n t' ((rit_remap t)(x := y, y := x, a := a))
      (insert y ({r. rit_rowHasEntry t r \<noteq> 0} - {a})) (card (valid_ids N t)) (Suc (card (locked_ids N t)))"
    unfolding rit_becomes_def using v l by simp
  then show ?thesis using r ax ay unfolding a_def by blast
qed

text \<open>A row whose tuple is locked cannot be un-swapped.\<close>

definition row_locked :: "rit \<Rightarrow> nat \<Rightarrow> bool" where
  "row_locked t r \<longleftrightarrow> rit_rowHasEntry t r \<noteq> 0 \<and> rit_locked (rit_tuples t ! (rit_rowHasEntry t r - 1))"

lemma rit_install_locks:
  assumes "rit_index_wf N n t" "card (valid_ids N t) < N"
  shows "row_locked (rit_install N t a b) a"
    and "row_locked t r \<Longrightarrow> row_locked (rit_install N t a b) r"
proof -
  obtain i where i: "first_idx (\<lambda>ii. \<not> rit_valid (rit_tuples t ! ii)) N = Some i"
    using free_slot[OF assms(2)] by blast
  then have iN: "i < N" "\<not> rit_valid (rit_tuples t ! i)" by (auto dest: first_idx_SomeD)
  note len = rit_index_length[OF assms(1)]
  show "row_locked (rit_install N t a b) a"
    using i iN len by (simp add: row_locked_def rit_install_def)
  assume r: "row_locked t r"
  have "rit_rowHasEntry t r - 1 \<noteq> i"
    using r rit_index_row(2)[OF assms(1), of r "rit_rowHasEntry t r - 1"] iN
    by (auto simp: row_locked_def)
  then show "row_locked (rit_install N t a b) r"
    using r i iN len by (auto simp: row_locked_def rit_install_def)
qed

lemma rit_reswap_locks:
  assumes "rit_index_wf N n t" "rit_rowHasEntry t x = Suc e" "y \<noteq> x" "rit_remap t x \<noteq> x"
  shows "row_locked (fst (rit_reswap t e x y)) x"
  using assms rit_index_row[OF assms(1,2)] rit_index_length[OF assms(1)]
  by (auto simp: row_locked_def rit_reswap_def Let_def rit_remap_def split: if_splits)

lemma unlocked_rows:
  assumes "rit_index_wf N n t" "i \<in> valid_ids N t - locked_ids N t"
  shows "\<not> row_locked t (rit_orig (rit_tuples t ! i))" "\<not> row_locked t (rit_remapped (rit_tuples t ! i))"
  using assms(2) rit_index_tuple[OF assms(1), of i]
  by (auto simp: row_locked_def valid_ids_def locked_ids_def)

section \<open>Choosing a row\<close>

text \<open>The detector's functional lookup answers \<open>hot\<close> and does not change the detector.\<close>

definition lookup_pure ::
  "'d detector_ops \<Rightarrow> 'd \<Rightarrow> nat \<Rightarrow> nat \<Rightarrow> nat \<Rightarrow> nat \<Rightarrow> (nat \<Rightarrow> bool) \<Rightarrow> bool" where
  "lookup_pure ops d n bankID rankID channelID hot \<longleftrightarrow>
     (\<forall>r<n. det_access ops d r bankID rankID channelID True = Inr (d, hot r))"

definition row_good :: "rit \<Rightarrow> (nat \<Rightarrow> bool) \<Rightarrow> nat \<Rightarrow> nat \<Rightarrow> bool" where
  "row_good t hot avoidRow r \<longleftrightarrow> r \<noteq> avoidRow \<and> rit_rowHasEntry t r = 0 \<and> \<not> hot r"

lemma rrs_table_congs [simp]:
  "rrs_table (s\<lparr>rrs_rand_pos := p\<rparr>) = rrs_table s"
  "rrs_table (s\<lparr>rrs_s_randRowGenerationFailed := f\<rparr>) = rrs_table s"
  "rrs_table (s\<lparr>rrs_decision := d\<rparr>) = rrs_table s"
  "rrs_table (s\<lparr>rrs_detector := e\<rparr>) = rrs_table s"
  "rrs_table (s\<lparr>rrs_s_clean_install := x\<rparr>) = rrs_table s"
  "rrs_table (s\<lparr>rrs_s_only_unswap := x\<rparr>) = rrs_table s"
  "rrs_table (s\<lparr>rrs_s_clean_reswap := x\<rparr>) = rrs_table s"
  "rrs_table (s\<lparr>rrs_s_dirty_reswap := x\<rparr>) = rrs_table s"
  by (intro ext, simp add: rrs_table_def)+

lemma rrs_table_set:
  "rrs_table (rrs_set_table s b k c t) b' k' c' =
     (if b' = b \<and> k' = k \<and> c' = c then t else rrs_table s b' k' c')"
  by (simp add: rrs_table_def rrs_set_table_def)

lemma rrs_set_table_sel [simp]:
  "rrs_numRows (rrs_set_table s b k c t) = rrs_numRows s"
  "rrs_numTuples (rrs_set_table s b k c t) = rrs_numTuples s"
  "rrs_maxValidTuples (rrs_set_table s b k c t) = rrs_maxValidTuples s"
  "rrs_decision (rrs_set_table s b k c t) = rrs_decision s"
  "rrs_detector (rrs_set_table s b k c t) = rrs_detector s"
  by (simp_all add: rrs_set_table_def)

lemma rrs_candidate_pure:
  assumes "lookup_pure ops (rrs_detector s) n b k c hot" "r < n"
  shows "rrs_candidate ops avoid b k c s r = Inr (s, row_good (rrs_table s b k c) hot avoid r)"
  using assms by (simp add: rrs_candidate_def row_good_def lookup_pure_def)

lemma rrs_guess_pure:
  assumes "lookup_pure ops (rrs_detector s) (rrs_numRows s) b k c hot" "0 < rrs_numRows s"
  shows "\<exists>p g. rrs_guess ops rnd avoid b k c tries s = Inr (s\<lparr>rrs_rand_pos := p\<rparr>, g) \<and>
    (\<forall>r. g = Some r \<longrightarrow> r < rrs_numRows s \<and> row_good (rrs_table s b k c) hot avoid r)"
  using assms
proof (induction tries arbitrary: s)
  case 0
  then show ?case by (auto intro: exI[of _ "rrs_rand_pos s"])
next
  case (Suc tries)
  define s0 where "s0 = s\<lparr>rrs_rand_pos := rrs_rand_pos s + 1\<rparr>"
  define g where "g = rnd (rrs_rand_pos s) mod rrs_numRows s"
  have g: "g < rrs_numRows s" using Suc.prems by (simp add: g_def)
  have cand: "rrs_candidate ops avoid b k c s0 g = Inr (s0, row_good (rrs_table s b k c) hot avoid g)"
    using rrs_candidate_pure[of ops s0 "rrs_numRows s"] Suc.prems g by (simp add: s0_def)
  have eq: "rrs_guess ops rnd avoid b k c (Suc tries) s =
    (if row_good (rrs_table s b k c) hot avoid g then Inr (s0, Some g)
     else rrs_guess ops rnd avoid b k c tries s0)"
    using Suc.prems(2) cand by (simp add: Let_def s0_def g_def)
  show ?case
  proof (cases "row_good (rrs_table s b k c) hot avoid g")
    case True
    then show ?thesis using g unfolding eq s0_def by auto
  next
    case False
    obtain p h where "rrs_guess ops rnd avoid b k c tries s0 = Inr (s0\<lparr>rrs_rand_pos := p\<rparr>, h)"
      "\<forall>r. h = Some r \<longrightarrow> r < rrs_numRows s0 \<and> row_good (rrs_table s0 b k c) hot avoid r"
      using Suc.IH[of s0] Suc.prems by (auto simp: s0_def)
    then show ?thesis using False unfolding eq s0_def by auto
  qed
qed

lemma rrs_scan_pure:
  assumes "lookup_pure ops (rrs_detector s) n b k c hot" "\<forall>r\<in>set rows. r < n"
  shows "rrs_scan ops avoid b k c rows s = Inr (s, List.find (row_good (rrs_table s b k c) hot avoid) rows)"
  using assms(2) by (induction rows) (simp_all add: rrs_candidate_pure[OF assms(1)])

lemma rrs_generate_spec:
  assumes "lookup_pure ops (rrs_detector s) (rrs_numRows s) b k c hot"
    and "x < rrs_numRows s" "row_good (rrs_table s b k c) hot avoid x"
  shows "\<exists>p f y. rrs_generateRandomRowAddr ops rnd s avoid b k c =
      Inr (s\<lparr>rrs_rand_pos := p, rrs_s_randRowGenerationFailed := f\<rparr>, y) \<and>
    y < rrs_numRows s \<and> row_good (rrs_table s b k c) hot avoid y"
proof -
  obtain p g where g: "rrs_guess ops rnd avoid b k c 10 s = Inr (s\<lparr>rrs_rand_pos := p\<rparr>, g)"
    "\<forall>r. g = Some r \<longrightarrow> r < rrs_numRows s \<and> row_good (rrs_table s b k c) hot avoid r"
    using rrs_guess_pure[OF assms(1), of rnd avoid 10] assms(2) by auto
  show ?thesis
  proof (cases g)
    case (Some y)
    then have "rrs_generateRandomRowAddr ops rnd s avoid b k c =
        Inr (s\<lparr>rrs_rand_pos := p, rrs_s_randRowGenerationFailed := rrs_s_randRowGenerationFailed s\<rparr>, y)"
      using g(1) by (simp add: rrs_generateRandomRowAddr_def)
    moreover have "y < rrs_numRows s" "row_good (rrs_table s b k c) hot avoid y"
      using g(2) Some by simp_all
    ultimately show ?thesis by blast
  next
    case None
    define s1 where "s1 = s\<lparr>rrs_rand_pos := p,
      rrs_s_randRowGenerationFailed := rrs_s_randRowGenerationFailed s + 1\<rparr>"
    obtain y where y: "first_idx (row_good (rrs_table s b k c) hot avoid) (rrs_numRows s) = Some y"
      using first_idx_ex[of x "rrs_numRows s" "row_good (rrs_table s b k c) hot avoid"] assms(2,3) by blast
    have "rrs_scan ops avoid b k c [0..<rrs_numRows s] s1 = Inr (s1, Some y)"
      using rrs_scan_pure[of ops s1 "rrs_numRows s" b k c hot "[0..<rrs_numRows s]"] assms(1) y
      by (simp add: s1_def first_idx_def)
    then have "rrs_generateRandomRowAddr ops rnd s avoid b k c = Inr (s1, y)"
      using g None by (simp add: rrs_generateRandomRowAddr_def s1_def)
    then show ?thesis using first_idx_SomeD[OF y] unfolding s1_def by blast
  qed
qed

text \<open>Counting: the table uses at most two rows per valid tuple.\<close>

lemma card_used_rows:
  assumes "rit_index_wf N n t"
  shows "finite {r. rit_rowHasEntry t r \<noteq> 0}"
    "card {r. rit_rowHasEntry t r \<noteq> 0} \<le> 2 * card (valid_ids N t)"
proof -
  let ?V = "valid_ids N t"
  have sub: "{r. rit_rowHasEntry t r \<noteq> 0} \<subseteq>
    (\<lambda>i. rit_orig (rit_tuples t ! i)) ` ?V \<union> (\<lambda>i. rit_remapped (rit_tuples t ! i)) ` ?V"
  proof
    fix r assume "r \<in> {r. rit_rowHasEntry t r \<noteq> 0}"
    then obtain i where "rit_rowHasEntry t r = Suc i" by (cases "rit_rowHasEntry t r") auto
    from rit_index_row[OF assms this]
    show "r \<in> (\<lambda>i. rit_orig (rit_tuples t ! i)) ` ?V \<union> (\<lambda>i. rit_remapped (rit_tuples t ! i)) ` ?V"
      by (auto simp: valid_ids_def)
  qed
  show "finite {r. rit_rowHasEntry t r \<noteq> 0}" by (rule finite_subset[OF sub]) simp
  have "card {r. rit_rowHasEntry t r \<noteq> 0} \<le> card ((\<lambda>i. rit_orig (rit_tuples t ! i)) ` ?V \<union>
      (\<lambda>i. rit_remapped (rit_tuples t ! i)) ` ?V)"
    by (rule card_mono[OF _ sub]) simp
  also have "\<dots> \<le> card ?V + card ?V"
    by (rule order_trans[OF card_Un_le]) (intro add_mono card_image_le finite_ids)
  finally show "card {r. rit_rowHasEntry t r \<noteq> 0} \<le> 2 * card ?V" by simp
qed

lemma good_row_exists:
  assumes "rit_index_wf N n t" "card {r. r < n \<and> hot r} + 2 * card (valid_ids N t) + 1 < n"
  shows "\<exists>x<n. row_good t hot avoid x"
proof -
  let ?B = "{avoid} \<union> {r. rit_rowHasEntry t r \<noteq> 0} \<union> {r. r < n \<and> hot r}"
  have "card ?B \<le> card {avoid} + card {r. rit_rowHasEntry t r \<noteq> 0} + card {r. r < n \<and> hot r}"
    by (rule order_trans[OF card_Un_le add_mono[OF card_Un_le le_refl]])
  then have "card ?B < card {..<n}" using card_used_rows(2)[OF assms(1)] assms(2) by simp
  moreover have "finite ?B" using card_used_rows(1)[OF assms(1)] by simp
  ultimately have "\<not> {..<n} \<subseteq> ?B" using card_mono[of ?B "{..<n}"] by linarith
  then show ?thesis by (auto simp: row_good_def)
qed

section \<open>Inserting a tuple\<close>

text \<open>The parts of the state an insertion into the table of one bank leaves alone.\<close>

definition rrs_frame :: "nat \<Rightarrow> nat \<Rightarrow> nat \<Rightarrow> 'd rrs \<Rightarrow> 'd rrs \<Rightarrow> bool" where
  "rrs_frame b k c s s' \<longleftrightarrow>
     rrs_numRows s' = rrs_numRows s \<and> rrs_numBanks s' = rrs_numBanks s \<and>
     rrs_numRanks s' = rrs_numRanks s \<and> rrs_numChannels s' = rrs_numChannels s \<and>
     rrs_last_reset s' = rrs_last_reset s \<and> rrs_threshold s' = rrs_threshold s \<and>
     rrs_detector s' = rrs_detector s \<and> rrs_numAccessesToRow s' = rrs_numAccessesToRow s \<and>
     rrs_swapDelay s' = rrs_swapDelay s \<and> rrs_maxValidTuples s' = rrs_maxValidTuples s \<and>
     rrs_numTuples s' = rrs_numTuples s \<and>
     (\<forall>b' k' c'. (b', k', c') \<noteq> (b, k, c) \<longrightarrow> rrs_table s' b' k' c' = rrs_table s b' k' c')"

lemma rrs_frame_refl [simp]: "rrs_frame b k c s s"
  by (simp add: rrs_frame_def)

lemma rrs_frame_trans: "rrs_frame b k c s s1 \<Longrightarrow> rrs_frame b k c s1 s2 \<Longrightarrow> rrs_frame b k c s s2"
  by (simp add: rrs_frame_def)

lemma rrs_frame_updates [simp]:
  "rrs_frame b k c s (s1\<lparr>rrs_rand_pos := p\<rparr>) = rrs_frame b k c s s1"
  "rrs_frame b k c s (s1\<lparr>rrs_s_randRowGenerationFailed := f\<rparr>) = rrs_frame b k c s s1"
  "rrs_frame b k c s (s1\<lparr>rrs_decision := d\<rparr>) = rrs_frame b k c s s1"
  "rrs_frame b k c s (s1\<lparr>rrs_s_clean_install := x\<rparr>) = rrs_frame b k c s s1"
  "rrs_frame b k c s (s1\<lparr>rrs_s_only_unswap := x\<rparr>) = rrs_frame b k c s s1"
  "rrs_frame b k c s (s1\<lparr>rrs_s_clean_reswap := x\<rparr>) = rrs_frame b k c s s1"
  "rrs_frame b k c s (s1\<lparr>rrs_s_dirty_reswap := x\<rparr>) = rrs_frame b k c s s1"
  by (simp_all add: rrs_frame_def)

lemma rrs_frame_set_table:
  "rrs_frame b k c s s1 \<Longrightarrow> rrs_frame b k c s (rrs_set_table s1 b k c t)"
  by (auto simp: rrs_frame_def rrs_table_set rrs_set_table_def rrs_table_def)

lemma rrs_push_spec:
  assumes "decision_wf (rrs_decision s)" "length (actions (rrs_decision s)) < 6"
  shows "\<exists>d. rrs_push s a = Inr (s\<lparr>rrs_decision := d\<rparr>) \<and> decision_wf d \<and>
    actions d = actions (rrs_decision s) @ [a] \<and> d_mitigate d = d_mitigate (rrs_decision s)"
  using push_addr_spec[OF assms, of a] by (auto simp: rrs_push_def)

lemma rrs_settle_spec:
  assumes wf: "rit_wf (rrs_numTuples s) n (rrs_table s b k c)"
    and val: "card (valid_ids (rrs_numTuples s) (rrs_table s b k c)) \<le> Suc (rrs_maxValidTuples s)"
    and loc: "card (locked_ids (rrs_numTuples s) (rrs_table s b k c)) \<le> rrs_maxValidTuples s"
    and dec: "decision_wf (rrs_decision s)" "length (actions (rrs_decision s)) \<le> 4"
    and x: "row_locked (rrs_table s b k c) x"
  shows "\<exists>s' ev. rrs_settle s b k c reswap = Inr s' \<and> rrs_frame b k c s s' \<and>
    rit_wf (rrs_numTuples s) n (rrs_table s' b k c) \<and>
    rit_valid_tuples (rrs_table s' b k c) \<le> rrs_maxValidTuples s \<and>
    card (locked_ids (rrs_numTuples s) (rrs_table s' b k c)) \<le>
      card (locked_ids (rrs_numTuples s) (rrs_table s b k c)) \<and>
    rit_remap (rrs_table s' b k c) x = rit_remap (rrs_table s b k c) x \<and>
    decision_wf (rrs_decision s') \<and> actions (rrs_decision s') = actions (rrs_decision s) @ ev \<and>
    d_mitigate (rrs_decision s') = d_mitigate (rrs_decision s)"
proof -
  define t where "t = rrs_table s b k c"
  define N where "N = rrs_numTuples s"
  define M where "M = rrs_maxValidTuples s"
  note defs = t_def[symmetric] N_def[symmetric] M_def[symmetric]
  note wf = wf[unfolded defs] and val = val[unfolded defs] and loc = loc[unfolded defs] and x = x[unfolded defs]
  have vt: "rit_valid_tuples t = card (valid_ids N t)" using wf by (simp add: rit_wf_def)
  show ?thesis
  proof (cases "M < rit_valid_tuples t")
    case False
    then have "rrs_settle s b k c reswap =
      Inr (if reswap then s\<lparr>rrs_s_clean_reswap := rrs_s_clean_reswap s + 1\<rparr>
           else s\<lparr>rrs_s_clean_install := rrs_s_clean_install s + 1\<rparr>)"
      by (simp add: rrs_settle_def Let_def defs)
    then show ?thesis using False wf dec
      by (intro exI[of _ "if reswap then s\<lparr>rrs_s_clean_reswap := rrs_s_clean_reswap s + 1\<rparr>
           else s\<lparr>rrs_s_clean_install := rrs_s_clean_install s + 1\<rparr>"] exI[of _ "[]"])
         (simp add: defs)
  next
    case True
    have "card (locked_ids N t) < card (valid_ids N t)" using True vt loc by simp
    from rit_evict_spec[OF wf this] obtain t1 o1 r1 where ev: "rit_evict N t = Inr (t1, o1, r1)"
      and b1: "rit_becomes N n t1 ((rit_remap t)(o1 := o1, r1 := r1))
        ({r. rit_rowHasEntry t r \<noteq> 0} - {o1, r1}) (card (valid_ids N t) - 1) (card (locked_ids N t))"
      and un: "\<exists>i\<in>valid_ids N t - locked_ids N t. rit_orig (rit_tuples t ! i) = o1 \<and>
        rit_remapped (rit_tuples t ! i) = r1"
      by blast
    have xo: "x \<noteq> o1" "x \<noteq> r1"
      using un unlocked_rows[of N n t] wf x by (auto simp: rit_wf_def)
    have t1: "rit_wf N n t1" "rit_valid_tuples t1 \<le> M" "card (locked_ids N t1) \<le> card (locked_ids N t)"
      "rit_remap t1 x = rit_remap t x"
      using b1 xo val by (auto simp: rit_becomes_def rit_wf_def)
    obtain d1 where d1: "rrs_push s o1 = Inr (s\<lparr>rrs_decision := d1\<rparr>)" "decision_wf d1"
      "actions d1 = actions (rrs_decision s) @ [o1]" "d_mitigate d1 = d_mitigate (rrs_decision s)"
      using rrs_push_spec[of s o1] dec by auto
    obtain d2 where d2: "rrs_push (s\<lparr>rrs_decision := d1\<rparr>) r1 = Inr (s\<lparr>rrs_decision := d2\<rparr>)"
      "decision_wf d2" "actions d2 = actions (rrs_decision s) @ [o1, r1]"
      "d_mitigate d2 = d_mitigate (rrs_decision s)"
      using rrs_push_spec[of "s\<lparr>rrs_decision := d1\<rparr>" r1] d1 dec by auto
    define s3 where "s3 = rrs_set_table (s\<lparr>rrs_decision := d2\<rparr>) b k c t1"
    define s4 where "s4 = (if reswap then s3\<lparr>rrs_s_dirty_reswap := rrs_s_dirty_reswap s3 + 1\<rparr>
                    else s3\<lparr>rrs_s_only_unswap := rrs_s_only_unswap s3 + 1\<rparr>)"
    have "rrs_settle s b k c reswap = Inr s4"
      using True ev d1(1) d2(1) t1(2)
      by (simp add: rrs_settle_def Let_def defs s4_def s3_def)
    moreover have "rrs_frame b k c s s4"
      unfolding s4_def by (simp add: s3_def rrs_frame_set_table)
    moreover have "rrs_table s4 b k c = t1" by (simp add: s4_def s3_def rrs_table_set)
    moreover have "rrs_decision s4 = d2" by (simp add: s4_def s3_def)
    ultimately show ?thesis using t1 d2 unfolding defs by (metis (no_types, lifting))
  qed
qed

text \<open>The precondition of an insertion: the table is well formed and within its demand size,
  two tuples can still be locked, and more rows are cold than the table can hold.\<close>

definition rrs_ready ::
  "'d detector_ops \<Rightarrow> 'd rrs \<Rightarrow> nat \<Rightarrow> nat \<Rightarrow> nat \<Rightarrow> (nat \<Rightarrow> bool) \<Rightarrow> bool" where
  "rrs_ready ops s b k c hot \<longleftrightarrow>
     rit_wf (rrs_numTuples s) (rrs_numRows s) (rrs_table s b k c) \<and>
     rit_valid_tuples (rrs_table s b k c) \<le> rrs_maxValidTuples s \<and>
     rrs_maxValidTuples s < rrs_numTuples s \<and>
     card (locked_ids (rrs_numTuples s) (rrs_table s b k c)) + 2 \<le> rrs_maxValidTuples s \<and>
     lookup_pure ops (rrs_detector s) (rrs_numRows s) b k c hot \<and>
     card {r. r < rrs_numRows s \<and> hot r} + 2 * rrs_maxValidTuples s + 1 < rrs_numRows s"

text \<open>Choosing a row and appending the pair of addresses to the decision.\<close>

lemma rrs_choose_spec:
  assumes ready: "lookup_pure ops (rrs_detector s) (rrs_numRows s) b k c hot"
      "rit_wf N (rrs_numRows s) (rrs_table s b k c)"
      "card {r. r < rrs_numRows s \<and> hot r} + 2 * card (valid_ids N (rrs_table s b k c)) + 1 < rrs_numRows s"
  shows "\<exists>p f y. rrs_generateRandomRowAddr ops rnd s avoid b k c =
      Inr (s\<lparr>rrs_rand_pos := p, rrs_s_randRowGenerationFailed := f\<rparr>, y) \<and>
    y < rrs_numRows s \<and> row_good (rrs_table s b k c) hot avoid y"
proof -
  obtain x where "x < rrs_numRows s" "row_good (rrs_table s b k c) hot avoid x"
    using good_row_exists[of N "rrs_numRows s" "rrs_table s b k c" hot avoid] ready
    by (auto simp: rit_wf_def)
  then show ?thesis by (rule rrs_generate_spec[OF ready(1)])
qed

lemma rrs_insertTuple_spec:
  assumes ready: "rrs_ready ops s b k c hot" and row: "row < rrs_numRows s"
    and dec: "decision_wf (rrs_decision s)" "actions (rrs_decision s) = []"
  shows "\<exists>s' y. rrs_insertTuple ops rnd s row b k c = Inr s' \<and> rrs_frame b k c s s' \<and>
    rit_wf (rrs_numTuples s) (rrs_numRows s) (rrs_table s' b k c) \<and>
    rit_valid_tuples (rrs_table s' b k c) \<le> rrs_maxValidTuples s \<and>
    card (locked_ids (rrs_numTuples s) (rrs_table s' b k c)) \<le>
      card (locked_ids (rrs_numTuples s) (rrs_table s b k c)) + 2 \<and>
    rit_remap (rrs_table s' b k c) row = y \<and> y < rrs_numRows s \<and>
    row_good (rrs_table s b k c) hot row y \<and>
    decision_wf (rrs_decision s') \<and> take 2 (actions (rrs_decision s')) = [row, y] \<and>
    d_mitigate (rrs_decision s') = d_mitigate (rrs_decision s)"
proof -
  define t where "t = rrs_table s b k c"
  define N where "N = rrs_numTuples s"
  define M where "M = rrs_maxValidTuples s"
  define n where "n = rrs_numRows s"
  note defs = t_def[symmetric] N_def[symmetric] M_def[symmetric] n_def[symmetric]
  have wf: "rit_wf N n t" and vt: "rit_valid_tuples t \<le> M" and MN: "M < N"
    and loc: "card (locked_ids N t) + 2 \<le> M" and pure: "lookup_pure ops (rrs_detector s) n b k c hot"
    and cold: "card {r. r < n \<and> hot r} + 2 * M + 1 < n"
    using ready by (simp_all add: rrs_ready_def defs)
  have ix: "rit_index_wf N n t" and vc: "card (valid_ids N t) \<le> M"
    using wf vt by (simp_all add: rit_wf_def)
  note row = row[unfolded defs]
  obtain d0 where d0: "rrs_push s row = Inr (s\<lparr>rrs_decision := d0\<rparr>)" "decision_wf d0" "actions d0 = [row]"
    "d_mitigate d0 = d_mitigate (rrs_decision s)"
    using rrs_push_spec[of s row] dec by auto
  obtain p1 f1 y where g1: "rrs_generateRandomRowAddr ops rnd (s\<lparr>rrs_decision := d0\<rparr>) row b k c =
      Inr (s\<lparr>rrs_decision := d0, rrs_rand_pos := p1, rrs_s_randRowGenerationFailed := f1\<rparr>, y)"
    and y: "y < n" "row_good t hot row y"
    using rrs_choose_spec[of ops "s\<lparr>rrs_decision := d0\<rparr>" b k c hot N rnd row] pure wf cold vc
    by (auto simp: defs)
  have y': "y \<noteq> row" "rit_rowHasEntry t y = 0" using y by (simp_all add: row_good_def)
  define s1 where "s1 = s\<lparr>rrs_decision := d0, rrs_rand_pos := p1, rrs_s_randRowGenerationFailed := f1\<rparr>"
  obtain d2 where d2: "rrs_push s1 y = Inr (s1\<lparr>rrs_decision := d2\<rparr>)" "decision_wf d2" "actions d2 = [row, y]"
    "d_mitigate d2 = d_mitigate (rrs_decision s)"
    using rrs_push_spec[of s1 y] d0 by (auto simp: s1_def)
  define s2 where "s2 = s1\<lparr>rrs_decision := d2\<rparr>"
  have tab2: "rrs_table s2 b k c = t" by (simp add: s2_def s1_def t_def)
  have sel2: "rrs_numTuples s2 = N" "rrs_maxValidTuples s2 = M" "rrs_numRows s2 = n"
    "rrs_detector s2 = rrs_detector s" "rrs_decision s2 = d2"
    by (simp_all add: s2_def s1_def defs)
  have fr2: "rrs_frame b k c s s2" by (simp add: s2_def s1_def)
  show ?thesis
  proof (cases "rit_rowHasEntry t row")
    case 0
    define t3 where "t3 = rit_install N t row y"
    define s3 where "s3 = rrs_set_table s2 b k c t3"
    have b3: "rit_becomes N n t3 ((rit_remap t)(row := y, y := row))
      (insert row (insert y {r. rit_rowHasEntry t r \<noteq> 0})) (Suc (card (valid_ids N t)))
      (Suc (card (locked_ids N t)))"
      unfolding t3_def using vc MN row y y' 0 by (intro rit_install_spec[OF wf]) simp_all
    have l3: "row_locked t3 row" unfolding t3_def using rit_install_locks(1)[OF ix] vc MN by simp
    have eq: "rrs_insertTuple ops rnd s row b k c = rrs_settle s3 b k c False"
      using d0(1) g1 d2(1) rit_find_spec[OF ix, of row] 0 tab2 sel2
      by (simp add: rrs_insertTuple_def s1_def[symmetric] s2_def[symmetric] s3_def t3_def)
    have tab3: "rrs_table s3 b k c = t3" by (simp add: s3_def rrs_table_set)
    have "\<exists>s' ev. rrs_settle s3 b k c False = Inr s' \<and> rrs_frame b k c s3 s' \<and>
      rit_wf N n (rrs_table s' b k c) \<and> rit_valid_tuples (rrs_table s' b k c) \<le> M \<and>
      card (locked_ids N (rrs_table s' b k c)) \<le> card (locked_ids N t3) \<and>
      rit_remap (rrs_table s' b k c) row = rit_remap t3 row \<and>
      decision_wf (rrs_decision s') \<and> actions (rrs_decision s') = [row, y] @ ev \<and>
      d_mitigate (rrs_decision s') = d_mitigate (rrs_decision s)"
      using rrs_settle_spec[of s3 n b k c row False] b3 l3 tab3 sel2 vc loc d2(2-4)
      by (simp add: s3_def rit_becomes_def)
    then obtain s' ev where s': "rrs_settle s3 b k c False = Inr s'" "rrs_frame b k c s3 s'"
      "rit_wf N n (rrs_table s' b k c)" "rit_valid_tuples (rrs_table s' b k c) \<le> M"
      "card (locked_ids N (rrs_table s' b k c)) \<le> card (locked_ids N t3)"
      "rit_remap (rrs_table s' b k c) row = rit_remap t3 row"
      "decision_wf (rrs_decision s')" "actions (rrs_decision s') = [row, y] @ ev"
      "d_mitigate (rrs_decision s') = d_mitigate (rrs_decision s)" by blast
    have "rrs_frame b k c s s'"
      using rrs_frame_trans[OF rrs_frame_set_table[OF fr2] s'(2)[unfolded s3_def]] .
    moreover have "rit_remap t3 row = y" using b3 y' by (simp add: rit_becomes_def)
    moreover have "card (locked_ids N t3) \<le> card (locked_ids N t) + 2"
      using b3 by (simp add: rit_becomes_def)
    ultimately show ?thesis
      unfolding eq defs by (intro exI[of _ s'] exI[of _ y]) (use s' y in simp)
  next
    case (Suc e)
    define a where "a = rit_remap t row"
    from rit_reswap_spec[OF wf Suc y(1) y'] obtain t1 where rs: "rit_reswap t e row y = (t1, a)"
      and a: "a \<noteq> row" "a \<noteq> y" "a < n"
      and b1: "rit_becomes N n t1 ((rit_remap t)(row := y, y := row, a := a))
        (insert y ({r. rit_rowHasEntry t r \<noteq> 0} - {a})) (card (valid_ids N t)) (Suc (card (locked_ids N t)))"
      unfolding a_def by blast
    have l1: "row_locked t1 row"
      using rit_reswap_locks[OF ix Suc y'(1)] a rs by (simp add: a_def)
    have ix1: "rit_index_wf N n t1" using b1 by (simp add: rit_becomes_def rit_wf_def)
    define s3 where "s3 = rrs_set_table s2 b k c t1"
    have tab3: "rrs_table s3 b k c = t1" by (simp add: s3_def rrs_table_set)
    obtain p4 f4 z where g4: "rrs_generateRandomRowAddr ops rnd s3 a b k c =
        Inr (s3\<lparr>rrs_rand_pos := p4, rrs_s_randRowGenerationFailed := f4\<rparr>, z)"
      and z: "z < n" "row_good t1 hot a z"
      using rrs_choose_spec[of ops s3 b k c hot N rnd a] pure b1 cold vc tab3 sel2
      by (auto simp: s3_def rit_becomes_def)
    define s4 where "s4 = s3\<lparr>rrs_rand_pos := p4, rrs_s_randRowGenerationFailed := f4\<rparr>"
    have dec4: "rrs_decision s4 = d2" by (simp add: s4_def s3_def sel2)
    obtain d5 where d5: "rrs_push s4 a = Inr (s4\<lparr>rrs_decision := d5\<rparr>)" "decision_wf d5" "actions d5 = [row, y, a]"
      "d_mitigate d5 = d_mitigate (rrs_decision s)"
      using rrs_push_spec[of s4 a] d2 dec4 by auto
    obtain d6 where d6: "rrs_push (s4\<lparr>rrs_decision := d5\<rparr>) z = Inr (s4\<lparr>rrs_decision := d6\<rparr>)"
      "decision_wf d6" "actions d6 = [row, y, a, z]" "d_mitigate d6 = d_mitigate (rrs_decision s)"
      using rrs_push_spec[of "s4\<lparr>rrs_decision := d5\<rparr>" z] d5 by auto
    define t7 where "t7 = rit_install N t1 a z"
    define s7 where "s7 = rrs_set_table (s4\<lparr>rrs_decision := d6\<rparr>) b k c t7"
    have sel7: "rrs_numTuples s7 = N" "rrs_maxValidTuples s7 = M" "rrs_decision s7 = d6" "rrs_table s7 b k c = t7"
      by (simp_all add: s7_def s4_def s3_def sel2 rrs_table_set)
    have eq: "rrs_insertTuple ops rnd s row b k c = rrs_settle s7 b k c True"
      using d0(1) g1 d2(1) rit_find_spec[OF ix, of row] Suc tab2 sel2 rs g4 d5(1) d6(1) tab3
      by (simp add: rrs_insertTuple_def s1_def[symmetric] s2_def[symmetric] s3_def[symmetric]
          s4_def[symmetric] s7_def t7_def)
         (simp add: s4_def s3_def sel2 rrs_table_set)
    have v1: "card (valid_ids N t1) < N" using b1 vc MN by (simp add: rit_becomes_def)
    have free: "rit_rowHasEntry t1 a = 0" "rit_rowHasEntry t1 z = 0" "z \<noteq> a"
      using b1 a z by (auto simp: rit_becomes_def row_good_def set_eq_iff)
    have b7: "rit_becomes N n t7 ((rit_remap t1)(a := z, z := a))
      (insert a (insert z {r. rit_rowHasEntry t1 r \<noteq> 0})) (Suc (card (valid_ids N t1)))
      (Suc (card (locked_ids N t1)))"
      unfolding t7_def using v1 a z free b1
      by (intro rit_install_spec) (simp_all add: rit_becomes_def)
    have l7: "row_locked t7 row" unfolding t7_def by (rule rit_install_locks(2)[OF ix1 v1 l1])
    have rz: "row \<noteq> z" using l1 free by (auto simp: row_locked_def)
    have "\<exists>s' ev. rrs_settle s7 b k c True = Inr s' \<and> rrs_frame b k c s7 s' \<and>
      rit_wf N n (rrs_table s' b k c) \<and> rit_valid_tuples (rrs_table s' b k c) \<le> M \<and>
      card (locked_ids N (rrs_table s' b k c)) \<le> card (locked_ids N t7) \<and>
      rit_remap (rrs_table s' b k c) row = rit_remap t7 row \<and>
      decision_wf (rrs_decision s') \<and> actions (rrs_decision s') = [row, y, a, z] @ ev \<and>
      d_mitigate (rrs_decision s') = d_mitigate (rrs_decision s)"
      using rrs_settle_spec[of s7 n b k c row True] b1 b7 l7 sel7 vc loc d6(2-4)
      by (simp add: rit_becomes_def)
    then obtain s' ev where s': "rrs_settle s7 b k c True = Inr s'" "rrs_frame b k c s7 s'"
      "rit_wf N n (rrs_table s' b k c)" "rit_valid_tuples (rrs_table s' b k c) \<le> M"
      "card (locked_ids N (rrs_table s' b k c)) \<le> card (locked_ids N t7)"
      "rit_remap (rrs_table s' b k c) row = rit_remap t7 row"
      "decision_wf (rrs_decision s')" "actions (rrs_decision s') = [row, y, a, z] @ ev"
      "d_mitigate (rrs_decision s') = d_mitigate (rrs_decision s)" by blast
    have "rrs_frame b k c s s7"
      unfolding s7_def s4_def s3_def using fr2 by (simp add: rrs_frame_set_table)
    then have "rrs_frame b k c s s'" using s'(2) by (rule rrs_frame_trans)
    moreover have "rit_remap t7 row = y"
      using b7 b1 a rz y' by (simp add: rit_becomes_def)
    moreover have "card (locked_ids N t7) \<le> card (locked_ids N t) + 2"
      using b7 b1 by (simp add: rit_becomes_def)
    ultimately show ?thesis
      unfolding eq defs by (intro exI[of _ s'] exI[of _ y]) (use s' y in simp)
  qed
qed

section \<open>The reset of a refresh window\<close>

lemma rrs_reset_table:
  assumes "c < rrs_numChannels s" "k < rrs_numRanks s" "b < rrs_numBanks s"
    and "rit_wf N n (rrs_table s b k c)"
  shows "rit_wf N n (rrs_table (rrs_reset ops s) b k c)"
    "locked_ids N (rrs_table (rrs_reset ops s) b k c) = {}"
    "rit_remap (rrs_table (rrs_reset ops s) b k c) = rit_remap (rrs_table s b k c)"
    "rit_valid_tuples (rrs_table (rrs_reset ops s) b k c) = rit_valid_tuples (rrs_table s b k c)"
proof -
  define t where "t = rrs_table s b k c"
  have eq: "rrs_table (rrs_reset ops s) b k c =
      t\<lparr>rit_tuples := map (\<lambda>e. e\<lparr>rit_locked := False\<rparr>) (rit_tuples t)\<rparr>"
    using assms by (simp add: rrs_table_def rrs_reset_def t_def Let_def)
  have wf: "rit_wf N n t" using assms by (simp add: t_def)
  then have ix: "rit_index_wf N n t" by (simp add: rit_wf_def)
  note len = rit_index_length[OF ix]
  have "valid_ids N (rrs_table (rrs_reset ops s) b k c) = valid_ids N t"
    by (auto simp: valid_ids_def eq len)
  moreover have "rit_index_wf N n (rrs_table (rrs_reset ops s) b k c)"
  proof (rule rit_index_wfI)
    fix r i assume "rit_rowHasEntry (rrs_table (rrs_reset ops s) b k c) r = Suc i"
    then have "rit_rowHasEntry t r = Suc i" by (simp add: eq)
    from rit_index_row[OF ix this] show "i < N \<and> rit_valid (rit_tuples (rrs_table (rrs_reset ops s) b k c) ! i) \<and>
      (rit_orig (rit_tuples (rrs_table (rrs_reset ops s) b k c) ! i) = r \<or>
       rit_remapped (rit_tuples (rrs_table (rrs_reset ops s) b k c) ! i) = r)"
      by (simp add: eq len)
  qed (use rit_index_tuple[OF ix] in \<open>simp_all add: eq len\<close>)
  ultimately show "rit_wf N n (rrs_table (rrs_reset ops s) b k c)"
    using wf by (simp add: rit_wf_def eq)
  show "locked_ids N (rrs_table (rrs_reset ops s) b k c) = {}"
    by (auto simp: locked_ids_def eq len)
  show "rit_remap (rrs_table (rrs_reset ops s) b k c) = rit_remap (rrs_table s b k c)"
  proof
    fix r
    have "rit_rowHasEntry t r \<noteq> 0 \<Longrightarrow> rit_rowHasEntry t r - 1 < N"
      using rit_index_row(1)[OF ix, of r "rit_rowHasEntry t r - 1"] by simp
    then show "rit_remap (rrs_table (rrs_reset ops s) b k c) r = rit_remap (rrs_table s b k c) r"
      unfolding eq t_def[symmetric] by (auto simp: rit_remap_def len Let_def)
  qed
  show "rit_valid_tuples (rrs_table (rrs_reset ops s) b k c) = rit_valid_tuples (rrs_table s b k c)"
    by (simp add: eq t_def)
qed

section \<open>The defense with its detector\<close>

text \<open>The state of one bank, \<open>N\<close> activations into a refresh window: two tuples at most are
  locked per flag the detector has raised.\<close>

definition rrs_bank_inv ::
  "nat \<Rightarrow> nat \<Rightarrow> nat \<Rightarrow> nat \<Rightarrow> nat \<Rightarrow> nat \<Rightarrow> misra_gries rrs \<Rightarrow> bool" where
  "rrs_bank_inv n th b k c N s \<longleftrightarrow>
     mg_bank_inv n th (rrs_numRows s) b k c N (rrs_detector s) \<and>
     b < rrs_numBanks s \<and> k < rrs_numRanks s \<and> c < rrs_numChannels s \<and>
     rit_wf (rrs_numTuples s) (rrs_numRows s) (rrs_table s b k c) \<and>
     rit_valid_tuples (rrs_table s b k c) \<le> rrs_maxValidTuples s \<and>
     rrs_maxValidTuples s < rrs_numTuples s \<and>
     n + 2 * rrs_maxValidTuples s + 1 < rrs_numRows s \<and>
     card (locked_ids (rrs_numTuples s) (rrs_table s b k c)) \<le>
       2 * mg_flags th (mg_trackers (rrs_detector s) c k b)"

definition mg_tracked :: "misra_gries \<Rightarrow> nat \<Rightarrow> nat \<Rightarrow> nat \<Rightarrow> nat \<Rightarrow> bool" where
  "mg_tracked m b k c r \<longleftrightarrow> mg_rowHasEntry (mg_trackers m c k b) r \<noteq> 0"

lemma mg_lookup_pure:
  assumes "mg_bank_inv n th R b k c N m"
  shows "lookup_pure mg_ops m R b k c (mg_tracked m b k c)"
    and "card {r. r < R \<and> mg_tracked m b k c r} \<le> n"
proof -
  show "lookup_pure mg_ops m R b k c (mg_tracked m b k c)"
    using mg_access_lookup[OF assms] by (simp add: lookup_pure_def mg_ops_def mg_tracked_def)
  have wf: "mg_wf n N (mg_trackers m c k b)" using assms by (simp add: mg_bank_inv_def)
  have "card {r. r < R \<and> mg_tracked m b k c r} \<le> card {r. mg_rowHasEntry (mg_trackers m c k b) r \<noteq> 0}"
    by (rule card_mono[OF mg_tracked_card(1)[OF wf]]) (auto simp: mg_tracked_def)
  then show "card {r. r < R \<and> mg_tracked m b k c r} \<le> n"
    using mg_tracked_card(2)[OF wf] by simp
qed

lemma rrs_access_spec:
  assumes inv: "rrs_bank_inv n th b k c N s" and row: "row < rrs_numRows s" and N: "N < 4294967295"
    and room: "2 * (Suc N div th) \<le> rrs_maxValidTuples s"
    and window: "rrs_last_reset s \<le> tick" "tick < rrs_last_reset s + REFRESH_WINDOW"
  shows "\<exists>s' d f. rrs_access mg_ops rnd s tick row b k c = Inr s' \<and>
    rrs_bank_inv n th b k c (Suc N) s' \<and>
    rrs_numRows s' = rrs_numRows s \<and> rrs_maxValidTuples s' = rrs_maxValidTuples s \<and>
    rrs_last_reset s' = rrs_last_reset s \<and>
    mg_access (rrs_detector s) row b k c False = Inr (d, f) \<and> rrs_detector s' = d \<and>
    d_mitigate (rrs_decision s') = f \<and>
    (if f then rit_remap (rrs_table s' b k c) row < rrs_numRows s \<and>
        row_good (rrs_table s b k c) (mg_tracked d b k c) row (rit_remap (rrs_table s' b k c) row)
     else rrs_table s' b k c = rrs_table s b k c)"
proof -
  have bank: "b < rrs_numBanks s" "k < rrs_numRanks s" "c < rrs_numChannels s"
    and mg: "mg_bank_inv n th (rrs_numRows s) b k c N (rrs_detector s)"
    using inv by (simp_all add: rrs_bank_inv_def)
  obtain d f where acc: "mg_access (rrs_detector s) row b k c False = Inr (d, f)"
    and mg': "mg_bank_inv n th (rrs_numRows s) b k c (Suc N) d"
    and st: "mg_stepped n th N row (mg_trackers (rrs_detector s) c k b) (mg_trackers d c k b) f"
    using mg_access_spec[OF mg row N] by blast
  have fl: "mg_flags th (mg_trackers d c k b) =
      mg_flags th (mg_trackers (rrs_detector s) c k b) + (if f then 1 else 0)"
    using st by (simp add: mg_stepped_def)
  have win: "\<not> REFRESH_WINDOW \<le> sub64 tick (rrs_last_reset s)"
    using window by (simp add: sub64_le)
  define idx where "idx = b + rrs_numBanks s * row"
  define s4 where "s4 = s\<lparr>rrs_s_num_accesses := rrs_s_num_accesses s + 1,
    rrs_numAccessesToRow := (rrs_numAccessesToRow s)(idx := inc32 (rrs_numAccessesToRow s idx)),
    rrs_detector := d,
    rrs_decision := (resetDecision (rrs_decision s))\<lparr>d_mitigate := f,
       d_SRAM_delay := d_SRAM_delay (resetDecision (rrs_decision s)) + rrs_SRAM_RIT_accDelay s\<rparr>\<rparr>"
  have eq: "rrs_access mg_ops rnd s tick row b k c =
    (if f then rbind (rrs_insertTuple mg_ops rnd s4 row b k c) (\<lambda>s5.
        Inr (s5\<lparr>rrs_decision := (rrs_decision s5)\<lparr>d_delay :=
          rrs_swapDelay s5 * d_validAddrs (rrs_decision s5) div 2\<rparr>\<rparr>))
     else Inr s4)"
    using row bank win acc by (simp add: rrs_access_def Let_def mg_ops_def s4_def idx_def)
  have tab4: "rrs_table s4 = rrs_table s" by (intro ext, simp add: rrs_table_def s4_def)
  have sel4: "rrs_numRows s4 = rrs_numRows s" "rrs_numTuples s4 = rrs_numTuples s"
    "rrs_maxValidTuples s4 = rrs_maxValidTuples s" "rrs_detector s4 = d"
    "rrs_numBanks s4 = rrs_numBanks s" "rrs_numRanks s4 = rrs_numRanks s"
    "rrs_numChannels s4 = rrs_numChannels s" "rrs_last_reset s4 = rrs_last_reset s"
    "d_mitigate (rrs_decision s4) = f" "decision_wf (rrs_decision s4)" "actions (rrs_decision s4) = []"
    by (simp_all add: s4_def decision_wf_def actions_def resetDecision_def)
  show ?thesis
  proof (cases f)
    case False
    then have "rrs_bank_inv n th b k c (Suc N) s4"
      using inv mg' fl by (simp add: rrs_bank_inv_def tab4 sel4)
    then show ?thesis using eq False acc by (simp add: tab4 sel4)
  next
    case True
    have "mg_wf n (Suc N) (mg_trackers d c k b)" using mg' by (simp add: mg_bank_inv_def)
    from mg_flags_bound[OF this, of th] have "mg_flags th (mg_trackers d c k b) \<le> Suc N div th"
      using mg' by (simp add: less_eq_div_iff_mult_less_eq mg_bank_inv_def mult.commute)
    then have "rrs_ready mg_ops s4 b k c (mg_tracked d b k c)"
      using inv mg_lookup_pure[OF mg'] fl True room
      by (simp add: rrs_ready_def rrs_bank_inv_def tab4 sel4)
    from rrs_insertTuple_spec[OF this, of row rnd]
    obtain s5 where s5: "rrs_insertTuple mg_ops rnd s4 row b k c = Inr s5" "rrs_frame b k c s4 s5"
      "rit_wf (rrs_numTuples s4) (rrs_numRows s4) (rrs_table s5 b k c)"
      "rit_valid_tuples (rrs_table s5 b k c) \<le> rrs_maxValidTuples s4"
      "card (locked_ids (rrs_numTuples s4) (rrs_table s5 b k c)) \<le>
        card (locked_ids (rrs_numTuples s4) (rrs_table s4 b k c)) + 2"
      "rit_remap (rrs_table s5 b k c) row < rrs_numRows s4"
      "row_good (rrs_table s4 b k c) (mg_tracked d b k c) row (rit_remap (rrs_table s5 b k c) row)"
      "d_mitigate (rrs_decision s5) = f"
      using row sel4 by auto
    define s6 where "s6 = s5\<lparr>rrs_decision := (rrs_decision s5)\<lparr>d_delay :=
          rrs_swapDelay s5 * d_validAddrs (rrs_decision s5) div 2\<rparr>\<rparr>"
    have tab6: "rrs_table s6 = rrs_table s5" by (simp add: s6_def)
    have sel6: "rrs_numRows s6 = rrs_numRows s" "rrs_numTuples s6 = rrs_numTuples s"
      "rrs_maxValidTuples s6 = rrs_maxValidTuples s" "rrs_detector s6 = d"
      "rrs_numBanks s6 = rrs_numBanks s" "rrs_numRanks s6 = rrs_numRanks s"
      "rrs_numChannels s6 = rrs_numChannels s" "rrs_last_reset s6 = rrs_last_reset s"
      "d_mitigate (rrs_decision s6) = f"
      using s5(2,8) sel4 unfolding s6_def rrs_frame_def by simp_all
    have "rrs_bank_inv n th b k c (Suc N) s6"
      using inv mg' fl True s5(3-5) sel6 by (simp add: rrs_bank_inv_def tab4 tab6 sel4)
    moreover have "rrs_access mg_ops rnd s tick row b k c = Inr s6"
      using eq True s5(1) by (simp add: s6_def)
    ultimately show ?thesis
      using acc s5(6,7) True by (simp add: tab4 tab6 sel4 sel6)
  qed
qed

section \<open>A refresh window\<close>

text \<open>A sequence of activations of one bank; the answer lists, in order, the activated rows that the
  access moved: the functional lookup of the row gives another home after it than before.\<close>

fun rrs_window ::
  "'d detector_ops \<Rightarrow> (nat \<Rightarrow> nat) \<Rightarrow> 'd rrs \<Rightarrow> nat \<Rightarrow> nat \<Rightarrow> nat \<Rightarrow> (tick \<times> nat) list \<Rightarrow>
   ('d rrs \<times> nat list) result"
where
  "rrs_window ops rnd s b k c [] = Inr (s, [])"
| "rrs_window ops rnd s b k c ((currTick, row) # as) =
     rbind (rrs_access ops rnd s currTick row b k c) (\<lambda>s1.
     rbind (rrs_getRemappedAddr s row b k c True) (\<lambda>(_, home).
     rbind (rrs_getRemappedAddr s1 row b k c True) (\<lambda>(_, home1).
     rbind (rrs_window ops rnd s1 b k c as) (\<lambda>(s2, ms).
       Inr (s2, if home1 \<noteq> home then row # ms else ms)))))"

lemma rrs_getRemappedAddr_functional:
  assumes "rit_wf N n (rrs_table s b k c)"
  shows "rrs_getRemappedAddr s row b k c True = Inr (s, rit_remap (rrs_table s b k c) row)"
  using assms rit_find_spec[of N n "rrs_table s b k c" row]
  by (simp add: rrs_getRemappedAddr_def rit_wf_def rit_remap_def Let_def)

lemma row_good_new_home:
  assumes "rit_wf N n t" "row_good t hot row y"
  shows "y \<noteq> rit_remap t row"
proof (cases "rit_rowHasEntry t row")
  case 0
  then show ?thesis using assms(2) by (simp add: rit_remap_def row_good_def)
next
  case (Suc i)
  have ix: "rit_index_wf N n t" using assms(1) by (simp add: rit_wf_def)
  note e = rit_index_row(1,2)[OF ix Suc]
  have "rit_rowHasEntry t (rit_remap t row) = Suc i"
    using rit_index_tuple(4,5)[OF ix e] Suc by (simp add: rit_remap_def Let_def)
  then show ?thesis using assms(2) by (auto simp: row_good_def)
qed

lemma rrs_window_inv:
  assumes "rrs_bank_inv n th b k c N s" "\<forall>(t, r)\<in>set as. r < rrs_numRows s \<and>
      rrs_last_reset s \<le> t \<and> t < rrs_last_reset s + REFRESH_WINDOW"
    "N + length as \<le> 4294967295" "2 * ((N + length as) div th) \<le> rrs_maxValidTuples s"
  shows "\<exists>s' ms. rrs_window mg_ops rnd s b k c as = Inr (s', ms) \<and>
    rrs_bank_inv n th b k c (N + length as) s' \<and>
    rrs_numRows s' = rrs_numRows s \<and> rrs_maxValidTuples s' = rrs_maxValidTuples s \<and>
    det_run (\<lambda>m r. mg_access m r b k c False) (rrs_detector s) (map snd as) = Inr (rrs_detector s', ms)"
  using assms
proof (induction as arbitrary: s N)
  case Nil
  then show ?case by simp
next
  case (Cons a as)
  obtain t r where a: "a = (t, r)" by (cases a)
  have "Suc N div th \<le> (N + length (a # as)) div th" by (intro div_le_mono) simp
  then have room: "2 * (Suc N div th) \<le> rrs_maxValidTuples s" using Cons.prems(4) by linarith
  obtain s1 d f where s1: "rrs_access mg_ops rnd s t r b k c = Inr s1" "rrs_bank_inv n th b k c (Suc N) s1"
    "rrs_numRows s1 = rrs_numRows s" "rrs_maxValidTuples s1 = rrs_maxValidTuples s"
    "rrs_last_reset s1 = rrs_last_reset s"
    "mg_access (rrs_detector s) r b k c False = Inr (d, f)" "rrs_detector s1 = d"
    "if f then rit_remap (rrs_table s1 b k c) r < rrs_numRows s \<and>
        row_good (rrs_table s b k c) (mg_tracked d b k c) r (rit_remap (rrs_table s1 b k c) r)
     else rrs_table s1 b k c = rrs_table s b k c"
    using rrs_access_spec[OF Cons.prems(1), of r t rnd] Cons.prems(2,3) room a by auto
  have wf: "rit_wf (rrs_numTuples s) (rrs_numRows s) (rrs_table s b k c)"
    "rit_wf (rrs_numTuples s1) (rrs_numRows s1) (rrs_table s1 b k c)"
    using Cons.prems(1) s1(2) by (simp_all add: rrs_bank_inv_def)
  have moved: "rit_remap (rrs_table s1 b k c) r \<noteq> rit_remap (rrs_table s b k c) r \<longleftrightarrow> f"
    using s1(8) row_good_new_home[OF wf(1)] by (cases f) auto
  have "\<exists>s' ms. rrs_window mg_ops rnd s1 b k c as = Inr (s', ms) \<and>
    rrs_bank_inv n th b k c (Suc N + length as) s' \<and>
    rrs_numRows s' = rrs_numRows s1 \<and> rrs_maxValidTuples s' = rrs_maxValidTuples s1 \<and>
    det_run (\<lambda>m r. mg_access m r b k c False) (rrs_detector s1) (map snd as) = Inr (rrs_detector s', ms)"
    using Cons.prems s1 by (intro Cons.IH) auto
  then obtain s' ms where "rrs_window mg_ops rnd s1 b k c as = Inr (s', ms)"
    "rrs_bank_inv n th b k c (Suc N + length as) s'"
    "rrs_numRows s' = rrs_numRows s1" "rrs_maxValidTuples s' = rrs_maxValidTuples s1"
    "det_run (\<lambda>m r. mg_access m r b k c False) (rrs_detector s1) (map snd as) = Inr (rrs_detector s', ms)"
    by blast
  then show ?case using s1(1-7) a moved wf[THEN rrs_getRemappedAddr_functional] by simp
qed

lemma rrs_new_inv:
  assumes "mg_bank_inv n th numRows b k c 0 d" "b < nb" "k < nk" "c < nc"
    "3 \<le> M" "n + 2 * M + 1 < numRows"
  shows "rrs_bank_inv n th b k c 0 ((rrs_new mem M numRows threshold nb nk nc)\<lparr>rrs_detector := d\<rparr>)"
proof -
  have sz: "M < 1428571 * M div 1000000" using assms(5) by linarith
  let ?t = "\<lparr>rit_tuples = replicate (1428571 * M div 1000000) rit_entry0, rit_rowHasEntry = \<lambda>_. 0, rit_valid_tuples = 0\<rparr>"
  have "rit_wf (1428571 * M div 1000000) numRows ?t"
    by (simp add: rit_wf_def rit_index_wf_def valid_ids_def rit_entry0_def)
  moreover have "locked_ids (1428571 * M div 1000000) ?t = {}"
    by (auto simp: locked_ids_def rit_entry0_def)
  ultimately show ?thesis
    using assms sz by (simp add: rrs_bank_inv_def rrs_new_def Let_def rrs_table_def)
qed

section \<open>A refresh window\<close>

lemma rrs_fresh_window:
  assumes "0 < th" "b < nb" "k < nk" "c < nc" "mg_spill_counter (dmem c k b) = 0"
    and "3 \<le> M" "n + 2 * M + 1 < R"
    and "\<forall>(t, r)\<in>set as. r < R \<and> t < REFRESH_WINDOW"
    and "length as < th * (n + 1)" "length as \<le> 4294967295" "2 * (length as div th) \<le> M"
  shows "\<exists>s' ms. rrs_window mg_ops rnd
      ((rrs_new mem M R threshold nb nk nc)\<lparr>rrs_detector := mg_new dmem n th R nb nk nc\<rparr>) b k c as = Inr (s', ms) \<and>
    rit_wf (rrs_numTuples s') R (rrs_table s' b k c) \<and> rit_valid_tuples (rrs_table s' b k c) \<le> M \<and>
    (\<forall>q. count_list (map snd as) q div th \<le> count_list ms q)"
proof -
  let ?d = "mg_new dmem n th R nb nk nc"
  let ?s = "(rrs_new mem M R threshold nb nk nc)\<lparr>rrs_detector := ?d\<rparr>"
  note mgi = mg_new_inv[where mem = dmem and c = c and k = k and b = b, OF assms(1-5), where n = n and R = R]
  have inv: "rrs_bank_inv n th b k c 0 ?s"
    using rrs_new_inv[OF mgi(1) assms(2-4,6,7)] .
  have sel: "rrs_numRows ?s = R" "rrs_last_reset ?s = 0" "rrs_maxValidTuples ?s = M" "rrs_detector ?s = ?d"
    by (simp_all add: rrs_new_def Let_def)
  obtain s' ms where s': "rrs_window mg_ops rnd ?s b k c as = Inr (s', ms)"
    "rrs_bank_inv n th b k c (length as) s'" "rrs_numRows s' = R" "rrs_maxValidTuples s' = M"
    "det_run (\<lambda>m r. mg_access m r b k c False) ?d (map snd as) = Inr (rrs_detector s', ms)"
    using rrs_window_inv[OF inv, of as rnd] assms(8,10,11) unfolding sel by auto
  have rows: "\<forall>r\<in>set (map snd as). r < R" using assms(8) by auto
  have "\<forall>q. count_list (map snd as) q div th \<le> count_list ms q"
    using mg.run_detects[OF mgi(1) rows] mgi(2) assms(9,10) s'(5) by simp
  then show ?thesis using s' by (auto simp: rrs_bank_inv_def)
qed

section \<open>Properties\<close>

text \<open>C11: A Randomized Row Swap fresh from its constructor, with a Misra-Gries detector fresh from its own
  (the spill counter it leaves unset being 0), survives every sequence of activations of one bank inside
  the first refresh window: with \<open>A\<close> activations such that \<open>2 * (A div th)\<close> tuples fit, fewer than
  \<open>th * (n + 1)\<close> activations, and more rows than tracked and swapped ones, no assertion of the defense or
  the detector fails, the indirection table stays well formed and within its demand size, and a row
  activated \<open>m * th\<close> times or more is moved by at least \<open>m\<close> of its activations: the table's functional
  lookup gives another home after the activation than before it.\<close>

theorem rrs_window_safe:
  assumes "0 < th" "b < nb" "k < nk" "c < nc" "mg_spill_counter (dmem c k b) = 0"
    and "3 \<le> M" "n + 2 * M + 1 < R"
    and "\<forall>(t, r)\<in>set as. r < R \<and> t < REFRESH_WINDOW"
    and "length as < th * (n + 1)" "length as \<le> 4294967295" "2 * (length as div th) \<le> M"
  shows "\<exists>s' ms. rrs_window mg_ops rnd
      ((rrs_new mem M R threshold nb nk nc)\<lparr>rrs_detector := mg_new dmem n th R nb nk nc\<rparr>) b k c as = Inr (s', ms) \<and>
    rit_wf (rrs_numTuples s') R (rrs_table s' b k c) \<and> rit_valid_tuples (rrs_table s' b k c) \<le> M \<and>
    (\<forall>q. count_list (map snd as) q div th \<le> count_list ms q)"
  using assms by (rule rrs_fresh_window)

theorem rrs_window_safe_witness:
  "\<exists>s' ms. rrs_window mg_ops (\<lambda>i. 3 * i)
      ((rrs_new (undefined :: misra_gries rrs) 4 16 3 1 1 1)\<lparr>rrs_detector := mg_new
        (\<lambda>_ _ _. \<lparr>mg_entries = [], mg_spill_counter = 0, mg_uniq_rows = {}, mg_rowHasEntry = (\<lambda>_. 0),
         mg_s_num_reset = 0, mg_s_glob_spill_count = 0, mg_s_num_access = 0, mg_s_num_install = 0, mg_s_aggressors = 0\<rparr>)
        2 2 16 1 1 1\<rparr>) 0 0 0 [(1, 5), (2, 5), (3, 6), (4, 6)] = Inr (s', ms) \<and>
    rit_wf (rrs_numTuples s') 16 (rrs_table s' 0 0 0) \<and> rit_valid_tuples (rrs_table s' 0 0 0) \<le> 4 \<and>
    (\<forall>q. count_list (map snd [(1::nat, 5), (2, 5), (3, 6), (4, 6)]) q div 2 \<le> count_list ms q)"
  by (rule rrs_window_safe) (simp_all add: REFRESH_WINDOW_def)

text \<open>C12: Mitigating a row moves it to a new home: when an insertion is ready (two more tuples can be
  locked and enough rows are cold), no assertion fails, the row is swapped with a row that is not the
  row itself, was in no tuple and is not tracked by the detector, the decision carries the swap first,
  and the tables of all other banks are untouched.\<close>

theorem rrs_insertTuple_moves_row:
  assumes "rrs_ready ops s b k c hot" "row < rrs_numRows s"
    and "decision_wf (rrs_decision s)" "actions (rrs_decision s) = []"
  shows "\<exists>s' y. rrs_insertTuple ops rnd s row b k c = Inr s' \<and>
    rit_wf (rrs_numTuples s) (rrs_numRows s) (rrs_table s' b k c) \<and>
    rit_valid_tuples (rrs_table s' b k c) \<le> rrs_maxValidTuples s \<and>
    rrs_getRemappedAddr s' row b k c True = Inr (s', y) \<and>
    y < rrs_numRows s \<and> y \<noteq> row \<and> rit_rowHasEntry (rrs_table s b k c) y = 0 \<and> \<not> hot y \<and>
    take 2 (actions (rrs_decision s')) = [row, y] \<and>
    (\<forall>b' k' c'. (b', k', c') \<noteq> (b, k, c) \<longrightarrow> rrs_table s' b' k' c' = rrs_table s b' k' c')"
proof -
  obtain s' where s': "rrs_insertTuple ops rnd s row b k c = Inr s'" "rrs_frame b k c s s'"
    "rit_wf (rrs_numTuples s) (rrs_numRows s) (rrs_table s' b k c)"
    "rit_valid_tuples (rrs_table s' b k c) \<le> rrs_maxValidTuples s"
    "rit_remap (rrs_table s' b k c) row < rrs_numRows s"
    "row_good (rrs_table s b k c) hot row (rit_remap (rrs_table s' b k c) row)"
    "take 2 (actions (rrs_decision s')) = [row, rit_remap (rrs_table s' b k c) row]"
    using rrs_insertTuple_spec[OF assms, of rnd] by blast
  have "rrs_getRemappedAddr s' row b k c True = Inr (s', rit_remap (rrs_table s' b k c) row)"
    using s'(3) rit_find_spec[of "rrs_numTuples s" "rrs_numRows s" "rrs_table s' b k c" row]
    by (simp add: rrs_getRemappedAddr_def rit_wf_def rit_remap_def Let_def)
  then show ?thesis using s' by (auto simp: row_good_def rrs_frame_def)
qed

theorem rrs_insertTuple_moves_row_witness:
  "\<exists>s :: unit rrs. \<exists>s' y. rrs_insertTuple \<lparr>det_access = (\<lambda>d r b k c f. Inr (d, r = 1)), det_reset = id\<rparr> (\<lambda>i. i) s 1 0 0 0 = Inr s' \<and>
    rrs_getRemappedAddr s' 1 0 0 0 True = Inr (s', y) \<and> y \<noteq> 1"
proof -
  define ops :: "unit detector_ops" where "ops = \<lparr>det_access = (\<lambda>d r b k c f. Inr (d, r = 1)), det_reset = id\<rparr>"
  define s :: "unit rrs" where "s = rrs_new undefined 4 16 3 1 1 1"
  have h: "{r. r = Suc 0 \<and> r < 16} = {Suc 0}" by auto
  have "rit_wf 5 16 (rrs_table s 0 0 0)" "locked_ids 5 (rrs_table s 0 0 0) = {}"
    by (auto simp: rit_wf_def rit_index_wf_def valid_ids_def locked_ids_def rit_entry0_def s_def
        rrs_new_def Let_def rrs_table_def)
  then have "rrs_ready ops s 0 0 0 (\<lambda>r. r = 1)"
    by (simp add: rrs_ready_def s_def rrs_new_def Let_def rrs_table_def lookup_pure_def ops_def h)
  from rrs_insertTuple_moves_row[OF this, of 1 "\<lambda>i. i"]
  show ?thesis unfolding ops_def by (auto simp: s_def rrs_new_def Let_def)
qed

text \<open>In every well-formed indirection table the remapping is a bijection of the bank's rows that is
  its own inverse: two rows never share a home, and the row a home belongs to is found by the same
  lookup.\<close>

theorem rrs_remapping_is_involution:
  assumes "rit_wf N (rrs_numRows s) (rrs_table s b k c)"
  shows "\<exists>f. (\<forall>r. rrs_getRemappedAddr s r b k c True = Inr (s, f r)) \<and>
    bij_betw f {..<rrs_numRows s} {..<rrs_numRows s} \<and> (\<forall>r<rrs_numRows s. f (f r) = r)"
proof (intro exI[of _ "rit_remap (rrs_table s b k c)"] conjI allI impI)
  show "bij_betw (rit_remap (rrs_table s b k c)) {..<rrs_numRows s} {..<rrs_numRows s}"
    by (rule rit_table.remap_bij[OF assms])
  show "rit_remap (rrs_table s b k c) (rit_remap (rrs_table s b k c) r) = r" if "r < rrs_numRows s" for r
    using rit_table.remap_invol[OF assms that] .
  show "rrs_getRemappedAddr s r b k c True = Inr (s, rit_remap (rrs_table s b k c) r)" for r
    using assms rit_find_spec[of N "rrs_numRows s" "rrs_table s b k c" r]
    by (simp add: rrs_getRemappedAddr_def rit_wf_def rit_remap_def Let_def)
qed

theorem rrs_remapping_is_involution_witness:
  "\<exists>s :: unit rrs. \<exists>f. (\<forall>r. rrs_getRemappedAddr s r 0 0 0 True = Inr (s, f r)) \<and> f 2 = 5 \<and>
    bij_betw f {..<rrs_numRows s} {..<rrs_numRows s}"
proof -
  define t where "t = \<lparr>rit_tuples = [\<lparr>rit_valid = True, rit_locked = True, rit_orig = 2, rit_remapped = 5\<rparr>],
    rit_rowHasEntry = (\<lambda>_. 0)(2 := 1, 5 := 1), rit_valid_tuples = 1\<rparr>"
  define s :: "unit rrs" where "s = rrs_set_table (rrs_new undefined 4 16 3 1 1 1) 0 0 0 t"
  have v: "valid_ids 1 t = {0}" by (auto simp: valid_ids_def t_def)
  have "rit_index_wf 1 16 t" by (simp add: rit_index_wf_def t_def)
  then have "rit_wf 1 (rrs_numRows s) (rrs_table s 0 0 0)"
    using v by (simp add: rit_wf_def s_def rrs_table_set rrs_new_def Let_def) (simp add: t_def)
  from rrs_remapping_is_involution[OF this] obtain f where
    f: "\<forall>r. rrs_getRemappedAddr s r 0 0 0 True = Inr (s, f r)" "bij_betw f {..<rrs_numRows s} {..<rrs_numRows s}"
    by blast
  have "rrs_getRemappedAddr s 2 0 0 0 True = Inr (s, 5)"
    by (simp add: rrs_getRemappedAddr_def rit_find_def s_def rrs_table_set t_def Let_def)
  then have "f 2 = 5" using f(1) by simp
  then show ?thesis using f by blast
qed

text \<open>The reset at the end of a refresh window unlocks every tuple of the bank and leaves the
  remapping itself unchanged, so the next window starts with all tuples evictable.\<close>

theorem rrs_reset_unlocks:
  assumes "b < rrs_numBanks s" "k < rrs_numRanks s" "c < rrs_numChannels s"
    and "rit_wf N n (rrs_table s b k c)"
  shows "rit_wf N n (rrs_table (rrs_reset ops s) b k c) \<and>
    locked_ids N (rrs_table (rrs_reset ops s) b k c) = {} \<and>
    rit_remap (rrs_table (rrs_reset ops s) b k c) = rit_remap (rrs_table s b k c) \<and>
    rrs_detector (rrs_reset ops s) = det_reset ops (rrs_detector s)"
  using rrs_reset_table[OF assms(3,2,1,4), of ops] by (simp add: rrs_reset_def Let_def)

theorem rrs_reset_unlocks_witness:
  "locked_ids 5 (rrs_table (rrs_reset mg_ops (rrs_new undefined 4 16 3 1 1 1)) 0 0 0) = {}"
proof -
  have "rit_wf 5 16 (rrs_table (rrs_new undefined 4 16 3 1 1 1 :: misra_gries rrs) 0 0 0)"
    by (auto simp: rit_wf_def rit_index_wf_def valid_ids_def rit_entry0_def rrs_new_def Let_def rrs_table_def)
  from rrs_reset_unlocks[OF _ _ _ this, of mg_ops] show ?thesis
    by (simp add: rrs_new_def Let_def)
qed

end
