(* ===== verification/Filter_Interface.thy ===== *)
theory Filter_Interface
  imports Pride_Base "HOL-Library.Multiset"
begin

text \<open>
  The contract of the membership filters the row quarantine asks before it looks a row up: a
  filter stands for a multiset of rows, \<open>add\<close> and \<open>del\<close> follow it as long as no more than
  \<open>lim\<close> rows are in it and only members are deleted, and a member is always reported.  From the
  contract: no sequence of such operations makes the filter deny a member.
\<close>

datatype filter_event = Add nat | Del nat

fun filter_run ::
  "('f \<Rightarrow> nat \<Rightarrow> 'f result) \<Rightarrow> ('f \<Rightarrow> nat \<Rightarrow> 'f result) \<Rightarrow> 'f \<Rightarrow> filter_event list \<Rightarrow> 'f result" where
  "filter_run add del f [] = Inr f"
| "filter_run add del f (Add x # es) = rbind (add f x) (\<lambda>f'. filter_run add del f' es)"
| "filter_run add del f (Del x # es) = rbind (del f x) (\<lambda>f'. filter_run add del f' es)"

text \<open>The multiset after a sequence of events, and the sequences that only delete members.\<close>

fun members :: "nat multiset \<Rightarrow> filter_event list \<Rightarrow> nat multiset" where
  "members M [] = M"
| "members M (Add x # es) = members (add_mset x M) es"
| "members M (Del x # es) = members (M - {#x#}) es"

fun legal :: "nat \<Rightarrow> (nat \<Rightarrow> bool) \<Rightarrow> nat multiset \<Rightarrow> filter_event list \<Rightarrow> bool" where
  "legal lim ok M [] \<longleftrightarrow> True"
| "legal lim ok M (Add x # es) \<longleftrightarrow> ok x \<and> size M < lim \<and> legal lim ok (add_mset x M) es"
| "legal lim ok M (Del x # es) \<longleftrightarrow> x \<in># M \<and> legal lim ok (M - {#x#}) es"

locale membership_filter =
  fixes add :: "'f \<Rightarrow> nat \<Rightarrow> 'f result"
    and del :: "'f \<Rightarrow> nat \<Rightarrow> 'f result"
    and query :: "'f \<Rightarrow> nat \<Rightarrow> bool result"
    and inv :: "'f \<Rightarrow> nat multiset \<Rightarrow> bool"
    and ok :: "nat \<Rightarrow> bool"
    and lim :: nat
  assumes add_inv: "inv f M \<Longrightarrow> ok x \<Longrightarrow> size M < lim \<Longrightarrow> \<exists>f'. add f x = Inr f' \<and> inv f' (add_mset x M)"
    and del_inv: "inv f M \<Longrightarrow> x \<in># M \<Longrightarrow> \<exists>f'. del f x = Inr f' \<and> inv f' (M - {#x#})"
    and query_member: "inv f M \<Longrightarrow> x \<in># M \<Longrightarrow> query f x = Inr True"
    and query_total: "inv f M \<Longrightarrow> ok x \<Longrightarrow> \<exists>a. query f x = Inr a"
begin

lemma run_members:
  assumes "inv f M" "legal lim ok M es"
  shows "\<exists>f'. filter_run add del f es = Inr f' \<and> inv f' (members M es)"
  using assms
proof (induction es arbitrary: f M)
  case (Cons e es)
  show ?case
  proof (cases e)
    case (Add x)
    with Cons.prems obtain f' where "add f x = Inr f'" "inv f' (add_mset x M)"
      using add_inv[OF Cons.prems(1), of x] by auto
    then show ?thesis using Cons.IH[of f' "add_mset x M"] Cons.prems Add by auto
  next
    case (Del x)
    with Cons.prems obtain f' where "del f x = Inr f'" "inv f' (M - {#x#})"
      using del_inv[OF Cons.prems(1), of x] by auto
    then show ?thesis using Cons.IH[of f' "M - {#x#}"] Cons.prems Del by auto
  qed
qed simp

lemma run_no_false_negative:
  assumes "inv f {#}" "legal lim ok {#} es" "x \<in># members {#} es"
  shows "\<exists>f'. filter_run add del f es = Inr f' \<and> query f' x = Inr True"
  using run_members[OF assms(1,2)] query_member assms(3) by auto

lemma not_member: "inv f M \<Longrightarrow> query f x = Inr False \<Longrightarrow> x \<notin># M"
  using query_member by fastforce

end

end
