(* ===== verification/Bloom_Filter.thy ===== *)
theory Bloom_Filter
  imports Filter_Interface "HOL-Library.Word"
begin

unbundle bit_operations_syntax

text \<open>
  \<open>CountingBloomFilter\<close> of \<open>mem/rowhammer_mitigation.cc\<close>, with the hash it uses (MurmurHash3
  x64 128, on 64-bit words) and the group counters \<open>bitvector\<close> that replace the filter when
  there is none.  Counters are 32 bits wide and wrap.  Both keep the filter contract: no false
  negatives, as long as the counters cannot wrap and only members are deleted.
\<close>

section \<open>MurmurHash3\<close>

definition rotl64 :: "64 word \<Rightarrow> nat \<Rightarrow> 64 word" where
  "rotl64 x r = push_bit r x OR drop_bit (64 - r) x"

definition fmix64 :: "64 word \<Rightarrow> 64 word" where
  "fmix64 k0 =
     (let k1 = k0 XOR drop_bit 33 k0;
          k2 = k1 * 0xff51afd7ed558ccd;
          k3 = k2 XOR drop_bit 33 k2;
          k4 = k3 * 0xc4ceb9fe1a85ec53
      in k4 XOR drop_bit 33 k4)"

text \<open>A 64-bit load from eight bytes on a little-endian machine.\<close>

definition le_word :: "8 word list \<Rightarrow> 64 word" where
  "le_word bs = foldr (\<lambda>b acc. push_bit 8 acc OR ucast b) bs 0"

definition getblock64 :: "8 word list \<Rightarrow> nat \<Rightarrow> 64 word" where
  "getblock64 p i = le_word (take 8 (drop (8 * i) p))"

definition murmur_c1 :: "64 word" where "murmur_c1 = 0x87c37b91114253d5"
definition murmur_c2 :: "64 word" where "murmur_c2 = 0x4cf5ad432745937f"

text \<open>One iteration of the body.\<close>

definition murmur_block :: "8 word list \<Rightarrow> 64 word \<times> 64 word \<Rightarrow> nat \<Rightarrow> 64 word \<times> 64 word" where
  "murmur_block data hs i =
     (let (h1, h2) = hs;
          k1 = getblock64 data (i * 2 + 0);
          k2 = getblock64 data (i * 2 + 1);
          h1 = h1 XOR (rotl64 (k1 * murmur_c1) 31 * murmur_c2);
          h1 = (rotl64 h1 27 + h2) * 5 + 0x52dce729;
          h2 = h2 XOR (rotl64 (k2 * murmur_c2) 33 * murmur_c1);
          h2 = (rotl64 h2 31 + h1) * 5 + 0x38495ab5
      in (h1, h2))"

text \<open>The fall-through cases of the tail: bytes 14 down to 8 build \<open>k2\<close>, bytes 7 down to 0
  build \<open>k1\<close>.\<close>

fun murmur_tail_bytes :: "8 word list \<Rightarrow> nat \<Rightarrow> nat \<Rightarrow> 64 word \<Rightarrow> 64 word" where
  "murmur_tail_bytes tail lo 0 k = k"
| "murmur_tail_bytes tail lo (Suc n) k =
     murmur_tail_bytes tail lo n (k XOR push_bit (8 * n) (ucast (tail ! (lo + n))))"

definition murmur_tail :: "8 word list \<Rightarrow> 64 word \<times> 64 word \<Rightarrow> 64 word \<times> 64 word" where
  "murmur_tail tail hs =
     (let (h1, h2) = hs;
          n = length tail;
          h2 = (if 9 \<le> n
                then h2 XOR (rotl64 (murmur_tail_bytes tail 8 (n - 8) 0 * murmur_c2) 33 * murmur_c1)
                else h2);
          h1 = (if 1 \<le> n
                then h1 XOR (rotl64 (murmur_tail_bytes tail 0 (min n 8) 0 * murmur_c1) 31 * murmur_c2)
                else h1)
      in (h1, h2))"

definition MurmurHash3_x64_128 :: "8 word list \<Rightarrow> 32 word \<Rightarrow> 64 word \<times> 64 word" where
  "MurmurHash3_x64_128 data seed =
     (let len = length data;
          nblocks = len div 16;
          (h1, h2) = foldl (murmur_block data) (ucast seed, ucast seed) [0..<nblocks];
          (h1, h2) = murmur_tail (drop (nblocks * 16) data) (h1, h2);
          h1 = h1 XOR of_nat len;
          h2 = h2 XOR of_nat len;
          h1 = h1 + h2;
          h2 = h2 + h1;
          h1 = fmix64 h1;
          h2 = fmix64 h2;
          h1 = h1 + h2;
          h2 = h2 + h1
      in (h1, h2))"

definition RQhash :: "8 word list \<Rightarrow> 64 word \<times> 64 word" where
  "RQhash data = MurmurHash3_x64_128 data 0xdeadbeef"

definition nthHash :: "nat \<Rightarrow> 64 word \<Rightarrow> 64 word \<Rightarrow> nat \<Rightarrow> nat" where
  "nthHash n hashA hashB filterSize = unat ((hashA + of_nat n * hashB) mod of_nat filterSize)"

text \<open>The four bytes of a 32-bit row address.\<close>

definition row_bytes :: "nat \<Rightarrow> 8 word list" where
  "row_bytes rowAddr = map (\<lambda>i. of_nat (rowAddr div 2 ^ (8 * i))) [0..<4]"

section \<open>The filter\<close>

record cbf =
  cbf_numHashes :: nat
  cbf_maxCount :: nat
  cbf_numEntries :: nat
  cbf_entries :: "nat list"
  cbf_s_truePositives :: nat
  cbf_s_falsePositives :: nat
  cbf_s_trueNegatives :: nat

definition cbf_new :: "cbf \<Rightarrow> nat \<Rightarrow> nat \<Rightarrow> nat \<Rightarrow> cbf" where
  "cbf_new mem numEntries maxCount numHashes =
     mem\<lparr>cbf_numHashes := numHashes, cbf_maxCount := maxCount, cbf_numEntries := numEntries,
         cbf_entries := replicate numEntries 0\<rparr>"

text \<open>The counters of a row: \<open>nthHash(n, ...)\<close> for every \<open>n\<close> below \<open>numHashes\<close>.\<close>

definition cbf_slots :: "cbf \<Rightarrow> nat \<Rightarrow> nat list" where
  "cbf_slots f rowAddr =
     (let (h1, h2) = RQhash (row_bytes rowAddr)
      in map (\<lambda>n. nthHash n h1 h2 (cbf_numEntries f)) [0..<cbf_numHashes f])"

definition cbf_add :: "cbf \<Rightarrow> nat \<Rightarrow> cbf result" where
  "cbf_add f rowAddr =
     (if cbf_numEntries f = 0 \<and> 0 < cbf_numHashes f then Inl DivideByZero
      else Inr (f\<lparr>cbf_entries := foldl (\<lambda>es i. es[i := inc32 (es ! i)]) (cbf_entries f) (cbf_slots f rowAddr)\<rparr>))"

definition cbf_query :: "cbf \<Rightarrow> nat \<Rightarrow> bool result" where
  "cbf_query f rowAddr =
     (if cbf_numEntries f = 0 \<and> 0 < cbf_numHashes f then Inl DivideByZero
      else Inr (list_all (\<lambda>i. cbf_entries f ! i \<noteq> 0) (cbf_slots f rowAddr)))"

definition cbf_del :: "cbf \<Rightarrow> nat \<Rightarrow> cbf result" where
  "cbf_del f rowAddr =
     (if cbf_numEntries f = 0 \<and> 0 < cbf_numHashes f then Inl DivideByZero
      else Inr (f\<lparr>cbf_entries := foldl (\<lambda>es i. if es ! i \<noteq> 0 then es[i := es ! i - 1] else es)
                                   (cbf_entries f) (cbf_slots f rowAddr)\<rparr>))"

section \<open>The group counters\<close>

text \<open>\<open>bitvector[index/rows_per_btv_bit]\<close>: how many quarantined rows a group has.\<close>

record btv =
  btv_bits :: "nat list"
  btv_rows_per_bit :: nat

definition btv_slot :: "btv \<Rightarrow> nat \<Rightarrow> nat result" where
  "btv_slot v index =
     (if btv_rows_per_bit v = 0 then Inl DivideByZero
      else if index div btv_rows_per_bit v < length (btv_bits v) then Inr (index div btv_rows_per_bit v)
      else Inl OutOfBounds)"

definition btv_add :: "btv \<Rightarrow> nat \<Rightarrow> btv result" where
  "btv_add v index = rbind (btv_slot v index) (\<lambda>g.
     Inr (v\<lparr>btv_bits := (btv_bits v)[g := inc32 (btv_bits v ! g)]\<rparr>))"

definition btv_query :: "btv \<Rightarrow> nat \<Rightarrow> bool result" where
  "btv_query v index = rbind (btv_slot v index) (\<lambda>g. Inr (btv_bits v ! g \<noteq> 0))"

text \<open>\<open>assert(bitvector[g]); bitvector[g]--\<close>\<close>

definition btv_del :: "btv \<Rightarrow> nat \<Rightarrow> btv result" where
  "btv_del v index = rbind (btv_slot v index) (\<lambda>g.
     if btv_bits v ! g \<noteq> 0
     then Inr (v\<lparr>btv_bits := (btv_bits v)[g := dec32 (btv_bits v ! g)]\<rparr>)
     else Inl AssertFail)"

section \<open>The contract of the filter\<close>

text \<open>Counters of a multiset of rows: how often a slot occurs among the slots of the rows.\<close>

definition cbf_load :: "cbf \<Rightarrow> nat multiset \<Rightarrow> nat \<Rightarrow> nat" where
  "cbf_load f M i = (\<Sum>x\<in>#M. count_list (cbf_slots f x) i)"

definition cbf_inv :: "nat \<Rightarrow> nat \<Rightarrow> cbf \<Rightarrow> nat multiset \<Rightarrow> bool" where
  "cbf_inv hashes lim f M \<longleftrightarrow> cbf_numHashes f = hashes \<and> 0 < cbf_numEntries f \<and>
     cbf_numEntries f < 2 ^ 32 \<and>
     length (cbf_entries f) = cbf_numEntries f \<and>
     hashes * lim < 2 ^ 32 \<and> size M \<le> lim \<and>
     (\<forall>i<cbf_numEntries f. cbf_entries f ! i = cbf_load f M i)"

lemma cbf_slots_update [simp]: "cbf_slots (f\<lparr>cbf_entries := es\<rparr>) = cbf_slots f"
  by (intro ext, simp add: cbf_slots_def)

lemma cbf_load_update [simp]: "cbf_load (f\<lparr>cbf_entries := es\<rparr>) = cbf_load f"
  by (intro ext, simp add: cbf_load_def)

lemma length_cbf_slots [simp]: "length (cbf_slots f x) = cbf_numHashes f"
  by (simp add: cbf_slots_def split: prod.splits)

lemma nthHash_less:
  assumes "0 < m" "m < 4294967296"
  shows "nthHash n a b m < m"
proof -
  have "unat (of_nat m :: 64 word) = m" using assms(2) by (simp add: unat_of_nat)
  then show ?thesis using assms(1) by (simp add: nthHash_def unat_mod)
qed

lemma cbf_slots_less:
  assumes "0 < cbf_numEntries f" "cbf_numEntries f < 4294967296" "i \<in> set (cbf_slots f x)"
  shows "i < cbf_numEntries f"
proof -
  obtain h1 h2 where "RQhash (row_bytes x) = (h1, h2)" by fastforce
  then obtain n where "i = nthHash n h1 h2 (cbf_numEntries f)"
    using assms(3) by (auto simp: cbf_slots_def)
  then show ?thesis using nthHash_less[OF assms(1,2)] by simp
qed

lemma count_list_le_length: "count_list xs y \<le> length xs"
  by (induction xs) auto

lemma cbf_load_bound: "cbf_load f M i \<le> cbf_numHashes f * size M"
proof (induction M)
  case (add x M)
  then show ?case using count_list_le_length[of "cbf_slots f x" i] by (simp add: cbf_load_def)
qed (simp add: cbf_load_def)

lemma foldl_inc:
  assumes "\<forall>i\<in>set is. i < length es" "\<forall>i<length es. es ! i + count_list is i < 4294967296"
  shows "length (foldl (\<lambda>es i. es[i := inc32 (es ! i)]) es is) = length es \<and>
    (\<forall>j<length es. foldl (\<lambda>es i. es[i := inc32 (es ! i)]) es is ! j = es ! j + count_list is j)"
  using assms
proof (induction "is" arbitrary: es)
  case (Cons i "is")
  have i: "es ! i < 4294967295" "i < length es"
    using Cons.prems by (auto dest: spec[of _ i])
  have "\<forall>j<length (es[i := inc32 (es ! i)]). es[i := inc32 (es ! i)] ! j + count_list is j < 4294967296"
    using Cons.prems(2) i by (auto simp: nth_list_update inc32_id)
  then show ?case using Cons.IH[of "es[i := inc32 (es ! i)]"] Cons.prems(1) i
    by (auto simp: nth_list_update inc32_id)
qed simp

lemma foldl_dec:
  assumes "\<forall>i\<in>set is. i < length es" "\<forall>i<length es. count_list is i \<le> es ! i"
  shows "length (foldl (\<lambda>es i. if es ! i \<noteq> 0 then es[i := es ! i - 1] else es) es is) = length es \<and>
    (\<forall>j<length es. foldl (\<lambda>es i. if es ! i \<noteq> 0 then es[i := es ! i - 1] else es) es is ! j
       = es ! j - count_list is j)"
  using assms
proof (induction "is" arbitrary: es)
  case (Cons i "is")
  have i: "0 < es ! i" "i < length es"
    using Cons.prems by (auto dest: spec[of _ i])
  have "count_list is j \<le> es[i := es ! i - 1] ! j" if "j < length es" for j
    using Cons.prems(2)[rule_format, OF that] i that by (cases "j = i") auto
  then show ?case using Cons.IH[of "es[i := es ! i - 1]"] Cons.prems(1) i
    by (auto simp: nth_list_update)
qed simp

lemma cbf_add_inv:
  assumes "cbf_inv h lim f M" "size M < lim"
  shows "\<exists>f'. cbf_add f x = Inr f' \<and> cbf_inv h lim f' (add_mset x M)"
proof -
  note I = assms(1)[unfolded cbf_inv_def]
  have b: "cbf_load f (add_mset x M) i < 4294967296" for i
  proof -
    have "cbf_load f (add_mset x M) i \<le> h * size (add_mset x M)"
      using cbf_load_bound[of f "add_mset x M" i] I by simp
    also have "\<dots> \<le> h * lim" using assms(2) by (intro mult_le_mono2) simp
    finally show ?thesis using I by simp
  qed
  have l: "cbf_load f (add_mset x M) i = cbf_load f M i + count_list (cbf_slots f x) i" for i
    by (simp add: cbf_load_def)
  have "\<forall>i\<in>set (cbf_slots f x). i < length (cbf_entries f)"
    using I cbf_slots_less[of f _ x] by auto
  from foldl_inc[OF this] show ?thesis using I b l assms(2) by (auto simp: cbf_add_def cbf_inv_def)
qed

lemma cbf_del_inv:
  assumes "cbf_inv h lim f M" "x \<in># M"
  shows "\<exists>f'. cbf_del f x = Inr f' \<and> cbf_inv h lim f' (M - {#x#})"
proof -
  note I = assms(1)[unfolded cbf_inv_def]
  obtain M' where M: "M = add_mset x M'" using assms(2) by (metis multi_member_split)
  have l: "cbf_load f M i = cbf_load f M' i + count_list (cbf_slots f x) i" for i
    by (simp add: cbf_load_def M)
  have "\<forall>i\<in>set (cbf_slots f x). i < length (cbf_entries f)"
    using I cbf_slots_less[of f _ x] by auto
  from foldl_dec[OF this] show ?thesis using I l M by (auto simp: cbf_del_def cbf_inv_def)
qed

lemma cbf_query_member:
  assumes "cbf_inv h lim f M" "x \<in># M"
  shows "cbf_query f x = Inr True"
proof -
  note I = assms(1)[unfolded cbf_inv_def]
  obtain M' where M: "M = add_mset x M'" using assms(2) by (metis multi_member_split)
  have "cbf_entries f ! i \<noteq> 0" if "i \<in> set (cbf_slots f x)" for i
  proof -
    have "0 < count_list (cbf_slots f x) i" using that count_list_0_iff gr0I by metis
    moreover have "i < cbf_numEntries f" using I that cbf_slots_less[of f _ x] by auto
    ultimately show ?thesis using I by (simp add: cbf_load_def M)
  qed
  then show ?thesis using I by (simp add: cbf_query_def list_all_iff)
qed

interpretation bloom: membership_filter cbf_add cbf_del cbf_query "cbf_inv hashes lim" "\<lambda>_. True" lim
  for hashes lim
proof
  fix f M x assume "cbf_inv hashes lim f M"
  then show "\<exists>a. cbf_query f x = Inr a" by (simp add: cbf_query_def cbf_inv_def)
qed (use cbf_add_inv cbf_del_inv cbf_query_member in blast)+

lemma cbf_new_inv:
  assumes "0 < n" "n < 4294967296" "h * lim < 4294967296"
  shows "cbf_inv h lim (cbf_new mem n mc h) {#}"
  using assms by (simp add: cbf_inv_def cbf_new_def cbf_load_def)

section \<open>The contract of the group counters\<close>

definition btv_inv :: "nat \<Rightarrow> nat \<Rightarrow> btv \<Rightarrow> nat multiset \<Rightarrow> bool" where
  "btv_inv per n v M \<longleftrightarrow> btv_rows_per_bit v = per \<and> 0 < per \<and> length (btv_bits v) = n \<and>
     size M \<le> 4294967295 \<and> (\<forall>x\<in>#M. x div per < n) \<and>
     (\<forall>g<n. btv_bits v ! g = size (filter_mset (\<lambda>x. x div per = g) M))"

lemma btv_add_inv:
  assumes "btv_inv per n v M" "x div per < n" "size M < 4294967295"
  shows "\<exists>v'. btv_add v x = Inr v' \<and> btv_inv per n v' (add_mset x M)"
proof -
  note I = assms(1)[unfolded btv_inv_def]
  let ?c = "size (filter_mset (\<lambda>y. y div per = x div per) M)"
  have "?c \<le> size M" by (rule size_mset_mono) simp
  then have "inc32 ?c = Suc ?c" using assms(3) by (intro inc32_id) linarith
  then show ?thesis using I assms(2,3)
    by (auto simp: btv_add_def btv_slot_def btv_inv_def nth_list_update)
qed

lemma btv_del_inv:
  assumes "btv_inv per n v M" "x \<in># M"
  shows "\<exists>v'. btv_del v x = Inr v' \<and> btv_inv per n v' (M - {#x#})"
proof -
  note I = assms(1)[unfolded btv_inv_def]
  obtain M' where M: "M = add_mset x M'" using assms(2) by (metis multi_member_split)
  show ?thesis using I M
    by (auto simp: btv_del_def btv_slot_def btv_inv_def nth_list_update dec32_def)
qed

interpretation groups: membership_filter btv_add btv_del btv_query "btv_inv per n"
  "\<lambda>x. x div per < n" 4294967295
  for per n
proof
  fix v M x assume I: "btv_inv per n v M"
  show "\<exists>a. btv_query v x = Inr a" if "x div per < n"
    using I that by (simp add: btv_query_def btv_slot_def btv_inv_def)
  assume "x \<in># M"
  then obtain M' where M: "M = add_mset x M'" by (metis multi_member_split)
  show "btv_query v x = Inr True"
    using I M by (simp add: btv_query_def btv_slot_def btv_inv_def)
qed (use btv_add_inv btv_del_inv in blast)+

section \<open>Properties\<close>

text \<open>C15: The counting Bloom filter has no false negatives: after any sequence of insertions and of
  deletions of members, with at most \<open>lim\<close> rows in the filter at a time and \<open>numHashes * lim\<close> below
  2^32 (so that no counter wraps), every row still in the filter is reported by \<open>query\<close>.\<close>

theorem bloom_no_false_negatives:
  assumes "0 < n" "n < 4294967296" "h * lim < 4294967296"
    and "legal lim (\<lambda>_. True) {#} es" "x \<in># members {#} es"
  shows "\<exists>f. filter_run cbf_add cbf_del (cbf_new mem n mc h) es = Inr f \<and> cbf_query f x = Inr True"
  by (rule bloom.run_no_false_negative[OF cbf_new_inv[OF assms(1-3)] assms(4,5)])

theorem bloom_no_false_negatives_witness:
  "\<exists>f. filter_run cbf_add cbf_del (cbf_new
      \<lparr>cbf_numHashes = 0, cbf_maxCount = 0, cbf_numEntries = 0, cbf_entries = [], cbf_s_truePositives = 0,
       cbf_s_falsePositives = 0, cbf_s_trueNegatives = 0\<rparr> 1024 7 4) [Add 11, Add 12, Del 11] = Inr f \<and>
    cbf_query f 12 = Inr True"
  by (rule bloom_no_false_negatives[where lim = 2]) simp_all

text \<open>The group counters have no false negatives and their assertion never fails: deleting a row
  that was added finds its group's counter above zero.\<close>

theorem bitvector_no_false_negatives:
  assumes "0 < per" "legal 4294967295 (\<lambda>x. x div per < n) {#} es" "x \<in># members {#} es"
  shows "\<exists>v. filter_run btv_add btv_del \<lparr>btv_bits = replicate n 0, btv_rows_per_bit = per\<rparr> es = Inr v \<and>
    btv_query v x = Inr True"
proof -
  have "btv_inv per n \<lparr>btv_bits = replicate n 0, btv_rows_per_bit = per\<rparr> {#}"
    using assms(1) by (simp add: btv_inv_def)
  from groups.run_no_false_negative[OF this assms(2,3)] show ?thesis .
qed

theorem bitvector_no_false_negatives_witness:
  "\<exists>v. filter_run btv_add btv_del \<lparr>btv_bits = replicate 4 0, btv_rows_per_bit = 16\<rparr> [Add 3, Add 4, Del 3] = Inr v \<and>
    btv_query v 4 = Inr True"
  by (rule bitvector_no_false_negatives) simp_all

end
