(* ===== verification/Func_Cache.thy ===== *)
theory Func_Cache
  imports Pride_Base
begin

text \<open>
  \<open>Functional_Cache\<close> of \<open>mem/rowhammer_mitigation.cc\<close>: the set-associative cache of row
  indirection entries, replaced by re-reference counters (\<open>rrip\<close>, 3 on a hit, 1 on a fill).
  The tag of a block is the whole address.  An access to a way outside the set, a division by
  a zero number of sets and a failed assertion are faults.
\<close>

section \<open>State\<close>

record fc_block =
  fb_tag :: nat
  fb_valid :: bool
  fb_dirty :: bool
  fb_onlyOneRowRemapped :: bool
  fb_rrip :: nat

record func_cache =
  fc_blk_offset :: nat
  fc_cache :: "fc_block list list"
  fc_s_lookups :: nat
  fc_s_hits :: nat
  fc_s_fills :: nat
  fc_s_invalidations :: nat
  fc_s_evictions :: nat
  fc_sets :: nat
  fc_ways :: nat
  fc_partial_lookup_factor :: nat

definition fc_block0 :: fc_block where
  "fc_block0 = \<lparr>fb_tag = 0, fb_valid = False, fb_dirty = False, fb_onlyOneRowRemapped = False, fb_rrip = 0\<rparr>"

text \<open>The constructor; \<open>partial_lookup_factor\<close> is set by the memory controller after it.\<close>

definition fc_new :: "nat \<Rightarrow> nat \<Rightarrow> nat \<Rightarrow> func_cache" where
  "fc_new sets ways factor =
     \<lparr> fc_blk_offset = 5, fc_cache = replicate sets (replicate ways fc_block0),
       fc_s_lookups = 0, fc_s_hits = 0, fc_s_fills = 0, fc_s_invalidations = 0, fc_s_evictions = 0,
       fc_sets = sets, fc_ways = ways, fc_partial_lookup_factor = factor \<rparr>"

section \<open>Operations\<close>

text \<open>\<open>(addr >> m_blk_offset) % m_sets\<close>\<close>

definition fc_set :: "func_cache \<Rightarrow> nat \<Rightarrow> nat result" where
  "fc_set c addr =
     (if fc_sets c = 0 then Inl DivideByZero
      else let i = addr div 2 ^ fc_blk_offset c mod fc_sets c in
        if i < length (fc_cache c) then Inr i else Inl OutOfBounds)"

text \<open>\<open>m_cache[set][blk_way]\<close>\<close>

definition fc_at :: "func_cache \<Rightarrow> nat \<Rightarrow> nat \<Rightarrow> (nat \<times> fc_block) result" where
  "fc_at c addr blk_way = rbind (fc_set c addr) (\<lambda>i.
     if blk_way < length (fc_cache c ! i) then Inr (i, fc_cache c ! i ! blk_way) else Inl OutOfBounds)"

definition fc_put :: "func_cache \<Rightarrow> nat \<Rightarrow> nat \<Rightarrow> fc_block \<Rightarrow> func_cache" where
  "fc_put c i blk_way b = c\<lparr>fc_cache := (fc_cache c)[i := (fc_cache c ! i)[blk_way := b]]\<rparr>"

text \<open>The search loop of \<open>Lookup\<close>, \<open>PartialLookup\<close> and \<open>Get_Block_Way\<close>: the first valid way
  whose tag passes the test, or the number of ways.\<close>

definition fc_find :: "func_cache \<Rightarrow> nat \<Rightarrow> (nat \<Rightarrow> bool) \<Rightarrow> nat" where
  "fc_find c i P =
     (case first_idx (\<lambda>way. fb_valid (fc_cache c ! i ! way) \<and> P (fb_tag (fc_cache c ! i ! way))) (fc_ways c) of
        Some way \<Rightarrow> way | None \<Rightarrow> fc_ways c)"

definition fc_Lookup :: "func_cache \<Rightarrow> nat \<Rightarrow> bool \<Rightarrow> (func_cache \<times> nat) result" where
  "fc_Lookup c addr update = rbind (fc_set c addr) (\<lambda>i.
     let blk_way = fc_find c i (\<lambda>tag. tag = addr);
         hit = (blk_way < fc_ways c)
     in if update
        then let c1 = c\<lparr>fc_s_lookups := fc_s_lookups c + 1\<rparr> in
          Inr (if hit
               then fc_put (c1\<lparr>fc_s_hits := fc_s_hits c1 + 1\<rparr>) i blk_way ((fc_cache c ! i ! blk_way)\<lparr>fb_rrip := 3\<rparr>)
               else c1, blk_way)
        else Inr (c, blk_way))"

definition fc_PartialLookup :: "func_cache \<Rightarrow> nat \<Rightarrow> (func_cache \<times> nat) result" where
  "fc_PartialLookup c addr = rbind (fc_set c addr) (\<lambda>i.
     if fc_partial_lookup_factor c = 0 then Inl DivideByZero
     else let blk_way = fc_find c i (\<lambda>tag. tag div fc_partial_lookup_factor c = addr div fc_partial_lookup_factor c)
       in Inr (if blk_way < fc_ways c
               then fc_put c i blk_way ((fc_cache c ! i ! blk_way)\<lparr>fb_rrip := 3\<rparr>) else c, blk_way))"

definition fc_Fill :: "func_cache \<Rightarrow> nat \<Rightarrow> nat \<Rightarrow> func_cache result" where
  "fc_Fill c addr blk_way = rbind (fc_at c addr blk_way) (\<lambda>(i, b).
     if fb_valid b then Inl AssertFail
     else Inr ((fc_put c i blk_way \<lparr>fb_tag = addr, fb_valid = True, fb_dirty = False,
                  fb_onlyOneRowRemapped = True, fb_rrip = 1\<rparr>)\<lparr>fc_s_fills := fc_s_fills c + 1\<rparr>))"

definition fc_Invalidate :: "func_cache \<Rightarrow> nat \<Rightarrow> nat \<Rightarrow> func_cache result" where
  "fc_Invalidate c addr blk_way = rbind (fc_at c addr blk_way) (\<lambda>(i, b).
     if \<not> fb_valid b then Inr c
     else Inr ((fc_put c i blk_way fc_block0)\<lparr>fc_s_invalidations := fc_s_invalidations c + 1\<rparr>))"

text \<open>The aging loop of \<open>Find_Victim\<close>: the first way with counter 0, or every counter one down
  and another round.\<close>

fun fc_age :: "nat \<Rightarrow> nat \<Rightarrow> fc_block list \<Rightarrow> fc_block list \<times> nat" where
  "fc_age ways 0 bs = (bs, ways)"
| "fc_age ways (Suc loop_count) bs =
     (case first_idx (\<lambda>way. fb_rrip (bs ! way) = 0) ways of
        Some way \<Rightarrow> (bs, way)
      | None \<Rightarrow> fc_age ways loop_count
          (map (\<lambda>b. b\<lparr>fb_rrip := dec32 (fb_rrip b)\<rparr>) (take ways bs) @ drop ways bs))"

definition fc_Find_Victim :: "func_cache \<Rightarrow> nat \<Rightarrow> (func_cache \<times> nat) result" where
  "fc_Find_Victim c addr = rbind (fc_set c addr) (\<lambda>i.
     case first_idx (\<lambda>way. \<not> fb_valid (fc_cache c ! i ! way)) (fc_ways c) of
       Some way \<Rightarrow> Inr (c, way)
     | None \<Rightarrow>
         let (bs, victim_way) = fc_age (fc_ways c) 4 (fc_cache c ! i);
             c1 = c\<lparr>fc_s_evictions := fc_s_evictions c + 1, fc_cache := (fc_cache c)[i := bs]\<rparr>
         in if victim_way < fc_ways c then Inr (c1, victim_way) else Inl AssertFail)"

definition fc_Is_Block_Valid :: "func_cache \<Rightarrow> nat \<Rightarrow> nat \<Rightarrow> bool result" where
  "fc_Is_Block_Valid c addr blk_way = rbind (fc_at c addr blk_way) (\<lambda>(i, b). Inr (fb_valid b))"

definition fc_Get_Block_Addr :: "func_cache \<Rightarrow> nat \<Rightarrow> nat \<Rightarrow> nat result" where
  "fc_Get_Block_Addr c addr blk_way = rbind (fc_at c addr blk_way) (\<lambda>(i, b).
     if fb_valid b then Inr (fb_tag b) else Inl AssertFail)"

definition fc_Get_Block_Way :: "func_cache \<Rightarrow> nat \<Rightarrow> nat result" where
  "fc_Get_Block_Way c addr = rbind (fc_set c addr) (\<lambda>i.
     let blk_way = fc_find c i (\<lambda>tag. tag = addr)
     in if blk_way < fc_ways c then Inr blk_way else Inl AssertFail)"

definition fc_SetORRBit :: "func_cache \<Rightarrow> nat \<Rightarrow> bool \<Rightarrow> func_cache result" where
  "fc_SetORRBit c addr bitvalue = rbind (fc_set c addr) (\<lambda>i.
     if fc_partial_lookup_factor c = 0 then Inl DivideByZero
     else Inr (c\<lparr>fc_cache := (fc_cache c)[i :=
       map (\<lambda>b. if fb_valid b \<and> fb_tag b div fc_partial_lookup_factor c = addr div fc_partial_lookup_factor c
                then b\<lparr>fb_onlyOneRowRemapped := bitvalue\<rparr> else b)
           (take (fc_ways c) (fc_cache c ! i)) @ drop (fc_ways c) (fc_cache c ! i)]\<rparr>))"

definition fc_QueryORRBit :: "func_cache \<Rightarrow> nat \<Rightarrow> nat \<Rightarrow> bool result" where
  "fc_QueryORRBit c addr blk_way = rbind (fc_at c addr blk_way) (\<lambda>(i, b).
     if fb_valid b then Inr (fb_onlyOneRowRemapped b) else Inl AssertFail)"

definition fc_SetDirtyBit :: "func_cache \<Rightarrow> nat \<Rightarrow> nat \<Rightarrow> func_cache result" where
  "fc_SetDirtyBit c addr blk_way = rbind (fc_at c addr blk_way) (\<lambda>(i, b).
     if fb_valid b then Inr (fc_put c i blk_way (b\<lparr>fb_dirty := True\<rparr>)) else Inl AssertFail)"

definition fc_QueryDirtyBit :: "func_cache \<Rightarrow> nat \<Rightarrow> nat \<Rightarrow> bool result" where
  "fc_QueryDirtyBit c addr blk_way = rbind (fc_at c addr blk_way) (\<lambda>(i, b).
     if fb_valid b then Inr (fb_dirty b) else Inl AssertFail)"

section \<open>Invariant\<close>

definition fc_index :: "func_cache \<Rightarrow> nat \<Rightarrow> nat" where
  "fc_index c addr = addr div 2 ^ fc_blk_offset c mod fc_sets c"

text \<open>The shape of the cache, counters at most 3, and blocks in the set of their tag.\<close>

definition fc_wf :: "func_cache \<Rightarrow> bool" where
  "fc_wf c \<longleftrightarrow> 0 < fc_sets c \<and> 0 < fc_ways c \<and> 0 < fc_partial_lookup_factor c \<and>
     length (fc_cache c) = fc_sets c \<and>
     (\<forall>i<fc_sets c. length (fc_cache c ! i) = fc_ways c \<and>
        (\<forall>b\<in>set (fc_cache c ! i). fb_rrip b \<le> 3 \<and> (fb_valid b \<longrightarrow> fc_index c (fb_tag b) = i)))"

text \<open>The cached addresses.\<close>

definition fc_contents :: "func_cache \<Rightarrow> nat set" where
  "fc_contents c = {a. \<exists>b\<in>set (fc_cache c ! fc_index c a). fb_valid b \<and> fb_tag b = a}"

text \<open>The parameters of the cache never change.\<close>

definition fc_same :: "func_cache \<Rightarrow> func_cache \<Rightarrow> bool" where
  "fc_same c c' \<longleftrightarrow> fc_sets c' = fc_sets c \<and> fc_ways c' = fc_ways c \<and>
     fc_blk_offset c' = fc_blk_offset c \<and> fc_partial_lookup_factor c' = fc_partial_lookup_factor c"

lemma fc_same_refl [simp]: "fc_same c c"
  by (simp add: fc_same_def)

lemma fc_same_trans: "fc_same a b \<Longrightarrow> fc_same b c \<Longrightarrow> fc_same a c"
  by (simp add: fc_same_def)

lemma fc_index_same: "fc_same c c' \<Longrightarrow> fc_index c' a = fc_index c a"
  by (simp add: fc_same_def fc_index_def)

lemma fc_index_less: "fc_wf c \<Longrightarrow> fc_index c a < fc_sets c"
  by (simp add: fc_wf_def fc_index_def)

lemma fc_set_ok: "fc_wf c \<Longrightarrow> fc_set c a = Inr (fc_index c a)"
  using fc_index_less[of c a] by (simp add: fc_set_def fc_wf_def fc_index_def Let_def)

lemma fc_wfD:
  assumes "fc_wf c" "i < fc_sets c"
  shows "length (fc_cache c ! i) = fc_ways c" "b \<in> set (fc_cache c ! i) \<Longrightarrow> fb_rrip b \<le> 3"
    "b \<in> set (fc_cache c ! i) \<Longrightarrow> fb_valid b \<Longrightarrow> fc_index c (fb_tag b) = i"
  using assms by (auto simp: fc_wf_def)

lemma fc_at_ok:
  assumes "fc_wf c" "w < fc_ways c"
  shows "fc_at c a w = Inr (fc_index c a, fc_cache c ! fc_index c a ! w)"
  using assms fc_wfD(1)[OF assms(1) fc_index_less[OF assms(1), of a]]
  by (simp add: fc_at_def fc_set_ok)

text \<open>Replacing one set by a list of the same shape.\<close>

lemma fc_replace_wf:
  assumes "fc_wf c" "fc_same c c'" "fc_cache c' = (fc_cache c)[i := bs]" "i < fc_sets c"
    "length bs = fc_ways c" "\<And>b. b \<in> set bs \<Longrightarrow> fb_rrip b \<le> 3"
    "\<And>b. b \<in> set bs \<Longrightarrow> fb_valid b \<Longrightarrow> fc_index c (fb_tag b) = i"
  shows "fc_wf c'"
  using assms fc_wfD[OF assms(1)]
  by (auto simp: fc_wf_def fc_index_same[OF assms(2)] fc_same_def nth_list_update)

lemma fc_replace_contents:
  assumes "fc_wf c" "fc_same c c'" "fc_cache c' = (fc_cache c)[i := bs]" "i < fc_sets c"
  shows "a \<in> fc_contents c' \<longleftrightarrow>
    (if fc_index c a = i then \<exists>b\<in>set bs. fb_valid b \<and> fb_tag b = a else a \<in> fc_contents c)"
proof -
  have len: "length (fc_cache c) = fc_sets c" using assms(1) by (simp add: fc_wf_def)
  show ?thesis using assms(3,4) len
    by (auto simp: fc_contents_def fc_index_same[OF assms(2)])
qed

text \<open>Replacing one block.\<close>

lemma fc_put_wf:
  assumes "fc_wf c" "fc_same c c'" "fc_cache c' = fc_cache (fc_put c (fc_index c a) w b)" "w < fc_ways c"
    "fb_rrip b \<le> 3" "fb_valid b \<Longrightarrow> fc_index c (fb_tag b) = fc_index c a"
  shows "fc_wf c'"
proof (rule fc_replace_wf[OF assms(1,2), where i = "fc_index c a" and bs = "(fc_cache c ! fc_index c a)[w := b]"])
  note i = fc_index_less[OF assms(1), of a]
  note D = fc_wfD[OF assms(1) i]
  show "fc_cache c' = (fc_cache c)[fc_index c a := (fc_cache c ! fc_index c a)[w := b]]"
    using assms(3) by (simp add: fc_put_def)
  show "length ((fc_cache c ! fc_index c a)[w := b]) = fc_ways c" using D by simp
  show "\<And>x. x \<in> set ((fc_cache c ! fc_index c a)[w := b]) \<Longrightarrow> fb_rrip x \<le> 3"
    using D(2) assms(5) set_update_subset_insert by fastforce
  show "\<And>x. x \<in> set ((fc_cache c ! fc_index c a)[w := b]) \<Longrightarrow> fb_valid x \<Longrightarrow> fc_index c (fb_tag x) = fc_index c a"
    using D(3) assms(6) set_update_subset_insert by fastforce
qed (rule fc_index_less[OF assms(1)])

lemma valid_tag_iff:
  "(\<exists>x\<in>set xs. fb_valid x \<and> fb_tag x = a) \<longleftrightarrow> (True, a) \<in> set (map (\<lambda>x. (fb_valid x, fb_tag x)) xs)"
  by (induction xs) auto

text \<open>A block changed without its tag and valid bit leaves the contents alone.\<close>

lemma fc_touch_contents:
  assumes "fc_wf c" "fc_same c c'" "fc_cache c' = fc_cache (fc_put c i w b)" "i < fc_sets c" "w < fc_ways c"
    "fb_tag b = fb_tag (fc_cache c ! i ! w)" "fb_valid b = fb_valid (fc_cache c ! i ! w)"
  shows "fc_contents c' = fc_contents c"
proof -
  let ?f = "\<lambda>x. (fb_valid x, fb_tag x)"
  have "map ?f ((fc_cache c ! i)[w := b]) = map ?f (fc_cache c ! i)"
    using assms(5-7) fc_wfD(1)[OF assms(1,4)] by (intro map_update_same) simp_all
  then have "(\<exists>x\<in>set ((fc_cache c ! i)[w := b]). fb_valid x \<and> fb_tag x = a) \<longleftrightarrow>
      (\<exists>x\<in>set (fc_cache c ! i). fb_valid x \<and> fb_tag x = a)" for a
    unfolding valid_tag_iff by simp
  then show ?thesis
    using fc_replace_contents[OF assms(1,2) _ assms(4)] assms(3)
    by (auto simp: fc_put_def fc_contents_def set_eq_iff)
qed

section \<open>Lookup\<close>

lemma fc_ex_way:
  assumes "fc_wf c" "i < fc_sets c"
  shows "(\<exists>b\<in>set (fc_cache c ! i). Q b) \<longleftrightarrow> (\<exists>w<fc_ways c. Q (fc_cache c ! i ! w))"
  using fc_wfD(1)[OF assms] by (auto simp: in_set_conv_nth Bex_def)

lemma fc_find_hit:
  assumes "fc_find c i P < fc_ways c"
  shows "fb_valid (fc_cache c ! i ! fc_find c i P)" "P (fb_tag (fc_cache c ! i ! fc_find c i P))"
  using assms by (auto simp: fc_find_def split: option.splits dest: first_idx_SomeD)

lemma fc_find_less:
  assumes "fc_wf c" "i < fc_sets c"
  shows "fc_find c i P < fc_ways c \<longleftrightarrow> (\<exists>b\<in>set (fc_cache c ! i). fb_valid b \<and> P (fb_tag b))"
proof -
  have len: "length (fc_cache c ! i) = fc_ways c" by (rule fc_wfD(1)[OF assms])
  show ?thesis
  proof
    assume "fc_find c i P < fc_ways c"
    then show "\<exists>b\<in>set (fc_cache c ! i). fb_valid b \<and> P (fb_tag b)"
      using fc_find_hit[of c i P] len by (metis nth_mem)
  next
    assume "\<exists>b\<in>set (fc_cache c ! i). fb_valid b \<and> P (fb_tag b)"
    then obtain w where "w < fc_ways c" "fb_valid (fc_cache c ! i ! w) \<and> P (fb_tag (fc_cache c ! i ! w))"
      unfolding fc_ex_way[OF assms] by blast
    from first_idx_ex[OF this(1), where P = "\<lambda>way. fb_valid (fc_cache c ! i ! way) \<and> P (fb_tag (fc_cache c ! i ! way))", OF this(2)]
    show "fc_find c i P < fc_ways c"
      by (auto simp: fc_find_def dest: first_idx_SomeD)
  qed
qed

lemma fc_find_first:
  assumes "w < fc_ways c" "fb_valid (fc_cache c ! i ! w)" "P (fb_tag (fc_cache c ! i ! w))"
  shows "fc_find c i P \<le> w"
proof (rule ccontr)
  assume "\<not> fc_find c i P \<le> w"
  moreover obtain v where v: "first_idx (\<lambda>way. fb_valid (fc_cache c ! i ! way) \<and> P (fb_tag (fc_cache c ! i ! way))) (fc_ways c) = Some v"
    using first_idx_ex[OF assms(1), of "\<lambda>way. fb_valid (fc_cache c ! i ! way) \<and> P (fb_tag (fc_cache c ! i ! way))"] assms(2,3) by auto
  ultimately have "w < v" by (simp add: fc_find_def)
  from first_idx_SomeD(3)[OF v this] assms(2,3) show False by simp
qed

lemma fc_find_le: "fc_find c i P \<le> fc_ways c"
  by (auto simp: fc_find_def split: option.splits dest: first_idx_SomeD)

lemma fc_contents_iff: "a \<in> fc_contents c \<longleftrightarrow> (\<exists>b\<in>set (fc_cache c ! fc_index c a). fb_valid b \<and> fb_tag b = a)"
  by (simp add: fc_contents_def)

lemma fc_raise_rrip:
  assumes "fc_wf c" "fc_same c c'" "fc_cache c' = fc_cache (fc_put c (fc_index c a) w
      ((fc_cache c ! fc_index c a ! w)\<lparr>fb_rrip := 3\<rparr>))" "w < fc_ways c"
  shows "fc_wf c'" "fc_contents c' = fc_contents c"
proof -
  note i = fc_index_less[OF assms(1), of a]
  note D = fc_wfD[OF assms(1) i]
  have m: "fc_cache c ! fc_index c a ! w \<in> set (fc_cache c ! fc_index c a)"
    using assms(4) D(1) by simp
  show "fc_wf c'" by (rule fc_put_wf[OF assms]) (use D(3)[OF m] in simp_all)
  show "fc_contents c' = fc_contents c" by (rule fc_touch_contents[OF assms(1-3) i assms(4)]) simp_all
qed

lemma fc_Lookup_spec:
  assumes "fc_wf c"
  shows "\<exists>c' w. fc_Lookup c a upd = Inr (c', w) \<and> fc_wf c' \<and> fc_same c c' \<and> fc_contents c' = fc_contents c \<and>
    w \<le> fc_ways c \<and> (w < fc_ways c \<longleftrightarrow> a \<in> fc_contents c) \<and>
    (w < fc_ways c \<longrightarrow> fb_valid (fc_cache c' ! fc_index c a ! w) \<and> fb_tag (fc_cache c' ! fc_index c a ! w) = a)"
proof -
  note i = fc_index_less[OF assms, of a]
  define w where "w = fc_find c (fc_index c a) (\<lambda>tag. tag = a)"
  have w: "w \<le> fc_ways c" "w < fc_ways c \<longleftrightarrow> a \<in> fc_contents c"
    unfolding w_def by (rule fc_find_le) (simp add: fc_find_less[OF assms i] fc_contents_iff)
  have hit: "fb_valid (fc_cache c ! fc_index c a ! w)" "fb_tag (fc_cache c ! fc_index c a ! w) = a"
    if "w < fc_ways c"
    using fc_find_hit[of c "fc_index c a" "\<lambda>tag. tag = a"] that unfolding w_def by simp_all
  define c' where "c' = (if upd then if w < fc_ways c
      then fc_put (c\<lparr>fc_s_lookups := fc_s_lookups c + 1, fc_s_hits := fc_s_hits c + 1\<rparr>) (fc_index c a) w
             ((fc_cache c ! fc_index c a ! w)\<lparr>fb_rrip := 3\<rparr>)
      else c\<lparr>fc_s_lookups := fc_s_lookups c + 1\<rparr> else c)"
  have eq: "fc_Lookup c a upd = Inr (c', w)"
    by (simp add: fc_Lookup_def fc_set_ok[OF assms] c'_def w_def Let_def)
  have same: "fc_same c c'" by (simp add: c'_def fc_same_def fc_put_def)
  show ?thesis
  proof (cases "upd \<and> w < fc_ways c")
    case True
    have "fc_cache c' = fc_cache (fc_put c (fc_index c a) w ((fc_cache c ! fc_index c a ! w)\<lparr>fb_rrip := 3\<rparr>))"
      using True by (simp add: c'_def fc_put_def)
    from fc_raise_rrip[OF assms same this] have "fc_wf c'" "fc_contents c' = fc_contents c"
      using True by auto
    moreover have "fc_cache c' ! fc_index c a ! w = (fc_cache c ! fc_index c a ! w)\<lparr>fb_rrip := 3\<rparr>"
      using True i fc_wfD(1)[OF assms i] assms by (simp add: c'_def fc_put_def fc_wf_def)
    ultimately show ?thesis using eq same w hit True by simp
  next
    case False
    then have "fc_cache c' = fc_cache c" by (auto simp: c'_def)
    moreover from this have "fc_wf c'" "fc_contents c' = fc_contents c"
      using assms same by (auto simp: fc_wf_def fc_same_def fc_index_def fc_contents_def)
    ultimately show ?thesis using eq same w hit by auto
  qed
qed

lemma fc_PartialLookup_spec:
  assumes "fc_wf c"
  shows "\<exists>c' w. fc_PartialLookup c a = Inr (c', w) \<and> fc_wf c' \<and> fc_same c c' \<and> fc_contents c' = fc_contents c \<and>
    w \<le> fc_ways c \<and> (w < fc_ways c \<longleftrightarrow> (\<exists>b\<in>fc_contents c. fc_index c b = fc_index c a \<and>
      b div fc_partial_lookup_factor c = a div fc_partial_lookup_factor c))"
proof -
  note i = fc_index_less[OF assms, of a]
  let ?P = "\<lambda>tag. tag div fc_partial_lookup_factor c = a div fc_partial_lookup_factor c"
  define w where "w = fc_find c (fc_index c a) ?P"
  have "(\<exists>b\<in>set (fc_cache c ! fc_index c a). fb_valid b \<and> ?P (fb_tag b)) \<longleftrightarrow>
      (\<exists>b\<in>fc_contents c. fc_index c b = fc_index c a \<and> ?P b)"
  proof
    assume "\<exists>b\<in>set (fc_cache c ! fc_index c a). fb_valid b \<and> ?P (fb_tag b)"
    then obtain b where b: "b \<in> set (fc_cache c ! fc_index c a)" "fb_valid b" "?P (fb_tag b)" by blast
    have "fc_index c (fb_tag b) = fc_index c a" by (rule fc_wfD(3)[OF assms i b(1,2)])
    then show "\<exists>b\<in>fc_contents c. fc_index c b = fc_index c a \<and> ?P b"
      using b by (intro bexI[of _ "fb_tag b"]) (auto simp: fc_contents_iff)
  qed (auto simp: fc_contents_iff)
  then have w: "w \<le> fc_ways c" "w < fc_ways c \<longleftrightarrow> (\<exists>b\<in>fc_contents c. fc_index c b = fc_index c a \<and> ?P b)"
    unfolding w_def fc_find_less[OF assms i, where P = ?P] by (simp_all add: fc_find_le)
  define c' where "c' = (if w < fc_ways c
      then fc_put c (fc_index c a) w ((fc_cache c ! fc_index c a ! w)\<lparr>fb_rrip := 3\<rparr>) else c)"
  have eq: "fc_PartialLookup c a = Inr (c', w)"
    using assms by (simp add: fc_PartialLookup_def fc_set_ok c'_def w_def Let_def fc_wf_def)
  have same: "fc_same c c'" by (simp add: c'_def fc_same_def fc_put_def)
  have "fc_wf c' \<and> fc_contents c' = fc_contents c"
  proof (cases "w < fc_ways c")
    case True
    then show ?thesis using fc_raise_rrip[OF assms same _ True] by (simp add: c'_def)
  qed (simp add: c'_def assms)
  then show ?thesis using eq same w by blast
qed

section \<open>Fill and invalidate\<close>

definition fc_free :: "func_cache \<Rightarrow> nat \<Rightarrow> nat \<Rightarrow> bool" where
  "fc_free c a w \<longleftrightarrow> w < fc_ways c \<and> \<not> fb_valid (fc_cache c ! fc_index c a ! w)"

lemma fc_Fill_spec:
  assumes "fc_wf c" "fc_free c a w"
  shows "\<exists>c'. fc_Fill c a w = Inr c' \<and> fc_wf c' \<and> fc_same c c' \<and>
    fc_contents c' = insert a (fc_contents c) \<and>
    fb_valid (fc_cache c' ! fc_index c a ! w) \<and> fb_tag (fc_cache c' ! fc_index c a ! w) = a \<and>
    (\<forall>v. v \<noteq> w \<longrightarrow> fc_cache c' ! fc_index c a ! v = fc_cache c ! fc_index c a ! v)"
proof -
  note i = fc_index_less[OF assms(1), of a]
  note len = fc_wfD(1)[OF assms(1) i]
  have w: "w < fc_ways c" "\<not> fb_valid (fc_cache c ! fc_index c a ! w)" using assms(2) by (simp_all add: fc_free_def)
  define b where "b = \<lparr>fb_tag = a, fb_valid = True, fb_dirty = False, fb_onlyOneRowRemapped = True, fb_rrip = 1\<rparr>"
  define c' where "c' = (fc_put c (fc_index c a) w b)\<lparr>fc_s_fills := fc_s_fills c + 1\<rparr>"
  have eq: "fc_Fill c a w = Inr c'"
    using w by (simp add: fc_Fill_def fc_at_ok[OF assms(1)] c'_def b_def)
  have same: "fc_same c c'" by (simp add: c'_def fc_same_def fc_put_def)
  have ch: "fc_cache c' = fc_cache (fc_put c (fc_index c a) w b)" by (simp add: c'_def)
  have wf: "fc_wf c'" by (rule fc_put_wf[OF assms(1) same ch w(1)]) (simp_all add: b_def)
  have new: "fc_cache c' ! fc_index c a ! w = b"
    using i len w assms(1) by (simp add: ch fc_put_def fc_wf_def)
  have "x \<in> fc_contents c' \<longleftrightarrow> x \<in> insert a (fc_contents c)" for x
  proof -
    have "x \<in> fc_contents c' \<longleftrightarrow> (if fc_index c x = fc_index c a
        then \<exists>y\<in>set ((fc_cache c ! fc_index c a)[w := b]). fb_valid y \<and> fb_tag y = x else x \<in> fc_contents c)"
      by (rule fc_replace_contents[OF assms(1) same _ i]) (simp add: ch fc_put_def)
    moreover have "(\<exists>y\<in>set ((fc_cache c ! fc_index c a)[w := b]). fb_valid y \<and> fb_tag y = x) \<longleftrightarrow>
        x = a \<or> (\<exists>y\<in>set (fc_cache c ! fc_index c a). fb_valid y \<and> fb_tag y = x)"
      using ex_update_dead[of w "fc_cache c ! fc_index c a" "\<lambda>y. fb_valid y \<and> fb_tag y = x" b] w len
      by (auto simp: b_def)
    ultimately show ?thesis by (auto simp: fc_contents_iff)
  qed
  moreover have "\<forall>v. v \<noteq> w \<longrightarrow> fc_cache c' ! fc_index c a ! v = fc_cache c ! fc_index c a ! v"
    using i assms(1) by (simp add: ch fc_put_def fc_wf_def)
  ultimately show ?thesis using eq wf same new by (auto simp: b_def)
qed

text \<open>With distinct tags in a set, invalidating a block removes exactly its address.\<close>

lemma fc_Invalidate_spec:
  assumes "fc_wf c" "w < fc_ways c"
  shows "\<exists>c'. fc_Invalidate c a w = Inr c' \<and> fc_wf c' \<and> fc_same c c' \<and> fc_free c' a w \<and>
    fc_contents c' \<subseteq> fc_contents c \<and>
    fc_contents c - (if fb_valid (fc_cache c ! fc_index c a ! w)
       then {fb_tag (fc_cache c ! fc_index c a ! w)} else {}) \<subseteq> fc_contents c'"
proof (cases "fb_valid (fc_cache c ! fc_index c a ! w)")
  case False
  then show ?thesis using assms by (simp add: fc_Invalidate_def fc_at_ok fc_free_def)
next
  case True
  note i = fc_index_less[OF assms(1), of a]
  note len = fc_wfD(1)[OF assms(1) i]
  define c' where "c' = (fc_put c (fc_index c a) w fc_block0)\<lparr>fc_s_invalidations := fc_s_invalidations c + 1\<rparr>"
  have eq: "fc_Invalidate c a w = Inr c'"
    using True assms(2) by (simp add: fc_Invalidate_def fc_at_ok[OF assms(1)] c'_def)
  have same: "fc_same c c'" by (simp add: c'_def fc_same_def fc_put_def)
  have ch: "fc_cache c' = fc_cache (fc_put c (fc_index c a) w fc_block0)" by (simp add: c'_def)
  have wf: "fc_wf c'" by (rule fc_put_wf[OF assms(1) same ch assms(2)]) (simp_all add: fc_block0_def)
  have "fc_cache c' ! fc_index c a ! w = fc_block0"
    using i len assms by (simp add: ch fc_put_def fc_wf_def)
  then have free: "fc_free c' a w"
    using assms(2) same by (simp add: fc_free_def fc_index_same[OF same] fc_same_def fc_block0_def)
  have mem: "x \<in> fc_contents c' \<longleftrightarrow> (if fc_index c x = fc_index c a
      then \<exists>y\<in>set ((fc_cache c ! fc_index c a)[w := fc_block0]). fb_valid y \<and> fb_tag y = x
      else x \<in> fc_contents c)" for x
    by (rule fc_replace_contents[OF assms(1) same _ i]) (simp add: ch fc_put_def)
  have sub: "fc_contents c' \<subseteq> fc_contents c"
  proof
    fix x assume "x \<in> fc_contents c'"
    then show "x \<in> fc_contents c"
      using set_update_subset_insert[of "fc_cache c ! fc_index c a" w fc_block0]
      unfolding mem by (auto simp: fc_contents_iff fc_block0_def split: if_splits)
  qed
  have "x \<in> fc_contents c'" if x: "x \<in> fc_contents c" "x \<noteq> fb_tag (fc_cache c ! fc_index c a ! w)" for x
  proof (cases "fc_index c x = fc_index c a")
    case True
    then obtain j where j: "j < fc_ways c" "fb_valid (fc_cache c ! fc_index c a ! j)"
      "fb_tag (fc_cache c ! fc_index c a ! j) = x"
      using x(1) unfolding fc_contents_iff True fc_ex_way[OF assms(1) i] by blast
    then have "(fc_cache c ! fc_index c a)[w := fc_block0] ! j = fc_cache c ! fc_index c a ! j"
      using x(2) by (metis nth_list_update_neq)
    then have "\<exists>y\<in>set ((fc_cache c ! fc_index c a)[w := fc_block0]). fb_valid y \<and> fb_tag y = x"
      using j len by (metis length_list_update nth_mem)
    then show ?thesis using True mem by simp
  qed (use x mem in simp)
  then show ?thesis using eq wf same free sub True by auto
qed

section \<open>Victims\<close>

text \<open>Some counter below the number of rounds is enough for the aging loop to find a victim: the
  first block with the smallest counter, which is taken off every counter.\<close>

lemma fc_age_spec:
  assumes "length bs = ways" "\<exists>b\<in>set bs. fb_rrip b < n"
  shows "\<exists>m v. fc_age ways n bs = (map (\<lambda>b. b\<lparr>fb_rrip := fb_rrip b - m\<rparr>) bs, v) \<and>
    v < ways \<and> fb_rrip (bs ! v) = m \<and> (\<forall>b\<in>set bs. m \<le> fb_rrip b)"
  using assms
proof (induction n arbitrary: bs)
  case 0
  then show ?case by simp
next
  case (Suc n)
  show ?case
  proof (cases "first_idx (\<lambda>way. fb_rrip (bs ! way) = 0) ways")
    case (Some v)
    have id: "map (\<lambda>b. b\<lparr>fb_rrip := fb_rrip b - 0\<rparr>) bs = bs" by (simp add: map_idI)
    show ?thesis
      by (intro exI[of _ 0] exI[of _ v]) (use Some id first_idx_SomeD(1,2)[OF Some] in simp)
  next
    case None
    then have pos: "0 < fb_rrip b" if "b \<in> set bs" for b
      using that Suc.prems(1) by (auto simp: first_idx_None in_set_conv_nth)
    define bs1 where "bs1 = map (\<lambda>b. b\<lparr>fb_rrip := fb_rrip b - 1\<rparr>) bs"
    have b1: "map (\<lambda>b. b\<lparr>fb_rrip := dec32 (fb_rrip b)\<rparr>) (take ways bs) @ drop ways bs = bs1"
      unfolding bs1_def using Suc.prems(1) pos by (simp add: dec32_pos)
    have "\<exists>b\<in>set bs1. fb_rrip b < n" using Suc.prems(2) pos by (force simp: bs1_def)
    then obtain m v where mv: "fc_age ways n bs1 = (map (\<lambda>b. b\<lparr>fb_rrip := fb_rrip b - m\<rparr>) bs1, v)"
      "v < ways" "fb_rrip (bs1 ! v) = m" "\<forall>b\<in>set bs1. m \<le> fb_rrip b"
      using Suc.IH[of bs1] Suc.prems(1) by (auto simp: bs1_def)
    have "map (\<lambda>b. b\<lparr>fb_rrip := fb_rrip b - m\<rparr>) bs1 = map (\<lambda>b. b\<lparr>fb_rrip := fb_rrip b - Suc m\<rparr>) bs"
      by (simp add: bs1_def)
    moreover have "fb_rrip (bs ! v) = Suc m"
      using mv(2,3) pos[of "bs ! v"] Suc.prems(1) by (simp add: bs1_def)
    moreover have "\<forall>b\<in>set bs. Suc m \<le> fb_rrip b" using mv(4) pos by (force simp: bs1_def)
    ultimately show ?thesis using None b1 mv by (intro exI[of _ "Suc m"] exI[of _ v]) simp
  qed
qed

lemma fc_Find_Victim_spec:
  assumes "fc_wf c"
  shows "\<exists>c' w. fc_Find_Victim c a = Inr (c', w) \<and> fc_wf c' \<and> fc_same c c' \<and>
    fc_contents c' = fc_contents c \<and> w < fc_ways c \<and>
    ((\<exists>v<fc_ways c. \<not> fb_valid (fc_cache c ! fc_index c a ! v)) \<longrightarrow> fc_free c a w \<and> c' = c) \<and>
    ((\<forall>v<fc_ways c. fb_valid (fc_cache c ! fc_index c a ! v)) \<longrightarrow>
       (\<forall>v<fc_ways c. fb_rrip (fc_cache c ! fc_index c a ! w) \<le> fb_rrip (fc_cache c ! fc_index c a ! v)))"
proof (cases "first_idx (\<lambda>way. \<not> fb_valid (fc_cache c ! fc_index c a ! way)) (fc_ways c)")
  case (Some w)
  then have "w < fc_ways c" "\<not> fb_valid (fc_cache c ! fc_index c a ! w)" by (auto dest: first_idx_SomeD)
  then show ?thesis using Some assms by (auto simp: fc_Find_Victim_def fc_set_ok fc_free_def)
next
  case None
  note i = fc_index_less[OF assms, of a]
  note D = fc_wfD[OF assms i]
  have all: "\<forall>v<fc_ways c. fb_valid (fc_cache c ! fc_index c a ! v)" using None by (simp add: first_idx_None)
  let ?bs = "fc_cache c ! fc_index c a"
  have "?bs ! 0 \<in> set ?bs" using D(1) assms by (simp add: fc_wf_def)
  then have "\<exists>b\<in>set ?bs. fb_rrip b < 4" using D(2)[of "?bs ! 0"] by (auto intro!: bexI[of _ "?bs ! 0"])
  from fc_age_spec[OF D(1) this] obtain m w where mw:
    "fc_age (fc_ways c) 4 ?bs = (map (\<lambda>b. b\<lparr>fb_rrip := fb_rrip b - m\<rparr>) ?bs, w)"
    "w < fc_ways c" "fb_rrip (?bs ! w) = m" "\<forall>b\<in>set ?bs. m \<le> fb_rrip b" by blast
  define bs where "bs = map (\<lambda>b. b\<lparr>fb_rrip := fb_rrip b - m\<rparr>) ?bs"
  define c' where "c' = c\<lparr>fc_s_evictions := fc_s_evictions c + 1, fc_cache := (fc_cache c)[fc_index c a := bs]\<rparr>"
  have eq: "fc_Find_Victim c a = Inr (c', w)"
    using None mw(1,2) by (simp add: fc_Find_Victim_def fc_set_ok[OF assms] c'_def bs_def Let_def)
  have same: "fc_same c c'" by (simp add: c'_def fc_same_def)
  have ch: "fc_cache c' = (fc_cache c)[fc_index c a := bs]" by (simp add: c'_def)
  have r3: "fb_rrip b \<le> 3" if h: "b \<in> set bs" for b
  proof -
    obtain x where "x \<in> set ?bs" "b = x\<lparr>fb_rrip := fb_rrip x - m\<rparr>" using h unfolding bs_def set_map image_iff by blast
    then show ?thesis using D(2)[of x] by simp
  qed
  have wf: "fc_wf c'"
    by (rule fc_replace_wf[OF assms same ch i]) (use D r3 in \<open>auto simp: bs_def\<close>)
  have "(\<exists>b\<in>set bs. fb_valid b \<and> fb_tag b = x) \<longleftrightarrow> (\<exists>b\<in>set ?bs. fb_valid b \<and> fb_tag b = x)" for x
    by (auto simp: bs_def)
  then have "fc_contents c' = fc_contents c"
    using fc_replace_contents[OF assms same ch i] by (auto simp: fc_contents_iff set_eq_iff)
  moreover have "\<forall>v<fc_ways c. fb_rrip (?bs ! w) \<le> fb_rrip (?bs ! v)"
    using mw(3,4) D(1) by simp
  moreover have "\<not> (\<exists>v<fc_ways c. \<not> fb_valid (?bs ! v))" using all by simp
  ultimately show ?thesis using eq wf same mw(2) by blast
qed

lemma fc_new_wf: "0 < sets \<Longrightarrow> 0 < ways \<Longrightarrow> 0 < factor \<Longrightarrow> fc_wf (fc_new sets ways factor)"
  by (auto simp: fc_wf_def fc_new_def fc_block0_def)

lemma fc_ways_new: "fc_ways (fc_new sets ways factor) = ways"
  by (simp add: fc_new_def)

lemma fc_new_contents: "0 < sets \<Longrightarrow> fc_contents (fc_new sets ways factor) = {}"
  by (auto simp: fc_contents_def fc_new_def fc_index_def fc_block0_def)

section \<open>The bits of a block\<close>

lemma fc_SetDirtyBit_spec:
  assumes "fc_wf c" "w < fc_ways c" "fb_valid (fc_cache c ! fc_index c a ! w)"
  shows "\<exists>c'. fc_SetDirtyBit c a w = Inr c' \<and> fc_wf c' \<and> fc_same c c' \<and> fc_contents c' = fc_contents c \<and>
    fc_QueryDirtyBit c' a w = Inr True"
proof -
  note i = fc_index_less[OF assms(1), of a]
  note D = fc_wfD[OF assms(1) i]
  let ?b = "fc_cache c ! fc_index c a ! w"
  have m: "?b \<in> set (fc_cache c ! fc_index c a)" using assms(2) D(1) by simp
  define c' where "c' = fc_put c (fc_index c a) w (?b\<lparr>fb_dirty := True\<rparr>)"
  have eq: "fc_SetDirtyBit c a w = Inr c'"
    using assms by (simp add: fc_SetDirtyBit_def fc_at_ok[OF assms(1)] c'_def)
  have same: "fc_same c c'" by (simp add: c'_def fc_same_def fc_put_def)
  have ch: "fc_cache c' = fc_cache (fc_put c (fc_index c a) w (?b\<lparr>fb_dirty := True\<rparr>))" by (simp add: c'_def)
  have wf: "fc_wf c'" by (rule fc_put_wf[OF assms(1) same ch assms(2)]) (use D(2,3)[OF m] in simp_all)
  have "fc_contents c' = fc_contents c" by (rule fc_touch_contents[OF assms(1) same ch i assms(2)]) simp_all
  moreover have "fc_cache c' ! fc_index c a ! w = ?b\<lparr>fb_dirty := True\<rparr>"
    using i D(1) assms by (simp add: ch fc_put_def fc_wf_def)
  then have "fc_QueryDirtyBit c' a w = Inr True"
    using fc_at_ok[OF wf, of w a] assms(2,3) same
    by (simp add: fc_QueryDirtyBit_def fc_index_same[OF same] fc_same_def)
  ultimately show ?thesis using eq wf same by blast
qed

lemma fc_queries:
  assumes "fc_wf c" "w < fc_ways c"
  shows "fc_Is_Block_Valid c a w = Inr (fb_valid (fc_cache c ! fc_index c a ! w))"
    "fb_valid (fc_cache c ! fc_index c a ! w) \<Longrightarrow>
      fc_QueryDirtyBit c a w = Inr (fb_dirty (fc_cache c ! fc_index c a ! w))"
    "fb_valid (fc_cache c ! fc_index c a ! w) \<Longrightarrow>
      fc_Get_Block_Addr c a w = Inr (fb_tag (fc_cache c ! fc_index c a ! w))"
  using assms by (simp_all add: fc_Is_Block_Valid_def fc_QueryDirtyBit_def fc_Get_Block_Addr_def fc_at_ok)

section \<open>Properties\<close>

text \<open>\<open>Find_Victim\<close> never fails its assertion: the four aging rounds are enough, because no
  re-reference counter exceeds 3.  It answers an invalid way whenever the set has one (and then
  changes nothing), otherwise a way with the smallest counter, and it drops no cached address.\<close>

theorem find_victim_always_succeeds:
  assumes "fc_wf c"
  shows "\<exists>c' w. fc_Find_Victim c a = Inr (c', w) \<and> w < fc_ways c \<and> fc_wf c' \<and> fc_contents c' = fc_contents c \<and>
    ((\<exists>v<fc_ways c. \<not> fb_valid (fc_cache c ! fc_index c a ! v)) \<longrightarrow>
       \<not> fb_valid (fc_cache c ! fc_index c a ! w) \<and> c' = c) \<and>
    ((\<forall>v<fc_ways c. fb_valid (fc_cache c ! fc_index c a ! v)) \<longrightarrow>
       (\<forall>v<fc_ways c. fb_rrip (fc_cache c ! fc_index c a ! w) \<le> fb_rrip (fc_cache c ! fc_index c a ! v)))"
  using fc_Find_Victim_spec[OF assms, of a] by (auto simp: fc_free_def)

theorem find_victim_always_succeeds_witness:
  "\<exists>c' w. fc_Find_Victim (fc_new 2 4 16) 77 = Inr (c', w) \<and> w < 4 \<and> fc_contents c' = {}"
  using find_victim_always_succeeds[OF fc_new_wf[of 2 4 16], of 77] by (auto simp: fc_new_contents) (auto simp: fc_new_def)

text \<open>C22: Inserting an address (victim, invalidate, fill) and looking it up: no assertion fails, the way the
  victim had holds the address, and the lookup hits: in that way when the address was not cached before, and
  otherwise in that way or an earlier one that holds the address too; the only other address that can leave the cache is the one the
  victim's block held.\<close>

theorem cache_insert_then_hit:
  assumes "fc_wf c"
  shows "\<exists>c1 w c2 c3 c4 w'. fc_Find_Victim c a = Inr (c1, w) \<and> fc_Invalidate c1 a w = Inr c2 \<and>
    fc_Fill c2 a w = Inr c3 \<and> fc_Lookup c3 a upd = Inr (c4, w') \<and> fc_Get_Block_Addr c3 a w = Inr a \<and>
    w < fc_ways c \<and> w' \<le> w \<and> (a \<notin> fc_contents c \<longrightarrow> w' = w) \<and> fc_Get_Block_Addr c4 a w' = Inr a \<and> fc_wf c4 \<and>
    fc_contents c - (if fb_valid (fc_cache c1 ! fc_index c a ! w) then {fb_tag (fc_cache c1 ! fc_index c a ! w)} else {})
      \<subseteq> fc_contents c4 \<and>
    a \<in> fc_contents c4 \<and> fc_contents c4 \<subseteq> insert a (fc_contents c)"
proof -
  obtain c1 w where c1: "fc_Find_Victim c a = Inr (c1, w)" "fc_wf c1" "fc_same c c1" "fc_contents c1 = fc_contents c" "w < fc_ways c"
    using fc_Find_Victim_spec[OF assms, of a] by blast
  have w1: "w < fc_ways c1" using c1(3,5) by (simp add: fc_same_def)
  obtain c2 where c2: "fc_Invalidate c1 a w = Inr c2" "fc_wf c2" "fc_same c1 c2" "fc_free c2 a w"
    "fc_contents c2 \<subseteq> fc_contents c1"
    "fc_contents c1 - (if fb_valid (fc_cache c1 ! fc_index c a ! w) then {fb_tag (fc_cache c1 ! fc_index c a ! w)} else {}) \<subseteq> fc_contents c2"
    using fc_Invalidate_spec[OF c1(2) w1, of a] unfolding fc_index_same[OF c1(3)] by blast
  obtain c3 where c3: "fc_Fill c2 a w = Inr c3" "fc_wf c3" "fc_same c2 c3" "fc_contents c3 = insert a (fc_contents c2)"
    "fb_valid (fc_cache c3 ! fc_index c2 a ! w)" "fb_tag (fc_cache c3 ! fc_index c2 a ! w) = a"
    "\<forall>v. v \<noteq> w \<longrightarrow> fc_cache c3 ! fc_index c2 a ! v = fc_cache c2 ! fc_index c2 a ! v"
    using fc_Fill_spec[OF c2(2,4)] by blast
  obtain c4 w' where c4: "fc_Lookup c3 a upd = Inr (c4, w')" "fc_wf c4" "fc_same c3 c4" "fc_contents c4 = fc_contents c3"
    "w' < fc_ways c3 \<longleftrightarrow> a \<in> fc_contents c3"
    "w' < fc_ways c3 \<Longrightarrow> fb_valid (fc_cache c4 ! fc_index c3 a ! w') \<and> fb_tag (fc_cache c4 ! fc_index c3 a ! w') = a"
    using fc_Lookup_spec[OF c3(2), of a upd] by blast
  have ways: "fc_ways c3 = fc_ways c" using c3(3) c2(3) c1(3) by (simp add: fc_same_def)
  have w': "w' < fc_ways c3" using c4(5) c3(4) by simp
  have find: "w' = fc_find c3 (fc_index c3 a) (\<lambda>tag. tag = a)"
    using c4(1) by (auto simp: fc_Lookup_def fc_set_ok[OF c3(2)] Let_def split: if_splits)
  have i3: "fc_index c3 a = fc_index c2 a" by (rule fc_index_same[OF c3(3)])
  note find = find[unfolded i3]
  have hit: "fb_valid (fc_cache c3 ! fc_index c2 a ! w')" "fb_tag (fc_cache c3 ! fc_index c2 a ! w') = a"
    using fc_find_hit[of c3 "fc_index c2 a" "\<lambda>tag. tag = a"] w' unfolding find[symmetric] by blast+
  have "w' \<le> w"
    using fc_find_first[of w c3 "fc_index c2 a" "\<lambda>tag. tag = a"] c1(5) ways c3(5,6) unfolding find[symmetric] by simp
  moreover have "w' = w" if "a \<notin> fc_contents c"
  proof (rule ccontr)
    assume "w' \<noteq> w"
    then have b: "fb_valid (fc_cache c2 ! fc_index c2 a ! w')" "fb_tag (fc_cache c2 ! fc_index c2 a ! w') = a"
      using hit c3(7) by simp_all
    have "w' < fc_ways c2" using w' c3(3) by (simp add: fc_same_def)
    then have "a \<in> fc_contents c2"
      unfolding fc_contents_iff fc_ex_way[OF c2(2) fc_index_less[OF c2(2)]] using b by blast
    then show False using that c2(5) c1(4) by blast
  qed
  moreover have "fc_Get_Block_Addr c3 a w = Inr a" "fc_Get_Block_Addr c4 a w' = Inr a"
    using fc_queries(3)[OF c3(2), of w a] fc_queries(3)[OF c4(2), of w' a] c3(5,6) c4(3) c4(6)[OF w'] c1(5) ways w'
    by (simp_all add: i3 fc_index_same[OF c4(3)] fc_same_def)
  ultimately show ?thesis
    using c1(1,4,5) c2(1,5,6) c3(1,4) c4(1,2,4) by (intro exI conjI) (assumption | blast)+
qed

theorem cache_insert_then_hit_witness:
  "\<exists>c1 w c2 c3 c4. fc_Find_Victim (fc_new 2 4 16) 77 = Inr (c1, w) \<and> fc_Invalidate c1 77 w = Inr c2 \<and>
    fc_Fill c2 77 w = Inr c3 \<and> fc_Lookup c3 77 True = Inr (c4, w) \<and> w < 4 \<and> fc_contents c4 = {77}"
proof -
  have wf: "fc_wf (fc_new 2 4 16)" by (rule fc_new_wf) simp_all
  have e: "fc_contents (fc_new 2 4 16) = {}" by (rule fc_new_contents) simp
  show ?thesis using cache_insert_then_hit[OF wf, of 77 True] unfolding fc_ways_new e by blast
qed

end
