(* ===== verification/Row_Quarantine.thy ===== *)
theory Row_Quarantine
  imports Defense_Base Remap_Interface Bloom_Filter Func_Cache
begin

text \<open>
  \<open>Row_Quarantine\<close> of \<open>mem/rowhammer_mitigation.cc\<close>: one global quarantine region of
  \<open>numQREntries\<close> slots, the two indirection tables (row to slot, slot to row), the filter or
  the group counters asked first, the cache of indirection entries, and the delays each path
  costs.  \<open>numRows\<close> is the number of all DRAM rows; channel, rank and bank of the tables are
  always 0, so there is one pair of tables and \<open>generateCBFID\<close> is the row itself.
\<close>

section \<open>State\<close>

record rq_entry =
  qe_valid :: bool
  qe_value :: nat

record 'd rq =
  rq_numRows :: nat
  rq_last_reset :: tick
  rq_threshold :: nat
  rq_detector :: 'd
  rq_decision :: decision
  rq_filter :: "cbf option"
  rq_bitvector :: btv
  rq_ORR_CBF :: "nat \<Rightarrow> nat"
  rq_numAccessesToRow :: "nat \<Rightarrow> nat"
  rq_cache :: "func_cache option"
  rq_moveDelay :: tick
  rq_accDelay :: tick
  rq_virtualize_RIT :: bool
  rq_SRAM_RQT_accDelay :: tick
  rq_SRAM_Cache_accDelay :: tick
  rq_SRAM_CBF_accDelay :: tick
  rq_prev_drain_cache_miss_val :: nat
  rq_drain_cache_miss_threshold :: nat
  rq_randRowID :: "nat list"
  rq_numQREntries :: nat
  rq_row_To_QR_T :: "nat \<Rightarrow> rq_entry"
  rq_QR_To_Row_T :: "nat \<Rightarrow> rq_entry"
  rq_nextFreeQR_ID :: nat
  rq_prevQRHead_ID :: nat
  rq_QRTail_ID :: nat
  rq_s_num_resets :: nat
  rq_s_num_accesses :: nat
  rq_s_move_to_qr :: nat
  rq_s_move_within_qr :: nat
  rq_s_move_to_qr_remove :: nat
  rq_s_move_within_qr_remove :: nat
  rq_s_drain_qr :: nat
  rq_s_btv_true_positives :: nat
  rq_s_btv_false_positives :: nat
  rq_s_btv_true_negatives :: nat
  rq_s_cache_hit :: nat
  rq_s_cache_partial_hit_orr_set :: nat
  rq_s_cache_partial_hit_orr_unset :: nat
  rq_s_cache_miss :: nat
  rq_s_cache_miss_entry_inserts :: nat
  rq_s_cache_miss_line_entry_inserts :: nat
  rq_s_cache_clean_evicts :: nat
  rq_s_cache_dirty_evicts :: nat
  rq_s_btv_residency :: "nat list"
  rq_s_numLogRowAccesses :: "nat list"
  rq_s_numRowAccesses_RH :: nat
  rq_s_QR_CumulativeOccupancy :: nat

section \<open>Construction\<close>

text \<open>The shuffle of the row numbers: every index is swapped with a random one.\<close>

definition rq_swap :: "nat list \<Rightarrow> nat \<Rightarrow> nat \<Rightarrow> nat list" where
  "rq_swap xs ii jj = (xs[ii := xs ! jj])[jj := xs ! ii]"

definition rq_shuffle :: "(nat \<Rightarrow> nat) \<Rightarrow> nat \<Rightarrow> nat list" where
  "rq_shuffle rnd n = foldl (\<lambda>xs ii. rq_swap xs ii (rnd ii mod n)) [0..<n] [0..<n]"

text \<open>The constructor.  The delays, the filter, the cache, \<open>rows_per_btv_bit\<close> and the detector are
  set by the memory controller after it, and come from \<open>mem\<close> here.\<close>

definition rq_new :: "(nat \<Rightarrow> nat) \<Rightarrow> 'd rq \<Rightarrow> nat \<Rightarrow> nat \<Rightarrow> nat \<Rightarrow> nat \<Rightarrow> nat \<Rightarrow> nat \<Rightarrow> 'd rq" where
  "rq_new rnd mem numQREntries numRows threshold numBanks numRanks numChannels =
     (let n = u32 (numRows * numBanks * numRanks * numChannels);
          e = \<lparr>qe_valid = False, qe_value = 0\<rparr> in
      mem\<lparr> rq_numQREntries := numQREntries, rq_threshold := threshold, rq_numRows := n,
           rq_last_reset := 0,
           rq_row_To_QR_T := (\<lambda>_. e), rq_QR_To_Row_T := (\<lambda>_. e),
           rq_nextFreeQR_ID := 0, rq_prevQRHead_ID := 0, rq_QRTail_ID := 0,
           rq_randRowID := rq_shuffle rnd n,
           rq_bitvector := (rq_bitvector mem)\<lparr>btv_bits := replicate n 0\<rparr>,
           rq_numAccessesToRow := (\<lambda>_. 0), rq_ORR_CBF := (\<lambda>_. 0),
           rq_prev_drain_cache_miss_val := 0,
           rq_s_move_to_qr := 0, rq_s_move_within_qr := 0, rq_s_move_to_qr_remove := 0,
           rq_s_move_within_qr_remove := 0, rq_s_drain_qr := 0, rq_s_num_resets := 0,
           rq_s_num_accesses := 0, rq_s_btv_true_positives := 0, rq_s_btv_false_positives := 0,
           rq_s_btv_true_negatives := 0, rq_s_cache_hit := 0, rq_s_cache_partial_hit_orr_set := 0,
           rq_s_cache_partial_hit_orr_unset := 0, rq_s_cache_miss := 0,
           rq_s_QR_CumulativeOccupancy := 0, rq_s_numRowAccesses_RH := 0,
           rq_s_numLogRowAccesses := replicate 4 0, rq_s_btv_residency := replicate 4 0,
           rq_decision := resetDecision (rq_decision mem)\<rparr>)"

section \<open>Small steps\<close>

definition rq_delay :: "'d rq \<Rightarrow> tick \<Rightarrow> 'd rq" where
  "rq_delay q d = q\<lparr>rq_decision := (rq_decision q)\<lparr>d_delay := d_delay (rq_decision q) + d\<rparr>\<rparr>"

definition rq_sram_delay :: "'d rq \<Rightarrow> tick \<Rightarrow> 'd rq" where
  "rq_sram_delay q d = q\<lparr>rq_decision := (rq_decision q)\<lparr>d_SRAM_delay := d_SRAM_delay (rq_decision q) + d\<rparr>\<rparr>"

text \<open>\<open>if (virtualize_RIT) decision.delay += accDelay;\<close>\<close>

definition rq_virt_delay :: "'d rq \<Rightarrow> 'd rq" where
  "rq_virt_delay q = (if rq_virtualize_RIT q then rq_delay q (rq_accDelay q) else q)"

definition rq_generateCBFID :: "nat \<Rightarrow> nat" where
  "rq_generateCBFID rowID = u32 rowID"

definition rq_group :: "'d rq \<Rightarrow> nat \<Rightarrow> nat" where
  "rq_group q index = index div btv_rows_per_bit (rq_bitvector q)"

text \<open>\<open>(filter && filter->query(index)) || (bitvector && bitvector[index/rows_per_btv_bit])\<close>\<close>

definition rq_maybe :: "'d rq \<Rightarrow> nat \<Rightarrow> bool result" where
  "rq_maybe q index =
     rbind (case rq_filter q of None \<Rightarrow> Inr False | Some f \<Rightarrow> cbf_query f index)
       (\<lambda>a. if a then Inr True else btv_query (rq_bitvector q) index)"

text \<open>A row enters the quarantine: filter entry, or group counter and \<open>ORR_CBF\<close>.\<close>

definition rq_mark :: "'d rq \<Rightarrow> nat \<Rightarrow> 'd rq result" where
  "rq_mark q index =
     (case rq_filter q of
        Some f \<Rightarrow> rbind (cbf_add f index) (\<lambda>f'. Inr (q\<lparr>rq_filter := Some f'\<rparr>))
      | None \<Rightarrow> rbind (btv_add (rq_bitvector q) index) (\<lambda>v.
          Inr (q\<lparr>rq_bitvector := v,
                 rq_ORR_CBF := (rq_ORR_CBF q)(rq_group q index := inc32 (rq_ORR_CBF q (rq_group q index)))\<rparr>)))"

text \<open>A row leaves it, with the assertions.\<close>

definition rq_unmark :: "'d rq \<Rightarrow> nat \<Rightarrow> 'd rq result" where
  "rq_unmark q index =
     (case rq_filter q of
        Some f \<Rightarrow> rbind (cbf_query f index) (\<lambda>a.
          if a then rbind (cbf_del f index) (\<lambda>f'. Inr (q\<lparr>rq_filter := Some f'\<rparr>))
          else Inl AssertFail)
      | None \<Rightarrow> rbind (btv_del (rq_bitvector q) index) (\<lambda>v. Inr (q\<lparr>rq_bitvector := v\<rparr>)))"

section \<open>The cache of indirection entries\<close>

definition rq_count_evict :: "'d rq \<Rightarrow> bool \<Rightarrow> 'd rq" where
  "rq_count_evict q isDirty =
     (if isDirty then q\<lparr>rq_s_cache_dirty_evicts := rq_s_cache_dirty_evicts q + 1\<rparr>
      else q\<lparr>rq_s_cache_clean_evicts := rq_s_cache_clean_evicts q + 1\<rparr>)"

text \<open>Both answer the evicted row and whether its entry was dirty.\<close>

definition rq_removeRowFromCache :: "'d rq \<Rightarrow> func_cache \<Rightarrow> nat \<Rightarrow> ('d rq \<times> nat \<times> bool) result" where
  "rq_removeRowFromCache q cache index =
     rbind (fc_Lookup cache index False) (\<lambda>(c1, blk_way).
       if blk_way < fc_ways c1 then
         rbind (fc_QueryDirtyBit c1 index blk_way) (\<lambda>isDirty.
         rbind (fc_Get_Block_Addr c1 index blk_way) (\<lambda>evicted_rowID.
         rbind (fc_Invalidate c1 index blk_way) (\<lambda>c2.
           Inr (rq_count_evict (q\<lparr>rq_cache := Some c2\<rparr>) isDirty, evicted_rowID, isDirty))))
       else Inr (q\<lparr>rq_cache := Some c1\<rparr>, 0, False))"

definition rq_insertRowInCache :: "'d rq \<Rightarrow> func_cache \<Rightarrow> nat \<Rightarrow> bool \<Rightarrow> ('d rq \<times> nat \<times> bool) result" where
  "rq_insertRowInCache q cache index setDirty =
     rbind (fc_Find_Victim cache index) (\<lambda>(c1, blk_way).
     rbind (fc_Is_Block_Valid c1 index blk_way) (\<lambda>valid.
     rbind (if valid
            then rbind (fc_QueryDirtyBit c1 index blk_way) (\<lambda>isDirty.
                 rbind (fc_Get_Block_Addr c1 index blk_way) (\<lambda>evicted_rowID.
                   Inr (rq_count_evict q isDirty, evicted_rowID, isDirty)))
            else Inr (q, 0, False)) (\<lambda>(q1, evicted_rowID, isDirty).
     rbind (fc_Invalidate c1 index blk_way) (\<lambda>c2.
     rbind (fc_Fill c2 index blk_way) (\<lambda>c3.
     rbind (if setDirty then fc_SetDirtyBit c3 index blk_way else Inr c3) (\<lambda>c4.
       Inr (q1\<lparr>rq_cache := Some c4\<rparr>, evicted_rowID, isDirty)))))))"

section \<open>Looking a row up\<close>

text \<open>The delay of a read of the indirection table in DRAM or SRAM.\<close>

definition rq_table_delay :: "'d rq \<Rightarrow> 'd rq" where
  "rq_table_delay q = (if rq_virtualize_RIT q then rq_delay q (2 * rq_accDelay q)
                       else rq_sram_delay q (rq_SRAM_RQT_accDelay q))"

text \<open>The row whose entry a miss brings into the cache: the row itself, or the first remapped row
  of its group.  The scan of the group does not look at the size of the table.\<close>

definition rq_group_row :: "'d rq \<Rightarrow> nat \<Rightarrow> nat result" where
  "rq_group_row q rowID =
     (let per = btv_rows_per_bit (rq_bitvector q); base = rowID div per * per in
      case List.find (\<lambda>i. \<not> i < rq_numRows q \<or> qe_valid (rq_row_To_QR_T q i)) [base..<base + per] of
        Some i \<Rightarrow> if i < rq_numRows q then Inr i else Inl OutOfBounds
      | None \<Rightarrow> Inr (rq_numRows q))"

definition rq_cache_miss_fill :: "'d rq \<Rightarrow> func_cache \<Rightarrow> nat \<Rightarrow> 'd rq result" where
  "rq_cache_miss_fill q0 cache rowID =
     (let q = rq_table_delay q0;
          orr = rq_ORR_CBF q (rq_group q (rq_generateCBFID rowID)) in
      rbind (if qe_valid (rq_row_To_QR_T q rowID)
             then Inr (q\<lparr>rq_s_cache_miss_entry_inserts := rq_s_cache_miss_entry_inserts q + 1\<rparr>, rowID)
             else rbind (rq_group_row q rowID) (\<lambda>i.
               Inr (if orr = 1
                    then q\<lparr>rq_s_cache_miss_line_entry_inserts := rq_s_cache_miss_line_entry_inserts q + 1\<rparr>
                    else q, i))) (\<lambda>(q1, inserted_rowID).
        if inserted_rowID < rq_numRows q \<and> (inserted_rowID = rowID \<or> orr = 1)
         then rbind (rq_insertRowInCache q1 cache (rq_generateCBFID inserted_rowID) False)
                (\<lambda>(q2, evicted_rowID, isDirty).
                   Inr (if rq_virtualize_RIT q2 \<and> isDirty \<and> rowID div 32 \<noteq> evicted_rowID div 32
                        then rq_delay q2 (2 * rq_accDelay q2) else q2))
         else Inr q1))"

definition rq_cache_check :: "'d rq \<Rightarrow> func_cache \<Rightarrow> nat \<Rightarrow> 'd rq result" where
  "rq_cache_check q0 cache rowID =
     (let index = rq_generateCBFID rowID;
          q = rq_sram_delay q0 (rq_SRAM_Cache_accDelay q0) in
      rbind (fc_Lookup cache index True) (\<lambda>(c1, way).
        if way < fc_ways c1
        then Inr (q\<lparr>rq_cache := Some c1, rq_s_cache_hit := rq_s_cache_hit q + 1\<rparr>)
        else rbind (fc_PartialLookup c1 index) (\<lambda>(c2, way2).
          let q1 = q\<lparr>rq_cache := Some c2\<rparr> in
          if way2 < fc_ways c2 then
            if rq_ORR_CBF q1 (rq_group q1 index) = 1
            then Inr (q1\<lparr>rq_s_cache_partial_hit_orr_set := rq_s_cache_partial_hit_orr_set q1 + 1\<rparr>)
            else rq_cache_miss_fill
                   (q1\<lparr>rq_s_cache_partial_hit_orr_unset := rq_s_cache_partial_hit_orr_unset q1 + 1\<rparr>) c2 rowID
          else rq_cache_miss_fill (q1\<lparr>rq_s_cache_miss := rq_s_cache_miss q1 + 1\<rparr>) c2 rowID)))"

text \<open>The statistics of a positive and of a negative answer.\<close>

definition rq_count_positive :: "'d rq \<Rightarrow> nat \<Rightarrow> 'd rq" where
  "rq_count_positive q rowID =
     (case rq_filter q of
        Some f \<Rightarrow> q\<lparr>rq_filter := Some (if qe_valid (rq_row_To_QR_T q rowID)
           then f\<lparr>cbf_s_truePositives := cbf_s_truePositives f + 1\<rparr>
           else f\<lparr>cbf_s_falsePositives := cbf_s_falsePositives f + 1\<rparr>)\<rparr>
      | None \<Rightarrow> if qe_valid (rq_row_To_QR_T q rowID)
          then q\<lparr>rq_s_btv_true_positives := rq_s_btv_true_positives q + 1\<rparr>
          else q\<lparr>rq_s_btv_false_positives := rq_s_btv_false_positives q + 1\<rparr>)"

definition rq_count_negative :: "'d rq \<Rightarrow> 'd rq" where
  "rq_count_negative q =
     (case rq_filter q of
        Some f \<Rightarrow> q\<lparr>rq_filter := Some (f\<lparr>cbf_s_trueNegatives := cbf_s_trueNegatives f + 1\<rparr>)\<rparr>
      | None \<Rightarrow> q\<lparr>rq_s_btv_true_negatives := rq_s_btv_true_negatives q + 1\<rparr>)"

definition rq_addQCheckDelay :: "'d rq \<Rightarrow> nat \<Rightarrow> 'd rq result" where
  "rq_addQCheckDelay q0 rowID =
     (let index = rq_generateCBFID rowID;
          q = rq_sram_delay q0 (rq_SRAM_CBF_accDelay q0) in
      rbind (rq_maybe q index) (\<lambda>maybe.
        if maybe then
          rbind (case rq_cache q of Some c \<Rightarrow> rq_cache_check q c rowID | None \<Rightarrow> Inr (rq_table_delay q))
            (\<lambda>q1. Inr (rq_count_positive q1 rowID))
        else if qe_valid (rq_row_To_QR_T q rowID) then Inl AssertFail
        else Inr (rq_count_negative q)))"

section \<open>Moving rows\<close>

text \<open>\<open>removeRow\<close>: slot \<open>QRT_id\<close> gives up its row; the answer is whether the cached entry was
  dirty.\<close>

definition rq_removeRow :: "'d rq \<Rightarrow> nat \<Rightarrow> ('d rq \<times> bool) result" where
  "rq_removeRow q QRT_id =
     (let remove_rowID = qe_value (rq_QR_To_Row_T q QRT_id);
          index = rq_generateCBFID remove_rowID;
          q1 = q\<lparr>rq_QR_To_Row_T := (rq_QR_To_Row_T q)(QRT_id := (rq_QR_To_Row_T q QRT_id)\<lparr>qe_valid := False\<rparr>)\<rparr>
      in if \<not> qe_valid (rq_row_To_QR_T q1 remove_rowID) then Inl AssertFail
         else rbind (rq_unmark (q1\<lparr>rq_row_To_QR_T := (rq_row_To_QR_T q1)(remove_rowID :=
                       (rq_row_To_QR_T q1 remove_rowID)\<lparr>qe_valid := False\<rparr>)\<rparr>) index) (\<lambda>q2.
           case rq_cache q2 of
             None \<Rightarrow> Inr (q2, False)
           | Some c \<Rightarrow> rbind (rq_removeRowFromCache q2 c index) (\<lambda>(q3, evicted, isDirty).
               Inr (q3\<lparr>rq_ORR_CBF := (rq_ORR_CBF q3)(rq_group q3 index :=
                        dec32 (rq_ORR_CBF q3 (rq_group q3 index)))\<rparr>, isDirty))))"

definition rq_drainRow :: "'d rq \<Rightarrow> 'd rq result" where
  "rq_drainRow q0 =
     (let q = rq_virt_delay q0 in
      if rq_QRTail_ID q \<noteq> rq_prevQRHead_ID q \<and> qe_valid (rq_QR_To_Row_T q (rq_QRTail_ID q)) then
        rbind (rq_removeRow (q\<lparr>rq_s_drain_qr := rq_s_drain_qr q + 1\<rparr>) (rq_QRTail_ID q)) (\<lambda>(q1, isCacheDirty).
          let q2 = rq_delay q1 (rq_moveDelay q1);
              q3 = rq_virt_delay q2;
              q4 = (rq_virt_delay q3)
          in if rq_numQREntries q4 = 0 then Inl DivideByZero
             else Inr (q4\<lparr>rq_QRTail_ID := (rq_QRTail_ID q4 + 1) mod rq_numQREntries q4\<rparr>))
      else Inr q)"

text \<open>The cache part of \<open>quarantineRow\<close>: row \<open>A\<close> gets a dirty entry.\<close>

definition rq_cache_add :: "'d rq \<Rightarrow> nat \<Rightarrow> 'd rq result" where
  "rq_cache_add q rowID =
     (case rq_cache q of
        Some c \<Rightarrow>
          let index = rq_generateCBFID rowID in
          rbind (fc_Lookup c index False) (\<lambda>(c1, blk_way).
            if blk_way = fc_ways c1
            then rbind (rq_insertRowInCache q c1 index True) (\<lambda>(q1, evicted, isDirty).
                   Inr (if rq_virtualize_RIT q1 \<and> isDirty then rq_delay q1 (2 * rq_accDelay q1) else q1))
            else rbind (fc_SetDirtyBit c1 index blk_way) (\<lambda>c2. Inr (q\<lparr>rq_cache := Some c2\<rparr>)))
      | None \<Rightarrow> Inr (rq_virt_delay q))"

text \<open>The part that empties slot \<open>Qi\<close> if it holds a row \<open>B\<close>; the answer says whether it did.\<close>

definition rq_empty_slot :: "'d rq \<Rightarrow> nat \<Rightarrow> bool \<Rightarrow> ('d rq \<times> bool) result" where
  "rq_empty_slot q rowID origRowQuaranteed =
     (if qe_valid (rq_QR_To_Row_T q (rq_nextFreeQR_ID q)) then
        let remove_rowID = qe_value (rq_QR_To_Row_T q (rq_nextFreeQR_ID q)) in
        rbind (rq_removeRow q (rq_nextFreeQR_ID q)) (\<lambda>(q1, isCacheDirty).
          let q2 = rq_delay q1 (rq_moveDelay q1) in
          Inr (if rq_virtualize_RIT q2 \<and> origRowQuaranteed \<and> rowID div 32 \<noteq> remove_rowID div 32
               then rq_delay q2 (rq_accDelay q2) else q2, True))
      else Inr (q, False))"

text \<open>The old slot \<open>Qj\<close> of a row that moves within the quarantine is released.\<close>

definition rq_release_old :: "'d rq \<Rightarrow> nat option \<Rightarrow> 'd rq result" where
  "rq_release_old q orig =
     (case orig of
        None \<Rightarrow> Inr q
      | Some qj \<Rightarrow>
          let q1 = (if rq_virtualize_RIT q \<and> rq_nextFreeQR_ID q div 16 \<noteq> qj div 16
                    then rq_delay q (rq_accDelay q) else q)
          in if qe_valid (rq_QR_To_Row_T q1 qj)
             then Inr (q1\<lparr>rq_QR_To_Row_T := (rq_QR_To_Row_T q1)(qj := (rq_QR_To_Row_T q1 qj)\<lparr>qe_valid := False\<rparr>)\<rparr>)
             else Inl AssertFail)"

text \<open>Tail and head of the quarantine region advance.\<close>

definition rq_advance :: "'d rq \<Rightarrow> 'd rq result" where
  "rq_advance q =
     (if rq_numQREntries q = 0 then Inl DivideByZero
      else let q1 = (if rq_nextFreeQR_ID q = rq_QRTail_ID q \<and> rq_nextFreeQR_ID q \<noteq> rq_prevQRHead_ID q
                     then q\<lparr>rq_QRTail_ID := (rq_QRTail_ID q + 1) mod rq_numQREntries q\<rparr> else q)
        in Inr (q1\<lparr>rq_nextFreeQR_ID := (rq_nextFreeQR_ID q1 + 1) mod rq_numQREntries q1\<rparr>))"

definition rq_count_move :: "'d rq \<Rightarrow> bool \<Rightarrow> bool \<Rightarrow> 'd rq" where
  "rq_count_move q within removed =
     (if \<not> within \<and> \<not> removed then q\<lparr>rq_s_move_to_qr := rq_s_move_to_qr q + 1\<rparr>
      else if within \<and> \<not> removed then q\<lparr>rq_s_move_within_qr := rq_s_move_within_qr q + 1\<rparr>
      else if \<not> within \<and> removed then q\<lparr>rq_s_move_to_qr_remove := rq_s_move_to_qr_remove q + 1\<rparr>
      else q\<lparr>rq_s_move_within_qr_remove := rq_s_move_within_qr_remove q + 1\<rparr>)"

definition rq_quarantineRow :: "'d rq \<Rightarrow> nat \<Rightarrow> 'd rq result" where
  "rq_quarantineRow q rowID =
     (let orig = (if qe_valid (rq_row_To_QR_T q rowID) then Some (qe_value (rq_row_To_QR_T q rowID)) else None) in
      rbind (if orig = None then rq_mark q (rq_generateCBFID rowID) else Inr q) (\<lambda>q1.
      let q2 = q1\<lparr>rq_row_To_QR_T := (rq_row_To_QR_T q1)(rowID :=
                  \<lparr>qe_valid = True, qe_value = rq_nextFreeQR_ID q1\<rparr>)\<rparr> in
      rbind (rq_cache_add q2 rowID) (\<lambda>q3.
      let q4 = rq_virt_delay q3 in
      rbind (rq_empty_slot q4 rowID (orig \<noteq> None)) (\<lambda>(q5, removed).
      let q6 = rq_delay q5 (rq_moveDelay q5);
          q7 = rq_virt_delay q6;
          q8 = q7\<lparr>rq_QR_To_Row_T := (rq_QR_To_Row_T q7)(rq_nextFreeQR_ID q7 :=
                  \<lparr>qe_valid = True, qe_value = rowID\<rparr>)\<rparr> in
      rbind (rq_release_old q8 orig) (\<lambda>q9.
      rbind (rq_advance q9) (\<lambda>q10.
        Inr (rq_count_move q10 (orig \<noteq> None) removed)))))))"

section \<open>The reset of a refresh window\<close>

definition rq_residency :: "nat list \<Rightarrow> nat list \<Rightarrow> nat list" where
  "rq_residency res bits =
     foldl (\<lambda>r b. let k = (if 3 < b then 3 else b) in r[k := r ! k + 1]) res bits"

definition rq_reset :: "'d detector_ops \<Rightarrow> 'd rq \<Rightarrow> 'd rq result" where
  "rq_reset ops q =
     (if btv_rows_per_bit (rq_bitvector q) = 0 \<and> 0 < rq_numRows q then Inl DivideByZero
      else let st = row_stats_loop (rq_threshold q)
                 \<lparr>rs_RH = rq_s_numRowAccesses_RH q, rs_log = rq_s_numLogRowAccesses q,
                  rs_acc = rq_numAccessesToRow q\<rparr> (rq_numRows q)
      in Inr (q\<lparr> rq_detector := det_reset ops (rq_detector q),
            rq_s_num_resets := rq_s_num_resets q + 1,
            rq_s_QR_CumulativeOccupancy := rq_s_QR_CumulativeOccupancy q +
              length (filter (\<lambda>ll. qe_valid (rq_QR_To_Row_T q ll)) [0..<rq_numQREntries q]),
            rq_prevQRHead_ID := rq_nextFreeQR_ID q,
            rq_s_numRowAccesses_RH := rs_RH st, rq_s_numLogRowAccesses := rs_log st,
            rq_numAccessesToRow := rs_acc st,
            rq_s_btv_residency := rq_residency (rq_s_btv_residency q)
              (take (rq_numRows q div btv_rows_per_bit (rq_bitvector q)) (btv_bits (rq_bitvector q)))\<rparr>))"

section \<open>Access\<close>

record decoded_addr =
  da_rowID :: nat
  da_bankID :: nat
  da_rankID :: nat
  da_channelID :: nat

definition rq_decodeAddr :: "'d rq \<Rightarrow> nat \<Rightarrow> ('d rq \<times> decoded_addr) result" where
  "rq_decodeAddr q addr =
     (let rowAddr = u32 (addr div 8192) in
      if rowAddr < length (rq_randRowID q) then
        if rq_numRows q div 16 = 0 then Inl DivideByZero
        else let q1 = q\<lparr>rq_numAccessesToRow := (rq_numAccessesToRow q)(rowAddr := inc32 (rq_numAccessesToRow q rowAddr))\<rparr>;
                 r = rq_randRowID q ! rowAddr
          in Inr (q1, \<lparr>da_rowID = r div 16 mod (rq_numRows q div 16), da_bankID = r mod 16,
                       da_rankID = 0, da_channelID = 0\<rparr>)
      else Inl OutOfBounds)"

definition rq_access :: "'d detector_ops \<Rightarrow> 'd rq \<Rightarrow> tick \<Rightarrow> nat \<Rightarrow> 'd rq result" where
  "rq_access ops q currTick addr =
     (let q1 = q\<lparr>rq_s_num_accesses := rq_s_num_accesses q + 1, rq_decision := resetDecision (rq_decision q)\<rparr> in
      rbind (if REFRESH_WINDOW \<le> sub64 currTick (rq_last_reset q1)
             then rq_reset ops (q1\<lparr>rq_last_reset := currTick\<rparr>) else Inr q1) (\<lambda>q2.
      if \<not> addr div 8192 < length (rq_randRowID q2) then Inl OutOfBounds
      else let rowID = rq_randRowID q2 ! (addr div 8192) in
      rbind (rq_addQCheckDelay q2 rowID) (\<lambda>q3.
      rbind (rq_decodeAddr q3 addr) (\<lambda>(q4, mapping).
      rbind (det_access ops (rq_detector q4) (da_rowID mapping) (da_bankID mapping) 0 0 False) (\<lambda>(d, f).
      let q5 = q4\<lparr>rq_detector := d, rq_decision := (rq_decision q4)\<lparr>d_mitigate := f\<rparr>\<rparr>;
          misses = rq_s_cache_miss q5 + rq_s_cache_partial_hit_orr_unset q5 in
      if f then rq_quarantineRow q5 rowID
      else if rq_drain_cache_miss_threshold q5 \<le> sub64 misses (rq_prev_drain_cache_miss_val q5)
      then rq_drainRow (q5\<lparr>rq_prev_drain_cache_miss_val := misses\<rparr>)
      else Inr q5)))))"

section \<open>Invariant\<close>

text \<open>The two tables are inverse to each other; rows are below \<open>n\<close>, slots below \<open>Q\<close>.\<close>

definition rq_tables_wf :: "nat \<Rightarrow> nat \<Rightarrow> (nat \<Rightarrow> rq_entry) \<Rightarrow> (nat \<Rightarrow> rq_entry) \<Rightarrow> bool" where
  "rq_tables_wf n Q RT QT \<longleftrightarrow>
     (\<forall>r. qe_valid (RT r) \<longrightarrow> r < n \<and> qe_value (RT r) < Q \<and> qe_valid (QT (qe_value (RT r))) \<and>
        qe_value (QT (qe_value (RT r))) = r) \<and>
     (\<forall>s. qe_valid (QT s) \<longrightarrow> s < Q \<and> qe_valid (RT (qe_value (QT s))) \<and> qe_value (RT (qe_value (QT s))) = s)"

definition quarantined :: "(nat \<Rightarrow> rq_entry) \<Rightarrow> nat set" where
  "quarantined RT = {r. qe_valid (RT r)}"

text \<open>The filter, or the group counters, hold exactly the quarantined rows.\<close>

definition rq_marks :: "nat \<Rightarrow> nat \<Rightarrow> nat \<Rightarrow> cbf option \<times> btv \<Rightarrow> nat set \<Rightarrow> bool" where
  "rq_marks h lim n fb S \<longleftrightarrow> lim \<le> 4294967295 \<and>
     (case fst fb of
        None \<Rightarrow> \<exists>per. btv_inv per n (snd fb) (mset_set S) \<and> (\<forall>x<n. x div per < n)
      | Some f \<Rightarrow> cbf_inv h lim f (mset_set S) \<and>
          (\<exists>per. btv_inv per n (snd fb) {#} \<and> (\<forall>x<n. x div per < n)))"

definition rq_core :: "'d rq \<Rightarrow> (nat \<times> nat \<times> (nat \<Rightarrow> rq_entry) \<times> (nat \<Rightarrow> rq_entry)) \<times> (nat \<times> nat \<times> nat) \<times> nat list \<times> 'd" where
  "rq_core q = ((rq_numRows q, rq_numQREntries q, rq_row_To_QR_T q, rq_QR_To_Row_T q),
     (rq_nextFreeQR_ID q, rq_prevQRHead_ID q, rq_QRTail_ID q), rq_randRowID q, rq_detector q)"

definition rq_filters :: "'d rq \<Rightarrow> cbf option \<times> btv" where
  "rq_filters q = (rq_filter q, rq_bitvector q)"

definition rq_cache_wf :: "'d rq \<Rightarrow> bool" where
  "rq_cache_wf q \<longleftrightarrow> (case rq_cache q of None \<Rightarrow> True | Some c \<Rightarrow> fc_wf c)"

definition rq_wf :: "nat \<Rightarrow> nat \<Rightarrow> 'd rq \<Rightarrow> bool" where
  "rq_wf h lim q \<longleftrightarrow>
     rq_numRows q < 2 ^ 32 \<and> 0 < rq_numQREntries q \<and> rq_numQREntries q < lim \<and>
     rq_tables_wf (rq_numRows q) (rq_numQREntries q) (rq_row_To_QR_T q) (rq_QR_To_Row_T q) \<and>
     rq_nextFreeQR_ID q < rq_numQREntries q \<and> rq_prevQRHead_ID q < rq_numQREntries q \<and>
     rq_QRTail_ID q < rq_numQREntries q \<and>
     rq_marks h lim (rq_numRows q) (rq_filters q) (quarantined (rq_row_To_QR_T q)) \<and> rq_cache_wf q"

lemma rq_core_eq:
  assumes "rq_core q' = rq_core q"
  shows "rq_numRows q' = rq_numRows q" "rq_numQREntries q' = rq_numQREntries q"
    "rq_row_To_QR_T q' = rq_row_To_QR_T q" "rq_QR_To_Row_T q' = rq_QR_To_Row_T q"
    "rq_nextFreeQR_ID q' = rq_nextFreeQR_ID q" "rq_prevQRHead_ID q' = rq_prevQRHead_ID q"
    "rq_QRTail_ID q' = rq_QRTail_ID q" "rq_randRowID q' = rq_randRowID q" "rq_detector q' = rq_detector q"
  using assms by (simp_all add: rq_core_def)

lemma rq_delay_simps [simp]:
  "rq_core (rq_delay q d) = rq_core q" "rq_core (rq_sram_delay q d) = rq_core q"
  "rq_filters (rq_delay q d) = rq_filters q" "rq_filters (rq_sram_delay q d) = rq_filters q"
  "rq_cache (rq_delay q d) = rq_cache q" "rq_cache (rq_sram_delay q d) = rq_cache q"
  "rq_cache_wf (rq_delay q d) = rq_cache_wf q" "rq_cache_wf (rq_sram_delay q d) = rq_cache_wf q"
  by (simp_all add: rq_core_def rq_filters_def rq_cache_wf_def rq_delay_def rq_sram_delay_def)

lemma rq_virt_delay_simps [simp]:
  "rq_core (rq_virt_delay q) = rq_core q" "rq_filters (rq_virt_delay q) = rq_filters q"
  "rq_cache (rq_virt_delay q) = rq_cache q" "rq_cache_wf (rq_virt_delay q) = rq_cache_wf q"
  by (simp_all add: rq_virt_delay_def)

lemma rq_table_delay_simps [simp]:
  "rq_core (rq_table_delay q) = rq_core q" "rq_filters (rq_table_delay q) = rq_filters q"
  "rq_cache_wf (rq_table_delay q) = rq_cache_wf q"
  by (simp_all add: rq_table_delay_def)

lemma rq_count_evict_simps [simp]:
  "rq_core (rq_count_evict q b) = rq_core q" "rq_filters (rq_count_evict q b) = rq_filters q"
  by (simp_all add: rq_count_evict_def rq_core_def rq_filters_def)

lemma rq_cache_update [simp]:
  "rq_core (q\<lparr>rq_cache := c\<rparr>) = rq_core q" "rq_filters (q\<lparr>rq_cache := c\<rparr>) = rq_filters q"
  "rq_cache_wf (q\<lparr>rq_cache := Some d\<rparr>) = fc_wf d"
  by (simp_all add: rq_core_def rq_filters_def rq_cache_wf_def)

section \<open>The cache steps\<close>

text \<open>A step that only touches the cache, the delays and the statistics.\<close>

definition rq_quiet :: "'d rq \<Rightarrow> 'd rq \<Rightarrow> bool" where
  "rq_quiet q q' \<longleftrightarrow> rq_core q' = rq_core q \<and> rq_filters q' = rq_filters q \<and> rq_cache_wf q'"

lemma rq_quiet_trans: "rq_quiet a b \<Longrightarrow> rq_quiet b c \<Longrightarrow> rq_quiet a c"
  by (simp add: rq_quiet_def)

lemma rq_quiet_delay [simp]: "rq_quiet a (rq_virt_delay b) = rq_quiet a b" "rq_quiet a (rq_delay b d) = rq_quiet a b" "rq_quiet a (rq_sram_delay b d) = rq_quiet a b"
  by (simp_all add: rq_quiet_def)

lemma ex_not_bool [simp]: "Ex Not"
  by blast

lemma rq_removeRowFromCache_spec:
  assumes "fc_wf c"
  shows "\<exists>q' e d. rq_removeRowFromCache q c i = Inr (q', e, d) \<and> rq_quiet q q'"
proof -
  obtain c1 w where c1: "fc_Lookup c i False = Inr (c1, w)" "fc_wf c1" "fc_same c c1"
    "w < fc_ways c \<longrightarrow> fb_valid (fc_cache c1 ! fc_index c i ! w)"
    using fc_Lookup_spec[OF assms, of i False] by blast
  show ?thesis
  proof (cases "w < fc_ways c1")
    case True
    then have v: "fb_valid (fc_cache c1 ! fc_index c1 i ! w)"
      using c1(3,4) by (simp add: fc_index_same[OF c1(3)] fc_same_def)
    obtain c2 where "fc_Invalidate c1 i w = Inr c2" "fc_wf c2"
      using fc_Invalidate_spec[OF c1(2) True, of i] by blast
    then show ?thesis using c1(1) True fc_queries[OF c1(2) True, of i] v
      by (simp add: rq_removeRowFromCache_def rq_quiet_def rq_count_evict_def rq_core_def
          rq_filters_def rq_cache_wf_def)
  next
    case False
    then show ?thesis using c1 by (simp add: rq_removeRowFromCache_def rq_quiet_def)
  qed
qed

lemma rq_insertRowInCache_spec:
  assumes "fc_wf c"
  shows "\<exists>q' e d. rq_insertRowInCache q c i sd = Inr (q', e, d) \<and> rq_quiet q q'"
proof -
  obtain c1 w where c1: "fc_Find_Victim c i = Inr (c1, w)" "fc_wf c1" "w < fc_ways c1"
    using fc_Find_Victim_spec[OF assms, of i] by (auto simp: fc_same_def)
  obtain c2 where c2: "fc_Invalidate c1 i w = Inr c2" "fc_wf c2" "fc_same c1 c2" "fc_free c2 i w"
    using fc_Invalidate_spec[OF c1(2,3), of i] by blast
  obtain c3 where c3: "fc_Fill c2 i w = Inr c3" "fc_wf c3" "fc_same c2 c3"
    "fb_valid (fc_cache c3 ! fc_index c2 i ! w)"
    using fc_Fill_spec[OF c2(2,4)] by blast
  have w3: "w < fc_ways c3" using c1(3) c2(3) c3(3) by (simp add: fc_same_def)
  have v3: "fb_valid (fc_cache c3 ! fc_index c3 i ! w)" using c3(4) by (simp add: fc_index_same[OF c3(3)])
  obtain c4 where c4: "(if sd then fc_SetDirtyBit c3 i w else Inr c3) = Inr c4" "fc_wf c4"
    using fc_SetDirtyBit_spec[OF c3(2) w3 v3] c3(2) by (cases sd) auto
  note Q = fc_queries[OF c1(2,3), of i]
  show ?thesis
    using c1(1) c2(1) c3(1) c4 Q
    by (cases "fb_valid (fc_cache c1 ! fc_index c1 i ! w)")
       (simp_all add: rq_insertRowInCache_def rq_quiet_def)
qed

text \<open>The groups of the rows lie within the table.\<close>

definition rq_groups_fit :: "'d rq \<Rightarrow> bool" where
  "rq_groups_fit q \<longleftrightarrow> 0 < btv_rows_per_bit (rq_bitvector q) \<and> btv_rows_per_bit (rq_bitvector q) dvd rq_numRows q"

lemma rq_group_row_ok:
  assumes "rq_groups_fit q" "r < rq_numRows q"
  shows "\<exists>i. rq_group_row q r = Inr i"
proof -
  let ?per = "btv_rows_per_bit (rq_bitvector q)"
  obtain k where k: "rq_numRows q = ?per * k" "0 < ?per" using assms(1) by (auto simp: rq_groups_fit_def dvd_def)
  then have "r div ?per < k" using assms(2) by (simp add: div_less_iff_less_mult mult.commute)
  then have "(r div ?per + 1) * ?per \<le> k * ?per" by (intro mult_le_mono1) simp
  then have "r div ?per * ?per + ?per \<le> rq_numRows q" using k(1) by (simp add: mult.commute)
  then have "i < rq_numRows q" if "i \<in> set [r div ?per * ?per..<r div ?per * ?per + ?per]" for i using that by simp
  then show ?thesis
    by (auto simp: rq_group_row_def Let_def find_Some_iff split: option.split)
qed

lemma rq_cache_miss_fill_spec:
  assumes "fc_wf c" "rq_cache_wf q" "rq_groups_fit q" "r < rq_numRows q"
  shows "\<exists>q'. rq_cache_miss_fill q c r = Inr q' \<and> rq_quiet q q'"
proof -
  have ins: "\<exists>q2 e d. rq_insertRowInCache q1 c i False = Inr (q2, e, d) \<and> rq_quiet q1 q2" for q1 :: "'a rq" and i
    by (rule rq_insertRowInCache_spec[OF assms(1)])
  let ?t = "rq_table_delay q"
  have "rq_groups_fit ?t" "r < rq_numRows ?t"
    using assms(3,4) by (simp_all add: rq_groups_fit_def rq_table_delay_def rq_delay_def rq_sram_delay_def)
  then obtain g where g: "rq_group_row ?t r = Inr g" using rq_group_row_ok by blast
  define orr where "orr = rq_ORR_CBF ?t (rq_group ?t (rq_generateCBFID r))"
  define x where "x = (if qe_valid (rq_row_To_QR_T ?t r) then r else g)"
  define q1 where "q1 = (if qe_valid (rq_row_To_QR_T ?t r)
     then ?t\<lparr>rq_s_cache_miss_entry_inserts := rq_s_cache_miss_entry_inserts ?t + 1\<rparr>
     else if orr = 1 then ?t\<lparr>rq_s_cache_miss_line_entry_inserts := rq_s_cache_miss_line_entry_inserts ?t + 1\<rparr> else ?t)"
  have quiet: "rq_quiet q q1" using assms(2) unfolding q1_def rq_quiet_def
    by (simp add: rq_core_def rq_filters_def rq_cache_wf_def)
       (simp add: rq_table_delay_def rq_delay_def rq_sram_delay_def)
  obtain q2 e d where i2: "rq_insertRowInCache q1 c (rq_generateCBFID x) False = Inr (q2, e, d)" "rq_quiet q1 q2"
    using ins by blast
  have eq: "rq_cache_miss_fill q c r = (if x < rq_numRows ?t \<and> (x = r \<or> orr = 1)
      then rbind (rq_insertRowInCache q1 c (rq_generateCBFID x) False) (\<lambda>(q2, evicted_rowID, isDirty).
             Inr (if rq_virtualize_RIT q2 \<and> isDirty \<and> r div 32 \<noteq> evicted_rowID div 32
                  then rq_delay q2 (2 * rq_accDelay q2) else q2))
      else Inr q1)"
    unfolding rq_cache_miss_fill_def Let_def x_def q1_def orr_def[symmetric] g
    by (cases "qe_valid (rq_row_To_QR_T ?t r)"; cases "orr = 1") simp_all
  show ?thesis unfolding eq using i2 quiet rq_quiet_trans[OF quiet i2(2)] by auto
qed

lemma rq_cache_check_spec:
  assumes "fc_wf c" "rq_groups_fit q" "r < rq_numRows q"
  shows "\<exists>q'. rq_cache_check q c r = Inr q' \<and> rq_quiet q q'"
proof -
  obtain c1 w where c1: "fc_Lookup c (rq_generateCBFID r) True = Inr (c1, w)" "fc_wf c1"
    using fc_Lookup_spec[OF assms(1), of "rq_generateCBFID r" True] by blast
  obtain c2 v where c2: "fc_PartialLookup c1 (rq_generateCBFID r) = Inr (c2, v)" "fc_wf c2"
    using fc_PartialLookup_spec[OF c1(2), of "rq_generateCBFID r"] by blast
  have fill: "\<exists>q'. rq_cache_miss_fill q1 c2 r = Inr q' \<and> rq_quiet q q'" if quiet: "rq_quiet q q1" for q1
  proof -
    have "rq_numRows q1 = rq_numRows q" "rq_bitvector q1 = rq_bitvector q" "rq_cache_wf q1"
      using quiet rq_core_eq(1)[of q1 q] by (simp_all add: rq_quiet_def rq_filters_def)
    then have "rq_groups_fit q1" "r < rq_numRows q1" using assms(2,3) by (simp_all add: rq_groups_fit_def)
    from rq_cache_miss_fill_spec[OF c2(2) \<open>rq_cache_wf q1\<close> this] quiet show ?thesis using rq_quiet_trans by blast
  qed
  let ?q = "(rq_sram_delay q (rq_SRAM_Cache_accDelay q))\<lparr>rq_cache := Some c2\<rparr>"
  have "rq_quiet q (?q\<lparr>rq_s_cache_partial_hit_orr_unset := a\<rparr>)" "rq_quiet q (?q\<lparr>rq_s_cache_miss := a\<rparr>)"
    "rq_quiet q (?q\<lparr>rq_s_cache_partial_hit_orr_set := a\<rparr>)" for a
    using c2(2) by (simp_all add: rq_quiet_def rq_core_def rq_filters_def rq_cache_wf_def rq_sram_delay_def)
  note Q = this fill[OF this(1)] fill[OF this(2)]
  show ?thesis
  proof (cases "w < fc_ways c1")
    case True
    then show ?thesis using c1 by (simp add: rq_cache_check_def Let_def rq_quiet_def rq_core_def
          rq_filters_def rq_cache_wf_def rq_sram_delay_def)
  next
    case False
    then show ?thesis using c1(1) c2(1) Q by (simp add: rq_cache_check_def Let_def)
  qed
qed

lemma rq_cache_add_spec:
  assumes "rq_cache_wf q"
  shows "\<exists>q'. rq_cache_add q r = Inr q' \<and> rq_quiet q q'"
proof (cases "rq_cache q")
  case None
  then show ?thesis using assms by (simp add: rq_cache_add_def rq_quiet_def)
next
  case (Some c)
  then have wf: "fc_wf c" using assms by (simp add: rq_cache_wf_def)
  obtain c1 w where c1: "fc_Lookup c (rq_generateCBFID r) False = Inr (c1, w)" "fc_wf c1" "fc_same c c1"
    "w \<le> fc_ways c" "w < fc_ways c \<longrightarrow> fb_valid (fc_cache c1 ! fc_index c (rq_generateCBFID r) ! w)"
    using fc_Lookup_spec[OF wf, of "rq_generateCBFID r" False] by blast
  show ?thesis
  proof (cases "w = fc_ways c1")
    case True
    obtain q1 e d where "rq_insertRowInCache q c1 (rq_generateCBFID r) True = Inr (q1, e, d)" "rq_quiet q q1"
      using rq_insertRowInCache_spec[OF c1(2)] by blast
    then show ?thesis using Some c1 True by (simp add: rq_cache_add_def)
  next
    case False
    then have w: "w < fc_ways c1" using c1(3,4) by (simp add: fc_same_def)
    moreover have "fb_valid (fc_cache c1 ! fc_index c1 (rq_generateCBFID r) ! w)"
      using w c1(3,5) by (simp add: fc_index_same[OF c1(3)] fc_same_def)
    ultimately obtain c2 where "fc_SetDirtyBit c1 (rq_generateCBFID r) w = Inr c2" "fc_wf c2"
      using fc_SetDirtyBit_spec[OF c1(2)] by blast
    then show ?thesis using Some c1(1) False by (simp add: rq_cache_add_def rq_quiet_def)
  qed
qed

section \<open>The filter steps\<close>

lemma rq_wf_quiet: "rq_wf h lim q \<Longrightarrow> rq_quiet q q' \<Longrightarrow> rq_wf h lim q'"
  using rq_core_eq[of q' q] by (simp add: rq_wf_def rq_quiet_def)

lemma rq_tablesD:
  assumes "rq_tables_wf n Q RT QT"
  shows "qe_valid (RT r) \<Longrightarrow> r < n" "qe_valid (RT r) \<Longrightarrow> qe_value (RT r) < Q"
    "qe_valid (RT r) \<Longrightarrow> qe_valid (QT (qe_value (RT r)))"
    "qe_valid (RT r) \<Longrightarrow> qe_value (QT (qe_value (RT r))) = r"
    "qe_valid (QT s) \<Longrightarrow> s < Q" "qe_valid (QT s) \<Longrightarrow> qe_valid (RT (qe_value (QT s)))"
    "qe_valid (QT s) \<Longrightarrow> qe_value (RT (qe_value (QT s))) = s"
  using assms unfolding rq_tables_wf_def by blast+

lemma quarantined_card:
  assumes "rq_tables_wf n Q RT QT"
  shows "finite (quarantined RT)" "card (quarantined RT) \<le> Q"
proof -
  note D = rq_tablesD[OF assms]
  have "quarantined RT \<subseteq> {..<n}" using D(1) by (auto simp: quarantined_def)
  then show "finite (quarantined RT)" by (rule finite_subset) simp
  have "inj_on (\<lambda>r. qe_value (RT r)) (quarantined RT)"
    by (rule inj_onI) (metis D(4) mem_Collect_eq quarantined_def)
  moreover have "(\<lambda>r. qe_value (RT r)) ` quarantined RT \<subseteq> {..<Q}" using D(2) by (auto simp: quarantined_def)
  ultimately show "card (quarantined RT) \<le> Q" using card_inj_on_le[of _ "quarantined RT" "{..<Q}"] by simp
qed

lemma rq_maybe_spec:
  assumes "rq_marks h lim n (rq_filters q) S" "finite S" "r < n"
  shows "\<exists>a. rq_maybe q r = Inr a \<and> (r \<in> S \<longrightarrow> a)"
proof (cases "rq_filter q")
  case None
  then obtain per where I: "btv_inv per n (rq_bitvector q) (mset_set S)" "r div per < n"
    using assms(1,3) by (auto simp: rq_marks_def rq_filters_def)
  then show ?thesis
    using None groups.query_total[OF I(1,2)] groups.query_member[OF I(1), of r] assms(2)
    by (auto simp: rq_maybe_def)
next
  case (Some f)
  then obtain per where I: "cbf_inv h lim f (mset_set S)" "btv_inv per n (rq_bitvector q) {#}" "r div per < n"
    using assms(1,3) by (auto simp: rq_marks_def rq_filters_def)
  then show ?thesis
    using Some bloom.query_total[OF I(1), of r] bloom.query_member[OF I(1), of r]
      groups.query_total[OF I(2,3)] assms(2)
    by (auto simp: rq_maybe_def)
qed

lemma rq_mark_spec:
  assumes "rq_marks h lim n (rq_filters q) S" "finite S" "r < n" "r \<notin> S" "card S < lim"
  shows "\<exists>q'. rq_mark q r = Inr q' \<and> rq_core q' = rq_core q \<and> rq_cache q' = rq_cache q \<and>
    rq_marks h lim n (rq_filters q') (insert r S)"
proof (cases "rq_filter q")
  case None
  then obtain per where I: "btv_inv per n (rq_bitvector q) (mset_set S)" "\<forall>x<n. x div per < n" "lim \<le> 4294967295"
    using assms(1) by (auto simp: rq_marks_def rq_filters_def)
  then obtain v where v: "btv_add (rq_bitvector q) r = Inr v" "btv_inv per n v (add_mset r (mset_set S))"
    using groups.add_inv[OF I(1), of r] assms(2,3,5) by auto
  then show ?thesis using None assms(2,4) I(2,3)
    by (auto simp: rq_mark_def rq_core_def rq_marks_def rq_filters_def)
next
  case (Some f)
  then have I: "cbf_inv h lim f (mset_set S)"
    using assms(1) by (auto simp: rq_marks_def rq_filters_def)
  obtain f' where f': "cbf_add f r = Inr f'" "cbf_inv h lim f' (add_mset r (mset_set S))"
    using bloom.add_inv[OF I, of r] assms(2,5) by auto
  then show ?thesis using Some assms(1,2,4)
    by (auto simp: rq_mark_def rq_core_def rq_marks_def rq_filters_def)
qed

lemma rq_unmark_spec:
  assumes "rq_marks h lim n (rq_filters q) S" "finite S" "r \<in> S"
  shows "\<exists>q'. rq_unmark q r = Inr q' \<and> rq_core q' = rq_core q \<and> rq_cache q' = rq_cache q \<and>
    rq_marks h lim n (rq_filters q') (S - {r})"
proof -
  have m: "mset_set S - {#r#} = mset_set (S - {r})" using assms(2,3)
    by (metis add_mset_remove_trivial mset_set.remove)
  show ?thesis
  proof (cases "rq_filter q")
    case None
    then obtain per where I: "btv_inv per n (rq_bitvector q) (mset_set S)" "\<forall>x<n. x div per < n"
      using assms(1) by (auto simp: rq_marks_def rq_filters_def)
    then obtain v where v: "btv_del (rq_bitvector q) r = Inr v" "btv_inv per n v (mset_set S - {#r#})"
      using groups.del_inv[OF I(1), of r] assms(2,3) by auto
    then show ?thesis using None I(2) assms(1)
      by (auto simp: rq_unmark_def rq_core_def rq_marks_def rq_filters_def m)
  next
    case (Some f)
    then have I: "cbf_inv h lim f (mset_set S)"
      using assms(1) by (auto simp: rq_marks_def rq_filters_def)
    obtain f' where f': "cbf_del f r = Inr f'" "cbf_inv h lim f' (mset_set S - {#r#})"
      using bloom.del_inv[OF I, of r] assms(2,3) by auto
    moreover have "cbf_query f r = Inr True" using bloom.query_member[OF I, of r] assms(2,3) by simp
    ultimately show ?thesis using Some assms(1)
      by (auto simp: rq_unmark_def rq_core_def rq_marks_def rq_filters_def m)
  qed
qed

lemma cbf_inv_stats [simp]:
  "cbf_inv h lim (f\<lparr>cbf_s_truePositives := a\<rparr>) M = cbf_inv h lim f M"
  "cbf_inv h lim (f\<lparr>cbf_s_falsePositives := a\<rparr>) M = cbf_inv h lim f M"
  "cbf_inv h lim (f\<lparr>cbf_s_trueNegatives := a\<rparr>) M = cbf_inv h lim f M"
  by (simp_all add: cbf_inv_def cbf_load_def cbf_slots_def)

lemma rq_count_positive_wf: "rq_wf h lim q \<Longrightarrow> rq_wf h lim (rq_count_positive q r)"
  by (auto simp: rq_wf_def rq_count_positive_def rq_marks_def rq_filters_def rq_cache_wf_def
      split: option.splits)

lemma rq_count_negative_wf: "rq_wf h lim q \<Longrightarrow> rq_wf h lim (rq_count_negative q)"
  by (auto simp: rq_wf_def rq_count_negative_def rq_marks_def rq_filters_def rq_cache_wf_def
      split: option.splits)

lemma rq_count_core [simp]:
  "rq_core (rq_count_positive q r) = rq_core q" "rq_core (rq_count_negative q) = rq_core q"
  by (simp_all add: rq_core_def rq_count_positive_def rq_count_negative_def split: option.splits)

lemma rq_index: "rq_wf h lim q \<Longrightarrow> r < rq_numRows q \<Longrightarrow> rq_generateCBFID r = r"
  by (simp add: rq_generateCBFID_def rq_wf_def u32_id)

text \<open>The lookup path never faults, and never changes where a row is.\<close>

lemma rq_addQCheckDelay_spec:
  assumes wf: "rq_wf h lim q" and r: "r < rq_numRows q" and fit: "rq_groups_fit q"
  shows "\<exists>q'. rq_addQCheckDelay q r = Inr q' \<and> rq_wf h lim q' \<and> rq_core q' = rq_core q"
proof -
  define q0 where "q0 = rq_sram_delay q (rq_SRAM_CBF_accDelay q)"
  have core0: "rq_core q0 = rq_core q" by (simp add: q0_def)
  have quiet: "rq_quiet q q0" using wf by (simp add: q0_def rq_quiet_def rq_wf_def)
  have wf0: "rq_wf h lim q0" by (rule rq_wf_quiet[OF wf quiet])
  note T = wf0[unfolded rq_wf_def]
  have fin: "finite (quarantined (rq_row_To_QR_T q0))" using T quarantined_card(1) by blast
  obtain a where a: "rq_maybe q0 r = Inr a" "r \<in> quarantined (rq_row_To_QR_T q0) \<longrightarrow> a"
    using rq_maybe_spec[of h lim "rq_numRows q0" q0 _ r] T fin r rq_core_eq(1)[OF core0] by auto
  have row: "rq_row_To_QR_T q0 = rq_row_To_QR_T q" by (rule rq_core_eq(3)[OF core0])
  have eq: "rq_addQCheckDelay q r =
    (if a then rbind (case rq_cache q0 of Some c \<Rightarrow> rq_cache_check q0 c r | None \<Rightarrow> Inr (rq_table_delay q0))
        (\<lambda>q1. Inr (rq_count_positive q1 r))
     else if qe_valid (rq_row_To_QR_T q0 r) then Inl AssertFail else Inr (rq_count_negative q0))"
    using a(1) rq_index[OF wf r] by (simp add: rq_addQCheckDelay_def q0_def[symmetric])
  show ?thesis
  proof (cases a)
    case False
    then have "\<not> qe_valid (rq_row_To_QR_T q0 r)" using a(2) by (simp add: quarantined_def)
    then show ?thesis unfolding eq using False core0 rq_count_negative_wf[OF wf0] by simp
  next
    case True
    have "\<exists>q1. (case rq_cache q0 of Some c \<Rightarrow> rq_cache_check q0 c r | None \<Rightarrow> Inr (rq_table_delay q0)) = Inr q1 \<and>
        rq_quiet q0 q1"
    proof (cases "rq_cache q0")
      case None
      then show ?thesis using T by (simp add: rq_quiet_def)
    next
      case (Some c)
      then have "fc_wf c" using T by (simp add: rq_cache_wf_def)
      moreover have "rq_groups_fit q0" "r < rq_numRows q0"
        using fit r by (simp_all add: q0_def rq_groups_fit_def rq_sram_delay_def)
      ultimately show ?thesis using Some rq_cache_check_spec by auto
    qed
    then obtain q1 where q1: "(case rq_cache q0 of Some c \<Rightarrow> rq_cache_check q0 c r | None \<Rightarrow> Inr (rq_table_delay q0)) = Inr q1"
      "rq_quiet q0 q1" by blast
    have "rq_wf h lim (rq_count_positive q1 r)"
      by (rule rq_count_positive_wf[OF rq_wf_quiet[OF wf0 q1(2)]])
    then show ?thesis unfolding eq using True q1 core0 by (simp add: rq_quiet_def)
  qed
qed

section \<open>Moving rows\<close>

text \<open>\<open>removeRow\<close> on a state whose tables need only agree on the slot that is emptied.\<close>

lemma rq_removeRow_spec:
  assumes marks: "rq_marks h lim n (rq_filters q) S" "finite S" and cw: "rq_cache_wf q"
    and B: "qe_value (rq_QR_To_Row_T q s) = B" "qe_valid (rq_row_To_QR_T q B)" "B \<in> S" "B < 2 ^ 32"
  shows "\<exists>q' d. rq_removeRow q s = Inr (q', d) \<and>
    rq_core q' = rq_core (q\<lparr>rq_QR_To_Row_T := (rq_QR_To_Row_T q)(s := (rq_QR_To_Row_T q s)\<lparr>qe_valid := False\<rparr>),
        rq_row_To_QR_T := (rq_row_To_QR_T q)(B := (rq_row_To_QR_T q B)\<lparr>qe_valid := False\<rparr>)\<rparr>) \<and>
    rq_marks h lim n (rq_filters q') (S - {B}) \<and> rq_cache_wf q'"
proof -
  define q1 where "q1 = q\<lparr>rq_QR_To_Row_T := (rq_QR_To_Row_T q)(s := (rq_QR_To_Row_T q s)\<lparr>qe_valid := False\<rparr>),
        rq_row_To_QR_T := (rq_row_To_QR_T q)(B := (rq_row_To_QR_T q B)\<lparr>qe_valid := False\<rparr>)\<rparr>"
  have ix: "rq_generateCBFID B = B" using B(4) by (simp add: rq_generateCBFID_def u32_id)
  have f1: "rq_filters q1 = rq_filters q" and c1: "rq_cache q1 = rq_cache q" by (simp_all add: q1_def rq_filters_def)
  obtain q2 where q2: "rq_unmark q1 B = Inr q2" "rq_core q2 = rq_core q1" "rq_cache q2 = rq_cache q1"
    "rq_marks h lim n (rq_filters q2) (S - {B})"
    using rq_unmark_spec[OF marks(1)[folded f1] marks(2) B(3)] by blast
  have eq: "rq_removeRow q s = (case rq_cache q2 of
             None \<Rightarrow> Inr (q2, False)
           | Some c \<Rightarrow> rbind (rq_removeRowFromCache q2 c B) (\<lambda>(q3, evicted, isDirty).
               Inr (q3\<lparr>rq_ORR_CBF := (rq_ORR_CBF q3)(rq_group q3 B :=
                        dec32 (rq_ORR_CBF q3 (rq_group q3 B)))\<rparr>, isDirty)))"
    using B(1,2) q2(1) by (simp add: rq_removeRow_def Let_def ix q1_def split: option.split)
  show ?thesis
  proof (cases "rq_cache q2")
    case None
    then show ?thesis using eq q2 c1 by (simp add: q1_def rq_cache_wf_def)
  next
    case (Some c)
    then have "fc_wf c" using cw q2(3) c1 by (simp add: rq_cache_wf_def)
    from rq_removeRowFromCache_spec[OF this, of q2 B]
    obtain q3 e d where q3: "rq_removeRowFromCache q2 c B = Inr (q3, e, d)" "rq_quiet q2 q3" by blast
    define q4 where "q4 = q3\<lparr>rq_ORR_CBF := (rq_ORR_CBF q3)(rq_group q3 B := dec32 (rq_ORR_CBF q3 (rq_group q3 B)))\<rparr>"
    have "rq_core q4 = rq_core q3" "rq_filters q4 = rq_filters q3" "rq_cache_wf q4 = rq_cache_wf q3"
      by (simp_all add: q4_def rq_core_def rq_filters_def rq_cache_wf_def)
    moreover have "rq_removeRow q s = Inr (q4, d)" using eq Some q3(1) by (simp add: q4_def)
    ultimately show ?thesis using q2 q3(2) unfolding q1_def[symmetric] by (simp add: rq_quiet_def)
  qed
qed

text \<open>The tables after \<open>quarantineRow\<close> of row \<open>A\<close> with the head at slot \<open>h\<close>.\<close>

definition rq_slot_of :: "(nat \<Rightarrow> rq_entry) \<Rightarrow> nat \<Rightarrow> nat option" where
  "rq_slot_of RT A = (if qe_valid (RT A) then Some (qe_value (RT A)) else None)"

definition rq_move_RT :: "(nat \<Rightarrow> rq_entry) \<Rightarrow> (nat \<Rightarrow> rq_entry) \<Rightarrow> nat \<Rightarrow> nat \<Rightarrow> nat \<Rightarrow> rq_entry" where
  "rq_move_RT RT QT A h =
     (let RT1 = RT(A := \<lparr>qe_valid = True, qe_value = h\<rparr>); B = qe_value (QT h) in
      if qe_valid (QT h) then RT1(B := (RT1 B)\<lparr>qe_valid := False\<rparr>) else RT1)"

definition rq_move_QT :: "(nat \<Rightarrow> rq_entry) \<Rightarrow> (nat \<Rightarrow> rq_entry) \<Rightarrow> nat \<Rightarrow> nat \<Rightarrow> nat \<Rightarrow> rq_entry" where
  "rq_move_QT RT QT A h =
     (let QT2 = QT(h := \<lparr>qe_valid = True, qe_value = A\<rparr>) in
      case rq_slot_of RT A of None \<Rightarrow> QT2 | Some j \<Rightarrow> QT2(j := (QT2 j)\<lparr>qe_valid := False\<rparr>))"

lemma rq_move_slot:
  assumes "rq_tables_wf n Q RT QT"
  shows "rq_slot_of (rq_move_RT RT QT A h) r =
    (if r = A then if rq_slot_of RT A = Some h then None else Some h
     else if rq_slot_of RT r = Some h then None else rq_slot_of RT r)"
proof -
  note D = rq_tablesD[OF assms]
  have B: "rq_slot_of RT B = Some h \<longleftrightarrow> qe_valid (QT h) \<and> qe_value (QT h) = B" for B
    using D by (auto simp: rq_slot_of_def)
  show ?thesis
  proof (cases "qe_valid (QT h)")
    case False
    then show ?thesis using B by (simp add: rq_move_RT_def rq_slot_of_def)
  next
    case True
    then show ?thesis using B[of A] B[of r] unfolding rq_move_RT_def
      by (auto simp: Let_def) (auto simp: rq_slot_of_def)
  qed
qed

lemma rq_move_row:
  assumes "rq_tables_wf n Q RT QT" "h < Q"
  shows "qe_valid (rq_move_QT RT QT A h s) \<longleftrightarrow> (if s = h then rq_slot_of RT A \<noteq> Some h
      else rq_slot_of RT A \<noteq> Some s \<and> qe_valid (QT s))"
    "qe_valid (rq_move_QT RT QT A h s) \<Longrightarrow> qe_value (rq_move_QT RT QT A h s) = (if s = h then A else qe_value (QT s))"
  using rq_tablesD[OF assms(1)] by (auto simp: rq_move_QT_def Let_def rq_slot_of_def split: if_splits)

lemma rq_move_tables_wf:
  assumes "rq_tables_wf n Q RT QT" "A < n" "h < Q"
  shows "rq_tables_wf n Q (rq_move_RT RT QT A h) (rq_move_QT RT QT A h)"
proof -
  note D = rq_tablesD[OF assms(1)]
  let ?RT = "rq_move_RT RT QT A h" and ?QT = "rq_move_QT RT QT A h"
  note slot = rq_move_slot[OF assms(1), of A h]
  note row = rq_move_row[OF assms(1,3), of A]
  have old: "rq_slot_of RT r = Some s \<longleftrightarrow> qe_valid (QT s) \<and> qe_value (QT s) = r" for r s
    using D by (auto simp: rq_slot_of_def)
  have RT: "rq_slot_of ?RT r = Some s \<longleftrightarrow> qe_valid (?RT r) \<and> qe_value (?RT r) = s" for r s
    by (auto simp: rq_slot_of_def)
  have inverse: "rq_slot_of ?RT r = Some s \<longleftrightarrow> qe_valid (?QT s) \<and> qe_value (?QT s) = r" for r s
  proof (cases "s = h")
    case True
    show ?thesis using old[of r h] old[of A h] row[of h] True by (auto simp: slot)
  next
    case False
    show ?thesis using old[of r s] old[of A s] row[of s] False by (auto simp: slot)
  qed
  have bounds: "r < n \<and> s < Q" if "rq_slot_of ?RT r = Some s" for r s
  proof (cases "r = A")
    case True
    then show ?thesis using that[unfolded slot] assms(2,3) by (simp split: if_splits)
  next
    case False
    then have "qe_valid (QT s) \<and> qe_value (QT s) = r"
      using that[unfolded slot] old by (simp split: if_splits)
    then show ?thesis using D(1)[of r] D(5,6)[of s] by auto
  qed
  show ?thesis
    unfolding rq_tables_wf_def
  proof (intro conjI allI impI)
    fix r assume v: "qe_valid (?RT r)"
    then have s: "rq_slot_of ?RT r = Some (qe_value (?RT r))" by (simp add: rq_slot_of_def)
    show "r < n" "qe_value (?RT r) < Q" "qe_valid (?QT (qe_value (?RT r)))" "qe_value (?QT (qe_value (?RT r))) = r"
      using s bounds[OF s] inverse by auto
  next
    fix s assume v: "qe_valid (?QT s)"
    then have r: "rq_slot_of ?RT (qe_value (?QT s)) = Some s" using inverse by simp
    show "s < Q" "qe_valid (?RT (qe_value (?QT s)))" "qe_value (?RT (qe_value (?QT s))) = s"
      using r bounds[OF r] RT by auto
  qed
qed

lemma quarantined_slot: "r \<in> quarantined RT \<longleftrightarrow> rq_slot_of RT r \<noteq> None"
  by (simp add: quarantined_def rq_slot_of_def)

text \<open>\<open>quarantineRow\<close> up to the slot being free: the tables are those of the move, except for
  the old slot of the row.\<close>

lemma rq_empty_slot_spec:
  assumes T: "rq_tables_wf n Q RT QT" and S: "S = insert A (quarantined RT)"
    and q: "rq_row_To_QR_T q = RT(A := \<lparr>qe_valid = True, qe_value = h\<rparr>)" "rq_QR_To_Row_T q = QT"
      "rq_nextFreeQR_ID q = h" "rq_cache_wf q" "rq_marks hs lim n (rq_filters q) S"
    and n: "n \<le> 2 ^ 32" "A < n"
  shows "\<exists>q' b. rq_empty_slot q A within = Inr (q', b) \<and>
    rq_core q' = rq_core (q\<lparr>rq_row_To_QR_T := rq_move_RT RT QT A h,
       rq_QR_To_Row_T := if qe_valid (QT h) then QT(h := (QT h)\<lparr>qe_valid := False\<rparr>) else QT\<rparr>) \<and>
    rq_marks hs lim n (rq_filters q') (S - (if qe_valid (QT h) then {qe_value (QT h)} else {})) \<and> rq_cache_wf q'"
proof (cases "qe_valid (QT h)")
  case False
  have "rq_core (q\<lparr>rq_row_To_QR_T := rq_move_RT RT QT A h, rq_QR_To_Row_T := QT\<rparr>) = rq_core q"
    using False q(1,2) by (simp add: rq_core_def rq_move_RT_def)
  then show ?thesis using False q by (simp add: rq_empty_slot_def)
next
  case True
  note D = rq_tablesD[OF T]
  define B where "B = qe_value (QT h)"
  have B: "B < n" "B \<in> S" "qe_valid (rq_row_To_QR_T q B)" "B < 2 ^ 32"
    using D(6)[OF True] D(1)[of B] n by (auto simp: B_def S q(1) quarantined_def)
  have fin: "finite S" using quarantined_card(1)[OF T] by (simp add: S)
  obtain q1 d where q1: "rq_removeRow q h = Inr (q1, d)"
    "rq_core q1 = rq_core (q\<lparr>rq_QR_To_Row_T := (rq_QR_To_Row_T q)(h := (rq_QR_To_Row_T q h)\<lparr>qe_valid := False\<rparr>),
        rq_row_To_QR_T := (rq_row_To_QR_T q)(B := (rq_row_To_QR_T q B)\<lparr>qe_valid := False\<rparr>)\<rparr>)"
    "rq_marks hs lim n (rq_filters q1) (S - {B})" "rq_cache_wf q1"
    using rq_removeRow_spec[OF q(5) fin q(4), of h B] B q(2) B_def by blast
  have core: "rq_core q1 = rq_core (q\<lparr>rq_row_To_QR_T := rq_move_RT RT QT A h,
      rq_QR_To_Row_T := QT(h := (QT h)\<lparr>qe_valid := False\<rparr>)\<rparr>)"
    unfolding q1(2) using True q(1,2) by (simp add: rq_core_def rq_move_RT_def B_def Let_def)
  show ?thesis
    using True q(2,3) q1(1,3,4) core by (auto simp: rq_empty_slot_def Let_def B_def)
qed

lemma rq_release_old_spec:
  assumes T: "rq_tables_wf n Q RT QT"
    and q: "rq_QR_To_Row_T q = QT(h := \<lparr>qe_valid = True, qe_value = A\<rparr>)" "rq_cache_wf q"
  shows "\<exists>q'. rq_release_old q (rq_slot_of RT A) = Inr q' \<and>
    rq_core q' = rq_core (q\<lparr>rq_QR_To_Row_T := rq_move_QT RT QT A h\<rparr>) \<and>
    rq_filters q' = rq_filters q \<and> rq_cache_wf q'"
proof (cases "rq_slot_of RT A")
  case None
  have "q\<lparr>rq_QR_To_Row_T := QT(h := \<lparr>qe_valid = True, qe_value = A\<rparr>)\<rparr> = q" using q(1) by simp
  then show ?thesis using None q(2) by (simp add: rq_release_old_def rq_move_QT_def)
next
  case (Some j)
  then have j: "qe_valid (QT j)" using rq_tablesD(3)[OF T, of A] by (auto simp: rq_slot_of_def split: if_splits)
  define q1 where "q1 = (if rq_virtualize_RIT q \<and> rq_nextFreeQR_ID q div 16 \<noteq> j div 16
                    then rq_delay q (rq_accDelay q) else q)"
  have q1: "rq_core q1 = rq_core q" "rq_filters q1 = rq_filters q" "rq_cache_wf q1" using q(2) by (simp_all add: q1_def)
  have v: "qe_valid (rq_QR_To_Row_T q1 j)" using rq_core_eq(4)[OF q1(1)] q(1) j by simp
  have "rq_release_old q (Some j) =
      Inr (q1\<lparr>rq_QR_To_Row_T := (rq_QR_To_Row_T q1)(j := (rq_QR_To_Row_T q1 j)\<lparr>qe_valid := False\<rparr>)\<rparr>)"
    using v by (simp add: rq_release_old_def q1_def[symmetric])
  moreover have "rq_core (q1\<lparr>rq_QR_To_Row_T := (rq_QR_To_Row_T q1)(j := (rq_QR_To_Row_T q1 j)\<lparr>qe_valid := False\<rparr>)\<rparr>) =
      rq_core (q\<lparr>rq_QR_To_Row_T := rq_move_QT RT QT A h\<rparr>)"
    using rq_core_eq[OF q1(1)] q(1) Some by (simp add: rq_core_def rq_move_QT_def Let_def)
  ultimately show ?thesis using Some q1(2,3) by (simp add: rq_filters_def rq_cache_wf_def)
qed

lemma rq_quarantineRow_spec:
  assumes wf: "rq_wf hs lim q" and A: "A < rq_numRows q"
  shows "\<exists>q'. rq_quarantineRow q A = Inr q' \<and> rq_wf hs lim q' \<and>
    rq_row_To_QR_T q' = rq_move_RT (rq_row_To_QR_T q) (rq_QR_To_Row_T q) A (rq_nextFreeQR_ID q) \<and>
    rq_nextFreeQR_ID q' = (rq_nextFreeQR_ID q + 1) mod rq_numQREntries q \<and>
    rq_numRows q' = rq_numRows q \<and> rq_numQREntries q' = rq_numQREntries q \<and>
    rq_randRowID q' = rq_randRowID q \<and> rq_detector q' = rq_detector q"
proof -
  define RT where "RT = rq_row_To_QR_T q"
  define QT where "QT = rq_QR_To_Row_T q"
  define h where "h = rq_nextFreeQR_ID q"
  define n where "n = rq_numRows q"
  define Q where "Q = rq_numQREntries q"
  define S where "S = insert A (quarantined RT)"
  note defs = RT_def[symmetric] QT_def[symmetric] h_def[symmetric] n_def[symmetric] Q_def[symmetric]
  note W = wf[unfolded rq_wf_def defs]
  have T: "rq_tables_wf n Q RT QT" using W by simp
  note D = rq_tablesD[OF T]
  have fin: "finite (quarantined RT)" "card (quarantined RT) < lim" using quarantined_card[OF T] W by auto
  define orig where "orig = rq_slot_of RT A"
  have orig: "(if qe_valid (rq_row_To_QR_T q A) then Some (qe_value (rq_row_To_QR_T q A)) else None) = orig"
    by (simp add: orig_def rq_slot_of_def RT_def)
  have "\<exists>q1. (if orig = None then rq_mark q (rq_generateCBFID A) else Inr q) = Inr q1 \<and>
      rq_core q1 = rq_core q \<and> rq_cache q1 = rq_cache q \<and> rq_marks hs lim n (rq_filters q1) S"
  proof (cases "orig = None")
    case True
    then have "A \<notin> quarantined RT" by (simp add: quarantined_slot orig_def)
    then show ?thesis
      using True rq_mark_spec[of hs lim n q "quarantined RT" A] W fin A rq_index[OF wf A]
      by (simp add: S_def defs)
  next
    case False
    then have "insert A (quarantined RT) = quarantined RT" by (auto simp: quarantined_slot orig_def)
    then show ?thesis using False W by (auto simp: S_def)
  qed
  then obtain q1 where q1: "(if orig = None then rq_mark q (rq_generateCBFID A) else Inr q) = Inr q1"
    "rq_core q1 = rq_core q" "rq_cache q1 = rq_cache q" "rq_marks hs lim n (rq_filters q1) S" by blast
  note c1 = rq_core_eq[OF q1(2), unfolded defs]
  define q2 where "q2 = q1\<lparr>rq_row_To_QR_T := (rq_row_To_QR_T q1)(A := \<lparr>qe_valid = True, qe_value = rq_nextFreeQR_ID q1\<rparr>)\<rparr>"
  have "rq_cache_wf q2" using W q1(3) by (simp add: q2_def rq_cache_wf_def)
  then obtain q3 where q3: "rq_cache_add q2 A = Inr q3" "rq_quiet q2 q3" using rq_cache_add_spec by blast
  define q4 where "q4 = (rq_virt_delay q3)"
  have q4: "rq_quiet q2 q4" using q3(2) by (simp add: q4_def)
  then have core4: "rq_core q4 = rq_core q2" and f4: "rq_filters q4 = rq_filters q1" and w4: "rq_cache_wf q4"
    by (simp_all add: rq_quiet_def) (simp add: q2_def rq_filters_def)
  have r4: "rq_row_To_QR_T q4 = RT(A := \<lparr>qe_valid = True, qe_value = h\<rparr>)" "rq_QR_To_Row_T q4 = QT" "rq_nextFreeQR_ID q4 = h"
    using rq_core_eq[OF core4] c1 by (simp_all add: q2_def)
  define S' where "S' = S - (if qe_valid (QT h) then {qe_value (QT h)} else {})"
  obtain q5 b where q5: "rq_empty_slot q4 A (orig \<noteq> None) = Inr (q5, b)"
    "rq_core q5 = rq_core (q4\<lparr>rq_row_To_QR_T := rq_move_RT RT QT A h,
       rq_QR_To_Row_T := if qe_valid (QT h) then QT(h := (QT h)\<lparr>qe_valid := False\<rparr>) else QT\<rparr>)"
    "rq_marks hs lim n (rq_filters q5) S'" "rq_cache_wf q5"
    using rq_empty_slot_spec[OF T S_def r4 w4 q1(4)[folded f4], of "orig \<noteq> None"] W A
    by (auto simp: S'_def defs)
  define q6 where "q6 = rq_delay q5 (rq_moveDelay q5)"
  define q7 where "q7 = (rq_virt_delay q6)"
  have core7: "rq_core q7 = rq_core q5" "rq_filters q7 = rq_filters q5" "rq_cache_wf q7"
    using q5(4) by (simp_all add: q7_def q6_def)
  note c7 = rq_core_eq[OF core7(1)[unfolded q5(2)]] and c4 = rq_core_eq[OF core4]
  define q8 where "q8 = q7\<lparr>rq_QR_To_Row_T := (rq_QR_To_Row_T q7)(rq_nextFreeQR_ID q7 := \<lparr>qe_valid = True, qe_value = A\<rparr>)\<rparr>"
  have Q8: "rq_QR_To_Row_T q8 = QT(h := \<lparr>qe_valid = True, qe_value = A\<rparr>)" "rq_cache_wf q8"
    using c7 r4 core7(3) by (simp_all add: q8_def rq_cache_wf_def)
  obtain q9 where q9: "rq_release_old q8 (rq_slot_of RT A) = Inr q9"
    "rq_core q9 = rq_core (q8\<lparr>rq_QR_To_Row_T := rq_move_QT RT QT A h\<rparr>)" "rq_filters q9 = rq_filters q8" "rq_cache_wf q9"
    using rq_release_old_spec[OF T Q8] by blast
  have c9: "rq_row_To_QR_T q9 = rq_move_RT RT QT A h" "rq_QR_To_Row_T q9 = rq_move_QT RT QT A h"
    "rq_nextFreeQR_ID q9 = h" "rq_numRows q9 = n" "rq_numQREntries q9 = Q" "rq_QRTail_ID q9 = rq_QRTail_ID q"
    "rq_prevQRHead_ID q9 = rq_prevQRHead_ID q" "rq_randRowID q9 = rq_randRowID q" "rq_detector q9 = rq_detector q"
    using rq_core_eq[OF q9(2)] c7 c4 c1 by (simp_all add: q8_def q2_def)
  have m9: "rq_marks hs lim n (rq_filters q9) S'"
    using q5(3) core7(2) q9(3) by (simp add: q8_def rq_filters_def)
  have S': "S' = quarantined (rq_move_RT RT QT A h)"
    by (auto simp: S'_def S_def quarantined_def rq_move_RT_def Let_def)
  define q10 where "q10 = (let q1 = (if rq_nextFreeQR_ID q9 = rq_QRTail_ID q9 \<and> rq_nextFreeQR_ID q9 \<noteq> rq_prevQRHead_ID q9
                     then q9\<lparr>rq_QRTail_ID := (rq_QRTail_ID q9 + 1) mod rq_numQREntries q9\<rparr> else q9)
        in q1\<lparr>rq_nextFreeQR_ID := (rq_nextFreeQR_ID q1 + 1) mod rq_numQREntries q1\<rparr>)"
  have adv: "rq_advance q9 = Inr q10" using W c9(5) by (simp add: rq_advance_def q10_def Let_def)
  define q11 where "q11 = rq_count_move q10 (orig \<noteq> None) b"
  have c11: "rq_row_To_QR_T q11 = rq_move_RT RT QT A h" "rq_QR_To_Row_T q11 = rq_move_QT RT QT A h"
    "rq_nextFreeQR_ID q11 = (h + 1) mod Q" "rq_numRows q11 = n" "rq_numQREntries q11 = Q" "rq_QRTail_ID q11 < Q"
    "rq_prevQRHead_ID q11 < Q" "rq_randRowID q11 = rq_randRowID q" "rq_detector q11 = rq_detector q"
    "rq_filters q11 = rq_filters q9" "rq_cache_wf q11 = rq_cache_wf q9"
    using c9 W by (simp_all add: q11_def q10_def rq_count_move_def Let_def rq_filters_def rq_cache_wf_def)
  have hQ: "h < Q" using W by simp
  have "rq_wf hs lim q11"
    using W c11 q9(4) m9 S' rq_move_tables_wf[OF T A[unfolded defs] hQ] by (simp add: rq_wf_def)
  moreover have "rq_quarantineRow q A = Inr q11"
    unfolding rq_quarantineRow_def Let_def orig using q1(1) q3(1) q5(1) q9(1) adv
    by (simp add: q2_def[symmetric] q4_def[symmetric] q6_def[symmetric] q7_def[symmetric]
        q8_def[symmetric] orig_def[symmetric] q11_def)
  ultimately show ?thesis using c11 unfolding defs by blast
qed

section \<open>Draining\<close>

lemma rq_remove_tables_wf:
  assumes "rq_tables_wf n Q RT QT" "qe_valid (QT s)"
  shows "rq_tables_wf n Q (RT(qe_value (QT s) := (RT (qe_value (QT s)))\<lparr>qe_valid := False\<rparr>))
    (QT(s := (QT s)\<lparr>qe_valid := False\<rparr>))"
proof -
  note D = rq_tablesD[OF assms(1)]
  define B where "B = qe_value (QT s)"
  have slot: "qe_value (RT r) = s \<longleftrightarrow> r = B" if "qe_valid (RT r)" for r
    using D(4)[OF that] D(7)[OF assms(2)] B_def by metis
  have row: "qe_value (QT z) = B \<longleftrightarrow> z = s" if "qe_valid (QT z)" for z
    using D(7)[OF that] D(7)[OF assms(2)] B_def by metis
  show ?thesis
    unfolding B_def[symmetric] rq_tables_wf_def
  proof (intro conjI allI impI)
    fix r assume v: "qe_valid ((RT(B := RT B\<lparr>qe_valid := False\<rparr>)) r)"
    then have r: "r \<noteq> B" "qe_valid (RT r)" by (simp_all split: if_splits)
    show "r < n" "qe_value ((RT(B := RT B\<lparr>qe_valid := False\<rparr>)) r) < Q"
      "qe_valid ((QT(s := QT s\<lparr>qe_valid := False\<rparr>)) (qe_value ((RT(B := RT B\<lparr>qe_valid := False\<rparr>)) r)))"
      "qe_value ((QT(s := QT s\<lparr>qe_valid := False\<rparr>)) (qe_value ((RT(B := RT B\<lparr>qe_valid := False\<rparr>)) r))) = r"
      using r D(1-4)[OF r(2)] slot[OF r(2)] by auto
  next
    fix z assume v: "qe_valid ((QT(s := QT s\<lparr>qe_valid := False\<rparr>)) z)"
    then have z: "z \<noteq> s" "qe_valid (QT z)" by (simp_all split: if_splits)
    show "z < Q" "qe_valid ((RT(B := RT B\<lparr>qe_valid := False\<rparr>)) (qe_value ((QT(s := QT s\<lparr>qe_valid := False\<rparr>)) z)))"
      "qe_value ((RT(B := RT B\<lparr>qe_valid := False\<rparr>)) (qe_value ((QT(s := QT s\<lparr>qe_valid := False\<rparr>)) z))) = z"
      using z D(5-7)[OF z(2)] row[OF z(2)] by auto
  qed
qed

lemma rq_drainRow_spec:
  assumes wf: "rq_wf hs lim q"
  shows "\<exists>q'. rq_drainRow q = Inr q' \<and> rq_wf hs lim q' \<and>
    quarantined (rq_row_To_QR_T q') = quarantined (rq_row_To_QR_T q) -
      (if rq_QRTail_ID q \<noteq> rq_prevQRHead_ID q \<and> qe_valid (rq_QR_To_Row_T q (rq_QRTail_ID q))
       then {qe_value (rq_QR_To_Row_T q (rq_QRTail_ID q))} else {}) \<and>
    rq_numRows q' = rq_numRows q \<and> rq_randRowID q' = rq_randRowID q \<and> rq_detector q' = rq_detector q"
proof -
  define q0 where "q0 = (rq_virt_delay q)"
  have quiet: "rq_quiet q q0" using wf by (simp add: q0_def rq_quiet_def rq_wf_def)
  have wf0: "rq_wf hs lim q0" by (rule rq_wf_quiet[OF wf quiet])
  have core0: "rq_core q0 = rq_core q" using quiet by (simp add: rq_quiet_def)
  note c0 = rq_core_eq[OF core0]
  show ?thesis
  proof (cases "rq_QRTail_ID q \<noteq> rq_prevQRHead_ID q \<and> qe_valid (rq_QR_To_Row_T q (rq_QRTail_ID q))")
    case False
    then have "rq_drainRow q = Inr q0" using c0 by (auto simp: rq_drainRow_def q0_def[symmetric])
    then show ?thesis using False wf0 c0 by auto
  next
    case True
    define t where "t = rq_QRTail_ID q"
    define RT where "RT = rq_row_To_QR_T q"
    define QT where "QT = rq_QR_To_Row_T q"
    define B where "B = qe_value (QT t)"
    note W = wf0[unfolded rq_wf_def c0 RT_def[symmetric] QT_def[symmetric] t_def[symmetric]]
    have T: "rq_tables_wf (rq_numRows q) (rq_numQREntries q) RT QT" using W by simp
    note D = rq_tablesD[OF T]
    have vt: "qe_valid (QT t)" using True by (simp add: t_def QT_def)
    define q1 where "q1 = q0\<lparr>rq_s_drain_qr := rq_s_drain_qr q0 + 1\<rparr>"
    have q1: "rq_core q1 = rq_core q" "rq_filters q1 = rq_filters q0" "rq_cache_wf q1"
      using core0 W by (simp_all add: q1_def rq_core_def rq_filters_def rq_cache_wf_def)
    note c1 = rq_core_eq[OF q1(1)]
    have B: "qe_valid (RT B)" "B < rq_numRows q" "B \<in> quarantined RT"
      using D(6)[OF vt] D(1)[of B] by (auto simp: B_def quarantined_def)
    have "B < 2 ^ 32" using B(2) W by simp
    then obtain q2 d where q2: "rq_removeRow q1 t = Inr (q2, d)"
      "rq_core q2 = rq_core (q1\<lparr>rq_QR_To_Row_T := QT(t := (QT t)\<lparr>qe_valid := False\<rparr>),
        rq_row_To_QR_T := RT(B := (RT B)\<lparr>qe_valid := False\<rparr>)\<rparr>)"
      "rq_marks hs lim (rq_numRows q) (rq_filters q2) (quarantined RT - {B})" "rq_cache_wf q2"
      using rq_removeRow_spec[of hs lim "rq_numRows q" q1 "quarantined RT" t B] q1 W
        quarantined_card(1)[OF T] B c1 by (auto simp: RT_def QT_def t_def B_def)
    define q3 where "q3 = rq_delay q2 (rq_moveDelay q2)"
    define q4 where "q4 = (rq_virt_delay q3)"
    define q5 where "q5 = (rq_virt_delay q4)"
    have q5: "rq_core q5 = rq_core q2" "rq_filters q5 = rq_filters q2" "rq_cache_wf q5"
      using q2(4) by (simp_all add: q5_def q4_def q3_def)
    have c5: "rq_numRows q5 = rq_numRows q" "rq_numQREntries q5 = rq_numQREntries q"
      "rq_row_To_QR_T q5 = RT(B := (RT B)\<lparr>qe_valid := False\<rparr>)"
      "rq_QR_To_Row_T q5 = QT(t := (QT t)\<lparr>qe_valid := False\<rparr>)"
      "rq_nextFreeQR_ID q5 = rq_nextFreeQR_ID q" "rq_prevQRHead_ID q5 = rq_prevQRHead_ID q"
      "rq_QRTail_ID q5 = t" "rq_randRowID q5 = rq_randRowID q" "rq_detector q5 = rq_detector q"
      using rq_core_eq[OF q5(1)] rq_core_eq[OF q2(2)] c1 by (simp_all add: t_def)
    define q6 where "q6 = q5\<lparr>rq_QRTail_ID := (rq_QRTail_ID q5 + 1) mod rq_numQREntries q5\<rparr>"
    have eq: "rq_drainRow q = Inr q6"
      unfolding rq_drainRow_def q0_def[symmetric] using True c0 q2(1)[unfolded q1_def] c5(2) W
      by (simp add: Let_def t_def[symmetric] q3_def[symmetric] q4_def[symmetric]
          q5_def[symmetric] q6_def)
    have S: "quarantined (RT(B := (RT B)\<lparr>qe_valid := False\<rparr>)) = quarantined RT - {B}"
      by (auto simp: quarantined_def)
    have "rq_wf hs lim q6"
      using W c5 q2(3) q5 rq_remove_tables_wf[OF T vt] S
      by (simp add: rq_wf_def q6_def B_def rq_filters_def rq_cache_wf_def)
    then show ?thesis using eq True c5 S
      by (simp add: q6_def RT_def QT_def B_def t_def)
  qed
qed

section \<open>Reset, construction and access\<close>

lemma rq_reset_spec:
  assumes "rq_wf hs lim q"
  shows "\<exists>q'. rq_reset ops q = Inr q' \<and> rq_wf hs lim q' \<and> rq_row_To_QR_T q' = rq_row_To_QR_T q \<and>
    rq_QR_To_Row_T q' = rq_QR_To_Row_T q \<and> rq_prevQRHead_ID q' = rq_nextFreeQR_ID q \<and>
    rq_nextFreeQR_ID q' = rq_nextFreeQR_ID q \<and> rq_detector q' = det_reset ops (rq_detector q) \<and>
    rq_numRows q' = rq_numRows q \<and> rq_randRowID q' = rq_randRowID q \<and> rq_QRTail_ID q' = rq_QRTail_ID q \<and>
    rq_numQREntries q' = rq_numQREntries q \<and> rq_bitvector q' = rq_bitvector q"
proof -
  have "0 < btv_rows_per_bit (rq_bitvector q)"
    using assms by (auto simp: rq_wf_def rq_marks_def rq_filters_def btv_inv_def split: option.splits)
  then show ?thesis using assms
    by (simp add: rq_reset_def Let_def rq_wf_def rq_filters_def rq_cache_wf_def)
qed

lemma rq_swap_perm:
  assumes "i < length xs" "j < length xs"
  shows "mset (rq_swap xs i j) = mset xs" "length (rq_swap xs i j) = length xs"
  using mset_swap[of j xs i] assms by (simp_all add: rq_swap_def)

lemma rq_shuffle_perm: "mset (rq_shuffle rnd n) = mset [0..<n]"
proof -
  have "length xs = n \<Longrightarrow> set is \<subseteq> {..<n} \<Longrightarrow>
      mset (foldl (\<lambda>xs ii. rq_swap xs ii (rnd ii mod n)) xs is) = mset xs" for xs "is"
  proof (induction "is" arbitrary: xs)
    case (Cons i "is")
    have "i < length xs" "rnd i mod n < length xs" using Cons.prems by auto
    note P = rq_swap_perm[OF this]
    show ?case using Cons.IH[of "rq_swap xs i (rnd i mod n)"] Cons.prems P by simp
  qed simp
  from this[of "[0..<n]" "[0..<n]"] show ?thesis by (simp add: rq_shuffle_def atLeast0LessThan)
qed

lemma rq_shuffle_length: "length (rq_shuffle rnd n) = n"
  using arg_cong[OF rq_shuffle_perm, of size] by simp

lemma rq_shuffle_set: "set (rq_shuffle rnd n) = {..<n}"
  using arg_cong[OF rq_shuffle_perm, of set_mset] by auto

lemma rq_shuffle_distinct: "distinct (rq_shuffle rnd n)"
  using rq_shuffle_perm[of rnd n] by (metis distinct_upt mset_eq_imp_distinct_iff)

lemma rq_new_wf:
  assumes "numRows * nb * nk * nc < 2 ^ 32" "0 < Q" "Q < lim" "lim \<le> 4294967295"
    and "rq_filter mem = None" "0 < btv_rows_per_bit (rq_bitvector mem)" "rq_cache_wf mem"
  shows "rq_wf hs lim (rq_new rnd mem Q numRows threshold nb nk nc)"
proof -
  have n: "u32 (numRows * nb * nk * nc) = numRows * nb * nk * nc" using assms(1) by (simp add: u32_id)
  have "x div btv_rows_per_bit (rq_bitvector mem) < m" if "x < m" for x m :: nat
    using that div_le_dividend[of x] by (rule order_le_less_trans[rotated])
  then show ?thesis using assms
    by (simp add: rq_wf_def rq_new_def Let_def n rq_tables_wf_def rq_marks_def rq_filters_def btv_inv_def
        quarantined_def rq_cache_wf_def)
qed

lemma rq_decodeAddr_spec:
  assumes "addr div 8192 < length (rq_randRowID q)" "length (rq_randRowID q) < 2 ^ 32" "0 < rq_numRows q div 16"
  shows "\<exists>q'. rq_decodeAddr q addr = Inr (q', \<lparr>da_rowID = rq_randRowID q ! (addr div 8192) div 16 mod (rq_numRows q div 16),
      da_bankID = rq_randRowID q ! (addr div 8192) mod 16, da_rankID = 0, da_channelID = 0\<rparr>) \<and>
    rq_core q' = rq_core q \<and> rq_filters q' = rq_filters q \<and> rq_cache q' = rq_cache q"
proof -
  have "addr div 8192 < 4294967296" using assms(1,2) by simp
  then have "u32 (addr div 8192) = addr div 8192" by (rule u32_id)
  then show ?thesis using assms
    by (simp add: rq_decodeAddr_def Let_def rq_core_def rq_filters_def)
qed

text \<open>The state an access works on: a new refresh window resets the detector first.\<close>

definition rq_rollover :: "'d rq \<Rightarrow> tick \<Rightarrow> bool" where
  "rq_rollover q t \<longleftrightarrow> REFRESH_WINDOW \<le> sub64 t (rq_last_reset q)"

lemma rq_window_spec:
  fixes q :: "'d rq"
  assumes wf: "rq_wf hs lim q"
  defines "q1 \<equiv> q\<lparr>rq_s_num_accesses := rq_s_num_accesses q + 1, rq_decision := resetDecision (rq_decision q)\<rparr>"
  shows "\<exists>q2. (if REFRESH_WINDOW \<le> sub64 tick (rq_last_reset q1) then rq_reset ops (q1\<lparr>rq_last_reset := tick\<rparr>) else Inr q1) = Inr q2 \<and>
    rq_wf hs lim q2 \<and> rq_row_To_QR_T q2 = rq_row_To_QR_T q \<and> rq_QR_To_Row_T q2 = rq_QR_To_Row_T q \<and>
    rq_nextFreeQR_ID q2 = rq_nextFreeQR_ID q \<and> rq_QRTail_ID q2 = rq_QRTail_ID q \<and> rq_numRows q2 = rq_numRows q \<and>
    rq_numQREntries q2 = rq_numQREntries q \<and> rq_randRowID q2 = rq_randRowID q \<and> rq_bitvector q2 = rq_bitvector q \<and>
    rq_prevQRHead_ID q2 = (if rq_rollover q tick then rq_nextFreeQR_ID q else rq_prevQRHead_ID q) \<and>
    rq_detector q2 = (if rq_rollover q tick then det_reset ops (rq_detector q) else rq_detector q)"
proof -
  have same: "rq_wf hs lim q1 = rq_wf hs lim q" "rq_wf hs lim (q1\<lparr>rq_last_reset := tick\<rparr>) = rq_wf hs lim q"
    by (simp_all add: q1_def rq_wf_def rq_filters_def rq_cache_wf_def)
  have roll: "REFRESH_WINDOW \<le> sub64 tick (rq_last_reset q1) \<longleftrightarrow> rq_rollover q tick"
    by (simp add: q1_def rq_rollover_def)
  show ?thesis
  proof (cases "rq_rollover q tick")
    case False
    then show ?thesis unfolding roll using same(1) wf by (simp add: q1_def)
  next
    case True
    then show ?thesis unfolding roll using rq_reset_spec[of hs lim "q1\<lparr>rq_last_reset := tick\<rparr>" ops] same(2) wf
      by (simp add: q1_def) blast
  qed
qed

lemma rq_access_spec:
  fixes q :: "'d rq"
  assumes wf: "rq_wf hs lim q" and rand: "length (rq_randRowID q) = rq_numRows q" "set (rq_randRowID q) \<subseteq> {..<rq_numRows q}"
    and a: "addr div 8192 < rq_numRows q" "16 \<le> rq_numRows q" and fit: "rq_groups_fit q"
    and r: "r = rq_randRowID q ! (addr div 8192)"
    and D: "D = (if rq_rollover q tick then det_reset ops (rq_detector q) else rq_detector q)"
    and H: "H = (if rq_rollover q tick then rq_nextFreeQR_ID q else rq_prevQRHead_ID q)"
  shows "case det_access ops D (r div 16 mod (rq_numRows q div 16)) (r mod 16) 0 0 False of
      Inl e \<Rightarrow> rq_access ops q tick addr = Inl e
    | Inr (d, f) \<Rightarrow> \<exists>q'. rq_access ops q tick addr = Inr q' \<and> rq_wf hs lim q' \<and> rq_detector q' = d \<and>
        rq_numRows q' = rq_numRows q \<and> rq_randRowID q' = rq_randRowID q \<and>
        (f \<longrightarrow> rq_row_To_QR_T q' = rq_move_RT (rq_row_To_QR_T q) (rq_QR_To_Row_T q) r (rq_nextFreeQR_ID q)) \<and>
        (\<not> f \<longrightarrow> quarantined (rq_row_To_QR_T q') = quarantined (rq_row_To_QR_T q) \<or>
           (rq_QRTail_ID q \<noteq> H \<and> qe_valid (rq_QR_To_Row_T q (rq_QRTail_ID q)) \<and>
            quarantined (rq_row_To_QR_T q') = quarantined (rq_row_To_QR_T q) - {qe_value (rq_QR_To_Row_T q (rq_QRTail_ID q))}))"
proof -
  have rn: "r < rq_numRows q" using rand a(1) r by (metis lessThan_iff nth_mem subsetD)
  have n32: "rq_numRows q < 2 ^ 32" using wf by (simp add: rq_wf_def)
  define q1 where "q1 = q\<lparr>rq_s_num_accesses := rq_s_num_accesses q + 1, rq_decision := resetDecision (rq_decision q)\<rparr>"
  obtain q2 where q2: "(if REFRESH_WINDOW \<le> sub64 tick (rq_last_reset q1) then rq_reset ops (q1\<lparr>rq_last_reset := tick\<rparr>) else Inr q1) = Inr q2"
    "rq_wf hs lim q2" "rq_row_To_QR_T q2 = rq_row_To_QR_T q" "rq_QR_To_Row_T q2 = rq_QR_To_Row_T q"
    "rq_nextFreeQR_ID q2 = rq_nextFreeQR_ID q" "rq_QRTail_ID q2 = rq_QRTail_ID q" "rq_numRows q2 = rq_numRows q"
    "rq_numQREntries q2 = rq_numQREntries q" "rq_randRowID q2 = rq_randRowID q" "rq_prevQRHead_ID q2 = H" "rq_detector q2 = D"
    "rq_bitvector q2 = rq_bitvector q"
    using rq_window_spec[OF wf, of tick ops] unfolding q1_def[symmetric] D H by blast
  obtain q3 where q3: "rq_addQCheckDelay q2 r = Inr q3" "rq_wf hs lim q3" "rq_core q3 = rq_core q2"
    using rq_addQCheckDelay_spec[OF q2(2), of r] rn q2(7,12) fit by (auto simp: rq_groups_fit_def)
  note c3 = rq_core_eq[OF q3(3)]
  have d16: "0 < rq_numRows q div 16" using a(2) by (simp add: div_greater_zero_iff)
  obtain q4 where q4: "rq_decodeAddr q3 addr = Inr (q4, \<lparr>da_rowID = r div 16 mod (rq_numRows q div 16),
      da_bankID = r mod 16, da_rankID = 0, da_channelID = 0\<rparr>)"
    "rq_core q4 = rq_core q2" "rq_filters q4 = rq_filters q3" "rq_cache q4 = rq_cache q3"
    using rq_decodeAddr_spec[of addr q3] a(1) d16 rand(1) n32 q3(3) c3 r q2(7,9) by auto
  note c4 = rq_core_eq[OF q4(2)]
  define q5 where "q5 d f = q4\<lparr>rq_detector := d, rq_decision := (rq_decision q4)\<lparr>d_mitigate := f\<rparr>\<rparr>" for d f
  have eq: "rq_access ops q tick addr =
     rbind (det_access ops D (r div 16 mod (rq_numRows q div 16)) (r mod 16) 0 0 False) (\<lambda>(d, f).
      let misses = rq_s_cache_miss (q5 d f) + rq_s_cache_partial_hit_orr_unset (q5 d f) in
      if f then rq_quarantineRow (q5 d f) r
      else if rq_drain_cache_miss_threshold (q5 d f) \<le> sub64 misses (rq_prev_drain_cache_miss_val (q5 d f))
      then rq_drainRow ((q5 d f)\<lparr>rq_prev_drain_cache_miss_val := misses\<rparr>) else Inr (q5 d f))"
    unfolding rq_access_def Let_def q1_def[symmetric] q2(1)
    by (simp add: q3(1) q4(1) a(1) rand(1) q2(9,11) c4(9) r[symmetric] q5_def cong: if_cong)
  show ?thesis
  proof (cases "det_access ops D (r div 16 mod (rq_numRows q div 16)) (r mod 16) 0 0 False")
    case (Inl e)
    then show ?thesis using eq by simp
  next
    case (Inr df)
    obtain d f where df: "df = (d, f)" by (cases df)
    have c5: "rq_numRows (q5 d f) = rq_numRows q" "rq_row_To_QR_T (q5 d f) = rq_row_To_QR_T q"
      "rq_QR_To_Row_T (q5 d f) = rq_QR_To_Row_T q" "rq_nextFreeQR_ID (q5 d f) = rq_nextFreeQR_ID q" "rq_detector (q5 d f) = d"
      "rq_randRowID (q5 d f) = rq_randRowID q" "rq_QRTail_ID (q5 d f) = rq_QRTail_ID q" "rq_prevQRHead_ID (q5 d f) = H"
      using c4 q2 by (simp_all add: q5_def)
    have wf5: "rq_wf hs lim (q5 d f)"
      using q3(2) c3 c4 q4(3,4) by (simp add: rq_wf_def q5_def rq_filters_def rq_cache_wf_def)
    define misses where "misses = rq_s_cache_miss (q5 d f) + rq_s_cache_partial_hit_orr_unset (q5 d f)"
    define q6 where "q6 = (q5 d f)\<lparr>rq_prev_drain_cache_miss_val := misses\<rparr>"
    have wf6: "rq_wf hs lim q6" using wf5 by (simp add: rq_wf_def q6_def rq_filters_def rq_cache_wf_def)
    have c6: "rq_numRows q6 = rq_numRows q" "rq_row_To_QR_T q6 = rq_row_To_QR_T q" "rq_QR_To_Row_T q6 = rq_QR_To_Row_T q"
      "rq_randRowID q6 = rq_randRowID q" "rq_detector q6 = d" "rq_QRTail_ID q6 = rq_QRTail_ID q" "rq_prevQRHead_ID q6 = H"
      using c5 by (simp_all add: q6_def)
    have eq': "rq_access ops q tick addr = (if f then rq_quarantineRow (q5 d f) r
      else if rq_drain_cache_miss_threshold (q5 d f) \<le> sub64 misses (rq_prev_drain_cache_miss_val (q5 d f))
      then rq_drainRow q6 else Inr (q5 d f))"
      unfolding eq Inr df by (simp add: Let_def misses_def q6_def)
    show ?thesis
    proof (cases f)
      case True
      then show ?thesis using eq' rq_quarantineRow_spec[OF wf5, of r] rn c5 Inr df by auto
    next
      case False
      show ?thesis
        using False eq' rq_drainRow_spec[OF wf6] wf5 c5 c6 Inr df by (auto split: if_splits)
    qed
  qed
qed

section \<open>Where rows live\<close>

text \<open>The physical location of a row: its own, or \<open>n\<close> plus its quarantine slot.\<close>

definition rq_place :: "nat \<Rightarrow> (nat \<Rightarrow> rq_entry) \<Rightarrow> nat \<Rightarrow> nat" where
  "rq_place n RT r = (case rq_slot_of RT r of None \<Rightarrow> r | Some s \<Rightarrow> n + s)"

definition rq_rows_wf :: "nat \<Rightarrow> (nat \<times> (nat \<Rightarrow> rq_entry)) \<Rightarrow> bool" where
  "rq_rows_wf n t \<longleftrightarrow> fst t = n \<and> (\<exists>Q QT. rq_tables_wf n Q (snd t) QT)"

interpretation quarantine: row_placement "\<lambda>t. rq_place (fst t) (snd t)" rq_rows_wf
proof
  fix n t r q
  assume wf: "rq_rows_wf n t" and rq: "r < n" "q < n" and eq: "rq_place (fst t) (snd t) r = rq_place (fst t) (snd t) q"
  obtain Q QT where T: "rq_tables_wf n Q (snd t) QT" "fst t = n" using wf by (auto simp: rq_rows_wf_def)
  note D = rq_tablesD[OF T(1)]
  show "r = q"
  proof (cases "rq_slot_of (snd t) r")
    case None
    then show ?thesis using eq rq T(2) by (auto simp: rq_place_def split: option.splits)
  next
    case (Some s)
    then have "rq_slot_of (snd t) q = Some s"
      using eq rq T(2) by (auto simp: rq_place_def split: option.splits)
    then show ?thesis using Some D(4) unfolding rq_slot_of_def by (metis option.inject option.simps(3))
  qed
qed

section \<open>Properties\<close>

text \<open>C14: Quarantining a row never fails an assertion, keeps the two indirection tables inverse to each
  other and the filter in step with them.  A row that does not already sit in the head slot ends up in
  it, the row that was there returns home, and every other row stays where it was.\<close>

theorem quarantine_moves_row:
  assumes "rq_wf hs lim q" "A < rq_numRows q"
    and "rq_slot_of (rq_row_To_QR_T q) A \<noteq> Some (rq_nextFreeQR_ID q)"
  shows "\<exists>q'. rq_quarantineRow q A = Inr q' \<and> rq_wf hs lim q' \<and>
    rq_slot_of (rq_row_To_QR_T q') A = Some (rq_nextFreeQR_ID q) \<and>
    (\<forall>r. r \<noteq> A \<longrightarrow> rq_slot_of (rq_row_To_QR_T q') r =
       (if rq_slot_of (rq_row_To_QR_T q) r = Some (rq_nextFreeQR_ID q) then None
        else rq_slot_of (rq_row_To_QR_T q) r)) \<and>
    rq_nextFreeQR_ID q' = (rq_nextFreeQR_ID q + 1) mod rq_numQREntries q"
proof -
  have "rq_tables_wf (rq_numRows q) (rq_numQREntries q) (rq_row_To_QR_T q) (rq_QR_To_Row_T q)"
    using assms(1) by (simp add: rq_wf_def)
  note slot = rq_move_slot[OF this, of A "rq_nextFreeQR_ID q"]
  show ?thesis using rq_quarantineRow_spec[OF assms(1,2)] assms(3) by (auto simp: slot)
qed

text \<open>A state to apply the properties to: 32 rows, 4 slots, one counter per 16 rows, a cache.\<close>

definition rq_example :: "unit rq" where
  "rq_example = rq_new (\<lambda>i. i) (undefined\<lparr>rq_filter := None,
     rq_bitvector := \<lparr>btv_bits = [], btv_rows_per_bit = 16\<rparr>, rq_cache := Some (fc_new 2 4 16)\<rparr>) 4 32 5 1 1 1"

lemma rq_example_wf: "rq_wf 0 4294967295 rq_example"
  unfolding rq_example_def by (rule rq_new_wf) (simp_all add: rq_cache_wf_def fc_new_wf)

lemma rq_example_simps:
  "rq_numRows rq_example = 32" "rq_numQREntries rq_example = 4" "rq_nextFreeQR_ID rq_example = 0"
  "rq_slot_of (rq_row_To_QR_T rq_example) r = None" "rq_last_reset rq_example = 0"
  "rq_randRowID rq_example = rq_shuffle (\<lambda>i. i) 32" "btv_rows_per_bit (rq_bitvector rq_example) = 16"
  by (simp_all add: rq_example_def rq_new_def Let_def u32_def rq_slot_of_def)

theorem quarantine_moves_row_witness:
  "\<exists>q'. rq_quarantineRow rq_example 7 = Inr q' \<and> rq_slot_of (rq_row_To_QR_T q') 7 = Some 0 \<and>
    rq_nextFreeQR_ID q' = 1"
  using quarantine_moves_row[OF rq_example_wf, of 7] by (auto simp: rq_example_simps)

text \<open>C23: A row that already sits in the head slot when it is mitigated again is not moved but released:
  afterwards it has no quarantine slot at all, although the access was charged the delays of a move.\<close>

theorem quarantine_in_head_slot_releases_row:
  assumes "rq_wf hs lim q" "A < rq_numRows q"
    and "rq_slot_of (rq_row_To_QR_T q) A = Some (rq_nextFreeQR_ID q)"
  shows "\<exists>q'. rq_quarantineRow q A = Inr q' \<and> rq_wf hs lim q' \<and> rq_slot_of (rq_row_To_QR_T q') A = None"
proof -
  have "rq_tables_wf (rq_numRows q) (rq_numQREntries q) (rq_row_To_QR_T q) (rq_QR_To_Row_T q)"
    using assms(1) by (simp add: rq_wf_def)
  note slot = rq_move_slot[OF this, of A "rq_nextFreeQR_ID q"]
  show ?thesis using rq_quarantineRow_spec[OF assms(1,2)] assms(3) by (auto simp: slot)
qed

theorem quarantine_in_head_slot_releases_row_witness:
  "\<exists>q q'. rq_slot_of (rq_row_To_QR_T q) 7 = Some (rq_nextFreeQR_ID q) \<and>
    rq_quarantineRow (q :: unit rq) 7 = Inr q' \<and> rq_slot_of (rq_row_To_QR_T q') 7 = None"
proof -
  define q :: "unit rq" where "q = rq_new (\<lambda>i. i) (undefined\<lparr>rq_filter := None,
     rq_bitvector := \<lparr>btv_bits = [], btv_rows_per_bit = 16\<rparr>, rq_cache := None\<rparr>) 1 32 5 1 1 (1 :: nat)"
  have wf: "rq_wf 0 4294967295 q"
    unfolding q_def by (rule rq_new_wf) (simp_all add: rq_cache_wf_def)
  have sel: "rq_numRows q = 32" "rq_numQREntries q = 1" "rq_nextFreeQR_ID q = 0"
    "rq_slot_of (rq_row_To_QR_T q) r = None" for r
    by (simp_all add: q_def rq_new_def Let_def u32_def rq_slot_of_def)
  have T: "rq_tables_wf 32 1 (rq_row_To_QR_T q) (rq_QR_To_Row_T q)"
    using wf sel by (simp add: rq_wf_def)
  have "7 < rq_numRows q" by (simp add: sel)
  from rq_quarantineRow_spec[OF wf this] obtain q1 :: "unit rq" where "rq_wf 0 4294967295 q1"
    "rq_row_To_QR_T q1 = rq_move_RT (rq_row_To_QR_T q) (rq_QR_To_Row_T q) 7 (rq_nextFreeQR_ID q)"
    "rq_nextFreeQR_ID q1 = (rq_nextFreeQR_ID q + 1) mod rq_numQREntries q" "rq_numRows q1 = rq_numRows q"
    by blast
  then have q1: "rq_wf 0 4294967295 q1"
    "rq_row_To_QR_T q1 = rq_move_RT (rq_row_To_QR_T q) (rq_QR_To_Row_T q) 7 0"
    "rq_nextFreeQR_ID q1 = 0" "rq_numRows q1 = 32" by (simp_all add: sel)
  have "rq_slot_of (rq_row_To_QR_T q1) 7 = Some 0" using rq_move_slot[OF T, of 7 0 7] q1(2) sel by simp
  with q1 have q1: "rq_wf 0 4294967295 q1" "rq_slot_of (rq_row_To_QR_T q1) 7 = Some 0"
    "rq_nextFreeQR_ID q1 = 0" "rq_numRows q1 = 32" by simp_all
  obtain q2 where q2: "rq_quarantineRow q1 7 = Inr q2" "rq_slot_of (rq_row_To_QR_T q2) 7 = None"
    using quarantine_in_head_slot_releases_row[OF q1(1), of 7] q1 by auto
  show ?thesis
    by (intro exI[of _ q1] exI[of _ q2] conjI) (simp_all add: q1 q2)
qed

text \<open>The lookup of a row (filter, cache, indirection table) never faults when the groups divide the table: in particular the
  assertion that a row the filter denies is not quarantined always holds.  It moves no row.\<close>

theorem quarantine_lookup_never_fails:
  assumes "rq_wf hs lim q" "r < rq_numRows q" "rq_groups_fit q"
  shows "\<exists>q'. rq_addQCheckDelay q r = Inr q' \<and> rq_wf hs lim q' \<and> rq_row_To_QR_T q' = rq_row_To_QR_T q \<and>
    rq_QR_To_Row_T q' = rq_QR_To_Row_T q"
  using rq_addQCheckDelay_spec[OF assms] rq_core_eq(3,4) by blast

theorem quarantine_lookup_never_fails_witness:
  "\<exists>q'. rq_addQCheckDelay rq_example 9 = Inr q' \<and> rq_row_To_QR_T q' = rq_row_To_QR_T rq_example"
  using quarantine_lookup_never_fails[OF rq_example_wf, of 9] by (auto simp: rq_example_simps rq_groups_fit_def)

text \<open>C13: An access of the row quarantine to a row of its table (of 16 rows or more, which the rows per filter
  bit divide), at any tick, the first of a new refresh
  window (which resets the detector) included: it fails only with the detector's own failure, and otherwise
  the invariant is kept and the detector has counted the access.  A flagged row that is not in the head
  slot moves into it, the row of that slot returns home and all others stay; without a flag the quarantined
  rows stay, or one leaves: the one in the tail slot, unless the tail is where the window's slots begin.\<close>

theorem quarantine_access_safe:
  assumes "rq_wf hs lim q" "length (rq_randRowID q) = rq_numRows q" "set (rq_randRowID q) \<subseteq> {..<rq_numRows q}"
    and "addr div 8192 < rq_numRows q" "16 \<le> rq_numRows q" "btv_rows_per_bit (rq_bitvector q) dvd rq_numRows q"
    and "r = rq_randRowID q ! (addr div 8192)"
    and "D = (if REFRESH_WINDOW \<le> sub64 tick (rq_last_reset q) then det_reset ops (rq_detector q) else rq_detector q)"
    and "H = (if REFRESH_WINDOW \<le> sub64 tick (rq_last_reset q) then rq_nextFreeQR_ID q else rq_prevQRHead_ID q)"
  shows "case det_access ops D (r div 16 mod (rq_numRows q div 16)) (r mod 16) 0 0 False of
      Inl e \<Rightarrow> rq_access ops q tick addr = Inl e
    | Inr (d, f) \<Rightarrow> \<exists>q'. rq_access ops q tick addr = Inr q' \<and> rq_wf hs lim q' \<and> rq_detector q' = d \<and>
        (f \<and> rq_slot_of (rq_row_To_QR_T q) r \<noteq> Some (rq_nextFreeQR_ID q) \<longrightarrow>
           rq_slot_of (rq_row_To_QR_T q') r = Some (rq_nextFreeQR_ID q) \<and>
           (\<forall>x. x \<noteq> r \<longrightarrow> rq_slot_of (rq_row_To_QR_T q') x =
             (if rq_slot_of (rq_row_To_QR_T q) x = Some (rq_nextFreeQR_ID q) then None else rq_slot_of (rq_row_To_QR_T q) x))) \<and>
        (\<not> f \<longrightarrow> quarantined (rq_row_To_QR_T q') = quarantined (rq_row_To_QR_T q) \<or>
           (rq_QRTail_ID q \<noteq> H \<and> qe_valid (rq_QR_To_Row_T q (rq_QRTail_ID q)) \<and>
            quarantined (rq_row_To_QR_T q') = quarantined (rq_row_To_QR_T q) - {qe_value (rq_QR_To_Row_T q (rq_QRTail_ID q))}))"
proof -
  have fit: "rq_groups_fit q"
    using assms(1,6) by (auto simp: rq_groups_fit_def rq_wf_def rq_marks_def rq_filters_def btv_inv_def split: option.splits)
  note spec = rq_access_spec[OF assms(1-5) fit assms(7) assms(8,9)[folded rq_rollover_def]]
  have "rq_tables_wf (rq_numRows q) (rq_numQREntries q) (rq_row_To_QR_T q) (rq_QR_To_Row_T q)"
    using assms(1) by (simp add: rq_wf_def)
  note slot = rq_move_slot[OF this]
  show ?thesis
  proof (cases "det_access ops D (r div 16 mod (rq_numRows q div 16)) (r mod 16) 0 0 False")
    case (Inl e)
    then show ?thesis using spec by simp
  next
    case (Inr df)
    obtain d f where df: "df = (d, f)" by (cases df)
    show ?thesis using spec unfolding Inr df sum.case prod.case by (cases f) (fastforce simp: slot)+
  qed
qed

theorem quarantine_access_safe_witness:
  "\<exists>q'. rq_access \<lparr>det_access = (\<lambda>d r b k c f. Inr (d, True)), det_reset = id\<rparr> rq_example REFRESH_WINDOW 8200 = Inr q' \<and>
    rq_wf 0 4294967295 q' \<and> rq_slot_of (rq_row_To_QR_T q') (rq_shuffle (\<lambda>i. i) 32 ! 1) = Some 0"
proof -
  let ?ops = "\<lparr>det_access = (\<lambda>d r b k c f. Inr (d, True)), det_reset = id\<rparr> :: unit detector_ops"
  have s: "length (rq_randRowID rq_example) = rq_numRows rq_example" "set (rq_randRowID rq_example) \<subseteq> {..<rq_numRows rq_example}"
    by (simp_all add: rq_example_simps rq_shuffle_length rq_shuffle_set)
  show ?thesis
    using quarantine_access_safe[OF rq_example_wf s, of 8200 _ _ REFRESH_WINDOW ?ops, OF _ _ _ refl refl refl]
    by (auto simp: rq_example_simps)
qed

text \<open>Two different rows never share a physical location: the quarantine slots of a well-formed state
  are pairwise different and disjoint from the rows that stayed home.\<close>

theorem quarantine_placement_injective:
  assumes "rq_wf hs lim q"
  shows "inj_on (rq_place (rq_numRows q) (rq_row_To_QR_T q)) {..<rq_numRows q}"
proof -
  have "rq_rows_wf (rq_numRows q) (rq_numRows q, rq_row_To_QR_T q)"
    using assms by (auto simp: rq_rows_wf_def rq_wf_def)
  from quarantine.inj_on_place[OF this] show ?thesis by simp
qed

theorem quarantine_placement_injective_witness:
  "inj_on (rq_place 32 (rq_row_To_QR_T rq_example)) {..<32}"
  using quarantine_placement_injective[OF rq_example_wf] by (simp add: rq_example_simps)

text \<open>The constructor's shuffle is a permutation of the rows, and the detector counts each row under
  its own bank and row number: two pages that map to different DRAM rows never share a detector
  counter.\<close>

theorem quarantine_decode_injective:
  assumes "n = 16 * m" "a div 8192 < n" "b div 8192 < n" "a div 8192 \<noteq> b div 8192" "n < 2 ^ 32"
    and "rq_numRows q = n" "rq_randRowID q = rq_shuffle rnd n"
    and "rq_decodeAddr q a = Inr (qa, da)" "rq_decodeAddr q b = Inr (qb, db)"
  shows "(da_rowID da, da_bankID da) \<noteq> (da_rowID db, da_bankID db)"
proof -
  let ?x = "rq_shuffle rnd n ! (a div 8192)" and ?y = "rq_shuffle rnd n ! (b div 8192)"
  have len: "length (rq_shuffle rnd n) = n" by (rule rq_shuffle_length)
  have xy: "?x \<noteq> ?y" using assms(2-4) rq_shuffle_distinct[of rnd n] by (simp add: nth_eq_iff_index_eq len)
  have "?x < n" "?y < n" using assms(2,3) rq_shuffle_set[of rnd n] nth_mem[of _ "rq_shuffle rnd n"] len by auto
  then have "?x div 16 < m" "?y div 16 < m" using assms(1) by auto
  moreover have "da_rowID da = ?x div 16 mod m \<and> da_bankID da = ?x mod 16"
    "da_rowID db = ?y div 16 mod m \<and> da_bankID db = ?y mod 16"
    using assms rq_decodeAddr_spec[of a q] rq_decodeAddr_spec[of b q] len by auto
  ultimately show ?thesis using xy by (metis Pair_inject div_mult_mod_eq mod_less)
qed

theorem quarantine_decode_injective_witness:
  "\<exists>qa da qb db. rq_decodeAddr rq_example 0 = Inr (qa, da) \<and> rq_decodeAddr rq_example 8192 = Inr (qb, db) \<and>
    (da_rowID da, da_bankID da) \<noteq> (da_rowID db, da_bankID db)"
proof -
  obtain qa da where a: "rq_decodeAddr rq_example 0 = Inr (qa, da)"
    using rq_decodeAddr_spec[of 0 rq_example] by (auto simp: rq_example_simps rq_shuffle_length)
  obtain qb db where b: "rq_decodeAddr rq_example 8192 = Inr (qb, db)"
    using rq_decodeAddr_spec[of 8192 rq_example] by (auto simp: rq_example_simps rq_shuffle_length)
  show ?thesis
    using quarantine_decode_injective[OF _ _ _ _ _ _ _ a b, of 32 2 "\<lambda>i. i"] a b by (auto simp: rq_example_simps)
qed

end
