(* ===== verification/Block_Hammer.thy ===== *)
theory Block_Hammer
  imports Defense_Base
begin

text \<open>
  \<open>BlockHammer\<close> of \<open>mem/rowhammer_mitigation.cc\<close>: per-row counters and a delay for every
  activation of a row past the blacklist threshold.  The counters and the activations that remain
  are \<open>uint32_t\<close> and wrap.  The lemmas show that the delays, if they are obeyed, keep every
  row two activations below the threshold, and what happens at the two counts where they are not.
\<close>

section \<open>State and operations\<close>

record block_hammer =
  bh_numRows :: nat
  bh_numBanks :: nat
  bh_numRanks :: nat
  bh_numChannels :: nat
  bh_last_reset :: tick
  bh_threshold :: nat
  bh_BlackListThreshold :: nat
  bh_decision :: decision
  bh_numAccessesToRow :: "nat \<Rightarrow> nat"
  bh_SRAM_CBF_accDelay :: tick
  bh_s_num_resets :: nat
  bh_s_num_accesses :: nat
  bh_s_numLogRowAccesses :: "nat list"
  bh_s_numRowAccesses_RH :: nat

definition bh_new :: "block_hammer \<Rightarrow> nat \<Rightarrow> nat \<Rightarrow> nat \<Rightarrow> nat \<Rightarrow> nat \<Rightarrow> nat \<Rightarrow> block_hammer" where
  "bh_new mem threshold numRows BLThreshold numBanks numRanks numChannels =
     mem\<lparr> bh_threshold := threshold, bh_BlackListThreshold := BLThreshold, bh_numRows := numRows,
          bh_numBanks := numBanks, bh_numRanks := numRanks, bh_numChannels := numChannels,
          bh_last_reset := 0, bh_numAccessesToRow := (\<lambda>_. 0), bh_s_numRowAccesses_RH := 0,
          bh_s_numLogRowAccesses := replicate 4 0,
          bh_decision := resetDecision (bh_decision mem)\<rparr>"

text \<open>One iteration of the loop over the rows in \<open>reset\<close>: entry 3 of the histogram counts the
  blacklisted rows, the decimal buckets stop at 2.\<close>

definition bh_reset_row :: "block_hammer \<Rightarrow> nat \<Rightarrow> block_hammer" where
  "bh_reset_row s rval =
     (let n = bh_numAccessesToRow s rval;
          lg = bh_s_numLogRowAccesses s;
          lg1 = (if bh_BlackListThreshold s \<le> n then lg[3 := lg ! 3 + 1] else lg);
          lg2 = (case log_bucket 3 n 0 1 of Some i \<Rightarrow> lg1[i := lg1 ! i + 1] | None \<Rightarrow> lg1)
      in s\<lparr> bh_s_numRowAccesses_RH := (if bh_threshold s \<le> n then bh_s_numRowAccesses_RH s + 1
                                        else bh_s_numRowAccesses_RH s),
            bh_s_numLogRowAccesses := lg2,
            bh_numAccessesToRow := (bh_numAccessesToRow s)(rval := 0)\<rparr>)"

definition bh_reset :: "block_hammer \<Rightarrow> block_hammer" where
  "bh_reset s = foldl bh_reset_row (s\<lparr>bh_s_num_resets := bh_s_num_resets s + 1\<rparr>)
     [0..<u32 (bh_numRows s * bh_numBanks s * bh_numRanks s * bh_numChannels s)]"

text \<open>The activations that remain at count \<open>n\<close>: \<open>threshold - n - 1\<close> in 32 bits when
  \<open>threshold > n - 1\<close>.\<close>

definition bh_acts_remaining :: "nat \<Rightarrow> nat \<Rightarrow> nat" where
  "bh_acts_remaining threshold n =
     (if dec32 n < threshold then sub32 (sub32 threshold n) 1 else 1)"

definition bh_access :: "block_hammer \<Rightarrow> tick \<Rightarrow> nat \<Rightarrow> nat \<Rightarrow> nat \<Rightarrow> nat \<Rightarrow> block_hammer result" where
  "bh_access s currTick rowID bankID rankID channelID =
     (let s1 = s\<lparr>bh_s_num_accesses := bh_s_num_accesses s + 1, bh_decision := resetDecision (bh_decision s)\<rparr>;
          s2 = (if REFRESH_WINDOW \<le> sub64 currTick (bh_last_reset s1)
                then bh_reset (s1\<lparr>bh_last_reset := currTick\<rparr>) else s1);
          DRAMRowID = u32 (bankID + bh_numBanks s2 * rowID)
      in if \<not> DRAMRowID < u32 (bh_numRows s * bh_numBanks s * bh_numRanks s * bh_numChannels s) then Inl OutOfBounds
      else
      let n = inc32 (bh_numAccessesToRow s2 DRAMRowID);
          s3 = s2\<lparr>bh_numAccessesToRow := (bh_numAccessesToRow s2)(DRAMRowID := n)\<rparr>
      in rbind (if bh_BlackListThreshold s3 \<le> n then
                  if bh_acts_remaining (bh_threshold s3) n = 0 then Inl DivideByZero
                  else Inr ((bh_decision s3)\<lparr>
                    d_MC_delay := sub64 (REFRESH_WINDOW + bh_last_reset s3) currTick div bh_acts_remaining (bh_threshold s3) n,
                    d_mitigate := True\<rparr>)
                else Inr (bh_decision s3))
           (\<lambda>d. Inr (s3\<lparr>bh_decision := d\<lparr>d_SRAM_delay := d_SRAM_delay d + bh_SRAM_CBF_accDelay s3\<rparr>\<rparr>)))"

section \<open>The reset loop\<close>

lemma bh_reset_row_sel [simp]:
  "bh_numRows (bh_reset_row s r) = bh_numRows s" "bh_numBanks (bh_reset_row s r) = bh_numBanks s"
  "bh_numRanks (bh_reset_row s r) = bh_numRanks s" "bh_numChannels (bh_reset_row s r) = bh_numChannels s"
  "bh_last_reset (bh_reset_row s r) = bh_last_reset s" "bh_threshold (bh_reset_row s r) = bh_threshold s"
  "bh_BlackListThreshold (bh_reset_row s r) = bh_BlackListThreshold s"
  "bh_decision (bh_reset_row s r) = bh_decision s"
  "bh_numAccessesToRow (bh_reset_row s r) = (bh_numAccessesToRow s)(r := 0)"
  by (simp_all add: bh_reset_row_def Let_def)

lemma bh_reset_loop_sel:
  "bh_numRows (foldl bh_reset_row s rs) = bh_numRows s"
  "bh_numBanks (foldl bh_reset_row s rs) = bh_numBanks s"
  "bh_numRanks (foldl bh_reset_row s rs) = bh_numRanks s"
  "bh_numChannels (foldl bh_reset_row s rs) = bh_numChannels s"
  "bh_last_reset (foldl bh_reset_row s rs) = bh_last_reset s"
  "bh_threshold (foldl bh_reset_row s rs) = bh_threshold s"
  "bh_BlackListThreshold (foldl bh_reset_row s rs) = bh_BlackListThreshold s"
  "bh_decision (foldl bh_reset_row s rs) = bh_decision s"
  "bh_numAccessesToRow (foldl bh_reset_row s rs) r = (if r \<in> set rs then 0 else bh_numAccessesToRow s r)"
  by (induction rs arbitrary: s) simp_all

definition bh_rows :: "block_hammer \<Rightarrow> nat" where
  "bh_rows s = u32 (bh_numRows s * bh_numBanks s * bh_numRanks s * bh_numChannels s)"

lemma bh_reset_sel [simp]:
  "bh_rows (bh_reset s) = bh_rows s" "bh_numBanks (bh_reset s) = bh_numBanks s"
  "bh_last_reset (bh_reset s) = bh_last_reset s" "bh_threshold (bh_reset s) = bh_threshold s"
  "bh_BlackListThreshold (bh_reset s) = bh_BlackListThreshold s"
  "bh_decision (bh_reset s) = bh_decision s"
  "bh_numAccessesToRow (bh_reset s) r = (if r < bh_rows s then 0 else bh_numAccessesToRow s r)"
  by (simp_all add: bh_reset_def bh_reset_loop_sel bh_rows_def)

section \<open>Obeyed delays\<close>

text \<open>A run in which every activation of a counter waits for the delay of the one before:
  \<open>ready idx\<close> is the earliest tick of the next activation of the rows counted in \<open>idx\<close>.\<close>

fun bh_run :: "block_hammer \<Rightarrow> (nat \<Rightarrow> tick) \<Rightarrow> (tick \<times> nat \<times> nat) list \<Rightarrow> block_hammer result" where
  "bh_run s ready [] = Inr s"
| "bh_run s ready ((t, row, bank) # as) =
     rbind (bh_access s t row bank 0 0) (\<lambda>s'.
       bh_run s' (ready(u32 (bank + bh_numBanks s * row) := t + d_MC_delay (bh_decision s'))) as)"

fun bh_obeyed :: "block_hammer \<Rightarrow> (nat \<Rightarrow> tick) \<Rightarrow> (tick \<times> nat \<times> nat) list \<Rightarrow> bool" where
  "bh_obeyed s ready [] \<longleftrightarrow> True"
| "bh_obeyed s ready ((t, row, bank) # as) \<longleftrightarrow>
     bh_last_reset s \<le> t \<and> u32 (bank + bh_numBanks s * row) < bh_rows s \<and>
     ready (u32 (bank + bh_numBanks s * row)) \<le> t \<and>
     (case bh_access s t row bank 0 0 of
        Inl _ \<Rightarrow> True
      | Inr s' \<Rightarrow> bh_obeyed s' (ready(u32 (bank + bh_numBanks s * row) := t + d_MC_delay (bh_decision s'))) as)"

text \<open>Every counter stays at most at \<open>threshold - 2\<close>, and one that is there may not be activated
  before the end of the window.\<close>

definition bh_inv :: "block_hammer \<Rightarrow> (nat \<Rightarrow> tick) \<Rightarrow> bool" where
  "bh_inv s ready \<longleftrightarrow> 0 < bh_BlackListThreshold s \<and> bh_BlackListThreshold s + 2 \<le> bh_threshold s \<and>
     bh_threshold s < 2 ^ 32 \<and>
     (\<forall>r<bh_rows s. bh_numAccessesToRow s r + 2 \<le> bh_threshold s \<and>
        (bh_numAccessesToRow s r + 2 = bh_threshold s \<longrightarrow> bh_last_reset s + REFRESH_WINDOW \<le> ready r))"

lemma bh_acts_remaining_normal:
  assumes "0 < n" "n + 2 \<le> th"
  shows "bh_acts_remaining th n = th - n - 1"
proof -
  have "sub32 th n = th - n" "1 \<le> th - n" "dec32 n < th" using assms by (simp_all add: sub32_def dec32_def)
  then show ?thesis by (simp add: bh_acts_remaining_def sub32_def)
qed

lemma bh_access_inv:
  assumes inv: "bh_inv s ready" and t: "bh_last_reset s \<le> t" and idx: "idx = u32 (bank + bh_numBanks s * row)" "idx < bh_rows s"
    and ready: "ready idx \<le> t"
  shows "\<exists>s'. bh_access s t row bank 0 0 = Inr s' \<and> bh_inv s' (ready(idx := t + d_MC_delay (bh_decision s'))) \<and>
    bh_threshold s' = bh_threshold s \<and> bh_numBanks s' = bh_numBanks s \<and> bh_rows s' = bh_rows s \<and>
    t < bh_last_reset s' + REFRESH_WINDOW \<and>
    (bh_last_reset s' = bh_last_reset s \<and>
       bh_numAccessesToRow s' = (bh_numAccessesToRow s)(idx := bh_numAccessesToRow s idx + 1) \<or>
     bh_last_reset s' = t \<and> bh_last_reset s + REFRESH_WINDOW \<le> t \<and>
       (\<forall>r<bh_rows s. bh_numAccessesToRow s' r = (if r = idx then 1 else 0)))"
proof -
  define s1 where "s1 = s\<lparr>bh_s_num_accesses := bh_s_num_accesses s + 1, bh_decision := resetDecision (bh_decision s)\<rparr>"
  define s2 where "s2 = (if REFRESH_WINDOW \<le> sub64 t (bh_last_reset s1)
                then bh_reset (s1\<lparr>bh_last_reset := t\<rparr>) else s1)"
  have row: "bh_rows s1 = bh_rows s" by (simp add: s1_def bh_rows_def)
  have rowr: "bh_rows (s1\<lparr>bh_last_reset := t\<rparr>) = bh_rows s" by (simp add: s1_def bh_rows_def)
  have sel: "bh_rows s2 = bh_rows s" "bh_numBanks s2 = bh_numBanks s" "bh_threshold s2 = bh_threshold s"
    "bh_BlackListThreshold s2 = bh_BlackListThreshold s" "d_MC_delay (bh_decision s2) = 0"
    by (simp_all add: s2_def row rowr) (simp_all add: s1_def resetDecision_def)
  have window: "bh_last_reset s2 \<le> t \<and> t < bh_last_reset s2 + REFRESH_WINDOW"
    using t by (auto simp: s2_def s1_def sub64_le REFRESH_WINDOW_def)
  have counts: "bh_numAccessesToRow s2 r + 2 \<le> bh_threshold s \<and>
      (bh_numAccessesToRow s2 r + 2 = bh_threshold s \<longrightarrow> bh_last_reset s2 + REFRESH_WINDOW \<le> ready r \<and> 3 \<le> bh_threshold s)"
    if "r < bh_rows s" for r
    using inv that rowr by (auto simp: s2_def bh_inv_def) (auto simp: s1_def)
  define n where "n = bh_numAccessesToRow s2 idx + 1"
  have below: "bh_numAccessesToRow s2 idx + 2 < bh_threshold s"
    using counts[OF idx(2)] window ready by (cases "bh_numAccessesToRow s2 idx + 2 = bh_threshold s") auto
  have n: "inc32 (bh_numAccessesToRow s2 idx) = n" "0 < n" "n + 2 \<le> bh_threshold s"
    using below inv by (simp_all add: n_def bh_inv_def inc32_id)
  define s3 where "s3 = s2\<lparr>bh_numAccessesToRow := (bh_numAccessesToRow s2)(idx := n)\<rparr>"
  define d where "d = (if bh_BlackListThreshold s \<le> n then (bh_decision s2)\<lparr>
      d_MC_delay := sub64 (REFRESH_WINDOW + bh_last_reset s2) t div (bh_threshold s - n - 1), d_mitigate := True\<rparr>
    else bh_decision s2)"
  define s4 where "s4 = s3\<lparr>bh_decision := d\<lparr>d_SRAM_delay := d_SRAM_delay d + bh_SRAM_CBF_accDelay s3\<rparr>\<rparr>"
  have rem: "bh_acts_remaining (bh_threshold s) n = bh_threshold s - n - 1" "0 < bh_threshold s - n - 1"
    using bh_acts_remaining_normal[OF n(2,3)] n(3) by simp_all
  have eq: "bh_access s t row bank 0 0 = Inr s4"
    unfolding bh_access_def Let_def s1_def[symmetric] s2_def[symmetric]
    using idx n(1) rem sel by (simp add: bh_rows_def[symmetric] s4_def s3_def d_def)
  have "d_MC_delay d = bh_last_reset s2 + REFRESH_WINDOW - t" if "n + 2 = bh_threshold s"
  proof -
    have "bh_BlackListThreshold s \<le> n" using that inv by (simp add: bh_inv_def)
    moreover have "bh_threshold s - n - 1 = 1" using that by simp
    ultimately show ?thesis using window by (simp add: d_def sub64_le add.commute)
  qed
  then have "bh_inv s4 (ready(idx := t + d_MC_delay (bh_decision s4)))"
    using inv sel n counts window
    by (auto simp: bh_inv_def s4_def s3_def bh_rows_def)
  moreover have "bh_threshold s4 = bh_threshold s" "bh_numBanks s4 = bh_numBanks s" "bh_rows s4 = bh_rows s"
    "t < bh_last_reset s4 + REFRESH_WINDOW"
    using sel window by (simp_all add: s4_def s3_def bh_rows_def)
  moreover have "bh_last_reset s4 = bh_last_reset s \<and>
       bh_numAccessesToRow s4 = (bh_numAccessesToRow s)(idx := bh_numAccessesToRow s idx + 1) \<or>
     bh_last_reset s4 = t \<and> bh_last_reset s + REFRESH_WINDOW \<le> t \<and>
       (\<forall>r<bh_rows s. bh_numAccessesToRow s4 r = (if r = idx then 1 else 0))"
  proof (cases "REFRESH_WINDOW \<le> sub64 t (bh_last_reset s)")
    case False
    then have "s2 = s1" by (simp add: s2_def s1_def)
    then show ?thesis by (simp add: s4_def s3_def n_def s1_def)
  next
    case True
    then have "s2 = bh_reset (s1\<lparr>bh_last_reset := t\<rparr>)" by (simp add: s2_def s1_def)
    moreover have "bh_last_reset s + REFRESH_WINDOW \<le> t" using True t by (simp add: sub64_le le_diff_conv2 add.commute)
    ultimately show ?thesis using idx(2) rowr by (simp add: s4_def s3_def n_def)
  qed
  ultimately show ?thesis using eq by blast
qed

section \<open>The activations of a run\<close>

text \<open>The activations of counter \<open>r\<close> in a trace whose ticks satisfy \<open>P\<close>, and their number.\<close>

definition bh_acts :: "nat \<Rightarrow> nat \<Rightarrow> (tick \<Rightarrow> bool) \<Rightarrow> (tick \<times> nat \<times> nat) list \<Rightarrow> nat" where
  "bh_acts nb r P as = length (filter (\<lambda>(t, row, bank). u32 (bank + nb * row) = r \<and> P t) as)"

lemma bh_acts_Nil [simp]: "bh_acts nb r P [] = 0"
  by (simp add: bh_acts_def)

lemma bh_acts_Cons: "bh_acts nb r P ((t, row, bank) # as) = (if u32 (bank + nb * row) = r \<and> P t then 1 else 0) + bh_acts nb r P as"
  by (simp add: bh_acts_def)

lemma bh_acts_mono:
  assumes "\<And>t row bank. (t, row, bank) \<in> set as \<Longrightarrow> P t \<Longrightarrow> Q t"
  shows "bh_acts nb r P as \<le> bh_acts nb r Q as"
  using assms by (induction as) (fastforce simp: bh_acts_Cons)+

lemma bh_acts_split:
  assumes "\<And>t. P t \<Longrightarrow> Q t \<or> R t"
  shows "bh_acts nb r P as \<le> bh_acts nb r Q as + bh_acts nb r R as"
  using assms by (induction as) (fastforce simp: bh_acts_Cons)+

lemma bh_acts_none: "(\<And>t row bank. (t, row, bank) \<in> set as \<Longrightarrow> \<not> P t) \<Longrightarrow> bh_acts nb r P as = 0"
  by (auto simp: bh_acts_def filter_empty_conv)

text \<open>What the counters know of the activations so far: they count those since the last reset, all ticks
  lie before the end of the window that began there, and the window before it had at most \<open>m\<close> of a
  counter's activations; so any window has at most \<open>2 * m\<close>.\<close>

definition bh_history :: "nat \<Rightarrow> block_hammer \<Rightarrow> (tick \<times> nat \<times> nat) list \<Rightarrow> bool" where
  "bh_history m s past \<longleftrightarrow> (\<forall>(t, row, bank)\<in>set past. t < bh_last_reset s + REFRESH_WINDOW \<and> u32 (bank + bh_numBanks s * row) < bh_rows s) \<and>
     (\<forall>r<bh_rows s. bh_acts (bh_numBanks s) r (\<lambda>t. bh_last_reset s \<le> t) past = bh_numAccessesToRow s r) \<and>
     (\<forall>r<bh_rows s. bh_acts (bh_numBanks s) r (\<lambda>t. t < bh_last_reset s \<and> bh_last_reset s < t + REFRESH_WINDOW) past \<le> m) \<and>
     (\<forall>r<bh_rows s. \<forall>T. bh_acts (bh_numBanks s) r (\<lambda>t. T \<le> t \<and> t < T + REFRESH_WINDOW) past \<le> 2 * m)"

text \<open>A window splits at the last reset.\<close>

lemma bh_window_split:
  assumes "bh_acts nb r (\<lambda>t. L \<le> t) p \<le> m" "bh_acts nb r (\<lambda>t. t < L \<and> L < t + REFRESH_WINDOW) p \<le> m" "L < T + REFRESH_WINDOW"
  shows "bh_acts nb r (\<lambda>t. T \<le> t \<and> t < T + REFRESH_WINDOW) p \<le> 2 * m"
proof -
  have "T \<le> t \<and> t < T + REFRESH_WINDOW \<Longrightarrow> L \<le> t \<or> t < L \<and> L < t + REFRESH_WINDOW" for t
    using assms(3) by auto
  from bh_acts_split[of "\<lambda>t. T \<le> t \<and> t < T + REFRESH_WINDOW" "\<lambda>t. L \<le> t" "\<lambda>t. t < L \<and> L < t + REFRESH_WINDOW" nb r p, OF this]
  show ?thesis using assms(1,2) by simp
qed

lemma bh_history_step:
  assumes hist: "bh_history m s past" and inv: "bh_inv s ready" "bh_inv s' ready'"
    and m: "m = bh_threshold s - 2" and same: "bh_threshold s' = bh_threshold s" "bh_numBanks s' = bh_numBanks s" "bh_rows s' = bh_rows s"
    and t: "bh_last_reset s \<le> t" "t < bh_last_reset s' + REFRESH_WINDOW"
    and idx: "idx = u32 (bank + bh_numBanks s * row)" "idx < bh_rows s"
    and step: "bh_last_reset s' = bh_last_reset s \<and>
       bh_numAccessesToRow s' = (bh_numAccessesToRow s)(idx := bh_numAccessesToRow s idx + 1) \<or>
     bh_last_reset s' = t \<and> bh_last_reset s + REFRESH_WINDOW \<le> t \<and>
       (\<forall>r<bh_rows s. bh_numAccessesToRow s' r = (if r = idx then 1 else 0))"
  shows "bh_history m s' ((t, row, bank) # past)"
proof -
  let ?n = "bh_numBanks s" and ?L = "bh_last_reset s" and ?L' = "bh_last_reset s'" and ?p = "(t, row, bank) # past"
  have past: "x < ?L + REFRESH_WINDOW" if "(x, y, z) \<in> set past" for x y z using hist that by (auto simp: bh_history_def)
  have counters: "bh_acts ?n r (\<lambda>t. ?L \<le> t) past = bh_numAccessesToRow s r" "bh_numAccessesToRow s r \<le> m"
    "bh_acts ?n r (\<lambda>t. t < ?L \<and> ?L < t + REFRESH_WINDOW) past \<le> m" "bh_numAccessesToRow s' r \<le> m"
    "bh_acts ?n r (\<lambda>t. T \<le> t \<and> t < T + REFRESH_WINDOW) past \<le> 2 * m" if "r < bh_rows s" for r T
    using hist inv same that unfolding bh_history_def bh_inv_def m by (auto simp: le_diff_conv2)
  have L': "?L' \<le> t" "?L \<le> ?L'" using step t by auto
  have now: "bh_acts ?n r (\<lambda>t. ?L' \<le> t) ?p = bh_numAccessesToRow s' r" if r: "r < bh_rows s" for r
    using step
  proof
    assume h: "?L' = ?L \<and> bh_numAccessesToRow s' = (bh_numAccessesToRow s)(idx := bh_numAccessesToRow s idx + 1)"
    then show ?thesis using counters(1)[OF r] t(1) by (simp add: bh_acts_Cons idx(1))
  next
    assume h: "?L' = t \<and> ?L + REFRESH_WINDOW \<le> t \<and> (\<forall>r<bh_rows s. bh_numAccessesToRow s' r = (if r = idx then 1 else 0))"
    then have "bh_acts ?n r (\<lambda>x. t \<le> x) past = 0" using past by (intro bh_acts_none) force
    then show ?thesis using h r by (simp add: bh_acts_Cons idx(1))
  qed
  have before: "bh_acts ?n r (\<lambda>t. t < ?L' \<and> ?L' < t + REFRESH_WINDOW) ?p \<le> m" if r: "r < bh_rows s" for r
    using step
  proof
    assume "?L' = ?L \<and> bh_numAccessesToRow s' = (bh_numAccessesToRow s)(idx := bh_numAccessesToRow s idx + 1)"
    then show ?thesis using counters(3)[OF r] t(1) by (simp add: bh_acts_Cons)
  next
    assume h: "?L' = t \<and> ?L + REFRESH_WINDOW \<le> t \<and> (\<forall>r<bh_rows s. bh_numAccessesToRow s' r = (if r = idx then 1 else 0))"
    then have "bh_acts ?n r (\<lambda>x. x < t \<and> t < x + REFRESH_WINDOW) past \<le> bh_acts ?n r (\<lambda>x. ?L \<le> x) past"
      by (intro bh_acts_mono) simp
    then show ?thesis using h counters(1,2)[OF r] by (simp add: bh_acts_Cons)
  qed
  have any: "bh_acts ?n r (\<lambda>t. T \<le> t \<and> t < T + REFRESH_WINDOW) ?p \<le> 2 * m" if r: "r < bh_rows s" for r T
  proof (cases "?L' < T + REFRESH_WINDOW")
    case True
    then show ?thesis by (intro bh_window_split[of _ _ ?L']) (use now[OF r] counters(4)[OF r] before[OF r] in simp_all)
  next
    case False
    then show ?thesis using counters(5)[OF r, of T] L'(1) by (simp add: bh_acts_Cons)
  qed
  have "\<forall>(x, y, z)\<in>set ?p. x < ?L' + REFRESH_WINDOW \<and> u32 (z + ?n * y) < bh_rows s"
    using hist t(2) idx L'(2) unfolding bh_history_def by fastforce
  then show ?thesis unfolding bh_history_def same using now before any by blast
qed

lemma bh_run_inv:
  assumes "bh_inv s ready" "bh_obeyed s ready as" "bh_history (bh_threshold s - 2) s past"
  shows "\<exists>s' ready'. bh_run s ready as = Inr s' \<and> bh_inv s' ready' \<and> bh_threshold s' = bh_threshold s \<and>
    bh_numBanks s' = bh_numBanks s \<and> bh_rows s' = bh_rows s \<and> bh_history (bh_threshold s - 2) s' (rev as @ past)"
  using assms
proof (induction as arbitrary: s ready past)
  case Nil
  then show ?case by auto
next
  case (Cons a as)
  obtain t row bank where a: "a = (t, row, bank)" by (cases a)
  define idx where "idx = u32 (bank + bh_numBanks s * row)"
  have o: "bh_last_reset s \<le> t" "idx < bh_rows s" "ready idx \<le> t" using Cons.prems(2) a by (simp_all add: idx_def)
  obtain s' where s': "bh_access s t row bank 0 0 = Inr s'" "bh_inv s' (ready(idx := t + d_MC_delay (bh_decision s')))"
    "bh_threshold s' = bh_threshold s" "bh_numBanks s' = bh_numBanks s" "bh_rows s' = bh_rows s"
    "t < bh_last_reset s' + REFRESH_WINDOW"
    "bh_last_reset s' = bh_last_reset s \<and>
       bh_numAccessesToRow s' = (bh_numAccessesToRow s)(idx := bh_numAccessesToRow s idx + 1) \<or>
     bh_last_reset s' = t \<and> bh_last_reset s + REFRESH_WINDOW \<le> t \<and>
       (\<forall>r<bh_rows s. bh_numAccessesToRow s' r = (if r = idx then 1 else 0))"
    using bh_access_inv[OF Cons.prems(1) o(1) idx_def o(2,3)] by blast
  have "bh_obeyed s' (ready(idx := t + d_MC_delay (bh_decision s'))) as"
    using Cons.prems(2) a s'(1) by (simp add: idx_def)
  from Cons.IH[OF s'(2) this, unfolded s'(3-5), OF bh_history_step[OF Cons.prems(3,1) s'(2) refl s'(3-5) o(1) s'(6) idx_def o(2) s'(7)]]
  show ?case unfolding a bh_run.simps s'(1) rbind_Inr idx_def rev.simps append_assoc append_Cons append_Nil .
qed

section \<open>Properties\<close>

text \<open>C16: Throttling guarantee: if every activation waits for the delay BlockHammer gave the previous
  activation of the same counter, no access faults, over any number of refresh windows; every counter is the
  number of its activations since the last reset and stays two below the threshold; and any stretch of time as long
  as a refresh window, wherever it begins, has at most \<open>2 * (threshold - 2)\<close> activations of a counter.\<close>

theorem blockhammer_throttles:
  assumes "0 < BL" "BL + 2 \<le> th" "th < 2 ^ 32"
    and "bh_obeyed (bh_new mem th R BL nb nk nc) (\<lambda>_. 0) as"
  shows "\<exists>s. bh_run (bh_new mem th R BL nb nk nc) (\<lambda>_. 0) as = Inr s \<and>
    (\<forall>r<bh_rows s. bh_numAccessesToRow s r + 2 \<le> th \<and>
       bh_numAccessesToRow s r = length (filter (\<lambda>(t, row, bank). u32 (bank + nb * row) = r \<and> bh_last_reset s \<le> t) as)) \<and>
    (\<forall>r T. length (filter (\<lambda>(t, row, bank). u32 (bank + nb * row) = r \<and> T \<le> t \<and> t < T + REFRESH_WINDOW) as) \<le> 2 * (th - 2))"
proof -
  let ?s = "bh_new mem th R BL nb nk nc"
  have sel: "bh_threshold ?s = th" "bh_numBanks ?s = nb" by (simp_all add: bh_new_def)
  have "bh_inv ?s (\<lambda>_. 0)" using assms(1-3) by (simp add: bh_inv_def bh_new_def)
  moreover have "bh_history (th - 2) ?s []" by (simp add: bh_history_def) (simp add: bh_new_def)
  ultimately obtain s ready where s: "bh_run ?s (\<lambda>_. 0) as = Inr s" "bh_inv s ready" "bh_threshold s = th" "bh_numBanks s = nb"
    "bh_history (th - 2) s (rev as)"
    using bh_run_inv[OF _ assms(4), of "[]"] unfolding sel by auto
  have acts: "bh_acts nb r P (rev as) = length (filter (\<lambda>(t, row, bank). u32 (bank + nb * row) = r \<and> P t) as)" for r P
    by (simp add: bh_acts_def rev_filter[symmetric])
  have "bh_acts nb r (\<lambda>t. T \<le> t \<and> t < T + REFRESH_WINDOW) (rev as) \<le> 2 * (th - 2)" for r T
  proof (cases "r < bh_rows s")
    case True
    then show ?thesis using s(4,5) by (simp add: bh_history_def)
  next
    case False
    then have "bh_acts nb r (\<lambda>t. T \<le> t \<and> t < T + REFRESH_WINDOW) (rev as) = 0"
      using s(4,5) unfolding bh_history_def bh_acts_def by (auto simp: filter_empty_conv)
    then show ?thesis by simp
  qed
  moreover have "bh_numAccessesToRow s r + 2 \<le> th" "bh_acts nb r (\<lambda>t. bh_last_reset s \<le> t) (rev as) = bh_numAccessesToRow s r"
    if "r < bh_rows s" for r using s(2-5) that by (auto simp: bh_inv_def bh_history_def)
  ultimately show ?thesis using s(1) unfolding acts by (intro exI[of _ s]) simp
qed

theorem blockhammer_throttles_witness:
  "\<exists>s. bh_run (bh_new undefined 4 8 2 1 1 1) (\<lambda>_. 0) [(5, 3, 0), (9, 3, 0)] = Inr s \<and>
    length (filter (\<lambda>(t, row, bank). u32 (bank + 1 * row) = 3 \<and> 0 \<le> t \<and> t < 0 + REFRESH_WINDOW) [(5, 3, 0), (9, 3, 0)]) \<le> 2 * (4 - 2)"
proof -
  have "bh_obeyed (bh_new undefined 4 8 2 1 1 1) (\<lambda>_. 0) [(5, 3, 0), (9, 3, 0)]"
    by (simp add: bh_access_def bh_new_def Let_def u32_def sub64_def REFRESH_WINDOW_def bh_rows_def
       inc32_def bh_acts_remaining_def dec32_def resetDecision_def)
  from blockhammer_throttles[OF _ _ _ this] show ?thesis by auto
qed

text \<open>At the count where the delays end, the code does not do what the comparison before it
  suggests: the activation with count \<open>threshold - 1\<close> divides by zero, and at count \<open>threshold\<close> the
  subtraction wraps, so the delay all but vanishes (the time left divided by 2^32 - 1).\<close>

theorem blockhammer_threshold_edge:
  assumes "bh_last_reset s \<le> t" "t < bh_last_reset s + REFRESH_WINDOW"
    and "idx = u32 (bank + bh_numBanks s * row)" "idx < bh_rows s"
    and "0 < bh_BlackListThreshold s" "bh_BlackListThreshold s < bh_threshold s" "bh_threshold s < 2 ^ 32"
  shows "(bh_numAccessesToRow s idx + 2 = bh_threshold s \<longrightarrow> bh_access s t row bank 0 0 = Inl DivideByZero) \<and>
    (bh_numAccessesToRow s idx + 1 = bh_threshold s \<longrightarrow>
       (\<exists>s'. bh_access s t row bank 0 0 = Inr s' \<and>
          d_MC_delay (bh_decision s') = (bh_last_reset s + REFRESH_WINDOW - t) div (2 ^ 32 - 1)))"
proof -
  define s1 where "s1 = s\<lparr>bh_s_num_accesses := bh_s_num_accesses s + 1, bh_decision := resetDecision (bh_decision s)\<rparr>"
  have win: "\<not> REFRESH_WINDOW \<le> sub64 t (bh_last_reset s1)" using assms(1,2) by (simp add: s1_def sub64_le)
  define n where "n = inc32 (bh_numAccessesToRow s idx)"
  have eq: "bh_access s t row bank 0 0 =
      rbind (if bh_BlackListThreshold s \<le> n then
               if bh_acts_remaining (bh_threshold s) n = 0 then Inl DivideByZero
               else Inr ((bh_decision s1)\<lparr>d_MC_delay := sub64 (REFRESH_WINDOW + bh_last_reset s) t div bh_acts_remaining (bh_threshold s) n,
                 d_mitigate := True\<rparr>)
             else Inr (bh_decision s1))
        (\<lambda>d. Inr (s1\<lparr>bh_numAccessesToRow := (bh_numAccessesToRow s)(idx := n),
           bh_decision := d\<lparr>d_SRAM_delay := d_SRAM_delay d + bh_SRAM_CBF_accDelay s\<rparr>\<rparr>))"
    unfolding bh_access_def Let_def s1_def[symmetric] using win assms(3,4)
    by (simp add: bh_rows_def[symmetric] n_def s1_def)
  have z: "bh_acts_remaining th n = 0" if "n + 1 = th" "0 < n" for th
    using that by (auto simp: bh_acts_remaining_def dec32_def sub32_def)
  have w: "bh_acts_remaining th n = 4294967295" if "n = th" "0 < n" for th
    using that by (auto simp: bh_acts_remaining_def dec32_def sub32_def)
  show ?thesis
  proof (intro conjI impI)
    assume h: "bh_numAccessesToRow s idx + 2 = bh_threshold s"
    then have "n = bh_numAccessesToRow s idx + 1" using assms(7) by (simp add: n_def inc32_id)
    then show "bh_access s t row bank 0 0 = Inl DivideByZero"
      unfolding eq using h z[of "bh_threshold s"] assms(6) by simp
  next
    assume h: "bh_numAccessesToRow s idx + 1 = bh_threshold s"
    then have n: "n = bh_threshold s" using assms(7) by (simp add: n_def inc32_id)
    then have r: "bh_acts_remaining (bh_threshold s) n = 4294967295" using w[of "bh_threshold s"] h by simp
    show "\<exists>s'. bh_access s t row bank 0 0 = Inr s' \<and>
          d_MC_delay (bh_decision s') = (bh_last_reset s + REFRESH_WINDOW - t) div (2 ^ 32 - 1)"
      unfolding eq r using n assms(1,2,6) by (simp add: sub64_le add.commute)
  qed
qed

theorem blockhammer_threshold_edge_witness:
  "bh_access ((bh_new undefined 4 8 2 1 1 1)\<lparr>bh_numAccessesToRow := (\<lambda>_. 2)\<rparr>) 5 3 0 0 0 = Inl DivideByZero"
  using blockhammer_threshold_edge[of "(bh_new undefined 4 8 2 1 1 1)\<lparr>bh_numAccessesToRow := (\<lambda>_. 2)\<rparr>" 5 3 0 3]
  by (simp add: bh_new_def REFRESH_WINDOW_def bh_rows_def u32_def)

end
