(* ===== verification/Rfm_Defense.thy ===== *)
theory Rfm_Defense
  imports Defense_Base Ring_Tracker
begin

text \<open>
  The class \<open>RFM\<close> of \<open>mem/rowhammer_mitigation.cc\<close>: PrIDE itself.  Every bank has an activation
  counter and a \<open>Tracker\<close>; every \<open>rfm_act_threshold\<close>-th activation issues a mitigation of the
  bank, and every activation is sampled into the tracker with probability
  \<open>1/(rfm_act_threshold + 1)\<close>.  In mode "RFM" a refresh interval also resets the counters and
  issues one mitigation for every bank.  \<open>std::rand()\<close> is a stream; the comparison of the
  normalised double with the sample rate is done exactly, in integers.  The lemmas show that the
  tracker of every bank sees exactly these events, so the guarantees of \<open>Ring_Tracker\<close> carry over.
\<close>

section \<open>State and operations\<close>

definition RAND_MAX :: nat where "RAND_MAX = 2147483647"

record rfm =
  rfm_numRows :: nat
  rfm_numBanks :: nat
  rfm_numRanks :: nat
  rfm_numChannels :: nat
  rfm_last_reset :: tick
  rfm_threshold :: nat
  rfm_decision :: decision
  rfm_act_in_trefi_per_bank :: "nat list"
  rfm_mytracker :: "tracker list"
  rfm_bus_delay :: bool
  rfm_act_threshold :: nat
  rfm_delay_ticks_tRC :: tick
  rfm_delay_ticks_tRFC :: tick
  rfm_blast_radius :: nat
  rfm_is_RFM :: bool
  rfm_rand_pos :: nat
  rfm_s_num_accesses :: nat
  rfm_s_rfms :: nat
  rfm_s_mitigs :: nat
  rfm_s_num_resets :: nat
  rfm_s_numLogBankAccesses :: "nat list"
  rfm_s_numBankAccesses_RFMThreshold :: nat

text \<open>The constructor; \<open>rh_mitigation == "RFM"\<close> is the only use of the string.\<close>

definition rfm_new ::
  "rfm \<Rightarrow> bool \<Rightarrow> nat \<Rightarrow> bool \<Rightarrow> nat \<Rightarrow> tick \<Rightarrow> tick \<Rightarrow> nat \<Rightarrow> nat \<Rightarrow> nat \<Rightarrow> nat \<Rightarrow> nat \<Rightarrow> nat \<Rightarrow> rfm" where
  "rfm_new mem is_RFM threshold bus_delay RFMThreshold tRC tRFC blastRadius numRows numBanks numRanks
     numChannels tracker_size =
     (let numDRAMBanks = numBanks * numRanks * numChannels in
      mem\<lparr> rfm_s_num_accesses := 0, rfm_s_rfms := 0, rfm_s_mitigs := 0, rfm_s_num_resets := 0,
           rfm_is_RFM := is_RFM, rfm_bus_delay := bus_delay, rfm_threshold := threshold,
           rfm_act_threshold := RFMThreshold, rfm_delay_ticks_tRC := tRC, rfm_delay_ticks_tRFC := tRFC,
           rfm_blast_radius := blastRadius, rfm_numRows := numRows, rfm_numBanks := numBanks,
           rfm_numRanks := numRanks, rfm_numChannels := numChannels, rfm_last_reset := 0,
           rfm_mytracker := replicate numDRAMBanks (tracker_Init (tracker_new default_size) tracker_size),
           rfm_act_in_trefi_per_bank := replicate numDRAMBanks 0,
           rfm_s_numLogBankAccesses := replicate 9 0, rfm_s_numBankAccesses_RFMThreshold := 0,
           rfm_decision := resetDecision (rfm_decision mem)\<rparr>)"

text \<open>The bucket of a bank's count: bounds 0, 2, 4, 8, ..., 128, 166, doubling and capped.\<close>

function rfm_bucket :: "nat \<Rightarrow> nat \<Rightarrow> nat \<Rightarrow> nat option" where
  "rfm_bucket n i logval =
     (if i \<le> 8 then
        let next0 = (if logval = 0 then 2 else 2 * logval);
            next_logval = (if 166 < next0 then 166 else next0)
        in if logval \<le> n \<and> (n < next_logval \<or> i = 8) then Some i
           else rfm_bucket n (i + 1) next_logval
      else None)"
  by pat_completeness auto
termination
  by (relation "measure (\<lambda>(n, i, logval). 9 - i)") auto

declare rfm_bucket.simps [simp del]

definition rfm_reset_bank :: "rfm \<Rightarrow> nat \<Rightarrow> rfm" where
  "rfm_reset_bank s rval =
     (let n = rfm_act_in_trefi_per_bank s ! rval in
      s\<lparr> rfm_s_numBankAccesses_RFMThreshold := (if rfm_act_threshold s \<le> n
            then rfm_s_numBankAccesses_RFMThreshold s + 1 else rfm_s_numBankAccesses_RFMThreshold s),
         rfm_s_numLogBankAccesses := (case rfm_bucket n 0 0 of
            Some i \<Rightarrow> (rfm_s_numLogBankAccesses s)[i := rfm_s_numLogBankAccesses s ! i + 1]
          | None \<Rightarrow> rfm_s_numLogBankAccesses s),
         rfm_act_in_trefi_per_bank := (rfm_act_in_trefi_per_bank s)[rval := 0]\<rparr>)"

definition rfm_reset :: "rfm \<Rightarrow> rfm" where
  "rfm_reset s = foldl rfm_reset_bank (s\<lparr>rfm_s_num_resets := rfm_s_num_resets s + 1\<rparr>)
     [0..<rfm_numBanks s * rfm_numRanks s * rfm_numChannels s]"

text \<open>\<open>int send_mitig = mytracker[i].issue_mitig() != -1; if (send_mitig) s_mitigs++;\<close>\<close>

definition rfm_issue :: "rfm \<Rightarrow> nat \<Rightarrow> rfm result" where
  "rfm_issue s i =
     (if i < length (rfm_mytracker s) then
        rbind (tracker_issue_mitig (rfm_mytracker s ! i)) (\<lambda>(t, a).
          Inr (s\<lparr>rfm_mytracker := (rfm_mytracker s)[i := t],
                 rfm_s_mitigs := (if a \<noteq> -1 then rfm_s_mitigs s + 1 else rfm_s_mitigs s)\<rparr>))
      else Inl OutOfBounds)"

text \<open>The block run when a refresh interval has passed (mode "RFM").\<close>

definition rfm_refresh :: "rfm \<Rightarrow> tick \<Rightarrow> rfm result" where
  "rfm_refresh s currTick =
     (if rfm_is_RFM s \<and> 3900000 \<le> sub64 currTick (rfm_last_reset s)
      then rfold rfm_issue (rfm_reset (s\<lparr>rfm_last_reset := currTick\<rparr>))
             [0..<rfm_numBanks s * rfm_numRanks s * rfm_numChannels s]
      else Inr s)"

text \<open>The mitigation of the accessed bank at a multiple of the threshold.\<close>

definition rfm_mitigate :: "rfm \<Rightarrow> nat \<Rightarrow> rfm result" where
  "rfm_mitigate s bank =
     (if rfm_act_threshold s = 0 then Inl DivideByZero
      else if rfm_act_in_trefi_per_bank s ! bank mod rfm_act_threshold s = 0 then
        rbind (rfm_issue (s\<lparr>rfm_decision := (rfm_decision s)\<lparr>d_delay := 0,
            d_bank_delay := rfm_delay_ticks_tRFC s,
            d_bus_delay := (if rfm_bus_delay s then 3332 * 2 * rfm_blast_radius s else 0),
            d_mitigate := True\<rparr>\<rparr>) bank) (\<lambda>s1. Inr (s1\<lparr>rfm_s_rfms := rfm_s_rfms s1 + 1\<rparr>))
      else Inr s)"

text \<open>\<open>(double) rand_num / RAND_MAX < 1 / (double) (rfm_act_threshold + 1)\<close>\<close>

definition rfm_sampled :: "nat \<Rightarrow> nat \<Rightarrow> bool" where
  "rfm_sampled threshold rand_num \<longleftrightarrow> rand_num * (threshold + 1) < RAND_MAX"

definition rfm_sample :: "(nat \<Rightarrow> nat) \<Rightarrow> rfm \<Rightarrow> nat \<Rightarrow> nat \<Rightarrow> rfm result" where
  "rfm_sample rnd s bank rowID =
     (let s1 = s\<lparr>rfm_rand_pos := rfm_rand_pos s + 1\<rparr> in
      if rfm_sampled (rfm_act_threshold s) (rnd (rfm_rand_pos s)) then
        if bank < length (rfm_mytracker s1) then
          rbind (tracker_insert (rfm_mytracker s1 ! bank) (to_int32 rowID)) (\<lambda>t.
            Inr (s1\<lparr>rfm_mytracker := (rfm_mytracker s1)[bank := t]\<rparr>))
        else Inl OutOfBounds
      else Inr s1)"

definition rfm_bank :: "rfm \<Rightarrow> nat \<Rightarrow> nat \<Rightarrow> nat \<Rightarrow> nat" where
  "rfm_bank s bankID rankID channelID =
     channelID * rfm_numRanks s * rfm_numBanks s + rankID * rfm_numBanks s + bankID"

definition rfm_access :: "(nat \<Rightarrow> nat) \<Rightarrow> rfm \<Rightarrow> tick \<Rightarrow> nat \<Rightarrow> nat \<Rightarrow> nat \<Rightarrow> nat \<Rightarrow> rfm result" where
  "rfm_access rnd s currTick rowID bankID rankID channelID =
     (let s0 = s\<lparr>rfm_s_num_accesses := rfm_s_num_accesses s + 1, rfm_decision := resetDecision (rfm_decision s)\<rparr>;
          s1 = (if rfm_last_reset s0 = 0 then s0\<lparr>rfm_last_reset := currTick\<rparr> else s0);
          currBankID = rfm_bank s1 bankID rankID channelID in
      if \<not> currBankID < length (rfm_act_in_trefi_per_bank s1) then Inl AssertFail
      else rbind (rfm_refresh s1 currTick) (\<lambda>s2.
        let s3 = s2\<lparr>rfm_act_in_trefi_per_bank := (rfm_act_in_trefi_per_bank s2)[currBankID :=
                      rfm_act_in_trefi_per_bank s2 ! currBankID + 1]\<rparr> in
        rbind (rfm_mitigate s3 currBankID) (\<lambda>s4.
        rbind (rfm_sample rnd s4 currBankID rowID) (\<lambda>s5.
          Inr (s5\<lparr>rfm_decision := (rfm_decision s5)\<lparr>d_MC_delay := 0, d_SRAM_delay := 0\<rparr>\<rparr>)))))"

section \<open>Invariant\<close>

definition rfm_wf :: "rfm \<Rightarrow> bool" where
  "rfm_wf s \<longleftrightarrow> 0 < rfm_act_threshold s \<and>
     length (rfm_mytracker s) = rfm_numBanks s * rfm_numRanks s * rfm_numChannels s \<and>
     length (rfm_act_in_trefi_per_bank s) = rfm_numBanks s * rfm_numRanks s * rfm_numChannels s \<and>
     (\<forall>t\<in>set (rfm_mytracker s). tracker_cap_wf default_size t)"

lemma rfm_bank_less:
  assumes "bankID < rfm_numBanks s" "rankID < rfm_numRanks s" "channelID < rfm_numChannels s"
  shows "rfm_bank s bankID rankID channelID < rfm_numBanks s * rfm_numRanks s * rfm_numChannels s"
proof -
  let ?b = "rfm_numBanks s" and ?k = "rfm_numRanks s" and ?c = "rfm_numChannels s"
  have "rankID * ?b + bankID < (rankID + 1) * ?b" using assms(1) by simp
  also have "\<dots> \<le> ?k * ?b" using assms(2) by (intro mult_le_mono1) simp
  finally have "channelID * ?k * ?b + rankID * ?b + bankID < (channelID + 1) * (?k * ?b)"
    by (simp add: algebra_simps)
  also have "\<dots> \<le> ?c * (?k * ?b)" using assms(3) by (intro mult_le_mono1) simp
  finally show ?thesis by (simp add: rfm_bank_def algebra_simps)
qed

text \<open>Distinct banks have distinct counters.\<close>

lemma rfm_bank_inj:
  assumes "bankID < rfm_numBanks s" "rankID < rfm_numRanks s"
    and "bankID' < rfm_numBanks s" "rankID' < rfm_numRanks s"
    and "rfm_bank s bankID rankID channelID = rfm_bank s bankID' rankID' channelID'"
  shows "bankID = bankID' \<and> rankID = rankID' \<and> channelID = channelID'"
proof -
  let ?b = "rfm_numBanks s" and ?k = "rfm_numRanks s"
  have split: "rfm_bank s x y z = (z * ?k + y) * ?b + x" for x y z
    by (simp add: rfm_bank_def algebra_simps)
  have "bankID = bankID'" "channelID * ?k + rankID = channelID' * ?k + rankID'"
    using assms(1,3,5) unfolding split
    by (metis add.commute assms(1) mod_less mod_mult_self1)
       (metis add.commute assms(1) assms(3) assms(5) div_less div_mult_self1 not_less_zero plus_nat.add_0 split)
  moreover from this(2) have "rankID = rankID'" "channelID = channelID'"
    using assms(2,4) by (metis add.commute mod_less mod_mult_self1)
      (metis assms(2,4) calculation(2) add.commute div_less div_mult_self1 not_less_zero plus_nat.add_0)
  ultimately show ?thesis by simp
qed

section \<open>One access\<close>

abbreviation rfm_nbanks :: "rfm \<Rightarrow> nat" where
  "rfm_nbanks s \<equiv> rfm_numBanks s * rfm_numRanks s * rfm_numChannels s"

text \<open>What no operation changes.\<close>

definition rfm_same_config :: "rfm \<Rightarrow> rfm \<Rightarrow> bool" where
  "rfm_same_config s s' \<longleftrightarrow> rfm_numBanks s' = rfm_numBanks s \<and> rfm_numRanks s' = rfm_numRanks s \<and>
     rfm_numChannels s' = rfm_numChannels s \<and> rfm_act_threshold s' = rfm_act_threshold s \<and>
     rfm_is_RFM s' = rfm_is_RFM s"

lemma rfm_same_config_refl [simp]: "rfm_same_config s s"
  by (simp add: rfm_same_config_def)

lemma rfm_same_config_trans: "rfm_same_config a b \<Longrightarrow> rfm_same_config b c \<Longrightarrow> rfm_same_config a c"
  by (simp add: rfm_same_config_def)

lemma tracker_cap_wf_mitig: "tracker_cap_wf n t \<Longrightarrow> tracker_cap_wf n (fst (mitig_option t))"
  by (simp add: tracker_cap_wf_def mitig_option_wf)

lemma tracker_cap_wf_upd:
  "\<forall>t\<in>set ts. tracker_cap_wf n t \<Longrightarrow> tracker_cap_wf n t' \<Longrightarrow> \<forall>t\<in>set (ts[i := t']). tracker_cap_wf n t"
  using set_update_subset_insert by fastforce

lemma rfm_wf_congs [simp]:
  "rfm_wf (s\<lparr>rfm_decision := d\<rparr>) = rfm_wf s" "rfm_wf (s\<lparr>rfm_s_mitigs := m\<rparr>) = rfm_wf s"
  "rfm_wf (s\<lparr>rfm_s_rfms := m\<rparr>) = rfm_wf s" "rfm_wf (s\<lparr>rfm_rand_pos := m\<rparr>) = rfm_wf s"
  by (simp_all add: rfm_wf_def)

lemma rfm_wf_tracker_upd [simp]:
  assumes "rfm_wf s" "tracker_cap_wf default_size t"
  shows "rfm_wf (s\<lparr>rfm_mytracker := (rfm_mytracker s)[i := t]\<rparr>)"
proof -
  have "\<forall>t\<in>set ((rfm_mytracker s)[i := t]). tracker_cap_wf default_size t"
    using assms by (intro tracker_cap_wf_upd) (simp_all add: rfm_wf_def)
  then show ?thesis using assms(1) unfolding rfm_wf_def by simp
qed

lemma rfm_issue_spec:
  assumes "i < length (rfm_mytracker s)" "tracker_cap_wf n (rfm_mytracker s ! i)"
  shows "\<exists>m. rfm_issue s i = Inr (s\<lparr>rfm_mytracker := (rfm_mytracker s)[i := fst (mitig_option (rfm_mytracker s ! i))],
     rfm_s_mitigs := m\<rparr>)"
proof -
  obtain t' a where t: "tracker_issue_mitig (rfm_mytracker s ! i) = Inr (t', a)"
    using tracker_issue_mitig_wf[of "rfm_mytracker s ! i"] assms(2) by (auto simp: tracker_cap_wf_def)
  then have "fst (mitig_option (rfm_mytracker s ! i)) = t'" by (simp add: mitig_option_def)
  then show ?thesis using t assms(1)
    by (intro exI[of _ "if a \<noteq> -1 then rfm_s_mitigs s + 1 else rfm_s_mitigs s"]) (simp add: rfm_issue_def)
qed

lemma rfm_wf_issue:
  assumes "rfm_wf s" "i < rfm_nbanks s" "rfm_issue s i = Inr s'"
  shows "rfm_wf s'"
proof -
  have i: "i < length (rfm_mytracker s)" "tracker_cap_wf default_size (rfm_mytracker s ! i)"
    using assms(1,2) by (simp_all add: rfm_wf_def)
  obtain m where "s' = s\<lparr>rfm_mytracker := (rfm_mytracker s)[i := fst (mitig_option (rfm_mytracker s ! i))],
     rfm_s_mitigs := m\<rparr>"
    using rfm_issue_spec[OF i] assms(3) by auto
  then show ?thesis using assms(1) tracker_cap_wf_mitig[OF i(2)] by simp
qed

text \<open>Issuing for the first \<open>k\<close> banks in turn.\<close>

lemma rfm_issue_all:
  assumes "rfm_wf s" "k \<le> rfm_nbanks s"
  shows "\<exists>m. rfold rfm_issue s [0..<k] = Inr (s\<lparr>rfm_mytracker :=
      map (\<lambda>i. if i < k then fst (mitig_option (rfm_mytracker s ! i)) else rfm_mytracker s ! i)
        [0..<rfm_nbanks s], rfm_s_mitigs := m\<rparr>)"
  using assms(2)
proof (induction k)
  case 0
  have "map ((!) (rfm_mytracker s)) [0..<rfm_nbanks s] = rfm_mytracker s"
    using assms(1) map_nth[of "rfm_mytracker s"] by (simp add: rfm_wf_def)
  then show ?case by (intro exI[of _ "rfm_s_mitigs s"]) simp
next
  case (Suc k)
  let ?ts = "\<lambda>k. map (\<lambda>i. if i < k then fst (mitig_option (rfm_mytracker s ! i)) else rfm_mytracker s ! i)
        [0..<rfm_nbanks s]"
  obtain m where m: "rfold rfm_issue s [0..<k] = Inr (s\<lparr>rfm_mytracker := ?ts k, rfm_s_mitigs := m\<rparr>)"
    using Suc by auto
  have "tracker_cap_wf default_size (rfm_mytracker s ! k)" using assms(1) Suc.prems by (simp add: rfm_wf_def)
  then have k: "tracker_cap_wf default_size (?ts k ! k)" "k < length (?ts k)" using Suc.prems by simp_all
  have "(?ts k)[k := fst (mitig_option (rfm_mytracker s ! k))] = ?ts (Suc k)"
    using Suc.prems by (intro nth_equalityI) (auto simp: nth_list_update)
  then show ?case
    using m rfm_issue_spec[of k "s\<lparr>rfm_mytracker := ?ts k, rfm_s_mitigs := m\<rparr>" default_size] k Suc.prems
    by (auto simp: rfold_append)
qed

text \<open>A reset touches statistics and zeroes the counters.\<close>

lemma rfm_reset_bank_form:
  "\<exists>a b. rfm_reset_bank s k = s\<lparr>rfm_s_numBankAccesses_RFMThreshold := a,
     rfm_s_numLogBankAccesses := b, rfm_act_in_trefi_per_bank := (rfm_act_in_trefi_per_bank s)[k := 0]\<rparr>"
  unfolding rfm_reset_bank_def Let_def by (rule exI, rule exI, rule refl)

lemma rfm_reset_upto:
  assumes "k \<le> length (rfm_act_in_trefi_per_bank s)"
  shows "\<exists>a b. foldl rfm_reset_bank s [0..<k] = s\<lparr>rfm_s_numBankAccesses_RFMThreshold := a,
     rfm_s_numLogBankAccesses := b,
     rfm_act_in_trefi_per_bank := replicate k 0 @ drop k (rfm_act_in_trefi_per_bank s)\<rparr>"
  using assms
proof (induction k)
  case 0
  then show ?case
    by (intro exI[of _ "rfm_s_numBankAccesses_RFMThreshold s"] exI[of _ "rfm_s_numLogBankAccesses s"]) simp
next
  case (Suc k)
  have "(replicate k 0 @ drop k (rfm_act_in_trefi_per_bank s))[k := 0]
      = replicate (Suc k) 0 @ drop (Suc k) (rfm_act_in_trefi_per_bank s)"
    using Suc.prems by (simp add: list_update_append replicate_append_same[symmetric] Cons_nth_drop_Suc[symmetric])
  moreover obtain a b where "foldl rfm_reset_bank s [0..<k] = s\<lparr>rfm_s_numBankAccesses_RFMThreshold := a,
     rfm_s_numLogBankAccesses := b,
     rfm_act_in_trefi_per_bank := replicate k 0 @ drop k (rfm_act_in_trefi_per_bank s)\<rparr>"
    using Suc by auto
  ultimately show ?case
    using rfm_reset_bank_form[of "foldl rfm_reset_bank s [0..<k]" k] by auto
qed

definition rfm_due :: "rfm \<Rightarrow> tick \<Rightarrow> bool" where
  "rfm_due s now \<longleftrightarrow> rfm_is_RFM s \<and> 3900000 \<le> sub64 now (if rfm_last_reset s = 0 then now else rfm_last_reset s)"

lemma rfm_refresh_spec:
  assumes "rfm_wf s"
  shows "\<exists>s'. rfm_refresh s now = Inr s' \<and> rfm_wf s' \<and> rfm_same_config s s' \<and>
     rfm_decision s' = rfm_decision s \<and> rfm_rand_pos s' = rfm_rand_pos s \<and>
     (let due = rfm_is_RFM s \<and> 3900000 \<le> sub64 now (rfm_last_reset s) in \<forall>i<rfm_nbanks s.
        rfm_act_in_trefi_per_bank s' ! i = (if due then 0 else rfm_act_in_trefi_per_bank s ! i) \<and>
        rfm_mytracker s' ! i = (if due then fst (mitig_option (rfm_mytracker s ! i)) else rfm_mytracker s ! i))"
proof (cases "rfm_is_RFM s \<and> 3900000 \<le> sub64 now (rfm_last_reset s)")
  case False
  then show ?thesis using assms by (auto simp: rfm_refresh_def)
next
  case True
  let ?N = "rfm_nbanks s"
  obtain a b where r: "rfm_reset (s\<lparr>rfm_last_reset := now\<rparr>) = s\<lparr>rfm_last_reset := now,
      rfm_s_num_resets := rfm_s_num_resets s + 1, rfm_s_numBankAccesses_RFMThreshold := a,
      rfm_s_numLogBankAccesses := b, rfm_act_in_trefi_per_bank := replicate ?N 0\<rparr>"
    using rfm_reset_upto[of ?N "s\<lparr>rfm_last_reset := now, rfm_s_num_resets := rfm_s_num_resets s + 1\<rparr>"] assms
    by (auto simp: rfm_reset_def rfm_wf_def)
  let ?r = "rfm_reset (s\<lparr>rfm_last_reset := now\<rparr>)"
  have wf: "rfm_wf ?r" using assms unfolding r by (simp add: rfm_wf_def)
  obtain m where m: "rfold rfm_issue ?r [0..<?N] = Inr (?r\<lparr>rfm_mytracker :=
      map (\<lambda>i. fst (mitig_option (rfm_mytracker s ! i))) [0..<?N], rfm_s_mitigs := m\<rparr>)"
  proof -
    have n: "rfm_nbanks ?r = ?N" "rfm_mytracker ?r = rfm_mytracker s" unfolding r by simp_all
    have eq: "map (\<lambda>i. if i < ?N then fst (mitig_option (rfm_mytracker s ! i)) else rfm_mytracker s ! i) [0..<?N]
        = map (\<lambda>i. fst (mitig_option (rfm_mytracker s ! i))) [0..<?N]"
      by simp
    show ?thesis using rfm_issue_all[OF wf, of ?N] that unfolding n eq by blast
  qed
  have "\<forall>i<?N. tracker_cap_wf default_size (fst (mitig_option (rfm_mytracker s ! i)))"
    using assms by (auto simp: rfm_wf_def intro: tracker_cap_wf_mitig)
  then have "rfm_wf (?r\<lparr>rfm_mytracker := map (\<lambda>i. fst (mitig_option (rfm_mytracker s ! i))) [0..<?N],
      rfm_s_mitigs := m\<rparr>)"
    using wf unfolding r by (auto simp: rfm_wf_def)
  moreover have "rfm_refresh s now = Inr (?r\<lparr>rfm_mytracker :=
      map (\<lambda>i. fst (mitig_option (rfm_mytracker s ! i))) [0..<?N], rfm_s_mitigs := m\<rparr>)"
    using True m by (simp add: rfm_refresh_def)
  ultimately show ?thesis using True unfolding r by (auto simp: rfm_same_config_def)
qed

text \<open>The events the tracker of bank \<open>b\<close> sees in an access of bank \<open>bank\<close>.\<close>

definition rfm_count :: "rfm \<Rightarrow> tick \<Rightarrow> nat \<Rightarrow> nat" where
  "rfm_count s now b = (if rfm_due s now then 0 else rfm_act_in_trefi_per_bank s ! b)"

definition rfm_events :: "(nat \<Rightarrow> nat) \<Rightarrow> rfm \<Rightarrow> tick \<Rightarrow> nat \<Rightarrow> nat \<Rightarrow> nat \<Rightarrow> int tracker_event list" where
  "rfm_events rnd s now row bank b =
     (if rfm_due s now then [Mitigate] else []) @
     (if b = bank then
        (if (rfm_count s now b + 1) mod rfm_act_threshold s = 0 then [Mitigate] else []) @
        (if rfm_sampled (rfm_act_threshold s) (rnd (rfm_rand_pos s)) then [Insert_Row (to_int32 row)] else [])
      else [])"

lemma tracker_run_1:
  "tracker_run ins mit t [Mitigate] = Inr (fst (mit t), case snd (mit t) of None \<Rightarrow> [] | Some x \<Rightarrow> [x])"
  by (cases "mit t") (auto split: option.splits)

lemma tracker_run_append:
  "tracker_run ins mit t (es @ fs) = rbind (tracker_run ins mit t es) (\<lambda>(t1, rs).
     rbind (tracker_run ins mit t1 fs) (\<lambda>(t2, rs'). Inr (t2, rs @ rs')))"
proof (induction es arbitrary: t)
  case Nil
  show ?case by (cases "tracker_run ins mit t fs") auto
next
  case (Cons e es)
  show ?case
  proof (cases e)
    case (Insert_Row x)
    then show ?thesis by (simp add: Cons rbind_assoc)
  next
    case Mitigate
    obtain t1 r where m: "mit t = (t1, r)" by fastforce
    show ?thesis
    proof (cases "tracker_run ins mit t1 es")
      case (Inr p)
      obtain t2 rs where p: "p = (t2, rs)" by fastforce
      show ?thesis using Mitigate m Inr p Cons[of t1]
        by (cases "tracker_run ins mit t2 fs") (auto split: option.splits)
    qed (use Mitigate m Cons[of t1] in simp)
  qed
qed

lemma tracker_run_appendI:
  "tracker_run ins mit t es = Inr (t1, rs) \<Longrightarrow> tracker_run ins mit t1 fs = Inr (t2, rs') \<Longrightarrow>
     tracker_run ins mit t (es @ fs) = Inr (t2, rs @ rs')"
  by (simp add: tracker_run_append)

text \<open>The mitigation step: it touches the accessed bank's tracker and the decision.\<close>

lemma rfm_mitigate_spec:
  assumes "rfm_wf s" "b < rfm_nbanks s"
  defines "hit \<equiv> rfm_act_in_trefi_per_bank s ! b mod rfm_act_threshold s = 0"
  shows "\<exists>s' rs. rfm_mitigate s b = Inr s' \<and> rfm_wf s' \<and> rfm_same_config s s' \<and>
     rfm_rand_pos s' = rfm_rand_pos s \<and> rfm_act_in_trefi_per_bank s' = rfm_act_in_trefi_per_bank s \<and>
     d_mitigate (rfm_decision s') = (d_mitigate (rfm_decision s) \<or> hit) \<and>
     (\<forall>i. i \<noteq> b \<longrightarrow> rfm_mytracker s' ! i = rfm_mytracker s ! i) \<and>
     tracker_run tracker_insert mitig_option (rfm_mytracker s ! b) (if hit then [Mitigate] else []) =
       Inr (rfm_mytracker s' ! b, rs)"
proof (cases hit)
  case False
  then show ?thesis using assms(1) by (auto simp: rfm_mitigate_def hit_def rfm_wf_def)
next
  case True
  let ?d = "(rfm_decision s)\<lparr>d_delay := 0, d_bank_delay := rfm_delay_ticks_tRFC s,
            d_bus_delay := (if rfm_bus_delay s then 3332 * 2 * rfm_blast_radius s else 0),
            d_mitigate := True\<rparr>"
  let ?t = "fst (mitig_option (rfm_mytracker s ! b))"
  have b: "b < length (rfm_mytracker s)" "tracker_cap_wf default_size (rfm_mytracker s ! b)"
    "0 < rfm_act_threshold s"
    using assms(1,2) by (simp_all add: rfm_wf_def)
  obtain m where m: "rfm_issue (s\<lparr>rfm_decision := ?d\<rparr>) b =
      Inr (s\<lparr>rfm_decision := ?d, rfm_mytracker := (rfm_mytracker s)[b := ?t], rfm_s_mitigs := m\<rparr>)"
    using rfm_issue_spec[of b "s\<lparr>rfm_decision := ?d\<rparr>" default_size] b by auto
  let ?s = "s\<lparr>rfm_decision := ?d, rfm_mytracker := (rfm_mytracker s)[b := ?t], rfm_s_mitigs := m,
      rfm_s_rfms := rfm_s_rfms s + 1\<rparr>"
  have eq: "rfm_mitigate s b = Inr ?s" using True m b by (simp add: rfm_mitigate_def hit_def)
  have "rfm_wf (s\<lparr>rfm_mytracker := (rfm_mytracker s)[b := ?t]\<rparr>)"
    using assms(1) tracker_cap_wf_mitig[OF b(2)] by simp
  then have "rfm_wf ?s" by (simp add: rfm_wf_def)
  then show ?thesis
    using eq True b tracker_run_1[of tracker_insert mitig_option "rfm_mytracker s ! b"]
    by (auto simp: rfm_same_config_def)
qed

lemma rfm_sample_spec:
  fixes rnd :: "nat \<Rightarrow> nat"
  assumes "rfm_wf s" "b < rfm_nbanks s" "to_int32 row \<noteq> -1"
  defines "hit \<equiv> rfm_sampled (rfm_act_threshold s) (rnd (rfm_rand_pos s))"
  shows "\<exists>s' rs. rfm_sample rnd s b row = Inr s' \<and> rfm_wf s' \<and> rfm_same_config s s' \<and>
     rfm_rand_pos s' = rfm_rand_pos s + 1 \<and> rfm_act_in_trefi_per_bank s' = rfm_act_in_trefi_per_bank s \<and>
     rfm_decision s' = rfm_decision s \<and>
     (\<forall>i. i \<noteq> b \<longrightarrow> rfm_mytracker s' ! i = rfm_mytracker s ! i) \<and>
     tracker_run tracker_insert mitig_option (rfm_mytracker s ! b)
       (if hit then [Insert_Row (to_int32 row)] else []) = Inr (rfm_mytracker s' ! b, rs)"
proof (cases hit)
  case False
  then show ?thesis using assms(1)
    by (auto simp: rfm_sample_def hit_def rfm_wf_def rfm_same_config_def)
next
  case True
  have b: "b < length (rfm_mytracker s)" "tracker_cap_wf default_size (rfm_mytracker s ! b)"
    using assms(1,2) by (simp_all add: rfm_wf_def)
  obtain t where t: "tracker_insert (rfm_mytracker s ! b) (to_int32 row) = Inr t" "tracker_cap_wf default_size t"
    using pride_tracker.ins_total[OF b(2) assms(3)] by auto
  let ?s = "s\<lparr>rfm_rand_pos := rfm_rand_pos s + 1, rfm_mytracker := (rfm_mytracker s)[b := t]\<rparr>"
  have "rfm_sample rnd s b row = Inr ?s"
    using True t b by (simp add: rfm_sample_def hit_def Let_def)
  moreover have "rfm_wf ?s" using rfm_wf_tracker_upd[OF assms(1) t(2), of b] by (simp add: rfm_wf_def)
  ultimately show ?thesis using True t b by (auto simp: rfm_same_config_def)
qed

text \<open>The whole access.\<close>

definition rfm_row_ok :: "nat \<Rightarrow> bool" where
  "rfm_row_ok row \<longleftrightarrow> to_int32 row \<noteq> -1"

definition rfm_mitigates :: "rfm \<Rightarrow> tick \<Rightarrow> nat \<Rightarrow> bool" where
  "rfm_mitigates s now b \<longleftrightarrow> (rfm_count s now b + 1) mod rfm_act_threshold s = 0"

lemma rfm_events_split:
  "rfm_events rnd s now row bank b = (if rfm_due s now then [Mitigate] else []) @
     (if b = bank then (if rfm_mitigates s now b then [Mitigate] else []) @
        (if rfm_sampled (rfm_act_threshold s) (rnd (rfm_rand_pos s)) then [Insert_Row (to_int32 row)] else [])
      else [])"
  by (simp add: rfm_events_def rfm_mitigates_def)

lemma rfm_access_spec:
  assumes wf: "rfm_wf s" and row: "rfm_row_ok row"
    and idx: "bankID < rfm_numBanks s" "rankID < rfm_numRanks s" "channelID < rfm_numChannels s"
  defines "bank \<equiv> rfm_bank s bankID rankID channelID"
  shows "\<exists>s'. rfm_access rnd s now row bankID rankID channelID = Inr s' \<and> rfm_wf s' \<and>
     rfm_same_config s s' \<and> rfm_rand_pos s' = rfm_rand_pos s + 1 \<and>
     d_mitigate (rfm_decision s') = rfm_mitigates s now bank \<and>
     (\<forall>b<rfm_nbanks s. rfm_act_in_trefi_per_bank s' ! b = rfm_count s now b + (if b = bank then 1 else 0)) \<and>
     (\<forall>b<rfm_nbanks s. \<exists>rs. tracker_run tracker_insert mitig_option (rfm_mytracker s ! b)
        (rfm_events rnd s now row bank b) = Inr (rfm_mytracker s' ! b, rs))"
proof -
  let ?N = "rfm_nbanks s" and ?run = "tracker_run tracker_insert mitig_option"
  let ?rf = "if rfm_due s now then [Mitigate] else [] :: int tracker_event list"
  let ?mi = "if rfm_mitigates s now bank then [Mitigate] else [] :: int tracker_event list"
  let ?sa = "if rfm_sampled (rfm_act_threshold s) (rnd (rfm_rand_pos s)) then [Insert_Row (to_int32 row)] else []"
  define s0 where "s0 = s\<lparr>rfm_s_num_accesses := rfm_s_num_accesses s + 1, rfm_decision := resetDecision (rfm_decision s)\<rparr>"
  define s1 where "s1 = (if rfm_last_reset s0 = 0 then s0\<lparr>rfm_last_reset := now\<rparr> else s0)"
  have s1: "rfm_same_config s s1" "rfm_wf s1" "rfm_nbanks s1 = ?N" "rfm_mytracker s1 = rfm_mytracker s"
    "rfm_act_in_trefi_per_bank s1 = rfm_act_in_trefi_per_bank s" "rfm_rand_pos s1 = rfm_rand_pos s"
    "\<not> d_mitigate (rfm_decision s1)" "rfm_act_threshold s1 = rfm_act_threshold s"
    "(rfm_is_RFM s1 \<and> 3900000 \<le> sub64 now (rfm_last_reset s1)) = rfm_due s now"
    "rfm_bank s1 bankID rankID channelID = bank"
    using wf by (auto simp: s1_def s0_def rfm_wf_def rfm_same_config_def resetDecision_def rfm_due_def bank_def rfm_bank_def)
  have bank: "bank < ?N" using rfm_bank_less[OF idx] by (simp add: bank_def)
  obtain s2 where s2: "rfm_refresh s1 now = Inr s2" "rfm_wf s2" "rfm_same_config s1 s2"
    "rfm_decision s2 = rfm_decision s1" "rfm_rand_pos s2 = rfm_rand_pos s"
    "\<forall>i<?N. rfm_act_in_trefi_per_bank s2 ! i = rfm_count s now i"
    "\<forall>i<?N. rfm_mytracker s2 ! i = (if rfm_due s now then fst (mitig_option (rfm_mytracker s ! i)) else rfm_mytracker s ! i)"
    using rfm_refresh_spec[OF s1(2), of now] unfolding s1(3-6,9) rfm_count_def by (auto simp: Let_def)
  have run2: "\<exists>rs. ?run (rfm_mytracker s ! i) ?rf = Inr (rfm_mytracker s2 ! i, rs)" if "i < ?N" for i
    using s2(7) that tracker_run_1[of tracker_insert mitig_option "rfm_mytracker s ! i"] by auto
  define s3 where "s3 = s2\<lparr>rfm_act_in_trefi_per_bank := (rfm_act_in_trefi_per_bank s2)[bank :=
                      rfm_act_in_trefi_per_bank s2 ! bank + 1]\<rparr>"
  have cfg: "rfm_same_config s s2" using s1(1) s2(3) by (rule rfm_same_config_trans)
  have N2: "rfm_nbanks s2 = ?N" "rfm_act_threshold s2 = rfm_act_threshold s"
    using cfg by (simp_all add: rfm_same_config_def)
  have len2: "length (rfm_act_in_trefi_per_bank s2) = ?N" "length (rfm_mytracker s2) = ?N"
    using s2(2) N2 by (simp_all add: rfm_wf_def)
  have s3: "rfm_wf s3" "rfm_same_config s2 s3" "rfm_nbanks s3 = ?N" "rfm_mytracker s3 = rfm_mytracker s2"
    "rfm_act_threshold s3 = rfm_act_threshold s" "rfm_decision s3 = rfm_decision s1"
    "rfm_rand_pos s3 = rfm_rand_pos s"
    "\<forall>i<?N. rfm_act_in_trefi_per_bank s3 ! i = rfm_count s now i + (if i = bank then 1 else 0)"
    using s2 N2 bank len2 by (auto simp: s3_def rfm_wf_def rfm_same_config_def nth_list_update)
  have hit: "(rfm_act_in_trefi_per_bank s3 ! bank mod rfm_act_threshold s3 = 0) = rfm_mitigates s now bank"
    using s3(5,8) bank by (simp add: rfm_mitigates_def)
  obtain s4 rs4 where s4: "rfm_mitigate s3 bank = Inr s4" "rfm_wf s4" "rfm_same_config s3 s4"
    "rfm_rand_pos s4 = rfm_rand_pos s" "rfm_act_in_trefi_per_bank s4 = rfm_act_in_trefi_per_bank s3"
    "d_mitigate (rfm_decision s4) = rfm_mitigates s now bank"
    "\<forall>i. i \<noteq> bank \<longrightarrow> rfm_mytracker s4 ! i = rfm_mytracker s2 ! i"
    "?run (rfm_mytracker s2 ! bank) ?mi = Inr (rfm_mytracker s4 ! bank, rs4)"
    using rfm_mitigate_spec[OF s3(1), of bank] bank s1(7) unfolding s3(3) hit s3(4) s3(6,7) by auto
  have N4: "rfm_nbanks s4 = ?N" "rfm_act_threshold s4 = rfm_act_threshold s"
    using s4(3) s3(3,5) by (auto simp: rfm_same_config_def)
  obtain s5 rs5 where s5: "rfm_sample rnd s4 bank row = Inr s5" "rfm_wf s5" "rfm_same_config s4 s5"
    "rfm_rand_pos s5 = rfm_rand_pos s + 1" "rfm_act_in_trefi_per_bank s5 = rfm_act_in_trefi_per_bank s3"
    "rfm_decision s5 = rfm_decision s4"
    "\<forall>i. i \<noteq> bank \<longrightarrow> rfm_mytracker s5 ! i = rfm_mytracker s4 ! i"
    "?run (rfm_mytracker s4 ! bank) ?sa = Inr (rfm_mytracker s5 ! bank, rs5)"
    using rfm_sample_spec[OF s4(2), of bank row rnd] bank row unfolding N4 s4(4,5) rfm_row_ok_def by auto
  let ?s = "s5\<lparr>rfm_decision := (rfm_decision s5)\<lparr>d_MC_delay := 0, d_SRAM_delay := 0\<rparr>\<rparr>"
  have lt: "bank < length (rfm_act_in_trefi_per_bank s1)" using bank wf unfolding s1(5) by (simp add: rfm_wf_def)
  have "rfm_access rnd s now row bankID rankID channelID = Inr ?s"
    unfolding rfm_access_def Let_def s0_def[symmetric] s1_def[symmetric] s1(10)
    using lt s2(1) s4(1) s5(1) by (simp add: s3_def)
  moreover have "rfm_wf ?s" using s5(2) by (simp add: rfm_wf_def)
  moreover have "rfm_same_config s ?s"
    using cfg s3(2) s4(3) s5(3) by (simp add: rfm_same_config_def)
  moreover have "\<exists>rs. ?run (rfm_mytracker s ! b) (rfm_events rnd s now row bank b) = Inr (rfm_mytracker s5 ! b, rs)"
    if "b < ?N" for b
  proof (cases "b = bank")
    case True
    obtain rs where "?run (rfm_mytracker s ! bank) ?rf = Inr (rfm_mytracker s2 ! bank, rs)"
      using run2[OF bank] by blast
    then have "\<exists>rs. ?run (rfm_mytracker s ! bank) (?rf @ ?mi @ ?sa) = Inr (rfm_mytracker s5 ! bank, rs)"
      using tracker_run_appendI[OF _ tracker_run_appendI[OF s4(8) s5(8)]] by blast
    then show ?thesis unfolding rfm_events_split True by (simp only: refl if_True)
  next
    case False
    then show ?thesis using run2[OF that] s4(7) s5(7) by (auto simp: rfm_events_split)
  qed
  ultimately show ?thesis using s4(6) s5(4,5,6) s3(8) by auto
qed

section \<open>Runs\<close>

text \<open>An access of a trace and the run of a trace, with the events bank \<open>b\<close>'s tracker sees and the
  number of activations of the bank.\<close>

type_synonym rfm_request = "tick \<times> nat \<times> nat \<times> nat \<times> nat"

definition rfm_step :: "(nat \<Rightarrow> nat) \<Rightarrow> rfm \<Rightarrow> rfm_request \<Rightarrow> rfm result" where
  "rfm_step rnd s q = (case q of (now, row, bankID, rankID, channelID) \<Rightarrow>
     rfm_access rnd s now row bankID rankID channelID)"

definition rfm_request_ok :: "rfm \<Rightarrow> rfm_request \<Rightarrow> bool" where
  "rfm_request_ok s q = (case q of (now, row, bankID, rankID, channelID) \<Rightarrow> rfm_row_ok row \<and>
     bankID < rfm_numBanks s \<and> rankID < rfm_numRanks s \<and> channelID < rfm_numChannels s)"

definition rfm_target :: "rfm \<Rightarrow> rfm_request \<Rightarrow> nat" where
  "rfm_target s q = (case q of (now, row, bankID, rankID, channelID) \<Rightarrow> rfm_bank s bankID rankID channelID)"

fun rfm_run_events :: "(nat \<Rightarrow> nat) \<Rightarrow> rfm \<Rightarrow> nat \<Rightarrow> rfm_request list \<Rightarrow> int tracker_event list" where
  "rfm_run_events rnd s b [] = []"
| "rfm_run_events rnd s b (q # qs) =
     (case q of (now, row, _) \<Rightarrow> rfm_events rnd s now row (rfm_target s q) b) @
     (case rfm_step rnd s q of Inl _ \<Rightarrow> [] | Inr s' \<Rightarrow> rfm_run_events rnd s' b qs)"

definition rfm_acts :: "rfm \<Rightarrow> nat \<Rightarrow> rfm_request list \<Rightarrow> nat" where
  "rfm_acts s b qs = length (filter (\<lambda>q. rfm_target s q = b) qs)"

lemma rfm_same_config_target: "rfm_same_config s s' \<Longrightarrow> rfm_target s' q = rfm_target s q"
  by (simp add: rfm_same_config_def rfm_target_def rfm_bank_def split: prod.splits)

lemma rfm_same_config_ok: "rfm_same_config s s' \<Longrightarrow> rfm_request_ok s' q = rfm_request_ok s q"
  by (simp add: rfm_same_config_def rfm_request_ok_def split: prod.splits)

lemma rfm_same_config_acts: "rfm_same_config s s' \<Longrightarrow> rfm_acts s' b qs = rfm_acts s b qs"
  by (simp add: rfm_acts_def rfm_same_config_target)

lemma mitigations_append [simp]: "mitigations (es @ fs) = mitigations es + mitigations fs"
  by (induction es rule: mitigations.induct) simp_all

lemma inserted_append [simp]: "inserted (es @ fs) = inserted es @ inserted fs"
  by (induction es rule: inserted.induct) simp_all

text \<open>Per access, activations never run ahead of the mitigations by a full threshold.\<close>

lemma mod_step:
  assumes "0 < (th::nat)"
  shows "c mod th + 1 = th * (if (c + 1) mod th = 0 then 1 else 0) + (c + 1) mod th"
  using assms mod_Suc[of c th] by auto

lemma rfm_events_count:
  assumes "rfm_wf s"
  shows "(if b = bank then 1 else 0) + rfm_act_in_trefi_per_bank s ! b mod rfm_act_threshold s \<le>
     rfm_act_threshold s * mitigations (rfm_events rnd s now row bank b) +
     (rfm_count s now b + (if b = bank then 1 else 0)) mod rfm_act_threshold s"
proof -
  let ?th = "rfm_act_threshold s" and ?c = "rfm_count s now b"
  have th: "0 < ?th" using assms by (simp add: rfm_wf_def)
  have a: "rfm_act_in_trefi_per_bank s ! b mod ?th \<le> ?th * (if rfm_due s now then 1 else 0) + ?c mod ?th"
    using th by (simp add: rfm_count_def less_imp_le)
  show ?thesis
    using a mod_step[OF th, of ?c] by (auto simp: rfm_events_split rfm_mitigates_def)
qed

lemma rfm_events_rows:
  assumes "rfm_row_ok row"
  shows "-1 \<notin> set (inserted (rfm_events rnd s now row bank b))"
  using assms by (simp add: rfm_events_split rfm_row_ok_def)

lemma rfm_run_spec:
  assumes "rfm_wf s" "\<forall>q\<in>set qs. rfm_request_ok s q" "b < rfm_nbanks s"
  shows "\<exists>s' rs. rfold (rfm_step rnd) s qs = Inr s' \<and> rfm_wf s' \<and> rfm_same_config s s' \<and>
     tracker_run tracker_insert mitig_option (rfm_mytracker s ! b) (rfm_run_events rnd s b qs) =
       Inr (rfm_mytracker s' ! b, rs) \<and> -1 \<notin> set (inserted (rfm_run_events rnd s b qs)) \<and>
     rfm_acts s b qs + rfm_act_in_trefi_per_bank s ! b mod rfm_act_threshold s \<le>
       rfm_act_threshold s * mitigations (rfm_run_events rnd s b qs) +
       rfm_act_in_trefi_per_bank s' ! b mod rfm_act_threshold s"
  using assms
proof (induction qs arbitrary: s)
  case Nil
  then show ?case by (simp add: rfm_acts_def)
next
  case (Cons q qs)
  obtain now row bankID rankID channelID where q: "q = (now, row, bankID, rankID, channelID)"
    by (metis prod_cases5)
  let ?bank = "rfm_bank s bankID rankID channelID"
  have ok: "rfm_row_ok row" "bankID < rfm_numBanks s" "rankID < rfm_numRanks s" "channelID < rfm_numChannels s"
    using Cons.prems(2) q by (simp_all add: rfm_request_ok_def)
  obtain s1 rs1 where s1: "rfm_step rnd s q = Inr s1" "rfm_wf s1" "rfm_same_config s s1"
    "rfm_act_in_trefi_per_bank s1 ! b = rfm_count s now b + (if b = ?bank then 1 else 0)"
    "tracker_run tracker_insert mitig_option (rfm_mytracker s ! b) (rfm_events rnd s now row ?bank b) =
       Inr (rfm_mytracker s1 ! b, rs1)"
    using rfm_access_spec[OF Cons.prems(1) ok, of rnd now] Cons.prems(3) unfolding q rfm_step_def by auto
  have prems: "\<forall>q\<in>set qs. rfm_request_ok s1 q" "b < rfm_nbanks s1" "rfm_act_threshold s1 = rfm_act_threshold s"
    using Cons.prems(2,3) rfm_same_config_ok[OF s1(3)] s1(3) by (auto simp: rfm_same_config_def)
  obtain s2 rs2 where s2: "rfold (rfm_step rnd) s1 qs = Inr s2" "rfm_wf s2" "rfm_same_config s1 s2"
    "tracker_run tracker_insert mitig_option (rfm_mytracker s1 ! b) (rfm_run_events rnd s1 b qs) =
       Inr (rfm_mytracker s2 ! b, rs2)" "-1 \<notin> set (inserted (rfm_run_events rnd s1 b qs))"
     "rfm_acts s1 b qs + rfm_act_in_trefi_per_bank s1 ! b mod rfm_act_threshold s \<le>
       rfm_act_threshold s * mitigations (rfm_run_events rnd s1 b qs) +
       rfm_act_in_trefi_per_bank s2 ! b mod rfm_act_threshold s"
    using Cons.IH[OF s1(2) prems(1,2)] unfolding prems(3) by blast
  have ev: "rfm_run_events rnd s b (q # qs) = rfm_events rnd s now row ?bank b @ rfm_run_events rnd s1 b qs"
    using s1(1) q by (simp add: rfm_target_def)
  have acts: "rfm_acts s b (q # qs) = (if b = ?bank then 1 else 0) + rfm_acts s1 b qs"
    unfolding rfm_same_config_acts[OF s1(3)] using q by (auto simp: rfm_acts_def rfm_target_def)
  have "rfm_acts s b (q # qs) + rfm_act_in_trefi_per_bank s ! b mod rfm_act_threshold s \<le>
       rfm_act_threshold s * mitigations (rfm_run_events rnd s b (q # qs)) +
       rfm_act_in_trefi_per_bank s2 ! b mod rfm_act_threshold s"
    using rfm_events_count[OF Cons.prems(1), of b ?bank rnd now row] s2(6)
    unfolding ev acts s1(4) by (simp add: algebra_simps)
  moreover have "rfold (rfm_step rnd) s (q # qs) = Inr s2" using s1(1) s2(1) by simp
  moreover have "tracker_run tracker_insert mitig_option (rfm_mytracker s ! b) (rfm_run_events rnd s b (q # qs)) =
      Inr (rfm_mytracker s2 ! b, rs1 @ rs2)"
    unfolding ev by (rule tracker_run_appendI[OF s1(5) s2(4)])
  moreover have "-1 \<notin> set (inserted (rfm_run_events rnd s b (q # qs)))"
    unfolding ev using rfm_events_rows[OF ok(1)] s2(5) by simp
  ultimately show ?case
    using s2(2) rfm_same_config_trans[OF s1(3) s2(3)] by blast
qed


section \<open>The reset's statistics\<close>

lemma rfm_bucket_value:
  "rfm_bucket n 0 0 = Some (if n < 2 then 0 else if n < 4 then 1 else if n < 8 then 2 else if n < 16 then 3
     else if n < 32 then 4 else if n < 64 then 5 else if n < 128 then 6 else if n < 166 then 7 else 8)"
  by (simp add: rfm_bucket.simps Let_def)

lemma rfm_bucket_less: "rfm_bucket n 0 0 = Some i \<Longrightarrow> i < 9"
  by (auto simp: rfm_bucket_value split: if_splits)

lemma rfm_reset_bank_fields:
  "rfm_act_threshold (rfm_reset_bank s k) = rfm_act_threshold s"
  "rfm_act_in_trefi_per_bank (rfm_reset_bank s k) = (rfm_act_in_trefi_per_bank s)[k := 0]"
  "length (rfm_s_numLogBankAccesses (rfm_reset_bank s k)) = length (rfm_s_numLogBankAccesses s)"
  "rfm_s_numBankAccesses_RFMThreshold (rfm_reset_bank s k) = rfm_s_numBankAccesses_RFMThreshold s +
     (if rfm_act_threshold s \<le> rfm_act_in_trefi_per_bank s ! k then 1 else 0)"
  by (auto simp: rfm_reset_bank_def Let_def split: option.split)

lemma rfm_reset_bank_sum:
  assumes "length (rfm_s_numLogBankAccesses s) = 9"
  shows "sum_list (rfm_s_numLogBankAccesses (rfm_reset_bank s k)) = sum_list (rfm_s_numLogBankAccesses s) + 1"
proof -
  obtain i where i: "rfm_bucket (rfm_act_in_trefi_per_bank s ! k) 0 0 = Some i"
    using rfm_bucket_value by blast
  then show ?thesis using sum_list_update_Suc[of i "rfm_s_numLogBankAccesses s"] rfm_bucket_less[OF i] assms
    by (simp add: rfm_reset_bank_def)
qed

lemma rfm_reset_stats_upto:
  assumes "length (rfm_s_numLogBankAccesses s) = 9" "k \<le> length (rfm_act_in_trefi_per_bank s)"
  defines "s' \<equiv> foldl rfm_reset_bank s [0..<k]"
  shows "length (rfm_s_numLogBankAccesses s') = 9 \<and>
    sum_list (rfm_s_numLogBankAccesses s') = sum_list (rfm_s_numLogBankAccesses s) + k \<and>
    rfm_act_threshold s' = rfm_act_threshold s \<and>
    (\<forall>b. rfm_act_in_trefi_per_bank s' ! b = (if b < k then 0 else rfm_act_in_trefi_per_bank s ! b)) \<and>
    length (rfm_act_in_trefi_per_bank s') = length (rfm_act_in_trefi_per_bank s) \<and>
    rfm_s_numBankAccesses_RFMThreshold s' = rfm_s_numBankAccesses_RFMThreshold s +
      card {b. b < k \<and> rfm_act_threshold s \<le> rfm_act_in_trefi_per_bank s ! b}"
  using assms(2) unfolding s'_def
proof (induction k)
  case 0
  then show ?case using assms(1) by simp
next
  case (Suc k)
  have "{b. b < Suc k \<and> rfm_act_threshold s \<le> rfm_act_in_trefi_per_bank s ! b} =
      {b. b < k \<and> rfm_act_threshold s \<le> rfm_act_in_trefi_per_bank s ! b} \<union>
      (if rfm_act_threshold s \<le> rfm_act_in_trefi_per_bank s ! k then {k} else {})"
    by (auto simp: less_Suc_eq)
  then have "card {b. b < Suc k \<and> rfm_act_threshold s \<le> rfm_act_in_trefi_per_bank s ! b} =
      card {b. b < k \<and> rfm_act_threshold s \<le> rfm_act_in_trefi_per_bank s ! b} +
      (if rfm_act_threshold s \<le> rfm_act_in_trefi_per_bank s ! k then 1 else 0)"
    by simp
  then show ?case
    using Suc by (simp add: rfm_reset_bank_fields rfm_reset_bank_sum nth_list_update less_Suc_eq)
qed

section \<open>Properties\<close>

text \<open>C9: An access never faults on a well-formed state with addresses in range, keeps the state
  well formed, mitigates exactly when the bank's count since the last reset becomes a multiple of the
  threshold, advances that bank's count only, and lets the tracker of every bank see exactly the
  refresh mitigation, the threshold mitigation and the sampled row that are due to it.\<close>

theorem rfm_access_events:
  assumes "rfm_wf s" "rfm_row_ok row"
    and "bankID < rfm_numBanks s" "rankID < rfm_numRanks s" "channelID < rfm_numChannels s"
  shows "\<exists>s'. rfm_access rnd s now row bankID rankID channelID = Inr s' \<and> rfm_wf s' \<and>
     d_mitigate (rfm_decision s') = rfm_mitigates s now (rfm_bank s bankID rankID channelID) \<and>
     (\<forall>b<rfm_nbanks s. rfm_act_in_trefi_per_bank s' ! b =
        rfm_count s now b + (if b = rfm_bank s bankID rankID channelID then 1 else 0)) \<and>
     (\<forall>b<rfm_nbanks s. \<exists>rs. tracker_run tracker_insert mitig_option (rfm_mytracker s ! b)
        (rfm_events rnd s now row (rfm_bank s bankID rankID channelID) b) = Inr (rfm_mytracker s' ! b, rs))"
  using rfm_access_spec[OF assms, of rnd now] by blast

text \<open>C1: PrIDE's guarantee per bank: in any run of accesses, once a bank has had
  \<open>rfm_act_threshold\<close> activations for every row its tracker held at the start, all those rows have
  been handed out for mitigation, oldest first, provided the rows held and the rows sampled since
  fit in the tracker.  No access of the run faults.\<close>

theorem pride_mitigates_held_rows:
  assumes "rfm_wf s" "\<forall>q\<in>set qs. rfm_request_ok s q" "b < rfm_nbanks s"
    and "tk_num_valid (rfm_mytracker s ! b) + length (inserted (rfm_run_events rnd s b qs)) \<le> default_size"
    and "rfm_act_threshold s * tk_num_valid (rfm_mytracker s ! b) \<le> rfm_acts s b qs"
  shows "\<exists>s' rs. rfold (rfm_step rnd) s qs = Inr s' \<and>
    tracker_run tracker_insert mitig_option (rfm_mytracker s ! b) (rfm_run_events rnd s b qs) =
      Inr (rfm_mytracker s' ! b, rs) \<and>
    take (tk_num_valid (rfm_mytracker s ! b)) rs = tracker_contents (rfm_mytracker s ! b)"
proof -
  let ?t = "rfm_mytracker s ! b" and ?es = "rfm_run_events rnd s b qs" and ?th = "rfm_act_threshold s"
  obtain s' rs where s': "rfold (rfm_step rnd) s qs = Inr s'"
    "tracker_run tracker_insert mitig_option ?t ?es = Inr (rfm_mytracker s' ! b, rs)"
    "-1 \<notin> set (inserted ?es)"
    "rfm_acts s b qs + rfm_act_in_trefi_per_bank s ! b mod ?th \<le>
       ?th * mitigations ?es + rfm_act_in_trefi_per_bank s' ! b mod ?th"
    using rfm_run_spec[OF assms(1-3), of rnd] by blast
  have wf: "0 < ?th" "tracker_cap_wf default_size ?t" using assms(1,3) by (simp_all add: rfm_wf_def)
  have "?th * tk_num_valid ?t < ?th * (mitigations ?es + 1)"
    using s'(4) assms(5) mod_less_divisor[OF wf(1), of "rfm_act_in_trefi_per_bank s' ! b"] by simp
  then have "tk_num_valid ?t < mitigations ?es + 1" by (simp only: mult_less_cancel1)
  then have "tk_num_valid ?t \<le> mitigations ?es" by simp
  then have "\<exists>t' rs. tracker_run tracker_insert mitig_option ?t ?es = Inr (t', rs) \<and>
      take (tk_num_valid ?t) rs = tracker_contents ?t"
    using pride_tracker.run_issues_held[OF wf(2), of ?es] s'(3) assms(4) by auto
  then show ?thesis using s'(1,2) by auto
qed

text \<open>The sampling test accepts \<open>ceiling (RAND_MAX / (th + 1))\<close> of the \<open>RAND_MAX + 1\<close>
  values of \<open>rand()\<close>: the sampling probability of PrIDE, one in \<open>th + 1\<close>.\<close>

theorem rfm_sample_rate:
  "card {r. r \<le> RAND_MAX \<and> rfm_sampled th r} = (RAND_MAX + th) div (th + 1)"
proof -
  have iff: "r * (th + 1) < RAND_MAX \<longleftrightarrow> r < (RAND_MAX + th) div (th + 1)" for r
  proof -
    have "r < (RAND_MAX + th) div (th + 1) \<longleftrightarrow> (r + 1) * (th + 1) \<le> RAND_MAX + th"
      using less_eq_div_iff_mult_less_eq[of "th + 1" "r + 1" "RAND_MAX + th"] by (simp only: Suc_eq_plus1[symmetric] Suc_le_eq zero_less_Suc simp_thms)
    also have "\<dots> \<longleftrightarrow> r * (th + 1) + th < RAND_MAX + th" unfolding add_mult_distrib by arith
    finally show ?thesis by simp
  qed
  have le: "r \<le> RAND_MAX" if "rfm_sampled th r" for r
    using that le_trans[of r "r * (th + 1)" RAND_MAX] by (simp add: rfm_sampled_def)
  have "r \<le> RAND_MAX \<and> rfm_sampled th r \<longleftrightarrow> r < (RAND_MAX + th) div (th + 1)" for r
    using iff[of r] le[of r] unfolding rfm_sampled_def by argo
  then have "{r. r \<le> RAND_MAX \<and> rfm_sampled th r} = {..<(RAND_MAX + th) div (th + 1)}"
    unfolding lessThan_def by (rule Collect_cong)
  then show ?thesis by simp
qed

text \<open>A reset clears every bank's counter, puts every bank in exactly one bucket of the histogram
  and adds to the over-threshold statistic the number of banks at or over the threshold.\<close>

theorem rfm_reset_statistics:
  assumes "rfm_wf s" "length (rfm_s_numLogBankAccesses s) = 9"
  shows "sum_list (rfm_s_numLogBankAccesses (rfm_reset s)) = sum_list (rfm_s_numLogBankAccesses s) + rfm_nbanks s \<and>
    (\<forall>b<rfm_nbanks s. rfm_act_in_trefi_per_bank (rfm_reset s) ! b = 0) \<and>
    rfm_s_numBankAccesses_RFMThreshold (rfm_reset s) = rfm_s_numBankAccesses_RFMThreshold s +
      card {b. b < rfm_nbanks s \<and> rfm_act_threshold s \<le> rfm_act_in_trefi_per_bank s ! b}"
  using rfm_reset_stats_upto[of "s\<lparr>rfm_s_num_resets := rfm_s_num_resets s + 1\<rparr>" "rfm_nbanks s"] assms
  by (simp add: rfm_reset_def rfm_wf_def)

section \<open>Witnesses\<close>

text \<open>One channel, one rank, two banks, threshold 2.\<close>

definition rfm_example :: rfm where
  "rfm_example = rfm_new
     \<lparr>rfm_numRows = 0, rfm_numBanks = 0, rfm_numRanks = 0, rfm_numChannels = 0, rfm_last_reset = 0,
      rfm_threshold = 0, rfm_decision = \<lparr>d_mitigate = False, d_isActionSwap = [], d_validAddrs = 0,
        d_addrs = [], d_remappedAddr = 0, d_delay = 0, d_SRAM_delay = 0, d_MC_delay = 0, d_bus_delay = 0,
        d_bank_delay = 0\<rparr>,
      rfm_act_in_trefi_per_bank = [], rfm_mytracker = [], rfm_bus_delay = False, rfm_act_threshold = 0,
      rfm_delay_ticks_tRC = 0, rfm_delay_ticks_tRFC = 0, rfm_blast_radius = 0, rfm_is_RFM = False,
      rfm_rand_pos = 0, rfm_s_num_accesses = 0, rfm_s_rfms = 0, rfm_s_mitigs = 0, rfm_s_num_resets = 0,
      rfm_s_numLogBankAccesses = [], rfm_s_numBankAccesses_RFMThreshold = 0\<rparr>
     True 40 False 2 45000 175000 2 1024 2 1 1 6"

text \<open>Bank 0's tracker holds row 77.\<close>

definition rfm_example_held :: rfm where
  "rfm_example_held = rfm_example\<lparr>rfm_mytracker := (rfm_mytracker rfm_example)[0 :=
     \<lparr>tk_max_size = 6, tk_ring = [77, -1, -1, -1, -1, -1], tk_num_valid = 1, tk_head = 0, tk_tail = 1,
      tk_num_remove = 0, tk_num_evict = 0, tk_num_insert = 1\<rparr>]\<rparr>"

lemma tracker_new_default:
  "tracker_cap_wf default_size (tracker_Init (tracker_new default_size) 6)"
  by (simp add: tracker_cap_wf_def default_size_def tracker_wf_def tracker_new_def tracker_Init_def
      vec_resize_def tracker_contents_def)

lemma rfm_example_wf: "rfm_wf rfm_example"
  using tracker_new_default by (simp add: rfm_example_def rfm_new_def rfm_wf_def)

lemma rfm_example_config:
  "rfm_numBanks rfm_example = 2" "rfm_numRanks rfm_example = 1" "rfm_numChannels rfm_example = 1"
  "rfm_act_threshold rfm_example = 2" "length (rfm_mytracker rfm_example) = 2" "rfm_last_reset rfm_example = 0"
  by (simp_all add: rfm_example_def rfm_new_def)

lemma rfm_example_held_wf: "rfm_wf rfm_example_held"
  unfolding rfm_example_held_def
  by (rule rfm_wf_tracker_upd[OF rfm_example_wf])
     (simp add: tracker_cap_wf_def tracker_wf_def default_size_def tracker_contents_def ring_contents_def)

theorem rfm_access_events_witness:
  "\<exists>s'. rfm_access (\<lambda>_. 0) rfm_example 5 9 1 0 0 = Inr s' \<and> rfm_wf s'"
  using rfm_access_events[OF rfm_example_wf, of 9 1 0 0 "\<lambda>_. 0" 5]
  by (auto simp: rfm_example_config rfm_row_ok_def to_int32_small)

theorem pride_mitigates_held_rows_witness:
  "\<exists>s' rs. rfold (rfm_step (\<lambda>_. RAND_MAX)) rfm_example_held [(5, 9, 0, 0, 0), (6, 9, 0, 0, 0)] = Inr s' \<and>
    tracker_run tracker_insert mitig_option (rfm_mytracker rfm_example_held ! 0)
      (rfm_run_events (\<lambda>_. RAND_MAX) rfm_example_held 0 [(5, 9, 0, 0, 0), (6, 9, 0, 0, 0)]) =
      Inr (rfm_mytracker s' ! 0, rs) \<and> take 1 rs = [77]"
proof -
  have cfg: "rfm_numBanks rfm_example_held = 2" "rfm_numRanks rfm_example_held = 1"
    "rfm_numChannels rfm_example_held = 1" "rfm_act_threshold rfm_example_held = 2"
    "tk_num_valid (rfm_mytracker rfm_example_held ! 0) = 1"
    "tracker_contents (rfm_mytracker rfm_example_held ! 0) = [77]"
    by (simp_all add: rfm_example_held_def rfm_example_config tracker_contents_def ring_contents_def)
  have none: "inserted (rfm_run_events (\<lambda>_. RAND_MAX) s b qs) = []" for s b qs
    by (induction qs arbitrary: s)
       (auto simp: rfm_events_def rfm_sampled_def RAND_MAX_def split: prod.splits sum.splits)
  show ?thesis
    using pride_mitigates_held_rows[OF rfm_example_held_wf, of "[(5, 9, 0, 0, 0), (6, 9, 0, 0, 0)]" 0 "\<lambda>_. RAND_MAX"]
    unfolding cfg none
    by (simp add: rfm_request_ok_def cfg rfm_row_ok_def to_int32_small rfm_acts_def rfm_target_def
        rfm_bank_def default_size_def)
qed

theorem rfm_reset_statistics_witness:
  "sum_list (rfm_s_numLogBankAccesses (rfm_reset rfm_example)) = sum_list (rfm_s_numLogBankAccesses rfm_example) + 2"
  using rfm_reset_statistics[OF rfm_example_wf]
  by (simp add: rfm_example_config) (simp add: rfm_example_def rfm_new_def)

end
