(* ===== verification/Loss_Analysis.thy ===== *)
theory Loss_Analysis
  imports Complex_Main Fifo_Interface
begin

text \<open>
  The analytical loss-probability model of
  \<open>security/0_loss_probability/analytical/loss_probability_analytical.cpp\<close>: the binomial
  distribution of the insertions in a window, the recursion for the probability that a tracked row is
  overwritten before its mitigation, the Markov chain of the tracker's occupancy, and the printed
  table.  \<open>double\<close> is the reals; \<open>uns\<close> is a natural number whose differences wrap
  (\<open>sub32\<close>).  Array accesses outside the arrays and the assertion are faults.
\<close>

section \<open>The program\<close>

definition MAX_SIZE :: nat where "MAX_SIZE = 16"

text \<open>The global variables; the arrays start at zero.\<close>

record la_state =
  la_TREFI :: nat
  la_INS_PROB :: real
  la_prob_n :: "real list"
  la_cprob_n :: "real list"

definition la_start :: la_state where
  "la_start = \<lparr>la_TREFI = 79, la_INS_PROB = 1 / 79, la_prob_n = replicate (MAX_SIZE + 1) 0,
     la_cprob_n = replicate (MAX_SIZE + 1) 0\<rparr>"

text \<open>\<open>uns get_trh_star(...)\<close>: the conversion of a positive \<open>double\<close> to \<open>uns\<close> truncates.\<close>

definition get_trh_star :: "real \<Rightarrow> real \<Rightarrow> real \<Rightarrow> nat" where
  "get_trh_star ins_prob loss_prob target_ttf_yrs =
     (let ln_trefi_by_ttf = ln (39 / 10 / (target_ttf_yrs * 365 * 24 * 3600 * 1000000))
      in nat \<lfloor>ln_trefi_by_ttf / ln (1 - ins_prob * (1 - loss_prob))\<rfloor>)"

definition calc_binomial_prob :: "nat \<Rightarrow> nat \<Rightarrow> real \<Rightarrow> real" where
  "calc_binomial_prob n k p =
     (let a = foldl (\<lambda>log_ans ii. log_ans + ln (real ii)) 0 [1..<n + 1];
          b = foldl (\<lambda>log_ans ii. log_ans - ln (real ii)) a [1..<sub32 n k + 1];
          c = foldl (\<lambda>log_ans ii. log_ans - ln (real ii)) b [1..<k + 1];
          d = c + real k * ln p;
          e = d + real (sub32 n k) * ln (1 - p)
      in exp e)"

text \<open>\<open>init\<close>: \<open>prob_n\<close> is filled up to \<open>MAX_SIZE\<close>, \<open>cprob_n\<close> below it.\<close>

definition init_prob :: "la_state \<Rightarrow> real list \<Rightarrow> nat \<Rightarrow> real list" where
  "init_prob s v ii = v[ii := calc_binomial_prob (la_TREFI s) ii (la_INS_PROB s)]"

definition init_cprob :: "la_state \<Rightarrow> real list \<times> real \<Rightarrow> nat \<Rightarrow> real list \<times> real" where
  "init_cprob s vb ii = (case vb of (v, balance) \<Rightarrow>
     (v[ii := balance], balance - calc_binomial_prob (la_TREFI s) ii (la_INS_PROB s)))"

definition la_init :: "la_state \<Rightarrow> la_state" where
  "la_init s = s\<lparr>la_prob_n := foldl (init_prob s) (la_prob_n s) [0..<MAX_SIZE + 1],
     la_cprob_n := fst (foldl (init_cprob s) (la_cprob_n s, 1) [0..<MAX_SIZE])\<rparr>"

definition arr :: "real list \<Rightarrow> nat \<Rightarrow> real result" where
  "arr v i = (if i < length v then Inr (v ! i) else Inl OutOfBounds)"

fun rsum :: "real result list \<Rightarrow> real result" where
  "rsum [] = Inr 0"
| "rsum (x # xs) = rbind x (\<lambda>a. rbind (rsum xs) (\<lambda>b. Inr (a + b)))"

text \<open>\<open>calc_lossprob\<close>; the loop over \<open>insert\<close> is the sum of its terms.\<close>

function calc_lossprob :: "la_state \<Rightarrow> nat \<Rightarrow> nat \<Rightarrow> nat \<Rightarrow> real result" where
  "calc_lossprob s capacity ptr size0 =
     (let full_th = u32 (sub32 capacity size0 + ptr) in
      if ptr = 0 then arr (la_cprob_n s) (full_th + 1)
      else rbind (rsum (map (\<lambda>insert0.
             let new_size = (if capacity < size0 + insert0 then capacity else size0 + insert0);
                 remain = sub32 capacity size0;
                 new_ptr = (if remain < insert0 then sub32 ptr (insert0 - remain) else ptr)
             in rbind (arr (la_prob_n s) insert0) (\<lambda>event_prob.
                if remain < insert0 \<and> \<not> new_ptr < ptr then Inl AssertFail
                else rbind (calc_lossprob s capacity (dec32 new_ptr) (dec32 new_size)) (\<lambda>case_fail_prob.
                  Inr (event_prob * case_fail_prob)))) [0..<full_th]))
           (\<lambda>A_lossprob. rbind (arr (la_cprob_n s) (full_th + 1)) (\<lambda>C_lossprob.
             Inr (A_lossprob + 0 + C_lossprob))))"
  by pat_completeness auto
termination
proof (relation "measure (\<lambda>(s, capacity, ptr, size0). ptr)", simp)
  fix s :: la_state and capacity ptr size0 full_th insert0 new_size remain new_ptr :: nat and event_prob :: real
  assume full: "full_th = u32 (sub32 capacity size0 + ptr)" and ptr: "ptr \<noteq> 0"
    and ins: "insert0 \<in> set [0..<full_th]" and remain: "remain = sub32 capacity size0"
    and new_ptr: "new_ptr = (if remain < insert0 then sub32 ptr (insert0 - remain) else ptr)"
  have "full_th \<le> remain + ptr" by (simp add: full remain u32_def)
  then have "insert0 < remain + ptr" using ins by simp
  then have "0 < new_ptr \<and> new_ptr \<le> ptr" using ptr by (auto simp: new_ptr sub32_def)
  then show "((s, capacity, dec32 new_ptr, dec32 new_size), s, capacity, ptr, size0)
      \<in> measure (\<lambda>(s, capacity, ptr, size0). ptr)"
    by (auto simp: dec32_def)
qed

declare calc_lossprob.simps [simp del]

text \<open>\<open>init_markov_chain\<close>: the rows of the transition matrix, then 1000 products.\<close>

definition mc_fill :: "(nat \<Rightarrow> real) \<Rightarrow> (nat \<Rightarrow> real) \<times> real \<Rightarrow> nat list \<Rightarrow> (nat \<Rightarrow> real) \<times> real" where
  "mc_fill val = foldl (\<lambda>(row, balance) jj. (row(jj := val jj), balance - val jj))"

definition mc_row0 :: "real list \<Rightarrow> nat \<Rightarrow> nat \<Rightarrow> real" where
  "mc_row0 prob size0 =
     (let v = prob ! 0 + prob ! 1;
          (row, balance) = mc_fill (\<lambda>jj. prob ! (jj + 1)) ((\<lambda>_. 0)(0 := v), 1 - v) [1..<size0 - 1]
      in row(size0 - 1 := balance))"

definition mc_row :: "real list \<Rightarrow> nat \<Rightarrow> nat \<Rightarrow> nat \<Rightarrow> real" where
  "mc_row prob size0 ii =
     (let (row, balance) = mc_fill (\<lambda>jj. if ii - 1 \<le> jj then prob ! (jj + 1 - ii) else 0) (\<lambda>_. 0, 1) [0..<size0 - 1]
      in row(size0 - 1 := balance))"

definition MCVals :: "real list \<Rightarrow> nat \<Rightarrow> nat \<Rightarrow> nat \<Rightarrow> real" where
  "MCVals prob size0 ii = (if ii = 0 then mc_row0 prob size0 else mc_row prob size0 ii)"

definition mc_step :: "(nat \<Rightarrow> nat \<Rightarrow> real) \<Rightarrow> nat \<Rightarrow> (nat \<Rightarrow> real) \<Rightarrow> nat \<Rightarrow> real" where
  "mc_step MC size0 mc_soln = (\<lambda>ii. \<Sum>jj\<leftarrow>[0..<size0]. mc_soln jj * MC jj ii)"

definition init_markov_chain :: "la_state \<Rightarrow> nat \<Rightarrow> nat \<Rightarrow> real" where
  "init_markov_chain s size0 =
     (mc_step (MCVals (la_prob_n s) size0) size0 ^^ 1000) (\<lambda>_. 1 / real size0)"

text \<open>The loss probability of a capacity, and the printed rows: capacity, loss probability, TRH*.\<close>

definition capacity_lossprob :: "la_state \<Rightarrow> nat \<Rightarrow> real result" where
  "capacity_lossprob s capacity =
     (let MCSoln = init_markov_chain s capacity in
      rsum (map (\<lambda>p. rbind (calc_lossprob s capacity p (p + 1)) (\<lambda>my_lossprob. Inr (MCSoln p * my_lossprob)))
        [0..<capacity]))"

definition print_row :: "la_state \<Rightarrow> nat \<Rightarrow> (nat \<times> real \<times> nat) result" where
  "print_row s capacity =
     rbind (capacity_lossprob s capacity) (\<lambda>p. Inr (capacity, p, get_trh_star (la_INS_PROB s) p 10000))"

fun rmap :: "('a \<Rightarrow> 'b result) \<Rightarrow> 'a list \<Rightarrow> 'b list result" where
  "rmap f [] = Inr []"
| "rmap f (x # xs) = rbind (f x) (\<lambda>y. rbind (rmap f xs) (\<lambda>ys. Inr (y # ys)))"

definition print_loss_prob :: "la_state \<Rightarrow> nat \<Rightarrow> (la_state \<times> (nat \<times> real \<times> nat) list) result" where
  "print_loss_prob s0 window_size =
     (let s = la_init (s0\<lparr>la_TREFI := window_size, la_INS_PROB := 1 / real window_size\<rparr>);
          loss_single_entry = 1 - (1 - la_INS_PROB s) ^ (la_TREFI s - 1);
          trh_single_entry = get_trh_star (la_INS_PROB s) loss_single_entry 10000
      in rbind (rmap (print_row s) [2, 4, 8, 16]) (\<lambda>rows.
           Inr (s, (1, loss_single_entry, trh_single_entry) # rows)))"

section \<open>The binomial distribution\<close>

lemma foldl_add_ln: "foldl (\<lambda>a ii. a + ln (real ii)) x [1..<n + 1] = x + ln (fact n)"
  by (induction n) (simp_all add: ln_mult)

lemma foldl_sub_ln: "foldl (\<lambda>a ii. a - ln (real ii)) x [1..<n + 1] = x - ln (fact n)"
  by (induction n) (simp_all add: ln_mult)

lemma calc_binomial_prob_eq:
  assumes "k \<le> n" "0 < p" "p < 1"
  shows "calc_binomial_prob n k p = real (n choose k) * p ^ k * (1 - p) ^ (n - k)"
proof -
  have "calc_binomial_prob n k p =
      exp (ln (fact n) - ln (fact (n - k)) - ln (fact k) + real k * ln p + real (n - k) * ln (1 - p))"
    unfolding calc_binomial_prob_def Let_def foldl_add_ln foldl_sub_ln sub32_le[OF assms(1)] by simp
  also have "\<dots> = fact n / fact (n - k) / fact k * p ^ k * (1 - p) ^ (n - k)"
    using assms by (simp add: exp_add exp_diff exp_of_nat_mult del: of_nat_diff)
  also have "fact n / fact (n - k) / fact k = real (n choose k)"
    using assms(1) by (simp add: binomial_fact field_simps)
  finally show ?thesis .
qed

lemma binomial_prob_nonneg: "0 \<le> calc_binomial_prob n k p"
  by (simp add: calc_binomial_prob_def Let_def)

lemma binomial_prob_sum_le:
  assumes "m \<le> n + 1" "0 < p" "p < 1"
  shows "(\<Sum>k<m. calc_binomial_prob n k p) \<le> 1"
proof -
  have "(\<Sum>k<m. calc_binomial_prob n k p) \<le> (\<Sum>k<n + 1. calc_binomial_prob n k p)"
    using assms(1) by (intro sum_mono2) (auto simp: binomial_prob_nonneg)
  also have "\<dots> = (\<Sum>k\<le>n. real (n choose k) * p ^ k * (1 - p) ^ (n - k))"
    using assms by (intro sum.cong) (auto simp: calc_binomial_prob_eq)
  also have "\<dots> = (p + (1 - p)) ^ n" by (rule binomial_ring[symmetric])
  finally show ?thesis by simp
qed

section \<open>The tables of \<open>init\<close>\<close>

lemma init_prob_loop:
  assumes "m \<le> length v"
  shows "length (foldl (init_prob s) v [0..<m]) = length v \<and>
    (\<forall>i. foldl (init_prob s) v [0..<m] ! i =
       (if i < m then calc_binomial_prob (la_TREFI s) i (la_INS_PROB s) else v ! i))"
  using assms by (induction m) (auto simp: init_prob_def nth_list_update less_Suc_eq)

lemma init_cprob_loop:
  fixes s :: la_state and m :: nat
  assumes "m \<le> length v"
  defines "r \<equiv> foldl (init_cprob s) (v, 1) [0..<m]"
  shows "length (fst r) = length v \<and>
    snd r = 1 - (\<Sum>k<m. calc_binomial_prob (la_TREFI s) k (la_INS_PROB s)) \<and>
    (\<forall>i. fst r ! i = (if i < m then 1 - (\<Sum>k<i. calc_binomial_prob (la_TREFI s) k (la_INS_PROB s)) else v ! i))"
  using assms(1) unfolding r_def
  by (induction m) (auto simp: init_cprob_def nth_list_update less_Suc_eq split: prod.splits)

text \<open>What the later functions need of the tables: \<open>p\<close> and \<open>c\<close> are nonnegative and the tail
  \<open>c k\<close> never exceeds what the first \<open>k\<close> probabilities leave.\<close>

definition la_tables :: "la_state \<Rightarrow> bool" where
  "la_tables s \<longleftrightarrow> length (la_prob_n s) = 17 \<and> length (la_cprob_n s) = 17 \<and>
     (\<forall>i<17. 0 \<le> la_prob_n s ! i) \<and> (\<forall>i<17. 0 \<le> la_cprob_n s ! i) \<and>
     (\<forall>k<17. (\<Sum>i<k. la_prob_n s ! i) + la_cprob_n s ! k \<le> 1) \<and> (\<Sum>i<17. la_prob_n s ! i) \<le> 1"

lemma la_init_tables:
  assumes "length (la_prob_n s) = 17" "length (la_cprob_n s) = 17" "la_cprob_n s ! 16 = 0"
    and "16 \<le> la_TREFI s" "0 < la_INS_PROB s" "la_INS_PROB s < 1"
  shows "la_tables (la_init s)"
proof -
  let ?b = "\<lambda>k. calc_binomial_prob (la_TREFI s) k (la_INS_PROB s)"
  have p: "length (la_prob_n (la_init s)) = 17" "\<And>i. i < 17 \<Longrightarrow> la_prob_n (la_init s) ! i = ?b i"
    using init_prob_loop[of 17 "la_prob_n s" s] assms(1) by (simp_all add: la_init_def MAX_SIZE_def)
  have c: "length (la_cprob_n (la_init s)) = 17"
    "\<And>i. la_cprob_n (la_init s) ! i = (if i < 16 then 1 - (\<Sum>k<i. ?b k) else la_cprob_n s ! i)"
    using init_cprob_loop[of 16 "la_cprob_n s" s] assms(2) by (simp_all add: la_init_def MAX_SIZE_def)
  have le: "(\<Sum>k<m. ?b k) \<le> 1" if "m \<le> 17" for m
    using binomial_prob_sum_le[of m "la_TREFI s" "la_INS_PROB s"] that assms(4-6) by simp
  have ps: "(\<Sum>i<k. la_prob_n (la_init s) ! i) = (\<Sum>i<k. ?b i)" if "k \<le> 17" for k
    using that by (intro sum.cong) (simp_all add: p)
  have c16: "la_cprob_n (la_init s) ! 16 = 0" using c(2)[of 16] assms(3) by simp
  have split: "i < 16 \<or> i = 16" if "i < 17" for i :: nat using that by arith
  have "\<forall>i<17. 0 \<le> la_cprob_n (la_init s) ! i"
    using split le c16 by (metis c(2) diff_ge_0_iff_ge less_imp_le order_refl)
  moreover have "(\<Sum>i<k. la_prob_n (la_init s) ! i) + la_cprob_n (la_init s) ! k \<le> 1" if "k < 17" for k
    using split[OF that] le[of k] that c16 by (auto simp: c ps)
  ultimately show ?thesis
    using p c(1) le[of 17] ps[of 17] by (simp add: la_tables_def binomial_prob_nonneg)
qed


section \<open>The recursion is safe and yields a probability\<close>

lemma rsum_bounds:
  assumes "\<And>x. x \<in> set xs \<Longrightarrow> \<exists>y. f x = Inr y \<and> 0 \<le> y \<and> y \<le> g x"
  shows "\<exists>y. rsum (map f xs) = Inr y \<and> 0 \<le> y \<and> y \<le> sum_list (map g xs)"
  using assms
proof (induction xs)
  case (Cons x xs)
  obtain y where "f x = Inr y" "0 \<le> y" "y \<le> g x" using Cons.prems[of x] by auto
  moreover obtain z where "rsum (map f xs) = Inr z" "0 \<le> z" "z \<le> sum_list (map g xs)"
    using Cons.IH Cons.prems by auto
  ultimately show ?case by (intro exI[of _ "y + z"]) simp
qed simp

lemma rsum_exact:
  assumes "\<And>x. x \<in> set xs \<Longrightarrow> f x = Inr (g x)"
  shows "rsum (map f xs) = Inr (sum_list (map g xs))"
  using assms by (induction xs) auto

lemma sum_list_upt: "sum_list (map g [0..<n]) = (\<Sum>i<n. g i)"
  by (induction n) (simp_all add: add.commute)

text \<open>The position and size after a window with \<open>i\<close> insertions and the mitigation.\<close>

definition la_ptr :: "nat \<Rightarrow> nat \<Rightarrow> nat \<Rightarrow> nat \<Rightarrow> nat" where
  "la_ptr cap z p i = p - (i - (cap - z)) - 1"

definition la_size :: "nat \<Rightarrow> nat \<Rightarrow> nat \<Rightarrow> nat" where
  "la_size cap z i = min cap (z + i) - 1"

lemma la_next:
  assumes "p < z" "z \<le> cap" "i < cap - z + p" "0 < p"
  shows "la_ptr cap z p i < la_size cap z i" "la_size cap z i \<le> cap" "la_ptr cap z p i < p"
    "cap - la_size cap z i + la_ptr cap z p i = cap - z + p - i"
  using assms by (auto simp: la_ptr_def la_size_def min_def)

text \<open>Within the arrays the recursion is the plain one.\<close>

lemma calc_lossprob_eq:
  assumes "length (la_prob_n s) = 17" "length (la_cprob_n s) = 17" "p < z" "z \<le> cap" "cap \<le> 16"
  shows "calc_lossprob s cap p z =
    (if p = 0 then Inr (la_cprob_n s ! (cap - z + 1))
     else rbind (rsum (map (\<lambda>i. rbind (calc_lossprob s cap (la_ptr cap z p i) (la_size cap z i))
                 (\<lambda>f. Inr (la_prob_n s ! i * f))) [0..<cap - z + p]))
            (\<lambda>A. Inr (A + la_cprob_n s ! (cap - z + p + 1))))"
proof -
  have full: "u32 (sub32 cap z + p) = cap - z + p"
    using assms by (simp add: sub32_le u32_def)
  have c: "arr (la_cprob_n s) (cap - z + p + 1) = Inr (la_cprob_n s ! (cap - z + p + 1))"
    using assms by (simp add: arr_def)
  let ?B = "\<lambda>i. rbind (arr (la_prob_n s) i) (\<lambda>e.
      if sub32 cap z < i \<and> \<not> (if sub32 cap z < i then sub32 p (i - sub32 cap z) else p) < p then Inl AssertFail
      else rbind (calc_lossprob s cap (dec32 (if sub32 cap z < i then sub32 p (i - sub32 cap z) else p))
             (dec32 (if cap < z + i then cap else z + i))) (\<lambda>f. Inr (e * f)))"
  have body: "?B i = rbind (calc_lossprob s cap (la_ptr cap z p i) (la_size cap z i)) (\<lambda>f. Inr (la_prob_n s ! i * f))"
    if "i < cap - z + p" "p \<noteq> 0" for i
  proof -
    have "arr (la_prob_n s) i = Inr (la_prob_n s ! i)" using that(1) assms by (simp add: arr_def)
    moreover have "dec32 (if sub32 cap z < i then sub32 p (i - sub32 cap z) else p) = la_ptr cap z p i"
      "dec32 (if cap < z + i then cap else z + i) = la_size cap z i"
      "sub32 cap z < i \<Longrightarrow> sub32 p (i - sub32 cap z) < p"
      using that assms by (auto simp: la_ptr_def la_size_def sub32_le dec32_def)
    ultimately show ?thesis by simp
  qed
  show ?thesis
  proof (cases "p = 0")
    case True
    then show ?thesis using full c by (subst calc_lossprob.simps) simp
  next
    case False
    have "calc_lossprob s cap p z = rbind (rsum (map ?B [0..<cap - z + p]))
        (\<lambda>A. rbind (arr (la_cprob_n s) (cap - z + p + 1)) (\<lambda>C. Inr (A + 0 + C)))"
      using False by (subst calc_lossprob.simps) (simp only: Let_def full if_False)
    moreover have "map ?B [0..<cap - z + p] =
        map (\<lambda>i. rbind (calc_lossprob s cap (la_ptr cap z p i) (la_size cap z i)) (\<lambda>f. Inr (la_prob_n s ! i * f)))
          [0..<cap - z + p]"
      using body False by (intro map_cong refl) simp
    ultimately show ?thesis using False by (simp only: c rbind_Inr if_False add_0_right)
  qed
qed

lemma calc_lossprob_bounds:
  assumes "la_tables s" "p < z" "z \<le> cap" "cap \<le> 16"
  shows "\<exists>L. calc_lossprob s cap p z = Inr L \<and> 0 \<le> L \<and> L \<le> 1"
  using assms(2-4)
proof (induction p arbitrary: z rule: less_induct)
  case (less p)
  have T: "length (la_prob_n s) = 17" "length (la_cprob_n s) = 17"
    "\<And>i. i < 17 \<Longrightarrow> 0 \<le> la_prob_n s ! i" "\<And>i. i < 17 \<Longrightarrow> 0 \<le> la_cprob_n s ! i"
    "\<And>k. k < 17 \<Longrightarrow> (\<Sum>i<k. la_prob_n s ! i) + la_cprob_n s ! k \<le> 1"
    using assms(1) by (simp_all add: la_tables_def)
  let ?F = "cap - z + p"
  have F: "?F + 1 < 17" using less.prems by simp
  note eq = calc_lossprob_eq[OF T(1,2) less.prems]
  have tail: "0 \<le> la_cprob_n s ! (?F + 1)" "(\<Sum>i<?F + 1. la_prob_n s ! i) + la_cprob_n s ! (?F + 1) \<le> 1"
    using T(4,5) F by blast+
  show ?case
  proof (cases "p = 0")
    case True
    have "0 \<le> (\<Sum>i<?F + 1. la_prob_n s ! i)" using T(3) F by (intro sum_nonneg) simp
    then show ?thesis using eq True tail by simp
  next
    case False
    let ?f = "\<lambda>i. rbind (calc_lossprob s cap (la_ptr cap z p i) (la_size cap z i)) (\<lambda>f. Inr (la_prob_n s ! i * f))"
    have "\<exists>y. ?f i = Inr y \<and> 0 \<le> y \<and> y \<le> la_prob_n s ! i" if "i \<in> set [0..<?F]" for i
    proof -
      have i: "i < ?F" "0 \<le> la_prob_n s ! i" using that T(3) F by auto
      obtain L where "calc_lossprob s cap (la_ptr cap z p i) (la_size cap z i) = Inr L" "0 \<le> L" "L \<le> 1"
        using less.IH[OF la_next(3,1,2)] less.prems i(1) False by blast
      then show ?thesis using i(2) by (auto intro: mult_left_le)
    qed
    from rsum_bounds[of "[0..<?F]" ?f, OF this] obtain A where
      "rsum (map ?f [0..<?F]) = Inr A" "0 \<le> A" "A \<le> (\<Sum>i<?F. la_prob_n s ! i)"
      unfolding sum_list_upt by blast
    moreover have "0 \<le> la_prob_n s ! ?F" using T(3) F by simp
    ultimately show ?thesis using eq False tail by auto
  qed
qed

section \<open>The recursion computes the loss probability of the FIFO\<close>

text \<open>The contents of a tracker seen from one row: \<open>True\<close> marks it.  In every window \<open>i\<close> rows are
  inserted with probability \<open>b i\<close> and one mitigation follows; \<open>fifo_loss\<close> is the probability that
  the marked row is evicted within \<open>k\<close> windows, by the specification of the tracker.\<close>

definition window_events :: "nat \<Rightarrow> bool tracker_event list" where
  "window_events i = replicate i (Insert_Row False) @ [Mitigate]"

fun fifo_loss :: "(nat \<Rightarrow> real) \<Rightarrow> nat \<Rightarrow> nat \<Rightarrow> nat \<Rightarrow> bool list \<Rightarrow> real" where
  "fifo_loss b n cap 0 q = 0"
| "fifo_loss b n cap (Suc k) q = (\<Sum>i\<le>n. b i *
     (case afifo_run cap q (window_events i) of (q', ds) \<Rightarrow>
        if Evicted True \<in> set ds then 1 else fifo_loss b n cap k q'))"

definition held :: "nat \<Rightarrow> nat \<Rightarrow> bool list" where
  "held p z = replicate p False @ True # replicate (z - p - 1) False"

lemma length_held [simp]: "p < z \<Longrightarrow> length (held p z) = z"
  by (simp add: held_def)

lemma held_append: "p < z \<Longrightarrow> held p z @ replicate i False = held p (z + i)"
  by (simp add: held_def replicate_add[symmetric])

lemma held_drop: "m \<le> p \<Longrightarrow> p < z \<Longrightarrow> drop m (held p z) = held (p - m) (z - m)"
  by (simp add: held_def)

lemma held_take: "p < z \<Longrightarrow> True \<in> set (take m (held p z)) \<longleftrightarrow> p < m"
  by (cases "m - p") (auto simp: held_def)

lemma held_hd_tl: "p < z \<Longrightarrow> held p z = (p = 0) # (if p = 0 then replicate (z - 1) False else held (p - 1) (z - 1))"
  by (cases p) (auto simp: held_def)

lemma afifo_run_append:
  "afifo_run c q (es @ fs) = (case afifo_run c q es of (q1, d1) \<Rightarrow> case afifo_run c q1 fs of (q2, d2) \<Rightarrow> (q2, d1 @ d2))"
  by (induction es arbitrary: q) (auto split: prod.splits)

lemma afifo_inserts:
  assumes "length q \<le> c" "0 < c"
  shows "afifo_run c q (replicate i (Insert_Row x)) =
    (drop (length q + i - c) (q @ replicate i x), map Evicted (take (length q + i - c) (q @ replicate i x)))"
  using assms(1)
proof (induction i arbitrary: q)
  case (Suc i)
  show ?case
  proof (cases "length q = c")
    case True
    then obtain y q1 where q: "q = y # q1" using assms(2) by (cases q) auto
    then have c: "c = Suc (length q1)" using True by simp
    show ?thesis using Suc.IH[of "q1 @ [x]"] unfolding c q by simp
  next
    case False
    then show ?thesis using Suc.IH[of "q @ [x]"] Suc.prems by simp
  qed
qed simp

lemma afifo_window:
  assumes "p < z" "z \<le> cap"
  shows "afifo_run cap (held p z) (window_events i) =
    (let m = z + i - cap; q = drop m (held p (z + i))
     in (tl q, map Evicted (take m (held p (z + i))) @ (case q of [] \<Rightarrow> [] | x # _ \<Rightarrow> [Issued x])))"
  unfolding window_events_def afifo_run_append
  using afifo_inserts[of "held p z" cap i False] assms
  by (auto simp: held_append Let_def split: list.splits)

lemma fifo_loss_gone:
  assumes "True \<notin> set q" "length q \<le> cap" "0 < cap"
  shows "fifo_loss b n cap k q = 0"
  using assms(1,2)
proof (induction k arbitrary: q)
  case (Suc k)
  have "(case afifo_run cap q (window_events i) of (q', ds) \<Rightarrow>
        if Evicted True \<in> set ds then 1 else fifo_loss b n cap k q') = 0" for i
  proof -
    obtain q' ds where r: "afifo_run cap q (window_events i) = (q', ds)" by fastforce
    have "inserted (window_events i) = replicate i False"
      unfolding window_events_def by (induction i) auto
    then have "map row_of ds @ q' = q @ replicate i False"
      using afifo_run_order[OF assms(3) Suc.prems(2) r] by simp
    then have "set (map row_of ds @ q') = set (q @ replicate i False)" by (rule arg_cong)
    then have set: "row_of ` set ds \<union> set q' = set q \<union> set (replicate i False)" by simp
    have "True \<notin> row_of ` set ds \<union> set q'" unfolding set using Suc.prems(1) by simp
    then have "True \<notin> row_of ` set ds" "True \<notin> set q'" by simp_all
    then have "Evicted True \<notin> set ds" "True \<notin> set q'" by (auto simp: image_iff)
    moreover have "length q' \<le> cap" using afifo_run_length[OF assms(3) Suc.prems(2), of "window_events i"] r by simp
    ultimately show ?thesis using r Suc.IH by simp
  qed
  then show ?case by simp
qed simp

text \<open>One window, seen from the marked row.\<close>

lemma fifo_loss_window:
  assumes "p < z" "z \<le> cap"
  shows "(case afifo_run cap (held p z) (window_events i) of (q', ds) \<Rightarrow>
        if Evicted True \<in> set ds then 1 else fifo_loss b n cap k q') =
    (if cap - z + p < i then 1 else if i = cap - z + p then 0
     else if p = 0 then 0 else fifo_loss b n cap k (held (la_ptr cap z p i) (la_size cap z i)))"
proof -
  let ?m = "z + i - cap"
  have cap: "0 < cap" using assms by simp
  have ev: "Evicted True \<in> Evicted ` set (take ?m (held p (z + i))) \<longleftrightarrow> p < ?m"
    using held_take[of p "z + i" ?m] assms(1) by (auto simp: image_iff)
  show ?thesis
  proof (cases "p < ?m")
    case True
    then have "cap - z + p < i" using assms(2) by arith
    moreover have "Evicted True \<in> Evicted ` set (take ?m (held p (z + i)))" using ev True by simp
    ultimately show ?thesis unfolding afifo_window[OF assms] Let_def by simp
  next
    case False
    then have m: "?m \<le> p" "\<not> cap - z + p < i" using assms by arith+
    have q: "drop ?m (held p (z + i)) = held (p - ?m) (z + i - ?m)"
      using held_drop[OF m(1)] assms(1) by simp
    have lt: "p - ?m < z + i - ?m" using assms m(1) by arith
    have no: "Evicted True \<notin> set (map Evicted (take ?m (held p (z + i))))" using ev False by simp
    have "(case afifo_run cap (held p z) (window_events i) of (q', ds) \<Rightarrow>
        if Evicted True \<in> set ds then 1 else fifo_loss b n cap k q') =
      fifo_loss b n cap k (if p - ?m = 0 then replicate (z + i - ?m - 1) False
        else held (p - ?m - 1) (z + i - ?m - 1))"
      unfolding afifo_window[OF assms] Let_def q using no held_hd_tl[OF lt] by simp
    moreover have "fifo_loss b n cap k (replicate (z + i - ?m - 1) False) = 0"
      using assms by (intro fifo_loss_gone cap) auto
    moreover have "p - ?m = 0 \<longleftrightarrow> i = cap - z + p \<or> p = 0"
      using m assms by arith
    moreover have "p - ?m - 1 = la_ptr cap z p i" "z + i - ?m - 1 = la_size cap z i"
      using assms by (auto simp: la_ptr_def la_size_def min_def)
    ultimately show ?thesis using m(2) by auto
  qed
qed

text \<open>The tables of \<open>init\<close> hold the distribution \<open>b\<close> of \<open>n\<close> draws and its tails below 16.\<close>

definition la_exact :: "la_state \<Rightarrow> (nat \<Rightarrow> real) \<Rightarrow> nat \<Rightarrow> bool" where
  "la_exact s b n \<longleftrightarrow> length (la_prob_n s) = 17 \<and> length (la_cprob_n s) = 17 \<and> 16 \<le> n \<and>
     (\<forall>i<17. la_prob_n s ! i = b i) \<and> (\<forall>k<16. la_cprob_n s ! k = 1 - (\<Sum>i<k. b i)) \<and> (\<Sum>i\<le>n. b i) = 1"

lemma fifo_loss_recursion:
  assumes "p < z" "z \<le> cap" "cap - z + p \<le> n"
  defines "F \<equiv> cap - z + p"
  shows "fifo_loss b n cap (Suc k) (held p z) =
    (if p = 0 then 0 else \<Sum>i<F. b i * fifo_loss b n cap k (held (la_ptr cap z p i) (la_size cap z i))) +
    (\<Sum>i\<in>{F<..n}. b i)"
proof -
  let ?g = "\<lambda>i. if F < i then 1 else if i = F then 0 else if p = 0 then 0
    else fifo_loss b n cap k (held (la_ptr cap z p i) (la_size cap z i))"
  have "{..n} = {..<F} \<union> {F} \<union> {F<..n}" using assms(3) by (auto simp: F_def)
  then have "(\<Sum>i\<le>n. b i * ?g i) = (\<Sum>i\<in>{..<F} \<union> {F}. b i * ?g i) + (\<Sum>i\<in>{F<..n}. b i * ?g i)"
    by (simp only:) (rule sum.union_disjoint, auto)
  also have "(\<Sum>i\<in>{..<F} \<union> {F}. b i * ?g i) = (\<Sum>i<F. b i * ?g i)" by (simp add: Un_commute)
  also have "\<dots> = (\<Sum>i<F. b i * (if p = 0 then 0 else fifo_loss b n cap k (held (la_ptr cap z p i) (la_size cap z i))))"
    by (intro sum.cong) auto
  also have "(\<Sum>i\<in>{F<..n}. b i * ?g i) = (\<Sum>i\<in>{F<..n}. b i)" by (intro sum.cong) auto
  finally show ?thesis
    unfolding fifo_loss.simps fifo_loss_window[OF assms(1,2)] F_def[symmetric] by (cases "p = 0") simp_all
qed

lemma calc_lossprob_fifo:
  assumes "la_exact s b n" "p < z" "z \<le> cap" "cap \<le> 15" "p < k"
  shows "calc_lossprob s cap p z = Inr (fifo_loss b n cap k (held p z))"
  using assms(2-5)
proof (induction p arbitrary: z k rule: less_induct)
  case (less p)
  have T: "length (la_prob_n s) = 17" "length (la_cprob_n s) = 17" "16 \<le> n"
    "\<And>i. i < 17 \<Longrightarrow> la_prob_n s ! i = b i" "\<And>k. k < 16 \<Longrightarrow> la_cprob_n s ! k = 1 - (\<Sum>i<k. b i)"
    "(\<Sum>i\<le>n. b i) = 1"
    using assms(1) by (simp_all add: la_exact_def)
  let ?F = "cap - z + p"
  obtain k' where k: "k = Suc k'" using less.prems(4) by (cases k) auto
  have F: "?F + 1 < 16" "?F \<le> n" using less.prems T(3) by simp_all
  have "cap \<le> 16" using less.prems by simp
  note eq = calc_lossprob_eq[OF T(1,2) less.prems(1,2) this]
  have "{..n} = {..<?F + 1} \<union> {?F<..n}" using F(2) by auto
  then have "(\<Sum>i\<le>n. b i) = (\<Sum>i<?F + 1. b i) + (\<Sum>i\<in>{?F<..n}. b i)"
    by (simp only:) (rule sum.union_disjoint, auto)
  then have tail: "la_cprob_n s ! (?F + 1) = (\<Sum>i\<in>{?F<..n}. b i)"
    using T(5)[of "?F + 1"] T(6) F(1) by simp
  note rec = fifo_loss_recursion[OF less.prems(1,2) F(2), of b k']
  show ?case
  proof (cases "p = 0")
    case True
    then show ?thesis using eq rec tail k by simp
  next
    case False
    have "rbind (calc_lossprob s cap (la_ptr cap z p i) (la_size cap z i)) (\<lambda>f. Inr (la_prob_n s ! i * f)) =
        Inr (b i * fifo_loss b n cap k' (held (la_ptr cap z p i) (la_size cap z i)))"
      if "i \<in> set [0..<?F]" for i
    proof -
      have i: "i < ?F" using that by simp
      note nx = la_next[OF less.prems(1,2) i]
      have "la_ptr cap z p i < k'" using nx(3) False less.prems(4) k by simp
      then have "calc_lossprob s cap (la_ptr cap z p i) (la_size cap z i) =
          Inr (fifo_loss b n cap k' (held (la_ptr cap z p i) (la_size cap z i)))"
        using less.IH[OF nx(3) nx(1,2)] False less.prems(3) by simp
      then show ?thesis using T(4)[of i] i F by simp
    qed
    then have "rsum (map (\<lambda>i. rbind (calc_lossprob s cap (la_ptr cap z p i) (la_size cap z i))
        (\<lambda>f. Inr (la_prob_n s ! i * f))) [0..<?F]) =
      Inr (\<Sum>i\<leftarrow>[0..<?F]. b i * fifo_loss b n cap k' (held (la_ptr cap z p i) (la_size cap z i)))"
      by (rule rsum_exact)
    then show ?thesis
      unfolding k rec eq tail sum_list_upt using False by simp
  qed
qed


section \<open>The Markov chain\<close>

definition is_distribution :: "nat \<Rightarrow> (nat \<Rightarrow> real) \<Rightarrow> bool" where
  "is_distribution n x \<longleftrightarrow> (\<forall>i<n. 0 \<le> x i) \<and> (\<Sum>i<n. x i) = 1"

lemma mc_fill_eq:
  assumes "distinct js"
  shows "mc_fill val (row, bal) js =
    (\<lambda>j. if j \<in> set js then val j else row j, bal - (\<Sum>j\<in>set js. val j))"
  using assms by (induction js arbitrary: row bal) (auto simp: mc_fill_def)

lemma balanced_row:
  assumes "0 < n" "\<forall>j<n - 1. 0 \<le> v j" "(\<Sum>j<n - 1. v j) \<le> (1 :: real)"
    and "\<forall>j<n - 1. r j = v j" "r (n - 1) = 1 - (\<Sum>j<n - 1. v j)"
  shows "is_distribution n r"
proof -
  obtain m where n: "n = Suc m" using assms(1) by (cases n) auto
  have "(\<Sum>j<m. r j) = (\<Sum>j<m. v j)" using assms(4) n by (intro sum.cong) auto
  then show ?thesis using assms n by (auto simp: is_distribution_def less_Suc_eq)
qed

lemma row0_sum:
  "(\<Sum>j<Suc m. if j = 0 then p 0 + p 1 else p (j + 1)) = (\<Sum>i<m + 2. (p i :: real))"
  by (induction m) simp_all

lemma row_sum:
  fixes ii m :: nat
  assumes "0 < ii"
  shows "(\<Sum>j<m. if ii - 1 \<le> j then p (j + 1 - ii) else 0) = (\<Sum>i<m + 1 - ii. (p i :: real))"
proof (induction m)
  case 0
  then show ?case using assms by (cases ii) auto
next
  case (Suc m)
  then show ?case
  proof (cases "ii - 1 \<le> m")
    case True
    then have "Suc m + 1 - ii = Suc (m + 1 - ii)" using assms by arith
    then show ?thesis using Suc True by simp
  qed (use assms in auto)
qed

lemma prob_prefix_le:
  assumes "la_tables s" "m \<le> 17"
  shows "(\<Sum>i<m. la_prob_n s ! i) \<le> 1"
proof -
  have "(\<Sum>i<m. la_prob_n s ! i) \<le> (\<Sum>i<17. la_prob_n s ! i)"
    using assms by (intro sum_mono2) (auto simp: la_tables_def)
  then show ?thesis using assms(1) by (simp add: la_tables_def)
qed

lemma mc_row0_distribution:
  assumes "la_tables s" "2 \<le> n" "n \<le> 16"
  shows "is_distribution n (mc_row0 (la_prob_n s) n)"
proof -
  let ?p = "\<lambda>i. la_prob_n s ! i" and ?v = "\<lambda>j. if j = 0 then la_prob_n s ! 0 + la_prob_n s ! 1 else la_prob_n s ! (j + 1)"
  obtain m where n: "n = m + 2" using assms(2) by (metis add.commute le_iff_add)
  have nn: "0 \<le> ?p i" if "i < 17" for i using assms(1) that by (simp add: la_tables_def)
  have sum: "(\<Sum>j<n - 1. ?v j) = (\<Sum>i<n. ?p i)" using row0_sum[of ?p m] n by simp
  have "(\<Sum>j<n - 1. ?v j) = ?v 0 + (\<Sum>j\<in>{1..<n - 1}. ?p (j + 1))"
    using n by (subst lessThan_atLeast0, subst sum.atLeast_Suc_lessThan) auto
  then have bal: "1 - (?p 0 + ?p 1) - (\<Sum>j\<in>{1..<n - 1}. ?p (j + 1)) = 1 - (\<Sum>j<n - 1. ?v j)" by simp
  have le: "(\<Sum>j<n - 1. ?v j) \<le> 1" unfolding sum using prob_prefix_le[OF assms(1)] assms(3) by simp
  have row: "mc_row0 (la_prob_n s) n = (\<lambda>j. if j \<in> {1..<n - 1} then ?p (j + 1) else ((\<lambda>_. 0)(0 := ?p 0 + ?p 1)) j)
      (n - 1 := 1 - (\<Sum>j<n - 1. ?v j))"
    unfolding mc_row0_def Let_def mc_fill_eq[OF distinct_upt] prod.case set_upt bal ..
  show ?thesis
    by (rule balanced_row[where v = ?v]) (use assms nn le in \<open>auto simp: row\<close>)
qed

lemma mc_row_distribution:
  assumes "la_tables s" "2 \<le> n" "n \<le> 16" "0 < ii"
  shows "is_distribution n (mc_row (la_prob_n s) n ii)"
proof -
  let ?p = "\<lambda>i. la_prob_n s ! i" and ?v = "\<lambda>j. if ii - 1 \<le> j then la_prob_n s ! (j + 1 - ii) else 0"
  have nn: "0 \<le> ?p i" if "i < 17" for i using assms(1) that by (simp add: la_tables_def)
  have le: "(\<Sum>j<n - 1. ?v j) \<le> 1"
    unfolding row_sum[OF assms(4), of ?p] using prob_prefix_le[OF assms(1)] assms(3) by simp
  have row: "mc_row (la_prob_n s) n ii = (\<lambda>j. if j \<in> {0..<n - 1} then ?v j else 0)
      (n - 1 := 1 - (\<Sum>j<n - 1. ?v j))"
    unfolding mc_row_def Let_def mc_fill_eq[OF distinct_upt] prod.case set_upt lessThan_atLeast0 ..
  show ?thesis
    by (rule balanced_row[where v = ?v]) (use assms nn le in \<open>auto simp: row\<close>)
qed

lemma mc_step_distribution:
  assumes "\<forall>i<n. is_distribution n (M i)" "is_distribution n x"
  shows "is_distribution n (mc_step M n x)"
proof -
  have step: "mc_step M n x i = (\<Sum>j<n. x j * M j i)" for i by (simp add: mc_step_def sum_list_upt)
  have "(\<Sum>i<n. \<Sum>j<n. x j * M j i) = (\<Sum>j<n. x j * (\<Sum>i<n. M j i))"
    by (subst sum.swap) (simp add: sum_distrib_left)
  also have "\<dots> = (\<Sum>j<n. x j)" using assms(1) by (intro sum.cong) (auto simp: is_distribution_def)
  finally show ?thesis
    using assms by (auto simp: is_distribution_def step intro!: sum_nonneg)
qed

lemma init_markov_chain_distribution:
  assumes "la_tables s" "2 \<le> n" "n \<le> 16"
  shows "is_distribution n (init_markov_chain s n)"
proof -
  let ?M = "MCVals (la_prob_n s) n"
  have rows: "\<forall>i<n. is_distribution n (?M i)"
    using mc_row0_distribution[OF assms] mc_row_distribution[OF assms] by (auto simp: MCVals_def)
  have "is_distribution n ((mc_step ?M n ^^ k) (\<lambda>_. 1 / real n))" for k
  proof (induction k)
    case 0
    then show ?case using assms(2) by (simp add: is_distribution_def)
  next
    case (Suc k)
    then show ?case using mc_step_distribution[OF rows] by simp
  qed
  then show ?thesis by (simp add: init_markov_chain_def)
qed

lemma capacity_lossprob_bounds:
  assumes "la_tables s" "2 \<le> cap" "cap \<le> 16"
  shows "\<exists>L. capacity_lossprob s cap = Inr L \<and> 0 \<le> L \<and> L \<le> 1"
proof -
  let ?m = "init_markov_chain s cap"
  let ?f = "\<lambda>p. rbind (calc_lossprob s cap p (p + 1)) (\<lambda>my_lossprob. Inr (?m p * my_lossprob))"
  have D: "\<And>i. i < cap \<Longrightarrow> 0 \<le> ?m i" "(\<Sum>i<cap. ?m i) = 1"
    using init_markov_chain_distribution[OF assms] by (simp_all add: is_distribution_def)
  have "\<exists>y. ?f p = Inr y \<and> 0 \<le> y \<and> y \<le> ?m p" if p: "p \<in> set [0..<cap]" for p
  proof -
    obtain L where "calc_lossprob s cap p (p + 1) = Inr L" "0 \<le> L" "L \<le> 1"
      using calc_lossprob_bounds[OF assms(1) _ _ assms(3), of p "p + 1"] p
      by (auto simp: Suc_le_eq)
    then show ?thesis using D(1)[of p] that by (auto intro: mult_left_le)
  qed
  from rsum_bounds[of "[0..<cap]" ?f, OF this] show ?thesis
    unfolding sum_list_upt D(2) by (simp add: capacity_lossprob_def Let_def)
qed

section \<open>The chain is the occupancy of the FIFO\<close>

text \<open>The distribution of the number of rows held after a window, from the one before it, by the
  specification of the tracker.\<close>

definition fifo_step :: "(nat \<Rightarrow> real) \<Rightarrow> nat \<Rightarrow> nat \<Rightarrow> (nat \<Rightarrow> real) \<Rightarrow> nat \<Rightarrow> real" where
  "fifo_step b N cap x j = (\<Sum>n<cap. x n *
     (\<Sum>i\<le>N. if length (fst (afifo_run cap (replicate n False) (window_events i))) = j then b i else 0))"

lemma window_length:
  assumes "n \<le> cap" "0 < cap"
  shows "length (fst (afifo_run cap (replicate n x) (window_events i))) = min cap (n + i) - 1"
proof -
  have "afifo_run cap (replicate n x) (replicate i (Insert_Row False)) =
      (drop (n + i - cap) (replicate n x @ replicate i False), map Evicted (take (n + i - cap) (replicate n x @ replicate i False)))"
    using afifo_inserts[of "replicate n x" cap i False] assms by simp
  then show ?thesis
    unfolding window_events_def afifo_run_append by (auto split: list.splits prod.splits dest: arg_cong[of _ _ length])
qed

lemma sum_one:
  fixes b :: "nat \<Rightarrow> real"
  assumes "m \<le> N" "\<And>i. i \<le> N \<Longrightarrow> Q i \<longleftrightarrow> i = m"
  shows "(\<Sum>i\<le>N. if Q i then b i else 0) = b m"
proof -
  have "(\<Sum>i\<le>N. if Q i then b i else 0) = (\<Sum>i\<le>N. if i = m then b i else 0)"
    using assms(2) by (intro sum.cong) auto
  then show ?thesis using assms(1) by simp
qed

lemma sum_tail:
  fixes b :: "nat \<Rightarrow> real"
  assumes "m \<le> N" "(\<Sum>i\<le>N. b i) = 1" "\<And>i. i \<le> N \<Longrightarrow> Q i \<longleftrightarrow> m \<le> i"
  shows "(\<Sum>i\<le>N. if Q i then b i else 0) = 1 - (\<Sum>i<m. b i)"
proof -
  have "{..N} = {..<m} \<union> {m..N}" using assms(1) by auto
  then have "(\<Sum>i\<le>N. b i) = (\<Sum>i<m. b i) + (\<Sum>i\<in>{m..N}. b i)"
    by (simp only:) (rule sum.union_disjoint, auto)
  moreover have "(\<Sum>i\<le>N. if Q i then b i else 0) = (\<Sum>i\<in>{i\<in>{..N}. Q i}. b i)"
    by (rule sum.inter_filter[symmetric]) simp
  moreover have "{i\<in>{..N}. Q i} = {m..N}" using assms(3) by auto
  ultimately show ?thesis using assms(2) by simp
qed

lemma mc_row0_eq:
  assumes "2 \<le> n"
  shows "mc_row0 p n j = (if j = n - 1 then 1 - (\<Sum>i<n. p ! i) else if j = 0 then p ! 0 + p ! 1
    else if j < n then p ! (j + 1) else 0)"
proof -
  obtain m where n: "n = m + 2" using assms by (metis add.commute le_iff_add)
  have "(\<Sum>i<n. p ! i) = (\<Sum>j<n - 1. if j = 0 then p ! 0 + p ! 1 else p ! (j + 1))"
    using row0_sum[of "(!) p" m] n by simp
  also have "\<dots> = p ! 0 + p ! 1 + (\<Sum>j\<in>{1..<n - 1}. p ! (j + 1))"
    using n by (subst lessThan_atLeast0, subst sum.atLeast_Suc_lessThan) auto
  finally show ?thesis
    using n unfolding mc_row0_def Let_def mc_fill_eq[OF distinct_upt] prod.case set_upt by auto
qed

lemma mc_row_eq:
  assumes "2 \<le> n" "0 < ii"
  shows "mc_row p n ii j = (if j = n - 1 then 1 - (\<Sum>i<n - ii. p ! i) else if ii - 1 \<le> j \<and> j < n then p ! (j + 1 - ii) else 0)"
proof -
  have "n - 1 + 1 - ii = n - ii" using assms(1) by simp
  then have "(\<Sum>j<n - 1. if ii - 1 \<le> j then p ! (j + 1 - ii) else 0) = (\<Sum>i<n - ii. p ! i)"
    using row_sum[OF assms(2), of "(!) p" "n - 1"] by simp
  then show ?thesis
    unfolding mc_row_def Let_def mc_fill_eq[OF distinct_upt] prod.case set_upt lessThan_atLeast0 by auto
qed

text \<open>The transition matrix of the program is the one of the specification.\<close>

lemma MCVals_fifo:
  assumes "la_exact s b N" "2 \<le> cap" "cap \<le> 16" "n < cap"
  shows "MCVals (la_prob_n s) cap n j = (\<Sum>i\<le>N. if min cap (n + i) - 1 = j then b i else 0)"
proof -
  have T: "16 \<le> N" "\<And>i. i < 17 \<Longrightarrow> la_prob_n s ! i = b i" "(\<Sum>i\<le>N. b i) = 1"
    using assms(1) by (simp_all add: la_exact_def)
  have pre: "(\<Sum>i<m. la_prob_n s ! i) = (\<Sum>i<m. b i)" if "m \<le> 16" for m
    using that T(2) by (intro sum.cong) auto
  consider "j = cap - 1" | "n = 0" "j = 0" "j < cap - 1" | "n \<le> j + 1" "j < cap - 1" "\<not> (n = 0 \<and> j = 0)" | "j + 1 < n" "j < cap - 1" | "cap \<le> j"
    by linarith
  then show ?thesis
  proof cases
    case 1
    have "(\<Sum>i\<le>N. if min cap (n + i) - 1 = j then b i else 0) = 1 - (\<Sum>i<cap - n. b i)"
      by (rule sum_tail) (use 1 assms T in auto)
    then show ?thesis
      using 1 assms pre[of "cap - n"] by (cases "n = 0") (auto simp: MCVals_def mc_row0_eq mc_row_eq)
  next
    case 2
    have "(\<Sum>i\<le>N. if min cap (n + i) - 1 = j then b i else 0) = (\<Sum>i\<le>N. if i = 0 then b i else 0) + (\<Sum>i\<le>N. if i = 1 then b i else 0)"
      unfolding sum.distrib[symmetric] by (rule sum.cong) (use 2 in auto)
    then show ?thesis using 2 T assms(2,3) by (simp add: MCVals_def mc_row0_eq)
  next
    case 3
    have "(\<Sum>i\<le>N. if min cap (n + i) - 1 = j then b i else 0) = b (j + 1 - n)"
      by (rule sum_one) (use 3 assms T in auto)
    then show ?thesis using 3 T assms(2,3) by (cases "n = 0") (auto simp: MCVals_def mc_row0_eq mc_row_eq)
  next
    case 4
    then have "(\<Sum>i\<le>N. if min cap (n + i) - 1 = j then b i else 0) = 0" by (intro sum.neutral) auto
    then show ?thesis using 4 assms(2) by (auto simp: MCVals_def mc_row_eq)
  next
    case 5
    then have "(\<Sum>i\<le>N. if min cap (n + i) - 1 = j then b i else 0) = 0" using assms(2) by (intro sum.neutral) auto
    then show ?thesis using 5 assms(2) by (auto simp: MCVals_def mc_row0_eq mc_row_eq)
  qed
qed

lemma init_markov_chain_fifo:
  assumes "la_exact s b N" "2 \<le> cap" "cap \<le> 16"
  shows "init_markov_chain s cap = (fifo_step b N cap ^^ 1000) (\<lambda>_. 1 / real cap)"
proof -
  have "mc_step (MCVals (la_prob_n s) cap) cap = fifo_step b N cap"
    using assms by (intro ext) (simp add: mc_step_def fifo_step_def sum_list_upt MCVals_fifo window_length)
  then show ?thesis by (simp add: init_markov_chain_def)
qed

text \<open>The loss of an inserted row: the row is the youngest, behind as many rows as the tracker held.\<close>

definition inserted_row_loss :: "(nat \<Rightarrow> real) \<Rightarrow> nat \<Rightarrow> nat \<Rightarrow> nat \<Rightarrow> real" where
  "inserted_row_loss b N k cap = (\<Sum>p<cap. (fifo_step b N cap ^^ 1000) (\<lambda>_. 1 / real cap) p * fifo_loss b N cap k (held p (p + 1)))"

lemma capacity_lossprob_fifo:
  assumes "la_exact s b N" "2 \<le> cap" "cap \<le> 15" "cap \<le> k"
  shows "capacity_lossprob s cap = Inr (inserted_row_loss b N k cap)"
proof -
  let ?m = "(fifo_step b N cap ^^ 1000) (\<lambda>_. 1 / real cap)"
  have "rsum (map (\<lambda>p. rbind (calc_lossprob s cap p (p + 1)) (\<lambda>l. Inr (?m p * l))) [0..<cap]) =
      Inr (sum_list (map (\<lambda>p. ?m p * fifo_loss b N cap k (held p (p + 1))) [0..<cap]))"
    by (rule rsum_exact) (use calc_lossprob_fifo[OF assms(1), of _ _ cap k] assms(3,4) in auto)
  then show ?thesis
    using init_markov_chain_fifo[OF assms(1,2)] assms(3)
    by (simp add: capacity_lossprob_def Let_def inserted_row_loss_def sum_list_upt)
qed

text \<open>The tables of \<open>init\<close> are those of the binomial distribution.\<close>

definition binomial_pmf :: "nat \<Rightarrow> real \<Rightarrow> nat \<Rightarrow> real" where
  "binomial_pmf n q i = real (n choose i) * q ^ i * (1 - q) ^ (n - i)"

lemma la_init_exact:
  assumes "length (la_prob_n s) = 17" "length (la_cprob_n s) = 17"
    and "16 \<le> la_TREFI s" "0 < la_INS_PROB s" "la_INS_PROB s < 1"
  shows "la_exact (la_init s) (binomial_pmf (la_TREFI s) (la_INS_PROB s)) (la_TREFI s)"
proof -
  let ?n = "la_TREFI s" and ?q = "la_INS_PROB s"
  let ?b = "binomial_pmf ?n ?q"
  have b: "calc_binomial_prob ?n i ?q = ?b i" if "i < 17" "i \<le> ?n" for i
    using calc_binomial_prob_eq[OF that(2) assms(4,5)] by (simp add: binomial_pmf_def)
  have 1: "length (la_prob_n (la_init s)) = 17" "length (la_cprob_n (la_init s)) = 17"
    using init_prob_loop[of 17 "la_prob_n s" s] init_cprob_loop[of 16 "la_cprob_n s" s] assms(1,2)
    by (simp_all add: la_init_def MAX_SIZE_def)
  have 2: "la_prob_n (la_init s) ! i = ?b i" if "i < 17" for i
    using init_prob_loop[of 17 "la_prob_n s" s] assms(1,3) that b[of i] by (simp add: la_init_def MAX_SIZE_def)
  have 3: "la_cprob_n (la_init s) ! k = 1 - (\<Sum>i<k. ?b i)" if "k < 16" for k
  proof -
    have "(\<Sum>i<k. calc_binomial_prob ?n i ?q) = (\<Sum>i<k. ?b i)"
      using that assms(3) by (intro sum.cong refl b) auto
    then show ?thesis
      using init_cprob_loop[of 16 "la_cprob_n s" s] assms(2) that by (simp add: la_init_def MAX_SIZE_def)
  qed
  have 4: "(\<Sum>i\<le>?n. ?b i) = 1" using binomial_ring[of ?q "1 - ?q" ?n] by (simp add: binomial_pmf_def)
  show ?thesis unfolding la_exact_def using 1 2 3 4 assms(3) by blast
qed

section \<open>Properties\<close>

text \<open>The state of the witnesses: the program's globals and a window of 79 activations.\<close>

lemma la_start_simps:
  "length (la_prob_n la_start) = 17" "length (la_cprob_n la_start) = 17" "la_cprob_n la_start ! 16 = 0"
  "la_TREFI la_start = 79" "la_INS_PROB la_start = 1 / 79"
  by (simp_all add: la_start_def MAX_SIZE_def nth_Cons')

text \<open>The recursion itself: for a tracker of up to 15 entries, a row at position \<open>p\<close> from the oldest among
  \<open>z\<close> rows held, and binomially many insertions per window followed by one mitigation, \<open>calc_lossprob\<close>
  never faults and answers exactly the probability that the bounded FIFO evicts the row before handing it
  out, over any horizon of more than \<open>p\<close> windows.\<close>

theorem calc_lossprob_is_fifo_loss:
  assumes "length (la_prob_n s) = 17" "length (la_cprob_n s) = 17"
    and "16 \<le> la_TREFI s" "0 < la_INS_PROB s" "la_INS_PROB s < 1"
    and "p < z" "z \<le> cap" "cap \<le> 15" "p < k"
  shows "calc_lossprob (la_init s) cap p z = Inr (fifo_loss (binomial_pmf (la_TREFI s) (la_INS_PROB s)) (la_TREFI s) cap k (held p z))"
  using calc_lossprob_fifo[OF la_init_exact[OF assms(1-5)] assms(6-9)] .

theorem calc_lossprob_is_fifo_loss_witness:
  "calc_lossprob (la_init la_start) 4 1 2 = Inr (fifo_loss (binomial_pmf 79 (1 / 79)) 79 4 2 (held 1 2))"
  using calc_lossprob_is_fifo_loss[of la_start 1 2 4 2] unfolding la_start_simps by simp

text \<open>C24: The printed table is the loss of the FIFO, for its capacities 2, 4 and 8: the printed probability of
  such a capacity is that of losing an inserted row, averaged over the number of rows the tracker holds
  when it comes.  The numbers of rows held are distributed as after 1000 windows from the uniform distribution, each window
  with binomially many insertions and one mitigation; the loss is that the bounded FIFO (the specification both
  tracker implementations refine) evicts the row before handing it out, over any horizon of 8 windows or
  more; the printed TRH* is computed from it.  The row of capacity 1 holds the closed formula; the row of
  capacity 16 is printed too, but the code does not set the last tail it reads.\<close>

theorem analytical_loss_is_fifo_loss:
  assumes "16 \<le> w" "8 \<le> k"
  shows "\<exists>s l16 t16. let q = 1 / real w;
      b = (\<lambda>i. real (w choose i) * q ^ i * (1 - q) ^ (w - i));
      loss = (\<lambda>cap. \<Sum>p<cap. (fifo_step b w cap ^^ 1000) (\<lambda>_. 1 / real cap) p * fifo_loss b w cap k (held p (p + 1)));
      line = (\<lambda>cap l. (cap, l, get_trh_star q l 10000))
    in print_loss_prob la_start w = Inr (s,
      [line 1 (1 - (1 - q) ^ (w - 1)), line 2 (loss 2), line 4 (loss 4), line 8 (loss 8), (16, l16, t16)])"
proof -
  let ?s = "la_start\<lparr>la_TREFI := w, la_INS_PROB := 1 / real w\<rparr>"
  define s where "s = la_init ?s"
  have sel: "la_INS_PROB s = 1 / real w" "la_TREFI s = w" by (simp_all add: s_def la_init_def)
  have E: "la_exact s (binomial_pmf w (1 / real w)) w"
    using la_init_exact[of ?s] assms(1) by (simp add: s_def la_start_simps)
  have T: "la_tables s"
    unfolding s_def by (rule la_init_tables) (use assms in \<open>simp_all add: la_start_simps\<close>)
  obtain l16 where l16: "capacity_lossprob s 16 = Inr l16" using capacity_lossprob_bounds[OF T, of 16] by auto
  have rows: "print_row s cap = Inr (cap, inserted_row_loss (binomial_pmf w (1 / real w)) w k cap,
      get_trh_star (1 / real w) (inserted_row_loss (binomial_pmf w (1 / real w)) w k cap) 10000)"
    if "2 \<le> cap" "cap \<le> 8" for cap
    using capacity_lossprob_fifo[OF E that(1), of k] that assms(2) by (simp add: print_row_def sel)
  have "print_loss_prob la_start w = Inr (s, (1, 1 - (1 - 1 / real w) ^ (w - 1), get_trh_star (1 / real w) (1 - (1 - 1 / real w) ^ (w - 1)) 10000) #
      map (\<lambda>cap. (cap, inserted_row_loss (binomial_pmf w (1 / real w)) w k cap,
        get_trh_star (1 / real w) (inserted_row_loss (binomial_pmf w (1 / real w)) w k cap) 10000)) [2, 4, 8] @
      [(16, l16, get_trh_star (1 / real w) l16 10000)])"
    using rows[of 2] rows[of 4] rows[of 8] l16
    unfolding print_loss_prob_def Let_def s_def[symmetric] by (simp add: sel print_row_def)
  then show ?thesis
    unfolding Let_def inserted_row_loss_def binomial_pmf_def list.map append.simps by (intro exI)
qed

theorem analytical_loss_is_fifo_loss_witness:
  "\<exists>s row1 t2 t4 t8 row16. print_loss_prob la_start 79 = Inr (s, [row1,
     (2, inserted_row_loss (binomial_pmf 79 (1 / 79)) 79 8 2, t2), (4, inserted_row_loss (binomial_pmf 79 (1 / 79)) 79 8 4, t4),
     (8, inserted_row_loss (binomial_pmf 79 (1 / 79)) 79 8 8, t8), row16])"
  using analytical_loss_is_fifo_loss[of 79 8]
  unfolding Let_def inserted_row_loss_def binomial_pmf_def by auto

text \<open>For every capacity from 2 to 16, each row of the transition matrix is a probability
  distribution, and so is the occupancy vector after the 1000 matrix products.\<close>

theorem markov_chain_is_distribution:
  assumes "length (la_prob_n s) = 17" "length (la_cprob_n s) = 17" "la_cprob_n s ! 16 = 0"
    and "16 \<le> la_TREFI s" "0 < la_INS_PROB s" "la_INS_PROB s < 1" "2 \<le> n" "n \<le> 16"
  shows "(\<forall>i<n. is_distribution n (MCVals (la_prob_n (la_init s)) n i)) \<and>
    is_distribution n (init_markov_chain (la_init s) n)"
  using mc_row0_distribution[OF la_init_tables[OF assms(1-6)] assms(7,8)]
    mc_row_distribution[OF la_init_tables[OF assms(1-6)] assms(7,8)]
    init_markov_chain_distribution[OF la_init_tables[OF assms(1-6)] assms(7,8)]
  by (auto simp: MCVals_def)

theorem markov_chain_is_distribution_witness:
  "is_distribution 16 (MCVals (la_prob_n (la_init la_start)) 16 15) \<and>
    is_distribution 16 (init_markov_chain (la_init la_start) 16)"
  using markov_chain_is_distribution[of la_start 16] by (simp add: la_start_simps)

text \<open>Printing the table never faults, whatever the window size from 16 on: no access leaves an
  array, the assertion holds, the rows are those of the capacities 1, 2, 4, 8 and 16, and every printed
  loss probability lies in \<open>[0, 1]\<close>.\<close>

theorem print_loss_prob_safe:
  assumes "16 \<le> w"
  shows "\<exists>s rows. print_loss_prob la_start w = Inr (s, rows) \<and> map fst rows = [1, 2, 4, 8, 16] \<and>
    (\<forall>(c, p, t)\<in>set rows. 0 \<le> p \<and> p \<le> 1)"
proof -
  define s where "s = la_init (la_start\<lparr>la_TREFI := w, la_INS_PROB := 1 / real w\<rparr>)"
  have T: "la_tables s"
    unfolding s_def by (rule la_init_tables) (use assms in \<open>simp_all add: la_start_simps\<close>)
  have row: "\<exists>p. print_row s c = Inr (c, p, get_trh_star (la_INS_PROB s) p 10000) \<and> 0 \<le> p \<and> p \<le> 1"
    if "2 \<le> c" "c \<le> 16" for c
    using capacity_lossprob_bounds[OF T that] by (auto simp: print_row_def)
  have single: "0 \<le> 1 - (1 - la_INS_PROB s) ^ (la_TREFI s - 1) \<and> 1 - (1 - la_INS_PROB s) ^ (la_TREFI s - 1) \<le> 1"
    using assms by (auto simp: s_def la_init_def intro!: power_le_one)
  show ?thesis
    using row[of 2] row[of 4] row[of 8] row[of 16] single
    unfolding print_loss_prob_def Let_def s_def[symmetric] by auto
qed

theorem print_loss_prob_safe_witness:
  "\<exists>s rows. print_loss_prob la_start 79 = Inr (s, rows) \<and> map fst rows = [1, 2, 4, 8, 16]"
  using print_loss_prob_safe[of 79] by auto

text \<open>At capacity 16 the recursion reads the tail \<open>cprob_n[16]\<close>, which \<open>init\<close> never sets: the
  program computes a loss probability of exactly 0 for a row at the head of an otherwise empty
  16-entry tracker, although the tracker loses it with positive probability.\<close>

theorem capacity_16_tail_is_missing:
  assumes "16 \<le> la_TREFI s" "0 < la_INS_PROB s" "la_INS_PROB s < 1"
    and "length (la_prob_n s) = 17" "length (la_cprob_n s) = 17" "la_cprob_n s ! 16 = 0"
  shows "calc_lossprob (la_init s) 16 0 1 = Inr 0 \<and> 0 < fifo_loss
    (\<lambda>i. real (la_TREFI s choose i) * la_INS_PROB s ^ i * (1 - la_INS_PROB s) ^ (la_TREFI s - i))
    (la_TREFI s) 16 1 (held 0 1)"
proof
  let ?b = "\<lambda>i. real (la_TREFI s choose i) * la_INS_PROB s ^ i * (1 - la_INS_PROB s) ^ (la_TREFI s - i)"
  have "length (la_cprob_n (la_init s)) = 17" "la_cprob_n (la_init s) ! 16 = 0" "length (la_prob_n (la_init s)) = 17"
    using init_cprob_loop[of 16 "la_cprob_n s" s] init_prob_loop[of 17 "la_prob_n s" s] assms
    by (simp_all add: la_init_def MAX_SIZE_def)
  then show "calc_lossprob (la_init s) 16 0 1 = Inr 0" by (simp add: calc_lossprob_eq)
  have "0 < ?b 16" using assms by simp
  moreover have "?b 16 \<le> (\<Sum>i\<in>{15<..la_TREFI s}. ?b i)"
    using assms by (intro member_le_sum) auto
  ultimately have "0 < (\<Sum>i\<in>{15<..la_TREFI s}. ?b i)" by (rule less_le_trans)
  moreover have "fifo_loss ?b (la_TREFI s) 16 (Suc 0) (held 0 1) = (\<Sum>i\<in>{15<..la_TREFI s}. ?b i)"
    using fifo_loss_recursion[of 0 1 16 "la_TREFI s" ?b 0] assms(1) by simp
  ultimately show "0 < fifo_loss ?b (la_TREFI s) 16 1 (held 0 1)"
    unfolding One_nat_def by simp
qed

theorem capacity_16_tail_is_missing_witness:
  "calc_lossprob (la_init la_start) 16 0 1 = Inr 0"
  using capacity_16_tail_is_missing[of la_start] unfolding la_start_simps by simp

end
