(* ===== verification/Reliability.thy ===== *)
theory Reliability
  imports Complex_Main Pride_Base
begin

text \<open>
  The reliability model of \<open>security/1_reliability/sim-reliability.cpp\<close>: the probability that a
  round of a given number of activations fails, the mean time to failure, its inverse (the tolerated
  threshold TRH*), the formatting of a time to failure, and the printed figure and tables with the
  global parameters they set and restore.  \<open>double\<close> is the reals, \<open>uns\<close> wraps at 2^32.
\<close>

section \<open>Parameters\<close>

datatype PRIDE_Policy = NO_RFM | RFM_40 | RFM_16

text \<open>\<open>3900 * pow(10, -9)\<close> seconds.\<close>

definition tREFI :: real where "tREFI = 3900 / 10 ^ 9"

definition NUM_TFAW_BANKS :: real where "NUM_TFAW_BANKS = 22"
definition OPEN_PAGE_TARDY :: nat where "OPEN_PAGE_TARDY = 0"
definition DEFEND_TRANSITIVE_ATTACKS :: nat where "DEFEND_TRANSITIVE_ATTACKS = 0"
definition DEFAULT_BUFFER_SIZE :: nat where "DEFAULT_BUFFER_SIZE = (if OPEN_PAGE_TARDY \<noteq> 0 then 6 else 4)"

text \<open>The globals the functions change.\<close>

record rel_state =
  WINDOW_ACTS :: real
  PRIDE_POLICY :: PRIDE_Policy
  TARGET_MTTF_YRS :: nat

definition rel_start :: rel_state where
  "rel_start = \<lparr>WINDOW_ACTS = 79, PRIDE_POLICY = NO_RFM, TARGET_MTTF_YRS = 10000\<rparr>"

definition loss_prob :: "real list" where
  "loss_prob = [0, 6298 / 10000, 3048 / 10000, 1683 / 10000, 1192 / 10000, 952 / 10000, 796 / 10000,
     685 / 10000, 601 / 10000, 536 / 10000, 483 / 10000, 44 / 1000, 404 / 10000, 373 / 10000,
     347 / 10000, 324 / 10000, 304 / 10000]"

definition loss_prob_rfm40 :: "real list" where
  "loss_prob_rfm40 = [0, 6275 / 10000, 3046 / 10000, 1673 / 10000, 1184 / 10000, 945 / 10000, 791 / 10000,
     68 / 1000, 596 / 10000, 531 / 10000, 479 / 10000, 436 / 10000, 4 / 100, 37 / 1000,
     344 / 10000, 321 / 10000, 301 / 10000]"

definition loss_prob_rfm16 :: "real list" where
  "loss_prob_rfm16 = [0, 6202 / 10000, 3042 / 10000, 1639 / 10000, 1159 / 10000, 926 / 10000, 774 / 10000,
     664 / 10000, 582 / 10000, 518 / 10000, 466 / 10000, 424 / 10000, 389 / 10000, 359 / 10000,
     334 / 10000, 312 / 10000, 292 / 10000]"

section \<open>Time to failure and threshold\<close>

definition get_pfail_round :: "nat \<Rightarrow> real \<Rightarrow> real \<Rightarrow> real" where
  "get_pfail_round th ins_prob loss = (let effective_ins_prob = ins_prob * (1 - loss) in (1 - effective_ins_prob) ^ th)"

definition get_mttf :: "PRIDE_Policy \<Rightarrow> nat \<Rightarrow> real \<Rightarrow> real \<Rightarrow> real" where
  "get_mttf policy th ins_prob loss =
     (let r1 = (if policy = RFM_40 then tREFI / 2 else tREFI);
          time_round = (if policy = RFM_16 then r1 / 5 else r1);
          pfail_round = get_pfail_round th ins_prob loss;
          mttf_sec = time_round / pfail_round
      in mttf_sec / (3600 * 24 * 365))"

definition rel_get_trh_star :: "real \<Rightarrow> real \<Rightarrow> real \<Rightarrow> nat" where
  "rel_get_trh_star ins_prob loss target_ttf_yrs =
     (let ln_trefi_by_ttf = ln (39 / 10 / (target_ttf_yrs * 365 * 24 * 3600 * 1000000))
      in nat \<lfloor>ln_trefi_by_ttf / ln (1 - ins_prob * (1 - loss))\<rfloor>)"

definition get_tardy :: "nat \<Rightarrow> nat \<Rightarrow> nat" where
  "get_tardy buf_size window_size =
     (if OPEN_PAGE_TARDY \<noteq> 0 then sub32 (u32 (buf_size * window_size)) 1 div 2
      else sub32 (u32 (buf_size * window_size)) 1)"

text \<open>\<open>WINDOW_ACTS\<close> is a \<open>double\<close>, converted to \<open>uns\<close> at the calls.\<close>

definition rel_tardy :: "rel_state \<Rightarrow> nat \<Rightarrow> nat" where
  "rel_tardy s buf_size = get_tardy buf_size (nat \<lfloor>WINDOW_ACTS s\<rfloor>)"

section \<open>The printed figure and tables\<close>

text \<open>A printed line is its label and its numbers.\<close>

type_synonym line = "string \<times> nat list"

definition print_fig_9 :: "rel_state \<Rightarrow> real \<Rightarrow> line list" where
  "print_fig_9 s ins_prob = map (\<lambda>size0.
     let my_loss_prob = loss_prob ! size0;
         trh_star = rel_get_trh_star ins_prob my_loss_prob (real (TARGET_MTTF_YRS s));
         tardy = rel_tardy s size0
     in (''Bufsize'', [size0, trh_star, u32 (trh_star + tardy)])) [1..<17]"

definition print_table_4 :: "rel_state \<Rightarrow> rel_state \<times> line list" where
  "print_table_4 s0 =
     (let size0 = DEFAULT_BUFFER_SIZE;
          s1 = s0\<lparr>WINDOW_ACTS := 158\<rparr>;
          t1 = u32 (rel_get_trh_star (1 / 160) (loss_prob ! 1) (real (TARGET_MTTF_YRS s1)) + rel_tardy s1 1);
          s2 = s1\<lparr>WINDOW_ACTS := 79\<rparr>;
          t2 = u32 (rel_get_trh_star (1 / 80) (loss_prob ! 1) (real (TARGET_MTTF_YRS s2)) + rel_tardy s2 1);
          s3 = s2\<lparr>WINDOW_ACTS := 79\<rparr>;
          t3 = u32 (rel_get_trh_star (1 / 80) (loss_prob ! size0) (real (TARGET_MTTF_YRS s3)) + rel_tardy s3 size0)
      in (s3\<lparr>PRIDE_POLICY := NO_RFM, WINDOW_ACTS := 79\<rparr>,
          [(''PARA-DRFM'', [t1]), (''PARA-DRFM+'', [t2]), (''PRIDE'', [t3])]))"

definition print_table_5 :: "rel_state \<Rightarrow> rel_state \<times> line list" where
  "print_table_5 s0 =
     (let size0 = DEFAULT_BUFFER_SIZE;
          s1 = s0\<lparr>PRIDE_POLICY := NO_RFM, WINDOW_ACTS := 158\<rparr>;
          t1 = u32 (rel_get_trh_star (1 / 159) (loss_prob ! size0) (real (TARGET_MTTF_YRS s1 div 2)) + rel_tardy s1 size0);
          s2 = s1\<lparr>PRIDE_POLICY := NO_RFM, WINDOW_ACTS := 79\<rparr>;
          t2 = u32 (rel_get_trh_star (1 / 80) (loss_prob ! size0) (real (TARGET_MTTF_YRS s2)) + rel_tardy s2 size0);
          s3 = s2\<lparr>PRIDE_POLICY := RFM_40, WINDOW_ACTS := 40\<rparr>;
          t3 = u32 (rel_get_trh_star (1 / 41) (loss_prob_rfm40 ! size0) (real (u32 (TARGET_MTTF_YRS s3 * 2))) + rel_tardy s3 size0);
          s4 = s3\<lparr>PRIDE_POLICY := RFM_16, WINDOW_ACTS := 16\<rparr>;
          t4 = u32 (rel_get_trh_star (1 / 17) (loss_prob_rfm16 ! size0) (real (u32 (TARGET_MTTF_YRS s4 * 5))) + rel_tardy s4 size0)
      in (s4\<lparr>PRIDE_POLICY := NO_RFM, WINDOW_ACTS := 79\<rparr>,
          [(''PRIDE (0.5x)'', [t1]), (''PRIDE'', [t2]), (''PRIDE+RFM40'', [t3]), (''PRIDE+RFM16'', [t4])]))"

definition print_table_6 :: "rel_state \<Rightarrow> rel_state \<times> line list" where
  "print_table_6 s0 =
     (let size0 = DEFAULT_BUFFER_SIZE;
          s1 = s0\<lparr>WINDOW_ACTS := 79\<rparr>;
          t1 = u32 (rel_get_trh_star (1 / 80) (loss_prob ! size0) (real (TARGET_MTTF_YRS s1)) + rel_tardy s1 size0);
          s2 = s1\<lparr>PRIDE_POLICY := RFM_40, WINDOW_ACTS := 40\<rparr>;
          t2 = u32 (rel_get_trh_star (1 / 41) (loss_prob_rfm40 ! size0) (real (u32 (TARGET_MTTF_YRS s2 * 2))) + rel_tardy s2 size0);
          s3 = s2\<lparr>PRIDE_POLICY := RFM_16, WINDOW_ACTS := 16\<rparr>;
          t3 = u32 (rel_get_trh_star (1 / 17) (loss_prob_rfm16 ! size0) (real (u32 (TARGET_MTTF_YRS s3 * 5))) + rel_tardy s3 size0)
      in (s3\<lparr>PRIDE_POLICY := NO_RFM, WINDOW_ACTS := 79\<rparr>,
          [(''PRIDE'', [t1, t1 div 2]), (''PRIDE+RFM40'', [t2, t2 div 2]), (''PRIDE+RFM16'', [t3, t3 div 2])]))"

text \<open>The loop \<open>for(uns ii=100; ii<=1000000; ii *= 10)\<close>; \<open>ii\<close> is never 0.  The second column is
  \<open>ii / NUM_TFAW_BANKS\<close>.\<close>

function table_8_loop :: "rel_state \<Rightarrow> real \<Rightarrow> real \<Rightarrow> nat \<Rightarrow> nat \<Rightarrow> rel_state \<times> (nat \<times> real \<times> nat \<times> nat) list" where
  "table_8_loop s my_ins_prob my_loss_prob tardy ii =
     (if 0 < ii \<and> ii \<le> 1000000 then
        let s1 = s\<lparr>TARGET_MTTF_YRS := ii\<rparr>;
            trh_star = u32 (rel_get_trh_star my_ins_prob my_loss_prob (real ii) + tardy);
            (s2, rows) = table_8_loop s1 my_ins_prob my_loss_prob tardy (ii * 10)
        in (s2, (ii, real ii / NUM_TFAW_BANKS, trh_star, trh_star div 2) # rows)
      else (s, []))"
  by pat_completeness auto
termination
  by (relation "measure (\<lambda>(s, i, l, t, ii). 1000001 - ii)") auto

declare table_8_loop.simps [simp del]

definition print_table_8 :: "rel_state \<Rightarrow> rel_state \<times> (nat \<times> real \<times> nat \<times> nat) list" where
  "print_table_8 s0 =
     (let size0 = DEFAULT_BUFFER_SIZE;
          my_loss_prob = loss_prob ! size0;
          s1 = s0\<lparr>WINDOW_ACTS := 79\<rparr>;
          tardy = rel_tardy s1 size0;
          (s2, rows) = table_8_loop s1 (1 / 80) my_loss_prob tardy 100
      in (s2\<lparr>TARGET_MTTF_YRS := 10000\<rparr>, rows))"

text \<open>\<open>PrintMTTF\<close>: the text printed.\<close>

datatype mttf_text = Less_Than_1_Sec | Value_And_Unit int string | More_Than_1_Mil_Years

definition PrintMTTF :: "real \<Rightarrow> mttf_text" where
  "PrintMTTF TTF_system_years =
     (let TTF_system_sec = TTF_system_years * (365 * 24 * 60 * 60);
          TTF_system_min = TTF_system_sec / 60;
          TTF_system_hrs = TTF_system_sec / (60 * 60);
          TTF_system_days = TTF_system_sec / (24 * 60 * 60)
      in if TTF_system_sec < 1 then Less_Than_1_Sec
         else if TTF_system_sec < 60 then Value_And_Unit \<lfloor>TTF_system_sec + 1\<rfloor> ''sec''
         else if TTF_system_min < 60 then Value_And_Unit \<lfloor>TTF_system_min + 1\<rfloor> ''min''
         else if TTF_system_hrs < 24 then Value_And_Unit \<lfloor>TTF_system_hrs + 1\<rfloor> ''hrs''
         else if TTF_system_days < 365 then Value_And_Unit \<lfloor>TTF_system_days + 1\<rfloor> ''days''
         else if TTF_system_years < 1000000 then Value_And_Unit \<lfloor>TTF_system_years + 1\<rfloor> ''years''
         else More_Than_1_Mil_Years)"

text \<open>One row of table 9 and its loop \<open>for(trhd=4800; trhd >= 200; trhd -= 200)\<close>, in which 4800
  becomes 2200 before the subtraction.\<close>

definition table_9_row :: "rel_state \<Rightarrow> nat \<Rightarrow> rel_state \<times> (nat \<times> mttf_text list)" where
  "table_9_row s0 trhd =
     (let size0 = DEFAULT_BUFFER_SIZE;
          s1 = s0\<lparr>PRIDE_POLICY := NO_RFM, WINDOW_ACTS := 79\<rparr>;
          m1 = get_mttf (PRIDE_POLICY s1) (sub32 (u32 (trhd * 2)) (rel_tardy s1 size0)) (1 / 80) (loss_prob ! size0);
          s2 = s1\<lparr>PRIDE_POLICY := RFM_40, WINDOW_ACTS := 40\<rparr>;
          m2 = get_mttf (PRIDE_POLICY s2) (sub32 (u32 (trhd * 2)) (rel_tardy s2 size0)) (1 / 41) (loss_prob_rfm40 ! size0);
          s3 = s2\<lparr>PRIDE_POLICY := RFM_16, WINDOW_ACTS := 16\<rparr>;
          m3 = get_mttf (PRIDE_POLICY s3) (sub32 (u32 (trhd * 2)) (rel_tardy s3 size0)) (1 / 17) (loss_prob_rfm16 ! size0)
      in (s3, trhd, map (\<lambda>my_bank_mttf. PrintMTTF (my_bank_mttf / NUM_TFAW_BANKS)) [m1, m2, m3]))"

function table_9_loop :: "rel_state \<Rightarrow> nat \<Rightarrow> rel_state \<times> (nat \<times> mttf_text list) list" where
  "table_9_loop s trhd =
     (if 200 \<le> trhd then
        let (s1, row) = table_9_row s trhd;
            (s2, rows) = table_9_loop s1 ((if trhd = 4800 then 2200 else trhd) - 200)
        in (s2, row # rows)
      else (s, []))"
  by pat_completeness auto
termination
  by (relation "measure (\<lambda>(s, trhd). trhd)") auto

declare table_9_loop.simps [simp del]

definition print_table_9 :: "rel_state \<Rightarrow> rel_state \<times> (nat \<times> mttf_text list) list" where
  "print_table_9 s0 =
     (let (s1, rows) = table_9_loop s0 4800 in (s1\<lparr>PRIDE_POLICY := NO_RFM, WINDOW_ACTS := 79\<rparr>, rows))"

text \<open>\<open>main\<close>: what is printed is the figure and the five tables.\<close>

definition rel_main :: "rel_state \<Rightarrow> rel_state \<times> line list \<times> line list \<times> line list \<times> line list \<times>
    (nat \<times> real \<times> nat \<times> nat) list \<times> (nat \<times> mttf_text list) list" where
  "rel_main s0 =
     (let ins_prob = (if DEFEND_TRANSITIVE_ATTACKS \<noteq> 0 then 1 / (WINDOW_ACTS s0 + 1) else 1 / WINDOW_ACTS s0);
          f9 = print_fig_9 s0 ins_prob;
          (s1, t4) = print_table_4 s0;
          (s2, t5) = print_table_5 s1;
          (s3, t6) = print_table_6 s2;
          (s4, t8) = print_table_8 s3;
          (s5, t9) = print_table_9 s4
      in (s5, f9, t4, t5, t6, t8, t9))"

section \<open>The threshold inverts the time to failure\<close>

text \<open>How much shorter a round is under a policy: the factor the tables multiply the target by.\<close>

fun policy_factor :: "PRIDE_Policy \<Rightarrow> real" where
  "policy_factor NO_RFM = 1"
| "policy_factor RFM_40 = 2"
| "policy_factor RFM_16 = 5"

lemma get_mttf_eq:
  "get_mttf policy th i l = tREFI / policy_factor policy / (1 - i * (1 - l)) ^ th / (3600 * 24 * 365)"
  by (cases policy) (simp_all add: get_mttf_def get_pfail_round_def Let_def)

lemma power_ln_bound:
  assumes "0 < q" "q < 1" "0 < (a :: real)" "a < 1"
  defines "t \<equiv> nat \<lfloor>ln a / ln q\<rfloor>"
  shows "a \<le> q ^ t" "q ^ (t + 1) < a"
proof -
  have lq: "ln q < 0" and la: "ln a < 0" using assms by simp_all
  then have "0 \<le> ln a / ln q" by (simp add: divide_nonpos_neg)
  then have t: "real t \<le> ln a / ln q" "ln a / ln q < real (t + 1)"
    unfolding t_def by linarith+
  have pw: "q ^ n = exp (real n * ln q)" for n using assms(1) by (simp add: exp_of_nat_mult)
  have "ln a \<le> real t * ln q" using t(1) lq by (simp add: field_simps)
  then have "exp (ln a) \<le> exp (real t * ln q)" by simp
  then show "a \<le> q ^ t" using assms(3) pw by simp
  have "real (t + 1) * ln q < ln a" using t(2) lq by (simp add: field_simps)
  then have "exp (real (t + 1) * ln q) < exp (ln a)" by simp
  then show "q ^ (t + 1) < a" using assms(3) pw[of "t + 1"] by simp
qed

lemma get_mttf_mono:
  assumes "0 < i * (1 - l)" "i * (1 - l) < 1" "m < n"
  shows "get_mttf policy m i l < get_mttf policy n i l"
proof -
  have "(1 - i * (1 - l)) ^ n < (1 - i * (1 - l)) ^ m"
    using assms by (intro power_strict_decreasing) simp_all
  moreover have "0 < tREFI / policy_factor policy" by (cases policy) (simp_all add: tREFI_def)
  ultimately show ?thesis
    using assms unfolding get_mttf_eq by (intro divide_strict_right_mono divide_strict_left_mono) simp_all
qed

section \<open>The tables\<close>

lemma rel_tardy_values:
  "rel_tardy (s\<lparr>WINDOW_ACTS := 79\<rparr>) 4 = 315" "rel_tardy (s\<lparr>WINDOW_ACTS := 40\<rparr>) 4 = 159"
  "rel_tardy (s\<lparr>WINDOW_ACTS := 16\<rparr>) 4 = 63"
  by (simp_all add: rel_tardy_def get_tardy_def OPEN_PAGE_TARDY_def u32_def sub32_def)

lemma table_9_row_fst:
  "fst (snd (table_9_row s trhd)) = trhd"
  "fst (table_9_row s trhd) = s\<lparr>PRIDE_POLICY := RFM_16, WINDOW_ACTS := 16\<rparr>"
  by (simp_all add: table_9_row_def Let_def)

text \<open>From a threshold that is a multiple of 200 below 4800 the loop runs down by 200.\<close>

lemma table_9_loop_down:
  "k < 24 \<Longrightarrow> map fst (snd (table_9_loop s (200 * k))) = rev (map ((*) 200) [1..<k + 1]) \<and>
     TARGET_MTTF_YRS (fst (table_9_loop s (200 * k))) = TARGET_MTTF_YRS s"
proof (induction k arbitrary: s)
  case 0
  then show ?case by (subst (1 2) table_9_loop.simps) simp
next
  case (Suc k)
  then show ?case
    using Suc.IH[of "fst (table_9_row s (200 * Suc k))"] table_9_row_fst[of s "200 * Suc k"]
    by (subst (1 2) table_9_loop.simps) (auto simp: split_beta)
qed


lemma table_8_values:
  "map fst (snd (table_8_loop s i l t 100)) = [100, 1000, 10000, 100000, 1000000] \<and>
   WINDOW_ACTS (fst (table_8_loop s i l t 100)) = WINDOW_ACTS s \<and>
   PRIDE_POLICY (fst (table_8_loop s i l t 100)) = PRIDE_POLICY s"
proof -
  have stop: "table_8_loop s i l t 10000000 = (s, [])" for s by (subst table_8_loop.simps) simp
  have step: "table_8_loop s i l t ii = (let (s2, rows) = table_8_loop (s\<lparr>TARGET_MTTF_YRS := ii\<rparr>) i l t (ii * 10)
      in (s2, (ii, real ii / NUM_TFAW_BANKS, u32 (rel_get_trh_star i l (real ii) + t),
           u32 (rel_get_trh_star i l (real ii) + t) div 2) # rows))" if "0 < ii" "ii \<le> 1000000" for s ii
    using that by (subst table_8_loop.simps) (simp add: Let_def)
  show ?thesis
    by (simp add: step[of 100] step[of 1000] step[of 10000] step[of 100000] step[of 1000000] stop)
qed

lemma print_table_9_rows:
  "map fst (snd (print_table_9 s)) = 4800 # rev (map ((*) 200) [1..<11]) \<and>
   fst (print_table_9 s) = s\<lparr>PRIDE_POLICY := NO_RFM, WINDOW_ACTS := 79\<rparr>"
proof -
  let ?s = "fst (table_9_row s 4800)"
  have first: "table_9_loop s 4800 = (let (s2, rows) = table_9_loop ?s (200 * 10) in (s2, snd (table_9_row s 4800) # rows))"
    by (subst table_9_loop.simps) (simp add: split_beta)
  have "TARGET_MTTF_YRS (fst (table_9_loop ?s (200 * 10))) = TARGET_MTTF_YRS s"
    "map fst (snd (table_9_loop ?s (200 * 10))) = rev (map ((*) 200) [1..<11])"
    using table_9_loop_down[of 10 ?s] by (simp_all only: table_9_row_fst) simp_all
  then show ?thesis
    unfolding print_table_9_def first by (simp add: split_beta table_9_row_fst del: upt_rec_numeral)
qed

section \<open>Properties\<close>

text \<open>C25: The tolerated threshold is the exact inverse of the time to failure, up to the rounding of
  one activation: for each policy, with the target scaled by the policy's factor as the tables do,
  TRH* activations have a mean time to failure of at most the target and one more activation exceeds
  it.\<close>

theorem trh_star_brackets_target:
  assumes "0 < ins_prob * (1 - loss)" "ins_prob * (1 - loss) < 1" "0 < years"
    and "39 / 10 < years * policy_factor policy * 365 * 24 * 3600 * 1000000"
  defines "t \<equiv> rel_get_trh_star ins_prob loss (years * policy_factor policy)"
  shows "get_mttf policy t ins_prob loss \<le> years \<and> years < get_mttf policy (t + 1) ins_prob loss"
proof -
  let ?f = "policy_factor policy"
  define q where "q = 1 - ins_prob * (1 - loss)"
  define a :: real where "a = 39 / 10 / (years * ?f * 365 * 24 * 3600 * 1000000)"
  have f: "0 < ?f" by (cases policy) simp_all
  have q: "0 < q" "q < 1" using assms(1,2) by (simp_all add: q_def)
  have a: "0 < a" "a < 1" using assms(3,4) f by (simp_all add: a_def field_simps)
  have t: "t = nat \<lfloor>ln a / ln q\<rfloor>" by (simp add: t_def rel_get_trh_star_def Let_def a_def q_def)
  have yr: "tREFI / ?f / a / (3600 * 24 * 365) = years" using assms(3) f by (simp add: tREFI_def a_def field_simps)
  have r: "0 < tREFI / ?f" using f by (simp add: tREFI_def)
  have "tREFI / ?f / q ^ t \<le> tREFI / ?f / a"
    using power_ln_bound(1)[OF q a] r a(1) q(1) unfolding t
    by (intro divide_left_mono mult_pos_pos zero_less_power) simp_all
  then have "get_mttf policy t ins_prob loss \<le> tREFI / ?f / a / (3600 * 24 * 365)"
    unfolding get_mttf_eq q_def[symmetric] by (intro divide_right_mono) simp_all
  moreover have "tREFI / ?f / a < tREFI / ?f / q ^ (t + 1)"
    using power_ln_bound(2)[OF q a] r a(1) q(1) unfolding t
    by (intro divide_strict_left_mono mult_pos_pos zero_less_power) simp_all
  then have "tREFI / ?f / a / (3600 * 24 * 365) < get_mttf policy (t + 1) ins_prob loss"
    unfolding get_mttf_eq q_def[symmetric] by (intro divide_strict_right_mono) simp_all
  ultimately show ?thesis unfolding yr by simp
qed

theorem trh_star_brackets_target_witness:
  "get_mttf RFM_40 (rel_get_trh_star (1 / 41) (1 / 10) (10000 * 2)) (1 / 41) (1 / 10) \<le> 10000"
  using trh_star_brackets_target[of "1 / 41" "1 / 10" 10000 RFM_40] by simp

fun unit_seconds :: "string \<Rightarrow> real" where
  "unit_seconds u = (if u = ''sec'' then 1 else if u = ''min'' then 60 else if u = ''hrs'' then 60 * 60
     else if u = ''days'' then 24 * 60 * 60 else 365 * 24 * 60 * 60)"

declare unit_seconds.simps [simp del]

lemma unit_seconds_values:
  "unit_seconds ''sec'' = 1" "unit_seconds ''min'' = 60" "unit_seconds ''hrs'' = 3600"
  "unit_seconds ''days'' = 86400" "unit_seconds ''years'' = 31536000"
  by (simp_all add: unit_seconds.simps)

lemma floor_bracket:
  assumes "1 \<le> x" "x < (n :: real)" "n = of_int m"
  shows "of_int \<lfloor>x + 1\<rfloor> - 1 \<le> x" "x < of_int \<lfloor>x + 1\<rfloor>" "2 \<le> \<lfloor>x + 1\<rfloor>" "\<lfloor>x + 1\<rfloor> \<le> m"
  using assms by linarith+

lemma floor_units:
  assumes "v = \<lfloor>x + 1\<rfloor>" "1 \<le> x" "x < of_int m" "m \<le> 1000000" "0 < k" "S = x * (k :: real)"
  shows "(of_int v - 1) * k \<le> S \<and> S < of_int v * k \<and> 2 \<le> v \<and> v \<le> 1000000"
proof -
  have b: "of_int v - 1 \<le> x" "x < of_int v" "2 \<le> v" "v \<le> m"
    using floor_bracket[OF assms(2,3) refl] unfolding assms(1) .
  show ?thesis
    using b(3,4) assms(4) mult_right_mono[OF b(1), of k] mult_strict_right_mono[OF b(2), of k] assms(5)
    unfolding assms(6) by simp
qed

text \<open>The printed time to failure is rounded up in the unit chosen: with \<open>v\<close> printed, the time lies
  in \<open>[v - 1, v)\<close> units, the unit is the first one whose limit the time is under, and \<open>v\<close> never
  exceeds a million, so its conversion to \<open>int\<close> does not overflow.\<close>

theorem PrintMTTF_rounds_up:
  assumes "PrintMTTF y = Value_And_Unit v u"
  shows "(of_int v - 1) * unit_seconds u \<le> y * (365 * 24 * 60 * 60) \<and>
    y * (365 * 24 * 60 * 60) < of_int v * unit_seconds u \<and> 2 \<le> v \<and> v \<le> 1000000"
proof -
  let ?s = "y * (365 * 24 * 60 * 60)"
  define S where "S = ?s"
  have if_eq: "((if P then A else B) = C) = (P \<and> A = C \<or> \<not> P \<and> B = C)" for P and A B C :: mttf_text by simp
  have E: "S < 1 \<and> Less_Than_1_Sec = Value_And_Unit v u \<or> \<not> S < 1 \<and>
      (S < 60 \<and> Value_And_Unit \<lfloor>S + 1\<rfloor> ''sec'' = Value_And_Unit v u \<or> \<not> S < 60 \<and>
      (S / 60 < 60 \<and> Value_And_Unit \<lfloor>S / 60 + 1\<rfloor> ''min'' = Value_And_Unit v u \<or> \<not> S / 60 < 60 \<and>
      (S / (60 * 60) < 24 \<and> Value_And_Unit \<lfloor>S / (60 * 60) + 1\<rfloor> ''hrs'' = Value_And_Unit v u \<or> \<not> S / (60 * 60) < 24 \<and>
      (S / (24 * 60 * 60) < 365 \<and> Value_And_Unit \<lfloor>S / (24 * 60 * 60) + 1\<rfloor> ''days'' = Value_And_Unit v u \<or>
       \<not> S / (24 * 60 * 60) < 365 \<and>
      (y < 1000000 \<and> Value_And_Unit \<lfloor>y + 1\<rfloor> ''years'' = Value_And_Unit v u \<or>
       \<not> y < 1000000 \<and> More_Than_1_Mil_Years = Value_And_Unit v u)))))"
    using assms unfolding PrintMTTF_def Let_def S_def[symmetric] if_eq .
  have steps: "\<not> S < 1 \<Longrightarrow> 1 \<le> S" "\<not> S < 60 \<Longrightarrow> 1 \<le> S / 60" "\<not> S / 60 < 60 \<Longrightarrow> 1 \<le> S / (60 * 60)"
    "\<not> S / (60 * 60) < 24 \<Longrightarrow> 1 \<le> S / (24 * 60 * 60)" "\<not> S / (24 * 60 * 60) < 365 \<Longrightarrow> 1 \<le> y"
    by (simp_all add: S_def)
  consider "1 \<le> S" "S < 60" "v = \<lfloor>S + 1\<rfloor>" "u = ''sec''"
    | "1 \<le> S / 60" "S / 60 < 60" "v = \<lfloor>S / 60 + 1\<rfloor>" "u = ''min''"
    | "1 \<le> S / (60 * 60)" "S / (60 * 60) < 24" "v = \<lfloor>S / (60 * 60) + 1\<rfloor>" "u = ''hrs''"
    | "1 \<le> S / (24 * 60 * 60)" "S / (24 * 60 * 60) < 365" "v = \<lfloor>S / (24 * 60 * 60) + 1\<rfloor>" "u = ''days''"
    | "1 \<le> y" "y < 1000000" "v = \<lfloor>y + 1\<rfloor>" "u = ''years''"
  proof -
    have nd: "(Less_Than_1_Sec = Value_And_Unit v u) = False" "(More_Than_1_Mil_Years = Value_And_Unit v u) = False"
      by simp_all
    note E' = E[unfolded mttf_text.inject nd simp_thms]
    show ?thesis using E' that steps by (elim disjE conjE) (simp_all only: not_False_eq_True simp_thms)
  qed
  then have "(of_int v - 1) * unit_seconds u \<le> S \<and> S < of_int v * unit_seconds u \<and> 2 \<le> v \<and> v \<le> 1000000"
  proof cases
    case 1
    show ?thesis unfolding 1(4) unit_seconds_values
      by (rule floor_units[OF 1(3,1), of 60]) (use 1(2) in simp_all)
  next
    case 2
    show ?thesis unfolding 2(4) unit_seconds_values
      by (rule floor_units[OF 2(3,1), of 60]) (use 2(2) in simp_all)
  next
    case 3
    show ?thesis unfolding 3(4) unit_seconds_values
      by (rule floor_units[OF 3(3,1), of 24]) (use 3(2) in simp_all)
  next
    case 4
    show ?thesis unfolding 4(4) unit_seconds_values
      by (rule floor_units[OF 4(3,1), of 365]) (use 4(2) in simp_all)
  next
    case 5
    show ?thesis unfolding 5(4) unit_seconds_values
      by (rule floor_units[OF 5(3,1), of 1000000]) (use 5(2) in \<open>simp_all add: S_def\<close>)
  qed
  then show ?thesis unfolding S_def .
qed

theorem PrintMTTF_rounds_up_witness:
  "PrintMTTF (5 / 2) = Value_And_Unit 3 ''years'' \<and> (3 - 1) * unit_seconds ''years'' \<le> 5 / 2 * (365 * 24 * 60 * 60)"
proof -
  have "PrintMTTF (5 / 2) = Value_And_Unit 3 ''years''"
    by (simp add: PrintMTTF_def floor_eq_iff)
  then show ?thesis using PrintMTTF_rounds_up[of "5 / 2" 3 "''years''"] by simp
qed

text \<open>The program restores every global parameter it changes while printing, table 8 covers the
  targets 100 to 1000000 years, and table 9 the thresholds 4800 and 2000 down to 200 in steps of 200,
  for each of which twice the threshold exceeds the tardiness of every policy, so the unsigned
  subtraction does not wrap.\<close>

theorem rel_main_tables:
  "case rel_main s of (s', f9, t4, t5, t6, t8, t9) \<Rightarrow>
     s' = s\<lparr>PRIDE_POLICY := NO_RFM, WINDOW_ACTS := 79, TARGET_MTTF_YRS := 10000\<rparr> \<and>
     map (hd \<circ> snd) f9 = [1..<17] \<and> map fst t8 = [100, 1000, 10000, 100000, 1000000] \<and>
     map fst t9 = 4800 # rev (map ((*) 200) [1..<11]) \<and>
     (\<forall>trhd\<in>set (map fst t9). \<forall>w\<in>{79, 40, 16}. rel_tardy (s\<lparr>WINDOW_ACTS := w\<rparr>) DEFAULT_BUFFER_SIZE < trhd * 2)"
proof -
  have t9: "map fst (snd (print_table_9 x)) = 4800 # rev (map ((*) 200) [1..<11])"
    "fst (print_table_9 x) = x\<lparr>PRIDE_POLICY := NO_RFM, WINDOW_ACTS := 79\<rparr>" for x
    using print_table_9_rows[of x] by blast+
  have t8: "map fst (snd (print_table_8 x)) = [100, 1000, 10000, 100000, 1000000]"
    "fst (print_table_8 x) = x\<lparr>WINDOW_ACTS := 79, TARGET_MTTF_YRS := 10000\<rparr>" for x
    using table_8_values[of "x\<lparr>WINDOW_ACTS := 79\<rparr>"]
    by (auto simp: print_table_8_def Let_def split_beta)
  have t: "fst (print_table_4 x) = x\<lparr>PRIDE_POLICY := NO_RFM, WINDOW_ACTS := 79\<rparr>"
    "fst (print_table_5 x) = x\<lparr>PRIDE_POLICY := NO_RFM, WINDOW_ACTS := 79\<rparr>"
    "fst (print_table_6 x) = x\<lparr>PRIDE_POLICY := NO_RFM, WINDOW_ACTS := 79\<rparr>" for x
    by (simp_all add: print_table_4_def print_table_5_def print_table_6_def Let_def)
  have f9: "map (hd \<circ> snd) (print_fig_9 x i) = [1..<17]" for x i
    by (simp add: print_fig_9_def Let_def comp_def)
  have tardy: "rel_tardy (s\<lparr>WINDOW_ACTS := w\<rparr>) DEFAULT_BUFFER_SIZE < trhd * 2"
    if "trhd \<in> set (4800 # rev (map ((*) 200) [1..<11]))" "w \<in> {79, 40, 16}" for trhd w
    using that rel_tardy_values[of s] by (auto simp: DEFAULT_BUFFER_SIZE_def OPEN_PAGE_TARDY_def)
  show ?thesis
    unfolding rel_main_def Let_def split_beta prod.sel t9 t8 t f9 using tardy by simp
qed

end
