(* ===== verification/Mem_Ctrl_Config.thy ===== *)
theory Mem_Ctrl_Config
  imports Row_Swap Row_Quarantine Block_Hammer Rfm_Defense
begin

text \<open>
  The constructor of \<open>MemCtrl\<close> (\<open>mem/mem_ctrl.cc\<close>): the sizes of the buffers, the write
  thresholds, and the Rowhammer defense it builds and configures from the parameters.  Memory the
  constructors leave uninitialised comes from \<open>raw\<close>, \<open>rand()\<close> during the construction from
  \<open>rnd\<close>.  The configuration lemmas connect the parameters to the hypotheses the defenses' window
  theorems need.
\<close>

section \<open>Parameters and result\<close>

text \<open>What the controller reads of an interface (\<open>getRowsPerBank\<close> and so on).\<close>

record interface_geometry =
  ig_readBufferSize :: nat
  ig_writeBufferSize :: nat
  ig_RowsPerBank :: nat
  ig_BanksPerRank :: nat
  ig_RanksPerChannel :: nat

record mem_ctrl_params =
  p_dram :: "interface_geometry option"
  p_nvm :: "interface_geometry option"
  p_write_high_thresh_perc :: nat
  p_write_low_thresh_perc :: nat
  p_rh_defense :: bool
  p_rh_mitigation :: string
  p_rh_threshold :: nat
  p_rh_actual_threshold :: nat
  p_rh_mg_entries :: nat
  p_rh_rrs_tuples :: nat
  p_rh_rrs_swap_delay :: tick
  p_rh_rit_acc_delay :: tick
  p_rh_rq_qr_size :: nat
  p_rh_rq_cache_sets :: nat
  p_rh_rq_rows_per_btv_bit :: nat
  p_rh_rq_drain_threshold :: nat
  p_rh_rq_virtualize_rit :: bool
  p_rh_bh_black_list_threshold :: nat
  p_rh_rfm_maxacts_per_trefi :: nat
  p_rh_rfm_per_trefi :: nat
  p_rh_rfm_blast_radius :: nat

record raw_memory =
  raw_rrs :: "misra_gries rrs"
  raw_rq :: "misra_gries rq"
  raw_bh :: block_hammer
  raw_rfm :: rfm
  raw_mg :: "nat \<Rightarrow> nat \<Rightarrow> nat \<Rightarrow> mg_tracker"

datatype defense = RRS "misra_gries rrs" | RQ "misra_gries rq" | BH block_hammer | RFM rfm

record mem_ctrl_config =
  mc_readBufferSize :: nat
  mc_writeBufferSize :: nat
  mc_writeHighThreshold :: nat
  mc_writeLowThreshold :: nat
  mc_rh_threshold :: nat
  mc_rh_mg_entries :: nat
  mc_rh_rrs_tuples :: nat
  mc_rh_defense :: "defense option"

section \<open>The constructor\<close>

text \<open>The constructors of the defenses and of the detector take their counts of banks, ranks and channels
  as \<open>uint8_t\<close>.\<close>

definition ig_banks8 :: "interface_geometry \<Rightarrow> nat" where "ig_banks8 g = u8 (ig_BanksPerRank g)"

definition ig_ranks8 :: "interface_geometry \<Rightarrow> nat" where "ig_ranks8 g = u8 (ig_RanksPerChannel g)"

text \<open>Unsigned division.\<close>

definition udiv :: "nat \<Rightarrow> nat \<Rightarrow> nat result" where
  "udiv a b = (if b = 0 then Inl DivideByZero else Inr (a div b))"

definition rrs_configure :: "raw_memory \<Rightarrow> mem_ctrl_params \<Rightarrow> interface_geometry \<Rightarrow>
    (nat \<times> nat \<times> nat \<times> defense) result" where
  "rrs_configure raw p dram =
     (let rh_threshold = p_rh_actual_threshold p div 6 in
      rbind (udiv 1360000 rh_threshold) (\<lambda>rh_mg_entries.
        let rh_rrs_tuples = 2 * rh_mg_entries;
            d = rrs_new (raw_rrs raw) rh_rrs_tuples (ig_RowsPerBank dram) rh_threshold (ig_banks8 dram)
                  (ig_ranks8 dram) 1
        in Inr (rh_threshold, rh_mg_entries, rh_rrs_tuples, RRS (d\<lparr>rrs_swapDelay := p_rh_rrs_swap_delay p,
             rrs_SRAM_RIT_accDelay := p_rh_rit_acc_delay p,
             rrs_detector := mg_new (raw_mg raw) rh_mg_entries rh_threshold (ig_RowsPerBank dram)
               (ig_banks8 dram) (ig_ranks8 dram) 1\<rparr>))))"

text \<open>\<open>delay_ps_cacti[i]\<close> and \<open>(int) log2(n)\<close> of an unsigned \<open>n\<close>; \<open>log2(0)\<close> is not an index.\<close>

definition delay_ps_cacti :: "nat \<Rightarrow> tick result" where
  "delay_ps_cacti i = (if i < 6 then Inr ([136, 167, 227, 316, 431, 628] ! i) else Inl OutOfBounds)"

fun ilog2 :: "nat \<Rightarrow> nat result" where
  "ilog2 n = (if n = 0 then Inl OutOfBounds else if n = 1 then Inr 0 else rbind (ilog2 (n div 2)) (\<lambda>k. Inr (k + 1)))"

declare ilog2.simps [simp del]

definition rq_configure :: "(nat \<Rightarrow> nat) \<Rightarrow> raw_memory \<Rightarrow> mem_ctrl_params \<Rightarrow> interface_geometry \<Rightarrow>
    (nat \<times> nat \<times> nat \<times> defense) result" where
  "rq_configure rnd raw p dram =
     (let rh_threshold = p_rh_actual_threshold p div 2 in
      rbind (udiv 1360000 rh_threshold) (\<lambda>rh_mg_entries.
      let d = rq_new rnd (raw_rq raw) (p_rh_rq_qr_size p) (ig_RowsPerBank dram) rh_threshold
                (ig_banks8 dram) (ig_ranks8 dram) 1;
          d1 = d\<lparr>rq_filter := None,
                 rq_cache := Some (fc_new (p_rh_rq_cache_sets p) 16 (p_rh_rq_rows_per_btv_bit p)),
                 rq_moveDelay := p_rh_rrs_swap_delay p div 2, rq_accDelay := 45000,
                 rq_bitvector := (rq_bitvector d)\<lparr>btv_rows_per_bit := p_rh_rq_rows_per_btv_bit p\<rparr>,
                 rq_drain_cache_miss_threshold := p_rh_rq_drain_threshold p\<rparr> in
      rbind (delay_ps_cacti (p_rh_rq_cache_sets p div 256)) (\<lambda>cache_delay.
      rbind (udiv 32 (p_rh_rq_rows_per_btv_bit p)) (\<lambda>q.
      rbind (ilog2 q) (\<lambda>cbf_delay_index.
      rbind (delay_ps_cacti cbf_delay_index) (\<lambda>cbf_delay.
      let d2 = d1\<lparr>rq_SRAM_Cache_accDelay := cache_delay, rq_SRAM_CBF_accDelay := cbf_delay,
                  rq_virtualize_RIT := p_rh_rq_virtualize_rit p\<rparr>;
          d3 = (if \<not> p_rh_rq_virtualize_rit p
                then d2\<lparr>rq_SRAM_RQT_accDelay := p_rh_rit_acc_delay p, rq_SRAM_Cache_accDelay := 0,
                        rq_SRAM_CBF_accDelay := 0\<rparr> else d2)
      in Inr (rh_threshold, rh_mg_entries, p_rh_rrs_tuples p,
           RQ (d3\<lparr>rq_detector := mg_new (raw_mg raw) rh_mg_entries rh_threshold (ig_RowsPerBank dram)
             (ig_banks8 dram) (ig_ranks8 dram) 1\<rparr>))))))))"

definition bh_configure :: "raw_memory \<Rightarrow> mem_ctrl_params \<Rightarrow> interface_geometry \<Rightarrow> nat \<times> nat \<times> nat \<times> defense" where
  "bh_configure raw p dram =
     (let rh_threshold = p_rh_actual_threshold p div 2;
          black_list_threshold = rh_threshold * p_rh_bh_black_list_threshold p div 100;
          d = bh_new (raw_bh raw) rh_threshold (ig_RowsPerBank dram) black_list_threshold
                (ig_banks8 dram) (ig_ranks8 dram) 1
      in (rh_threshold, p_rh_mg_entries p, p_rh_rrs_tuples p, BH (d\<lparr>bh_SRAM_CBF_accDelay := p_rh_rit_acc_delay p\<rparr>)))"

text \<open>The default \<open>tracker_size\<close> of the constructor is 6.\<close>

definition rfm_configure :: "raw_memory \<Rightarrow> mem_ctrl_params \<Rightarrow> interface_geometry \<Rightarrow>
    (nat \<times> nat \<times> nat \<times> defense) result" where
  "rfm_configure raw p dram =
     rbind (udiv (p_rh_rfm_maxacts_per_trefi p) (p_rh_rfm_per_trefi p)) (\<lambda>act_threshold.
       Inr (p_rh_actual_threshold p, p_rh_mg_entries p, p_rh_rrs_tuples p,
         RFM (rfm_new (raw_rfm raw) (p_rh_mitigation p = ''RFM'') (p_rh_actual_threshold p)
           (p_rh_mitigation p = ''PARA'') act_threshold 45000 (350000 div 2) (p_rh_rfm_blast_radius p)
           (ig_RowsPerBank dram) (ig_banks8 dram) (ig_ranks8 dram) 1 6)))"

text \<open>The last statement, a \<open>printf\<close>, reads the geometry of the DRAM: without one the constructor ends in
  a null dereference (\<open>OutOfBounds\<close>), with a defense at its first use of the DRAM.\<close>

definition mem_ctrl_new :: "(nat \<Rightarrow> nat) \<Rightarrow> raw_memory \<Rightarrow> mem_ctrl_params \<Rightarrow> mem_ctrl_config result" where
  "mem_ctrl_new rnd raw p =
     (let size_of = (\<lambda>f i. case i of None \<Rightarrow> 0 | Some g \<Rightarrow> f g);
          readBufferSize = u32 (size_of ig_readBufferSize (p_dram p) + size_of ig_readBufferSize (p_nvm p));
          writeBufferSize = u32 (size_of ig_writeBufferSize (p_dram p) + size_of ig_writeBufferSize (p_nvm p));
          cfg = \<lparr>mc_readBufferSize = readBufferSize, mc_writeBufferSize = writeBufferSize,
                 mc_writeHighThreshold = writeBufferSize * p_write_high_thresh_perc p div 100,
                 mc_writeLowThreshold = writeBufferSize * p_write_low_thresh_perc p div 100,
                 mc_rh_threshold = p_rh_threshold p, mc_rh_mg_entries = p_rh_mg_entries p,
                 mc_rh_rrs_tuples = p_rh_rrs_tuples p, mc_rh_defense = None\<rparr> in
      if p_dram p = None \<and> p_nvm p = None then Inl FatalExit
      else if p_write_high_thresh_perc p \<le> p_write_low_thresh_perc p then Inl FatalExit
      else if p_rh_defense p then
        (case p_dram p of None \<Rightarrow>
          if p_rh_mitigation p \<notin> {''RRS'', ''RQ'', ''BH'', ''RFM'', ''PARA''} then Inl FatalExit
          else rbind (if p_rh_mitigation p = ''RRS'' then udiv 1360000 (p_rh_actual_threshold p div 6)
                      else if p_rh_mitigation p = ''RQ'' then udiv 1360000 (p_rh_actual_threshold p div 2)
                      else Inr 0) (\<lambda>_. Inl OutOfBounds)
         | Some dram \<Rightarrow>
          rbind (if p_rh_mitigation p = ''RRS'' then rrs_configure raw p dram
                 else if p_rh_mitigation p = ''RQ'' then rq_configure rnd raw p dram
                 else if p_rh_mitigation p = ''BH'' then Inr (bh_configure raw p dram)
                 else if p_rh_mitigation p = ''RFM'' \<or> p_rh_mitigation p = ''PARA'' then rfm_configure raw p dram
                 else Inl FatalExit) (\<lambda>(th, entries, tuples, d).
            Inr (cfg\<lparr>mc_rh_threshold := th, mc_rh_mg_entries := entries, mc_rh_rrs_tuples := tuples,
                     mc_rh_defense := Some d\<rparr>)))
      else if p_dram p = None then Inl OutOfBounds else Inr cfg)"

section \<open>What the configuration gives\<close>

lemma mg_entries_cover:
  assumes "0 < th"
  shows "(A :: nat) < th * (A div th + 1)"
  using assms by (metis add.commute dividend_less_div_times mult.commute mult_Suc_right plus_1_eq_Suc)

text \<open>The fields set after the constructor could have been there before it.\<close>

lemma rrs_new_later_fields:
  "(rrs_new mem M R th nb nk nc)\<lparr>rrs_swapDelay := x, rrs_SRAM_RIT_accDelay := y, rrs_detector := d\<rparr> =
   (rrs_new (mem\<lparr>rrs_swapDelay := x, rrs_SRAM_RIT_accDelay := y\<rparr>) M R th nb nk nc)\<lparr>rrs_detector := d\<rparr>"
  by (simp add: rrs_new_def Let_def)

lemma rrs_configured_window:
  assumes "mem_ctrl_new rnd raw p = Inr cfg" "p_rh_defense p" "p_rh_mitigation p = ''RRS''" "p_dram p = Some g"
    and "th = p_rh_actual_threshold p div 6" "th \<le> 680000" "5 * (1360000 div th) + 1 < ig_RowsPerBank g"
    and "ig_BanksPerRank g < 256" "ig_RanksPerChannel g < 256" "b < ig_BanksPerRank g" "k < ig_RanksPerChannel g" "mg_spill_counter (raw_mg raw 0 k b) = 0"
    and "\<forall>(t, r)\<in>set as. r < ig_RowsPerBank g \<and> t < REFRESH_WINDOW" "length as \<le> 1360000"
  shows "\<exists>s s' ms. mc_rh_defense cfg = Some (RRS s) \<and> rrs_window mg_ops rnd' s b k 0 as = Inr (s', ms) \<and>
    rit_valid_tuples (rrs_table s' b k 0) \<le> mc_rh_rrs_tuples cfg \<and>
    (\<forall>q. count_list (map snd as) q div th \<le> count_list ms q)"
proof -
  let ?n = "1360000 div th" and ?R = "ig_RowsPerBank g" and ?nb = "ig_BanksPerRank g" and ?nk = "ig_RanksPerChannel g"
  let ?mem = "(raw_rrs raw)\<lparr>rrs_swapDelay := p_rh_rrs_swap_delay p, rrs_SRAM_RIT_accDelay := p_rh_rit_acc_delay p\<rparr>"
  let ?s = "(rrs_new ?mem (2 * ?n) ?R th ?nb ?nk 1)\<lparr>rrs_detector := mg_new (raw_mg raw) ?n th ?R ?nb ?nk 1\<rparr>"
  have th: "0 < th" and cfg: "mc_rh_defense cfg = Some (RRS ?s)" "mc_rh_rrs_tuples cfg = 2 * ?n"
    using assms(1-5,8,9) rrs_new_later_fields[where mem = "raw_rrs raw" and M = "2 * ?n" and R = ?R and th = th]
    by (auto simp: mem_ctrl_new_def Let_def rrs_configure_def udiv_def ig_banks8_def ig_ranks8_def u8_id split: if_splits)
  have n: "2 \<le> ?n"
    using th assms(6) by (simp add: less_eq_div_iff_mult_less_eq)
  have "length as div th \<le> ?n" using assms(14) by (rule div_le_mono)
  then have tuples: "2 * (length as div th) \<le> 2 * ?n" by simp
  have "length as < th * (?n + 1)" using assms(14) mg_entries_cover[OF th, of 1360000] by simp
  from rrs_fresh_window[where mem = ?mem and rnd = rnd' and threshold = th and M = "2 * ?n" and n = ?n
        and dmem = "raw_mg raw" and c = 0,
      OF th assms(10,11) zero_less_one assms(12) _ _ assms(13) this _ tuples]
  obtain s' ms where "rrs_window mg_ops rnd' ?s b k 0 as = Inr (s', ms)"
    "rit_valid_tuples (rrs_table s' b k 0) \<le> 2 * ?n" "\<forall>q. count_list (map snd as) q div th \<le> count_list ms q"
    using n assms(7,14) by auto
  then show ?thesis unfolding cfg by blast
qed

section \<open>Properties\<close>

text \<open>The row swap defense the memory controller configures is safe: for an actual threshold of 6 or
  more whose sixth is at most 680000, and banks of more than \<open>5 * (1360000 / th) + 1\<close> rows, fewer than 256 of them per rank and fewer than
  256 ranks, any refresh window of up to 1360000 activations of a bank (more than fit in 64 ms) fails no assertion, stays
  within the configured tuples, and moves every row once per sixth of the actual threshold.\<close>

theorem configured_row_swap_is_safe:
  assumes "mem_ctrl_new rnd raw p = Inr cfg" "p_rh_defense p" "p_rh_mitigation p = ''RRS''" "p_dram p = Some g"
    and "th = p_rh_actual_threshold p div 6" "th \<le> 680000" "5 * (1360000 div th) + 1 < ig_RowsPerBank g"
    and "ig_BanksPerRank g < 256" "ig_RanksPerChannel g < 256" "b < ig_BanksPerRank g" "k < ig_RanksPerChannel g" "mg_spill_counter (raw_mg raw 0 k b) = 0"
    and "\<forall>(t, r)\<in>set as. r < ig_RowsPerBank g \<and> t < REFRESH_WINDOW" "length as \<le> 1360000"
  shows "\<exists>s s' ms. mc_rh_defense cfg = Some (RRS s) \<and> rrs_window mg_ops rnd' s b k 0 as = Inr (s', ms) \<and>
    rit_valid_tuples (rrs_table s' b k 0) \<le> mc_rh_rrs_tuples cfg \<and>
    (\<forall>q. count_list (map snd as) q div th \<le> count_list ms q)"
  by (rule rrs_configured_window[OF assms])


text \<open>The default parameters, with the row swap defense, 16 banks of 131072 rows, and detector memory
  that happens to be zero.\<close>

definition config_example :: mem_ctrl_params where
  "config_example = \<lparr>p_dram = Some \<lparr>ig_readBufferSize = 32, ig_writeBufferSize = 64, ig_RowsPerBank = 131072,
       ig_BanksPerRank = 16, ig_RanksPerChannel = 1\<rparr>, p_nvm = None, p_write_high_thresh_perc = 85,
     p_write_low_thresh_perc = 50, p_rh_defense = True, p_rh_mitigation = ''RRS'', p_rh_threshold = 167,
     p_rh_actual_threshold = 1000, p_rh_mg_entries = 8144, p_rh_rrs_tuples = 16288,
     p_rh_rrs_swap_delay = 2740000, p_rh_rit_acc_delay = 1250, p_rh_rq_qr_size = 23053,
     p_rh_rq_cache_sets = 256, p_rh_rq_rows_per_btv_bit = 16, p_rh_rq_drain_threshold = 1048576,
     p_rh_rq_virtualize_rit = True, p_rh_bh_black_list_threshold = 50, p_rh_rfm_maxacts_per_trefi = 170,
     p_rh_rfm_per_trefi = 1, p_rh_rfm_blast_radius = 1\<rparr>"

definition zeroed_tracker :: mg_tracker where
  "zeroed_tracker = \<lparr>mg_entries = [], mg_spill_counter = 0, mg_uniq_rows = {}, mg_rowHasEntry = (\<lambda>_. 0),
     mg_s_num_reset = 0, mg_s_glob_spill_count = 0, mg_s_num_access = 0, mg_s_num_install = 0, mg_s_aggressors = 0\<rparr>"

theorem configured_row_swap_is_safe_witness:
  "\<exists>cfg s s' ms. mem_ctrl_new (\<lambda>i. i) (undefined\<lparr>raw_mg := (\<lambda>_ _ _. zeroed_tracker)\<rparr>) config_example = Inr cfg \<and>
    mc_rh_defense cfg = Some (RRS s) \<and> rrs_window mg_ops (\<lambda>i. i) s 3 0 0 [(1, 5), (9, 7)] = Inr (s', ms)"
proof -
  let ?raw = "undefined\<lparr>raw_mg := (\<lambda>_ _ _. zeroed_tracker)\<rparr> :: raw_memory"
  obtain cfg where cfg: "mem_ctrl_new (\<lambda>i. i) ?raw config_example = Inr cfg"
    by (simp add: mem_ctrl_new_def config_example_def rrs_configure_def udiv_def Let_def)
  show ?thesis
    using cfg configured_row_swap_is_safe[OF cfg, of _ 166 3 0 "[(1, 5), (9, 7)]" "\<lambda>i. i"]
    by (auto simp: config_example_def zeroed_tracker_def REFRESH_WINDOW_def)
qed

text \<open>Parameters the constructor does not check: with the row swap defense and an actual threshold
  below 6, or the row quarantine and one below 2, the construction divides by zero; an unknown
  mitigation is rejected.\<close>

theorem configuration_faults:
  assumes "p_dram p = Some g" "p_write_low_thresh_perc p < p_write_high_thresh_perc p" "p_rh_defense p"
  shows "(p_rh_mitigation p = ''RRS'' \<and> p_rh_actual_threshold p < 6 \<longrightarrow> mem_ctrl_new rnd raw p = Inl DivideByZero) \<and>
    (p_rh_mitigation p = ''RQ'' \<and> p_rh_actual_threshold p < 2 \<longrightarrow> mem_ctrl_new rnd raw p = Inl DivideByZero) \<and>
    (p_rh_mitigation p \<notin> {''RRS'', ''RQ'', ''BH'', ''RFM'', ''PARA''} \<longrightarrow> mem_ctrl_new rnd raw p = Inl FatalExit)"
  using assms by (simp add: mem_ctrl_new_def Let_def rrs_configure_def rq_configure_def udiv_def)

theorem configuration_faults_witness:
  "mem_ctrl_new (\<lambda>i. i) undefined (config_example\<lparr>p_rh_actual_threshold := 5\<rparr>) = Inl DivideByZero"
  using configuration_faults[of "config_example\<lparr>p_rh_actual_threshold := 5\<rparr>" _ "\<lambda>i. i" undefined]
  by (simp add: config_example_def)

end
