(* ===== verification/Command_Bus.thy ===== *)
theory Command_Bus
  imports Pride_Base "HOL-Library.Multiset"
begin

text \<open>
  The command-bus bandwidth of \<open>MemCtrl\<close> (\<open>mem/mem_ctrl.cc\<close>): \<open>burstTicks\<close> holds one element
  per command, the start of the window of \<open>commandWindow\<close> ticks it issues in; at most
  \<open>max_cmds_per_burst\<close> commands fit in a window.  \<open>verifySingleCmd\<close> finds the first window with
  room, \<open>verifyMultiCmd\<close> places a pair of commands.  Their loops have no bound of their own: a run
  that does not return is \<open>None\<close>, and that they return is proved.
\<close>

section \<open>Operations\<close>

type_synonym burst_ticks = "tick multiset"

definition pruneBurstTick :: "burst_ticks \<Rightarrow> tick \<Rightarrow> burst_ticks" where
  "pruneBurstTick burstTicks curTick = filter_mset (\<lambda>t. \<not> t < curTick) burstTicks"

definition getBurstWindow :: "tick \<Rightarrow> tick \<Rightarrow> tick result" where
  "getBurstWindow commandWindow cmd_tick =
     (if commandWindow = 0 then Inl DivideByZero
      else let burst_offset = cmd_tick mod commandWindow in Inr (cmd_tick - burst_offset))"

text \<open>The loop of \<open>verifySingleCmd\<close>: the window and the tick found.\<close>

partial_function (option) single_loop :: "tick \<Rightarrow> burst_ticks \<Rightarrow> nat \<Rightarrow> tick \<Rightarrow> tick \<Rightarrow> (tick \<times> tick) option" where
  "single_loop commandWindow burstTicks max_cmds burst_tick cmd_at =
     (if max_cmds \<le> count burstTicks burst_tick
      then single_loop commandWindow burstTicks max_cmds (burst_tick + commandWindow) (burst_tick + commandWindow)
      else Some (burst_tick, cmd_at))"

definition verifySingleCmd :: "tick \<Rightarrow> burst_ticks \<Rightarrow> tick \<Rightarrow> nat \<Rightarrow> (burst_ticks \<times> tick) result option" where
  "verifySingleCmd commandWindow burstTicks cmd_tick max_cmds =
     (case getBurstWindow commandWindow cmd_tick of Inl e \<Rightarrow> Some (Inl e)
      | Inr burst_tick \<Rightarrow> (case single_loop commandWindow burstTicks max_cmds burst_tick cmd_tick of
          None \<Rightarrow> None
        | Some (burst_tick', cmd_at) \<Rightarrow> Some (Inr (add_mset burst_tick' burstTicks, cmd_at))))"

text \<open>The loop that looks back from the second command for the earliest window of the first.\<close>

partial_function (option) split_loop :: "tick \<Rightarrow> nat \<Rightarrow> tick \<Rightarrow> tick \<Rightarrow> tick option" where
  "split_loop commandWindow max_multi_cmd_split first_cmd_offset burst_offset =
     (if first_cmd_offset + burst_offset < max_multi_cmd_split
      then split_loop commandWindow max_multi_cmd_split first_cmd_offset (burst_offset + commandWindow)
      else Some burst_offset)"

text \<open>The placement loop of \<open>verifyMultiCmd\<close>: the windows of the second and the first command, and
  the tick of the second.\<close>

partial_function (option) multi_loop ::
  "tick \<Rightarrow> burst_ticks \<Rightarrow> nat \<Rightarrow> nat \<Rightarrow> tick \<Rightarrow> tick \<Rightarrow> tick \<Rightarrow> (tick \<times> tick \<times> tick) option" where
  "multi_loop commandWindow burstTicks max_cmds max_split burst_tick first_cmd_tick cmd_at =
     (let same_burst = (burst_tick = first_cmd_tick);
          first_cmd_count = count burstTicks first_cmd_tick;
          second_cmd_count = (if same_burst then first_cmd_count + 1 else count burstTicks burst_tick);
          first_can_issue = (first_cmd_count < max_cmds);
          second_can_issue = (second_cmd_count < max_cmds);
          burst_tick' = (if second_can_issue then burst_tick else burst_tick + commandWindow);
          cmd_at' = (if second_can_issue then cmd_at else burst_tick');
          gap_violated = (\<not> same_burst \<and> max_split < sub64 burst_tick' first_cmd_tick);
          first_cmd_tick' = (if \<not> first_can_issue \<or> (\<not> second_can_issue \<and> gap_violated)
                             then first_cmd_tick + commandWindow else first_cmd_tick)
      in if first_can_issue \<and> second_can_issue then Some (burst_tick, first_cmd_tick, cmd_at)
         else multi_loop commandWindow burstTicks max_cmds max_split burst_tick' first_cmd_tick' cmd_at')"

definition verifyMultiCmd :: "tick \<Rightarrow> burst_ticks \<Rightarrow> tick \<Rightarrow> nat \<Rightarrow> nat \<Rightarrow> (burst_ticks \<times> tick) result option" where
  "verifyMultiCmd commandWindow burstTicks cmd_tick max_cmds max_split =
     (case getBurstWindow commandWindow cmd_tick of Inl e \<Rightarrow> Some (Inl e)
      | Inr burst_tick \<Rightarrow> (case split_loop commandWindow max_split (cmd_tick mod commandWindow) 0 of
          None \<Rightarrow> None
        | Some burst_offset \<Rightarrow>
            (case multi_loop commandWindow burstTicks max_cmds max_split burst_tick
                    (burst_tick - min burst_offset burst_tick) cmd_tick of
               None \<Rightarrow> None
             | Some (burst_tick', first_cmd_tick, cmd_at) \<Rightarrow>
                 Some (Inr (add_mset first_cmd_tick (add_mset burst_tick' burstTicks), cmd_at)))))"

section \<open>The loops return\<close>

text \<open>From some tick on every window is empty.\<close>

definition bus_horizon :: "burst_ticks \<Rightarrow> tick" where
  "bus_horizon B = Suc (Max (insert 0 (set_mset B)))"

lemma count_beyond_horizon: "bus_horizon B \<le> t \<Longrightarrow> count B t = 0"
proof -
  assume t: "bus_horizon B \<le> t"
  have "t \<notin> set_mset B"
  proof
    assume "t \<in># B"
    then have "t \<le> Max (insert 0 (set_mset B))" by (intro Max_ge) simp_all
    with t show False by (simp add: bus_horizon_def)
  qed
  then show ?thesis by (simp add: count_eq_zero_iff)
qed

text \<open>The first window with room: all windows before it are full.\<close>

lemma single_loop_spec:
  assumes "0 < W" "0 < m"
  shows "\<exists>n. single_loop W B m bt at = Some (bt + n * W, if n = 0 then at else bt + n * W) \<and>
    count B (bt + n * W) < m \<and> (\<forall>i<n. m \<le> count B (bt + i * W))"
proof (induction "bus_horizon B - bt" arbitrary: bt at rule: less_induct)
  case less
  show ?case
  proof (cases "m \<le> count B bt")
    case False
    then show ?thesis by (intro exI[of _ 0]) (subst single_loop.simps, simp)
  next
    case True
    then have "bt < bus_horizon B" using count_beyond_horizon[of B bt] assms(2) by (cases "bus_horizon B \<le> bt") simp_all
    then have "bus_horizon B - (bt + W) < bus_horizon B - bt" using assms(1) by simp
    from less.hyps[OF this, of "bt + W"] obtain n where n:
      "single_loop W B m (bt + W) (bt + W) =
         Some (bt + W + n * W, if n = 0 then bt + W else bt + W + n * W)"
      "count B (bt + W + n * W) < m" "\<forall>i<n. m \<le> count B (bt + W + i * W)" by auto
    have "single_loop W B m bt at = single_loop W B m (bt + W) (bt + W)"
      using True by (subst single_loop.simps) simp
    moreover have "\<forall>i<Suc n. m \<le> count B (bt + i * W)"
    proof (intro allI impI)
      fix i assume "i < Suc n"
      then show "m \<le> count B (bt + i * W)" using n(3) True by (cases i) (auto simp: add.assoc)
    qed
    ultimately show ?thesis using n(1,2) by (intro exI[of _ "Suc n"]) (auto simp: add.assoc)
  qed
qed

lemma split_loop_returns:
  assumes "0 < W"
  shows "\<exists>n. split_loop W m f o' = Some (o' + n * W) \<and> m \<le> f + o' + n * W \<and> (n = 0 \<or> f + o' + n * W < m + W)"
proof (induction "m - (f + o')" arbitrary: o' rule: less_induct)
  case less
  show ?case
  proof (cases "f + o' < m")
    case False
    then show ?thesis by (intro exI[of _ 0]) (subst split_loop.simps, simp)
  next
    case True
    then have "m - (f + (o' + W)) < m - (f + o')" using assms by simp
    from less.hyps[OF this] obtain n where "split_loop W m f (o' + W) = Some (o' + W + n * W)"
      "m \<le> f + (o' + W) + n * W" "n = 0 \<or> f + (o' + W) + n * W < m + W" by blast
    then show ?thesis using True
      by (intro exI[of _ "Suc n"]) (subst split_loop.simps, cases "n = 0", simp_all add: add.assoc)
  qed
qed

text \<open>What a placement of a pair satisfies.\<close>

definition pair_placed :: "burst_ticks \<Rightarrow> nat \<Rightarrow> tick \<Rightarrow> tick \<Rightarrow> bool" where
  "pair_placed B m bt ft \<longleftrightarrow> ft \<le> bt \<and> count B ft < m \<and> count B bt + (if bt = ft then 1 else 0) < m"

lemma multi_loop_measure:
  fixes W :: nat
  assumes "0 < W" "0 < m" "ft \<le> bt" "W dvd bt - ft"
    and "c1 = count B ft" "c2 = (if bt = ft then c1 + 1 else count B bt)" "\<not> (c1 < m \<and> c2 < m)"
    and "bt' = (if c2 < m then bt else bt + W)"
    and "ft' = (if \<not> c1 < m \<or> (\<not> c2 < m \<and> g) then ft + W else ft)" "g \<longrightarrow> bt \<noteq> ft"
  defines "H \<equiv> bus_horizon B + W"
  shows "ft' \<le> bt' \<and> W dvd bt' - ft' \<and>
    2 * (H - bt') + 2 * (H - ft') + (if bt' = ft' then 1 else 0) <
    2 * (H - bt) + 2 * (H - ft) + (if bt = ft then 1 else 0)"
proof -
  have b1: "ft < bus_horizon B" if "0 < c1"
    using count_beyond_horizon[of B ft] that assms(5) by (cases "bus_horizon B \<le> ft") simp_all
  have b2: "bt < bus_horizon B" if "0 < count B bt"
    using count_beyond_horizon[of B bt] that by (cases "bus_horizon B \<le> bt") simp_all
  have step: "W \<le> bt - ft" if "bt \<noteq> ft" using assms(3,4) that by (intro dvd_imp_le) simp_all
  have dv: "W dvd bt + W - ft" "bt \<noteq> ft \<Longrightarrow> W dvd bt - (ft + W)"
  proof -
    have "bt + W - ft = (bt - ft) + W" using assms(3) by simp
    then show "W dvd bt + W - ft" using assms(4) by simp
    show "bt \<noteq> ft \<Longrightarrow> W dvd bt - (ft + W)"
      using assms(4) by (metis diff_diff_left dvd_diff_nat dvd_refl)
  qed
  show ?thesis
  proof (cases "bt = ft")
    case True
    then have g: "\<not> g" using assms(10) by simp
    have c2: "\<not> c2 < m" using assms(6,7) True by auto
    show ?thesis
    proof (cases "c1 < m")
      case c1: True
      then have n: "bt' = bt + W" "ft' = ft" using assms(8,9) c2 g by simp_all
      show ?thesis unfolding n using True assms(1) by simp
    next
      case c1: False
      then have n: "bt' = bt + W" "ft' = ft + W" using assms(8,9) c2 by simp_all
      have "0 < c1" using c1 assms(2) by simp
      then have "ft < bus_horizon B" by (rule b1)
      then show ?thesis unfolding n using True assms(1) by (simp add: H_def)
    qed
  next
    case False
    then have c2: "c2 = count B bt" using assms(6) by simp
    have W: "W \<le> bt - ft" using step False by simp
    show ?thesis
    proof (cases "c2 < m")
      case True
      then have c1: "\<not> c1 < m" using assms(7) by simp
      then have n: "bt' = bt" "ft' = ft + W" using assms(8,9) True by simp_all
      have "0 < c1" using c1 assms(2) by simp
      then have "ft < bus_horizon B" by (rule b1)
      then have "2 * (H - bt) + 2 * (H - (ft + W)) + 1 < 2 * (H - bt) + 2 * (H - ft)"
        using assms(1) unfolding H_def by arith
      moreover have "ft + W \<le> bt" using W False assms(3) by arith
      ultimately show ?thesis unfolding n using dv(2) False by simp
    next
      case nb: False
      have "0 < count B bt" using nb c2 assms(2) by linarith
      then have lt: "bt < bus_horizon B" by (rule b2)
      have n: "bt' = bt + W" using assms(8) nb by simp
      show ?thesis
      proof (cases "ft' = ft")
        case True
        have "2 * (H - (bt + W)) + 2 * (H - ft) + 1 < 2 * (H - bt) + 2 * (H - ft)"
          using assms(1) lt unfolding H_def by arith
        then show ?thesis unfolding n True using dv(1) False assms(3) by simp
      next
        case nf: False
        then have f: "ft' = ft + W" using assms(9) by (auto split: if_splits)
        have "2 * (H - (bt + W)) + 2 * (H - (ft + W)) + 1 < 2 * (H - bt) + 2 * (H - ft)"
          using assms(1,3) lt unfolding H_def by arith
        then show ?thesis unfolding n f using assms(3,4) False by simp
      qed
    qed
  qed
qed

lemma multi_loop_spec:
  assumes "0 < W" "0 < m" "ft \<le> bt" "W dvd bt - ft"
  shows "\<exists>bt' ft' at'. multi_loop W B m sp bt ft at = Some (bt', ft', at') \<and> pair_placed B m bt' ft' \<and>
    bt \<le> bt' \<and> ft \<le> ft' \<and> W dvd bt' - bt \<and> at' = (if bt' = bt then at else bt') \<and>
    (W \<le> G \<and> sp \<le> G \<and> bt - ft \<le> G \<longrightarrow> bt' - ft' \<le> G)"
  using assms(3,4)
proof (induction "2 * (bus_horizon B + W - bt) + 2 * (bus_horizon B + W - ft) + (if bt = ft then 1 else 0 :: nat)"
    arbitrary: bt ft at rule: less_induct)
  case less
  define c1 where "c1 = count B ft"
  define c2 where "c2 = (if bt = ft then c1 + 1 else count B bt)"
  show ?case
  proof (cases "c1 < m \<and> c2 < m")
    case True
    have "multi_loop W B m sp bt ft at = Some (bt, ft, at)"
      unfolding multi_loop.simps[of W B m sp bt ft at] Let_def c1_def[symmetric] c2_def[symmetric] using True by simp
    moreover have "pair_placed B m bt ft" using True less.prems by (auto simp: pair_placed_def c1_def c2_def split: if_splits)
    ultimately show ?thesis by auto
  next
    case False
    define bt1 where "bt1 = (if c2 < m then bt else bt + W)"
    define g where "g = (bt \<noteq> ft \<and> sp < sub64 bt1 ft)"
    define ft1 where "ft1 = (if \<not> c1 < m \<or> (\<not> c2 < m \<and> g) then ft + W else ft)"
    define at1 where "at1 = (if c2 < m then at else bt1)"
    have eq: "multi_loop W B m sp bt ft at = multi_loop W B m sp bt1 ft1 at1"
      unfolding multi_loop.simps[of W B m sp bt ft at] Let_def c1_def[symmetric] c2_def[symmetric]
        bt1_def[symmetric] g_def[symmetric] ft1_def[symmetric] at1_def[symmetric] by (simp only: False if_False)
    have "g \<longrightarrow> bt \<noteq> ft" by (simp add: g_def)
    note step = multi_loop_measure[OF assms(1,2) less.prems c1_def c2_def False bt1_def ft1_def this]
    obtain bt' ft' at' where r: "multi_loop W B m sp bt1 ft1 at1 = Some (bt', ft', at')" "pair_placed B m bt' ft'"
      "bt1 \<le> bt'" "ft1 \<le> ft'" "W dvd bt' - bt1" "at' = (if bt' = bt1 then at1 else bt')"
      "W \<le> G \<and> sp \<le> G \<and> bt1 - ft1 \<le> G \<longrightarrow> bt' - ft' \<le> G"
      using less.hyps[of bt1 ft1 at1] step by blast
    have "W \<le> G \<and> sp \<le> G \<and> bt - ft \<le> G \<longrightarrow> bt1 - ft1 \<le> G"
    proof (cases "c2 < m \<or> ft1 = ft + W")
      case True
      then show ?thesis by (auto simp: bt1_def ft1_def)
    next
      case False
      then have "bt1 = bt + W" "ft1 = ft" "\<not> g" by (auto simp: bt1_def ft1_def split: if_splits)
      then show ?thesis using less.prems(1) by (auto simp: g_def sub64_le)
    qed
    then have gap: "W \<le> G \<and> sp \<le> G \<and> bt - ft \<le> G \<longrightarrow> bt' - ft' \<le> G" using r(7) by blast
    have "W dvd bt' - bt"
    proof (cases "c2 < m")
      case True
      then show ?thesis using r(5) by (simp add: bt1_def)
    next
      case False
      then have "bt' - bt = (bt' - bt1) + W" using r(3) by (simp add: bt1_def)
      then show ?thesis using r(5) by simp
    qed
    moreover have "bt \<le> bt1" "ft \<le> ft1" by (simp_all add: bt1_def ft1_def)
    moreover have "at' = (if bt' = bt then at else bt')"
      using r(3,6) assms(1) by (auto simp: bt1_def at1_def split: if_splits)
    ultimately show ?thesis using eq r(1-4) gap by (intro exI[of _ bt'] exI[of _ ft'] exI[of _ at']) simp
  qed
qed

section \<open>Properties\<close>

lemma verifySingleCmd_spec:
  fixes W cmd_tick :: nat
  assumes "0 < W" "0 < m" "\<forall>t. count B t \<le> m"
  defines "bt \<equiv> cmd_tick - cmd_tick mod W"
  shows "\<exists>n B' at. verifySingleCmd W B cmd_tick m = Some (Inr (B', at)) \<and> cmd_tick \<le> at \<and>
    at - at mod W = bt + n * W \<and> (\<forall>i<n. count B (bt + i * W) = m) \<and>
    B' = add_mset (bt + n * W) B \<and> (\<forall>t. count B' t \<le> m)"
proof -
  obtain n where n: "single_loop W B m bt cmd_tick = Some (bt + n * W, if n = 0 then cmd_tick else bt + n * W)"
    "count B (bt + n * W) < m" "\<forall>i<n. m \<le> count B (bt + i * W)"
    using single_loop_spec[OF assms(1,2)] by blast
  let ?at = "if n = 0 then cmd_tick else bt + n * W"
  have bt: "bt mod W = 0" "cmd_tick < bt + W"
    using assms(1) by (simp_all add: bt_def minus_mod_eq_mult_div)
      (metis add.commute assms(1) less_add_same_cancel1 mod_less_divisor mod_mult_div_eq nat_add_left_cancel_less)
  have "cmd_tick \<le> ?at"
  proof (cases n)
    case (Suc k)
    then have "bt + W \<le> bt + n * W" by simp
    then show ?thesis using bt(2) Suc by simp
  qed simp
  moreover have "?at - ?at mod W = bt + n * W"
    using bt(1) by (cases "n = 0") (simp_all add: bt_def[symmetric] mod_add_eq[of bt W "n * W", symmetric])
  moreover have "\<forall>i<n. count B (bt + i * W) = m" using n(3) assms(3) by (metis le_antisym)
  moreover have "\<forall>t. count (add_mset (bt + n * W) B) t \<le> m" using n(2) assms(3) by (simp add: Suc_leI)
  moreover have "verifySingleCmd W B cmd_tick m = Some (Inr (add_mset (bt + n * W) B, ?at))"
    using n(1) assms(1) by (simp add: verifySingleCmd_def getBurstWindow_def Let_def bt_def)
  ultimately show ?thesis by blast
qed

text \<open>\<open>verifySingleCmd\<close> returns, at a tick no earlier than asked: the command goes into the first
  window from the asked one on that has room (every earlier one is full), at the asked tick if that is
  its window and at the start of the window otherwise, and no window gets more than the permitted
  commands.\<close>

theorem verify_single_cmd_first_slot:
  fixes W cmd_tick :: nat
  assumes "0 < W" "0 < m" "\<forall>t. count B t \<le> m"
  defines "bt \<equiv> cmd_tick - cmd_tick mod W"
  shows "\<exists>n B' at. verifySingleCmd W B cmd_tick m = Some (Inr (B', at)) \<and> cmd_tick \<le> at \<and>
    at - at mod W = bt + n * W \<and> (\<forall>i<n. count B (bt + i * W) = m) \<and>
    B' = add_mset (bt + n * W) B \<and> (\<forall>t. count B' t \<le> m)"
  using verifySingleCmd_spec[OF assms(1-3), of cmd_tick] unfolding bt_def .

theorem verify_single_cmd_first_slot_witness:
  "\<exists>B' at. verifySingleCmd 10 {#20, 20, 30#} 25 2 = Some (Inr (B', at)) \<and> 25 \<le> at \<and> (\<forall>t. count B' t \<le> 2)"
proof -
  have b: "\<forall>t. count {#20, 20, 30 :: nat#} t \<le> 2" by auto
  have W: "0 < (10 :: nat)" "0 < (2 :: nat)" by simp_all
  show ?thesis using verify_single_cmd_first_slot[OF W b, of 25] by blast
qed

lemma verifyMultiCmd_spec:
  assumes "0 < W" "0 < m" "\<forall>t. count B t \<le> m"
  shows "\<exists>B' at ft bt. verifyMultiCmd W B cmd_tick m max_split = Some (Inr (B', at)) \<and> cmd_tick \<le> at \<and>
    ft \<le> bt \<and> bt \<le> at \<and> at < bt + W \<and> bt - ft \<le> max W (max_split + W - 1) \<and>
    B' = add_mset ft (add_mset bt B) \<and> (\<forall>t. count B' t \<le> m)"
proof -
  let ?bt = "cmd_tick - cmd_tick mod W"
  obtain k where k: "split_loop W max_split (cmd_tick mod W) 0 = Some (k * W)"
    and gap0: "k = 0 \<or> cmd_tick mod W + k * W < max_split + W"
    using split_loop_returns[OF assms(1), of max_split "cmd_tick mod W" 0] by auto
  let ?ft = "?bt - min (k * W) ?bt"
  have dv: "W dvd ?bt" by (simp add: minus_mod_eq_mult_div)
  have "?bt - ?ft = min (k * W) ?bt" by simp
  then have d: "W dvd ?bt - ?ft" "?ft \<le> ?bt" using dv by (auto simp only: min_def dvd_triv_right split: if_splits)
  obtain bt ft at where r: "multi_loop W B m max_split ?bt ?ft cmd_tick = Some (bt, ft, at)" "pair_placed B m bt ft"
    "?bt \<le> bt" "W dvd bt - ?bt" "at = (if bt = ?bt then cmd_tick else bt)"
    "W \<le> max W (max_split + W - 1) \<and> max_split \<le> max W (max_split + W - 1) \<and> ?bt - ?ft \<le> max W (max_split + W - 1) \<longrightarrow>
       bt - ft \<le> max W (max_split + W - 1)"
    using multi_loop_spec[OF assms(1,2) d(2,1)] by blast
  have "?bt - ?ft \<le> k * W" by simp
  also have "k * W \<le> max W (max_split + W - 1)" using gap0 by auto
  finally have "bt - ft \<le> max W (max_split + W - 1)" using r(6) assms(1) by simp
  note gap = this
  have off: "cmd_tick < ?bt + W" "?bt \<le> cmd_tick"
    using mod_less_divisor[OF assms(1), of cmd_tick] mod_less_eq_dividend[of cmd_tick W] by linarith+
  have at: "cmd_tick \<le> at" "bt \<le> at" "at < bt + W"
  proof -
    have "W \<le> bt - ?bt" if "bt \<noteq> ?bt" using r(3,4) that by (intro dvd_imp_le) simp_all
    then show "cmd_tick \<le> at" "bt \<le> at" "at < bt + W" using r(3,5) off assms(1) by (auto split: if_splits)
  qed
  have "\<forall>t. count (add_mset ft (add_mset bt B)) t \<le> m"
    using r(2) assms(3) by (auto simp: pair_placed_def Suc_le_eq split: if_splits)
  moreover have "verifyMultiCmd W B cmd_tick m max_split = Some (Inr (add_mset ft (add_mset bt B), at))"
    using k r(1) assms(1) by (simp add: verifyMultiCmd_def getBurstWindow_def Let_def)
  ultimately show ?thesis using at r(2) gap by (auto simp: pair_placed_def)
qed

text \<open>C26: \<open>verifyMultiCmd\<close> returns, whatever is on the bus: the second command issues no earlier than
  asked, the first in the same or an earlier window, the two windows start at most the permitted split
  rounded up by less than a window apart (one window when no split is permitted), and with both added no
  window holds more than the permitted commands.\<close>

theorem verify_multi_cmd_places_pair:
  assumes "0 < W" "0 < m" "\<forall>t. count B t \<le> m"
  shows "\<exists>B' at ft bt. verifyMultiCmd W B cmd_tick m max_split = Some (Inr (B', at)) \<and> cmd_tick \<le> at \<and>
    ft \<le> bt \<and> bt \<le> at \<and> at < bt + W \<and> bt - ft \<le> max W (max_split + W - 1) \<and>
    B' = add_mset ft (add_mset bt B) \<and> (\<forall>t. count B' t \<le> m)"
  by (rule verifyMultiCmd_spec[OF assms])

theorem verify_multi_cmd_places_pair_witness:
  "\<exists>B' at. verifyMultiCmd 10 {#20, 10#} 25 1 12 = Some (Inr (B', at)) \<and> 25 \<le> at \<and> (\<forall>t. count B' t \<le> 1)"
proof -
  have b: "\<forall>t. count {#20, 10 :: nat#} t \<le> 1" by auto
  have W: "0 < (10 :: nat)" "0 < (1 :: nat)" by simp_all
  show ?thesis using verify_multi_cmd_places_pair[OF W b, of 25 12] by blast
qed

end
