(* ===== verification/Addr_Range.thy ===== *)
theory Addr_Range
  imports Pride_Base
begin

text \<open>
  \<open>AddrRange\<close> (\<open>base/addr_range.hh\<close>) with the bit functions it uses (\<open>base/bitfield.hh\<close>): the address
  range of a memory channel, possibly interleaved with other channels on some address bits.  A mask per
  interleaving bit selects the address bits whose parity must match; \<open>getOffset\<close> takes the lowest bit of
  every mask out of the address.  The lemmas show that within the range nothing is lost by that.
\<close>

unbundle bit_operations_syntax

section \<open>Bits\<close>

text \<open>\<open>ctz64\<close> answers 64 for 0.\<close>

fun ctz64 :: "nat \<Rightarrow> nat" where
  "ctz64 n = (if n = 0 then 64 else if odd n then 0 else Suc (ctz64 (n div 2)))"

fun popCount :: "nat \<Rightarrow> nat" where
  "popCount n = (if n = 0 then 0 else n mod 2 + popCount (n div 2))"

declare ctz64.simps [simp del] popCount.simps [simp del]

lemmas bits_eval = ctz64.simps[of "numeral _"] ctz64.simps[of "Suc 0"] popCount.simps[of "numeral _"] popCount.simps[of "Suc 0"]
  popCount.simps[of 0]

text \<open>\<open>insertBits(val, first, last, b)\<close> with signed bit positions.\<close>

definition insertBits :: "addr \<Rightarrow> int \<Rightarrow> nat \<Rightarrow> addr \<Rightarrow> addr result" where
  "insertBits val first last0 b =
     (if \<not> 0 \<le> first - int last0 then Inl AssertFail
      else let bmask = push_bit last0 (mask (nat (first - int last0 + 1)))
           in Inr ((push_bit last0 b AND bmask) OR (val - (val AND bmask))))"

section \<open>Ranges\<close>

record addr_range =
  ar_start :: addr
  ar_end :: addr
  ar_masks :: "addr list"
  ar_intlvMatch :: nat

text \<open>The constructors: a plain range, one with masks, and the one with bit positions, which builds the
  masks and takes every other bit of each mask from \<open>xor_high_bit\<close> down when that is not 0.\<close>

definition range_plain :: "addr \<Rightarrow> addr \<Rightarrow> addr_range" where
  "range_plain a e = \<lparr>ar_start = a, ar_end = e, ar_masks = [], ar_intlvMatch = 0\<rparr>"

definition range_masked :: "addr \<Rightarrow> addr \<Rightarrow> addr list \<Rightarrow> nat \<Rightarrow> addr_range result" where
  "range_masked a e masks match =
     (if masks \<noteq> [] \<and> 2 ^ length masks \<le> match then Inl FatalExit
      else Inr \<lparr>ar_start = a, ar_end = e, ar_masks = masks, ar_intlvMatch = match\<rparr>)"

definition sub8 :: "nat \<Rightarrow> nat \<Rightarrow> nat" where
  "sub8 a b = nat ((int a - int b) mod 256)"

definition intlv_mask :: "nat \<Rightarrow> nat \<Rightarrow> nat \<Rightarrow> addr" where
  "intlv_mask intlv_high_bit xor_high_bit i =
     (let m = 2 ^ sub8 intlv_high_bit i in if xor_high_bit \<noteq> 0 then m OR 2 ^ sub8 xor_high_bit i else m)"

definition range_bits :: "addr \<Rightarrow> addr \<Rightarrow> nat \<Rightarrow> nat \<Rightarrow> nat \<Rightarrow> nat \<Rightarrow> addr_range result" where
  "range_bits a e intlv_high_bit xor_high_bit intlv_bits match =
     (if intlv_bits \<noteq> 0 \<and> 2 ^ intlv_bits \<le> match then Inl FatalExit
      else if intlv_bits \<noteq> 0 \<and> xor_high_bit \<noteq> 0 \<and>
        (xor_high_bit = intlv_high_bit \<or> (intlv_high_bit < xor_high_bit \<and> xor_high_bit - intlv_high_bit < intlv_bits) \<or>
         (xor_high_bit < intlv_high_bit \<and> intlv_high_bit - xor_high_bit < intlv_bits)) then Inl FatalExit
      else Inr \<lparr>ar_start = a, ar_end = e,
                ar_masks = rev (map (intlv_mask intlv_high_bit xor_high_bit) [0..<intlv_bits]), ar_intlvMatch = match\<rparr>)"

definition interleaved :: "addr_range \<Rightarrow> bool" where
  "interleaved r \<longleftrightarrow> ar_masks r \<noteq> []"

definition range_size :: "addr_range \<Rightarrow> nat" where
  "range_size r = drop_bit (length (ar_masks r)) (sub64 (ar_end r) (ar_start r))"

text \<open>The masks are combined in an \<open>int\<close>, so only their low 32 bits count; without any the shift by 64 is
  undefined.\<close>

definition granularity :: "addr_range \<Rightarrow> nat result" where
  "granularity r =
     (if interleaved r
      then let lowest_bit = ctz64 (fold (\<lambda>m c. u32 (c OR m)) (ar_masks r) 0)
           in if lowest_bit = 64 then Inl OutOfBounds else Inr (2 ^ lowest_bit)
      else Inr (range_size r))"

definition valid_range :: "addr_range \<Rightarrow> bool" where
  "valid_range r \<longleftrightarrow> ar_start r \<le> ar_end r"

definition mergesWith :: "addr_range \<Rightarrow> addr_range \<Rightarrow> bool" where
  "mergesWith r s \<longleftrightarrow> ar_start s = ar_start r \<and> ar_end s = ar_end r \<and> ar_masks s = ar_masks r"

text \<open>The bits that select the channel of an address.\<close>

fun intlv_select :: "addr list \<Rightarrow> addr \<Rightarrow> nat" where
  "intlv_select [] a = 0"
| "intlv_select (m # ms) a = popCount (a AND m) mod 2 + 2 * intlv_select ms a"

definition range_contains :: "addr_range \<Rightarrow> addr \<Rightarrow> bool" where
  "range_contains r a \<longleftrightarrow> ar_start r \<le> a \<and> a < ar_end r \<and> intlv_select (ar_masks r) a = ar_intlvMatch r"

definition intersects :: "addr_range \<Rightarrow> addr_range \<Rightarrow> bool result" where
  "intersects r s =
     (if ar_end s \<le> ar_start r \<or> ar_end r \<le> ar_start s then Inr False
      else if \<not> interleaved r \<and> \<not> interleaved s then Inr True
      else if range_size s = 1 then Inr (range_contains r (ar_start s))
      else if mergesWith r s then Inr (ar_intlvMatch r = ar_intlvMatch s)
      else Inl PanicFail)"

definition isSubset :: "addr_range \<Rightarrow> addr_range \<Rightarrow> bool result" where
  "isSubset r s =
     (if interleaved r then Inl PanicFail
      else if \<not> interleaved s then Inr (ar_start s \<le> ar_start r \<and> ar_end r \<le> ar_end s)
      else if \<not> (range_contains s (ar_start r) \<and> range_contains s (sub64 (ar_end r) 1)) then Inr False
      else rbind (granularity s) (\<lambda>g. Inr (range_size r \<le> g)))"

text \<open>The check \<open>AbstractMemory::access\<close> makes before it touches its memory (\<open>mem/abstract_mem.cc\<close>): the
  bytes of the packet lie in the range of the memory.\<close>

definition within_range :: "addr_range \<Rightarrow> addr \<Rightarrow> nat \<Rightarrow> unit result" where
  "within_range mem a n =
     rbind (isSubset (range_plain a (a + n)) mem) (\<lambda>inside. if \<not> inside then Inl AssertFail else Inr ())"

text \<open>The constructor that merges the ranges of all channels.\<close>

fun merge_checks :: "addr_range \<Rightarrow> nat \<Rightarrow> addr_range list \<Rightarrow> unit result" where
  "merge_checks self match [] = Inr ()"
| "merge_checks self match (r # rs) =
     (if \<not> mergesWith self r then Inl FatalExit
      else if ar_intlvMatch r \<noteq> match then Inl FatalExit else merge_checks self ((match + 1) mod 256) rs)"

definition range_merge :: "addr_range list \<Rightarrow> addr_range result" where
  "range_merge ranges =
     (case ranges of [] \<Rightarrow> Inr (range_plain 1 0)
      | [r] \<Rightarrow> Inr r
      | r # rs \<Rightarrow> if length ranges \<noteq> 2 ^ length (ar_masks r) then Inl FatalExit
          else rbind (merge_checks r 0 ranges) (\<lambda>_. Inr (r\<lparr>ar_masks := [], ar_intlvMatch := 0\<rparr>)))"

section \<open>Offsets\<close>

definition masks_lsb :: "addr_range \<Rightarrow> nat list" where
  "masks_lsb r = sort (map ctz64 (ar_masks r))"

fun remove_bits :: "nat \<Rightarrow> nat list \<Rightarrow> addr \<Rightarrow> addr result" where
  "remove_bits i [] a = Inr a"
| "remove_bits i (l # ls) a =
     rbind (if 0 < l then insertBits (a div 2) (int l - int i - 1) 0 a else Inr (a div 2)) (remove_bits (i + 1) ls)"

definition removeIntlvBits :: "addr_range \<Rightarrow> addr \<Rightarrow> addr result" where
  "removeIntlvBits r a = remove_bits 0 (masks_lsb r) a"

fun add_bits :: "nat \<Rightarrow> nat list \<Rightarrow> addr \<Rightarrow> addr result" where
  "add_bits i [] a = Inr a"
| "add_bits i (l # ls) a =
     rbind (if 0 < l then insertBits (u64 (2 * a)) (int l + int i - 1) 0 a else Inr (u64 (2 * a))) (add_bits (i + 1) ls)"

text \<open>\<open>1 << lsb\<close> is an \<open>int\<close>; the lowest bit of a mask is below 31 for every interleaving in use.\<close>

fun set_select :: "nat \<Rightarrow> addr list \<Rightarrow> addr \<Rightarrow> addr result" where
  "set_select match [] a = Inr a"
| "set_select match (m # ms) a =
     (let lsb = ctz64 m; masked = a AND m; masked' = masked - (masked AND 2 ^ lsb)
      in rbind (insertBits a (int lsb) lsb ((match mod 2) XOR popCount masked')) (set_select (match div 2) ms))"

definition addIntlvBits :: "addr_range \<Rightarrow> addr \<Rightarrow> addr result" where
  "addIntlvBits r a = rbind (add_bits 0 (masks_lsb r) a) (set_select (ar_intlvMatch r) (ar_masks r))"

definition MaxAddr :: addr where "MaxAddr = 2 ^ 64 - 1"

definition getOffset :: "addr_range \<Rightarrow> addr \<Rightarrow> addr result" where
  "getOffset r a =
     (if \<not> (ar_start r \<le> a \<and> a < ar_end r) then Inr MaxAddr
      else if interleaved r
      then rbind (removeIntlvBits r a) (\<lambda>x. rbind (removeIntlvBits r (ar_start r)) (\<lambda>y. Inr (sub64 x y)))
      else Inr (a - ar_start r))"


section \<open>Removing bits\<close>

text \<open>An address without its bit \<open>p\<close>.\<close>

definition del :: "nat \<Rightarrow> addr \<Rightarrow> addr" where
  "del p a = take_bit p a OR push_bit p (drop_bit (Suc p) a)"

lemma bit_del: "bit (del p a) k = (if k < p then bit a k else bit a (Suc k))"
  by (auto simp: del_def bit_or_iff bit_take_bit_iff bit_push_bit_iff bit_drop_bit_eq)

lemma insert_del: "0 < p \<Longrightarrow> insertBits (a div 2) (int p - 1) 0 a = Inr (del p a)"
proof -
  assume p: "0 < p"
  have v: "v - (v AND mask p) = push_bit p (drop_bit p v)" for v :: nat
    by (simp add: take_bit_eq_mask[symmetric] take_bit_eq_mod push_bit_eq_mult drop_bit_eq_div minus_mod_eq_div_mult)
  have d: "drop_bit p (a div 2) = drop_bit (Suc p) a" by (simp add: drop_bit_Suc)
  show ?thesis using p by (simp add: insertBits_def Let_def v d del_def take_bit_eq_mask)
qed

fun dels :: "nat \<Rightarrow> nat list \<Rightarrow> addr \<Rightarrow> addr" where
  "dels i [] a = a"
| "dels i (l # ls) a = dels (i + 1) ls (del (l - i) a)"

lemma remove_bits_dels:
  assumes "sorted_wrt (<) ls" "\<forall>l\<in>set ls. i < l"
  shows "remove_bits i ls a = Inr (dels i ls a)"
  using assms
proof (induction ls arbitrary: i a)
  case (Cons l ls)
  have l: "i < l" "int l - int i - 1 = int (l - i) - 1" using Cons.prems(2) by simp_all
  have "\<forall>x\<in>set ls. i + 1 < x" using Cons.prems l(1) by fastforce
  then show ?case using Cons l insert_del[of "l - i" a] by simp
qed simp

text \<open>What is left tells all other bits.\<close>

lemma dels_bits:
  assumes "sorted_wrt (<) ls" "\<forall>l\<in>set ls. i < l" "dels i ls a = dels i ls b" "k + i \<notin> set ls"
  shows "bit a k = bit b k"
  using assms
proof (induction ls arbitrary: i a b k)
  case (Cons l ls)
  have il: "i < l" and ls: "sorted_wrt (<) ls" "\<forall>x\<in>set ls. l < x" using Cons.prems(1,2) by auto
  then have i1: "\<forall>x\<in>set ls. i + 1 < x" by fastforce
  have d: "dels (i + 1) ls (del (l - i) a) = dels (i + 1) ls (del (l - i) b)" using Cons.prems(3) by simp
  have IH: "bit (del (l - i) a) j = bit (del (l - i) b) j" if "j + (i + 1) \<notin> set ls" for j
    by (rule Cons.IH[OF ls(1) i1 d that])
  show ?case
  proof (cases "k < l - i")
    case True
    then have "k + (i + 1) \<notin> set ls" using ls(2) il by fastforce
    from IH[OF this] show ?thesis using True by (simp add: bit_del)
  next
    case False
    then obtain j where j: "k = Suc j" "\<not> j < l - i"
      using Cons.prems(4) il by (cases k) (auto simp: less_Suc_eq)
    then have "j + (i + 1) \<notin> set ls" using Cons.prems(4) by simp
    from IH[OF this] show ?thesis using j by (simp add: bit_del)
  qed
qed simp

lemma bit_set_Suc: "{k. bit (a :: nat) k} = (if odd a then {0} else {}) \<union> Suc ` {k. bit (a div 2) k}"
proof -
  have "k \<in> {k. bit a k} \<longleftrightarrow> k \<in> (if odd a then {0} else {}) \<union> Suc ` {k. bit (a div 2) k}" for k
    by (cases k) (auto simp: bit_0 bit_Suc)
  then show ?thesis by blast
qed

lemma popCount_card: "finite {k. bit a k} \<and> popCount a = card {k. bit a k}"
proof (induction a rule: popCount.induct)
  case (1 n)
  show ?case
  proof (cases "n = 0")
    case True
    then show ?thesis by (simp add: popCount.simps[of 0])
  next
    case False
    let ?S = "{k. bit (n div 2) k}"
    have IH: "finite ?S" "popCount (n div 2) = card ?S" using "1.IH"[OF False] by simp_all
    have c: "card (Suc ` ?S) = card ?S" by (intro card_image) simp
    have "popCount n = n mod 2 + card ?S" using False IH(2) by (simp add: popCount.simps[of n])
    moreover have "0 \<notin> Suc ` ?S" by simp
    ultimately show ?thesis unfolding bit_set_Suc[of n] using IH(1) c by (cases "odd n") (simp_all add: odd_iff_mod_2_eq_one)
  qed
qed

lemma ctz64_bit: "m \<noteq> 0 \<Longrightarrow> bit m (ctz64 m)"
proof (induction m rule: ctz64.induct)
  case (1 n)
  show ?case
  proof (cases "odd n")
    case True
    then show ?thesis using 1(2) by (simp add: ctz64.simps[of n] bit_0)
  next
    case False
    then have "n div 2 \<noteq> 0" using 1(2) by (auto simp: div_eq_0_iff elim: evenE)
    then show ?thesis using "1.IH"[OF 1(2) _ _] False 1(2) by (simp add: ctz64.simps[of n] bit_Suc)
  qed
qed

text \<open>One bit of a mask is determined by the parity and the other bits.\<close>

lemma parity_bit:
  assumes "bit m l" "\<And>k. bit m k \<Longrightarrow> k \<noteq> l \<Longrightarrow> bit a k = bit b k" "popCount (a AND m) mod 2 = popCount (b AND m) mod 2"
  shows "bit a l = bit b l"
proof -
  let ?R = "{k. k \<noteq> l \<and> bit m k \<and> bit b k}"
  have fin: "finite {k. bit (m :: nat) k}" using popCount_card by blast
  have f: "finite ?R" by (rule finite_subset[OF _ fin]) auto
  have "{k. bit (a AND m) k} = (if bit a l then insert l ?R else ?R)" "{k. bit (b AND m) k} = (if bit b l then insert l ?R else ?R)"
    using assms(1,2) by (auto simp: bit_and_iff)
  then have "popCount (a AND m) = card ?R + of_bool (bit a l)" "popCount (b AND m) = card ?R + of_bool (bit b l)"
    using popCount_card[of "a AND m"] popCount_card[of "b AND m"] f by simp_all
  then show ?thesis using assms(3) by (cases "bit a l"; cases "bit b l") (simp_all, presburger+)
qed

text \<open>Masks as the constructors make them: each has a lowest bit of its own, above bit 0, which no other
  mask has.\<close>

definition masks_ok :: "addr list \<Rightarrow> bool" where
  "masks_ok ms \<longleftrightarrow> (\<forall>m\<in>set ms. m \<noteq> 0) \<and> distinct (map ctz64 ms) \<and> (\<forall>l\<in>set (map ctz64 ms). 0 < l \<and> l < 64) \<and>
     (\<forall>m\<in>set ms. \<forall>l\<in>set (map ctz64 ms). bit m l \<longrightarrow> l = ctz64 m)"

lemma removeIntlvBits_dels:
  assumes "masks_ok (ar_masks r)"
  shows "removeIntlvBits r a = Inr (dels 0 (masks_lsb r) a)" "sorted_wrt (<) (masks_lsb r)" "\<forall>l\<in>set (masks_lsb r). 0 < l"
proof -
  show s: "sorted_wrt (<) (masks_lsb r)" and z: "\<forall>l\<in>set (masks_lsb r). 0 < l"
    using assms by (simp_all add: masks_lsb_def masks_ok_def strict_sorted_iff)
  show "removeIntlvBits r a = Inr (dels 0 (masks_lsb r) a)" unfolding removeIntlvBits_def by (rule remove_bits_dels[OF s z])
qed

lemma intlv_select_nth:
  "intlv_select ms a = intlv_select ms b \<Longrightarrow> m \<in> set ms \<Longrightarrow> popCount (a AND m) mod 2 = popCount (b AND m) mod 2"
proof (induction ms)
  case (Cons x ms)
  let ?p = "\<lambda>a. popCount (a AND x) mod 2"
  have e: "?p a + 2 * intlv_select ms a = ?p b + 2 * intlv_select ms b" using Cons.prems(1) by simp
  have "?p a = (?p a + 2 * intlv_select ms a) mod 2" "?p b = (?p b + 2 * intlv_select ms b) mod 2" by simp_all
  then have p: "?p a = ?p b" using e by metis
  then show ?case using Cons e by auto
qed simp

lemma dels_select_inj:
  assumes "masks_ok (ar_masks r)" "dels 0 (masks_lsb r) a = dels 0 (masks_lsb r) b"
    and "intlv_select (ar_masks r) a = intlv_select (ar_masks r) b"
  shows "a = b"
proof (rule bit_eqI)
  fix k
  note R = removeIntlvBits_dels[OF assms(1)]
  have other: "bit a j = bit b j" if "j \<notin> set (masks_lsb r)" for j
    by (rule dels_bits[OF R(2,3) assms(2)]) (use that in simp)
  show "bit a k = bit b k"
  proof (cases "k \<in> set (masks_lsb r)")
    case True
    then obtain m where m: "m \<in> set (ar_masks r)" "k = ctz64 m" by (auto simp: masks_lsb_def)
    have "m \<noteq> 0" using assms(1) m(1) unfolding masks_ok_def by blast
    then have "bit m k" unfolding m(2) by (rule ctz64_bit)
    moreover have "bit a j = bit b j" if "bit m j" "j \<noteq> k" for j
    proof (rule other)
      have "j \<noteq> ctz64 m" using that(2) m(2) by simp
      then show "j \<notin> set (masks_lsb r)" using assms(1) m(1) that(1) unfolding masks_ok_def masks_lsb_def set_sort by blast
    qed
    ultimately show ?thesis using parity_bit[OF _ _ intlv_select_nth[OF assms(3) m(1)], of k] by blast
  qed (rule other)
qed


text \<open>Within aligned bounds.\<close>

lemma del_arith: "del p a = a div 2 ^ Suc p * 2 ^ p + a mod 2 ^ p"
proof -
  have "del p a = take_bit p a + push_bit p (drop_bit (Suc p) a)"
    unfolding del_def by (rule disjunctive_add[symmetric]) (auto simp: bit_take_bit_iff bit_push_bit_iff)
  then show ?thesis by (simp add: take_bit_eq_mod push_bit_eq_mult drop_bit_eq_div)
qed

lemma del_bounds:
  assumes "2 ^ Suc p dvd s" "2 ^ Suc p dvd e" "s \<le> a" "a < e"
  shows "del p s = s div 2" "s div 2 \<le> del p a" "del p a < e div 2"
proof -
  obtain x where x: "s = 2 ^ Suc p * x" using assms(1) by blast
  obtain y where y: "e = 2 ^ Suc p * y" using assms(2) by blast
  let ?q = "a div 2 ^ Suc p"
  have "x * 2 ^ Suc p \<le> a" using assms(3) x by (simp add: mult.commute)
  then have q1: "x \<le> ?q" by (simp add: less_eq_div_iff_mult_less_eq)
  have "a < y * 2 ^ Suc p" using assms(4) y by (simp add: mult.commute)
  then have q2: "?q < y" by (simp add: div_less_iff_less_mult)
  have h: "s div 2 = x * 2 ^ p" "e div 2 = y * 2 ^ p" by (simp_all add: x y)
  have "s mod 2 ^ p = 0" by (simp add: x)
  then show "del p s = s div 2" unfolding del_arith h by (simp add: x)
  show "s div 2 \<le> del p a" unfolding del_arith h using q1 by (simp add: trans_le_add1)
  have "?q * 2 ^ p + a mod 2 ^ p < Suc ?q * 2 ^ p" by simp
  also have "\<dots> \<le> y * 2 ^ p" using q2 by (intro mult_le_mono1) simp
  finally show "del p a < e div 2" unfolding del_arith h .
qed

lemma dels_bounds:
  assumes "sorted_wrt (<) ls" "\<forall>l\<in>set ls. i < l \<and> 2 ^ (l - i + 1) dvd s \<and> 2 ^ (l - i + 1) dvd e" "s \<le> a" "a < e"
  shows "dels i ls s = s div 2 ^ length ls \<and> s div 2 ^ length ls \<le> dels i ls a \<and> dels i ls a < e div 2 ^ length ls"
  using assms
proof (induction ls arbitrary: i s e a)
  case (Cons l ls)
  have l: "2 ^ Suc (l - i) dvd s" "2 ^ Suc (l - i) dvd e" "i < l" using Cons.prems(2) by simp_all
  note D = del_bounds[OF l(1,2) Cons.prems(3,4)]
  have half: "2 ^ (x - (i + 1) + 1) dvd t div 2" if "2 ^ (x - i + 1) dvd t" "i + 1 < x" for x t :: nat
  proof -
    have "x - i + 1 = Suc (x - (i + 1) + 1)" using that(2) by simp
    then have "2 * 2 ^ (x - (i + 1) + 1) dvd t" using that(1) by simp
    then obtain c where "t = 2 * 2 ^ (x - (i + 1) + 1) * c" by (rule dvdE)
    then have "t div 2 = 2 ^ (x - (i + 1) + 1) * c" by simp
    then show ?thesis by (rule dvdI)
  qed
  have "\<forall>x\<in>set ls. i + 1 < x \<and> 2 ^ (x - (i + 1) + 1) dvd s div 2 \<and> 2 ^ (x - (i + 1) + 1) dvd e div 2"
  proof
    fix x assume x: "x \<in> set ls"
    then have "l < x" using Cons.prems(1) by simp
    then have "i + 1 < x" using l(3) by simp
    then show "i + 1 < x \<and> 2 ^ (x - (i + 1) + 1) dvd s div 2 \<and> 2 ^ (x - (i + 1) + 1) dvd e div 2"
      using half Cons.prems(2) x by simp
  qed
  then have "dels (i + 1) ls (s div 2) = s div 2 div 2 ^ length ls \<and> s div 2 div 2 ^ length ls \<le> dels (i + 1) ls (del (l - i) a) \<and>
      dels (i + 1) ls (del (l - i) a) < e div 2 div 2 ^ length ls"
    using Cons.IH[OF _ _ D(2,3), of "i + 1"] Cons.prems(1) by simp
  then show ?case using D(1) by (simp add: div_mult2_eq[symmetric])
qed simp

text \<open>The bounds are aligned above every interleaving bit.\<close>

definition range_wf :: "addr_range \<Rightarrow> bool" where
  "range_wf r \<longleftrightarrow> ar_start r < ar_end r \<and> ar_end r < 2 ^ 64 \<and> masks_ok (ar_masks r) \<and>
     (\<forall>l\<in>set (map ctz64 (ar_masks r)). 2 ^ (l + 1) dvd ar_start r \<and> 2 ^ (l + 1) dvd ar_end r)"

lemma getOffset_dels:
  assumes "range_wf r" "range_contains r a"
  shows "getOffset r a = Inr (dels 0 (masks_lsb r) a - ar_start r div 2 ^ length (ar_masks r))"
    "ar_start r div 2 ^ length (ar_masks r) \<le> dels 0 (masks_lsb r) a"
    "dels 0 (masks_lsb r) a < ar_end r div 2 ^ length (ar_masks r)"
proof -
  have r: "ar_start r < ar_end r" "masks_ok (ar_masks r)"
    "\<forall>l\<in>set (masks_lsb r). 2 ^ (l - 0 + 1) dvd ar_start r \<and> 2 ^ (l - 0 + 1) dvd ar_end r" "length (masks_lsb r) = length (ar_masks r)"
    using assms(1) by (simp_all add: range_wf_def masks_lsb_def)
  note R = removeIntlvBits_dels[OF r(2)]
  have a: "ar_start r \<le> a" "a < ar_end r" using assms(2) by (simp_all add: range_contains_def)
  have "\<forall>l\<in>set (masks_lsb r). 0 < l \<and> 2 ^ (l - 0 + 1) dvd ar_start r \<and> 2 ^ (l - 0 + 1) dvd ar_end r" using R(3) r(3) by blast
  note B = dels_bounds[OF R(2) this a, unfolded r(4)]
  then show "ar_start r div 2 ^ length (ar_masks r) \<le> dels 0 (masks_lsb r) a" "dels 0 (masks_lsb r) a < ar_end r div 2 ^ length (ar_masks r)"
    by simp_all
  show "getOffset r a = Inr (dels 0 (masks_lsb r) a - ar_start r div 2 ^ length (ar_masks r))"
  proof (cases "interleaved r")
    case True
    then show ?thesis using a B R(1) by (simp add: getOffset_def sub64_def)
  next
    case False
    then show ?thesis using a by (simp add: getOffset_def interleaved_def masks_lsb_def)
  qed
qed

lemma sorted_last_ge: "sorted_wrt (<) ls \<Longrightarrow> ls \<noteq> [] \<Longrightarrow> \<forall>l\<in>set ls. i < l \<Longrightarrow> i + length ls \<le> last ls"
proof (induction ls arbitrary: i)
  case (Cons l ls)
  then show ?case using Cons.IH[of l] by (cases ls) fastforce+
qed simp

lemma div_diff_aligned: "m dvd (s :: nat) \<Longrightarrow> s \<le> e \<Longrightarrow> e div m - s div m = (e - s) div m"
  by (metis div_add dvd_add_triv_left_iff le_add_diff_inverse add_diff_cancel_left' div_plus_div_distrib_dvd_left)

lemma getOffset_ok:
  assumes "range_wf r" "range_contains r a"
  shows "\<exists>x. getOffset r a = Inr x \<and> x < range_size r"
proof -
  let ?n = "length (ar_masks r)"
  have r: "ar_start r < ar_end r" "masks_ok (ar_masks r)" "length (masks_lsb r) = ?n"
    "\<forall>l\<in>set (masks_lsb r). 2 ^ (l + 1) dvd ar_start r" using assms(1) by (simp_all add: range_wf_def masks_lsb_def)
  have "2 ^ ?n dvd ar_start r"
  proof (cases "masks_lsb r = []")
    case False
    then have "?n \<le> last (masks_lsb r) + 1" using sorted_last_ge[OF _ False, of 0] removeIntlvBits_dels(2,3)[OF r(2)] r(3) by simp
    then show ?thesis using r(4) False by (meson dvd_trans last_in_set le_imp_power_dvd)
  qed (use r(3) in simp)
  then have "ar_end r div 2 ^ ?n - ar_start r div 2 ^ ?n = (ar_end r - ar_start r) div 2 ^ ?n"
    using r(1) by (simp add: div_diff_aligned)
  then show ?thesis using getOffset_dels[OF assms] r(1) by (simp add: range_size_def sub64_def drop_bit_eq_div)
qed

text \<open>An address outside the range has an offset too, without a fault.\<close>

lemma getOffset_total: "range_wf r \<Longrightarrow> \<exists>x. getOffset r a = Inr x"
  using removeIntlvBits_dels(1)[of r] by (simp add: getOffset_def range_wf_def)

lemma getOffset_inj:
  assumes "range_wf r" "range_contains r a" "range_contains r b" "getOffset r a = getOffset r b"
  shows "a = b"
proof -
  have "dels 0 (masks_lsb r) a = dels 0 (masks_lsb r) b"
    using assms(4) getOffset_dels[OF assms(1,2)] getOffset_dels[OF assms(1,3)] by simp
  moreover have "masks_ok (ar_masks r)" using assms(1) by (simp add: range_wf_def)
  moreover have "intlv_select (ar_masks r) a = intlv_select (ar_masks r) b" using assms(2,3) by (simp add: range_contains_def)
  ultimately show ?thesis using dels_select_inj by blast
qed

section \<open>Properties\<close>

text \<open>Two of four channels interleaved on bits 6 and 7, each combined with a higher bit.\<close>

definition example_range :: addr_range where
  "example_range = \<lparr>ar_start = 0, ar_end = 1048576, ar_masks = [4160, 8320], ar_intlvMatch = 2\<rparr>"

text \<open>C40: The offsets of a channel: in a range whose bounds are aligned above its interleaving bits, every
  address the range contains has an offset below the size of the range, and different addresses have
  different offsets, whatever bits are interleaved or combined by XOR.\<close>

theorem range_offsets_distinct:
  assumes "range_wf r" "range_contains r a" "range_contains r b"
  shows "(\<exists>x. getOffset r a = Inr x \<and> x < range_size r) \<and> (getOffset r a = getOffset r b \<longleftrightarrow> a = b)"
  using getOffset_ok[OF assms(1,2)] getOffset_inj[OF assms] by blast

theorem range_offsets_distinct_witness: "getOffset example_range 128 \<noteq> getOffset example_range 4288"
proof -
  have c: "range_contains example_range 128" "range_contains example_range 4288"
    by (simp_all add: range_contains_def example_range_def bits_eval)
  have "bit (4160 :: nat) 7 = False" "bit (8320 :: nat) 6 = False" by simp_all
  then have "range_wf example_range"
    by (simp add: range_wf_def example_range_def masks_ok_def bits_eval)
  from range_offsets_distinct[OF this c] show ?thesis by simp
qed

text \<open>The inverse does not keep all bits with three or more interleaving bits: two offsets of one of eight
  channels get the same address.\<close>

lemma addIntlvBits_loses_bits:
  "addIntlvBits \<lparr>ar_start = 0, ar_end = 1048576, ar_masks = [64, 128, 256], ar_intlvMatch = 5\<rparr> 0 =
   addIntlvBits \<lparr>ar_start = 0, ar_end = 1048576, ar_masks = [64, 128, 256], ar_intlvMatch = 5\<rparr> 64"
  by (simp add: addIntlvBits_def masks_lsb_def bits_eval insertBits_def Let_def mask_eq_exp_minus_1 u64_def nat_diff_distrib)

end
