(* ===== verification/Address_Map.thy ===== *)
theory Address_Map
  imports Addr_Range "HOL-Library.Word"
begin

text \<open>
  Memory packets and the address decoding of \<open>mem/mem_ctrl.hh\<close> and \<open>mem/mem_interface.cc\<close>:
  \<open>MemPacket\<close>, \<open>BurstHelper\<close>, the interface's geometry, \<open>decodePacket\<close> for the three address
  mappings, \<open>burstAlign\<close>, and the splitting of a request into bursts.  \<open>getCtrlAddr\<close> (the offset
  of an address in the interface's range, \<open>base/addr_range.hh\<close>) is a field of the interface.
\<close>

unbundle bit_operations_syntax

section \<open>Packets\<close>

text \<open>A system packet; \<open>pk_isRequest\<close> turns false when the memory access makes it a response, and
  \<open>pk_cleanEvict\<close> says that its command is \<open>CleanEvict\<close> or \<open>WritebackClean\<close>.\<close>

record packet =
  pk_addr :: addr
  pk_size :: nat
  pk_isRead :: bool
  pk_isWrite :: bool
  pk_needsResponse :: bool
  pk_cacheResponding :: bool
  pk_cleanEvict :: bool
  pk_isRequest :: bool
  pk_qos :: nat
  pk_headerDelay :: tick
  pk_payloadDelay :: tick

record burst_helper =
  bh_burstCount :: nat
  bh_burstsServiced :: nat

text \<open>\<open>pkt\<close> and \<open>burstHelper\<close> are pointers: names in the controller's stores.\<close>

datatype RH_DEFENSE = rh_none | rh_rrs | rh_rq | rh_bh | rh_rfm | rh_para

record mem_packet =
  mp_entryTime :: tick
  mp_readyTime :: tick
  mp_pkt :: nat
  mp_read :: bool
  mp_dram :: bool
  mp_rank :: nat
  mp_bank :: nat
  mp_row :: nat
  mp_bankId :: nat
  mp_addr :: addr
  mp_size :: nat
  mp_burstHelper :: "nat option"
  mp_rh_injectDelay :: bool
  mp_rh_bubbleSize :: tick
  mp_rh_SRAMDelay :: tick
  mp_rh_bankDelay :: tick
  mp_rh_busDelay :: tick
  mp_rh_defense :: RH_DEFENSE
  mp_qosValue :: nat

definition MemPacket_new :: "tick \<Rightarrow> nat \<Rightarrow> nat \<Rightarrow> bool \<Rightarrow> bool \<Rightarrow> nat \<Rightarrow> nat \<Rightarrow> nat \<Rightarrow> nat \<Rightarrow> addr \<Rightarrow> nat \<Rightarrow> mem_packet" where
  "MemPacket_new now pkt qos is_read is_dram rank bank row bank_id addr0 size0 =
     \<lparr>mp_entryTime = now, mp_readyTime = now, mp_pkt = pkt, mp_read = is_read, mp_dram = is_dram,
      mp_rank = rank, mp_bank = bank, mp_row = row, mp_bankId = bank_id, mp_addr = addr0, mp_size = size0,
      mp_burstHelper = None, mp_rh_injectDelay = False, mp_rh_bubbleSize = 0, mp_rh_SRAMDelay = 0,
      mp_rh_bankDelay = 0, mp_rh_busDelay = 0, mp_rh_defense = rh_none, mp_qosValue = qos\<rparr>"

section \<open>The interface\<close>

datatype addr_mapping = RoRaBaChCo | RoRaBaCoCh | RoCoRaBaCh

record mem_interface =
  mi_range :: addr_range
  mi_addrMapping :: addr_mapping
  mi_burstSize :: nat
  mi_burstsPerRowBuffer :: nat
  mi_burstsPerStripe :: nat
  mi_ranksPerChannel :: nat
  mi_banksPerRank :: nat
  mi_rowsPerBank :: nat

definition mi_contains :: "mem_interface \<Rightarrow> addr \<Rightarrow> bool" where
  "mi_contains i a \<longleftrightarrow> range_contains (mi_range i) a"

definition getCtrlAddr :: "mem_interface \<Rightarrow> addr \<Rightarrow> addr result" where
  "getCtrlAddr i a = getOffset (mi_range i) a"

text \<open>\<open>Bank::NO_ROW\<close> is -1 as an unsigned 32-bit number.\<close>

definition NO_ROW :: nat where "NO_ROW = 2 ^ 32 - 1"

definition divf :: "nat \<Rightarrow> nat \<Rightarrow> nat result" where
  "divf a b = (if b = 0 then Inl DivideByZero else Inr (a div b))"

definition modf :: "nat \<Rightarrow> nat \<Rightarrow> nat result" where
  "modf a b = (if b = 0 then Inl DivideByZero else Inr (a mod b))"

text \<open>Rank, bank and row of an address; \<open>rank\<close> and \<open>bank\<close> are 8-bit.\<close>

definition decode_tail :: "mem_interface \<Rightarrow> addr \<Rightarrow> (nat \<times> nat \<times> addr) result" where
  "decode_tail i a =
     rbind (modf a (mi_banksPerRank i)) (\<lambda>bank.
     rbind (divf a (mi_banksPerRank i)) (\<lambda>a1.
     rbind (modf a1 (mi_ranksPerChannel i)) (\<lambda>rank.
     rbind (divf a1 (mi_ranksPerChannel i)) (\<lambda>a2. Inr (u8 rank, u8 bank, a2)))))"

definition decode_addr :: "mem_interface \<Rightarrow> addr \<Rightarrow> (nat \<times> nat \<times> nat) result" where
  "decode_addr i pkt_addr =
     rbind (getCtrlAddr i pkt_addr) (\<lambda>ctrl_addr.
     rbind (divf ctrl_addr (mi_burstSize i)) (\<lambda>a0.
     if mi_addrMapping i = RoCoRaBaCh then
       rbind (if mi_burstsPerRowBuffer i < mi_burstsPerStripe i then divf a0 (mi_burstsPerRowBuffer i)
              else divf a0 (mi_burstsPerStripe i)) (\<lambda>a1.
       rbind (decode_tail i a1) (\<lambda>(rank, bank, a2).
       rbind (if mi_burstsPerStripe i < mi_burstsPerRowBuffer i
              then rbind (divf (mi_burstsPerRowBuffer i) (mi_burstsPerStripe i)) (divf a2)
              else Inr a2) (\<lambda>a3.
       rbind (modf a3 (mi_rowsPerBank i)) (\<lambda>row. Inr (rank, bank, row)))))
     else
       rbind (divf a0 (mi_burstsPerRowBuffer i)) (\<lambda>a1.
       rbind (decode_tail i a1) (\<lambda>(rank, bank, a2).
       rbind (modf a2 (mi_rowsPerBank i)) (\<lambda>row. Inr (rank, bank, row))))))"

definition decodePacket ::
  "mem_interface \<Rightarrow> tick \<Rightarrow> nat \<Rightarrow> nat \<Rightarrow> addr \<Rightarrow> nat \<Rightarrow> bool \<Rightarrow> bool \<Rightarrow> mem_packet result" where
  "decodePacket i now pkt qos pkt_addr size0 is_read is_dram =
     rbind (decode_addr i pkt_addr) (\<lambda>(rank, bank, row).
       if \<not> rank < mi_ranksPerChannel i then Inl AssertFail
       else if \<not> bank < mi_banksPerRank i then Inl AssertFail
       else if \<not> row < mi_rowsPerBank i then Inl AssertFail
       else if \<not> row < NO_ROW then Inl AssertFail
       else let bank_id = (mi_banksPerRank i * rank + bank) mod 2 ^ 16
            in Inr (MemPacket_new now pkt qos is_read is_dram rank bank row bank_id pkt_addr size0))"

section \<open>Bursts\<close>

text \<open>\<open>addr & ~(burst_size - 1)\<close> and \<open>(addr | (burst_size - 1)) + 1\<close>\<close>

definition burstAlign :: "nat \<Rightarrow> addr \<Rightarrow> addr" where
  "burstAlign burst_size a = a - (a AND (burst_size - 1))"

definition next_burst :: "nat \<Rightarrow> addr \<Rightarrow> addr" where
  "next_burst burst_size a = (a OR (burst_size - 1)) + 1"

text \<open>The size of the piece of a request of \<open>pkt_size\<close> bytes at \<open>base\<close> that starts at \<open>a\<close>.\<close>

definition piece_size :: "nat \<Rightarrow> addr \<Rightarrow> nat \<Rightarrow> addr \<Rightarrow> nat" where
  "piece_size burst_size base pkt_size a = sub64 (min (next_burst burst_size a) (base + pkt_size)) a"

definition burst_count :: "nat \<Rightarrow> addr \<Rightarrow> nat \<Rightarrow> nat" where
  "burst_count burst_size a size0 =
     (let offset = a AND (burst_size - 1) in (offset + size0 + burst_size - 1) div burst_size)"

section \<open>Bit arithmetic of a power of two\<close>

lemma and_mask_mod: "(a :: nat) AND (2 ^ k - 1) = a mod 2 ^ k"
  by (metis mask_eq_exp_minus_1 take_bit_eq_mask take_bit_eq_mod)

lemma or_mask_nat: "(a :: nat) OR (2 ^ k - 1) = a div 2 ^ k * 2 ^ k + (2 ^ k - 1)"
proof -
  have "a OR mask k = push_bit k (drop_bit k a) OR mask k"
    by (rule bit_eqI) (auto simp: bit_or_iff bit_mask_iff bit_push_bit_iff bit_drop_bit_eq)
  also have "\<dots> = push_bit k (drop_bit k a) + mask k"
    by (rule disjunctive_add [symmetric]) (auto simp: bit_mask_iff bit_push_bit_iff)
  finally show ?thesis by (simp add: mask_eq_exp_minus_1 push_bit_eq_mult drop_bit_eq_div)
qed

lemma burstAlign_eq: "burstAlign (2 ^ k) a = a div 2 ^ k * 2 ^ k"
  unfolding burstAlign_def and_mask_mod by (rule minus_mod_eq_div_mult)

lemma next_burst_eq: "next_burst (2 ^ k) a = (a div 2 ^ k + 1) * 2 ^ k"
  unfolding next_burst_def or_mask_nat by simp

lemma next_burst_gt: "a < next_burst (2 ^ k) a"
  unfolding next_burst_eq using dividend_less_div_times[of "2 ^ k" a] by (simp add: algebra_simps)

section \<open>The pieces of a request\<close>

text \<open>The addresses and sizes the loop visits.\<close>

fun pieces :: "nat \<Rightarrow> addr \<Rightarrow> nat \<Rightarrow> addr \<Rightarrow> nat \<Rightarrow> (addr \<times> nat) list" where
  "pieces b base size0 a 0 = []"
| "pieces b base size0 a (Suc n) =
     (a, piece_size b base size0 a) # pieces b base size0 (next_burst b a) n"

lemma pieces_cover:
  assumes "base \<le> a" "a < base + size0" "(a mod 2 ^ k + (base + size0 - a) + 2 ^ k - 1) div 2 ^ k = n"
  shows "(\<Union>(x, z)\<in>set (pieces (2 ^ k) base size0 a n). {x..<x + z}) = {a..<base + size0} \<and>
    sum_list (map snd (pieces (2 ^ k) base size0 a n)) = base + size0 - a \<and>
    (\<forall>(x, z)\<in>set (pieces (2 ^ k) base size0 a n). 0 < z \<and> burstAlign (2 ^ k) (x + z - 1) = burstAlign (2 ^ k) x)"
  using assms
proof (induction n arbitrary: a)
  case 0
  then have "a mod 2 ^ k + (base + size0 - a) + 2 ^ k - 1 < 2 ^ k"
    by (simp add: div_eq_0_iff)
  then show ?case using 0 by auto
next
  case (Suc n)
  let ?b = "2 ^ k :: nat" and ?e = "base + size0" and ?a' = "next_burst (2 ^ k) a"
  have lt: "a < ?a'" by (rule next_burst_gt)
  have a': "?a' = a - a mod ?b + ?b" "a mod ?b < ?b" "a mod ?b \<le> a"
    by (simp_all add: next_burst_eq minus_mod_eq_div_mult)
  have z: "piece_size ?b base size0 a = min ?a' ?e - a"
    using lt Suc.prems(2) by (simp add: piece_size_def sub64_le)
  have same: "(a + z - 1) div ?b = a div ?b" if "0 < z" "a + z \<le> ?a'" for z
  proof -
    have "?b * (a div ?b) \<le> a" by (rule times_div_less_eq_dividend)
    then have "?b * (a div ?b) \<le> a + z - 1" using that(1) by linarith
    moreover have "a + z - 1 < ?b * Suc (a div ?b)" using that by (simp add: next_burst_eq mult.commute)
    ultimately show ?thesis by (rule div_nat_eqI)
  qed
  have zp: "0 < min ?a' ?e - a" "a + (min ?a' ?e - a) \<le> ?a'" using lt Suc.prems(2) by auto
  note first = same[OF zp]
  show ?case
  proof (cases "?a' < ?e")
    case True
    have "?a' mod ?b = 0" by (simp add: next_burst_eq)
    moreover have "(a mod ?b + (?e - a) + ?b - 1) div ?b = Suc ((?e - ?a' + ?b - 1) div ?b)"
    proof -
      have "a mod ?b + (?e - a) + ?b - 1 = (?e - ?a' + ?b - 1) + ?b" using True a' lt by linarith
      then show ?thesis by (simp only:) (subst div_add_self2, simp_all)
    qed
    ultimately have "(?a' mod ?b + (?e - ?a') + ?b - 1) div ?b = n" using Suc.prems(3) by simp
    from Suc.IH[OF _ True this] Suc.prems(1) lt have IH:
      "(\<Union>(x, z)\<in>set (pieces ?b base size0 ?a' n). {x..<x + z}) = {?a'..<?e}"
      "sum_list (map snd (pieces ?b base size0 ?a' n)) = ?e - ?a'"
      "\<forall>(x, z)\<in>set (pieces ?b base size0 ?a' n). 0 < z \<and> burstAlign ?b (x + z - 1) = burstAlign ?b x" by simp_all
    have m: "min ?a' ?e = ?a'" using True by simp
    have "{a..<a + (?a' - a)} \<union> {?a'..<?e} = {a..<?e}" using lt True by auto
    then show ?thesis using IH lt True first m z by (simp add: burstAlign_eq)
  next
    case False
    have "a mod ?b + (?e - a) + ?b - 1 < 2 * ?b" using False a' Suc.prems(2) by linarith
    then have "(a mod ?b + (?e - a) + ?b - 1) div ?b \<le> 1" by (simp add: div_less_iff_less_mult less_Suc_eq_le[symmetric] mult.commute)
    then have n: "n = 0" using Suc.prems(3) by simp
    have m: "min ?a' ?e = ?e" using False by simp
    then show ?thesis using first z Suc.prems(2) n by (simp add: burstAlign_eq)
  qed
qed

section \<open>Decoding\<close>

definition mi_wf :: "mem_interface \<Rightarrow> bool" where
  "mi_wf i \<longleftrightarrow> 0 < mi_burstSize i \<and> 0 < mi_burstsPerRowBuffer i \<and> 0 < mi_burstsPerStripe i \<and>
     0 < mi_ranksPerChannel i \<and> mi_ranksPerChannel i \<le> 256 \<and> 0 < mi_banksPerRank i \<and>
     mi_banksPerRank i \<le> 256 \<and> 0 < mi_rowsPerBank i \<and> mi_rowsPerBank i \<le> NO_ROW \<and> range_wf (mi_range i)"

lemma decode_tail_wf:
  assumes "mi_wf i"
  shows "decode_tail i a = Inr (a div mi_banksPerRank i mod mi_ranksPerChannel i, a mod mi_banksPerRank i,
    a div mi_banksPerRank i div mi_ranksPerChannel i)"
proof -
  have "x mod m < 256" if "0 < m" "m \<le> 256" for x m :: nat
    using less_le_trans[OF mod_less_divisor[OF that(1)] that(2)] .
  then have "a mod mi_banksPerRank i < 256" "a div mi_banksPerRank i mod mi_ranksPerChannel i < 256"
    using assms by (simp_all add: mi_wf_def)
  then show ?thesis using assms by (simp add: decode_tail_def modf_def divf_def mi_wf_def u8_id)
qed

lemma decode_addr_wf:
  assumes "mi_wf i"
  shows "\<exists>rank bank row. decode_addr i a = Inr (rank, bank, row) \<and> rank < mi_ranksPerChannel i \<and>
    bank < mi_banksPerRank i \<and> row < mi_rowsPerBank i"
proof -
  have "0 < mi_burstsPerRowBuffer i div mi_burstsPerStripe i" if "mi_burstsPerStripe i < mi_burstsPerRowBuffer i"
    using that assms by (simp add: mi_wf_def div_greater_zero_iff)
  moreover obtain x where "getCtrlAddr i a = Inr x" using assms getOffset_total by (auto simp: getCtrlAddr_def mi_wf_def)
  ultimately show ?thesis using assms
    by (auto simp: decode_addr_def decode_tail_wf[OF assms] divf_def modf_def mi_wf_def)
qed

lemma decodePacket_wf:
  assumes "mi_wf i"
  shows "\<exists>m. decodePacket i now pkt qos a z rd dr = Inr m \<and> mp_addr m = a \<and> mp_size m = z \<and> mp_pkt m = pkt \<and>
    mp_read m = rd \<and> mp_dram m = dr \<and> mp_qosValue m = qos \<and> mp_burstHelper m = None \<and>
    mp_rank m < mi_ranksPerChannel i"
proof -
  obtain rank bank row where d: "decode_addr i a = Inr (rank, bank, row)" "rank < mi_ranksPerChannel i"
    "bank < mi_banksPerRank i" "row < mi_rowsPerBank i" using decode_addr_wf[OF assms] by blast
  then show ?thesis using assms by (simp add: decodePacket_def MemPacket_new_def mi_wf_def)
qed

section \<open>Properties\<close>

text \<open>The row buffers of the offset space.  With the row-interleaved mappings a row is one block of bytes;
  with \<open>RoCoRaBaCh\<close> it is every \<open>B * K\<close>-th of the chunks of a block: a chunk is what a bank gets in a go (a
  stripe, or a row buffer if that is smaller), and \<open>q\<close> chunks make a row.\<close>

definition row_chunk :: "mem_interface \<Rightarrow> nat" where
  "row_chunk i = (if mi_addrMapping i = RoCoRaBaCh then min (mi_burstsPerRowBuffer i) (mi_burstsPerStripe i)
     else mi_burstsPerRowBuffer i)"

definition row_chunks :: "mem_interface \<Rightarrow> nat" where
  "row_chunks i = (if mi_addrMapping i = RoCoRaBaCh \<and> mi_burstsPerStripe i < mi_burstsPerRowBuffer i
     then mi_burstsPerRowBuffer i div mi_burstsPerStripe i else 1)"

lemma row_chunk_pos:
  assumes "mi_wf i"
  shows "0 < row_chunk i" "0 < row_chunks i"
  using assms by (simp_all add: row_chunk_def row_chunks_def mi_wf_def div_greater_zero_iff)

lemma decode_addr_digits:
  assumes "mi_wf i" "getCtrlAddr i a = Inr o1" "c = o1 div (mi_burstSize i * row_chunk i)"
  shows "decode_addr i a = Inr (c div mi_banksPerRank i mod mi_ranksPerChannel i, c mod mi_banksPerRank i,
    c div (mi_banksPerRank i * mi_ranksPerChannel i * row_chunks i) mod mi_rowsPerBank i)"
proof -
  have pos: "mi_burstSize i \<noteq> 0" "mi_burstsPerRowBuffer i \<noteq> 0" "mi_burstsPerStripe i \<noteq> 0" "mi_rowsPerBank i \<noteq> 0"
    and q: "row_chunks i \<noteq> 0"
    using assms(1) row_chunk_pos(2)[OF assms(1)] by (simp_all add: mi_wf_def)
  have c: "c = o1 div mi_burstSize i div row_chunk i" unfolding assms(3) by (rule div_mult2_eq)
  have r: "c div (mi_banksPerRank i * mi_ranksPerChannel i * row_chunks i) = c div mi_banksPerRank i div mi_ranksPerChannel i div row_chunks i"
    by (simp add: div_mult2_eq)
  show ?thesis unfolding r
    using pos q assms(2) by (auto simp: decode_addr_def decode_tail_wf[OF assms(1)] divf_def modf_def c row_chunk_def row_chunks_def min_def)
qed

lemma same_digits_iff:
  fixes c d B K :: nat
  shows "c mod B = d mod B \<and> c div B mod K = d div B mod K \<longleftrightarrow> c mod (B * K) = d mod (B * K)"
proof
  assume "c mod B = d mod B \<and> c div B mod K = d div B mod K"
  then show "c mod (B * K) = d mod (B * K)" by (simp add: mod_mult2_eq)
next
  assume h: "c mod (B * K) = d mod (B * K)"
  have "x mod (B * K) mod B = x mod B" "x mod (B * K) div B = x div B mod K" for x
    by (simp add: mod_mod_cancel) (cases "B = 0", simp_all add: mod_mult2_eq)
  then show "c mod B = d mod B \<and> c div B mod K = d div B mod K" using h by metis
qed

text \<open>C27: The decoded place is faithful, for all three mappings: two addresses of the channel's range,
  which is no larger than the rows hold, decode to the same rank, bank and row exactly when their offsets
  lie in the same row buffer, so Rowhammer counts per row never mix two rows or split one.  With the two
  row-interleaved mappings a row buffer is a block of consecutive offsets; with \<open>RoCoRaBaCh\<close> it is the
  chunks of the same residue modulo the number of banks within a block of \<open>q\<close> chunks per bank.  Different
  addresses have different offsets.\<close>

theorem decode_separates_rows:
  assumes "mi_wf i" "mi_contains i a" "mi_contains i b"
    and "N = mi_banksPerRank i * mi_ranksPerChannel i"
    and "m = (if mi_addrMapping i = RoCoRaBaCh then min (mi_burstsPerRowBuffer i) (mi_burstsPerStripe i) else mi_burstsPerRowBuffer i)"
    and "q = (if mi_addrMapping i = RoCoRaBaCh \<and> mi_burstsPerStripe i < mi_burstsPerRowBuffer i
      then mi_burstsPerRowBuffer i div mi_burstsPerStripe i else 1)"
    and "range_size (mi_range i) \<le> mi_burstSize i * m * N * q * mi_rowsPerBank i"
  shows "\<exists>x y. getCtrlAddr i a = Inr x \<and> getCtrlAddr i b = Inr y \<and> (x = y \<longrightarrow> a = b) \<and>
    (decode_addr i a = decode_addr i b \<longleftrightarrow>
       (if mi_addrMapping i = RoCoRaBaCh
        then x div (mi_burstSize i * m) mod N = y div (mi_burstSize i * m) mod N \<and>
          x div (mi_burstSize i * m * N * q) = y div (mi_burstSize i * m * N * q)
        else x div (mi_burstSize i * mi_burstsPerRowBuffer i) = y div (mi_burstSize i * mi_burstsPerRowBuffer i)))"
proof -
  let ?B = "mi_banksPerRank i" and ?K = "mi_ranksPerChannel i" and ?R = "mi_rowsPerBank i" and ?s = "mi_burstSize i"
  have mq: "row_chunk i = m" "row_chunks i = q" using assms(5,6) by (simp_all add: row_chunk_def row_chunks_def)
  have pos: "0 < ?s" "0 < N" "0 < ?R" "0 < m" "0 < q" and r: "range_wf (mi_range i)"
    using assms(1,4) row_chunk_pos[OF assms(1)] mq by (simp_all add: mi_wf_def)
  have c: "range_contains (mi_range i) a" "range_contains (mi_range i) b" using assms(2,3) by (simp_all add: mi_contains_def)
  obtain x y where xy: "getCtrlAddr i a = Inr x" "x < range_size (mi_range i)" "getCtrlAddr i b = Inr y" "y < range_size (mi_range i)"
    using getOffset_ok[OF r c(1)] getOffset_ok[OF r c(2)] by (auto simp: getCtrlAddr_def)
  have d: "decode_addr i a = Inr (z div (?s * m) div ?B mod ?K, z div (?s * m) mod ?B, z div (?s * m * N * q) mod ?R)"
    if "getCtrlAddr i a = Inr z" for a z
    using decode_addr_digits[OF assms(1) that refl] unfolding mq assms(4) by (simp add: div_mult2_eq)
  have "z div (?s * m * N * q) < ?R" if "z < range_size (mi_range i)" for z
    using less_le_trans[OF that assms(7)] pos by (simp add: div_less_iff_less_mult algebra_simps)
  then have row: "x div (?s * m * N * q) mod ?R = x div (?s * m * N * q)" "y div (?s * m * N * q) mod ?R = y div (?s * m * N * q)"
    using xy(2,4) by simp_all
  have iff: "decode_addr i a = decode_addr i b \<longleftrightarrow>
      x div (?s * m) mod N = y div (?s * m) mod N \<and> x div (?s * m * N * q) = y div (?s * m * N * q)"
    using same_digits_iff[of "x div (?s * m)" ?B "y div (?s * m)" ?K, folded assms(4)] unfolding d[OF xy(1)] d[OF xy(3)] row by auto
  moreover have "x div (?s * m) mod N = y div (?s * m) mod N \<and> x div (?s * m * N * q) = y div (?s * m * N * q) \<longleftrightarrow>
      x div (?s * m) = y div (?s * m)" if "q = 1"
  proof -
    have "z div (?s * m * N * q) = z div (?s * m) div N" for z using that by (simp add: div_mult2_eq)
    then show ?thesis by (metis div_mult_mod_eq)
  qed
  moreover have "q = 1 \<and> m = mi_burstsPerRowBuffer i" if "mi_addrMapping i \<noteq> RoCoRaBaCh" using that assms(5,6) by simp
  ultimately have "decode_addr i a = decode_addr i b \<longleftrightarrow> (if mi_addrMapping i = RoCoRaBaCh
        then x div (?s * m) mod N = y div (?s * m) mod N \<and> x div (?s * m * N * q) = y div (?s * m * N * q)
        else x div (?s * mi_burstsPerRowBuffer i) = y div (?s * mi_burstsPerRowBuffer i))" by auto
  moreover have "x = y \<longrightarrow> a = b" using getOffset_inj[OF r c] xy(1,3) by (simp add: getCtrlAddr_def)
  ultimately show ?thesis using xy(1,3) by blast
qed

definition example_interface :: mem_interface where
  "example_interface = \<lparr>mi_range = range_plain 0 1048576, mi_addrMapping = RoRaBaCoCh,
     mi_burstSize = 64, mi_burstsPerRowBuffer = 128, mi_burstsPerStripe = 1, mi_ranksPerChannel = 2,
     mi_banksPerRank = 16, mi_rowsPerBank = 4\<rparr>"

lemma example_interface_wf: "mi_wf example_interface"
  by (simp add: mi_wf_def example_interface_def NO_ROW_def range_wf_def range_plain_def masks_ok_def)

lemma example_interface_simps:
  "a < 1048576 \<Longrightarrow> getCtrlAddr example_interface a = Inr a" "mi_addrMapping example_interface = RoRaBaCoCh"
  "mi_burstSize example_interface = 64" "mi_burstsPerRowBuffer example_interface = 128"
  "mi_ranksPerChannel example_interface = 2" "mi_banksPerRank example_interface = 16"
  "mi_rowsPerBank example_interface = 4" "mi_contains example_interface a \<longleftrightarrow> a < 1048576"
  "range_size (mi_range example_interface) = 1048576"
  by (simp_all add: example_interface_def getCtrlAddr_def getOffset_def range_plain_def interleaved_def mi_contains_def
      range_contains_def range_size_def sub64_def)

lemma example_interface_rocorabach:
  "mi_wf (example_interface\<lparr>mi_addrMapping := RoCoRaBaCh\<rparr>)"
  "a < 1048576 \<Longrightarrow> getCtrlAddr (example_interface\<lparr>mi_addrMapping := RoCoRaBaCh\<rparr>) a = Inr a"
  "mi_contains (example_interface\<lparr>mi_addrMapping := RoCoRaBaCh\<rparr>) a \<longleftrightarrow> a < 1048576"
  "range_size (mi_range (example_interface\<lparr>mi_addrMapping := RoCoRaBaCh\<rparr>)) = 1048576"
  "mi_burstsPerStripe example_interface = 1"
  using example_interface_wf example_interface_simps(1)[of a] example_interface_simps(8)[of a] example_interface_simps(9)
  by (simp_all add: mi_wf_def getCtrlAddr_def mi_contains_def) (simp add: example_interface_def)

theorem decode_separates_rows_witness:
  "decode_addr (example_interface\<lparr>mi_addrMapping := RoCoRaBaCh\<rparr>) 64 = decode_addr (example_interface\<lparr>mi_addrMapping := RoCoRaBaCh\<rparr>) 2112 \<and>
   decode_addr (example_interface\<lparr>mi_addrMapping := RoCoRaBaCh\<rparr>) 64 \<noteq> decode_addr (example_interface\<lparr>mi_addrMapping := RoCoRaBaCh\<rparr>) 128"
  using decode_separates_rows[OF example_interface_rocorabach(1), of 64 2112, OF _ _ refl refl refl]
    decode_separates_rows[OF example_interface_rocorabach(1), of 64 128, OF _ _ refl refl refl]
  by (simp add: example_interface_rocorabach example_interface_simps)

text \<open>A request is split into bursts that cover it exactly: the pieces the queue loops visit are
  non-empty, each lies within one burst, their union is the requested range and their sizes add up to
  its size.\<close>

theorem bursts_cover_request:
  assumes "0 < size0"
  shows "(\<Union>(x, z)\<in>set (pieces (2 ^ k) a size0 a (burst_count (2 ^ k) a size0)). {x..<x + z}) = {a..<a + size0} \<and>
    sum_list (map snd (pieces (2 ^ k) a size0 a (burst_count (2 ^ k) a size0))) = size0 \<and>
    (\<forall>(x, z)\<in>set (pieces (2 ^ k) a size0 a (burst_count (2 ^ k) a size0)).
       0 < z \<and> burstAlign (2 ^ k) (x + z - 1) = burstAlign (2 ^ k) x)"
proof -
  have "(a mod 2 ^ k + (a + size0 - a) + 2 ^ k - 1) div 2 ^ k = burst_count (2 ^ k) a size0"
    unfolding burst_count_def Let_def and_mask_mod by simp
  from pieces_cover[OF order_refl _ this] show ?thesis using assms by simp
qed

theorem bursts_cover_request_witness:
  "sum_list (map snd (pieces (2 ^ 6) 100 150 100 (burst_count (2 ^ 6) 100 150))) = 150"
  by (rule bursts_cover_request[THEN conjunct2, THEN conjunct1]) simp

end
