(* ===== verification/Request_Queues.thy ===== *)
theory Request_Queues
  imports Address_Map
begin

text \<open>
  The front end of \<open>MemCtrl\<close> (\<open>mem/mem_ctrl.cc\<close>): how a request enters the controller.
  \<open>recvTimingReq\<close> accepts or refuses it, \<open>addToReadQueue\<close> and \<open>addToWriteQueue\<close> split it into
  bursts, serve reads from the write queue, merge writes, and \<open>accessAndRespond\<close> sends the response.
  System packets and burst helpers are shared between memory packets, so they live in stores.  The
  queues are one list per QoS priority; the priority the QoS scheduler assigns is an argument.
\<close>

section \<open>State\<close>

record mem_ctrl =
  q_dram :: "mem_interface option"
  q_nvm :: "mem_interface option"
  q_readBufferSize :: nat
  q_writeBufferSize :: nat
  q_frontendLatency :: tick
  q_packets :: "nat \<Rightarrow> packet"
  q_helpers :: "nat \<Rightarrow> burst_helper"
  q_next_helper :: nat
  q_readQueue :: "mem_packet list list"
  q_writeQueue :: "mem_packet list list"
  q_isInWriteQueue :: "addr set"
  q_respQueue :: "mem_packet list"
  q_totalReadQueueSize :: nat
  q_totalWriteQueueSize :: nat
  q_readEntries :: "nat \<Rightarrow> nat"
  q_writeEntries :: "nat \<Rightarrow> nat"
  q_numReadsToIssue :: nat
  q_numWritesQueued :: nat
  q_nextReqEvent :: "tick option"
  q_retryRdReq :: bool
  q_retryWrReq :: bool
  q_prevArrival :: tick
  q_responses :: "(nat \<times> tick) list"
  q_pendingDelete :: "nat option"
  q_s_readBursts :: nat
  q_s_writeBursts :: nat
  q_s_servicedByWrQ :: nat
  q_s_bytesReadWrQ :: nat
  q_s_mergedWrBursts :: nat
  q_s_numRdRetry :: nat
  q_s_numWrRetry :: nat
  q_s_readReqs :: nat
  q_s_writeReqs :: nat
  q_s_bytesReadSys :: nat
  q_s_bytesWrittenSys :: nat
  q_s_totGap :: nat

definition MaxTick :: tick where "MaxTick = 2 ^ 64 - 1"

section \<open>Operations\<close>

definition readQueueFull :: "mem_ctrl \<Rightarrow> nat \<Rightarrow> bool" where
  "readQueueFull s neededEntries \<longleftrightarrow>
     q_readBufferSize s < q_totalReadQueueSize s + length (q_respQueue s) + neededEntries"

definition writeQueueFull :: "mem_ctrl \<Rightarrow> nat \<Rightarrow> bool" where
  "writeQueueFull s neededEntries \<longleftrightarrow> q_writeBufferSize s < q_totalWriteQueueSize s + neededEntries"

text \<open>\<open>dram && dram->getAddrRange().contains(addr)\<close>, then the same for the NVM: which interface.\<close>

definition media_of :: "mem_ctrl \<Rightarrow> addr \<Rightarrow> bool option" where
  "media_of s a =
     (if (case q_dram s of None \<Rightarrow> False | Some i \<Rightarrow> mi_contains i a) then Some True
      else if (case q_nvm s of None \<Rightarrow> False | Some i \<Rightarrow> mi_contains i a) then Some False
      else None)"

definition interface_of :: "mem_ctrl \<Rightarrow> bool \<Rightarrow> mem_interface option" where
  "interface_of s is_dram = (if is_dram then q_dram s else q_nvm s)"

text \<open>\<open>access\<close> of the medium (\<open>mem/abstract_mem.cc\<close>) up to the backing store: a packet another cache
  answers or that carries no data to keep is left alone, any other must lie within the medium's range.\<close>

definition mem_access :: "mem_interface option \<Rightarrow> packet \<Rightarrow> unit result" where
  "mem_access i p =
     (if pk_cacheResponding p \<or> pk_cleanEvict p then Inr ()
      else case i of None \<Rightarrow> Inl OutOfBounds
        | Some m \<Rightarrow> within_range (mi_range m) (pk_addr p) (pk_size p))"

text \<open>The memory access makes a request that needs one a response.\<close>

definition accessAndRespond :: "mem_ctrl \<Rightarrow> tick \<Rightarrow> nat \<Rightarrow> tick \<Rightarrow> mem_ctrl result" where
  "accessAndRespond s now pkt static_latency =
     (let p = q_packets s pkt in
      case media_of s (pk_addr p) of None \<Rightarrow> Inl PanicFail
      | Some is_dram \<Rightarrow> rbind (mem_access (interface_of s is_dram) p) (\<lambda>_.
          if pk_needsResponse p then
            let response_time = now + static_latency + pk_headerDelay p + pk_payloadDelay p
            in Inr (s\<lparr>q_packets := (q_packets s)(pkt := p\<lparr>pk_isRequest := False, pk_headerDelay := 0, pk_payloadDelay := 0\<rparr>),
                      q_responses := q_responses s @ [(pkt, response_time)]\<rparr>)
          else Inr (s\<lparr>q_pendingDelete := Some pkt\<rparr>)))"

text \<open>\<open>dram->setupRank\<close> and \<open>nvm->setupRank\<close>.\<close>

definition setupRank :: "mem_ctrl \<Rightarrow> bool \<Rightarrow> nat \<Rightarrow> bool \<Rightarrow> mem_ctrl" where
  "setupRank s is_dram rank is_read =
     (if is_dram then
        if is_read then s\<lparr>q_readEntries := (q_readEntries s)(rank := q_readEntries s rank + 1)\<rparr>
        else s\<lparr>q_writeEntries := (q_writeEntries s)(rank := q_writeEntries s rank + 1)\<rparr>
      else if is_read then s\<lparr>q_numReadsToIssue := q_numReadsToIssue s + 1\<rparr>
      else s\<lparr>q_numWritesQueued := q_numWritesQueued s + 1\<rparr>)"

text \<open>\<open>queue[qos].push_back(m)\<close>\<close>

definition push_back :: "mem_packet list list \<Rightarrow> nat \<Rightarrow> mem_packet \<Rightarrow> mem_packet list list" where
  "push_back queue qos m = queue[qos := queue ! qos @ [m]]"

text \<open>The queue sizes \<open>logRequest\<close> keeps, for one entry.\<close>

definition logRequest :: "mem_ctrl \<Rightarrow> bool \<Rightarrow> mem_ctrl" where
  "logRequest s is_read =
     (if is_read then s\<lparr>q_totalReadQueueSize := q_totalReadQueueSize s + 1\<rparr>
      else s\<lparr>q_totalWriteQueueSize := q_totalWriteQueueSize s + 1\<rparr>)"

text \<open>The number of priorities whose write queue holds a packet that covers the bytes: the inner loop
  stops at the first one, the outer loop does not.\<close>

definition subsumes :: "addr \<Rightarrow> nat \<Rightarrow> mem_packet \<Rightarrow> bool" where
  "subsumes a size0 p \<longleftrightarrow> mp_addr p \<le> a \<and> a + size0 \<le> mp_addr p + mp_size p"

definition write_queue_hits :: "mem_ctrl \<Rightarrow> nat \<Rightarrow> addr \<Rightarrow> nat \<Rightarrow> nat" where
  "write_queue_hits s burst_size a size0 =
     (if burstAlign burst_size a \<in> q_isInWriteQueue s
      then length (filter (list_ex (subsumes a size0)) (q_writeQueue s)) else 0)"

text \<open>A loop of a fixed number of rounds whose body may fault.\<close>

fun iterate :: "('s \<Rightarrow> 's result) \<Rightarrow> nat \<Rightarrow> 's \<Rightarrow> 's result" where
  "iterate f 0 s = Inr s"
| "iterate f (Suc n) s = rbind (f s) (iterate f n)"

text \<open>What the read loop carries: controller, address, serviced pieces, burst helper.\<close>

type_synonym read_loop = "mem_ctrl \<times> addr \<times> nat \<times> nat option"

definition read_enqueue ::
  "tick \<Rightarrow> nat \<Rightarrow> nat \<Rightarrow> bool \<Rightarrow> mem_interface \<Rightarrow> mem_ctrl \<Rightarrow> addr \<Rightarrow> nat \<Rightarrow> nat option \<Rightarrow> (mem_ctrl \<times> nat option) result" where
  "read_enqueue now pkt pkt_count is_dram i s a size0 helper =
     (let (s1, helper1) = (if 1 < pkt_count \<and> helper = None
            then (s\<lparr>q_helpers := (q_helpers s)(q_next_helper s := \<lparr>bh_burstCount = pkt_count, bh_burstsServiced = 0\<rparr>),
                    q_next_helper := q_next_helper s + 1\<rparr>, Some (q_next_helper s))
            else (s, helper)) in
      rbind (decodePacket i now pkt (pk_qos (q_packets s1 pkt)) a size0 True is_dram) (\<lambda>m.
        let s2 = setupRank s1 is_dram (mp_rank m) True;
            m1 = m\<lparr>mp_burstHelper := helper1, mp_readyTime := (if is_dram then mp_readyTime m else MaxTick)\<rparr> in
        if readQueueFull s2 1 then Inl AssertFail
        else if \<not> mp_qosValue m1 < length (q_readQueue s2) then Inl OutOfBounds
        else Inr (logRequest (s2\<lparr>q_readQueue := push_back (q_readQueue s2) (mp_qosValue m1) m1\<rparr>) True, helper1)))"

definition read_burst :: "tick \<Rightarrow> nat \<Rightarrow> nat \<Rightarrow> bool \<Rightarrow> mem_interface \<Rightarrow> read_loop \<Rightarrow> read_loop result" where
  "read_burst now pkt pkt_count is_dram i st =
     (case st of (s, a, serviced, helper) \<Rightarrow>
        let b = mi_burstSize i;
            p = q_packets s pkt;
            size0 = piece_size b (pk_addr p) (pk_size p) a;
            hits = write_queue_hits s b a size0;
            s1 = s\<lparr>q_s_readBursts := q_s_readBursts s + 1, q_s_servicedByWrQ := q_s_servicedByWrQ s + hits,
                   q_s_bytesReadWrQ := q_s_bytesReadWrQ s + hits * b\<rparr>
        in rbind (if hits = 0 then read_enqueue now pkt pkt_count is_dram i s1 a size0 helper else Inr (s1, helper))
             (\<lambda>(s2, helper2). Inr (s2, next_burst b a, serviced + hits, helper2)))"

definition schedule_now :: "mem_ctrl \<Rightarrow> tick \<Rightarrow> mem_ctrl" where
  "schedule_now s now = (if q_nextReqEvent s = None then s\<lparr>q_nextReqEvent := Some now\<rparr> else s)"

definition addToReadQueue :: "mem_ctrl \<Rightarrow> tick \<Rightarrow> nat \<Rightarrow> nat \<Rightarrow> bool \<Rightarrow> mem_ctrl result" where
  "addToReadQueue s now pkt pkt_count is_dram =
     (if pk_isWrite (q_packets s pkt) then Inl AssertFail
      else if pkt_count = 0 then Inl AssertFail
      else case interface_of s is_dram of None \<Rightarrow> Inl OutOfBounds
        | Some i \<Rightarrow>
          rbind (iterate (read_burst now pkt pkt_count is_dram i) pkt_count (s, pk_addr (q_packets s pkt), 0, None))
            (\<lambda>(s1, a, pktsServicedByWrQ, helper).
               if pktsServicedByWrQ = pkt_count then accessAndRespond s1 now pkt (q_frontendLatency s1)
               else let s2 = (case helper of None \<Rightarrow> s1 | Some h \<Rightarrow>
                        s1\<lparr>q_helpers := (q_helpers s1)(h := (q_helpers s1 h)\<lparr>bh_burstsServiced := pktsServicedByWrQ\<rparr>)\<rparr>)
                    in Inr (schedule_now s2 now)))"

definition write_burst :: "tick \<Rightarrow> nat \<Rightarrow> bool \<Rightarrow> mem_interface \<Rightarrow> mem_ctrl \<times> addr \<Rightarrow> (mem_ctrl \<times> addr) result" where
  "write_burst now pkt is_dram i st =
     (case st of (s0, a) \<Rightarrow>
        let b = mi_burstSize i;
            s = s0\<lparr>q_s_writeBursts := q_s_writeBursts s0 + 1\<rparr>;
            p = q_packets s pkt;
            size0 = piece_size b (pk_addr p) (pk_size p) a;
            merged = (burstAlign b a \<in> q_isInWriteQueue s)
        in if merged then Inr (s\<lparr>q_s_mergedWrBursts := q_s_mergedWrBursts s + 1\<rparr>, next_burst b a)
           else rbind (decodePacket i now pkt (pk_qos p) a size0 False is_dram) (\<lambda>m.
             let s1 = setupRank s is_dram (mp_rank m) False in
             if \<not> q_totalWriteQueueSize s1 < q_writeBufferSize s1 then Inl AssertFail
             else if \<not> mp_qosValue m < length (q_writeQueue s1) then Inl OutOfBounds
             else let s2 = logRequest (s1\<lparr>q_writeQueue := push_back (q_writeQueue s1) (mp_qosValue m) m,
                               q_isInWriteQueue := insert (burstAlign b a) (q_isInWriteQueue s1)\<rparr>) False
                  in if q_totalWriteQueueSize s2 \<noteq> card (q_isInWriteQueue s2) then Inl AssertFail
                     else Inr (s2, next_burst b a)))"

definition addToWriteQueue :: "mem_ctrl \<Rightarrow> tick \<Rightarrow> nat \<Rightarrow> nat \<Rightarrow> bool \<Rightarrow> mem_ctrl result" where
  "addToWriteQueue s now pkt pkt_count is_dram =
     (if \<not> pk_isWrite (q_packets s pkt) then Inl AssertFail
      else case interface_of s is_dram of None \<Rightarrow> Inl OutOfBounds
        | Some i \<Rightarrow>
          rbind (iterate (write_burst now pkt is_dram i) pkt_count (s, pk_addr (q_packets s pkt))) (\<lambda>(s1, a).
          rbind (accessAndRespond s1 now pkt (q_frontendLatency s1)) (\<lambda>s2. Inr (schedule_now s2 now))))"

text \<open>\<open>recvTimingReq\<close>: the answer is whether the request is accepted.\<close>

definition recvTimingReq :: "mem_ctrl \<Rightarrow> tick \<Rightarrow> nat \<Rightarrow> nat \<Rightarrow> (mem_ctrl \<times> bool) result" where
  "recvTimingReq s0 now pkt qos =
     (let p = q_packets s0 pkt in
      if pk_cacheResponding p then Inl PanicFail
      else if \<not> (pk_isRead p \<or> pk_isWrite p) then Inl PanicFail
      else let s = s0\<lparr>q_s_totGap := (if q_prevArrival s0 \<noteq> 0 then q_s_totGap s0 + sub64 now (q_prevArrival s0)
                                     else q_s_totGap s0), q_prevArrival := now\<rparr> in
        case media_of s (pk_addr p) of None \<Rightarrow> Inl PanicFail
        | Some is_dram \<Rightarrow>
          (case interface_of s is_dram of None \<Rightarrow> Inl OutOfBounds
           | Some i \<Rightarrow>
             let size0 = pk_size p;
                 pkt_count = burst_count (mi_burstSize i) (pk_addr p) size0;
                 s1 = s\<lparr>q_packets := (q_packets s)(pkt := p\<lparr>pk_qos := qos\<rparr>)\<rparr>
             in if pk_isWrite p then
                  if size0 = 0 then Inl AssertFail
                  else if writeQueueFull s1 pkt_count
                  then Inr (s1\<lparr>q_retryWrReq := True, q_s_numWrRetry := q_s_numWrRetry s1 + 1\<rparr>, False)
                  else rbind (addToWriteQueue s1 now pkt pkt_count is_dram) (\<lambda>s2.
                    Inr (s2\<lparr>q_s_writeReqs := q_s_writeReqs s2 + 1,
                            q_s_bytesWrittenSys := q_s_bytesWrittenSys s2 + size0\<rparr>, True))
                else if size0 = 0 then Inl AssertFail
                else if readQueueFull s1 pkt_count
                then Inr (s1\<lparr>q_retryRdReq := True, q_s_numRdRetry := q_s_numRdRetry s1 + 1\<rparr>, False)
                else rbind (addToReadQueue s1 now pkt pkt_count is_dram) (\<lambda>s2.
                  Inr (s2\<lparr>q_s_readReqs := q_s_readReqs s2 + 1,
                          q_s_bytesReadSys := q_s_bytesReadSys s2 + size0\<rparr>, True))))"

section \<open>Invariant\<close>

definition queue_size :: "mem_packet list list \<Rightarrow> nat" where
  "queue_size queue = sum_list (map length queue)"

text \<open>The counters are the sizes of the queues, the write index has one address per queued write, and
  the buffers are within their limits.\<close>

definition q_wf :: "mem_ctrl \<Rightarrow> bool" where
  "q_wf s \<longleftrightarrow> (\<forall>i. q_dram s = Some i \<longrightarrow> mi_wf i) \<and> (\<forall>i. q_nvm s = Some i \<longrightarrow> mi_wf i) \<and>
     q_totalReadQueueSize s = queue_size (q_readQueue s) \<and>
     q_totalWriteQueueSize s = queue_size (q_writeQueue s) \<and>
     finite (q_isInWriteQueue s) \<and> q_totalWriteQueueSize s = card (q_isInWriteQueue s) \<and>
     q_totalReadQueueSize s + length (q_respQueue s) \<le> q_readBufferSize s \<and>
     q_totalWriteQueueSize s \<le> q_writeBufferSize s"

lemma queue_size_push: "k < length q \<Longrightarrow> queue_size (push_back q k m) = queue_size q + 1"
  by (induction q arbitrary: k) (auto simp: queue_size_def push_back_def split: nat.splits)

lemma iterate_total:
  assumes "\<And>k s. k < n \<Longrightarrow> I (Suc k) s \<Longrightarrow> \<exists>s'. f s = Inr s' \<and> I k s'" "I n s"
  shows "\<exists>s'. iterate f n s = Inr s' \<and> I 0 s'"
  using assms
proof (induction n arbitrary: s)
  case (Suc n)
  obtain s1 where "f s = Inr s1" "I n s1" using Suc.prems by blast
  then show ?case using Suc.IH[of s1] Suc.prems(1) by auto
qed simp

text \<open>What the queue loops leave alone.\<close>

definition q_frame :: "mem_ctrl \<Rightarrow> mem_ctrl \<Rightarrow> bool" where
  "q_frame s s' \<longleftrightarrow> q_dram s' = q_dram s \<and> q_nvm s' = q_nvm s \<and> q_packets s' = q_packets s \<and>
     q_readBufferSize s' = q_readBufferSize s \<and> q_writeBufferSize s' = q_writeBufferSize s \<and>
     q_respQueue s' = q_respQueue s \<and> q_frontendLatency s' = q_frontendLatency s \<and>
     q_responses s' = q_responses s \<and>
     length (q_readQueue s') = length (q_readQueue s) \<and> length (q_writeQueue s') = length (q_writeQueue s)"

lemma q_frame_refl [simp]: "q_frame s s"
  by (simp add: q_frame_def)

lemma q_frame_trans: "q_frame a b \<Longrightarrow> q_frame b c \<Longrightarrow> q_frame a c"
  by (simp add: q_frame_def)

lemma length_push_back [simp]: "length (push_back q k m) = length q"
  by (simp add: push_back_def)

lemma setupRank_fields:
  "q_frame s (setupRank s d r rd)" "q_readQueue (setupRank s d r rd) = q_readQueue s"
  "q_writeQueue (setupRank s d r rd) = q_writeQueue s" "q_isInWriteQueue (setupRank s d r rd) = q_isInWriteQueue s"
  "q_totalReadQueueSize (setupRank s d r rd) = q_totalReadQueueSize s"
  "q_totalWriteQueueSize (setupRank s d r rd) = q_totalWriteQueueSize s"
  "q_helpers (setupRank s d r rd) = q_helpers s" "q_next_helper (setupRank s d r rd) = q_next_helper s"
  by (simp_all add: setupRank_def q_frame_def)

section \<open>Writes\<close>

lemma write_burst_spec:
  assumes "q_wf s" "mi_wf i" "q_totalWriteQueueSize s < q_writeBufferSize s"
    and "pk_qos (q_packets s pkt) < length (q_writeQueue s)"
  shows "\<exists>s'. write_burst now pkt dr i (s, a) = Inr (s', next_burst (mi_burstSize i) a) \<and> q_wf s' \<and> q_frame s s' \<and>
    q_readQueue s' = q_readQueue s \<and> q_totalWriteQueueSize s' \<le> q_totalWriteQueueSize s + 1 \<and>
    q_isInWriteQueue s' = insert (burstAlign (mi_burstSize i) a) (q_isInWriteQueue s)"
proof (cases "burstAlign (mi_burstSize i) a \<in> q_isInWriteQueue s")
  case True
  then show ?thesis using assms(1)
    by (auto simp: write_burst_def Let_def q_wf_def q_frame_def)
next
  case False
  let ?s = "s\<lparr>q_s_writeBursts := Suc (q_s_writeBursts s)\<rparr>" and ?p = "q_packets s pkt" and ?b = "mi_burstSize i"
  let ?z = "piece_size ?b (pk_addr ?p) (pk_size ?p) a"
  obtain m where m: "decodePacket i now pkt (pk_qos ?p) a ?z False dr = Inr m" "mp_qosValue m = pk_qos ?p"
    using decodePacket_wf[OF assms(2)] by blast
  define s1 where "s1 = setupRank ?s dr (mp_rank m) False"
  define s2 where "s2 = logRequest (s1\<lparr>q_writeQueue := push_back (q_writeQueue s1) (mp_qosValue m) m,
                               q_isInWriteQueue := insert (burstAlign ?b a) (q_isInWriteQueue s1)\<rparr>) False"
  note f = setupRank_fields[of ?s dr "mp_rank m" False, folded s1_def]
  have s1: "q_frame s s1" "q_totalWriteQueueSize s1 = q_totalWriteQueueSize s" "q_writeQueue s1 = q_writeQueue s"
    "q_isInWriteQueue s1 = q_isInWriteQueue s" "q_readQueue s1 = q_readQueue s"
    "q_totalReadQueueSize s1 = q_totalReadQueueSize s"
    using f by (simp_all add: q_frame_def)
  have s2: "q_frame s s2" "q_wf s2" "q_readQueue s2 = q_readQueue s" "q_totalWriteQueueSize s2 = q_totalWriteQueueSize s + 1"
    "q_isInWriteQueue s2 = insert (burstAlign ?b a) (q_isInWriteQueue s)"
    "q_totalWriteQueueSize s2 = card (q_isInWriteQueue s2)"
    using s1 assms(1,3,4) m(2) False
    by (simp_all add: s2_def logRequest_def q_frame_def q_wf_def queue_size_push)
  have c: "q_totalWriteQueueSize s1 < q_writeBufferSize s1" "mp_qosValue m < length (q_writeQueue s1)"
    using s1(1,2,3) m(2) assms(3,4) by (simp_all add: q_frame_def)
  have "write_burst now pkt dr i (s, a) = Inr (s2, next_burst ?b a)"
    using False m(1) c[unfolded s1_def] s2(6)[unfolded s2_def s1_def]
    by (simp add: write_burst_def Let_def s2_def s1_def)
  then show ?thesis using s2 by auto
qed

lemma write_loop:
  assumes "q_wf s" "mi_wf i" "q_totalWriteQueueSize s + n \<le> q_writeBufferSize s"
    and "pk_qos (q_packets s pkt) < length (q_writeQueue s)"
  shows "\<exists>s' a'. iterate (write_burst now pkt dr i) n (s, a) = Inr (s', a') \<and> q_wf s' \<and> q_frame s s' \<and>
    q_readQueue s' = q_readQueue s \<and> q_isInWriteQueue s' = q_isInWriteQueue s \<union>
      burstAlign (mi_burstSize i) ` fst ` set (pieces (mi_burstSize i) base sz a n)"
  using assms(1,3,4)
proof (induction n arbitrary: s a)
  case (Suc n)
  obtain s1 where s1: "write_burst now pkt dr i (s, a) = Inr (s1, next_burst (mi_burstSize i) a)" "q_wf s1" "q_frame s s1"
    "q_readQueue s1 = q_readQueue s" "q_totalWriteQueueSize s1 \<le> q_totalWriteQueueSize s + 1"
    "q_isInWriteQueue s1 = insert (burstAlign (mi_burstSize i) a) (q_isInWriteQueue s)"
    using write_burst_spec[OF Suc.prems(1) assms(2), of pkt now dr a] Suc.prems(2,3) by auto
  have "q_totalWriteQueueSize s1 + n \<le> q_writeBufferSize s1" "pk_qos (q_packets s1 pkt) < length (q_writeQueue s1)"
    using s1(3,5) Suc.prems(2,3) by (simp_all add: q_frame_def)
  from Suc.IH[OF s1(2) this, of "next_burst (mi_burstSize i) a"] show ?case
    using s1 q_frame_trans[OF s1(3)] by auto
qed simp

text \<open>The packet can be accessed: its address is in a medium, and the medium takes the access.\<close>

definition backed :: "mem_ctrl \<Rightarrow> packet \<Rightarrow> bool" where
  "backed s p \<longleftrightarrow> (case media_of s (pk_addr p) of None \<Rightarrow> False
     | Some is_dram \<Rightarrow> mem_access (interface_of s is_dram) p = Inr ())"

text \<open>What of a packet that depends on.\<close>

definition access_key :: "packet \<Rightarrow> addr \<times> nat \<times> bool \<times> bool" where
  "access_key p = (pk_addr p, pk_size p, pk_cacheResponding p, pk_cleanEvict p)"

lemma access_key_upd [simp]:
  "access_key (p\<lparr>pk_isRequest := b\<rparr>) = access_key p" "access_key (p\<lparr>pk_headerDelay := t\<rparr>) = access_key p"
  "access_key (p\<lparr>pk_payloadDelay := t\<rparr>) = access_key p" "access_key (p\<lparr>pk_qos := n\<rparr>) = access_key p"
  by (simp_all add: access_key_def)

lemma backed_cong:
  assumes "q_dram s' = q_dram s" "q_nvm s' = q_nvm s" "access_key p' = access_key p"
  shows "backed s' p' = backed s p"
proof -
  have k: "pk_addr p' = pk_addr p" "pk_size p' = pk_size p" "pk_cacheResponding p' = pk_cacheResponding p"
    "pk_cleanEvict p' = pk_cleanEvict p"
    using assms(3) by (simp_all add: access_key_def)
  show ?thesis unfolding backed_def media_of_def interface_of_def mem_access_def k assms(1,2) ..
qed

lemma accessAndRespond_eq:
  "backed s (q_packets s pkt) \<Longrightarrow> accessAndRespond s now pkt l =
    (let p = q_packets s pkt in if pk_needsResponse p
     then Inr (s\<lparr>q_packets := (q_packets s)(pkt := p\<lparr>pk_isRequest := False, pk_headerDelay := 0, pk_payloadDelay := 0\<rparr>),
                 q_responses := q_responses s @ [(pkt, now + l + pk_headerDelay p + pk_payloadDelay p)]\<rparr>)
     else Inr (s\<lparr>q_pendingDelete := Some pkt\<rparr>))"
  by (auto simp: accessAndRespond_def backed_def Let_def split: option.splits)

lemma accessAndRespond_spec:
  assumes "backed s (q_packets s pkt)"
  shows "\<exists>s'. accessAndRespond s now pkt l = Inr s' \<and> q_wf s' = q_wf s \<and> q_readQueue s' = q_readQueue s \<and>
    q_writeQueue s' = q_writeQueue s \<and> q_isInWriteQueue s' = q_isInWriteQueue s \<and>
    q_respQueue s' = q_respQueue s \<and>
    q_responses s' = (if pk_needsResponse (q_packets s pkt) then q_responses s @
      [(pkt, now + l + pk_headerDelay (q_packets s pkt) + pk_payloadDelay (q_packets s pkt))] else q_responses s)"
  using assms by (auto simp: accessAndRespond_eq Let_def q_wf_def)

lemma schedule_now_fields:
  "q_wf (schedule_now s now) = q_wf s" "q_readQueue (schedule_now s now) = q_readQueue s"
  "q_writeQueue (schedule_now s now) = q_writeQueue s" "q_isInWriteQueue (schedule_now s now) = q_isInWriteQueue s"
  "q_respQueue (schedule_now s now) = q_respQueue s" "q_responses (schedule_now s now) = q_responses s"
  "q_helpers (schedule_now s now) = q_helpers s"
  by (simp_all add: schedule_now_def q_wf_def)

lemma q_frame_media: "q_frame s s' \<Longrightarrow> backed s' p = backed s p"
  by (rule backed_cong) (simp_all add: q_frame_def)

section \<open>Reads\<close>

text \<open>The read packets queued for a system packet, and the helper every one of them names.\<close>

definition queued_for :: "mem_ctrl \<Rightarrow> nat \<Rightarrow> mem_packet list" where
  "queued_for s pkt = filter (\<lambda>m. mp_pkt m = pkt) (concat (q_readQueue s))"

lemma queued_for_push:
  assumes "k < length (q_readQueue s)" "q_readQueue s' = push_back (q_readQueue s) k m"
  shows "length (queued_for s' pkt) = length (queued_for s pkt) + (if mp_pkt m = pkt then 1 else 0)"
    "set (queued_for s' pkt) = set (queued_for s pkt) \<union> (if mp_pkt m = pkt then {m} else {})"
proof -
  obtain us v ws where q: "q_readQueue s = us @ v # ws" "length us = k"
    using assms(1) by (metis id_take_nth_drop length_take less_imp_le min.absorb2)
  then have "push_back (q_readQueue s) k m = us @ (v @ [m]) # ws"
    by (simp add: push_back_def list_update_append nth_append)
  then show "length (queued_for s' pkt) = length (queued_for s pkt) + (if mp_pkt m = pkt then 1 else 0)"
    "set (queued_for s' pkt) = set (queued_for s pkt) \<union> (if mp_pkt m = pkt then {m} else {})"
    using q(1) by (auto simp: queued_for_def assms(2))
qed

lemma write_queue_hits_le: "write_queue_hits s b a z \<le> length (q_writeQueue s)"
  by (simp add: write_queue_hits_def)

text \<open>One enqueued burst.\<close>

lemma read_enqueue_spec:
  fixes n :: nat and hp :: "nat option"
  assumes "q_wf s" "mi_wf i" "q_totalReadQueueSize s + length (q_respQueue s) < q_readBufferSize s"
    and "pk_qos (q_packets s pkt) < length (q_readQueue s)"
  defines "new \<equiv> 1 < n \<and> hp = None"
  shows "\<exists>s' m hp'. read_enqueue now pkt n dr i s a z hp = Inr (s', hp') \<and> q_wf s' \<and> q_frame s s' \<and>
    q_writeQueue s' = q_writeQueue s \<and> q_isInWriteQueue s' = q_isInWriteQueue s \<and>
    q_totalReadQueueSize s' = q_totalReadQueueSize s + 1 \<and>
    hp' = (if new then Some (q_next_helper s) else hp) \<and>
    q_helpers s' = (if new then (q_helpers s)(q_next_helper s := \<lparr>bh_burstCount = n, bh_burstsServiced = 0\<rparr>) else q_helpers s) \<and>
    q_readQueue s' = push_back (q_readQueue s) (pk_qos (q_packets s pkt)) m \<and> mp_pkt m = pkt \<and> mp_burstHelper m = hp' \<and>
    mp_addr m = a \<and> mp_size m = z"
proof -
  define hp' where "hp' = (if new then Some (q_next_helper s) else hp)"
  define s1 where "s1 = (if new then s\<lparr>q_helpers := (q_helpers s)(q_next_helper s := \<lparr>bh_burstCount = n, bh_burstsServiced = 0\<rparr>),
                    q_next_helper := q_next_helper s + 1\<rparr> else s)"
  have pr: "(if 1 < n \<and> hp = None then (s\<lparr>q_helpers := (q_helpers s)(q_next_helper s := \<lparr>bh_burstCount = n, bh_burstsServiced = 0\<rparr>),
                    q_next_helper := q_next_helper s + 1\<rparr>, Some (q_next_helper s)) else (s, hp)) = (s1, hp')"
    by (simp add: s1_def hp'_def new_def)
  have s1: "q_frame s s1" "q_wf s1" "q_readQueue s1 = q_readQueue s" "q_writeQueue s1 = q_writeQueue s"
    "q_isInWriteQueue s1 = q_isInWriteQueue s" "q_totalReadQueueSize s1 = q_totalReadQueueSize s"
    "q_totalWriteQueueSize s1 = q_totalWriteQueueSize s" "q_packets s1 = q_packets s"
    "q_helpers s1 = (if new then (q_helpers s)(q_next_helper s := \<lparr>bh_burstCount = n, bh_burstsServiced = 0\<rparr>) else q_helpers s)"
    using assms(1) by (simp_all add: s1_def q_frame_def q_wf_def)
  obtain m where m: "decodePacket i now pkt (pk_qos (q_packets s1 pkt)) a z True dr = Inr m"
    "mp_qosValue m = pk_qos (q_packets s pkt)" "mp_pkt m = pkt" "mp_addr m = a" "mp_size m = z"
    using decodePacket_wf[OF assms(2), of now pkt "pk_qos (q_packets s1 pkt)" a z True dr] s1(8) by auto
  define s2 where "s2 = setupRank s1 dr (mp_rank m) True"
  define m1 where "m1 = m\<lparr>mp_burstHelper := hp', mp_readyTime := (if dr then mp_readyTime m else MaxTick)\<rparr>"
  define s3 where "s3 = logRequest (s2\<lparr>q_readQueue := push_back (q_readQueue s2) (mp_qosValue m1) m1\<rparr>) True"
  note f = setupRank_fields[of s1 dr "mp_rank m" True, folded s2_def]
  have m1: "mp_qosValue m1 = pk_qos (q_packets s pkt)" "mp_pkt m1 = pkt" "mp_burstHelper m1 = hp'" "mp_addr m1 = a"
    "mp_size m1 = z" using m by (simp_all add: m1_def)
  have c: "\<not> readQueueFull s2 1" "mp_qosValue m1 < length (q_readQueue s2)"
    using f s1 assms(3,4) m1(1) by (simp_all add: readQueueFull_def q_frame_def)
  have eq: "read_enqueue now pkt n dr i s a z hp = Inr (s3, hp')"
    unfolding read_enqueue_def pr Let_def prod.case m(1) rbind_Inr s2_def[symmetric] m1_def[symmetric] s3_def[symmetric]
    using c by simp
  have fr: "q_frame s s2" using q_frame_trans[OF s1(1) f(1)] .
  have "q_wf s3"
    using s1(1-7) f assms(3,4) m1(1) by (simp add: s3_def logRequest_def q_wf_def q_frame_def queue_size_push)
  moreover have "q_frame s s3" using fr by (simp add: s3_def logRequest_def q_frame_def)
  moreover have "q_readQueue s3 = push_back (q_readQueue s) (pk_qos (q_packets s pkt)) m1"
    "q_writeQueue s3 = q_writeQueue s" "q_isInWriteQueue s3 = q_isInWriteQueue s"
    "q_totalReadQueueSize s3 = q_totalReadQueueSize s + 1" "q_helpers s3 = q_helpers s1"
    using f s1 m1(1) by (simp_all add: s3_def logRequest_def)
  ultimately show ?thesis using eq m1 s1(9) hp'_def by (intro exI[of _ s3] exI[of _ m1] exI[of _ hp']) simp
qed

text \<open>The accounting of a read's pieces, for a controller with one priority: \<open>k\<close> pieces to go.\<close>

definition read_inv :: "mem_ctrl \<Rightarrow> nat \<Rightarrow> nat \<Rightarrow> nat \<Rightarrow> read_loop \<Rightarrow> bool" where
  "read_inv s0 pkt n k st \<longleftrightarrow> (case st of (s, a, sv, hp) \<Rightarrow>
     q_wf s \<and> q_frame s0 s \<and> q_writeQueue s = q_writeQueue s0 \<and> q_isInWriteQueue s = q_isInWriteQueue s0 \<and>
     q_totalReadQueueSize s + length (q_respQueue s) + k \<le> q_readBufferSize s \<and>
     (length (q_writeQueue s0) = 1 \<and> queued_for s0 pkt = [] \<longrightarrow>
       sv + length (queued_for s pkt) + k = n \<and> (\<forall>m\<in>set (queued_for s pkt). mp_burstHelper m = hp) \<and>
       (hp = None \<longrightarrow> queued_for s pkt = [] \<or> n \<le> 1) \<and>
       (\<forall>h. hp = Some h \<longrightarrow> 1 < n \<and> bh_burstCount (q_helpers s h) = n)))"

lemma read_burst_inv:
  assumes "read_inv s0 pkt n (Suc k) st" "mi_wf i" "pk_qos (q_packets s0 pkt) < length (q_readQueue s0)"
  shows "\<exists>st'. read_burst now pkt n dr i st = Inr st' \<and> read_inv s0 pkt n k st'"
proof -
  obtain s a sv hp where st: "st = (s, a, sv, hp)" by (metis prod_cases4)
  let ?b = "mi_burstSize i" and ?p = "q_packets s pkt"
  let ?z = "piece_size ?b (pk_addr ?p) (pk_size ?p) a"
  define h where "h = write_queue_hits s ?b a ?z"
  define s1 where "s1 = s\<lparr>q_s_readBursts := q_s_readBursts s + 1, q_s_servicedByWrQ := q_s_servicedByWrQ s + h,
                   q_s_bytesReadWrQ := q_s_bytesReadWrQ s + h * ?b\<rparr>"
  have I: "q_wf s" "q_frame s0 s" "q_writeQueue s = q_writeQueue s0" "q_isInWriteQueue s = q_isInWriteQueue s0"
    "q_totalReadQueueSize s + length (q_respQueue s) + Suc k \<le> q_readBufferSize s"
    "length (q_writeQueue s0) = 1 \<and> queued_for s0 pkt = [] \<Longrightarrow>
       sv + length (queued_for s pkt) + Suc k = n \<and> (\<forall>m\<in>set (queued_for s pkt). mp_burstHelper m = hp) \<and>
       (hp = None \<longrightarrow> queued_for s pkt = [] \<or> n \<le> 1) \<and>
       (\<forall>h. hp = Some h \<longrightarrow> 1 < n \<and> bh_burstCount (q_helpers s h) = n)"
    using assms(1) unfolding st read_inv_def by simp_all
  have s1: "q_wf s1" "q_frame s s1" "q_writeQueue s1 = q_writeQueue s" "q_isInWriteQueue s1 = q_isInWriteQueue s"
    "q_readQueue s1 = q_readQueue s" "q_totalReadQueueSize s1 = q_totalReadQueueSize s" "q_packets s1 = q_packets s"
    "q_helpers s1 = q_helpers s" "q_respQueue s1 = q_respQueue s" "q_readBufferSize s1 = q_readBufferSize s"
    "queued_for s1 pkt = queued_for s pkt"
    using I(1) by (simp_all add: s1_def q_wf_def q_frame_def queued_for_def)
  have eq: "read_burst now pkt n dr i st =
      rbind (if h = 0 then read_enqueue now pkt n dr i s1 a ?z hp else Inr (s1, hp))
        (\<lambda>(s2, hp2). Inr (s2, next_burst ?b a, sv + h, hp2))"
    unfolding st read_burst_def prod.case Let_def h_def[symmetric] s1_def[symmetric] ..
  have fr: "q_frame s0 s1" using q_frame_trans[OF I(2) s1(2)] .
  show ?thesis
  proof (cases "h = 0")
    case False
    have "h \<le> length (q_writeQueue s)" unfolding h_def by (rule write_queue_hits_le)
    then have one: "length (q_writeQueue s0) = 1 \<Longrightarrow> h = 1" using False I(3) by simp
    have "read_inv s0 pkt n k (s1, next_burst ?b a, sv + h, hp)"
      unfolding read_inv_def prod.case using I fr s1 one by simp
    then show ?thesis unfolding eq using False by simp
  next
    case True
    have room: "q_totalReadQueueSize s1 + length (q_respQueue s1) < q_readBufferSize s1"
      "pk_qos (q_packets s1 pkt) < length (q_readQueue s1)"
      using I(5) s1 assms(3) I(2) by (simp_all add: q_frame_def)
    obtain s2 m hp2 where r: "read_enqueue now pkt n dr i s1 a ?z hp = Inr (s2, hp2)" "q_wf s2" "q_frame s1 s2"
      "q_writeQueue s2 = q_writeQueue s1" "q_isInWriteQueue s2 = q_isInWriteQueue s1"
      "q_totalReadQueueSize s2 = q_totalReadQueueSize s1 + 1"
      "hp2 = (if 1 < n \<and> hp = None then Some (q_next_helper s1) else hp)"
      "q_helpers s2 = (if 1 < n \<and> hp = None then (q_helpers s1)(q_next_helper s1 := \<lparr>bh_burstCount = n, bh_burstsServiced = 0\<rparr>) else q_helpers s1)"
      "q_readQueue s2 = push_back (q_readQueue s1) (pk_qos (q_packets s1 pkt)) m" "mp_pkt m = pkt" "mp_burstHelper m = hp2"
      using read_enqueue_spec[OF s1(1) assms(2) room, of now n dr a ?z hp] by blast
    have q: "length (queued_for s2 pkt) = length (queued_for s pkt) + 1" "set (queued_for s2 pkt) = set (queued_for s pkt) \<union> {m}"
      using queued_for_push[OF room(2) r(9), of pkt] r(10) s1(11) by simp_all
    have sz: "q_totalReadQueueSize s2 + length (q_respQueue s2) + k \<le> q_readBufferSize s2"
      using I(5) s1 r(3,6) by (simp add: q_frame_def)
    have acc: "sv + length (queued_for s2 pkt) + k = n \<and> (\<forall>m\<in>set (queued_for s2 pkt). mp_burstHelper m = hp2) \<and>
       (hp2 = None \<longrightarrow> queued_for s2 pkt = [] \<or> n \<le> 1) \<and>
       (\<forall>h. hp2 = Some h \<longrightarrow> 1 < n \<and> bh_burstCount (q_helpers s2 h) = n)"
      if "length (q_writeQueue s0) = 1 \<and> queued_for s0 pkt = []"
    proof (cases "1 < n \<and> hp = None")
      case True
      then have "queued_for s pkt = []" using I(6)[OF that] by auto
      then show ?thesis using I(6)[OF that] q r(7,8,11) True by simp
    next
      case False
      then show ?thesis using I(6)[OF that] q r(7,8,11) s1(8) by auto
    qed
    have "read_inv s0 pkt n k (s2, next_burst ?b a, sv + h, hp2)"
      unfolding read_inv_def prod.case
      using r(2,4,5) I(3,4) s1(3,4) q_frame_trans[OF fr r(3)] sz acc True by simp
    then show ?thesis unfolding eq using True r(1) by simp
  qed
qed

lemma read_loop_spec:
  assumes "q_wf s" "mi_wf i" "q_totalReadQueueSize s + length (q_respQueue s) + n \<le> q_readBufferSize s"
    and "pk_qos (q_packets s pkt) < length (q_readQueue s)"
  shows "\<exists>st'. iterate (read_burst now pkt n dr i) n (s, a, 0, None) = Inr st' \<and> read_inv s pkt n 0 st'"
proof (rule iterate_total[where I = "read_inv s pkt n"])
  show "read_inv s pkt n n (s, a, 0, None)" using assms(1,3) by (simp add: read_inv_def)
qed (use read_burst_inv[OF _ assms(2,4)] in blast)


text \<open>The two enqueue operations, when there is room.\<close>

lemma burst_count_pos: "0 < b \<Longrightarrow> 0 < z \<Longrightarrow> 0 < burst_count b a z"
  by (simp add: burst_count_def Let_def div_greater_zero_iff)

lemma media_interface: "media_of s a = Some dr \<Longrightarrow> \<exists>i. interface_of s dr = Some i"
  by (auto simp: media_of_def interface_of_def split: if_splits option.splits)

lemma interface_wf: "q_wf s \<Longrightarrow> interface_of s dr = Some i \<Longrightarrow> mi_wf i"
  by (simp add: q_wf_def interface_of_def split: if_splits)

lemma addToWriteQueue_spec:
  assumes "q_wf s" "interface_of s dr = Some i" "backed s (q_packets s pkt)"
    and "pk_isWrite (q_packets s pkt)" "q_totalWriteQueueSize s + n \<le> q_writeBufferSize s"
    and "pk_qos (q_packets s pkt) < length (q_writeQueue s)"
  shows "\<exists>s'. addToWriteQueue s now pkt n dr = Inr s' \<and> q_wf s' \<and> q_readQueue s' = q_readQueue s \<and>
    q_isInWriteQueue s' = q_isInWriteQueue s \<union> burstAlign (mi_burstSize i) ` fst ` set (pieces (mi_burstSize i)
      (pk_addr (q_packets s pkt)) (pk_size (q_packets s pkt)) (pk_addr (q_packets s pkt)) n) \<and>
    (pk_needsResponse (q_packets s pkt) \<longrightarrow> (\<exists>t. q_responses s' = q_responses s @ [(pkt, t)]))"
proof -
  let ?p = "q_packets s pkt"
  obtain s1 a1 where l: "iterate (write_burst now pkt dr i) n (s, pk_addr ?p) = Inr (s1, a1)" "q_wf s1" "q_frame s s1"
    "q_readQueue s1 = q_readQueue s" "q_isInWriteQueue s1 = q_isInWriteQueue s \<union>
      burstAlign (mi_burstSize i) ` fst ` set (pieces (mi_burstSize i) (pk_addr ?p) (pk_size ?p) (pk_addr ?p) n)"
    using write_loop[OF assms(1) interface_wf[OF assms(1,2)] assms(5,6)] by blast
  have pk: "q_packets s1 = q_packets s" using l(3) by (simp add: q_frame_def)
  have "backed s1 (q_packets s1 pkt)" using assms(3) q_frame_media[OF l(3)] pk by simp
  from accessAndRespond_spec[OF this, of now "q_frontendLatency s1"] obtain s2 where
    r: "accessAndRespond s1 now pkt (q_frontendLatency s1) = Inr s2" "q_wf s2 = q_wf s1" "q_readQueue s2 = q_readQueue s1"
      "q_isInWriteQueue s2 = q_isInWriteQueue s1"
      "pk_needsResponse ?p \<Longrightarrow> \<exists>t. q_responses s2 = q_responses s1 @ [(pkt, t)]"
    unfolding pk by auto
  have "addToWriteQueue s now pkt n dr = Inr (schedule_now s2 now)"
    unfolding addToWriteQueue_def using assms(2,4) l(1) r(1) by simp
  then show ?thesis using l r by (auto simp: schedule_now_fields q_frame_def)
qed

text \<open>The accounting of a split read once it is enqueued: unless every piece was served, the queued
  pieces share one helper that waits for exactly them; a read all of whose pieces were served is
  answered.\<close>

definition read_accounted :: "mem_ctrl \<Rightarrow> mem_ctrl \<Rightarrow> nat \<Rightarrow> nat \<Rightarrow> bool" where
  "read_accounted s s' pkt n \<longleftrightarrow> (let q = queued_for s' pkt in
     if q = [] then pk_needsResponse (q_packets s pkt) \<longrightarrow> (\<exists>t. q_responses s' = q_responses s @ [(pkt, t)])
     else q_responses s' = q_responses s \<and> length q \<le> n \<and>
       (if n = 1 then \<forall>m\<in>set q. mp_burstHelper m = None
        else \<exists>h. (\<forall>m\<in>set q. mp_burstHelper m = Some h) \<and> bh_burstCount (q_helpers s' h) = n \<and>
          bh_burstsServiced (q_helpers s' h) + length q = n))"

lemma read_accounted_cong:
  assumes "q_responses s = q_responses t" "pk_needsResponse (q_packets s pkt) = pk_needsResponse (q_packets t pkt)"
    and "queued_for u pkt = queued_for v pkt" "q_responses u = q_responses v" "q_helpers u = q_helpers v"
  shows "read_accounted s v pkt n = read_accounted t u pkt n"
  unfolding read_accounted_def assms ..

lemma addToReadQueue_spec:
  assumes "q_wf s" "interface_of s dr = Some i" "backed s (q_packets s pkt)"
    and "\<not> pk_isWrite (q_packets s pkt)" "0 < n"
    and "q_totalReadQueueSize s + length (q_respQueue s) + n \<le> q_readBufferSize s"
    and "pk_qos (q_packets s pkt) < length (q_readQueue s)"
  shows "\<exists>s'. addToReadQueue s now pkt n dr = Inr s' \<and> q_wf s' \<and> q_writeQueue s' = q_writeQueue s \<and>
    q_isInWriteQueue s' = q_isInWriteQueue s \<and>
    (length (q_writeQueue s) = 1 \<and> queued_for s pkt = [] \<longrightarrow> read_accounted s s' pkt n)"
proof -
  let ?p = "q_packets s pkt"
  obtain st where st: "iterate (read_burst now pkt n dr i) n (s, pk_addr ?p, 0, None) = Inr st" "read_inv s pkt n 0 st"
    using read_loop_spec[OF assms(1) interface_wf[OF assms(1,2)] assms(6,7)] by blast
  obtain s1 a sv hp where e: "st = (s1, a, sv, hp)" by (metis prod_cases4)
  have I: "q_wf s1" "q_frame s s1" "q_writeQueue s1 = q_writeQueue s" "q_isInWriteQueue s1 = q_isInWriteQueue s"
    "length (q_writeQueue s) = 1 \<and> queued_for s pkt = [] \<Longrightarrow>
       sv + length (queued_for s1 pkt) = n \<and> (\<forall>m\<in>set (queued_for s1 pkt). mp_burstHelper m = hp) \<and>
       (hp = None \<longrightarrow> queued_for s1 pkt = [] \<or> n \<le> 1) \<and>
       (\<forall>h. hp = Some h \<longrightarrow> 1 < n \<and> bh_burstCount (q_helpers s1 h) = n)"
    using st(2) unfolding e read_inv_def by simp_all
  have pk: "q_packets s1 = q_packets s" "q_responses s1 = q_responses s" using I(2) by (simp_all add: q_frame_def)
  show ?thesis
  proof (cases "sv = n")
    case True
    have "backed s1 (q_packets s1 pkt)" using assms(3) q_frame_media[OF I(2)] pk by simp
    from accessAndRespond_spec[OF this, of now "q_frontendLatency s1"] obtain s2 where
      r: "accessAndRespond s1 now pkt (q_frontendLatency s1) = Inr s2" "q_wf s2 = q_wf s1" "q_readQueue s2 = q_readQueue s1"
        "q_isInWriteQueue s2 = q_isInWriteQueue s1" "q_writeQueue s2 = q_writeQueue s1"
        "pk_needsResponse ?p \<Longrightarrow> \<exists>t. q_responses s2 = q_responses s1 @ [(pkt, t)]"
      unfolding pk by auto
    have "addToReadQueue s now pkt n dr = Inr s2"
      unfolding addToReadQueue_def using assms(2,4,5) st(1) r(1) True e by simp
    moreover have "read_accounted s s2 pkt n" if h: "length (q_writeQueue s) = 1 \<and> queued_for s pkt = []"
    proof -
      have "queued_for s1 pkt = []" using I(5)[OF h] True by simp
      then have "queued_for s2 pkt = []" using r(3) by (simp add: queued_for_def)
      then show ?thesis using r(6) pk(2) by (simp add: read_accounted_def)
    qed
    ultimately show ?thesis using I r by auto
  next
    case False
    define s2 where "s2 = (case hp of None \<Rightarrow> s1 | Some h \<Rightarrow>
        s1\<lparr>q_helpers := (q_helpers s1)(h := (q_helpers s1 h)\<lparr>bh_burstsServiced := sv\<rparr>)\<rparr>)"
    have s2: "q_wf s2 = q_wf s1" "q_writeQueue s2 = q_writeQueue s1" "q_isInWriteQueue s2 = q_isInWriteQueue s1"
      "q_readQueue s2 = q_readQueue s1" "q_responses s2 = q_responses s1"
      by (simp_all add: s2_def q_wf_def split: option.split)
    have "addToReadQueue s now pkt n dr = Inr (schedule_now s2 now)"
      unfolding addToReadQueue_def using assms(2,4,5) st(1) False e by (simp add: s2_def)
    moreover have "read_accounted s (schedule_now s2 now) pkt n" if h: "length (q_writeQueue s) = 1 \<and> queued_for s pkt = []"
    proof -
      have q: "queued_for (schedule_now s2 now) pkt = queued_for s1 pkt"
        by (simp add: queued_for_def schedule_now_fields s2)
      have ne: "queued_for s1 pkt \<noteq> []" using I(5)[OF h] False by auto
      show ?thesis
      proof (cases hp)
        case None
        then have "n = 1" using I(5)[OF h] ne assms(5) by auto
        then show ?thesis using None I(5)[OF h] ne pk(2) q by (auto simp: read_accounted_def schedule_now_fields s2)
      next
        case (Some h')
        then have "n \<noteq> 1" using I(5)[OF h] by auto
        then show ?thesis using Some I(5)[OF h] ne pk(2) q
          by (auto simp: read_accounted_def schedule_now_fields s2 Let_def) (auto simp: s2_def)
      qed
    qed
    ultimately show ?thesis using I s2 by (auto simp: schedule_now_fields)
  qed
qed


section \<open>Properties\<close>

text \<open>The packet after the QoS scheduler has set its priority, and the statistics of its arrival.\<close>

definition arrived :: "mem_ctrl \<Rightarrow> tick \<Rightarrow> nat \<Rightarrow> nat \<Rightarrow> mem_ctrl" where
  "arrived s now pkt qos = s\<lparr>q_s_totGap := (if q_prevArrival s \<noteq> 0 then q_s_totGap s + sub64 now (q_prevArrival s)
     else q_s_totGap s), q_prevArrival := now, q_packets := (q_packets s)(pkt := (q_packets s pkt)\<lparr>pk_qos := qos\<rparr>)\<rparr>"

lemma arrived_fields:
  "q_wf (arrived s now pkt qos) = q_wf s" "q_readQueue (arrived s now pkt qos) = q_readQueue s"
  "q_writeQueue (arrived s now pkt qos) = q_writeQueue s" "q_isInWriteQueue (arrived s now pkt qos) = q_isInWriteQueue s"
  "q_respQueue (arrived s now pkt qos) = q_respQueue s" "q_responses (arrived s now pkt qos) = q_responses s"
  "q_packets (arrived s now pkt qos) pkt = (q_packets s pkt)\<lparr>pk_qos := qos\<rparr>"
  "q_totalReadQueueSize (arrived s now pkt qos) = q_totalReadQueueSize s"
  "q_totalWriteQueueSize (arrived s now pkt qos) = q_totalWriteQueueSize s"
  "q_readBufferSize (arrived s now pkt qos) = q_readBufferSize s"
  "q_writeBufferSize (arrived s now pkt qos) = q_writeBufferSize s"
  "media_of (arrived s now pkt qos) a = media_of s a" "interface_of (arrived s now pkt qos) dr = interface_of s dr"
  "queued_for (arrived s now pkt qos) x = queued_for s x"
  "backed (arrived s now pkt qos) ((q_packets s pkt)\<lparr>pk_qos := qos\<rparr>) = backed s (q_packets s pkt)"
  by (simp_all add: arrived_def q_wf_def media_of_def interface_of_def queued_for_def)
    (intro conjI impI backed_cong, simp_all)

text \<open>\<open>recvTimingReq\<close> on a packet the controller can serve, in terms of the two enqueue operations.\<close>

definition servable :: "mem_ctrl \<Rightarrow> nat \<Rightarrow> nat \<Rightarrow> bool \<Rightarrow> mem_interface \<Rightarrow> bool" where
  "servable s pkt qos dr i \<longleftrightarrow> (let p = q_packets s pkt in \<not> pk_cacheResponding p \<and> (pk_isRead p \<or> pk_isWrite p) \<and>
     0 < pk_size p \<and> media_of s (pk_addr p) = Some dr \<and> interface_of s dr = Some i \<and> backed s p \<and>
     qos < length (q_readQueue s) \<and> qos < length (q_writeQueue s))"

definition pieces_of :: "mem_ctrl \<Rightarrow> nat \<Rightarrow> mem_interface \<Rightarrow> nat" where
  "pieces_of s pkt i = burst_count (mi_burstSize i) (pk_addr (q_packets s pkt)) (pk_size (q_packets s pkt))"

lemma recvTimingReq_eq:
  fixes s now pkt qos dr i
  defines "t \<equiv> arrived s now pkt qos" and "n \<equiv> pieces_of s pkt i" and "p \<equiv> q_packets s pkt"
  assumes "servable s pkt qos dr i"
  shows "recvTimingReq s now pkt qos =
    (if pk_isWrite p then if writeQueueFull t n then Inr (t\<lparr>q_retryWrReq := True, q_s_numWrRetry := q_s_numWrRetry t + 1\<rparr>, False)
       else rbind (addToWriteQueue t now pkt n dr) (\<lambda>u. Inr (u\<lparr>q_s_writeReqs := q_s_writeReqs u + 1,
         q_s_bytesWrittenSys := q_s_bytesWrittenSys u + pk_size p\<rparr>, True))
     else if readQueueFull t n then Inr (t\<lparr>q_retryRdReq := True, q_s_numRdRetry := q_s_numRdRetry t + 1\<rparr>, False)
       else rbind (addToReadQueue t now pkt n dr) (\<lambda>u. Inr (u\<lparr>q_s_readReqs := q_s_readReqs u + 1,
         q_s_bytesReadSys := q_s_bytesReadSys u + pk_size p\<rparr>, True)))"
proof -
  define s1 where "s1 = s\<lparr>q_s_totGap := (if q_prevArrival s \<noteq> 0 then q_s_totGap s + sub64 now (q_prevArrival s)
                                     else q_s_totGap s), q_prevArrival := now\<rparr>"
  have "s1\<lparr>q_packets := (q_packets s1)(pkt := (q_packets s pkt)\<lparr>pk_qos := qos\<rparr>)\<rparr> = t"
    by (simp add: s1_def t_def arrived_def)
  moreover have "media_of s1 a = media_of s a" "interface_of s1 dr = interface_of s dr" for a
    by (simp_all add: s1_def media_of_def interface_of_def)
  ultimately show ?thesis using assms(4) unfolding recvTimingReq_def Let_def s1_def[symmetric] servable_def
    by (simp add: n_def pieces_of_def p_def)
qed

text \<open>Both outcomes of a request at once: what the two enqueue operations give.\<close>

lemma recvTimingReq_spec:
  assumes "q_wf s" "servable s pkt qos dr i"
  shows "\<exists>s' ok. recvTimingReq s now pkt qos = Inr (s', ok) \<and> q_wf s' \<and>
    ok = (if pk_isWrite (q_packets s pkt) then q_totalWriteQueueSize s + pieces_of s pkt i \<le> q_writeBufferSize s
          else q_totalReadQueueSize s + length (q_respQueue s) + pieces_of s pkt i \<le> q_readBufferSize s) \<and>
    (if \<not> ok then q_readQueue s' = q_readQueue s \<and> q_writeQueue s' = q_writeQueue s \<and> q_responses s' = q_responses s
     else if pk_isWrite (q_packets s pkt) then q_readQueue s' = q_readQueue s \<and>
       q_isInWriteQueue s' = q_isInWriteQueue s \<union> burstAlign (mi_burstSize i) ` fst ` set (pieces (mi_burstSize i)
         (pk_addr (q_packets s pkt)) (pk_size (q_packets s pkt)) (pk_addr (q_packets s pkt)) (pieces_of s pkt i)) \<and>
       (pk_needsResponse (q_packets s pkt) \<longrightarrow> (\<exists>t. q_responses s' = q_responses s @ [(pkt, t)]))
     else q_writeQueue s' = q_writeQueue s \<and>
       (length (q_writeQueue s) = 1 \<and> queued_for s pkt = [] \<longrightarrow> read_accounted s s' pkt (pieces_of s pkt i)))"
proof -
  let ?t = "arrived s now pkt qos" and ?n = "pieces_of s pkt i" and ?p = "q_packets s pkt"
  note eq = recvTimingReq_eq[OF assms(2), of now]
  have S: "0 < pk_size ?p" "media_of s (pk_addr ?p) = Some dr" "interface_of s dr = Some i"
    "qos < length (q_readQueue s)" "qos < length (q_writeQueue s)" "backed s ?p"
    using assms(2) by (simp_all add: servable_def Let_def)
  have n: "0 < ?n" unfolding pieces_of_def
    using interface_wf[OF assms(1) S(3)] S(1) by (intro burst_count_pos) (simp_all add: mi_wf_def)
  have t: "q_wf ?t" "interface_of ?t dr = Some i" "backed ?t (q_packets ?t pkt)"
    using assms(1) S by (simp_all add: arrived_fields)
  show ?thesis
  proof (cases "pk_isWrite ?p")
    case w: True
    show ?thesis
    proof (cases "writeQueueFull ?t ?n")
      case True
      then have "\<not> q_totalWriteQueueSize s + ?n \<le> q_writeBufferSize s" by (simp add: writeQueueFull_def arrived_fields)
      moreover have "q_wf (?t\<lparr>q_retryWrReq := True, q_s_numWrRetry := q_s_numWrRetry ?t + 1\<rparr>)"
        using t(1) by (simp add: q_wf_def)
      ultimately show ?thesis unfolding eq using True w by (simp add: arrived_fields) (rule exI[of _ False], simp)
    next
      case False
      then have room: "q_totalWriteQueueSize s + ?n \<le> q_writeBufferSize s" by (simp add: writeQueueFull_def arrived_fields)
      obtain u where u: "addToWriteQueue ?t now pkt ?n dr = Inr u" "q_wf u" "q_readQueue u = q_readQueue s"
        "q_isInWriteQueue u = q_isInWriteQueue s \<union> burstAlign (mi_burstSize i) ` fst ` set (pieces (mi_burstSize i)
           (pk_addr ?p) (pk_size ?p) (pk_addr ?p) ?n)"
        "pk_needsResponse ?p \<longrightarrow> (\<exists>t. q_responses u = q_responses s @ [(pkt, t)])"
        using addToWriteQueue_spec[OF t, of ?n now] w room S by (auto simp: arrived_fields)
      then show ?thesis unfolding eq using False w room by (simp add: q_wf_def) (rule exI[of _ True], simp)
    qed
  next
    case r: False
    show ?thesis
    proof (cases "readQueueFull ?t ?n")
      case True
      then have "\<not> q_totalReadQueueSize s + length (q_respQueue s) + ?n \<le> q_readBufferSize s"
        by (simp add: readQueueFull_def arrived_fields)
      moreover have "q_wf (?t\<lparr>q_retryRdReq := True, q_s_numRdRetry := q_s_numRdRetry ?t + 1\<rparr>)"
        using t(1) by (simp add: q_wf_def)
      ultimately show ?thesis unfolding eq using True r by (simp add: arrived_fields) (rule exI[of _ False], simp)
    next
      case False
      then have room: "q_totalReadQueueSize s + length (q_respQueue s) + ?n \<le> q_readBufferSize s"
        by (simp add: readQueueFull_def arrived_fields)
      obtain u where u: "addToReadQueue ?t now pkt ?n dr = Inr u" "q_wf u" "q_writeQueue u = q_writeQueue s"
        "length (q_writeQueue s) = 1 \<and> queued_for s pkt = [] \<longrightarrow> read_accounted ?t u pkt ?n"
        using addToReadQueue_spec[OF t, of ?n now] r n room S by (auto simp: arrived_fields)
      define v where "v = u\<lparr>q_s_readReqs := q_s_readReqs u + 1, q_s_bytesReadSys := q_s_bytesReadSys u + pk_size ?p\<rparr>"
      have v: "q_wf v" "q_writeQueue v = q_writeQueue s" "queued_for v pkt = queued_for u pkt"
        "q_responses v = q_responses u" "q_helpers v = q_helpers u"
        using u(2,3) by (simp_all add: v_def q_wf_def queued_for_def)
      have acc: "length (q_writeQueue s) = 1 \<and> queued_for s pkt = [] \<longrightarrow> read_accounted s v pkt ?n"
        using u(4) read_accounted_cong[of ?t s pkt v u ?n] v(3-5) by (simp add: arrived_fields)
      have "recvTimingReq s now pkt qos = Inr (v, True)"
        unfolding eq using False r u(1) by (simp add: v_def)
      then show ?thesis using v(1,2) acc r room by (intro exI[of _ v] exI[of _ True]) simp
    qed
  qed
qed

text \<open>C28: \<open>recvTimingReq\<close> never fails on a request the controller can serve: no assertion, index or
  decoding fault on any of its pieces.  It accepts exactly when all pieces fit the buffer, a refusal
  leaves queues and responses alone, and either way the counters, the write index and the buffer
  limits stay consistent.\<close>

theorem recv_timing_req_safe:
  assumes "q_wf s" "servable s pkt qos dr i"
  shows "\<exists>s' ok. recvTimingReq s now pkt qos = Inr (s', ok) \<and> q_wf s' \<and>
    ok = (if pk_isWrite (q_packets s pkt) then q_totalWriteQueueSize s + pieces_of s pkt i \<le> q_writeBufferSize s
          else q_totalReadQueueSize s + length (q_respQueue s) + pieces_of s pkt i \<le> q_readBufferSize s) \<and>
    (ok \<or> q_readQueue s' = q_readQueue s \<and> q_writeQueue s' = q_writeQueue s \<and> q_responses s' = q_responses s)"
  using recvTimingReq_spec[OF assms, of now] by (auto split: if_splits)

definition example_packet :: "bool \<Rightarrow> packet" where
  "example_packet w = \<lparr>pk_addr = 100, pk_size = 150, pk_isRead = \<not> w, pk_isWrite = w, pk_needsResponse = True,
     pk_cacheResponding = False, pk_cleanEvict = False, pk_isRequest = True, pk_qos = 0, pk_headerDelay = 0, pk_payloadDelay = 0\<rparr>"

definition example_ctrl :: "bool \<Rightarrow> mem_ctrl" where
  "example_ctrl w = \<lparr>q_dram = Some example_interface, q_nvm = None, q_readBufferSize = 32, q_writeBufferSize = 64,
     q_frontendLatency = 10, q_packets = (\<lambda>_. example_packet w), q_helpers = (\<lambda>_. \<lparr>bh_burstCount = 0, bh_burstsServiced = 0\<rparr>),
     q_next_helper = 0, q_readQueue = [[]], q_writeQueue = [[]], q_isInWriteQueue = {}, q_respQueue = [],
     q_totalReadQueueSize = 0, q_totalWriteQueueSize = 0, q_readEntries = (\<lambda>_. 0), q_writeEntries = (\<lambda>_. 0),
     q_numReadsToIssue = 0, q_numWritesQueued = 0, q_nextReqEvent = None, q_retryRdReq = False, q_retryWrReq = False,
     q_prevArrival = 0, q_responses = [], q_pendingDelete = None, q_s_readBursts = 0, q_s_writeBursts = 0,
     q_s_servicedByWrQ = 0, q_s_bytesReadWrQ = 0, q_s_mergedWrBursts = 0, q_s_numRdRetry = 0, q_s_numWrRetry = 0,
     q_s_readReqs = 0, q_s_writeReqs = 0, q_s_bytesReadSys = 0, q_s_bytesWrittenSys = 0, q_s_totGap = 0\<rparr>"

lemma example_access: "mem_access (Some example_interface) (example_packet w) = Inr ()"
  by (simp add: mem_access_def within_range_def example_packet_def example_interface_def isSubset_def range_plain_def interleaved_def)

lemma example_ctrl_ok: "q_wf (example_ctrl w)" "servable (example_ctrl w) 0 0 True example_interface"
  "pieces_of (example_ctrl w) 0 example_interface = 3"
proof -
  show "q_wf (example_ctrl w)" by (simp add: q_wf_def example_ctrl_def queue_size_def example_interface_wf)
  show "servable (example_ctrl w) 0 0 True example_interface"
    by (simp add: servable_def example_ctrl_def example_packet_def media_of_def example_interface_simps interface_of_def
        backed_def example_access[unfolded example_packet_def])
  show "pieces_of (example_ctrl w) 0 example_interface = 3"
    using and_mask_mod[of 100 6]
    by (simp add: pieces_of_def burst_count_def example_ctrl_def example_packet_def example_interface_simps)
qed

theorem recv_timing_req_safe_witness:
  "\<exists>s' ok. recvTimingReq (example_ctrl True) 5 0 0 = Inr (s', ok) \<and> q_wf s' \<and> ok"
  using recv_timing_req_safe[OF example_ctrl_ok(1,2), of True 5] unfolding example_ctrl_ok(3)
  by (auto simp: example_ctrl_def split: if_splits)

text \<open>An accepted read is accounted for exactly (one priority, fresh packet): either every piece
  was served from the write queue and the response is sent at once, or no response is sent yet and the
  queued pieces share one burst helper whose served count plus the queued pieces is the number of
  pieces, so the last of them completes the request.\<close>

theorem split_read_accounting:
  assumes "q_wf s" "servable s pkt qos dr i" "\<not> pk_isWrite (q_packets s pkt)"
    and "length (q_writeQueue s) = 1" "queued_for s pkt = []"
    and "recvTimingReq s now pkt qos = Inr (s', True)"
  shows "read_accounted s s' pkt (pieces_of s pkt i)"
  using recvTimingReq_spec[OF assms(1,2), of now] assms(3-6) by auto

theorem split_read_accounting_witness:
  "\<exists>s'. recvTimingReq (example_ctrl False) 5 0 0 = Inr (s', True) \<and> read_accounted (example_ctrl False) s' 0 3"
proof -
  obtain s' ok where r: "recvTimingReq (example_ctrl False) 5 0 0 = Inr (s', ok)" "ok"
    using recvTimingReq_spec[OF example_ctrl_ok(1,2), of False 5] unfolding example_ctrl_ok(3)
    by (auto simp: example_ctrl_def example_packet_def split: if_splits)
  then have e: "recvTimingReq (example_ctrl False) 5 0 0 = Inr (s', True)" by simp
  have c: "\<not> pk_isWrite (q_packets (example_ctrl False) 0)" "length (q_writeQueue (example_ctrl False)) = 1"
    "queued_for (example_ctrl False) 0 = []"
    by (simp_all add: example_ctrl_def example_packet_def queued_for_def)
  show ?thesis using e split_read_accounting[OF example_ctrl_ok(1,2) c e] unfolding example_ctrl_ok(3) by blast
qed

text \<open>An accepted write is visible to later reads: the burst of every byte of the request is in
  the write index (whether its piece was queued or merged), and the response is sent at once.\<close>

theorem accepted_write_is_indexed:
  assumes "q_wf s" "servable s pkt qos dr i" "pk_isWrite (q_packets s pkt)" "mi_burstSize i = 2 ^ k"
    and "recvTimingReq s now pkt qos = Inr (s', True)"
    and "pk_addr (q_packets s pkt) \<le> a" "a < pk_addr (q_packets s pkt) + pk_size (q_packets s pkt)"
  shows "burstAlign (mi_burstSize i) a \<in> q_isInWriteQueue s' \<and>
    (pk_needsResponse (q_packets s pkt) \<longrightarrow> (\<exists>t. q_responses s' = q_responses s @ [(pkt, t)]))"
proof -
  let ?p = "q_packets s pkt"
  let ?ps = "pieces (2 ^ k) (pk_addr ?p) (pk_size ?p) (pk_addr ?p) (pieces_of s pkt i)"
  have "pieces_of s pkt i = burst_count (2 ^ k) (pk_addr ?p) (pk_size ?p)" by (simp add: pieces_of_def assms(4))
  then have "(pk_addr ?p mod 2 ^ k + (pk_addr ?p + pk_size ?p - pk_addr ?p) + 2 ^ k - 1) div 2 ^ k = pieces_of s pkt i"
    unfolding burst_count_def Let_def and_mask_mod by simp
  from pieces_cover[OF order_refl _ this] assms(6,7) have
    c: "(\<Union>(x, z)\<in>set ?ps. {x..<x + z}) = {pk_addr ?p..<pk_addr ?p + pk_size ?p}"
       "\<forall>(x, z)\<in>set ?ps. 0 < z \<and> burstAlign (2 ^ k) (x + z - 1) = burstAlign (2 ^ k) x" by simp_all
  have "a \<in> (\<Union>(x, z)\<in>set ?ps. {x..<x + z})" unfolding c(1) using assms(6,7) by simp
  then obtain x z where x: "(x, z) \<in> set ?ps" "x \<le> a" "a < x + z" by auto
  have "burstAlign (2 ^ k) (x + z - 1) = burstAlign (2 ^ k) x" using c(2) x(1) by blast
  moreover have "a div 2 ^ k \<le> (x + z - 1) div 2 ^ k" "x div 2 ^ k \<le> a div 2 ^ k"
    using x(2,3) by (simp_all add: div_le_mono)
  ultimately have "burstAlign (2 ^ k) a = burstAlign (2 ^ k) x" by (auto simp: burstAlign_eq)
  then have "burstAlign (mi_burstSize i) a \<in> burstAlign (mi_burstSize i) ` fst ` set ?ps"
    using x(1) assms(4) by force
  then show ?thesis using recvTimingReq_spec[OF assms(1,2), of now] assms(3-5) by auto
qed

theorem accepted_write_is_indexed_witness:
  "\<exists>s'. recvTimingReq (example_ctrl True) 5 0 0 = Inr (s', True) \<and> burstAlign 64 200 \<in> q_isInWriteQueue s'"
proof -
  obtain s' ok where r: "recvTimingReq (example_ctrl True) 5 0 0 = Inr (s', ok)" "ok"
    using recvTimingReq_spec[OF example_ctrl_ok(1,2), of True 5] unfolding example_ctrl_ok(3)
    by (auto simp: example_ctrl_def example_packet_def split: if_splits)
  then have e: "recvTimingReq (example_ctrl True) 5 0 0 = Inr (s', True)" by simp
  have c: "pk_isWrite (q_packets (example_ctrl True) 0)" "mi_burstSize example_interface = 2 ^ 6"
    "pk_addr (q_packets (example_ctrl True) 0) \<le> 200"
    "200 < pk_addr (q_packets (example_ctrl True) 0) + pk_size (q_packets (example_ctrl True) 0)"
    by (simp_all add: example_ctrl_def example_packet_def example_interface_simps)
  show ?thesis using e accepted_write_is_indexed[OF example_ctrl_ok(1,2) c(1,2) e c(3,4)]
    by (auto simp: example_interface_simps)
qed

end
