(* ===== verification/Dram_State.thy ===== *)
theory Dram_State
  imports Address_Map Command_Bus
begin

text \<open>
  The state of the DRAM model of \<open>mem/mem_interface.{hh,cc}\<close>: banks, the commands logged for the
  power library, the power and refresh states, ranks with their six events, the timing parameters of
  the interface, and the scheduling of events (\<open>sim/eventq.hh\<close>).  An event is \<open>None\<close> or the tick it
  is scheduled at.  Operations that use the command bus may not return: they are \<open>run\<close>s.
\<close>

section \<open>Runs\<close>

text \<open>\<open>None\<close>: no return; \<open>Some (Inl f)\<close>: a fault.\<close>

type_synonym 'a run = "'a result option"

definition obind :: "'a run \<Rightarrow> ('a \<Rightarrow> 'b run) \<Rightarrow> 'b run" where
  "obind m f = (case m of None \<Rightarrow> None | Some (Inl e) \<Rightarrow> Some (Inl e) | Some (Inr x) \<Rightarrow> f x)"

abbreviation ok :: "'a \<Rightarrow> 'a run" where "ok x \<equiv> Some (Inr x)"
abbreviation failed :: "fault \<Rightarrow> 'a run" where "failed e \<equiv> Some (Inl e)"

lemma obind_ok [simp]: "obind (ok x) f = f x" by (simp add: obind_def)
lemma obind_failed [simp]: "obind (failed e) f = failed e" by (simp add: obind_def)
lemma obind_Inr: "m = Inr x \<Longrightarrow> obind (Some m) f = f x" by simp

lemma obind_eq_ok: "obind m f = ok y \<longleftrightarrow> (\<exists>x. m = ok x \<and> f x = ok y)"
  by (auto simp: obind_def split: option.splits sum.splits)

section \<open>Events\<close>

definition schedule :: "tick \<Rightarrow> tick option \<Rightarrow> tick \<Rightarrow> tick option result" where
  "schedule now ev t = (if \<not> now \<le> t then Inl AssertFail else if ev \<noteq> None then Inl AssertFail else Inr (Some t))"

definition deschedule :: "tick option \<Rightarrow> tick option result" where
  "deschedule ev = (if ev = None then Inl AssertFail else Inr None)"

definition reschedule :: "tick \<Rightarrow> tick option \<Rightarrow> tick \<Rightarrow> tick option result" where
  "reschedule now ev t = (if \<not> now \<le> t then Inl AssertFail else if ev = None then Inl AssertFail else Inr (Some t))"

section \<open>Banks and commands\<close>

record bank =
  bk_openRow :: nat
  bk_bank :: nat
  bk_bankgr :: nat
  bk_rdAllowedAt :: tick
  bk_wrAllowedAt :: tick
  bk_preAllowedAt :: tick
  bk_actAllowedAt :: tick
  bk_rowAccesses :: nat
  bk_bytesAccessed :: nat

definition Bank_new :: bank where
  "Bank_new = \<lparr>bk_openRow = NO_ROW, bk_bank = 0, bk_bankgr = 0, bk_rdAllowedAt = 0, bk_wrAllowedAt = 0,
     bk_preAllowedAt = 0, bk_actAllowedAt = 0, bk_rowAccesses = 0, bk_bytesAccessed = 0\<rparr>"

datatype MemCommand = ACT | PRE | PREA | REF | RD | WR | PDN_F_ACT | PDN_F_PRE | SREN | PUP_ACT | PUP_PRE | SREX

record command =
  cm_type :: MemCommand
  cm_bank :: nat
  cm_timeStamp :: tick

definition Command :: "MemCommand \<Rightarrow> nat \<Rightarrow> tick \<Rightarrow> command" where
  "Command type0 bank0 time_stamp = \<lparr>cm_type = type0, cm_bank = bank0, cm_timeStamp = time_stamp\<rparr>"

section \<open>Ranks\<close>

datatype PowerState = PWR_IDLE | PWR_REF | PWR_SREF | PWR_PRE_PDN | PWR_ACT | PWR_ACT_PDN
datatype RefreshState = REF_IDLE | REF_DRAIN | REF_PD_EXIT | REF_SREF_EXIT | REF_PRE | REF_START | REF_RUN

record dram_rank =
  rk_pwrStateTrans :: PowerState
  rk_pwrStatePostRefresh :: PowerState
  rk_pwrStateTick :: tick
  rk_refreshDueAt :: tick
  rk_pwrState :: PowerState
  rk_refreshState :: RefreshState
  rk_inLowPowerState :: bool
  rk_rank :: nat
  rk_readEntries :: nat
  rk_writeEntries :: nat
  rk_outstandingEvents :: nat
  rk_wakeUpAllowedAt :: tick
  rk_cmdList :: "command list"
  rk_banks :: "bank list"
  rk_numBanksActive :: nat
  rk_actTicks :: "tick list"
  rk_lastBurstTick :: tick
  rk_writeDoneEvent :: "tick option"
  rk_activateEvent :: "tick option"
  rk_prechargeEvent :: "tick option"
  rk_refreshEvent :: "tick option"
  rk_powerEvent :: "tick option"
  rk_wakeUpEvent :: "tick option"
  rk_s_pwrStateTime :: "PowerState \<Rightarrow> nat"
  rk_s_totalIdleTime :: nat

definition Rank_new :: "nat \<Rightarrow> nat \<Rightarrow> nat \<Rightarrow> nat \<Rightarrow> dram_rank" where
  "Rank_new banks_per_rank bank_groups_per_rank activation_limit rank0 =
     \<lparr>rk_pwrStateTrans = PWR_IDLE, rk_pwrStatePostRefresh = PWR_IDLE, rk_pwrStateTick = 0, rk_refreshDueAt = 0,
      rk_pwrState = PWR_IDLE, rk_refreshState = REF_IDLE, rk_inLowPowerState = False, rk_rank = rank0,
      rk_readEntries = 0, rk_writeEntries = 0, rk_outstandingEvents = 0, rk_wakeUpAllowedAt = 0, rk_cmdList = [],
      rk_banks = map (\<lambda>b. Bank_new\<lparr>bk_bank := u8 b,
        bk_bankgr := (if 0 < bank_groups_per_rank then u8 (b mod bank_groups_per_rank) else u8 b)\<rparr>) [0..<banks_per_rank],
      rk_numBanksActive = 0, rk_actTicks = replicate activation_limit 0, rk_lastBurstTick = 0,
      rk_writeDoneEvent = None, rk_activateEvent = None, rk_prechargeEvent = None, rk_refreshEvent = None,
      rk_powerEvent = None, rk_wakeUpEvent = None, rk_s_pwrStateTime = (\<lambda>_. 0), rk_s_totalIdleTime = 0\<rparr>"

definition inRefIdleState :: "dram_rank \<Rightarrow> bool" where "inRefIdleState r \<longleftrightarrow> rk_refreshState r = REF_IDLE"
definition inPwrIdleState :: "dram_rank \<Rightarrow> bool" where "inPwrIdleState r \<longleftrightarrow> rk_pwrState r = PWR_IDLE"

definition log_cmd :: "command \<Rightarrow> dram_rank \<Rightarrow> dram_rank" where
  "log_cmd c r = r\<lparr>rk_cmdList := rk_cmdList r @ [c]\<rparr>"

definition map_banks :: "(bank \<Rightarrow> bank) \<Rightarrow> dram_rank \<Rightarrow> dram_rank" where
  "map_banks f r = r\<lparr>rk_banks := map f (rk_banks r)\<rparr>"

definition upd_bank :: "nat \<Rightarrow> (bank \<Rightarrow> bank) \<Rightarrow> dram_rank \<Rightarrow> dram_rank" where
  "upd_bank b f r = r\<lparr>rk_banks := (rk_banks r)[b := f (rk_banks r ! b)]\<rparr>"

section \<open>The interface\<close>

datatype page_policy = page_open | page_open_adaptive | page_close | page_close_adaptive

record dram_params =
  dp_iface :: mem_interface
  dp_maxCommandsPerWindow :: nat
  dp_tCK :: tick
  dp_tCS :: tick
  dp_tBURST :: tick
  dp_tRTW :: tick
  dp_tWTR :: tick
  dp_bankGroupArch :: bool
  dp_tCL :: tick
  dp_tBURST_MIN :: tick
  dp_tBURST_MAX :: tick
  dp_tCCD_L_WR :: tick
  dp_tCCD_L :: tick
  dp_tRCD :: tick
  dp_tRP :: tick
  dp_tRAS :: tick
  dp_tWR :: tick
  dp_tRTP :: tick
  dp_tRFC :: tick
  dp_tREFI :: tick
  dp_tRRD :: tick
  dp_tRRD_L :: tick
  dp_tPPD :: tick
  dp_tAAD :: tick
  dp_tXAW :: tick
  dp_tXP :: tick
  dp_tXS :: tick
  dp_clkResyncDelay :: tick
  dp_dataClockSync :: bool
  dp_burstInterleave :: bool
  dp_twoCycleActivate :: bool
  dp_activationLimit :: nat
  dp_wrToRdDlySameBG :: tick
  dp_rdToWrDlySameBG :: tick
  dp_pageMgmt :: page_policy
  dp_maxAccessesPerRow :: nat
  dp_enableDRAMPowerdown :: bool

definition readToWriteDelay :: "dram_params \<Rightarrow> tick" where "readToWriteDelay d = dp_tBURST d + dp_tRTW d"
definition writeToReadDelay :: "dram_params \<Rightarrow> tick" where "writeToReadDelay d = dp_tBURST d + dp_tWTR d + dp_tCL d"
definition rankToRankDelay :: "dram_params \<Rightarrow> tick" where "rankToRankDelay d = dp_tBURST d + dp_tCS d"
definition minReadToWriteDataGap :: "dram_params \<Rightarrow> tick" where "minReadToWriteDataGap d = min (dp_tRTW d) (dp_tCS d)"
definition minWriteToReadDataGap :: "dram_params \<Rightarrow> tick" where "minWriteToReadDataGap d = min (dp_tWTR d) (dp_tCS d)"
definition commandOffset :: "dram_params \<Rightarrow> tick" where "commandOffset d = dp_tRP d + dp_tRCD d"

text \<open>What a rank asks of the controller: the bus direction of the next burst, whether its two events
  are scheduled, and the drain state.\<close>

datatype bus_state = BUS_READ | BUS_WRITE
datatype drain_state = Running | Draining | Drained

record rank_env =
  en_now :: tick
  en_busStateNext :: bus_state
  en_requestEventScheduled :: bool
  en_respondEventScheduled :: bool
  en_drainState :: drain_state
  en_activeRank :: nat

section \<open>Basic facts\<close>

named_theorems rank_frame "fields of a rank that an operation leaves alone"

lemma log_cmd_fields [simp, rank_frame]:
  "rk_banks (log_cmd c r) = rk_banks r" "rk_numBanksActive (log_cmd c r) = rk_numBanksActive r"
  "rk_actTicks (log_cmd c r) = rk_actTicks r" "rk_refreshState (log_cmd c r) = rk_refreshState r"
  "rk_pwrState (log_cmd c r) = rk_pwrState r" "rk_activateEvent (log_cmd c r) = rk_activateEvent r"
  "rk_prechargeEvent (log_cmd c r) = rk_prechargeEvent r" "rk_outstandingEvents (log_cmd c r) = rk_outstandingEvents r"
  "rk_lastBurstTick (log_cmd c r) = rk_lastBurstTick r" "rk_writeDoneEvent (log_cmd c r) = rk_writeDoneEvent r"
  "rk_inLowPowerState (log_cmd c r) = rk_inLowPowerState r" "rk_writeEntries (log_cmd c r) = rk_writeEntries r"
  "rk_refreshEvent (log_cmd c r) = rk_refreshEvent r" "rk_powerEvent (log_cmd c r) = rk_powerEvent r"
  "rk_pwrStateTrans (log_cmd c r) = rk_pwrStateTrans r" "rk_refreshDueAt (log_cmd c r) = rk_refreshDueAt r"
  "rk_pwrStatePostRefresh (log_cmd c r) = rk_pwrStatePostRefresh r" "rk_pwrStateTick (log_cmd c r) = rk_pwrStateTick r"
  "rk_wakeUpEvent (log_cmd c r) = rk_wakeUpEvent r" "rk_readEntries (log_cmd c r) = rk_readEntries r"
  "rk_rank (log_cmd c r) = rk_rank r"
  by (simp_all add: log_cmd_def)

lemma map_banks_fields [simp, rank_frame]:
  "rk_banks (map_banks f r) = map f (rk_banks r)" "rk_numBanksActive (map_banks f r) = rk_numBanksActive r"
  "rk_actTicks (map_banks f r) = rk_actTicks r" "rk_refreshState (map_banks f r) = rk_refreshState r"
  "rk_pwrState (map_banks f r) = rk_pwrState r" "rk_activateEvent (map_banks f r) = rk_activateEvent r"
  "rk_prechargeEvent (map_banks f r) = rk_prechargeEvent r" "rk_outstandingEvents (map_banks f r) = rk_outstandingEvents r"
  "rk_lastBurstTick (map_banks f r) = rk_lastBurstTick r" "rk_writeDoneEvent (map_banks f r) = rk_writeDoneEvent r"
  "rk_inLowPowerState (map_banks f r) = rk_inLowPowerState r" "rk_writeEntries (map_banks f r) = rk_writeEntries r"
  "rk_refreshEvent (map_banks f r) = rk_refreshEvent r" "rk_powerEvent (map_banks f r) = rk_powerEvent r"
  "rk_pwrStateTrans (map_banks f r) = rk_pwrStateTrans r" "rk_refreshDueAt (map_banks f r) = rk_refreshDueAt r"
  "rk_pwrStatePostRefresh (map_banks f r) = rk_pwrStatePostRefresh r" "rk_pwrStateTick (map_banks f r) = rk_pwrStateTick r"
  "rk_wakeUpEvent (map_banks f r) = rk_wakeUpEvent r" "rk_readEntries (map_banks f r) = rk_readEntries r"
  "rk_rank (map_banks f r) = rk_rank r"
  by (simp_all add: map_banks_def)

lemma upd_bank_fields [simp, rank_frame]:
  "rk_banks (upd_bank b f r) = (rk_banks r)[b := f (rk_banks r ! b)]" "rk_numBanksActive (upd_bank b f r) = rk_numBanksActive r"
  "rk_actTicks (upd_bank b f r) = rk_actTicks r" "rk_refreshState (upd_bank b f r) = rk_refreshState r"
  "rk_pwrState (upd_bank b f r) = rk_pwrState r" "rk_activateEvent (upd_bank b f r) = rk_activateEvent r"
  "rk_prechargeEvent (upd_bank b f r) = rk_prechargeEvent r" "rk_outstandingEvents (upd_bank b f r) = rk_outstandingEvents r"
  "rk_lastBurstTick (upd_bank b f r) = rk_lastBurstTick r" "rk_writeDoneEvent (upd_bank b f r) = rk_writeDoneEvent r"
  "rk_inLowPowerState (upd_bank b f r) = rk_inLowPowerState r" "rk_writeEntries (upd_bank b f r) = rk_writeEntries r"
  "rk_refreshEvent (upd_bank b f r) = rk_refreshEvent r" "rk_powerEvent (upd_bank b f r) = rk_powerEvent r"
  "rk_pwrStateTrans (upd_bank b f r) = rk_pwrStateTrans r" "rk_refreshDueAt (upd_bank b f r) = rk_refreshDueAt r"
  "rk_pwrStatePostRefresh (upd_bank b f r) = rk_pwrStatePostRefresh r" "rk_pwrStateTick (upd_bank b f r) = rk_pwrStateTick r"
  "rk_wakeUpEvent (upd_bank b f r) = rk_wakeUpEvent r" "rk_readEntries (upd_bank b f r) = rk_readEntries r"
  "rk_rank (upd_bank b f r) = rk_rank r"
  by (simp_all add: upd_bank_def)

end
