(* ===== verification/Rank_Power.thy ===== *)
theory Rank_Power
  imports Dram_State
begin

text \<open>
  Power-down of a rank (\<open>mem/mem_interface.cc\<close>): the power event, entering and leaving a low-power
  state, the events that end an activate, a precharge and a write, and what the controller asks the
  ranks (\<open>isBusy\<close>, \<open>respondEvent\<close>, \<open>checkRefreshState\<close>, draining).
\<close>

section \<open>Operations\<close>

definition schedulePowerEvent :: "tick \<Rightarrow> dram_rank \<Rightarrow> PowerState \<Rightarrow> tick \<Rightarrow> dram_rank result" where
  "schedulePowerEvent now r pwr_state t =
     (if \<not> now \<le> t then Inl AssertFail
      else if rk_powerEvent r = None
      then rbind (schedule now (rk_powerEvent r) t) (\<lambda>ev.
        Inr (r\<lparr>rk_pwrStateTrans := pwr_state, rk_powerEvent := ev\<rparr>))
      else Inl PanicFail)"

definition powerDownSleep :: "dram_params \<Rightarrow> tick \<Rightarrow> dram_rank \<Rightarrow> PowerState \<Rightarrow> tick \<Rightarrow> dram_rank result" where
  "powerDownSleep d now r pwr_state t =
     rbind (if pwr_state = PWR_ACT_PDN
            then rbind (schedulePowerEvent now r pwr_state t) (\<lambda>r. Inr (log_cmd (Command PDN_F_ACT 0 t) r))
            else if pwr_state = PWR_PRE_PDN
            then rbind (schedulePowerEvent now r pwr_state t) (\<lambda>r. Inr (log_cmd (Command PDN_F_PRE 0 t) r))
            else if pwr_state = PWR_REF
            then rbind (schedulePowerEvent now r PWR_PRE_PDN t) (\<lambda>r. Inr (log_cmd (Command PDN_F_PRE 0 t) r))
            else if pwr_state = PWR_SREF
            then if rk_pwrStatePostRefresh r \<noteq> PWR_PRE_PDN then Inl AssertFail
                 else rbind (schedulePowerEvent now r PWR_SREF t) (\<lambda>r. Inr (log_cmd (Command SREN 0 t) r))
            else Inr r)
       (\<lambda>r. Inr (r\<lparr>rk_wakeUpAllowedAt := t + dp_tCK d, rk_inLowPowerState := True\<rparr>))"

definition wake_bank :: "tick \<Rightarrow> bank \<Rightarrow> bank" where
  "wake_bank t b = b\<lparr>bk_wrAllowedAt := max t (bk_wrAllowedAt b), bk_rdAllowedAt := max t (bk_rdAllowedAt b),
     bk_preAllowedAt := max t (bk_preAllowedAt b), bk_actAllowedAt := max t (bk_actAllowedAt b)\<rparr>"

definition scheduleWakeUpEvent :: "tick \<Rightarrow> dram_rank \<Rightarrow> tick \<Rightarrow> dram_rank result" where
  "scheduleWakeUpEvent now r exit_delay =
     (let wake_up_tick = max now (rk_wakeUpAllowedAt r);
          r1 = r\<lparr>rk_pwrStatePostRefresh := (if rk_refreshState r = REF_PD_EXIT then rk_pwrState r else PWR_IDLE)\<rparr>
      in rbind (schedule now (rk_wakeUpEvent r1) wake_up_tick) (\<lambda>ev.
        let r2 = (map_banks (wake_bank (wake_up_tick + exit_delay)) (r1\<lparr>rk_wakeUpEvent := ev\<rparr>))\<lparr>rk_inLowPowerState := False\<rparr>
        in Inr (if rk_pwrStateTrans r2 = PWR_ACT_PDN then log_cmd (Command PUP_ACT 0 wake_up_tick) r2
                else if rk_pwrStateTrans r2 = PWR_PRE_PDN then log_cmd (Command PUP_PRE 0 wake_up_tick) r2
                else if rk_pwrStateTrans r2 = PWR_SREF then log_cmd (Command SREX 0 wake_up_tick) r2
                else r2)))"

definition processWakeUpEvent :: "tick \<Rightarrow> dram_rank \<Rightarrow> dram_rank result" where
  "processWakeUpEvent now r =
     (if \<not> (rk_pwrState r = PWR_ACT_PDN \<or> rk_pwrState r = PWR_PRE_PDN \<or> rk_pwrState r = PWR_SREF) then Inl AssertFail
      else if rk_pwrState r = PWR_ACT_PDN then schedulePowerEvent now r PWR_ACT now
      else schedulePowerEvent now r PWR_IDLE now)"

definition isQueueEmpty :: "rank_env \<Rightarrow> dram_rank \<Rightarrow> bool" where
  "isQueueEmpty e r \<longleftrightarrow> (en_busStateNext e = BUS_READ \<and> rk_readEntries r = 0) \<or>
     (en_busStateNext e = BUS_WRITE \<and> rk_writeEntries r = 0)"

definition forceSelfRefreshExit :: "rank_env \<Rightarrow> dram_rank \<Rightarrow> bool" where
  "forceSelfRefreshExit e r \<longleftrightarrow> rk_readEntries r \<noteq> 0 \<or> (en_busStateNext e = BUS_WRITE \<and> rk_writeEntries r \<noteq> 0)"

definition checkDrainDone :: "tick \<Rightarrow> dram_rank \<Rightarrow> dram_rank result" where
  "checkDrainDone now r =
     (if rk_refreshState r = REF_DRAIN
      then rbind (schedule now (rk_refreshEvent r) now) (\<lambda>ev. Inr (r\<lparr>rk_refreshState := REF_PD_EXIT, rk_refreshEvent := ev\<rparr>))
      else Inr r)"

definition flushCmdList :: "tick \<Rightarrow> dram_rank \<Rightarrow> dram_rank" where
  "flushCmdList now r = r\<lparr>rk_cmdList := dropWhile (\<lambda>c. cm_timeStamp c \<le> now) (sort_key cm_timeStamp (rk_cmdList r))\<rparr>"

definition processActivateEvent :: "tick \<Rightarrow> dram_rank \<Rightarrow> dram_rank result" where
  "processActivateEvent now r = (if rk_pwrState r \<noteq> PWR_ACT then schedulePowerEvent now r PWR_ACT now else Inr r)"

definition processPrechargeEvent :: "dram_params \<Rightarrow> rank_env \<Rightarrow> dram_rank \<Rightarrow> dram_rank result" where
  "processPrechargeEvent d e r0 =
     (if \<not> 0 < rk_outstandingEvents r0 then Inl AssertFail
      else let r = r0\<lparr>rk_outstandingEvents := rk_outstandingEvents r0 - 1\<rparr> in
        if rk_numBanksActive r = 0
        then if isQueueEmpty e r \<and> rk_outstandingEvents r = 0 \<and> dp_enableDRAMPowerdown d
             then if rk_pwrState r \<noteq> PWR_ACT then Inl AssertFail else powerDownSleep d (en_now e) r PWR_PRE_PDN (en_now e)
             else schedulePowerEvent (en_now e) r PWR_IDLE (en_now e)
        else Inr r)"

definition processWriteDoneEvent :: "dram_rank \<Rightarrow> dram_rank result" where
  "processWriteDoneEvent r =
     (if \<not> 0 < rk_outstandingEvents r then Inl AssertFail
      else Inr (r\<lparr>rk_outstandingEvents := rk_outstandingEvents r - 1\<rparr>))"

definition rank_startup :: "tick \<Rightarrow> dram_rank \<Rightarrow> tick \<Rightarrow> dram_rank result" where
  "rank_startup now r ref_tick =
     (if \<not> now < ref_tick then Inl AssertFail
      else rbind (schedule now (rk_refreshEvent r) ref_tick) (\<lambda>ev.
        Inr (r\<lparr>rk_pwrStateTick := now, rk_refreshEvent := ev\<rparr>)))"

text \<open>\<open>suspend\<close> (the energy of the power library is not modelled, its command list is).\<close>

definition rank_suspend :: "tick \<Rightarrow> dram_rank \<Rightarrow> dram_rank result" where
  "rank_suspend now r =
     rbind (deschedule (rk_refreshEvent r)) (\<lambda>ev.
       Inr ((flushCmdList now (r\<lparr>rk_refreshEvent := ev\<rparr>))\<lparr>rk_pwrStatePostRefresh := PWR_IDLE\<rparr>))"

text \<open>One round of the loop of \<open>isBusy\<close>: the rank and whether it is busy.\<close>

definition rank_busy :: "dram_params \<Rightarrow> rank_env \<Rightarrow> dram_rank \<Rightarrow> (dram_rank \<times> bool) result" where
  "rank_busy d e r =
     (if inRefIdleState r then Inr (r, False)
      else rbind (if rk_pwrState r \<noteq> PWR_SREF then checkDrainDone (en_now e) r else Inr r) (\<lambda>r1.
        rbind (if rk_pwrState r1 = PWR_SREF \<and> rk_inLowPowerState r1 \<and> forceSelfRefreshExit e r1
               then scheduleWakeUpEvent (en_now e) r1 (dp_tXS d) else Inr r1)
          (\<lambda>r2. Inr (r2, rk_pwrState r \<noteq> PWR_SREF))))"

fun busy_loop :: "dram_params \<Rightarrow> rank_env \<Rightarrow> dram_rank list \<Rightarrow> (dram_rank list \<times> nat) result" where
  "busy_loop d e [] = Inr ([], 0)"
| "busy_loop d e (r # rs) = rbind (rank_busy d e r) (\<lambda>(r', busy).
     rbind (busy_loop d e rs) (\<lambda>(rs', n). Inr (r' # rs', (if busy then n + 1 else n))))"

definition isBusy :: "dram_params \<Rightarrow> rank_env \<Rightarrow> dram_rank list \<Rightarrow> (dram_rank list \<times> bool) result" where
  "isBusy d e ranks = rbind (busy_loop d e ranks) (\<lambda>(rs, busy_ranks). Inr (rs, busy_ranks = length ranks))"

text \<open>A read has reached its ready time.\<close>

definition respondEvent :: "dram_params \<Rightarrow> rank_env \<Rightarrow> dram_rank \<Rightarrow> dram_rank result" where
  "respondEvent d e r0 =
     (if \<not> 0 < rk_outstandingEvents r0 then Inl AssertFail
      else let r = r0\<lparr>rk_readEntries := dec32 (rk_readEntries r0), rk_outstandingEvents := rk_outstandingEvents r0 - 1\<rparr> in
        if \<not> (rk_pwrState r \<noteq> PWR_SREF \<and> rk_pwrState r \<noteq> PWR_PRE_PDN \<and> rk_pwrState r \<noteq> PWR_ACT_PDN) then Inl AssertFail
        else if isQueueEmpty e r \<and> rk_outstandingEvents r = 0 \<and> inRefIdleState r \<and> dp_enableDRAMPowerdown d
        then if rk_activateEvent r \<noteq> None then Inl AssertFail
             else if rk_prechargeEvent r \<noteq> None then Inl AssertFail
             else powerDownSleep d (en_now e) r (if rk_pwrState r = PWR_IDLE then PWR_PRE_PDN else PWR_ACT_PDN) (en_now e)
        else Inr r)"

definition checkRefreshState :: "tick \<Rightarrow> dram_rank \<Rightarrow> dram_rank result" where
  "checkRefreshState now r =
     (if rk_refreshState r = REF_PRE \<and> rk_prechargeEvent r = None
      then rbind (schedule now (rk_refreshEvent r) now) (\<lambda>ev. Inr (r\<lparr>rk_refreshEvent := ev\<rparr>)) else Inr r)"

definition drain_rank :: "dram_params \<Rightarrow> tick \<Rightarrow> dram_rank \<Rightarrow> dram_rank result" where
  "drain_rank d now r = (if rk_pwrState r = PWR_SREF then scheduleWakeUpEvent now r (dp_tXS d) else Inr r)"

fun each_rank :: "(dram_rank \<Rightarrow> dram_rank result) \<Rightarrow> dram_rank list \<Rightarrow> dram_rank list result" where
  "each_rank f [] = Inr []"
| "each_rank f (r # rs) = rbind (f r) (\<lambda>r'. rbind (each_rank f rs) (\<lambda>rs'. Inr (r' # rs')))"

definition drainRanks :: "dram_params \<Rightarrow> tick \<Rightarrow> dram_rank list \<Rightarrow> dram_rank list result" where
  "drainRanks d now ranks = each_rank (drain_rank d now) ranks"

definition dram_suspend :: "tick \<Rightarrow> dram_rank list \<Rightarrow> dram_rank list result" where
  "dram_suspend now ranks = each_rank (rank_suspend now) ranks"

definition dram_startup :: "dram_params \<Rightarrow> tick \<Rightarrow> dram_rank list \<Rightarrow> dram_rank list result" where
  "dram_startup d now ranks = each_rank (\<lambda>r. rank_startup now r (sub64 (now + dp_tREFI d) (dp_tRP d))) ranks"

definition allRanksDrained :: "dram_rank list \<Rightarrow> bool" where
  "allRanksDrained ranks \<longleftrightarrow> fold (\<lambda>r drained. inPwrIdleState r \<and> inRefIdleState r \<and> drained) ranks True"

section \<open>Facts\<close>

lemma allRanksDrained_iff: "allRanksDrained rs \<longleftrightarrow> (\<forall>r\<in>set rs. inPwrIdleState r \<and> inRefIdleState r)"
proof -
  have "fold (\<lambda>r drained. inPwrIdleState r \<and> inRefIdleState r \<and> drained) rs b \<longleftrightarrow>
      b \<and> (\<forall>r\<in>set rs. inPwrIdleState r \<and> inRefIdleState r)" for b
    by (induction rs arbitrary: b) auto
  then show ?thesis by (simp add: allRanksDrained_def)
qed

lemma schedulePowerEvent_Inr:
  "schedulePowerEvent now r p t = Inr r' \<longleftrightarrow> now \<le> t \<and> rk_powerEvent r = None \<and> r' = r\<lparr>rk_pwrStateTrans := p, rk_powerEvent := Some t\<rparr>"
  by (auto simp: schedulePowerEvent_def schedule_def)

lemma wake_bank_fields [simp]:
  "bk_openRow (wake_bank t b) = bk_openRow b" "bk_actAllowedAt (wake_bank t b) = max t (bk_actAllowedAt b)"
  "bk_preAllowedAt (wake_bank t b) = max t (bk_preAllowedAt b)" "bk_bankgr (wake_bank t b) = bk_bankgr b"
  "bk_rowAccesses (wake_bank t b) = bk_rowAccesses b" "bk_rdAllowedAt (wake_bank t b) = max t (bk_rdAllowedAt b)"
  "bk_wrAllowedAt (wake_bank t b) = max t (bk_wrAllowedAt b)" "bk_bank (wake_bank t b) = bk_bank b"
  by (simp_all add: wake_bank_def)

lemma scheduleWakeUpEvent_Inr:
  assumes "scheduleWakeUpEvent now r x = Inr r'"
  shows "rk_banks r' = map (wake_bank (max now (rk_wakeUpAllowedAt r) + x)) (rk_banks r)" "rk_actTicks r' = rk_actTicks r"
    "rk_numBanksActive r' = rk_numBanksActive r" "rk_refreshState r' = rk_refreshState r" "rk_pwrState r' = rk_pwrState r"
    "rk_activateEvent r' = rk_activateEvent r" "rk_prechargeEvent r' = rk_prechargeEvent r"
    "rk_outstandingEvents r' = rk_outstandingEvents r" "rk_lastBurstTick r' = rk_lastBurstTick r"
    "rk_writeDoneEvent r' = rk_writeDoneEvent r" "\<not> rk_inLowPowerState r'" "rk_writeEntries r' = rk_writeEntries r"
    "rk_wakeUpEvent r = None" "rk_wakeUpEvent r' = Some (max now (rk_wakeUpAllowedAt r))"
    "rk_refreshEvent r' = rk_refreshEvent r" "rk_powerEvent r' = rk_powerEvent r" "rk_pwrStateTrans r' = rk_pwrStateTrans r"
  using assms by (auto simp: scheduleWakeUpEvent_def Let_def schedule_def rbind_eq_Inr_iff split: if_splits)

lemma scheduleWakeUpEvent_ok: "rk_wakeUpEvent r = None \<Longrightarrow> \<exists>r'. scheduleWakeUpEvent now r x = Inr r'"
  by (simp add: scheduleWakeUpEvent_def Let_def schedule_def)

lemma powerDownSleep_Inr:
  assumes "powerDownSleep d now r p t = Inr r'"
  shows "rk_banks r' = rk_banks r" "rk_actTicks r' = rk_actTicks r" "rk_numBanksActive r' = rk_numBanksActive r"
    "rk_refreshState r' = rk_refreshState r" "rk_pwrState r' = rk_pwrState r" "rk_inLowPowerState r'"
    "rk_outstandingEvents r' = rk_outstandingEvents r" "rk_activateEvent r' = rk_activateEvent r"
    "rk_prechargeEvent r' = rk_prechargeEvent r" "rk_refreshEvent r' = rk_refreshEvent r"
    "rk_wakeUpAllowedAt r' = t + dp_tCK d" "rk_wakeUpEvent r' = rk_wakeUpEvent r"
    "rk_pwrStateTrans r' \<noteq> PWR_REF \<or> rk_pwrStateTrans r' = rk_pwrStateTrans r"
  using assms by (auto simp: powerDownSleep_def rbind_eq_Inr_iff schedulePowerEvent_Inr log_cmd_def split: if_splits)

end
