(* ===== verification/Dram_Bank.thy ===== *)
theory Dram_Bank
  imports Rank_Power
begin

text \<open>
  The bank operations of \<open>DRAMInterface\<close> (\<open>mem/mem_interface.cc\<close>): activating and precharging a
  bank, the Rowhammer bank delay, and \<open>doBurstAccess\<close>, which opens the row of a packet when it has to,
  places its burst on the command bus and updates the timing of every bank.  The queue it looks
  through for further row hits is given without the packet itself, as the code skips it by identity.
\<close>

section \<open>Precharge and activate\<close>

definition issue :: "dram_params \<Rightarrow> tick \<Rightarrow> burst_ticks \<Rightarrow> tick \<Rightarrow> (burst_ticks \<times> tick) run" where
  "issue d W B t = verifySingleCmd W B t (dp_maxCommandsPerWindow d)"

definition close_row :: "bank \<Rightarrow> bank" where "close_row b = b\<lparr>bk_openRow := NO_ROW\<rparr>"

text \<open>The precharge event is moved to the end of the latest precharge.\<close>

definition precharge_event :: "tick \<Rightarrow> dram_rank \<Rightarrow> tick \<Rightarrow> dram_rank result" where
  "precharge_event now r pre_done_at =
     (case rk_prechargeEvent r of
        None \<Rightarrow> rbind (schedule now None pre_done_at) (\<lambda>ev.
          Inr (r\<lparr>rk_prechargeEvent := ev, rk_outstandingEvents := u8 (rk_outstandingEvents r + 1)\<rparr>))
      | Some w \<Rightarrow> if w < pre_done_at
          then rbind (reschedule now (Some w) pre_done_at) (\<lambda>ev. Inr (r\<lparr>rk_prechargeEvent := ev\<rparr>)) else Inr r)"

definition prechargeBank ::
  "dram_params \<Rightarrow> tick \<Rightarrow> tick \<Rightarrow> burst_ticks \<Rightarrow> dram_rank \<Rightarrow> nat \<Rightarrow> tick \<Rightarrow> bool \<Rightarrow> bool \<Rightarrow> (burst_ticks \<times> dram_rank) run" where
  "prechargeBank d W now B r b pre_tick auto_or_preall trace =
     (if bk_openRow (rk_banks r ! b) = NO_ROW then failed AssertFail
      else let r1 = upd_bank b close_row r in
        obind (if auto_or_preall then ok (B, pre_tick, upd_bank b (bk_preAllowedAt_update (\<lambda>_. pre_tick)) r1)
               else obind (issue d W B pre_tick) (\<lambda>(B', pre_at). ok (B', pre_at,
                 map_banks (\<lambda>k. k\<lparr>bk_preAllowedAt := max (pre_at + dp_tPPD d) (bk_preAllowedAt k)\<rparr>) r1)))
          (\<lambda>(B', pre_at, r2).
             let pre_done_at = pre_at + dp_tRP d;
                 r3 = upd_bank b (\<lambda>k. k\<lparr>bk_actAllowedAt := max (bk_actAllowedAt k) pre_done_at\<rparr>) r2
             in if rk_numBanksActive r3 = 0 then failed AssertFail
                else let r4 = r3\<lparr>rk_numBanksActive := rk_numBanksActive r3 - 1\<rparr>;
                         r5 = (if trace then log_cmd (Command PRE (bk_bank (rk_banks r ! b)) pre_at) r4 else r4)
                     in Some (rbind (precharge_event now r5 pre_done_at) (\<lambda>r6. Inr (B', r6)))))"

text \<open>No bank of the rank may be activated before \<open>act_at\<close> plus tRRD (tRRD_L within the bank group),
  \<open>n\<close> times over.\<close>

definition rrd_bank :: "dram_params \<Rightarrow> nat \<Rightarrow> tick \<Rightarrow> nat \<Rightarrow> bank \<Rightarrow> bank" where
  "rrd_bank d bankgr act_at n k =
     k\<lparr>bk_actAllowedAt := max (act_at + (if dp_bankGroupArch d \<and> bankgr = bk_bankgr k then dp_tRRD_L d else dp_tRRD d) * n)
        (bk_actAllowedAt k)\<rparr>"

definition open_row :: "nat \<Rightarrow> bank \<Rightarrow> bank" where
  "open_row row k = k\<lparr>bk_openRow := row, bk_bytesAccessed := 0, bk_rowAccesses := 0\<rparr>"

definition act_bank :: "dram_params \<Rightarrow> tick \<Rightarrow> bank \<Rightarrow> bank" where
  "act_bank d act_at k = k\<lparr>bk_preAllowedAt := act_at + dp_tRAS d,
     bk_rdAllowedAt := max (act_at + dp_tRCD d) (bk_rdAllowedAt k),
     bk_wrAllowedAt := max (act_at + dp_tRCD d) (bk_wrAllowedAt k)\<rparr>"

text \<open>The activation window: at most \<open>activationLimit\<close> activations in tXAW.\<close>

definition activation_window :: "dram_params \<Rightarrow> tick \<Rightarrow> dram_rank \<Rightarrow> dram_rank result" where
  "activation_window d act_at r =
     (if rk_actTicks r = [] then Inr r
      else if last (rk_actTicks r) \<noteq> 0 \<and> sub64 act_at (last (rk_actTicks r)) < dp_tXAW d then Inl PanicFail
      else let ticks = act_at # butlast (rk_actTicks r); r1 = r\<lparr>rk_actTicks := ticks\<rparr> in
        Inr (if last ticks \<noteq> 0 \<and> sub64 act_at (last ticks) < dp_tXAW d
             then map_banks (\<lambda>k. k\<lparr>bk_actAllowedAt := max (last ticks + dp_tXAW d) (bk_actAllowedAt k)\<rparr>) r1
             else r1))"

definition activate_event :: "tick \<Rightarrow> dram_rank \<Rightarrow> tick \<Rightarrow> dram_rank result" where
  "activate_event now r act_at =
     (case rk_activateEvent r of
        None \<Rightarrow> rbind (schedule now None act_at) (\<lambda>ev. Inr (r\<lparr>rk_activateEvent := ev\<rparr>))
      | Some w \<Rightarrow> if act_at < w then rbind (reschedule now (Some w) act_at) (\<lambda>ev. Inr (r\<lparr>rk_activateEvent := ev\<rparr>))
          else Inr r)"

definition activateBank ::
  "dram_params \<Rightarrow> tick \<Rightarrow> tick \<Rightarrow> burst_ticks \<Rightarrow> dram_rank \<Rightarrow> nat \<Rightarrow> tick \<Rightarrow> nat \<Rightarrow> (burst_ticks \<times> dram_rank) run" where
  "activateBank d W now B r b act_tick row =
     (if length (rk_actTicks r) \<noteq> dp_activationLimit d then failed AssertFail
      else obind (if dp_twoCycleActivate d then verifyMultiCmd W B act_tick (dp_maxCommandsPerWindow d) (dp_tAAD d)
                  else issue d W B act_tick) (\<lambda>(B', act_at).
        if bk_openRow (rk_banks r ! b) \<noteq> NO_ROW then failed AssertFail
        else let r1 = (upd_bank b (open_row row) r)\<lparr>rk_numBanksActive := rk_numBanksActive r + 1\<rparr>;
                 bankgr = bk_bankgr (rk_banks r ! b) in
          if \<not> rk_numBanksActive r1 \<le> length (rk_banks r1) then failed AssertFail
          else let r2 = upd_bank b (act_bank d act_at) (log_cmd (Command ACT (bk_bank (rk_banks r ! b)) act_at) r1);
                   r3 = map_banks (rrd_bank d bankgr act_at 1) r2
               in Some (rbind (activation_window d act_at r3) (\<lambda>r4.
                    rbind (activate_event now r4 act_at) (\<lambda>r5. Inr (B', r5))))))"

text \<open>The Rowhammer delay of a bank: the mitigation's activations are charged to the rank.\<close>

definition delayBankRowhammer :: "dram_params \<Rightarrow> dram_rank \<Rightarrow> nat \<Rightarrow> nat \<Rightarrow> tick \<Rightarrow> tick \<Rightarrow> dram_rank" where
  "delayBankRowhammer d r b row act_at delay_bank =
     (let num_acts = delay_bank div 45000;
          r1 = map_banks (rrd_bank d (bk_bankgr (rk_banks r ! b)) act_at num_acts) r
      in upd_bank b (\<lambda>k. k\<lparr>bk_actAllowedAt := bk_actAllowedAt k + delay_bank,
           bk_openRow := (if bk_openRow k \<noteq> NO_ROW then (if 0 < int row - 1 then row - 1 else row + 1)
                          else bk_openRow k)\<rparr>) r1)"

section \<open>A burst\<close>

record dram =
  dr_ranks :: "dram_rank list"
  dr_activeRank :: nat
  dr_s_readBursts :: nat
  dr_s_writeBursts :: nat
  dr_s_readRowHits :: nat
  dr_s_writeRowHits :: nat
  dr_s_bytesRead :: nat
  dr_s_bytesWritten :: nat
  dr_s_totMemAccLat :: nat
  dr_s_totQLat :: nat
  dr_s_totBusLat :: nat
  dr_s_perBankRdBursts :: "nat \<Rightarrow> nat"
  dr_s_perBankWrBursts :: "nat \<Rightarrow> nat"

definition packet_bank :: "dram \<Rightarrow> mem_packet \<Rightarrow> bank" where
  "packet_bank s pkt = rk_banks (dr_ranks s ! mp_rank pkt) ! mp_bank pkt"

definition checkBurstACT :: "dram \<Rightarrow> mem_packet \<Rightarrow> bool" where
  "checkBurstACT s pkt \<longleftrightarrow> bk_openRow (packet_bank s pkt) \<noteq> mp_row pkt"

text \<open>Waking the rank, then opening the row: whether it had to be activated, and the tick asked for.\<close>

definition burst_wake :: "dram_params \<Rightarrow> tick \<Rightarrow> dram_rank \<Rightarrow> dram_rank result" where
  "burst_wake d now r =
     (if rk_inLowPowerState r
      then if rk_pwrState r = PWR_SREF then Inl AssertFail else scheduleWakeUpEvent now r (dp_tXP d)
      else Inr r)"

definition burst_open ::
  "dram_params \<Rightarrow> tick \<Rightarrow> tick \<Rightarrow> burst_ticks \<Rightarrow> dram_rank \<Rightarrow> nat \<Rightarrow> nat \<Rightarrow> (burst_ticks \<times> dram_rank \<times> bool \<times> tick) run" where
  "burst_open d W now B r b row =
     (if bk_openRow (rk_banks r ! b) = row then ok (B, r, False, 0)
      else obind (if bk_openRow (rk_banks r ! b) \<noteq> NO_ROW
                  then prechargeBank d W now B r b (max (bk_preAllowedAt (rk_banks r ! b)) now) False True
                  else ok (B, r)) (\<lambda>(B1, r1).
        let act_tick = max (bk_actAllowedAt (rk_banks r1 ! b)) now in
        obind (activateBank d W now B1 r1 b act_tick row) (\<lambda>(B2, r2). ok (B2, r2, True, act_tick))))"

text \<open>The tick of the burst command, and the gap to the next burst.\<close>

definition burst_cmd ::
  "dram_params \<Rightarrow> tick \<Rightarrow> tick \<Rightarrow> burst_ticks \<Rightarrow> dram_rank \<Rightarrow> mem_packet \<Rightarrow> tick \<Rightarrow> (burst_ticks \<times> tick \<times> tick) run" where
  "burst_cmd d W now B r pkt next_burst_at =
     (let k = rk_banks r ! mp_bank pkt;
          col_allowed_at = (if mp_read pkt then bk_rdAllowedAt k else bk_wrAllowedAt k);
          cmd_at = (if mp_rh_injectDelay pkt \<and> mp_rh_bubbleSize pkt = 90000 \<and>
                       (mp_rh_defense pkt = rh_rrs \<or> mp_rh_defense pkt = rh_rq)
                    then max col_allowed_at (max (sub64 next_burst_at (dp_tCL d + dp_tBURST d)) now)
                    else max col_allowed_at (max next_burst_at now))
      in obind (if dp_dataClockSync d \<and> dp_clkResyncDelay d < sub64 cmd_at (rk_lastBurstTick r)
                then verifyMultiCmd W B cmd_at (dp_maxCommandsPerWindow d) (dp_tCK d) else issue d W B cmd_at)
        (\<lambda>(B', at).
           if dp_burstInterleave d
           then if at = rk_lastBurstTick r + dp_tBURST_MIN d then ok (B', at, dp_tBURST d)
                else if at < rk_lastBurstTick r + dp_tBURST d then ok (B', rk_lastBurstTick r + dp_tBURST d, dp_tBURST_MIN d)
                else ok (B', at, dp_tBURST_MIN d)
           else ok (B', at, dp_tBURST_MIN d)))"

text \<open>The column constraints of a bank after a burst at \<open>cmd_at\<close> on rank \<open>rank0\<close>, bank group \<open>bankgr\<close>.\<close>

definition col_bank :: "dram_params \<Rightarrow> bool \<Rightarrow> bool \<Rightarrow> nat \<Rightarrow> tick \<Rightarrow> tick \<Rightarrow> bank \<Rightarrow> bank" where
  "col_bank d same_rank is_read bankgr burst_gap cmd_at k =
     (let (dly_to_rd_cmd, dly_to_wr_cmd) =
        (if same_rank then
           if dp_bankGroupArch d \<and> bankgr = bk_bankgr k
           then (if is_read then dp_tCCD_L d else max (dp_tCCD_L d) (dp_wrToRdDlySameBG d),
                 if is_read then max (dp_tCCD_L d) (dp_rdToWrDlySameBG d) else dp_tCCD_L_WR d)
           else (if is_read then burst_gap else writeToReadDelay d,
                 if is_read then readToWriteDelay d else burst_gap)
         else (rankToRankDelay d, rankToRankDelay d))
      in k\<lparr>bk_rdAllowedAt := max (cmd_at + dly_to_rd_cmd) (bk_rdAllowedAt k),
           bk_wrAllowedAt := max (cmd_at + dly_to_wr_cmd) (bk_wrAllowedAt k)\<rparr>)"

definition col_update :: "dram_params \<Rightarrow> nat \<Rightarrow> bool \<Rightarrow> nat \<Rightarrow> tick \<Rightarrow> tick \<Rightarrow> dram_rank list \<Rightarrow> dram_rank list" where
  "col_update d rank0 is_read bankgr burst_gap cmd_at ranks =
     map (\<lambda>j. map_banks (col_bank d (rank0 = j) is_read bankgr burst_gap cmd_at) (ranks ! j)) [0..<length ranks]"

text \<open>Row hits and bank conflicts waiting in the queue.\<close>

fun scan_queue :: "mem_packet \<Rightarrow> mem_packet list \<Rightarrow> bool \<times> bool \<Rightarrow> bool \<times> bool" where
  "scan_queue pkt [] st = st"
| "scan_queue pkt (p # ps) (got_more_hits, got_bank_conflict) =
     (if got_more_hits then (got_more_hits, got_bank_conflict)
      else let same_rank_bank = (mp_rank pkt = mp_rank p \<and> mp_bank pkt = mp_bank p); same_row = (mp_row pkt = mp_row p)
           in scan_queue pkt ps (same_rank_bank \<and> same_row, got_bank_conflict \<or> same_rank_bank \<and> \<not> same_row))"

fun scan_queues :: "mem_packet \<Rightarrow> mem_packet list list \<Rightarrow> bool \<times> bool \<Rightarrow> bool \<times> bool" where
  "scan_queues pkt [] st = st"
| "scan_queues pkt (q # qs) st = (let st' = scan_queue pkt q st in if fst st' then st' else scan_queues pkt qs st')"

definition auto_precharge :: "dram_params \<Rightarrow> bank \<Rightarrow> mem_packet \<Rightarrow> mem_packet list list \<Rightarrow> bool" where
  "auto_precharge d k pkt others =
     (if dp_pageMgmt d = page_close \<or> bk_rowAccesses k = dp_maxAccessesPerRow d then True
      else if dp_pageMgmt d = page_open_adaptive \<or> dp_pageMgmt d = page_close_adaptive
      then let (got_more_hits, got_bank_conflict) = scan_queues pkt others (False, False)
           in \<not> got_more_hits \<and> (got_bank_conflict \<or> dp_pageMgmt d = page_close_adaptive)
      else False)"

definition write_done_event :: "tick \<Rightarrow> dram_rank \<Rightarrow> tick \<Rightarrow> dram_rank result" where
  "write_done_event now r ready =
     (case rk_writeDoneEvent r of
        None \<Rightarrow> rbind (schedule now None ready) (\<lambda>ev.
          Inr (r\<lparr>rk_writeDoneEvent := ev, rk_outstandingEvents := u8 (rk_outstandingEvents r + 1)\<rparr>))
      | Some w \<Rightarrow> if w < ready then rbind (reschedule now (Some w) ready) (\<lambda>ev. Inr (r\<lparr>rk_writeDoneEvent := ev\<rparr>)) else Inr r)"

definition burst_stats :: "dram_params \<Rightarrow> dram \<Rightarrow> mem_packet \<Rightarrow> bool \<Rightarrow> tick \<Rightarrow> dram" where
  "burst_stats d s pkt row_hit cmd_at =
     (if mp_read pkt
      then s\<lparr>dr_s_readBursts := dr_s_readBursts s + 1, dr_s_readRowHits := dr_s_readRowHits s + (if row_hit then 1 else 0),
             dr_s_bytesRead := dr_s_bytesRead s + mi_burstSize (dp_iface d),
             dr_s_perBankRdBursts := (dr_s_perBankRdBursts s)(mp_bankId pkt := dr_s_perBankRdBursts s (mp_bankId pkt) + 1),
             dr_s_totMemAccLat := dr_s_totMemAccLat s + sub64 (mp_readyTime pkt) (mp_entryTime pkt),
             dr_s_totQLat := dr_s_totQLat s + sub64 cmd_at (mp_entryTime pkt),
             dr_s_totBusLat := dr_s_totBusLat s + dp_tBURST d\<rparr>
      else s\<lparr>dr_s_writeBursts := dr_s_writeBursts s + 1, dr_s_writeRowHits := dr_s_writeRowHits s + (if row_hit then 1 else 0),
             dr_s_bytesWritten := dr_s_bytesWritten s + mi_burstSize (dp_iface d),
             dr_s_perBankWrBursts := (dr_s_perBankWrBursts s)(mp_bankId pkt := dr_s_perBankWrBursts s (mp_bankId pkt) + 1)\<rparr>)"

text \<open>What happens to the rank once the burst is placed: column timing, page policy, events.\<close>

definition burst_bank :: "dram_params \<Rightarrow> mem_packet \<Rightarrow> tick \<Rightarrow> bank \<Rightarrow> bank" where
  "burst_bank d pkt cmd_at k = k\<lparr>bk_preAllowedAt := max (bk_preAllowedAt k)
       (if mp_read pkt then cmd_at + dp_tRTP d else mp_readyTime pkt + dp_tWR d),
     bk_bytesAccessed := bk_bytesAccessed k + mi_burstSize (dp_iface d), bk_rowAccesses := bk_rowAccesses k + 1\<rparr>"

definition burst_finish ::
  "dram_params \<Rightarrow> tick \<Rightarrow> tick \<Rightarrow> burst_ticks \<Rightarrow> dram_rank \<Rightarrow> mem_packet \<Rightarrow> mem_packet list list \<Rightarrow> tick \<Rightarrow> (burst_ticks \<times> dram_rank) run" where
  "burst_finish d W now B r pkt others cmd_at =
     (let b = mp_bank pkt;
          r1 = upd_bank b (burst_bank d pkt cmd_at) r;
          k = rk_banks r1 ! b;
          r2 = log_cmd (Command (if mp_read pkt then RD else WR) b cmd_at) r1
      in obind (if auto_precharge d k pkt others
                then prechargeBank d W now B r2 b (max now (bk_preAllowedAt k)) True True else ok (B, r2))
        (\<lambda>(B', r3). Some (rbind (if mp_read pkt then Inr (r3\<lparr>rk_outstandingEvents := u8 (rk_outstandingEvents r3 + 1)\<rparr>)
             else rbind (write_done_event now r3 (mp_readyTime pkt)) (\<lambda>r4.
               Inr (r4\<lparr>rk_writeEntries := dec32 (rk_writeEntries r4)\<rparr>)))
           (\<lambda>r5. Inr (B', r5)))))"

definition dram_doBurstAccess ::
  "dram_params \<Rightarrow> tick \<Rightarrow> tick \<Rightarrow> burst_ticks \<Rightarrow> dram \<Rightarrow> mem_packet \<Rightarrow> tick \<Rightarrow> mem_packet list list \<Rightarrow>
   (burst_ticks \<times> dram \<times> mem_packet \<times> bool \<times> tick \<times> tick) run" where
  "dram_doBurstAccess d W now B s pkt next_burst_at others =
     (let rank0 = mp_rank pkt; b = mp_bank pkt; r0 = dr_ranks s ! rank0 in
      if \<not> (rank0 < length (dr_ranks s) \<and> b < length (rk_banks r0)) then failed OutOfBounds
      else if \<not> inRefIdleState r0 then failed AssertFail
      else obind (Some (burst_wake d now r0)) (\<lambda>r1.
           obind (burst_open d W now B r1 b (mp_row pkt)) (\<lambda>(B2, r2, act, act_tick).
           obind (burst_cmd d W now B2 r2 pkt next_burst_at) (\<lambda>(B3, cmd_at, burst_gap).
             let pkt1 = pkt\<lparr>mp_readyTime := cmd_at + dp_tCL d + dp_tBURST d\<rparr>;
                 r3 = r2\<lparr>rk_lastBurstTick := cmd_at\<rparr>;
                 ranks1 = col_update d rank0 (mp_read pkt) (bk_bankgr (rk_banks r3 ! b)) burst_gap cmd_at ((dr_ranks s)[rank0 := r3])
             in obind (burst_finish d W now B3 (ranks1 ! rank0) pkt1 others cmd_at) (\<lambda>(B4, r4).
                  let s1 = burst_stats d (s\<lparr>dr_activeRank := rank0\<rparr>) pkt1 (\<not> act) cmd_at;
                      rh_bus_delay = (if mp_rh_injectDelay pkt then mp_rh_busDelay pkt else 0)
                  in if mp_rh_injectDelay pkt \<and> mp_rh_bankDelay pkt \<noteq> 0 \<and> act_tick = 0 then failed AssertFail
                     else let r5 = (if mp_rh_injectDelay pkt \<and> mp_rh_bankDelay pkt \<noteq> 0
                                    then delayBankRowhammer d r4 b (mp_row pkt) act_tick (mp_rh_bankDelay pkt) else r4)
                          in ok (B4, s1\<lparr>dr_ranks := ranks1[rank0 := r5]\<rparr>, pkt1, act, cmd_at, cmd_at + burst_gap + rh_bus_delay))))))"

text \<open>A burst on the other interface.\<close>

definition addRankToRankDelay :: "dram_params \<Rightarrow> dram \<Rightarrow> tick \<Rightarrow> dram" where
  "addRankToRankDelay d s cmd_at = s\<lparr>dr_ranks := map (map_banks (\<lambda>k.
     k\<lparr>bk_rdAllowedAt := max (cmd_at + rankToRankDelay d) (bk_rdAllowedAt k),
       bk_wrAllowedAt := max (cmd_at + rankToRankDelay d) (bk_wrAllowedAt k)\<rparr>)) (dr_ranks s)\<rparr>"

section \<open>A fresh DRAM\<close>

definition dram_start :: "nat \<Rightarrow> nat \<Rightarrow> nat \<Rightarrow> nat \<Rightarrow> dram" where
  "dram_start ranks banks groups limit = \<lparr>dr_ranks = map (Rank_new banks groups limit) [0..<ranks], dr_activeRank = 0,
     dr_s_readBursts = 0, dr_s_writeBursts = 0, dr_s_readRowHits = 0, dr_s_writeRowHits = 0, dr_s_bytesRead = 0,
     dr_s_bytesWritten = 0, dr_s_totMemAccLat = 0, dr_s_totQLat = 0, dr_s_totBusLat = 0, dr_s_perBankRdBursts = (\<lambda>_. 0),
     dr_s_perBankWrBursts = (\<lambda>_. 0)\<rparr>"

text \<open>A concrete interface and packet.\<close>

definition example_dram_params :: dram_params where
  "example_dram_params = \<lparr>dp_iface = example_interface, dp_maxCommandsPerWindow = 2, dp_tCK = 1, dp_tCS = 2, dp_tBURST = 4,
     dp_tRTW = 2, dp_tWTR = 6, dp_bankGroupArch = True, dp_tCL = 14, dp_tBURST_MIN = 4, dp_tBURST_MAX = 4, dp_tCCD_L_WR = 6,
     dp_tCCD_L = 6, dp_tRCD = 14, dp_tRP = 14, dp_tRAS = 32, dp_tWR = 15, dp_tRTP = 8, dp_tRFC = 350, dp_tREFI = 3900,
     dp_tRRD = 4, dp_tRRD_L = 6, dp_tPPD = 0, dp_tAAD = 1, dp_tXAW = 30, dp_tXP = 6, dp_tXS = 340, dp_clkResyncDelay = 18,
     dp_dataClockSync = False, dp_burstInterleave = False, dp_twoCycleActivate = False, dp_activationLimit = 2,
     dp_wrToRdDlySameBG = 24, dp_rdToWrDlySameBG = 6, dp_pageMgmt = page_open_adaptive, dp_maxAccessesPerRow = 16,
     dp_enableDRAMPowerdown = False\<rparr>"

definition example_burst :: "nat \<Rightarrow> nat \<Rightarrow> mem_packet" where
  "example_burst bank row = MemPacket_new 5 0 0 True True 1 bank row (16 + bank) 0 64"

end
