(* ===== verification/Dram_Timing.thy ===== *)
theory Dram_Timing
  imports Dram_Bank
begin

text \<open>
  Correctness of the bank operations: a rank keeps the count of its open banks and its activation
  window (no bank may be activated until tXAW after the oldest of the last \<open>activationLimit\<close>
  activations), so no assertion of a burst fails and the panic of the activation window is never
  reached.
\<close>

section \<open>Invariant\<close>

definition is_open :: "bank \<Rightarrow> bool" where "is_open k \<longleftrightarrow> bk_openRow k \<noteq> NO_ROW"

definition count_open :: "bank list \<Rightarrow> nat" where "count_open ks = length (filter is_open ks)"

definition act_ok :: "dram_params \<Rightarrow> tick list \<Rightarrow> bank \<Rightarrow> bool" where
  "act_ok d ts k \<longleftrightarrow> (ts \<noteq> [] \<longrightarrow> hd ts \<le> bk_actAllowedAt k \<and> (last ts \<noteq> 0 \<longrightarrow> last ts + dp_tXAW d \<le> bk_actAllowedAt k))"

definition rank_wf :: "dram_params \<Rightarrow> dram_rank \<Rightarrow> bool" where
  "rank_wf d r \<longleftrightarrow> rk_numBanksActive r = count_open (rk_banks r) \<and> length (rk_actTicks r) = dp_activationLimit d \<and>
     sorted_wrt (\<ge>) (rk_actTicks r) \<and> (\<forall>k\<in>set (rk_banks r). act_ok d (rk_actTicks r) k)"

definition bus_ok :: "dram_params \<Rightarrow> tick \<Rightarrow> burst_ticks \<Rightarrow> bool" where
  "bus_ok d W B \<longleftrightarrow> 0 < W \<and> 0 < dp_maxCommandsPerWindow d \<and> (\<forall>t. count B t \<le> dp_maxCommandsPerWindow d)"

lemma rank_wf_cong:
  assumes "rk_banks r' = rk_banks r" "rk_numBanksActive r' = rk_numBanksActive r" "rk_actTicks r' = rk_actTicks r"
  shows "rank_wf d r' = rank_wf d r"
  by (simp add: rank_wf_def assms)

lemma count_open_upd:
  "b < length ks \<Longrightarrow> count_open (ks[b := x]) + (if is_open (ks ! b) then 1 else 0) = count_open ks + (if is_open x then 1 else 0)"
proof (induction ks arbitrary: b)
  case (Cons k ks)
  then show ?case by (cases b) (auto simp: count_open_def)
qed simp

lemma all_upd: "\<forall>k\<in>set ks. P k \<Longrightarrow> P x \<Longrightarrow> \<forall>k\<in>set (ks[b := x]). P k"
  by (auto dest!: subsetD[OF set_update_subset_insert])

lemma count_open_le: "count_open ks \<le> length ks"
  by (simp add: count_open_def)

lemma count_open_pos: "b < length ks \<Longrightarrow> is_open (ks ! b) \<Longrightarrow> 0 < count_open ks"
  by (auto simp: count_open_def filter_empty_conv)

lemma count_open_map: "(\<And>k. is_open (f k) = is_open k) \<Longrightarrow> count_open (map f ks) = count_open ks"
  by (induction ks) (simp_all add: count_open_def)

lemma act_ok_mono: "act_ok d ts k \<Longrightarrow> bk_actAllowedAt k \<le> bk_actAllowedAt k' \<Longrightarrow> act_ok d ts k'"
  by (auto simp: act_ok_def intro: order_trans)

text \<open>Updates that only push the activation time of banks out keep the invariant.\<close>

lemma map_banks_wf:
  assumes "rank_wf d r" "\<And>k. bk_actAllowedAt k \<le> bk_actAllowedAt (f k)" "\<And>k. is_open (f k) = is_open k"
  shows "rank_wf d (map_banks f r)"
  using assms(1) act_ok_mono[OF _ assms(2)] by (auto simp: rank_wf_def count_open_map[OF assms(3)])

lemma upd_bank_wf:
  assumes "rank_wf d r" "bk_actAllowedAt (rk_banks r ! b) \<le> bk_actAllowedAt (f (rk_banks r ! b))"
    and "is_open (f (rk_banks r ! b)) = is_open (rk_banks r ! b)"
  shows "rank_wf d (upd_bank b f r)"
proof (cases "b < length (rk_banks r)")
  case True
  have "act_ok d (rk_actTicks r) (f (rk_banks r ! b))"
    using assms(1) True by (auto simp: rank_wf_def intro!: act_ok_mono[OF _ assms(2)])
  moreover have "count_open ((rk_banks r)[b := f (rk_banks r ! b)]) = count_open (rk_banks r)"
    using count_open_upd[OF True, of "f (rk_banks r ! b)"] assms(3) by (auto split: if_splits)
  ultimately show ?thesis using assms(1) set_update_subset_insert[of "rk_banks r" b]
    by (auto simp: rank_wf_def)
next
  case False
  then have "upd_bank b f r = r" by (simp add: upd_bank_def list_update_beyond)
  then show ?thesis using assms(1) by simp
qed

lemma is_open_fields:
  "is_open (rrd_bank d g t n k) = is_open k" "is_open (act_bank d t k) = is_open k"
  "is_open (col_bank d sr rd g gap t k) = is_open k" "is_open (burst_bank d p t k) = is_open k"
  "is_open (wake_bank t k) = is_open k" "\<not> is_open (close_row k)" "is_open (open_row row k) = (row \<noteq> NO_ROW)"
  by (simp_all add: is_open_def rrd_bank_def act_bank_def col_bank_def burst_bank_def close_row_def open_row_def)

lemma act_fields:
  "bk_actAllowedAt k \<le> bk_actAllowedAt (rrd_bank d g t n k)" "bk_actAllowedAt (act_bank d t k) = bk_actAllowedAt k"
  "bk_actAllowedAt (col_bank d sr rd g gap t k) = bk_actAllowedAt k" "bk_actAllowedAt (burst_bank d p t k) = bk_actAllowedAt k"
  "bk_actAllowedAt (close_row k) = bk_actAllowedAt k" "bk_actAllowedAt (open_row row k) = bk_actAllowedAt k"
  by (simp_all add: rrd_bank_def act_bank_def col_bank_def burst_bank_def close_row_def open_row_def)

section \<open>The command bus\<close>

lemma issue_ok:
  assumes "bus_ok d W B"
  shows "\<exists>B' at. issue d W B t = ok (B', at) \<and> t \<le> at \<and> bus_ok d W B'"
proof -
  have "0 < W" "0 < dp_maxCommandsPerWindow d" "\<forall>t. count B t \<le> dp_maxCommandsPerWindow d"
    using assms by (simp_all add: bus_ok_def)
  from verifySingleCmd_spec[OF this, of t] this(1,2) show ?thesis unfolding bus_ok_def issue_def by blast
qed

lemma issue_pair_ok:
  assumes "bus_ok d W B"
  shows "\<exists>B' at. verifyMultiCmd W B t (dp_maxCommandsPerWindow d) x = ok (B', at) \<and> t \<le> at \<and> bus_ok d W B'"
proof -
  have "0 < W" "0 < dp_maxCommandsPerWindow d" "\<forall>t. count B t \<le> dp_maxCommandsPerWindow d"
    using assms by (simp_all add: bus_ok_def)
  from verifyMultiCmd_spec[OF this, of t x] this(1,2) show ?thesis unfolding bus_ok_def by blast
qed

section \<open>Precharge\<close>

text \<open>What precharge and activate leave alone.\<close>

definition rank_frame_eq :: "dram_rank \<Rightarrow> dram_rank \<Rightarrow> bool" where
  "rank_frame_eq r r' \<longleftrightarrow> length (rk_banks r') = length (rk_banks r) \<and> rk_refreshState r' = rk_refreshState r \<and>
     rk_pwrState r' = rk_pwrState r \<and> rk_lastBurstTick r' = rk_lastBurstTick r \<and>
     (\<forall>j<length (rk_banks r). bk_bankgr (rk_banks r' ! j) = bk_bankgr (rk_banks r ! j))"

lemma rank_frame_refl [simp]: "rank_frame_eq r r" by (simp add: rank_frame_eq_def)

lemma rank_frame_trans: "rank_frame_eq a b \<Longrightarrow> rank_frame_eq b c \<Longrightarrow> rank_frame_eq a c"
  by (simp add: rank_frame_eq_def)

lemma upd_bank_frame: "(\<And>k. bk_bankgr (f k) = bk_bankgr k) \<Longrightarrow> rank_frame_eq r (upd_bank b f r)"
  by (cases "b < length (rk_banks r)") (simp_all add: rank_frame_eq_def nth_list_update list_update_beyond)

lemma map_banks_frame: "(\<And>k. bk_bankgr (f k) = bk_bankgr k) \<Longrightarrow> rank_frame_eq r (map_banks f r)"
  by (simp add: rank_frame_eq_def)

lemma precharge_event_ok:
  assumes "now \<le> t"
  shows "\<exists>r'. precharge_event now r t = Inr r' \<and> rank_frame_eq r r' \<and> rk_banks r' = rk_banks r \<and>
    rk_numBanksActive r' = rk_numBanksActive r \<and> rk_actTicks r' = rk_actTicks r \<and> rk_prechargeEvent r' \<noteq> None"
  using assms by (auto simp: precharge_event_def schedule_def reschedule_def rank_frame_eq_def split: option.split)

lemma prechargeBank_ok:
  assumes "rank_wf d r" "bus_ok d W B" "b < length (rk_banks r)" "is_open (rk_banks r ! b)" "now \<le> pre_tick"
  shows "\<exists>B' r'. prechargeBank d W now B r b pre_tick auto trace = ok (B', r') \<and> rank_wf d r' \<and> bus_ok d W B' \<and>
    rank_frame_eq r r' \<and> rk_actTicks r' = rk_actTicks r \<and> \<not> is_open (rk_banks r' ! b) \<and>
    pre_tick + dp_tRP d \<le> bk_actAllowedAt (rk_banks r' ! b) \<and>
    (\<forall>j<length (rk_banks r). j \<noteq> b \<longrightarrow> bk_openRow (rk_banks r' ! j) = bk_openRow (rk_banks r ! j))"
proof -
  let ?b = "rk_banks r ! b"
  define r1 where "r1 = upd_bank b close_row r"
  define f where "f = (\<lambda>pre_at. if auto then upd_bank b (bk_preAllowedAt_update (\<lambda>_. pre_at)) r1
      else map_banks (\<lambda>k. k\<lparr>bk_preAllowedAt := max (pre_at + dp_tPPD d) (bk_preAllowedAt k)\<rparr>) r1)"
  obtain B' pre_at where c: "(if auto then ok (B, pre_tick, upd_bank b (bk_preAllowedAt_update (\<lambda>_. pre_tick)) r1)
               else obind (issue d W B pre_tick) (\<lambda>(B', pre_at). ok (B', pre_at,
                 map_banks (\<lambda>k. k\<lparr>bk_preAllowedAt := max (pre_at + dp_tPPD d) (bk_preAllowedAt k)\<rparr>) r1))) =
      ok (B', pre_at, f pre_at)" "pre_tick \<le> pre_at" "bus_ok d W B'"
  proof (cases auto)
    case True
    then show ?thesis using that[of B pre_tick] assms(2) by (simp add: f_def)
  next
    case False
    obtain B' at where "issue d W B pre_tick = ok (B', at)" "pre_tick \<le> at" "bus_ok d W B'"
      using issue_ok[OF assms(2)] by blast
    then show ?thesis using that[of B' at] False by (simp add: f_def)
  qed
  define r3 where "r3 = upd_bank b (\<lambda>k. k\<lparr>bk_actAllowedAt := max (bk_actAllowedAt k) (pre_at + dp_tRP d)\<rparr>) (f pre_at)"
  define r4 where "r4 = r3\<lparr>rk_numBanksActive := rk_numBanksActive r3 - 1\<rparr>"
  define r5 where "r5 = (if trace then log_cmd (Command PRE (bk_bank ?b) pre_at) r4 else r4)"
  have f: "rk_numBanksActive (f t) = rk_numBanksActive r" "rk_actTicks (f t) = rk_actTicks r"
    "length (rk_banks (f t)) = length (rk_banks r)" "count_open (rk_banks (f t)) = count_open (rk_banks r1)"
    "\<forall>k\<in>set (rk_banks (f t)). act_ok d (rk_actTicks r) k" "rank_frame_eq r (f t)" "\<not> is_open (rk_banks (f t) ! b)"
    "\<forall>j<length (rk_banks r). j \<noteq> b \<longrightarrow> bk_openRow (rk_banks (f t) ! j) = bk_openRow (rk_banks r ! j)" for t
  proof -
    have k: "\<forall>k\<in>set (rk_banks r). act_ok d (rk_actTicks r) k" using assms(1) by (simp add: rank_wf_def)
    have kb: "act_ok d (rk_actTicks r) ?b" using k assms(3) by simp
    have a: "act_ok d ts (bk_preAllowedAt_update g x) = act_ok d ts x" "act_ok d ts (close_row x) = act_ok d ts x" for ts g x
      by (simp_all add: act_ok_def close_row_def)
    show "count_open (rk_banks (f t)) = count_open (rk_banks r1)"
      using count_open_upd[of b "rk_banks r1" "bk_preAllowedAt_update (\<lambda>_. t) (rk_banks r1 ! b)"] assms(3)
      by (simp add: f_def r1_def is_open_def count_open_map)
    show "\<forall>k\<in>set (rk_banks (f t)). act_ok d (rk_actTicks r) k"
    proof (cases auto)
      case True
      have "act_ok d (rk_actTicks r) (close_row ?b)" using kb by (simp add: a)
      then show ?thesis using True k assms(3)
        by (simp only: f_def r1_def upd_bank_fields if_True nth_list_update_eq list_update_overwrite)
           (rule all_upd, assumption, simp add: a)
    next
      case False
      have "act_ok d (rk_actTicks r) (close_row ?b)" using kb by (simp add: a)
      from all_upd[OF k this, of b] False show ?thesis
        by (simp only: f_def r1_def upd_bank_fields map_banks_fields if_False set_map ball_simps a simp_thms)
    qed
    show "\<forall>j<length (rk_banks r). j \<noteq> b \<longrightarrow> bk_openRow (rk_banks (f t) ! j) = bk_openRow (rk_banks r ! j)"
      by (simp add: f_def r1_def)
    show "rank_frame_eq r (f t)" "\<not> is_open (rk_banks (f t) ! b)"
      using assms(3) by (auto simp: f_def r1_def rank_frame_eq_def is_open_def close_row_def nth_list_update)
  qed (simp_all add: f_def r1_def)
  have n: "rk_numBanksActive r = count_open (rk_banks r)" "0 < count_open (rk_banks r)"
    using assms(1) count_open_pos[OF assms(3,4)] by (simp_all add: rank_wf_def)
  have r1c: "count_open (rk_banks r1) = count_open (rk_banks r) - 1"
    using count_open_upd[OF assms(3), of "close_row ?b"] assms(4) by (simp add: r1_def is_open_fields)
  have r3: "rk_numBanksActive r3 = rk_numBanksActive r" "rk_actTicks r3 = rk_actTicks r"
    "count_open (rk_banks r3) = count_open (rk_banks r1)" "\<forall>k\<in>set (rk_banks r3). act_ok d (rk_actTicks r) k"
    "rank_frame_eq r r3" "\<not> is_open (rk_banks r3 ! b)" "pre_tick + dp_tRP d \<le> bk_actAllowedAt (rk_banks r3 ! b)"
    "\<forall>j<length (rk_banks r). j \<noteq> b \<longrightarrow> bk_openRow (rk_banks r3 ! j) = bk_openRow (rk_banks r ! j)"
  proof -
    let ?x = "(rk_banks (f pre_at) ! b)\<lparr>bk_actAllowedAt := max (bk_actAllowedAt (rk_banks (f pre_at) ! b)) (pre_at + dp_tRP d)\<rparr>"
    have lb: "b < length (rk_banks (f pre_at))" using f(3) assms(3) by simp
    then have "act_ok d (rk_actTicks r) (rk_banks (f pre_at) ! b)" using f(5)[of pre_at] by simp
    then have "act_ok d (rk_actTicks r) ?x" by (rule act_ok_mono) simp
    with f(5)[of pre_at] show "\<forall>k\<in>set (rk_banks r3). act_ok d (rk_actTicks r) k"
      unfolding r3_def upd_bank_fields by (rule all_upd)
    show "count_open (rk_banks r3) = count_open (rk_banks r1)"
      using count_open_upd[OF lb, of ?x] f(4)[of pre_at] by (simp add: r3_def is_open_def)
    show "rank_frame_eq r r3" unfolding r3_def by (rule rank_frame_trans[OF f(6)], rule upd_bank_frame) simp
    show "\<not> is_open (rk_banks r3 ! b)" using f(7)[of pre_at] lb by (simp add: r3_def is_open_def)
    show "pre_tick + dp_tRP d \<le> bk_actAllowedAt (rk_banks r3 ! b)" using lb c(2) by (simp add: r3_def)
    show "\<forall>j<length (rk_banks r). j \<noteq> b \<longrightarrow> bk_openRow (rk_banks r3 ! j) = bk_openRow (rk_banks r ! j)"
      using f(8)[of pre_at] by (simp add: r3_def)
  qed (simp_all add: r3_def f)
  have r5: "rk_banks r5 = rk_banks r3" "rk_numBanksActive r5 = rk_numBanksActive r3 - 1" "rk_actTicks r5 = rk_actTicks r3"
    "rank_frame_eq r3 r5"
    by (simp_all add: r5_def r4_def rank_frame_eq_def log_cmd_def)
  obtain r6 where r6: "precharge_event now r5 (pre_at + dp_tRP d) = Inr r6" "rank_frame_eq r5 r6" "rk_banks r6 = rk_banks r5"
    "rk_numBanksActive r6 = rk_numBanksActive r5" "rk_actTicks r6 = rk_actTicks r5"
    using precharge_event_ok[of now "pre_at + dp_tRP d" r5] c(2) assms(5) by auto
  have "prechargeBank d W now B r b pre_tick auto trace = ok (B', r6)"
    unfolding prechargeBank_def Let_def r1_def[symmetric] c(1) obind_ok prod.case r3_def[symmetric] r4_def[symmetric]
      r5_def[symmetric]
    using assms(4) r6(1) n r3(1) by (simp add: is_open_def)
  moreover have "rank_wf d r6" using r6 r5 r3 r1c n assms(1) by (simp add: rank_wf_def)
  moreover have "rank_frame_eq r r6" using rank_frame_trans r3(5) r5(4) r6(2) by blast
  ultimately show ?thesis using c(3) r6(3,5) r5(1,3) r3(2,6-8) by (intro exI[of _ B'] exI[of _ r6]) simp
qed


section \<open>Activate\<close>

text \<open>The activation window never panics for an activation its bank permits, and moves on.\<close>

lemma activation_window_ok:
  assumes "\<forall>k\<in>set (rk_banks r). act_ok d (rk_actTicks r) k" "sorted_wrt (\<ge>) (rk_actTicks r)"
    and "b < length (rk_banks r)" "rk_actTicks r \<noteq> [] \<longrightarrow> hd (rk_actTicks r) \<le> at \<and>
      (last (rk_actTicks r) \<noteq> 0 \<longrightarrow> last (rk_actTicks r) + dp_tXAW d \<le> at)"
    and "\<forall>k\<in>set (rk_banks r). at \<le> bk_actAllowedAt k"
  shows "\<exists>r' f. activation_window d at r = Inr r' \<and> r' = map_banks f (r\<lparr>rk_actTicks := rk_actTicks r'\<rparr>) \<and>
    rk_actTicks r' = (if rk_actTicks r = [] then [] else at # butlast (rk_actTicks r)) \<and>
    sorted_wrt (\<ge>) (rk_actTicks r') \<and> (\<forall>k\<in>set (rk_banks r'). act_ok d (rk_actTicks r') k) \<and>
    (\<forall>k. f k = k\<lparr>bk_actAllowedAt := bk_actAllowedAt (f k)\<rparr>)"
proof (cases "rk_actTicks r = []")
  case True
  have "map_banks (\<lambda>k. k) (r\<lparr>rk_actTicks := rk_actTicks r\<rparr>) = r" by (simp add: map_banks_def)
  then show ?thesis using True assms(1) by (intro exI[of _ r] exI[of _ "\<lambda>k. k"]) (simp add: activation_window_def)
next
  case False
  let ?ts = "rk_actTicks r"
  define ts where "ts = at # butlast ?ts"
  have nopanic: "\<not> (last ?ts \<noteq> 0 \<and> sub64 at (last ?ts) < dp_tXAW d)"
    using assms(4) False by (auto simp: sub64_le)
  have sb: "sorted_wrt (\<ge>) (butlast ?ts)" using assms(2) False
    by (metis append_butlast_last_id sorted_wrt_append)
  have "\<forall>x\<in>set (butlast ?ts). x \<le> at"
  proof
    fix x assume "x \<in> set (butlast ?ts)"
    then have "x \<le> hd ?ts" using assms(2) False in_set_butlastD[of x ?ts] by (cases ?ts) auto
    then show "x \<le> at" using assms(4) False by simp
  qed
  then have sorted: "sorted_wrt (\<ge>) ts" using sb by (simp add: ts_def)
  have lt: "last ts \<le> at" using sorted by (cases "butlast ?ts = []") (auto simp: ts_def)
  define f :: "bank \<Rightarrow> bank" where "f = (if last ts \<noteq> 0 \<and> sub64 at (last ts) < dp_tXAW d
      then (\<lambda>k. k\<lparr>bk_actAllowedAt := max (last ts + dp_tXAW d) (bk_actAllowedAt k)\<rparr>) else (\<lambda>k. k))"
  let ?r' = "map_banks f (r\<lparr>rk_actTicks := ts\<rparr>)"
  have ne: "ts \<noteq> []" "hd ts = at" by (simp_all add: ts_def)
  have m: "map_banks (\<lambda>k. k) (r\<lparr>rk_actTicks := ts\<rparr>) = r\<lparr>rk_actTicks := ts\<rparr>" by (simp add: map_banks_def)
  have "activation_window d at r = Inr ?r'"
    using False nopanic by (auto simp: activation_window_def Let_def ts_def[symmetric] f_def m)
  moreover have "\<forall>k\<in>set (rk_banks ?r'). act_ok d ts k"
    using assms(5) ne lt by (auto simp: act_ok_def f_def sub64_le dest: bspec split: if_splits)
  moreover have "\<forall>k. f k = k\<lparr>bk_actAllowedAt := bk_actAllowedAt (f k)\<rparr>" by (simp add: f_def)
  ultimately show ?thesis using sorted False by (intro exI[of _ ?r'] exI[of _ f]) (simp add: ts_def[symmetric])
qed

lemma activate_event_ok:
  assumes "now \<le> t"
  shows "\<exists>r'. activate_event now r t = Inr r' \<and> rank_frame_eq r r' \<and> rk_banks r' = rk_banks r \<and>
    rk_numBanksActive r' = rk_numBanksActive r \<and> rk_actTicks r' = rk_actTicks r \<and>
    (\<exists>w. rk_activateEvent r' = Some w \<and> w \<le> t)"
  using assms by (auto simp: activate_event_def schedule_def reschedule_def rank_frame_eq_def split: option.split)

lemma activateBank_ok:
  assumes "rank_wf d r" "bus_ok d W B" "b < length (rk_banks r)" "\<not> is_open (rk_banks r ! b)" "row \<noteq> NO_ROW"
    and "bk_actAllowedAt (rk_banks r ! b) \<le> act_tick" "now \<le> act_tick"
  shows "\<exists>B' r' at. activateBank d W now B r b act_tick row = ok (B', r') \<and> rank_wf d r' \<and> bus_ok d W B' \<and>
    rank_frame_eq r r' \<and> act_tick \<le> at \<and> bk_openRow (rk_banks r' ! b) = row \<and>
    at + dp_tRCD d \<le> bk_rdAllowedAt (rk_banks r' ! b) \<and> at + dp_tRCD d \<le> bk_wrAllowedAt (rk_banks r' ! b) \<and>
    bk_preAllowedAt (rk_banks r' ! b) = at + dp_tRAS d \<and>
    rk_actTicks r' = (if rk_actTicks r = [] then [] else at # butlast (rk_actTicks r)) \<and>
    (rk_actTicks r \<noteq> [] \<and> last (rk_actTicks r) \<noteq> 0 \<longrightarrow> last (rk_actTicks r) + dp_tXAW d \<le> at) \<and>
    (\<forall>j<length (rk_banks r). j \<noteq> b \<longrightarrow> bk_openRow (rk_banks r' ! j) = bk_openRow (rk_banks r ! j))"
proof -
  let ?b = "rk_banks r ! b"
  obtain B' at where v: "(if dp_twoCycleActivate d then verifyMultiCmd W B act_tick (dp_maxCommandsPerWindow d) (dp_tAAD d)
      else issue d W B act_tick) = ok (B', at)" "act_tick \<le> at" "bus_ok d W B'"
    using issue_ok[OF assms(2), of act_tick] issue_pair_ok[OF assms(2), of act_tick "dp_tAAD d"]
    by (cases "dp_twoCycleActivate d") auto
  define r1 where "r1 = (upd_bank b (open_row row) r)\<lparr>rk_numBanksActive := rk_numBanksActive r + 1\<rparr>"
  define r2 where "r2 = upd_bank b (act_bank d at) (log_cmd (Command ACT (bk_bank ?b) at) r1)"
  define r3 where "r3 = map_banks (rrd_bank d (bk_bankgr ?b) at 1) r2"
  let ?f = "\<lambda>k. rrd_bank d (bk_bankgr ?b) at 1 k"
  have wf: "rk_numBanksActive r = count_open (rk_banks r)" "length (rk_actTicks r) = dp_activationLimit d"
    "sorted_wrt (\<ge>) (rk_actTicks r)" "\<forall>k\<in>set (rk_banks r). act_ok d (rk_actTicks r) k"
    using assms(1) by (simp_all add: rank_wf_def)
  have banks3: "rk_banks r3 = map ?f ((rk_banks r)[b := act_bank d at (open_row row ?b)])"
    using assms(3) by (simp add: r3_def r2_def r1_def)
  have c: "count_open (rk_banks r1) = count_open (rk_banks r) + 1"
    using count_open_upd[OF assms(3), of "open_row row ?b"] assms(4,5) by (simp add: r1_def is_open_fields)
  have c3: "count_open (rk_banks r3) = count_open (rk_banks r1)"
    using count_open_upd[OF assms(3), of "act_bank d at (open_row row ?b)"] c assms(4,5)
    by (simp add: banks3 count_open_map is_open_fields)
  have bound: "rk_numBanksActive r1 \<le> length (rk_banks r1)"
    using c count_open_le[of "rk_banks r1"] wf(1) by (simp add: r1_def)
  have t3: "rk_actTicks r3 = rk_actTicks r" by (simp add: r3_def r2_def r1_def)
  have kb: "act_ok d (rk_actTicks r) ?b" using wf(4) assms(3) by simp
  then have "act_ok d (rk_actTicks r) (act_bank d at (open_row row ?b))"
    by (rule act_ok_mono) (simp add: act_fields)
  from all_upd[OF wf(4) this, of b] have ok3: "\<forall>k\<in>set (rk_banks r3). act_ok d (rk_actTicks r3) k"
    unfolding banks3 t3 by (auto intro: act_ok_mono[OF _ act_fields(1)])
  have at3: "\<forall>k\<in>set (rk_banks r3). at \<le> bk_actAllowedAt k"
    unfolding banks3 by (auto simp: rrd_bank_def)
  have win: "rk_actTicks r3 \<noteq> [] \<longrightarrow> hd (rk_actTicks r3) \<le> at \<and>
      (last (rk_actTicks r3) \<noteq> 0 \<longrightarrow> last (rk_actTicks r3) + dp_tXAW d \<le> at)"
    using kb assms(6) v(2) unfolding t3 act_ok_def by auto
  have len3: "b < length (rk_banks r3)" using assms(3) by (simp add: banks3)
  obtain r4 f where r4: "activation_window d at r3 = Inr r4" "r4 = map_banks f (r3\<lparr>rk_actTicks := rk_actTicks r4\<rparr>)"
    "rk_actTicks r4 = (if rk_actTicks r = [] then [] else at # butlast (rk_actTicks r))" "sorted_wrt (\<ge>) (rk_actTicks r4)"
    "\<forall>k\<in>set (rk_banks r4). act_ok d (rk_actTicks r4) k" "\<And>k. f k = k\<lparr>bk_actAllowedAt := bk_actAllowedAt (f k)\<rparr>"
    using activation_window_ok[OF ok3 _ len3 win at3] wf(3) unfolding t3 by blast
  obtain r5 where r5: "activate_event now r4 at = Inr r5" "rank_frame_eq r4 r5" "rk_banks r5 = rk_banks r4"
    "rk_numBanksActive r5 = rk_numBanksActive r4" "rk_actTicks r5 = rk_actTicks r4"
    using activate_event_ok[of now at r4] assms(7) v(2) by auto
  have fk: "bk_openRow (f k) = bk_openRow k" "bk_bankgr (f k) = bk_bankgr k" "bk_rdAllowedAt (f k) = bk_rdAllowedAt k"
    "bk_wrAllowedAt (f k) = bk_wrAllowedAt k" "bk_preAllowedAt (f k) = bk_preAllowedAt k" "is_open (f k) = is_open k" for k
    using r4(6)[of k] by (metis bank.select_convs bank.surjective bank.update_convs(7) is_open_def)+
  have b4: "rk_banks r4 = map f (rk_banks r3)" "rk_numBanksActive r4 = rk_numBanksActive r1"
    by (subst r4(2), simp add: r3_def r2_def)+
  have fr: "rank_frame_eq r r5"
  proof -
    have "rank_frame_eq r r4"
      unfolding rank_frame_eq_def using assms(3)
      by (subst (2 3 4 5) r4(2)) (auto simp: b4(1) banks3 fk(2) r3_def r2_def r1_def rrd_bank_def act_bank_def open_row_def nth_list_update)
    then show ?thesis using r5(2) by (rule rank_frame_trans)
  qed
  have "activateBank d W now B r b act_tick row = ok (B', r5)"
    unfolding activateBank_def Let_def v(1) obind_ok prod.case r1_def[symmetric] r2_def[symmetric] r3_def[symmetric]
    using wf(2) assms(4) bound r4(1) r5(1) by (simp add: is_open_def)
  moreover have "length (rk_actTicks r4) = length (rk_actTicks r)" using r4(3) by (cases "rk_actTicks r") auto
  then have "rank_wf d r5"
    using r5(3-5) r4(4,5) wf(1,2) c c3 b4 count_open_map[of f "rk_banks r3"] fk(6)
    by (simp add: rank_wf_def r1_def)
  moreover have "bk_openRow (rk_banks r5 ! b) = row \<and> at + dp_tRCD d \<le> bk_rdAllowedAt (rk_banks r5 ! b) \<and>
      at + dp_tRCD d \<le> bk_wrAllowedAt (rk_banks r5 ! b) \<and> bk_preAllowedAt (rk_banks r5 ! b) = at + dp_tRAS d"
    using assms(3) by (simp add: r5(3) b4 banks3 fk rrd_bank_def act_bank_def open_row_def)
  moreover have "\<forall>j<length (rk_banks r). j \<noteq> b \<longrightarrow> bk_openRow (rk_banks r5 ! j) = bk_openRow (rk_banks r ! j)"
    by (simp add: r5(3) b4 banks3 fk rrd_bank_def)
  ultimately show ?thesis using v(2,3) fr r5(5) r4(3) win
    by (intro exI[of _ B'] exI[of _ r5] exI[of _ at]) (auto simp: t3)
qed


section \<open>A burst\<close>

lemma burst_wake_ok:
  assumes "rank_wf d r" "rk_inLowPowerState r \<Longrightarrow> rk_pwrState r \<noteq> PWR_SREF \<and> rk_wakeUpEvent r = None"
  shows "\<exists>r'. burst_wake d now r = Inr r' \<and> rank_wf d r' \<and> rank_frame_eq r r' \<and> rk_actTicks r' = rk_actTicks r \<and>
    (\<forall>j<length (rk_banks r). bk_openRow (rk_banks r' ! j) = bk_openRow (rk_banks r ! j) \<and>
      bk_actAllowedAt (rk_banks r ! j) \<le> bk_actAllowedAt (rk_banks r' ! j))"
proof (cases "rk_inLowPowerState r")
  case False
  then show ?thesis using assms(1) by (simp add: burst_wake_def)
next
  case True
  obtain r' where r': "scheduleWakeUpEvent now r (dp_tXP d) = Inr r'"
    using scheduleWakeUpEvent_ok assms(2)[OF True] by blast
  note f = scheduleWakeUpEvent_Inr[OF r']
  have "rank_wf d (map_banks (wake_bank (max now (rk_wakeUpAllowedAt r) + dp_tXP d)) r)"
    by (rule map_banks_wf[OF assms(1)]) (simp_all add: is_open_fields)
  then have "rank_wf d r'" using f(1-3) by (subst rank_wf_cong[of _ "map_banks (wake_bank (max now (rk_wakeUpAllowedAt r) + dp_tXP d)) r"]) simp_all
  then show ?thesis using r' True assms(2) f by (auto simp: burst_wake_def rank_frame_eq_def)
qed

text \<open>The activation a miss makes: its tick respects the window and the row-to-column delay.\<close>

definition activated :: "dram_params \<Rightarrow> dram_rank \<Rightarrow> dram_rank \<Rightarrow> nat \<Rightarrow> tick \<Rightarrow> tick \<Rightarrow> bool" where
  "activated d r r' b act_tick at \<longleftrightarrow> act_tick \<le> at \<and>
     rk_actTicks r' = (if rk_actTicks r = [] then [] else at # butlast (rk_actTicks r)) \<and>
     (rk_actTicks r \<noteq> [] \<and> last (rk_actTicks r) \<noteq> 0 \<longrightarrow> last (rk_actTicks r) + dp_tXAW d \<le> at) \<and>
     at + dp_tRCD d \<le> bk_rdAllowedAt (rk_banks r' ! b) \<and> at + dp_tRCD d \<le> bk_wrAllowedAt (rk_banks r' ! b)"

lemma burst_open_ok:
  assumes "rank_wf d r" "bus_ok d W B" "b < length (rk_banks r)" "row \<noteq> NO_ROW"
  shows "\<exists>B' r' act act_tick. burst_open d W now B r b row = ok (B', r', act, act_tick) \<and> rank_wf d r' \<and> bus_ok d W B' \<and>
    rank_frame_eq r r' \<and> bk_openRow (rk_banks r' ! b) = row \<and> act = (bk_openRow (rk_banks r ! b) \<noteq> row) \<and>
    (\<forall>j<length (rk_banks r). j \<noteq> b \<longrightarrow> bk_openRow (rk_banks r' ! j) = bk_openRow (rk_banks r ! j)) \<and>
    (if act then now \<le> act_tick \<and> (\<exists>at. activated d r r' b act_tick at) else r' = r)"
proof (cases "bk_openRow (rk_banks r ! b) = row")
  case True
  then show ?thesis using assms(1,2)
    by (intro exI[of _ B] exI[of _ r] exI[of _ False] exI[of _ 0]) (simp add: burst_open_def)
next
  case miss: False
  let ?k = "rk_banks r ! b"
  obtain B1 r1 where p: "(if bk_openRow ?k \<noteq> NO_ROW then prechargeBank d W now B r b (max (bk_preAllowedAt ?k) now) False True
      else ok (B, r)) = ok (B1, r1)" "rank_wf d r1" "bus_ok d W B1" "rank_frame_eq r r1" "rk_actTicks r1 = rk_actTicks r"
    "\<not> is_open (rk_banks r1 ! b)"
    "\<forall>j<length (rk_banks r). j \<noteq> b \<longrightarrow> bk_openRow (rk_banks r1 ! j) = bk_openRow (rk_banks r ! j)"
  proof (cases "is_open ?k")
    case True
    then show ?thesis using prechargeBank_ok[OF assms(1-3) True, of now "max (bk_preAllowedAt ?k) now" False True] that
      by (auto simp: is_open_def)
  next
    case False
    then show ?thesis using that[of B r] assms(1,2) by (simp add: is_open_def)
  qed
  have b1: "b < length (rk_banks r1)" using p(4) assms(3) by (simp add: rank_frame_eq_def)
  let ?t = "max (bk_actAllowedAt (rk_banks r1 ! b)) now"
  obtain B2 r2 at where a: "activateBank d W now B1 r1 b ?t row = ok (B2, r2)" "rank_wf d r2" "bus_ok d W B2"
    "rank_frame_eq r1 r2" "?t \<le> at" "bk_openRow (rk_banks r2 ! b) = row"
    "at + dp_tRCD d \<le> bk_rdAllowedAt (rk_banks r2 ! b)" "at + dp_tRCD d \<le> bk_wrAllowedAt (rk_banks r2 ! b)"
    "rk_actTicks r2 = (if rk_actTicks r1 = [] then [] else at # butlast (rk_actTicks r1))"
    "rk_actTicks r1 \<noteq> [] \<and> last (rk_actTicks r1) \<noteq> 0 \<longrightarrow> last (rk_actTicks r1) + dp_tXAW d \<le> at"
    "\<forall>j<length (rk_banks r1). j \<noteq> b \<longrightarrow> bk_openRow (rk_banks r2 ! j) = bk_openRow (rk_banks r1 ! j)"
    using activateBank_ok[OF p(2,3) b1 p(6) assms(4), of ?t now] by auto
  have "burst_open d W now B r b row = ok (B2, r2, True, ?t)"
    unfolding burst_open_def p(1) obind_ok prod.case Let_def a(1) using miss by simp
  moreover have "activated d r r2 b ?t at" using a p(5) by (simp add: activated_def)
  moreover have "rank_frame_eq r r2" using p(4) a(4) by (rule rank_frame_trans)
  moreover have "\<forall>j<length (rk_banks r). j \<noteq> b \<longrightarrow> bk_openRow (rk_banks r2 ! j) = bk_openRow (rk_banks r ! j)"
    using p(4,7) a(11) by (simp add: rank_frame_eq_def)
  ultimately show ?thesis using a(2,3,6) miss
    by (intro exI[of _ B2] exI[of _ r2] exI[of _ True] exI[of _ ?t]) auto
qed

text \<open>How far before the tick the controller asks for a burst may be placed: the code takes the data
  latency back when the bubble of a swap or a quarantine move is 90000 ticks.\<close>

definition rh_slack :: "dram_params \<Rightarrow> mem_packet \<Rightarrow> tick" where
  "rh_slack d pkt = (if mp_rh_injectDelay pkt \<and> mp_rh_bubbleSize pkt = 90000 \<and>
     (mp_rh_defense pkt = rh_rrs \<or> mp_rh_defense pkt = rh_rq) then dp_tCL d + dp_tBURST d else 0)"

lemma burst_cmd_ok:
  assumes "bus_ok d W B"
  shows "\<exists>B' at gap. burst_cmd d W now B r pkt nb = ok (B', at, gap) \<and> bus_ok d W B' \<and> now \<le> at \<and>
    (if mp_read pkt then bk_rdAllowedAt (rk_banks r ! mp_bank pkt) else bk_wrAllowedAt (rk_banks r ! mp_bank pkt)) \<le> at \<and>
    nb \<le> at + rh_slack d pkt \<and> (gap = dp_tBURST d \<or> gap = dp_tBURST_MIN d)"
proof -
  let ?col = "if mp_read pkt then bk_rdAllowedAt (rk_banks r ! mp_bank pkt) else bk_wrAllowedAt (rk_banks r ! mp_bank pkt)"
  define t where "t = (if mp_rh_injectDelay pkt \<and> mp_rh_bubbleSize pkt = 90000 \<and>
                       (mp_rh_defense pkt = rh_rrs \<or> mp_rh_defense pkt = rh_rq)
                    then max ?col (max (sub64 nb (dp_tCL d + dp_tBURST d)) now) else max ?col (max nb now))"
  obtain B' at where v: "(if dp_dataClockSync d \<and> dp_clkResyncDelay d < sub64 t (rk_lastBurstTick r)
      then verifyMultiCmd W B t (dp_maxCommandsPerWindow d) (dp_tCK d) else issue d W B t) = ok (B', at)" "t \<le> at" "bus_ok d W B'"
    using issue_ok[OF assms, of t] issue_pair_ok[OF assms, of t "dp_tCK d"]
    by (cases "dp_dataClockSync d \<and> dp_clkResyncDelay d < sub64 t (rk_lastBurstTick r)") auto
  have t: "now \<le> t" "?col \<le> t" "nb \<le> t + rh_slack d pkt"
    by (auto simp: t_def le_max_iff_disj rh_slack_def sub64_def)
  define st where "st = (if dp_burstInterleave d
           then if at = rk_lastBurstTick r + dp_tBURST_MIN d then (B', at, dp_tBURST d)
                else if at < rk_lastBurstTick r + dp_tBURST d then (B', rk_lastBurstTick r + dp_tBURST d, dp_tBURST_MIN d)
                else (B', at, dp_tBURST_MIN d)
           else (B', at, dp_tBURST_MIN d))"
  obtain B'' at' gap where st0: "st = (B'', at', gap)" by (cases st)
  then have st: "st = (B', at', gap)" "at \<le> at'" "gap = dp_tBURST d \<or> gap = dp_tBURST_MIN d"
    by (auto simp: st_def split: if_splits)
  have "burst_cmd d W now B r pkt nb = ok st"
    unfolding burst_cmd_def Let_def t_def[symmetric] v(1) obind_ok prod.case by (simp add: st_def)
  then show ?thesis using st t v(2,3) by (intro exI[of _ B'] exI[of _ at'] exI[of _ gap]) auto
qed

lemma write_done_event_ok:
  assumes "now \<le> t"
  shows "\<exists>r'. write_done_event now r t = Inr r' \<and> rank_frame_eq r r' \<and> rk_banks r' = rk_banks r \<and>
    rk_numBanksActive r' = rk_numBanksActive r \<and> rk_actTicks r' = rk_actTicks r"
  using assms by (auto simp: write_done_event_def schedule_def reschedule_def rank_frame_eq_def split: option.split)

lemma burst_finish_ok:
  assumes "rank_wf d r" "bus_ok d W B" "mp_bank pkt < length (rk_banks r)" "is_open (rk_banks r ! mp_bank pkt)"
    and "now \<le> mp_readyTime pkt"
  shows "\<exists>B' r'. burst_finish d W now B r pkt others cmd_at = ok (B', r') \<and> rank_wf d r' \<and> bus_ok d W B' \<and>
    rank_frame_eq r r' \<and> rk_actTicks r' = rk_actTicks r \<and>
    (\<forall>j<length (rk_banks r). j \<noteq> mp_bank pkt \<longrightarrow> bk_openRow (rk_banks r' ! j) = bk_openRow (rk_banks r ! j))"
proof -
  let ?b = "mp_bank pkt"
  define r1 where "r1 = upd_bank ?b (burst_bank d pkt cmd_at) r"
  define r2 where "r2 = log_cmd (Command (if mp_read pkt then RD else WR) ?b cmd_at) r1"
  let ?k = "rk_banks r1 ! ?b"
  have wf1: "rank_wf d r1" unfolding r1_def by (rule upd_bank_wf[OF assms(1)]) (simp_all add: act_fields is_open_fields)
  then have wf2: "rank_wf d r2" by (subst rank_wf_cong[of _ r1]) (simp_all add: r2_def)
  have f2: "rank_frame_eq r r2" "rk_actTicks r2 = rk_actTicks r" "is_open (rk_banks r2 ! ?b)"
    "\<forall>j<length (rk_banks r). bk_openRow (rk_banks r2 ! j) = bk_openRow (rk_banks r ! j)"
    using assms(3,4) by (auto simp: r2_def r1_def rank_frame_eq_def is_open_def burst_bank_def nth_list_update)
  have b2: "?b < length (rk_banks r2)" using assms(3) by (simp add: r2_def r1_def)
  obtain B' r3 where p: "(if auto_precharge d ?k pkt others then prechargeBank d W now B r2 ?b (max now (bk_preAllowedAt ?k)) True True
      else ok (B, r2)) = ok (B', r3)" "rank_wf d r3" "bus_ok d W B'" "rank_frame_eq r2 r3" "rk_actTicks r3 = rk_actTicks r2"
    "\<forall>j<length (rk_banks r2). j \<noteq> ?b \<longrightarrow> bk_openRow (rk_banks r3 ! j) = bk_openRow (rk_banks r2 ! j)"
  proof (cases "auto_precharge d ?k pkt others")
    case True
    then show ?thesis
      using prechargeBank_ok[OF wf2 assms(2) b2 f2(3), of now "max now (bk_preAllowedAt ?k)" True True] that by auto
  next
    case False
    then show ?thesis using that[of B r2] wf2 assms(2) by simp
  qed
  obtain r5 where e: "(if mp_read pkt then Inr (r3\<lparr>rk_outstandingEvents := u8 (rk_outstandingEvents r3 + 1)\<rparr>)
             else rbind (write_done_event now r3 (mp_readyTime pkt)) (\<lambda>r4.
               Inr (r4\<lparr>rk_writeEntries := dec32 (rk_writeEntries r4)\<rparr>))) = Inr r5" "rank_frame_eq r3 r5" "rk_banks r5 = rk_banks r3"
    "rk_numBanksActive r5 = rk_numBanksActive r3" "rk_actTicks r5 = rk_actTicks r3"
    using write_done_event_ok[OF assms(5), of r3] by (cases "mp_read pkt") (auto simp: rank_frame_eq_def)
  have "burst_finish d W now B r pkt others cmd_at = ok (B', r5)"
    unfolding burst_finish_def Let_def r1_def[symmetric] r2_def[symmetric] p(1) obind_ok prod.case e(1) rbind_Inr ..
  moreover have "rank_wf d r5" using p(2) rank_wf_cong[OF e(3-5)] by simp
  moreover have "rank_frame_eq r r5" using rank_frame_trans f2(1) p(4) e(2) by blast
  ultimately show ?thesis using p(3,5,6) e(3,5) f2(2,4) b2
    by (intro exI[of _ B'] exI[of _ r5]) (simp add: r2_def r1_def)
qed


lemma delayBankRowhammer_ok:
  assumes "rank_wf d r" "b < length (rk_banks r)" "row < NO_ROW"
  shows "rank_wf d (delayBankRowhammer d r b row at dl)" "rank_frame_eq r (delayBankRowhammer d r b row at dl)"
    "rk_actTicks (delayBankRowhammer d r b row at dl) = rk_actTicks r"
    "bk_actAllowedAt (rk_banks r ! b) + dl \<le> bk_actAllowedAt (rk_banks (delayBankRowhammer d r b row at dl) ! b)"
proof -
  define r1 where "r1 = map_banks (rrd_bank d (bk_bankgr (rk_banks r ! b)) at (dl div 45000)) r"
  define f :: "bank \<Rightarrow> bank" where "f = (\<lambda>k. k\<lparr>bk_actAllowedAt := bk_actAllowedAt k + dl,
           bk_openRow := (if bk_openRow k \<noteq> NO_ROW then (if 0 < int row - 1 then row - 1 else row + 1) else bk_openRow k)\<rparr>)"
  have eq: "delayBankRowhammer d r b row at dl = upd_bank b f r1" by (simp add: delayBankRowhammer_def r1_def f_def Let_def)
  have row: "(if 0 < int row - 1 then row - 1 else row + 1) \<noteq> NO_ROW" using assms(3) by (auto simp: NO_ROW_def)
  have "rank_wf d r1" unfolding r1_def by (rule map_banks_wf[OF assms(1)]) (simp_all add: act_fields is_open_fields)
  then show "rank_wf d (delayBankRowhammer d r b row at dl)"
    unfolding eq by (rule upd_bank_wf) (use row in \<open>simp_all add: f_def is_open_def\<close>)
  show "rank_frame_eq r (delayBankRowhammer d r b row at dl)"
    unfolding eq
  proof (rule rank_frame_trans)
    show "rank_frame_eq r r1" unfolding r1_def by (rule map_banks_frame) (simp add: rrd_bank_def)
    show "rank_frame_eq r1 (upd_bank b f r1)" by (rule upd_bank_frame) (simp add: f_def)
  qed
  show "rk_actTicks (delayBankRowhammer d r b row at dl) = rk_actTicks r" by (simp add: eq r1_def)
  show "bk_actAllowedAt (rk_banks r ! b) + dl \<le> bk_actAllowedAt (rk_banks (delayBankRowhammer d r b row at dl) ! b)"
    using assms(2) act_fields(1) by (simp add: eq r1_def f_def)
qed

text \<open>All ranks.\<close>

definition dram_wf :: "dram_params \<Rightarrow> dram \<Rightarrow> bool" where
  "dram_wf d s \<longleftrightarrow> (\<forall>r\<in>set (dr_ranks s). rank_wf d r)"

lemma col_update_nth:
  "j < length rs \<Longrightarrow> col_update d rk rd g gap t rs ! j = map_banks (col_bank d (rk = j) rd g gap t) (rs ! j)"
  "length (col_update d rk rd g gap t rs) = length rs"
  by (simp_all add: col_update_def)

lemma col_update_wf: "\<forall>r\<in>set rs. rank_wf d r \<Longrightarrow> \<forall>r\<in>set (col_update d rk rd g gap t rs). rank_wf d r"
  by (auto simp: col_update_def intro!: map_banks_wf simp: act_fields is_open_fields)

text \<open>What a burst asks of its packet and its rank.\<close>

definition burst_pre :: "dram \<Rightarrow> mem_packet \<Rightarrow> bool" where
  "burst_pre s pkt \<longleftrightarrow> mp_rank pkt < length (dr_ranks s) \<and> mp_bank pkt < length (rk_banks (dr_ranks s ! mp_rank pkt)) \<and>
     mp_row pkt < NO_ROW \<and> inRefIdleState (dr_ranks s ! mp_rank pkt) \<and>
     (rk_inLowPowerState (dr_ranks s ! mp_rank pkt) \<longrightarrow> rk_pwrState (dr_ranks s ! mp_rank pkt) \<noteq> PWR_SREF \<and>
        rk_wakeUpEvent (dr_ranks s ! mp_rank pkt) = None) \<and>
     (mp_rh_injectDelay pkt \<and> mp_rh_bankDelay pkt \<noteq> 0 \<longrightarrow> checkBurstACT s pkt)"

lemma dram_doBurstAccess_ok:
  assumes "dram_wf d s" "bus_ok d W B" "burst_pre s pkt" "0 < now"
  shows "\<exists>B' s' pkt' act cmd_at nb. dram_doBurstAccess d W now B s pkt next_burst_at others = ok (B', s', pkt', act, cmd_at, nb) \<and>
    dram_wf d s' \<and> bus_ok d W B' \<and> act = checkBurstACT s pkt \<and> now \<le> cmd_at \<and>
    mp_readyTime pkt' = cmd_at + dp_tCL d + dp_tBURST d \<and> pkt' = pkt\<lparr>mp_readyTime := mp_readyTime pkt'\<rparr> \<and>
    cmd_at + (if mp_rh_injectDelay pkt then mp_rh_busDelay pkt else 0) \<le> nb \<and>
    next_burst_at \<le> cmd_at + rh_slack d pkt \<and>
    length (dr_ranks s') = length (dr_ranks s) \<and>
    (\<forall>j<length (dr_ranks s). j \<noteq> mp_rank pkt \<longrightarrow> rk_actTicks (dr_ranks s' ! j) = rk_actTicks (dr_ranks s ! j)) \<and>
    (let ts = rk_actTicks (dr_ranks s ! mp_rank pkt); ts' = rk_actTicks (dr_ranks s' ! mp_rank pkt) in
      if act then \<exists>at. now \<le> at \<and> at + dp_tRCD d \<le> cmd_at \<and> ts' = (if ts = [] then [] else at # butlast ts) \<and>
        (ts \<noteq> [] \<and> last ts \<noteq> 0 \<longrightarrow> last ts + dp_tXAW d \<le> at) else ts' = ts)"
proof -
  let ?rk = "mp_rank pkt" and ?b = "mp_bank pkt"
  let ?r = "dr_ranks s ! ?rk"
  have P: "?rk < length (dr_ranks s)" "?b < length (rk_banks ?r)" "mp_row pkt < NO_ROW" "inRefIdleState ?r"
    "rk_inLowPowerState ?r \<Longrightarrow> rk_pwrState ?r \<noteq> PWR_SREF \<and> rk_wakeUpEvent ?r = None"
    "mp_rh_injectDelay pkt \<and> mp_rh_bankDelay pkt \<noteq> 0 \<longrightarrow> checkBurstACT s pkt"
    using assms(3) by (simp_all add: burst_pre_def)
  have wf: "rank_wf d ?r" using assms(1) P(1) by (simp add: dram_wf_def)
  obtain r1 where r1: "burst_wake d now ?r = Inr r1" "rank_wf d r1" "rank_frame_eq ?r r1" "rk_actTicks r1 = rk_actTicks ?r"
    "bk_openRow (rk_banks r1 ! ?b) = bk_openRow (rk_banks ?r ! ?b)"
    using burst_wake_ok[OF wf P(5), of now] P(2) by blast
  have b1: "?b < length (rk_banks r1)" using r1(3) P(2) by (simp add: rank_frame_eq_def)
  obtain B2 r2 act act_tick where r2: "burst_open d W now B r1 ?b (mp_row pkt) = ok (B2, r2, act, act_tick)" "rank_wf d r2"
    "bus_ok d W B2" "rank_frame_eq r1 r2" "bk_openRow (rk_banks r2 ! ?b) = mp_row pkt" "act = (bk_openRow (rk_banks r1 ! ?b) \<noteq> mp_row pkt)"
    "if act then now \<le> act_tick \<and> (\<exists>at. activated d r1 r2 ?b act_tick at) else r2 = r1"
    using burst_open_ok[OF r1(2) assms(2) b1, of "mp_row pkt" now] P(3) by auto
  have act: "act = checkBurstACT s pkt" using r2(6) r1(5) by (simp add: checkBurstACT_def packet_bank_def)
  obtain B3 at gap where c: "burst_cmd d W now B2 r2 pkt next_burst_at = ok (B3, at, gap)" "bus_ok d W B3" "now \<le> at"
    "(if mp_read pkt then bk_rdAllowedAt (rk_banks r2 ! ?b) else bk_wrAllowedAt (rk_banks r2 ! ?b)) \<le> at"
    "next_burst_at \<le> at + rh_slack d pkt"
    using burst_cmd_ok[OF r2(3), of now r2 pkt next_burst_at] by blast
  define pkt1 where "pkt1 = pkt\<lparr>mp_readyTime := at + dp_tCL d + dp_tBURST d\<rparr>"
  define r3 where "r3 = r2\<lparr>rk_lastBurstTick := at\<rparr>"
  define ranks1 where "ranks1 = col_update d ?rk (mp_read pkt) (bk_bankgr (rk_banks r3 ! ?b)) gap at ((dr_ranks s)[?rk := r3])"
  have r3: "rank_wf d r3" using r2(2) by (subst rank_wf_cong[of _ r2]) (simp_all add: r3_def)
  have "\<forall>r\<in>set ((dr_ranks s)[?rk := r3]). rank_wf d r" using all_upd[of "dr_ranks s" "rank_wf d"] r3 assms(1)
    by (simp add: dram_wf_def)
  then have wf1: "\<forall>r\<in>set ranks1. rank_wf d r" unfolding ranks1_def by (rule col_update_wf)
  have len1: "length ranks1 = length (dr_ranks s)" by (simp add: ranks1_def col_update_nth(2))
  have rr: "ranks1 ! ?rk = map_banks (col_bank d True (mp_read pkt) (bk_bankgr (rk_banks r3 ! ?b)) gap at) r3"
    using P(1) by (simp add: ranks1_def col_update_nth)
  have b3: "?b < length (rk_banks (ranks1 ! ?rk))" using r2(4) b1 by (simp add: rr r3_def rank_frame_eq_def)
  have op: "is_open (rk_banks (ranks1 ! ?rk) ! ?b)"
    using r2(4,5) b1 P(3) by (simp add: rr r3_def is_open_fields rank_frame_eq_def) (simp add: is_open_def)
  have wfr: "rank_wf d (ranks1 ! ?rk)" using wf1 P(1) len1 by simp
  have ready: "now \<le> mp_readyTime pkt1" using c(3) by (simp add: pkt1_def)
  obtain B4 r4 where f: "burst_finish d W now B3 (ranks1 ! ?rk) pkt1 others at = ok (B4, r4)" "rank_wf d r4" "bus_ok d W B4"
    "rank_frame_eq (ranks1 ! ?rk) r4" "rk_actTicks r4 = rk_actTicks (ranks1 ! ?rk)"
    using burst_finish_ok[OF wfr c(2), of pkt1 now others at] b3 op ready by (auto simp: pkt1_def)
  define r5 where "r5 = (if mp_rh_injectDelay pkt \<and> mp_rh_bankDelay pkt \<noteq> 0
      then delayBankRowhammer d r4 ?b (mp_row pkt) act_tick (mp_rh_bankDelay pkt) else r4)"
  have b4: "?b < length (rk_banks r4)" using f(4) b3 by (simp add: rank_frame_eq_def)
  have r5: "rank_wf d r5" "rk_actTicks r5 = rk_actTicks r2"
    using f(2,5) delayBankRowhammer_ok[OF f(2) b4 P(3)] by (simp_all add: r5_def rr r3_def)
  define s' where "s' = (burst_stats d (s\<lparr>dr_activeRank := ?rk\<rparr>) pkt1 (\<not> act) at)\<lparr>dr_ranks := ranks1[?rk := r5]\<rparr>"
  have noassert: "\<not> (mp_rh_injectDelay pkt \<and> mp_rh_bankDelay pkt \<noteq> 0 \<and> act_tick = 0)"
    using P(6) act r2(7) assms(4) by auto
  let ?bus = "if mp_rh_injectDelay pkt then mp_rh_busDelay pkt else 0"
  have eq: "dram_doBurstAccess d W now B s pkt next_burst_at others = ok (B4, s', pkt1, act, at, at + gap + ?bus)"
    unfolding dram_doBurstAccess_def Let_def r1(1) obind_ok r2(1) prod.case c(1) pkt1_def[symmetric] r3_def[symmetric]
      ranks1_def[symmetric] f(1) r5_def[symmetric]
    using P(1,2,4) noassert by (simp add: s'_def)
  have wf': "dram_wf d s'"
    using all_upd[OF wf1 r5(1), of ?rk] by (simp add: dram_wf_def s'_def)
  have len: "length (dr_ranks s') = length (dr_ranks s)" and nth: "dr_ranks s' ! ?rk = r5"
    using len1 P(1) by (simp_all add: s'_def)
  have others: "\<forall>j<length (dr_ranks s). j \<noteq> ?rk \<longrightarrow> rk_actTicks (dr_ranks s' ! j) = rk_actTicks (dr_ranks s ! j)"
    by (simp add: s'_def ranks1_def col_update_nth)
  have ticks: "if act then \<exists>t. now \<le> t \<and> t + dp_tRCD d \<le> at \<and>
        rk_actTicks r5 = (if rk_actTicks ?r = [] then [] else t # butlast (rk_actTicks ?r)) \<and>
        (rk_actTicks ?r \<noteq> [] \<and> last (rk_actTicks ?r) \<noteq> 0 \<longrightarrow> last (rk_actTicks ?r) + dp_tXAW d \<le> t)
      else rk_actTicks r5 = rk_actTicks ?r"
  proof (cases act)
    case True
    then obtain t where t: "now \<le> act_tick" "activated d r1 r2 ?b act_tick t" using r2(7) by auto
    then have "t + dp_tRCD d \<le> at" using c(4) by (auto simp: activated_def split: if_splits)
    then show ?thesis using t r5(2) r1(4) True by (auto simp: activated_def intro!: exI[of _ t])
  next
    case False
    then show ?thesis using r2(7) r5(2) r1(4) by simp
  qed
  have pk: "mp_readyTime pkt1 = at + dp_tCL d + dp_tBURST d" "pkt1 = pkt\<lparr>mp_readyTime := mp_readyTime pkt1\<rparr>"
    by (simp_all add: pkt1_def)
  have nb: "at + ?bus \<le> at + gap + ?bus" by simp
  show ?thesis unfolding Let_def
    by (intro exI conjI, rule eq, rule wf', rule f(3), rule act, rule c(3), rule pk(1), rule pk(2), rule nb, rule c(5), rule len, rule others,
      unfold nth, rule ticks)
qed


text \<open>The panics and assertions of a burst, and the pruning of the command bus that precedes it.\<close>

lemma prune_bus_ok: "bus_ok d W B \<Longrightarrow> bus_ok d W (pruneBurstTick B now)"
  by (auto simp: bus_ok_def pruneBurstTick_def)

lemma burst_returns_pre:
  assumes "dram_doBurstAccess d W now B s pkt nb others = ok x" "mp_row pkt < NO_ROW"
  shows "burst_pre s pkt"
proof -
  let ?r = "dr_ranks s ! mp_rank pkt"
  have a: "mp_rank pkt < length (dr_ranks s)" "mp_bank pkt < length (rk_banks ?r)" "inRefIdleState ?r"
    using assms(1) by (auto simp: dram_doBurstAccess_def Let_def split: if_splits)
  obtain r1 B2 r2 act t where r: "burst_wake d now ?r = Inr r1" "burst_open d W now B r1 (mp_bank pkt) (mp_row pkt) = ok (B2, r2, act, t)"
    "\<not> (mp_rh_injectDelay pkt \<and> mp_rh_bankDelay pkt \<noteq> 0 \<and> t = 0)"
    using assms(1) a by (auto simp: dram_doBurstAccess_def Let_def obind_eq_ok split: if_splits)
  have w: "rk_inLowPowerState ?r \<Longrightarrow> rk_pwrState ?r \<noteq> PWR_SREF \<and> rk_wakeUpEvent ?r = None"
    using r(1) scheduleWakeUpEvent_Inr(13) by (auto simp: burst_wake_def split: if_splits)
  have "bk_openRow (rk_banks r1 ! mp_bank pkt) = bk_openRow (rk_banks ?r ! mp_bank pkt)"
    using r(1) a(2) scheduleWakeUpEvent_Inr(1) by (auto simp: burst_wake_def split: if_splits)
  then have "\<not> checkBurstACT s pkt \<Longrightarrow> t = 0"
    using r(2) by (simp add: checkBurstACT_def packet_bank_def burst_open_def)
  then show ?thesis using a w r(3) assms(2) by (auto simp: burst_pre_def)
qed

section \<open>Runs of bursts\<close>

text \<open>Bursts, each after the pruning of the command bus, between bursts of the other interface; the log
  holds rank and tick of every activation.\<close>

datatype dram_op = Burst tick mem_packet tick "mem_packet list list" | OtherBurst tick

fun dram_run ::
  "dram_params \<Rightarrow> tick \<Rightarrow> burst_ticks \<Rightarrow> dram \<Rightarrow> (nat \<times> tick) list \<Rightarrow> dram_op list \<Rightarrow> (burst_ticks \<times> dram \<times> (nat \<times> tick) list) run" where
  "dram_run d W B s log [] = ok (B, s, log)"
| "dram_run d W B s log (Burst now pkt nb others # ops) =
     obind (dram_doBurstAccess d W now (pruneBurstTick B now) s pkt nb others) (\<lambda>(B', s', _, act, _, _).
       dram_run d W B' s' (if act then log @ [(mp_rank pkt, hd (rk_actTicks (dr_ranks s' ! mp_rank pkt)))] else log) ops)"
| "dram_run d W B s log (OtherBurst cmd_at # ops) = dram_run d W B (addRankToRankDelay d s cmd_at) log ops"

definition acts_of :: "nat \<Rightarrow> (nat \<times> tick) list \<Rightarrow> tick list" where
  "acts_of rank0 log = map snd (filter (\<lambda>a. fst a = rank0) log)"

definition spaced :: "nat \<Rightarrow> tick \<Rightarrow> tick list \<Rightarrow> bool" where
  "spaced n x L \<longleftrightarrow> (\<forall>i. i + n < length L \<longrightarrow> L ! i + x \<le> L ! (i + n))"

text \<open>A rank's window holds its latest activations.\<close>

definition window_of :: "nat \<Rightarrow> tick list \<Rightarrow> tick list" where
  "window_of n L = take n (rev L @ replicate n 0)"

lemma window_step:
  assumes "0 < n" "spaced n x L" "\<forall>t\<in>set L. 0 < t"
    and "last (window_of n L) \<noteq> 0 \<longrightarrow> last (window_of n L) + x \<le> at"
  shows "window_of n (L @ [at]) = at # butlast (window_of n L)" "spaced n x (L @ [at])"
proof -
  have len: "length (window_of n L) = n" by (simp add: window_of_def)
  show "window_of n (L @ [at]) = at # butlast (window_of n L)"
  proof -
    have "butlast (window_of n L) = take (n - 1) (rev L @ replicate n 0)"
      unfolding window_of_def by (rule butlast_take) simp
    moreover have "window_of n (L @ [at]) = at # take (n - 1) (rev L @ replicate n 0)"
      using assms(1) by (cases n) (simp_all add: window_of_def del: replicate_Suc)
    ultimately show ?thesis by simp
  qed
  have "L ! i + x \<le> at" if i: "i + n = length L" for i
  proof -
    have "last (window_of n L) = window_of n L ! (n - 1)" using len assms(1) by (metis last_conv_nth length_0_conv less_not_refl)
    also have "\<dots> = rev L ! (n - 1)" using assms(1) i by (simp add: window_of_def nth_append)
    also have "\<dots> = L ! i"
    proof -
      have "length L - Suc (n - 1) = i" using assms(1) i by arith
      then show ?thesis using assms(1) i by (simp add: rev_nth)
    qed
    finally have "last (window_of n L) = L ! i" .
    moreover have "0 < L ! i" using assms(1,3) i by simp
    ultimately show ?thesis using assms(4) by simp
  qed
  then show "spaced n x (L @ [at])"
    using assms(1,2) by (auto simp: spaced_def nth_append)
qed

lemma dram_run_window:
  assumes "dram_wf d s" "bus_ok d W B" "0 < dp_activationLimit d"
    and "\<forall>j<length (dr_ranks s). rk_actTicks (dr_ranks s ! j) = window_of (dp_activationLimit d) (acts_of j log)"
    and "\<forall>j. spaced (dp_activationLimit d) (dp_tXAW d) (acts_of j log) \<and> (\<forall>t\<in>set (acts_of j log). 0 < t)"
    and "\<forall>now pkt nb others. Burst now pkt nb others \<in> set ops \<longrightarrow> 0 < now \<and> mp_row pkt < NO_ROW"
    and "dram_run d W B s log ops = ok (B', s', log')"
  shows "dram_wf d s' \<and> bus_ok d W B' \<and> (\<forall>j. spaced (dp_activationLimit d) (dp_tXAW d) (acts_of j log'))"
  using assms
proof (induction ops arbitrary: B s log)
  case Nil
  then show ?case by simp
next
  case (Cons p ops)
  let ?n = "dp_activationLimit d"
  show ?case
  proof (cases p)
    case (OtherBurst t)
    have "dram_wf d (addRankToRankDelay d s t)"
      using Cons.prems(1) by (auto simp: dram_wf_def addRankToRankDelay_def intro!: map_banks_wf simp: is_open_def)
    moreover have "\<forall>j<length (dr_ranks (addRankToRankDelay d s t)). rk_actTicks (dr_ranks (addRankToRankDelay d s t) ! j) = window_of ?n (acts_of j log)"
      using Cons.prems(4) by (simp add: addRankToRankDelay_def)
    ultimately show ?thesis using Cons.IH[OF _ Cons.prems(2,3)] Cons.prems(5-7) OtherBurst by simp
  next
    case (Burst now pkt nb others)
    have now: "0 < now" "mp_row pkt < NO_ROW" using Cons.prems(6) Burst by auto
    obtain x where x: "dram_doBurstAccess d W now (pruneBurstTick B now) s pkt nb others = ok x"
      using Cons.prems(7) Burst by (auto simp: obind_eq_ok)
    have pre: "burst_pre s pkt" by (rule burst_returns_pre[OF x now(2)])
    then have rk: "mp_rank pkt < length (dr_ranks s)" by (simp add: burst_pre_def)
    let ?ts = "rk_actTicks (dr_ranks s ! mp_rank pkt)"
    obtain B1 s1 pkt1 act at nb1 where b: "dram_doBurstAccess d W now (pruneBurstTick B now) s pkt nb others = ok (B1, s1, pkt1, act, at, nb1)"
      "dram_wf d s1" "bus_ok d W B1" "length (dr_ranks s1) = length (dr_ranks s)"
      "\<forall>j<length (dr_ranks s). j \<noteq> mp_rank pkt \<longrightarrow> rk_actTicks (dr_ranks s1 ! j) = rk_actTicks (dr_ranks s ! j)"
      "if act then \<exists>t. now \<le> t \<and> t + dp_tRCD d \<le> at \<and> rk_actTicks (dr_ranks s1 ! mp_rank pkt) = (if ?ts = [] then [] else t # butlast ?ts) \<and>
        (?ts \<noteq> [] \<and> last ?ts \<noteq> 0 \<longrightarrow> last ?ts + dp_tXAW d \<le> t) else rk_actTicks (dr_ranks s1 ! mp_rank pkt) = ?ts"
      using dram_doBurstAccess_ok[OF Cons.prems(1) prune_bus_ok[OF Cons.prems(2)] pre now(1), of now nb others]
      unfolding Let_def by blast
    define log1 where "log1 = (if act then log @ [(mp_rank pkt, hd (rk_actTicks (dr_ranks s1 ! mp_rank pkt)))] else log)"
    have run: "dram_run d W B1 s1 log1 ops = ok (B', s', log')" using Cons.prems(7) Burst b(1) by (simp add: log1_def)
    have ts: "?ts = window_of ?n (acts_of (mp_rank pkt) log)" "?ts \<noteq> []"
      using Cons.prems(3,4) rk by (auto simp: window_of_def)
    have L: "spaced ?n (dp_tXAW d) (acts_of j log)" "\<forall>t\<in>set (acts_of j log). 0 < t" for j using Cons.prems(5) by blast+
    have other: "acts_of j log1 = acts_of j log" if "j \<noteq> mp_rank pkt" for j
      using that by (auto simp: log1_def acts_of_def)
    have hit: "rk_actTicks (dr_ranks s1 ! mp_rank pkt) = window_of ?n (acts_of (mp_rank pkt) log1) \<and>
      spaced ?n (dp_tXAW d) (acts_of (mp_rank pkt) log1) \<and> (\<forall>t\<in>set (acts_of (mp_rank pkt) log1). 0 < t)"
    proof (cases act)
      case True
      then obtain t where t: "now \<le> t" "rk_actTicks (dr_ranks s1 ! mp_rank pkt) = t # butlast ?ts"
        "last ?ts \<noteq> 0 \<longrightarrow> last ?ts + dp_tXAW d \<le> t" using b(6) ts(2) by auto
      have "acts_of (mp_rank pkt) log1 = acts_of (mp_rank pkt) log @ [t]"
        using True t(2) by (simp add: log1_def acts_of_def)
      then show ?thesis using window_step[OF Cons.prems(3) L, of "mp_rank pkt" t] t now(1) L(2)[of "mp_rank pkt"] ts(1) by auto
    next
      case False
      then show ?thesis using b(6) ts(1) L by (simp add: log1_def)
    qed
    have w: "\<forall>j<length (dr_ranks s1). rk_actTicks (dr_ranks s1 ! j) = window_of ?n (acts_of j log1)"
    proof (intro allI impI)
      fix j assume "j < length (dr_ranks s1)"
      then show "rk_actTicks (dr_ranks s1 ! j) = window_of ?n (acts_of j log1)"
        using hit b(4,5) Cons.prems(4) other by (cases "j = mp_rank pkt") simp_all
    qed
    have l: "\<forall>j. spaced ?n (dp_tXAW d) (acts_of j log1) \<and> (\<forall>t\<in>set (acts_of j log1). 0 < t)"
    proof
      fix j show "spaced ?n (dp_tXAW d) (acts_of j log1) \<and> (\<forall>t\<in>set (acts_of j log1). 0 < t)"
        using hit L[of j] other[of j] by (cases "j = mp_rank pkt") simp_all
    qed
    have "\<forall>now pkt nb others. Burst now pkt nb others \<in> set ops \<longrightarrow> 0 < now \<and> mp_row pkt < NO_ROW"
      using Cons.prems(6) by simp
    from Cons.IH[OF b(2,3) Cons.prems(3) w l this run] show ?thesis .
  qed
qed


section \<open>Properties\<close>

lemma Rank_new_wf: "rank_wf d (Rank_new banks groups (dp_activationLimit d) r)"
proof -
  have "count_open (map (\<lambda>b. Bank_new\<lparr>bk_bank := u8 b, bk_bankgr := g b\<rparr>) bs) = 0" for g bs
    by (simp add: count_open_def is_open_def Bank_new_def)
  moreover have "sorted_wrt (\<ge>) (replicate n (0 :: nat))" for n by (induction n) auto
  ultimately show ?thesis by (auto simp: rank_wf_def Rank_new_def act_ok_def)
qed

lemma dram_start_wf: "dram_wf d (dram_start ranks banks groups (dp_activationLimit d))"
  by (auto simp: dram_wf_def dram_start_def Rank_new_wf)

text \<open>C29: A burst to a bank of a DRAM at rest never fails: not the assertions on the open row and on the
  number of open banks, not the panic of the activation window, not the event queue, and the search for
  a slot on the command bus returns.  It activates exactly when \<open>checkBurstACT\<close> said so (the assertion
  with which \<open>MemCtrl::doBurstAccess\<close> checks that the Rowhammer defense saw every activation), the
  activation is at least tRCD before the column command and tXAW after the oldest one of the window, and
  ranks and bus stay well formed.\<close>

theorem dram_burst_safe:
  assumes "dram_wf d s" "bus_ok d W B" "burst_pre s pkt" "0 < now"
  shows "\<exists>B' s' pkt' act cmd_at nb. dram_doBurstAccess d W now B s pkt next_burst_at others = ok (B', s', pkt', act, cmd_at, nb) \<and>
    dram_wf d s' \<and> bus_ok d W B' \<and> act = checkBurstACT s pkt \<and> now \<le> cmd_at \<and> cmd_at \<le> nb \<and>
    mp_readyTime pkt' = cmd_at + dp_tCL d + dp_tBURST d \<and>
    (let ts = rk_actTicks (dr_ranks s ! mp_rank pkt); ts' = rk_actTicks (dr_ranks s' ! mp_rank pkt) in
      if act then \<exists>at. now \<le> at \<and> at + dp_tRCD d \<le> cmd_at \<and> ts' = (if ts = [] then [] else at # butlast ts) \<and>
        (ts \<noteq> [] \<and> last ts \<noteq> 0 \<longrightarrow> last ts + dp_tXAW d \<le> at) else ts' = ts)"
  using dram_doBurstAccess_ok[OF assms, of next_burst_at others] by (fastforce simp: Let_def)

lemma example_burst_pre: "bank < 16 \<Longrightarrow> row < NO_ROW \<Longrightarrow> burst_pre (dram_start 2 16 4 2) (example_burst bank row)"
  by (simp add: burst_pre_def example_burst_def MemPacket_new_def dram_start_def Rank_new_def inRefIdleState_def nth_append)

lemma example_bus_ok: "bus_ok example_dram_params 10 {#}"
  by (simp add: bus_ok_def example_dram_params_def)

theorem dram_burst_safe_witness:
  "\<exists>B' s' pkt' cmd_at nb. dram_doBurstAccess example_dram_params 10 7 {#} (dram_start 2 16 4 2) (example_burst 3 2) 0 [[]]
     = ok (B', s', pkt', True, cmd_at, nb) \<and> 21 \<le> cmd_at"
proof -
  have wf: "dram_wf example_dram_params (dram_start 2 16 4 2)"
    using dram_start_wf[of example_dram_params 2 16 4] by (simp add: example_dram_params_def)
  have pre: "burst_pre (dram_start 2 16 4 2) (example_burst 3 2)" by (rule example_burst_pre) (simp_all add: NO_ROW_def)
  have "checkBurstACT (dram_start 2 16 4 2) (example_burst 3 2)"
    by (simp add: checkBurstACT_def packet_bank_def dram_start_def Rank_new_def Bank_new_def example_burst_def MemPacket_new_def NO_ROW_def)
  then show ?thesis
    using dram_burst_safe[OF wf example_bus_ok pre, of 7 0 "[[]]"] by (auto simp: example_dram_params_def Let_def)
qed

text \<open>C30: The activation window over any run of bursts of a fresh DRAM: of the activations of one rank,
  each one is at least tXAW after the one \<open>activationLimit\<close> before it, whatever the order of packets,
  the page policy and the Rowhammer delays.\<close>

theorem activation_window_respected:
  assumes "bus_ok d W B" "0 < dp_activationLimit d"
    and "\<forall>now pkt nb others. Burst now pkt nb others \<in> set ops \<longrightarrow> 0 < now \<and> mp_row pkt < NO_ROW"
    and "dram_run d W B (dram_start ranks banks groups (dp_activationLimit d)) [] ops = ok (B', s', log)"
    and "i + dp_activationLimit d < length (acts_of rank0 log)"
  shows "acts_of rank0 log ! i + dp_tXAW d \<le> acts_of rank0 log ! (i + dp_activationLimit d)"
proof -
  let ?s = "dram_start ranks banks groups (dp_activationLimit d)"
  have w: "\<forall>j<length (dr_ranks ?s). rk_actTicks (dr_ranks ?s ! j) = window_of (dp_activationLimit d) (acts_of j [])"
    by (simp add: dram_start_def Rank_new_def window_of_def acts_of_def)
  have l: "\<forall>j. spaced (dp_activationLimit d) (dp_tXAW d) (acts_of j []) \<and> (\<forall>t\<in>set (acts_of j []). 0 < t)"
    by (simp add: spaced_def acts_of_def)
  from dram_run_window[OF dram_start_wf assms(1,2) w l assms(3,4)] assms(5) show ?thesis by (simp add: spaced_def)
qed


definition example_run :: "dram_op list" where
  "example_run = [Burst 5 (example_burst 1 2) 0 [[]], Burst 6 (example_burst 0 2) 0 [[]], Burst 7 (example_burst 1 3) 0 [[]]]"

lemmas burst_eval = example_dram_params_def dram_start_def Rank_new_def Bank_new_def example_burst_def MemPacket_new_def
  NO_ROW_def u8_def inRefIdleState_def burst_wake_def burst_open_def prechargeBank_def activateBank_def issue_def
  verifySingleCmd_def getBurstWindow_def single_loop.simps pruneBurstTick_def precharge_event_def activate_event_def
  schedule_def reschedule_def activation_window_def rrd_bank_def open_row_def act_bank_def close_row_def upd_bank_def
  map_banks_def log_cmd_def Command_def burst_cmd_def col_bank_def col_update_def auto_precharge_def write_done_event_def
  burst_stats_def burst_bank_def burst_finish_def example_interface_def sub64_def writeToReadDelay_def readToWriteDelay_def
  rankToRankDelay_def upt_conv_Cons dram_doBurstAccess_def

theorem activation_window_respected_witness:
  "\<exists>B s log. dram_run example_dram_params 10 {#} (dram_start 2 2 2 2) [] example_run = ok (B, s, log) \<and>
    acts_of 1 log = [5, 9, 51] \<and> acts_of 1 log ! 0 + 30 \<le> acts_of 1 log ! 2"
proof -
  have r: "replicate 2 (0 :: nat) = [0, 0]" by (simp add: numeral_2_eq_2)
  have "\<exists>B s. dram_run example_dram_params 10 {#} (dram_start 2 2 2 2) [] example_run = ok (B, s, [(1, 5), (1, 9), (1, 51)])"
    by (simp add: burst_eval Let_def r example_run_def)
  then obtain B s where e: "dram_run example_dram_params 10 {#} (dram_start 2 2 2 (dp_activationLimit example_dram_params)) [] example_run
      = ok (B, s, [(1, 5), (1, 9), (1, 51)])" by (auto simp: example_dram_params_def)
  have p: "0 < dp_activationLimit example_dram_params"
    "\<forall>now pkt nb others. Burst now pkt nb others \<in> set example_run \<longrightarrow> 0 < now \<and> mp_row pkt < NO_ROW"
    by (simp_all add: example_dram_params_def example_run_def example_burst_def MemPacket_new_def NO_ROW_def)
  have a: "acts_of 1 [(1, 5), (1, 9), (1, 51)] = [5, 9, 51]" by (simp add: acts_of_def)
  show ?thesis
    using e activation_window_respected[OF example_bus_ok p e, of 0 1] unfolding a
    by (auto simp: example_dram_params_def acts_of_def)
qed

end
