(* ===== verification/Dram_Schedule.thy ===== *)
theory Dram_Schedule
  imports Dram_Bank
begin

text \<open>
  How the DRAM interface chooses the next packet of a queue (\<open>mem/mem_interface.cc\<close>):
  \<open>minBankPrep\<close> finds the banks that can be prepared first and \<open>chooseNextFRFCFS\<close> prefers the first
  seamless row hit, then a bank prepared behind the scenes, then a prepared row hit, then the earliest
  bank.  An iterator is the index of the packet, \<open>queue.end()\<close> is \<open>None\<close>.
\<close>

section \<open>Operations\<close>

definition burstReady :: "dram_rank list \<Rightarrow> mem_packet \<Rightarrow> bool" where
  "burstReady ranks p \<longleftrightarrow> inRefIdleState (ranks ! mp_rank p)"

text \<open>The entry of \<open>got_waiting\<close> of a bank.\<close>

definition got_waiting :: "dram_rank list \<Rightarrow> mem_packet list \<Rightarrow> nat \<Rightarrow> bool" where
  "got_waiting ranks queue bank_id \<longleftrightarrow> list_ex (\<lambda>p. mp_dram p \<and> burstReady ranks p \<and> mp_bankId p = bank_id) queue"

record bank_prep =
  pr_mask :: "32 word list"
  pr_min_act_at :: tick
  pr_seamless :: bool
  pr_hidden :: bool

definition prep_bank ::
  "dram_params \<Rightarrow> tick \<Rightarrow> bus_state \<Rightarrow> dram_rank list \<Rightarrow> mem_packet list \<Rightarrow> tick \<Rightarrow> bank_prep \<Rightarrow> nat \<times> nat \<Rightarrow> bank_prep result" where
  "prep_bank d now busState ranks queue min_col_at st ij =
     (case ij of (i, j) \<Rightarrow>
        if \<not> got_waiting ranks queue ((i * length (rk_banks (ranks ! i)) + j) mod 2 ^ 16) then Inr st
        else if \<not> inRefIdleState (ranks ! i) then Inl AssertFail
        else let b = rk_banks (ranks ! i) ! j;
                 hidden_act_max = max (sub64 min_col_at (dp_tRCD d)) now;
                 act_at = (if bk_openRow b = NO_ROW then max (bk_actAllowedAt b) now else max (bk_preAllowedAt b) now + dp_tRP d);
                 col_allowed_at = (if busState = BUS_READ then bk_rdAllowedAt b else bk_wrAllowedAt b);
                 col_at = max col_allowed_at (act_at + dp_tRCD d);
                 new_seamless_bank = (col_at \<le> min_col_at)
             in if new_seamless_bank \<or> (\<not> pr_seamless st \<and> act_at \<le> pr_min_act_at st)
                then let bmask = (if \<not> pr_seamless st \<and> (new_seamless_bank \<or> act_at < pr_min_act_at st)
                                 then map (\<lambda>_. 0) (pr_mask st) else pr_mask st)
                     in Inr \<lparr>pr_mask = bmask[i := Bit_Operations.set_bit j (bmask ! i)], pr_min_act_at = act_at,
                             pr_seamless = (pr_seamless st \<or> new_seamless_bank), pr_hidden = (act_at \<le> hidden_act_max)\<rparr>
                else Inr st)"

definition minBankPrep ::
  "dram_params \<Rightarrow> tick \<Rightarrow> bus_state \<Rightarrow> dram_rank list \<Rightarrow> mem_packet list \<Rightarrow> tick \<Rightarrow> (32 word list \<times> bool) result" where
  "minBankPrep d now busState ranks queue min_col_at =
     rbind (rfold (prep_bank d now busState ranks queue min_col_at)
              \<lparr>pr_mask = replicate (length ranks) 0, pr_min_act_at = 2 ^ 64 - 1, pr_seamless = False, pr_hidden = False\<rparr>
              (concat (map (\<lambda>i. map (Pair i) [0..<length (rk_banks (ranks ! i))]) [0..<length ranks])))
       (\<lambda>st. Inr (pr_mask st, pr_hidden st))"

record choice =
  ch_selected :: "nat option"
  ch_col_at :: tick
  ch_earliest :: "(32 word list \<times> bool) option"
  ch_hidden_bank :: bool
  ch_prepped :: bool
  ch_found_earliest :: bool

fun choose_loop ::
  "dram_params \<Rightarrow> tick \<Rightarrow> bus_state \<Rightarrow> dram_rank list \<Rightarrow> mem_packet list \<Rightarrow> tick \<Rightarrow> nat \<Rightarrow> mem_packet list \<Rightarrow> choice \<Rightarrow> choice result" where
  "choose_loop d now bs ranks queue min_col_at n [] st = Inr st"
| "choose_loop d now bs ranks queue min_col_at n (p # ps) st =
     (if \<not> mp_dram p then choose_loop d now bs ranks queue min_col_at (n + 1) ps st
      else let b = rk_banks (ranks ! mp_rank p) ! mp_bank p;
               col_allowed_at = (if mp_read p then bk_rdAllowedAt b else bk_wrAllowedAt b) in
        if \<not> burstReady ranks p then choose_loop d now bs ranks queue min_col_at (n + 1) ps st
        else if bk_openRow b = mp_row p
        then if col_allowed_at \<le> min_col_at then Inr (st\<lparr>ch_selected := Some n, ch_col_at := col_allowed_at\<rparr>)
             else choose_loop d now bs ranks queue min_col_at (n + 1) ps
               (if \<not> ch_hidden_bank st \<and> \<not> ch_prepped st
                then st\<lparr>ch_selected := Some n, ch_col_at := col_allowed_at, ch_prepped := True\<rparr> else st)
        else if ch_found_earliest st then choose_loop d now bs ranks queue min_col_at (n + 1) ps st
        else rbind (case ch_earliest st of Some e \<Rightarrow> Inr e | None \<Rightarrow> minBankPrep d now bs ranks queue min_col_at)
          (\<lambda>(earliest_banks, hidden_bank_prep).
             let st1 = st\<lparr>ch_earliest := Some (earliest_banks, hidden_bank_prep)\<rparr> in
             choose_loop d now bs ranks queue min_col_at (n + 1) ps
               (if bit (earliest_banks ! mp_rank p) (mp_bank p)
                then let st2 = st1\<lparr>ch_found_earliest := True, ch_hidden_bank := hidden_bank_prep\<rparr> in
                  if hidden_bank_prep \<or> \<not> ch_prepped st then st2\<lparr>ch_selected := Some n, ch_col_at := col_allowed_at\<rparr> else st2
                else st1)))"

definition choice_start :: choice where
  "choice_start = \<lparr>ch_selected = None, ch_col_at = 2 ^ 64 - 1, ch_earliest = None, ch_hidden_bank = False,
     ch_prepped = False, ch_found_earliest = False\<rparr>"

definition dram_chooseNextFRFCFS ::
  "dram_params \<Rightarrow> tick \<Rightarrow> bus_state \<Rightarrow> dram_rank list \<Rightarrow> mem_packet list \<Rightarrow> tick \<Rightarrow> (nat option \<times> tick) result" where
  "dram_chooseNextFRFCFS d now busState ranks queue min_col_at =
     rbind (choose_loop d now busState ranks queue min_col_at 0 queue choice_start) (\<lambda>st. Inr (ch_selected st, ch_col_at st))"

section \<open>The earliest banks\<close>

text \<open>Packets as \<open>decodePacket\<close> makes them, ticks of 64 bits.\<close>

definition queue_ok :: "dram_params \<Rightarrow> tick \<Rightarrow> dram_rank list \<Rightarrow> mem_packet list \<Rightarrow> bool" where
  "queue_ok d now ranks queue \<longleftrightarrow> (\<exists>B. B \<le> 32 \<and> length ranks * B \<le> 2 ^ 16 \<and> (\<forall>r\<in>set ranks. length (rk_banks r) = B) \<and>
     (\<forall>p\<in>set queue. mp_dram p \<longrightarrow> mp_rank p < length ranks \<and> mp_bank p < B \<and> mp_bankId p = mp_rank p * B + mp_bank p)) \<and>
     (\<forall>r\<in>set ranks. \<forall>b\<in>set (rk_banks r). max (bk_actAllowedAt b) now < 2 ^ 64 \<and> max (bk_preAllowedAt b) now + dp_tRP d < 2 ^ 64)"

lemma queue_okD:
  assumes "queue_ok d now ranks queue" "p \<in> set queue" "mp_dram p"
  shows "mp_rank p < length ranks \<and> mp_bank p < length (rk_banks (ranks ! mp_rank p))"
  using assms unfolding queue_ok_def by (metis nth_mem)

definition waits :: "dram_rank list \<Rightarrow> mem_packet list \<Rightarrow> nat \<Rightarrow> nat \<Rightarrow> bool" where
  "waits ranks queue i j \<longleftrightarrow> (\<exists>p\<in>set queue. mp_dram p \<and> burstReady ranks p \<and> mp_rank p = i \<and> mp_bank p = j)"

lemma got_waiting_iff:
  assumes "queue_ok d now ranks queue" "i < length ranks" "j < length (rk_banks (ranks ! i))"
  shows "got_waiting ranks queue ((i * length (rk_banks (ranks ! i)) + j) mod 2 ^ 16) \<longleftrightarrow> waits ranks queue i j"
proof -
  obtain B where B: "length ranks * B \<le> 2 ^ 16" "\<forall>r\<in>set ranks. length (rk_banks r) = B"
    "\<forall>p\<in>set queue. mp_dram p \<longrightarrow> mp_rank p < length ranks \<and> mp_bank p < B \<and> mp_bankId p = mp_rank p * B + mp_bank p"
    using assms(1) unfolding queue_ok_def by blast
  have b: "length (rk_banks (ranks ! i)) = B" using B(2) assms(2) by simp
  have "i * B + j < Suc i * B" using assms(3) b by simp
  also have "\<dots> \<le> length ranks * B" using assms(2) by (intro mult_le_mono1) simp
  finally have m: "(i * B + j) mod 2 ^ 16 = i * B + j" using B(1) by simp
  have inj: "x * B + y = i * B + j \<longleftrightarrow> x = i \<and> y = j" if "y < B" for x y
  proof
    assume e: "x * B + y = i * B + j"
    then have "(x * B + y) div B = (i * B + j) div B" "(x * B + y) mod B = (i * B + j) mod B" by simp_all
    then show "x = i \<and> y = j" using that assms(3) b by simp
  qed simp
  show ?thesis unfolding b m got_waiting_def waits_def list_ex_iff using B(3) inj by (metis (no_types, lifting))
qed

definition marked :: "32 word list \<Rightarrow> nat \<Rightarrow> nat \<Rightarrow> bool" where
  "marked bmask i j \<longleftrightarrow> i < length bmask \<and> bit (bmask ! i) j"

text \<open>The loop: marked banks wait, and once a waiting bank was seen some bank is marked.\<close>

definition prep_inv :: "dram_rank list \<Rightarrow> mem_packet list \<Rightarrow> (nat \<times> nat) list \<Rightarrow> bank_prep \<Rightarrow> bool" where
  "prep_inv ranks queue seen st \<longleftrightarrow> length (pr_mask st) = length ranks \<and>
     (\<forall>i j. marked (pr_mask st) i j \<longrightarrow> waits ranks queue i j) \<and>
     (pr_min_act_at st < 2 ^ 64 - 1 \<or> pr_seamless st \<longrightarrow> (\<exists>i j. marked (pr_mask st) i j)) \<and>
     ((\<exists>(i, j)\<in>set seen. waits ranks queue i j) \<longrightarrow> (\<exists>i j. marked (pr_mask st) i j))"

lemma prep_bank_inv:
  assumes "queue_ok d now ranks queue" "prep_inv ranks queue seen st" "i < length ranks" "j < length (rk_banks (ranks ! i))"
  shows "\<exists>st'. prep_bank d now bs ranks queue mc st (i, j) = Inr st' \<and> prep_inv ranks queue (seen @ [(i, j)]) st'"
proof (cases "waits ranks queue i j")
  case False
  then show ?thesis using assms(2) unfolding prep_bank_def got_waiting_iff[OF assms(1,3,4)] prod.case
    by (auto simp: prep_inv_def)
next
  case True
  let ?b = "rk_banks (ranks ! i) ! j"
  define act_at where "act_at = (if bk_openRow ?b = NO_ROW then max (bk_actAllowedAt ?b) now else max (bk_preAllowedAt ?b) now + dp_tRP d)"
  have "?b \<in> set (rk_banks (ranks ! i))" "ranks ! i \<in> set ranks" using assms(3,4) by simp_all
  then have at: "act_at \<le> 2 ^ 64 - 1" using assms(1) unfolding queue_ok_def act_at_def by fastforce
  have ref: "inRefIdleState (ranks ! i)" using True by (auto simp: waits_def burstReady_def)
  have j32: "j < 32" using assms(1,3,4) unfolding queue_ok_def by (metis less_le_trans nth_mem)
  have step: "prep_inv ranks queue (seen @ [(i, j)]) \<lparr>pr_mask = bmask[i := Bit_Operations.set_bit j (bmask ! i)],
      pr_min_act_at = act_at, pr_seamless = sm, pr_hidden = h\<rparr>"
    if m: "length bmask = length ranks" "\<forall>x y. marked bmask x y \<longrightarrow> marked (pr_mask st) x y" for bmask :: "32 word list" and sm h
  proof -
    have "marked (bmask[i := Bit_Operations.set_bit j (bmask ! i)]) x y \<longleftrightarrow> marked bmask x y \<or> (x, y) = (i, j)" for x y
      using m(1) assms(3) j32 by (auto simp: marked_def nth_list_update bit_set_bit_iff)
    then show ?thesis using m assms(2) True by (auto simp: prep_inv_def)
  qed
  let ?col = "if bs = BUS_READ then bk_rdAllowedAt ?b else bk_wrAllowedAt ?b"
  define ns where "ns = (max ?col (act_at + dp_tRCD d) \<le> mc)"
  show ?thesis
  proof (cases "ns \<or> (\<not> pr_seamless st \<and> act_at \<le> pr_min_act_at st)")
    case False
    then have "pr_min_act_at st < 2 ^ 64 - 1 \<or> pr_seamless st" using at by auto
    then have "prep_inv ranks queue (seen @ [(i, j)]) st" using assms(2) by (auto simp: prep_inv_def)
    then show ?thesis using True ref False
      unfolding prep_bank_def got_waiting_iff[OF assms(1,3,4)] prod.case Let_def act_at_def[symmetric] ns_def[symmetric] by auto
  next
    case upd: True
    define bmask where "bmask = (if \<not> pr_seamless st \<and> (ns \<or> act_at < pr_min_act_at st) then map (\<lambda>_. 0) (pr_mask st) else pr_mask st)"
    have "length bmask = length ranks" "\<forall>x y. marked bmask x y \<longrightarrow> marked (pr_mask st) x y"
      using assms(2) by (auto simp: bmask_def marked_def prep_inv_def)
    from step[OF this] True ref upd show ?thesis
      unfolding prep_bank_def got_waiting_iff[OF assms(1,3,4)] prod.case Let_def act_at_def[symmetric] ns_def[symmetric] bmask_def[symmetric] by auto
  qed
qed

lemma minBankPrep_spec:
  assumes "queue_ok d now ranks queue"
  shows "\<exists>bmask hidden. minBankPrep d now bs ranks queue mc = Inr (bmask, hidden) \<and>
    (\<forall>i j. marked bmask i j \<longrightarrow> waits ranks queue i j) \<and> length bmask = length ranks \<and>
    ((\<exists>i j. waits ranks queue i j) \<longrightarrow> (\<exists>i j. marked bmask i j))"
proof -
  have loop: "\<exists>st'. rfold (prep_bank d now bs ranks queue mc) st ijs = Inr st' \<and> prep_inv ranks queue (seen @ ijs) st'"
    if "prep_inv ranks queue seen st" "\<forall>(i, j)\<in>set ijs. i < length ranks \<and> j < length (rk_banks (ranks ! i))" for seen st ijs
    using that
  proof (induction ijs arbitrary: seen st)
    case (Cons ij ijs)
    obtain i j where ij: "ij = (i, j)" by (cases ij)
    obtain st1 where "prep_bank d now bs ranks queue mc st ij = Inr st1" "prep_inv ranks queue (seen @ [ij]) st1"
      using prep_bank_inv[OF assms Cons.prems(1), where i = i and j = j and bs = bs and mc = mc] Cons.prems(2) ij by auto
    then show ?case using Cons.IH[of "seen @ [ij]" st1] Cons.prems(2) by auto
  qed simp
  define ijs where "ijs = concat (map (\<lambda>i. map (Pair i) [0..<length (rk_banks (ranks ! i))]) [0..<length ranks])"
  let ?st = "\<lparr>pr_mask = replicate (length ranks) (0 :: 32 word), pr_min_act_at = 2 ^ 64 - 1 :: nat, pr_seamless = False, pr_hidden = False\<rparr>"
  have ijs: "set ijs = {(i, j). i < length ranks \<and> j < length (rk_banks (ranks ! i))}" by (auto simp: ijs_def)
  have "prep_inv ranks queue [] ?st" by (auto simp: prep_inv_def marked_def)
  then obtain st where st: "rfold (prep_bank d now bs ranks queue mc) ?st ijs = Inr st" "prep_inv ranks queue ijs st"
    using loop[of "[]" ?st ijs] ijs by auto
  have "(i, j) \<in> set ijs" if "waits ranks queue i j" for i j
    using that queue_okD[OF assms] unfolding ijs waits_def by auto
  then have "(\<exists>i j. waits ranks queue i j) \<longrightarrow> (\<exists>(i, j)\<in>set ijs. waits ranks queue i j)" by blast
  then show ?thesis using st unfolding minBankPrep_def ijs_def[symmetric] prep_inv_def
    by (intro exI[of _ "pr_mask st"] exI[of _ "pr_hidden st"]) simp
qed


section \<open>The choice\<close>

definition pkt_bank :: "dram_rank list \<Rightarrow> mem_packet \<Rightarrow> bank" where
  "pkt_bank ranks p = rk_banks (ranks ! mp_rank p) ! mp_bank p"

definition row_hit :: "dram_rank list \<Rightarrow> mem_packet \<Rightarrow> bool" where
  "row_hit ranks p \<longleftrightarrow> bk_openRow (pkt_bank ranks p) = mp_row p"

definition col_at :: "dram_rank list \<Rightarrow> mem_packet \<Rightarrow> tick" where
  "col_at ranks p = (if mp_read p then bk_rdAllowedAt (pkt_bank ranks p) else bk_wrAllowedAt (pkt_bank ranks p))"

text \<open>A packet that can issue, and one that can issue seamlessly with a row hit.\<close>

definition candidate :: "dram_rank list \<Rightarrow> mem_packet \<Rightarrow> bool" where
  "candidate ranks p \<longleftrightarrow> mp_dram p \<and> burstReady ranks p"

definition seamless_hit :: "dram_rank list \<Rightarrow> tick \<Rightarrow> mem_packet \<Rightarrow> bool" where
  "seamless_hit ranks mc p \<longleftrightarrow> candidate ranks p \<and> row_hit ranks p \<and> col_at ranks p \<le> mc"

text \<open>The loop at position \<open>n\<close>: what is selected is a candidate seen before; flags that are set come with a
  selection; the earliest banks are those of \<open>minBankPrep\<close>.\<close>

definition choice_inv ::
  "dram_rank list \<Rightarrow> mem_packet list \<Rightarrow> (32 word list \<times> bool) \<Rightarrow> nat \<Rightarrow> choice \<Rightarrow> bool" where
  "choice_inv ranks queue mb n st \<longleftrightarrow>
     (\<forall>k. ch_selected st = Some k \<longrightarrow> k < n \<and> k < length queue \<and> candidate ranks (queue ! k) \<and>
        ch_col_at st = col_at ranks (queue ! k)) \<and>
     (ch_prepped st \<or> ch_found_earliest st \<or> ch_hidden_bank st \<longrightarrow> ch_selected st \<noteq> None) \<and>
     (\<forall>e. ch_earliest st = Some e \<longrightarrow> e = mb)"

lemma choose_loop_Cons:
  "choose_loop d now bs ranks queue mc n (p # ps) st =
     (if \<not> candidate ranks p then choose_loop d now bs ranks queue mc (Suc n) ps st
      else if row_hit ranks p
      then if col_at ranks p \<le> mc then Inr (st\<lparr>ch_selected := Some n, ch_col_at := col_at ranks p\<rparr>)
           else choose_loop d now bs ranks queue mc (Suc n) ps
             (if \<not> ch_hidden_bank st \<and> \<not> ch_prepped st
              then st\<lparr>ch_selected := Some n, ch_col_at := col_at ranks p, ch_prepped := True\<rparr> else st)
      else if ch_found_earliest st then choose_loop d now bs ranks queue mc (Suc n) ps st
      else rbind (case ch_earliest st of Some e \<Rightarrow> Inr e | None \<Rightarrow> minBankPrep d now bs ranks queue mc) (\<lambda>(banks, hidden).
        let st1 = st\<lparr>ch_earliest := Some (banks, hidden)\<rparr> in
        choose_loop d now bs ranks queue mc (Suc n) ps
          (if bit (banks ! mp_rank p) (mp_bank p)
           then let st2 = st1\<lparr>ch_found_earliest := True, ch_hidden_bank := hidden\<rparr> in
             if hidden \<or> \<not> ch_prepped st then st2\<lparr>ch_selected := Some n, ch_col_at := col_at ranks p\<rparr> else st2
           else st1)))"
  unfolding choose_loop.simps(2) candidate_def row_hit_def col_at_def[symmetric] pkt_bank_def[symmetric] Let_def Suc_eq_plus1
  by simp

lemma choose_loop_spec:
  assumes "minBankPrep d now bs ranks queue mc = Inr mb" "choice_inv ranks queue mb n st" "drop n queue = ps"
  shows "\<exists>st'. choose_loop d now bs ranks queue mc n ps st = Inr st' \<and> choice_inv ranks queue mb (length queue) st' \<and>
    (case List.find (\<lambda>k. seamless_hit ranks mc (queue ! k)) [n..<length queue] of
       Some k \<Rightarrow> ch_selected st' = Some k
     | None \<Rightarrow> (ch_selected st \<noteq> None \<longrightarrow> ch_selected st' \<noteq> None) \<and>
         (ch_selected st' = None \<longrightarrow> (\<forall>p\<in>set ps. candidate ranks p \<longrightarrow>
            \<not> row_hit ranks p \<and> \<not> bit (fst mb ! mp_rank p) (mp_bank p))))"
  using assms(2,3)
proof (induction ps arbitrary: n st)
  case Nil
  then have "length queue \<le> n" by simp
  moreover from this Nil have "choice_inv ranks queue mb (length queue) st" by (auto simp: choice_inv_def)
  ultimately show ?case by simp
next
  case (Cons p ps)
  have n: "n < length queue" "queue ! n = p" "drop (Suc n) queue = ps"
    using Cons.prems(2) by (metis drop_eq_Nil list.distinct(1) not_le, metis nth_via_drop, metis drop_Suc list.sel(3) tl_drop)
  have upt: "[n..<length queue] = n # [Suc n..<length queue]" using n(1) by (rule upt_conv_Cons)
  let ?C = "\<lambda>st. \<exists>st'. choose_loop d now bs ranks queue mc (Suc n) ps st = Inr st' \<and> choice_inv ranks queue mb (length queue) st' \<and>
    (case List.find (\<lambda>k. seamless_hit ranks mc (queue ! k)) [Suc n..<length queue] of
       Some k \<Rightarrow> ch_selected st' = Some k
     | None \<Rightarrow> (ch_selected st \<noteq> None \<longrightarrow> ch_selected st' \<noteq> None) \<and>
         (ch_selected st' = None \<longrightarrow> (\<forall>p\<in>set ps. candidate ranks p \<longrightarrow>
            \<not> row_hit ranks p \<and> \<not> bit (fst mb ! mp_rank p) (mp_bank p))))"
  have IH: "?C st1" if "choice_inv ranks queue mb (Suc n) st1" for st1
    using Cons.IH[OF that n(3)] .
  have weaken: "choice_inv ranks queue mb (Suc n) st" using Cons.prems(1) by (auto simp: choice_inv_def)
  show ?case
  proof (cases "candidate ranks p")
    case False
    then have "choose_loop d now bs ranks queue mc n (p # ps) st = choose_loop d now bs ranks queue mc (Suc n) ps st"
      by (simp add: choose_loop_Cons del: choose_loop.simps)
    moreover have nh: "\<not> seamless_hit ranks mc (queue ! n)" using False n(2) by (simp add: seamless_hit_def)
    ultimately show ?thesis using IH[OF weaken] False by (auto simp: upt split: option.splits)
  next
    case cand: True
    let ?col = "col_at ranks p"
    show ?thesis
    proof (cases "row_hit ranks p")
      case hit: True
      show ?thesis
      proof (cases "?col \<le> mc")
        case True
        then have "choose_loop d now bs ranks queue mc n (p # ps) st = Inr (st\<lparr>ch_selected := Some n, ch_col_at := ?col\<rparr>)"
          using cand hit by (simp add: choose_loop_Cons del: choose_loop.simps)
        then show ?thesis using n cand hit True Cons.prems(1)
          by (auto simp: upt seamless_hit_def choice_inv_def)
      next
        case False
        define st1 where "st1 = (if \<not> ch_hidden_bank st \<and> \<not> ch_prepped st
          then st\<lparr>ch_selected := Some n, ch_col_at := ?col, ch_prepped := True\<rparr> else st)"
        have st1: "choice_inv ranks queue mb (Suc n) st1" "ch_selected st1 \<noteq> None"
          using Cons.prems(1) n cand by (auto simp: st1_def choice_inv_def)
        have "choose_loop d now bs ranks queue mc n (p # ps) st = choose_loop d now bs ranks queue mc (Suc n) ps st1"
          using cand hit False by (simp add: choose_loop_Cons st1_def del: choose_loop.simps)
        moreover have nh: "\<not> seamless_hit ranks mc (queue ! n)" using False n(2) by (simp add: seamless_hit_def)
        ultimately show ?thesis using IH[OF st1(1)] st1(2) by (auto simp: upt split: option.splits)
      qed
    next
      case miss: False
      have nh: "\<not> seamless_hit ranks mc (queue ! n)" using miss n(2) by (simp add: seamless_hit_def)
      show ?thesis
      proof (cases "ch_found_earliest st")
        case True
        then have "choose_loop d now bs ranks queue mc n (p # ps) st = choose_loop d now bs ranks queue mc (Suc n) ps st"
          using cand miss by (simp add: choose_loop_Cons del: choose_loop.simps)
        moreover have "ch_selected st \<noteq> None" using Cons.prems(1) True by (simp add: choice_inv_def)
        ultimately show ?thesis using IH[OF weaken] nh by (auto simp: upt split: option.splits)
      next
        case False
        obtain bmask hb where mb: "mb = (bmask, hb)" by (cases mb)
        have e: "(case ch_earliest st of Some e \<Rightarrow> Inr e | None \<Rightarrow> minBankPrep d now bs ranks queue mc) = Inr mb"
          using Cons.prems(1) assms(1) by (auto simp: choice_inv_def split: option.split)
        define st1 where "st1 = st\<lparr>ch_earliest := Some (bmask, hb)\<rparr>"
        define st2 where "st2 = st1\<lparr>ch_found_earliest := True, ch_hidden_bank := hb\<rparr>"
        define st3 where "st3 = (if bit (bmask ! mp_rank p) (mp_bank p)
          then if hb \<or> \<not> ch_prepped st then st2\<lparr>ch_selected := Some n, ch_col_at := ?col\<rparr> else st2 else st1)"
        have "choose_loop d now bs ranks queue mc n (p # ps) st = choose_loop d now bs ranks queue mc (Suc n) ps st3"
          using cand miss False by (simp add: choose_loop_Cons e mb st1_def st2_def st3_def Let_def del: choose_loop.simps)
        moreover have "choice_inv ranks queue mb (Suc n) st3" "ch_selected st \<noteq> None \<longrightarrow> ch_selected st3 \<noteq> None"
          "bit (bmask ! mp_rank p) (mp_bank p) \<longrightarrow> ch_selected st3 \<noteq> None"
          using Cons.prems(1) n cand by (auto simp: st3_def st2_def st1_def choice_inv_def mb)
        ultimately show ?thesis using IH[of st3] nh miss mb by (auto simp: upt split: option.splits)
      qed
    qed
  qed
qed


section \<open>Properties\<close>

lemma frfcfs_choice_spec:
  assumes "queue_ok d now ranks queue"
  shows "\<exists>sel col. dram_chooseNextFRFCFS d now bs ranks queue mc = Inr (sel, col) \<and>
    (case List.find (\<lambda>k. seamless_hit ranks mc (queue ! k)) [0..<length queue] of Some k \<Rightarrow> sel = Some k
     | None \<Rightarrow> (sel = None) = (\<forall>p\<in>set queue. \<not> candidate ranks p)) \<and>
    (\<forall>k. sel = Some k \<longrightarrow> k < length queue \<and> candidate ranks (queue ! k) \<and> col = col_at ranks (queue ! k))"
proof -
  obtain bmask hidden where mb: "minBankPrep d now bs ranks queue mc = Inr (bmask, hidden)"
    "\<forall>i j. marked bmask i j \<longrightarrow> waits ranks queue i j" "length bmask = length ranks"
    "(\<exists>i j. waits ranks queue i j) \<longrightarrow> (\<exists>i j. marked bmask i j)"
    using minBankPrep_spec[OF assms] by blast
  have "choice_inv ranks queue (bmask, hidden) 0 choice_start" by (simp add: choice_inv_def choice_start_def)
  from choose_loop_spec[OF mb(1) this, of queue] obtain st where
    st: "choose_loop d now bs ranks queue mc 0 queue choice_start = Inr st" "choice_inv ranks queue (bmask, hidden) (length queue) st"
    "case List.find (\<lambda>k. seamless_hit ranks mc (queue ! k)) [0..<length queue] of
       Some k \<Rightarrow> ch_selected st = Some k
     | None \<Rightarrow> (ch_selected st = None \<longrightarrow> (\<forall>p\<in>set queue. candidate ranks p \<longrightarrow>
            \<not> row_hit ranks p \<and> \<not> bit (bmask ! mp_rank p) (mp_bank p)))"
    by (auto split: option.splits)
  have idle: "\<forall>p\<in>set queue. \<not> candidate ranks p"
    if h: "\<forall>p\<in>set queue. candidate ranks p \<longrightarrow> \<not> bit (bmask ! mp_rank p) (mp_bank p)"
  proof (rule ccontr)
    assume "\<not> (\<forall>p\<in>set queue. \<not> candidate ranks p)"
    then obtain q where "q \<in> set queue" "candidate ranks q" by blast
    then have "waits ranks queue (mp_rank q) (mp_bank q)" by (auto simp: waits_def candidate_def)
    then obtain i j where "marked bmask i j" using mb(4) by blast
    then obtain p where "p \<in> set queue" "candidate ranks p" "mp_rank p = i" "mp_bank p = j" "bit (bmask ! i) j"
      using mb(2) by (auto simp: waits_def candidate_def marked_def)
    then show False using h by blast
  qed
  have sel: "\<forall>k. ch_selected st = Some k \<longrightarrow> k < length queue \<and> candidate ranks (queue ! k) \<and> ch_col_at st = col_at ranks (queue ! k)"
    using st(2) by (simp add: choice_inv_def)
  have "(ch_selected st = None) = (\<forall>p\<in>set queue. \<not> candidate ranks p)"
    if "List.find (\<lambda>k. seamless_hit ranks mc (queue ! k)) [0..<length queue] = None"
  proof
    assume "ch_selected st = None"
    then show "\<forall>p\<in>set queue. \<not> candidate ranks p" using st(3) that by (intro idle) auto
  next
    assume "\<forall>p\<in>set queue. \<not> candidate ranks p"
    then show "ch_selected st = None" using sel by (cases "ch_selected st") auto
  qed
  then show ?thesis using st(1,3) sel unfolding dram_chooseNextFRFCFS_def by (auto split: option.splits)
qed

text \<open>C31: FR-FCFS on a queue of decoded packets: the choice never fails; when some packet is a seamless row
  hit on an available rank, the first such packet is chosen; otherwise a packet is chosen whenever some
  packet's rank is available (the scheduler never idles while it can work), and the chosen packet is one
  of those, with the tick of its column command.\<close>

theorem frfcfs_choice:
  assumes "queue_ok d now ranks queue"
  shows "\<exists>sel col. dram_chooseNextFRFCFS d now bs ranks queue mc = Inr (sel, col) \<and>
    (case List.find (\<lambda>k. seamless_hit ranks mc (queue ! k)) [0..<length queue] of Some k \<Rightarrow> sel = Some k
     | None \<Rightarrow> (sel = None) = (\<forall>p\<in>set queue. \<not> candidate ranks p)) \<and>
    (\<forall>k. sel = Some k \<longrightarrow> k < length queue \<and> candidate ranks (queue ! k) \<and> col = col_at ranks (queue ! k))"
  by (rule frfcfs_choice_spec[OF assms])


theorem frfcfs_choice_witness:
  "\<exists>k col. dram_chooseNextFRFCFS example_dram_params 7 BUS_READ (dr_ranks (dram_start 2 16 4 2))
     [example_burst 3 2, example_burst 4 1] 9 = Inr (Some k, col) \<and> k < 2"
proof -
  let ?ranks = "dr_ranks (dram_start 2 16 4 2)" and ?q = "[example_burst 3 2, example_burst 4 1]"
  have ok: "queue_ok example_dram_params 7 ?ranks ?q"
    unfolding queue_ok_def
    by (rule conjI, rule exI[of _ 16])
      (auto simp: dram_start_def Rank_new_def Bank_new_def example_burst_def MemPacket_new_def example_dram_params_def)
  have "candidate ?ranks (example_burst 3 2)"
    by (simp add: candidate_def burstReady_def inRefIdleState_def dram_start_def Rank_new_def example_burst_def MemPacket_new_def)
  then show ?thesis using frfcfs_choice[OF ok, of BUS_READ 9] by (auto split: option.splits)
qed

end
