(* ===== verification/Rank_Refresh.thy ===== *)
theory Rank_Refresh
  imports Dram_Timing
begin

text \<open>
  The refresh and power state machines of a rank (\<open>mem/mem_interface.cc\<close>): \<open>processRefreshEvent\<close>
  and \<open>processPowerEvent\<close>, stage by stage as the code falls through them, and the rank's events as a
  step relation.  A rank refreshes by draining, leaving power-down, precharging all banks, waiting for
  the power state to become \<open>PWR_REF\<close>, running the refresh for tRFC and going idle again.  The energy of
  the power library is not modelled, its command list is.
\<close>

section \<open>The refresh event\<close>

definition refresh_begin :: "rank_env \<Rightarrow> dram_rank \<Rightarrow> dram_rank" where
  "refresh_begin e r =
     (if rk_refreshState r = REF_IDLE \<or> rk_refreshState r = REF_SREF_EXIT
      then r\<lparr>rk_refreshDueAt := en_now e, rk_refreshState := REF_DRAIN,
             rk_outstandingEvents := u8 (rk_outstandingEvents r + 1)\<rparr>
      else r)"

text \<open>The stages that may return early give the rank and whether to go on.\<close>

definition refresh_drain :: "rank_env \<Rightarrow> dram_rank \<Rightarrow> dram_rank \<times> bool" where
  "refresh_drain e r =
     (if rk_refreshState r = REF_DRAIN
      then if rk_rank r = en_activeRank e \<and> en_requestEventScheduled e then (r, False)
           else (r\<lparr>rk_refreshState := REF_PD_EXIT\<rparr>, True)
      else (r, True))"

definition refresh_pd_exit :: "dram_params \<Rightarrow> rank_env \<Rightarrow> dram_rank \<Rightarrow> (dram_rank \<times> bool) result" where
  "refresh_pd_exit d e r =
     (if rk_refreshState r = REF_PD_EXIT
      then if rk_inLowPowerState r
           then rbind (scheduleWakeUpEvent (en_now e) r (dp_tXP d)) (\<lambda>r'. Inr (r', False))
           else Inr (r\<lparr>rk_refreshState := REF_PRE\<rparr>, True)
      else Inr (r, True))"

definition all_pre_at :: "tick \<Rightarrow> dram_rank \<Rightarrow> tick" where
  "all_pre_at now r = fold (\<lambda>b t. max (bk_preAllowedAt b) t) (rk_banks r) now"

text \<open>One bank of the precharge-all; the bus is not used.\<close>

definition refresh_bank :: "dram_params \<Rightarrow> tick \<Rightarrow> tick \<Rightarrow> dram_rank \<Rightarrow> nat \<Rightarrow> dram_rank run" where
  "refresh_bank d now pre_at r b =
     (if bk_openRow (rk_banks r ! b) \<noteq> NO_ROW
      then obind (prechargeBank d 0 now {#} r b pre_at True False) (\<lambda>(_, r'). ok r')
      else ok (upd_bank b (\<lambda>k. k\<lparr>bk_actAllowedAt := max (bk_actAllowedAt k) (pre_at + dp_tRP d),
             bk_preAllowedAt := max (bk_preAllowedAt k) pre_at\<rparr>) r))"

fun refresh_banks :: "dram_params \<Rightarrow> tick \<Rightarrow> tick \<Rightarrow> nat list \<Rightarrow> dram_rank \<Rightarrow> dram_rank run" where
  "refresh_banks d now pre_at [] r = ok r"
| "refresh_banks d now pre_at (b # bs) r = obind (refresh_bank d now pre_at r b) (refresh_banks d now pre_at bs)"

definition refresh_pre :: "dram_params \<Rightarrow> rank_env \<Rightarrow> dram_rank \<Rightarrow> dram_rank run" where
  "refresh_pre d e r =
     obind (if rk_numBanksActive r \<noteq> 0
            then let pre_at = all_pre_at (en_now e) r in
              obind (refresh_banks d (en_now e) pre_at [0..<length (rk_banks r)] r) (\<lambda>r1.
                ok (log_cmd (Command PREA 0 pre_at) r1))
            else if rk_pwrState r = PWR_IDLE \<and> rk_outstandingEvents r = 1
            then Some (schedulePowerEvent (en_now e) r PWR_REF (en_now e))
            else if rk_prechargeEvent r \<noteq> None \<or> en_respondEventScheduled e then ok r else failed AssertFail)
       (\<lambda>r1. if rk_numBanksActive r1 = 0 then ok r1 else failed AssertFail)"

definition refresh_start :: "dram_params \<Rightarrow> rank_env \<Rightarrow> dram_rank \<Rightarrow> dram_rank result" where
  "refresh_start d e r =
     (if rk_numBanksActive r \<noteq> 0 then Inl AssertFail
      else if rk_pwrState r \<noteq> PWR_REF then Inl AssertFail
      else let ref_done_at = en_now e + dp_tRFC d;
               r1 = flushCmdList (en_now e) (log_cmd (Command REF 0 (en_now e))
                      (map_banks (bk_actAllowedAt_update (\<lambda>_. ref_done_at)) r));
               r2 = r1\<lparr>rk_refreshDueAt := rk_refreshDueAt r1 + dp_tREFI d\<rparr>
           in if rk_refreshDueAt r2 < ref_done_at then Inl FatalExit
              else rbind (schedule (en_now e) (rk_refreshEvent r2) ref_done_at) (\<lambda>ev.
                Inr (r2\<lparr>rk_refreshState := REF_RUN, rk_refreshEvent := ev\<rparr>)))"

definition refresh_run :: "dram_params \<Rightarrow> rank_env \<Rightarrow> dram_rank \<Rightarrow> dram_rank result" where
  "refresh_run d e r =
     (if rk_numBanksActive r \<noteq> 0 then Inl AssertFail
      else if rk_pwrState r \<noteq> PWR_REF then Inl AssertFail
      else if rk_powerEvent r \<noteq> None then Inl AssertFail
      else rbind
        (if en_drainState e = Draining \<or> en_drainState e = Drained then schedulePowerEvent (en_now e) r PWR_IDLE (en_now e)
         else if rk_pwrStatePostRefresh r \<noteq> PWR_IDLE then powerDownSleep d (en_now e) r (rk_pwrState r) (en_now e)
         else if isQueueEmpty e r \<and> dp_enableDRAMPowerdown d
         then if rk_outstandingEvents r \<noteq> 1 then Inl AssertFail else powerDownSleep d (en_now e) r PWR_PRE_PDN (en_now e)
         else schedulePowerEvent (en_now e) r PWR_IDLE (en_now e))
        (\<lambda>r1. rbind (schedule (en_now e) (rk_refreshEvent r1) (sub64 (rk_refreshDueAt r1) (dp_tRP d))) (\<lambda>ev.
           Inr (r1\<lparr>rk_refreshEvent := ev\<rparr>))))"

definition processRefreshEvent :: "dram_params \<Rightarrow> rank_env \<Rightarrow> dram_rank \<Rightarrow> dram_rank run" where
  "processRefreshEvent d e r0 =
     (case refresh_drain e (refresh_begin e r0) of (r1, go) \<Rightarrow>
        if \<not> go then ok r1
        else obind (Some (refresh_pd_exit d e r1)) (\<lambda>(r2, go).
          if \<not> go then ok r2
          else if rk_refreshState r2 = REF_PRE then refresh_pre d e r2
          else if rk_refreshState r2 = REF_START then Some (refresh_start d e r2)
          else if rk_refreshState r2 = REF_RUN then Some (refresh_run d e r2)
          else ok r2))"

section \<open>The power event\<close>

text \<open>The end of a refresh; the second component asks the controller to restart its scheduler.\<close>

definition power_after_refresh :: "rank_env \<Rightarrow> PowerState \<Rightarrow> dram_rank \<Rightarrow> (dram_rank \<times> bool) result" where
  "power_after_refresh e prev_state r =
     (if prev_state = PWR_REF
      then if rk_outstandingEvents r \<noteq> 1 then Inl AssertFail
           else let r1 = r\<lparr>rk_outstandingEvents := rk_outstandingEvents r - 1, rk_refreshState := REF_IDLE\<rparr> in
             if rk_pwrState r1 \<noteq> PWR_IDLE \<and> rk_pwrState r1 \<noteq> PWR_PRE_PDN then Inl AssertFail
             else Inr (r1, \<not> en_requestEventScheduled e)
      else Inr (r, False))"

definition power_idle :: "dram_params \<Rightarrow> rank_env \<Rightarrow> PowerState \<Rightarrow> dram_rank \<Rightarrow> dram_rank result" where
  "power_idle d e prev_state r =
     (if rk_pwrState r = PWR_ACT \<and> rk_refreshState r = REF_PD_EXIT
      then if prev_state \<noteq> PWR_ACT_PDN then Inl AssertFail
           else rbind (schedule (en_now e) (rk_refreshEvent r) (en_now e)) (\<lambda>ev.
             Inr (r\<lparr>rk_refreshState := REF_PRE, rk_refreshEvent := ev\<rparr>))
      else if rk_pwrState r = PWR_IDLE
      then if prev_state = PWR_SREF
           then rbind (schedule (en_now e) (rk_refreshEvent r) (en_now e + dp_tXS d)) (\<lambda>ev.
             Inr (r\<lparr>rk_refreshState := REF_SREF_EXIT, rk_refreshEvent := ev\<rparr>))
           else if rk_refreshState r = REF_PRE \<or> rk_refreshState r = REF_PD_EXIT
           then if rk_activateEvent r = None
                then if rk_powerEvent r \<noteq> None then Inl AssertFail
                     else if rk_refreshState r = REF_PD_EXIT
                     then if prev_state \<noteq> PWR_PRE_PDN then Inl AssertFail
                          else schedulePowerEvent (en_now e) r PWR_REF (en_now e + dp_tXP d)
                     else Inr (r\<lparr>rk_pwrState := PWR_REF\<rparr>)
                else if rk_prechargeEvent r = None then Inl AssertFail else Inr r
           else Inr r
      else Inr r)"

definition power_refresh :: "dram_params \<Rightarrow> rank_env \<Rightarrow> dram_rank \<Rightarrow> dram_rank result" where
  "power_refresh d e r =
     (if rk_pwrState r = PWR_REF
      then if \<not> (rk_refreshState r = REF_PRE \<or> rk_refreshState r = REF_PD_EXIT) then Inl AssertFail
           else if rk_pwrStatePostRefresh r = PWR_PRE_PDN \<and> isQueueEmpty e r \<and> en_drainState e \<noteq> Draining \<and>
                   en_drainState e \<noteq> Drained \<and> dp_enableDRAMPowerdown d
           then rbind (powerDownSleep d (en_now e) r PWR_SREF (en_now e)) (\<lambda>r1.
             if rk_outstandingEvents r1 \<noteq> 1 then Inl AssertFail
             else Inr (r1\<lparr>rk_outstandingEvents := rk_outstandingEvents r1 - 1, rk_pwrState := PWR_IDLE\<rparr>))
           else if rk_powerEvent r \<noteq> None then Inl AssertFail
           else rbind (schedule (en_now e) (rk_refreshEvent r) (en_now e)) (\<lambda>ev.
             Inr (r\<lparr>rk_refreshEvent := ev, rk_refreshState := REF_START\<rparr>))
      else Inr r)"

definition processPowerEvent :: "dram_params \<Rightarrow> rank_env \<Rightarrow> dram_rank \<Rightarrow> (dram_rank \<times> bool) result" where
  "processPowerEvent d e r0 =
     (if \<not> rk_pwrStateTick r0 \<le> en_now e then Inl AssertFail
      else let duration = en_now e - rk_pwrStateTick r0;
               prev_state = rk_pwrState r0;
               r1 = r0\<lparr>rk_s_pwrStateTime := (rk_s_pwrStateTime r0)(prev_state := rk_s_pwrStateTime r0 prev_state + duration),
                       rk_s_totalIdleTime := (if prev_state = PWR_PRE_PDN \<or> prev_state = PWR_ACT_PDN \<or> prev_state = PWR_SREF
                         then rk_s_totalIdleTime r0 + duration else rk_s_totalIdleTime r0),
                       rk_pwrState := rk_pwrStateTrans r0, rk_pwrStateTick := en_now e\<rparr>
           in rbind (power_after_refresh e prev_state r1) (\<lambda>(r2, restart).
              rbind (power_idle d e prev_state r2) (\<lambda>r3.
              rbind (power_refresh d e r3) (\<lambda>r4. Inr (r4, restart)))))"

section \<open>The rank as a state machine\<close>

text \<open>An event fires at the tick it is scheduled for; its flag is cleared before it is processed.  The
  other steps are what the controller does to a rank: asking whether it is busy, the end of a read,
  draining, a burst on this rank (a DRAM of one rank) and a burst elsewhere.\<close>

definition solo :: "dram_rank \<Rightarrow> dram" where
  "solo r = (dram_start 0 0 0 0)\<lparr>dr_ranks := [r]\<rparr>"

inductive rank_step :: "dram_params \<Rightarrow> tick \<Rightarrow> rank_env \<Rightarrow> dram_rank \<Rightarrow> dram_rank \<Rightarrow> bool" for d W e where
  refresh: "rk_refreshEvent r = Some (en_now e) \<Longrightarrow>
     processRefreshEvent d e (r\<lparr>rk_refreshEvent := None\<rparr>) = ok r' \<Longrightarrow> rank_step d W e r r'"
| power: "rk_powerEvent r = Some (en_now e) \<Longrightarrow>
     processPowerEvent d e (r\<lparr>rk_powerEvent := None\<rparr>) = Inr (r', restart) \<Longrightarrow> rank_step d W e r r'"
| wake_up: "rk_wakeUpEvent r = Some (en_now e) \<Longrightarrow>
     processWakeUpEvent (en_now e) (r\<lparr>rk_wakeUpEvent := None\<rparr>) = Inr r' \<Longrightarrow> rank_step d W e r r'"
| activate: "rk_activateEvent r = Some (en_now e) \<Longrightarrow>
     processActivateEvent (en_now e) (r\<lparr>rk_activateEvent := None\<rparr>) = Inr r' \<Longrightarrow> rank_step d W e r r'"
| precharge: "rk_prechargeEvent r = Some (en_now e) \<Longrightarrow>
     processPrechargeEvent d e (r\<lparr>rk_prechargeEvent := None\<rparr>) = Inr r' \<Longrightarrow> rank_step d W e r r'"
| write_done: "rk_writeDoneEvent r = Some (en_now e) \<Longrightarrow>
     processWriteDoneEvent (r\<lparr>rk_writeDoneEvent := None\<rparr>) = Inr r' \<Longrightarrow> rank_step d W e r r'"
| busy: "rank_busy d e r = Inr (r', busy) \<Longrightarrow> rank_step d W e r r'"
| respond: "respondEvent d e r = Inr r' \<Longrightarrow> rank_step d W e r r'"
| check_refresh: "checkRefreshState (en_now e) r = Inr r' \<Longrightarrow> rank_step d W e r r'"
| drain: "drain_rank d (en_now e) r = Inr r' \<Longrightarrow> rank_step d W e r r'"
| burst: "dram_doBurstAccess d W (en_now e) B (solo r) pkt nb others = ok (B', s', x) \<Longrightarrow> rank_step d W e r (dr_ranks s' ! 0)"
| elsewhere: "rank_step d W e r (map_banks (col_bank d False is_read bankgr gap cmd_at) r)"

text \<open>A rank from its construction and \<open>startup\<close> on.\<close>

inductive rank_reachable :: "dram_params \<Rightarrow> tick \<Rightarrow> dram_rank \<Rightarrow> bool" for d W where
  start: "rank_startup now (Rank_new banks groups limit i) ref_tick = Inr r \<Longrightarrow> rank_reachable d W r"
| step: "rank_reachable d W r \<Longrightarrow> rank_step d W e r r' \<Longrightarrow> rank_reachable d W r'"

section \<open>Frames\<close>

definition same_states :: "dram_rank \<Rightarrow> dram_rank \<Rightarrow> bool" where
  "same_states r r' \<longleftrightarrow> rk_pwrState r' = rk_pwrState r \<and> rk_refreshState r' = rk_refreshState r"

lemma same_states_refl [simp]: "same_states r r" by (simp add: same_states_def)

lemma same_states_trans: "same_states a b \<Longrightarrow> same_states b c \<Longrightarrow> same_states a c" by (simp add: same_states_def)

lemma schedulePowerEvent_same: "schedulePowerEvent now r p t = Inr r' \<Longrightarrow> same_states r r'"
  by (auto simp: schedulePowerEvent_Inr same_states_def)

lemma powerDownSleep_same: "powerDownSleep d now r p t = Inr r' \<Longrightarrow> same_states r r'"
  using powerDownSleep_Inr(4,5) by (simp add: same_states_def)

lemma scheduleWakeUpEvent_same: "scheduleWakeUpEvent now r x = Inr r' \<Longrightarrow> same_states r r'"
  using scheduleWakeUpEvent_Inr(4,5) by (simp add: same_states_def)

lemma precharge_event_same: "precharge_event now r t = Inr r' \<Longrightarrow> same_states r r'"
  by (auto simp: precharge_event_def schedule_def reschedule_def same_states_def split: option.splits if_splits)

lemma prechargeBank_same: "prechargeBank d W now B r b t auto tr = ok (B', r') \<Longrightarrow> same_states r r'"
  by (auto simp: prechargeBank_def obind_eq_ok rbind_eq_Inr_iff Let_def same_states_def split: if_splits
      dest!: precharge_event_same)

lemma activateBank_same: "activateBank d W now B r b t row = ok (B', r') \<Longrightarrow> same_states r r'"
  by (auto simp: activateBank_def obind_eq_ok rbind_eq_Inr_iff Let_def same_states_def activation_window_def
      activate_event_def schedule_def reschedule_def split: if_splits option.splits)

lemma burst_open_same: "burst_open d W now B r b row = ok (B', r', act, t) \<Longrightarrow> same_states r r'"
  by (auto simp: burst_open_def obind_eq_ok Let_def split: if_splits
      dest!: prechargeBank_same activateBank_same intro: same_states_trans)

lemma write_done_event_same: "write_done_event now r t = Inr r' \<Longrightarrow> same_states r r'"
  by (auto simp: write_done_event_def schedule_def reschedule_def same_states_def split: option.splits if_splits)

lemma burst_finish_same:
  assumes "burst_finish d W now B r pkt others t = ok (B', r')"
  shows "same_states r r'"
proof -
  define r2 where "r2 = log_cmd (Command (if mp_read pkt then RD else WR) (mp_bank pkt) t) (upd_bank (mp_bank pkt) (burst_bank d pkt t) r)"
  obtain x where x: "(if auto_precharge d (rk_banks (upd_bank (mp_bank pkt) (burst_bank d pkt t) r) ! mp_bank pkt) pkt others
      then prechargeBank d W now B r2 (mp_bank pkt) (max now (bk_preAllowedAt (rk_banks (upd_bank (mp_bank pkt) (burst_bank d pkt t) r) ! mp_bank pkt))) True True
      else ok (B, r2)) = ok x"
    "rbind (if mp_read pkt then Inr (snd x\<lparr>rk_outstandingEvents := u8 (rk_outstandingEvents (snd x) + 1)\<rparr>)
             else rbind (write_done_event now (snd x) (mp_readyTime pkt)) (\<lambda>r4.
               Inr (r4\<lparr>rk_writeEntries := dec32 (rk_writeEntries r4)\<rparr>))) (\<lambda>r5. Inr (fst x, r5)) = Inr (B', r')"
    using assms unfolding burst_finish_def Let_def r2_def[symmetric] obind_eq_ok by (auto simp: split_beta split del: if_split)
  have "same_states r r2" by (simp add: r2_def same_states_def)
  moreover have "same_states r2 (snd x)" using x(1) by (cases x) (auto split: if_splits dest: prechargeBank_same)
  moreover have "same_states (snd x) r'"
    using x(2) by (auto simp: rbind_eq_Inr_iff same_states_def split: if_splits dest!: write_done_event_same)
  ultimately show ?thesis using same_states_trans by blast
qed

lemma burst_wake_same: "burst_wake d now r = Inr r' \<Longrightarrow> same_states r r'"
  by (auto simp: burst_wake_def split: if_splits dest!: scheduleWakeUpEvent_same)

text \<open>A rank is in the refresh power state exactly while its refresh starts and runs.\<close>

definition refresh_inv :: "dram_rank \<Rightarrow> bool" where
  "refresh_inv r \<longleftrightarrow> (rk_pwrState r = PWR_REF) = (rk_refreshState r = REF_START \<or> rk_refreshState r = REF_RUN)"


lemma burst_same:
  assumes "dram_doBurstAccess d W now B (solo r) pkt nb others = ok (B', s', x)"
  shows "same_states r (dr_ranks s' ! 0) \<and> rk_refreshState r = REF_IDLE"
proof -
  have rk: "mp_rank pkt = 0" "inRefIdleState r"
    using assms by (auto simp: dram_doBurstAccess_def Let_def solo_def split: if_splits)
  obtain r1 B2 r2 act t B3 at gap where r: "burst_wake d now r = Inr r1"
    "burst_open d W now B r1 (mp_bank pkt) (mp_row pkt) = ok (B2, r2, act, t)"
    "burst_cmd d W now B2 r2 pkt nb = ok (B3, at, gap)"
    using assms rk by (auto simp: dram_doBurstAccess_def Let_def obind_eq_ok solo_def split: if_splits)
  define pkt1 where "pkt1 = pkt\<lparr>mp_readyTime := at + dp_tCL d + dp_tBURST d\<rparr>"
  define r3 where "r3 = map_banks (col_bank d True (mp_read pkt) (bk_bankgr (rk_banks r2 ! mp_bank pkt)) gap at) (r2\<lparr>rk_lastBurstTick := at\<rparr>)"
  have "col_update d 0 (mp_read pkt) (bk_bankgr (rk_banks r2 ! mp_bank pkt)) gap at [r2\<lparr>rk_lastBurstTick := at\<rparr>] = [r3]"
    by (simp add: col_update_def r3_def)
  then obtain B4 r4 where f: "burst_finish d W now B3 r3 pkt1 others at = ok (B4, r4)"
    "dr_ranks s' ! 0 = (if mp_rh_injectDelay pkt \<and> mp_rh_bankDelay pkt \<noteq> 0
       then delayBankRowhammer d r4 (mp_bank pkt) (mp_row pkt) t (mp_rh_bankDelay pkt) else r4)"
    using assms rk r by (auto simp: dram_doBurstAccess_def Let_def obind_eq_ok solo_def pkt1_def split: if_splits)
  have "same_states r2 r3" by (simp add: r3_def same_states_def)
  moreover have "same_states r4 (dr_ranks s' ! 0)"
    unfolding f(2) by (simp add: delayBankRowhammer_def same_states_def Let_def)
  ultimately show ?thesis
    using burst_wake_same[OF r(1)] burst_open_same[OF r(2)] burst_finish_same[OF f(1)] rk(2)
    by (simp add: inRefIdleState_def same_states_def)
qed

section \<open>The invariant\<close>

lemma same_states_inv: "same_states r r' \<Longrightarrow> refresh_inv r \<Longrightarrow> refresh_inv r'"
  by (simp add: same_states_def refresh_inv_def)

lemma refresh_banks_same: "refresh_banks d now t bs r = ok r' \<Longrightarrow> same_states r r'"
proof (induction bs arbitrary: r)
  case (Cons b bs)
  have "same_states r r1" if "refresh_bank d now t r b = ok r1" for r1
    using that by (auto simp: refresh_bank_def obind_eq_ok same_states_def split: if_splits dest!: prechargeBank_same)
  then show ?case using Cons by (auto simp: obind_eq_ok intro: same_states_trans)
qed simp

lemma refresh_pre_same: "refresh_pre d e r = ok r' \<Longrightarrow> same_states r r'"
  by (auto simp: refresh_pre_def obind_eq_ok Let_def same_states_def split: if_splits
      dest!: refresh_banks_same schedulePowerEvent_same)

lemma refresh_run_same: "refresh_run d e r = Inr r' \<Longrightarrow> same_states r r'"
  by (auto simp: refresh_run_def rbind_eq_Inr_iff schedule_def same_states_def split: if_splits
      dest!: schedulePowerEvent_same powerDownSleep_same)

lemma refresh_start_inv: "refresh_start d e r = Inr r' \<Longrightarrow> rk_refreshState r = REF_START \<Longrightarrow> refresh_inv r'"
  by (auto simp: refresh_start_def rbind_eq_Inr_iff schedule_def Let_def refresh_inv_def flushCmdList_def split: if_splits)

lemma processRefreshEvent_inv:
  assumes "processRefreshEvent d e r = ok r'" "refresh_inv r"
  shows "refresh_inv r'"
proof -
  obtain r1 go where d: "refresh_drain e (refresh_begin e r) = (r1, go)" by (cases "refresh_drain e (refresh_begin e r)")
  have i1: "refresh_inv r1"
    using d assms(2) by (auto simp: refresh_drain_def refresh_begin_def refresh_inv_def split: if_splits)
  show ?thesis
  proof (cases go)
    case False
    then show ?thesis using assms(1) d i1 by (simp add: processRefreshEvent_def)
  next
    case True
    then obtain r2 go2 where p: "refresh_pd_exit d e r1 = Inr (r2, go2)"
      "(if \<not> go2 then ok r2 else if rk_refreshState r2 = REF_PRE then refresh_pre d e r2
          else if rk_refreshState r2 = REF_START then Some (refresh_start d e r2)
          else if rk_refreshState r2 = REF_RUN then Some (refresh_run d e r2) else ok r2) = ok r'"
      using assms(1) d by (auto simp: processRefreshEvent_def obind_eq_ok)
    have i2: "refresh_inv r2"
      using p(1) i1 by (auto simp: refresh_pd_exit_def rbind_eq_Inr_iff refresh_inv_def same_states_def
          split: if_splits dest!: scheduleWakeUpEvent_same)
    then show ?thesis using p(2)
      by (auto split: if_splits dest: same_states_inv[OF refresh_pre_same] same_states_inv[OF refresh_run_same] refresh_start_inv)
  qed
qed

lemma processPowerEvent_inv:
  assumes "processPowerEvent d e r = Inr (r', restart)" "refresh_inv r"
  shows "refresh_inv r'"
proof -
  let ?prev = "rk_pwrState r"
  obtain r1 r2 r3 go where r: "rk_pwrState r1 = rk_pwrStateTrans r" "rk_refreshState r1 = rk_refreshState r"
    "power_after_refresh e ?prev r1 = Inr (r2, go)" "power_idle d e ?prev r2 = Inr r3" "power_refresh d e r3 = Inr r'"
  proof -
    let ?d = "en_now e - rk_pwrStateTick r"
    let ?r1 = "r\<lparr>rk_s_pwrStateTime := (rk_s_pwrStateTime r)(?prev := rk_s_pwrStateTime r ?prev + ?d),
        rk_s_totalIdleTime := (if ?prev = PWR_PRE_PDN \<or> ?prev = PWR_ACT_PDN \<or> ?prev = PWR_SREF
          then rk_s_totalIdleTime r + ?d else rk_s_totalIdleTime r),
        rk_pwrState := rk_pwrStateTrans r, rk_pwrStateTick := en_now e\<rparr>"
    obtain r2 go r3 where "power_after_refresh e ?prev ?r1 = Inr (r2, go)" "power_idle d e ?prev r2 = Inr r3"
      "power_refresh d e r3 = Inr r'"
      using assms(1) unfolding processPowerEvent_def Let_def by (auto simp: rbind_eq_Inr_iff split: if_splits)
    then show ?thesis using that[of ?r1 r2 go r3] by simp
  qed
  have s2: "rk_pwrState r2 = PWR_REF \<or> \<not> (rk_refreshState r2 = REF_START \<or> rk_refreshState r2 = REF_RUN)"
    using r(1-3) assms(2) by (auto simp: power_after_refresh_def Let_def refresh_inv_def split: if_splits)
  have s3: "rk_pwrState r3 = PWR_REF \<or> \<not> (rk_refreshState r3 = REF_START \<or> rk_refreshState r3 = REF_RUN)"
    using s2 r(4) by (auto simp: power_idle_def rbind_eq_Inr_iff schedule_def same_states_def split: if_splits
        dest!: schedulePowerEvent_same)
  show ?thesis
  proof (cases "rk_pwrState r3 = PWR_REF")
    case False
    then have "r' = r3" using r(5) by (simp add: power_refresh_def)
    then show ?thesis using s3 False by (simp add: refresh_inv_def)
  next
    case True
    then show ?thesis using r(5)
      by (auto simp: power_refresh_def rbind_eq_Inr_iff schedule_def refresh_inv_def same_states_def split: if_splits
          dest!: powerDownSleep_same)
  qed
qed

lemma rank_step_inv:
  assumes "rank_step d W e r r'" "refresh_inv r"
  shows "refresh_inv r'"
  using assms
proof (induction rule: rank_step.induct)
  case (refresh r r')
  have "refresh_inv (r\<lparr>rk_refreshEvent := None\<rparr>)" using refresh.prems by (simp add: refresh_inv_def)
  then show ?case by (rule processRefreshEvent_inv[OF refresh.hyps(2)])
next
  case (power r r' restart)
  have "refresh_inv (r\<lparr>rk_powerEvent := None\<rparr>)" using power.prems by (simp add: refresh_inv_def)
  then show ?case by (rule processPowerEvent_inv[OF power.hyps(2)])
next
  case (wake_up r r')
  then show ?case by (auto simp: processWakeUpEvent_def refresh_inv_def same_states_def split: if_splits dest!: schedulePowerEvent_same)
next
  case (activate r r')
  then show ?case by (auto simp: processActivateEvent_def refresh_inv_def same_states_def split: if_splits dest!: schedulePowerEvent_same)
next
  case (precharge r r')
  then show ?case by (auto simp: processPrechargeEvent_def Let_def refresh_inv_def same_states_def split: if_splits
        dest!: schedulePowerEvent_same powerDownSleep_same)
next
  case (write_done r r')
  then show ?case by (auto simp: processWriteDoneEvent_def refresh_inv_def split: if_splits)
next
  case (busy r r' b)
  then show ?case by (auto simp: rank_busy_def rbind_eq_Inr_iff checkDrainDone_def schedule_def refresh_inv_def same_states_def
        split: if_splits dest!: scheduleWakeUpEvent_same)
next
  case (respond r r')
  then show ?case by (auto simp: respondEvent_def Let_def refresh_inv_def same_states_def split: if_splits dest!: powerDownSleep_same)
next
  case (check_refresh r r')
  then show ?case by (auto simp: checkRefreshState_def rbind_eq_Inr_iff schedule_def refresh_inv_def split: if_splits)
next
  case (drain r r')
  then show ?case by (auto simp: drain_rank_def refresh_inv_def same_states_def split: if_splits dest!: scheduleWakeUpEvent_same)
next
  case (burst B r pkt nb others B' s' x)
  then show ?case using burst_same same_states_inv by blast
next
  case (elsewhere r is_read bankgr gap cmd_at)
  then show ?case by (simp add: refresh_inv_def)
qed

lemma rank_reachable_inv: "rank_reachable d W r \<Longrightarrow> refresh_inv r"
proof (induction rule: rank_reachable.induct)
  case (start now banks groups limit i ref_tick r)
  then show ?case by (auto simp: rank_startup_def rbind_eq_Inr_iff schedule_def Rank_new_def refresh_inv_def split: if_splits)
next
  case (step r e r')
  then show ?case using rank_step_inv by blast
qed


section \<open>Properties\<close>

text \<open>C32: In every reachable state of a rank, whatever the order of its events, bursts and draining: it is in
  the refresh power state exactly while its refresh state is start or run, so a burst, which the code
  admits only in the refresh idle state, never meets a refreshing rank, and leaves both states alone.\<close>

theorem no_burst_while_refreshing:
  assumes "rank_reachable d W r"
  shows "((rk_pwrState r = PWR_REF) = (rk_refreshState r = REF_START \<or> rk_refreshState r = REF_RUN)) \<and>
    (dram_doBurstAccess d W now B (solo r) pkt nb others = ok (B', s', x) \<longrightarrow>
       rk_pwrState r \<noteq> PWR_REF \<and> rk_pwrState (dr_ranks s' ! 0) \<noteq> PWR_REF \<and> rk_refreshState (dr_ranks s' ! 0) = REF_IDLE)"
  using rank_reachable_inv[OF assms] burst_same[of d W now B r pkt nb others B' s' x]
  by (auto simp: refresh_inv_def same_states_def)

text \<open>A refresh of an idle rank with its banks closed, from the tick it is due to the end.\<close>

definition refresh_ready :: "dram_params \<Rightarrow> rank_env \<Rightarrow> dram_rank \<Rightarrow> bool" where
  "refresh_ready d e r \<longleftrightarrow> rk_refreshEvent r = Some (en_now e) \<and> rk_refreshState r = REF_IDLE \<and> rk_pwrState r = PWR_IDLE \<and>
     rk_pwrStatePostRefresh r = PWR_IDLE \<and> rk_pwrStateTick r \<le> en_now e \<and> rk_numBanksActive r = 0 \<and>
     rk_outstandingEvents r = 0 \<and> \<not> rk_inLowPowerState r \<and> rk_powerEvent r = None \<and> rk_activateEvent r = None \<and>
     \<not> en_requestEventScheduled e \<and> en_drainState e = Running \<and> \<not> dp_enableDRAMPowerdown d \<and>
     dp_tRFC d \<le> dp_tREFI d \<and> dp_tRFC d + dp_tRP d \<le> dp_tREFI d"

definition refresh_done :: "dram_params \<Rightarrow> tick \<Rightarrow> dram_rank \<Rightarrow> dram_rank \<Rightarrow> bool" where
  "refresh_done d t r r' \<longleftrightarrow> rk_refreshState r' = REF_IDLE \<and> rk_pwrState r' = PWR_IDLE \<and> rk_outstandingEvents r' = 0 \<and>
     rk_powerEvent r' = None \<and> rk_refreshEvent r' = Some (t + dp_tREFI d - dp_tRP d) \<and>
     rk_refreshDueAt r' = t + dp_tREFI d \<and>
     rk_banks r' = map (bk_actAllowedAt_update (\<lambda>_. t + dp_tRFC d)) (rk_banks r) \<and>
     rk_pwrStateTick r' = t + dp_tRFC d"

text \<open>C33: The refresh completes: its five events (due, power, start, end, power) all succeed, the first
  three at the due tick and the others tRFC later, every bank may be activated exactly from the end
  on (whatever was charged to it before, a Rowhammer delay included), and the next refresh event is
  tREFI - tRP after this one: the due tick is taken when the event fires, tRP early, so refreshes come
  a tRP more often than every tREFI.\<close>

theorem refresh_completes:
  assumes "refresh_ready d e r"
  shows "\<exists>r1 r2 r3 r4 r5. rank_step d W e r r1 \<and> rank_step d W e r1 r2 \<and> rank_step d W e r2 r3 \<and>
    rank_step d W (e\<lparr>en_now := en_now e + dp_tRFC d\<rparr>) r3 r4 \<and> rank_step d W (e\<lparr>en_now := en_now e + dp_tRFC d\<rparr>) r4 r5 \<and>
    rk_pwrState r3 = PWR_REF \<and> refresh_done d (en_now e) r r5"
proof -
  let ?t = "en_now e" and ?e2 = "e\<lparr>en_now := en_now e + dp_tRFC d\<rparr>"
  define r1 where "r1 = r\<lparr>rk_refreshEvent := None, rk_refreshDueAt := ?t, rk_refreshState := REF_PRE,
    rk_outstandingEvents := 1, rk_pwrStateTrans := PWR_REF, rk_powerEvent := Some ?t\<rparr>"
  have R: "rk_refreshEvent r = Some ?t" "rk_refreshState r = REF_IDLE" "rk_pwrState r = PWR_IDLE"
    "rk_pwrStatePostRefresh r = PWR_IDLE" "rk_pwrStateTick r \<le> ?t" "rk_numBanksActive r = 0" "rk_outstandingEvents r = 0"
    "\<not> rk_inLowPowerState r" "rk_powerEvent r = None" "rk_activateEvent r = None" "\<not> en_requestEventScheduled e"
    "en_drainState e = Running" "\<not> dp_enableDRAMPowerdown d" "dp_tRFC d \<le> dp_tREFI d" "dp_tRFC d + dp_tRP d \<le> dp_tREFI d"
    using assms by (simp_all add: refresh_ready_def)
  have s1: "rank_step d W e r r1"
  proof (rule rank_step.refresh[OF R(1)])
    show "processRefreshEvent d e (r\<lparr>rk_refreshEvent := None\<rparr>) = ok r1"
      using R(2-4,6-13) by (simp add: processRefreshEvent_def refresh_begin_def refresh_drain_def refresh_pd_exit_def
          refresh_pre_def schedulePowerEvent_def schedule_def u8_def r1_def)
  qed
  define r2 where "r2 = r1\<lparr>rk_powerEvent := None, rk_pwrState := PWR_REF, rk_pwrStateTick := ?t,
    rk_s_pwrStateTime := (rk_s_pwrStateTime r)(PWR_IDLE := rk_s_pwrStateTime r PWR_IDLE + (?t - rk_pwrStateTick r)),
    rk_refreshEvent := Some ?t, rk_refreshState := REF_START\<rparr>"
  have s2: "rank_step d W e r1 r2"
  proof (rule rank_step.power[of r1 e _ r2 False])
    show "processPowerEvent d e (r1\<lparr>rk_powerEvent := None\<rparr>) = Inr (r2, False)"
      using R(3-5,12,13) by (simp add: processPowerEvent_def power_after_refresh_def power_idle_def power_refresh_def
          schedule_def Let_def r1_def r2_def isQueueEmpty_def)
  qed (simp add: r1_def)
  define r3 where "r3 = (flushCmdList ?t (log_cmd (Command REF 0 ?t)
      (map_banks (bk_actAllowedAt_update (\<lambda>_. ?t + dp_tRFC d)) (r2\<lparr>rk_refreshEvent := None\<rparr>))))
      \<lparr>rk_refreshDueAt := ?t + dp_tREFI d, rk_refreshState := REF_RUN, rk_refreshEvent := Some (?t + dp_tRFC d)\<rparr>"
  have s3: "rank_step d W e r2 r3"
  proof (rule rank_step.refresh)
    show "rk_refreshEvent r2 = Some ?t" by (simp add: r2_def)
    show "processRefreshEvent d e (r2\<lparr>rk_refreshEvent := None\<rparr>) = ok r3"
      using R(6,14) by (simp add: processRefreshEvent_def refresh_begin_def refresh_drain_def refresh_pd_exit_def
          refresh_start_def schedule_def Let_def flushCmdList_def r1_def r2_def r3_def)
  qed
  define r4 where "r4 = r3\<lparr>rk_pwrStateTrans := PWR_IDLE, rk_powerEvent := Some (?t + dp_tRFC d),
    rk_refreshEvent := Some (?t + dp_tREFI d - dp_tRP d)\<rparr>"
  have f3: "rk_refreshState r3 = REF_RUN" "rk_pwrState r3 = PWR_REF" "rk_numBanksActive r3 = 0" "rk_powerEvent r3 = None"
    "rk_pwrStatePostRefresh r3 = PWR_IDLE" "rk_refreshDueAt r3 = ?t + dp_tREFI d" "rk_outstandingEvents r3 = 1"
    "rk_refreshEvent r3 = Some (?t + dp_tRFC d)" "rk_pwrStateTick r3 = ?t" "rk_activateEvent r3 = None"
    "rk_banks r3 = map (bk_actAllowedAt_update (\<lambda>_. ?t + dp_tRFC d)) (rk_banks r)" "\<not> rk_inLowPowerState r3"
    using R by (simp_all add: r3_def r2_def r1_def flushCmdList_def)
  have sub: "sub64 (?t + dp_tREFI d) (dp_tRP d) = ?t + dp_tREFI d - dp_tRP d" using R(15) by (simp add: sub64_le)
  have s4: "rank_step d W ?e2 r3 r4"
  proof (rule rank_step.refresh)
    show "rk_refreshEvent r3 = Some (en_now ?e2)" by (simp add: f3)
    show "processRefreshEvent d ?e2 (r3\<lparr>rk_refreshEvent := None\<rparr>) = ok r4"
      using R(12,13,15) f3 by (simp add: processRefreshEvent_def refresh_begin_def refresh_drain_def refresh_pd_exit_def
          refresh_run_def schedulePowerEvent_def schedule_def sub isQueueEmpty_def r4_def)
  qed
  define r5 where "r5 = r4\<lparr>rk_powerEvent := None, rk_pwrState := PWR_IDLE, rk_pwrStateTick := ?t + dp_tRFC d,
    rk_s_pwrStateTime := (rk_s_pwrStateTime r4)(PWR_REF := rk_s_pwrStateTime r4 PWR_REF + dp_tRFC d),
    rk_outstandingEvents := 0, rk_refreshState := REF_IDLE\<rparr>"
  have s5: "rank_step d W ?e2 r4 r5"
  proof (rule rank_step.power[of r4 ?e2 _ r5 True])
    show "processPowerEvent d ?e2 (r4\<lparr>rk_powerEvent := None\<rparr>) = Inr (r5, True)"
      using R(11) f3 by (simp add: processPowerEvent_def power_after_refresh_def power_idle_def power_refresh_def
          Let_def r4_def r5_def)
  qed (simp add: r4_def)
  have "refresh_done d ?t r r5" using f3 by (simp add: refresh_done_def r5_def r4_def)
  then show ?thesis using s1 s2 s3 s4 s5 f3(2) by blast
qed

text \<open>A rank just after its construction, with its first refresh due.\<close>

definition example_env :: "tick \<Rightarrow> rank_env" where
  "example_env t = \<lparr>en_now = t, en_busStateNext = BUS_READ, en_requestEventScheduled = False,
     en_respondEventScheduled = False, en_drainState = Running, en_activeRank = 0\<rparr>"

definition example_rank :: dram_rank where
  "example_rank = (Rank_new 16 4 2 1)\<lparr>rk_refreshEvent := Some 3886\<rparr>"

theorem no_burst_while_refreshing_witness:
  "rank_reachable example_dram_params 10 example_rank \<and>
   (rk_pwrState example_rank = PWR_REF) = (rk_refreshState example_rank = REF_START \<or> rk_refreshState example_rank = REF_RUN)"
proof -
  have "rank_startup 0 (Rank_new 16 4 2 1) 3886 = Inr example_rank"
    by (simp add: rank_startup_def schedule_def example_rank_def Rank_new_def)
  then have r: "rank_reachable example_dram_params 10 example_rank" by (rule rank_reachable.start)
  then show ?thesis using no_burst_while_refreshing[OF r] by blast
qed

theorem refresh_completes_witness:
  "\<exists>r5. rk_refreshEvent example_rank = Some 3886 \<and> refresh_done example_dram_params 3886 example_rank r5"
proof -
  have "refresh_ready example_dram_params (example_env 3886) example_rank"
    by (simp add: refresh_ready_def example_env_def example_rank_def Rank_new_def example_dram_params_def)
  from refresh_completes[OF this, of 10] show ?thesis by (auto simp: example_env_def example_rank_def)
qed

end
