(* ===== verification/NVM_Interface.thy ===== *)
theory NVM_Interface
  imports Dram_State Request_Queues
begin

text \<open>
  The non-volatile memory of \<open>mem/mem_interface.{hh,cc}\<close> (\<open>NVMInterface\<close>).  A read is issued to the
  media (\<open>chooseRead\<close>), its data becomes ready later (\<open>processReadReadyEvent\<close>) and a burst transfers
  it; a write is transferred first and occupies a slot of the write response queue until the media is
  done (\<open>processWriteRespondEvent\<close>).  Shown: the counters of pending and ready reads agree with the
  read ready queue, the write response queue is sorted and bounded, both events are scheduled at the
  earliest entry of their queues, and no operation fails an assertion.
\<close>

section \<open>State\<close>

definition u16 :: "nat \<Rightarrow> nat" where "u16 n = n mod 2 ^ 16"

record nvm_params =
  np_iface :: mem_interface
  np_maxCommandsPerWindow :: nat
  np_tCK :: tick
  np_tCS :: tick
  np_tBURST :: tick
  np_tRTW :: tick
  np_tWTR :: tick
  np_maxPendingWrites :: nat
  np_maxPendingReads :: nat
  np_twoCycleRdWr :: bool
  np_tREAD :: tick
  np_tWRITE :: tick
  np_tSEND :: tick

text \<open>A rank is its banks.\<close>

record nvm =
  nv_ranks :: "bank list list"
  nv_writeRespondEvent :: "tick option"
  nv_readReadyEvent :: "tick option"
  nv_writeRespQueue :: "tick list"
  nv_readReadyQueue :: "tick list"
  nv_nextReadAt :: tick
  nv_numPendingReads :: nat
  nv_numReadDataReady :: nat
  nv_numReadsToIssue :: nat
  nv_numWritesQueued :: nat
  nv_s_readBursts :: nat
  nv_s_writeBursts :: nat
  nv_s_bytesRead :: nat
  nv_s_bytesWritten :: nat
  nv_s_totMemAccLat :: nat
  nv_s_totQLat :: nat
  nv_s_totBusLat :: nat
  nv_s_perBankRdBursts :: "nat \<Rightarrow> nat"
  nv_s_perBankWrBursts :: "nat \<Rightarrow> nat"

definition nvm_Rank_new :: "nat \<Rightarrow> bank list" where
  "nvm_Rank_new banks_per_rank = map (\<lambda>b. Bank_new\<lparr>bk_bank := u8 b, bk_bankgr := u8 b\<rparr>) [0..<banks_per_rank]"

definition nvm_start :: "nat \<Rightarrow> nat \<Rightarrow> nvm" where
  "nvm_start ranks banks = \<lparr>nv_ranks = map (\<lambda>_. nvm_Rank_new banks) [0..<ranks], nv_writeRespondEvent = None,
     nv_readReadyEvent = None, nv_writeRespQueue = [], nv_readReadyQueue = [], nv_nextReadAt = 0, nv_numPendingReads = 0,
     nv_numReadDataReady = 0, nv_numReadsToIssue = 0, nv_numWritesQueued = 0, nv_s_readBursts = 0, nv_s_writeBursts = 0,
     nv_s_bytesRead = 0, nv_s_bytesWritten = 0, nv_s_totMemAccLat = 0, nv_s_totQLat = 0, nv_s_totBusLat = 0,
     nv_s_perBankRdBursts = (\<lambda>_. 0), nv_s_perBankWrBursts = (\<lambda>_. 0)\<rparr>"

definition nvm_writeToReadDelay :: "nvm_params \<Rightarrow> tick" where "nvm_writeToReadDelay d = np_tBURST d + np_tWTR d"
definition nvm_readToWriteDelay :: "nvm_params \<Rightarrow> tick" where "nvm_readToWriteDelay d = np_tBURST d + np_tRTW d"
definition nvm_rankToRankDelay :: "nvm_params \<Rightarrow> tick" where "nvm_rankToRankDelay d = np_tBURST d + np_tCS d"
definition nvm_commandOffset :: "nvm_params \<Rightarrow> tick" where "nvm_commandOffset d = np_tBURST d"

section \<open>Queries\<close>

definition writeRespQueueFull :: "nvm_params \<Rightarrow> nvm \<Rightarrow> bool" where
  "writeRespQueueFull d s \<longleftrightarrow> length (nv_writeRespQueue s) = np_maxPendingWrites d"

definition readsWaitingToIssue :: "nvm_params \<Rightarrow> nvm \<Rightarrow> bool" where
  "readsWaitingToIssue d s \<longleftrightarrow> nv_numReadsToIssue s \<noteq> 0 \<and> nv_numPendingReads s < np_maxPendingReads d"

definition nvm_allRanksDrained :: "nvm \<Rightarrow> bool" where
  "nvm_allRanksDrained s \<longleftrightarrow> nv_writeRespQueue s = []"

text \<open>\<open>next\<close> is the direction of the next burst.\<close>

definition nvm_burstReady :: "nvm_params \<Rightarrow> tick \<Rightarrow> bus_state \<Rightarrow> nvm \<Rightarrow> mem_packet \<Rightarrow> bool" where
  "nvm_burstReady d now next s pkt \<longleftrightarrow>
     (mp_read pkt \<and> next = BUS_READ \<and> mp_readyTime pkt \<le> now \<and> 0 < nv_numReadDataReady s) \<or>
     (\<not> mp_read pkt \<and> next \<noteq> BUS_READ \<and> \<not> writeRespQueueFull d s)"

definition nvm_isBusy :: "nvm_params \<Rightarrow> bus_state \<Rightarrow> nvm \<Rightarrow> bool \<Rightarrow> bool \<Rightarrow> bool" where
  "nvm_isBusy d next s read_queue_empty all_writes_nvm =
     (if next = BUS_READ then nv_numReadDataReady s = 0 \<and> \<not> read_queue_empty
      else writeRespQueueFull d s \<and> read_queue_empty \<and> all_writes_nvm)"

section \<open>Operations\<close>

definition nvm_setupRank :: "nvm \<Rightarrow> bool \<Rightarrow> nvm" where
  "nvm_setupRank s is_read =
     (if is_read then s\<lparr>nv_numReadsToIssue := u16 (nv_numReadsToIssue s + 1)\<rparr>
      else s\<lparr>nv_numWritesQueued := u32 (nv_numWritesQueued s + 1)\<rparr>)"

text \<open>The choice: the index of the packet (none is \<open>queue.end()\<close>), the column tick, found a prepped one.\<close>

fun nvm_choose_loop ::
  "nvm_params \<Rightarrow> tick \<Rightarrow> bus_state \<Rightarrow> nvm \<Rightarrow> tick \<Rightarrow> nat \<Rightarrow> mem_packet list \<Rightarrow> nat option \<times> tick \<times> bool \<Rightarrow> nat option \<times> tick" where
  "nvm_choose_loop d now next s min_col_at n [] (sel, col, found) = (sel, col)"
| "nvm_choose_loop d now next s min_col_at n (p # ps) (sel, col, found) =
     (if mp_dram p then nvm_choose_loop d now next s min_col_at (n + 1) ps (sel, col, found)
      else let b = nv_ranks s ! mp_rank p ! mp_bank p;
               col_allowed_at = (if mp_read p then bk_rdAllowedAt b else bk_wrAllowedAt b) in
        if nvm_burstReady d now next s p
        then if col_allowed_at \<le> min_col_at then (Some n, col_allowed_at)
             else if \<not> found then nvm_choose_loop d now next s min_col_at (n + 1) ps (Some n, col_allowed_at, True)
             else nvm_choose_loop d now next s min_col_at (n + 1) ps (sel, col, found)
        else nvm_choose_loop d now next s min_col_at (n + 1) ps (sel, col, found))"

definition nvm_chooseNextFRFCFS ::
  "nvm_params \<Rightarrow> tick \<Rightarrow> bus_state \<Rightarrow> nvm \<Rightarrow> mem_packet list \<Rightarrow> tick \<Rightarrow> nat option \<times> tick" where
  "nvm_chooseNextFRFCFS d now next s queue min_col_at =
     nvm_choose_loop d now next s min_col_at 0 queue (None, MaxTick, False)"

definition upd_nvm_bank :: "nat \<Rightarrow> nat \<Rightarrow> bank \<Rightarrow> nvm \<Rightarrow> nvm" where
  "upd_nvm_bank r b k s = s\<lparr>nv_ranks := (nv_ranks s)[r := (nv_ranks s ! r)[b := k]]\<rparr>"

text \<open>A read packet whose read command has not been issued.\<close>

definition unissued :: "mem_packet \<Rightarrow> bool" where
  "unissued p \<longleftrightarrow> mp_readyTime p = MaxTick \<and> \<not> mp_dram p \<and> mp_read p"

text \<open>The bank after a read command: another row is buffered first.\<close>

definition read_bank :: "nvm_params \<Rightarrow> nat \<Rightarrow> tick \<Rightarrow> bank \<Rightarrow> bank" where
  "read_bank d row cmd_at k0 =
     (let k = k0\<lparr>bk_bytesAccessed := bk_bytesAccessed k0 + mi_burstSize (np_iface d)\<rparr> in
      if bk_openRow k \<noteq> row
      then k\<lparr>bk_openRow := row, bk_bytesAccessed := 0, bk_actAllowedAt := max cmd_at (bk_actAllowedAt k) + np_tREAD d\<rparr>
      else k)"

text \<open>The read ready event is moved to the earliest data.\<close>

definition read_ready_event :: "tick \<Rightarrow> nvm \<Rightarrow> tick \<Rightarrow> nvm result" where
  "read_ready_event now s ready =
     (if nv_readReadyQueue s = []
      then rbind (schedule now (nv_readReadyEvent s) ready) (\<lambda>ev. Inr (s\<lparr>nv_readReadyEvent := ev\<rparr>))
      else case nv_readReadyEvent s of
          None \<Rightarrow> Inl AssertFail
        | Some w \<Rightarrow> if ready < w then rbind (reschedule now (Some w) ready) (\<lambda>ev. Inr (s\<lparr>nv_readReadyEvent := ev\<rparr>))
                    else Inr s)"

text \<open>\<open>chooseRead\<close>: the queue comes back with the ready time of the issued read.\<close>

definition chooseRead ::
  "nvm_params \<Rightarrow> tick \<Rightarrow> tick \<Rightarrow> burst_ticks \<Rightarrow> nvm \<Rightarrow> mem_packet list \<Rightarrow> (burst_ticks \<times> nvm \<times> mem_packet list) run" where
  "chooseRead d W now B s0 queue =
     (if queue = [] then failed AssertFail
      else if \<not> 0 < nv_numReadsToIssue s0 then failed AssertFail
      else let s = s0\<lparr>nv_numReadsToIssue := nv_numReadsToIssue s0 - 1\<rparr> in
        case first_idx (\<lambda>i. unissued (queue ! i)) (length queue) of None \<Rightarrow> ok (B, s, queue)
        | Some i \<Rightarrow>
          let pkt = queue ! i; rank0 = mp_rank pkt; b = mp_bank pkt in
          if \<not> (rank0 < length (nv_ranks s) \<and> b < length (nv_ranks s ! rank0)) then failed OutOfBounds
          else let s1 = s\<lparr>nv_numPendingReads := u16 (nv_numPendingReads s + 1)\<rparr>; t = max now (nv_nextReadAt s) in
            if \<not> nv_numPendingReads s1 \<le> np_maxPendingReads d then failed AssertFail
            else obind (if np_twoCycleRdWr d then verifyMultiCmd W B t (np_maxCommandsPerWindow d) (np_tCK d)
                        else verifySingleCmd W B t (np_maxCommandsPerWindow d)) (\<lambda>(B', cmd_at).
              let k = read_bank d (mp_row pkt) cmd_at (nv_ranks s1 ! rank0 ! b);
                  s2 = upd_nvm_bank rank0 b k (s1\<lparr>nv_nextReadAt := cmd_at + np_tCK d\<rparr>);
                  ready = max cmd_at (bk_actAllowedAt k)
              in Some (rbind (read_ready_event now s2 ready) (\<lambda>s3.
                   Inr (B', s3\<lparr>nv_readReadyQueue := nv_readReadyQueue s3 @ [ready]\<rparr>,
                        queue[i := pkt\<lparr>mp_readyTime := ready\<rparr>])))))"

text \<open>The scan of the read ready queue: index and tick of the earliest entry, and the next tick.\<close>

fun ready_scan :: "tick list \<Rightarrow> nat \<Rightarrow> nat \<times> tick \<times> tick \<Rightarrow> nat \<times> tick \<times> tick" where
  "ready_scan [] i st = st"
| "ready_scan (t # ts) i (ready_it, ready_at, next_ready_at) =
     ready_scan ts (i + 1)
       (if t < ready_at then (i, t, ready_at)
        else if t < next_ready_at \<and> i \<noteq> ready_it then (ready_it, ready_at, t)
        else (ready_it, ready_at, next_ready_at))"

definition erase_at :: "nat \<Rightarrow> 'a list \<Rightarrow> 'a list" where
  "erase_at i xs = take i xs @ drop (Suc i) xs"

text \<open>The two event handlers also say whether they restart the controller's scheduler.\<close>

definition processReadReadyEvent :: "tick \<Rightarrow> bool \<Rightarrow> nvm \<Rightarrow> (nvm \<times> bool) result" where
  "processReadReadyEvent now requestEventScheduled s0 =
     (let s = s0\<lparr>nv_numReadDataReady := u16 (nv_numReadDataReady s0 + 1)\<rparr>; queue = nv_readReadyQueue s in
      if queue = [] then Inl OutOfBounds
      else let (ready_it, ready_at, next_ready_at) = ready_scan queue 0 (0, queue ! 0, MaxTick) in
        if ready_at \<noteq> now then Inl AssertFail
        else let s1 = s\<lparr>nv_readReadyQueue := erase_at ready_it queue\<rparr> in
          rbind (if nv_readReadyQueue s1 = [] then Inr s1
                 else if \<not> now \<le> hd (nv_readReadyQueue s1) then Inl AssertFail
                 else rbind (schedule now (nv_readReadyEvent s1) next_ready_at) (\<lambda>ev. Inr (s1\<lparr>nv_readReadyEvent := ev\<rparr>)))
            (\<lambda>s2. Inr (s2, \<not> requestEventScheduled)))"

text \<open>The banks after a burst on rank \<open>rank0\<close>.\<close>

definition nvm_col_bank :: "nvm_params \<Rightarrow> bool \<Rightarrow> bool \<Rightarrow> tick \<Rightarrow> bank \<Rightarrow> bank" where
  "nvm_col_bank d same_rank is_read cmd_at k =
     (let dly_to_rd_cmd = (if same_rank then if is_read then np_tBURST d else nvm_writeToReadDelay d else nvm_rankToRankDelay d);
          dly_to_wr_cmd = (if same_rank then if is_read then nvm_readToWriteDelay d else np_tBURST d else nvm_rankToRankDelay d)
      in k\<lparr>bk_rdAllowedAt := max (cmd_at + dly_to_rd_cmd) (bk_rdAllowedAt k),
           bk_wrAllowedAt := max (cmd_at + dly_to_wr_cmd) (bk_wrAllowedAt k)\<rparr>)"

definition nvm_col_update :: "nvm_params \<Rightarrow> nat \<Rightarrow> bool \<Rightarrow> tick \<Rightarrow> bank list list \<Rightarrow> bank list list" where
  "nvm_col_update d rank0 is_read cmd_at ranks =
     map (\<lambda>j. map (nvm_col_bank d (rank0 = j) is_read cmd_at) (ranks ! j)) [0..<length ranks]"

text \<open>The bank after a write: the commands of a bank complete one after the other.\<close>

definition write_bank :: "nvm_params \<Rightarrow> mem_packet \<Rightarrow> bank \<Rightarrow> bank" where
  "write_bank d pkt k0 =
     (let k = k0\<lparr>bk_bytesAccessed := bk_bytesAccessed k0 + mi_burstSize (np_iface d)\<rparr>;
          k1 = (if bk_bank k = mp_bank pkt \<and> bk_openRow k \<noteq> mp_row pkt
                then k\<lparr>bk_openRow := mp_row pkt, bk_bytesAccessed := 0\<rparr> else k)
      in k1\<lparr>bk_actAllowedAt := max (mp_readyTime pkt) (bk_actAllowedAt k1) + np_tWRITE d\<rparr>)"

definition write_respond_event :: "nvm_params \<Rightarrow> tick \<Rightarrow> nvm \<Rightarrow> tick \<Rightarrow> nvm result" where
  "write_respond_event d now s done =
     (if writeRespQueueFull d s then Inl AssertFail
      else rbind (if nv_writeRespQueue s = [] then schedule now (nv_writeRespondEvent s) done
                  else if nv_writeRespondEvent s = None then Inl AssertFail else Inr (nv_writeRespondEvent s))
        (\<lambda>ev. let s1 = s\<lparr>nv_writeRespondEvent := ev, nv_writeRespQueue := sort (nv_writeRespQueue s @ [done])\<rparr> in
           case ev of None \<Rightarrow> Inl AssertFail
           | Some w \<Rightarrow> if done < w then rbind (reschedule now ev done) (\<lambda>ev'. Inr (s1\<lparr>nv_writeRespondEvent := ev'\<rparr>))
                       else Inr s1))"

definition nvm_burst_stats :: "nvm_params \<Rightarrow> nvm \<Rightarrow> mem_packet \<Rightarrow> tick \<Rightarrow> nvm" where
  "nvm_burst_stats d s pkt cmd_at =
     (if mp_read pkt
      then s\<lparr>nv_s_readBursts := nv_s_readBursts s + 1, nv_s_bytesRead := nv_s_bytesRead s + mi_burstSize (np_iface d),
             nv_s_perBankRdBursts := (nv_s_perBankRdBursts s)(mp_bankId pkt := nv_s_perBankRdBursts s (mp_bankId pkt) + 1),
             nv_s_totMemAccLat := nv_s_totMemAccLat s + sub64 (mp_readyTime pkt) (mp_entryTime pkt),
             nv_s_totBusLat := nv_s_totBusLat s + np_tBURST d,
             nv_s_totQLat := nv_s_totQLat s + sub64 cmd_at (mp_entryTime pkt)\<rparr>
      else s\<lparr>nv_s_writeBursts := nv_s_writeBursts s + 1, nv_s_bytesWritten := nv_s_bytesWritten s + mi_burstSize (np_iface d),
             nv_s_perBankWrBursts := (nv_s_perBankWrBursts s)(mp_bankId pkt := nv_s_perBankWrBursts s (mp_bankId pkt) + 1)\<rparr>)"

text \<open>The counters and the bank of the packet after its transfer.\<close>

definition nvm_transfer :: "nvm_params \<Rightarrow> tick \<Rightarrow> nvm \<Rightarrow> mem_packet \<Rightarrow> nvm result" where
  "nvm_transfer d now s pkt =
     (if mp_read pkt
      then if nv_numPendingReads s = 0 then Inl AssertFail
           else if nv_numReadDataReady s = 0 then Inl AssertFail
           else Inr (s\<lparr>nv_numPendingReads := nv_numPendingReads s - 1, nv_numReadDataReady := nv_numReadDataReady s - 1\<rparr>)
      else if \<not> 0 < nv_numWritesQueued s then Inl AssertFail
      else let k = write_bank d pkt (nv_ranks s ! mp_rank pkt ! mp_bank pkt);
               s1 = upd_nvm_bank (mp_rank pkt) (mp_bank pkt) k (s\<lparr>nv_numWritesQueued := nv_numWritesQueued s - 1\<rparr>)
           in write_respond_event d now s1 (bk_actAllowedAt k))"

definition nvm_doBurstAccess ::
  "nvm_params \<Rightarrow> tick \<Rightarrow> tick \<Rightarrow> burst_ticks \<Rightarrow> nvm \<Rightarrow> mem_packet \<Rightarrow> tick \<Rightarrow> (burst_ticks \<times> nvm \<times> mem_packet \<times> tick \<times> tick) run" where
  "nvm_doBurstAccess d W now B s pkt next_burst_at =
     (let rank0 = mp_rank pkt; b = mp_bank pkt in
      if \<not> (rank0 < length (nv_ranks s) \<and> b < length (nv_ranks s ! rank0)) then failed OutOfBounds
      else let k = nv_ranks s ! rank0 ! b;
               t = max (max (if mp_read pkt then bk_rdAllowedAt k else bk_wrAllowedAt k) now) next_burst_at in
        obind (if mp_read pkt \<or> \<not> np_twoCycleRdWr d then verifySingleCmd W B t (np_maxCommandsPerWindow d)
               else verifyMultiCmd W B t (np_maxCommandsPerWindow d) (np_tCK d)) (\<lambda>(B', cmd_at).
          let pkt1 = pkt\<lparr>mp_readyTime := cmd_at + np_tSEND d + np_tBURST d\<rparr>;
              s1 = s\<lparr>nv_ranks := nvm_col_update d rank0 (mp_read pkt) cmd_at (nv_ranks s)\<rparr>
          in Some (rbind (nvm_transfer d now s1 pkt1) (\<lambda>s2.
               Inr (B', nvm_burst_stats d s2 pkt1 cmd_at, pkt1, cmd_at, cmd_at + np_tBURST d)))))"

definition processWriteRespondEvent :: "tick \<Rightarrow> bool \<Rightarrow> nvm \<Rightarrow> (nvm \<times> bool) result" where
  "processWriteRespondEvent now requestEventScheduled s =
     (if nv_writeRespQueue s = [] then Inl OutOfBounds
      else let s1 = s\<lparr>nv_writeRespQueue := tl (nv_writeRespQueue s)\<rparr> in
        rbind (if nv_writeRespQueue s1 = [] then Inr s1
               else if \<not> now \<le> hd (nv_writeRespQueue s1) then Inl AssertFail
               else rbind (schedule now (nv_writeRespondEvent s1) (hd (nv_writeRespQueue s1)))
                      (\<lambda>ev. Inr (s1\<lparr>nv_writeRespondEvent := ev\<rparr>)))
          (\<lambda>s2. Inr (s2, \<not> requestEventScheduled)))"

definition nvm_addRankToRankDelay :: "nvm_params \<Rightarrow> nvm \<Rightarrow> tick \<Rightarrow> nvm" where
  "nvm_addRankToRankDelay d s cmd_at = s\<lparr>nv_ranks := map (map (\<lambda>k.
     k\<lparr>bk_rdAllowedAt := max (cmd_at + nvm_rankToRankDelay d) (bk_rdAllowedAt k),
       bk_wrAllowedAt := max (cmd_at + nvm_rankToRankDelay d) (bk_wrAllowedAt k)\<rparr>)) (nv_ranks s)\<rparr>"

section \<open>The read ready queue\<close>

definition scan_inv :: "tick list \<Rightarrow> nat \<times> tick \<times> tick \<Rightarrow> bool" where
  "scan_inv xs st \<longleftrightarrow> (case st of (r, ra, nx) \<Rightarrow> r < length xs \<and> ra = xs ! r \<and> (\<forall>t\<in>set xs. ra \<le> t) \<and>
     (\<forall>j<length xs. j \<noteq> r \<longrightarrow> nx \<le> xs ! j) \<and> (nx = MaxTick \<or> (\<exists>j<length xs. j \<noteq> r \<and> xs ! j = nx)))"

lemma scan_invD:
  assumes "scan_inv xs (r, ra, nx)"
  shows "r < length xs" "ra = xs ! r" "\<forall>u\<in>set xs. ra \<le> u" "\<forall>j<length xs. j \<noteq> r \<longrightarrow> nx \<le> xs ! j"
    "nx = MaxTick \<or> (\<exists>j<length xs. j \<noteq> r \<and> xs ! j = nx)"
  using assms unfolding scan_inv_def prod.case by blast+

lemma scan_inv_snoc:
  assumes "scan_inv xs (r, ra, nx)" "t \<le> MaxTick"
  shows "scan_inv (xs @ [t]) (if t < ra then (length xs, t, ra)
    else if t < nx \<and> length xs \<noteq> r then (r, ra, t) else (r, ra, nx))"
proof -
  note i = scan_invD[OF assms(1)]
  have le: "ra \<le> xs ! j" if "j < length xs" for j using i(3) that nth_mem by blast
  consider "t < ra" | "\<not> t < ra" "t < nx" | "\<not> t < ra" "\<not> t < nx" by blast
  then show ?thesis
  proof cases
    case 1
    have "\<forall>u\<in>set xs. t \<le> u" using i(3) 1 by fastforce
    moreover have "\<exists>j<Suc (length xs). j \<noteq> length xs \<and> (xs @ [t]) ! j = ra"
      using i(1,2) by (intro exI[of _ r]) (simp add: nth_append)
    ultimately show ?thesis using 1 le by (simp add: scan_inv_def nth_append less_Suc_eq)
  next
    case 2
    have "\<exists>j<Suc (length xs). j \<noteq> r \<and> (xs @ [t]) ! j = t"
      using i(1) by (intro exI[of _ "length xs"]) simp
    moreover have "\<forall>j<length xs. j \<noteq> r \<longrightarrow> t \<le> xs ! j" using i(4) 2(2) by fastforce
    ultimately show ?thesis using 2 i(1-3) by (simp add: scan_inv_def nth_append less_Suc_eq)
  next
    case 3
    have "nx = MaxTick \<or> (\<exists>j<Suc (length xs). j \<noteq> r \<and> (xs @ [t]) ! j = nx)"
      using i(5) by (auto simp: nth_append intro: less_SucI)
    then show ?thesis using 3 i(1-4) by (simp add: scan_inv_def nth_append less_Suc_eq)
  qed
qed

lemma ready_scan_inv:
  assumes "scan_inv xs st" "\<forall>t\<in>set ts. t \<le> MaxTick"
  shows "scan_inv (xs @ ts) (ready_scan ts (length xs) st)"
  using assms
proof (induction ts arbitrary: xs st)
  case (Cons t ts)
  obtain r ra nx where st: "st = (r, ra, nx)" by (cases st)
  have t: "t \<le> MaxTick" "\<forall>u\<in>set ts. u \<le> MaxTick" using Cons.prems(2) by simp_all
  from Cons.IH[OF scan_inv_snoc[OF Cons.prems(1)[unfolded st] t(1)] t(2)] show ?case by (simp add: st)
qed simp

lemma ready_scan_all:
  assumes "xs \<noteq> []" "\<forall>t\<in>set xs. t \<le> MaxTick"
  shows "scan_inv xs (ready_scan xs 0 (0, xs ! 0, MaxTick))"
proof -
  obtain t ts where xs: "xs = t # ts" using assms(1) by (cases xs) auto
  have "scan_inv [t] (0, t, MaxTick)" by (simp add: scan_inv_def)
  from ready_scan_inv[OF this, of ts] show ?thesis using assms(2) by (simp add: xs)
qed

lemma length_erase_at: "i < length xs \<Longrightarrow> length (erase_at i xs) = length xs - 1"
  by (simp add: erase_at_def)

lemma mset_erase_at: "i < length xs \<Longrightarrow> mset xs = add_mset (xs ! i) (mset (erase_at i xs))"
proof -
  assume "i < length xs"
  then have "xs = take i xs @ xs ! i # drop (Suc i) xs" by (rule id_take_nth_drop)
  then show ?thesis unfolding erase_at_def by (metis add_mset_add_single mset.simps(2) mset_append union_mset_add_mset_right)
qed

lemma set_erase_at:
  assumes "i < length xs"
  shows "set (erase_at i xs) = {xs ! j |j. j < length xs \<and> j \<noteq> i}"
proof -
  have "set (take i xs) = {xs ! j |j. j < i}" using assms by (simp add: set_conv_nth min_def) force
  moreover have "set (drop (Suc i) xs) = {xs ! j |j. j < length xs \<and> i < j}"
  proof (intro equalityI subsetI)
    fix x assume "x \<in> set (drop (Suc i) xs)"
    then obtain k where "k < length xs - Suc i" "x = xs ! (Suc i + k)" by (auto simp: in_set_conv_nth)
    then show "x \<in> {xs ! j |j. j < length xs \<and> i < j}" by (intro CollectI exI[of _ "Suc i + k"]) simp
  next
    fix x assume "x \<in> {xs ! j |j. j < length xs \<and> i < j}"
    then obtain j where "x = xs ! j" "j < length xs" "i < j" by blast
    then show "x \<in> set (drop (Suc i) xs)" using assms
      by (auto simp: in_set_conv_nth intro!: exI[of _ "j - Suc i"])
  qed
  ultimately show ?thesis unfolding erase_at_def using assms by (auto simp: nat_neq_iff)
qed

text \<open>The scan finds the earliest entry and, when there are more, the earliest of the others.\<close>

lemma ready_scan_spec:
  assumes "ready_scan xs 0 (0, xs ! 0, MaxTick) = (r, ra, nx)" "xs \<noteq> []" "\<forall>t\<in>set xs. t \<le> MaxTick"
  shows "r < length xs" "ra = xs ! r" "ra = Min (set xs)" "\<forall>t\<in>set (erase_at r xs). ra \<le> t"
    "erase_at r xs \<noteq> [] \<Longrightarrow> nx = Min (set (erase_at r xs))"
proof -
  note i = scan_invD[OF ready_scan_all[OF assms(2,3), unfolded assms(1)]]
  note e = set_erase_at[OF i(1)]
  show "r < length xs" "ra = xs ! r" by (fact i)+
  have "ra \<in> set xs" using i(1,2) by simp
  then show "ra = Min (set xs)" using i(3) Min_eqI[of "set xs" ra] by simp
  show "\<forall>t\<in>set (erase_at r xs). ra \<le> t" using i(3) e by auto
  assume "erase_at r xs \<noteq> []"
  then have ne: "set (erase_at r xs) \<noteq> {}" by simp
  then obtain j where j: "j < length xs" "j \<noteq> r" "xs ! j \<in> set (erase_at r xs)" unfolding e by blast
  have lower: "\<forall>t\<in>set (erase_at r xs). nx \<le> t" using i(4) e by auto
  have "nx \<in> set (erase_at r xs)"
  proof (cases "nx = MaxTick")
    case True
    then have "xs ! j = nx" using i(4) j(1,2) assms(3) by (meson nth_mem order_antisym)
    then show ?thesis using j(3) by simp
  next
    case False
    then show ?thesis using i(5) e by auto
  qed
  then show "nx = Min (set (erase_at r xs))" using lower Min_eqI[of "set (erase_at r xs)" nx] by simp
qed

section \<open>Invariant\<close>

text \<open>Every pending read either waits for its data in the read ready queue or is counted ready.\<close>

definition nvm_wf :: "nvm_params \<Rightarrow> nvm \<Rightarrow> bool" where
  "nvm_wf d s \<longleftrightarrow> sorted (nv_writeRespQueue s) \<and> length (nv_writeRespQueue s) \<le> np_maxPendingWrites d \<and>
     nv_writeRespondEvent s = (if nv_writeRespQueue s = [] then None else Some (hd (nv_writeRespQueue s))) \<and>
     nv_readReadyEvent s = (if nv_readReadyQueue s = [] then None else Some (Min (set (nv_readReadyQueue s)))) \<and>
     nv_numPendingReads s = nv_numReadDataReady s + length (nv_readReadyQueue s) \<and>
     nv_numPendingReads s \<le> np_maxPendingReads d"

definition nvm_params_ok :: "nvm_params \<Rightarrow> tick \<Rightarrow> burst_ticks \<Rightarrow> bool" where
  "nvm_params_ok d W B \<longleftrightarrow> 0 < W \<and> 0 < np_maxCommandsPerWindow d \<and>
     (\<forall>t. count B t \<le> np_maxCommandsPerWindow d) \<and> np_maxPendingReads d < 2 ^ 16"

definition nvm_in_range :: "nvm \<Rightarrow> mem_packet \<Rightarrow> bool" where
  "nvm_in_range s p \<longleftrightarrow> mp_rank p < length (nv_ranks s) \<and> mp_bank p < length (nv_ranks s ! mp_rank p)"

text \<open>The operations the controller and the event queue call; an event fires at its tick, unscheduled.\<close>

datatype nvm_op = Setup_Rank bool | Issue_Read "mem_packet list" | Transfer mem_packet tick
  | Read_Data_Ready bool | Write_Done bool | Burst_Elsewhere tick

fun nvm_exec :: "nvm_params \<Rightarrow> tick \<Rightarrow> tick \<Rightarrow> burst_ticks \<Rightarrow> nvm \<Rightarrow> nvm_op \<Rightarrow> (burst_ticks \<times> nvm) run" where
  "nvm_exec d W now B s (Setup_Rank is_read) = ok (B, nvm_setupRank s is_read)"
| "nvm_exec d W now B s (Issue_Read queue) = obind (chooseRead d W now B s queue) (\<lambda>(B', s', _). ok (B', s'))"
| "nvm_exec d W now B s (Transfer pkt next_burst_at) =
     obind (nvm_doBurstAccess d W now B s pkt next_burst_at) (\<lambda>(B', s', _). ok (B', s'))"
| "nvm_exec d W now B s (Read_Data_Ready req) =
     Some (rbind (processReadReadyEvent now req (s\<lparr>nv_readReadyEvent := None\<rparr>)) (\<lambda>(s', _). Inr (B, s')))"
| "nvm_exec d W now B s (Write_Done req) =
     Some (rbind (processWriteRespondEvent now req (s\<lparr>nv_writeRespondEvent := None\<rparr>)) (\<lambda>(s', _). Inr (B, s')))"
| "nvm_exec d W now B s (Burst_Elsewhere cmd_at) = ok (B, nvm_addRankToRankDelay d s cmd_at)"

text \<open>When they are called: a read is issued when \<open>readsWaitingToIssue\<close>, a packet is transferred when
  \<open>burstReady\<close>; ticks have not passed 2^64.\<close>

fun nvm_legal :: "nvm_params \<Rightarrow> tick \<Rightarrow> nvm \<Rightarrow> nvm_op \<Rightarrow> bool" where
  "nvm_legal d now s (Setup_Rank is_read) = True"
| "nvm_legal d now s (Issue_Read queue) = (queue \<noteq> [] \<and> readsWaitingToIssue d s \<and> list_all (nvm_in_range s) queue)"
| "nvm_legal d now s (Transfer pkt next_burst_at) =
     (nvm_in_range s pkt \<and> (if mp_read pkt then nvm_burstReady d now BUS_READ s pkt
        else nvm_burstReady d now BUS_WRITE s pkt \<and> 0 < nv_numWritesQueued s))"
| "nvm_legal d now s (Read_Data_Ready req) =
     (nv_readReadyEvent s = Some now \<and> list_all (\<lambda>t. t \<le> MaxTick) (nv_readReadyQueue s))"
| "nvm_legal d now s (Write_Done req) = (nv_writeRespondEvent s = Some now)"
| "nvm_legal d now s (Burst_Elsewhere cmd_at) = True"

inductive nvm_reachable :: "nvm_params \<Rightarrow> tick \<Rightarrow> burst_ticks \<Rightarrow> nvm \<Rightarrow> bool" for d W where
  start: "nvm_reachable d W {#} (nvm_start ranks banks)"
| step: "nvm_reachable d W B s \<Longrightarrow> nvm_legal d now s op \<Longrightarrow> nvm_exec d W now B s op = ok (B', s') \<Longrightarrow>
    nvm_reachable d W B' s'"

section \<open>Every operation keeps the invariant\<close>

lemma nvm_wf_cong:
  assumes "nv_writeRespQueue s' = nv_writeRespQueue s" "nv_writeRespondEvent s' = nv_writeRespondEvent s"
    "nv_readReadyQueue s' = nv_readReadyQueue s" "nv_readReadyEvent s' = nv_readReadyEvent s"
    "nv_numPendingReads s' = nv_numPendingReads s" "nv_numReadDataReady s' = nv_numReadDataReady s"
  shows "nvm_wf d s' = nvm_wf d s"
  by (simp add: nvm_wf_def assms)

lemma nvm_wf_start: "nvm_wf d (nvm_start ranks banks)"
  by (simp add: nvm_wf_def nvm_start_def)

lemma upd_nvm_bank_fields [simp]:
  "nv_writeRespQueue (upd_nvm_bank r b k s) = nv_writeRespQueue s" "nv_readReadyQueue (upd_nvm_bank r b k s) = nv_readReadyQueue s"
  "nv_writeRespondEvent (upd_nvm_bank r b k s) = nv_writeRespondEvent s" "nv_readReadyEvent (upd_nvm_bank r b k s) = nv_readReadyEvent s"
  "nv_numPendingReads (upd_nvm_bank r b k s) = nv_numPendingReads s" "nv_numReadDataReady (upd_nvm_bank r b k s) = nv_numReadDataReady s"
  by (simp_all add: upd_nvm_bank_def)

lemma nvm_burst_stats_fields [simp]:
  "nv_writeRespQueue (nvm_burst_stats d s p t) = nv_writeRespQueue s" "nv_readReadyQueue (nvm_burst_stats d s p t) = nv_readReadyQueue s"
  "nv_writeRespondEvent (nvm_burst_stats d s p t) = nv_writeRespondEvent s" "nv_readReadyEvent (nvm_burst_stats d s p t) = nv_readReadyEvent s"
  "nv_numPendingReads (nvm_burst_stats d s p t) = nv_numPendingReads s" "nv_numReadDataReady (nvm_burst_stats d s p t) = nv_numReadDataReady s"
  by (simp_all add: nvm_burst_stats_def)

lemma nvm_issue_ok:
  assumes "nvm_params_ok d W B"
  shows "\<exists>B' at. (if two then verifyMultiCmd W B t (np_maxCommandsPerWindow d) x
      else verifySingleCmd W B t (np_maxCommandsPerWindow d)) = ok (B', at) \<and> t \<le> at \<and> nvm_params_ok d W B'"
proof -
  have p: "0 < W" "0 < np_maxCommandsPerWindow d" "\<forall>t. count B t \<le> np_maxCommandsPerWindow d"
    using assms by (simp_all add: nvm_params_ok_def)
  show ?thesis
  proof (cases two)
    case True
    then show ?thesis using verifyMultiCmd_spec[OF p, of t x] assms unfolding nvm_params_ok_def by auto
  next
    case False
    then show ?thesis using verifySingleCmd_spec[OF p, of t] assms unfolding nvm_params_ok_def by auto
  qed
qed

lemma read_ready_event_ok:
  assumes "nvm_wf d s0" "nv_readReadyQueue s = nv_readReadyQueue s0" "nv_readReadyEvent s = nv_readReadyEvent s0" "now \<le> ready"
  shows "\<exists>ev. read_ready_event now s ready = Inr (s\<lparr>nv_readReadyEvent := ev\<rparr>) \<and>
    ev = Some (Min (set (nv_readReadyQueue s @ [ready])))"
proof (cases "nv_readReadyQueue s = []")
  case True
  then show ?thesis using assms by (simp add: read_ready_event_def nvm_wf_def schedule_def)
next
  case False
  define m where "m = Min (set (nv_readReadyQueue s))"
  have e: "nv_readReadyEvent s = Some m" using assms False by (simp add: nvm_wf_def m_def)
  have "Min (set (nv_readReadyQueue s @ [ready])) = min ready m" using False by (simp add: m_def)
  moreover have "read_ready_event now s ready = Inr (s\<lparr>nv_readReadyEvent := Some (min ready m)\<rparr>)"
  proof (cases "ready < m")
    case True
    then show ?thesis using False e assms(4) by (simp add: read_ready_event_def reschedule_def)
  next
    case b: False
    then have "read_ready_event now s ready = Inr (s\<lparr>nv_readReadyEvent := nv_readReadyEvent s\<rparr>)"
      using False e by (simp add: read_ready_event_def)
    then show ?thesis using b unfolding e by (simp add: min_def)
  qed
  ultimately show ?thesis by simp
qed

lemma chooseRead_ok:
  assumes "nvm_wf d s" "nvm_params_ok d W B" "queue \<noteq> []" "readsWaitingToIssue d s" "list_all (nvm_in_range s) queue"
  shows "\<exists>B' s' q'. chooseRead d W now B s queue = ok (B', s', q') \<and> nvm_wf d s' \<and> nvm_params_ok d W B'"
proof (cases "first_idx (\<lambda>i. unissued (queue ! i)) (length queue)")
  case None
  then show ?thesis using assms nvm_wf_cong[of "s\<lparr>nv_numReadsToIssue := nv_numReadsToIssue s - 1\<rparr>" s d]
    by (simp add: chooseRead_def readsWaitingToIssue_def Let_def)
next
  case (Some i)
  define p where "p = queue ! i"
  have "i < length queue" using first_idx_SomeD(1)[OF Some] .
  then have r: "mp_rank p < length (nv_ranks s)" "mp_bank p < length (nv_ranks s ! mp_rank p)"
    using assms(5) by (simp_all add: p_def list_all_length nvm_in_range_def)
  have w: "0 < nv_numReadsToIssue s" "nv_numPendingReads s < np_maxPendingReads d" "np_maxPendingReads d < 65536"
    using assms(2,4) by (simp_all add: readsWaitingToIssue_def nvm_params_ok_def)
  then have u: "u16 (nv_numPendingReads s + 1) = nv_numPendingReads s + 1" by (simp add: u16_def)
  define s1 where "s1 = s\<lparr>nv_numReadsToIssue := nv_numReadsToIssue s - 1, nv_numPendingReads := nv_numPendingReads s + 1\<rparr>"
  let ?t = "max now (nv_nextReadAt s)"
  obtain B' at where i: "(if np_twoCycleRdWr d then verifyMultiCmd W B ?t (np_maxCommandsPerWindow d) (np_tCK d)
      else verifySingleCmd W B ?t (np_maxCommandsPerWindow d)) = ok (B', at)" "?t \<le> at" "nvm_params_ok d W B'"
    using nvm_issue_ok[OF assms(2)] by blast
  define k where "k = read_bank d (mp_row p) at (nv_ranks s ! mp_rank p ! mp_bank p)"
  define s2 where "s2 = upd_nvm_bank (mp_rank p) (mp_bank p) k (s1\<lparr>nv_nextReadAt := at + np_tCK d\<rparr>)"
  define ready where "ready = max at (bk_actAllowedAt k)"
  have "now \<le> ready" using i(2) by (simp add: ready_def le_max_iff_disj)
  from read_ready_event_ok[OF assms(1) _ _ this, of s2] obtain ev where
    ev: "read_ready_event now s2 ready = Inr (s2\<lparr>nv_readReadyEvent := ev\<rparr>)" "ev = Some (Min (set (nv_readReadyQueue s2 @ [ready])))"
    by (auto simp: s2_def s1_def)
  have c: "chooseRead d W now B s queue = ok (B', s2\<lparr>nv_readReadyEvent := ev, nv_readReadyQueue := nv_readReadyQueue s2 @ [ready]\<rparr>,
      queue[i := p\<lparr>mp_readyTime := ready\<rparr>])"
    using assms(3) w(1,2) r i(1) ev(1) unfolding s2_def s1_def k_def ready_def p_def
    by (simp add: chooseRead_def Let_def Some u[simplified])
  have "nvm_wf d (s2\<lparr>nv_readReadyEvent := ev, nv_readReadyQueue := nv_readReadyQueue s2 @ [ready]\<rparr>)"
    using assms(1) w(2) by (simp add: nvm_wf_def s2_def s1_def ev(2) split: if_splits)
  then show ?thesis using c i(3) by blast
qed

lemma processReadReadyEvent_ok:
  assumes "nvm_wf d s" "np_maxPendingReads d < 2 ^ 16" "nv_readReadyEvent s = Some now"
    and "list_all (\<lambda>t. t \<le> MaxTick) (nv_readReadyQueue s)"
  shows "\<exists>s'. processReadReadyEvent now req (s\<lparr>nv_readReadyEvent := None\<rparr>) = Inr (s', \<not> req) \<and> nvm_wf d s' \<and>
    mset (nv_readReadyQueue s) = add_mset now (mset (nv_readReadyQueue s'))"
proof -
  let ?q = "nv_readReadyQueue s"
  have q: "?q \<noteq> []" "now = Min (set ?q)" using assms(1,3) by (auto simp: nvm_wf_def split: if_splits)
  have mt: "\<forall>t\<in>set ?q. t \<le> MaxTick" using assms(4) by (simp add: list_all_iff)
  obtain r ra nx where sc: "ready_scan ?q 0 (0, ?q ! 0, MaxTick) = (r, ra, nx)" by (metis prod_cases3)
  note S = ready_scan_spec[OF sc q(1) mt]
  define q' where "q' = erase_at r ?q"
  define s1 where "s1 = s\<lparr>nv_readReadyEvent := if q' = [] then None else Some nx,
      nv_numReadDataReady := nv_numReadDataReady s + 1, nv_readReadyQueue := q'\<rparr>"
  have ra: "ra = now" using S(3) q(2) by simp
  have "nv_numReadDataReady s < nv_numPendingReads s" "nv_numPendingReads s < 65536"
    using assms(1,2) q(1) by (auto simp: nvm_wf_def)
  then have u: "u16 (Suc (nv_numReadDataReady s)) = Suc (nv_numReadDataReady s)" by (simp add: u16_def)
  have "now \<le> hd q'" "now \<le> nx" if "q' \<noteq> []"
    using S(4,5) that ra unfolding q'_def by (metis list.set_sel(1), metis List.finite_set Min_in set_empty)
  then have "processReadReadyEvent now req (s\<lparr>nv_readReadyEvent := None\<rparr>) = Inr (s1, \<not> req)"
    using q(1) sc ra by (auto simp: processReadReadyEvent_def Let_def u s1_def q'_def schedule_def)
  moreover have m: "mset ?q = add_mset now (mset q')" using mset_erase_at[OF S(1)] S(2) ra by (simp add: q'_def)
  moreover have "nvm_wf d s1"
    using assms(1) S(5) arg_cong[OF m, of size] by (simp add: nvm_wf_def s1_def q'_def split: if_splits)
  ultimately show ?thesis by (auto simp: s1_def)
qed

lemma processWriteRespondEvent_ok:
  assumes "nvm_wf d s" "nv_writeRespondEvent s = Some now"
  shows "\<exists>s'. processWriteRespondEvent now req (s\<lparr>nv_writeRespondEvent := None\<rparr>) = Inr (s', \<not> req) \<and> nvm_wf d s'"
proof -
  obtain q where q: "nv_writeRespQueue s = now # q" using assms
    by (cases "nv_writeRespQueue s") (auto simp: nvm_wf_def)
  then have "sorted (now # q)" using assms(1) by (simp add: nvm_wf_def)
  then have h: "q \<noteq> [] \<Longrightarrow> now \<le> hd q" by (cases q) auto
  show ?thesis using assms(1) q h
    by (cases q) (auto simp: processWriteRespondEvent_def Let_def nvm_wf_def schedule_def)
qed

lemma hd_sort_snoc: "sorted q \<Longrightarrow> q \<noteq> [] \<Longrightarrow> hd (sort (q @ [t])) = min t (hd (q :: nat list))"
proof -
  assume a: "sorted q" "q \<noteq> []"
  have "sort (q @ [t]) = insort t q"
    by (rule properties_for_sort) (simp_all add: a(1) sorted_insort)
  then show ?thesis using a by (cases q) (auto simp: min_def)
qed

lemma write_respond_event_ok:
  assumes "nvm_wf d s" "\<not> writeRespQueueFull d s" "now \<le> done"
  shows "\<exists>s'. write_respond_event d now s done = Inr s' \<and> nvm_wf d s'"
proof -
  let ?q = "nv_writeRespQueue s"
  have l: "length ?q < np_maxPendingWrites d" using assms(1,2) by (simp add: nvm_wf_def writeRespQueueFull_def)
  have sq: "sorted ?q" using assms(1) by (simp add: nvm_wf_def)
  show ?thesis
  proof (cases "?q = []")
    case True
    then show ?thesis using assms l by (simp add: write_respond_event_def nvm_wf_def schedule_def)
  next
    case False
    define w where "w = hd ?q"
    have e: "nv_writeRespondEvent s = Some w" using assms(1) False by (simp add: nvm_wf_def w_def)
    define s' where "s' = s\<lparr>nv_writeRespondEvent := Some (min done w), nv_writeRespQueue := sort (?q @ [done])\<rparr>"
    have "write_respond_event d now s done = Inr s'"
      using False assms(2,3) e by (auto simp: write_respond_event_def Let_def reschedule_def s'_def min_def)
    moreover have "sort (?q @ [done]) \<noteq> []" by (metis append_is_Nil_conv list.distinct(1) set_empty set_sort)
    then have "nvm_wf d s'"
      using assms(1) l hd_sort_snoc[OF sq False, of "done"] by (simp add: nvm_wf_def s'_def w_def)
    ultimately show ?thesis by blast
  qed
qed

lemma nvm_transfer_ok:
  assumes "nvm_wf d s" "now \<le> mp_readyTime pkt"
    and "if mp_read pkt then 0 < nv_numReadDataReady s else \<not> writeRespQueueFull d s \<and> 0 < nv_numWritesQueued s"
  shows "\<exists>s'. nvm_transfer d now s pkt = Inr s' \<and> nvm_wf d s'"
proof (cases "mp_read pkt")
  case True
  then have "0 < nv_numReadDataReady s" "0 < nv_numPendingReads s" using assms(1,3) by (auto simp: nvm_wf_def)
  then show ?thesis using True assms(1) by (auto simp: nvm_transfer_def nvm_wf_def)
next
  case False
  define k where "k = write_bank d pkt (nv_ranks s ! mp_rank pkt ! mp_bank pkt)"
  define s1 where "s1 = upd_nvm_bank (mp_rank pkt) (mp_bank pkt) k (s\<lparr>nv_numWritesQueued := nv_numWritesQueued s - 1\<rparr>)"
  have "nvm_wf d s1" using assms(1) nvm_wf_cong[of s1 s d] by (simp add: s1_def)
  moreover have "\<not> writeRespQueueFull d s1" using False assms(3) by (simp add: s1_def writeRespQueueFull_def)
  moreover have "now \<le> bk_actAllowedAt k" using assms(2) by (auto simp: k_def write_bank_def Let_def)
  ultimately obtain s' where "write_respond_event d now s1 (bk_actAllowedAt k) = Inr s'" "nvm_wf d s'"
    using write_respond_event_ok by blast
  moreover have "nvm_transfer d now s pkt = write_respond_event d now s1 (bk_actAllowedAt k)"
    using False assms(3) by (simp add: nvm_transfer_def Let_def k_def s1_def)
  ultimately show ?thesis by simp
qed

lemma nvm_doBurstAccess_ok:
  assumes "nvm_wf d s" "nvm_params_ok d W B" "nvm_in_range s pkt"
    and "if mp_read pkt then 0 < nv_numReadDataReady s else \<not> writeRespQueueFull d s \<and> 0 < nv_numWritesQueued s"
  shows "\<exists>B' s' pkt' cmd_at. nvm_doBurstAccess d W now B s pkt nb = ok (B', s', pkt', cmd_at, cmd_at + np_tBURST d) \<and>
    nvm_wf d s' \<and> nvm_params_ok d W B' \<and> now \<le> cmd_at \<and> nb \<le> cmd_at \<and>
    pkt' = pkt\<lparr>mp_readyTime := cmd_at + np_tSEND d + np_tBURST d\<rparr>"
proof -
  let ?k = "nv_ranks s ! mp_rank pkt ! mp_bank pkt"
  let ?t = "max (max (if mp_read pkt then bk_rdAllowedAt ?k else bk_wrAllowedAt ?k) now) nb"
  obtain B' at where i: "(if \<not> (mp_read pkt \<or> \<not> np_twoCycleRdWr d) then verifyMultiCmd W B ?t (np_maxCommandsPerWindow d) (np_tCK d)
      else verifySingleCmd W B ?t (np_maxCommandsPerWindow d)) = ok (B', at)" "?t \<le> at" "nvm_params_ok d W B'"
    using nvm_issue_ok[OF assms(2)] by blast
  have i1: "(if mp_read pkt \<or> \<not> np_twoCycleRdWr d then verifySingleCmd W B ?t (np_maxCommandsPerWindow d)
      else verifyMultiCmd W B ?t (np_maxCommandsPerWindow d) (np_tCK d)) = ok (B', at)"
    using i(1) by (simp only: if_not_P split: if_splits) simp_all
  define p where "p = pkt\<lparr>mp_readyTime := at + np_tSEND d + np_tBURST d\<rparr>"
  define s1 where "s1 = s\<lparr>nv_ranks := nvm_col_update d (mp_rank pkt) (mp_read pkt) at (nv_ranks s)\<rparr>"
  have n: "now \<le> at" "nb \<le> at" using i(2) by simp_all
  have "nvm_wf d s1" using assms(1) nvm_wf_cong[of s1 s d] by (simp add: s1_def)
  moreover have "now \<le> mp_readyTime p" using n by (simp add: p_def)
  moreover have "if mp_read p then 0 < nv_numReadDataReady s1 else \<not> writeRespQueueFull d s1 \<and> 0 < nv_numWritesQueued s1"
    using assms(4) by (auto simp: s1_def p_def writeRespQueueFull_def split: if_splits)
  ultimately obtain s2 where s2: "nvm_transfer d now s1 p = Inr s2" "nvm_wf d s2"
    using nvm_transfer_ok by blast
  have "nvm_doBurstAccess d W now B s pkt nb = ok (B', nvm_burst_stats d s2 p at, p, at, at + np_tBURST d)"
    using assms(3) unfolding nvm_doBurstAccess_def nvm_in_range_def Let_def i1 obind_ok prod.case
      p_def[symmetric] s1_def[symmetric] s2(1) by simp
  moreover have "nvm_wf d (nvm_burst_stats d s2 p at)" using s2(2) nvm_wf_cong[of "nvm_burst_stats d s2 p at" s2 d] by simp
  ultimately show ?thesis using i(3) n p_def by blast
qed

lemma nvm_exec_ok:
  assumes "nvm_wf d s" "nvm_params_ok d W B" "nvm_legal d now s op"
  shows "\<exists>B' s'. nvm_exec d W now B s op = ok (B', s') \<and> nvm_wf d s' \<and> nvm_params_ok d W B'"
proof (cases op)
  case (Setup_Rank r)
  have "nvm_wf d (nvm_setupRank s r)" using assms(1) nvm_wf_cong[of "nvm_setupRank s r" s d] by (simp add: nvm_setupRank_def)
  then show ?thesis using Setup_Rank assms(2) by simp
next
  case (Issue_Read q)
  then have "q \<noteq> []" "readsWaitingToIssue d s" "list_all (nvm_in_range s) q" using assms(3) by simp_all
  from chooseRead_ok[OF assms(1,2) this, of now] show ?thesis unfolding Issue_Read nvm_exec.simps by (auto simp: obind_ok)
next
  case (Transfer pkt nb)
  have "if mp_read pkt then 0 < nv_numReadDataReady s else \<not> writeRespQueueFull d s \<and> 0 < nv_numWritesQueued s"
    using assms(3) Transfer by (auto simp: nvm_burstReady_def split: if_splits)
  moreover have "nvm_in_range s pkt" using assms(3) Transfer by simp
  ultimately obtain B' s' pkt' t where b: "nvm_doBurstAccess d W now B s pkt nb = ok (B', s', pkt', t, t + np_tBURST d)"
    "nvm_wf d s'" "nvm_params_ok d W B'"
    using nvm_doBurstAccess_ok[OF assms(1,2), of pkt now nb] by blast
  show ?thesis unfolding Transfer nvm_exec.simps b(1) obind_ok prod.case using b(2,3) by blast
next
  case (Read_Data_Ready req)
  then show ?thesis using processReadReadyEvent_ok[OF assms(1), of now req] assms(2,3) by (auto simp: nvm_params_ok_def)
next
  case (Write_Done req)
  then show ?thesis using processWriteRespondEvent_ok[OF assms(1), of now req] assms(2,3) by auto
next
  case (Burst_Elsewhere t)
  have "nvm_wf d (nvm_addRankToRankDelay d s t)"
    using assms(1) nvm_wf_cong[of "nvm_addRankToRankDelay d s t" s d] by (simp add: nvm_addRankToRankDelay_def)
  then show ?thesis using Burst_Elsewhere assms(2) by simp
qed

lemma nvm_reachable_wf:
  assumes "nvm_reachable d W B s" "nvm_params_ok d W {#}"
  shows "nvm_wf d s \<and> nvm_params_ok d W B"
  using assms(1)
proof induction
  case (start ranks banks)
  then show ?case using nvm_wf_start assms(2) by simp
next
  case (step B s now op B' s')
  obtain B1 s1 where "nvm_exec d W now B s op = ok (B1, s1)" "nvm_wf d s1" "nvm_params_ok d W B1"
    using nvm_exec_ok[of d s W B now op] step.IH step.hyps(2) by blast
  then show ?case using step.hyps(3) by simp
qed

text \<open>C39: In every state the NVM can reach, every call the controller and the event queue make returns and
  fails no assertion, and the state it leaves has a sorted write response queue within its bound, both
  events scheduled at the earliest entry of their queues, and every pending read accounted for.\<close>

theorem nvm_never_fails:
  assumes "nvm_reachable d W B s" "nvm_params_ok d W {#}" "nvm_legal d now s op"
  shows "\<exists>B' s'. nvm_exec d W now B s op = ok (B', s') \<and> nvm_reachable d W B' s' \<and>
    sorted (nv_writeRespQueue s') \<and> length (nv_writeRespQueue s') \<le> np_maxPendingWrites d \<and>
    nv_writeRespondEvent s' = (if nv_writeRespQueue s' = [] then None else Some (hd (nv_writeRespQueue s'))) \<and>
    nv_readReadyEvent s' = (if nv_readReadyQueue s' = [] then None else Some (Min (set (nv_readReadyQueue s')))) \<and>
    nv_numPendingReads s' = nv_numReadDataReady s' + length (nv_readReadyQueue s') \<and>
    nv_numPendingReads s' \<le> np_maxPendingReads d"
proof -
  obtain B' s' where "nvm_exec d W now B s op = ok (B', s')" "nvm_wf d s'"
    using nvm_exec_ok[of d s W B now op] nvm_reachable_wf[OF assms(1,2)] assms(3) by blast
  then show ?thesis using nvm_reachable.step[OF assms(1,3)] by (auto simp: nvm_wf_def)
qed

definition example_nvm_params :: nvm_params where
  "example_nvm_params = \<lparr>np_iface = example_interface, np_maxCommandsPerWindow = 2, np_tCK = 1, np_tCS = 2, np_tBURST = 4,
     np_tRTW = 2, np_tWTR = 6, np_maxPendingWrites = 4, np_maxPendingReads = 2, np_twoCycleRdWr = True, np_tREAD = 150,
     np_tWRITE = 500, np_tSEND = 14\<rparr>"

definition example_nvm_read :: mem_packet where
  "example_nvm_read = (MemPacket_new 5 0 0 True False 0 1 3 1 0 64)\<lparr>mp_readyTime := MaxTick\<rparr>"

theorem nvm_never_fails_witness:
  "\<exists>B' s'. nvm_exec example_nvm_params 10 9 {#} (nvm_setupRank (nvm_start 1 2) True) (Issue_Read [example_nvm_read]) = ok (B', s') \<and>
     nvm_reachable example_nvm_params 10 B' s' \<and> nv_numPendingReads s' = nv_numReadDataReady s' + length (nv_readReadyQueue s')"
proof -
  have p: "nvm_params_ok example_nvm_params 10 {#}" by (simp add: nvm_params_ok_def example_nvm_params_def)
  have "nvm_exec example_nvm_params 10 5 {#} (nvm_start 1 2) (Setup_Rank True) = ok ({#}, nvm_setupRank (nvm_start 1 2) True)" by simp
  from nvm_reachable.step[OF nvm_reachable.start _ this] have r: "nvm_reachable example_nvm_params 10 {#} (nvm_setupRank (nvm_start 1 2) True)"
    by simp
  have "nvm_legal example_nvm_params 9 (nvm_setupRank (nvm_start 1 2) True) (Issue_Read [example_nvm_read])"
    by (simp add: readsWaitingToIssue_def nvm_in_range_def nvm_setupRank_def nvm_start_def nvm_Rank_new_def u16_def
        example_nvm_params_def example_nvm_read_def MemPacket_new_def)
  from nvm_never_fails[OF r p this] show ?thesis by blast
qed

end
