(* ===== verification/Mem_Ctrl_Events.thy ===== *)
theory Mem_Ctrl_Events
  imports Mem_Ctrl_Config Dram_Schedule Rank_Refresh NVM_Interface
begin

text \<open>
  The back end of \<open>MemCtrl\<close> (\<open>mem/mem_ctrl.cc\<close>): the scheduler event \<open>processNextReqEvent\<close>, which
  decides the bus direction, picks a packet and bursts it, the Rowhammer defense consulted by
  \<open>doBurstAccess\<close> on every activation, the response event \<open>processRespondEvent\<close>, and draining.  The
  controller is the front end of \<open>Request_Queues\<close> with its DRAM, its NVM, the command bus and the
  defense that \<open>Mem_Ctrl_Config\<close> builds.  An event that fires is unscheduled before it is handled.
\<close>

section \<open>State\<close>

datatype mem_sched = fcfs | frfcfs

record controller =
  ct_q :: mem_ctrl
  ct_dram :: "(dram_params \<times> dram) option"
  ct_nvm :: "(nvm_params \<times> nvm) option"
  ct_burstTicks :: burst_ticks
  ct_commandWindow :: tick
  ct_busState :: bus_state
  ct_busStateNext :: bus_state
  ct_nextBurstAt :: tick
  ct_nextReqTime :: tick
  ct_respondEvent :: "tick option"
  ct_drainState :: drain_state
  ct_readsThisTime :: nat
  ct_writesThisTime :: nat
  ct_writeHighThreshold :: nat
  ct_writeLowThreshold :: nat
  ct_minWritesPerSwitch :: nat
  ct_backendLatency :: tick
  ct_memSchedPolicy :: mem_sched
  ct_isTimingMode :: bool
  ct_rh_mitigation :: string
  ct_rh_defense :: "defense option"
  ct_retries :: nat
  ct_s_readLat :: nat
  ct_s_readBytes :: nat
  ct_s_writeLat :: nat
  ct_s_writeBytes :: nat
  ct_s_numReadWriteTurnArounds :: nat
  ct_s_numWriteReadTurnArounds :: nat
  ct_s_numStayReadState :: nat
  ct_s_numStayWriteState :: nat

definition ctrl_env :: "controller \<Rightarrow> tick \<Rightarrow> rank_env" where
  "ctrl_env c now = \<lparr>en_now = now, en_busStateNext = ct_busStateNext c,
     en_requestEventScheduled = (q_nextReqEvent (ct_q c) \<noteq> None), en_respondEventScheduled = (ct_respondEvent c \<noteq> None),
     en_drainState = ct_drainState c,
     en_activeRank = (case ct_dram c of None \<Rightarrow> 0 | Some (_, s) \<Rightarrow> dr_activeRank s)\<rparr>"

definition inReadBusState :: "controller \<Rightarrow> bool \<Rightarrow> bool" where
  "inReadBusState c next_state \<longleftrightarrow> (if next_state then ct_busStateNext c else ct_busState c) = BUS_READ"

definition inWriteBusState :: "controller \<Rightarrow> bool \<Rightarrow> bool" where
  "inWriteBusState c next_state \<longleftrightarrow> (if next_state then ct_busStateNext c else ct_busState c) = BUS_WRITE"

definition selQueue :: "controller \<Rightarrow> bool \<Rightarrow> mem_packet list list" where
  "selQueue c is_read = (if is_read then q_readQueue (ct_q c) else q_writeQueue (ct_q c))"

definition allIntfDrained :: "controller \<Rightarrow> bool" where
  "allIntfDrained c \<longleftrightarrow> (case ct_dram c of None \<Rightarrow> True | Some (_, s) \<Rightarrow> allRanksDrained (dr_ranks s)) \<and>
     (case ct_nvm c of None \<Rightarrow> True | Some (_, s) \<Rightarrow> nvm_allRanksDrained s)"

definition signalDrainDone :: "controller \<Rightarrow> controller" where
  "signalDrainDone c = (if ct_drainState c = Draining then c\<lparr>ct_drainState := Drained\<rparr> else c)"

section \<open>The Rowhammer defense\<close>

text \<open>The virtual call \<open>rh_defense->access\<close>: RRS, BH, RFM and PARA get row, bank and rank, RQ the address.\<close>

definition defense_access :: "(nat \<Rightarrow> nat) \<Rightarrow> defense \<Rightarrow> tick \<Rightarrow> mem_packet \<Rightarrow> (defense \<times> decision) result" where
  "defense_access rnd df now p =
     (case df of
        RRS s \<Rightarrow> rbind (rrs_access mg_ops rnd s now (mp_row p) (mp_bank p) (mp_rank p) 0) (\<lambda>s'. Inr (RRS s', rrs_decision s'))
      | RQ s \<Rightarrow> rbind (rq_access mg_ops s now (mp_addr p)) (\<lambda>s'. Inr (RQ s', rq_decision s'))
      | BH s \<Rightarrow> rbind (bh_access s now (mp_row p) (mp_bank p) (mp_rank p) 0) (\<lambda>s'. Inr (BH s', bh_decision s'))
      | RFM s \<Rightarrow> rbind (rfm_access rnd s now (mp_row p) (mp_bank p) (mp_rank p) 0) (\<lambda>s'. Inr (RFM s', rfm_decision s')))"

definition rh_defense_tag :: "string \<Rightarrow> RH_DEFENSE" where
  "rh_defense_tag mitigation =
     (if mitigation = ''RRS'' then rh_rrs else if mitigation = ''RQ'' then rh_rq else if mitigation = ''BH'' then rh_bh
      else if mitigation = ''RFM'' then rh_rfm else if mitigation = ''PARA'' then rh_para else rh_none)"

text \<open>The decision is copied into the packet.\<close>

definition apply_decision :: "string \<Rightarrow> decision \<Rightarrow> mem_packet \<Rightarrow> mem_packet" where
  "apply_decision mitigation dec p = p\<lparr>mp_rh_injectDelay := d_mitigate dec, mp_rh_bubbleSize := d_delay dec,
     mp_rh_SRAMDelay := d_SRAM_delay dec + d_MC_delay dec, mp_rh_bankDelay := d_bank_delay dec,
     mp_rh_busDelay := d_bus_delay dec, mp_rh_defense := rh_defense_tag mitigation\<rparr>"

text \<open>The bubble before the burst, limited to 7000000 ticks.\<close>

definition rh_bubble :: "bool \<Rightarrow> mem_packet \<Rightarrow> tick" where
  "rh_bubble enable p =
     (if enable \<and> mp_rh_injectDelay p \<and> 0 < mp_rh_bubbleSize p
      then if 7800 * 1000 \<le> mp_rh_bubbleSize p then 7000 * 1000 else mp_rh_bubbleSize p else 0)"

text \<open>The defense sees the packet when its burst will activate a row.\<close>

definition rh_check :: "(nat \<Rightarrow> nat) \<Rightarrow> controller \<Rightarrow> tick \<Rightarrow> mem_packet \<Rightarrow> bool \<Rightarrow> (controller \<times> mem_packet) result" where
  "rh_check rnd c now p act =
     (case ct_rh_defense c of
        Some df \<Rightarrow> if act then rbind (defense_access rnd df now p) (\<lambda>(df', dec).
            Inr (c\<lparr>ct_rh_defense := Some df'\<rparr>, apply_decision (ct_rh_mitigation c) dec p)) else Inr (c, p)
      | None \<Rightarrow> Inr (c, p))"

section \<open>A burst\<close>

text \<open>The queues without the packet that is served.\<close>

definition queues_without :: "mem_packet list list \<Rightarrow> nat \<Rightarrow> nat \<Rightarrow> mem_packet list list" where
  "queues_without queues prio k = queues[prio := erase_at k (queues ! prio)]"

definition burst_done :: "controller \<Rightarrow> mem_packet \<Rightarrow> tick \<Rightarrow> tick \<Rightarrow> controller" where
  "burst_done c p next_burst_at offset =
     (let c1 = c\<lparr>ct_nextBurstAt := next_burst_at, ct_nextReqTime := sub64 next_burst_at offset\<rparr>;
          lat = sub64 (mp_readyTime p) (mp_entryTime p)
      in if mp_read p
         then c1\<lparr>ct_readsThisTime := ct_readsThisTime c1 + 1, ct_s_readLat := ct_s_readLat c1 + lat,
                 ct_s_readBytes := ct_s_readBytes c1 + mp_size p\<rparr>
         else c1\<lparr>ct_writesThisTime := ct_writesThisTime c1 + 1, ct_s_writeLat := ct_s_writeLat c1 + lat,
                 ct_s_writeBytes := ct_s_writeBytes c1 + mp_size p\<rparr>)"

text \<open>\<open>doBurstAccess\<close> on the DRAM: the queue it looks through lacks the packet itself.\<close>

definition dram_burst ::
  "(nat \<Rightarrow> nat) \<Rightarrow> controller \<Rightarrow> tick \<Rightarrow> mem_packet \<Rightarrow> mem_packet list list \<Rightarrow> (controller \<times> mem_packet) run" where
  "dram_burst rnd c now p others =
     (case ct_dram c of None \<Rightarrow> failed OutOfBounds | Some (d, s) \<Rightarrow>
        if \<not> (mp_rank p < length (dr_ranks s) \<and> mp_bank p < length (rk_banks (dr_ranks s ! mp_rank p))) then failed OutOfBounds
        else let act = checkBurstACT s p in
        obind (Some (rh_check rnd c now p act)) (\<lambda>(c1, p1).
          let next_burst_at = ct_nextBurstAt c1 + rh_bubble (ct_rh_defense c1 \<noteq> None) p1 in
          obind (dram_doBurstAccess d (ct_commandWindow c1) now (ct_burstTicks c1) s p1 next_burst_at others)
            (\<lambda>(B', s', p2, act', cmd_at, nb).
               if act' \<noteq> act then failed AssertFail
               else let c2 = c1\<lparr>ct_burstTicks := B', ct_dram := Some (d, s'),
                          ct_nvm := (case ct_nvm c1 of None \<Rightarrow> None
                            | Some (nd, ns) \<Rightarrow> Some (nd, nvm_addRankToRankDelay nd ns cmd_at))\<rparr>
                    in ok (burst_done c2 p2 nb (commandOffset d), p2))))"

definition nvm_burst :: "controller \<Rightarrow> tick \<Rightarrow> mem_packet \<Rightarrow> (controller \<times> mem_packet) run" where
  "nvm_burst c now p =
     (case ct_nvm c of None \<Rightarrow> failed OutOfBounds | Some (nd, ns) \<Rightarrow>
        obind (nvm_doBurstAccess nd (ct_commandWindow c) now (ct_burstTicks c) ns p (ct_nextBurstAt c))
          (\<lambda>(B', ns', p2, cmd_at, nb).
             let c2 = c\<lparr>ct_burstTicks := B', ct_nvm := Some (nd, ns'),
                        ct_dram := (case ct_dram c of None \<Rightarrow> None | Some (d, s) \<Rightarrow> Some (d, addRankToRankDelay d s cmd_at))\<rparr>
             in ok (burst_done c2 p2 nb (case ct_dram c of None \<Rightarrow> nvm_commandOffset nd | Some (d, _) \<Rightarrow> commandOffset d), p2)))"

definition ctrl_doBurstAccess ::
  "(nat \<Rightarrow> nat) \<Rightarrow> controller \<Rightarrow> tick \<Rightarrow> mem_packet \<Rightarrow> mem_packet list list \<Rightarrow> (controller \<times> mem_packet) run" where
  "ctrl_doBurstAccess rnd c0 now p others =
     (let c = c0\<lparr>ct_burstTicks := pruneBurstTick (ct_burstTicks c0) now\<rparr> in
      if mp_dram p then dram_burst rnd c now p others else nvm_burst c now p)"

section \<open>Choosing a packet\<close>

text \<open>A packet of an interface the controller does not have is a null pointer.\<close>

definition packetReady :: "controller \<Rightarrow> tick \<Rightarrow> mem_packet \<Rightarrow> bool result" where
  "packetReady c now p =
     (if mp_dram p then case ct_dram c of None \<Rightarrow> Inl OutOfBounds | Some (_, s) \<Rightarrow> Inr (burstReady (dr_ranks s) p)
      else case ct_nvm c of None \<Rightarrow> Inl OutOfBounds
        | Some (nd, ns) \<Rightarrow> Inr (nvm_burstReady nd now (ct_busStateNext c) ns p))"

fun first_ready :: "controller \<Rightarrow> tick \<Rightarrow> nat \<Rightarrow> mem_packet list \<Rightarrow> nat option result" where
  "first_ready c now n [] = Inr None"
| "first_ready c now n (p # ps) = rbind (packetReady c now p) (\<lambda>r. if r then Inr (Some n) else first_ready c now (n + 1) ps)"

definition ctrl_chooseNextFRFCFS :: "controller \<Rightarrow> tick \<Rightarrow> mem_packet list \<Rightarrow> tick \<Rightarrow> nat option result" where
  "ctrl_chooseNextFRFCFS c now queue extra_col_delay =
     (let min_col_at = max (ct_nextBurstAt c + extra_col_delay) now;
          dram_choice = (\<lambda>(d, s). dram_chooseNextFRFCFS d now (ct_busState c) (dr_ranks s) queue min_col_at);
          nvm_choice = (\<lambda>(nd, ns). nvm_chooseNextFRFCFS nd now (ct_busStateNext c) ns queue min_col_at)
      in case ct_dram c of
           Some dr \<Rightarrow> rbind (dram_choice dr) (\<lambda>(sel, col_allowed_at).
             case ct_nvm c of None \<Rightarrow> Inr sel
             | Some nv \<Rightarrow> let (nvm_sel, nvm_col_at) = nvm_choice nv in
                 Inr (if nvm_col_at < col_allowed_at then nvm_sel else sel))
         | None \<Rightarrow> (case ct_nvm c of None \<Rightarrow> Inr None | Some nv \<Rightarrow> Inr (fst (nvm_choice nv))))"

definition chooseNext :: "controller \<Rightarrow> tick \<Rightarrow> mem_packet list \<Rightarrow> tick \<Rightarrow> nat option result" where
  "chooseNext c now queue extra_col_delay =
     (if queue = [] then Inr None
      else if length queue = 1 then rbind (packetReady c now (queue ! 0)) (\<lambda>r. Inr (if r then Some 0 else None))
      else case ct_memSchedPolicy c of
          fcfs \<Rightarrow> first_ready c now 0 queue
        | frfcfs \<Rightarrow> ctrl_chooseNextFRFCFS c now queue extra_col_delay)"

text \<open>From the highest priority down: the priority and the position of the packet.\<close>

fun choose_prio :: "controller \<Rightarrow> tick \<Rightarrow> mem_packet list list \<Rightarrow> tick \<Rightarrow> nat \<Rightarrow> (nat \<times> nat) option result" where
  "choose_prio c now queues extra 0 = Inr None"
| "choose_prio c now queues extra (Suc prio) = rbind (chooseNext c now (queues ! prio) extra) (\<lambda>r.
     case r of Some k \<Rightarrow> Inr (Some (prio, k)) | None \<Rightarrow> choose_prio c now queues extra prio)"

definition ctrl_minReadToWriteDataGap :: "controller \<Rightarrow> tick" where
  "ctrl_minReadToWriteDataGap c =
     min (case ct_dram c of None \<Rightarrow> MaxTick | Some (d, _) \<Rightarrow> minReadToWriteDataGap d)
         (case ct_nvm c of None \<Rightarrow> MaxTick | Some (nd, _) \<Rightarrow> min (np_tRTW nd) (np_tCS nd))"

definition ctrl_minWriteToReadDataGap :: "controller \<Rightarrow> tick" where
  "ctrl_minWriteToReadDataGap c =
     min (case ct_dram c of None \<Rightarrow> MaxTick | Some (d, _) \<Rightarrow> minWriteToReadDataGap d)
         (case ct_nvm c of None \<Rightarrow> MaxTick | Some (nd, _) \<Rightarrow> min (np_tWTR nd) (np_tCS nd))"

section \<open>The scheduler event\<close>

text \<open>The names of the two turnaround counters are the source's: leaving READ counts as write to read.\<close>

definition recordTurnaroundStats :: "controller \<Rightarrow> controller" where
  "recordTurnaroundStats c =
     (if ct_busStateNext c \<noteq> ct_busState c
      then if ct_busState c = BUS_READ then c\<lparr>ct_s_numWriteReadTurnArounds := ct_s_numWriteReadTurnArounds c + 1\<rparr>
           else c\<lparr>ct_s_numReadWriteTurnArounds := ct_s_numReadWriteTurnArounds c + 1\<rparr>
      else if ct_busState c = BUS_READ then c\<lparr>ct_s_numStayReadState := ct_s_numStayReadState c + 1\<rparr>
           else c\<lparr>ct_s_numStayWriteState := ct_s_numStayWriteState c + 1\<rparr>)"

text \<open>The bus direction of this event; a turnaround policy (\<open>qos/turnaround_policy.hh\<close>), when there is
  one, decides it.\<close>

definition next_turn :: "(controller \<Rightarrow> bus_state) option \<Rightarrow> controller \<Rightarrow> controller \<times> bool" where
  "next_turn turn_policy c0 =
     (let c = (case turn_policy of None \<Rightarrow> c0 | Some f \<Rightarrow> c0\<lparr>ct_busStateNext := f c0\<rparr>);
          switched_cmd_type = (ct_busState c \<noteq> ct_busStateNext c);
          c1 = recordTurnaroundStats c;
          c2 = (if switched_cmd_type
                then if ct_busState c1 = BUS_READ then c1\<lparr>ct_readsThisTime := 0\<rparr> else c1\<lparr>ct_writesThisTime := 0\<rparr> else c1)
      in (c2\<lparr>ct_busState := ct_busStateNext c2\<rparr>, switched_cmd_type))"

definition upd_q :: "(mem_ctrl \<Rightarrow> mem_ctrl) \<Rightarrow> controller \<Rightarrow> controller" where
  "upd_q f c = c\<lparr>ct_q := f (ct_q c)\<rparr>"

text \<open>A read command to the NVM for every priority, the highest first.\<close>

fun issue_nvm_reads :: "tick \<Rightarrow> nat \<Rightarrow> controller \<Rightarrow> controller run" where
  "issue_nvm_reads now 0 c = ok c"
| "issue_nvm_reads now (Suc prio) c =
     (case ct_nvm c of None \<Rightarrow> ok c
      | Some (nd, ns) \<Rightarrow>
        if readsWaitingToIssue nd ns
        then obind (chooseRead nd (ct_commandWindow c) now (ct_burstTicks c) ns (q_readQueue (ct_q c) ! prio))
          (\<lambda>(B', ns', queue'). issue_nvm_reads now prio
            (upd_q (\<lambda>q. q\<lparr>q_readQueue := (q_readQueue q)[prio := queue']\<rparr>) (c\<lparr>ct_burstTicks := B', ct_nvm := Some (nd, ns')\<rparr>)))
        else issue_nvm_reads now prio c)"

text \<open>Whether both interfaces are busy, and whether all queued writes are for the NVM.\<close>

definition ctrl_busy :: "controller \<Rightarrow> tick \<Rightarrow> (controller \<times> bool \<times> bool) result" where
  "ctrl_busy c now =
     rbind (case ct_dram c of None \<Rightarrow> Inr (c, True)
            | Some (d, s) \<Rightarrow> rbind (isBusy d (ctrl_env c now) (dr_ranks s)) (\<lambda>(ranks, busy).
                Inr (c\<lparr>ct_dram := Some (d, s\<lparr>dr_ranks := ranks\<rparr>)\<rparr>, busy)))
       (\<lambda>(c1, dram_busy).
          let all_writes_nvm = (case ct_nvm c1 of None \<Rightarrow> False
                | Some (nd, ns) \<Rightarrow> nv_numWritesQueued ns = q_totalWriteQueueSize (ct_q c1));
              nvm_busy = (case ct_nvm c1 of None \<Rightarrow> True
                | Some (nd, ns) \<Rightarrow> nvm_isBusy nd (ct_busStateNext c1) ns (q_totalReadQueueSize (ct_q c1) = 0) all_writes_nvm)
          in Inr (c1, dram_busy \<and> nvm_busy, all_writes_nvm))"

definition nvm_write_stall :: "controller \<Rightarrow> bool \<Rightarrow> bool" where
  "nvm_write_stall c all_writes_nvm \<longleftrightarrow>
     (case ct_nvm c of None \<Rightarrow> False | Some (nd, ns) \<Rightarrow> all_writes_nvm \<and> writeRespQueueFull nd ns)"

definition ctrl_bytesPerBurst :: "controller \<Rightarrow> bool \<Rightarrow> nat result" where
  "ctrl_bytesPerBurst c is_dram =
     (case interface_of (ct_q c) is_dram of None \<Rightarrow> Inl OutOfBounds | Some i \<Rightarrow> Inr (mi_burstSize i))"

text \<open>\<open>logResponse\<close> keeps the queue size.\<close>

definition logResponse :: "bool \<Rightarrow> mem_ctrl \<Rightarrow> mem_ctrl" where
  "logResponse is_read q =
     (if is_read then q\<lparr>q_totalReadQueueSize := sub64 (q_totalReadQueueSize q) 1\<rparr>
      else q\<lparr>q_totalWriteQueueSize := sub64 (q_totalWriteQueueSize q) 1\<rparr>)"

text \<open>The response event is scheduled for the first response; responses come in order.\<close>

definition push_response :: "controller \<Rightarrow> tick \<Rightarrow> mem_packet \<Rightarrow> controller result" where
  "push_response c now p =
     rbind (if q_respQueue (ct_q c) = [] then rbind (schedule now (ct_respondEvent c) (mp_readyTime p)) (\<lambda>ev.
              Inr (c\<lparr>ct_respondEvent := ev\<rparr>))
            else if \<not> mp_readyTime (last (q_respQueue (ct_q c))) \<le> mp_readyTime p then Inl AssertFail
            else if ct_respondEvent c = None then Inl AssertFail else Inr c)
       (\<lambda>c1. Inr (upd_q (\<lambda>q. q\<lparr>q_respQueue := q_respQueue q @ [p]\<rparr>) c1))"

text \<open>Serving the read at position \<open>k\<close> of priority \<open>prio\<close>.\<close>

definition serve_read ::
  "(nat \<Rightarrow> nat) \<Rightarrow> controller \<Rightarrow> tick \<Rightarrow> bool \<Rightarrow> nat \<Rightarrow> nat \<Rightarrow> controller run" where
  "serve_read rnd c now all_writes_nvm prio k =
     (let p = q_readQueue (ct_q c) ! prio ! k; others = queues_without (q_readQueue (ct_q c)) prio k in
      obind (ctrl_doBurstAccess rnd c now p others) (\<lambda>(c1, p1). Some (
        rbind (ctrl_bytesPerBurst c1 (mp_dram p1)) (\<lambda>b.
        if \<not> mp_size p1 \<le> b then Inl AssertFail
        else if \<not> now \<le> mp_readyTime p1 then Inl AssertFail
        else rbind (push_response (upd_q (logResponse True) c1) now p1) (\<lambda>c2.
          let c3 = (if ct_writeHighThreshold c2 < q_totalWriteQueueSize (ct_q c2) \<and> \<not> nvm_write_stall c2 all_writes_nvm
                    then c2\<lparr>ct_busStateNext := BUS_WRITE\<rparr> else c2)
          in if mp_qosValue p1 \<noteq> prio then Inl OutOfBounds
             else Inr (upd_q (\<lambda>q. q\<lparr>q_readQueue := queues_without (q_readQueue q) prio k\<rparr>) c3))))))"

text \<open>The read side: an early return is \<open>(c, False)\<close>.\<close>

definition next_read ::
  "(nat \<Rightarrow> nat) \<Rightarrow> controller \<Rightarrow> tick \<Rightarrow> bool \<Rightarrow> bool \<Rightarrow> (controller \<times> bool) run" where
  "next_read rnd c now switched_cmd_type all_writes_nvm =
     (let q = ct_q c in
      if q_totalReadQueueSize q = 0
      then if q_totalWriteQueueSize q \<noteq> 0 \<and> (ct_drainState c = Draining \<or> ct_writeLowThreshold c < q_totalWriteQueueSize q)
           then ok (c\<lparr>ct_busStateNext := BUS_WRITE\<rparr>, True)
           else ok (if ct_drainState c = Draining \<and> q_respQueue q = [] \<and> allIntfDrained c then signalDrainDone c else c, False)
      else obind (Some (choose_prio c now (q_readQueue q) (if switched_cmd_type then ctrl_minWriteToReadDataGap c else 0)
                          (length (q_readQueue q)))) (\<lambda>choice.
        case choice of None \<Rightarrow> ok (c, False)
        | Some (prio, k) \<Rightarrow> obind (serve_read rnd c now all_writes_nvm prio k) (\<lambda>c1. ok (c1, True))))"

definition serve_write :: "(nat \<Rightarrow> nat) \<Rightarrow> controller \<Rightarrow> tick \<Rightarrow> bool \<Rightarrow> nat \<Rightarrow> nat \<Rightarrow> controller run" where
  "serve_write rnd c now all_writes_nvm prio k =
     (let p = q_writeQueue (ct_q c) ! prio ! k; others = queues_without (q_writeQueue (ct_q c)) prio k in
      obind (Some (ctrl_bytesPerBurst c (mp_dram p))) (\<lambda>b.
      if \<not> mp_size p \<le> b then failed AssertFail
      else obind (ctrl_doBurstAccess rnd c now p others) (\<lambda>(c1, p1).
        if mp_qosValue p1 \<noteq> prio then failed OutOfBounds
        else let c2 = upd_q (\<lambda>q. (logResponse False (q\<lparr>q_isInWriteQueue := q_isInWriteQueue q - {burstAlign b (mp_addr p1)}\<rparr>))
                        \<lparr>q_writeQueue := queues_without (q_writeQueue q) prio k\<rparr>) c1;
                 q = ct_q c2;
                 below_threshold = (q_totalWriteQueueSize q + ct_minWritesPerSwitch c2 < ct_writeLowThreshold c2)
             in ok (if q_totalWriteQueueSize q = 0 \<or> (below_threshold \<and> ct_drainState c2 \<noteq> Draining) \<or>
                       (q_totalReadQueueSize q \<noteq> 0 \<and> ct_minWritesPerSwitch c2 \<le> ct_writesThisTime c2) \<or>
                       (q_totalReadQueueSize q \<noteq> 0 \<and> nvm_write_stall c2 all_writes_nvm)
                    then c2\<lparr>ct_busStateNext := BUS_READ\<rparr> else c2))))"

definition next_write ::
  "(nat \<Rightarrow> nat) \<Rightarrow> controller \<Rightarrow> tick \<Rightarrow> bool \<Rightarrow> bool \<Rightarrow> (controller \<times> bool) run" where
  "next_write rnd c now switched_cmd_type all_writes_nvm =
     obind (Some (choose_prio c now (q_writeQueue (ct_q c)) (if switched_cmd_type then ctrl_minReadToWriteDataGap c else 0)
                    (length (q_writeQueue (ct_q c))))) (\<lambda>choice.
       case choice of None \<Rightarrow> ok (c, False)
       | Some (prio, k) \<Rightarrow> obind (serve_write rnd c now all_writes_nvm prio k) (\<lambda>c1. ok (c1, True)))"

text \<open>The next scheduler event, and the retry of a refused write.\<close>

definition next_finish :: "controller \<Rightarrow> tick \<Rightarrow> controller result" where
  "next_finish c now =
     rbind (if q_nextReqEvent (ct_q c) = None
            then rbind (schedule now None (max (ct_nextReqTime c) now)) (\<lambda>ev. Inr (upd_q (\<lambda>q. q\<lparr>q_nextReqEvent := ev\<rparr>) c))
            else Inr c)
       (\<lambda>c1. Inr (if q_retryWrReq (ct_q c1) \<and> q_totalWriteQueueSize (ct_q c1) < q_writeBufferSize (ct_q c1)
                  then (upd_q (\<lambda>q. q\<lparr>q_retryWrReq := False\<rparr>) c1)\<lparr>ct_retries := ct_retries c1 + 1\<rparr> else c1))"

definition processNextReqEvent ::
  "(controller \<Rightarrow> bus_state) option \<Rightarrow> (nat \<Rightarrow> nat) \<Rightarrow> controller \<Rightarrow> tick \<Rightarrow> controller run" where
  "processNextReqEvent turn_policy rnd c0 now =
     (let (c1, switched_cmd_type) = next_turn turn_policy c0 in
      obind (issue_nvm_reads now (length (q_readQueue (ct_q c1))) c1) (\<lambda>c2.
      obind (Some (ctrl_busy c2 now)) (\<lambda>(c3, busy, all_writes_nvm).
      if busy then ok c3
      else obind (if ct_busState c3 = BUS_READ then next_read rnd c3 now switched_cmd_type all_writes_nvm
                  else next_write rnd c3 now switched_cmd_type all_writes_nvm) (\<lambda>(c4, go_on).
        if go_on then Some (next_finish c4 now) else ok c4))))"

section \<open>The response event\<close>

definition upd_rank :: "nat \<Rightarrow> (dram_params \<Rightarrow> rank_env \<Rightarrow> dram_rank \<Rightarrow> dram_rank result) \<Rightarrow> controller \<Rightarrow> tick \<Rightarrow> controller result" where
  "upd_rank j f c now =
     (case ct_dram c of None \<Rightarrow> Inl OutOfBounds | Some (d, s) \<Rightarrow>
        if \<not> j < length (dr_ranks s) then Inl OutOfBounds
        else rbind (f d (ctrl_env c now) (dr_ranks s ! j)) (\<lambda>r.
          Inr (c\<lparr>ct_dram := Some (d, s\<lparr>dr_ranks := (dr_ranks s)[j := r]\<rparr>)\<rparr>)))"

text \<open>The response of a packet: the delay of the defense's tables counts while it is still a request.\<close>

definition ctrl_respond :: "controller \<Rightarrow> tick \<Rightarrow> mem_packet \<Rightarrow> controller result" where
  "ctrl_respond c now p =
     (let q = ct_q c;
          latency = (if ct_rh_defense c \<noteq> None \<and> pk_isRequest (q_packets q (mp_pkt p))
                     then mp_rh_SRAMDelay p + q_frontendLatency q + ct_backendLatency c
                     else q_frontendLatency q + ct_backendLatency c)
      in rbind (accessAndRespond q now (mp_pkt p) latency) (\<lambda>q'. Inr (c\<lparr>ct_q := q'\<rparr>)))"

text \<open>A split packet responds with the last of its bursts.\<close>

definition respond_packet :: "controller \<Rightarrow> tick \<Rightarrow> mem_packet \<Rightarrow> controller result" where
  "respond_packet c now p =
     (case mp_burstHelper p of None \<Rightarrow> ctrl_respond c now p
      | Some h \<Rightarrow>
        let b = (q_helpers (ct_q c) h)\<lparr>bh_burstsServiced := bh_burstsServiced (q_helpers (ct_q c) h) + 1\<rparr>;
            c1 = upd_q (\<lambda>q. q\<lparr>q_helpers := (q_helpers q)(h := b)\<rparr>) c
        in if bh_burstsServiced b = bh_burstCount b then ctrl_respond c1 now p else Inr c1)"

text \<open>The event of the next response; when there is none, draining may be done, or a refresh that waited
  for the read may go on.\<close>

definition next_response :: "controller \<Rightarrow> tick \<Rightarrow> mem_packet \<Rightarrow> controller result" where
  "next_response c now p =
     (if q_respQueue (ct_q c) \<noteq> []
      then if \<not> now \<le> mp_readyTime (hd (q_respQueue (ct_q c))) then Inl AssertFail
           else rbind (schedule now (ct_respondEvent c) (mp_readyTime (hd (q_respQueue (ct_q c))))) (\<lambda>ev.
             Inr (c\<lparr>ct_respondEvent := ev\<rparr>))
      else if ct_drainState c = Draining \<and> q_totalWriteQueueSize (ct_q c) = 0 \<and> q_totalReadQueueSize (ct_q c) = 0 \<and> allIntfDrained c
      then Inr (signalDrainDone c)
      else if mp_dram p then upd_rank (mp_rank p) (\<lambda>_ e. checkRefreshState (en_now e)) c now else Inr c)"

definition retry_read :: "controller \<Rightarrow> controller" where
  "retry_read c = (if q_retryRdReq (ct_q c)
     then (upd_q (\<lambda>q. q\<lparr>q_retryRdReq := False\<rparr>) c)\<lparr>ct_retries := ct_retries c + 1\<rparr> else c)"

definition processRespondEvent :: "controller \<Rightarrow> tick \<Rightarrow> controller result" where
  "processRespondEvent c now =
     (if q_respQueue (ct_q c) = [] then Inl OutOfBounds
      else let p = hd (q_respQueue (ct_q c)) in
        rbind (if mp_dram p then upd_rank (mp_rank p) respondEvent c now else Inr c) (\<lambda>c1.
        rbind (respond_packet c1 now p) (\<lambda>c2.
        rbind (next_response (upd_q (\<lambda>q. q\<lparr>q_respQueue := tl (q_respQueue q)\<rparr>) c2) now p) (\<lambda>c3. Inr (retry_read c3)))))"

section \<open>Requests, start and draining\<close>

text \<open>\<open>recvTimingReq\<close> on the whole controller: the counters \<open>setupRank\<close> keeps are those of the ranks and of
  the NVM.\<close>

definition load_counters :: "controller \<Rightarrow> mem_ctrl" where
  "load_counters c = (ct_q c)
     \<lparr>q_readEntries := (\<lambda>j. case ct_dram c of None \<Rightarrow> 0 | Some (_, s) \<Rightarrow> rk_readEntries (dr_ranks s ! j)),
      q_writeEntries := (\<lambda>j. case ct_dram c of None \<Rightarrow> 0 | Some (_, s) \<Rightarrow> rk_writeEntries (dr_ranks s ! j)),
      q_numReadsToIssue := (case ct_nvm c of None \<Rightarrow> 0 | Some (_, ns) \<Rightarrow> nv_numReadsToIssue ns),
      q_numWritesQueued := (case ct_nvm c of None \<Rightarrow> 0 | Some (_, ns) \<Rightarrow> nv_numWritesQueued ns)\<rparr>"

definition store_counters :: "mem_ctrl \<Rightarrow> controller \<Rightarrow> controller" where
  "store_counters q c = c\<lparr>ct_q := q,
     ct_dram := (case ct_dram c of None \<Rightarrow> None | Some (d, s) \<Rightarrow> Some (d, s\<lparr>dr_ranks := map (\<lambda>j. (dr_ranks s ! j)
       \<lparr>rk_readEntries := u32 (q_readEntries q j), rk_writeEntries := u32 (q_writeEntries q j)\<rparr>) [0..<length (dr_ranks s)]\<rparr>)),
     ct_nvm := (case ct_nvm c of None \<Rightarrow> None | Some (nd, ns) \<Rightarrow> Some (nd, ns
       \<lparr>nv_numReadsToIssue := u16 (q_numReadsToIssue q), nv_numWritesQueued := u32 (q_numWritesQueued q)\<rparr>))\<rparr>"

definition ctrl_recvTimingReq :: "controller \<Rightarrow> tick \<Rightarrow> nat \<Rightarrow> nat \<Rightarrow> (controller \<times> bool) result" where
  "ctrl_recvTimingReq c now pkt qos =
     rbind (recvTimingReq (load_counters c) now pkt qos) (\<lambda>(q, accepted). Inr (store_counters q c, accepted))"

text \<open>\<open>hasData\<close> of the packet is an argument.\<close>

definition recvAtomic :: "controller \<Rightarrow> nat \<Rightarrow> bool \<Rightarrow> tick result" where
  "recvAtomic c pkt hasData =
     (let p = q_packets (ct_q c) pkt in
      if pk_cacheResponding p then Inl PanicFail
      else case media_of (ct_q c) (pk_addr p) of
          None \<Rightarrow> Inl PanicFail
        | Some is_dram \<Rightarrow> rbind (mem_access (interface_of (ct_q c) is_dram) p) (\<lambda>_.
            if is_dram then (case ct_dram c of None \<Rightarrow> Inl OutOfBounds
              | Some (d, _) \<Rightarrow> Inr (if hasData then dp_tRP d + dp_tRCD d + dp_tCL d else 0))
            else (case ct_nvm c of None \<Rightarrow> Inl OutOfBounds
              | Some (nd, _) \<Rightarrow> Inr (if hasData then np_tREAD nd + np_tSEND nd else 0))))"

definition ctrl_startup :: "bool \<Rightarrow> controller \<Rightarrow> tick \<Rightarrow> controller result" where
  "ctrl_startup timing c now =
     (let c1 = c\<lparr>ct_isTimingMode := timing\<rparr> in
      if timing
      then case ct_dram c of Some (d, _) \<Rightarrow> Inr (c1\<lparr>ct_nextBurstAt := now + commandOffset d\<rparr>)
           | None \<Rightarrow> (case ct_nvm c of Some (nd, _) \<Rightarrow> Inr (c1\<lparr>ct_nextBurstAt := now + nvm_commandOffset nd\<rparr>)
                      | None \<Rightarrow> Inl OutOfBounds)
      else Inr c1)"

text \<open>\<open>drain\<close>; the drain state it answers is stored by the caller.\<close>

definition ctrl_drain :: "controller \<Rightarrow> tick \<Rightarrow> (controller \<times> drain_state) result" where
  "ctrl_drain c now =
     (let q = ct_q c in
      if \<not> (q_totalWriteQueueSize q = 0 \<and> q_totalReadQueueSize q = 0 \<and> q_respQueue q = [] \<and> allIntfDrained c)
      then rbind (if q_totalWriteQueueSize q = 0 \<and> q_nextReqEvent q = None
                  then rbind (schedule now (q_nextReqEvent q) now) (\<lambda>ev. Inr (upd_q (\<lambda>q. q\<lparr>q_nextReqEvent := ev\<rparr>) c))
                  else Inr c) (\<lambda>c1.
           rbind (case ct_dram c1 of None \<Rightarrow> Inr c1
                  | Some (d, s) \<Rightarrow> rbind (drainRanks d now (dr_ranks s)) (\<lambda>ranks.
                      Inr (c1\<lparr>ct_dram := Some (d, s\<lparr>dr_ranks := ranks\<rparr>)\<rparr>)))
             (\<lambda>c2. Inr (c2, Draining)))
      else Inr (c, Drained))"

definition ctrl_drainResume :: "bool \<Rightarrow> controller \<Rightarrow> tick \<Rightarrow> controller result" where
  "ctrl_drainResume timing c now =
     rbind (if \<not> ct_isTimingMode c \<and> timing
            then rbind (ctrl_startup timing c now) (\<lambda>c1. case ct_dram c1 of None \<Rightarrow> Inl OutOfBounds
              | Some (d, s) \<Rightarrow> rbind (dram_startup d now (dr_ranks s)) (\<lambda>ranks.
                  Inr (c1\<lparr>ct_dram := Some (d, s\<lparr>dr_ranks := ranks\<rparr>)\<rparr>)))
            else if ct_isTimingMode c \<and> \<not> timing
            then case ct_dram c of None \<Rightarrow> Inr c
              | Some (d, s) \<Rightarrow> rbind (dram_suspend now (dr_ranks s)) (\<lambda>ranks.
                  Inr (c\<lparr>ct_dram := Some (d, s\<lparr>dr_ranks := ranks\<rparr>)\<rparr>))
            else Inr c)
       (\<lambda>c1. Inr (c1\<lparr>ct_isTimingMode := timing\<rparr>))"

text \<open>\<open>restartScheduler\<close>, which the interfaces call from their events.\<close>

definition restartScheduler :: "controller \<Rightarrow> tick \<Rightarrow> controller result" where
  "restartScheduler c now = rbind (schedule now (q_nextReqEvent (ct_q c)) now) (\<lambda>ev.
     Inr (upd_q (\<lambda>q. q\<lparr>q_nextReqEvent := ev\<rparr>) c))"

end
