(* ===== verification/Ctrl_Safety.thy ===== *)
theory Ctrl_Safety
  imports Mem_Ctrl_Events
begin

text \<open>
  Correctness of the controller's back end for a DRAM channel: the defense sees every activation and
  nothing else, and the three events of the controller (a request, the scheduler, a response) keep its
  invariant and fail no assertion.  What a defense promises is a locale, interpreted on PrIDE.
\<close>

section \<open>A burst and the defense\<close>

text \<open>The parts of a packet a burst does not change.\<close>

definition same_request :: "mem_packet \<Rightarrow> mem_packet \<Rightarrow> bool" where
  "same_request p p' \<longleftrightarrow> mp_pkt p' = mp_pkt p \<and> mp_read p' = mp_read p \<and> mp_dram p' = mp_dram p \<and> mp_rank p' = mp_rank p \<and>
     mp_bank p' = mp_bank p \<and> mp_row p' = mp_row p \<and> mp_addr p' = mp_addr p \<and> mp_size p' = mp_size p \<and>
     mp_burstHelper p' = mp_burstHelper p \<and> mp_qosValue p' = mp_qosValue p"

lemma same_request_refl [simp]: "same_request p p" by (simp add: same_request_def)

lemma same_request_upd [simp]:
  "same_request p (apply_decision m dec p)" "same_request p (p'\<lparr>mp_readyTime := t\<rparr>) = same_request p p'"
  by (simp_all add: same_request_def apply_decision_def)

text \<open>The activations of a rank, newest first, after a burst that activated a row or did not.\<close>

definition acts_after :: "bool \<Rightarrow> tick \<Rightarrow> tick list \<Rightarrow> tick list \<Rightarrow> bool" where
  "acts_after act now ts ts' \<longleftrightarrow> (if act then \<exists>at\<ge>now. ts' = (if ts = [] then [] else at # butlast ts) else ts' = ts)"

definition defense_ready :: "(nat \<Rightarrow> nat) \<Rightarrow> defense option \<Rightarrow> tick \<Rightarrow> mem_packet \<Rightarrow> bool" where
  "defense_ready rnd df now p \<longleftrightarrow> (\<forall>f. df = Some f \<longrightarrow> (\<exists>f' dec. defense_access rnd f now p = Inr (f', dec)))"

lemma rh_check_ok:
  assumes "defense_ready rnd (ct_rh_defense c) now p"
  shows "\<exists>df' p'. rh_check rnd c now p act = Inr (c\<lparr>ct_rh_defense := df'\<rparr>, p') \<and> same_request p p' \<and>
    (case ct_rh_defense c of None \<Rightarrow> df' = None \<and> p' = p
     | Some f \<Rightarrow> if act then \<exists>f' dec. defense_access rnd f now p = Inr (f', dec) \<and> df' = Some f' \<and>
         p' = apply_decision (ct_rh_mitigation c) dec p else df' = Some f \<and> p' = p)"
proof -
  have keep: "c\<lparr>ct_rh_defense := ct_rh_defense c\<rparr> = c" by simp
  show ?thesis
  proof (cases "ct_rh_defense c = None \<or> \<not> act")
    case True
    then have "rh_check rnd c now p act = Inr (c\<lparr>ct_rh_defense := ct_rh_defense c\<rparr>, p)"
      unfolding keep by (auto simp: rh_check_def split: option.split)
    then show ?thesis using True by (intro exI conjI) (assumption, simp, auto split: option.split)
  next
    case False
    then obtain f where f: "ct_rh_defense c = Some f" "act" by auto
    then obtain f' dec where a: "defense_access rnd f now p = Inr (f', dec)" using assms by (auto simp: defense_ready_def)
    then have "rh_check rnd c now p act = Inr (c\<lparr>ct_rh_defense := Some f'\<rparr>, apply_decision (ct_rh_mitigation c) dec p)"
      using f by (simp add: rh_check_def)
    then show ?thesis using f a by (intro exI conjI) (assumption, simp_all)
  qed
qed

text \<open>What the burst leaves alone in the controller.\<close>

definition ctrl_frame :: "controller \<Rightarrow> controller \<Rightarrow> bool" where
  "ctrl_frame c c' \<longleftrightarrow> ct_q c' = ct_q c \<and> ct_nvm c = None \<and> ct_nvm c' = None \<and> ct_commandWindow c' = ct_commandWindow c \<and>
     ct_busState c' = ct_busState c \<and> ct_busStateNext c' = ct_busStateNext c \<and> ct_respondEvent c' = ct_respondEvent c \<and>
     ct_drainState c' = ct_drainState c \<and> ct_writeHighThreshold c' = ct_writeHighThreshold c \<and>
     ct_writeLowThreshold c' = ct_writeLowThreshold c \<and> ct_minWritesPerSwitch c' = ct_minWritesPerSwitch c \<and>
     ct_memSchedPolicy c' = ct_memSchedPolicy c \<and> ct_rh_mitigation c' = ct_rh_mitigation c"

lemma dram_burst_ok:
  assumes "ct_dram c = Some (d, s)" "ct_nvm c = None" "dram_wf d s" "bus_ok d (ct_commandWindow c) (ct_burstTicks c)"
    and "burst_pre s p" "\<not> mp_rh_injectDelay p" "0 < now" "dp_tCL d + dp_tBURST d \<le> 90000"
    and "defense_ready rnd (ct_rh_defense c) now p"
  shows "\<exists>c' p' s'. dram_burst rnd c now p others = ok (c', p') \<and> ct_dram c' = Some (d, s') \<and> dram_wf d s' \<and>
    bus_ok d (ct_commandWindow c') (ct_burstTicks c') \<and> ctrl_frame c c' \<and> same_request p p' \<and> now \<le> mp_readyTime p' \<and>
    length (dr_ranks s') = length (dr_ranks s) \<and>
    ct_nextBurstAt c + dp_tCL d + dp_tBURST d \<le> mp_readyTime p' \<and> mp_readyTime p' \<le> ct_nextBurstAt c' + dp_tCL d + dp_tBURST d \<and>
    ct_nextBurstAt c \<le> ct_nextBurstAt c' \<and>
    acts_after (checkBurstACT s p) now (rk_actTicks (dr_ranks s ! mp_rank p)) (rk_actTicks (dr_ranks s' ! mp_rank p)) \<and>
    (case ct_rh_defense c of None \<Rightarrow> ct_rh_defense c' = None
     | Some f \<Rightarrow> if checkBurstACT s p
         then \<exists>f' dec. defense_access rnd f now p = Inr (f', dec) \<and> ct_rh_defense c' = Some f' \<and>
           mp_rh_injectDelay p' = d_mitigate dec \<and> mp_rh_bankDelay p' = d_bank_delay dec
         else ct_rh_defense c' = Some f)"
proof -
  let ?act = "checkBurstACT s p"
  obtain df p1 where h: "rh_check rnd c now p ?act = Inr (c\<lparr>ct_rh_defense := df\<rparr>, p1)" "same_request p p1"
    "case ct_rh_defense c of None \<Rightarrow> df = None \<and> p1 = p
     | Some f \<Rightarrow> if ?act then \<exists>f' dec. defense_access rnd f now p = Inr (f', dec) \<and> df = Some f' \<and>
         p1 = apply_decision (ct_rh_mitigation c) dec p else df = Some f \<and> p1 = p"
    using rh_check_ok[OF assms(9), of ?act] by blast
  have inj: "mp_rh_injectDelay p1 \<Longrightarrow> ?act \<and> df \<noteq> None"
    using h(3) assms(6) by (auto split: option.splits if_splits)
  define c1 where "c1 = c\<lparr>ct_rh_defense := df\<rparr>"
  define N where "N = ct_nextBurstAt c1 + rh_bubble (ct_rh_defense c1 \<noteq> None) p1"
  have pre: "burst_pre s p1" using assms(5) h(2) inj
    by (auto simp: burst_pre_def same_request_def checkBurstACT_def packet_bank_def)
  have act1: "checkBurstACT s p1 = ?act" using h(2) by (simp add: checkBurstACT_def packet_bank_def same_request_def)
  obtain B' s' p2 cmd_at nb where b: "dram_doBurstAccess d (ct_commandWindow c1) now (ct_burstTicks c1) s p1 N others
      = ok (B', s', p2, ?act, cmd_at, nb)" "dram_wf d s'" "bus_ok d (ct_commandWindow c1) B'" "now \<le> cmd_at"
    "mp_readyTime p2 = cmd_at + dp_tCL d + dp_tBURST d" "p2 = p1\<lparr>mp_readyTime := mp_readyTime p2\<rparr>"
    "cmd_at + (if mp_rh_injectDelay p1 then mp_rh_busDelay p1 else 0) \<le> nb" "N \<le> cmd_at + rh_slack d p1"
    "length (dr_ranks s') = length (dr_ranks s)"
    "let ts = rk_actTicks (dr_ranks s ! mp_rank p1); ts' = rk_actTicks (dr_ranks s' ! mp_rank p1) in
      if ?act then \<exists>at. now \<le> at \<and> at + dp_tRCD d \<le> cmd_at \<and> ts' = (if ts = [] then [] else at # butlast ts) \<and>
        (ts \<noteq> [] \<and> last ts \<noteq> 0 \<longrightarrow> last ts + dp_tXAW d \<le> at) else ts' = ts"
    using dram_doBurstAccess_ok[OF assms(3) _ pre assms(7), of "ct_commandWindow c1" "ct_burstTicks c1" N others] assms(4) act1
    by (auto simp: c1_def)
  define c2 where "c2 = c1\<lparr>ct_burstTicks := B', ct_dram := Some (d, s'),
                          ct_nvm := (case ct_nvm c1 of None \<Rightarrow> None
                            | Some (nd, ns) \<Rightarrow> Some (nd, nvm_addRankToRankDelay nd ns cmd_at))\<rparr>"
  have rng: "mp_rank p < length (dr_ranks s)" "mp_bank p < length (rk_banks (dr_ranks s ! mp_rank p))"
    using assms(5) by (simp_all add: burst_pre_def)
  have eq: "dram_burst rnd c now p others = ok (burst_done c2 p2 nb (commandOffset d), p2)"
    unfolding dram_burst_def assms(1) option.case prod.case Let_def h(1) obind_ok c1_def[symmetric] N_def[symmetric] b(1)
      c2_def[symmetric] using rng by simp
  have slack: "ct_nextBurstAt c \<le> cmd_at"
  proof (cases "rh_slack d p1 = 0")
    case True
    then show ?thesis using b(8) by (simp add: N_def c1_def)
  next
    case False
    then have x: "mp_rh_injectDelay p1" "mp_rh_bubbleSize p1 = 90000" "rh_slack d p1 = dp_tCL d + dp_tBURST d"
      by (auto simp: rh_slack_def split: if_splits)
    then have "N = ct_nextBurstAt c + 90000" using inj by (simp add: N_def c1_def rh_bubble_def)
    then show ?thesis using b(8) x(3) assms(8) by simp
  qed
  have done_fields: "ct_nextBurstAt (burst_done c2 p2 nb (commandOffset d)) = nb"
    "ct_dram (burst_done c2 p2 nb (commandOffset d)) = Some (d, s')"
    "ct_burstTicks (burst_done c2 p2 nb (commandOffset d)) = B'"
    "ct_commandWindow (burst_done c2 p2 nb (commandOffset d)) = ct_commandWindow c1"
    "ct_rh_defense (burst_done c2 p2 nb (commandOffset d)) = df"
    "ctrl_frame c (burst_done c2 p2 nb (commandOffset d))"
    using assms(2) by (simp_all add: burst_done_def Let_def c2_def c1_def ctrl_frame_def)
  have "same_request p p2" using h(2) b(6) by (metis same_request_upd(2))
  moreover have "acts_after ?act now (rk_actTicks (dr_ranks s ! mp_rank p)) (rk_actTicks (dr_ranks s' ! mp_rank p))"
    using b(10) h(2) unfolding acts_after_def Let_def same_request_def by (auto split: if_splits)
  moreover have "mp_rh_injectDelay p2 = mp_rh_injectDelay p1" "mp_rh_bankDelay p2 = mp_rh_bankDelay p1"
    by (subst b(6), simp)+
  then have def: "case ct_rh_defense c of None \<Rightarrow> df = None
     | Some f \<Rightarrow> if ?act then \<exists>f' dec. defense_access rnd f now p = Inr (f', dec) \<and> df = Some f' \<and>
           mp_rh_injectDelay p2 = d_mitigate dec \<and> mp_rh_bankDelay p2 = d_bank_delay dec else df = Some f"
    using h(3) by (auto simp: apply_decision_def split: option.splits if_splits)
  moreover have "now \<le> mp_readyTime p2" "mp_readyTime p2 \<le> nb + dp_tCL d + dp_tBURST d" "ct_nextBurstAt c \<le> nb"
    "ct_nextBurstAt c + dp_tCL d + dp_tBURST d \<le> mp_readyTime p2"
    using b(4,5,7) slack by simp_all
  ultimately show ?thesis using eq b(2,3,9) def
    by (intro exI[of _ "burst_done c2 p2 nb (commandOffset d)"] exI[of _ p2] exI[of _ s'] conjI)
      (simp_all only: done_fields c1_def simp_thms)
qed

text \<open>C4: The Rowhammer defense is exact: when the controller bursts a packet on a well-formed DRAM, no
  assertion fails (in particular the prediction of \<open>checkBurstACT\<close> is right), and the defense is given
  the packet's row exactly when the burst activates it; then its decision is what the burst is served
  with.  A burst that opens no row leaves the defense and the activation record of the rank alone.\<close>

theorem defense_sees_every_activation:
  assumes "ct_dram c = Some (d, s)" "ct_nvm c = None" "dram_wf d s" "bus_ok d (ct_commandWindow c) (ct_burstTicks c)"
    and "burst_pre s p" "\<not> mp_rh_injectDelay p" "mp_dram p" "0 < now" "dp_tCL d + dp_tBURST d \<le> 90000"
    and "ct_rh_defense c = Some f" "defense_access rnd f now p = Inr (f', dec)"
  shows "\<exists>c' p' s'. ctrl_doBurstAccess rnd c now p others = ok (c', p') \<and> ct_dram c' = Some (d, s') \<and>
    now \<le> mp_readyTime p' \<and> ct_nextBurstAt c \<le> ct_nextBurstAt c' \<and>
    (let ts = rk_actTicks (dr_ranks s ! mp_rank p); ts' = rk_actTicks (dr_ranks s' ! mp_rank p) in
     if checkBurstACT s p
     then ct_rh_defense c' = Some f' \<and> mp_rh_injectDelay p' = d_mitigate dec \<and> mp_rh_bankDelay p' = d_bank_delay dec \<and>
       (ts \<noteq> [] \<longrightarrow> (\<exists>at\<ge>now. ts' = at # butlast ts))
     else ct_rh_defense c' = Some f \<and> ts' = ts)"
proof -
  let ?c = "c\<lparr>ct_burstTicks := pruneBurstTick (ct_burstTicks c) now\<rparr>"
  have r: "defense_ready rnd (ct_rh_defense ?c) now p" using assms(10,11) by (simp add: defense_ready_def)
  obtain c' p' s' where b: "dram_burst rnd ?c now p others = ok (c', p')" "ct_dram c' = Some (d, s')" "now \<le> mp_readyTime p'"
    "ct_nextBurstAt ?c \<le> ct_nextBurstAt c'"
    "acts_after (checkBurstACT s p) now (rk_actTicks (dr_ranks s ! mp_rank p)) (rk_actTicks (dr_ranks s' ! mp_rank p))"
    "case ct_rh_defense ?c of None \<Rightarrow> ct_rh_defense c' = None
     | Some f \<Rightarrow> if checkBurstACT s p
         then \<exists>f' dec. defense_access rnd f now p = Inr (f', dec) \<and> ct_rh_defense c' = Some f' \<and>
           mp_rh_injectDelay p' = d_mitigate dec \<and> mp_rh_bankDelay p' = d_bank_delay dec
         else ct_rh_defense c' = Some f"
    using dram_burst_ok[OF _ _ assms(3) _ assms(5,6,8,9) r, of others] assms(1,2,4) prune_bus_ok by auto
  have "ctrl_doBurstAccess rnd c now p others = ok (c', p')" using b(1) assms(7) by (simp add: ctrl_doBurstAccess_def)
  then show ?thesis using b(2-6) assms(10,11) unfolding Let_def acts_after_def
    by (intro exI[of _ c'] exI[of _ p'] exI[of _ s']) (auto split: if_splits)
qed

text \<open>A channel protected by PrIDE, with 2 ranks of 16 banks of 4 rows.\<close>

definition pride_example :: defense where
  "pride_example = RFM (rfm_new rfm_example True 40 False 2 45000 175000 2 4 16 2 1 6)"

definition example_controller :: "dram \<Rightarrow> mem_ctrl \<Rightarrow> tick option \<Rightarrow> controller" where
  "example_controller s q ev = \<lparr>ct_q = q, ct_dram = Some (example_dram_params, s), ct_nvm = None, ct_burstTicks = {#},
     ct_commandWindow = 10, ct_busState = BUS_READ, ct_busStateNext = BUS_READ, ct_nextBurstAt = 28, ct_nextReqTime = 0,
     ct_respondEvent = ev, ct_drainState = Running, ct_readsThisTime = 0, ct_writesThisTime = 0, ct_writeHighThreshold = 50,
     ct_writeLowThreshold = 30, ct_minWritesPerSwitch = 16, ct_backendLatency = 20, ct_memSchedPolicy = frfcfs,
     ct_isTimingMode = True, ct_rh_mitigation = ''RFM'', ct_rh_defense = Some pride_example, ct_retries = 0, ct_s_readLat = 0,
     ct_s_readBytes = 0, ct_s_writeLat = 0, ct_s_writeBytes = 0, ct_s_numReadWriteTurnArounds = 0,
     ct_s_numWriteReadTurnArounds = 0, ct_s_numStayReadState = 0, ct_s_numStayWriteState = 0\<rparr>"

section \<open>What a defense promises\<close>

text \<open>A packet placed in an interface.\<close>

definition placed :: "mem_interface \<Rightarrow> mem_packet \<Rightarrow> bool" where
  "placed i p \<longleftrightarrow> mp_rank p < mi_ranksPerChannel i \<and> mp_bank p < mi_banksPerRank i \<and> mp_row p < mi_rowsPerBank i \<and>
     mp_bankId p = mp_rank p * mi_banksPerRank i + mp_bank p"

text \<open>The invariant of the controller, relative to the invariant \<open>dinv\<close> of its defense.  Packets are in
  the queue of their priority, were decoded for the DRAM, and carry no delay yet.\<close>

definition packet_ok :: "mem_interface \<Rightarrow> mem_ctrl \<Rightarrow> bool \<Rightarrow> nat \<Rightarrow> mem_packet \<Rightarrow> bool" where
  "packet_ok i q is_read prio p \<longleftrightarrow> mp_dram p \<and> mp_read p = is_read \<and> placed i p \<and> mp_qosValue p = prio \<and>
     \<not> mp_rh_injectDelay p \<and> mp_size p \<le> mi_burstSize i \<and> backed q (q_packets q (mp_pkt p))"

definition queues_ok :: "mem_interface \<Rightarrow> mem_ctrl \<Rightarrow> bool" where
  "queues_ok i q \<longleftrightarrow> q_wf q \<and> q_dram q = Some i \<and> q_nvm q = None \<and> length (q_readQueue q) = length (q_writeQueue q) \<and>
     (\<forall>prio<length (q_readQueue q). \<forall>p\<in>set (q_readQueue q ! prio). packet_ok i q True prio p) \<and>
     (\<forall>prio<length (q_writeQueue q). \<forall>p\<in>set (q_writeQueue q ! prio). packet_ok i q False prio p) \<and>
     (\<forall>p\<in>set (q_respQueue q). mp_dram p \<and> backed q (q_packets q (mp_pkt p))) \<and>
     q_isInWriteQueue q = (\<lambda>p. burstAlign (mi_burstSize i) (mp_addr p)) ` set (concat (q_writeQueue q))"

text \<open>Responses are ordered, the response event is at the first, and no later burst overtakes the last.\<close>

definition responses_ok :: "dram_params \<Rightarrow> controller \<Rightarrow> bool" where
  "responses_ok d c \<longleftrightarrow> (let rs = map mp_readyTime (q_respQueue (ct_q c)) in sorted rs \<and>
     ct_respondEvent c = (if rs = [] then None else Some (hd rs)) \<and>
     (rs \<noteq> [] \<longrightarrow> last rs \<le> ct_nextBurstAt c + dp_tCL d + dp_tBURST d))"

definition ctrl_inv :: "(defense \<Rightarrow> bool) \<Rightarrow> dram_params \<Rightarrow> dram \<Rightarrow> controller \<Rightarrow> bool" where
  "ctrl_inv dinv d s c \<longleftrightarrow> ct_dram c = Some (d, s) \<and> ct_nvm c = None \<and> dram_wf d s \<and>
     bus_ok d (ct_commandWindow c) (ct_burstTicks c) \<and> dp_tCL d + dp_tBURST d \<le> 90000 \<and>
     queues_ok (dp_iface d) (ct_q c) \<and> responses_ok d c \<and> (\<forall>f. ct_rh_defense c = Some f \<longrightarrow> dinv f)"

locale rh_contract =
  fixes rnd :: "nat \<Rightarrow> nat" and iface :: mem_interface and dinv :: "defense \<Rightarrow> bool"
  assumes answers: "dinv f \<Longrightarrow> placed iface p \<Longrightarrow> \<exists>f' dec. defense_access rnd f now p = Inr (f', dec) \<and> dinv f'"

text \<open>PrIDE keeps it: \<open>rfm_access\<close> answers every activation of its geometry.\<close>

definition pride_inv :: "mem_interface \<Rightarrow> defense \<Rightarrow> bool" where
  "pride_inv i f \<longleftrightarrow> (\<exists>s. f = RFM s \<and> rfm_wf s \<and> rfm_numBanks s = mi_banksPerRank i \<and>
     rfm_numRanks s = mi_ranksPerChannel i \<and> 0 < rfm_numChannels s) \<and> mi_rowsPerBank i \<le> NO_ROW"

lemma pride_answers:
  assumes "pride_inv i f" "placed i p"
  shows "\<exists>f' dec. defense_access rnd f now p = Inr (f', dec) \<and> pride_inv i f'"
proof -
  obtain s where s: "f = RFM s" "rfm_wf s" "rfm_numBanks s = mi_banksPerRank i" "rfm_numRanks s = mi_ranksPerChannel i"
    "0 < rfm_numChannels s" "mi_rowsPerBank i \<le> NO_ROW" using assms(1) by (auto simp: pride_inv_def)
  have p: "mp_bank p < rfm_numBanks s" "mp_rank p < rfm_numRanks s" "mp_row p < NO_ROW"
    using assms(2) s(3,4,6) by (simp_all add: placed_def)
  have "rfm_row_ok (mp_row p)" using p(3) by (simp add: rfm_row_ok_def to_int32_def NO_ROW_def)
  from rfm_access_spec[OF s(2) this p(1,2) s(5), of rnd now] obtain s' where
    s': "rfm_access rnd s now (mp_row p) (mp_bank p) (mp_rank p) 0 = Inr s'" "rfm_wf s'" "rfm_same_config s s'" by blast
  then have "pride_inv i (RFM s')" using s(3-6) by (simp add: pride_inv_def rfm_same_config_def)
  then show ?thesis using s(1) s'(1) by (simp add: defense_access_def)
qed

interpretation pride: rh_contract rnd i "pride_inv i" for rnd i
  by unfold_locales (rule pride_answers)

lemma pride_example_ok: "pride_inv example_interface pride_example"
  using tracker_new_default
  by (simp add: pride_inv_def pride_example_def rfm_wf_def rfm_new_def example_interface_def NO_ROW_def)

theorem defense_sees_every_activation_witness:
  "\<exists>c' p' f' dec. ctrl_doBurstAccess (\<lambda>_. 0) (example_controller (dram_start 2 16 4 2) (example_ctrl False) None) 7
       (example_burst 3 2) [[]] = ok (c', p') \<and>
     defense_access (\<lambda>_. 0) pride_example 7 (example_burst 3 2) = Inr (f', dec) \<and>
     ct_rh_defense c' = Some f' \<and> mp_rh_injectDelay p' = d_mitigate dec"
proof -
  let ?s = "dram_start 2 16 4 2" and ?p = "example_burst 3 2"
  let ?c = "example_controller ?s (example_ctrl False) None"
  have wf: "dram_wf example_dram_params ?s" using dram_start_wf[of example_dram_params 2 16 4] by (simp add: example_dram_params_def)
  have pre: "burst_pre ?s ?p" by (rule example_burst_pre) (simp_all add: NO_ROW_def)
  have act: "checkBurstACT ?s ?p"
    by (simp add: checkBurstACT_def packet_bank_def dram_start_def Rank_new_def Bank_new_def example_burst_def MemPacket_new_def NO_ROW_def)
  have c: "ct_dram ?c = Some (example_dram_params, ?s)" "ct_nvm ?c = None"
    "bus_ok example_dram_params (ct_commandWindow ?c) (ct_burstTicks ?c)" "ct_rh_defense ?c = Some pride_example"
    using example_bus_ok by (simp_all add: example_controller_def)
  have p: "\<not> mp_rh_injectDelay ?p" "mp_dram ?p" "(0::nat) < 7" "dp_tCL example_dram_params + dp_tBURST example_dram_params \<le> 90000"
    by (simp_all add: example_burst_def MemPacket_new_def example_dram_params_def)
  obtain f' dec where d: "defense_access (\<lambda>_. 0) pride_example 7 ?p = Inr (f', dec)"
    using pride_answers[OF pride_example_ok, of ?p "\<lambda>_. 0" 7] by (auto simp: placed_def example_burst_def MemPacket_new_def example_interface_def)
  show ?thesis
    using defense_sees_every_activation[OF c(1,2) wf c(3) pre p c(4) d, of "[[]]"] act d by (auto simp: Let_def)
qed

section \<open>Queues\<close>

lemma mset_concat_without:
  assumes "prio < length qs" "k < length (qs ! prio)"
  shows "mset (concat qs) = add_mset (qs ! prio ! k) (mset (concat (queues_without qs prio k)))"
proof -
  have q: "qs = take prio qs @ qs ! prio # drop (Suc prio) qs" using assms(1) by (rule id_take_nth_drop)
  have "queues_without qs prio k = take prio qs @ erase_at k (qs ! prio) # drop (Suc prio) qs"
    using assms(1) by (simp add: queues_without_def upd_conv_take_nth_drop)
  then have "mset (concat (queues_without qs prio k)) =
      mset (concat (take prio qs)) + mset (erase_at k (qs ! prio)) + mset (concat (drop (Suc prio) qs))" by simp
  moreover have "mset (concat qs) = mset (concat (take prio qs)) + mset (qs ! prio) + mset (concat (drop (Suc prio) qs))"
    by (subst q) (simp only: concat_append concat.simps mset_append add.assoc)
  ultimately show ?thesis using mset_erase_at[OF assms(2)] by simp
qed

lemma queue_size_concat: "queue_size qs = size (mset (concat qs))"
  by (simp add: queue_size_def length_concat)

lemma set_erase_at_subset: "set (erase_at k xs) \<subseteq> set xs"
  unfolding erase_at_def using set_take_subset[of k xs] set_drop_subset[of "Suc k" xs] by auto

lemma queues_without_facts:
  assumes "prio < length qs" "k < length (qs ! prio)"
  shows "length (queues_without qs prio k) = length qs" "queue_size qs = Suc (queue_size (queues_without qs prio k))"
    "j < length qs \<Longrightarrow> set (queues_without qs prio k ! j) \<subseteq> set (qs ! j)"
proof -
  show "length (queues_without qs prio k) = length qs" by (simp add: queues_without_def)
  show "queue_size qs = Suc (queue_size (queues_without qs prio k))"
    using mset_concat_without[OF assms] by (simp add: queue_size_concat)
  show "set (queues_without qs prio k ! j) \<subseteq> set (qs ! j)" if "j < length qs"
    using set_erase_at_subset[of k "qs ! prio"] that by (cases "j = prio") (simp_all add: queues_without_def)
qed

text \<open>The write index loses exactly the burst of the write that leaves.\<close>

lemma index_without:
  assumes "prio < length qs" "k < length (qs ! prio)" "card (f ` set (concat qs)) = queue_size qs"
  shows "f ` set (concat (queues_without qs prio k)) = f ` set (concat qs) - {f (qs ! prio ! k)}"
    "card (f ` set (concat (queues_without qs prio k))) = queue_size (queues_without qs prio k)"
proof -
  let ?p = "qs ! prio ! k" and ?xs = "concat (queues_without qs prio k)"
  have m: "mset (map f (concat qs)) = add_mset (f ?p) (mset (map f ?xs))"
    using mset_concat_without[OF assms(1,2)] by simp
  have "card (set (map f (concat qs))) = length (map f (concat qs))"
    using assms(3) by (simp add: queue_size_concat)
  then have "distinct (map f (concat qs))" by (rule card_distinct)
  then have "distinct (f ?p # map f ?xs)" using m by (metis mset_eq_imp_distinct_iff mset.simps(2))
  then have d: "f ?p \<notin> f ` set ?xs" "distinct (map f ?xs)" by simp_all
  have "set (concat qs) = insert ?p (set ?xs)"
    using arg_cong[OF mset_concat_without[OF assms(1,2)], of set_mset] by simp
  then show "f ` set ?xs = f ` set (concat qs) - {f ?p}" using d(1) by auto
  show "card (f ` set ?xs) = queue_size (queues_without qs prio k)"
    using distinct_card[OF d(2)] by (simp add: queue_size_concat)
qed

lemma queues_okD:
  assumes "queues_ok i q"
  shows "q_wf q" "q_dram q = Some i" "q_nvm q = None" "mi_wf i" "finite (q_isInWriteQueue q)"
    "q_totalReadQueueSize q = queue_size (q_readQueue q)" "q_totalWriteQueueSize q = queue_size (q_writeQueue q)"
    "q_totalWriteQueueSize q = card (q_isInWriteQueue q)"
    "q_isInWriteQueue q = (\<lambda>p. burstAlign (mi_burstSize i) (mp_addr p)) ` set (concat (q_writeQueue q))"
    "q_totalReadQueueSize q + length (q_respQueue q) \<le> q_readBufferSize q"
    "q_totalWriteQueueSize q \<le> q_writeBufferSize q"
  using assms by (auto simp: queues_ok_def q_wf_def)

lemma queues_ok_packet:
  assumes "queues_ok i q"
  shows "prio < length (q_readQueue q) \<Longrightarrow> k < length (q_readQueue q ! prio) \<Longrightarrow> packet_ok i q True prio (q_readQueue q ! prio ! k)"
    "prio < length (q_writeQueue q) \<Longrightarrow> k < length (q_writeQueue q ! prio) \<Longrightarrow> packet_ok i q False prio (q_writeQueue q ! prio ! k)"
  using assms by (simp_all add: queues_ok_def)

lemma packet_ok_cong:
  assumes "q_packets q' = q_packets q" "q_dram q' = q_dram q" "q_nvm q' = q_nvm q"
  shows "packet_ok i q' rd prio p = packet_ok i q rd prio p" "backed q' a = backed q a"
  by (simp_all add: packet_ok_def backed_cong[OF assms(2,3) refl] assms(1))

definition read_served :: "nat \<Rightarrow> nat \<Rightarrow> mem_packet \<Rightarrow> mem_ctrl \<Rightarrow> mem_ctrl" where
  "read_served prio k p q = q\<lparr>q_totalReadQueueSize := sub64 (q_totalReadQueueSize q) 1, q_respQueue := q_respQueue q @ [p],
     q_readQueue := queues_without (q_readQueue q) prio k\<rparr>"

lemma read_served_ok:
  assumes "queues_ok i q" "prio < length (q_readQueue q)" "k < length (q_readQueue q ! prio)"
    and "same_request (q_readQueue q ! prio ! k) p"
  shows "queues_ok i (read_served prio k p q)"
proof -
  let ?q = "read_served prio k p q"
  note w = queues_without_facts[OF assms(2,3)] and D = queues_okD[OF assms(1)]
  have cg: "packet_ok i ?q rd pr x = packet_ok i q rd pr x" "backed ?q a = backed q a" for rd pr x a
    by (rule packet_ok_cong; simp add: read_served_def)+
  have p: "mp_dram p" "mp_pkt p = mp_pkt (q_readQueue q ! prio ! k)" "backed q (q_packets q (mp_pkt p))"
    using queues_ok_packet(1)[OF assms(1-3)] assms(4) by (simp_all add: packet_ok_def same_request_def)
  have t: "sub64 (q_totalReadQueueSize q) 1 = queue_size (queues_without (q_readQueue q) prio k)"
    using D(6) w(2) by (simp add: sub64_def)
  have "q_wf ?q" using D(1) t D(6,10) w(2) by (simp add: q_wf_def read_served_def)
  moreover have "\<forall>pr<length (q_readQueue ?q). \<forall>x\<in>set (q_readQueue ?q ! pr). packet_ok i q True pr x"
    using assms(1) w(1) subsetD[OF w(3)] unfolding queues_ok_def read_served_def by simp
  ultimately show ?thesis using assms(1) p w(1) unfolding queues_ok_def cg
    by (simp add: read_served_def)
qed

definition write_served :: "nat \<Rightarrow> nat \<Rightarrow> addr \<Rightarrow> mem_ctrl \<Rightarrow> mem_ctrl" where
  "write_served prio k a q = q\<lparr>q_isInWriteQueue := q_isInWriteQueue q - {a},
     q_totalWriteQueueSize := sub64 (q_totalWriteQueueSize q) 1, q_writeQueue := queues_without (q_writeQueue q) prio k\<rparr>"

lemma write_served_ok:
  assumes "queues_ok i q" "prio < length (q_writeQueue q)" "k < length (q_writeQueue q ! prio)"
    and "a = burstAlign (mi_burstSize i) (mp_addr (q_writeQueue q ! prio ! k))"
  shows "queues_ok i (write_served prio k a q)"
proof -
  let ?q = "write_served prio k a q" and ?f = "\<lambda>p. burstAlign (mi_burstSize i) (mp_addr p)"
  note w = queues_without_facts[OF assms(2,3)] and D = queues_okD[OF assms(1)]
  have cg: "packet_ok i ?q rd pr x = packet_ok i q rd pr x" "backed ?q b = backed q b" for rd pr x b
    by (rule packet_ok_cong; simp add: write_served_def)+
  have t: "sub64 (q_totalWriteQueueSize q) 1 = queue_size (queues_without (q_writeQueue q) prio k)"
    using D(7) w(2) by (simp add: sub64_def)
  have "card (?f ` set (concat (q_writeQueue q))) = queue_size (q_writeQueue q)" using D(7,8,9) by simp
  note ix = index_without[OF assms(2,3) this]
  have ix1: "q_isInWriteQueue q - {a} = ?f ` set (concat (queues_without (q_writeQueue q) prio k))"
    using ix(1) D(9) assms(4) by simp
  have "q_wf ?q" using D(1) t D(7,11) w(2) ix(2) ix1 by (simp add: q_wf_def write_served_def)
  moreover have "\<forall>pr<length (q_writeQueue ?q). \<forall>x\<in>set (q_writeQueue ?q ! pr). packet_ok i q False pr x"
    using assms(1) w(1) subsetD[OF w(3)] unfolding queues_ok_def write_served_def by simp
  moreover have "q_isInWriteQueue ?q = ?f ` set (concat (q_writeQueue ?q))" using ix1 by (simp add: write_served_def)
  ultimately show ?thesis using assms(1) w(1) unfolding queues_ok_def cg
    by (simp add: write_served_def)
qed

section \<open>Choosing\<close>

text \<open>A rank whose events let the controller go on: not in self-refresh (power-down is off), no refresh
  event pending while it waits to be drained, no wake-up pending while it may be burst to.\<close>

definition rank_calm :: "dram_rank \<Rightarrow> bool" where
  "rank_calm r \<longleftrightarrow> rk_pwrState r \<noteq> PWR_SREF \<and> (rk_refreshState r = REF_DRAIN \<longrightarrow> rk_refreshEvent r = None) \<and>
     (rk_refreshState r = REF_IDLE \<and> rk_inLowPowerState r \<longrightarrow> rk_wakeUpEvent r = None)"

definition sched_ready :: "dram_params \<Rightarrow> dram \<Rightarrow> mem_ctrl \<Rightarrow> tick \<Rightarrow> bool" where
  "sched_ready d s q now \<longleftrightarrow> 0 < now \<and> (\<forall>r\<in>set (dr_ranks s). rank_calm r) \<and>
     (\<forall>x\<in>set (q_readQueue q) \<union> set (q_writeQueue q). queue_ok d now (dr_ranks s) x)"

text \<open>Asking the ranks whether they are busy may start a refresh that waited for draining, no more.\<close>

definition rank_asked :: "tick \<Rightarrow> dram_rank \<Rightarrow> dram_rank \<Rightarrow> bool" where
  "rank_asked now r r' \<longleftrightarrow> r' = r \<or> rk_refreshState r = REF_DRAIN \<and> r' = r\<lparr>rk_refreshState := REF_PD_EXIT, rk_refreshEvent := Some now\<rparr>"

lemma busy_loop_calm:
  assumes "\<forall>r\<in>set rs. rank_calm r"
  shows "\<exists>rs' n. busy_loop d e rs = Inr (rs', n) \<and> list_all2 (rank_asked (en_now e)) rs rs'"
  using assms
proof (induction rs)
  case (Cons r rs)
  obtain rs' n where rs: "busy_loop d e rs = Inr (rs', n)" "list_all2 (rank_asked (en_now e)) rs rs'" using Cons by auto
  have "\<exists>r' b. rank_busy d e r = Inr (r', b) \<and> rank_asked (en_now e) r r'"
    using Cons.prems by (auto simp: rank_busy_def rank_calm_def checkDrainDone_def schedule_def inRefIdleState_def rank_asked_def)
  then obtain r' b where "rank_busy d e r = Inr (r', b)" "rank_asked (en_now e) r r'" by blast
  then show ?case using rs by simp
qed simp

lemma rank_asked_facts:
  assumes "rank_asked now r r'"
  shows "rank_wf d r' = rank_wf d r" "rk_banks r' = rk_banks r" "rank_calm r \<Longrightarrow> inRefIdleState r' \<Longrightarrow> rank_calm r'"
  using assms by (auto simp: rank_asked_def rank_wf_def rank_calm_def inRefIdleState_def)

lemma isBusy_calm:
  assumes "dram_wf d s" "sched_ready d s q now" "en_now e = now"
  shows "\<exists>rs busy. isBusy d e (dr_ranks s) = Inr (rs, busy) \<and> dram_wf d (s\<lparr>dr_ranks := rs\<rparr>) \<and>
    (\<forall>x\<in>set (q_readQueue q) \<union> set (q_writeQueue q). queue_ok d now rs x) \<and>
    (\<forall>r\<in>set rs. inRefIdleState r \<longrightarrow> rank_calm r)"
proof -
  obtain rs n where b: "busy_loop d e (dr_ranks s) = Inr (rs, n)" "list_all2 (rank_asked now) (dr_ranks s) rs"
    using busy_loop_calm[of "dr_ranks s" d e] assms(2,3) by (auto simp: sched_ready_def)
  note nth = list_all2_nthD2[OF b(2)] and len = list_all2_lengthD[OF b(2)]
  have wf: "rank_wf d (rs ! j)" if "j < length rs" for j
    using rank_asked_facts(1)[OF nth[OF that]] assms(1) that len by (simp add: dram_wf_def)
  have calm: "rank_calm (rs ! j)" if "j < length rs" "inRefIdleState (rs ! j)" for j
    using rank_asked_facts(3)[OF nth[OF that(1)] _ that(2)] assms(2) that(1) len by (simp add: sched_ready_def)
  have banks: "map rk_banks rs = map rk_banks (dr_ranks s)"
    using len rank_asked_facts(2)[OF nth] by (intro nth_equalityI) simp_all
  have qk: "queue_ok d now rs x = queue_ok d now (dr_ranks s) x" for x
  proof -
    have "(\<forall>r\<in>set rs. P (rk_banks r)) = (\<forall>r\<in>set (dr_ranks s). P (rk_banks r))" for P
      using arg_cong[OF banks, of set] by auto (metis image_eqI imageE)+
    note bk = this
    show ?thesis unfolding queue_ok_def len[symmetric]
      using bk[of "\<lambda>ks. length ks = _"] bk[of "\<lambda>ks. \<forall>b\<in>set ks. max (bk_actAllowedAt b) now < 2 ^ 64 \<and> max (bk_preAllowedAt b) now + dp_tRP d < 2 ^ 64"]
      by simp
  qed
  have "isBusy d e (dr_ranks s) = Inr (rs, n = length (dr_ranks s))" using b(1) by (simp add: isBusy_def)
  moreover have "dram_wf d (s\<lparr>dr_ranks := rs\<rparr>)" using wf by (auto simp: dram_wf_def in_set_conv_nth)
  moreover have "\<forall>r\<in>set rs. inRefIdleState r \<longrightarrow> rank_calm r" using calm by (auto simp: in_set_conv_nth)
  ultimately show ?thesis using assms(2) qk by (auto simp: sched_ready_def)
qed

text \<open>What the choice of a packet gives on a DRAM channel.\<close>

definition choosable :: "dram \<Rightarrow> mem_packet list \<Rightarrow> nat \<Rightarrow> bool" where
  "choosable s x k \<longleftrightarrow> k < length x \<and> burstReady (dr_ranks s) (x ! k)"

lemma first_ready_ok:
  assumes "ct_dram c = Some (d, s)" "\<forall>p\<in>set x. mp_dram p"
  shows "\<exists>r. first_ready c now n x = Inr r \<and> (\<forall>k. r = Some k \<longrightarrow> n \<le> k \<and> k < n + length x \<and> burstReady (dr_ranks s) (x ! (k - n)))"
  using assms(2)
proof (induction x arbitrary: n)
  case (Cons p x)
  obtain r where r: "first_ready c now (n + 1) x = Inr r"
    "\<forall>k. r = Some k \<longrightarrow> n + 1 \<le> k \<and> k < n + 1 + length x \<and> burstReady (dr_ranks s) (x ! (k - (n + 1)))"
    using Cons.IH[of "n + 1"] Cons.prems by auto
  have p: "packetReady c now p = Inr (burstReady (dr_ranks s) p)" using assms(1) Cons.prems by (simp add: packetReady_def)
  show ?case
  proof (cases "burstReady (dr_ranks s) p")
    case True
    then show ?thesis using p by simp
  next
    case False
    have "burstReady (dr_ranks s) ((p # x) ! (k - n)) \<and> n \<le> k \<and> k < n + length (p # x)" if "r = Some k" for k
    proof -
      have "n + 1 \<le> k" "k < n + 1 + length x" "burstReady (dr_ranks s) (x ! (k - (n + 1)))" using r(2) that by auto
      moreover from this(1) obtain j where "k = n + 1 + j" using le_Suc_ex by blast
      ultimately show ?thesis by simp
    qed
    then show ?thesis using p r(1) False by simp
  qed
qed simp

lemma chooseNext_ok:
  assumes "ct_dram c = Some (d, s)" "ct_nvm c = None" "\<forall>p\<in>set x. mp_dram p" "queue_ok d now (dr_ranks s) x"
  shows "\<exists>r. chooseNext c now x extra = Inr r \<and> (\<forall>k. r = Some k \<longrightarrow> choosable s x k)"
proof -
  consider "x = []" | "length x = 1" | "x \<noteq> []" "length x \<noteq> 1" "ct_memSchedPolicy c = fcfs"
    | "x \<noteq> []" "length x \<noteq> 1" "ct_memSchedPolicy c = frfcfs" by (cases "ct_memSchedPolicy c") blast+
  then show ?thesis
  proof cases
    case 1
    then show ?thesis by (simp add: chooseNext_def)
  next
    case 2
    then obtain p where "x = [p]" by (auto simp: length_Suc_conv)
    then show ?thesis using assms(1,3) by (simp add: chooseNext_def packetReady_def choosable_def)
  next
    case 3
    then show ?thesis using first_ready_ok[OF assms(1,3), of now 0] by (simp add: chooseNext_def choosable_def)
  next
    case 4
    obtain sel col where f: "dram_chooseNextFRFCFS d now (ct_busState c) (dr_ranks s) x (max (ct_nextBurstAt c + extra) now) = Inr (sel, col)"
      "\<forall>k. sel = Some k \<longrightarrow> k < length x \<and> candidate (dr_ranks s) (x ! k)"
      using frfcfs_choice_spec[OF assms(4), of "ct_busState c" "max (ct_nextBurstAt c + extra) now"] by blast
    then show ?thesis using 4 assms(1,2)
      by (auto simp: chooseNext_def ctrl_chooseNextFRFCFS_def Let_def choosable_def candidate_def)
  qed
qed

lemma choose_prio_ok:
  assumes "ct_dram c = Some (d, s)" "ct_nvm c = None" "\<forall>x\<in>set qs. (\<forall>p\<in>set x. mp_dram p) \<and> queue_ok d now (dr_ranks s) x"
    and "n \<le> length qs"
  shows "\<exists>r. choose_prio c now qs extra n = Inr r \<and> (\<forall>prio k. r = Some (prio, k) \<longrightarrow> prio < n \<and> choosable s (qs ! prio) k)"
  using assms(4)
proof (induction n)
  case (Suc n)
  have q: "\<forall>p\<in>set (qs ! n). mp_dram p" "queue_ok d now (dr_ranks s) (qs ! n)"
    using assms(3) nth_mem[of n qs] Suc.prems by (auto simp del: nth_mem)
  obtain r where r: "chooseNext c now (qs ! n) extra = Inr r" "\<forall>k. r = Some k \<longrightarrow> choosable s (qs ! n) k"
    using chooseNext_ok[OF assms(1,2) q] by blast
  obtain r' where r': "choose_prio c now qs extra n = Inr r'" "\<forall>prio k. r' = Some (prio, k) \<longrightarrow> prio < n \<and> choosable s (qs ! prio) k"
    using Suc by auto
  show ?case
  proof (cases r)
    case None
    then show ?thesis using r(1) r' by (auto intro: less_SucI)
  next
    case (Some k)
    then show ?thesis using r by simp
  qed
qed simp

section \<open>The scheduler event\<close>

lemma ctrl_invD:
  assumes "ctrl_inv dinv d s c"
  shows "ct_dram c = Some (d, s)" "ct_nvm c = None" "dram_wf d s" "bus_ok d (ct_commandWindow c) (ct_burstTicks c)"
    "dp_tCL d + dp_tBURST d \<le> 90000" "queues_ok (dp_iface d) (ct_q c)" "responses_ok d c"
    "\<And>f. ct_rh_defense c = Some f \<Longrightarrow> dinv f"
  using assms by (simp_all add: ctrl_inv_def)

text \<open>The packet a choice gives can be burst.\<close>

lemma choosable_burst_pre:
  assumes "queues_ok (dp_iface d) q" "packet_ok (dp_iface d) q rd prio (x ! k)" "choosable s x k" "queue_ok d now (dr_ranks s) x"
    and "\<forall>r\<in>set (dr_ranks s). inRefIdleState r \<longrightarrow> rank_calm r"
  shows "burst_pre s (x ! k)"
proof -
  let ?p = "x ! k"
  have k: "?p \<in> set x" "inRefIdleState (dr_ranks s ! mp_rank ?p)" using assms(3) by (simp_all add: choosable_def burstReady_def)
  have p: "mp_dram ?p" "mp_row ?p < NO_ROW" "\<not> mp_rh_injectDelay ?p"
    using assms(2) queues_okD(4)[OF assms(1)] by (auto simp: packet_ok_def placed_def mi_wf_def)
  have r: "mp_rank ?p < length (dr_ranks s)" "mp_bank ?p < length (rk_banks (dr_ranks s ! mp_rank ?p))"
    using queue_okD[OF assms(4) k(1) p(1)] by simp_all
  then have "rank_calm (dr_ranks s ! mp_rank ?p)" using assms(5) k(2) by simp
  then show ?thesis using k(2) p r by (simp add: burst_pre_def rank_calm_def inRefIdleState_def)
qed

context rh_contract
begin

lemma defense_burst:
  assumes "ctrl_inv dinv d s c" "dp_iface d = iface" "packet_ok iface (ct_q c) rd prio p" "burst_pre s p" "0 < now"
  shows "\<exists>c' p' s'. ctrl_doBurstAccess rnd c now p others = ok (c', p') \<and> ct_dram c' = Some (d, s') \<and> dram_wf d s' \<and>
    bus_ok d (ct_commandWindow c') (ct_burstTicks c') \<and> ctrl_frame c c' \<and> same_request p p' \<and> now \<le> mp_readyTime p' \<and>
    ct_nextBurstAt c + dp_tCL d + dp_tBURST d \<le> mp_readyTime p' \<and> mp_readyTime p' \<le> ct_nextBurstAt c' + dp_tCL d + dp_tBURST d \<and>
    ct_nextBurstAt c \<le> ct_nextBurstAt c' \<and> (\<forall>f. ct_rh_defense c' = Some f \<longrightarrow> dinv f)"
proof -
  note I = ctrl_invD[OF assms(1)]
  let ?c = "c\<lparr>ct_burstTicks := pruneBurstTick (ct_burstTicks c) now\<rparr>"
  have p: "mp_dram p" "placed iface p" "\<not> mp_rh_injectDelay p" using assms(3) by (simp_all add: packet_ok_def)
  have a: "\<exists>f' dec. defense_access rnd f now p = Inr (f', dec) \<and> dinv f'" if "ct_rh_defense c = Some f" for f
    using answers[OF I(8)[OF that] p(2)] .
  then have r: "defense_ready rnd (ct_rh_defense ?c) now p" unfolding defense_ready_def by simp blast
  have 1: "ct_dram ?c = Some (d, s)" "ct_nvm ?c = None" "bus_ok d (ct_commandWindow ?c) (ct_burstTicks ?c)"
    using I(1,2) prune_bus_ok[OF I(4)] by simp_all
  obtain c' p' s' where b: "dram_burst rnd ?c now p others = ok (c', p')" "ct_dram c' = Some (d, s')" "dram_wf d s'"
    "bus_ok d (ct_commandWindow c') (ct_burstTicks c')" "ctrl_frame ?c c'" "same_request p p'" "now \<le> mp_readyTime p'"
    "ct_nextBurstAt ?c + dp_tCL d + dp_tBURST d \<le> mp_readyTime p'" "mp_readyTime p' \<le> ct_nextBurstAt c' + dp_tCL d + dp_tBURST d"
    "ct_nextBurstAt ?c \<le> ct_nextBurstAt c'"
    "case ct_rh_defense ?c of None \<Rightarrow> ct_rh_defense c' = None
     | Some f \<Rightarrow> if checkBurstACT s p
         then \<exists>f' dec. defense_access rnd f now p = Inr (f', dec) \<and> ct_rh_defense c' = Some f' \<and>
           mp_rh_injectDelay p' = d_mitigate dec \<and> mp_rh_bankDelay p' = d_bank_delay dec
         else ct_rh_defense c' = Some f"
    using dram_burst_ok[OF 1(1,2) I(3) 1(3) assms(4) p(3) assms(5) I(5) r, of others] by blast
  have "ctrl_doBurstAccess rnd c now p others = ok (c', p')" using b(1) p(1) by (simp add: ctrl_doBurstAccess_def)
  moreover have "dinv f'" if f': "ct_rh_defense c' = Some f'" for f'
  proof -
    obtain f where f: "ct_rh_defense c = Some f" using b(11) f' by (cases "ct_rh_defense c") auto
    show ?thesis using b(11) f f' a[OF f] I(8)[OF f] by (auto split: if_splits)
  qed
  moreover have "ctrl_frame c c'" using b(5) by (simp add: ctrl_frame_def)
  ultimately show ?thesis using b(2-4,6-10) by auto
qed

lemma serve_read_ok:
  assumes "ctrl_inv dinv d s c" "dp_iface d = iface" "prio < length (q_readQueue (ct_q c))"
    and "choosable s (q_readQueue (ct_q c) ! prio) k" "queue_ok d now (dr_ranks s) (q_readQueue (ct_q c) ! prio)"
    and "\<forall>r\<in>set (dr_ranks s). inRefIdleState r \<longrightarrow> rank_calm r" "0 < now"
  shows "\<exists>c' s'. serve_read rnd c now aw prio k = ok c' \<and> ctrl_inv dinv d s' c' \<and>
    length (q_respQueue (ct_q c')) = length (q_respQueue (ct_q c)) + 1"
proof -
  note I = ctrl_invD[OF assms(1)]
  let ?q = "ct_q c"
  let ?p = "q_readQueue ?q ! prio ! k"
  have k: "k < length (q_readQueue ?q ! prio)" using assms(4) by (simp add: choosable_def)
  have p: "packet_ok (dp_iface d) ?q True prio ?p" using queues_ok_packet(1)[OF I(6) assms(3) k] .
  have pre: "burst_pre s ?p" using choosable_burst_pre[OF I(6) p assms(4-6)] .
  obtain c1 p1 s1 where b: "ctrl_doBurstAccess rnd c now ?p (queues_without (q_readQueue ?q) prio k) = ok (c1, p1)"
    "ct_dram c1 = Some (d, s1)" "dram_wf d s1" "bus_ok d (ct_commandWindow c1) (ct_burstTicks c1)" "ctrl_frame c c1"
    "same_request ?p p1" "now \<le> mp_readyTime p1" "ct_nextBurstAt c + dp_tCL d + dp_tBURST d \<le> mp_readyTime p1"
    "mp_readyTime p1 \<le> ct_nextBurstAt c1 + dp_tCL d + dp_tBURST d" "ct_nextBurstAt c \<le> ct_nextBurstAt c1"
    "\<forall>f. ct_rh_defense c1 = Some f \<longrightarrow> dinv f"
    using defense_burst[OF assms(1,2) _ pre assms(7)] p assms(2) by blast
  have F: "ct_q c1 = ?q" "ct_nvm c1 = None" "ct_respondEvent c1 = ct_respondEvent c" using b(5) by (simp_all add: ctrl_frame_def)
  have P: "mp_dram p1" "mp_size p1 \<le> mi_burstSize (dp_iface d)" "mp_qosValue p1 = prio"
    using p b(6) by (simp_all add: packet_ok_def same_request_def)
  have bytes: "ctrl_bytesPerBurst c1 (mp_dram p1) = Inr (mi_burstSize (dp_iface d))"
    using P(1) F(1) queues_okD(2)[OF I(6)] by (simp add: ctrl_bytesPerBurst_def interface_of_def)
  define ev where "ev = (if q_respQueue ?q = [] then Some (mp_readyTime p1) else ct_respondEvent c1)"
  define c2 where "c2 = upd_q (\<lambda>q. q\<lparr>q_totalReadQueueSize := sub64 (q_totalReadQueueSize q) 1,
      q_respQueue := q_respQueue q @ [p1]\<rparr>) (c1\<lparr>ct_respondEvent := ev\<rparr>)"
  have R: "sorted (map mp_readyTime (q_respQueue ?q))"
    "ct_respondEvent c = (if q_respQueue ?q = [] then None else Some (mp_readyTime (hd (q_respQueue ?q))))"
    "q_respQueue ?q \<noteq> [] \<Longrightarrow> mp_readyTime (last (q_respQueue ?q)) \<le> ct_nextBurstAt c + dp_tCL d + dp_tBURST d"
    using I(7) by (auto simp: responses_ok_def Let_def hd_map last_map)
  have L: "q_respQueue ?q = [] \<or> mp_readyTime (last (q_respQueue ?q)) \<le> mp_readyTime p1" using R(3) b(8) by force
  have push: "push_response (upd_q (logResponse True) c1) now p1 = Inr c2"
    using R(2) L b(7) F by (auto simp: push_response_def c2_def ev_def upd_q_def logResponse_def schedule_def)
  define c3 where "c3 = (if ct_writeHighThreshold c2 < q_totalWriteQueueSize (ct_q c2) \<and> \<not> nvm_write_stall c2 aw
                    then c2\<lparr>ct_busStateNext := BUS_WRITE\<rparr> else c2)"
  define c4 where "c4 = upd_q (\<lambda>q. q\<lparr>q_readQueue := queues_without (q_readQueue q) prio k\<rparr>) c3"
  have eq: "serve_read rnd c now aw prio k = ok c4"
    unfolding serve_read_def Let_def b(1) obind_ok prod.case bytes rbind_Inr push c3_def[symmetric] c4_def[symmetric]
    using P b(7) by simp
  have c4: "ct_q c4 = read_served prio k p1 ?q" "ct_dram c4 = Some (d, s1)" "ct_nvm c4 = None"
    "ct_commandWindow c4 = ct_commandWindow c1" "ct_burstTicks c4 = ct_burstTicks c1" "ct_respondEvent c4 = ev"
    "ct_nextBurstAt c4 = ct_nextBurstAt c1" "ct_rh_defense c4 = ct_rh_defense c1"
    using F b(2) by (simp_all add: c4_def c3_def c2_def upd_q_def read_served_def)
  have last: "\<forall>x\<in>set (q_respQueue ?q). mp_readyTime x \<le> mp_readyTime p1"
  proof
    fix x assume x: "x \<in> set (q_respQueue ?q)"
    then have "mp_readyTime x \<le> mp_readyTime (last (q_respQueue ?q))"
      using R(1) by (cases "q_respQueue ?q" rule: rev_cases) (auto simp: sorted_append)
    then show "mp_readyTime x \<le> mp_readyTime p1" using R(3) x b(8) by force
  qed
  have "responses_ok d c4"
    using R(1,2) last b(9) F(3) c4(1,6,7)
    by (auto simp: responses_ok_def Let_def read_served_def sorted_append ev_def hd_map hd_append)
  then have "ctrl_inv dinv d s1 c4"
    using b(3,4,11) c4 I(5) read_served_ok[OF I(6) assms(3) k b(6)] by (simp add: ctrl_inv_def)
  moreover have "length (q_respQueue (ct_q c4)) = length (q_respQueue ?q) + 1" by (simp add: c4(1) read_served_def)
  ultimately show ?thesis using eq by blast
qed

lemma serve_write_ok:
  assumes "ctrl_inv dinv d s c" "dp_iface d = iface" "prio < length (q_writeQueue (ct_q c))"
    and "choosable s (q_writeQueue (ct_q c) ! prio) k" "queue_ok d now (dr_ranks s) (q_writeQueue (ct_q c) ! prio)"
    and "\<forall>r\<in>set (dr_ranks s). inRefIdleState r \<longrightarrow> rank_calm r" "0 < now"
  shows "\<exists>c' s'. serve_write rnd c now aw prio k = ok c' \<and> ctrl_inv dinv d s' c'"
proof -
  note I = ctrl_invD[OF assms(1)]
  let ?q = "ct_q c"
  let ?p = "q_writeQueue ?q ! prio ! k" and ?b = "mi_burstSize (dp_iface d)"
  have k: "k < length (q_writeQueue ?q ! prio)" using assms(4) by (simp add: choosable_def)
  have p: "packet_ok (dp_iface d) ?q False prio ?p" using queues_ok_packet(2)[OF I(6) assms(3) k] .
  have pre: "burst_pre s ?p" using choosable_burst_pre[OF I(6) p assms(4-6)] .
  obtain c1 p1 s1 where b: "ctrl_doBurstAccess rnd c now ?p (queues_without (q_writeQueue ?q) prio k) = ok (c1, p1)"
    "ct_dram c1 = Some (d, s1)" "dram_wf d s1" "bus_ok d (ct_commandWindow c1) (ct_burstTicks c1)" "ctrl_frame c c1"
    "same_request ?p p1" "ct_nextBurstAt c \<le> ct_nextBurstAt c1" "\<forall>f. ct_rh_defense c1 = Some f \<longrightarrow> dinv f"
    using defense_burst[OF assms(1,2) _ pre assms(7)] p assms(2) by blast
  have F: "ct_q c1 = ?q" "ct_nvm c1 = None" "ct_respondEvent c1 = ct_respondEvent c" using b(5) by (simp_all add: ctrl_frame_def)
  have P: "mp_dram ?p" "mp_size ?p \<le> ?b" "mp_qosValue p1 = prio" "mp_addr p1 = mp_addr ?p"
    using p b(6) by (simp_all add: packet_ok_def same_request_def)
  have bytes: "ctrl_bytesPerBurst c (mp_dram ?p) = Inr ?b"
    using P(1) queues_okD(2)[OF I(6)] by (simp add: ctrl_bytesPerBurst_def interface_of_def)
  define c2 where "c2 = upd_q (\<lambda>q. (logResponse False (q\<lparr>q_isInWriteQueue := q_isInWriteQueue q - {burstAlign ?b (mp_addr p1)}\<rparr>))
                        \<lparr>q_writeQueue := queues_without (q_writeQueue q) prio k\<rparr>) c1"
  have q2: "ct_q c2 = write_served prio k (burstAlign ?b (mp_addr p1)) ?q"
    using F(1) by (simp add: c2_def upd_q_def logResponse_def write_served_def)
  have qk: "queues_ok (dp_iface d) (ct_q c2)" unfolding q2 using write_served_ok[OF I(6) assms(3) k] P(4) by simp
  have "responses_ok d c2"
    using I(7) F b(7) q2 by (auto simp: responses_ok_def Let_def c2_def upd_q_def write_served_def logResponse_def)
  then have c2: "ctrl_inv dinv d s1 c2"
    using b(2-4,8) I(5) qk F(2) by (simp add: ctrl_inv_def c2_def upd_q_def)
  have c2': "ctrl_inv dinv d s1 (c2\<lparr>ct_busStateNext := BUS_READ\<rparr>)"
    using c2 by (simp add: ctrl_inv_def responses_ok_def)
  have np: "\<not> \<not> mp_size ?p \<le> ?b" "\<not> mp_qosValue p1 \<noteq> prio" using P(2,3) by simp_all
  show ?thesis
    unfolding serve_write_def Let_def bytes b(1) obind_ok prod.case c2_def[symmetric]
    using np c2 c2' by auto
qed

end

end
