(* ===== verification/Ctrl_Steps.thy ===== *)
theory Ctrl_Steps
  imports Ctrl_Safety
begin

text \<open>
  The controller of a protected DRAM channel as a whole: a request that arrives, the scheduler event and
  the response event each keep the invariant of \<open>Ctrl_Safety\<close> and fail no assertion, whatever the order
  in which they come; the properties are stated for a controller protected by PrIDE.
\<close>

section \<open>The scheduler event\<close>

lemma ctrl_inv_cong:
  assumes "ct_q c' = ct_q c" "ct_dram c' = ct_dram c" "ct_nvm c' = ct_nvm c" "ct_commandWindow c' = ct_commandWindow c"
    "ct_burstTicks c' = ct_burstTicks c" "ct_respondEvent c' = ct_respondEvent c" "ct_nextBurstAt c' = ct_nextBurstAt c"
    "ct_rh_defense c' = ct_rh_defense c"
  shows "ctrl_inv dinv d s c' = ctrl_inv dinv d s c"
  by (simp add: ctrl_inv_def responses_ok_def assms)

lemma queues_ok_cong:
  assumes "queues_ok i q" "q_dram q' = q_dram q" "q_nvm q' = q_nvm q" "\<And>x. access_key (q_packets q' x) = access_key (q_packets q x)"
    and "q_readQueue q' = q_readQueue q" "q_writeQueue q' = q_writeQueue q" "q_isInWriteQueue q' = q_isInWriteQueue q"
    and "set (q_respQueue q') \<subseteq> set (q_respQueue q)" "length (q_respQueue q') \<le> length (q_respQueue q)"
    and "q_totalReadQueueSize q' = q_totalReadQueueSize q" "q_totalWriteQueueSize q' = q_totalWriteQueueSize q"
    and "q_readBufferSize q' = q_readBufferSize q" "q_writeBufferSize q' = q_writeBufferSize q"
  shows "queues_ok i q'"
proof -
  have m: "backed q' (q_packets q' x) = backed q (q_packets q x)" for x by (rule backed_cong[OF assms(2-4)])
  then have p: "packet_ok i q' rd pr x = packet_ok i q rd pr x" for rd pr x by (simp add: packet_ok_def m)
  have "q_wf q'" using queues_okD(1)[OF assms(1)] assms(9) by (simp add: q_wf_def assms(2,3,5-7,10-13))
  then show ?thesis using assms(1,8) unfolding queues_ok_def p m by (auto simp: assms(2-7))
qed

lemma next_turn_keeps:
  fixes c :: controller and tp :: "(controller \<Rightarrow> bus_state) option"
  defines "c' \<equiv> fst (next_turn tp c)"
  shows "ct_q c' = ct_q c" "ct_dram c' = ct_dram c" "ct_nvm c' = ct_nvm c" "ct_commandWindow c' = ct_commandWindow c"
    "ct_burstTicks c' = ct_burstTicks c" "ct_respondEvent c' = ct_respondEvent c" "ct_nextBurstAt c' = ct_nextBurstAt c"
    "ct_rh_defense c' = ct_rh_defense c"
  unfolding c'_def next_turn_def recordTurnaroundStats_def by (simp_all add: Let_def split: option.split)

lemma next_turn_inv:
  assumes "next_turn tp c = (c', sw)" "ctrl_inv dinv d s c"
  shows "ctrl_inv dinv d s c'" "ct_q c' = ct_q c"
  using next_turn_keeps[where c = c and tp = tp] ctrl_inv_cong[of c' c] assms by simp_all

lemma next_finish_ok:
  assumes "ctrl_inv dinv d s c"
  shows "\<exists>c'. next_finish c now = Inr c' \<and> ctrl_inv dinv d s c' \<and> q_nextReqEvent (ct_q c') \<noteq> None \<and>
    q_respQueue (ct_q c') = q_respQueue (ct_q c)"
proof -
  have "\<exists>c1. (if q_nextReqEvent (ct_q c) = None
            then rbind (schedule now None (max (ct_nextReqTime c) now)) (\<lambda>ev. Inr (upd_q (\<lambda>q. q\<lparr>q_nextReqEvent := ev\<rparr>) c))
            else Inr c) = Inr c1 \<and> ctrl_inv dinv d s c1 \<and> q_nextReqEvent (ct_q c1) \<noteq> None \<and> q_respQueue (ct_q c1) = q_respQueue (ct_q c)"
  proof (cases "q_nextReqEvent (ct_q c)")
    case None
    have "queues_ok (dp_iface d) ((ct_q c)\<lparr>q_nextReqEvent := Some t\<rparr>)" for t
      by (rule queues_ok_cong[OF ctrl_invD(6)[OF assms]]) simp_all
    then show ?thesis using None assms by (simp add: schedule_def upd_q_def ctrl_inv_def responses_ok_def)
  next
    case (Some t)
    then show ?thesis using assms by simp
  qed
  then obtain c1 where c1: "(if q_nextReqEvent (ct_q c) = None
            then rbind (schedule now None (max (ct_nextReqTime c) now)) (\<lambda>ev. Inr (upd_q (\<lambda>q. q\<lparr>q_nextReqEvent := ev\<rparr>) c))
            else Inr c) = Inr c1" "ctrl_inv dinv d s c1" "q_nextReqEvent (ct_q c1) \<noteq> None" "q_respQueue (ct_q c1) = q_respQueue (ct_q c)"
    by blast
  have "queues_ok (dp_iface d) ((ct_q c1)\<lparr>q_retryWrReq := False\<rparr>)"
    by (rule queues_ok_cong[OF ctrl_invD(6)[OF c1(2)]]) simp_all
  then have "ctrl_inv dinv d s ((upd_q (\<lambda>q. q\<lparr>q_retryWrReq := False\<rparr>) c1)\<lparr>ct_retries := ct_retries c1 + 1\<rparr>)"
    using c1(2) by (simp add: upd_q_def ctrl_inv_def responses_ok_def)
  then show ?thesis unfolding next_finish_def c1(1) rbind_Inr using c1(2-4) by (auto simp: upd_q_def)
qed

lemma ctrl_busy_calm:
  assumes "ctrl_inv dinv d s c" "sched_ready d s (ct_q c) now"
  shows "\<exists>c' s' busy. ctrl_busy c now = Inr (c', busy, False) \<and> ctrl_inv dinv d s' c' \<and> ct_q c' = ct_q c \<and> ct_busState c' = ct_busState c \<and>
    (\<forall>x\<in>set (q_readQueue (ct_q c)) \<union> set (q_writeQueue (ct_q c)). queue_ok d now (dr_ranks s') x) \<and>
    (\<forall>r\<in>set (dr_ranks s'). inRefIdleState r \<longrightarrow> rank_calm r)"
proof -
  note I = ctrl_invD[OF assms(1)]
  obtain rs busy where b: "isBusy d (ctrl_env c now) (dr_ranks s) = Inr (rs, busy)" "dram_wf d (s\<lparr>dr_ranks := rs\<rparr>)"
    "\<forall>x\<in>set (q_readQueue (ct_q c)) \<union> set (q_writeQueue (ct_q c)). queue_ok d now rs x"
    "\<forall>r\<in>set rs. inRefIdleState r \<longrightarrow> rank_calm r"
    using isBusy_calm[OF I(3) assms(2), of "ctrl_env c now"] by (auto simp: ctrl_env_def)
  let ?c = "c\<lparr>ct_dram := Some (d, s\<lparr>dr_ranks := rs\<rparr>)\<rparr>"
  have "ctrl_busy c now = Inr (?c, busy, False)" using I(1,2) b(1) by (simp add: ctrl_busy_def)
  moreover have "ctrl_inv dinv d (s\<lparr>dr_ranks := rs\<rparr>) ?c" using assms(1) b(2) by (simp add: ctrl_inv_def responses_ok_def)
  ultimately show ?thesis using b(3,4) by (intro exI[of _ ?c] exI[of _ "s\<lparr>dr_ranks := rs\<rparr>"] exI[of _ busy]) simp
qed

lemma issue_nvm_reads_none: "ct_nvm c = None \<Longrightarrow> issue_nvm_reads now n c = ok c"
  by (cases n) simp_all

lemma queues_ok_dram:
  assumes "queues_ok i q"
  shows "x \<in> set (q_readQueue q) \<Longrightarrow> p \<in> set x \<Longrightarrow> mp_dram p" "x \<in> set (q_writeQueue q) \<Longrightarrow> p \<in> set x \<Longrightarrow> mp_dram p"
  using assms unfolding queues_ok_def packet_ok_def by (metis in_set_conv_nth)+

context rh_contract
begin

lemma next_read_ok:
  assumes "ctrl_inv dinv d s c" "dp_iface d = iface" "0 < now"
    and "\<forall>x\<in>set (q_readQueue (ct_q c)). queue_ok d now (dr_ranks s) x"
    and "\<forall>r\<in>set (dr_ranks s). inRefIdleState r \<longrightarrow> rank_calm r"
  shows "\<exists>c' s' go. next_read rnd c now sw aw = ok (c', go) \<and> ctrl_inv dinv d s' c'"
proof (cases "q_totalReadQueueSize (ct_q c) = 0")
  case True
  have "ctrl_inv dinv d s (c\<lparr>ct_busStateNext := BUS_WRITE\<rparr>)" "ctrl_inv dinv d s (signalDrainDone c)"
    using assms(1) by (simp_all add: ctrl_inv_def responses_ok_def signalDrainDone_def)
  then show ?thesis using True assms(1) by (auto simp: next_read_def Let_def)
next
  case False
  note I = ctrl_invD[OF assms(1)]
  let ?qs = "q_readQueue (ct_q c)" and ?x = "if sw then ctrl_minWriteToReadDataGap c else 0"
  have "\<forall>x\<in>set ?qs. (\<forall>p\<in>set x. mp_dram p) \<and> queue_ok d now (dr_ranks s) x" using queues_ok_dram(1)[OF I(6)] assms(4) by blast
  from choose_prio_ok[OF I(1,2) this order_refl] obtain r where
    r: "choose_prio c now ?qs ?x (length ?qs) = Inr r" "\<forall>prio k. r = Some (prio, k) \<longrightarrow> prio < length ?qs \<and> choosable s (?qs ! prio) k"
    by blast
  show ?thesis
  proof (cases r)
    case None
    then show ?thesis using False r(1) assms(1) by (simp add: next_read_def Let_def) blast
  next
    case (Some pk)
    obtain prio k where pk: "pk = (prio, k)" by (cases pk)
    have p: "prio < length ?qs" "choosable s (?qs ! prio) k" using r(2) Some pk by simp_all
    obtain c' s' where c': "serve_read rnd c now aw prio k = ok c'" "ctrl_inv dinv d s' c'"
      using serve_read_ok[OF assms(1,2) p _ assms(5,3)] assms(4) p(1) by force
    have "next_read rnd c now sw aw = ok (c', True)"
      unfolding next_read_def Let_def r(1) obind_ok Some pk option.case prod.case c'(1) using False by simp
    then show ?thesis using c'(2) by blast
  qed
qed

lemma next_write_ok:
  assumes "ctrl_inv dinv d s c" "dp_iface d = iface" "0 < now"
    and "\<forall>x\<in>set (q_writeQueue (ct_q c)). queue_ok d now (dr_ranks s) x"
    and "\<forall>r\<in>set (dr_ranks s). inRefIdleState r \<longrightarrow> rank_calm r"
  shows "\<exists>c' s' go. next_write rnd c now sw aw = ok (c', go) \<and> ctrl_inv dinv d s' c'"
proof -
  note I = ctrl_invD[OF assms(1)]
  let ?qs = "q_writeQueue (ct_q c)" and ?x = "if sw then ctrl_minReadToWriteDataGap c else 0"
  have "\<forall>x\<in>set ?qs. (\<forall>p\<in>set x. mp_dram p) \<and> queue_ok d now (dr_ranks s) x" using queues_ok_dram(2)[OF I(6)] assms(4) by blast
  from choose_prio_ok[OF I(1,2) this order_refl] obtain r where
    r: "choose_prio c now ?qs ?x (length ?qs) = Inr r" "\<forall>prio k. r = Some (prio, k) \<longrightarrow> prio < length ?qs \<and> choosable s (?qs ! prio) k"
    by blast
  show ?thesis
  proof (cases r)
    case None
    then show ?thesis using r(1) assms(1) by (simp add: next_write_def) blast
  next
    case (Some pk)
    obtain prio k where pk: "pk = (prio, k)" by (cases pk)
    have p: "prio < length ?qs" "choosable s (?qs ! prio) k" using r(2) Some pk by simp_all
    obtain c' s' where c': "serve_write rnd c now aw prio k = ok c'" "ctrl_inv dinv d s' c'"
      using serve_write_ok[OF assms(1,2) p _ assms(5,3)] assms(4) p(1) by force
    have "next_write rnd c now sw aw = ok (c', True)"
      unfolding next_write_def r(1) obind_ok Some pk option.case prod.case c'(1) ..
    then show ?thesis using c'(2) by blast
  qed
qed

lemma next_event_ok:
  assumes "ctrl_inv dinv d s c" "dp_iface d = iface" "sched_ready d s (ct_q c) now"
  shows "\<exists>c' s'. processNextReqEvent tp rnd c now = ok c' \<and> ctrl_inv dinv d s' c'"
proof -
  obtain c1 sw where t: "next_turn tp c = (c1, sw)" by (cases "next_turn tp c")
  note T = next_turn_inv[OF t assms(1)]
  have iss: "issue_nvm_reads now (length (q_readQueue (ct_q c1))) c1 = ok c1"
    using issue_nvm_reads_none ctrl_invD(2)[OF T(1)] by blast
  have sr: "sched_ready d s (ct_q c1) now" using assms(3) T(2) by simp
  obtain c2 s2 busy where b: "ctrl_busy c1 now = Inr (c2, busy, False)" "ctrl_inv dinv d s2 c2" "ct_q c2 = ct_q c1"
    "ct_busState c2 = ct_busState c1"
    "\<forall>x\<in>set (q_readQueue (ct_q c1)) \<union> set (q_writeQueue (ct_q c1)). queue_ok d now (dr_ranks s2) x"
    "\<forall>r\<in>set (dr_ranks s2). inRefIdleState r \<longrightarrow> rank_calm r"
    using ctrl_busy_calm[OF T(1) sr] by blast
  have now: "0 < now" using assms(3) by (simp add: sched_ready_def)
  have q: "\<forall>x\<in>set (q_readQueue (ct_q c2)). queue_ok d now (dr_ranks s2) x" "\<forall>x\<in>set (q_writeQueue (ct_q c2)). queue_ok d now (dr_ranks s2) x"
    using b(3,5) by simp_all
  obtain c3 s3 go where n: "(if ct_busState c2 = BUS_READ then next_read rnd c2 now sw False
                  else next_write rnd c2 now sw False) = ok (c3, go)" "ctrl_inv dinv d s3 c3"
    using next_read_ok[OF b(2) assms(2) now q(1) b(6)] next_write_ok[OF b(2) assms(2) now q(2) b(6)]
    by (cases "ct_busState c2 = BUS_READ") (metis (full_types))+
  obtain c4 where f: "next_finish c3 now = Inr c4" "ctrl_inv dinv d s3 c4" using next_finish_ok[OF n(2)] by blast
  show ?thesis
    unfolding processNextReqEvent_def t Let_def prod.case iss obind_ok b(1) n(1) f(1) using b(2) n(2) f(2) by auto
qed

end

section \<open>The response event\<close>

text \<open>The rank of the first response can take its end: an event is outstanding and it is not powered down.\<close>

definition respond_ready :: "dram_params \<Rightarrow> dram \<Rightarrow> mem_packet \<Rightarrow> bool" where
  "respond_ready d s p \<longleftrightarrow> \<not> dp_enableDRAMPowerdown d \<and> mp_rank p < length (dr_ranks s) \<and>
     (let r = dr_ranks s ! mp_rank p in 0 < rk_outstandingEvents r \<and> rk_pwrState r \<noteq> PWR_SREF \<and> rk_pwrState r \<noteq> PWR_PRE_PDN \<and>
        rk_pwrState r \<noteq> PWR_ACT_PDN \<and> (rk_refreshState r = REF_PRE \<and> rk_prechargeEvent r = None \<longrightarrow> rk_refreshEvent r = None))"

lemma upd_rank_inv:
  assumes "ctrl_inv dinv d s c" "j < length (dr_ranks s)" "f d (ctrl_env c now) (dr_ranks s ! j) = Inr r" "rank_wf d r"
  shows "\<exists>c'. upd_rank j f c now = Inr c' \<and> ctrl_inv dinv d (s\<lparr>dr_ranks := (dr_ranks s)[j := r]\<rparr>) c' \<and> ct_q c' = ct_q c \<and>
    ct_respondEvent c' = ct_respondEvent c \<and> ct_rh_defense c' = ct_rh_defense c \<and> ct_backendLatency c' = ct_backendLatency c"
proof -
  note I = ctrl_invD[OF assms(1)]
  have "dram_wf d (s\<lparr>dr_ranks := (dr_ranks s)[j := r]\<rparr>)"
    using all_upd[of "dr_ranks s" "rank_wf d" r j] I(3) assms(4) by (simp add: dram_wf_def)
  then have "ctrl_inv dinv d (s\<lparr>dr_ranks := (dr_ranks s)[j := r]\<rparr>) (c\<lparr>ct_dram := Some (d, s\<lparr>dr_ranks := (dr_ranks s)[j := r]\<rparr>)\<rparr>)"
    using assms(1) by (simp add: ctrl_inv_def responses_ok_def)
  then show ?thesis using I(1) assms(2,3) by (simp add: upd_rank_def)
qed

text \<open>The tick a packet responds at: the delay of the defense's tables is part of it.\<close>

definition response_tick :: "controller \<Rightarrow> tick \<Rightarrow> mem_packet \<Rightarrow> tick" where
  "response_tick c now p = (let q = ct_q c; k = q_packets q (mp_pkt p) in
     now + (if ct_rh_defense c \<noteq> None \<and> pk_isRequest k then mp_rh_SRAMDelay p else 0) + q_frontendLatency q +
     ct_backendLatency c + pk_headerDelay k + pk_payloadDelay k)"

text \<open>A packet is answered with its own burst, a split one with the burst that completes its helper.\<close>

definition response_due :: "mem_ctrl \<Rightarrow> mem_packet \<Rightarrow> bool" where
  "response_due q p \<longleftrightarrow> (case mp_burstHelper p of None \<Rightarrow> True
     | Some h \<Rightarrow> bh_burstsServiced (q_helpers q h) + 1 = bh_burstCount (q_helpers q h))"

definition helpers_served :: "mem_ctrl \<Rightarrow> mem_packet \<Rightarrow> nat \<Rightarrow> burst_helper" where
  "helpers_served q p = (case mp_burstHelper p of None \<Rightarrow> q_helpers q
     | Some h \<Rightarrow> (q_helpers q)(h := (q_helpers q h)\<lparr>bh_burstsServiced := bh_burstsServiced (q_helpers q h) + 1\<rparr>))"

text \<open>The responses and the helpers after the packet's burst.\<close>

definition responded :: "controller \<Rightarrow> tick \<Rightarrow> mem_packet \<Rightarrow> mem_ctrl \<Rightarrow> bool" where
  "responded c now p q' \<longleftrightarrow> q_helpers q' = helpers_served (ct_q c) p \<and>
     q_responses q' = q_responses (ct_q c) @ (if response_due (ct_q c) p \<and> pk_needsResponse (q_packets (ct_q c) (mp_pkt p))
       then [(mp_pkt p, response_tick c now p)] else [])"

lemma accessAndRespond_ok:
  assumes "queues_ok i q" "backed q (q_packets q pkt)"
  shows "\<exists>q'. accessAndRespond q now pkt l = Inr q' \<and> queues_ok i q' \<and> q_respQueue q' = q_respQueue q \<and>
    q_helpers q' = q_helpers q \<and>
    q_responses q' = (if pk_needsResponse (q_packets q pkt) then q_responses q @
      [(pkt, now + l + pk_headerDelay (q_packets q pkt) + pk_payloadDelay (q_packets q pkt))] else q_responses q)"
proof -
  let ?p = "q_packets q pkt"
  have "queues_ok i (q\<lparr>q_packets := (q_packets q)(pkt := ?p\<lparr>pk_isRequest := False, pk_headerDelay := 0, pk_payloadDelay := 0\<rparr>),
      q_responses := r\<rparr>)" for r
    by (rule queues_ok_cong[OF assms(1)]) simp_all
  moreover have "queues_ok i (q\<lparr>q_pendingDelete := Some pkt\<rparr>)" by (rule queues_ok_cong[OF assms(1)]) simp_all
  ultimately show ?thesis using assms(2) by (auto simp: accessAndRespond_eq Let_def)
qed

lemma ctrl_respond_ok:
  assumes "ctrl_inv dinv d s c" "backed (ct_q c) (q_packets (ct_q c) (mp_pkt p))"
  shows "\<exists>c'. ctrl_respond c now p = Inr c' \<and> ctrl_inv dinv d s c' \<and> q_respQueue (ct_q c') = q_respQueue (ct_q c) \<and>
    ct_respondEvent c' = ct_respondEvent c \<and> q_helpers (ct_q c') = q_helpers (ct_q c) \<and>
    q_responses (ct_q c') = (if pk_needsResponse (q_packets (ct_q c) (mp_pkt p))
      then q_responses (ct_q c) @ [(mp_pkt p, response_tick c now p)] else q_responses (ct_q c))"
proof -
  note I = ctrl_invD[OF assms(1)]
  let ?k = "q_packets (ct_q c) (mp_pkt p)"
  define l where "l = (if ct_rh_defense c \<noteq> None \<and> pk_isRequest ?k
    then mp_rh_SRAMDelay p + q_frontendLatency (ct_q c) + ct_backendLatency c else q_frontendLatency (ct_q c) + ct_backendLatency c)"
  obtain q' where a: "accessAndRespond (ct_q c) now (mp_pkt p) l = Inr q'" "queues_ok (dp_iface d) q'"
    "q_respQueue q' = q_respQueue (ct_q c)" "q_helpers q' = q_helpers (ct_q c)" "q_responses q' = (if pk_needsResponse ?k then q_responses (ct_q c) @
      [(mp_pkt p, now + l + pk_headerDelay ?k + pk_payloadDelay ?k)] else q_responses (ct_q c))"
    using accessAndRespond_ok[OF I(6) assms(2)] by blast
  have l: "now + l + pk_headerDelay ?k + pk_payloadDelay ?k = response_tick c now p"
    by (simp add: l_def response_tick_def Let_def)
  have "ctrl_respond c now p = Inr (c\<lparr>ct_q := q'\<rparr>)"
    unfolding ctrl_respond_def Let_def l_def[symmetric] a(1) by simp
  moreover have "ctrl_inv dinv d s (c\<lparr>ct_q := q'\<rparr>)" using assms(1) a(2,3) by (simp add: ctrl_inv_def responses_ok_def)
  ultimately show ?thesis using a(3-5) unfolding l by auto
qed

lemma respond_packet_ok:
  assumes "ctrl_inv dinv d s c" "backed (ct_q c) (q_packets (ct_q c) (mp_pkt p))"
  shows "\<exists>c'. respond_packet c now p = Inr c' \<and> ctrl_inv dinv d s c' \<and> q_respQueue (ct_q c') = q_respQueue (ct_q c) \<and>
    ct_respondEvent c' = ct_respondEvent c \<and> responded c now p (ct_q c')"
proof (cases "mp_burstHelper p")
  case None
  then show ?thesis using ctrl_respond_ok[OF assms, of now]
    by (auto simp: respond_packet_def responded_def helpers_served_def response_due_def)
next
  case (Some h)
  define b where "b = (q_helpers (ct_q c) h)\<lparr>bh_burstsServiced := bh_burstsServiced (q_helpers (ct_q c) h) + 1\<rparr>"
  define c1 where "c1 = upd_q (\<lambda>q. q\<lparr>q_helpers := (q_helpers q)(h := b)\<rparr>) c"
  have "queues_ok (dp_iface d) (ct_q c1)"
    unfolding c1_def upd_q_def by (rule queues_ok_cong[OF ctrl_invD(6)[OF assms(1)]]) simp_all
  then have c1: "ctrl_inv dinv d s c1" using assms(1) by (simp add: c1_def upd_q_def ctrl_inv_def responses_ok_def)
  have "backed (ct_q c1) a = backed (ct_q c) a" "q_packets (ct_q c1) = q_packets (ct_q c)" for a
    by (rule backed_cong) (simp_all add: c1_def upd_q_def)
  then have m: "backed (ct_q c1) (q_packets (ct_q c1) (mp_pkt p))" using assms(2) by simp
  have f: "q_respQueue (ct_q c1) = q_respQueue (ct_q c)" "ct_respondEvent c1 = ct_respondEvent c"
    by (simp_all add: c1_def upd_q_def)
  have "respond_packet c now p = (if bh_burstsServiced b = bh_burstCount b then ctrl_respond c1 now p else Inr c1)"
    unfolding respond_packet_def Some option.case Let_def b_def[symmetric] c1_def[symmetric] ..
  moreover have "response_due (ct_q c) p \<longleftrightarrow> bh_burstsServiced b = bh_burstCount b" "q_helpers (ct_q c1) = helpers_served (ct_q c) p"
    "q_responses (ct_q c1) = q_responses (ct_q c)" "q_packets (ct_q c1) = q_packets (ct_q c)"
    "response_tick c1 now p = response_tick c now p"
    by (auto simp: response_due_def helpers_served_def Some b_def c1_def upd_q_def response_tick_def Let_def)
  ultimately show ?thesis using ctrl_respond_ok[OF c1 m, of now] c1 f by (auto simp: responded_def)
qed

lemma respondEvent_ok:
  assumes "respond_ready d s p" "dram_wf d s"
  shows "\<exists>r. respondEvent d e (dr_ranks s ! mp_rank p) = Inr r \<and> rank_wf d r \<and> rk_refreshState r = rk_refreshState (dr_ranks s ! mp_rank p) \<and>
    rk_prechargeEvent r = rk_prechargeEvent (dr_ranks s ! mp_rank p) \<and> rk_refreshEvent r = rk_refreshEvent (dr_ranks s ! mp_rank p)"
proof -
  let ?r = "dr_ranks s ! mp_rank p"
  have "rank_wf d ?r" using assms by (simp add: respond_ready_def dram_wf_def)
  then show ?thesis using assms(1) by (simp add: respond_ready_def Let_def respondEvent_def rank_wf_def)
qed

lemma checkRefreshState_ok:
  assumes "rank_wf d r" "rk_refreshState r = REF_PRE \<and> rk_prechargeEvent r = None \<longrightarrow> rk_refreshEvent r = None"
  shows "\<exists>r'. checkRefreshState now r = Inr r' \<and> rank_wf d r'"
  using assms by (auto simp: checkRefreshState_def schedule_def rank_wf_def)

text \<open>Once the first response is gone: the state with the response event at the next one.\<close>

definition rescheduled :: "controller \<Rightarrow> controller" where
  "rescheduled c = (let rs = q_respQueue (ct_q c) in
     c\<lparr>ct_respondEvent := if rs = [] then None else Some (mp_readyTime (hd rs))\<rparr>)"

lemma rescheduled_pop:
  assumes "ctrl_inv dinv d s c" "q_respQueue (ct_q c) = p # rest"
  shows "ctrl_inv dinv d s (rescheduled (upd_q (\<lambda>q. q\<lparr>q_respQueue := tl (q_respQueue q)\<rparr>) c))"
proof -
  note I = ctrl_invD[OF assms(1)]
  have "queues_ok (dp_iface d) ((ct_q c)\<lparr>q_respQueue := tl (q_respQueue (ct_q c))\<rparr>)"
    by (rule queues_ok_cong[OF I(6)]) (auto intro: list.set_sel(2))
  moreover have "sorted (map mp_readyTime (p # rest))" "last (map mp_readyTime (p # rest)) \<le> ct_nextBurstAt c + dp_tCL d + dp_tBURST d"
    using I(7) assms(2) by (simp_all add: responses_ok_def Let_def)
  ultimately show ?thesis using assms
    by (auto simp: rescheduled_def upd_q_def ctrl_inv_def responses_ok_def Let_def hd_map)
qed

lemma next_response_ok:
  assumes "ctrl_inv dinv d s (rescheduled c)" "ct_respondEvent c = None" "mp_dram p" "mp_rank p < length (dr_ranks s)"
    and "q_respQueue (ct_q c) \<noteq> [] \<Longrightarrow> now \<le> mp_readyTime (hd (q_respQueue (ct_q c)))"
    and "let r = dr_ranks s ! mp_rank p in rk_refreshState r = REF_PRE \<and> rk_prechargeEvent r = None \<longrightarrow> rk_refreshEvent r = None"
  shows "\<exists>c' s'. next_response c now p = Inr c' \<and> ctrl_inv dinv d s' c' \<and> ct_q c' = ct_q c"
proof (cases "q_respQueue (ct_q c) = []")
  case False
  then have "next_response c now p = Inr (rescheduled c)" using assms(2,5)
    by (simp add: next_response_def rescheduled_def schedule_def Let_def)
  moreover have "ct_q (rescheduled c) = ct_q c" by (simp add: rescheduled_def Let_def)
  ultimately show ?thesis using assms(1) by blast
next
  case True
  then have i: "ctrl_inv dinv d s c" using assms(1,2) ctrl_inv_cong[of "rescheduled c" c] by (simp add: rescheduled_def)
  then have dd: "ctrl_inv dinv d s (signalDrainDone c)" "ct_q (signalDrainDone c) = ct_q c"
    by (simp_all add: signalDrainDone_def ctrl_inv_def responses_ok_def)
  let ?r = "dr_ranks s ! mp_rank p"
  have "rank_wf d ?r" using ctrl_invD(3)[OF i] assms(4) by (simp add: dram_wf_def)
  from checkRefreshState_ok[OF this] obtain r' where r': "checkRefreshState now ?r = Inr r'" "rank_wf d r'"
    using assms(6) by (auto simp: Let_def)
  have "(\<lambda>_ e. checkRefreshState (en_now e)) d (ctrl_env c now) ?r = Inr r'" using r'(1) by (simp add: ctrl_env_def)
  from upd_rank_inv[OF i assms(4), where f = "\<lambda>_ e. checkRefreshState (en_now e)", OF this r'(2)] obtain c4 where
    "upd_rank (mp_rank p) (\<lambda>_ e. checkRefreshState (en_now e)) c now = Inr c4" "ct_q c4 = ct_q c"
    "ctrl_inv dinv d (s\<lparr>dr_ranks := (dr_ranks s)[mp_rank p := r']\<rparr>) c4" by blast
  then show ?thesis using True dd assms(3) by (auto simp: next_response_def)
qed

lemma retry_read_inv:
  assumes "ctrl_inv dinv d s c"
  shows "ctrl_inv dinv d s (retry_read c)" "q_respQueue (ct_q (retry_read c)) = q_respQueue (ct_q c)"
    "q_responses (ct_q (retry_read c)) = q_responses (ct_q c)" "q_helpers (ct_q (retry_read c)) = q_helpers (ct_q c)"
proof -
  have "queues_ok (dp_iface d) ((ct_q c)\<lparr>q_retryRdReq := False\<rparr>)"
    by (rule queues_ok_cong[OF ctrl_invD(6)[OF assms]]) simp_all
  then show "ctrl_inv dinv d s (retry_read c)"
    using assms by (simp add: retry_read_def upd_q_def ctrl_inv_def responses_ok_def)
  show "q_respQueue (ct_q (retry_read c)) = q_respQueue (ct_q c)" "q_responses (ct_q (retry_read c)) = q_responses (ct_q c)"
    "q_helpers (ct_q (retry_read c)) = q_helpers (ct_q c)"
    by (simp_all add: retry_read_def upd_q_def)
qed

text \<open>Responding does not look at the response event.\<close>

lemma respond_packet_unscheduled:
  "respond_packet (c\<lparr>ct_respondEvent := None\<rparr>) now p = map_sum id (\<lambda>c. c\<lparr>ct_respondEvent := None\<rparr>) (respond_packet c now p)"
proof -
  have "ctrl_respond (y\<lparr>ct_respondEvent := None\<rparr>) now p = map_sum id (\<lambda>c. c\<lparr>ct_respondEvent := None\<rparr>) (ctrl_respond y now p)" for y
    by (simp add: ctrl_respond_def Let_def rbind_def split: sum.split)
  moreover have "upd_q f (y\<lparr>ct_respondEvent := None\<rparr>) = (upd_q f y)\<lparr>ct_respondEvent := None\<rparr>" for f y
    by (simp add: upd_q_def)
  ultimately show ?thesis by (simp add: respond_packet_def Let_def split: option.split)
qed

lemma respond_event_ok:
  assumes "ctrl_inv dinv d s c" "ct_respondEvent c = Some now" "p = hd (q_respQueue (ct_q c))" "respond_ready d s p"
  shows "\<exists>c' s'. processRespondEvent (c\<lparr>ct_respondEvent := None\<rparr>) now = Inr c' \<and> ctrl_inv dinv d s' c' \<and>
    q_respQueue (ct_q c') = tl (q_respQueue (ct_q c)) \<and> responded c now p (ct_q c')"
proof -
  note I = ctrl_invD[OF assms(1)]
  obtain rest where rq: "q_respQueue (ct_q c) = p # rest" "mp_readyTime p = now"
    using I(7) assms(2,3) by (cases "q_respQueue (ct_q c)") (auto simp: responses_ok_def Let_def split: if_splits)
  have pk: "mp_dram p" "backed (ct_q c) (q_packets (ct_q c) (mp_pkt p))"
    using I(6) rq(1) by (auto simp: queues_ok_def)
  have later: "rest \<noteq> [] \<Longrightarrow> now \<le> mp_readyTime (hd rest)"
    using I(7) rq by (auto simp: responses_ok_def Let_def)
  define j where "j = mp_rank p"
  have j: "j < length (dr_ranks s)" using assms(4) by (simp add: j_def respond_ready_def)
  obtain r where r: "respondEvent d (ctrl_env (c\<lparr>ct_respondEvent := None\<rparr>) now) (dr_ranks s ! j) = Inr r" "rank_wf d r"
    "rk_refreshState r = rk_refreshState (dr_ranks s ! j)" "rk_prechargeEvent r = rk_prechargeEvent (dr_ranks s ! j)"
    "rk_refreshEvent r = rk_refreshEvent (dr_ranks s ! j)"
    using respondEvent_ok[OF assms(4) I(3)] unfolding j_def by blast
  define s1 where "s1 = s\<lparr>dr_ranks := (dr_ranks s)[j := r]\<rparr>"
  define c1 where "c1 = c\<lparr>ct_dram := Some (d, s1)\<rparr>"
  have "dram_wf d s1" using all_upd[of "dr_ranks s" "rank_wf d" r j] I(3) r(2) by (simp add: dram_wf_def s1_def)
  then have c1: "ctrl_inv dinv d s1 c1" using assms(1) by (simp add: c1_def ctrl_inv_def responses_ok_def)
  have u1: "upd_rank j respondEvent (c\<lparr>ct_respondEvent := None\<rparr>) now = Inr (c1\<lparr>ct_respondEvent := None\<rparr>)"
    using I(1) j r(1) by (simp add: upd_rank_def c1_def s1_def)
  have m1: "backed (ct_q c1) (q_packets (ct_q c1) (mp_pkt p))" using pk(2) by (simp add: c1_def)
  obtain c2 where c2: "respond_packet c1 now p = Inr c2" "ctrl_inv dinv d s1 c2" "q_respQueue (ct_q c2) = p # rest"
    "responded c now p (ct_q c2)"
    using respond_packet_ok[OF c1 m1, of now] rq(1) by (auto simp: c1_def response_tick_def responded_def)
  have r2: "respond_packet (c1\<lparr>ct_respondEvent := None\<rparr>) now p = Inr (c2\<lparr>ct_respondEvent := None\<rparr>)"
    by (simp add: respond_packet_unscheduled c2(1))
  define c3 where "c3 = upd_q (\<lambda>q. q\<lparr>q_respQueue := tl (q_respQueue q)\<rparr>) (c2\<lparr>ct_respondEvent := None\<rparr>)"
  have c3: "ct_respondEvent c3 = None" "q_respQueue (ct_q c3) = rest" "q_responses (ct_q c3) = q_responses (ct_q c2)"
    "q_helpers (ct_q c3) = q_helpers (ct_q c2)"
    using c2(3) by (simp_all add: c3_def upd_q_def)
  have "rescheduled c3 = rescheduled (upd_q (\<lambda>q. q\<lparr>q_respQueue := tl (q_respQueue q)\<rparr>) c2)"
    by (simp add: c3_def rescheduled_def upd_q_def Let_def)
  then have i3: "ctrl_inv dinv d s1 (rescheduled c3)" using rescheduled_pop[OF c2(2,3)] by simp
  have "let r = dr_ranks s1 ! mp_rank p in rk_refreshState r = REF_PRE \<and> rk_prechargeEvent r = None \<longrightarrow> rk_refreshEvent r = None"
    "mp_rank p < length (dr_ranks s1)"
    using j r(3-5) assms(4) by (simp_all add: s1_def respond_ready_def Let_def j_def)
  from next_response_ok[OF i3 c3(1) pk(1) this(2) _ this(1), of now] obtain c4 s4 where
    c4: "next_response c3 now p = Inr c4" "ctrl_inv dinv d s4 c4" "ct_q c4 = ct_q c3"
    using later c3(2) by auto
  have "processRespondEvent (c\<lparr>ct_respondEvent := None\<rparr>) now = Inr (retry_read c4)"
    using rq(1) pk(1) u1 r2 c4(1) by (simp add: processRespondEvent_def j_def c3_def)
  then show ?thesis using retry_read_inv[OF c4(2)] c2(4) c3(2-4) c4(3) rq(1) by (auto simp: responded_def)
qed

section \<open>A request\<close>

text \<open>The part of \<open>queues_ok\<close> that the accepted packets must keep, for requests of packet \<open>pkt\<close>; the
  responses stay \<open>rs\<close>.\<close>

definition packets_ok :: "mem_interface \<Rightarrow> nat \<Rightarrow> mem_packet list \<times> nat \<Rightarrow> mem_ctrl \<Rightarrow> bool" where
  "packets_ok i pkt rs q \<longleftrightarrow> q_dram q = Some i \<and> q_nvm q = None \<and> length (q_readQueue q) = length (q_writeQueue q) \<and>
     (\<forall>prio<length (q_readQueue q). \<forall>p\<in>set (q_readQueue q ! prio). packet_ok i q True prio p) \<and>
     (\<forall>prio<length (q_writeQueue q). \<forall>p\<in>set (q_writeQueue q ! prio). packet_ok i q False prio p) \<and>
     (\<forall>p\<in>set (q_respQueue q). mp_dram p \<and> backed q (q_packets q (mp_pkt p))) \<and>
     q_isInWriteQueue q = (\<lambda>p. burstAlign (mi_burstSize i) (mp_addr p)) ` set (concat (q_writeQueue q)) \<and>
     backed q (q_packets q pkt) \<and> (q_respQueue q, q_readBufferSize q) = rs"

lemma packets_ok_iff:
  "q_wf q \<and> packets_ok i pkt rs q \<longleftrightarrow>
     queues_ok i q \<and> backed q (q_packets q pkt) \<and> (q_respQueue q, q_readBufferSize q) = rs"
  by (auto simp: packets_ok_def queues_ok_def)

lemma packets_ok_cong:
  assumes "packets_ok i pkt rs q" "q_dram q' = q_dram q" "q_nvm q' = q_nvm q" "\<And>x. access_key (q_packets q' x) = access_key (q_packets q x)"
    and "q_readQueue q' = q_readQueue q" "q_writeQueue q' = q_writeQueue q" "q_isInWriteQueue q' = q_isInWriteQueue q"
    and "q_respQueue q' = q_respQueue q" "q_readBufferSize q' = q_readBufferSize q"
  shows "packets_ok i pkt rs q'"
proof -
  have m: "backed q' (q_packets q' x) = backed q (q_packets q x)" for x by (rule backed_cong[OF assms(2-4)])
  then have "packet_ok i q' rd pr x = packet_ok i q rd pr x" for rd pr x by (simp add: packet_ok_def m)
  then show ?thesis using assms(1) m unfolding packets_ok_def by (simp add: assms(2-9))
qed

lemma push_back_all:
  assumes "k < length qs" "\<forall>prio<length qs. \<forall>p\<in>set (qs ! prio). P prio p" "P k m"
  shows "\<forall>prio<length (push_back qs k m). \<forall>p\<in>set (push_back qs k m ! prio). P prio p"
  using assms by (auto simp: push_back_def nth_list_update)

lemma set_concat_push: "k < length qs \<Longrightarrow> set (concat (push_back qs k m)) = insert m (set (concat qs))"
proof -
  assume k: "k < length qs"
  have "push_back qs k m = take k qs @ (qs ! k @ [m]) # drop (Suc k) qs" using k by (simp add: push_back_def upd_conv_take_nth_drop)
  moreover have "qs = take k qs @ qs ! k # drop (Suc k) qs" using k by (rule id_take_nth_drop)
  ultimately show ?thesis by (metis (no_types, lifting) Un_insert_right append.assoc append_Nil2 concat.simps(2) concat_append list.simps(15) set_append append_Cons set_concat Un_assoc Un_commute)
qed

text \<open>The packet \<open>decodePacket\<close> makes of a piece.\<close>

lemma decoded_packet:
  assumes "decodePacket i now pkt qos a z rd True = Inr m" "mi_wf i" "z \<le> mi_burstSize i"
    and "backed q (q_packets q pkt)"
  shows "packet_ok i q rd qos m" "mp_addr m = a" "mp_qosValue m = qos"
proof -
  obtain rank bank row where d: "decode_addr i a = Inr (rank, bank, row)" "rank < mi_ranksPerChannel i"
    "bank < mi_banksPerRank i" "row < mi_rowsPerBank i" using decode_addr_wf[OF assms(2)] by blast
  then have "m = MemPacket_new now pkt qos rd True rank bank row ((mi_banksPerRank i * rank + bank) mod 2 ^ 16) a z"
    using assms(1) by (auto simp: decodePacket_def Let_def split: if_splits)
  moreover have "mi_banksPerRank i * rank + bank < 2 ^ 16"
  proof -
    have "mi_banksPerRank i * rank \<le> 256 * 255" using assms(2) d(2) by (intro mult_le_mono) (simp_all add: mi_wf_def)
    then show ?thesis using assms(2) d(3) by (simp add: mi_wf_def)
  qed
  ultimately show "packet_ok i q rd qos m" "mp_addr m = a" "mp_qosValue m = qos"
    using d(2-4) assms(3,4) by (simp_all add: packet_ok_def placed_def MemPacket_new_def)
qed

lemma packets_ok_wf: "packets_ok i pkt rs q \<Longrightarrow> q_dram q = Some i" "packets_ok i pkt rs q \<Longrightarrow> backed q (q_packets q pkt)"
  by (simp_all add: packets_ok_def)

lemma packet_ok_fields:
  "packet_ok i q rd prio (m\<lparr>mp_burstHelper := h\<rparr>) = packet_ok i q rd prio m"
  "packet_ok i q rd prio (m\<lparr>mp_readyTime := t\<rparr>) = packet_ok i q rd prio m"
  by (simp_all add: packet_ok_def placed_def)

lemma read_enqueue_packets:
  assumes "read_enqueue now pkt n True i s a z hp = Inr (s', hp')" "packets_ok i pkt rs s" "mi_wf i" "z \<le> mi_burstSize i"
  shows "packets_ok i pkt rs s'"
proof -
  obtain s1 hp1 where h: "(if 1 < n \<and> hp = None
            then (s\<lparr>q_helpers := (q_helpers s)(q_next_helper s := \<lparr>bh_burstCount = n, bh_burstsServiced = 0\<rparr>),
                    q_next_helper := q_next_helper s + 1\<rparr>, Some (q_next_helper s))
            else (s, hp)) = (s1, hp1)" by (metis surj_pair)
  have s1: "packets_ok i pkt rs s1" using h by (intro packets_ok_cong[OF assms(2)]) (auto split: if_splits)
  obtain m where m: "decodePacket i now pkt (pk_qos (q_packets s1 pkt)) a z True True = Inr m"
    using assms(1) unfolding read_enqueue_def h Let_def prod.case by (auto simp: rbind_eq_Inr_iff)
  define s2 where "s2 = setupRank s1 True (mp_rank m) True"
  define m1 where "m1 = m\<lparr>mp_burstHelper := hp1, mp_readyTime := mp_readyTime m\<rparr>"
  have s2: "packets_ok i pkt rs s2"
    by (rule packets_ok_cong[OF s1]) (simp_all add: s2_def setupRank_def)
  have e: "s' = logRequest (s2\<lparr>q_readQueue := push_back (q_readQueue s2) (mp_qosValue m1) m1\<rparr>) True"
    "mp_qosValue m1 < length (q_readQueue s2)"
    using assms(1) m unfolding read_enqueue_def h Let_def prod.case
    by (auto simp: rbind_eq_Inr_iff s2_def m1_def split: if_splits)
  have "packet_ok i s2 True (mp_qosValue m) m"
    using decoded_packet(1)[OF m assms(3,4) packets_ok_wf(2)[OF s2]] decoded_packet(3)[OF m assms(3,4) packets_ok_wf(2)[OF s2]] by simp
  then have m1: "packet_ok i s2 True (mp_qosValue m1) m1" by (simp add: m1_def packet_ok_fields)
  have c: "packet_ok i s' rd pr x = packet_ok i s2 rd pr x" "backed s' b = backed s2 b" for rd pr x b
    unfolding e(1) by (rule packet_ok_cong; simp add: logRequest_def)+
  have f: "q_readQueue s' = push_back (q_readQueue s2) (mp_qosValue m1) m1" "q_writeQueue s' = q_writeQueue s2"
    "q_dram s' = q_dram s2" "q_nvm s' = q_nvm s2" "q_packets s' = q_packets s2" "q_respQueue s' = q_respQueue s2"
    "q_isInWriteQueue s' = q_isInWriteQueue s2" "q_readBufferSize s' = q_readBufferSize s2"
    unfolding e(1) by (simp_all add: logRequest_def)
  have "\<forall>prio<length (q_readQueue s'). \<forall>p\<in>set (q_readQueue s' ! prio). packet_ok i s2 True prio p"
    unfolding f(1) by (rule push_back_all[where P = "packet_ok i s2 True", OF e(2) _ m1]) (use s2 in \<open>simp add: packets_ok_def\<close>)
  then show ?thesis using s2 unfolding packets_ok_def c f by simp
qed

lemma read_burst_packets:
  assumes "read_burst now pkt n True i (s, a, sv, hp) = Inr (s', a', sv', hp')" "packets_ok i pkt rs s" "mi_wf i"
    and "piece_size (mi_burstSize i) (pk_addr (q_packets s pkt)) (pk_size (q_packets s pkt)) a \<le> mi_burstSize i"
  shows "packets_ok i pkt rs s' \<and> a' = next_burst (mi_burstSize i) a"
proof -
  let ?z = "piece_size (mi_burstSize i) (pk_addr (q_packets s pkt)) (pk_size (q_packets s pkt)) a"
  define h where "h = write_queue_hits s (mi_burstSize i) a ?z"
  define s1 where "s1 = s\<lparr>q_s_readBursts := q_s_readBursts s + 1, q_s_servicedByWrQ := q_s_servicedByWrQ s + h,
                   q_s_bytesReadWrQ := q_s_bytesReadWrQ s + h * mi_burstSize i\<rparr>"
  have s1: "packets_ok i pkt rs s1" by (rule packets_ok_cong[OF assms(2)]) (simp_all add: s1_def)
  have "read_burst now pkt n True i (s, a, sv, hp) =
      rbind (if h = 0 then read_enqueue now pkt n True i s1 a ?z hp else Inr (s1, hp))
        (\<lambda>(s2, hp2). Inr (s2, next_burst (mi_burstSize i) a, sv + h, hp2))"
    unfolding read_burst_def prod.case Let_def h_def[symmetric] s1_def[symmetric] ..
  from assms(1)[unfolded this] obtain hp2 where
    r: "(if h = 0 then read_enqueue now pkt n True i s1 a ?z hp else Inr (s1, hp)) = Inr (s', hp2)" "a' = next_burst (mi_burstSize i) a"
    by (auto simp: rbind_eq_Inr_iff)
  then show ?thesis using s1 read_enqueue_packets[OF _ s1 assms(3,4)] by (cases "h = 0") simp_all
qed

lemma write_burst_packets:
  assumes "write_burst now pkt True i (s, a) = Inr (s', a')" "packets_ok i pkt rs s" "mi_wf i"
    and "piece_size (mi_burstSize i) (pk_addr (q_packets s pkt)) (pk_size (q_packets s pkt)) a \<le> mi_burstSize i"
  shows "packets_ok i pkt rs s' \<and> a' = next_burst (mi_burstSize i) a"
proof -
  let ?b = "mi_burstSize i" and ?p = "q_packets s pkt"
  let ?z = "piece_size ?b (pk_addr ?p) (pk_size ?p) a"
  define s0 where "s0 = s\<lparr>q_s_writeBursts := q_s_writeBursts s + 1\<rparr>"
  have s0: "packets_ok i pkt rs s0" by (rule packets_ok_cong[OF assms(2)]) (simp_all add: s0_def)
  show ?thesis
  proof (cases "burstAlign ?b a \<in> q_isInWriteQueue s")
    case True
    have "packets_ok i pkt rs (s0\<lparr>q_s_mergedWrBursts := q_s_mergedWrBursts s0 + 1\<rparr>)"
      by (rule packets_ok_cong[OF s0]) simp_all
    then show ?thesis using assms(1) True by (auto simp: write_burst_def Let_def s0_def)
  next
    case False
    obtain m where m: "decodePacket i now pkt (pk_qos (q_packets s pkt)) a ?z False True = Inr m"
      using assms(1) False by (auto simp: write_burst_def Let_def rbind_eq_Inr_iff)
    define s1 where "s1 = setupRank s0 True (mp_rank m) False"
    have s1: "packets_ok i pkt rs s1" by (rule packets_ok_cong[OF s0]) (simp_all add: s1_def setupRank_def)
    have e: "s' = logRequest (s1\<lparr>q_writeQueue := push_back (q_writeQueue s1) (mp_qosValue m) m,
                               q_isInWriteQueue := insert (burstAlign ?b a) (q_isInWriteQueue s1)\<rparr>) False"
      "mp_qosValue m < length (q_writeQueue s1)" "a' = next_burst ?b a"
      using assms(1) False m by (auto simp: write_burst_def Let_def rbind_eq_Inr_iff s1_def s0_def split: if_splits)
    note D = decoded_packet[OF m assms(3,4) packets_ok_wf(2)[OF s1]]
    have c: "packet_ok i s' rd pr x = packet_ok i s1 rd pr x" "backed s' b = backed s1 b" for rd pr x b
      unfolding e(1) by (rule packet_ok_cong; simp add: logRequest_def)+
    have f: "q_writeQueue s' = push_back (q_writeQueue s1) (mp_qosValue m) m" "q_readQueue s' = q_readQueue s1"
      "q_dram s' = q_dram s1" "q_nvm s' = q_nvm s1" "q_packets s' = q_packets s1" "q_respQueue s' = q_respQueue s1"
      "q_isInWriteQueue s' = insert (burstAlign ?b a) (q_isInWriteQueue s1)" "q_readBufferSize s' = q_readBufferSize s1"
      unfolding e(1) by (simp_all add: logRequest_def)
    have pk: "packet_ok i s1 False (mp_qosValue m) m" using D(1,3) by simp
    have "\<forall>prio<length (q_writeQueue s'). \<forall>p\<in>set (q_writeQueue s' ! prio). packet_ok i s1 False prio p"
      unfolding f(1) by (rule push_back_all[where P = "packet_ok i s1 False", OF e(2) _ pk]) (use s1 in \<open>simp add: packets_ok_def\<close>)
    moreover have "q_isInWriteQueue s1 = (\<lambda>p. burstAlign ?b (mp_addr p)) ` set (concat (q_writeQueue s1))"
      using s1 by (simp add: packets_ok_def)
    then have "q_isInWriteQueue s' = (\<lambda>p. burstAlign ?b (mp_addr p)) ` set (concat (q_writeQueue s'))"
      unfolding f(1,7) set_concat_push[OF e(2), of m] D(2)[symmetric] by simp
    ultimately show ?thesis using s1 e(3) unfolding packets_ok_def c f by simp
  qed
qed

text \<open>The loops over the pieces, whose sizes are at most a burst.\<close>

definition small_pieces :: "nat \<Rightarrow> packet \<Rightarrow> addr \<Rightarrow> nat \<Rightarrow> bool" where
  "small_pieces b p a n \<longleftrightarrow> (\<forall>(x, z)\<in>set (pieces b (pk_addr p) (pk_size p) a n). z \<le> b)"

lemma small_pieces_Suc:
  "small_pieces b p a (Suc n) \<longleftrightarrow> piece_size b (pk_addr p) (pk_size p) a \<le> b \<and> small_pieces b p (next_burst b a) n"
  by (simp add: small_pieces_def)

lemma small_pieces_request:
  assumes "0 < pk_size p"
  shows "small_pieces (2 ^ k) p (pk_addr p) (burst_count (2 ^ k) (pk_addr p) (pk_size p))"
proof -
  let ?n = "burst_count (2 ^ k) (pk_addr p) (pk_size p)"
  have n: "(pk_addr p mod 2 ^ k + (pk_addr p + pk_size p - pk_addr p) + 2 ^ k - 1) div 2 ^ k = ?n"
    unfolding burst_count_def Let_def and_mask_mod by simp
  have small: "z \<le> 2 ^ k" if "0 < z" "burstAlign (2 ^ k) (x + z - 1) = burstAlign (2 ^ k) x" for x z :: nat
  proof -
    have "(x + z - 1) div 2 ^ k = x div 2 ^ k" using that(2) by (simp add: burstAlign_eq)
    then have "x + z - 1 < x div 2 ^ k * 2 ^ k + 2 ^ k"
      by (metis add.commute dividend_less_div_times mult.commute zero_less_numeral zero_less_power)
    moreover have "x div 2 ^ k * 2 ^ k \<le> x" by simp
    ultimately show ?thesis using that(1) by linarith
  qed
  have C: "\<forall>(x, z)\<in>set (pieces (2 ^ k) (pk_addr p) (pk_size p) (pk_addr p) ?n).
      0 < z \<and> burstAlign (2 ^ k) (x + z - 1) = burstAlign (2 ^ k) x"
    using pieces_cover[OF order_refl _ n] assms by simp
  show ?thesis unfolding small_pieces_def
  proof clarify
    fix x z assume "(x, z) \<in> set (pieces (2 ^ k) (pk_addr p) (pk_size p) (pk_addr p) ?n)"
    then have "0 < z" "burstAlign (2 ^ k) (x + z - 1) = burstAlign (2 ^ k) x" using C by blast+
    then show "z \<le> 2 ^ k" by (rule small)
  qed
qed

lemma read_loop_packets:
  assumes "iterate (read_burst now pkt m True i) n (s, a, sv, hp) = Inr (s', a', sv', hp')" "packets_ok i pkt rs s" "mi_wf i"
    and "q_packets s pkt = p" "small_pieces (mi_burstSize i) p a n"
    and "\<And>s a sv hp s' x. read_burst now pkt m True i (s, a, sv, hp) = Inr (s', x) \<Longrightarrow> q_packets s' = q_packets s"
  shows "packets_ok i pkt rs s'"
  using assms(1,2,4,5)
proof (induction n arbitrary: s a sv hp)
  case (Suc n)
  obtain s1 a1 sv1 hp1 where r: "read_burst now pkt m True i (s, a, sv, hp) = Inr (s1, a1, sv1, hp1)"
    "iterate (read_burst now pkt m True i) n (s1, a1, sv1, hp1) = Inr (s', a', sv', hp')"
    using Suc.prems(1) by (auto simp: rbind_eq_Inr_iff)
  have z: "piece_size (mi_burstSize i) (pk_addr (q_packets s pkt)) (pk_size (q_packets s pkt)) a \<le> mi_burstSize i"
    "small_pieces (mi_burstSize i) p (next_burst (mi_burstSize i) a) n"
    using Suc.prems(3,4) by (simp_all add: small_pieces_Suc)
  have s1: "packets_ok i pkt rs s1" "a1 = next_burst (mi_burstSize i) a"
    using read_burst_packets[OF r(1) Suc.prems(2) assms(3) z(1)] by simp_all
  show ?case using Suc.IH[OF r(2) s1(1)] s1(2) z(2) assms(6)[OF r(1)] Suc.prems(3) by simp
qed simp

lemma write_loop_packets:
  assumes "iterate (write_burst now pkt True i) n (s, a) = Inr (s', a')" "packets_ok i pkt rs s" "mi_wf i"
    and "q_packets s pkt = p" "small_pieces (mi_burstSize i) p a n"
    and "\<And>s a s' x. write_burst now pkt True i (s, a) = Inr (s', x) \<Longrightarrow> q_packets s' = q_packets s"
  shows "packets_ok i pkt rs s'"
  using assms(1,2,4,5)
proof (induction n arbitrary: s a)
  case (Suc n)
  obtain s1 a1 where r: "write_burst now pkt True i (s, a) = Inr (s1, a1)"
    "iterate (write_burst now pkt True i) n (s1, a1) = Inr (s', a')"
    using Suc.prems(1) by (auto simp: rbind_eq_Inr_iff)
  have z: "piece_size (mi_burstSize i) (pk_addr (q_packets s pkt)) (pk_size (q_packets s pkt)) a \<le> mi_burstSize i"
    "small_pieces (mi_burstSize i) p (next_burst (mi_burstSize i) a) n"
    using Suc.prems(3,4) by (simp_all add: small_pieces_Suc)
  have s1: "packets_ok i pkt rs s1" "a1 = next_burst (mi_burstSize i) a"
    using write_burst_packets[OF r(1) Suc.prems(2) assms(3) z(1)] by simp_all
  show ?case using Suc.IH[OF r(2) s1(1)] s1(2) z(2) assms(6)[OF r(1)] Suc.prems(3) by simp
qed simp

text \<open>The bursts leave the packet store alone.\<close>

lemma read_burst_store:
  "read_burst now pkt m True i (s, a, sv, hp) = Inr (s', x) \<Longrightarrow> q_packets s' = q_packets s"
  by (auto simp: read_burst_def read_enqueue_def Let_def rbind_eq_Inr_iff setupRank_def logRequest_def split: if_splits prod.splits)

lemma write_burst_store:
  "write_burst now pkt True i (s, a) = Inr (s', x) \<Longrightarrow> q_packets s' = q_packets s"
  by (auto simp: write_burst_def Let_def rbind_eq_Inr_iff setupRank_def logRequest_def split: if_splits)

lemma accessAndRespond_packets:
  assumes "accessAndRespond s now pkt l = Inr s'" "packets_ok i pkt rs s"
  shows "packets_ok i pkt rs s'"
  using assms by (intro packets_ok_cong[OF assms(2)]) (auto simp: accessAndRespond_def Let_def rbind_eq_Inr_iff split: if_splits option.splits)

lemma recvTimingReq_packets:
  assumes "packets_ok i pkt rs s" "mi_wf i" "mi_burstSize i = 2 ^ k" "servable s pkt qos dr j"
    and "recvTimingReq s now pkt qos = Inr (s', acc)"
  shows "packets_ok i pkt rs s'"
proof -
  let ?t = "arrived s now pkt qos" and ?n = "pieces_of s pkt j"
  have d: "dr = True" "j = i" "0 < pk_size (q_packets s pkt)"
    using assms(1,4) by (auto simp: servable_def Let_def media_of_def interface_of_def packets_ok_def split: if_splits)
  have t: "packets_ok i pkt rs ?t" by (rule packets_ok_cong[OF assms(1)]) (simp_all add: arrived_def)
  have sp: "small_pieces (mi_burstSize i) (q_packets ?t pkt) (pk_addr (q_packets ?t pkt)) ?n"
    using small_pieces_request[of "q_packets s pkt" k] d(3) assms(3)
    by (simp add: arrived_fields pieces_of_def small_pieces_def d(2))
  note eq = recvTimingReq_eq[OF assms(4), of now, unfolded assms(5)]
  consider "s' = ?t\<lparr>q_retryWrReq := True, q_s_numWrRetry := q_s_numWrRetry ?t + 1\<rparr>"
    | "s' = ?t\<lparr>q_retryRdReq := True, q_s_numRdRetry := q_s_numRdRetry ?t + 1\<rparr>"
    | u where "addToWriteQueue ?t now pkt ?n True = Inr u" "s' = u\<lparr>q_s_writeReqs := q_s_writeReqs u + 1,
         q_s_bytesWrittenSys := q_s_bytesWrittenSys u + pk_size (q_packets s pkt)\<rparr>"
    | u where "addToReadQueue ?t now pkt ?n True = Inr u" "s' = u\<lparr>q_s_readReqs := q_s_readReqs u + 1,
         q_s_bytesReadSys := q_s_bytesReadSys u + pk_size (q_packets s pkt)\<rparr>"
    using eq[symmetric] d(1) by (auto simp: rbind_eq_Inr_iff split: if_splits)
  then show ?thesis
  proof cases
    case 1
    then show ?thesis by (intro packets_ok_cong[OF t]) simp_all
  next
    case 2
    then show ?thesis by (intro packets_ok_cong[OF t]) simp_all
  next
    case (3 u)
    obtain s1 a1 s2 where u: "iterate (write_burst now pkt True i) ?n (?t, pk_addr (q_packets ?t pkt)) = Inr (s1, a1)"
      "accessAndRespond s1 now pkt (q_frontendLatency s1) = Inr s2" "u = schedule_now s2 now"
      using 3(1) packets_ok_wf(1)[OF t] by (auto simp: addToWriteQueue_def interface_of_def rbind_eq_Inr_iff split: if_splits)
    have "packets_ok i pkt rs s1" by (rule write_loop_packets[OF u(1) t assms(2) refl sp write_burst_store])
    then have "packets_ok i pkt rs s2" by (rule accessAndRespond_packets[OF u(2)])
    then show ?thesis by (rule packets_ok_cong) (simp_all add: 3(2) u(3) schedule_now_def)
  next
    case (4 u)
    obtain s1 a1 sv hp where u: "iterate (read_burst now pkt ?n True i) ?n (?t, pk_addr (q_packets ?t pkt), 0, None) = Inr (s1, a1, sv, hp)"
      "(if sv = ?n then accessAndRespond s1 now pkt (q_frontendLatency s1)
        else let s2 = (case hp of None \<Rightarrow> s1 | Some h \<Rightarrow> s1\<lparr>q_helpers := (q_helpers s1)(h := (q_helpers s1 h)\<lparr>bh_burstsServiced := sv\<rparr>)\<rparr>)
             in Inr (schedule_now s2 now)) = Inr u"
      using 4(1) packets_ok_wf(1)[OF t] by (auto simp: addToReadQueue_def interface_of_def rbind_eq_Inr_iff split: if_splits)
    have s1: "packets_ok i pkt rs s1" by (rule read_loop_packets[OF u(1) t assms(2) refl sp read_burst_store])
    have "packets_ok i pkt rs u"
    proof (cases "sv = ?n")
      case True
      then show ?thesis using u(2) accessAndRespond_packets[OF _ s1] by simp
    next
      case False
      then show ?thesis using u(2) by (intro packets_ok_cong[OF s1]) (auto simp: Let_def schedule_now_def split: option.splits if_splits)
    qed
    then show ?thesis by (rule packets_ok_cong) (simp_all add: 4(2))
  qed
qed

lemma request_ok:
  assumes "ctrl_inv dinv d s c" "mi_burstSize (dp_iface d) = 2 ^ k" "servable (ct_q c) pkt qos True (dp_iface d)"
  shows "\<exists>c' s' acc. ctrl_recvTimingReq c now pkt qos = Inr (c', acc) \<and> ctrl_inv dinv d s' c' \<and>
    q_respQueue (ct_q c') = q_respQueue (ct_q c) \<and> q_readBufferSize (ct_q c') = q_readBufferSize (ct_q c) \<and>
    acc = (if pk_isWrite (q_packets (ct_q c) pkt)
      then q_totalWriteQueueSize (ct_q c) + pieces_of (ct_q c) pkt (dp_iface d) \<le> q_writeBufferSize (ct_q c)
      else q_totalReadQueueSize (ct_q c) + length (q_respQueue (ct_q c)) + pieces_of (ct_q c) pkt (dp_iface d)
        \<le> q_readBufferSize (ct_q c))"
proof -
  note I = ctrl_invD[OF assms(1)]
  let ?i = "dp_iface d" and ?q = "ct_q c" and ?l = "load_counters c"
  have wf: "q_wf ?l" using queues_okD(1)[OF I(6)] by (simp add: q_wf_def load_counters_def)
  have l: "media_of ?l a = media_of ?q a" "backed ?l x = backed ?q x" "interface_of ?l b = interface_of ?q b" "q_packets ?l = q_packets ?q"
    "q_readQueue ?l = q_readQueue ?q" "q_writeQueue ?l = q_writeQueue ?q" for a b x
    by (simp_all add: load_counters_def media_of_def interface_of_def) (rule backed_cong, simp_all)
  have sv: "servable ?l pkt qos True ?i" using assms(3) unfolding servable_def l .
  have "backed ?q (q_packets ?q pkt)" using assms(3) by (simp add: servable_def Let_def)
  then have "packets_ok ?i pkt (q_respQueue ?q, q_readBufferSize ?q) ?q" using I(6) packets_ok_iff by blast
  then have pk: "packets_ok ?i pkt (q_respQueue ?q, q_readBufferSize ?q) ?l" by (rule packets_ok_cong) (simp_all add: load_counters_def)
  obtain q' acc where r: "recvTimingReq ?l now pkt qos = Inr (q', acc)" "q_wf q'"
    "acc = (if pk_isWrite (q_packets ?l pkt) then q_totalWriteQueueSize ?l + pieces_of ?l pkt ?i \<le> q_writeBufferSize ?l
          else q_totalReadQueueSize ?l + length (q_respQueue ?l) + pieces_of ?l pkt ?i \<le> q_readBufferSize ?l)"
    using recvTimingReq_spec[OF wf sv, of now] by blast
  have "packets_ok ?i pkt (q_respQueue ?q, q_readBufferSize ?q) q'"
    by (rule recvTimingReq_packets[OF pk queues_okD(4)[OF I(6)] assms(2) sv r(1)])
  then have q': "queues_ok ?i q'" "q_respQueue q' = q_respQueue ?q" "q_readBufferSize q' = q_readBufferSize ?q"
    using r(2) packets_ok_iff by blast+
  define s' where "s' = s\<lparr>dr_ranks := map (\<lambda>j. (dr_ranks s ! j)
       \<lparr>rk_readEntries := u32 (q_readEntries q' j), rk_writeEntries := u32 (q_writeEntries q' j)\<rparr>) [0..<length (dr_ranks s)]\<rparr>"
  have "dram_wf d s'" using I(3) by (auto simp: dram_wf_def s'_def rank_wf_def)
  then have "ctrl_inv dinv d s' (store_counters q' c)"
    using assms(1) q' by (simp add: ctrl_inv_def store_counters_def s'_def responses_ok_def)
  then show ?thesis using r(1,3) q'(2,3)
    by (intro exI[of _ "store_counters q' c"] exI[of _ s'] exI[of _ acc])
      (simp add: ctrl_recvTimingReq_def, simp add: store_counters_def load_counters_def pieces_of_def)
qed

section \<open>A concrete channel\<close>

definition example_read_queue :: mem_ctrl where
  "example_read_queue = (example_ctrl False)\<lparr>q_readQueue := [[example_burst 3 2]], q_totalReadQueueSize := 1\<rparr>"

definition example_resp_queue :: mem_ctrl where
  "example_resp_queue = (example_ctrl False)\<lparr>q_respQueue := [(example_burst 3 2)\<lparr>mp_readyTime := 40, mp_rh_SRAMDelay := 7\<rparr>]\<rparr>"

lemma example_media: "backed (example_ctrl w) (q_packets (example_ctrl w) x)"
  using example_ctrl_ok(2)[of w] by (simp add: servable_def Let_def example_ctrl_def)

lemma example_media_same:
  "backed example_read_queue = backed (example_ctrl False)" "backed example_resp_queue = backed (example_ctrl False)"
  "q_packets example_read_queue = q_packets (example_ctrl False)" "q_packets example_resp_queue = q_packets (example_ctrl False)"
  by (intro ext backed_cong; simp add: example_read_queue_def example_resp_queue_def)+

lemma example_queues_ok:
  "queues_ok example_interface example_read_queue" "queues_ok example_interface example_resp_queue"
proof -
  have q: "q_wf (example_ctrl False)" by (rule example_ctrl_ok)
  then have q': "q_wf example_read_queue" "q_wf example_resp_queue"
    by (simp_all add: q_wf_def example_read_queue_def example_resp_queue_def example_ctrl_def queue_size_def)
  have p: "packet_ok example_interface example_read_queue True 0 (example_burst 3 2)"
    unfolding packet_ok_def example_media_same
    by (simp add: example_media example_burst_def MemPacket_new_def placed_def example_interface_def)
  show "queues_ok example_interface example_read_queue"
    using q'(1) p by (simp add: queues_ok_def example_read_queue_def example_ctrl_def)
  show "queues_ok example_interface example_resp_queue"
    unfolding queues_ok_def example_media_same using q'(2) example_media[of False]
    by (simp add: example_resp_queue_def example_ctrl_def example_burst_def MemPacket_new_def)
qed

lemma example_queue_ok: "queue_ok example_dram_params 7 (dr_ranks (dram_start 2 16 4 2)) [example_burst 3 2]"
  unfolding queue_ok_def
  by (rule conjI, rule exI[of _ 16])
    (auto simp: dram_start_def Rank_new_def Bank_new_def example_burst_def MemPacket_new_def example_dram_params_def)

text \<open>A DRAM with a read on its way.\<close>

lemma dram_ranks_upd: "dr_ranks (s\<lparr>dr_ranks := rs\<rparr>) = rs"
  by (cases s) simp

definition example_busy_dram :: dram where
  "example_busy_dram = (let s = dram_start 2 16 4 2 in
     s\<lparr>dr_ranks := (dr_ranks s)[1 := (dr_ranks s ! 1)\<lparr>rk_outstandingEvents := 1, rk_pwrState := PWR_ACT\<rparr>]\<rparr>)"

lemma example_dram_wf: "dram_wf example_dram_params (dram_start 2 16 4 2)" "dram_wf example_dram_params example_busy_dram"
proof -
  show w: "dram_wf example_dram_params (dram_start 2 16 4 2)"
    using dram_start_wf[of example_dram_params 2 16 4] by (simp add: example_dram_params_def)
  let ?rs = "dr_ranks (dram_start 2 16 4 2)"
  have all: "\<forall>r\<in>set ?rs. rank_wf example_dram_params r" using w unfolding dram_wf_def .
  have "1 < length ?rs" by (simp add: dram_start_def)
  then have "rank_wf example_dram_params (?rs ! 1)" using all nth_mem by blast
  then have "rank_wf example_dram_params ((?rs ! 1)\<lparr>rk_outstandingEvents := 1, rk_pwrState := PWR_ACT\<rparr>)"
    by (subst rank_wf_cong[of _ "?rs ! 1"]) simp_all
  then have "\<forall>r\<in>set (?rs[1 := (?rs ! 1)\<lparr>rk_outstandingEvents := 1, rk_pwrState := PWR_ACT\<rparr>]). rank_wf example_dram_params r"
    by (rule all_upd[OF all])
  moreover have "dr_ranks example_busy_dram = ?rs[1 := (?rs ! 1)\<lparr>rk_outstandingEvents := 1, rk_pwrState := PWR_ACT\<rparr>]"
    unfolding example_busy_dram_def Let_def by (rule dram_ranks_upd)
  ultimately show "dram_wf example_dram_params example_busy_dram" unfolding dram_wf_def by simp
qed

lemma example_ctrl_inv:
  "ctrl_inv (pride_inv example_interface) example_dram_params (dram_start 2 16 4 2)
     (example_controller (dram_start 2 16 4 2) example_read_queue None)"
  "ctrl_inv (pride_inv example_interface) example_dram_params example_busy_dram
     (example_controller example_busy_dram example_resp_queue (Some 40))"
proof -
  have f: "dp_iface example_dram_params = example_interface" "dp_tCL example_dram_params = 14" "dp_tBURST example_dram_params = 4"
    by (simp_all add: example_dram_params_def)
  have b: "bus_ok example_dram_params 10 {#}" by (rule example_bus_ok)
  show "ctrl_inv (pride_inv example_interface) example_dram_params (dram_start 2 16 4 2)
     (example_controller (dram_start 2 16 4 2) example_read_queue None)"
    using example_queues_ok(1) pride_example_ok b example_dram_wf(1)
    by (simp add: ctrl_inv_def f example_controller_def responses_ok_def example_read_queue_def example_ctrl_def)
  show "ctrl_inv (pride_inv example_interface) example_dram_params example_busy_dram
     (example_controller example_busy_dram example_resp_queue (Some 40))"
    using example_queues_ok(2) pride_example_ok b example_dram_wf(2)
    by (simp add: ctrl_inv_def f example_controller_def responses_ok_def example_resp_queue_def example_ctrl_def)
qed

section \<open>Properties\<close>

text \<open>The events of a channel protected by PrIDE, and when they come: a request the controller can serve;
  the scheduler event when the ranks are calm; the response event at its tick.\<close>

datatype ctrl_event = Request nat nat | Schedule | Respond

fun ctrl_exec :: "(controller \<Rightarrow> bus_state) option \<Rightarrow> (nat \<Rightarrow> nat) \<Rightarrow> controller \<Rightarrow> tick \<Rightarrow> ctrl_event \<Rightarrow> controller run" where
  "ctrl_exec tp rnd c now (Request pkt qos) = Some (rbind (ctrl_recvTimingReq c now pkt qos) (\<lambda>(c', _). Inr c'))"
| "ctrl_exec tp rnd c now Schedule = processNextReqEvent tp rnd (upd_q (\<lambda>q. q\<lparr>q_nextReqEvent := None\<rparr>) c) now"
| "ctrl_exec tp rnd c now Respond = Some (processRespondEvent (c\<lparr>ct_respondEvent := None\<rparr>) now)"

fun ctrl_legal :: "dram_params \<Rightarrow> dram \<Rightarrow> controller \<Rightarrow> tick \<Rightarrow> ctrl_event \<Rightarrow> bool" where
  "ctrl_legal d s c now (Request pkt qos) = servable (ct_q c) pkt qos True (dp_iface d)"
| "ctrl_legal d s c now Schedule = sched_ready d s (ct_q c) now"
| "ctrl_legal d s c now Respond = (ct_respondEvent c = Some now \<and> respond_ready d s (hd (q_respQueue (ct_q c))))"

text \<open>C3: The controller of a PrIDE-protected DRAM channel never fails: on a request it can serve, at a
  scheduler event and at a response event, no assertion, panic or fatal error of the controller, the
  DRAM bank timing, the command bus or the tracker is reached, and the invariant is kept: queue counters
  and write index exact, responses in order and the response event at the first of them, activation
  windows of all ranks respected, every bank's tracker well-formed.\<close>

theorem pride_controller_never_fails:
  assumes "ctrl_inv (pride_inv (dp_iface d)) d s c" "mi_burstSize (dp_iface d) = 2 ^ k" "ctrl_legal d s c now e"
  shows "\<exists>c' s'. ctrl_exec tp rnd c now e = ok c' \<and> ctrl_inv (pride_inv (dp_iface d)) d s' c'"
proof (cases e)
  case (Request pkt qos)
  then show ?thesis using request_ok[OF assms(1,2), of pkt qos now] assms(3) by (simp add: rbind_eq_Inr_iff) blast
next
  case Schedule
  let ?c = "upd_q (\<lambda>q. q\<lparr>q_nextReqEvent := None\<rparr>) c"
  have "queues_ok (dp_iface d) ((ct_q c)\<lparr>q_nextReqEvent := None\<rparr>)"
    by (rule queues_ok_cong[OF ctrl_invD(6)[OF assms(1)]]) simp_all
  then have "ctrl_inv (pride_inv (dp_iface d)) d s ?c"
    using assms(1) by (simp add: upd_q_def ctrl_inv_def responses_ok_def)
  moreover have "sched_ready d s (ct_q ?c) now" using assms(3) Schedule by (simp add: upd_q_def sched_ready_def)
  ultimately show ?thesis using pride.next_event_ok[OF _ refl] unfolding Schedule ctrl_exec.simps by blast
next
  case Respond
  then show ?thesis using respond_event_ok[OF assms(1) _ refl] assms(3) by auto
qed

theorem pride_controller_never_fails_witness:
  "\<exists>c' s'. ctrl_exec None (\<lambda>_. 0) (example_controller (dram_start 2 16 4 2) example_read_queue None) 7 Schedule = ok c' \<and>
     ctrl_inv (pride_inv example_interface) example_dram_params s' c'"
proof -
  have i: "dp_iface example_dram_params = example_interface" "mi_burstSize (dp_iface example_dram_params) = 2 ^ 6"
    by (simp_all add: example_dram_params_def example_interface_def)
  have "sched_ready example_dram_params (dram_start 2 16 4 2) example_read_queue 7"
    using example_queue_ok unfolding sched_ready_def
    by (auto simp: example_read_queue_def example_ctrl_def rank_calm_def dram_start_def Rank_new_def queue_ok_def
        example_dram_params_def Bank_new_def)
  then have l: "ctrl_legal example_dram_params (dram_start 2 16 4 2)
      (example_controller (dram_start 2 16 4 2) example_read_queue None) 7 Schedule"
    by (simp add: example_controller_def)
  show ?thesis
    using pride_controller_never_fails[OF example_ctrl_inv(1)[folded i(1)] i(2) l, of None "\<lambda>_. 0"] unfolding i(1) .
qed

text \<open>C5: The response a read waits for: at the response event the packet at the head leaves the queue, and a
  piece of a split request counts in its burst helper.  A response is sent exactly when the packet is a whole request or
  the piece that completes its helper, and when the request needs one, and its time is that of the event plus
  the latencies of the controller plus the table delay the Rowhammer defense charged to this packet (for a
  split request: to its last piece alone).\<close>

theorem response_carries_defense_delay:
  assumes "ctrl_inv dinv d s c" "ct_respondEvent c = Some now" "p = hd (q_respQueue (ct_q c))" "respond_ready d s p"
  shows "\<exists>c'. processRespondEvent (c\<lparr>ct_respondEvent := None\<rparr>) now = Inr c' \<and> q_respQueue (ct_q c') = tl (q_respQueue (ct_q c)) \<and>
    q_helpers (ct_q c') = (case mp_burstHelper p of None \<Rightarrow> q_helpers (ct_q c)
      | Some h \<Rightarrow> (q_helpers (ct_q c))(h := (q_helpers (ct_q c) h)\<lparr>bh_burstsServiced := bh_burstsServiced (q_helpers (ct_q c) h) + 1\<rparr>)) \<and>
    q_responses (ct_q c') = q_responses (ct_q c) @
      (if (case mp_burstHelper p of None \<Rightarrow> True
           | Some h \<Rightarrow> bh_burstsServiced (q_helpers (ct_q c) h) + 1 = bh_burstCount (q_helpers (ct_q c) h)) \<and>
          pk_needsResponse (q_packets (ct_q c) (mp_pkt p))
       then [(mp_pkt p, now +
         (if ct_rh_defense c \<noteq> None \<and> pk_isRequest (q_packets (ct_q c) (mp_pkt p)) then mp_rh_SRAMDelay p else 0) +
         q_frontendLatency (ct_q c) + ct_backendLatency c + pk_headerDelay (q_packets (ct_q c) (mp_pkt p)) +
         pk_payloadDelay (q_packets (ct_q c) (mp_pkt p)))] else [])"
  using respond_event_ok[OF assms] unfolding responded_def response_due_def helpers_served_def response_tick_def Let_def by blast

theorem response_carries_defense_delay_witness:
  "\<exists>c'. processRespondEvent ((example_controller example_busy_dram example_resp_queue (Some 40))\<lparr>ct_respondEvent := None\<rparr>) 40 = Inr c' \<and>
     q_respQueue (ct_q c') = [] \<and> q_responses (ct_q c') = [(0, 40 + 7 + 10 + 20)]"
proof -
  let ?c = "example_controller example_busy_dram example_resp_queue (Some 40)"
  have r: "respond_ready example_dram_params example_busy_dram (hd (q_respQueue (ct_q ?c)))"
    by (simp add: respond_ready_def example_dram_params_def example_controller_def example_resp_queue_def example_burst_def
        MemPacket_new_def example_busy_dram_def dram_start_def Let_def Rank_new_def nth_append)
  have s: "ct_respondEvent ?c = Some 40"
    by (simp_all add: example_controller_def example_resp_queue_def example_burst_def MemPacket_new_def example_ctrl_def example_packet_def)
  show ?thesis using response_carries_defense_delay[OF example_ctrl_inv(2) s refl r]
    by (auto simp: example_controller_def example_resp_queue_def example_burst_def MemPacket_new_def example_ctrl_def
        example_packet_def pride_example_def)
qed

end
