(* ===== verification/System_Events.thy ===== *)
theory System_Events
  imports Ctrl_Steps
begin

text \<open>
  A memory channel as a whole: the controller with the events of its DRAM ranks and of its NVM, as the
  event queue of the simulator runs them (the \<open>EventFunctionWrapper\<close> members of \<open>DRAMInterface::Rank\<close> and
  \<open>NVMInterface\<close> in \<open>mem/mem_interface.cc\<close>).  The lemmas balance the books of a rank: \<open>outstandingEvents\<close>
  counts the reads that wait for their response, the pending precharge and write events, and the refresh
  under way.
\<close>

section \<open>Events\<close>

datatype rank_event = Write_Done | Activate | Precharge | Refresh | Power | Wake_Up

fun event_at :: "rank_event \<Rightarrow> dram_rank \<Rightarrow> tick option" where
  "event_at Write_Done r = rk_writeDoneEvent r"
| "event_at Activate r = rk_activateEvent r"
| "event_at Precharge r = rk_prechargeEvent r"
| "event_at Refresh r = rk_refreshEvent r"
| "event_at Power r = rk_powerEvent r"
| "event_at Wake_Up r = rk_wakeUpEvent r"

text \<open>An event that fires is no longer scheduled when its function runs.\<close>

fun clear_event :: "rank_event \<Rightarrow> dram_rank \<Rightarrow> dram_rank" where
  "clear_event Write_Done r = r\<lparr>rk_writeDoneEvent := None\<rparr>"
| "clear_event Activate r = r\<lparr>rk_activateEvent := None\<rparr>"
| "clear_event Precharge r = r\<lparr>rk_prechargeEvent := None\<rparr>"
| "clear_event Refresh r = r\<lparr>rk_refreshEvent := None\<rparr>"
| "clear_event Power r = r\<lparr>rk_powerEvent := None\<rparr>"
| "clear_event Wake_Up r = r\<lparr>rk_wakeUpEvent := None\<rparr>"

text \<open>The function of an event; the second component asks for a restart of the scheduler.\<close>

fun handle :: "dram_params \<Rightarrow> rank_env \<Rightarrow> rank_event \<Rightarrow> dram_rank \<Rightarrow> (dram_rank \<times> bool) run" where
  "handle d e Write_Done r = Some (rbind (processWriteDoneEvent r) (\<lambda>r'. Inr (r', False)))"
| "handle d e Activate r = Some (rbind (processActivateEvent (en_now e) r) (\<lambda>r'. Inr (r', False)))"
| "handle d e Precharge r = Some (rbind (processPrechargeEvent d e r) (\<lambda>r'. Inr (r', False)))"
| "handle d e Refresh r = obind (processRefreshEvent d e r) (\<lambda>r'. ok (r', False))"
| "handle d e Power r = Some (processPowerEvent d e r)"
| "handle d e Wake_Up r = Some (rbind (processWakeUpEvent (en_now e) r) (\<lambda>r'. Inr (r', False)))"

definition fire_rank :: "controller \<Rightarrow> tick \<Rightarrow> nat \<Rightarrow> rank_event \<Rightarrow> controller run" where
  "fire_rank c now j ev =
     (case ct_dram c of None \<Rightarrow> failed OutOfBounds | Some (d, s) \<Rightarrow>
        if \<not> j < length (dr_ranks s) then failed OutOfBounds
        else obind (handle d (ctrl_env c now) ev (clear_event ev (dr_ranks s ! j))) (\<lambda>(r, restart).
          let c1 = c\<lparr>ct_dram := Some (d, s\<lparr>dr_ranks := (dr_ranks s)[j := r]\<rparr>)\<rparr>
          in Some (if restart then restartScheduler c1 now else Inr c1)))"

datatype nvm_event = Read_Ready | Write_Respond

definition fire_nvm :: "controller \<Rightarrow> tick \<Rightarrow> nvm_event \<Rightarrow> controller result" where
  "fire_nvm c now ev =
     (case ct_nvm c of None \<Rightarrow> Inl OutOfBounds | Some (nd, ns) \<Rightarrow>
        rbind (case ev of
            Read_Ready \<Rightarrow> processReadReadyEvent now (q_nextReqEvent (ct_q c) \<noteq> None) (ns\<lparr>nv_readReadyEvent := None\<rparr>)
          | Write_Respond \<Rightarrow> processWriteRespondEvent now (q_nextReqEvent (ct_q c) \<noteq> None) (ns\<lparr>nv_writeRespondEvent := None\<rparr>))
        (\<lambda>(ns', restart).
          let c1 = c\<lparr>ct_nvm := Some (nd, ns')\<rparr> in if restart then restartScheduler c1 now else Inr c1))"

datatype channel_event = Controller ctrl_event | Rank nat rank_event | Nvm nvm_event

fun channel_exec :: "(controller \<Rightarrow> bus_state) option \<Rightarrow> (nat \<Rightarrow> nat) \<Rightarrow> controller \<Rightarrow> tick \<Rightarrow> channel_event \<Rightarrow> controller run" where
  "channel_exec tp rnd c now (Controller e) = ctrl_exec tp rnd c now e"
| "channel_exec tp rnd c now (Rank j ev) = fire_rank c now j ev"
| "channel_exec tp rnd c now (Nvm ev) = Some (fire_nvm c now ev)"

fun channel_run :: "(controller \<Rightarrow> bus_state) option \<Rightarrow> (nat \<Rightarrow> nat) \<Rightarrow> controller \<Rightarrow> (tick \<times> channel_event) list \<Rightarrow> controller run" where
  "channel_run tp rnd c [] = ok c"
| "channel_run tp rnd c ((now, e) # es) = obind (channel_exec tp rnd c now e) (\<lambda>c'. channel_run tp rnd c' es)"

section \<open>What the books of a rank depend on\<close>

definition rank_key where
  "rank_key r = ((rk_inLowPowerState r, rk_wakeUpEvent r, rk_pwrState r, rk_pwrStateTrans r, rk_pwrStatePostRefresh r),
     (rk_refreshState r, rk_refreshEvent r, rk_writeDoneEvent r, rk_prechargeEvent r, rk_outstandingEvents r), length (rk_banks r))"

lemma rank_key_frame [simp]:
  "rank_key (log_cmd x r) = rank_key r" "rank_key (map_banks f r) = rank_key r" "rank_key (upd_bank b g r) = rank_key r"
  "rank_key (r\<lparr>rk_numBanksActive := n\<rparr>) = rank_key r" "rank_key (r\<lparr>rk_actTicks := ts\<rparr>) = rank_key r"
  "rank_key (r\<lparr>rk_activateEvent := a\<rparr>) = rank_key r" "rank_key (r\<lparr>rk_lastBurstTick := t\<rparr>) = rank_key r"
  "rank_key (r\<lparr>rk_readEntries := n\<rparr>) = rank_key r" "rank_key (r\<lparr>rk_writeEntries := n\<rparr>) = rank_key r"
  "rank_key (r\<lparr>rk_refreshDueAt := t\<rparr>) = rank_key r" "rank_key (r\<lparr>rk_powerEvent := a\<rparr>) = rank_key r"
  "rank_key (flushCmdList t r) = rank_key r"
  by (simp_all add: rank_key_def log_cmd_def map_banks_def upd_bank_def flushCmdList_def)

definition pending :: "dram_rank \<Rightarrow> nat" where
  "pending r = of_bool (rk_writeDoneEvent r \<noteq> None) + of_bool (rk_prechargeEvent r \<noteq> None) +
     of_bool (rk_refreshState r \<noteq> REF_IDLE)"

text \<open>The power states a rank is in without power-down.\<close>

definition awake :: "PowerState \<Rightarrow> bool" where
  "awake p \<longleftrightarrow> p \<in> {PWR_IDLE, PWR_ACT, PWR_REF}"

lemma awake_simps [simp]:
  "awake PWR_IDLE" "awake PWR_ACT" "awake PWR_REF" "\<not> awake PWR_SREF" "\<not> awake PWR_PRE_PDN" "\<not> awake PWR_ACT_PDN"
  by (simp_all add: awake_def)

text \<open>The books of a rank with \<open>n\<close> reads under way, when power-down is disabled.\<close>

definition books :: "dram_rank \<Rightarrow> nat \<Rightarrow> bool" where
  "books r n \<longleftrightarrow> \<not> rk_inLowPowerState r \<and> rk_wakeUpEvent r = None \<and> awake (rk_pwrState r) \<and> awake (rk_pwrStateTrans r) \<and> rk_pwrStatePostRefresh r = PWR_IDLE \<and>
     rk_refreshState r \<noteq> REF_SREF_EXIT \<and> (rk_refreshState r = REF_DRAIN \<longrightarrow> rk_refreshEvent r = None) \<and>
     (rk_refreshState r = REF_PRE \<and> rk_refreshEvent r \<noteq> None \<longrightarrow> n = 0) \<and>
     (rk_pwrState r = PWR_REF) = (rk_refreshState r = REF_START \<or> rk_refreshState r = REF_RUN) \<and>
     rk_outstandingEvents r = n + pending r"

lemma pending_key: "rank_key r' = rank_key r \<Longrightarrow> pending r' = pending r"
  by (simp add: rank_key_def pending_def)

lemma books_key: "rank_key r' = rank_key r \<Longrightarrow> books r' n = books r n"
  using pending_key[of r' r] by (simp add: books_def rank_key_def)

lemma pending_le: "pending r \<le> 3" by (simp add: pending_def)

text \<open>A step of a rank that adds \<open>k\<close> reads and leaves power and refresh alone.\<close>

definition moved :: "nat \<Rightarrow> dram_rank \<Rightarrow> dram_rank \<Rightarrow> bool" where
  "moved k r r' \<longleftrightarrow> fst (rank_key r') = fst (rank_key r) \<and> rk_refreshState r' = rk_refreshState r \<and>
     rk_refreshEvent r' = rk_refreshEvent r \<and> length (rk_banks r') = length (rk_banks r) \<and>
     (\<forall>n. n + k \<le> 252 \<longrightarrow> rk_outstandingEvents r = n + pending r \<longrightarrow> rk_outstandingEvents r' = n + k + pending r')"

lemma moved_key:
  assumes "rank_key r1 = rank_key r" "rank_key r1' = rank_key r'"
  shows "moved k r1 r1' = moved k r r'"
  using assms pending_key[OF assms(1)] pending_key[OF assms(2)] unfolding moved_def by (simp add: rank_key_def)

lemma moved_same: "rank_key r' = rank_key r \<Longrightarrow> moved 0 r r'"
  using pending_key[of r' r] by (simp add: moved_def rank_key_def)

lemma moved_trans:
  assumes "moved j r r1" "moved k r1 r2" shows "moved (j + k) r r2"
proof -
  have "rk_outstandingEvents r2 = n + (j + k) + pending r2" if "n + (j + k) \<le> 252" "rk_outstandingEvents r = n + pending r" for n
  proof -
    have "rk_outstandingEvents r1 = (n + j) + pending r1" using assms(1) that by (simp add: moved_def)
    then show ?thesis using assms(2) that(1) unfolding moved_def by (metis add.assoc)
  qed
  then show ?thesis using assms by (simp add: moved_def)
qed

lemma moved_trans0: "moved 0 r r1 \<Longrightarrow> moved k r1 r2 \<Longrightarrow> moved k r r2" "moved k r r1 \<Longrightarrow> moved 0 r1 r2 \<Longrightarrow> moved k r r2"
  using moved_trans[of 0 r r1 k r2] moved_trans[of k r r1 0 r2] by simp_all

lemma moved_books:
  assumes "moved k r r'" "books r n" "n + k \<le> 252" "k = 0 \<or> rk_refreshState r = REF_IDLE"
  shows "books r' (n + k)"
  using assms by (auto simp: moved_def books_def rank_key_def)

section \<open>A burst\<close>

lemma u8_small: "n \<le> 255 \<Longrightarrow> u8 n = n" by (simp add: u8_def)

text \<open>An event that is scheduled anew counts as pending.\<close>

lemma moved_pending:
  assumes "fst (rank_key r') = fst (rank_key r)" "rk_refreshState r' = rk_refreshState r" "rk_refreshEvent r' = rk_refreshEvent r"
    "rk_banks r' = rk_banks r" "rk_outstandingEvents r' = u8 (rk_outstandingEvents r + 1)" "pending r' = pending r + 1"
  shows "moved 0 r r'"
proof -
  have "u8 (Suc (n + pending r)) = Suc (n + pending r)" if "n \<le> 252" for n
    using pending_le[of r'] assms(6) that by (intro u8_small) simp
  then show ?thesis using assms by (auto simp: moved_def)
qed

lemma precharge_event_moved:
  assumes "precharge_event now r t = Inr r'" shows "moved 0 r r'"
proof (cases "rk_prechargeEvent r")
  case None
  then have e: "r' = r\<lparr>rk_prechargeEvent := Some t, rk_outstandingEvents := u8 (rk_outstandingEvents r + 1)\<rparr>"
    using assms by (auto simp: precharge_event_def schedule_def split: if_splits)
  show ?thesis by (rule moved_pending) (simp_all add: e None pending_def rank_key_def)
next
  case (Some w)
  then have "r' = r \<or> r' = r\<lparr>rk_prechargeEvent := Some t\<rparr>"
    using assms by (auto simp: precharge_event_def reschedule_def split: if_splits)
  then show ?thesis using Some moved_same[of r r] by (auto simp: moved_def rank_key_def pending_def)
qed

lemma write_done_event_moved:
  assumes "write_done_event now r t = Inr r'" shows "moved 0 r r'"
proof (cases "rk_writeDoneEvent r")
  case None
  then have e: "r' = r\<lparr>rk_writeDoneEvent := Some t, rk_outstandingEvents := u8 (rk_outstandingEvents r + 1)\<rparr>"
    using assms by (auto simp: write_done_event_def schedule_def split: if_splits)
  show ?thesis by (rule moved_pending) (simp_all add: e None pending_def rank_key_def)
next
  case (Some w)
  then have "r' = r \<or> r' = r\<lparr>rk_writeDoneEvent := Some t\<rparr>"
    using assms by (auto simp: write_done_event_def reschedule_def split: if_splits)
  then show ?thesis using Some moved_same[of r r] by (auto simp: moved_def rank_key_def pending_def)
qed

lemma activate_event_key: "activate_event now r t = Inr r' \<Longrightarrow> rank_key r' = rank_key r"
  by (auto simp: activate_event_def schedule_def reschedule_def split: option.splits if_splits)

lemma activation_window_key: "activation_window d t r = Inr r' \<Longrightarrow> rank_key r' = rank_key r"
  by (auto simp: activation_window_def Let_def split: if_splits)

lemma prechargeBank_moved:
  assumes "prechargeBank d W now B r b t auto tr = ok (B', r')" shows "moved 0 r r'"
proof -
  obtain r5 t' where "precharge_event now r5 t' = Inr r'" "rank_key r5 = rank_key r"
    using assms by (auto simp: prechargeBank_def obind_eq_ok rbind_eq_Inr_iff Let_def split: if_splits)
  then show ?thesis using precharge_event_moved[of now r5 t' r'] moved_key[of r5 r r' r' 0] by simp
qed

lemma activateBank_key:
  assumes "activateBank d W now B r b t row = ok (B', r')" shows "rank_key r' = rank_key r"
  using assms by (auto simp: activateBank_def obind_eq_ok rbind_eq_Inr_iff Let_def split: if_splits
      dest!: activation_window_key activate_event_key)

lemma burst_open_moved:
  assumes "burst_open d W now B r b row = ok (B', r', act, t)" shows "moved 0 r r'"
proof (cases "bk_openRow (rk_banks r ! b) = row")
  case True
  then show ?thesis using assms moved_same[of r r] by (simp add: burst_open_def)
next
  case False
  obtain B1 r1 t' where p: "(if bk_openRow (rk_banks r ! b) \<noteq> NO_ROW
      then prechargeBank d W now B r b (max (bk_preAllowedAt (rk_banks r ! b)) now) False True else ok (B, r)) = ok (B1, r1)"
    "activateBank d W now B1 r1 b t' row = ok (B', r')"
    using assms False by (auto simp: burst_open_def obind_eq_ok Let_def)
  have "moved 0 r r1" using p(1) prechargeBank_moved moved_same[of r r] by (auto split: if_splits)
  then show ?thesis using moved_trans0(1) moved_same[OF activateBank_key[OF p(2)]] by blast
qed

lemma burst_finish_moved:
  assumes "burst_finish d W now B r pkt others t = ok (B', r')"
  shows "moved (if mp_read pkt then 1 else 0) r r'"
proof -
  define r1 where "r1 = upd_bank (mp_bank pkt) (burst_bank d pkt t) r"
  define r2 where "r2 = log_cmd (Command (if mp_read pkt then RD else WR) (mp_bank pkt) t) r1"
  obtain B3 r3 where p: "(if auto_precharge d (rk_banks r1 ! mp_bank pkt) pkt others
      then prechargeBank d W now B r2 (mp_bank pkt) (max now (bk_preAllowedAt (rk_banks r1 ! mp_bank pkt))) True True else ok (B, r2)) = ok (B3, r3)"
    "rbind (if mp_read pkt then Inr (r3\<lparr>rk_outstandingEvents := u8 (rk_outstandingEvents r3 + 1)\<rparr>)
             else rbind (write_done_event now r3 (mp_readyTime pkt)) (\<lambda>r4. Inr (r4\<lparr>rk_writeEntries := dec32 (rk_writeEntries r4)\<rparr>)))
       (\<lambda>r5. Inr (B3, r5)) = Inr (B', r')"
    using assms unfolding burst_finish_def Let_def r1_def[symmetric] r2_def[symmetric] obind_eq_ok by (auto simp del: if_split)
  have r2: "rank_key r2 = rank_key r" by (simp add: r1_def r2_def)
  have "moved 0 r2 r3" using p(1) prechargeBank_moved moved_same[of r2 r2] by (auto split: if_splits)
  then have m: "moved 0 r r3" using moved_key[OF r2 refl] by blast
  show ?thesis
  proof (cases "mp_read pkt")
    case True
    then have "r' = r3\<lparr>rk_outstandingEvents := u8 (rk_outstandingEvents r3 + 1)\<rparr>" using p(2) by simp
    moreover have "pending r3 \<le> 3" by (rule pending_le)
    ultimately have "moved 1 r3 r'" by (simp add: moved_def rank_key_def pending_def u8_small)
    then show ?thesis using True m moved_trans0(1) by simp
  next
    case False
    then obtain r4 where w: "write_done_event now r3 (mp_readyTime pkt) = Inr r4" "r' = r4\<lparr>rk_writeEntries := dec32 (rk_writeEntries r4)\<rparr>"
      using p(2) by (auto simp: rbind_eq_Inr_iff)
    have "moved 0 r3 r'" using write_done_event_moved[OF w(1)] moved_key[of r3 r3 r' r4 0] w(2) by simp
    then show ?thesis using False m moved_trans0(1) by simp
  qed
qed

lemma delayBankRowhammer_key: "rank_key (delayBankRowhammer d r b row t k) = rank_key r"
  by (simp add: delayBankRowhammer_def Let_def)

text \<open>A burst moves its own rank and leaves the books of the others alone.\<close>

lemma burst_moved:
  assumes "dram_doBurstAccess d W now B s pkt nb others = ok (B', s', pkt', act, at, nb')"
    and "\<not> rk_inLowPowerState (dr_ranks s ! mp_rank pkt)"
  shows "length (dr_ranks s') = length (dr_ranks s)" "mp_rank pkt < length (dr_ranks s)" "mp_rank pkt' = mp_rank pkt"
    "mp_read pkt' = mp_read pkt" "rk_refreshState (dr_ranks s ! mp_rank pkt) = REF_IDLE"
    "moved (if mp_read pkt then 1 else 0) (dr_ranks s ! mp_rank pkt) (dr_ranks s' ! mp_rank pkt)"
    "\<And>j. j < length (dr_ranks s) \<Longrightarrow> j \<noteq> mp_rank pkt \<Longrightarrow> rank_key (dr_ranks s' ! j) = rank_key (dr_ranks s ! j)"
proof -
  let ?j = "mp_rank pkt" and ?b = "mp_bank pkt"
  define r0 where "r0 = dr_ranks s ! ?j"
  have j: "?j < length (dr_ranks s)" and jb: "?b < length (rk_banks r0)" and idle: "rk_refreshState r0 = REF_IDLE"
    using assms(1) by (auto simp: dram_doBurstAccess_def Let_def r0_def inRefIdleState_def split: if_splits)
  have w: "burst_wake d now r0 = Inr r0" using assms(2) by (simp add: burst_wake_def r0_def)
  obtain B2 r2 t B3 gap where r: "burst_open d W now B r0 ?b (mp_row pkt) = ok (B2, r2, act, t)"
    "burst_cmd d W now B2 r2 pkt nb = ok (B3, at, gap)"
    using assms(1) w unfolding r0_def by (auto simp: dram_doBurstAccess_def Let_def obind_eq_ok split: if_splits)
  define r3 where "r3 = r2\<lparr>rk_lastBurstTick := at\<rparr>"
  define ranks1 where "ranks1 = col_update d ?j (mp_read pkt) (bk_bankgr (rk_banks r3 ! ?b)) gap at ((dr_ranks s)[?j := r3])"
  define pkt1 where "pkt1 = pkt\<lparr>mp_readyTime := at + dp_tCL d + dp_tBURST d\<rparr>"
  define F where "F = (\<lambda>(B4 :: burst_ticks, r4). if mp_rh_injectDelay pkt \<and> mp_rh_bankDelay pkt \<noteq> 0 \<and> t = 0 then failed AssertFail
    else ok (B4, (burst_stats d (s\<lparr>dr_activeRank := ?j\<rparr>) pkt1 (\<not> act) at)
      \<lparr>dr_ranks := ranks1[?j := (if mp_rh_injectDelay pkt \<and> mp_rh_bankDelay pkt \<noteq> 0
         then delayBankRowhammer d r4 ?b (mp_row pkt) t (mp_rh_bankDelay pkt) else r4)]\<rparr>,
      pkt1, act, at, at + gap + (if mp_rh_injectDelay pkt then mp_rh_busDelay pkt else 0)))"
  have "dram_doBurstAccess d W now B s pkt nb others = obind (burst_finish d W now B3 (ranks1 ! ?j) pkt1 others at) F"
    unfolding dram_doBurstAccess_def Let_def r0_def[symmetric] w r(1,2) obind_ok prod.case F_def
    by (simp only: j jb idle inRefIdleState_def r(2) obind_ok prod.case simp_thms if_False if_True ranks1_def r3_def pkt1_def)
  then have "obind (burst_finish d W now B3 (ranks1 ! ?j) pkt1 others at) F = ok (B', s', pkt', act, at, nb')"
    using assms(1) by simp
  then obtain B4 r4 where f1: "burst_finish d W now B3 (ranks1 ! ?j) pkt1 others at = ok (B4, r4)"
    "F (B4, r4) = ok (B', s', pkt', act, at, nb')" unfolding obind_eq_ok by auto
  then have f: "burst_finish d W now B3 (ranks1 ! ?j) pkt1 others at = ok (B4, r4)"
    "dr_ranks s' = ranks1[?j := (if mp_rh_injectDelay pkt \<and> mp_rh_bankDelay pkt \<noteq> 0
       then delayBankRowhammer d r4 ?b (mp_row pkt) t (mp_rh_bankDelay pkt) else r4)]" "pkt' = pkt1"
    by (auto simp: F_def split: if_splits)
  have l1: "length ranks1 = length (dr_ranks s)" by (simp add: ranks1_def col_update_def)
  have k1: "rank_key (ranks1 ! i) = rank_key (((dr_ranks s)[?j := r3]) ! i)" if "i < length (dr_ranks s)" for i
    using that by (simp add: ranks1_def col_update_nth)
  have "moved 0 r0 (ranks1 ! ?j)"
    using burst_open_moved[OF r(1)] moved_key[of r0 r0 "ranks1 ! ?j" r2 0] k1[OF j] j by (simp add: r3_def)
  moreover have "moved (if mp_read pkt then 1 else 0) (ranks1 ! ?j) r4"
    using burst_finish_moved[OF f(1)] by (simp add: pkt1_def)
  ultimately have "moved (if mp_read pkt then 1 else 0) r0 r4" by (rule moved_trans0(1))
  moreover have "rank_key (dr_ranks s' ! ?j) = rank_key r4" using j l1 f(2) by (simp add: delayBankRowhammer_key)
  ultimately show "moved (if mp_read pkt then 1 else 0) (dr_ranks s ! ?j) (dr_ranks s' ! ?j)"
    using moved_key[of r0 r0 "dr_ranks s' ! ?j" r4] by (simp add: r0_def)
  show "length (dr_ranks s') = length (dr_ranks s)" "?j < length (dr_ranks s)" "mp_rank pkt' = ?j" "mp_read pkt' = mp_read pkt"
    "rk_refreshState (dr_ranks s ! ?j) = REF_IDLE" using j l1 f idle by (simp_all add: pkt1_def r0_def)
  show "rank_key (dr_ranks s' ! i) = rank_key (dr_ranks s ! i)" if "i < length (dr_ranks s)" "i \<noteq> ?j" for i
    using that k1[OF that(1)] f(2) by simp
qed

end
