(* ===== verification/Channel_Books.thy ===== *)
theory Channel_Books
  imports System_Events
begin

text \<open>
  The books of the ranks over the events of a channel without power-down: each event of a rank that does
  not fail keeps them, the controller's events never fail, and so only a rank's own events can stop a run.
\<close>

section \<open>The events of a rank\<close>

lemma schedulePowerEvent_books:
  assumes "schedulePowerEvent now r p t = Inr r'" "books r n" "awake p"
  shows "books r' n" "length (rk_banks r') = length (rk_banks r)"
  using assms by (auto simp: schedulePowerEvent_Inr books_def pending_def)

lemma refresh_bank_moved:
  assumes "refresh_bank d now t r b = ok r'" shows "moved 0 r r'"
  using assms prechargeBank_moved[of d 0 now "{#}" r b t True False _ r'] moved_same[of r' r]
  by (auto simp: refresh_bank_def obind_eq_ok split: if_splits)

lemma refresh_banks_moved: "refresh_banks d now t bs r = ok r' \<Longrightarrow> moved 0 r r'"
proof (induction bs arbitrary: r)
  case Nil
  then show ?case using moved_same[of r r] by simp
next
  case (Cons b bs)
  then show ?case using refresh_bank_moved moved_trans0(1) by (fastforce simp: obind_eq_ok)
qed

lemma refresh_pre_cases:
  assumes "refresh_pre d e r = ok r'"
  obtains r1 where "refresh_banks d (en_now e) (all_pre_at (en_now e) r) [0..<length (rk_banks r)] r = ok r1"
      "r' = log_cmd (Command PREA 0 (all_pre_at (en_now e) r)) r1"
    | "schedulePowerEvent (en_now e) r PWR_REF (en_now e) = Inr r'" | "r' = r"
proof -
  let ?t = "all_pre_at (en_now e) r"
  have x: "(if rk_numBanksActive r \<noteq> 0
            then let pre_at = ?t in obind (refresh_banks d (en_now e) pre_at [0..<length (rk_banks r)] r) (\<lambda>r1.
                ok (log_cmd (Command PREA 0 pre_at) r1))
            else if rk_pwrState r = PWR_IDLE \<and> rk_outstandingEvents r = 1
            then Some (schedulePowerEvent (en_now e) r PWR_REF (en_now e))
            else if rk_prechargeEvent r \<noteq> None \<or> en_respondEventScheduled e then ok r else failed AssertFail) = ok r'"
    using assms(1) unfolding refresh_pre_def Let_def obind_eq_ok by (metis option.inject sum.simps(4) old.sum.inject(2))
  show ?thesis
  proof (cases "rk_numBanksActive r = 0")
    case closed: True
    show ?thesis
    proof (cases "rk_pwrState r = PWR_IDLE \<and> rk_outstandingEvents r = 1")
      case True
      then have "schedulePowerEvent (en_now e) r PWR_REF (en_now e) = Inr r'" using x closed by simp
      then show ?thesis by (rule that(2))
    next
      case False
      then have "(if rk_prechargeEvent r \<noteq> None \<or> en_respondEventScheduled e then ok r else failed AssertFail) = ok r'"
        using x unfolding closed if_not_P[OF False] by simp
      then have "r' = r" by (simp split: if_splits)
      then show ?thesis by (rule that(3))
    qed
  next
    case False
    then have "obind (refresh_banks d (en_now e) ?t [0..<length (rk_banks r)] r) (\<lambda>r1. ok (log_cmd (Command PREA 0 ?t) r1)) = ok r'"
      using x by (simp add: Let_def)
    then show ?thesis unfolding obind_eq_ok using that(1) by auto
  qed
qed

lemma refresh_pre_books:
  assumes "refresh_pre d e r = ok r'" "books r n" "n \<le> 252"
  shows "books r' n" "length (rk_banks r') = length (rk_banks r)"
proof -
  have "books r' n \<and> length (rk_banks r') = length (rk_banks r)"
    using assms(1)
  proof (cases rule: refresh_pre_cases)
    case (1 r1)
    have m: "moved 0 r r1" by (rule refresh_banks_moved[OF 1(1)])
    then have "books r1 n" using moved_books[of 0 r r1 n] assms(2,3) by simp
    then show ?thesis using m books_key[of r' r1 n] by (simp add: 1(2) moved_def)
  next
    case 2
    then show ?thesis using schedulePowerEvent_books[OF _ assms(2)] by simp
  next
    case 3
    then show ?thesis using assms(2) by simp
  qed
  then show "books r' n" "length (rk_banks r') = length (rk_banks r)" by simp_all
qed

lemma refresh_start_books:
  assumes "refresh_start d e r = Inr r'" "books r n" "rk_refreshState r = REF_START"
  shows "books r' n" "length (rk_banks r') = length (rk_banks r)"
  using assms by (auto simp: refresh_start_def Let_def rbind_eq_Inr_iff schedule_def books_def pending_def flushCmdList_def split: if_splits)

lemma refresh_run_power:
  assumes "refresh_run d e r = Inr r'" "books r n" "\<not> dp_enableDRAMPowerdown d"
  shows "\<exists>r1. schedulePowerEvent (en_now e) r PWR_IDLE (en_now e) = Inr r1 \<and>
    r' = r1\<lparr>rk_refreshEvent := Some (sub64 (rk_refreshDueAt r1) (dp_tRP d))\<rparr>"
  using assms by (auto simp: refresh_run_def books_def rbind_eq_Inr_iff schedule_def split: if_splits)

lemma refresh_run_books:
  assumes "refresh_run d e r = Inr r'" "books r n" "rk_refreshState r = REF_RUN" "\<not> dp_enableDRAMPowerdown d"
  shows "books r' n" "length (rk_banks r') = length (rk_banks r)"
  using refresh_run_power[OF assms(1,2,4)] assms(2,3) by (auto simp: schedulePowerEvent_Inr books_def pending_def)

text \<open>What the activation bookkeeping of a rank depends on.\<close>

definition wf_key :: "dram_rank \<Rightarrow> bank list \<times> nat \<times> tick list" where
  "wf_key r = (rk_banks r, rk_numBanksActive r, rk_actTicks r)"

lemma rank_wf_key: "wf_key r' = wf_key r \<Longrightarrow> rank_wf d r' = rank_wf d r"
  using rank_wf_cong[of r' r d] by (simp add: wf_key_def)

lemma schedulePowerEvent_wf_key: "schedulePowerEvent now r p t = Inr r' \<Longrightarrow> wf_key r' = wf_key r"
  by (simp add: schedulePowerEvent_Inr wf_key_def)

text \<open>The refresh event up to its last stage.\<close>

lemma refresh_event_stages:
  assumes "processRefreshEvent d e (r\<lparr>rk_refreshEvent := None\<rparr>) = ok r'" "books r n" "n \<le> 252"
  obtains r2 where "books r2 n" "wf_key r2 = wf_key r"
    "r' = r2 \<or> (refresh_pre d e r2 = ok r') \<or> (rk_refreshState r = REF_START \<and> rk_refreshState r2 = REF_START \<and> refresh_start d e r2 = Inr r') \<or>
     (rk_refreshState r2 = REF_RUN \<and> refresh_run d e r2 = Inr r')"
proof -
  let ?r = "r\<lparr>rk_refreshEvent := None\<rparr>"
  define r0 where "r0 = refresh_begin e ?r"
  have b0: "books r0 n" "wf_key r0 = wf_key r" "rk_refreshEvent r0 = None"
    "rk_refreshState r0 = (if rk_refreshState r = REF_IDLE then REF_DRAIN else rk_refreshState r)"
    using assms(2,3) by (auto simp: r0_def refresh_begin_def books_def pending_def u8_small wf_key_def)
  obtain r1 go where d: "refresh_drain e r0 = (r1, go)" by (cases "refresh_drain e r0")
  have r1: "r1 = r0 \<or> r1 = r0\<lparr>rk_refreshState := REF_PD_EXIT\<rparr> \<and> rk_refreshState r0 = REF_DRAIN"
    using d by (auto simp: refresh_drain_def split: if_splits)
  have b1: "books r1 n" "wf_key r1 = wf_key r" "rk_refreshEvent r1 = None"
    "rk_refreshState r1 = REF_START \<longrightarrow> rk_refreshState r = REF_START"
  proof -
    have "books r1 n \<and> wf_key r1 = wf_key r \<and> rk_refreshEvent r1 = None \<and> (rk_refreshState r1 = REF_START \<longrightarrow> rk_refreshState r = REF_START)"
      using r1
    proof
      assume "r1 = r0"
      then show ?thesis using b0 by (simp split: if_splits)
    next
      assume r1: "r1 = r0\<lparr>rk_refreshState := REF_PD_EXIT\<rparr> \<and> rk_refreshState r0 = REF_DRAIN"
      then have "pending r1 = pending r0" "wf_key r1 = wf_key r0" by (simp_all add: pending_def wf_key_def)
      then show ?thesis using b0(1-3) r1 by (simp add: books_def)
    qed
    then show "books r1 n" "wf_key r1 = wf_key r" "rk_refreshEvent r1 = None"
      "rk_refreshState r1 = REF_START \<longrightarrow> rk_refreshState r = REF_START" by simp_all
  qed
  define r2 where "r2 = (if rk_refreshState r1 = REF_PD_EXIT then r1\<lparr>rk_refreshState := REF_PRE\<rparr> else r1)"
  have p: "refresh_pd_exit d e r1 = Inr (r2, True)"
    using b1(1) by (simp add: refresh_pd_exit_def books_def r2_def)
  have b2: "books r2 n" "wf_key r2 = wf_key r" "rk_refreshState r2 = REF_START \<longrightarrow> rk_refreshState r = REF_START"
    using b1 by (auto simp: r2_def books_def pending_def wf_key_def)
  have "(if \<not> go then ok r1 else if rk_refreshState r2 = REF_PRE then refresh_pre d e r2
      else if rk_refreshState r2 = REF_START then Some (refresh_start d e r2)
      else if rk_refreshState r2 = REF_RUN then Some (refresh_run d e r2) else ok r2) = ok r'"
    using assms(1) d p by (simp add: processRefreshEvent_def r0_def[symmetric] split: if_splits)
  then show ?thesis using that[OF b1(1,2)] that[OF b2(1,2)] b2(3) by (auto split: if_splits)
qed

lemma refresh_event_books:
  assumes "processRefreshEvent d e (r\<lparr>rk_refreshEvent := None\<rparr>) = ok r'" "books r n" "n \<le> 252" "\<not> dp_enableDRAMPowerdown d"
  shows "books r' n \<and> length (rk_banks r') = length (rk_banks r)"
proof -
  obtain r2 where r2: "books r2 n" "wf_key r2 = wf_key r"
    "r' = r2 \<or> (refresh_pre d e r2 = ok r') \<or> (rk_refreshState r = REF_START \<and> rk_refreshState r2 = REF_START \<and> refresh_start d e r2 = Inr r') \<or>
     (rk_refreshState r2 = REF_RUN \<and> refresh_run d e r2 = Inr r')"
    by (rule refresh_event_stages[OF assms(1-3)])
  have l: "length (rk_banks r2) = length (rk_banks r)" using r2(2) by (simp add: wf_key_def)
  consider "r' = r2" | "refresh_pre d e r2 = ok r'" | "rk_refreshState r2 = REF_START" "refresh_start d e r2 = Inr r'"
    | "rk_refreshState r2 = REF_RUN" "refresh_run d e r2 = Inr r'" using r2(3) by blast
  then show ?thesis
  proof cases
    case 1
    then show ?thesis using r2(1) l by simp
  next
    case 2
    then show ?thesis using refresh_pre_books[OF 2 r2(1) assms(3)] l by simp
  next
    case 3
    then show ?thesis using refresh_start_books[OF 3(2) r2(1) 3(1)] l by simp
  next
    case 4
    then show ?thesis using refresh_run_books[OF 4(2) r2(1) 4(1) assms(4)] l by simp
  qed
qed

text \<open>The activation bookkeeping over the refresh event.  When a refresh starts, the bank constraints are
  overwritten with its end, so the activations of the rank must be far enough in the past.\<close>

lemma prechargeBank_auto:
  assumes "prechargeBank d W now B r b t True tr = ok (B', r')"
  shows "prechargeBank d W2 now B2 r b t True tr = ok (B2, r')"
  using assms unfolding prechargeBank_def Let_def by (auto simp: obind_eq_ok rbind_eq_Inr_iff split: if_splits)

lemma refresh_bank_wf:
  assumes "refresh_bank d now t r b = ok r'" "rank_wf d r" "bus_ok d W B" "b < length (rk_banks r)" "now \<le> t"
  shows "rank_wf d r'" "length (rk_banks r') = length (rk_banks r)"
proof -
  have "rank_wf d r' \<and> length (rk_banks r') = length (rk_banks r)"
  proof (cases "bk_openRow (rk_banks r ! b) = NO_ROW")
    case True
    let ?f = "\<lambda>k. k\<lparr>bk_actAllowedAt := max (bk_actAllowedAt k) (t + dp_tRP d), bk_preAllowedAt := max (bk_preAllowedAt k) t\<rparr>"
    have r': "r' = upd_bank b ?f r" using assms(1) True by (simp add: refresh_bank_def)
    have "act_ok d (rk_actTicks r) (?f (rk_banks r ! b))"
    proof -
      have "act_ok d (rk_actTicks r) (rk_banks r ! b)" using assms(2,4) by (simp add: rank_wf_def)
      then show ?thesis by (auto simp: act_ok_def intro: max.coboundedI1)
    qed
    moreover have "count_open ((rk_banks r)[b := ?f (rk_banks r ! b)]) = count_open (rk_banks r)"
      using count_open_upd[OF assms(4), of "?f (rk_banks r ! b)"] by (simp add: is_open_def)
    ultimately show ?thesis using assms(2) all_upd[of "rk_banks r" "act_ok d (rk_actTicks r)"]
      by (simp add: r' rank_wf_def)
  next
    case False
    then obtain B' where "prechargeBank d 0 now {#} r b t True False = ok (B', r')"
      using assms(1) by (auto simp: refresh_bank_def obind_eq_ok)
    then have p: "prechargeBank d W now B r b t True False = ok (B, r')" by (rule prechargeBank_auto)
    have "is_open (rk_banks r ! b)" using False by (simp add: is_open_def)
    from prechargeBank_ok[OF assms(2,3,4) this assms(5), of True False] p
    show ?thesis by (auto simp: rank_frame_eq_def)
  qed
  then show "rank_wf d r'" "length (rk_banks r') = length (rk_banks r)" by simp_all
qed

lemma refresh_banks_wf:
  "refresh_banks d now t bs r = ok r' \<Longrightarrow> rank_wf d r \<Longrightarrow> bus_ok d W B \<Longrightarrow> \<forall>b\<in>set bs. b < length (rk_banks r) \<Longrightarrow> now \<le> t \<Longrightarrow>
    rank_wf d r'"
proof (induction bs arbitrary: r)
  case (Cons b bs)
  obtain r1 where r1: "refresh_bank d now t r b = ok r1" "refresh_banks d now t bs r1 = ok r'"
    using Cons.prems(1) by (auto simp: obind_eq_ok)
  have b: "b < length (rk_banks r)" using Cons.prems(4) by simp
  note W = refresh_bank_wf[OF r1(1) Cons.prems(2,3) b Cons.prems(5)]
  show ?case by (rule Cons.IH[OF r1(2) W(1) Cons.prems(3) _ Cons.prems(5)]) (use Cons.prems(4) W(2) in simp)
qed simp

lemma all_pre_at_ge: "now \<le> all_pre_at now r"
proof -
  have "t \<le> fold (\<lambda>b t. max (bk_preAllowedAt b) t) ks t" for ks :: "bank list" and t
    by (induction ks arbitrary: t) (auto intro: order_trans[OF max.cobounded2])
  then show ?thesis by (simp add: all_pre_at_def)
qed

lemma refresh_event_wf:
  assumes "processRefreshEvent d e (r\<lparr>rk_refreshEvent := None\<rparr>) = ok r'" "books r n" "n \<le> 252" "\<not> dp_enableDRAMPowerdown d"
    and "rank_wf d r" "bus_ok d W B"
    and "rk_refreshState r = REF_START \<longrightarrow> (\<forall>t\<in>set (rk_actTicks r). t + dp_tXAW d \<le> en_now e + dp_tRFC d)"
  shows "rank_wf d r'"
proof -
  obtain r2 where r2: "books r2 n" "wf_key r2 = wf_key r"
    "r' = r2 \<or> (refresh_pre d e r2 = ok r') \<or> (rk_refreshState r = REF_START \<and> rk_refreshState r2 = REF_START \<and> refresh_start d e r2 = Inr r') \<or>
     (rk_refreshState r2 = REF_RUN \<and> refresh_run d e r2 = Inr r')"
    by (rule refresh_event_stages[OF assms(1-3)])
  have wf2: "rank_wf d r2" using rank_wf_key[OF r2(2)] assms(5) by simp
  have ts: "rk_actTicks r2 = rk_actTicks r" using r2(2) by (simp add: wf_key_def)
  consider "r' = r2" | "refresh_pre d e r2 = ok r'" | "rk_refreshState r = REF_START" "refresh_start d e r2 = Inr r'"
    | "rk_refreshState r2 = REF_RUN" "refresh_run d e r2 = Inr r'" using r2(3) by blast
  then show ?thesis
  proof cases
    case 1
    then show ?thesis using wf2 by simp
  next
    case 2
    then show ?thesis
    proof (cases rule: refresh_pre_cases)
      case (1 r1)
      have "rank_wf d r1" by (rule refresh_banks_wf[OF 1(1) wf2 assms(6)]) (simp_all add: all_pre_at_ge)
      then show ?thesis using rank_wf_cong[of r' r1 d] by (simp add: 1(2))
    next
      case 2
      then show ?thesis using rank_wf_key[OF schedulePowerEvent_wf_key[OF 2]] wf2 by simp
    next
      case 3
      then show ?thesis using wf2 by simp
    qed
  next
    case 3
    let ?t = "en_now e + dp_tRFC d"
    have r': "rk_banks r' = map (bk_actAllowedAt_update (\<lambda>_. ?t)) (rk_banks r2)" "rk_numBanksActive r' = rk_numBanksActive r2"
      "rk_actTicks r' = rk_actTicks r2"
      using 3(2) by (auto simp: refresh_start_def Let_def rbind_eq_Inr_iff schedule_def flushCmdList_def split: if_splits)
    have "act_ok d (rk_actTicks r2) (k\<lparr>bk_actAllowedAt := ?t\<rparr>)" for k
    proof (cases "rk_actTicks r2 = []")
      case False
      have "hd (rk_actTicks r2) + dp_tXAW d \<le> ?t" "last (rk_actTicks r2) + dp_tXAW d \<le> ?t"
        using assms(7) 3(1) False by (simp_all add: ts)
      then show ?thesis by (simp add: act_ok_def)
    qed (simp add: act_ok_def)
    moreover have "count_open (map (bk_actAllowedAt_update (\<lambda>_. ?t)) ks) = count_open ks" for ks
      by (induction ks) (simp_all add: count_open_def is_open_def)
    ultimately show ?thesis using wf2 by (auto simp: rank_wf_def r')
  next
    case 4
    obtain r1 where r1: "schedulePowerEvent (en_now e) r2 PWR_IDLE (en_now e) = Inr r1"
      "r' = r1\<lparr>rk_refreshEvent := Some (sub64 (rk_refreshDueAt r1) (dp_tRP d))\<rparr>"
      using refresh_run_power[OF 4(2) r2(1) assms(4)] by blast
    have "wf_key r' = wf_key r2" using schedulePowerEvent_wf_key[OF r1(1)] by (simp add: r1(2) wf_key_def)
    then show ?thesis using rank_wf_key wf2 by blast
  qed
qed

lemma power_event_books:
  assumes "processPowerEvent d e (r\<lparr>rk_powerEvent := None\<rparr>) = Inr (r', restart)" "books r n" "\<not> dp_enableDRAMPowerdown d"
  shows "books r' n \<and> wf_key r' = wf_key r"
proof -
  let ?prev = "rk_pwrState r"
  obtain r1 r2 r3 where r: "rk_pwrState r1 = rk_pwrStateTrans r" "rk_powerEvent r1 = None"
    "rank_key r1 = rank_key (r\<lparr>rk_pwrState := rk_pwrStateTrans r\<rparr>)" "wf_key r1 = wf_key r"
    "power_after_refresh e ?prev r1 = Inr (r2, restart)" "power_idle d e ?prev r2 = Inr r3" "power_refresh d e r3 = Inr r'"
  proof -
    let ?d = "en_now e - rk_pwrStateTick r"
    let ?r1 = "r\<lparr>rk_powerEvent := None, rk_s_pwrStateTime := (rk_s_pwrStateTime r)(?prev := rk_s_pwrStateTime r ?prev + ?d),
        rk_s_totalIdleTime := (if ?prev = PWR_PRE_PDN \<or> ?prev = PWR_ACT_PDN \<or> ?prev = PWR_SREF
          then rk_s_totalIdleTime r + ?d else rk_s_totalIdleTime r),
        rk_pwrState := rk_pwrStateTrans r, rk_pwrStateTick := en_now e\<rparr>"
    have "rk_pwrStateTick r \<le> en_now e" using assms(1) by (simp add: processPowerEvent_def split: if_splits)
    then have "processPowerEvent d e (r\<lparr>rk_powerEvent := None\<rparr>) = rbind (power_after_refresh e ?prev ?r1) (\<lambda>(r2, restart).
        rbind (power_idle d e ?prev r2) (\<lambda>r3. rbind (power_refresh d e r3) (\<lambda>r4. Inr (r4, restart))))"
      unfolding processPowerEvent_def Let_def by simp
    then have "rbind (power_after_refresh e ?prev ?r1) (\<lambda>(r2, restart). rbind (power_idle d e ?prev r2) (\<lambda>r3.
        rbind (power_refresh d e r3) (\<lambda>r4. Inr (r4, restart)))) = Inr (r', restart)" using assms(1) by (rule trans[OF sym])
    then obtain r2 r3 where "power_after_refresh e ?prev ?r1 = Inr (r2, restart)" "power_idle d e ?prev r2 = Inr r3" "power_refresh d e r3 = Inr r'"
      unfolding rbind_eq_Inr_iff by (auto simp: rbind_eq_Inr_iff)
    then show ?thesis using that[of ?r1 r2 r3] by (simp add: rank_key_def wf_key_def)
  qed
  have k1: "rk_refreshState r1 = rk_refreshState r" "rk_refreshEvent r1 = rk_refreshEvent r" "rk_writeDoneEvent r1 = rk_writeDoneEvent r"
    "rk_prechargeEvent r1 = rk_prechargeEvent r" "rk_outstandingEvents r1 = rk_outstandingEvents r"
    "length (rk_banks r1) = length (rk_banks r)" "rk_inLowPowerState r1 = rk_inLowPowerState r" "rk_wakeUpEvent r1 = rk_wakeUpEvent r"
    "rk_pwrStateTrans r1 = rk_pwrStateTrans r" "rk_pwrStatePostRefresh r1 = rk_pwrStatePostRefresh r"
    using r(3) by (simp_all add: rank_key_def)
  note B = assms(2)[unfolded books_def]
  have b2: "\<not> rk_inLowPowerState r2 \<and> rk_wakeUpEvent r2 = None \<and> rk_pwrState r2 = rk_pwrStateTrans r \<and>
     rk_pwrStateTrans r2 = rk_pwrStateTrans r \<and> rk_pwrStatePostRefresh r2 = PWR_IDLE \<and> rk_refreshState r2 \<noteq> REF_SREF_EXIT \<and>
     (rk_refreshState r2 = REF_DRAIN \<longrightarrow> rk_refreshEvent r2 = None) \<and>
     (rk_refreshState r2 = REF_PRE \<and> rk_refreshEvent r2 \<noteq> None \<longrightarrow> n = 0) \<and>
     rk_refreshState r2 \<noteq> REF_START \<and> rk_refreshState r2 \<noteq> REF_RUN \<and>
     rk_outstandingEvents r2 = n + pending r2 \<and> length (rk_banks r2) = length (rk_banks r)"
  proof (cases "?prev = PWR_REF")
    case True
    have "rk_outstandingEvents r1 = 1" using True r(5) by (simp add: power_after_refresh_def split: if_splits)
    then have e: "r2 = r1\<lparr>rk_outstandingEvents := 0, rk_refreshState := REF_IDLE\<rparr>"
      using r(5) True by (simp add: power_after_refresh_def Let_def split: if_splits)
    have busy: "rk_refreshState r \<noteq> REF_IDLE" using B True by auto
    then have "n = 0 \<and> rk_writeDoneEvent r = None \<and> rk_prechargeEvent r = None"
      using B k1(5) \<open>rk_outstandingEvents r1 = 1\<close> by (simp add: pending_def)
    then show ?thesis using B k1 r(1) by (simp add: e pending_def)
  next
    case False
    then show ?thesis using r(5) B k1 r(1) by (auto simp: power_after_refresh_def pending_def)
  qed
  have t: "awake (rk_pwrStateTrans r)" "awake ?prev" using B by blast+
  have b3: "r3 = r2 \<or> r3 = r2\<lparr>rk_pwrState := PWR_REF\<rparr> \<and> rk_refreshState r2 = REF_PRE"
    using r(6) b2 t by (auto simp: power_idle_def split: if_splits)
  have b4: "r' = (if rk_pwrState r3 = PWR_REF then r3\<lparr>rk_refreshEvent := Some (en_now e), rk_refreshState := REF_START\<rparr> else r3)"
    "rk_pwrState r3 = PWR_REF \<longrightarrow> rk_refreshState r3 = REF_PRE \<or> rk_refreshState r3 = REF_PD_EXIT"
    using r(7) b2 b3 assms(3) by (auto simp: power_refresh_def rbind_eq_Inr_iff schedule_def split: if_splits)
  have "wf_key r2 = wf_key r" using r(4,5) by (auto simp: power_after_refresh_def Let_def wf_key_def split: if_splits)
  then have "wf_key r' = wf_key r" using b3 b4(1) by (auto simp: wf_key_def)
  moreover have "books r' n"
  proof (cases "rk_pwrState r3 = PWR_REF")
    case False
    then have "r' = r2" using b3 b4(1) by auto
    then show ?thesis using b2 b3 t(1) False by (auto simp: books_def)
  next
    case True
    have "rk_outstandingEvents r3 = n + pending r3" "\<not> rk_inLowPowerState r3 \<and> rk_wakeUpEvent r3 = None \<and>
        rk_pwrStateTrans r3 = rk_pwrStateTrans r \<and> rk_pwrStatePostRefresh r3 = PWR_IDLE"
      using b2 b3 by (auto simp: pending_def)
    then show ?thesis using True b4 t(1) by (auto simp: books_def pending_def)
  qed
  ultimately show ?thesis by simp
qed

text \<open>Every event of a rank keeps its books when it does not fail.\<close>

lemma handle_books:
  assumes "handle d e ev (clear_event ev r) = ok (r', restart)" "event_at ev r \<noteq> None" "books r n" "n \<le> 252"
    and "\<not> dp_enableDRAMPowerdown d"
  shows "books r' n \<and> (ev \<noteq> Refresh \<longrightarrow> wf_key r' = wf_key r) \<and> length (rk_banks r') = length (rk_banks r)"
proof (cases ev)
  case Write_Done
  then have "r' = r\<lparr>rk_writeDoneEvent := None, rk_outstandingEvents := rk_outstandingEvents r - 1\<rparr>"
    using assms(1) by (simp add: processWriteDoneEvent_def split: if_splits)
  then show ?thesis using assms(2,3) Write_Done by (simp add: books_def pending_def wf_key_def)
next
  case Activate
  have b: "books (r\<lparr>rk_activateEvent := None\<rparr>) n" using books_key[of "r\<lparr>rk_activateEvent := None\<rparr>" r n] assms(3) by simp
  have w: "wf_key (r\<lparr>rk_activateEvent := None\<rparr>) = wf_key r" by (simp add: wf_key_def)
  show ?thesis using assms(1) b w schedulePowerEvent_books[of "en_now e" "r\<lparr>rk_activateEvent := None\<rparr>" PWR_ACT "en_now e" r' n]
      schedulePowerEvent_wf_key[of "en_now e" "r\<lparr>rk_activateEvent := None\<rparr>" PWR_ACT "en_now e" r'] Activate
    by (auto simp: processActivateEvent_def rbind_eq_Inr_iff split: if_splits)
next
  case Precharge
  let ?r = "r\<lparr>rk_prechargeEvent := None, rk_outstandingEvents := rk_outstandingEvents r - 1\<rparr>"
  have b: "books ?r n" using assms(2,3) Precharge by (auto simp: books_def pending_def)
  have w: "wf_key ?r = wf_key r" by (simp add: wf_key_def)
  show ?thesis using assms(1,5) b w schedulePowerEvent_books[of "en_now e" ?r PWR_IDLE "en_now e" r' n] Precharge
      schedulePowerEvent_wf_key[of "en_now e" ?r PWR_IDLE "en_now e" r']
    by (auto simp: processPrechargeEvent_def rbind_eq_Inr_iff Let_def split: if_splits)
next
  case Refresh
  then show ?thesis using assms refresh_event_books[of d e r r' n] by (auto simp: obind_eq_ok)
next
  case Power
  then show ?thesis using assms power_event_books[of d e r r' restart n] by (simp add: wf_key_def)
next
  case Wake_Up
  then show ?thesis using assms(2,3) by (simp add: books_def)
qed

text \<open>The activations a refresh that starts must find in the past.\<close>

definition refresh_in_time :: "dram_params \<Rightarrow> tick \<Rightarrow> dram_rank \<Rightarrow> bool" where
  "refresh_in_time d now r \<longleftrightarrow>
     (rk_refreshState r = REF_START \<longrightarrow> (\<forall>t\<in>set (rk_actTicks r). t + dp_tXAW d \<le> now + dp_tRFC d))"

lemma handle_wf:
  assumes "handle d e ev (clear_event ev r) = ok (r', restart)" "event_at ev r \<noteq> None" "books r n" "n \<le> 252"
    and "\<not> dp_enableDRAMPowerdown d" "rank_wf d r" "bus_ok d W B" "ev = Refresh \<Longrightarrow> refresh_in_time d (en_now e) r"
  shows "rank_wf d r'"
proof (cases "ev = Refresh")
  case True
  then have "processRefreshEvent d e (r\<lparr>rk_refreshEvent := None\<rparr>) = ok r'" using assms(1) by (auto simp: obind_eq_ok)
  from refresh_event_wf[OF this assms(3-7)] show ?thesis using assms(8)[OF True] by (simp add: refresh_in_time_def)
next
  case False
  then show ?thesis using handle_books[OF assms(1-5)] rank_wf_key[of r' r d] assms(6) by simp
qed

text \<open>The end of a write never fails.\<close>

lemma write_done_ok:
  assumes "rk_writeDoneEvent r \<noteq> None" "books r n"
  shows "\<exists>r'. handle d e Write_Done (clear_event Write_Done r) = ok (r', False)"
  using assms by (simp add: processWriteDoneEvent_def books_def pending_def)

section \<open>The invariant of the channel\<close>

text \<open>The reads of rank \<open>j\<close> that wait for their response.\<close>

definition waiting :: "mem_packet list \<Rightarrow> nat \<Rightarrow> nat" where
  "waiting rs j = length (filter (\<lambda>p. mp_rank p = j) rs)"

lemma waiting_simps [simp]:
  "waiting [] j = 0" "waiting (p # rs) j = (if mp_rank p = j then 1 else 0) + waiting rs j"
  "waiting (rs @ [p]) j = waiting rs j + (if mp_rank p = j then 1 else 0)"
  by (simp_all add: waiting_def)

lemma waiting_le: "waiting rs j \<le> length rs" by (simp add: waiting_def)

definition ranks_ok :: "dram_params \<Rightarrow> dram_rank list \<Rightarrow> mem_packet list \<Rightarrow> bool" where
  "ranks_ok d ranks rs \<longleftrightarrow> length ranks = mi_ranksPerChannel (dp_iface d) \<and>
     (\<forall>r\<in>set ranks. length (rk_banks r) = mi_banksPerRank (dp_iface d)) \<and>
     (\<forall>p\<in>set rs. mp_rank p < length ranks) \<and> (\<forall>j<length ranks. books (ranks ! j) (waiting rs j))"

definition channel_inv :: "(defense \<Rightarrow> bool) \<Rightarrow> dram_params \<Rightarrow> controller \<Rightarrow> bool" where
  "channel_inv dinv d c \<longleftrightarrow> (\<exists>s. ctrl_inv dinv d s c \<and> ranks_ok d (dr_ranks s) (q_respQueue (ct_q c))) \<and>
     q_readBufferSize (ct_q c) < 252 \<and> mi_banksPerRank (dp_iface d) \<le> 32 \<and>
     \<not> dp_enableDRAMPowerdown d \<and> (\<exists>k. mi_burstSize (dp_iface d) = 2 ^ k)"

lemma ranks_okD:
  assumes "ranks_ok d ranks rs"
  shows "length ranks = mi_ranksPerChannel (dp_iface d)" "j < length ranks \<Longrightarrow> length (rk_banks (ranks ! j)) = mi_banksPerRank (dp_iface d)"
    "p \<in> set rs \<Longrightarrow> mp_rank p < length ranks" "j < length ranks \<Longrightarrow> books (ranks ! j) (waiting rs j)"
  using assms unfolding ranks_ok_def by auto

lemma ranks_okI:
  assumes "length ranks = mi_ranksPerChannel (dp_iface d)" "\<And>p. p \<in> set rs \<Longrightarrow> mp_rank p < length ranks"
    and "\<And>j. j < length ranks \<Longrightarrow> books (ranks ! j) (waiting rs j) \<and> length (rk_banks (ranks ! j)) = mi_banksPerRank (dp_iface d)"
  shows "ranks_ok d ranks rs"
proof -
  have "\<forall>r\<in>set ranks. length (rk_banks r) = mi_banksPerRank (dp_iface d)" using assms(3) by (auto simp: in_set_conv_nth)
  then show ?thesis using assms unfolding ranks_ok_def by blast
qed

lemma ranks_ok_key:
  assumes "ranks_ok d ranks rs" "length ranks' = length ranks" "\<And>j. j < length ranks \<Longrightarrow> rank_key (ranks' ! j) = rank_key (ranks ! j)"
  shows "ranks_ok d ranks' rs"
proof (rule ranks_okI)
  show "length ranks' = mi_ranksPerChannel (dp_iface d)" using ranks_okD(1)[OF assms(1)] assms(2) by simp
  show "mp_rank p < length ranks'" if "p \<in> set rs" for p using ranks_okD(3)[OF assms(1) that] assms(2) by simp
  show "books (ranks' ! j) (waiting rs j) \<and> length (rk_banks (ranks' ! j)) = mi_banksPerRank (dp_iface d)" if "j < length ranks'" for j
  proof -
    have j: "j < length ranks" using that assms(2) by simp
    have "length (rk_banks (ranks' ! j)) = length (rk_banks (ranks ! j))" using assms(3)[OF j] by (simp add: rank_key_def)
    then show ?thesis using ranks_okD(2,4)[OF assms(1) j] books_key[OF assms(3)[OF j]] by simp
  qed
qed

text \<open>One rank changes, with the packets that wait for it.\<close>

lemma ranks_ok_upd:
  assumes "ranks_ok d ranks rs" "j < length ranks" "books r (waiting rs' j)" "length (rk_banks r) = length (rk_banks (ranks ! j))"
    and "\<And>i. i \<noteq> j \<Longrightarrow> waiting rs' i = waiting rs i" "\<And>p. p \<in> set rs' \<Longrightarrow> mp_rank p < length ranks"
  shows "ranks_ok d (ranks[j := r]) rs'"
proof (rule ranks_okI)
  show "length (ranks[j := r]) = mi_ranksPerChannel (dp_iface d)" using ranks_okD(1)[OF assms(1)] by simp
  show "mp_rank p < length (ranks[j := r])" if "p \<in> set rs'" for p using assms(6)[OF that] by simp
  show "books (ranks[j := r] ! i) (waiting rs' i) \<and> length (rk_banks (ranks[j := r] ! i)) = mi_banksPerRank (dp_iface d)"
    if "i < length (ranks[j := r])" for i
    using assms(3-5) that ranks_okD(2,4)[OF assms(1), of i] by (cases "i = j") simp_all
qed

section \<open>The controller's events\<close>

lemma rank_busy_books:
  assumes "rank_busy d e r = Inr (r', b)" "books r n"
  shows "books r' n \<and> length (rk_banks r') = length (rk_banks r)"
proof -
  have "r' = r \<or> rk_refreshState r = REF_DRAIN \<and> r' = r\<lparr>rk_refreshState := REF_PD_EXIT, rk_refreshEvent := Some (en_now e)\<rparr>"
  proof (cases "inRefIdleState r")
    case True
    then show ?thesis using assms(1) by (simp add: rank_busy_def)
  next
    case False
    note B = assms(2)[unfolded books_def]
    have p: "rk_pwrState r \<noteq> PWR_SREF" "\<not> rk_inLowPowerState r" using B by auto
    let ?r = "if rk_refreshState r = REF_DRAIN then r\<lparr>rk_refreshState := REF_PD_EXIT, rk_refreshEvent := Some (en_now e)\<rparr> else r"
    have "rk_refreshState r = REF_DRAIN \<longrightarrow> rk_refreshEvent r = None" using B by blast
    then have "checkDrainDone (en_now e) r = Inr ?r" by (simp add: checkDrainDone_def schedule_def)
    moreover have "rk_pwrState ?r \<noteq> PWR_SREF" using p by simp
    ultimately have "r' = ?r" using assms(1) False p by (simp add: rank_busy_def)
    then show ?thesis by simp
  qed
  then show ?thesis
  proof
    assume r': "rk_refreshState r = REF_DRAIN \<and> r' = r\<lparr>rk_refreshState := REF_PD_EXIT, rk_refreshEvent := Some (en_now e)\<rparr>"
    then have "pending r' = pending r" by (simp add: pending_def)
    then show ?thesis using assms(2) r' by (simp add: books_def)
  qed (use assms(2) in simp)
qed

lemma busy_loop_books:
  assumes "busy_loop d e ranks = Inr (ranks', k)" "\<forall>j<length ranks. books (ranks ! j) (f j)"
  shows "length ranks' = length ranks \<and> (\<forall>j<length ranks. books (ranks' ! j) (f j) \<and>
    length (rk_banks (ranks' ! j)) = length (rk_banks (ranks ! j)))"
  using assms
proof (induction ranks arbitrary: ranks' k f)
  case (Cons r ranks)
  obtain r1 b rs1 k1 where r: "rank_busy d e r = Inr (r1, b)" "busy_loop d e ranks = Inr (rs1, k1)" "ranks' = r1 # rs1"
    using Cons.prems(1) by (auto simp: rbind_eq_Inr_iff)
  have "\<forall>j<length ranks. books (ranks ! j) (f (Suc j))" using Cons.prems(2) by auto
  from Cons.IH[OF r(2) this] have IH: "length rs1 = length ranks" "\<forall>j<length ranks. books (rs1 ! j) (f (Suc j)) \<and>
    length (rk_banks (rs1 ! j)) = length (rk_banks (ranks ! j))" by simp_all
  have "books r (f 0)" using Cons.prems(2) by auto
  from rank_busy_books[OF r(1) this] IH show ?case by (auto simp: r(3) less_Suc_eq_0_disj)
qed simp

lemma isBusy_ranks_ok:
  assumes "isBusy d e ranks = Inr (ranks', b)" "ranks_ok d ranks rs"
  shows "ranks_ok d ranks' rs"
proof -
  obtain k where "busy_loop d e ranks = Inr (ranks', k)" using assms(1) by (auto simp: isBusy_def rbind_eq_Inr_iff)
  from busy_loop_books[OF this, of "waiting rs"] ranks_okD(4)[OF assms(2)]
  have l: "length ranks' = length ranks" "\<forall>j<length ranks. books (ranks' ! j) (waiting rs j) \<and>
    length (rk_banks (ranks' ! j)) = length (rk_banks (ranks ! j))" by simp_all
  show ?thesis using l ranks_okD(1-3)[OF assms(2)] by (intro ranks_okI) simp_all
qed

text \<open>What a burst leaves behind: its read waits, or nothing does.\<close>

lemma rh_check_keeps:
  assumes "rh_check rnd c now p act = Inr (c1, p1)"
  shows "same_request p p1" "ct_dram c1 = ct_dram c" "ct_nvm c1 = ct_nvm c" "ct_q c1 = ct_q c"
  using assms by (auto simp: rh_check_def rbind_eq_Inr_iff split: option.splits if_splits)

lemma burst_done_keeps:
  "ct_dram (burst_done c p n t) = ct_dram c" "ct_nvm (burst_done c p n t) = ct_nvm c" "ct_q (burst_done c p n t) = ct_q c"
  by (simp_all add: burst_done_def Let_def)

lemma ctrl_burst_ranks:
  assumes "ctrl_doBurstAccess rnd c now p others = ok (c', p')" "ct_dram c = Some (d, s)" "ct_nvm c = None"
    and "ranks_ok d (dr_ranks s) rs" "length rs < 252"
  shows "\<exists>s'. ct_dram c' = Some (d, s') \<and> ct_q c' = ct_q c \<and> mp_rank p' = mp_rank p \<and>
    ranks_ok d (dr_ranks s') (if mp_read p then rs @ [p'] else rs)"
proof -
  define c0 where "c0 = c\<lparr>ct_burstTicks := pruneBurstTick (ct_burstTicks c) now\<rparr>"
  have c0: "ct_dram c0 = Some (d, s)" "ct_nvm c0 = None" "ct_q c0 = ct_q c" using assms(2,3) by (simp_all add: c0_def)
  have dr: "dram_burst rnd c0 now p others = ok (c', p')"
    using assms(1) c0(2) by (simp add: ctrl_doBurstAccess_def c0_def[symmetric] nvm_burst_def split: if_splits)
  let ?act = "checkBurstACT s p"
  have j: "mp_rank p < length (dr_ranks s)" using dr c0(1) by (simp add: dram_burst_def split: if_splits)
  obtain c1 p1 where r: "rh_check rnd c0 now p ?act = Inr (c1, p1)"
    and u: "obind (dram_doBurstAccess d (ct_commandWindow c1) now (ct_burstTicks c1) s p1
        (ct_nextBurstAt c1 + rh_bubble (ct_rh_defense c1 \<noteq> None) p1) others)
      (\<lambda>(B', s', p2, act', cmd_at, nb).
               if act' \<noteq> ?act then failed AssertFail
               else let c2 = c1\<lparr>ct_burstTicks := B', ct_dram := Some (d, s'),
                          ct_nvm := (case ct_nvm c1 of None \<Rightarrow> None
                            | Some (nd, ns) \<Rightarrow> Some (nd, nvm_addRankToRankDelay nd ns cmd_at))\<rparr>
                    in ok (burst_done c2 p2 nb (commandOffset d), p2)) = ok (c', p')"
    using dr c0(1) unfolding dram_burst_def Let_def by (auto simp: obind_eq_ok split: if_splits)
  note K = rh_check_keeps[OF r]
  obtain B' s' act' at nb where b: "dram_doBurstAccess d (ct_commandWindow c1) now (ct_burstTicks c1) s p1
        (ct_nextBurstAt c1 + rh_bubble (ct_rh_defense c1 \<noteq> None) p1) others = ok (B', s', p', act', at, nb)"
    "ct_dram c' = Some (d, s')" "ct_q c' = ct_q c"
    using u K c0 unfolding obind_eq_ok by (auto simp: burst_done_keeps Let_def split: if_splits)
  have p1: "mp_rank p1 = mp_rank p" "mp_read p1 = mp_read p" using K(1) by (simp_all add: same_request_def)
  let ?j = "mp_rank p" and ?k = "if mp_read p then 1 else 0 :: nat"
  let ?rs = "if mp_read p then rs @ [p'] else rs"
  have bk: "books (dr_ranks s ! ?j) (waiting rs ?j)" by (rule ranks_okD(4)[OF assms(4) j])
  then have nl: "\<not> rk_inLowPowerState (dr_ranks s ! mp_rank p1)" by (simp add: p1 books_def)
  note M = burst_moved[OF b(1) nl, unfolded p1]
  have pj: "mp_rank p' = ?j" using M(3) .
  have w: "waiting ?rs ?j = waiting rs ?j + ?k" "\<And>i. i \<noteq> ?j \<Longrightarrow> waiting ?rs i = waiting rs i" using pj by simp_all
  have "books (dr_ranks s' ! ?j) (waiting ?rs ?j)"
    unfolding w(1) using moved_books[OF M(6) bk] M(5) waiting_le[of rs ?j] assms(5) by simp
  moreover have "length (rk_banks (dr_ranks s' ! ?j)) = length (rk_banks (dr_ranks s ! ?j))" using M(6) by (simp add: moved_def)
  moreover have "mp_rank q < length (dr_ranks s)" if "q \<in> set ?rs" for q
    using that ranks_okD(3)[OF assms(4), of q] j pj by (auto split: if_splits)
  ultimately have "ranks_ok d ((dr_ranks s)[?j := dr_ranks s' ! ?j]) ?rs"
    using ranks_ok_upd[OF assms(4) j, of "dr_ranks s' ! ?j" ?rs] w(2) by blast
  then have "ranks_ok d (dr_ranks s') ?rs"
    by (rule ranks_ok_key) (use M(1,7) j in \<open>auto simp: nth_list_update\<close>)
  then show ?thesis using b(2,3) pj by blast
qed

end
