(* ===== verification/Channel_Safety.thy ===== *)
theory Channel_Safety
  imports Channel_Books
begin

text \<open>
  The controller's events keep the books of the ranks, and the properties of whole channel runs: only an
  event of a rank can stop a channel that is protected by PrIDE, and in every state it reaches a rank counts
  exactly its pending work.
\<close>

section \<open>The scheduler event\<close>

text \<open>A controller over DRAM \<open>d\<close> with a read buffer of \<open>z\<close> entries whose ranks are in order.\<close>

definition books_ok :: "dram_params \<Rightarrow> nat \<Rightarrow> controller \<Rightarrow> bool" where
  "books_ok d z c \<longleftrightarrow> (\<exists>s. ct_dram c = Some (d, s) \<and> ranks_ok d (dr_ranks s) (q_respQueue (ct_q c))) \<and> q_readBufferSize (ct_q c) = z"

lemma books_ok_cong:
  assumes "ct_dram c' = ct_dram c" "q_respQueue (ct_q c') = q_respQueue (ct_q c)" "q_readBufferSize (ct_q c') = q_readBufferSize (ct_q c)"
  shows "books_ok d z c' = books_ok d z c"
  by (simp add: books_ok_def assms)

lemma burst_books_ok:
  assumes "ctrl_doBurstAccess rnd c now p others = ok (c1, p1)" "books_ok d z c" "ct_nvm c = None" "length (q_respQueue (ct_q c)) < 252"
    and "ct_dram c' = ct_dram c1" "q_respQueue (ct_q c') = (if mp_read p then q_respQueue (ct_q c1) @ [p1] else q_respQueue (ct_q c1))"
    and "q_readBufferSize (ct_q c') = q_readBufferSize (ct_q c1)"
  shows "books_ok d z c'"
proof -
  obtain s where s: "ct_dram c = Some (d, s)" "ranks_ok d (dr_ranks s) (q_respQueue (ct_q c))" "q_readBufferSize (ct_q c) = z"
    using assms(2) by (auto simp: books_ok_def)
  from ctrl_burst_ranks[OF assms(1) s(1) assms(3) s(2) assms(4)] s(3) assms(5-7) show ?thesis
    by (auto simp: books_ok_def)
qed

lemma push_response_keeps:
  assumes "push_response c now p = Inr c'"
  shows "ct_dram c' = ct_dram c" "q_respQueue (ct_q c') = q_respQueue (ct_q c) @ [p]" "q_readBufferSize (ct_q c') = q_readBufferSize (ct_q c)"
  using assms by (auto simp: push_response_def rbind_eq_Inr_iff upd_q_def split: if_splits)

lemma serve_read_books:
  assumes "serve_read rnd c now aw prio k = ok c'" "books_ok d z c" "ct_nvm c = None" "length (q_respQueue (ct_q c)) < 252"
    and "mp_read (q_readQueue (ct_q c) ! prio ! k)"
  shows "books_ok d z c'"
proof -
  let ?p = "q_readQueue (ct_q c) ! prio ! k" and ?o = "queues_without (q_readQueue (ct_q c)) prio k"
  obtain c1 p1 where b: "ctrl_doBurstAccess rnd c now ?p ?o = ok (c1, p1)"
    using assms(1) unfolding serve_read_def Let_def obind_eq_ok by auto
  obtain c2 where p: "push_response (upd_q (logResponse True) c1) now p1 = Inr c2"
    using assms(1) unfolding serve_read_def Let_def b by (auto simp: rbind_eq_Inr_iff split: if_splits)
  have c': "ct_dram c' = ct_dram c2 \<and> q_respQueue (ct_q c') = q_respQueue (ct_q c2) \<and> q_readBufferSize (ct_q c') = q_readBufferSize (ct_q c2)"
    using assms(1) unfolding serve_read_def Let_def b obind_ok prod.case p
    by (auto simp: rbind_eq_Inr_iff upd_q_def split: if_splits)
  show ?thesis
    by (rule burst_books_ok[OF b assms(2-4)]) (use c' push_response_keeps[OF p] assms(5) in \<open>simp_all add: upd_q_def logResponse_def\<close>)
qed

lemma serve_write_books:
  assumes "serve_write rnd c now aw prio k = ok c'" "books_ok d z c" "ct_nvm c = None" "length (q_respQueue (ct_q c)) < 252"
    and "\<not> mp_read (q_writeQueue (ct_q c) ! prio ! k)"
  shows "books_ok d z c'"
proof -
  let ?p = "q_writeQueue (ct_q c) ! prio ! k" and ?o = "queues_without (q_writeQueue (ct_q c)) prio k"
  obtain c1 p1 where b: "ctrl_doBurstAccess rnd c now ?p ?o = ok (c1, p1)"
    using assms(1) unfolding serve_write_def Let_def obind_eq_ok by (auto simp: obind_eq_ok split: if_splits)
  have c': "ct_dram c' = ct_dram c1 \<and> q_respQueue (ct_q c') = q_respQueue (ct_q c1) \<and> q_readBufferSize (ct_q c') = q_readBufferSize (ct_q c1)"
    using assms(1) unfolding serve_write_def Let_def b obind_ok prod.case
    by (auto simp: obind_eq_ok upd_q_def logResponse_def split: if_splits)
  show ?thesis
    by (rule burst_books_ok[OF b assms(2-4)]) (use c' assms(5) in simp_all)
qed

text \<open>The packets of the queues and the length of the response queue, from the invariant.\<close>

lemma ctrl_inv_reads:
  assumes "ctrl_inv dinv d s c" "q_readBufferSize (ct_q c) \<le> 252" "prio < length (q_readQueue (ct_q c))"
    and "k < length (q_readQueue (ct_q c) ! prio)"
  shows "mp_read (q_readQueue (ct_q c) ! prio ! k)" "length (q_respQueue (ct_q c)) < 252"
proof -
  note Q = ctrl_invD(6)[OF assms(1)]
  show "mp_read (q_readQueue (ct_q c) ! prio ! k)" using queues_ok_packet(1)[OF Q assms(3,4)] by (simp add: packet_ok_def)
  have "queue_size (q_readQueue (ct_q c)) > 0" using queues_without_facts(2)[OF assms(3,4)] by simp
  then show "length (q_respQueue (ct_q c)) < 252" using queues_okD(6,10)[OF Q] assms(2) by simp
qed

lemma next_read_books:
  assumes "next_read rnd c now sw aw = ok (c', go)" "books_ok d z c" "z < 252" "ctrl_inv dinv d s c"
    and "\<forall>x\<in>set (q_readQueue (ct_q c)). queue_ok d now (dr_ranks s) x"
  shows "books_ok d z c'"
proof (cases "q_totalReadQueueSize (ct_q c) = 0")
  case True
  then have "ct_dram c' = ct_dram c \<and> ct_q c' = ct_q c"
    using assms(1) by (auto simp: next_read_def Let_def signalDrainDone_def split: if_splits)
  then show ?thesis using books_ok_cong[of c' c] assms(2) by simp
next
  case False
  note I = ctrl_invD[OF assms(4)]
  let ?qs = "q_readQueue (ct_q c)" and ?x = "if sw then ctrl_minWriteToReadDataGap c else 0"
  have "\<forall>x\<in>set ?qs. (\<forall>p\<in>set x. mp_dram p) \<and> queue_ok d now (dr_ranks s) x" using queues_ok_dram(1)[OF I(6)] assms(5) by blast
  from choose_prio_ok[OF I(1,2) this order_refl] obtain r where
    r: "choose_prio c now ?qs ?x (length ?qs) = Inr r" "\<forall>prio k. r = Some (prio, k) \<longrightarrow> prio < length ?qs \<and> choosable s (?qs ! prio) k"
    by blast
  show ?thesis
  proof (cases r)
    case None
    then have "c' = c" using False r(1) assms(1) by (simp add: next_read_def Let_def)
    then show ?thesis using assms(2) by simp
  next
    case (Some pk)
    obtain prio k where pk: "pk = (prio, k)" by (cases pk)
    have p: "prio < length ?qs" "k < length (?qs ! prio)" using r(2) Some pk by (simp_all add: choosable_def)
    have "serve_read rnd c now aw prio k = ok c'"
      using assms(1) False r(1) Some pk unfolding next_read_def Let_def by (auto simp: obind_eq_ok)
    moreover have "q_readBufferSize (ct_q c) \<le> 252" using assms(2,3) by (simp add: books_ok_def)
    ultimately show ?thesis using serve_read_books[OF _ assms(2) I(2)] ctrl_inv_reads[OF assms(4) _ p] by blast
  qed
qed

lemma next_write_books:
  assumes "next_write rnd c now sw aw = ok (c', go)" "books_ok d z c" "z < 252" "ctrl_inv dinv d s c"
    and "\<forall>x\<in>set (q_writeQueue (ct_q c)). queue_ok d now (dr_ranks s) x"
  shows "books_ok d z c'"
proof -
  note I = ctrl_invD[OF assms(4)]
  let ?qs = "q_writeQueue (ct_q c)" and ?x = "if sw then ctrl_minReadToWriteDataGap c else 0"
  have "\<forall>x\<in>set ?qs. (\<forall>p\<in>set x. mp_dram p) \<and> queue_ok d now (dr_ranks s) x" using queues_ok_dram(2)[OF I(6)] assms(5) by blast
  from choose_prio_ok[OF I(1,2) this order_refl] obtain r where
    r: "choose_prio c now ?qs ?x (length ?qs) = Inr r" "\<forall>prio k. r = Some (prio, k) \<longrightarrow> prio < length ?qs \<and> choosable s (?qs ! prio) k"
    by blast
  show ?thesis
  proof (cases r)
    case None
    then have "c' = c" using r(1) assms(1) by (simp add: next_write_def)
    then show ?thesis using assms(2) by simp
  next
    case (Some pk)
    obtain prio k where pk: "pk = (prio, k)" by (cases pk)
    have p: "prio < length ?qs" "k < length (?qs ! prio)" using r(2) Some pk by (simp_all add: choosable_def)
    have "serve_write rnd c now aw prio k = ok c'"
      using assms(1) r(1) Some pk unfolding next_write_def by (auto simp: obind_eq_ok)
    moreover have "\<not> mp_read (?qs ! prio ! k)" using queues_ok_packet(2)[OF I(6) p] by (simp add: packet_ok_def)
    moreover have "length (q_respQueue (ct_q c)) < 252" using queues_okD(10)[OF I(6)] assms(2,3) by (simp add: books_ok_def)
    ultimately show ?thesis using serve_write_books[OF _ assms(2) I(2)] by blast
  qed
qed

lemma next_finish_books:
  assumes "next_finish c now = Inr c'" "books_ok d z c"
  shows "books_ok d z c'"
proof -
  let ?e = "if q_nextReqEvent (ct_q c) = None
            then rbind (schedule now None (max (ct_nextReqTime c) now)) (\<lambda>ev. Inr (upd_q (\<lambda>q. q\<lparr>q_nextReqEvent := ev\<rparr>) c))
            else (Inr c :: controller result)"
  obtain c1 where e: "?e = Inr c1" and c': "c' = (if q_retryWrReq (ct_q c1) \<and> q_totalWriteQueueSize (ct_q c1) < q_writeBufferSize (ct_q c1)
      then (upd_q (\<lambda>q. q\<lparr>q_retryWrReq := False\<rparr>) c1)\<lparr>ct_retries := ct_retries c1 + 1\<rparr> else c1)"
    using assms(1) unfolding next_finish_def rbind_eq_Inr_iff by blast
  have c1: "c1 = c \<or> (\<exists>ev. c1 = upd_q (\<lambda>q. q\<lparr>q_nextReqEvent := ev\<rparr>) c)"
    using e unfolding schedule_def by (cases "q_nextReqEvent (ct_q c) = None") auto
  have "ct_dram c1 = ct_dram c \<and> q_respQueue (ct_q c1) = q_respQueue (ct_q c) \<and> q_readBufferSize (ct_q c1) = q_readBufferSize (ct_q c)"
    using c1 by (elim disjE exE) (simp_all add: upd_q_def)
  then have "ct_dram c' = ct_dram c \<and> q_respQueue (ct_q c') = q_respQueue (ct_q c) \<and> q_readBufferSize (ct_q c') = q_readBufferSize (ct_q c)"
    by (simp add: c' upd_q_def)
  then show ?thesis using books_ok_cong[of c' c] assms(2) by simp
qed

lemma ctrl_busy_books:
  assumes "ctrl_busy c now = Inr (c', busy, aw)" "books_ok d z c"
  shows "books_ok d z c'"
proof -
  obtain s where s: "ct_dram c = Some (d, s)" "ranks_ok d (dr_ranks s) (q_respQueue (ct_q c))" "q_readBufferSize (ct_q c) = z"
    using assms(2) by (auto simp: books_ok_def)
  obtain rs b where r: "isBusy d (ctrl_env c now) (dr_ranks s) = Inr (rs, b)" "c' = c\<lparr>ct_dram := Some (d, s\<lparr>dr_ranks := rs\<rparr>)\<rparr>"
    using assms(1) s(1) by (auto simp: ctrl_busy_def rbind_eq_Inr_iff Let_def)
  show ?thesis using isBusy_ranks_ok[OF r(1) s(2)] s(3) by (simp add: r(2) books_ok_def)
qed

text \<open>The ranks are calm because their books are in order; the queued packets are in range because they
  were placed, as long as the ticks of the banks fit 64 bits.\<close>

definition ticks_fit :: "dram_params \<Rightarrow> tick \<Rightarrow> dram \<Rightarrow> bool" where
  "ticks_fit d now s \<longleftrightarrow> (\<forall>r\<in>set (dr_ranks s). \<forall>b\<in>set (rk_banks r).
     max (bk_actAllowedAt b) now < 2 ^ 64 \<and> max (bk_preAllowedAt b) now + dp_tRP d < 2 ^ 64)"

lemma books_calm: "books r n \<Longrightarrow> rank_calm r"
  by (auto simp: books_def rank_calm_def)

lemma queues_ok_placed:
  assumes "queues_ok i q" "x \<in> set (q_readQueue q) \<union> set (q_writeQueue q)" "p \<in> set x"
  shows "placed i p"
  using assms unfolding queues_ok_def packet_ok_def by (metis Un_iff in_set_conv_nth)

lemma ranks_ok_queue:
  assumes "ranks_ok d (dr_ranks s) rs" "queues_ok (dp_iface d) q" "mi_banksPerRank (dp_iface d) \<le> 32" "ticks_fit d now s"
    and "x \<in> set (q_readQueue q) \<union> set (q_writeQueue q)"
  shows "queue_ok d now (dr_ranks s) x"
proof -
  let ?i = "dp_iface d"
  have l: "length (dr_ranks s) = mi_ranksPerChannel ?i" "\<forall>r\<in>set (dr_ranks s). length (rk_banks r) = mi_banksPerRank ?i"
    using assms(1) unfolding ranks_ok_def by blast+
  have pl: "placed ?i p" if "p \<in> set x" for p
    using assms(2,5) that queues_ok_placed by blast
  have "mi_ranksPerChannel ?i * mi_banksPerRank ?i \<le> 256 * 32"
    using queues_okD(4)[OF assms(2)] assms(3) by (intro mult_le_mono) (simp_all add: mi_wf_def)
  then have g: "length (dr_ranks s) * mi_banksPerRank ?i \<le> 2 ^ 16" using l(1) by simp
  have "\<forall>p\<in>set x. mp_dram p \<longrightarrow> mp_rank p < length (dr_ranks s) \<and> mp_bank p < mi_banksPerRank ?i \<and>
      mp_bankId p = mp_rank p * mi_banksPerRank ?i + mp_bank p"
    using pl l(1) by (auto simp: placed_def)
  then show ?thesis using assms(3,4) l(2) g unfolding queue_ok_def ticks_fit_def by blast
qed

lemma ranks_ok_ready:
  assumes "ranks_ok d (dr_ranks s) rs" "queues_ok (dp_iface d) q" "mi_banksPerRank (dp_iface d) \<le> 32" "ticks_fit d now s" "0 < now"
  shows "sched_ready d s q now"
proof -
  have "\<forall>r\<in>set (dr_ranks s). rank_calm r"
    using ranks_okD(4)[OF assms(1)] books_calm by (metis in_set_conv_nth)
  then show ?thesis using ranks_ok_queue[OF assms(1-4)] assms(5) unfolding sched_ready_def by blast
qed

lemma next_event_books:
  assumes "ctrl_inv dinv d s c" "sched_ready d s (ct_q c) now" "books_ok d z c" "z < 252"
    and "processNextReqEvent tp rnd c now = ok c'"
  shows "books_ok d z c'"
proof -
  obtain c1 sw where t: "next_turn tp c = (c1, sw)" by (cases "next_turn tp c")
  note T = next_turn_inv[OF t assms(1)]
  have b1: "books_ok d z c1" using next_turn_keeps[where c = c and tp = tp] books_ok_cong[of c1 c] assms(3) t by simp
  have iss: "issue_nvm_reads now (length (q_readQueue (ct_q c1))) c1 = ok c1"
    using issue_nvm_reads_none ctrl_invD(2)[OF T(1)] by blast
  have sr: "sched_ready d s (ct_q c1) now" using assms(2) T(2) by simp
  obtain c2 s2 busy where b: "ctrl_busy c1 now = Inr (c2, busy, False)" "ctrl_inv dinv d s2 c2" "ct_q c2 = ct_q c1"
    "\<forall>x\<in>set (q_readQueue (ct_q c1)) \<union> set (q_writeQueue (ct_q c1)). queue_ok d now (dr_ranks s2) x"
    using ctrl_busy_calm[OF T(1) sr] by blast
  have b2: "books_ok d z c2" by (rule ctrl_busy_books[OF b(1) b1])
  have q: "\<forall>x\<in>set (q_readQueue (ct_q c2)). queue_ok d now (dr_ranks s2) x" "\<forall>x\<in>set (q_writeQueue (ct_q c2)). queue_ok d now (dr_ranks s2) x"
    using b(3,4) by simp_all
  have e: "(if busy then ok c2 else obind (if ct_busState c2 = BUS_READ then next_read rnd c2 now sw False
      else next_write rnd c2 now sw False) (\<lambda>(c4, go). if go then Some (next_finish c4 now) else ok c4)) = ok c'"
    using assms(5) unfolding processNextReqEvent_def t Let_def prod.case iss obind_ok b(1) .
  show ?thesis
  proof (cases busy)
    case True
    then show ?thesis using e b2 by simp
  next
    case False
    then obtain c4 go where n: "(if ct_busState c2 = BUS_READ then next_read rnd c2 now sw False
      else next_write rnd c2 now sw False) = ok (c4, go)" "(if go then Some (next_finish c4 now) else ok c4) = ok c'"
      using e by (auto simp: obind_eq_ok)
    have b4: "books_ok d z c4"
      using n(1) next_read_books[OF _ b2 assms(4) b(2) q(1)] next_write_books[OF _ b2 assms(4) b(2) q(2)]
      by (auto split: if_splits)
    show ?thesis using n(2) next_finish_books[OF _ b4] b4 by (auto split: if_splits)
  qed
qed

section \<open>The response event\<close>

lemma respondEvent_books:
  assumes "respondEvent d e r = Inr r'" "books r (Suc n)" "\<not> dp_enableDRAMPowerdown d"
  shows "books r' n \<and> length (rk_banks r') = length (rk_banks r)"
proof -
  have e: "r' = r\<lparr>rk_readEntries := dec32 (rk_readEntries r), rk_outstandingEvents := rk_outstandingEvents r - 1\<rparr>"
    using assms(1,3) by (simp add: respondEvent_def Let_def split: if_splits)
  then have "pending r' = pending r" by (simp add: pending_def)
  then show ?thesis using assms(2) by (auto simp: books_def e)
qed

lemma checkRefreshState_books:
  assumes "checkRefreshState now r = Inr r'" "books r 0"
  shows "books r' 0 \<and> length (rk_banks r') = length (rk_banks r)"
proof -
  have "r' = r \<or> (rk_refreshState r = REF_PRE \<and> r' = r\<lparr>rk_refreshEvent := Some now\<rparr>)"
    using assms(1) by (auto simp: checkRefreshState_def rbind_eq_Inr_iff schedule_def split: if_splits)
  then show ?thesis
  proof
    assume r': "rk_refreshState r = REF_PRE \<and> r' = r\<lparr>rk_refreshEvent := Some now\<rparr>"
    then have "pending r' = pending r" by (simp add: pending_def)
    then show ?thesis using assms(2) r' by (simp add: books_def)
  qed (use assms(2) in simp)
qed

lemma books_ready:
  assumes "ranks_ok d (dr_ranks s) rs" "p \<in> set rs" "\<not> dp_enableDRAMPowerdown d"
  shows "respond_ready d s p"
proof -
  have j: "mp_rank p < length (dr_ranks s)" by (rule ranks_okD(3)[OF assms(1,2)])
  have "0 < waiting rs (mp_rank p)" using assms(2) by (force simp: waiting_def filter_empty_conv)
  then show ?thesis using ranks_okD(4)[OF assms(1) j] j assms(3)
    by (auto simp: respond_ready_def Let_def books_def awake_def)
qed

lemma respond_packet_keeps:
  assumes "respond_packet c now p = Inr c'"
  shows "ct_dram c' = ct_dram c" "q_respQueue (ct_q c') = q_respQueue (ct_q c)" "q_readBufferSize (ct_q c') = q_readBufferSize (ct_q c)"
  using assms
  by (auto simp: respond_packet_def ctrl_respond_def accessAndRespond_def Let_def rbind_eq_Inr_iff upd_q_def split: option.splits if_splits)

lemma upd_rank_eq:
  assumes "upd_rank j f c now = Inr c'" "ct_dram c = Some (d, s)"
  obtains r where "j < length (dr_ranks s)" "f d (ctrl_env c now) (dr_ranks s ! j) = Inr r"
    "c' = c\<lparr>ct_dram := Some (d, s\<lparr>dr_ranks := (dr_ranks s)[j := r]\<rparr>)\<rparr>"
  using assms by (auto simp: upd_rank_def rbind_eq_Inr_iff split: if_splits)

lemma next_response_books:
  assumes "next_response c now p = Inr c'" "books_ok d z c" "mp_rank p < mi_ranksPerChannel (dp_iface d)"
  shows "books_ok d z c'"
proof -
  obtain s where s: "ct_dram c = Some (d, s)" "ranks_ok d (dr_ranks s) (q_respQueue (ct_q c))" "q_readBufferSize (ct_q c) = z"
    using assms(2) by (auto simp: books_ok_def)
  let ?j = "mp_rank p"
  have "ct_dram c' = ct_dram c \<and> ct_q c' = ct_q c \<or>
      (q_respQueue (ct_q c) = [] \<and> upd_rank ?j (\<lambda>_ e. checkRefreshState (en_now e)) c now = Inr c')"
    using assms(1) by (auto simp: next_response_def rbind_eq_Inr_iff signalDrainDone_def split: if_splits)
  then show ?thesis
  proof
    assume "ct_dram c' = ct_dram c \<and> ct_q c' = ct_q c"
    then show ?thesis using books_ok_cong[of c' c] assms(2) by simp
  next
    assume u: "q_respQueue (ct_q c) = [] \<and> upd_rank ?j (\<lambda>_ e. checkRefreshState (en_now e)) c now = Inr c'"
    then obtain r where r: "?j < length (dr_ranks s)" "checkRefreshState now (dr_ranks s ! ?j) = Inr r"
      "c' = c\<lparr>ct_dram := Some (d, s\<lparr>dr_ranks := (dr_ranks s)[?j := r]\<rparr>)\<rparr>"
      using upd_rank_eq[OF _ s(1)] by (metis ctrl_env_def rank_env.select_convs(1))
    have "books (dr_ranks s ! ?j) 0" using ranks_okD(4)[OF s(2) r(1)] u by simp
    from checkRefreshState_books[OF r(2) this] have "ranks_ok d ((dr_ranks s)[?j := r]) (q_respQueue (ct_q c))"
      using ranks_ok_upd[OF s(2) r(1), of r "[]"] u by simp
    then show ?thesis using s(3) by (simp add: r(3) books_ok_def)
  qed
qed

lemma waiting_tl:
  assumes "rs = p # rest"
  shows "waiting rs (mp_rank p) = Suc (waiting rest (mp_rank p))" "i \<noteq> mp_rank p \<Longrightarrow> waiting rest i = waiting rs i"
  by (simp_all add: assms)

lemma respond_event_books:
  assumes "processRespondEvent c now = Inr c'" "books_ok d z c" "\<not> dp_enableDRAMPowerdown d" "\<forall>p\<in>set (q_respQueue (ct_q c)). mp_dram p"
  shows "books_ok d z c'"
proof -
  obtain s where s: "ct_dram c = Some (d, s)" "ranks_ok d (dr_ranks s) (q_respQueue (ct_q c))" "q_readBufferSize (ct_q c) = z"
    using assms(2) by (auto simp: books_ok_def)
  obtain p rest where rq: "q_respQueue (ct_q c) = p # rest"
    using assms(1) by (cases "q_respQueue (ct_q c)") (simp_all add: processRespondEvent_def)
  have dr: "mp_dram p" using assms(4) rq by simp
  obtain c1 c2 c3 where e: "upd_rank (mp_rank p) respondEvent c now = Inr c1" "respond_packet c1 now p = Inr c2"
    "next_response (upd_q (\<lambda>q. q\<lparr>q_respQueue := tl (q_respQueue q)\<rparr>) c2) now p = Inr c3" "c' = retry_read c3"
    using assms(1) rq dr by (auto simp: processRespondEvent_def rbind_eq_Inr_iff)
  obtain r where r: "mp_rank p < length (dr_ranks s)" "respondEvent d (ctrl_env c now) (dr_ranks s ! mp_rank p) = Inr r"
    "c1 = c\<lparr>ct_dram := Some (d, s\<lparr>dr_ranks := (dr_ranks s)[mp_rank p := r]\<rparr>)\<rparr>" by (rule upd_rank_eq[OF e(1) s(1)])
  have b: "books (dr_ranks s ! mp_rank p) (Suc (waiting rest (mp_rank p)))"
    using ranks_okD(4)[OF s(2) r(1)] waiting_tl(1)[OF rq] by simp
  have "ranks_ok d ((dr_ranks s)[mp_rank p := r]) rest"
  proof (rule ranks_ok_upd[OF s(2) r(1)])
    show "books r (waiting rest (mp_rank p))" "length (rk_banks r) = length (rk_banks (dr_ranks s ! mp_rank p))"
      using respondEvent_books[OF r(2) b assms(3)] by simp_all
    show "waiting rest i = waiting (q_respQueue (ct_q c)) i" if "i \<noteq> mp_rank p" for i by (rule waiting_tl(2)[OF rq that])
    show "mp_rank q < length (dr_ranks s)" if "q \<in> set rest" for q using ranks_okD(3)[OF s(2), of q] that rq by simp
  qed
  moreover have "ct_dram c2 = Some (d, s\<lparr>dr_ranks := (dr_ranks s)[mp_rank p := r]\<rparr>)" "q_respQueue (ct_q c2) = p # rest"
    "q_readBufferSize (ct_q c2) = z"
    using respond_packet_keeps[OF e(2)] s(3) rq by (simp_all only: r(3), simp_all)
  ultimately have "books_ok d z (upd_q (\<lambda>q. q\<lparr>q_respQueue := tl (q_respQueue q)\<rparr>) c2)"
    by (simp add: books_ok_def upd_q_def)
  from next_response_books[OF e(3) this] have "books_ok d z c3" using r(1) ranks_okD(1)[OF s(2)] by simp
  then show ?thesis using books_ok_cong[of c' c3] by (simp add: e(4) retry_read_def upd_q_def)
qed

section \<open>A request\<close>

lemma request_books:
  assumes "ctrl_recvTimingReq c now pkt qos = Inr (c', acc)" "books_ok d z c"
    and "q_respQueue (ct_q c') = q_respQueue (ct_q c)" "q_readBufferSize (ct_q c') = q_readBufferSize (ct_q c)"
  shows "books_ok d z c'"
proof -
  obtain s where s: "ct_dram c = Some (d, s)" "ranks_ok d (dr_ranks s) (q_respQueue (ct_q c))" "q_readBufferSize (ct_q c) = z"
    using assms(2) by (auto simp: books_ok_def)
  obtain q where "c' = store_counters q c" using assms(1) by (auto simp: ctrl_recvTimingReq_def rbind_eq_Inr_iff)
  moreover define ranks where "ranks = map (\<lambda>j. (dr_ranks s ! j)
       \<lparr>rk_readEntries := u32 (q_readEntries q j), rk_writeEntries := u32 (q_writeEntries q j)\<rparr>) [0..<length (dr_ranks s)]"
  ultimately have r: "ct_dram c' = Some (d, s\<lparr>dr_ranks := ranks\<rparr>)" "length ranks = length (dr_ranks s)"
      "\<forall>j<length (dr_ranks s). rank_key (ranks ! j) = rank_key (dr_ranks s ! j)"
    using s(1) by (simp_all add: store_counters_def)
  have "ranks_ok d ranks (q_respQueue (ct_q c))" using ranks_ok_key[OF s(2) r(2)] r(3) by blast
  then show ?thesis using r(1) assms(3,4) s(3) by (simp add: books_ok_def)
qed

section \<open>The channel\<close>

lemma channel_inv_iff:
  "channel_inv dinv d c \<longleftrightarrow> (\<exists>s. ctrl_inv dinv d s c) \<and> (\<exists>z<252. books_ok d z c) \<and> mi_banksPerRank (dp_iface d) \<le> 32 \<and>
     \<not> dp_enableDRAMPowerdown d \<and> (\<exists>k. mi_burstSize (dp_iface d) = 2 ^ k)"
proof -
  have "ct_dram c = Some (d, s)" if "ctrl_inv dinv d s c" for s by (rule ctrl_invD(1)[OF that])
  then show ?thesis unfolding channel_inv_def books_ok_def by force
qed

text \<open>When an event of the channel comes: a request that can be served, an event at its tick; a refresh that
  starts finds the activations of its rank in the past.\<close>

fun channel_legal :: "controller \<Rightarrow> tick \<Rightarrow> channel_event \<Rightarrow> bool" where
  "channel_legal c now (Controller (Request pkt qos)) =
     (case ct_dram c of None \<Rightarrow> False | Some (d, s) \<Rightarrow> servable (ct_q c) pkt qos True (dp_iface d))"
| "channel_legal c now (Controller Schedule) = (0 < now \<and> (case ct_dram c of None \<Rightarrow> False | Some (d, s) \<Rightarrow> ticks_fit d now s))"
| "channel_legal c now (Controller Respond) = (ct_respondEvent c = Some now)"
| "channel_legal c now (Rank j ev) = (case ct_dram c of None \<Rightarrow> False | Some (d, s) \<Rightarrow>
     j < length (dr_ranks s) \<and> event_at ev (dr_ranks s ! j) = Some now \<and> (ev = Refresh \<longrightarrow> refresh_in_time d now (dr_ranks s ! j)))"
| "channel_legal c now (Nvm ev) = False"

context rh_contract
begin

lemma controller_event_ok:
  assumes "channel_inv dinv d c" "dp_iface d = iface" "channel_legal c now (Controller e)"
  shows "\<exists>c'. ctrl_exec tp rnd c now e = ok c' \<and> channel_inv dinv d c'"
proof -
  let ?I = dinv
  obtain s z k where i: "ctrl_inv ?I d s c" "z < 252" "books_ok d z c" "mi_banksPerRank (dp_iface d) \<le> 32"
    "\<not> dp_enableDRAMPowerdown d" "mi_burstSize (dp_iface d) = 2 ^ k" using assms(1) unfolding channel_inv_iff by blast
  note C = ctrl_invD[OF i(1)]
  have rk: "ranks_ok d (dr_ranks s) (q_respQueue (ct_q c))" using i(3) C(1) by (simp add: books_ok_def)
  have "\<exists>c'. ctrl_exec tp rnd c now e = ok c' \<and> (\<exists>s'. ctrl_inv ?I d s' c') \<and> books_ok d z c'"
  proof (cases e)
    case (Request pkt qos)
    have "servable (ct_q c) pkt qos True (dp_iface d)" using assms(3) Request C(1) by simp
    from request_ok[OF i(1,6) this, of now] obtain c' s' acc where c': "ctrl_recvTimingReq c now pkt qos = Inr (c', acc)"
      "ctrl_inv ?I d s' c'" "q_respQueue (ct_q c') = q_respQueue (ct_q c)" "q_readBufferSize (ct_q c') = q_readBufferSize (ct_q c)"
      by blast
    then show ?thesis using request_books[OF c'(1) i(3) c'(3,4)] Request by (auto simp: rbind_eq_Inr_iff)
  next
    case Schedule
    let ?c = "upd_q (\<lambda>q. q\<lparr>q_nextReqEvent := None\<rparr>) c"
    have qk: "queues_ok (dp_iface d) ((ct_q c)\<lparr>q_nextReqEvent := None\<rparr>)" by (rule queues_ok_cong[OF C(6)]) simp_all
    then have i': "ctrl_inv ?I d s ?c" using i(1) by (simp add: upd_q_def ctrl_inv_def responses_ok_def)
    have b': "books_ok d z ?c" using i(3) books_ok_cong[of ?c c] by (simp add: upd_q_def)
    have "0 < now" "ticks_fit d now s" using assms(3) Schedule C(1) by simp_all
    then have r: "sched_ready d s (ct_q ?c) now" using ranks_ok_ready[OF rk qk i(4)] by (simp add: upd_q_def)
    obtain c' s' where "processNextReqEvent tp rnd ?c now = ok c'" "ctrl_inv ?I d s' c'"
      using next_event_ok[OF i' assms(2) r] by blast
    then show ?thesis using next_event_books[OF i' r b' i(2)] Schedule by auto
  next
    case Respond
    have at: "ct_respondEvent c = Some now" using assms(3) Respond by simp
    then have "q_respQueue (ct_q c) \<noteq> []" using C(7) by (auto simp: responses_ok_def Let_def)
    then have "respond_ready d s (hd (q_respQueue (ct_q c)))" using books_ready[OF rk _ i(5)] by simp
    from respond_event_ok[OF i(1) at refl this] obtain c' s' where
      c': "processRespondEvent (c\<lparr>ct_respondEvent := None\<rparr>) now = Inr c'" "ctrl_inv ?I d s' c'" by blast
    have "books_ok d z (c\<lparr>ct_respondEvent := None\<rparr>)" using i(3) books_ok_cong[of "c\<lparr>ct_respondEvent := None\<rparr>" c] by simp
    moreover have "\<forall>p\<in>set (q_respQueue (ct_q (c\<lparr>ct_respondEvent := None\<rparr>))). mp_dram p" using C(6) by (simp add: queues_ok_def)
    ultimately show ?thesis using respond_event_books[OF c'(1) _ i(5)] c' Respond by auto
  qed
  then show ?thesis using i(2,4-6) unfolding channel_inv_iff by blast
qed


end

text \<open>The events of the ranks.\<close>

lemma restartScheduler_inv:
  assumes "restartScheduler c now = Inr c'" "ctrl_inv dinv d s c" "books_ok d z c"
  shows "ctrl_inv dinv d s c' \<and> books_ok d z c'"
proof -
  obtain ev where c': "c' = upd_q (\<lambda>q. q\<lparr>q_nextReqEvent := ev\<rparr>) c"
    using assms(1) by (auto simp: restartScheduler_def rbind_eq_Inr_iff)
  have "queues_ok (dp_iface d) ((ct_q c)\<lparr>q_nextReqEvent := ev\<rparr>)" by (rule queues_ok_cong[OF ctrl_invD(6)[OF assms(2)]]) simp_all
  then have "ctrl_inv dinv d s c'" using assms(2) by (simp add: c' upd_q_def ctrl_inv_def responses_ok_def)
  moreover have "books_ok d z c'" using books_ok_cong[of c' c] assms(3) by (simp add: c' upd_q_def)
  ultimately show ?thesis ..
qed

lemma rank_event_inv:
  assumes "channel_inv dinv d c" "channel_legal c now (Rank j ev)" "fire_rank c now j ev = ok c'"
  shows "channel_inv dinv d c'"
proof -
  obtain s z where i: "ctrl_inv dinv d s c" "z < 252" "books_ok d z c" "\<not> dp_enableDRAMPowerdown d"
    using assms(1) unfolding channel_inv_iff by blast
  note C = ctrl_invD[OF i(1)]
  have rk: "ranks_ok d (dr_ranks s) (q_respQueue (ct_q c))" "q_readBufferSize (ct_q c) = z" using i(3) C(1) by (simp_all add: books_ok_def)
  let ?r = "dr_ranks s ! j" and ?rs = "q_respQueue (ct_q c)"
  have l: "j < length (dr_ranks s)" "event_at ev ?r = Some now" "ev = Refresh \<Longrightarrow> refresh_in_time d now ?r"
    using assms(2) C(1) by auto
  obtain r restart where h: "handle d (ctrl_env c now) ev (clear_event ev ?r) = ok (r, restart)"
    "Some (if restart then restartScheduler (c\<lparr>ct_dram := Some (d, s\<lparr>dr_ranks := (dr_ranks s)[j := r]\<rparr>)\<rparr>) now
       else Inr (c\<lparr>ct_dram := Some (d, s\<lparr>dr_ranks := (dr_ranks s)[j := r]\<rparr>)\<rparr>)) = ok c'"
    using assms(3) C(1) l(1) by (auto simp: fire_rank_def Let_def obind_eq_ok)
  define s1 where "s1 = s\<lparr>dr_ranks := (dr_ranks s)[j := r]\<rparr>"
  define c1 where "c1 = c\<lparr>ct_dram := Some (d, s1)\<rparr>"
  have b: "books ?r (waiting ?rs j)" by (rule ranks_okD(4)[OF rk(1) l(1)])
  have n: "waiting ?rs j \<le> 252" using waiting_le[of ?rs j] queues_okD(10)[OF C(6)] i(2) rk(2) by simp
  have ev: "event_at ev ?r \<noteq> None" using l(2) by simp
  have t: "en_now (ctrl_env c now) = now" by (simp add: ctrl_env_def)
  note H = handle_books[OF h(1) ev b n i(4)]
  have "rank_wf d ?r" using C(3) l(1) by (simp add: dram_wf_def)
  then have wf: "rank_wf d r" using handle_wf[OF h(1) ev b n i(4) _ C(4)] l(3) t by simp
  have "dram_wf d s1" using all_upd[of "dr_ranks s" "rank_wf d" r j] C(3) wf by (simp add: dram_wf_def s1_def)
  then have c1: "ctrl_inv dinv d s1 c1" using i(1) by (simp add: c1_def ctrl_inv_def responses_ok_def)
  have "ranks_ok d (dr_ranks s1) ?rs"
    unfolding s1_def dram_ranks_upd
    by (rule ranks_ok_upd[OF rk(1) l(1)]) (use H ranks_okD(3)[OF rk(1)] in simp_all)
  then have b1: "books_ok d z c1" using rk(2) by (simp add: c1_def books_ok_def)
  have "(if restart then restartScheduler c1 now else Inr c1) = Inr c'" using h(2) unfolding c1_def s1_def by (cases restart) simp_all
  then have "ctrl_inv dinv d s1 c' \<and> books_ok d z c'"
    using restartScheduler_inv[OF _ c1 b1, of now] c1 b1 by (cases restart) simp_all
  then show ?thesis using assms(1) i(2) unfolding channel_inv_iff by blast
qed

lemma write_done_fires:
  assumes "channel_inv dinv d c" "channel_legal c now (Rank j Write_Done)"
  shows "\<exists>c'. fire_rank c now j Write_Done = ok c'"
proof -
  obtain s z where i: "ctrl_inv dinv d s c" "books_ok d z c" using assms(1) unfolding channel_inv_iff by blast
  note C = ctrl_invD[OF i(1)]
  have rk: "ranks_ok d (dr_ranks s) (q_respQueue (ct_q c))" using i(2) C(1) by (simp add: books_ok_def)
  have l: "j < length (dr_ranks s)" "rk_writeDoneEvent (dr_ranks s ! j) \<noteq> None" using assms(2) C(1) by auto
  obtain r where "handle d (ctrl_env c now) Write_Done (clear_event Write_Done (dr_ranks s ! j)) = ok (r, False)"
    using write_done_ok[OF l(2) ranks_okD(4)[OF rk l(1)]] by blast
  then show ?thesis using l(1) by (simp add: fire_rank_def C(1) del: handle.simps)
qed

section \<open>Runs of a channel\<close>

inductive channel_reachable :: "(controller \<Rightarrow> bus_state) option \<Rightarrow> (nat \<Rightarrow> nat) \<Rightarrow> controller \<Rightarrow> controller \<Rightarrow> bool"
  for tp rnd c0 where
  start: "channel_reachable tp rnd c0 c0"
| step: "channel_reachable tp rnd c0 c \<Longrightarrow> channel_legal c now e \<Longrightarrow> channel_exec tp rnd c now e = ok c' \<Longrightarrow>
    channel_reachable tp rnd c0 c'"

context rh_contract
begin

lemma channel_exec_inv:
  assumes "channel_inv dinv d c" "dp_iface d = iface" "channel_legal c now e" "channel_exec tp rnd c now e = ok c'"
  shows "channel_inv dinv d c'"
proof (cases e)
  case (Controller x)
  then show ?thesis using controller_event_ok[OF assms(1,2), of now x tp] assms(3,4) by auto
next
  case (Rank j ev)
  then show ?thesis using rank_event_inv[OF assms(1), of now j ev] assms(3,4) by simp
next
  case (Nvm ev)
  then show ?thesis using assms(3) by simp
qed

lemma reachable_inv:
  assumes "channel_reachable tp rnd c0 c" "channel_inv dinv d c0" "dp_iface d = iface"
  shows "channel_inv dinv d c"
  using assms(1)
proof induction
  case start
  then show ?case by (rule assms(2))
next
  case (step c now e c')
  show ?case by (rule channel_exec_inv[OF step.IH assms(3) step.hyps(2,3)])
qed

end

end
