(* ===== verification/Int_Math.thy ===== *)
theory Int_Math
  imports Pride_Base "HOL-Library.Word"
begin

text \<open>
  The integer functions of \<open>base/intmath.hh\<close> the constructors of the memory interfaces use, and what they
  compute: powers of two and logarithms of 64-bit numbers.
\<close>

unbundle bit_operations_syntax

definition isPowerOf2 :: "nat \<Rightarrow> bool" where
  "isPowerOf2 n \<longleftrightarrow> n \<noteq> 0 \<and> n AND (n - 1) = 0"

text \<open>One stage of the search: when the upper half of what is left has a bit, go on there.\<close>

definition log_stage :: "nat \<Rightarrow> nat \<Rightarrow> nat \<times> nat \<Rightarrow> nat \<times> nat" where
  "log_stage upper k st = (case st of (y, ux) \<Rightarrow> if ux AND upper \<noteq> 0 then (y + k, drop_bit k ux) else (y, ux))"

definition floorLog2 :: "nat \<Rightarrow> nat result" where
  "floorLog2 x =
     (if \<not> 0 < x then Inl AssertFail
      else Inr (fst (log_stage 0x2 1 (log_stage 0xc 2 (log_stage 0xf0 4 (log_stage 0xff00 8
             (log_stage 0xffff0000 16 (log_stage 0xffffffff00000000 32 (0, x)))))))))"

definition ceilLog2 :: "nat \<Rightarrow> nat result" where
  "ceilLog2 n = (if \<not> 0 < n then Inl AssertFail else if n = 1 then Inr 0 else rbind (floorLog2 (n - 1)) (\<lambda>k. Inr (k + 1)))"

section \<open>Powers of two\<close>

lemma and_pred_even: "(2 * m) AND (2 * m - 1) = 2 * (m AND (m - 1))" if "0 < (m :: nat)"
proof -
  have e: "2 * m - 1 = 2 * (m - 1) + 1" using that by simp
  have "bit (2 * m AND (2 * m - 1)) k \<longleftrightarrow> bit (2 * (m AND (m - 1))) k" for k
    unfolding e bit_and_iff by (cases k) (auto simp: bit_and_iff bit_Suc bit_0)
  then show ?thesis by (intro bit_eqI) blast
qed

lemma and_pred_odd: "(2 * m + 1) AND (2 * m) = 2 * (m :: nat)"
proof (rule bit_eqI)
  fix k show "bit ((2 * m + 1) AND (2 * m)) k \<longleftrightarrow> bit (2 * m) k"
    unfolding bit_and_iff by (cases k) (auto simp: bit_Suc bit_0)
qed

lemma isPowerOf2_iff: "isPowerOf2 n \<longleftrightarrow> (\<exists>k. n = 2 ^ k)"
proof (induction n rule: less_induct)
  case (less n)
  consider "n = 0" | m where "n = 2 * m" "0 < m" | m where "n = 2 * m + 1"
  proof (cases "even n")
    case True
    then obtain m where "n = 2 * m" ..
    then show ?thesis using that(1,2) by (cases "m = 0") simp_all
  qed (use that(3) in \<open>auto elim: oddE\<close>)
  then show ?case
  proof cases
    case 2
    have "isPowerOf2 n \<longleftrightarrow> isPowerOf2 m" using 2 and_pred_even[of m] by (simp add: isPowerOf2_def)
    also have "\<dots> \<longleftrightarrow> (\<exists>k. m = 2 ^ k)" using less 2 by simp
    also have "\<dots> \<longleftrightarrow> (\<exists>k. n = 2 ^ k)"
    proof
      assume "\<exists>k. m = 2 ^ k"
      then show "\<exists>k. n = 2 ^ k" using 2(1) by (metis power_Suc)
    next
      assume "\<exists>k. n = 2 ^ k"
      then obtain k where k: "n = 2 ^ k" ..
      then have "k \<noteq> 0" using 2 by (cases k) auto
      then obtain j where "k = Suc j" by (cases k) auto
      then have "m = 2 ^ j" using k 2(1) by simp
      then show "\<exists>k. m = 2 ^ k" ..
    qed
    finally show ?thesis .
  next
    case 3
    have "isPowerOf2 n \<longleftrightarrow> m = 0" using 3 and_pred_odd[of m] by (simp add: isPowerOf2_def)
    also have "\<dots> \<longleftrightarrow> (\<exists>k. n = 2 ^ k)"
    proof
      assume "m = 0"
      then have "n = 2 ^ 0" using 3 by simp
      then show "\<exists>k. n = 2 ^ k" ..
    next
      assume "\<exists>k. n = 2 ^ k"
      then obtain k where k: "n = 2 ^ k" ..
      have "odd n" using 3 by simp
      then have "k = 0" using k by (cases k) simp_all
      then show "m = 0" using k 3 by simp
    qed
    finally show ?thesis .
  qed (simp add: isPowerOf2_def)
qed

section \<open>Logarithms\<close>

lemma and_upper:
  assumes "ux < 2 ^ (2 * k)"
  shows "ux AND push_bit k (mask k) = 0 \<longleftrightarrow> (ux :: nat) < 2 ^ k"
proof -
  have "ux AND push_bit k (mask k) = push_bit k (drop_bit k ux AND mask k)"
    by (rule bit_eqI) (auto simp: bit_and_iff bit_push_bit_iff bit_drop_bit_eq)
  also have "drop_bit k ux AND mask k = drop_bit k ux"
  proof -
    have "drop_bit k ux < 2 ^ k" using assms by (simp add: drop_bit_eq_div div_less_iff_less_mult power_add[symmetric] mult_2)
    then show ?thesis by (simp add: take_bit_eq_mask[symmetric] take_bit_nat_eq_self_iff)
  qed
  finally have "ux AND push_bit k (mask k) = push_bit k (drop_bit k ux)" .
  then show ?thesis by (simp add: drop_bit_eq_div push_bit_eq_mult div_eq_0_iff)
qed

definition log_inv :: "nat \<Rightarrow> nat \<Rightarrow> nat \<times> nat \<Rightarrow> bool" where
  "log_inv x k st \<longleftrightarrow> (case st of (y, ux) \<Rightarrow> 0 < ux \<and> ux < 2 ^ k \<and> ux = x div 2 ^ y)"

lemma log_stage_inv:
  assumes "log_inv x (2 * k) st" "upper = push_bit k (mask k)"
  shows "log_inv x k (log_stage upper k st)"
proof -
  obtain y ux where st: "st = (y, ux)" by (cases st)
  have u: "0 < ux" "ux < 2 ^ (2 * k)" "ux = x div 2 ^ y" using assms(1) by (simp_all add: log_inv_def st)
  show ?thesis
  proof (cases "ux < 2 ^ k")
    case True
    then show ?thesis using u and_upper[OF u(2)] by (simp add: log_stage_def log_inv_def st assms(2))
  next
    case False
    have "drop_bit k ux < 2 ^ k" using u(2) by (simp add: drop_bit_eq_div div_less_iff_less_mult power_add[symmetric] mult_2)
    moreover have "0 < drop_bit k ux" using False by (simp add: drop_bit_eq_div div_greater_zero_iff)
    moreover have "drop_bit k ux = x div 2 ^ (y + k)" by (simp add: u(3) drop_bit_eq_div div_mult2_eq power_add)
    ultimately show ?thesis using False and_upper[OF u(2)] by (simp add: log_stage_def log_inv_def st assms(2))
  qed
qed

lemma floorLog2_ok:
  assumes "0 < x" "x < 2 ^ 64"
  shows "\<exists>k<64. floorLog2 x = Inr k \<and> 2 ^ k \<le> x \<and> x < 2 ^ Suc k"
proof -
  have m: "0xffffffff00000000 = push_bit 32 (mask 32 :: nat)" "0xffff0000 = push_bit 16 (mask 16 :: nat)"
    "0xff00 = push_bit 8 (mask 8 :: nat)" "0xf0 = push_bit 4 (mask 4 :: nat)" "0xc = push_bit 2 (mask 2 :: nat)"
    "0x2 = push_bit 1 (mask 1 :: nat)"
    by (simp_all add: push_bit_eq_mult mask_eq_exp_minus_1)
  have stage: "log_inv x 64 st \<Longrightarrow> log_inv x 32 (log_stage 0xffffffff00000000 32 st)"
    "log_inv x 32 st \<Longrightarrow> log_inv x 16 (log_stage 0xffff0000 16 st)" "log_inv x 16 st \<Longrightarrow> log_inv x 8 (log_stage 0xff00 8 st)"
    "log_inv x 8 st \<Longrightarrow> log_inv x 4 (log_stage 0xf0 4 st)" "log_inv x 4 st \<Longrightarrow> log_inv x 2 (log_stage 0xc 2 st)"
    "log_inv x 2 st \<Longrightarrow> log_inv x 1 (log_stage 0x2 1 st)" for st
    using log_stage_inv[OF _ m(1), of x st] log_stage_inv[OF _ m(2), of x st] log_stage_inv[OF _ m(3), of x st]
      log_stage_inv[OF _ m(4), of x st] log_stage_inv[OF _ m(5), of x st] log_stage_inv[OF _ m(6), of x st] by simp_all
  define st where "st = log_stage 0x2 1 (log_stage 0xc 2 (log_stage 0xf0 4 (log_stage 0xff00 8
             (log_stage 0xffff0000 16 (log_stage 0xffffffff00000000 32 (0, x))))))"
  have "log_inv x 64 (0, x)" using assms by (simp add: log_inv_def)
  then have "log_inv x 1 st" unfolding st_def by (intro stage)
  then obtain y where y: "fst st = y" "x div 2 ^ y = 1" by (cases st) (auto simp: log_inv_def)
  have b: "2 ^ y \<le> x" "x < 2 ^ Suc y"
  proof -
    show "2 ^ y \<le> x" using y(2) by (metis div_less not_less zero_neq_one)
    have "x < (x div 2 ^ y + 1) * 2 ^ y" by (metis Suc_eq_plus1 dividend_less_div_times mult_Suc add.commute zero_less_numeral zero_less_power)
    then show "x < 2 ^ Suc y" by (simp add: y(2))
  qed
  have "(2 :: nat) ^ y < 2 ^ 64" using b(1) assms(2) by (rule le_less_trans)
  then have "y < 64" by (simp only: power_strict_increasing_iff one_less_numeral_iff semiring_norm)
  then show ?thesis using b y(1) assms(1) unfolding floorLog2_def st_def by auto
qed

lemma ceilLog2_ok:
  assumes "0 < n" "n \<le> 2 ^ 64"
  shows "\<exists>k\<le>64. ceilLog2 n = Inr k \<and> n \<le> 2 ^ k \<and> 2 ^ k < 2 * n"
proof (cases "n = 1")
  case True
  then show ?thesis by (simp add: ceilLog2_def)
next
  case False
  have "0 < n - 1" "n - 1 < 2 ^ 64" using assms False by simp_all
  from floorLog2_ok[OF this] obtain k where k: "k < 64" "floorLog2 (n - 1) = Inr k" "2 ^ k \<le> n - 1" "n - 1 < 2 ^ Suc k" by blast
  have "n \<le> 2 ^ (k + 1)" "2 ^ (k + 1) < 2 * n" using k(3,4) False assms(1) by simp_all
  moreover have "ceilLog2 n = Inr (k + 1)" using k(2) assms(1) False by (simp add: ceilLog2_def)
  ultimately show ?thesis using k(1) by (intro exI[of _ "k + 1"]) simp
qed

section \<open>Properties\<close>

text \<open>The bit tricks compute what they are for: on a 64-bit number, \<open>isPowerOf2\<close> accepts exactly the
  powers of two, \<open>floorLog2\<close> is the exponent of the largest power of two that is not above it, and
  \<open>ceilLog2\<close> that of the smallest not below it.\<close>

theorem integer_logarithms:
  assumes "0 < n" "n < 2 ^ 64"
  shows "(isPowerOf2 n \<longleftrightarrow> n \<in> range ((^) 2)) \<and> (\<exists>k. floorLog2 n = Inr k \<and> n \<in> {2 ^ k..<2 ^ Suc k}) \<and>
    (\<exists>k. ceilLog2 n = Inr k \<and> 2 * n \<in> {2 ^ k<..2 ^ Suc k})"
proof (intro conjI)
  show "isPowerOf2 n \<longleftrightarrow> n \<in> range ((^) 2)" by (auto simp: isPowerOf2_iff)
  show "\<exists>k. floorLog2 n = Inr k \<and> n \<in> {2 ^ k..<2 ^ Suc k}" using floorLog2_ok[OF assms] by auto
  show "\<exists>k. ceilLog2 n = Inr k \<and> 2 * n \<in> {2 ^ k<..2 ^ Suc k}" using ceilLog2_ok[of n] assms by auto
qed

theorem integer_logarithms_witness: "\<exists>k. ceilLog2 1000 = Inr k \<and> 2000 \<in> {2 ^ k<..2 ^ Suc k :: nat}"
  using integer_logarithms[of 1000] by simp

end
