(* ===== verification/Channel_Setup.thy ===== *)
theory Channel_Setup
  imports Channel_Safety Int_Math
begin

text \<open>
  How a memory channel comes to be: the constructors of \<open>MemInterface\<close>, \<open>DRAMInterface\<close> and
  \<open>NVMInterface\<close> (\<open>mem/mem_interface.cc\<close>) with their checks, \<open>setCtrl\<close>, \<open>init\<close>, the constructor of
  \<open>MemCtrl\<close> (\<open>mem/mem_ctrl.cc\<close>, \<open>mem/qos/mem_ctrl.cc\<close>) around the configuration of the defense, and the
  start.  The parameters are those of \<open>MemInterface.py\<close>, \<open>DRAMInterface.py\<close>, \<open>NVMInterface.py\<close> and
  \<open>MemCtrl.py\<close>.
\<close>

section \<open>Interfaces\<close>

record interface_params =
  ip_range :: addr_range
  ip_addr_mapping :: addr_mapping
  ip_devices_per_rank :: nat
  ip_burst_length :: nat
  ip_device_bus_width :: nat
  ip_device_size :: nat
  ip_device_rowbuffer_size :: nat
  ip_ranks_per_channel :: nat
  ip_banks_per_rank :: nat
  ip_tCK :: tick
  ip_tCS :: tick
  ip_tBURST :: tick
  ip_tRTW :: tick
  ip_tWTR :: tick
  ip_read_buffer_size :: nat
  ip_write_buffer_size :: nat

definition burst_bytes :: "'a interface_params_scheme \<Rightarrow> nat" where
  "burst_bytes p = u32 (ip_devices_per_rank p * ip_burst_length p * ip_device_bus_width p) div 8"

definition rowBufferSize :: "'a interface_params_scheme \<Rightarrow> nat" where
  "rowBufferSize p = u32 (ip_devices_per_rank p * u32 (ip_device_rowbuffer_size p))"

text \<open>\<open>rowsPerBank\<close> is 0 until the derived class sets it.\<close>

definition MemInterface_new :: "'a interface_params_scheme \<Rightarrow> mem_interface result" where
  "MemInterface_new p =
     rbind (divf (rowBufferSize p) (burst_bytes p)) (\<lambda>burstsPerRowBuffer.
     rbind (if interleaved (ip_range p)
            then rbind (granularity (ip_range p)) (\<lambda>g. rbind (divf g (burst_bytes p)) (\<lambda>n. Inr (u32 n)))
            else Inr 1) (\<lambda>burstsPerStripe.
       Inr \<lparr>mi_range = ip_range p, mi_addrMapping = ip_addr_mapping p, mi_burstSize = burst_bytes p,
            mi_burstsPerRowBuffer = burstsPerRowBuffer, mi_burstsPerStripe = burstsPerStripe,
            mi_ranksPerChannel = ip_ranks_per_channel p, mi_banksPerRank = ip_banks_per_rank p, mi_rowsPerBank = 0\<rparr>))"

text \<open>The capacity is the size of the range rounded up to a power of two; its shift by 64 is undefined.  The
  bytes of a row of all banks are computed in 32 bits.\<close>

definition capacity :: "'a interface_params_scheme \<Rightarrow> nat result" where
  "capacity p = rbind (ceilLog2 (range_size (ip_range p))) (\<lambda>k. if 64 \<le> k then Inl OutOfBounds else Inr (2 ^ k))"

definition bytes_per_row :: "'a interface_params_scheme \<Rightarrow> nat" where
  "bytes_per_row p = u32 (rowBufferSize p * ip_banks_per_rank p * ip_ranks_per_channel p)"

definition set_rowsPerBank :: "'a interface_params_scheme \<Rightarrow> mem_interface \<Rightarrow> mem_interface result" where
  "set_rowsPerBank p i =
     rbind (capacity p) (\<lambda>c. rbind (divf c (bytes_per_row p)) (\<lambda>rows. Inr (i\<lparr>mi_rowsPerBank := u32 rows\<rparr>)))"

text \<open>The checks both media share.\<close>

definition size_checks :: "'a interface_params_scheme \<Rightarrow> unit result" where
  "size_checks p =
     (if \<not> isPowerOf2 (burst_bytes p) then Inl FatalExit
      else if \<not> isPowerOf2 (ip_ranks_per_channel p) then Inl FatalExit else Inr ())"

section \<open>DRAM\<close>

record dram_interface_params = interface_params +
  ip_bank_groups_per_rank :: nat
  ip_tCL :: tick
  ip_tBURST_MIN :: tick
  ip_tBURST_MAX :: tick
  ip_tCCD_L_WR :: tick
  ip_tCCD_L :: tick
  ip_tRCD :: tick
  ip_tRP :: tick
  ip_tRAS :: tick
  ip_tWR :: tick
  ip_tRTP :: tick
  ip_tRFC :: tick
  ip_tREFI :: tick
  ip_tRRD :: tick
  ip_tRRD_L :: tick
  ip_tPPD :: tick
  ip_tAAD :: tick
  ip_tXAW :: tick
  ip_tXP :: tick
  ip_tXS :: tick
  ip_tWTR_L :: tick
  ip_data_clock_sync :: bool
  ip_two_cycle_activate :: bool
  ip_activation_limit :: nat
  ip_page_policy :: page_policy
  ip_max_accesses_per_row :: nat
  ip_enable_dram_powerdown :: bool

text \<open>The number of commands per window is not known before \<open>setCtrl\<close>.\<close>

definition dram_params_new :: "dram_interface_params \<Rightarrow> mem_interface \<Rightarrow> dram_params" where
  "dram_params_new p i = \<lparr>dp_iface = i, dp_maxCommandsPerWindow = 0, dp_tCK = ip_tCK p, dp_tCS = ip_tCS p, dp_tBURST = ip_tBURST p,
     dp_tRTW = ip_tRTW p, dp_tWTR = ip_tWTR p, dp_bankGroupArch = (0 < ip_bank_groups_per_rank p), dp_tCL = ip_tCL p,
     dp_tBURST_MIN = ip_tBURST_MIN p, dp_tBURST_MAX = ip_tBURST_MAX p, dp_tCCD_L_WR = ip_tCCD_L_WR p, dp_tCCD_L = ip_tCCD_L p,
     dp_tRCD = ip_tRCD p, dp_tRP = ip_tRP p, dp_tRAS = ip_tRAS p, dp_tWR = ip_tWR p, dp_tRTP = ip_tRTP p, dp_tRFC = ip_tRFC p,
     dp_tREFI = ip_tREFI p, dp_tRRD = ip_tRRD p, dp_tRRD_L = ip_tRRD_L p, dp_tPPD = ip_tPPD p, dp_tAAD = ip_tAAD p,
     dp_tXAW = ip_tXAW p, dp_tXP = ip_tXP p, dp_tXS = ip_tXS p, dp_clkResyncDelay = ip_tCL p + ip_tBURST_MAX p,
     dp_dataClockSync = ip_data_clock_sync p, dp_burstInterleave = (ip_tBURST p \<noteq> ip_tBURST_MIN p),
     dp_twoCycleActivate = ip_two_cycle_activate p, dp_activationLimit = ip_activation_limit p,
     dp_wrToRdDlySameBG = ip_tCL p + ip_tBURST_MAX p + ip_tWTR_L p, dp_rdToWrDlySameBG = ip_tRTW p + ip_tBURST_MAX p,
     dp_pageMgmt = ip_page_policy p, dp_maxAccessesPerRow = ip_max_accesses_per_row p,
     dp_enableDRAMPowerdown = ip_enable_dram_powerdown p\<rparr>"

text \<open>Only a warning depends on the capacity of the devices.\<close>

definition capacity_mismatch :: "dram_interface_params \<Rightarrow> nat \<Rightarrow> bool" where
  "capacity_mismatch p c \<longleftrightarrow>
     u32 (u32 (ip_device_size p) div (1024 * 1024) * ip_devices_per_rank p * ip_ranks_per_channel p) \<noteq> c div (1024 * 1024)"

definition bank_group_checks :: "dram_interface_params \<Rightarrow> unit result" where
  "bank_group_checks p =
     (let groups = ip_bank_groups_per_rank p in
      if groups = 0 then Inr ()
      else if ip_banks_per_rank p < groups then Inl FatalExit
      else if ip_banks_per_rank p mod groups \<noteq> 0 then Inl FatalExit
      else if ip_tCCD_L p \<le> ip_tBURST p then Inl FatalExit
      else if ip_tCCD_L_WR p \<le> ip_tBURST p then Inl FatalExit
      else if ip_tRRD_L p < ip_tRRD p then Inl FatalExit
      else Inr ())"

definition DRAMInterface_new :: "dram_interface_params \<Rightarrow> (dram_params \<times> dram) result" where
  "DRAMInterface_new p =
     rbind (MemInterface_new p) (\<lambda>i.
     rbind (size_checks p) (\<lambda>_.
     rbind (set_rowsPerBank p i) (\<lambda>i'.
     if ip_tREFI p \<le> ip_tRP p \<or> ip_tREFI p \<le> ip_tRFC p then Inl FatalExit
     else rbind (bank_group_checks p) (\<lambda>_.
       Inr (dram_params_new p i',
            dram_start (ip_ranks_per_channel p) (ip_banks_per_rank p) (ip_bank_groups_per_rank p) (ip_activation_limit p))))))"

text \<open>\<open>init\<close>, given the line size of the caches.\<close>

definition DRAMInterface_init :: "nat \<Rightarrow> dram_interface_params \<Rightarrow> mem_interface \<Rightarrow> unit result" where
  "DRAMInterface_init cacheLineSize p i =
     (if \<not> interleaved (ip_range p) then Inr ()
      else rbind (granularity (ip_range p)) (\<lambda>g.
        if mi_addrMapping i = RoRaBaChCo
        then if rowBufferSize p \<noteq> g then Inl FatalExit else Inr ()
        else if \<not> 1 \<le> mi_burstsPerStripe i then Inl AssertFail
        else if g < cacheLineSize then Inl FatalExit
        else if rowBufferSize p < g then Inl FatalExit
        else if \<not> mi_burstsPerStripe i \<le> mi_burstsPerRowBuffer i then Inl AssertFail
        else Inr ()))"

text \<open>\<open>setCtrl\<close> takes the window as an \<open>unsigned int\<close>.\<close>

definition dram_setCtrl :: "tick \<Rightarrow> dram_params \<Rightarrow> dram_params result" where
  "dram_setCtrl command_window d =
     rbind (divf (u32 command_window) (dp_tCK d)) (\<lambda>n. Inr (d\<lparr>dp_maxCommandsPerWindow := u32 n\<rparr>))"

section \<open>NVM\<close>

record nvm_interface_params = interface_params +
  ip_max_pending_writes :: nat
  ip_max_pending_reads :: nat
  ip_two_cycle_rdwr :: bool
  ip_tREAD :: tick
  ip_tWRITE :: tick
  ip_tSEND :: tick

definition NVMInterface_new :: "nvm_interface_params \<Rightarrow> (nvm_params \<times> nvm) result" where
  "NVMInterface_new p =
     rbind (MemInterface_new p) (\<lambda>i.
     rbind (size_checks p) (\<lambda>_.
     rbind (set_rowsPerBank p i) (\<lambda>i'.
       Inr (\<lparr>np_iface = i', np_maxCommandsPerWindow = 0, np_tCK = ip_tCK p, np_tCS = ip_tCS p, np_tBURST = ip_tBURST p,
             np_tRTW = ip_tRTW p, np_tWTR = ip_tWTR p, np_maxPendingWrites = ip_max_pending_writes p,
             np_maxPendingReads = ip_max_pending_reads p, np_twoCycleRdWr = ip_two_cycle_rdwr p, np_tREAD = ip_tREAD p,
             np_tWRITE = ip_tWRITE p, np_tSEND = ip_tSEND p\<rparr>,
            nvm_start (ip_ranks_per_channel p) (ip_banks_per_rank p)))))"

definition nvm_setCtrl :: "tick \<Rightarrow> nvm_params \<Rightarrow> nvm_params result" where
  "nvm_setCtrl command_window d =
     rbind (divf (u32 command_window) (np_tCK d)) (\<lambda>n. Inr (d\<lparr>np_maxCommandsPerWindow := u32 n\<rparr>))"

section \<open>The controller\<close>

record controller_params = mem_ctrl_params +
  cp_min_writes_per_switch :: nat
  cp_mem_sched_policy :: mem_sched
  cp_static_frontend_latency :: tick
  cp_static_backend_latency :: tick
  cp_command_window :: tick
  cp_qos_priorities :: nat

text \<open>What the constructor reads of an interface.\<close>

definition geometry_of :: "'a interface_params_scheme \<Rightarrow> mem_interface \<Rightarrow> interface_geometry" where
  "geometry_of p i = \<lparr>ig_readBufferSize = ip_read_buffer_size p, ig_writeBufferSize = ip_write_buffer_size p,
     ig_RowsPerBank = mi_rowsPerBank i, ig_BanksPerRank = mi_banksPerRank i, ig_RanksPerChannel = mi_ranksPerChannel i\<rparr>"

text \<open>The front end, with the packets of the ports in \<open>packets\<close>.\<close>

definition queues_new :: "(nat \<Rightarrow> packet) \<Rightarrow> controller_params \<Rightarrow> mem_ctrl_config \<Rightarrow> mem_interface option \<Rightarrow> mem_interface option \<Rightarrow> mem_ctrl" where
  "queues_new packets p cfg dram nvm =
     \<lparr>q_dram = dram, q_nvm = nvm, q_readBufferSize = mc_readBufferSize cfg, q_writeBufferSize = mc_writeBufferSize cfg,
      q_frontendLatency = cp_static_frontend_latency p, q_packets = packets,
      q_helpers = (\<lambda>_. \<lparr>bh_burstCount = 0, bh_burstsServiced = 0\<rparr>), q_next_helper = 0,
      q_readQueue = replicate (cp_qos_priorities p) [], q_writeQueue = replicate (cp_qos_priorities p) [],
      q_isInWriteQueue = {}, q_respQueue = [], q_totalReadQueueSize = 0, q_totalWriteQueueSize = 0,
      q_readEntries = (\<lambda>_. 0), q_writeEntries = (\<lambda>_. 0), q_numReadsToIssue = 0, q_numWritesQueued = 0,
      q_nextReqEvent = None, q_retryRdReq = False, q_retryWrReq = False, q_prevArrival = 0, q_responses = [],
      q_pendingDelete = None, q_s_readBursts = 0, q_s_writeBursts = 0, q_s_servicedByWrQ = 0, q_s_bytesReadWrQ = 0,
      q_s_mergedWrBursts = 0, q_s_numRdRetry = 0, q_s_numWrRetry = 0, q_s_readReqs = 0, q_s_writeReqs = 0,
      q_s_bytesReadSys = 0, q_s_bytesWrittenSys = 0, q_s_totGap = 0\<rparr>"

definition MemCtrl_new ::
  "(nat \<Rightarrow> nat) \<Rightarrow> raw_memory \<Rightarrow> (nat \<Rightarrow> packet) \<Rightarrow> controller_params \<Rightarrow> (dram_interface_params \<times> dram_params \<times> dram) option \<Rightarrow>
   (nvm_interface_params \<times> nvm_params \<times> nvm) option \<Rightarrow> controller result" where
  "MemCtrl_new rnd raw packets p dram nvm =
     rbind (case dram of None \<Rightarrow> Inr None
            | Some (_, d, s) \<Rightarrow> rbind (dram_setCtrl (cp_command_window p) d) (\<lambda>d'. Inr (Some (d', s)))) (\<lambda>dram'.
     rbind (case nvm of None \<Rightarrow> Inr None
            | Some (_, d, s) \<Rightarrow> rbind (nvm_setCtrl (cp_command_window p) d) (\<lambda>d'. Inr (Some (d', s)))) (\<lambda>nvm'.
     rbind (mem_ctrl_new rnd raw ((mem_ctrl_params.truncate p)
         \<lparr>p_dram := map_option (\<lambda>(ip, d, _). geometry_of ip (dp_iface d)) dram,
          p_nvm := map_option (\<lambda>(ip, d, _). geometry_of ip (np_iface d)) nvm\<rparr>)) (\<lambda>cfg.
       Inr \<lparr>ct_q = queues_new packets p cfg (map_option (\<lambda>(_, d, _). dp_iface d) dram) (map_option (\<lambda>(_, d, _). np_iface d) nvm),
            ct_dram = dram', ct_nvm = nvm', ct_burstTicks = {#}, ct_commandWindow = cp_command_window p, ct_busState = BUS_READ,
            ct_busStateNext = BUS_READ, ct_nextBurstAt = 0, ct_nextReqTime = 0, ct_respondEvent = None, ct_drainState = Running,
            ct_readsThisTime = 0, ct_writesThisTime = 0, ct_writeHighThreshold = mc_writeHighThreshold cfg,
            ct_writeLowThreshold = mc_writeLowThreshold cfg, ct_minWritesPerSwitch = cp_min_writes_per_switch p,
            ct_backendLatency = cp_static_backend_latency p, ct_memSchedPolicy = cp_mem_sched_policy p, ct_isTimingMode = False,
            ct_rh_mitigation = p_rh_mitigation p, ct_rh_defense = mc_rh_defense cfg, ct_retries = 0, ct_s_readLat = 0,
            ct_s_readBytes = 0, ct_s_writeLat = 0, ct_s_writeBytes = 0, ct_s_numReadWriteTurnArounds = 0,
            ct_s_numWriteReadTurnArounds = 0, ct_s_numStayReadState = 0, ct_s_numStayWriteState = 0\<rparr>)))"

text \<open>A DRAM channel from its parameters to the start of the simulation in timing mode.\<close>

definition channel_boot ::
  "(nat \<Rightarrow> nat) \<Rightarrow> raw_memory \<Rightarrow> (nat \<Rightarrow> packet) \<Rightarrow> nat \<Rightarrow> controller_params \<Rightarrow> dram_interface_params \<Rightarrow> tick \<Rightarrow> controller result" where
  "channel_boot rnd raw packets cacheLineSize p ip now =
     rbind (DRAMInterface_new ip) (\<lambda>(d, s).
     rbind (MemCtrl_new rnd raw packets p (Some (ip, d, s)) None) (\<lambda>c.
     rbind (DRAMInterface_init cacheLineSize ip (dp_iface d)) (\<lambda>_.
     rbind (ctrl_startup True c now) (\<lambda>c1.
       case ct_dram c1 of None \<Rightarrow> Inl OutOfBounds
       | Some (d', s') \<Rightarrow> rbind (dram_startup d' now (dr_ranks s')) (\<lambda>ranks.
           Inr (c1\<lparr>ct_dram := Some (d', s'\<lparr>dr_ranks := ranks\<rparr>)\<rparr>))))))"


section \<open>What the parameters must satisfy\<close>

text \<open>The conditions the constructors rely on without checking them: sizes that fit the 8- and 32-bit
  members, a row of all banks not larger than the range, at most 32 banks per rank for the bank mask of the
  scheduler, a read buffer the 8-bit event counter of a rank can count, a command slot in the window.\<close>

definition sizes_ok :: "'a interface_params_scheme \<Rightarrow> bool" where
  "sizes_ok p \<longleftrightarrow> (let row = rowBufferSize p * ip_banks_per_rank p * ip_ranks_per_channel p in
     range_wf (ip_range p) \<and> ip_ranks_per_channel p < 256 \<and> 0 < ip_banks_per_rank p \<and> ip_banks_per_rank p \<le> 32 \<and>
     0 < burst_bytes p \<and> burst_bytes p \<le> rowBufferSize p \<and> row < 2 ^ 32 \<and> row \<le> range_size (ip_range p) \<and> range_size (ip_range p) \<le> row * 2 ^ 31 \<and>
     (interleaved (ip_range p) \<longrightarrow> (case granularity (ip_range p) of Inl _ \<Rightarrow> False
        | Inr g \<Rightarrow> burst_bytes p \<le> g \<and> g \<le> rowBufferSize p)))"

definition setup_ok :: "controller_params \<Rightarrow> dram_interface_params \<Rightarrow> bool" where
  "setup_ok p ip \<longleftrightarrow> sizes_ok ip \<and> ip_read_buffer_size ip < 252 \<and> \<not> ip_enable_dram_powerdown ip \<and>
     0 < ip_tCK ip \<and> ip_tCK ip \<le> cp_command_window p \<and> cp_command_window p < 2 ^ 32 \<and>
     ip_tCL ip + ip_tBURST ip \<le> 90000"

text \<open>PrIDE, in either mode, with at least one activation per sample.\<close>

definition pride_configured :: "controller_params \<Rightarrow> bool" where
  "pride_configured p \<longleftrightarrow> p_rh_defense p \<and> (p_rh_mitigation p = ''RFM'' \<or> p_rh_mitigation p = ''PARA'') \<and>
     0 < p_rh_rfm_per_trefi p \<and> p_rh_rfm_per_trefi p \<le> p_rh_rfm_maxacts_per_trefi p"

section \<open>The interface\<close>

lemma rows_ok:
  assumes "0 < (row :: nat)" "row < 2 ^ 32" "row \<le> n" "n \<le> row * 2 ^ 31"
  shows "\<exists>k<64. ceilLog2 n = Inr k \<and> 0 < 2 ^ k div row \<and> 2 ^ k div row < 2 ^ 32"
proof -
  have "row * 2 ^ 31 \<le> 2 ^ 32 * 2 ^ 31" using assms(2) by (intro mult_le_mono1) simp
  then have n: "0 < n" "n \<le> 2 ^ 63" using assms(1,3,4) by simp_all
  then have "n \<le> 2 ^ 64" by simp
  from ceilLog2_ok[OF n(1) this] obtain k where k: "ceilLog2 n = Inr k" "n \<le> 2 ^ k" "2 ^ k < 2 * n" by blast
  have "(2 :: nat) ^ k < 2 ^ 64" using k(3) n(2) by simp
  then have k64: "k < 64" by (simp only: power_strict_increasing_iff one_less_numeral_iff semiring_norm)
  have "2 ^ k < 2 ^ 32 * row" using k(3) assms(4) by simp
  then have "2 ^ k div row < 2 ^ 32" using assms(1) by (simp add: div_less_iff_less_mult)
  moreover have "0 < 2 ^ k div row" using k(2) assms(1,3) by (simp add: div_greater_zero_iff)
  ultimately show ?thesis using k(1) k64 by blast
qed

lemma sizes_okD:
  assumes "sizes_ok p" "row = rowBufferSize p * ip_banks_per_rank p * ip_ranks_per_channel p"
  shows "range_wf (ip_range p)" "ip_ranks_per_channel p < 256" "0 < ip_banks_per_rank p" "ip_banks_per_rank p \<le> 32"
    "0 < burst_bytes p" "burst_bytes p \<le> rowBufferSize p" "row < 2 ^ 32" "row \<le> range_size (ip_range p)"
    "range_size (ip_range p) \<le> row * 2 ^ 31"
    "interleaved (ip_range p) \<Longrightarrow> \<exists>g. granularity (ip_range p) = Inr g \<and> burst_bytes p \<le> g \<and> g \<le> rowBufferSize p"
  using assms by (auto simp: sizes_ok_def Let_def split: sum.splits)

lemma MemInterface_new_ok:
  assumes "sizes_ok p"
  shows "\<exists>i. MemInterface_new p = Inr i \<and> mi_range i = ip_range p \<and> mi_burstSize i = burst_bytes p \<and> mi_burstsPerRowBuffer i > 0 \<and>
    mi_ranksPerChannel i = ip_ranks_per_channel p \<and> mi_banksPerRank i = ip_banks_per_rank p \<and> 0 < mi_burstsPerStripe i \<and>
    mi_burstsPerStripe i \<le> mi_burstsPerRowBuffer i"
proof -
  note S = sizes_okD[OF assms refl]
  have rb: "rowBufferSize p < 2 ^ 32" by (simp add: rowBufferSize_def u32_def)
  have pos: "0 < rowBufferSize p div burst_bytes p" using S(5,6) by (simp add: div_greater_zero_iff)
  obtain n where n: "(if interleaved (ip_range p)
            then rbind (granularity (ip_range p)) (\<lambda>g. rbind (divf g (burst_bytes p)) (\<lambda>n. Inr (u32 n)))
            else Inr 1) = Inr n" "0 < n" "n \<le> rowBufferSize p div burst_bytes p"
  proof (cases "interleaved (ip_range p)")
    case True
    then obtain g where g: "granularity (ip_range p) = Inr g" "burst_bytes p \<le> g" "g \<le> rowBufferSize p"
      using S(10) by blast
    have "g div burst_bytes p < 2 ^ 32" using div_le_dividend[of g "burst_bytes p"] g(3) rb by linarith
    then have "u32 (g div burst_bytes p) = g div burst_bytes p" by (simp add: u32_def)
    then show ?thesis using that[of "g div burst_bytes p"] True g S(5)
      by (simp add: divf_def div_greater_zero_iff div_le_mono)
  next
    case False
    then show ?thesis using that[of 1] pos by (simp add: Suc_le_eq)
  qed
  show ?thesis unfolding MemInterface_new_def n(1) using S(5) pos n(2,3) by (simp add: divf_def)
qed

text \<open>When the shared checks pass, the interface is well-formed.\<close>

lemma interface_new_wf:
  assumes "sizes_ok p" "size_checks p = Inr ()" "MemInterface_new p = Inr i0"
  shows "\<exists>rows. set_rowsPerBank p i0 = Inr (i0\<lparr>mi_rowsPerBank := rows\<rparr>) \<and> mi_wf (i0\<lparr>mi_rowsPerBank := rows\<rparr>) \<and> (\<exists>k. mi_burstSize i0 = 2 ^ k)"
proof -
  define row where "row = rowBufferSize p * ip_banks_per_rank p * ip_ranks_per_channel p"
  note S = sizes_okD[OF assms(1) row_def] and I = MemInterface_new_ok[OF assms(1)]
  have pw: "isPowerOf2 (burst_bytes p)" "isPowerOf2 (ip_ranks_per_channel p)" using assms(2) by (simp_all add: size_checks_def split: if_splits)
  have rk: "0 < ip_ranks_per_channel p" using pw(2) by (simp add: isPowerOf2_def)
  have row: "0 < row" "bytes_per_row p = row" using rk S(3,5,6,7) by (simp_all add: row_def bytes_per_row_def u32_def)
  obtain e where e: "e < 64" "ceilLog2 (range_size (ip_range p)) = Inr e" "0 < 2 ^ e div row" "2 ^ e div row < 2 ^ 32"
    using rows_ok[OF row(1) S(7-9)] by blast
  have rows: "set_rowsPerBank p i0 = Inr (i0\<lparr>mi_rowsPerBank := 2 ^ e div row\<rparr>)"
    using e row by (simp add: set_rowsPerBank_def capacity_def divf_def u32_def)
  have i0: "mi_range i0 = ip_range p" "mi_burstSize i0 = burst_bytes p" "mi_burstsPerRowBuffer i0 > 0"
    "mi_ranksPerChannel i0 = ip_ranks_per_channel p" "mi_banksPerRank i0 = ip_banks_per_rank p" "0 < mi_burstsPerStripe i0"
    using I assms(3) by auto
  have "mi_wf (i0\<lparr>mi_rowsPerBank := 2 ^ e div row\<rparr>)"
    using S(1-5) rk e(3,4) i0 by (simp add: mi_wf_def NO_ROW_def)
  then show ?thesis using rows pw(1) i0(2) by (auto simp: isPowerOf2_iff)
qed

lemma DRAMInterface_new_ok:
  assumes "sizes_ok p"
  shows "DRAMInterface_new p = Inl FatalExit \<or> (\<exists>i. DRAMInterface_new p = Inr (dram_params_new p i,
      dram_start (mi_ranksPerChannel i) (mi_banksPerRank i) (ip_bank_groups_per_rank p) (ip_activation_limit p)) \<and>
    mi_wf i \<and> mi_banksPerRank i = ip_banks_per_rank p \<and> mi_ranksPerChannel i = ip_ranks_per_channel p \<and> (\<exists>k. mi_burstSize i = 2 ^ k) \<and> mi_range i = ip_range p \<and>
    mi_burstsPerStripe i \<le> mi_burstsPerRowBuffer i \<and> ip_tRP p < ip_tREFI p)"
proof -
  obtain i where i: "MemInterface_new p = Inr i" "mi_range i = ip_range p" "mi_ranksPerChannel i = ip_ranks_per_channel p"
    "mi_banksPerRank i = ip_banks_per_rank p" "mi_burstsPerStripe i \<le> mi_burstsPerRowBuffer i"
    using MemInterface_new_ok[OF assms] by blast
  have g: "bank_group_checks p = Inl FatalExit \<or> bank_group_checks p = Inr ()" by (simp add: bank_group_checks_def Let_def)
  show ?thesis
  proof (cases "size_checks p = Inr ()")
    case True
    obtain rows where r: "set_rowsPerBank p i = Inr (i\<lparr>mi_rowsPerBank := rows\<rparr>)" "mi_wf (i\<lparr>mi_rowsPerBank := rows\<rparr>)" "\<exists>k. mi_burstSize i = 2 ^ k"
      using interface_new_wf[OF assms True i(1)] by blast
    have "DRAMInterface_new p = (if ip_tREFI p \<le> ip_tRP p \<or> ip_tREFI p \<le> ip_tRFC p then Inl FatalExit
        else rbind (bank_group_checks p) (\<lambda>_. Inr (dram_params_new p (i\<lparr>mi_rowsPerBank := rows\<rparr>),
          dram_start (ip_ranks_per_channel p) (ip_banks_per_rank p) (ip_bank_groups_per_rank p) (ip_activation_limit p))))"
      using i(1) True r(1) by (simp add: DRAMInterface_new_def)
    then show ?thesis using g i(2-5) r(2,3)
      by (cases "ip_tREFI p \<le> ip_tRP p \<or> ip_tREFI p \<le> ip_tRFC p"; elim disjE) (auto intro!: exI[of _ "i\<lparr>mi_rowsPerBank := rows\<rparr>"])
  next
    case False
    then have "size_checks p = Inl FatalExit" by (auto simp: size_checks_def split: if_splits)
    then show ?thesis using i(1) by (simp add: DRAMInterface_new_def)
  qed
qed

lemma DRAMInterface_init_ok:
  assumes "sizes_ok p" "mi_wf i" "mi_burstsPerStripe i \<le> mi_burstsPerRowBuffer i"
  shows "DRAMInterface_init line p i = Inl FatalExit \<or> DRAMInterface_init line p i = Inr ()"
proof -
  have n: "\<not> \<not> 1 \<le> mi_burstsPerStripe i" "\<not> \<not> mi_burstsPerStripe i \<le> mi_burstsPerRowBuffer i"
    using assms(2,3) by (simp_all add: mi_wf_def Suc_le_eq)
  show ?thesis
  proof (cases "interleaved (ip_range p)")
    case True
    then obtain g where "granularity (ip_range p) = Inr g" using sizes_okD(10)[OF assms(1) refl] by blast
    then show ?thesis using True unfolding DRAMInterface_init_def if_not_P[OF n(1)] if_not_P[OF n(2)] by simp
  qed (simp add: DRAMInterface_init_def)
qed

section \<open>The channel\<close>

lemma pride_configured_inv:
  assumes "mem_ctrl_new rnd raw p = Inr cfg" "p_rh_defense p" "p_rh_mitigation p = ''RFM'' \<or> p_rh_mitigation p = ''PARA''"
    and "0 < p_rh_rfm_per_trefi p" "p_rh_rfm_per_trefi p \<le> p_rh_rfm_maxacts_per_trefi p"
    and "p_dram p = Some (geometry_of ip i)" "mi_wf i" "mi_banksPerRank i < 256" "mi_ranksPerChannel i < 256"
  shows "\<exists>f. mc_rh_defense cfg = Some f \<and> pride_inv i f"
proof -
  let ?s = "rfm_new (raw_rfm raw) (p_rh_mitigation p = ''RFM'') (p_rh_actual_threshold p)
           (p_rh_mitigation p = ''PARA'') (p_rh_rfm_maxacts_per_trefi p div p_rh_rfm_per_trefi p) 45000 (350000 div 2)
           (p_rh_rfm_blast_radius p) (mi_rowsPerBank i) (mi_banksPerRank i) (mi_ranksPerChannel i) 1 6"
  have "mc_rh_defense cfg = Some (RFM ?s)"
    using assms(1-4,6,8,9)
    by (auto simp: mem_ctrl_new_def Let_def rfm_configure_def udiv_def geometry_of_def ig_banks8_def ig_ranks8_def u8_id split: if_splits)
  moreover have "0 < p_rh_rfm_maxacts_per_trefi p div p_rh_rfm_per_trefi p" using assms(4,5) by (simp add: div_greater_zero_iff)
  then have "pride_inv i (RFM ?s)"
    using tracker_new_default assms(7) by (simp add: pride_inv_def rfm_new_def rfm_wf_def mi_wf_def Let_def)
  ultimately show ?thesis by blast
qed

lemma each_rank_startup:
  assumes "now < ref_tick" "\<forall>r\<in>set rs. rk_refreshEvent r = None"
  shows "each_rank (\<lambda>r. rank_startup now r ref_tick) rs =
    Inr (map (\<lambda>r. r\<lparr>rk_pwrStateTick := now, rk_refreshEvent := Some ref_tick\<rparr>) rs)"
  using assms(2)
proof (induction rs)
  case (Cons r rs)
  have "rank_startup now r ref_tick = Inr (r\<lparr>rk_pwrStateTick := now, rk_refreshEvent := Some ref_tick\<rparr>)"
    using assms(1) Cons.prems by (simp add: rank_startup_def schedule_def)
  then show ?case using Cons by simp
qed simp


text \<open>The controller the constructor builds around the DRAM.\<close>

lemma MemCtrl_new_ok:
  assumes "setup_ok p ip" "pride_configured p" "mi_wf i" "mi_banksPerRank i < 256" "mi_ranksPerChannel i < 256"
    and "d = dram_params_new ip i"
  shows "MemCtrl_new rnd raw packets p (Some (ip, d, s)) None = Inl FatalExit \<or>
    (\<exists>c d' f. MemCtrl_new rnd raw packets p (Some (ip, d, s)) None = Inr c \<and> ct_dram c = Some (d', s) \<and> ct_nvm c = None \<and>
      d' = d\<lparr>dp_maxCommandsPerWindow := dp_maxCommandsPerWindow d'\<rparr> \<and> bus_ok d' (ct_commandWindow c) (ct_burstTicks c) \<and>
      ct_respondEvent c = None \<and> ct_rh_defense c = Some f \<and> pride_inv i f \<and> queues_ok i (ct_q c) \<and>
      q_respQueue (ct_q c) = [] \<and> q_readBufferSize (ct_q c) < 252)"
proof -
  let ?p = "(mem_ctrl_params.truncate p)\<lparr>p_dram := Some (geometry_of ip i), p_nvm := None\<rparr>"
  let ?n = "cp_command_window p div ip_tCK ip" and ?W = "cp_command_window p"
  define d' where "d' = d\<lparr>dp_maxCommandsPerWindow := ?n\<rparr>"
  have S: "ip_read_buffer_size ip < 252" "0 < ip_tCK ip" "ip_tCK ip \<le> ?W" "?W < 2 ^ 32" using assms(1) by (simp_all add: setup_ok_def)
  have "?n < 2 ^ 32" using div_le_dividend[of ?W "ip_tCK ip"] S(4) by linarith
  then have n: "u32 ?n = ?n" "u32 ?W = ?W" "0 < ?n" using S(2-4) by (simp_all add: u32_def div_greater_zero_iff)
  have ctrl: "dram_setCtrl ?W d = Inr d'" using S(2) n by (simp add: dram_setCtrl_def divf_def d'_def assms(6) dram_params_new_def)
  have P: "p_rh_defense ?p" "p_rh_mitigation ?p = ''RFM'' \<or> p_rh_mitigation ?p = ''PARA''" "0 < p_rh_rfm_per_trefi ?p"
    "p_rh_rfm_per_trefi ?p \<le> p_rh_rfm_maxacts_per_trefi ?p" "p_dram ?p = Some (geometry_of ip i)" "p_nvm ?p = None"
    using assms(2) by (simp_all add: pride_configured_def mem_ctrl_params.truncate_def)
  have iface: "dp_iface d = i" "dp_iface d' = i" by (simp_all add: d'_def assms(6) dram_params_new_def)
  show ?thesis
  proof (cases "mem_ctrl_new rnd raw ?p")
    case (Inl e)
    have "\<exists>x. rfm_configure raw ?p (geometry_of ip i) = Inr x" using P(3) by (simp add: rfm_configure_def udiv_def)
    then have "e = FatalExit" using Inl P(1,2,5) by (auto simp: mem_ctrl_new_def Let_def split: if_splits)
    then have "MemCtrl_new rnd raw packets p (Some (ip, d, s)) None = Inl FatalExit"
      using ctrl Inl by (simp add: MemCtrl_new_def iface(1))
    then show ?thesis ..
  next
    case (Inr cfg)
    obtain c where c: "MemCtrl_new rnd raw packets p (Some (ip, d, s)) None = Inr c" "ct_dram c = Some (d', s)" "ct_nvm c = None"
      "ct_commandWindow c = ?W" "ct_burstTicks c = {#}" "ct_respondEvent c = None" "ct_rh_defense c = mc_rh_defense cfg"
      "ct_q c = queues_new packets p cfg (Some i) None"
      using ctrl Inr by (simp add: MemCtrl_new_def iface(1))
    obtain f where f: "mc_rh_defense cfg = Some f" "pride_inv i f" using pride_configured_inv[OF Inr P(1-5) assms(3-5)] by blast
    have rb: "mc_readBufferSize cfg = ip_read_buffer_size ip"
      using Inr P(5,6) S(1) by (auto simp: mem_ctrl_new_def Let_def rbind_eq_Inr_iff geometry_of_def u32_def split: if_splits)
    have bus: "bus_ok d' ?W {#}" using S(2,3) n(3) by (simp add: bus_ok_def d'_def)
    have q: "queues_ok i (ct_q c)"
      using assms(3) by (simp add: c(8) queues_ok_def q_wf_def queues_new_def queue_size_def)
    have "d' = d\<lparr>dp_maxCommandsPerWindow := dp_maxCommandsPerWindow d'\<rparr>" by (simp add: d'_def)
    then show ?thesis using c(1-7) f bus q rb S(1) by (intro disjI2) (auto simp: c(8) queues_new_def)
  qed
qed

text \<open>The ranks as constructed have their books in order, and keep them at the start.\<close>

lemma rank_new_books:
  "books ((Rank_new banks groups limit j)\<lparr>rk_pwrStateTick := now, rk_refreshEvent := Some t\<rparr>) 0"
  by (simp add: books_def Rank_new_def pending_def)

lemma dram_started:
  fixes d ranks banks groups
  defines "s \<equiv> dram_start ranks banks groups (dp_activationLimit d)"
  assumes "now < t" "mi_ranksPerChannel (dp_iface d) = ranks" "mi_banksPerRank (dp_iface d) = banks"
  shows "\<exists>rs. each_rank (\<lambda>r. rank_startup now r t) (dr_ranks s) = Inr rs \<and> dram_wf d (s\<lparr>dr_ranks := rs\<rparr>) \<and> ranks_ok d rs []"
proof -
  let ?u = "\<lambda>r. r\<lparr>rk_pwrStateTick := now, rk_refreshEvent := Some t\<rparr>"
  have e: "each_rank (\<lambda>r. rank_startup now r t) (dr_ranks s) = Inr (map ?u (dr_ranks s))"
    by (rule each_rank_startup[OF assms(2)]) (auto simp: s_def dram_start_def Rank_new_def)
  have w: "dram_wf d s" unfolding s_def by (rule dram_start_wf)
  have "rank_wf d (?u r)" if "r \<in> set (dr_ranks s)" for r
    using w that rank_wf_cong[of "?u r" r d] by (simp add: dram_wf_def)
  then have "dram_wf d (s\<lparr>dr_ranks := map ?u (dr_ranks s)\<rparr>)" unfolding dram_wf_def dram_ranks_upd by simp
  moreover have "ranks_ok d (map ?u (dr_ranks s)) []"
  proof (rule ranks_okI)
    show "length (map ?u (dr_ranks s)) = mi_ranksPerChannel (dp_iface d)" using assms(3) by (simp add: s_def dram_start_def)
    show "books (map ?u (dr_ranks s) ! j) (waiting [] j) \<and> length (rk_banks (map ?u (dr_ranks s) ! j)) = mi_banksPerRank (dp_iface d)"
      if "j < length (map ?u (dr_ranks s))" for j
      using that rank_new_books assms(4) by (simp add: s_def dram_start_def) (simp add: Rank_new_def)
  qed simp
  ultimately show ?thesis using e by blast
qed

lemma channel_boot_inv:
  assumes "setup_ok p ip" "pride_configured p"
  shows "channel_boot rnd raw packets line p ip now = Inl FatalExit \<or>
    (\<exists>c d. channel_boot rnd raw packets line p ip now = Inr c \<and> channel_inv (pride_inv (dp_iface d)) d c)"
proof -
  let ?boot = "channel_boot rnd raw packets line p ip now"
  have sz: "sizes_ok ip" using assms(1) by (simp add: setup_ok_def)
  from DRAMInterface_new_ok[OF sz] show ?thesis
  proof
    assume "DRAMInterface_new ip = Inl FatalExit"
    then show ?thesis by (simp add: channel_boot_def)
  next
    assume "\<exists>i. DRAMInterface_new ip = Inr (dram_params_new ip i,
        dram_start (mi_ranksPerChannel i) (mi_banksPerRank i) (ip_bank_groups_per_rank ip) (ip_activation_limit ip)) \<and>
      mi_wf i \<and> mi_banksPerRank i = ip_banks_per_rank ip \<and> mi_ranksPerChannel i = ip_ranks_per_channel ip \<and> (\<exists>k. mi_burstSize i = 2 ^ k) \<and> mi_range i = ip_range ip \<and>
      mi_burstsPerStripe i \<le> mi_burstsPerRowBuffer i \<and> ip_tRP ip < ip_tREFI ip"
    then obtain i where i: "DRAMInterface_new ip = Inr (dram_params_new ip i,
        dram_start (mi_ranksPerChannel i) (mi_banksPerRank i) (ip_bank_groups_per_rank ip) (ip_activation_limit ip))"
      "mi_wf i" "mi_banksPerRank i = ip_banks_per_rank ip" "\<exists>k. mi_burstSize i = 2 ^ k" "mi_burstsPerStripe i \<le> mi_burstsPerRowBuffer i"
      "ip_tRP ip < ip_tREFI ip" "mi_ranksPerChannel i = ip_ranks_per_channel ip" by blast
    have small: "mi_banksPerRank i < 256" "mi_ranksPerChannel i < 256"
      using sizes_okD(2,4)[OF sz refl] i(3,7) by simp_all
    define d s where "d = dram_params_new ip i" and
      "s = dram_start (mi_ranksPerChannel i) (mi_banksPerRank i) (ip_bank_groups_per_rank ip) (ip_activation_limit ip)"
    show ?thesis
      using MemCtrl_new_ok[OF assms(1,2) i(2) small d_def, of rnd raw packets s] DRAMInterface_init_ok[OF sz i(2,5), of line]
    proof (elim disjE)
      assume "MemCtrl_new rnd raw packets p (Some (ip, d, s)) None = Inl FatalExit"
      then show ?thesis using i(1) by (simp add: channel_boot_def d_def s_def)
    next
      assume "\<exists>c d' f. MemCtrl_new rnd raw packets p (Some (ip, d, s)) None = Inr c \<and> ct_dram c = Some (d', s) \<and> ct_nvm c = None \<and>
        d' = d\<lparr>dp_maxCommandsPerWindow := dp_maxCommandsPerWindow d'\<rparr> \<and> bus_ok d' (ct_commandWindow c) (ct_burstTicks c) \<and>
        ct_respondEvent c = None \<and> ct_rh_defense c = Some f \<and> pride_inv i f \<and> queues_ok i (ct_q c) \<and>
        q_respQueue (ct_q c) = [] \<and> q_readBufferSize (ct_q c) < 252" and init: "DRAMInterface_init line ip i = Inr ()"
      then obtain c d' f where c: "MemCtrl_new rnd raw packets p (Some (ip, d, s)) None = Inr c" "ct_dram c = Some (d', s)" "ct_nvm c = None"
        "d' = d\<lparr>dp_maxCommandsPerWindow := dp_maxCommandsPerWindow d'\<rparr>" "bus_ok d' (ct_commandWindow c) (ct_burstTicks c)"
        "ct_respondEvent c = None" "ct_rh_defense c = Some f" "pride_inv i f" "queues_ok i (ct_q c)"
        "q_respQueue (ct_q c) = []" "q_readBufferSize (ct_q c) < 252" by blast
      have D: "dp_iface d' = i" "dp_activationLimit d' = ip_activation_limit ip" "dp_tREFI d' = ip_tREFI ip" "dp_tRP d' = ip_tRP ip"
        "dp_tCL d' = ip_tCL ip" "dp_tBURST d' = ip_tBURST ip" "dp_enableDRAMPowerdown d' = ip_enable_dram_powerdown ip"
        by (subst c(4), simp add: d_def dram_params_new_def)+
      have t: "now < sub64 (now + dp_tREFI d') (dp_tRP d')" using i(6) by (simp add: D sub64_def)
      obtain rs where rs: "each_rank (\<lambda>r. rank_startup now r (sub64 (now + dp_tREFI d') (dp_tRP d'))) (dr_ranks s) = Inr rs"
        "dram_wf d' (s\<lparr>dr_ranks := rs\<rparr>)" "ranks_ok d' rs []"
        using dram_started[OF t, of d' "mi_ranksPerChannel i" "mi_banksPerRank i" "ip_bank_groups_per_rank ip"] by (auto simp: s_def D)
      define c1 where "c1 = c\<lparr>ct_isTimingMode := True, ct_nextBurstAt := now + commandOffset d', ct_dram := Some (d', s\<lparr>dr_ranks := rs\<rparr>)\<rparr>"
      have boot: "?boot = Inr c1"
        using i(1) c(1,2) init rs(1)
        by (simp add: channel_boot_def d_def[symmetric] s_def[symmetric] ctrl_startup_def dram_startup_def c1_def)
          (simp add: d_def dram_params_new_def)
      have inv: "ctrl_inv (pride_inv i) d' (s\<lparr>dr_ranks := rs\<rparr>) c1"
        using c(3,5-10) rs(2) assms(1) by (simp add: ctrl_inv_def c1_def D responses_ok_def setup_ok_def)
      have "books_ok d' (q_readBufferSize (ct_q c1)) c1"
        using rs(3) c(10) by (simp add: books_ok_def c1_def dram_ranks_upd)
      moreover have "q_readBufferSize (ct_q c1) < 252" using c(11) by (simp add: c1_def)
      moreover have "mi_banksPerRank i \<le> 32" "\<not> ip_enable_dram_powerdown ip"
        using assms(1) sizes_okD(4)[OF sz refl] i(3) by (simp_all add: setup_ok_def)
      ultimately have "channel_inv (pride_inv (dp_iface d')) d' c1"
        using inv i(4) unfolding channel_inv_iff D by blast
      then show ?thesis using boot by blast
    qed (use i(1) in \<open>auto simp: channel_boot_def d_def s_def rbind_def dram_params_new_def split: sum.splits\<close>)
  qed
qed


section \<open>Properties\<close>

text \<open>C8: Building and starting a channel with PrIDE, for parameters that meet the conditions the
  constructors rely on without checking: it either ends in a fatal error (one of the checks on thresholds,
  timing, bank groups, powers of two and interleaving) or gives a running channel; there is no division by
  zero, no failed assertion and no access outside an array, the geometry is well-formed and the books of
  all ranks are in order.\<close>

theorem channel_boots_or_is_rejected:
  assumes "setup_ok p ip" "pride_configured p"
  shows "case channel_boot rnd raw packets line p ip now of
      Inl e \<Rightarrow> e = FatalExit
    | Inr c \<Rightarrow> \<exists>d. mi_wf (dp_iface d) \<and> channel_inv (pride_inv (dp_iface d)) d c"
proof -
  have "mi_wf (dp_iface d)" if "channel_inv (pride_inv (dp_iface d)) d c" for d c
    using that queues_okD(4)[OF ctrl_invD(6)] unfolding channel_inv_iff by blast
  then show ?thesis using channel_boot_inv[OF assms, of rnd raw packets line now] by (elim disjE exE conjE) auto
qed

text \<open>C6: A channel protected by PrIDE, from its construction on: in every state it can reach, whatever
  requests arrive and in whatever order the events of controller and ranks come, a request, a scheduler
  event, a response event and the end of a write never fail.  Only the activate, precharge, refresh and power
  events of a rank can end the simulation.\<close>

theorem only_rank_events_can_stop:
  assumes "setup_ok p ip" "pride_configured p" "channel_boot rnd0 raw packets line p ip t0 = Inr c0"
    and "channel_reachable tp rnd c0 c" "channel_legal c now e" "e \<in> {Rank j Write_Done, Controller x}"
  shows "\<exists>c'. channel_exec tp rnd c now e = ok c'"
proof -
  obtain d where c0: "channel_inv (pride_inv (dp_iface d)) d c0"
    using channel_boot_inv[OF assms(1,2), of rnd0 raw packets line t0] assms(3) by auto
  have c: "channel_inv (pride_inv (dp_iface d)) d c" by (rule pride.reachable_inv[OF assms(4) c0 refl])
  show ?thesis
  proof (cases "e = Controller x")
    case True
    then show ?thesis using pride.controller_event_ok[OF c refl, of now x tp] assms(5) by auto
  next
    case False
    then show ?thesis using write_done_fires[OF c, of now j] assms(5,6) by simp
  qed
qed

text \<open>C7: The 8-bit counter of outstanding events of a rank never wraps and is exact in every state such a
  channel reaches: it counts the reads of the rank that wait for their response, the pending write and
  precharge events and the refresh under way.  The rank is in the refresh power state exactly while its
  refresh starts or runs.\<close>

theorem rank_counts_its_work:
  assumes "setup_ok p ip" "pride_configured p" "channel_boot rnd0 raw packets line p ip t0 = Inr c0"
    and "channel_reachable tp rnd c0 c" "ct_dram c = Some (d, s)" "r = dr_ranks s ! j" "j < length (dr_ranks s)"
  shows "rk_outstandingEvents r = length (filter (\<lambda>p. mp_rank p = j) (q_respQueue (ct_q c))) +
      of_bool (rk_writeDoneEvent r \<noteq> None) + of_bool (rk_prechargeEvent r \<noteq> None) + of_bool (rk_refreshState r \<noteq> REF_IDLE) \<and>
    rk_outstandingEvents r \<in> {..<2 ^ 8} \<and> (rk_pwrState r = PWR_REF \<longleftrightarrow> rk_refreshState r \<in> {REF_START, REF_RUN})"
proof -
  obtain d0 where c0: "channel_inv (pride_inv (dp_iface d0)) d0 c0"
    using channel_boot_inv[OF assms(1,2), of rnd0 raw packets line t0] assms(3) by auto
  have c: "channel_inv (pride_inv (dp_iface d0)) d0 c" by (rule pride.reachable_inv[OF assms(4) c0 refl])
  then obtain s' z where i: "ctrl_inv (pride_inv (dp_iface d0)) d0 s' c" "z < 252" "books_ok d0 z c" unfolding channel_inv_iff by blast
  then have rk: "ranks_ok d0 (dr_ranks s) (q_respQueue (ct_q c))" "q_readBufferSize (ct_q c) = z"
    using assms(5) by (auto simp: books_ok_def)
  have "length (q_respQueue (ct_q c)) < 252" using queues_okD(10)[OF ctrl_invD(6)[OF i(1)]] i(2) rk(2) by simp
  then have w: "waiting (q_respQueue (ct_q c)) j < 252" using waiting_le[of "q_respQueue (ct_q c)" j] by simp
  have b: "books r (waiting (q_respQueue (ct_q c)) j)" using ranks_okD(4)[OF rk(1) assms(7)] assms(6) by simp
  then have "rk_outstandingEvents r < 2 ^ 8" using w pending_le[of r] by (simp add: books_def)
  then show ?thesis using b by (auto simp: books_def pending_def waiting_def)
qed


section \<open>A concrete channel\<close>

definition example_dram_interface :: dram_interface_params where
  "example_dram_interface = \<lparr>ip_range = range_plain 0 1048576, ip_addr_mapping = RoRaBaCoCh, ip_devices_per_rank = 8,
     ip_burst_length = 8, ip_device_bus_width = 8, ip_device_size = 65536, ip_device_rowbuffer_size = 1024,
     ip_ranks_per_channel = 2, ip_banks_per_rank = 16, ip_tCK = 5, ip_tCS = 2, ip_tBURST = 4, ip_tRTW = 2, ip_tWTR = 6,
     ip_read_buffer_size = 32, ip_write_buffer_size = 64, ip_bank_groups_per_rank = 4, ip_tCL = 14, ip_tBURST_MIN = 4,
     ip_tBURST_MAX = 4, ip_tCCD_L_WR = 6, ip_tCCD_L = 6, ip_tRCD = 14, ip_tRP = 14, ip_tRAS = 32, ip_tWR = 15, ip_tRTP = 8,
     ip_tRFC = 350, ip_tREFI = 3900, ip_tRRD = 4, ip_tRRD_L = 6, ip_tPPD = 0, ip_tAAD = 1, ip_tXAW = 30, ip_tXP = 6,
     ip_tXS = 340, ip_tWTR_L = 6, ip_data_clock_sync = False, ip_two_cycle_activate = False, ip_activation_limit = 4,
     ip_page_policy = page_open_adaptive, ip_max_accesses_per_row = 16, ip_enable_dram_powerdown = False\<rparr>"

definition example_controller_params :: controller_params where
  "example_controller_params = mem_ctrl_params.extend (config_example\<lparr>p_rh_mitigation := ''RFM''\<rparr>)
     \<lparr>cp_min_writes_per_switch = 16, cp_mem_sched_policy = frfcfs, cp_static_frontend_latency = 10,
      cp_static_backend_latency = 20, cp_command_window = 10, cp_qos_priorities = 1\<rparr>"

lemma example_setup_ok: "setup_ok example_controller_params example_dram_interface" "pride_configured example_controller_params"
  by (simp_all add: setup_ok_def sizes_ok_def example_dram_interface_def rowBufferSize_def burst_bytes_def u32_def Let_def
      range_wf_def range_plain_def masks_ok_def range_size_def sub64_def interleaved_def example_controller_params_def
      mem_ctrl_params.extend_def pride_configured_def config_example_def)

lemma example_dram_new:
  "DRAMInterface_new example_dram_interface = Inr (dram_params_new example_dram_interface example_interface, dram_start 2 16 4 4)"
proof -
  have b: "burst_bytes example_dram_interface = 64" "rowBufferSize example_dram_interface = 8192"
    "bytes_per_row example_dram_interface = 262144" "range_size (ip_range example_dram_interface) = 1048576"
    "\<not> interleaved (ip_range example_dram_interface)"
    by (simp_all add: burst_bytes_def rowBufferSize_def bytes_per_row_def example_dram_interface_def u32_def range_plain_def
        range_size_def sub64_def interleaved_def)
  have "floorLog2 1048575 = Inr 19" by (simp add: floorLog2_def log_stage_def drop_bit_eq_div)
  then have c: "ceilLog2 1048576 = Inr 20" by (simp add: ceilLog2_def)
  have s: "size_checks example_dram_interface = Inr ()"
    unfolding size_checks_def isPowerOf2_def b by (simp add: example_dram_interface_def)
  have m: "MemInterface_new example_dram_interface = Inr (example_interface\<lparr>mi_rowsPerBank := 0\<rparr>)"
    unfolding MemInterface_new_def b using b(5) by (simp add: divf_def example_interface_def example_dram_interface_def)
  have r: "set_rowsPerBank example_dram_interface (example_interface\<lparr>mi_rowsPerBank := 0\<rparr>) = Inr example_interface"
    unfolding set_rowsPerBank_def capacity_def b c by (simp add: divf_def u32_def example_interface_def)
  show ?thesis unfolding DRAMInterface_new_def m s r rbind_Inr by (simp add: bank_group_checks_def example_dram_interface_def)
qed

lemma example_boots:
  "\<exists>c s d cfg. channel_boot rnd raw packets 64 example_controller_params example_dram_interface 0 = Inr c \<and> ct_dram c = Some (d, s) \<and>
     dp_iface d = example_interface \<and> length (dr_ranks s) = 2 \<and> ct_q c = queues_new packets example_controller_params cfg (Some example_interface) None"
proof -
  let ?p = example_controller_params and ?ip = example_dram_interface
  let ?d = "dram_params_new ?ip example_interface" and ?s = "dram_start 2 16 4 4"
  define d' where "d' = ?d\<lparr>dp_maxCommandsPerWindow := 2\<rparr>"
  have ctrl: "dram_setCtrl (cp_command_window ?p) ?d = Inr d'"
    by (simp add: dram_setCtrl_def divf_def u32_def d'_def dram_params_new_def example_dram_interface_def example_controller_params_def
        mem_ctrl_params.extend_def)
  obtain cfg where cfg: "mem_ctrl_new rnd raw ((mem_ctrl_params.truncate ?p)
      \<lparr>p_dram := Some (geometry_of ?ip (dp_iface ?d)), p_nvm := None\<rparr>) = Inr cfg"
    by (simp add: mem_ctrl_new_def Let_def rfm_configure_def udiv_def example_controller_params_def config_example_def
        mem_ctrl_params.truncate_def mem_ctrl_params.extend_def)
  obtain c where c: "MemCtrl_new rnd raw packets ?p (Some (?ip, ?d, ?s)) None = Inr c" "ct_dram c = Some (d', ?s)" "ct_nvm c = None"
    "ct_q c = queues_new packets ?p cfg (Some (dp_iface ?d)) None"
    using ctrl cfg by (simp add: MemCtrl_new_def)
  have i: "dp_iface ?d = example_interface" "dp_iface d' = example_interface" by (simp_all add: d'_def dram_params_new_def)
  have init: "DRAMInterface_init 64 ?ip (dp_iface ?d) = Inr ()"
    by (simp add: DRAMInterface_init_def example_dram_interface_def interleaved_def range_plain_def)
  have t: "0 < sub64 (0 + dp_tREFI d') (dp_tRP d')" by (simp add: d'_def dram_params_new_def example_dram_interface_def sub64_def)
  obtain rs where rs: "each_rank (\<lambda>r. rank_startup 0 r (sub64 (0 + dp_tREFI d') (dp_tRP d'))) (dr_ranks ?s) = Inr rs" "ranks_ok d' rs []"
    using dram_started[OF t, of d' 2 16 4] i(2) by (auto simp: example_interface_def d'_def dram_params_new_def example_dram_interface_def)
  have "channel_boot rnd raw packets 64 ?p ?ip 0 =
      Inr (c\<lparr>ct_isTimingMode := True, ct_nextBurstAt := 0 + commandOffset d', ct_dram := Some (d', ?s\<lparr>dr_ranks := rs\<rparr>)\<rparr>)"
    unfolding channel_boot_def example_dram_new rbind_Inr prod.case c(1) init
    using c(2,3) rs by (simp add: ctrl_startup_def dram_startup_def)
  moreover have "length (dr_ranks (?s\<lparr>dr_ranks := rs\<rparr>)) = 2"
    unfolding dram_ranks_upd using ranks_okD(1)[OF rs(2)] i(2) by (simp add: example_interface_def)
  ultimately show ?thesis using c(4) i by (intro exI[of _ "c\<lparr>ct_isTimingMode := True, ct_nextBurstAt := 0 + commandOffset d',
      ct_dram := Some (d', ?s\<lparr>dr_ranks := rs\<rparr>)\<rparr>"] exI[of _ "?s\<lparr>dr_ranks := rs\<rparr>"] exI[of _ d'] exI[of _ cfg]) auto
qed

text \<open>A read of 150 bytes is accepted at once.\<close>

lemma example_request:
  assumes "dp_iface d = example_interface" "ct_dram c = Some (d, s)"
    and "ct_q c = queues_new (\<lambda>_. example_packet False) example_controller_params cfg (Some example_interface) None"
  shows "channel_legal c now (Controller (Request 0 0))"
  using assms
  by (simp add: servable_def queues_new_def example_packet_def media_of_def example_interface_simps interface_of_def
      backed_def example_access[of False, unfolded example_packet_def simp_thms]
      example_controller_params_def mem_ctrl_params.extend_def)

theorem channel_boots_or_is_rejected_witness:
  "\<exists>c d. channel_boot (\<lambda>_. 0) undefined (\<lambda>_. example_packet False) 64 example_controller_params example_dram_interface 0 = Inr c \<and>
     mi_wf (dp_iface d) \<and> channel_inv (pride_inv (dp_iface d)) d c"
  using channel_boots_or_is_rejected[OF example_setup_ok, of "\<lambda>_. 0" undefined "\<lambda>_. example_packet False" 64 0]
    example_boots[of "\<lambda>_. 0" undefined "\<lambda>_. example_packet False"] by auto

theorem only_rank_events_can_stop_witness:
  "\<exists>c c'. channel_boot (\<lambda>_. 0) undefined (\<lambda>_. example_packet False) 64 example_controller_params example_dram_interface 0 = Inr c \<and>
     channel_exec None (\<lambda>_. 0) c 5 (Controller (Request 0 0)) = ok c'"
proof -
  obtain c s d cfg where c: "channel_boot (\<lambda>_. 0) undefined (\<lambda>_. example_packet False) 64 example_controller_params example_dram_interface 0 = Inr c"
    "ct_dram c = Some (d, s)" "dp_iface d = example_interface"
    "ct_q c = queues_new (\<lambda>_. example_packet False) example_controller_params cfg (Some example_interface) None"
    using example_boots by blast
  show ?thesis
    using only_rank_events_can_stop[OF example_setup_ok c(1) channel_reachable.start example_request[OF c(3,2,4)],
        where j = 0 and x = "Request 0 0" and tp = None and rnd = "\<lambda>_. 0"] c(1) by blast
qed

theorem rank_counts_its_work_witness:
  "\<exists>c d s r. channel_boot (\<lambda>_. 0) undefined (\<lambda>_. example_packet False) 64 example_controller_params example_dram_interface 0 = Inr c \<and>
     ct_dram c = Some (d, s) \<and> r = dr_ranks s ! 1 \<and> rk_outstandingEvents r \<in> {..<2 ^ 8} \<and>
     (rk_pwrState r = PWR_REF \<longleftrightarrow> rk_refreshState r \<in> {REF_START, REF_RUN})"
proof -
  obtain c s d where c: "channel_boot (\<lambda>_. 0) undefined (\<lambda>_. example_packet False) 64 example_controller_params example_dram_interface 0 = Inr c"
    "ct_dram c = Some (d, s)" "length (dr_ranks s) = 2" using example_boots by blast
  have "1 < length (dr_ranks s)" using c(3) by simp
  from rank_counts_its_work[OF example_setup_ok c(1) channel_reachable.start c(2) refl this] c(1,2)
  show ?thesis by blast
qed

end
