(* ===== verification/Qos_Policy.thy ===== *)
theory Qos_Policy
  imports Dram_State "HOL-Library.Multiset" Complex_Main
begin

text \<open>
  The quality-of-service policies of \<open>mem/qos\<close>: how a packet gets its priority (\<open>policy_fixed_prio.cc\<close>,
  \<open>policy_pf.cc\<close>), which direction the bus takes (\<open>turnaround_policy_ideal.cc\<close>) and which packet of a
  priority is served (\<open>q_policy.{hh,cc}\<close>).  \<open>Policy::schedule\<close> is virtual: the controller of
  \<open>Qos_Control\<close> is written against the locale \<open>priority_policy\<close>, interpreted here on the two policies.
  A \<open>double\<close> is a \<open>real\<close>; \<open>std::sort\<close> is the argument \<open>srt\<close>, of which only its specification is used
  (it is not stable, so scores that are equal may come in any order).
\<close>

section \<open>Packets\<close>

record qpacket =
  qp_id :: nat
  qp_addr :: addr
  qp_size :: nat
  qp_read :: bool
  qp_write :: bool
  qp_needsResponse :: bool
  qp_cacheResponding :: bool
  qp_cleanEvict :: bool
  qp_qosValue :: nat

section \<open>Priorities\<close>

type_synonym history = "(nat \<times> real) list"

datatype qos_policy = Fixed_Priority nat "nat \<rightharpoonup> nat" | Prop_Fair real history

text \<open>The requestor is looked up by the system; \<open>None\<close> is an unknown one.  \<open>insert\<close> keeps an existing entry.\<close>

definition fixed_initRequestor :: "nat option \<Rightarrow> nat \<Rightarrow> (nat \<rightharpoonup> nat) \<Rightarrow> (nat \<rightharpoonup> nat) result" where
  "fixed_initRequestor requestor priority m =
     (case requestor of None \<Rightarrow> Inl PanicFail
      | Some rid \<Rightarrow> Inr (if m rid = None then m(rid \<mapsto> priority) else m))"

definition fixed_schedule :: "nat \<Rightarrow> (nat \<rightharpoonup> nat) \<Rightarrow> nat \<Rightarrow> nat" where
  "fixed_schedule dflt m rid = (case m rid of Some p \<Rightarrow> p | None \<Rightarrow> dflt)"

definition PropFairPolicy_new :: "real \<Rightarrow> qos_policy result" where
  "PropFairPolicy_new weight = (if weight < 0 \<or> 1 < weight then Inl FatalExit else Inr (Prop_Fair weight []))"

definition pf_initRequestor :: "nat \<Rightarrow> nat option \<Rightarrow> real \<Rightarrow> history \<Rightarrow> history result" where
  "pf_initRequestor numPriorities requestor score h =
     (case requestor of None \<Rightarrow> Inl AssertFail
      | Some rid \<Rightarrow> let h' = h @ [(rid, score)] in if numPriorities < length h' then Inl FatalExit else Inr h')"

definition updateScore :: "real \<Rightarrow> real \<Rightarrow> nat \<Rightarrow> real" where
  "updateScore weight old_score served_bytes = (1 - weight) * old_score + weight * real served_bytes"

text \<open>The loop of \<open>PropFairPolicy::schedule\<close> over the sorted history, at position \<open>i\<close>.\<close>

fun pf_loop :: "real \<Rightarrow> nat \<Rightarrow> nat \<Rightarrow> nat \<Rightarrow> history \<Rightarrow> nat \<Rightarrow> nat \<times> history" where
  "pf_loop weight pkt_id bytes i [] pkt_priority = (pkt_priority, [])"
| "pf_loop weight pkt_id bytes i ((curr_id, curr_score) # h) pkt_priority =
     (if curr_id = pkt_id
      then let (prio, h') = pf_loop weight pkt_id bytes (i + 1) h (u8 i)
           in (prio, (curr_id, updateScore weight curr_score bytes) # h')
      else let (prio, h') = pf_loop weight pkt_id bytes (i + 1) h pkt_priority
           in (prio, (curr_id, updateScore weight curr_score 0) # h'))"

fun policy_schedule :: "(history \<Rightarrow> history) \<Rightarrow> qos_policy \<Rightarrow> nat \<Rightarrow> nat \<Rightarrow> nat \<times> qos_policy" where
  "policy_schedule srt (Fixed_Priority dflt m) rid bytes = (fixed_schedule dflt m rid, Fixed_Priority dflt m)"
| "policy_schedule srt (Prop_Fair weight h) rid bytes =
     (let (prio, h') = pf_loop weight rid bytes 0 (srt h) 0 in (prio, Prop_Fair weight h'))"

text \<open>What \<open>std::sort\<close> with the predicate \<open>lhs.second > rhs.second\<close> promises.\<close>

definition sorts_scores :: "(history \<Rightarrow> history) \<Rightarrow> bool" where
  "sorts_scores srt \<longleftrightarrow> (\<forall>h. mset (srt h) = mset h \<and> sorted_wrt (\<lambda>a b. snd b \<le> snd a) (srt h))"

section \<open>The contract of a policy\<close>

text \<open>Every priority it gives is one the controller has, however often it is asked.\<close>

locale priority_policy =
  fixes sched :: "'p \<Rightarrow> nat \<Rightarrow> nat \<Rightarrow> nat \<times> 'p" and wf :: "'p \<Rightarrow> bool" and n :: nat
  assumes priority_less: "wf p \<Longrightarrow> fst (sched p rid bytes) < n"
    and keeps_wf: "wf p \<Longrightarrow> wf (snd (sched p rid bytes))"

definition policy_ok :: "(history \<Rightarrow> history) \<Rightarrow> nat \<Rightarrow> qos_policy \<Rightarrow> bool" where
  "policy_ok srt n p \<longleftrightarrow> 0 < n \<and> n < 256 \<and> sorts_scores srt \<and>
     (case p of Fixed_Priority d m \<Rightarrow> d < n \<and> (\<forall>rid q. m rid = Some q \<longrightarrow> q < n)
      | Prop_Fair w h \<Rightarrow> length h \<le> n)"

lemma srt_length: "sorts_scores srt \<Longrightarrow> length (srt h) = length h"
  by (metis sorts_scores_def size_mset)

lemma pf_loop_other:
  "pkt_id \<notin> fst ` set h \<Longrightarrow>
   pf_loop w pkt_id bytes i h prio = (prio, map (\<lambda>(c, s). (c, updateScore w s 0)) h)"
  by (induction h arbitrary: i prio) auto

lemma pf_loop_bound:
  assumes "prio < n" "i + length h \<le> n" "n < 256"
  shows "fst (pf_loop w pkt_id bytes i h prio) < n"
  using assms by (induction w pkt_id bytes i h prio rule: pf_loop.induct) (auto simp: Let_def u8_def split: prod.splits)

lemma pf_loop_length: "length (snd (pf_loop w pkt_id bytes i h prio)) = length h"
  by (induction w pkt_id bytes i h prio rule: pf_loop.induct) (auto simp: Let_def split: prod.splits)

lemma pf_loop_last:
  "h = xs @ (pkt_id, s) # ys \<Longrightarrow> pkt_id \<notin> fst ` set ys \<Longrightarrow>
   fst (pf_loop w pkt_id bytes i h prio) = u8 (i + length xs)"
  by (induction xs arbitrary: h i prio) (auto simp: Let_def pf_loop_other case_prod_beta)

interpretation qos: priority_policy "policy_schedule srt" "policy_ok srt n" n for srt n
proof
  show "fst (policy_schedule srt p rid bytes) < n" if "policy_ok srt n p" for p rid bytes
  proof (cases p)
    case (Fixed_Priority d m)
    then show ?thesis using that by (auto simp: policy_ok_def fixed_schedule_def split: option.splits)
  next
    case (Prop_Fair w h)
    then show ?thesis using that pf_loop_bound[of 0 n 0 "srt h"] srt_length[of srt h]
      by (simp add: policy_ok_def Let_def case_prod_beta)
  qed
  show "policy_ok srt n (snd (policy_schedule srt p rid bytes))" if "policy_ok srt n p" for p rid bytes
    using that srt_length[of srt] by (cases p) (auto simp: policy_ok_def Let_def case_prod_beta pf_loop_length)
qed

section \<open>Configured policies\<close>

lemma fixed_initRequestor_ok:
  assumes "policy_ok srt n (Fixed_Priority d m)" "q < n" "fixed_initRequestor r q m = Inr m'"
  shows "policy_ok srt n (Fixed_Priority d m')"
  using assms by (auto simp: policy_ok_def fixed_initRequestor_def split: option.splits if_splits)

lemma pf_initRequestor_ok:
  assumes "policy_ok srt n (Prop_Fair w h)" "pf_initRequestor n r score h = Inr h'"
  shows "policy_ok srt n (Prop_Fair w h')"
  using assms by (auto simp: policy_ok_def pf_initRequestor_def Let_def split: option.splits if_splits)

section \<open>Proportional fairness\<close>

lemma pf_priority_position:
  assumes "sorts_scores srt" "distinct (map fst h)" "k < length h" "length h < 256"
  shows "fst (policy_schedule srt (Prop_Fair w h) (fst (srt h ! k)) bytes) = k"
proof -
  have l: "length (srt h) = length h" by (rule srt_length[OF assms(1)])
  have "mset (map fst (srt h)) = mset (map fst h)" using assms(1) by (simp add: sorts_scores_def)
  then have d: "distinct (map fst (srt h))" using assms(2) mset_eq_imp_distinct_iff by blast
  obtain i s where e: "srt h ! k = (i, s)" by fastforce
  have s: "srt h = take k (srt h) @ (i, s) # drop (Suc k) (srt h)"
    using id_take_nth_drop[of k "srt h"] assms(3) l e by simp
  have "i \<notin> fst ` set (drop (Suc k) (srt h))"
    using d by (subst (asm) s) auto
  from pf_loop_last[OF s this, of w bytes 0 0] show ?thesis
    using assms(3,4) l e by (simp add: u8_def Let_def case_prod_beta)
qed

lemma srt_position:
  assumes "sorts_scores srt" "(a, sa) \<in> set h"
  obtains k where "k < length h" "srt h ! k = (a, sa)"
proof -
  have "set (srt h) = set h" using assms(1) by (metis sorts_scores_def mset_eq_setD)
  then obtain k where "k < length (srt h)" "srt h ! k = (a, sa)" using assms(2) by (metis in_set_conv_nth)
  then show ?thesis using that srt_length[OF assms(1)] by simp
qed

text \<open>C37: Proportional fairness: of two requestors the one that was served less (whose score is lower) gets
  the higher priority, and every requestor gets a priority of its own.\<close>

theorem prop_fair_orders_requestors:
  assumes "sorts_scores srt" "distinct (map fst h)" "length h < 256" "(a, sa) \<in> set h" "(b, sb) \<in> set h"
    and "p = Prop_Fair w h" "sa < sb \<or> sa = sb \<and> a \<noteq> b"
  shows "(if sa < sb then fst (policy_schedule srt p b bytes) < fst (policy_schedule srt p a bytes')
    else fst (policy_schedule srt p b bytes) \<noteq> fst (policy_schedule srt p a bytes'))"
proof -
  obtain i where i: "i < length h" "srt h ! i = (a, sa)" using srt_position[OF assms(1,4)] .
  obtain j where j: "j < length h" "srt h ! j = (b, sb)" using srt_position[OF assms(1,5)] .
  have l: "length (srt h) = length h" by (rule srt_length[OF assms(1)])
  have so: "sorted_wrt (\<lambda>x y. snd y \<le> snd x) (srt h)" using assms(1) by (simp add: sorts_scores_def)
  have p: "fst (policy_schedule srt p a bytes') = i" "fst (policy_schedule srt p b bytes) = j"
    using pf_priority_position[OF assms(1,2) i(1) assms(3)] pf_priority_position[OF assms(1,2) j(1) assms(3)]
      i(2) j(2) assms(6) by simp_all
  have "sa < sb \<Longrightarrow> j < i"
  proof (rule ccontr)
    assume "sa < sb" "\<not> j < i"
    moreover have "i \<noteq> j" using i j \<open>sa < sb\<close> by auto
    ultimately have "snd (srt h ! j) \<le> snd (srt h ! i)" using sorted_wrt_nth_less[OF so, of i j] j(1) l by simp
    then show False using \<open>sa < sb\<close> i j by simp
  qed
  then show ?thesis unfolding p using i j assms(7) by auto
qed

lemma sorts_scores_example: "sorts_scores (\<lambda>h. rev (sort_key snd h))"
proof -
  have "sorted_wrt (\<lambda>a b. snd b \<le> snd a) (rev (sort_key snd h))" for h :: history
    using sorted_sort_key[of snd h] by (simp add: sorted_wrt_rev sorted_wrt_map)
  then show ?thesis by (simp add: sorts_scores_def)
qed

theorem prop_fair_orders_requestors_witness:
  "fst (policy_schedule (\<lambda>h. rev (sort_key snd h)) (Prop_Fair (1 / 2) [(0, 8), (1, 3), (2, 5)]) 0 64) <
   fst (policy_schedule (\<lambda>h. rev (sort_key snd h)) (Prop_Fair (1 / 2) [(0, 8), (1, 3), (2, 5)]) 1 64)"
  using prop_fair_orders_requestors[OF sorts_scores_example, of "[(0, 8), (1, 3), (2, 5)]" 1 3 0 8 "Prop_Fair (1 / 2) [(0, 8), (1, 3), (2, 5)]" "1 / 2" 64 64]
  by simp

section \<open>Bus turnaround\<close>

definition turned :: "bus_state \<Rightarrow> bus_state" where
  "turned b = (if b = BUS_READ then BUS_WRITE else BUS_READ)"

text \<open>The loop of \<open>TurnaroundPolicyIdeal::selectBusState\<close>, with \<open>k\<close> priorities left to look at.\<close>

fun ideal_loop :: "bus_state \<Rightarrow> nat list \<Rightarrow> nat list \<Rightarrow> nat \<Rightarrow> bus_state" where
  "ideal_loop b readq writeq 0 = b"
| "ideal_loop b readq writeq (Suc k) =
     (if readq ! k = 0 \<and> writeq ! k = 0 then ideal_loop b readq writeq k
      else if readq ! k = 0 then BUS_WRITE
      else if writeq ! k = 0 then BUS_READ
      else turned b)"

lemma ideal_loop_top:
  assumes "k < m" "0 < readq ! k + writeq ! k" "\<And>j. k < j \<Longrightarrow> j < m \<Longrightarrow> readq ! j + writeq ! j = 0"
  shows "ideal_loop b readq writeq m = (if readq ! k = 0 then BUS_WRITE else if writeq ! k = 0 then BUS_READ else turned b)"
  using assms
proof (induction m)
  case (Suc m)
  show ?case
  proof (cases "k = m")
    case True
    then show ?thesis using Suc.prems(2) by auto
  next
    case False
    then have "k < m" "readq ! m = 0" "writeq ! m = 0" using Suc.prems(1) Suc.prems(3)[of m] by auto
    moreover from this have "ideal_loop b readq writeq m = (if readq ! k = 0 then BUS_WRITE else if writeq ! k = 0 then BUS_READ else turned b)"
      using Suc.prems(3) by (intro Suc.IH[OF _ Suc.prems(2)]) simp_all
    ultimately show ?thesis by simp
  qed
qed simp

section \<open>The choice within a priority\<close>

datatype q_policy = Fifo_Queue | Lifo_Queue | Lrg_Queue

text \<open>The scan of \<open>LrgQueuePolicy::selectPacket\<close> at position \<open>i\<close>; \<open>track\<close> is the first packet of each
  requestor.  The two panics are as the code has them.\<close>

fun lrg_scan :: "(nat \<Rightarrow> bool) \<Rightarrow> nat list \<Rightarrow> qpacket list \<Rightarrow> nat \<Rightarrow> (nat \<rightharpoonup> nat) \<Rightarrow> (nat option \<times> nat list \<times> (nat \<rightharpoonup> nat)) result" where
  "lrg_scan hasRequestor toServe [] i track = Inr (None, toServe, track)"
| "lrg_scan hasRequestor toServe (p # q) i track =
     (if hasRequestor (qp_id p) then Inl PanicFail
      else if 0 < length toServe then Inl PanicFail
      else case toServe of [] \<Rightarrow> Inl OutOfBounds
        | t # ts \<Rightarrow>
            if t = qp_id p then Inr (Some i, ts @ [qp_id p], track)
            else lrg_scan hasRequestor toServe q (i + 1) (if track (qp_id p) = None then track(qp_id p \<mapsto> i) else track))"

fun lrg_alternative :: "nat list \<Rightarrow> (nat \<rightharpoonup> nat) \<Rightarrow> nat \<Rightarrow> nat" where
  "lrg_alternative [] track stop = stop"
| "lrg_alternative (r # rs) track stop = (case track r of Some i \<Rightarrow> i | None \<Rightarrow> lrg_alternative rs track stop)"

text \<open>The iterator is an index; \<open>end()\<close> is the length of the queue.\<close>

fun selectPacket :: "q_policy \<Rightarrow> (nat \<Rightarrow> bool) \<Rightarrow> nat list \<Rightarrow> qpacket list \<Rightarrow> (nat \<times> nat list) result" where
  "selectPacket Fifo_Queue hasRequestor toServe q = Inr (0, toServe)"
| "selectPacket Lifo_Queue hasRequestor toServe q = Inr (length q, toServe)"
| "selectPacket Lrg_Queue hasRequestor toServe q =
     rbind (lrg_scan hasRequestor toServe q 0 (\<lambda>_. None)) (\<lambda>(found, toServe', track).
       Inr (case found of Some i \<Rightarrow> i | None \<Rightarrow> lrg_alternative toServe' track (length q), toServe'))"

definition enqueuePacket :: "q_policy \<Rightarrow> (nat \<Rightarrow> bool) \<Rightarrow> nat \<Rightarrow> nat list \<Rightarrow> nat list" where
  "enqueuePacket qp hasRequestor rid toServe =
     (if qp = Lrg_Queue \<and> \<not> hasRequestor rid then toServe @ [rid] else toServe)"

text \<open>\<open>*p_it\<close> and \<open>erase(p_it)\<close> as the controller uses them.\<close>

definition dequeue :: "q_policy \<Rightarrow> (nat \<Rightarrow> bool) \<Rightarrow> nat list \<Rightarrow> qpacket list \<Rightarrow> (qpacket \<times> qpacket list \<times> nat list) result" where
  "dequeue qp hasRequestor toServe q =
     rbind (selectPacket qp hasRequestor toServe q) (\<lambda>(i, toServe').
       if i < length q then Inr (q ! i, take i q @ drop (Suc i) q, toServe') else Inl OutOfBounds)"

lemma dequeue_fifo: "q \<noteq> [] \<Longrightarrow> dequeue Fifo_Queue has ts q = Inr (hd q, tl q, ts)"
  by (cases q) (simp_all add: dequeue_def)


end
