(* ===== verification/Qos_Control.thy ===== *)
theory Qos_Control
  imports Qos_Policy
begin

text \<open>
  The quality-of-service base of the memory controllers (\<open>mem/qos/mem_ctrl.{hh,cc}\<close>): the counts of
  queued entries by direction, priority and requestor, the times of the requests, the assignment of a
  priority to a packet, the escalation of a requestor's queued packets to its priority, and the choice of
  the bus direction.  The queues belong to the controller built on this class and are passed as the
  pair \<open>(R, W)\<close> of read and write queues, one list of packets per priority.

  The policy is an argument \<open>sched\<close> (its virtual \<open>schedule\<close>) with a state in \<open>qs_policy\<close>; the order in which
  an \<open>unordered_map\<close> is walked is the argument \<open>ord\<close>.  An absent entry of a map of vectors or deques is the
  empty list, as \<open>operator[]\<close> makes it; the code never leaves an empty deque in \<open>requestTimes\<close>.
  \<open>escalate_prio\<close> is a loop that need not end: it is a partial function.
\<close>

section \<open>State\<close>

record qos_config =
  qc_numPriorities :: nat
  qc_priorityEscalation :: bool
  qc_syncroScheduler :: bool
  qc_idealTurnaround :: bool
  qc_q_policy :: q_policy
  qc_system_requestors :: nat
  qc_ticks_per_second :: real

record 'p qos =
  qs_policy :: "'p option"
  qs_toServe :: "nat list"
  qs_requestors :: "nat list"
  qs_packetPriorities :: "nat \<Rightarrow> nat list"
  qs_requestTimes :: "nat \<Rightarrow> addr \<Rightarrow> tick list"
  qs_serviceTick :: "tick list"
  qs_readQueueSizes :: "nat list"
  qs_writeQueueSizes :: "nat list"
  qs_totalReadQueueSize :: nat
  qs_totalWriteQueueSize :: nat
  qs_busState :: bus_state
  qs_busStateNext :: bus_state
  qs_s_priorityMinLatency :: "nat \<Rightarrow> real"
  qs_s_priorityMaxLatency :: "nat \<Rightarrow> real"
  qs_s_numReadWriteTurnArounds :: nat
  qs_s_numWriteReadTurnArounds :: nat
  qs_s_numStayReadState :: nat
  qs_s_numStayWriteState :: nat

type_synonym queues = "qpacket list list"

definition qos_new :: "qos_config \<Rightarrow> 'p option \<Rightarrow> 'p qos" where
  "qos_new cfg p =
     (let z = replicate (qc_numPriorities cfg) 0 in
      \<lparr>qs_policy = p, qs_toServe = [], qs_requestors = [], qs_packetPriorities = (\<lambda>_. []), qs_requestTimes = (\<lambda>_ _. []),
       qs_serviceTick = z, qs_readQueueSizes = z, qs_writeQueueSizes = z, qs_totalReadQueueSize = 0,
       qs_totalWriteQueueSize = 0, qs_busState = BUS_READ, qs_busStateNext = BUS_READ,
       qs_s_priorityMinLatency = (\<lambda>_. 0), qs_s_priorityMaxLatency = (\<lambda>_. 0), qs_s_numReadWriteTurnArounds = 0,
       qs_s_numWriteReadTurnArounds = 0, qs_s_numStayReadState = 0, qs_s_numStayWriteState = 0\<rparr>)"

text \<open>\<open>v[i] += n\<close> and \<open>v[i] -= n\<close> on a vector of \<open>uint64_t\<close>.\<close>

definition add_at :: "nat \<Rightarrow> nat \<Rightarrow> nat list \<Rightarrow> nat list result" where
  "add_at i n v = (if i < length v then Inr (v[i := v ! i + n]) else Inl OutOfBounds)"

definition sub_at :: "nat \<Rightarrow> nat \<Rightarrow> nat list \<Rightarrow> nat list result" where
  "sub_at i n v = (if i < length v then Inr (v[i := sub64 (v ! i) n]) else Inl OutOfBounds)"

definition divCeil :: "nat \<Rightarrow> nat \<Rightarrow> nat result" where
  "divCeil a b = (if b = 0 then Inl DivideByZero else Inr ((a + b - 1) div b))"

definition hasRequestor :: "'p qos \<Rightarrow> nat \<Rightarrow> bool" where
  "hasRequestor s rid \<longleftrightarrow> rid \<in> set (qs_requestors s)"

section \<open>Logging\<close>

text \<open>\<open>addRequestor\<close>; the system knows the names of \<open>qc_system_requestors\<close> requestors.\<close>

definition addRequestor :: "qos_config \<Rightarrow> nat \<Rightarrow> 'p qos \<Rightarrow> 'p qos result" where
  "addRequestor cfg rid s =
     (if hasRequestor s rid then Inr s
      else if qc_system_requestors cfg \<le> rid then Inl FatalExit
      else let v = qs_packetPriorities s rid; n = qc_numPriorities cfg in
        Inr (s\<lparr>qs_requestors := qs_requestors s @ [rid],
               qs_packetPriorities := (qs_packetPriorities s)(rid := take n v @ replicate (n - length v) 0)\<rparr>))"

definition count_up :: "bus_state \<Rightarrow> nat \<Rightarrow> nat \<Rightarrow> 'p qos \<Rightarrow> 'p qos result" where
  "count_up dir k n s =
     (case dir of
        BUS_READ \<Rightarrow> rbind (add_at k n (qs_readQueueSizes s)) (\<lambda>v.
          Inr (s\<lparr>qs_readQueueSizes := v, qs_totalReadQueueSize := qs_totalReadQueueSize s + n\<rparr>))
      | BUS_WRITE \<Rightarrow> rbind (add_at k n (qs_writeQueueSizes s)) (\<lambda>v.
          Inr (s\<lparr>qs_writeQueueSizes := v, qs_totalWriteQueueSize := qs_totalWriteQueueSize s + n\<rparr>)))"

definition count_down :: "bus_state \<Rightarrow> nat \<Rightarrow> nat \<Rightarrow> 'p qos \<Rightarrow> 'p qos result" where
  "count_down dir k n s =
     (case dir of
        BUS_READ \<Rightarrow> rbind (sub_at k n (qs_readQueueSizes s)) (\<lambda>v.
          Inr (s\<lparr>qs_readQueueSizes := v, qs_totalReadQueueSize := sub64 (qs_totalReadQueueSize s) n\<rparr>))
      | BUS_WRITE \<Rightarrow> rbind (sub_at k n (qs_writeQueueSizes s)) (\<lambda>v.
          Inr (s\<lparr>qs_writeQueueSizes := v, qs_totalWriteQueueSize := sub64 (qs_totalWriteQueueSize s) n\<rparr>)))"

definition qos_logRequest ::
  "qos_config \<Rightarrow> tick \<Rightarrow> bus_state \<Rightarrow> nat \<Rightarrow> nat \<Rightarrow> addr \<Rightarrow> nat \<Rightarrow> 'p qos \<Rightarrow> 'p qos result" where
  "qos_logRequest cfg now dir rid prio a entries s =
     rbind (addRequestor cfg rid s) (\<lambda>s1.
     rbind (count_up dir prio entries s1) (\<lambda>s2.
     rbind (add_at prio entries (qs_packetPriorities s2 rid)) (\<lambda>v.
       let times = qs_requestTimes s2 rid in
       Inr (s2\<lparr>qs_packetPriorities := (qs_packetPriorities s2)(rid := v),
               qs_requestTimes := (qs_requestTimes s2)(rid := times(a := times a @ replicate entries now))\<rparr>))))"

definition log_latency :: "nat \<Rightarrow> real \<Rightarrow> 'p qos \<Rightarrow> 'p qos" where
  "log_latency prio latency s =
     (if 0 < latency then
        let mx = qs_s_priorityMaxLatency s; mn = qs_s_priorityMinLatency s in
        s\<lparr>qs_s_priorityMaxLatency := (if mx prio < latency then mx(prio := latency) else mx),
          qs_s_priorityMinLatency := (if latency < mn prio \<or> mn prio = 0 then mn(prio := latency) else mn)\<rparr>
      else s)"

text \<open>The loop of \<open>logResponse\<close> over the entries of the packet.\<close>

fun pop_times :: "qos_config \<Rightarrow> tick \<Rightarrow> nat \<Rightarrow> nat \<Rightarrow> addr \<Rightarrow> real \<Rightarrow> nat \<Rightarrow> 'p qos \<Rightarrow> 'p qos result" where
  "pop_times cfg now rid prio a wait 0 s = Inr s"
| "pop_times cfg now rid prio a wait (Suc j) s =
     (case qs_requestTimes s rid a of [] \<Rightarrow> Inl PanicFail
      | t # ts \<Rightarrow>
          pop_times cfg now rid prio a wait j
            (log_latency prio ((real now + wait - real t) / qc_ticks_per_second cfg)
              (s\<lparr>qs_requestTimes := (qs_requestTimes s)(rid := (qs_requestTimes s rid)(a := ts))\<rparr>)))"

definition qos_logResponse ::
  "qos_config \<Rightarrow> tick \<Rightarrow> bus_state \<Rightarrow> nat \<Rightarrow> nat \<Rightarrow> addr \<Rightarrow> nat \<Rightarrow> real \<Rightarrow> 'p qos \<Rightarrow> 'p qos result" where
  "qos_logResponse cfg now dir rid prio a entries wait s =
     (if \<not> hasRequestor s rid then Inl PanicFail
      else rbind (count_down dir prio entries s) (\<lambda>s1.
        if \<not> prio < length (qs_packetPriorities s1 rid) then Inl OutOfBounds
        else if qs_packetPriorities s1 rid ! prio = 0 then Inl PanicFail
        else rbind (sub_at prio entries (qs_packetPriorities s1 rid)) (\<lambda>v.
          pop_times cfg now rid prio a wait entries
            (s1\<lparr>qs_packetPriorities := (qs_packetPriorities s1)(rid := v)\<rparr>))))"

section \<open>Bus direction\<close>

definition qos_selectNextBusState :: "qos_config \<Rightarrow> 'p qos \<Rightarrow> bus_state" where
  "qos_selectNextBusState cfg s =
     (if qc_idealTurnaround cfg
      then ideal_loop (qs_busState s) (qs_readQueueSizes s) (qs_writeQueueSizes s) (qc_numPriorities cfg)
      else if (qs_totalReadQueueSize s = 0 \<and> qs_busState s = BUS_READ) \<or>
              (qs_totalWriteQueueSize s = 0 \<and> qs_busState s = BUS_WRITE)
      then turned (qs_busState s) else qs_busState s)"

definition qos_recordTurnaroundStats :: "'p qos \<Rightarrow> 'p qos" where
  "qos_recordTurnaroundStats s =
     (if qs_busStateNext s \<noteq> qs_busState s
      then if qs_busState s = BUS_READ then s\<lparr>qs_s_numWriteReadTurnArounds := qs_s_numWriteReadTurnArounds s + 1\<rparr>
           else s\<lparr>qs_s_numReadWriteTurnArounds := qs_s_numReadWriteTurnArounds s + 1\<rparr>
      else if qs_busState s = BUS_READ then s\<lparr>qs_s_numStayReadState := qs_s_numStayReadState s + 1\<rparr>
           else s\<lparr>qs_s_numStayWriteState := qs_s_numStayWriteState s + 1\<rparr>)"

definition setCurrentBusState :: "'p qos \<Rightarrow> 'p qos" where
  "setCurrentBusState s = s\<lparr>qs_busState := qs_busStateNext s\<rparr>"

section \<open>Escalation\<close>

text \<open>The entries of one moved packet, from priority \<open>c\<close> to \<open>t\<close>.\<close>

definition move_entries :: "nat \<Rightarrow> nat \<Rightarrow> nat \<Rightarrow> nat \<Rightarrow> qpacket \<Rightarrow> 'p qos \<Rightarrow> 'p qos result" where
  "move_entries sz rid c t p s =
     rbind (divCeil (qp_size p) sz) (\<lambda>n.
     rbind (if qp_read p then
              if \<not> c < length (qs_readQueueSizes s) then Inl OutOfBounds
              else if qs_readQueueSizes s ! c < n then Inl PanicFail
              else rbind (sub_at c n (qs_readQueueSizes s)) (\<lambda>v. rbind (add_at t n v) (\<lambda>v'. Inr (s\<lparr>qs_readQueueSizes := v'\<rparr>)))
            else if qp_write p then
              if \<not> c < length (qs_writeQueueSizes s) then Inl OutOfBounds
              else if qs_writeQueueSizes s ! c < n then Inl PanicFail
              else rbind (sub_at c n (qs_writeQueueSizes s)) (\<lambda>v. rbind (add_at t n v) (\<lambda>v'. Inr (s\<lparr>qs_writeQueueSizes := v'\<rparr>)))
            else Inr s)
       (\<lambda>s1. if qs_packetPriorities s1 rid ! c < n then Inl PanicFail
         else rbind (sub_at c n (qs_packetPriorities s1 rid)) (\<lambda>v. rbind (add_at t n v) (\<lambda>v'.
           Inr (s1\<lparr>qs_packetPriorities := (qs_packetPriorities s1)(rid := v')\<rparr>)))))"

text \<open>The walk of \<open>escalateQueues\<close> over the rest of a queue: the packets that stay, those moved, the state.\<close>

fun escalate_packets ::
  "nat \<Rightarrow> nat \<Rightarrow> nat \<Rightarrow> nat \<Rightarrow> qpacket list \<Rightarrow> 'p qos \<Rightarrow> (qpacket list \<times> qpacket list \<times> 'p qos) result" where
  "escalate_packets sz rid c t [] s = Inr ([], [], s)"
| "escalate_packets sz rid c t (p # ps) s =
     (if \<not> c < length (qs_packetPriorities s rid) then Inl OutOfBounds
      else if qs_packetPriorities s rid ! c = 0 then Inr (p # ps, [], s)
      else if qp_id p = rid
      then rbind (move_entries sz rid c t p s) (\<lambda>s1.
           rbind (escalate_packets sz rid c t ps s1) (\<lambda>(keep, moved, s2).
             Inr (keep, p\<lparr>qp_qosValue := t\<rparr> # moved, s2)))
      else rbind (escalate_packets sz rid c t ps s) (\<lambda>(keep, moved, s1). Inr (p # keep, moved, s1)))"

definition escalateQueues :: "nat \<Rightarrow> nat \<Rightarrow> nat \<Rightarrow> nat \<Rightarrow> queues \<Rightarrow> 'p qos \<Rightarrow> (queues \<times> 'p qos) result" where
  "escalateQueues sz rid c t Q s =
     (if \<not> c < length Q then Inl OutOfBounds
      else rbind (escalate_packets sz rid c t (Q ! c) s) (\<lambda>(keep, moved, s1).
        if moved = [] then Inr (Q[c := keep], s1)
        else if \<not> t < length Q then Inl OutOfBounds
        else Inr (Q[c := keep, t := Q ! t @ moved], s1)))"

partial_function (option) escalate_prio ::
  "nat \<Rightarrow> nat \<Rightarrow> nat \<Rightarrow> nat \<Rightarrow> queues \<times> queues \<times> 'p qos \<Rightarrow> (queues \<times> queues \<times> 'p qos) run" where
  "escalate_prio sz rid c t x =
     (case x of (R, W, s) \<Rightarrow>
        if \<not> c < length (qs_packetPriorities s rid) then failed OutOfBounds
        else if qs_packetPriorities s rid ! c = 0 then ok (R, W, s)
        else case rbind (escalateQueues sz rid c t R s) (\<lambda>(R', s1).
                  rbind (escalateQueues sz rid c t W s1) (\<lambda>(W', s2). Inr (R', W', s2))) of
          Inl e \<Rightarrow> failed e | Inr x' \<Rightarrow> escalate_prio sz rid c t x')"

fun escalate_from :: "nat \<Rightarrow> nat \<Rightarrow> nat \<Rightarrow> nat list \<Rightarrow> queues \<times> queues \<times> 'p qos \<Rightarrow> (queues \<times> queues \<times> 'p qos) run" where
  "escalate_from sz rid t [] x = ok x"
| "escalate_from sz rid t (c # cs) x =
     (if c = t then escalate_from sz rid t cs x
      else obind (escalate_prio sz rid c t x) (escalate_from sz rid t cs))"

definition escalate :: "qos_config \<Rightarrow> nat \<Rightarrow> nat \<Rightarrow> nat \<Rightarrow> queues \<times> queues \<times> 'p qos \<Rightarrow> (queues \<times> queues \<times> 'p qos) run" where
  "escalate cfg sz rid t x =
     (case x of (R, W, s) \<Rightarrow>
        obind (Some (addRequestor cfg rid s)) (\<lambda>s'. escalate_from sz rid t [0..<qc_numPriorities cfg] (R, W, s')))"

section \<open>Priority of an arriving packet\<close>

definition schedule_id :: "('p \<Rightarrow> nat \<Rightarrow> nat \<Rightarrow> nat \<times> 'p) \<Rightarrow> nat \<Rightarrow> nat \<Rightarrow> 'p qos \<Rightarrow> nat \<times> 'p qos" where
  "schedule_id sched rid data s =
     (case qs_policy s of None \<Rightarrow> (0, s) | Some p \<Rightarrow> let (prio, p') = sched p rid data in (prio, s\<lparr>qs_policy := Some p'\<rparr>))"

definition schedule_packet :: "('p \<Rightarrow> nat \<Rightarrow> nat \<Rightarrow> nat \<times> 'p) \<Rightarrow> qpacket \<Rightarrow> 'p qos \<Rightarrow> nat \<times> 'p qos" where
  "schedule_packet sched p s = (if qs_policy s = None then (qp_qosValue p, s) else schedule_id sched (qp_id p) (qp_size p) s)"

fun syncro_loop ::
  "qos_config \<Rightarrow> ('p \<Rightarrow> nat \<Rightarrow> nat \<Rightarrow> nat \<times> 'p) \<Rightarrow> nat \<Rightarrow> nat \<Rightarrow> nat list \<Rightarrow> queues \<times> queues \<times> 'p qos \<Rightarrow>
   (queues \<times> queues \<times> 'p qos) run" where
  "syncro_loop cfg sched sz me [] x = ok x"
| "syncro_loop cfg sched sz me (r # rs) x =
     (if r = me then syncro_loop cfg sched sz me rs x
      else case x of (R, W, s) \<Rightarrow> let (prio, s') = schedule_id sched r 0 s in
        obind (if qc_priorityEscalation cfg then escalate cfg sz r prio (R, W, s') else ok (R, W, s'))
          (syncro_loop cfg sched sz me rs))"

definition qosSchedule ::
  "qos_config \<Rightarrow> ('p \<Rightarrow> nat \<Rightarrow> nat \<Rightarrow> nat \<times> 'p) \<Rightarrow> (nat list \<Rightarrow> nat list) \<Rightarrow> nat \<Rightarrow> tick \<Rightarrow> qpacket \<Rightarrow>
   queues \<times> queues \<times> 'p qos \<Rightarrow> (nat \<times> queues \<times> queues \<times> 'p qos) run" where
  "qosSchedule cfg sched ord sz now pkt x =
     (case x of (R, W, s) \<Rightarrow>
        let (prio, s1) = schedule_packet sched pkt s in
        if \<not> prio < qc_numPriorities cfg then failed AssertFail
        else obind (if qc_syncroScheduler cfg then syncro_loop cfg sched sz (qp_id pkt) (ord (qs_requestors s1)) (R, W, s1)
                    else ok (R, W, s1)) (\<lambda>x2.
             obind (if qc_priorityEscalation cfg then escalate cfg sz (qp_id pkt) prio x2 else ok x2) (\<lambda>(R3, W3, s3).
               if \<not> prio < length (qs_serviceTick s3) then failed OutOfBounds
               else ok (prio, R3, W3, s3\<lparr>qs_serviceTick := (qs_serviceTick s3)[prio := now]\<rparr>))))"

end
