(* ===== verification/Qos_Books.thy ===== *)
theory Qos_Books
  imports Qos_Control
begin

text \<open>
  The books of the quality-of-service base: what its counts and request times must be for given queues
  (\<open>qos_books\<close>), and that logging, escalation and the assignment of priorities keep them.  Escalation is
  shown to return: one walk over both queues moves every packet of the requestor.
\<close>

section \<open>Entries\<close>

definition entries :: "nat \<Rightarrow> qpacket \<Rightarrow> nat" where
  "entries sz p = (qp_size p + sz - 1) div sz"

definition load :: "nat \<Rightarrow> (qpacket \<Rightarrow> bool) \<Rightarrow> qpacket list \<Rightarrow> nat" where
  "load sz P q = sum_list (map (entries sz) (filter P q))"

abbreviation of_req :: "nat \<Rightarrow> qpacket \<Rightarrow> bool" where "of_req rid \<equiv> \<lambda>p. qp_id p = rid"
abbreviation at_addr :: "nat \<Rightarrow> addr \<Rightarrow> qpacket \<Rightarrow> bool" where "at_addr rid a \<equiv> \<lambda>p. qp_id p = rid \<and> qp_addr p = a"
abbreviation any :: "qpacket \<Rightarrow> bool" where "any \<equiv> \<lambda>_. True"

named_theorems load_simps "entries of lists of packets"

lemma load_Nil [load_simps]: "load sz P [] = 0" by (simp add: load_def)
lemma load_Cons [load_simps]: "load sz P (p # q) = (if P p then entries sz p else 0) + load sz P q" by (simp add: load_def)
lemma load_append [load_simps]: "load sz P (q @ r) = load sz P q + load sz P r" by (simp add: load_def)

lemma load_split: "load sz P q = load sz P (filter Q q) + load sz P (filter (\<lambda>p. \<not> Q p) q)"
  by (induction q) (auto simp: load_simps)

lemma load_concat: "load sz P (concat Q) = sum_list (map (load sz P) Q)"
  by (induction Q) (simp_all add: load_simps)

lemma load_filter: "load sz P (filter Q q) = load sz (\<lambda>p. Q p \<and> P p) q"
  by (simp add: load_def)

lemma load_qosValue: "(\<And>p. P (p\<lparr>qp_qosValue := t\<rparr>) = P p) \<Longrightarrow> load sz P (map (\<lambda>p. p\<lparr>qp_qosValue := t\<rparr>) q) = load sz P q"
  by (induction q) (auto simp: load_simps entries_def)

lemma load_mono: "(\<And>p. P p \<Longrightarrow> Q p) \<Longrightarrow> load sz P q \<le> load sz Q q"
  by (induction q) (auto simp: load_simps intro: add_mono trans_le_add2)

lemma entries_pos: "0 < sz \<Longrightarrow> 0 < qp_size p \<Longrightarrow> 0 < entries sz p"
  by (simp add: entries_def div_greater_zero_iff)

lemma load_0:
  assumes "load sz P q = 0" "0 < sz" "\<forall>p\<in>set q. 0 < qp_size p"
  shows "filter P q = []"
  using assms by (induction q) (auto simp: load_simps dest: entries_pos split: if_splits)

lemma divCeil_entries: "0 < sz \<Longrightarrow> divCeil (qp_size p) sz = Inr (entries sz p)"
  by (simp add: divCeil_def entries_def)

text \<open>Moving \<open>n\<close> from one place of a list to another.\<close>

definition shift :: "nat \<Rightarrow> nat \<Rightarrow> nat \<Rightarrow> nat list \<Rightarrow> nat list" where
  "shift c t n v = v[c := v ! c - n, t := v ! t + n]"

lemma sub_add_at:
  "c \<noteq> t \<Longrightarrow> c < length v \<Longrightarrow> t < length v \<Longrightarrow> n \<le> v ! c \<Longrightarrow>
   rbind (sub_at c n v) (\<lambda>u. rbind (add_at t n u) f) = f (shift c t n v)"
  by (simp add: sub_at_def add_at_def shift_def sub64_le)

lemma length_shift [simp]: "length (shift c t n v) = length v" by (simp add: shift_def)
lemma shift_0 [simp]: "shift c t 0 v = v" by (simp add: shift_def)

lemma shift_nth:
  "c \<noteq> t \<Longrightarrow> c < length v \<Longrightarrow> t < length v \<Longrightarrow>
   shift c t n v ! k = (if k = c then v ! c - n else if k = t then v ! t + n else v ! k)"
  by (auto simp: shift_def nth_list_update)

lemma shift_shift:
  assumes "c \<noteq> t" "c < length v" "t < length v"
  shows "shift c t m (shift c t n v) = shift c t (n + m) v"
  using assms by (intro nth_equalityI) (simp_all add: shift_nth)

lemma sum_list_two_updates:
  fixes v :: "'a::comm_monoid_add list"
  assumes "c \<noteq> t" "c < length v" "t < length v" "x + y = v ! c + v ! t"
  shows "sum_list (v[c := x, t := y]) = sum_list v"
proof -
  have split: "sum_list u = u ! c + u ! t + sum ((!) u) ({0..<length v} - {c, t})" if "length u = length v" for u :: "'a list"
  proof -
    have "{0..<length v} = insert c (insert t ({0..<length v} - {c, t}))" using assms(2,3) by auto
    then have "sum_list u = sum ((!) u) (insert c (insert t ({0..<length v} - {c, t})))" using that by (simp add: sum_list_sum_nth)
    then show ?thesis using assms(1) by (simp add: add.assoc)
  qed
  have "sum ((!) (v[c := x, t := y])) ({0..<length v} - {c, t}) = sum ((!) v) ({0..<length v} - {c, t})"
    by (rule sum.cong) auto
  then show ?thesis using split[of "v[c := x, t := y]"] split[of v] assms by simp
qed

lemma sum_list_shift:
  "c \<noteq> t \<Longrightarrow> c < length v \<Longrightarrow> t < length v \<Longrightarrow> n \<le> v ! c \<Longrightarrow> sum_list (shift c t n v) = sum_list v"
  unfolding shift_def by (rule sum_list_two_updates) simp_all

lemma load_concat_two:
  assumes "c \<noteq> t" "c < length Q" "t < length Q" "load sz P x + load sz P y = load sz P (Q ! c) + load sz P (Q ! t)"
  shows "load sz P (concat (Q[c := x, t := y])) = load sz P (concat Q)"
  unfolding load_concat map_update using assms by (intro sum_list_two_updates) simp_all

section \<open>One walk of the escalation\<close>

definition moved_state :: "bus_state \<Rightarrow> nat \<Rightarrow> nat \<Rightarrow> nat \<Rightarrow> nat \<Rightarrow> 'p qos \<Rightarrow> 'p qos" where
  "moved_state dir rid c t n s =
     (case dir of BUS_READ \<Rightarrow> s\<lparr>qs_readQueueSizes := shift c t n (qs_readQueueSizes s)\<rparr>
      | BUS_WRITE \<Rightarrow> s\<lparr>qs_writeQueueSizes := shift c t n (qs_writeQueueSizes s)\<rparr>)
     \<lparr>qs_packetPriorities := (qs_packetPriorities s)(rid := shift c t n (qs_packetPriorities s rid))\<rparr>"

definition dir_sizes :: "bus_state \<Rightarrow> 'p qos \<Rightarrow> nat list" where
  "dir_sizes dir s = (case dir of BUS_READ \<Rightarrow> qs_readQueueSizes s | BUS_WRITE \<Rightarrow> qs_writeQueueSizes s)"

definition in_dir :: "bus_state \<Rightarrow> qpacket \<Rightarrow> bool" where
  "in_dir dir p \<longleftrightarrow> (case dir of BUS_READ \<Rightarrow> qp_read p | BUS_WRITE \<Rightarrow> \<not> qp_read p \<and> qp_write p)"

lemma moved_state_fields:
  "dir_sizes dir (moved_state dir rid c t n s) = shift c t n (dir_sizes dir s)"
  "qs_packetPriorities (moved_state dir rid c t n s) = (qs_packetPriorities s)(rid := shift c t n (qs_packetPriorities s rid))"
  by (cases dir; simp add: dir_sizes_def moved_state_def)+

lemma moved_state_0 [simp]: "moved_state dir rid c t 0 s = s"
  by (cases dir) (simp_all add: moved_state_def)

lemma moved_state_twice:
  assumes "c \<noteq> t" "c < length (dir_sizes dir s)" "t < length (dir_sizes dir s)"
    and "c < length (qs_packetPriorities s rid)" "t < length (qs_packetPriorities s rid)"
  shows "moved_state dir rid c t m (moved_state dir rid c t n s) = moved_state dir rid c t (n + m) s"
  using assms by (cases dir) (simp_all add: moved_state_def dir_sizes_def shift_shift)

lemma move_entries_ok:
  assumes "c \<noteq> t" "c < length (dir_sizes dir s)" "t < length (dir_sizes dir s)"
    and "c < length (qs_packetPriorities s rid)" "t < length (qs_packetPriorities s rid)"
    and "in_dir dir p" "0 < sz" "entries sz p \<le> dir_sizes dir s ! c" "entries sz p \<le> qs_packetPriorities s rid ! c"
  shows "move_entries sz rid c t p s = Inr (moved_state dir rid c t (entries sz p) s)"
  using assms by (cases dir) (simp_all add: move_entries_def divCeil_entries sub_add_at in_dir_def dir_sizes_def moved_state_def)

lemma escalate_packets_ok:
  assumes "c \<noteq> t" "c < length (dir_sizes dir s)" "t < length (dir_sizes dir s)"
    and "c < length (qs_packetPriorities s rid)" "t < length (qs_packetPriorities s rid)"
    and "\<forall>p\<in>set q. in_dir dir p \<and> 0 < qp_size p" "0 < sz"
    and "load sz (of_req rid) q \<le> dir_sizes dir s ! c" "load sz (of_req rid) q \<le> qs_packetPriorities s rid ! c"
  shows "escalate_packets sz rid c t q s =
    Inr (filter (\<lambda>p. qp_id p \<noteq> rid) q, map (\<lambda>p. p\<lparr>qp_qosValue := t\<rparr>) (filter (of_req rid) q),
         moved_state dir rid c t (load sz (of_req rid) q) s)"
  using assms
proof (induction q arbitrary: s)
  case (Cons p q)
  show ?case
  proof (cases "qs_packetPriorities s rid ! c = 0")
    case True
    then have "load sz (of_req rid) (p # q) = 0" using Cons.prems(9) by simp
    moreover from this have "filter (of_req rid) (p # q) = []" using Cons.prems(6,7) by (intro load_0) auto
    moreover from this have "filter (\<lambda>p. qp_id p \<noteq> rid) (p # q) = p # q" by (auto simp: filter_empty_conv split: if_splits)
    ultimately show ?thesis using True Cons.prems(4) by simp
  next
    case False
    show ?thesis
    proof (cases "qp_id p = rid")
      case True
      define s1 where "s1 = moved_state dir rid c t (entries sz p) s"
      have l: "load sz (of_req rid) (p # q) = entries sz p + load sz (of_req rid) q" using True by (simp add: load_simps)
      have m: "move_entries sz rid c t p s = Inr s1"
        unfolding s1_def using Cons.prems l by (intro move_entries_ok) auto
      have "escalate_packets sz rid c t q s1 =
        Inr (filter (\<lambda>p. qp_id p \<noteq> rid) q, map (\<lambda>p. p\<lparr>qp_qosValue := t\<rparr>) (filter (of_req rid) q),
         moved_state dir rid c t (load sz (of_req rid) q) s1)"
        using Cons.prems l by (intro Cons.IH) (simp_all add: s1_def moved_state_fields shift_nth)
      then show ?thesis
        using True False m l Cons.prems(1-5) by (simp add: s1_def moved_state_twice)
    next
      case no: False
      have "load sz (of_req rid) (p # q) = load sz (of_req rid) q" using no by (simp add: load_simps)
      then show ?thesis using no False Cons.prems Cons.IH[of s] by simp
    qed
  qed
qed (simp add: load_simps)

section \<open>The books\<close>

definition queue_ok :: "bus_state \<Rightarrow> nat set \<Rightarrow> nat \<Rightarrow> qpacket list \<Rightarrow> bool" where
  "queue_ok dir rs k q \<longleftrightarrow> (\<forall>p\<in>set q. in_dir dir p \<and> 0 < qp_size p \<and> qp_needsResponse p \<and> qp_qosValue p = k \<and> qp_id p \<in> rs)"

definition queues_ok_in :: "bus_state \<Rightarrow> nat set \<Rightarrow> nat \<Rightarrow> queues \<Rightarrow> bool" where
  "queues_ok_in dir rs n Q \<longleftrightarrow> length Q = n \<and> (\<forall>k<n. queue_ok dir rs k (Q ! k))"

definition sizes_of :: "nat \<Rightarrow> queues \<Rightarrow> nat list" where
  "sizes_of sz Q = map (load sz any) Q"

text \<open>The counts of one requestor by priority, and the number of its requests under way for an address.\<close>

definition req_counts :: "nat \<Rightarrow> nat \<Rightarrow> queues \<Rightarrow> queues \<Rightarrow> nat list" where
  "req_counts sz r R W = map2 (+) (map (load sz (of_req r)) R) (map (load sz (of_req r)) W)"

definition qos_books :: "qos_config \<Rightarrow> nat \<Rightarrow> queues \<Rightarrow> queues \<Rightarrow> 'p qos \<Rightarrow> bool" where
  "qos_books cfg sz R W s \<longleftrightarrow> 0 < sz \<and>
     queues_ok_in BUS_READ (set (qs_requestors s)) (qc_numPriorities cfg) R \<and>
     queues_ok_in BUS_WRITE (set (qs_requestors s)) (qc_numPriorities cfg) W \<and>
     length (qs_serviceTick s) = qc_numPriorities cfg \<and>
     qs_readQueueSizes s = sizes_of sz R \<and> qs_writeQueueSizes s = sizes_of sz W \<and>
     qs_totalReadQueueSize s = load sz any (concat R) \<and> qs_totalWriteQueueSize s = load sz any (concat W) \<and>
     (\<forall>r. qs_packetPriorities s r = (if hasRequestor s r then req_counts sz r R W else [])) \<and>
     (\<forall>r\<in>set (qs_requestors s). r < qc_system_requestors cfg) \<and>
     (\<forall>r a. length (qs_requestTimes s r a) = load sz (at_addr r a) (concat R) + load sz (at_addr r a) (concat W))"

text \<open>The queues after the packets of \<open>rid\<close> at \<open>c\<close> have moved to \<open>t\<close>.\<close>

definition escalated :: "nat \<Rightarrow> nat \<Rightarrow> nat \<Rightarrow> queues \<Rightarrow> queues" where
  "escalated rid c t Q =
     Q[c := filter (\<lambda>p. qp_id p \<noteq> rid) (Q ! c),
       t := Q ! t @ map (\<lambda>p. p\<lparr>qp_qosValue := t\<rparr>) (filter (of_req rid) (Q ! c))]"

lemma length_escalated [simp]: "length (escalated rid c t Q) = length Q" by (simp add: escalated_def)

lemma escalated_nth:
  "c \<noteq> t \<Longrightarrow> c < length Q \<Longrightarrow> t < length Q \<Longrightarrow> escalated rid c t Q ! k =
    (if k = c then filter (\<lambda>p. qp_id p \<noteq> rid) (Q ! c)
     else if k = t then Q ! t @ map (\<lambda>p. p\<lparr>qp_qosValue := t\<rparr>) (filter (of_req rid) (Q ! c)) else Q ! k)"
  by (auto simp: escalated_def nth_list_update)

lemma escalated_none:
  "c < length Q \<Longrightarrow> t < length Q \<Longrightarrow> filter (of_req rid) (Q ! c) = [] \<Longrightarrow> escalated rid c t Q = Q"
proof -
  assume "c < length Q" "t < length Q" and e: "filter (of_req rid) (Q ! c) = []"
  then have "filter (\<lambda>p. qp_id p \<noteq> rid) (Q ! c) = Q ! c" by (auto simp: filter_empty_conv)
  then show ?thesis by (simp add: escalated_def e)
qed

definition qos_free :: "(qpacket \<Rightarrow> bool) \<Rightarrow> bool" where
  "qos_free P \<longleftrightarrow> (\<forall>p t. P (p\<lparr>qp_qosValue := t\<rparr>) = P p)"

lemma qos_free_intros [simp]: "qos_free any" "qos_free (of_req r)" "qos_free (at_addr r a)"
  by (simp_all add: qos_free_def)

lemma escalated_load:
  assumes "c \<noteq> t" "c < length Q" "t < length Q" "qos_free P"
  shows "map (load sz P) (escalated rid c t Q) = shift c t (load sz (\<lambda>p. qp_id p = rid \<and> P p) (Q ! c)) (map (load sz P) Q)"
proof (rule nth_equalityI)
  have m: "load sz P (map (\<lambda>p. p\<lparr>qp_qosValue := t\<rparr>) q) = load sz P q" for q
    using assms(4) by (intro load_qosValue) (simp add: qos_free_def)
  have s: "load sz P (filter (\<lambda>p. qp_id p \<noteq> rid) (Q ! c)) = load sz P (Q ! c) - load sz (\<lambda>p. qp_id p = rid \<and> P p) (Q ! c)"
    using load_split[of sz P "Q ! c" "of_req rid"] by (simp add: load_filter)
  fix k assume "k < length (map (load sz P) (escalated rid c t Q))"
  then show "map (load sz P) (escalated rid c t Q) ! k = shift c t (load sz (\<lambda>p. qp_id p = rid \<and> P p) (Q ! c)) (map (load sz P) Q) ! k"
    using assms(1-3) s by (simp add: escalated_nth shift_nth load_append m load_filter)
qed simp

lemma escalated_total:
  assumes "c \<noteq> t" "c < length Q" "t < length Q" "qos_free P"
  shows "load sz P (concat (escalated rid c t Q)) = load sz P (concat Q)"
  unfolding load_concat escalated_load[OF assms]
  using assms load_mono[of "\<lambda>p. qp_id p = rid \<and> P p" P] by (intro sum_list_shift) auto

lemma queue_ok_moved:
  assumes "queue_ok dir rs c q" "queue_ok dir rs t q'"
  shows "queue_ok dir rs c (filter P q)" "queue_ok dir rs t (q' @ map (\<lambda>p. p\<lparr>qp_qosValue := t\<rparr>) (filter P q))"
  using assms by (auto simp: queue_ok_def in_dir_def split: bus_state.splits)

lemma escalated_queues_ok:
  "queues_ok_in dir rs n Q \<Longrightarrow> c \<noteq> t \<Longrightarrow> c < n \<Longrightarrow> t < n \<Longrightarrow> queues_ok_in dir rs n (escalated rid c t Q)"
  unfolding queues_ok_in_def by (auto simp: escalated_nth intro: queue_ok_moved)

lemma shift_map2:
  "c \<noteq> t \<Longrightarrow> length u = length v \<Longrightarrow> c < length v \<Longrightarrow> t < length v \<Longrightarrow> m \<le> u ! c \<Longrightarrow> n \<le> v ! c \<Longrightarrow>
   map2 (+) (shift c t m u) (shift c t n v) = shift c t (m + n) (map2 (+) u v)"
  by (intro nth_equalityI) (simp_all add: shift_nth)

lemma req_counts_escalated:
  assumes "c \<noteq> t" "length R = length W" "c < length R" "t < length R"
  shows "req_counts sz r (escalated rid c t R) (escalated rid c t W) =
    (if r = rid then shift c t (load sz (of_req rid) (R ! c) + load sz (of_req rid) (W ! c)) (req_counts sz r R W)
     else req_counts sz r R W)"
proof (cases "r = rid")
  case True
  then show ?thesis using assms unfolding req_counts_def
    by (simp add: escalated_load shift_map2 del: map2_map_map)
next
  case False
  then have "load sz (\<lambda>p. qp_id p = rid \<and> qp_id p = r) q = 0" for q by (induction q) (auto simp: load_simps)
  then show ?thesis using False assms unfolding req_counts_def by (simp add: escalated_load del: map2_map_map)
qed

lemma escalateQueues_ok:
  assumes "c \<noteq> t" "c < n" "t < n" "length Q = n" "queue_ok dir rs c (Q ! c)" "0 < sz" "dir_sizes dir s = sizes_of sz Q"
    and "length (qs_packetPriorities s rid) = n" "load sz (of_req rid) (Q ! c) \<le> qs_packetPriorities s rid ! c"
  shows "escalateQueues sz rid c t Q s = Inr (escalated rid c t Q, moved_state dir rid c t (load sz (of_req rid) (Q ! c)) s)"
proof -
  have "escalate_packets sz rid c t (Q ! c) s =
    Inr (filter (\<lambda>p. qp_id p \<noteq> rid) (Q ! c), map (\<lambda>p. p\<lparr>qp_qosValue := t\<rparr>) (filter (of_req rid) (Q ! c)),
         moved_state dir rid c t (load sz (of_req rid) (Q ! c)) s)"
    using assms load_mono[of "of_req rid" any sz "Q ! c"]
    by (intro escalate_packets_ok) (auto simp: sizes_of_def queue_ok_def)
  moreover have "Q[c := x, t := Q ! t] = Q[c := x]" for x using assms(1) by (metis list_update_id nth_list_update_neq)
  ultimately show ?thesis using assms(1-4) by (auto simp: escalateQueues_def escalated_def)
qed

lemma qos_booksD:
  assumes "qos_books cfg sz R W s"
  shows "0 < sz" "queues_ok_in BUS_READ (set (qs_requestors s)) (qc_numPriorities cfg) R"
    "queues_ok_in BUS_WRITE (set (qs_requestors s)) (qc_numPriorities cfg) W"
    "length R = qc_numPriorities cfg" "length W = qc_numPriorities cfg" "length (qs_serviceTick s) = qc_numPriorities cfg"
    "qs_readQueueSizes s = sizes_of sz R" "qs_writeQueueSizes s = sizes_of sz W"
    "qs_totalReadQueueSize s = load sz any (concat R)" "qs_totalWriteQueueSize s = load sz any (concat W)"
    "qs_packetPriorities s r = (if hasRequestor s r then req_counts sz r R W else [])"
    "length (qs_requestTimes s r a) = load sz (at_addr r a) (concat R) + load sz (at_addr r a) (concat W)"
  using assms by (simp_all add: qos_books_def queues_ok_in_def)

lemma req_counts_nth:
  "length R = length W \<Longrightarrow> k < length R \<Longrightarrow> req_counts sz r R W ! k = load sz (of_req r) (R ! k) + load sz (of_req r) (W ! k)"
  by (simp add: req_counts_def)

lemma length_req_counts [simp]: "length (req_counts sz r R W) = min (length R) (length W)"
  by (simp add: req_counts_def)

text \<open>The state after both queues of \<open>c\<close> are escalated.\<close>

definition escalated_state :: "nat \<Rightarrow> nat \<Rightarrow> nat \<Rightarrow> nat \<Rightarrow> queues \<Rightarrow> queues \<Rightarrow> 'p qos \<Rightarrow> 'p qos" where
  "escalated_state sz rid c t R W s =
     moved_state BUS_WRITE rid c t (load sz (of_req rid) (W ! c)) (moved_state BUS_READ rid c t (load sz (of_req rid) (R ! c)) s)"

lemma escalated_state_fields:
  "qs_readQueueSizes (escalated_state sz rid c t R W s) = shift c t (load sz (of_req rid) (R ! c)) (qs_readQueueSizes s)"
  "qs_writeQueueSizes (escalated_state sz rid c t R W s) = shift c t (load sz (of_req rid) (W ! c)) (qs_writeQueueSizes s)"
  "qs_packetPriorities (escalated_state sz rid c t R W s) = (qs_packetPriorities s)(rid :=
     shift c t (load sz (of_req rid) (W ! c)) (shift c t (load sz (of_req rid) (R ! c)) (qs_packetPriorities s rid)))"
  "qs_requestors (escalated_state sz rid c t R W s) = qs_requestors s"
  "qs_serviceTick (escalated_state sz rid c t R W s) = qs_serviceTick s"
  "qs_totalReadQueueSize (escalated_state sz rid c t R W s) = qs_totalReadQueueSize s"
  "qs_totalWriteQueueSize (escalated_state sz rid c t R W s) = qs_totalWriteQueueSize s"
  "qs_requestTimes (escalated_state sz rid c t R W s) = qs_requestTimes s"
  "qs_policy (escalated_state sz rid c t R W s) = qs_policy s"
  "hasRequestor (escalated_state sz rid c t R W s) r = hasRequestor s r"
  by (simp_all add: escalated_state_def moved_state_def hasRequestor_def)

lemma escalated_books:
  assumes B: "qos_books cfg sz R W s" and h: "hasRequestor s rid" "c \<noteq> t" "c < qc_numPriorities cfg" "t < qc_numPriorities cfg"
  shows "qos_books cfg sz (escalated rid c t R) (escalated rid c t W) (escalated_state sz rid c t R W s)"
proof -
  note D = qos_booksD[OF B]
  have pp: "qs_packetPriorities s r = (if hasRequestor s r then req_counts sz r R W else [])" for r using D(11) .
  have tm: "length (qs_requestTimes s r a) = load sz (at_addr r a) (concat R) + load sz (at_addr r a) (concat W)" for r a using D(12) .
  have l: "load sz (\<lambda>p. qp_id p = rid \<and> True) q = load sz (of_req rid) q" for q by simp
  have r: "qs_readQueueSizes (escalated_state sz rid c t R W s) = sizes_of sz (escalated rid c t R)"
    "qs_writeQueueSizes (escalated_state sz rid c t R W s) = sizes_of sz (escalated rid c t W)"
    using D(4,5,7,8) h(2-4) by (simp_all add: escalated_state_fields sizes_of_def escalated_load)
  have p: "qs_packetPriorities (escalated_state sz rid c t R W s) r =
      (if hasRequestor s r then req_counts sz r (escalated rid c t R) (escalated rid c t W) else [])" for r
    using D(4,5) h pp[of r] pp[of rid] by (auto simp: escalated_state_fields req_counts_escalated shift_shift add.commute)
  show ?thesis
    using B D(4,5) h(2-4) r p escalated_queues_ok[OF D(2) h(2-4)] escalated_queues_ok[OF D(3) h(2-4)]
    unfolding qos_books_def by (simp add: escalated_state_fields escalated_total)
qed

lemma escalate_round:
  assumes B: "qos_books cfg sz R W s" and h: "hasRequestor s rid" "c \<noteq> t" "c < qc_numPriorities cfg" "t < qc_numPriorities cfg"
  shows "rbind (escalateQueues sz rid c t R s) (\<lambda>(R', s1). rbind (escalateQueues sz rid c t W s1) (\<lambda>(W', s2). Inr (R', W', s2))) =
    Inr (escalated rid c t R, escalated rid c t W, escalated_state sz rid c t R W s)"
proof -
  note D = qos_booksD[OF B]
  define s1 where "s1 = moved_state BUS_READ rid c t (load sz (of_req rid) (R ! c)) s"
  have pp: "length (qs_packetPriorities s rid) = qc_numPriorities cfg"
    "qs_packetPriorities s rid ! c = load sz (of_req rid) (R ! c) + load sz (of_req rid) (W ! c)"
    using D(4,5) D(11)[of rid] h by (simp_all add: req_counts_nth)
  have R: "escalateQueues sz rid c t R s = Inr (escalated rid c t R, s1)"
    unfolding s1_def using D h pp
    by (intro escalateQueues_ok[where rs = "set (qs_requestors s)"]) (simp_all add: queues_ok_in_def dir_sizes_def)
  have "escalateQueues sz rid c t W s1 = Inr (escalated rid c t W, escalated_state sz rid c t R W s)"
    unfolding escalated_state_def s1_def[symmetric] using D h pp
    by (intro escalateQueues_ok[where rs = "set (qs_requestors s)"])
       (simp_all add: queues_ok_in_def dir_sizes_def s1_def moved_state_def shift_nth)
  then show ?thesis by (simp add: R)
qed

lemma escalate_prio_ok:
  assumes B: "qos_books cfg sz R W s" and h: "hasRequestor s rid" "c \<noteq> t" "c < qc_numPriorities cfg" "t < qc_numPriorities cfg"
  shows "escalate_prio sz rid c t (R, W, s) = ok (escalated rid c t R, escalated rid c t W, escalated_state sz rid c t R W s)"
proof (cases "qs_packetPriorities s rid ! c = 0")
  case True
  note D = qos_booksD[OF B]
  have pp: "length (qs_packetPriorities s rid) = qc_numPriorities cfg"
    "load sz (of_req rid) (R ! c) = 0" "load sz (of_req rid) (W ! c) = 0"
    using D(4,5) D(11)[of rid] h True by (simp_all add: req_counts_nth)
  have "filter (of_req rid) (R ! c) = []" "filter (of_req rid) (W ! c) = []"
    using pp(2,3) D(1-3) h(3) by (auto intro!: load_0[of sz "of_req rid"] simp: queues_ok_in_def queue_ok_def)
  then have "escalated rid c t R = R" "escalated rid c t W = W" using D(4,5) h(3,4) by (auto intro: escalated_none)
  moreover have "escalated_state sz rid c t R W s = s" by (simp add: escalated_state_def pp)
  ultimately show ?thesis using True pp(1) h(3) by (simp add: escalate_prio.simps)
next
  case False
  have l: "length (qs_packetPriorities s rid) = qc_numPriorities cfg" using qos_booksD(4,5)[OF B] qos_booksD(11)[OF B, of rid] h by simp
  define s2 where "s2 = escalated_state sz rid c t R W s"
  note D = qos_booksD[OF escalated_books[OF B h], folded s2_def]
  have "qs_packetPriorities s2 rid ! c = 0" "c < length (qs_packetPriorities s2 rid)"
    using D(4,5) D(11)[of rid] h by (simp_all add: s2_def escalated_state_fields req_counts_nth escalated_nth load_filter load_def)
  then have "escalate_prio sz rid c t (escalated rid c t R, escalated rid c t W, s2) = ok (escalated rid c t R, escalated rid c t W, s2)"
    by (simp add: escalate_prio.simps)
  then show ?thesis
    using False l h(3) escalate_round[OF B h] by (subst escalate_prio.simps) (simp add: s2_def)
qed

section \<open>Escalation gathers a requestor's packets\<close>

text \<open>The reference: every other priority loses the packets of \<open>rid\<close>, priority \<open>t\<close> gets them behind its own,
  in the order of the priorities they come from.\<close>

definition gathered :: "nat \<Rightarrow> nat \<Rightarrow> queues \<Rightarrow> queues" where
  "gathered rid t Q = (map (filter (\<lambda>p. qp_id p \<noteq> rid)) Q)
     [t := Q ! t @ map (\<lambda>p. p\<lparr>qp_qosValue := t\<rparr>) (filter (of_req rid) (concat (take t Q @ drop (Suc t) Q)))]"

definition escalate_all :: "nat \<Rightarrow> nat \<Rightarrow> nat list \<Rightarrow> queues \<Rightarrow> queues" where
  "escalate_all rid t cs Q = foldl (\<lambda>Q c. if c = t then Q else escalated rid c t Q) Q cs"

lemma escalate_all_simps [simp]:
  "escalate_all rid t [] Q = Q"
  "escalate_all rid t (c # cs) Q = escalate_all rid t cs (if c = t then Q else escalated rid c t Q)"
  "escalate_all rid t (cs @ [c]) Q = (if c = t then escalate_all rid t cs Q else escalated rid c t (escalate_all rid t cs Q))"
  by (simp_all add: escalate_all_def)

lemma length_escalate_all [simp]: "length (escalate_all rid t cs Q) = length Q"
  by (induction cs arbitrary: Q) simp_all

lemma escalate_all_upto:
  "t < length Q \<Longrightarrow> m \<le> length Q \<Longrightarrow> k < length Q \<Longrightarrow> escalate_all rid t [0..<m] Q ! k =
    (if k = t then Q ! t @ map (\<lambda>p. p\<lparr>qp_qosValue := t\<rparr>) (filter (of_req rid) (concat (map (\<lambda>c. if c = t then [] else Q ! c) [0..<m])))
     else if k < m then filter (\<lambda>p. qp_id p \<noteq> rid) (Q ! k) else Q ! k)"
proof (induction m arbitrary: k)
  case (Suc m)
  show ?case
  proof (cases "m = t")
    case True
    then show ?thesis using Suc.IH[of k] Suc.prems by auto
  next
    case False
    have "escalate_all rid t [0..<m] Q ! m = Q ! m" using Suc.IH[of m] Suc.prems False by simp
    then show ?thesis using Suc.IH[of k] Suc.IH[of t] Suc.prems False by (auto simp: escalated_nth)
  qed
qed simp

lemma concat_others:
  "t < length Q \<Longrightarrow> concat (map (\<lambda>c. if c = t then [] else Q ! c) [0..<length Q]) = concat (take t Q @ drop (Suc t) Q)"
proof -
  assume t: "t < length Q"
  have "map (\<lambda>c. if c = t then [] else Q ! c) [0..<length Q] = Q[t := []]"
    by (rule nth_equalityI) auto
  also have "\<dots> = take t Q @ [] # drop (Suc t) Q" using t by (simp add: upd_conv_take_nth_drop)
  finally show ?thesis by simp
qed

lemma escalate_all_gathered:
  "t < length Q \<Longrightarrow> escalate_all rid t [0..<length Q] Q = gathered rid t Q"
  by (intro nth_equalityI) (auto simp: gathered_def escalate_all_upto concat_others nth_list_update)

section \<open>Work\<close>

text \<open>The packets of a set of queues, their priorities aside.\<close>

definition work :: "queues \<Rightarrow> qpacket multiset" where
  "work Q = mset (map (\<lambda>p. p\<lparr>qp_qosValue := 0\<rparr>) (concat Q))"

lemma work_sum: "work Q = sum_list (map (\<lambda>q. mset (map (\<lambda>p. p\<lparr>qp_qosValue := 0\<rparr>) q)) Q)"
  by (induction Q) (simp_all add: work_def)

lemma work_escalated:
  assumes "c \<noteq> t" "c < length Q" "t < length Q"
  shows "work (escalated rid c t Q) = work Q"
  unfolding work_sum escalated_def map_update
proof (rule sum_list_two_updates)
  let ?f = "\<lambda>p. p\<lparr>qp_qosValue := 0\<rparr>"
  have "mset (map ?f (filter (\<lambda>p. qp_id p \<noteq> rid) q)) + mset (map ?f (filter (of_req rid) q)) = mset (map ?f q)" for q
    by (induction q) auto
  from this[of "Q ! c"] show "mset (map ?f (filter (\<lambda>p. qp_id p \<noteq> rid) (Q ! c))) +
      mset (map ?f (Q ! t @ map (\<lambda>p. p\<lparr>qp_qosValue := t\<rparr>) (filter (of_req rid) (Q ! c)))) =
    map (\<lambda>q. mset (map ?f q)) Q ! c + map (\<lambda>q. mset (map ?f q)) Q ! t"
    using assms by (simp add: comp_def)
qed (use assms in simp_all)

lemma load_work: "load sz any (concat Q) = sum_mset (image_mset (entries sz) (work Q))"
proof -
  have e: "entries sz (p\<lparr>qp_qosValue := 0\<rparr>) = entries sz p" for p by (simp add: entries_def)
  have "load sz any q = sum_mset (image_mset (entries sz) (mset (map (\<lambda>p. p\<lparr>qp_qosValue := 0\<rparr>) q)))" for q
    by (induction q) (simp_all add: load_simps e)
  then show ?thesis unfolding work_def .
qed

section \<open>The operations keep the books\<close>

text \<open>What escalation and registration leave alone.\<close>

definition qos_same :: "'p qos \<Rightarrow> 'p qos \<Rightarrow> bool" where
  "qos_same s s' \<longleftrightarrow> qs_policy s' = qs_policy s \<and> qs_toServe s' = qs_toServe s \<and>
     set (qs_requestors s) \<subseteq> set (qs_requestors s') \<and> qs_requestTimes s' = qs_requestTimes s \<and>
     qs_busState s' = qs_busState s \<and> qs_busStateNext s' = qs_busStateNext s"

lemma qos_same_refl [simp]: "qos_same s s" by (simp add: qos_same_def)
lemma qos_same_trans: "qos_same s s' \<Longrightarrow> qos_same s' s'' \<Longrightarrow> qos_same s s''" unfolding qos_same_def by auto

lemma escalated_state_same: "qos_same s (escalated_state sz rid c t R W s) \<and> qs_requestors (escalated_state sz rid c t R W s) = qs_requestors s"
  by (simp add: qos_same_def escalated_state_def moved_state_def)

lemma escalate_from_ok:
  assumes "qos_books cfg sz R W s" "hasRequestor s rid" "t < qc_numPriorities cfg" "\<forall>c\<in>set cs. c < qc_numPriorities cfg"
  shows "\<exists>s'. escalate_from sz rid t cs (R, W, s) = ok (escalate_all rid t cs R, escalate_all rid t cs W, s') \<and>
    qos_books cfg sz (escalate_all rid t cs R) (escalate_all rid t cs W) s' \<and> qos_same s s' \<and> qs_requestors s' = qs_requestors s \<and>
    work (escalate_all rid t cs R) = work R \<and> work (escalate_all rid t cs W) = work W"
  using assms
proof (induction cs arbitrary: R W s)
  case (Cons c cs)
  show ?case
  proof (cases "c = t")
    case True
    then show ?thesis using Cons.IH[OF Cons.prems(1-3)] Cons.prems(4) by simp
  next
    case False
    have c: "c < qc_numPriorities cfg" using Cons.prems(4) by simp
    define s1 where "s1 = escalated_state sz rid c t R W s"
    have B: "qos_books cfg sz (escalated rid c t R) (escalated rid c t W) s1"
      unfolding s1_def by (rule escalated_books[OF Cons.prems(1,2) False c Cons.prems(3)])
    have w: "work (escalated rid c t R) = work R" "work (escalated rid c t W) = work W"
      using work_escalated[OF False] c Cons.prems(3) qos_booksD(4,5)[OF Cons.prems(1)] by auto
    have "hasRequestor s1 rid" using Cons.prems(2) by (simp add: s1_def escalated_state_fields)
    from Cons.IH[OF B this Cons.prems(3)] Cons.prems(4) show ?thesis
      using False w escalate_prio_ok[OF Cons.prems(1,2) False c Cons.prems(3)] escalated_state_same[of s sz rid c t R W]
      by (auto simp: s1_def intro: qos_same_trans)
  qed
qed simp

lemma queues_ok_in_mono: "rs \<subseteq> rs' \<Longrightarrow> queues_ok_in dir rs n Q \<Longrightarrow> queues_ok_in dir rs' n Q"
  unfolding queues_ok_in_def queue_ok_def by blast

lemma no_load:
  assumes "queues_ok_in dir rs n Q" "rid \<notin> rs" "k < n"
  shows "load sz (of_req rid) (Q ! k) = 0"
proof -
  have "filter (of_req rid) (Q ! k) = []" using assms by (auto simp: queues_ok_in_def queue_ok_def filter_empty_conv)
  then show ?thesis by (simp add: load_def)
qed

lemma addRequestor_ok:
  assumes B: "qos_books cfg sz R W s" and r: "rid < qc_system_requestors cfg"
  shows "\<exists>s'. addRequestor cfg rid s = Inr s' \<and> qos_books cfg sz R W s' \<and> qos_same s s' \<and>
    set (qs_requestors s') = insert rid (set (qs_requestors s))"
proof (cases "hasRequestor s rid")
  case True
  then show ?thesis using B by (auto simp: addRequestor_def hasRequestor_def)
next
  case False
  note D = qos_booksD[OF B]
  have pp: "qs_packetPriorities s r = (if hasRequestor s r then req_counts sz r R W else [])" for r using D(11) .
  have z: "req_counts sz rid R W = replicate (qc_numPriorities cfg) 0"
    using no_load[OF D(2), of rid] no_load[OF D(3), of rid] False D(4,5)
    by (intro nth_equalityI) (simp_all add: req_counts_nth hasRequestor_def)
  show ?thesis
    using False r B pp z queues_ok_in_mono[OF _ D(2), of "insert rid (set (qs_requestors s))"]
      queues_ok_in_mono[OF _ D(3), of "insert rid (set (qs_requestors s))"]
    unfolding addRequestor_def qos_books_def qos_same_def by (auto simp: Let_def hasRequestor_def)
qed

lemma escalate_ok:
  assumes "qos_books cfg sz R W s" "t < qc_numPriorities cfg" "rid < qc_system_requestors cfg"
  shows "\<exists>s'. escalate cfg sz rid t (R, W, s) = ok (gathered rid t R, gathered rid t W, s') \<and>
    qos_books cfg sz (gathered rid t R) (gathered rid t W) s' \<and> qos_same s s' \<and>
    set (qs_requestors s') = insert rid (set (qs_requestors s)) \<and>
    work (gathered rid t R) = work R \<and> work (gathered rid t W) = work W"
proof -
  obtain s1 where s1: "addRequestor cfg rid s = Inr s1" "qos_books cfg sz R W s1" "qos_same s s1"
    "set (qs_requestors s1) = insert rid (set (qs_requestors s))"
    using addRequestor_ok[OF assms(1,3)] by blast
  note D = qos_booksD[OF s1(2)]
  have "hasRequestor s1 rid" using s1(4) by (simp add: hasRequestor_def)
  from escalate_from_ok[OF s1(2) this assms(2), of "[0..<qc_numPriorities cfg]"] show ?thesis
    using D(4,5) assms(2) s1 escalate_all_gathered[of t R rid] escalate_all_gathered[of t W rid]
    by (auto simp: escalate_def intro: qos_same_trans)
qed

text \<open>C36: Escalation returns and does what it says, whatever the queues hold: every packet of the requestor
  is moved behind the packets of its new priority, in the order of the old ones, all other packets stay
  where they are, nothing is lost, and the counts by direction, priority and requestor stay exact.\<close>

theorem escalation_gathers_requestor:
  assumes "qos_books cfg sz R W s" "t < qc_numPriorities cfg" "rid < qc_system_requestors cfg"
  shows "\<exists>s'. escalate cfg sz rid t (R, W, s) = ok (gathered rid t R, gathered rid t W, s') \<and>
    qos_books cfg sz (gathered rid t R) (gathered rid t W) s' \<and>
    work (gathered rid t R) = work R \<and> work (gathered rid t W) = work W"
  using escalate_ok[OF assms] by blast

definition books_example_config :: qos_config where
  "books_example_config = \<lparr>qc_numPriorities = 2, qc_priorityEscalation = True, qc_syncroScheduler = False, qc_idealTurnaround = True,
     qc_q_policy = Fifo_Queue, qc_system_requestors = 4, qc_ticks_per_second = 1000000000000\<rparr>"

definition books_example_packet :: "nat \<Rightarrow> qpacket" where
  "books_example_packet rid = \<lparr>qp_id = rid, qp_addr = 4096, qp_size = 64, qp_read = True, qp_write = False, qp_needsResponse = True,
     qp_cacheResponding = False, qp_cleanEvict = False, qp_qosValue = 0\<rparr>"

definition books_example :: "qos_policy qos" where
  "books_example = (qos_new books_example_config None)\<lparr>qs_requestors := [3, 1],
     qs_packetPriorities := (\<lambda>r. if r = 3 \<or> r = 1 then [2, 0] else []),
     qs_requestTimes := (\<lambda>r a. if (r = 3 \<or> r = 1) \<and> a = 4096 then [100, 100] else []),
     qs_readQueueSizes := [4, 0], qs_totalReadQueueSize := 4\<rparr>"

lemma books_example_ok: "qos_books books_example_config 32 [[books_example_packet 3, books_example_packet 1], []] [[], []] books_example"
  by (auto simp: qos_books_def books_example_def books_example_config_def books_example_packet_def qos_new_def Let_def queues_ok_in_def
      queue_ok_def in_dir_def less_Suc_eq numeral_2_eq_2 sizes_of_def load_simps entries_def hasRequestor_def req_counts_def)

theorem escalation_gathers_requestor_witness:
  "\<exists>s'. escalate books_example_config 32 3 1 ([[books_example_packet 3, books_example_packet 1], []], [[], []], books_example) =
    ok ([[books_example_packet 1], [(books_example_packet 3)\<lparr>qp_qosValue := 1\<rparr>]], [[], []], s')"
  using escalation_gathers_requestor[OF books_example_ok, of 1 3]
  by (simp add: books_example_config_def gathered_def books_example_packet_def) blast

section \<open>Requests and responses\<close>

definition enq :: "nat \<Rightarrow> qpacket \<Rightarrow> queues \<Rightarrow> queues" where "enq k p Q = Q[k := Q ! k @ [p]]"
definition deq :: "nat \<Rightarrow> queues \<Rightarrow> queues" where "deq k Q = Q[k := tl (Q ! k)]"

lemma length_enq [simp]: "length (enq k p Q) = length Q" "length (deq k Q) = length Q" by (simp_all add: enq_def deq_def)

lemma sum_list_update_add: "k < length v \<Longrightarrow> sum_list (v[k := v ! k + x]) = sum_list v + (x :: nat)"
  by (induction v arbitrary: k) (auto split: nat.splits)

lemma sum_list_update_mset: "k < length v \<Longrightarrow> sum_list (v[k := v ! k + x]) = sum_list v + (x :: 'a multiset)"
  by (induction v arbitrary: k) (auto split: nat.splits simp: ac_simps)

lemma map_load_enq:
  "k < length Q \<Longrightarrow> map (load sz P) (enq k p Q) = (map (load sz P) Q)[k := map (load sz P) Q ! k + (if P p then entries sz p else 0)]"
  by (intro nth_equalityI) (auto simp: enq_def nth_list_update load_simps)

lemma load_concat_enq: "k < length Q \<Longrightarrow> load sz P (concat (enq k p Q)) = load sz P (concat Q) + (if P p then entries sz p else 0)"
  unfolding load_concat using map_load_enq[of k Q sz P p] sum_list_update_add[of k "map (load sz P) Q"] by simp

lemma enq_deq: "k < length Q \<Longrightarrow> Q ! k = p # q \<Longrightarrow> Q = (deq k Q)[k := p # deq k Q ! k]"
  by (metis deq_def list.sel(3) list_update_id list_update_overwrite nth_list_update_eq)

lemma map_load_deq:
  "k < length Q \<Longrightarrow> Q ! k = p # q \<Longrightarrow>
   map (load sz P) (deq k Q) = (map (load sz P) Q)[k := map (load sz P) Q ! k - (if P p then entries sz p else 0)]"
  by (intro nth_equalityI) (auto simp: deq_def nth_list_update load_simps)

lemma load_concat_deq:
  assumes "k < length Q" "Q ! k = p # q"
  shows "load sz P (concat Q) = load sz P (concat (deq k Q)) + (if P p then entries sz p else 0)"
proof -
  have "map (load sz P) Q = (map (load sz P) (deq k Q))[k := map (load sz P) (deq k Q) ! k + (if P p then entries sz p else 0)]"
    using assms by (intro nth_equalityI) (auto simp: deq_def nth_list_update load_simps)
  then show ?thesis unfolding load_concat using sum_list_update_add[of k "map (load sz P) (deq k Q)"] assms(1) by simp
qed

lemma work_enq: "k < length Q \<Longrightarrow> work (enq k p Q) = work Q + {#p\<lparr>qp_qosValue := 0\<rparr>#}"
proof -
  assume k: "k < length Q"
  let ?g = "\<lambda>q. mset (map (\<lambda>p. p\<lparr>qp_qosValue := 0\<rparr>) q)"
  have "map ?g (enq k p Q) = (map ?g Q)[k := map ?g Q ! k + {#p\<lparr>qp_qosValue := 0\<rparr>#}]"
    using k by (intro nth_equalityI) (auto simp: enq_def nth_list_update)
  then show ?thesis unfolding work_sum using sum_list_update_mset[of k "map ?g Q" "{#p\<lparr>qp_qosValue := 0\<rparr>#}"] k by simp
qed

lemma work_deq: "k < length Q \<Longrightarrow> Q ! k = p # q \<Longrightarrow> work Q = work (deq k Q) + {#p\<lparr>qp_qosValue := 0\<rparr>#}"
proof -
  assume k: "k < length Q" "Q ! k = p # q"
  let ?g = "\<lambda>q. mset (map (\<lambda>p. p\<lparr>qp_qosValue := 0\<rparr>) q)"
  have "map ?g Q = (map ?g (deq k Q))[k := map ?g (deq k Q) ! k + {#p\<lparr>qp_qosValue := 0\<rparr>#}]"
    using k by (intro nth_equalityI) (auto simp: deq_def nth_list_update)
  then show ?thesis unfolding work_sum using sum_list_update_mset[of k "map ?g (deq k Q)" "{#p\<lparr>qp_qosValue := 0\<rparr>#}"] k by simp
qed

lemma enq_queues_ok:
  "queues_ok_in dir rs n Q \<Longrightarrow> k < n \<Longrightarrow> in_dir dir p \<Longrightarrow> 0 < qp_size p \<Longrightarrow> qp_needsResponse p \<Longrightarrow> qp_qosValue p = k \<Longrightarrow> qp_id p \<in> rs \<Longrightarrow>
   queues_ok_in dir rs n (enq k p Q)"
  by (auto simp: queues_ok_in_def queue_ok_def enq_def nth_list_update)

lemma in_set_tl: "x \<in> set (tl q) \<Longrightarrow> x \<in> set q" by (cases q) auto

lemma deq_queues_ok: "queues_ok_in dir rs n Q \<Longrightarrow> k < n \<Longrightarrow> queues_ok_in dir rs n (deq k Q)"
  unfolding queues_ok_in_def queue_ok_def deq_def by (auto simp: nth_list_update dest: in_set_tl)

text \<open>The queues with a packet more or less in one direction.\<close>

definition upd_dir :: "bus_state \<Rightarrow> (queues \<Rightarrow> queues) \<Rightarrow> queues \<times> queues \<Rightarrow> queues \<times> queues" where
  "upd_dir dir f x = (case dir of BUS_READ \<Rightarrow> (f (fst x), snd x) | BUS_WRITE \<Rightarrow> (fst x, f (snd x)))"

abbreviation the_dir :: "bus_state \<Rightarrow> queues \<times> queues \<Rightarrow> queues" where
  "the_dir dir x \<equiv> (case dir of BUS_READ \<Rightarrow> fst x | BUS_WRITE \<Rightarrow> snd x)"

lemma req_counts_enq:
  assumes "length R = length W" "k < length R"
  shows "req_counts sz r (enq k p R) W = (if r = qp_id p then (req_counts sz r R W)[k := req_counts sz r R W ! k + entries sz p] else req_counts sz r R W)"
    and "req_counts sz r R (enq k p W) = (if r = qp_id p then (req_counts sz r R W)[k := req_counts sz r R W ! k + entries sz p] else req_counts sz r R W)"
  using assms by (auto simp: enq_def load_simps req_counts_nth nth_list_update intro!: nth_equalityI)

lemma req_counts_deq:
  assumes "length R = length W" "k < length R"
  shows "R ! k = p # q \<Longrightarrow> req_counts sz r (deq k R) W = (if r = qp_id p then (req_counts sz r R W)[k := req_counts sz r R W ! k - entries sz p] else req_counts sz r R W)"
    and "W ! k = p # q \<Longrightarrow> req_counts sz r R (deq k W) = (if r = qp_id p then (req_counts sz r R W)[k := req_counts sz r R W ! k - entries sz p] else req_counts sz r R W)"
  using assms by (auto simp: deq_def load_simps req_counts_nth nth_list_update intro!: nth_equalityI)

lemma logRequest_ok:
  assumes B: "qos_books cfg sz R W s"
    and p: "in_dir dir p" "0 < qp_size p" "qp_needsResponse p" "qp_qosValue p = k" "k < qc_numPriorities cfg" "qp_id p < qc_system_requestors cfg"
  shows "\<exists>s'. qos_logRequest cfg now dir (qp_id p) k (qp_addr p) (entries sz p) s = Inr s' \<and>
    (case upd_dir dir (enq k p) (R, W) of (R', W') \<Rightarrow> qos_books cfg sz R' W' s') \<and>
    qs_policy s' = qs_policy s \<and> qs_busState s' = qs_busState s \<and> qs_toServe s' = qs_toServe s"
proof -
  obtain s1 where s1: "addRequestor cfg (qp_id p) s = Inr s1" "qos_books cfg sz R W s1" "qos_same s s1"
    "set (qs_requestors s1) = insert (qp_id p) (set (qs_requestors s))"
    using addRequestor_ok[OF B p(6)] by blast
  note D = qos_booksD[OF s1(2)]
  have pp: "qs_packetPriorities s1 r = (if hasRequestor s1 r then req_counts sz r R W else [])" for r using D(11) .
  have h: "hasRequestor s1 (qp_id p)" using s1(4) by (simp add: hasRequestor_def)
  have len: "length R = length W" "k < length R" "k < length W" using D(4,5) p(5) by simp_all
  show ?thesis
  proof (cases dir)
    case BUS_READ
    then show ?thesis
      using s1 p len h pp[of "qp_id p"] D(7) enq_queues_ok[OF D(2) p(5) _ p(2-4)]
      by (auto simp: qos_logRequest_def count_up_def add_at_def upd_dir_def qos_books_def qos_same_def Let_def sizes_of_def
          map_load_enq load_concat_enq req_counts_enq hasRequestor_def)
  next
    case BUS_WRITE
    then show ?thesis
      using s1 p len h pp[of "qp_id p"] D(8) enq_queues_ok[OF D(3) p(5) _ p(2-4)]
      by (auto simp: qos_logRequest_def count_up_def add_at_def upd_dir_def qos_books_def qos_same_def Let_def sizes_of_def
          map_load_enq load_concat_enq req_counts_enq hasRequestor_def)
  qed
qed

lemma log_latency_eq:
  "log_latency prio l s = s\<lparr>qs_s_priorityMinLatency := qs_s_priorityMinLatency (log_latency prio l s),
     qs_s_priorityMaxLatency := qs_s_priorityMaxLatency (log_latency prio l s)\<rparr>"
  by (simp add: log_latency_def Let_def)

lemma pop_times_ok:
  "m \<le> length (qs_requestTimes s rid a) \<Longrightarrow> \<exists>mx mn. pop_times cfg now rid prio a w m s =
    Inr (s\<lparr>qs_requestTimes := (qs_requestTimes s)(rid := (qs_requestTimes s rid)(a := drop m (qs_requestTimes s rid a))),
      qs_s_priorityMinLatency := mn, qs_s_priorityMaxLatency := mx\<rparr>)"
proof (induction m arbitrary: s)
  case 0
  show ?case by (rule exI[of _ "qs_s_priorityMaxLatency s"], rule exI[of _ "qs_s_priorityMinLatency s"]) simp
next
  case (Suc m)
  obtain t ts where t: "qs_requestTimes s rid a = t # ts" using Suc.prems by (cases "qs_requestTimes s rid a") auto
  define s1 where "s1 = log_latency prio ((real now + w - real t) / qc_ticks_per_second cfg)
    (s\<lparr>qs_requestTimes := (qs_requestTimes s)(rid := (qs_requestTimes s rid)(a := ts))\<rparr>)"
  let ?u = "s\<lparr>qs_requestTimes := (qs_requestTimes s)(rid := (qs_requestTimes s rid)(a := ts))\<rparr>"
  have "\<exists>mn0 mx0. s1 = ?u\<lparr>qs_s_priorityMinLatency := mn0, qs_s_priorityMaxLatency := mx0\<rparr>"
    unfolding s1_def using log_latency_eq by blast
  then obtain mn0 mx0 where l: "s1 = s\<lparr>qs_requestTimes := (qs_requestTimes s)(rid := (qs_requestTimes s rid)(a := ts)),
      qs_s_priorityMinLatency := mn0, qs_s_priorityMaxLatency := mx0\<rparr>" by auto
  have "m \<le> length (qs_requestTimes s1 rid a)" using Suc.prems t by (simp add: l)
  note ih = Suc.IH[OF this]
  have rt: "qs_requestTimes s1 = (qs_requestTimes s)(rid := (qs_requestTimes s rid)(a := ts))" by (simp add: l)
  have p: "pop_times cfg now rid prio a w (Suc m) s = pop_times cfg now rid prio a w m s1" by (simp add: t s1_def)
  have upd: "(qs_requestTimes s1)(rid := (qs_requestTimes s1 rid)(a := drop m (qs_requestTimes s1 rid a))) =
    (qs_requestTimes s)(rid := (qs_requestTimes s rid)(a := drop (Suc m) (qs_requestTimes s rid a)))"
    by (simp add: rt t)
  have "s1\<lparr>qs_requestTimes := f, qs_s_priorityMinLatency := mn, qs_s_priorityMaxLatency := mx\<rparr> =
    s\<lparr>qs_requestTimes := f, qs_s_priorityMinLatency := mn, qs_s_priorityMaxLatency := mx\<rparr>" for f mn mx
    by (simp add: l)
  then show ?case using ih unfolding p upd by (simp only:)
qed

lemma logResponse_ok:
  assumes B: "qos_books cfg sz R W s" and k: "k < qc_numPriorities cfg" and q: "the_dir dir (R, W) ! k = p # q"
  shows "\<exists>s'. qos_logResponse cfg now dir (qp_id p) k (qp_addr p) (entries sz p) w s = Inr s' \<and>
    (case upd_dir dir (deq k) (R, W) of (R', W') \<Rightarrow> qos_books cfg sz R' W' s') \<and>
    qs_policy s' = qs_policy s \<and> qs_busState s' = qs_busState s \<and> qs_toServe s' = qs_toServe s"
proof -
  note D = qos_booksD[OF B]
  have pp: "qs_packetPriorities s r = (if hasRequestor s r then req_counts sz r R W else [])" for r using D(11) .
  have tm: "length (qs_requestTimes s r a) = load sz (at_addr r a) (concat R) + load sz (at_addr r a) (concat W)" for r a using D(12) .
  have len: "length R = length W" "k < length R" "k < length W" using D(4,5) k by simp_all
  have h: "hasRequestor s (qp_id p)" "0 < qp_size p"
    using D(2,3) q k by (cases dir; fastforce simp: queues_ok_in_def queue_ok_def hasRequestor_def)+
  have e: "0 < entries sz p" using D(1) h(2) by (rule entries_pos)
  have c: "entries sz p \<le> req_counts sz (qp_id p) R W ! k" "entries sz p \<le> dir_sizes dir s ! k"
    using q len D(7,8) by (cases dir; simp add: req_counts_nth load_simps dir_sizes_def sizes_of_def)+
  have tot: "entries sz p \<le> load sz any (concat (the_dir dir (R, W)))" "entries sz p \<le> length (qs_requestTimes s (qp_id p) (qp_addr p))"
    using load_concat_deq[of k "the_dir dir (R, W)" p q sz any] load_concat_deq[of k "the_dir dir (R, W)" p q sz "at_addr (qp_id p) (qp_addr p)"]
      q len tm by (cases dir; simp)+
  define s1 where "s1 = (case dir of BUS_READ \<Rightarrow> s\<lparr>qs_readQueueSizes := (sizes_of sz R)[k := sizes_of sz R ! k - entries sz p],
        qs_totalReadQueueSize := load sz any (concat R) - entries sz p\<rparr>
      | BUS_WRITE \<Rightarrow> s\<lparr>qs_writeQueueSizes := (sizes_of sz W)[k := sizes_of sz W ! k - entries sz p],
        qs_totalWriteQueueSize := load sz any (concat W) - entries sz p\<rparr>)"
  have cd: "count_down dir k (entries sz p) s = Inr s1"
    using len D(7-10) c(2) tot(1) by (cases dir) (simp_all add: count_down_def sub_at_def s1_def sub64_le sizes_of_def dir_sizes_def)
  define s2 where "s2 = s1\<lparr>qs_packetPriorities := (qs_packetPriorities s1)(qp_id p := (req_counts sz (qp_id p) R W)[k := req_counts sz (qp_id p) R W ! k - entries sz p])\<rparr>"
  have s1s: "qs_packetPriorities s1 = qs_packetPriorities s" "qs_requestTimes s1 = qs_requestTimes s"
    by (cases dir; simp add: s1_def)+
  have "entries sz p \<le> length (qs_requestTimes s2 (qp_id p) (qp_addr p))" using tot(2) by (simp add: s2_def s1s)
  from pop_times_ok[OF this, of cfg now k w] obtain mx mn where pt: "pop_times cfg now (qp_id p) k (qp_addr p) w (entries sz p) s2 =
    Inr (s2\<lparr>qs_requestTimes := (qs_requestTimes s2)(qp_id p := (qs_requestTimes s2 (qp_id p))(qp_addr p := drop (entries sz p) (qs_requestTimes s2 (qp_id p) (qp_addr p)))),
      qs_s_priorityMinLatency := mn, qs_s_priorityMaxLatency := mx\<rparr>)" (is "_ = Inr ?s3") by blast
  have r: "qos_logResponse cfg now dir (qp_id p) k (qp_addr p) (entries sz p) w s = Inr ?s3"
    using h(1) cd c(1) e len pp[of "qp_id p"] pt by (simp add: qos_logResponse_def s1s sub_at_def sub64_le s2_def)
  show ?thesis
  proof (cases dir)
    case BUS_READ
    have rq: "R ! k = p # q" using q BUS_READ by simp
    show ?thesis
      using BUS_READ r B len h(1) deq_queues_ok[OF D(2) k] load_concat_deq[OF len(2) rq]
      by (auto simp: upd_dir_def qos_books_def s2_def s1_def sizes_of_def map_load_deq[OF len(2) rq] req_counts_deq(1)[OF len(1,2) rq] hasRequestor_def)
  next
    case BUS_WRITE
    have wq: "W ! k = p # q" using q BUS_WRITE by simp
    show ?thesis
      using BUS_WRITE r B len h(1) deq_queues_ok[OF D(3) k] load_concat_deq[OF len(3) wq]
      by (auto simp: upd_dir_def qos_books_def s2_def s1_def sizes_of_def map_load_deq[OF len(3) wq] req_counts_deq(2)[OF len(1,2) wq] hasRequestor_def)
  qed
qed

section \<open>Arriving packets\<close>

context priority_policy
begin

definition policy_wf :: "'p qos \<Rightarrow> bool" where
  "policy_wf s \<longleftrightarrow> (case qs_policy s of None \<Rightarrow> True | Some p \<Rightarrow> wf p)"

lemma policy_wf_same: "qos_same s s' \<Longrightarrow> policy_wf s' = policy_wf s"
  by (simp add: policy_wf_def qos_same_def)

lemma policy_self: "\<exists>p. s = s\<lparr>qs_policy := p\<rparr>" by (rule exI[of _ "qs_policy s"]) simp

lemma schedule_id_ok:
  assumes "policy_wf s" "schedule_id sched r data s = (prio, s')" "0 < n"
  shows "prio < n \<and> policy_wf s' \<and> (\<exists>p. s' = s\<lparr>qs_policy := p\<rparr>)"
proof (cases "qs_policy s")
  case None
  then have "prio = 0" "s' = s" using assms(2) by (simp_all add: schedule_id_def)
  then show ?thesis using assms(1,3) policy_self by blast
next
  case (Some p)
  then have "wf p" using assms(1) by (simp add: policy_wf_def)
  then show ?thesis using Some assms(2) priority_less[of p r data] keeps_wf[of p r data]
    by (auto simp: schedule_id_def policy_wf_def split: prod.splits)
qed

lemma books_policy [simp]: "qos_books cfg sz R W (s\<lparr>qs_policy := p\<rparr>) = qos_books cfg sz R W s"
  by (simp add: qos_books_def hasRequestor_def)

lemma syncro_loop_ok:
  assumes "qos_books cfg sz R W s" "policy_wf s" "qc_numPriorities cfg = n" "0 < n" "\<forall>r\<in>set rs. r < qc_system_requestors cfg"
  shows "\<exists>R' W' s'. syncro_loop cfg sched sz me rs (R, W, s) = ok (R', W', s') \<and> qos_books cfg sz R' W' s' \<and> policy_wf s' \<and>
    set (qs_requestors s) \<subseteq> set (qs_requestors s') \<and> work R' = work R \<and> work W' = work W"
  using assms
proof (induction rs arbitrary: R W s)
  case (Cons r rs)
  show ?case
  proof (cases "r = me")
    case True
    then show ?thesis using Cons by simp
  next
    case False
    obtain prio s1 where s1: "schedule_id sched r 0 s = (prio, s1)" by (cases "schedule_id sched r 0 s")
    from schedule_id_ok[OF Cons.prems(2) this Cons.prems(4)]
    obtain p where p: "prio < n" "policy_wf s1" "s1 = s\<lparr>qs_policy := p\<rparr>" by blast
    have B: "qos_books cfg sz R W s1" "qs_requestors s1 = qs_requestors s" using Cons.prems(1) p(3) by simp_all
    have "\<exists>R1 W1 s2. (if qc_priorityEscalation cfg then escalate cfg sz r prio (R, W, s1) else ok (R, W, s1)) = ok (R1, W1, s2) \<and>
      qos_books cfg sz R1 W1 s2 \<and> policy_wf s2 \<and> set (qs_requestors s) \<subseteq> set (qs_requestors s2) \<and> work R1 = work R \<and> work W1 = work W"
    proof (cases "qc_priorityEscalation cfg")
      case True
      obtain s2 where e: "escalate cfg sz r prio (R, W, s1) = ok (gathered r prio R, gathered r prio W, s2)"
        "qos_books cfg sz (gathered r prio R) (gathered r prio W) s2" "qos_same s1 s2"
        "set (qs_requestors s2) = insert r (set (qs_requestors s1))" "work (gathered r prio R) = work R" "work (gathered r prio W) = work W"
        using escalate_ok[OF B(1), of prio r] p(1) Cons.prems(3,5) by auto
      have "policy_wf s2" using policy_wf_same[OF e(3)] p(2) by simp
      moreover have "set (qs_requestors s) \<subseteq> set (qs_requestors s2)" using e(4) B(2) by auto
      ultimately show ?thesis using True e by auto
    qed (use B p in auto)
    then obtain R1 W1 s2 where x: "(if qc_priorityEscalation cfg then escalate cfg sz r prio (R, W, s1) else ok (R, W, s1)) = ok (R1, W1, s2)"
      "qos_books cfg sz R1 W1 s2" "policy_wf s2" "set (qs_requestors s) \<subseteq> set (qs_requestors s2)" "work R1 = work R" "work W1 = work W"
      by blast
    obtain R2 W2 s3 where y: "syncro_loop cfg sched sz me rs (R1, W1, s2) = ok (R2, W2, s3)" "qos_books cfg sz R2 W2 s3" "policy_wf s3"
      "set (qs_requestors s2) \<subseteq> set (qs_requestors s3)" "work R2 = work R1" "work W2 = work W1"
      using Cons.IH[OF x(2,3) Cons.prems(3,4)] Cons.prems(5) by auto
    have "syncro_loop cfg sched sz me (r # rs) (R, W, s) = ok (R2, W2, s3)" using False s1 x(1) y(1) by (simp split: if_splits)
    then show ?thesis using x y by auto
  qed
qed auto

lemma schedule_packet_ok:
  assumes "policy_wf s" "schedule_packet sched p s = (prio, s')" "qs_policy s = None \<longrightarrow> qp_qosValue p < n"
  shows "prio < n \<and> policy_wf s' \<and> (\<exists>p. s' = s\<lparr>qs_policy := p\<rparr>)"
proof (cases "qs_policy s = None")
  case True
  then have "prio = qp_qosValue p" "s' = s" using assms(2) by (simp_all add: schedule_packet_def)
  then show ?thesis using assms(1,3) True policy_self by blast
next
  case False
  then obtain q where q: "qs_policy s = Some q" "wf q" using assms(1) by (auto simp: policy_wf_def)
  then have "0 < n" using priority_less[of q 0 0] by simp
  moreover have "schedule_id sched (qp_id p) (qp_size p) s = (prio, s')" using q(1) assms(2) by (simp add: schedule_packet_def)
  ultimately show ?thesis using schedule_id_ok[OF assms(1)] by blast
qed

lemma qosSchedule_ok:
  assumes B: "qos_books cfg sz R W s" "policy_wf s" and n: "qc_numPriorities cfg = n"
    and p: "qs_policy s = None \<longrightarrow> qp_qosValue p < n" "qp_id p < qc_system_requestors cfg"
    and ord: "\<And>rs. set (ord rs) = set rs"
  shows "\<exists>prio R' W' s'. qosSchedule cfg sched ord sz now p (R, W, s) = ok (prio, R', W', s') \<and> prio < n \<and>
    qos_books cfg sz R' W' s' \<and> policy_wf s' \<and> work R' = work R \<and> work W' = work W"
proof -
  obtain prio s1 where s1: "schedule_packet sched p s = (prio, s1)" by (cases "schedule_packet sched p s")
  from schedule_packet_ok[OF B(2) this p(1)] obtain q where q: "prio < n" "policy_wf s1" "s1 = s\<lparr>qs_policy := q\<rparr>" by blast
  have B1: "qos_books cfg sz R W s1" using B(1) q(3) by simp
  have known: "\<forall>r\<in>set (ord (qs_requestors s1)). r < qc_system_requestors cfg" using B1 ord by (simp add: qos_books_def)
  obtain R2 W2 s2 where x: "(if qc_syncroScheduler cfg then syncro_loop cfg sched sz (qp_id p) (ord (qs_requestors s1)) (R, W, s1) else ok (R, W, s1)) = ok (R2, W2, s2)"
    "qos_books cfg sz R2 W2 s2" "policy_wf s2" "work R2 = work R" "work W2 = work W"
  proof (cases "qc_syncroScheduler cfg")
    case True
    have "0 < n" using q(1) by simp
    from syncro_loop_ok[OF B1 q(2) n this known, of "qp_id p"] show ?thesis using that True by auto
  qed (use that B1 q(2) in auto)
  have "\<exists>R3 W3 s3. (if qc_priorityEscalation cfg then escalate cfg sz (qp_id p) prio (R2, W2, s2) else ok (R2, W2, s2)) = ok (R3, W3, s3) \<and>
    qos_books cfg sz R3 W3 s3 \<and> policy_wf s3 \<and> work R3 = work R2 \<and> work W3 = work W2"
  proof (cases "qc_priorityEscalation cfg")
    case True
    obtain s3 where e: "escalate cfg sz (qp_id p) prio (R2, W2, s2) = ok (gathered (qp_id p) prio R2, gathered (qp_id p) prio W2, s3)"
      "qos_books cfg sz (gathered (qp_id p) prio R2) (gathered (qp_id p) prio W2) s3" "qos_same s2 s3"
      "work (gathered (qp_id p) prio R2) = work R2" "work (gathered (qp_id p) prio W2) = work W2"
      using escalate_ok[OF x(2), of prio "qp_id p"] q(1) n p(2) by auto
    then show ?thesis using True policy_wf_same[OF e(3)] x(3) by auto
  qed (use x in auto)
  then obtain R3 W3 s3 where y: "(if qc_priorityEscalation cfg then escalate cfg sz (qp_id p) prio (R2, W2, s2) else ok (R2, W2, s2)) = ok (R3, W3, s3)"
    "qos_books cfg sz R3 W3 s3" "policy_wf s3" "work R3 = work R2" "work W3 = work W2" by blast
  have l: "length (qs_serviceTick s3) = n" using qos_booksD(6)[OF y(2)] n by simp
  have "qosSchedule cfg sched ord sz now p (R, W, s) = ok (prio, R3, W3, s3\<lparr>qs_serviceTick := (qs_serviceTick s3)[prio := now]\<rparr>)"
    using s1 q(1) n x(1) y(1) l by (simp add: qosSchedule_def)
  moreover have "qos_books cfg sz R3 W3 (s3\<lparr>qs_serviceTick := (qs_serviceTick s3)[prio := now]\<rparr>)"
    using y(2) by (simp add: qos_books_def hasRequestor_def)
  moreover have "policy_wf (s3\<lparr>qs_serviceTick := (qs_serviceTick s3)[prio := now]\<rparr>)" using y(3) by (simp add: policy_wf_def)
  ultimately show ?thesis using q(1) x y by auto
qed

end

end
