(* ===== verification/Mem_Sink.thy ===== *)
theory Mem_Sink
  imports Qos_Books Addr_Range
begin

text \<open>
  The memory sink controller (\<open>mem/qos/mem_sink.{hh,cc}\<close>): requests enter the queue of their priority and
  direction, and one event after another takes the packet the policies choose and answers it.  Of the memory
  behind it the range check of an access is modelled, its contents are not; nor are the ports: a response is an entry of \<open>sk_responses\<close> with its tick, and
  \<open>sendRetryReq\<close> is counted in \<open>sk_retries\<close>.  A request the peer sends from within \<open>sendRetryReq\<close> finds
  the state of the end of the event, except that the next event is not scheduled yet; the request then
  schedules it at the same tick the event would.
\<close>

section \<open>State and operations\<close>

record sink_config =
  sc_qos :: qos_config
  sc_requestLatency :: tick
  sc_responseLatency :: tick
  sc_memoryPacketSize :: nat
  sc_readBufferSize :: nat
  sc_writeBufferSize :: nat
  sc_range :: addr_range

record 'p sink =
  sk_qos :: "'p qos"
  sk_readQueue :: queues
  sk_writeQueue :: queues
  sk_retryRdReq :: bool
  sk_retryWrReq :: bool
  sk_nextRequest :: tick
  sk_nextReqEvent :: "tick option"
  sk_s_numReadRetries :: nat
  sk_s_numWriteRetries :: nat
  sk_responses :: "(tick \<times> qpacket) list"
  sk_retries :: nat

definition MemSinkCtrl_new :: "sink_config \<Rightarrow> 'p option \<Rightarrow> 'p sink" where
  "MemSinkCtrl_new cfg p =
     (let z = replicate (qc_numPriorities (sc_qos cfg)) [] in
      \<lparr>sk_qos = qos_new (sc_qos cfg) p, sk_readQueue = z, sk_writeQueue = z, sk_retryRdReq = False, sk_retryWrReq = False,
       sk_nextRequest = 0, sk_nextReqEvent = None, sk_s_numReadRetries = 0, sk_s_numWriteRetries = 0,
       sk_responses = [], sk_retries = 0\<rparr>)"

definition sink_readQueueFull :: "sink_config \<Rightarrow> nat \<Rightarrow> 'p sink \<Rightarrow> bool" where
  "sink_readQueueFull cfg packets s \<longleftrightarrow> sc_readBufferSize cfg < qs_totalReadQueueSize (sk_qos s) + packets"

definition sink_writeQueueFull :: "sink_config \<Rightarrow> nat \<Rightarrow> 'p sink \<Rightarrow> bool" where
  "sink_writeQueueFull cfg packets s \<longleftrightarrow> sc_writeBufferSize cfg < qs_totalWriteQueueSize (sk_qos s) + packets"

text \<open>\<open>access\<close> of the interface: a packet another cache answers or that carries no data to keep is left alone.\<close>

definition sink_access :: "sink_config \<Rightarrow> qpacket \<Rightarrow> unit result" where
  "sink_access cfg p =
     (if qp_cacheResponding p \<or> qp_cleanEvict p then Inr () else within_range (sc_range cfg) (qp_addr p) (qp_size p))"

definition sink_recvAtomic :: "sink_config \<Rightarrow> qpacket \<Rightarrow> tick result" where
  "sink_recvAtomic cfg pkt = (if qp_cacheResponding pkt then Inl PanicFail
     else rbind (sink_access cfg pkt) (\<lambda>_. Inr (sc_responseLatency cfg)))"

lemma sink_access_priority [simp]: "sink_access cfg (p\<lparr>qp_qosValue := k\<rparr>) = sink_access cfg p"
  by (simp add: sink_access_def)

definition packet_dir :: "qpacket \<Rightarrow> bus_state" where
  "packet_dir p = (if qp_read p then BUS_READ else BUS_WRITE)"

text \<open>The part of \<open>recvTimingReq\<close> between the assignment of the priority and the log.\<close>

definition sink_accept :: "sink_config \<Rightarrow> nat \<Rightarrow> qpacket \<Rightarrow> nat \<Rightarrow> 'p sink \<Rightarrow> ('p sink \<times> bool) result" where
  "sink_accept cfg prio p required s =
     (let q = sk_qos s;
          q' = q\<lparr>qs_toServe := enqueuePacket (qc_q_policy (sc_qos cfg)) (hasRequestor q) (qp_id p) (qs_toServe q)\<rparr> in
      if qp_read p then
        if sink_readQueueFull cfg required s
        then Inr (s\<lparr>sk_retryRdReq := True, sk_s_numReadRetries := sk_s_numReadRetries s + 1\<rparr>, False)
        else if \<not> prio < length (sk_readQueue s) then Inl OutOfBounds
        else Inr (s\<lparr>sk_readQueue := (sk_readQueue s)[prio := sk_readQueue s ! prio @ [p]], sk_qos := q'\<rparr>, True)
      else
        if sink_writeQueueFull cfg required s
        then Inr (s\<lparr>sk_retryWrReq := True, sk_s_numWriteRetries := sk_s_numWriteRetries s + 1\<rparr>, False)
        else if \<not> prio < length (sk_writeQueue s) then Inl OutOfBounds
        else Inr (s\<lparr>sk_writeQueue := (sk_writeQueue s)[prio := sk_writeQueue s ! prio @ [p]], sk_qos := q'\<rparr>, True))"

definition sink_admit :: "sink_config \<Rightarrow> tick \<Rightarrow> nat \<Rightarrow> qpacket \<Rightarrow> nat \<Rightarrow> 'p sink \<Rightarrow> ('p sink \<times> bool) result" where
  "sink_admit cfg now prio p required s =
     rbind (sink_accept cfg prio p required s) (\<lambda>(s1, accepted).
       if accepted
       then rbind (qos_logRequest (sc_qos cfg) now (packet_dir p) (qp_id p) (qp_qosValue p) (qp_addr p) required (sk_qos s1))
              (\<lambda>q. Inr (s1\<lparr>sk_qos := q\<rparr>, True))
       else Inr (s1, False))"

definition sink_recvTimingReq ::
  "sink_config \<Rightarrow> ('p \<Rightarrow> nat \<Rightarrow> nat \<Rightarrow> nat \<times> 'p) \<Rightarrow> (nat list \<Rightarrow> nat list) \<Rightarrow> tick \<Rightarrow> qpacket \<Rightarrow> 'p sink \<Rightarrow> ('p sink \<times> bool) run" where
  "sink_recvTimingReq cfg sched ord now pkt s =
     (if \<not> (qp_read pkt \<or> qp_write pkt) then failed PanicFail
      else if qp_cacheResponding pkt then failed PanicFail
      else obind (Some (divCeil (qp_size pkt) (sc_memoryPacketSize cfg))) (\<lambda>required.
        if required = 0 then failed AssertFail
        else obind (qosSchedule (sc_qos cfg) sched ord (sc_memoryPacketSize cfg) now pkt
                     (sk_readQueue s, sk_writeQueue s, sk_qos s)) (\<lambda>(prio, R, W, q).
          let p = pkt\<lparr>qp_qosValue := prio\<rparr> in
          Some (rbind (sink_admit cfg now prio p required (s\<lparr>sk_readQueue := R, sk_writeQueue := W, sk_qos := q\<rparr>)) (\<lambda>(s2, accepted).
            rbind (if sk_nextReqEvent s2 = None
                   then rbind (schedule now (sk_nextReqEvent s2) (max now (sk_nextRequest s2))) (\<lambda>ev. Inr (s2\<lparr>sk_nextReqEvent := ev\<rparr>))
                   else Inr s2) (\<lambda>s3. Inr (s3, accepted)))))))"

text \<open>The queues from the highest priority down, \<open>k\<close> of them left.\<close>

fun top_queue :: "queues \<Rightarrow> nat \<Rightarrow> nat option" where
  "top_queue Q 0 = None"
| "top_queue Q (Suc k) = (if Q ! k \<noteq> [] then Some k else top_queue Q k)"

text \<open>The bus state of the event, and the packet it takes.\<close>

definition sink_turn :: "sink_config \<Rightarrow> 'p qos \<Rightarrow> 'p qos" where
  "sink_turn cfg q = setCurrentBusState (qos_recordTurnaroundStats (q\<lparr>qs_busStateNext := qos_selectNextBusState (sc_qos cfg) q\<rparr>))"

definition sink_take :: "sink_config \<Rightarrow> 'p sink \<Rightarrow> (qpacket \<times> 'p sink) result" where
  "sink_take cfg s =
     (let q = sk_qos s; Q = (if qs_busState q = BUS_READ then sk_readQueue s else sk_writeQueue s) in
      case top_queue Q (length Q) of None \<Rightarrow> Inl AssertFail
      | Some k \<Rightarrow> rbind (dequeue (qc_q_policy (sc_qos cfg)) (hasRequestor q) (qs_toServe q) (Q ! k)) (\<lambda>(p, rest, ts).
          let s1 = s\<lparr>sk_qos := q\<lparr>qs_toServe := ts\<rparr>\<rparr> in
          Inr (p, if qs_busState q = BUS_READ then s1\<lparr>sk_readQueue := Q[k := rest]\<rparr> else s1\<lparr>sk_writeQueue := Q[k := rest]\<rparr>)))"

definition sink_retry :: "'p sink \<Rightarrow> 'p sink" where
  "sink_retry s =
     (if qs_busState (sk_qos s) = BUS_READ \<and> sk_retryRdReq s then s\<lparr>sk_retryRdReq := False, sk_retries := sk_retries s + 1\<rparr>
      else if qs_busState (sk_qos s) = BUS_WRITE \<and> sk_retryWrReq s then s\<lparr>sk_retryWrReq := False, sk_retries := sk_retries s + 1\<rparr>
      else s)"

definition sink_processNextReqEvent :: "sink_config \<Rightarrow> tick \<Rightarrow> 'p sink \<Rightarrow> 'p sink result" where
  "sink_processNextReqEvent cfg now s0 =
     (let s = s0\<lparr>sk_nextReqEvent := None, sk_qos := sink_turn cfg (sk_qos s0)\<rparr> in
      rbind (sink_take cfg s) (\<lambda>(p, s1).
      rbind (divCeil (qp_size p) (sc_memoryPacketSize cfg)) (\<lambda>removed.
      if \<not> qp_needsResponse p then Inl PanicFail
      else rbind (sink_access cfg p) (\<lambda>_.
           rbind (qos_logResponse (sc_qos cfg) now (packet_dir p) (qp_id p) (qp_qosValue p) (qp_addr p) removed
                   (real (sc_responseLatency cfg)) (sk_qos s1)) (\<lambda>q.
        let s2 = sink_retry (s1\<lparr>sk_qos := q, sk_nextRequest := now + sc_requestLatency cfg,
              sk_responses := sk_responses s1 @ [(now + sc_responseLatency cfg, p)]\<rparr>) in
        if (0 < qs_totalReadQueueSize (sk_qos s2) \<or> 0 < qs_totalWriteQueueSize (sk_qos s2)) \<and> sk_nextReqEvent s2 = None
        then rbind (schedule now (sk_nextReqEvent s2) (now + sc_requestLatency cfg)) (\<lambda>ev. Inr (s2\<lparr>sk_nextReqEvent := ev\<rparr>))
        else Inr s2)))))"

definition sink_drain :: "'p sink \<Rightarrow> drain_state" where
  "sink_drain s = (if 0 < qs_totalReadQueueSize (sk_qos s) \<or> 0 < qs_totalWriteQueueSize (sk_qos s) then Draining else Drained)"

section \<open>Events\<close>

datatype sink_event = Sink_Request qpacket | Sink_Next

fun sink_exec ::
  "sink_config \<Rightarrow> ('p \<Rightarrow> nat \<Rightarrow> nat \<Rightarrow> nat \<times> 'p) \<Rightarrow> (nat list \<Rightarrow> nat list) \<Rightarrow> 'p sink \<Rightarrow> tick \<Rightarrow> sink_event \<Rightarrow> 'p sink run" where
  "sink_exec cfg sched ord s now (Sink_Request p) = obind (sink_recvTimingReq cfg sched ord now p s) (\<lambda>(s', accepted). ok s')"
| "sink_exec cfg sched ord s now Sink_Next = Some (sink_processNextReqEvent cfg now s)"

text \<open>A request the controller can serve: a read or write that needs a response, from a requestor the system
  knows, inside the memory's range, no larger than its buffer, with a valid priority of its own where no policy assigns one.  The
  next-request event runs when it is scheduled.\<close>

fun sink_legal :: "sink_config \<Rightarrow> 'p sink \<Rightarrow> tick \<Rightarrow> sink_event \<Rightarrow> bool" where
  "sink_legal cfg s now (Sink_Request p) =
     ((qp_read p \<or> qp_write p) \<and> \<not> qp_cacheResponding p \<and> qp_needsResponse p \<and> 0 < qp_size p \<and> sink_access cfg p = Inr () \<and>
      qp_id p < qc_system_requestors (sc_qos cfg) \<and>
      (qs_policy (sk_qos s) = None \<longrightarrow> qp_qosValue p < qc_numPriorities (sc_qos cfg)) \<and>
      entries (sc_memoryPacketSize cfg) p \<le> (if qp_read p then sc_readBufferSize cfg else sc_writeBufferSize cfg))"
| "sink_legal cfg s now Sink_Next = (sk_nextReqEvent s = Some now)"

inductive sink_reachable ::
  "sink_config \<Rightarrow> ('p \<Rightarrow> nat \<Rightarrow> nat \<Rightarrow> nat \<times> 'p) \<Rightarrow> (nat list \<Rightarrow> nat list) \<Rightarrow> 'p sink \<Rightarrow> 'p sink \<Rightarrow> bool"
  for cfg sched ord s0 where
  start: "sink_reachable cfg sched ord s0 s0"
| step: "sink_reachable cfg sched ord s0 s \<Longrightarrow> sink_legal cfg s now e \<Longrightarrow> sink_exec cfg sched ord s now e = ok s' \<Longrightarrow>
    sink_reachable cfg sched ord s0 s'"

text \<open>The events that are due, at most \<open>m\<close> of them, with no request in between.\<close>

fun sink_events :: "sink_config \<Rightarrow> nat \<Rightarrow> 'p sink \<Rightarrow> 'p sink result" where
  "sink_events cfg 0 s = Inr s"
| "sink_events cfg (Suc m) s =
     (case sk_nextReqEvent s of None \<Rightarrow> Inr s | Some t \<Rightarrow> rbind (sink_processNextReqEvent cfg t s) (sink_events cfg m))"

section \<open>The direction has a packet\<close>

lemma top_queue_some:
  "top_queue Q m = Some k \<Longrightarrow> k < m \<and> Q ! k \<noteq> [] \<and> (\<forall>j. k < j \<and> j < m \<longrightarrow> Q ! j = [])"
  by (induction m) (auto split: if_splits simp: less_Suc_eq)

lemma top_queue_none: "top_queue Q m = None \<longleftrightarrow> (\<forall>k<m. Q ! k = [])"
  by (induction m) (auto simp: less_Suc_eq)

lemma busy_direction:
  assumes B: "qos_books cfg sz R W q" and t: "0 < qs_totalReadQueueSize q + qs_totalWriteQueueSize q"
  shows "0 < load sz any (concat (the_dir (qos_selectNextBusState cfg q) (R, W)))"
proof -
  note D = qos_booksD[OF B]
  have sum: "0 < load sz any (concat R) + load sz any (concat W)" using t D(9,10) by simp
  show ?thesis
  proof (cases "qc_idealTurnaround cfg")
    case False
    then show ?thesis using sum D(9,10) by (auto simp: qos_selectNextBusState_def turned_def split: bus_state.splits)
  next
    case True
    let ?n = "qc_numPriorities cfg" and ?r = "sizes_of sz R" and ?w = "sizes_of sz W"
    have "\<exists>k<?n. 0 < ?r ! k + ?w ! k"
    proof (rule ccontr)
      assume "\<not> (\<exists>k<?n. 0 < ?r ! k + ?w ! k)"
      then have "sum_list ?r = 0" "sum_list ?w = 0" using D(4,5) by (auto simp: sizes_of_def in_set_conv_nth)
      then show False using sum by (simp add: load_concat sizes_of_def del: sum_list_eq_0_iff)
    qed
    then obtain k where k: "k < ?n" "0 < ?r ! k + ?w ! k" "\<And>j. k < j \<Longrightarrow> j < ?n \<Longrightarrow> ?r ! j + ?w ! j = 0"
      using ex_has_greatest_nat[of "\<lambda>k. k < ?n \<and> 0 < ?r ! k + ?w ! k" _ "\<lambda>k. k" ?n] by (metis gr_zeroI less_imp_le_nat linorder_not_le)
    have e: "?r ! k \<le> load sz any (concat R)" "?w ! k \<le> load sz any (concat W)"
      unfolding load_concat sizes_of_def using k(1) D(4,5) by (auto intro!: member_le_sum_list)
    show ?thesis
      using ideal_loop_top[OF k, of "qs_busState q"] True D(7,8) k(2) e
      by (auto simp: qos_selectNextBusState_def turned_def split: bus_state.splits if_splits)
  qed
qed

section \<open>The invariant\<close>

definition sink_configured :: "sink_config \<Rightarrow> bool" where
  "sink_configured cfg \<longleftrightarrow> 0 < sc_memoryPacketSize cfg \<and> qc_q_policy (sc_qos cfg) = Fifo_Queue"

text \<open>The packets of both queues.\<close>

definition sink_work :: "'p sink \<Rightarrow> qpacket multiset" where
  "sink_work s = work (sk_readQueue s) + work (sk_writeQueue s)"

lemma load_pos_work: "0 < sz \<Longrightarrow> \<forall>p\<in>set (concat Q). 0 < qp_size p \<Longrightarrow> 0 < load sz any (concat Q) \<longleftrightarrow> work Q \<noteq> {#}"
proof -
  have "0 < load sz any q \<longleftrightarrow> q \<noteq> []" if "0 < sz" "\<forall>p\<in>set q. 0 < qp_size p" for q
    using that by (cases q) (auto simp: load_simps dest: entries_pos)
  moreover have "work Q \<noteq> {#} \<longleftrightarrow> concat Q \<noteq> []" by (simp add: work_def del: concat_eq_Nil_conv)
  ultimately show "0 < sz \<Longrightarrow> \<forall>p\<in>set (concat Q). 0 < qp_size p \<Longrightarrow> 0 < load sz any (concat Q) \<longleftrightarrow> work Q \<noteq> {#}" by blast
qed

lemma set_concat_queues_ok:
  assumes "queues_ok_in dir rs n Q" "p \<in> set (concat Q)"
  shows "0 < qp_size p"
proof -
  obtain k where "k < length Q" "p \<in> set (Q ! k)" using assms(2) by (auto simp: in_set_conv_nth[of _ Q])
  then show ?thesis using assms(1) by (auto simp: queues_ok_in_def queue_ok_def)
qed

lemma totals_work:
  assumes "qos_books cfg sz R W q"
  shows "0 < qs_totalReadQueueSize q \<or> 0 < qs_totalWriteQueueSize q \<longleftrightarrow> work R + work W \<noteq> {#}"
  using qos_booksD[OF assms] load_pos_work[of sz R] load_pos_work[of sz W]
    set_concat_queues_ok[OF qos_booksD(2)[OF assms]] set_concat_queues_ok[OF qos_booksD(3)[OF assms]] by auto

context priority_policy
begin

definition sink_inv :: "sink_config \<Rightarrow> 'p sink \<Rightarrow> bool" where
  "sink_inv cfg s \<longleftrightarrow> qos_books (sc_qos cfg) (sc_memoryPacketSize cfg) (sk_readQueue s) (sk_writeQueue s) (sk_qos s) \<and>
     policy_wf (sk_qos s) \<and> qc_numPriorities (sc_qos cfg) = n \<and> sink_configured cfg \<and>
     qs_totalReadQueueSize (sk_qos s) \<le> sc_readBufferSize cfg \<and> qs_totalWriteQueueSize (sk_qos s) \<le> sc_writeBufferSize cfg \<and>
     (sk_nextReqEvent s = None \<longleftrightarrow> sink_work s = {#}) \<and> (\<forall>p\<in>#sink_work s. sink_access cfg p = Inr ())"

lemma new_inv:
  assumes "sink_configured cfg" "qc_numPriorities (sc_qos cfg) = n" "\<And>q. p = Some q \<Longrightarrow> wf q"
  shows "sink_inv cfg (MemSinkCtrl_new cfg p)"
proof -
  have z: "concat (replicate n []) = []" by (induction n) simp_all
  have q: "qos_books (sc_qos cfg) (sc_memoryPacketSize cfg) (replicate n []) (replicate n []) (qos_new (sc_qos cfg) p)"
    using assms(1,2) by (simp add: qos_books_def qos_new_def Let_def queues_ok_in_def queue_ok_def sizes_of_def load_simps
        sink_configured_def hasRequestor_def map_replicate_const[symmetric] z)
  show ?thesis
    using q assms by (simp add: sink_inv_def MemSinkCtrl_new_def Let_def policy_wf_def qos_new_def sink_work_def work_def z split: option.split)
qed

lemma policy_wf_cong: "qs_policy q' = qs_policy q \<Longrightarrow> policy_wf q' = policy_wf q"
  by (simp add: policy_wf_def)

lemma books_toServe [simp]: "qos_books cfg sz R W (q\<lparr>qs_toServe := ts\<rparr>) = qos_books cfg sz R W q"
  by (simp add: qos_books_def hasRequestor_def)

lemma accept_ok:
  assumes B: "qos_books (sc_qos cfg) sz (sk_readQueue s) (sk_writeQueue s) (sk_qos s)" "sz = sc_memoryPacketSize cfg"
    and c: "sink_configured cfg" "prio < qc_numPriorities (sc_qos cfg)"
    and p: "qp_read p \<or> qp_write p" "0 < qp_size p" "qp_needsResponse p" "qp_qosValue p = prio" "qp_id p < qc_system_requestors (sc_qos cfg)"
    and acc: "\<not> (if qp_read p then sink_readQueueFull cfg (entries sz p) s else sink_writeQueueFull cfg (entries sz p) s)"
  shows "\<exists>s2. sink_admit cfg now prio p (entries sz p) s = Inr (s2, True) \<and>
    qos_books (sc_qos cfg) sz (sk_readQueue s2) (sk_writeQueue s2) (sk_qos s2) \<and> qs_policy (sk_qos s2) = qs_policy (sk_qos s) \<and>
    sink_work s2 = add_mset (p\<lparr>qp_qosValue := 0\<rparr>) (sink_work s) \<and>
    qs_totalReadQueueSize (sk_qos s2) = qs_totalReadQueueSize (sk_qos s) + (if qp_read p then entries sz p else 0) \<and>
    qs_totalWriteQueueSize (sk_qos s2) = qs_totalWriteQueueSize (sk_qos s) + (if qp_read p then 0 else entries sz p) \<and>
    sk_nextReqEvent s2 = sk_nextReqEvent s \<and> sk_responses s2 = sk_responses s"
proof -
  note D = qos_booksD[OF B(1)]
  have d: "in_dir (packet_dir p) p" using p(1) by (auto simp: in_dir_def packet_dir_def)
  have e: "enqueuePacket (qc_q_policy (sc_qos cfg)) h r ts = ts" for h r ts using c(1) by (simp add: enqueuePacket_def sink_configured_def)
  obtain q where q: "qos_logRequest (sc_qos cfg) now (packet_dir p) (qp_id p) prio (qp_addr p) (entries sz p) (sk_qos s) = Inr q"
    "(case upd_dir (packet_dir p) (enq prio p) (sk_readQueue s, sk_writeQueue s) of (R', W') \<Rightarrow> qos_books (sc_qos cfg) sz R' W' q)"
    "qs_policy q = qs_policy (sk_qos s)"
    using logRequest_ok[OF B(1) d p(2-4) c(2) p(5), of now] by (elim exE conjE) (rule that)
  have len: "prio < length (sk_readQueue s)" "prio < length (sk_writeQueue s)" using c(2) D(4,5) by simp_all
  define s2 where "s2 = (if qp_read p then s\<lparr>sk_readQueue := enq prio p (sk_readQueue s), sk_qos := q\<rparr>
    else s\<lparr>sk_writeQueue := enq prio p (sk_writeQueue s), sk_qos := q\<rparr>)"
  have adm: "sink_admit cfg now prio p (entries sz p) s = Inr (s2, True)"
  proof -
    have t: "sk_qos s\<lparr>qs_toServe := qs_toServe (sk_qos s)\<rparr> = sk_qos s" by simp
    show ?thesis
    proof (cases "qp_read p")
      case True
      then show ?thesis using acc len(1) q(1) by (simp add: sink_admit_def sink_accept_def e t p(4) s2_def enq_def)
    next
      case False
      then show ?thesis using acc len(2) q(1) by (simp add: sink_admit_def sink_accept_def e t p(4) s2_def enq_def)
    qed
  qed
  have b: "qos_books (sc_qos cfg) sz (sk_readQueue s2) (sk_writeQueue s2) (sk_qos s2)"
    using q(2) by (simp add: s2_def upd_dir_def packet_dir_def split: if_splits)
  have w: "sink_work s2 = add_mset (p\<lparr>qp_qosValue := 0\<rparr>) (sink_work s)"
    using len by (simp add: s2_def sink_work_def work_enq)
  have t: "qs_totalReadQueueSize (sk_qos s2) = qs_totalReadQueueSize (sk_qos s) + (if qp_read p then entries sz p else 0)"
    "qs_totalWriteQueueSize (sk_qos s2) = qs_totalWriteQueueSize (sk_qos s) + (if qp_read p then 0 else entries sz p)"
    unfolding qos_booksD(9,10)[OF b] D(9,10) using len by (simp_all add: s2_def load_concat_enq)
  show ?thesis using adm b w t q(3) by (simp add: s2_def)
qed

lemma request_accepted_or_full:
  assumes I: "sink_inv cfg s" and l: "sink_legal cfg s now (Sink_Request pkt)" and ord: "\<And>rs. set (ord rs) = set rs"
  shows "\<exists>s' accepted. sink_recvTimingReq cfg sched ord now pkt s = ok (s', accepted) \<and> sink_inv cfg s' \<and>
    sink_work s' = (if accepted then add_mset (pkt\<lparr>qp_qosValue := 0\<rparr>) (sink_work s) else sink_work s) \<and>
    sk_responses s' = sk_responses s"
proof -
  define sz where "sz = sc_memoryPacketSize cfg"
  have i: "qos_books (sc_qos cfg) sz (sk_readQueue s) (sk_writeQueue s) (sk_qos s)" "policy_wf (sk_qos s)"
    "qc_numPriorities (sc_qos cfg) = n" "sink_configured cfg"
    "qs_totalReadQueueSize (sk_qos s) \<le> sc_readBufferSize cfg" "qs_totalWriteQueueSize (sk_qos s) \<le> sc_writeBufferSize cfg"
    "sk_nextReqEvent s = None \<longleftrightarrow> sink_work s = {#}"
    "\<forall>p\<in>#sink_work s. sink_access cfg p = Inr ()"
    using I by (simp_all add: sink_inv_def sz_def)
  have sz: "0 < sz" using i(4) by (simp add: sink_configured_def sz_def)
  have p: "qp_read pkt \<or> qp_write pkt" "\<not> qp_cacheResponding pkt" "qp_needsResponse pkt" "0 < qp_size pkt"
    "qp_id pkt < qc_system_requestors (sc_qos cfg)" "qs_policy (sk_qos s) = None \<longrightarrow> qp_qosValue pkt < n"
    "entries sz pkt \<le> (if qp_read pkt then sc_readBufferSize cfg else sc_writeBufferSize cfg)"
    "sink_access cfg (pkt\<lparr>qp_qosValue := 0\<rparr>) = Inr ()"
    using l i(3) by (auto simp: sz_def)
  obtain prio R W q where q: "qosSchedule (sc_qos cfg) sched ord sz now pkt (sk_readQueue s, sk_writeQueue s, sk_qos s) = ok (prio, R, W, q)"
    "prio < n" "qos_books (sc_qos cfg) sz R W q" "policy_wf q" "work R = work (sk_readQueue s)" "work W = work (sk_writeQueue s)"
    using qosSchedule_ok[OF i(1-3) p(6,5) ord] by blast
  note D = qos_booksD[OF i(1)] and D' = qos_booksD[OF q(3)]
  have tot: "qs_totalReadQueueSize q = qs_totalReadQueueSize (sk_qos s)" "qs_totalWriteQueueSize q = qs_totalWriteQueueSize (sk_qos s)"
    using D(9,10) D'(9,10) q(5,6) by (simp_all add: load_work)
  define pk where "pk = pkt\<lparr>qp_qosValue := prio\<rparr>"
  define s1 where "s1 = s\<lparr>sk_readQueue := R, sk_writeQueue := W, sk_qos := q\<rparr>"
  have w1: "sink_work s1 = sink_work s" using q(5,6) by (simp add: s1_def sink_work_def)
  have en: "entries sz pkt = entries sz pk" "0 < entries sz pk" using entries_pos[OF sz p(4)] by (simp_all add: entries_def pk_def)
  define log where "log = sink_admit cfg now prio pk (entries sz pk) s1"
  have run: "sink_recvTimingReq cfg sched ord now pkt s = Some (rbind log (\<lambda>(s2, accepted).
      rbind (if sk_nextReqEvent s2 = None
             then rbind (schedule now (sk_nextReqEvent s2) (max now (sk_nextRequest s2))) (\<lambda>ev. Inr (s2\<lparr>sk_nextReqEvent := ev\<rparr>))
             else Inr s2) (\<lambda>s3. Inr (s3, accepted))))"
    using p(1,2) q(1) en sz
    by (simp add: sink_recvTimingReq_def divCeil_entries sz_def[symmetric] log_def Let_def pk_def[symmetric] s1_def[symmetric])
  have "\<exists>s2 acc. log = Inr (s2, acc) \<and> qos_books (sc_qos cfg) sz (sk_readQueue s2) (sk_writeQueue s2) (sk_qos s2) \<and> policy_wf (sk_qos s2) \<and>
      qs_totalReadQueueSize (sk_qos s2) \<le> sc_readBufferSize cfg \<and> qs_totalWriteQueueSize (sk_qos s2) \<le> sc_writeBufferSize cfg \<and>
      sk_nextReqEvent s2 = sk_nextReqEvent s \<and> sink_work s2 \<noteq> {#} \<and> sk_responses s2 = sk_responses s \<and>
      sink_work s2 = (if acc then add_mset (pkt\<lparr>qp_qosValue := 0\<rparr>) (sink_work s) else sink_work s)"
  proof (cases "if qp_read pk then sink_readQueueFull cfg (entries sz pk) s1 else sink_writeQueueFull cfg (entries sz pk) s1")
    case True
    then have "0 < qs_totalReadQueueSize q \<or> 0 < qs_totalWriteQueueSize q"
      using p(7) en by (auto simp: sink_readQueueFull_def sink_writeQueueFull_def s1_def pk_def split: if_splits)
    then have "sink_work s1 \<noteq> {#}" using totals_work[OF q(3)] by (simp add: s1_def sink_work_def)
    then show ?thesis using True i(5,6) q(3,4) tot w1 unfolding log_def
      by (auto simp: sink_admit_def sink_accept_def s1_def sink_work_def Let_def split: if_splits)
  next
    case False
    have b: "qos_books (sc_qos cfg) sz (sk_readQueue s1) (sk_writeQueue s1) (sk_qos s1)" using q(3) by (simp add: s1_def)
    obtain s2 where a: "log = Inr (s2, True)"
      "qos_books (sc_qos cfg) sz (sk_readQueue s2) (sk_writeQueue s2) (sk_qos s2)" "qs_policy (sk_qos s2) = qs_policy (sk_qos s1)"
      "sink_work s2 = add_mset (pk\<lparr>qp_qosValue := 0\<rparr>) (sink_work s1)"
      "qs_totalReadQueueSize (sk_qos s2) = qs_totalReadQueueSize (sk_qos s1) + (if qp_read pk then entries sz pk else 0)"
      "qs_totalWriteQueueSize (sk_qos s2) = qs_totalWriteQueueSize (sk_qos s1) + (if qp_read pk then 0 else entries sz pk)"
      "sk_nextReqEvent s2 = sk_nextReqEvent s1" "sk_responses s2 = sk_responses s1"
      using accept_ok[where now = now and prio = prio, OF b sz_def i(4) _ _ _ _ _ _ False] p q(2) i(3) unfolding log_def by (auto simp: pk_def)
    have wf: "policy_wf (sk_qos s2)" using policy_wf_cong[of "sk_qos s2" q] a(3) q(4) by (simp add: s1_def)
    have "qs_totalReadQueueSize (sk_qos s2) \<le> sc_readBufferSize cfg" "qs_totalWriteQueueSize (sk_qos s2) \<le> sc_writeBufferSize cfg"
      using False i(5,6) tot unfolding a(5,6) by (cases "qp_read pk"; simp add: s1_def sink_readQueueFull_def sink_writeQueueFull_def)+
    moreover have "pk\<lparr>qp_qosValue := 0\<rparr> = pkt\<lparr>qp_qosValue := 0\<rparr>" by (simp add: pk_def)
    moreover have "sk_nextReqEvent s1 = sk_nextReqEvent s" "sk_responses s1 = sk_responses s" by (simp_all add: s1_def)
    ultimately show ?thesis using a(1,2,4,7,8) wf w1 by (intro exI[of _ s2] exI[of _ True]) simp
  qed
  then obtain s2 acc where s2: "log = Inr (s2, acc)" "qos_books (sc_qos cfg) sz (sk_readQueue s2) (sk_writeQueue s2) (sk_qos s2)"
    "policy_wf (sk_qos s2)" "qs_totalReadQueueSize (sk_qos s2) \<le> sc_readBufferSize cfg" "qs_totalWriteQueueSize (sk_qos s2) \<le> sc_writeBufferSize cfg"
    "sink_work s2 \<noteq> {#}" "sk_responses s2 = sk_responses s"
    "sink_work s2 = (if acc then add_mset (pkt\<lparr>qp_qosValue := 0\<rparr>) (sink_work s) else sink_work s)" by blast
  have acc: "\<forall>p\<in>#sink_work s2. sink_access cfg p = Inr ()" using i(8) p(8) s2(8) by (cases acc) simp_all
  have ev: "sink_work (s2\<lparr>sk_nextReqEvent := e\<rparr>) = sink_work s2" for e by (simp add: sink_work_def)
  have inv: "sink_inv cfg (s2\<lparr>sk_nextReqEvent := Some t\<rparr>)" "sk_nextReqEvent s2 \<noteq> None \<Longrightarrow> sink_inv cfg s2" for t
    unfolding sink_inv_def ev using s2(2-6) acc i(3,4) by (simp_all add: sz_def)
  show ?thesis
    using run inv s2(1,7) by (cases "sk_nextReqEvent s2 = None") (auto simp: schedule_def ev s2(8)[symmetric])
qed

lemma turn_fields:
  "qs_busState (sink_turn cfg q) = qos_selectNextBusState (sc_qos cfg) q"
  "qos_books c sz R W (sink_turn cfg q) = qos_books c sz R W q" "qs_policy (sink_turn cfg q) = qs_policy q"
  "qs_totalReadQueueSize (sink_turn cfg q) = qs_totalReadQueueSize q" "qs_totalWriteQueueSize (sink_turn cfg q) = qs_totalWriteQueueSize q"
  by (simp_all add: sink_turn_def setCurrentBusState_def qos_recordTurnaroundStats_def qos_books_def hasRequestor_def)

lemma take_ok:
  assumes "qc_q_policy (sc_qos cfg) = Fifo_Queue" "Q = the_dir (qs_busState (sk_qos s)) (sk_readQueue s, sk_writeQueue s)" "concat Q \<noteq> []"
  shows "\<exists>k p. k < length Q \<and> Q ! k = p # tl (Q ! k) \<and> (\<forall>j. k < j \<and> j < length Q \<longrightarrow> Q ! j = []) \<and>
    sink_take cfg s = Inr (p, case upd_dir (qs_busState (sk_qos s)) (deq k) (sk_readQueue s, sk_writeQueue s) of (R, W) \<Rightarrow>
      s\<lparr>sk_qos := sk_qos s\<lparr>qs_toServe := qs_toServe (sk_qos s)\<rparr>, sk_readQueue := R, sk_writeQueue := W\<rparr>)"
proof -
  have "top_queue Q (length Q) \<noteq> None" using assms(3) by (auto simp: top_queue_none in_set_conv_nth)
  then obtain k where t: "top_queue Q (length Q) = Some k" by blast
  note k = top_queue_some[OF t]
  obtain p rest where p: "Q ! k = p # rest" using k by (cases "Q ! k") auto
  have dq: "dequeue (qc_q_policy (sc_qos cfg)) h ts (Q ! k) = Inr (p, rest, ts)" for h ts
    using dequeue_fifo[of "Q ! k"] p assms(1) by simp
  have "sink_take cfg s = Inr (p, case upd_dir (qs_busState (sk_qos s)) (deq k) (sk_readQueue s, sk_writeQueue s) of (R, W) \<Rightarrow>
      s\<lparr>sk_qos := sk_qos s\<lparr>qs_toServe := qs_toServe (sk_qos s)\<rparr>, sk_readQueue := R, sk_writeQueue := W\<rparr>)"
  proof (cases "qs_busState (sk_qos s)")
    case BUS_READ
    then show ?thesis using assms(2) t dq p by (simp add: sink_take_def upd_dir_def deq_def Let_def)
  next
    case BUS_WRITE
    then show ?thesis using assms(2) t dq p by (simp add: sink_take_def upd_dir_def deq_def Let_def)
  qed
  then show ?thesis using k p by auto
qed

lemma retry_fields:
  "sk_qos (sink_retry s) = sk_qos s" "sk_readQueue (sink_retry s) = sk_readQueue s" "sk_writeQueue (sink_retry s) = sk_writeQueue s"
  "sk_nextReqEvent (sink_retry s) = sk_nextReqEvent s" "sk_responses (sink_retry s) = sk_responses s"
  by (simp_all add: sink_retry_def)

lemma event_ok:
  assumes I: "sink_inv cfg s" and busy: "sink_work s \<noteq> {#}"
    and Q: "Q = the_dir (qos_selectNextBusState (sc_qos cfg) (sk_qos s)) (sk_readQueue s, sk_writeQueue s)"
  shows "\<exists>s' p k. sink_processNextReqEvent cfg now s = Inr s' \<and> sink_inv cfg s' \<and>
    sink_work s = add_mset (p\<lparr>qp_qosValue := 0\<rparr>) (sink_work s') \<and>
    sk_responses s' = sk_responses s @ [(now + sc_responseLatency cfg, p)] \<and>
    sk_nextReqEvent s' = (if sink_work s' = {#} then None else Some (now + sc_requestLatency cfg)) \<and>
    k < n \<and> Q ! k = p # tl (Q ! k) \<and> (\<forall>j. k < j \<and> j < n \<longrightarrow> Q ! j = [])"
proof -
  define sz where "sz = sc_memoryPacketSize cfg"
  define q1 where "q1 = sink_turn cfg (sk_qos s)"
  define d where "d = qos_selectNextBusState (sc_qos cfg) (sk_qos s)"
  let ?R = "sk_readQueue s" and ?W = "sk_writeQueue s"
  have i: "qos_books (sc_qos cfg) sz ?R ?W (sk_qos s)" "policy_wf (sk_qos s)" "qc_numPriorities (sc_qos cfg) = n" "sink_configured cfg"
    "qs_totalReadQueueSize (sk_qos s) \<le> sc_readBufferSize cfg" "qs_totalWriteQueueSize (sk_qos s) \<le> sc_writeBufferSize cfg"
    "\<forall>p\<in>#sink_work s. sink_access cfg p = Inr ()"
    using I by (simp_all add: sink_inv_def sz_def)
  have sz: "0 < sz" "qc_q_policy (sc_qos cfg) = Fifo_Queue" using i(4) by (simp_all add: sink_configured_def sz_def)
  have B1: "qos_books (sc_qos cfg) sz ?R ?W q1" "qs_busState q1 = d" using i(1) by (simp_all add: q1_def turn_fields d_def)
  note D = qos_booksD[OF B1(1)]
  have "0 < load sz any (concat Q)"
    using busy_direction[OF i(1)] totals_work[OF i(1)] busy by (auto simp: Q sink_work_def)
  then have ne: "concat Q \<noteq> []" by (metis load_Nil less_irrefl)
  define s1 where "s1 = s\<lparr>sk_nextReqEvent := None, sk_qos := q1\<rparr>"
  have Q1: "Q = the_dir (qs_busState (sk_qos s1)) (sk_readQueue s1, sk_writeQueue s1)" using B1(2) by (cases d) (simp_all add: s1_def Q d_def[symmetric])
  have lQ: "length Q = n" using D(4,5) i(3) by (cases d) (simp_all add: Q d_def)
  obtain k p where k: "k < n" "Q ! k = p # tl (Q ! k)" "\<forall>j. k < j \<and> j < n \<longrightarrow> Q ! j = []"
    and tk: "sink_take cfg s1 = Inr (p, case upd_dir d (deq k) (?R, ?W) of (R, W) \<Rightarrow>
      s1\<lparr>sk_qos := q1\<lparr>qs_toServe := qs_toServe q1\<rparr>, sk_readQueue := R, sk_writeQueue := W\<rparr>)"
    using take_ok[OF sz(2) Q1 ne] lQ B1(2) by (auto simp: s1_def)
  obtain R W where RW: "upd_dir d (deq k) (?R, ?W) = (R, W)" by (cases "upd_dir d (deq k) (?R, ?W)")
  have pq: "in_dir d p" "0 < qp_size p" "qp_needsResponse p" "qp_qosValue p = k"
  proof -
    have p: "p \<in> set (Q ! k)" by (metis k(2) list.set_intros(1))
    have "queue_ok d (set (qs_requestors q1)) k (Q ! k)"
      using D(2,3) k(1) i(3) by (cases d) (simp_all add: Q d_def[symmetric] queues_ok_in_def)
    then show "in_dir d p" "0 < qp_size p" "qp_needsResponse p" "qp_qosValue p = k" using p by (auto simp: queue_ok_def)
  qed
  have dir: "packet_dir p = d" using pq(1) by (cases d) (auto simp: in_dir_def packet_dir_def)
  have kn: "k < qc_numPriorities (sc_qos cfg)" using k(1) i(3) by simp
  have kq: "the_dir d (?R, ?W) ! k = p # tl (Q ! k)" using k(2) by (simp add: Q d_def)
  from logResponse_ok[OF B1(1) kn kq, of now "real (sc_responseLatency cfg)"] obtain q2 where q2:
    "qos_logResponse (sc_qos cfg) now d (qp_id p) k (qp_addr p) (entries sz p) (real (sc_responseLatency cfg)) q1 = Inr q2"
    "qos_books (sc_qos cfg) sz R W q2" "qs_policy q2 = qs_policy q1" unfolding RW by auto
  have w: "work ?R + work ?W = add_mset (p\<lparr>qp_qosValue := 0\<rparr>) (work R + work W)"
    using RW kq work_deq[of k "the_dir d (?R, ?W)" p] D(4,5) kn by (cases d) (auto simp: upd_dir_def)
  have acc: "sink_access cfg p = Inr ()"
    using i(7) w sink_access_priority[of cfg 0 p] by (simp add: sink_work_def del: sink_access_priority)
  note D2 = qos_booksD[OF q2(2)]
  have tot: "qs_totalReadQueueSize q2 \<le> qs_totalReadQueueSize (sk_qos s)" "qs_totalWriteQueueSize q2 \<le> qs_totalWriteQueueSize (sk_qos s)"
    using RW kq load_concat_deq[of k "the_dir d (?R, ?W)" p "tl (Q ! k)" sz any] D(4,5,9,10) D2(9,10) kn
    by (cases d; auto simp: upd_dir_def q1_def turn_fields)+
  define s2 where "s2 = sink_retry (s1\<lparr>sk_readQueue := R, sk_writeQueue := W, sk_qos := q2, sk_nextRequest := now + sc_requestLatency cfg,
      sk_responses := sk_responses s @ [(now + sc_responseLatency cfg, p)]\<rparr>)"
  have f2: "sk_qos s2 = q2" "sk_readQueue s2 = R" "sk_writeQueue s2 = W" "sk_nextReqEvent s2 = None"
    "sk_responses s2 = sk_responses s @ [(now + sc_responseLatency cfg, p)]"
    by (simp_all add: s2_def retry_fields s1_def)
  have busy2: "0 < qs_totalReadQueueSize q2 \<or> 0 < qs_totalWriteQueueSize q2 \<longleftrightarrow> work R + work W \<noteq> {#}" by (rule totals_work[OF q2(2)])
  have "sink_processNextReqEvent cfg now s = Inr (if 0 < qs_totalReadQueueSize q2 \<or> 0 < qs_totalWriteQueueSize q2
    then s2\<lparr>sk_nextReqEvent := Some (now + sc_requestLatency cfg)\<rparr> else s2)"
    using tk RW pq(2-4) dir q2(1) sz(1) f2(1,4) acc
    by (simp add: sink_processNextReqEvent_def q1_def[symmetric] s1_def[symmetric] divCeil_entries sz_def[symmetric] Let_def s2_def schedule_def)
       (simp add: s1_def)
  note run = this[unfolded busy2]
  have "policy_wf q2" using policy_wf_cong[of q2 "sk_qos s"] q2(3) i(2) by (simp add: q1_def turn_fields)
  then show ?thesis
    using run k w q2(2) i tot f2 by (auto simp: sink_inv_def sink_work_def sz_def)
qed

lemma exec_ok:
  assumes "sink_inv cfg s" "sink_legal cfg s now e" "\<And>rs. set (ord rs) = set rs"
  shows "\<exists>s'. sink_exec cfg sched ord s now e = ok s' \<and> sink_inv cfg s'"
proof (cases e)
  case (Sink_Request p)
  then show ?thesis using request_accepted_or_full[of cfg s now p ord] assms by fastforce
next
  case Sink_Next
  then have "sink_work s \<noteq> {#}" using assms(1,2) by (auto simp: sink_inv_def)
  then show ?thesis using event_ok[OF assms(1) _ refl, of now] Sink_Next by auto
qed

lemma reachable_sink_inv:
  assumes "sink_reachable cfg sched ord s0 s" "sink_inv cfg s0" "\<And>rs. set (ord rs) = set rs"
  shows "sink_inv cfg s"
  using assms(1)
proof induction
  case (step s now e s')
  then show ?case using exec_ok[OF step.IH step.hyps(2) assms(3)] by simp
qed (rule assms(2))

lemma events_ok:
  assumes "sink_inv cfg s" "size (sink_work s) \<le> m" "sk_nextReqEvent s = (if sink_work s = {#} then None else Some t)"
  shows "\<exists>s' rs. sink_events cfg m s = Inr s' \<and> sink_inv cfg s' \<and> sink_work s' = {#} \<and> sk_responses s' = sk_responses s @ rs \<and>
    mset (map (\<lambda>x. (snd x)\<lparr>qp_qosValue := 0\<rparr>) rs) = sink_work s \<and>
    map fst rs = map (\<lambda>i. t + i * sc_requestLatency cfg + sc_responseLatency cfg) [0..<size (sink_work s)]"
  using assms
proof (induction m arbitrary: s t)
  case 0
  then show ?case by auto
next
  case (Suc m)
  show ?case
  proof (cases "sink_work s = {#}")
    case True
    then show ?thesis using Suc.prems by (intro exI[of _ s]) simp
  next
    case False
    from event_ok[OF Suc.prems(1) False refl, of t] obtain s1 p where s1: "sink_processNextReqEvent cfg t s = Inr s1" "sink_inv cfg s1"
      "sink_work s = add_mset (p\<lparr>qp_qosValue := 0\<rparr>) (sink_work s1)"
      "sk_responses s1 = sk_responses s @ [(t + sc_responseLatency cfg, p)]"
      "sk_nextReqEvent s1 = (if sink_work s1 = {#} then None else Some (t + sc_requestLatency cfg))" by blast
    have "size (sink_work s1) \<le> m" using Suc.prems(2) s1(3) by simp
    from Suc.IH[OF s1(2) this s1(5)] obtain s' rs where s': "sink_events cfg m s1 = Inr s'" "sink_inv cfg s'" "sink_work s' = {#}"
      "sk_responses s' = sk_responses s1 @ rs" "mset (map (\<lambda>x. (snd x)\<lparr>qp_qosValue := 0\<rparr>) rs) = sink_work s1"
      "map fst rs = map (\<lambda>i. t + sc_requestLatency cfg + i * sc_requestLatency cfg + sc_responseLatency cfg) [0..<size (sink_work s1)]" by blast
    have "map (\<lambda>i. t + i * sc_requestLatency cfg + sc_responseLatency cfg) [0..<Suc (size (sink_work s1))] =
      (t + sc_responseLatency cfg) # map fst rs"
      unfolding s'(6) map_upt_Suc by simp
    then show ?thesis
      using s1 s' Suc.prems(3) False by (intro exI[of _ s'] exI[of _ "(t + sc_responseLatency cfg, p) # rs"]) (simp del: upt_Suc)
  qed
qed

end

section \<open>Properties\<close>

definition policy_configured :: "(history \<Rightarrow> history) \<Rightarrow> sink_config \<Rightarrow> qos_policy option \<Rightarrow> bool" where
  "policy_configured srt cfg pol \<longleftrightarrow> sink_configured cfg \<and>
     (case pol of None \<Rightarrow> True | Some p \<Rightarrow> policy_ok srt (qc_numPriorities (sc_qos cfg)) p)"

abbreviation sink_sound :: "(history \<Rightarrow> history) \<Rightarrow> sink_config \<Rightarrow> qos_policy sink \<Rightarrow> bool" where
  "sink_sound srt cfg \<equiv> qos.sink_inv srt (qc_numPriorities (sc_qos cfg)) cfg"

lemma sink_started: "policy_configured srt cfg pol \<Longrightarrow> sink_sound srt cfg (MemSinkCtrl_new cfg pol)"
  by (rule qos.new_inv) (simp_all add: policy_configured_def)

text \<open>C34: A sink controller with first-in first-out queues never fails, whatever policy, turnaround and
  escalation it is configured with, in whatever order requests it can serve and its events come: no
  assertion, panic or fatal error, no access outside a queue, no loop that does not end.\<close>

theorem sink_never_fails:
  assumes "policy_configured srt cfg pol" "set \<circ> ord = set"
    and "sink_reachable cfg (policy_schedule srt) ord (MemSinkCtrl_new cfg pol) s" "sink_legal cfg s now e"
  shows "\<exists>s'. sink_exec cfg (policy_schedule srt) ord s now e = ok s'"
proof -
  have ord: "set (ord rs) = set rs" for rs using assms(2) by (metis comp_apply)
  from qos.reachable_sink_inv[OF assms(3) sink_started[OF assms(1)] ord] show ?thesis
    using qos.exec_ok[OF _ assms(4) ord] by blast
qed

text \<open>C35: Every packet the sink has accepted is answered: when no more requests come, one event per queued
  packet runs, each one request latency after the other, and the responses are those of exactly the queued
  packets; then the controller is idle.\<close>

theorem sink_answers_every_packet:
  assumes "policy_configured srt cfg pol" "set \<circ> ord = set"
    and "sink_reachable cfg (policy_schedule srt) ord (MemSinkCtrl_new cfg pol) s" "sink_legal cfg s t Sink_Next"
  shows "\<exists>s' rs. sink_events cfg (size (sink_work s)) s = Inr s' \<and> sink_drain s' = Drained \<and>
    sk_responses s' = sk_responses s @ rs \<and> mset (map (\<lambda>x. (snd x)\<lparr>qp_qosValue := 0\<rparr>) rs) = sink_work s \<and>
    map fst rs = map (\<lambda>i. t + i * sc_requestLatency cfg + sc_responseLatency cfg) [0..<size (sink_work s)]"
proof -
  have ord: "set (ord rs) = set rs" for rs using assms(2) by (metis comp_apply)
  have I: "sink_sound srt cfg s" by (rule qos.reachable_sink_inv[OF assms(3) sink_started[OF assms(1)] ord])
  then have "sk_nextReqEvent s = (if sink_work s = {#} then None else Some t)" using assms(4) by (auto simp: qos.sink_inv_def)
  from qos.events_ok[OF I order_refl this] obtain s' rs where e: "sink_events cfg (size (sink_work s)) s = Inr s'" "sink_sound srt cfg s'"
    "sink_work s' = {#}" "sk_responses s' = sk_responses s @ rs" "mset (map (\<lambda>x. (snd x)\<lparr>qp_qosValue := 0\<rparr>) rs) = sink_work s"
    "map fst rs = map (\<lambda>i. t + i * sc_requestLatency cfg + sc_responseLatency cfg) [0..<size (sink_work s)]" by blast
  have "sink_drain s' = Drained"
    using totals_work[of "sc_qos cfg" "sc_memoryPacketSize cfg" "sk_readQueue s'" "sk_writeQueue s'" "sk_qos s'"] e(2,3)
    by (auto simp: qos.sink_inv_def sink_drain_def sink_work_def)
  then show ?thesis using e by blast
qed

text \<open>The event serves the first packet of the highest priority that has one, in the direction the
  turnaround policy selects.\<close>

theorem sink_serves_top_priority:
  assumes "policy_configured srt cfg pol" "set \<circ> ord = set"
    and "sink_reachable cfg (policy_schedule srt) ord (MemSinkCtrl_new cfg pol) s" "sink_legal cfg s now Sink_Next"
    and "Q = (if qos_selectNextBusState (sc_qos cfg) (sk_qos s) = BUS_READ then sk_readQueue s else sk_writeQueue s)"
  shows "\<exists>s' k. sink_exec cfg (policy_schedule srt) ord s now Sink_Next = ok s' \<and> k < length Q \<and> Q ! k \<noteq> [] \<and>
    concat (drop (Suc k) Q) = [] \<and> sk_responses s' = sk_responses s @ [(now + sc_responseLatency cfg, hd (Q ! k))]"
proof -
  have ord: "set (ord rs) = set rs" for rs using assms(2) by (metis comp_apply)
  have I: "sink_sound srt cfg s" by (rule qos.reachable_sink_inv[OF assms(3) sink_started[OF assms(1)] ord])
  have Q: "Q = the_dir (qos_selectNextBusState (sc_qos cfg) (sk_qos s)) (sk_readQueue s, sk_writeQueue s)"
    using assms(5) by (cases "qos_selectNextBusState (sc_qos cfg) (sk_qos s)") simp_all
  have "length Q = qc_numPriorities (sc_qos cfg)"
    using I qos_booksD(4,5) by (cases "qos_selectNextBusState (sc_qos cfg) (sk_qos s)") (auto simp: qos.sink_inv_def Q)
  moreover have "sink_work s \<noteq> {#}" using I assms(4) by (auto simp: qos.sink_inv_def)
  ultimately obtain s' p k where e: "sink_processNextReqEvent cfg now s = Inr s'" "k < length Q" "Q ! k = p # tl (Q ! k)"
    "\<forall>j. k < j \<and> j < length Q \<longrightarrow> Q ! j = []" "sk_responses s' = sk_responses s @ [(now + sc_responseLatency cfg, p)]"
    using qos.event_ok[OF I _ Q, of now] by auto
  have "concat (drop (Suc k) Q) = []" using e(4) by (auto simp: in_set_conv_nth)
  moreover have "hd (Q ! k) = p" "Q ! k \<noteq> []" using e(3) by (metis list.sel(1), metis list.distinct(1))
  ultimately show ?thesis using e(1,2,5) by auto
qed

section \<open>An example\<close>

definition sink_example_config :: sink_config where
  "sink_example_config =
     \<lparr>sc_qos = \<lparr>qc_numPriorities = 2, qc_priorityEscalation = False, qc_syncroScheduler = False, qc_idealTurnaround = True,
        qc_q_policy = Fifo_Queue, qc_system_requestors = 4, qc_ticks_per_second = 1000000000000\<rparr>,
      sc_requestLatency = 20000, sc_responseLatency = 20000, sc_memoryPacketSize = 32, sc_readBufferSize = 32, sc_writeBufferSize = 64,
      sc_range = range_plain 0 1048576\<rparr>"

definition sink_example_policy :: "qos_policy option" where
  "sink_example_policy = Some (Fixed_Priority 0 [3 \<mapsto> 1])"

definition sink_example_packet :: qpacket where
  "sink_example_packet = \<lparr>qp_id = 3, qp_addr = 4096, qp_size = 64, qp_read = True, qp_write = False, qp_needsResponse = True,
     qp_cacheResponding = False, qp_cleanEvict = False, qp_qosValue = 0\<rparr>"

abbreviation example_srt :: "history \<Rightarrow> history" where "example_srt \<equiv> \<lambda>h. rev (sort_key snd h)"

abbreviation sink_example_start :: "qos_policy sink" where
  "sink_example_start \<equiv> MemSinkCtrl_new sink_example_config sink_example_policy"

lemma sink_example_configured: "policy_configured example_srt sink_example_config sink_example_policy"
  using sorts_scores_example by (simp add: policy_configured_def sink_configured_def policy_ok_def sink_example_config_def sink_example_policy_def)

lemma sink_example_legal: "sink_legal sink_example_config sink_example_start 500 (Sink_Request sink_example_packet)"
  by (simp add: sink_access_def within_range_def isSubset_def range_plain_def interleaved_def sink_example_config_def sink_example_packet_def entries_def sink_example_policy_def MemSinkCtrl_new_def qos_new_def Let_def)

definition sink_example_state :: "qos_policy sink" where
  "sink_example_state = (case sink_exec sink_example_config (policy_schedule example_srt) id sink_example_start 500 (Sink_Request sink_example_packet) of
     Some (Inr s) \<Rightarrow> s | _ \<Rightarrow> sink_example_start)"

lemma sink_example_exec:
  "sink_exec sink_example_config (policy_schedule example_srt) id sink_example_start 500 (Sink_Request sink_example_packet) = ok sink_example_state"
  "sk_nextReqEvent sink_example_state = Some 500" "sk_readQueue sink_example_state = [[], [sink_example_packet\<lparr>qp_qosValue := 1\<rparr>]]"
  "sk_writeQueue sink_example_state = [[], []]" "sk_responses sink_example_state = []"
  "qs_readQueueSizes (sk_qos sink_example_state) = [0, 2]" "qs_writeQueueSizes (sk_qos sink_example_state) = [0, 0]"
  by (simp_all add: sink_example_state_def sink_recvTimingReq_def sink_admit_def sink_accept_def qosSchedule_def schedule_packet_def schedule_id_def
      fixed_schedule_def sink_example_config_def sink_example_policy_def sink_example_packet_def MemSinkCtrl_new_def qos_new_def divCeil_def
      sink_readQueueFull_def enqueuePacket_def qos_logRequest_def addRequestor_def hasRequestor_def count_up_def add_at_def packet_dir_def
      schedule_def Let_def numeral_2_eq_2)

lemma sink_example_reachable:
  "sink_reachable sink_example_config (policy_schedule example_srt) id sink_example_start sink_example_state"
  by (rule sink_reachable.step[OF sink_reachable.start sink_example_legal sink_example_exec(1)])

lemma sink_example_event: "sink_legal sink_example_config sink_example_state 500 Sink_Next"
  by (simp add: sink_example_exec)

theorem sink_never_fails_witness:
  "\<exists>s'. sink_exec sink_example_config (policy_schedule example_srt) id sink_example_state 500 Sink_Next = ok s'"
  by (rule sink_never_fails[OF sink_example_configured _ sink_example_reachable sink_example_event]) simp

theorem sink_answers_every_packet_witness:
  "\<exists>s'. sink_events sink_example_config 1 sink_example_state = Inr s' \<and> sink_drain s' = Drained \<and>
    map fst (sk_responses s') = [20500]"
proof -
  have w: "size (sink_work sink_example_state) = 1" by (simp add: sink_work_def work_def sink_example_exec)
  have l: "sc_requestLatency sink_example_config = 20000" "sc_responseLatency sink_example_config = 20000"
    by (simp_all add: sink_example_config_def)
  show ?thesis
    using sink_answers_every_packet[OF sink_example_configured _ sink_example_reachable sink_example_event]
    unfolding w l by (fastforce simp: sink_example_exec)
qed

theorem sink_serves_top_priority_witness:
  "\<exists>s'. sink_exec sink_example_config (policy_schedule example_srt) id sink_example_state 500 Sink_Next = ok s' \<and>
    sk_responses s' = [(20500, sink_example_packet\<lparr>qp_qosValue := 1\<rparr>)]"
proof -
  let ?p = "sink_example_packet\<lparr>qp_qosValue := 1\<rparr>"
  have d: "qos_selectNextBusState (sc_qos sink_example_config) (sk_qos sink_example_state) = BUS_READ"
    by (simp add: qos_selectNextBusState_def sink_example_config_def sink_example_exec[unfolded sink_example_config_def] numeral_2_eq_2)
  have l: "sc_responseLatency sink_example_config = 20000" by (simp add: sink_example_config_def)
  obtain s' k where s': "sink_exec sink_example_config (policy_schedule example_srt) id sink_example_state 500 Sink_Next = ok s'"
    "k < Suc (Suc 0)" "[[], [?p]] ! k \<noteq> []" "sk_responses s' = [(20500, hd ([[], [?p]] ! k))]"
    using sink_serves_top_priority[OF sink_example_configured _ sink_example_reachable sink_example_event refl]
    by (auto simp: d l sink_example_exec simp del: sink_exec.simps)
  then have "k = 1" by (cases k) auto
  then show ?thesis using s' by auto
qed

section \<open>A request larger than its buffer\<close>

text \<open>It is refused, as the buffer is too small for it even when empty; but the event is scheduled all the
  same, and finds no packet.\<close>

lemma oversized_request_stops_sink:
  defines "c \<equiv> sink_example_config\<lparr>sc_readBufferSize := 1\<rparr>"
  defines "s0 \<equiv> MemSinkCtrl_new c sink_example_policy"
  shows "\<exists>s. sink_exec c (policy_schedule example_srt) id s0 500 (Sink_Request sink_example_packet) = ok s \<and>
    sk_nextReqEvent s = Some 500 \<and> sink_exec c (policy_schedule example_srt) id s 500 Sink_Next = failed AssertFail"
  unfolding s0_def c_def
  by (simp add: sink_recvTimingReq_def sink_admit_def sink_accept_def qosSchedule_def schedule_packet_def schedule_id_def
      fixed_schedule_def sink_example_config_def sink_example_policy_def sink_example_packet_def MemSinkCtrl_new_def qos_new_def divCeil_def
      sink_readQueueFull_def schedule_def Let_def numeral_2_eq_2 sink_processNextReqEvent_def sink_take_def sink_turn_def
      qos_recordTurnaroundStats_def qos_selectNextBusState_def setCurrentBusState_def)

end
