(* ===== verification/Mersenne_Twister.thy ===== *)
theory Mersenne_Twister
  imports Pride_Base "HOL-Library.Word" Complex_Main
begin

text \<open>
  The random numbers of the Monte Carlo simulation: the class \<open>MTRand\<close> of
  \<open>security/0_loss_probability/monte_carlo/mtrand.h\<close> (MT19937).  Its \<open>uint32\<close> is \<open>unsigned long\<close>, 64 bits
  on the platforms the simulation runs on, so that every operation must keep its values below 2^32 by
  itself; they are 64-bit words here.  \<open>pNext\<close> is the index it points to.  The theorems relate the
  in-place generator to the recurrence of the algorithm (\<open>mt_seq\<close>).  \<open>randInt(n)\<close>, \<open>randNorm\<close> and the
  stream operators are not used by the simulation and not modelled.
\<close>

unbundle bit_operations_syntax

section \<open>The generator\<close>

definition MT_N :: nat where "MT_N = 624"
definition MT_M :: nat where "MT_M = 397"

record mtrand =
  mr_state :: "64 word list"
  mr_next :: int
  mr_left :: int

definition hiBit :: "64 word \<Rightarrow> 64 word" where "hiBit u = u AND 0x80000000"
definition loBit :: "64 word \<Rightarrow> 64 word" where "loBit u = u AND 1"
definition loBits :: "64 word \<Rightarrow> 64 word" where "loBits u = u AND 0x7fffffff"
definition mixBits :: "64 word \<Rightarrow> 64 word \<Rightarrow> 64 word" where "mixBits u v = hiBit u OR loBits v"
definition magic :: "64 word \<Rightarrow> 64 word" where "magic u = (if loBit u \<noteq> 0 then 0x9908b0df else 0)"

definition twist :: "64 word \<Rightarrow> 64 word \<Rightarrow> 64 word \<Rightarrow> 64 word" where
  "twist m s0 s1 = m XOR drop_bit 1 (mixBits s0 s1) XOR magic s1"

definition low32 :: "64 word \<Rightarrow> 64 word" where "low32 u = u AND 0xffffffff"

definition initialize :: "64 word \<Rightarrow> 64 word list \<Rightarrow> 64 word list" where
  "initialize seed s =
     foldl (\<lambda>s i. s[i := low32 (1812433253 * (s ! (i - 1) XOR drop_bit 30 (s ! (i - 1))) + of_nat i)])
       (s[0 := low32 seed]) [1..<MT_N]"

text \<open>\<open>reload\<close>: three stretches of the state, overwritten in place.\<close>

definition reload_state :: "64 word list \<Rightarrow> 64 word list" where
  "reload_state s =
     (let s1 = foldl (\<lambda>s p. s[p := twist (s ! (p + MT_M)) (s ! p) (s ! (p + 1))]) s [0..<MT_N - MT_M];
          s2 = foldl (\<lambda>s p. s[p := twist (s ! (p - (MT_N - MT_M))) (s ! p) (s ! (p + 1))]) s1 [MT_N - MT_M..<MT_N - 1];
          p = MT_N - 1
      in s2[p := twist (s2 ! (p - (MT_N - MT_M))) (s2 ! p) (s2 ! 0)])"

definition reload :: "mtrand \<Rightarrow> mtrand" where
  "reload g = \<lparr>mr_state = reload_state (mr_state g), mr_next = 0, mr_left = int MT_N\<rparr>"

definition seed_int :: "64 word \<Rightarrow> mtrand \<Rightarrow> mtrand" where
  "seed_int oneSeed g = reload (g\<lparr>mr_state := initialize oneSeed (mr_state g)\<rparr>)"

text \<open>The two loops of \<open>seed(bigSeed, seedLength)\<close>, with \<open>k\<close> rounds left.\<close>

definition seed_advance :: "nat \<Rightarrow> 64 word list \<Rightarrow> 64 word list \<times> nat" where
  "seed_advance i s = (if MT_N \<le> i + 1 then (s[0 := s ! (MT_N - 1)], 1) else (s, i + 1))"

fun seed_mix :: "64 word list \<Rightarrow> nat \<Rightarrow> nat \<Rightarrow> nat \<Rightarrow> 64 word list \<Rightarrow> (64 word list \<times> nat) result" where
  "seed_mix big 0 i j s = Inr (s, i)"
| "seed_mix big (Suc k) i j s =
     (if \<not> j < length big then Inl OutOfBounds
      else let v = s ! i XOR ((s ! (i - 1) XOR drop_bit 30 (s ! (i - 1))) * 1664525);
               (s', i') = seed_advance i (s[i := low32 (v + (low32 (big ! j) + of_nat j))])
           in seed_mix big k i' (if length big \<le> j + 1 then 0 else j + 1) s')"

fun seed_finish :: "nat \<Rightarrow> nat \<Rightarrow> 64 word list \<Rightarrow> 64 word list" where
  "seed_finish 0 i s = s"
| "seed_finish (Suc k) i s =
     (let v = s ! i XOR ((s ! (i - 1) XOR drop_bit 30 (s ! (i - 1))) * 1566083941);
          (s', i') = seed_advance i (s[i := low32 (v - of_nat i)])
      in seed_finish k i' s')"

definition seed_array :: "64 word list \<Rightarrow> mtrand \<Rightarrow> mtrand result" where
  "seed_array big g =
     rbind (seed_mix big (max MT_N (length big)) 1 0 (initialize 19650218 (mr_state g))) (\<lambda>(s, i).
       Inr (reload (g\<lparr>mr_state := (seed_finish (MT_N - 1) i s)[0 := 0x80000000]\<rparr>)))"

text \<open>\<open>hash\<close> of the bytes of the time and the clock; the second component is the static counter.\<close>

definition hash_bytes :: "nat list \<Rightarrow> 64 word" where
  "hash_bytes bs = foldl (\<lambda>h b. h * 257 + of_nat b) 0 bs"

definition mt_hash :: "nat list \<Rightarrow> nat list \<Rightarrow> 64 word \<Rightarrow> 64 word \<times> 64 word" where
  "mt_hash t c differ = ((hash_bytes t + differ) XOR hash_bytes c, differ + 1)"

text \<open>\<open>seed()\<close>: the 624 words read from \<open>/dev/urandom\<close>, if that works.\<close>

definition seed_auto :: "64 word list option \<Rightarrow> nat list \<Rightarrow> nat list \<Rightarrow> 64 word \<Rightarrow> mtrand \<Rightarrow> (mtrand \<times> 64 word) result" where
  "seed_auto urandom t c differ g =
     (case urandom of
        Some big \<Rightarrow> rbind (seed_array big g) (\<lambda>g'. Inr (g', differ))
      | None \<Rightarrow> let (h, differ') = mt_hash t c differ in Inr (seed_int h g, differ'))"

definition temper :: "64 word \<Rightarrow> 64 word" where
  "temper s0 =
     (let s1 = s0 XOR drop_bit 11 s0;
          s2 = s1 XOR (push_bit 7 s1 AND 0x9d2c5680);
          s3 = s2 XOR (push_bit 15 s2 AND 0xefc60000)
      in s3 XOR drop_bit 18 s3)"

definition randInt :: "mtrand \<Rightarrow> (64 word \<times> mtrand) result" where
  "randInt g0 =
     (let g = (if mr_left g0 = 0 then reload g0 else g0);
          g1 = g\<lparr>mr_left := mr_left g - 1, mr_next := mr_next g + 1\<rparr>
      in if \<not> (0 \<le> mr_next g \<and> mr_next g < int (length (mr_state g))) then Inl OutOfBounds
         else Inr (temper (mr_state g ! nat (mr_next g)), g1))"

definition draw :: "(64 word \<Rightarrow> real) \<Rightarrow> mtrand \<Rightarrow> (real \<times> mtrand) result" where
  "draw f g = rbind (randInt g) (\<lambda>(r, g'). Inr (f r, g'))"

definition mt_rand :: "mtrand \<Rightarrow> (real \<times> mtrand) result" where
  "mt_rand = draw (\<lambda>r. real (unat r) * (1 / 4294967295))"

definition randExc :: "mtrand \<Rightarrow> (real \<times> mtrand) result" where
  "randExc = draw (\<lambda>r. real (unat r) * (1 / 4294967296))"

definition randDblExc :: "mtrand \<Rightarrow> (real \<times> mtrand) result" where
  "randDblExc = draw (\<lambda>r. (real (unat r) + 1 / 2) * (1 / 4294967296))"

definition rand53 :: "mtrand \<Rightarrow> (real \<times> mtrand) result" where
  "rand53 g = rbind (randInt g) (\<lambda>(a, g1). rbind (randInt g1) (\<lambda>(b, g2).
     Inr ((real (unat (drop_bit 5 a)) * 67108864 + real (unat (drop_bit 6 b))) * (1 / 9007199254740992), g2)))"

definition mt_scaled :: "(mtrand \<Rightarrow> (real \<times> mtrand) result) \<Rightarrow> real \<Rightarrow> mtrand \<Rightarrow> (real \<times> mtrand) result" where
  "mt_scaled f n g = rbind (f g) (\<lambda>(r, g'). Inr (r * n, g'))"

text \<open>The copy constructor and the assignment set \<open>pNext\<close> from \<open>left\<close>.\<close>

definition mt_copy :: "mtrand \<Rightarrow> mtrand" where
  "mt_copy g = \<lparr>mr_state = take MT_N (mr_state g), mr_next = int MT_N - mr_left g, mr_left = mr_left g\<rparr>"

text \<open>The saved array; \<open>left\<close> is read back through a conversion to \<open>int\<close>.\<close>

definition mt_save :: "mtrand \<Rightarrow> 64 word list" where
  "mt_save g = take MT_N (mr_state g) @ [of_int (mr_left g)]"

definition mt_load :: "64 word list \<Rightarrow> mtrand result" where
  "mt_load a =
     (if length a < MT_N + 1 then Inl OutOfBounds
      else let left = sint (ucast (a ! MT_N) :: 32 word)
           in Inr \<lparr>mr_state = take MT_N a, mr_next = int MT_N - left, mr_left = left\<rparr>)"

section \<open>Thirty-two bits\<close>

definition is32 :: "64 word \<Rightarrow> bool" where "is32 u \<longleftrightarrow> take_bit 32 u = u"

lemma is32_unat: "is32 u \<longleftrightarrow> unat u < 2 ^ 32"
proof -
  have "is32 u \<longleftrightarrow> unat (take_bit 32 u) = unat u" unfolding is32_def by (metis word_unat_eq_iff)
  also have "\<dots> \<longleftrightarrow> take_bit 32 (unat u) = unat u" by (simp only: unsigned_take_bit_eq)
  finally show ?thesis by (simp add: take_bit_nat_eq_self_iff)
qed

lemma is32_bits: "is32 u \<longleftrightarrow> (\<forall>n\<ge>32. \<not> bit u n)"
proof
  assume "is32 u"
  then have "bit u n \<longleftrightarrow> n < 32 \<and> bit u n" for n unfolding is32_def by (metis bit_take_bit_iff)
  then show "\<forall>n\<ge>32. \<not> bit u n" by (metis not_less)
next
  assume "\<forall>n\<ge>32. \<not> bit u n"
  then have "n < 32 \<and> bit u n \<longleftrightarrow> bit u n" for n by (metis not_less)
  then show "is32 u" unfolding is32_def by (intro bit_eqI) (simp add: bit_take_bit_iff)
qed

lemma is32_and [simp]: "is32 v \<Longrightarrow> is32 (u AND v)" by (simp add: is32_bits bit_simps)
lemma is32_xor [simp]: "is32 u \<Longrightarrow> is32 v \<Longrightarrow> is32 (u XOR v)" by (simp add: is32_bits bit_simps)
lemma is32_or [simp]: "is32 u \<Longrightarrow> is32 v \<Longrightarrow> is32 (u OR v)" by (simp add: is32_bits bit_simps)
lemma is32_drop [simp]: "is32 u \<Longrightarrow> is32 (drop_bit n u)" by (simp add: is32_bits bit_simps)
lemma is32_const [simp]: "is32 0" "is32 0x80000000" "is32 0x7fffffff" "is32 0x9908b0df" "is32 0xffffffff" "is32 0x9d2c5680" "is32 0xefc60000"
  by (simp_all add: is32_unat)

lemma is32_low32 [simp]: "is32 (low32 u)" by (simp add: low32_def)
lemma is32_twist [simp]: "is32 m \<Longrightarrow> is32 (twist m s0 s1)"
  unfolding twist_def mixBits_def hiBit_def loBits_def magic_def by (intro is32_xor is32_drop is32_or is32_and) simp_all
lemma is32_temper: "is32 u \<Longrightarrow> is32 (temper u)" 
  unfolding temper_def Let_def by (intro is32_xor is32_drop is32_and) simp_all

section \<open>The recurrence\<close>

function mt_seq :: "64 word list \<Rightarrow> nat \<Rightarrow> 64 word" where
  "mt_seq s n = (if n < MT_N then s ! n else twist (mt_seq s (n - MT_N + MT_M)) (mt_seq s (n - MT_N)) (mt_seq s (n - MT_N + 1)))"
  by pat_completeness auto
termination
  by (relation "measure snd") (auto simp: MT_N_def MT_M_def)

declare mt_seq.simps [simp del]

definition mt_rec :: "(nat \<Rightarrow> 64 word) \<Rightarrow> bool" where
  "mt_rec x \<longleftrightarrow> (\<forall>n. x (n + MT_N) = twist (x (n + MT_M)) (x n) (x (n + 1)))"

lemma mt_seq_rec: "mt_rec (mt_seq s)"
  unfolding mt_rec_def by (subst mt_seq.simps) simp

lemma mt_rec_shift: "mt_rec x \<Longrightarrow> mt_rec (\<lambda>n. x (b + n))"
  unfolding mt_rec_def by (metis add.assoc)

lemma mt_seq_is32:
  assumes "length s = MT_N" "\<forall>u\<in>set s. is32 u"
  shows "is32 (mt_seq s n)"
proof (induction n rule: less_induct)
  case (less n)
  show ?case
  proof (cases "n < MT_N")
    case True
    then show ?thesis using assms by (subst mt_seq.simps) simp
  next
    case False
    then have "n - MT_N + MT_M < n" by (simp add: MT_N_def MT_M_def)
    then show ?thesis using False less by (subst mt_seq.simps) simp
  qed
qed

text \<open>The state while \<open>reload\<close> has replaced its first \<open>m\<close> words.\<close>

definition half_new :: "(nat \<Rightarrow> 64 word) \<Rightarrow> nat \<Rightarrow> 64 word list \<Rightarrow> bool" where
  "half_new x m s \<longleftrightarrow> length s = MT_N \<and> (\<forall>i<MT_N. s ! i = (if i < m then x (i + MT_N) else x i))"

lemma half_newD: "half_new x m s \<Longrightarrow> i < MT_N \<Longrightarrow> s ! i = (if i < m then x (i + MT_N) else x i)"
  by (simp add: half_new_def)

lemma half_new_step:
  assumes "mt_rec x" "half_new x m s" "m < MT_N" "v = twist (x (m + MT_M)) (x m) (x (m + 1))"
  shows "half_new x (Suc m) (s[m := v])"
  using assms unfolding half_new_def mt_rec_def by (auto simp: nth_list_update less_Suc_eq)

lemma foldl_half_new:
  assumes "half_new x a s" "\<And>p s. half_new x p s \<Longrightarrow> a \<le> p \<Longrightarrow> p < b \<Longrightarrow> half_new x (Suc p) (f s p)" "a \<le> b"
  shows "half_new x b (foldl f s [a..<b])"
  using assms(3,2)
proof (induction b rule: dec_induct)
  case base
  then show ?case using assms(1) by simp
next
  case (step m)
  then show ?case by simp
qed

lemma reload_new:
  assumes x: "mt_rec x" and s: "half_new x 0 s"
  shows "half_new x MT_N (reload_state s)"
proof -
  have NM: "MT_M < MT_N" "MT_N - MT_M < MT_M" "0 < MT_N - MT_M" by (simp_all add: MT_N_def MT_M_def)
  define s1 where "s1 = foldl (\<lambda>s p. s[p := twist (s ! (p + MT_M)) (s ! p) (s ! (p + 1))]) s [0..<MT_N - MT_M]"
  define s2 where "s2 = foldl (\<lambda>s p. s[p := twist (s ! (p - (MT_N - MT_M))) (s ! p) (s ! (p + 1))]) s1 [MT_N - MT_M..<MT_N - 1]"
  have s1: "half_new x (MT_N - MT_M) s1"
    unfolding s1_def
  proof (rule foldl_half_new[OF s])
    show "half_new x (Suc p) (t[p := twist (t ! (p + MT_M)) (t ! p) (t ! (p + 1))])" if "half_new x p t" "p < MT_N - MT_M" for p t
    proof (rule half_new_step[OF x that(1)])
      have "p < MT_N" "p + MT_M < MT_N" "p + 1 < MT_N" using that(2) NM by linarith+
      then show "p < MT_N" "twist (t ! (p + MT_M)) (t ! p) (t ! (p + 1)) = twist (x (p + MT_M)) (x p) (x (p + 1))"
        using half_newD[OF that(1)] by simp_all
    qed
  qed simp
  have s2: "half_new x (MT_N - 1) s2"
    unfolding s2_def
  proof (rule foldl_half_new[OF s1])
    show "half_new x (Suc p) (t[p := twist (t ! (p - (MT_N - MT_M))) (t ! p) (t ! (p + 1))])"
      if "half_new x p t" "MT_N - MT_M \<le> p" "p < MT_N - 1" for p t
    proof (rule half_new_step[OF x that(1)])
      have "p < MT_N" "p + 1 < MT_N" "p - (MT_N - MT_M) < p" "p - (MT_N - MT_M) + MT_N = p + MT_M" using that(2,3) NM by linarith+
      then show "p < MT_N" "twist (t ! (p - (MT_N - MT_M))) (t ! p) (t ! (p + 1)) = twist (x (p + MT_M)) (x p) (x (p + 1))"
        using half_newD[OF that(1)] by simp_all
    qed
  qed (use NM in linarith)
  have "half_new x (Suc (MT_N - 1)) (s2[MT_N - 1 := twist (s2 ! (MT_N - 1 - (MT_N - MT_M))) (s2 ! (MT_N - 1)) (s2 ! 0)])"
  proof (rule half_new_step[OF x s2])
    have a: "MT_N - 1 < MT_N" "MT_N - 1 - (MT_N - MT_M) < MT_N - 1" "MT_N - 1 - (MT_N - MT_M) + MT_N = MT_N - 1 + MT_M"
      "0 < MT_N - 1" "MT_N - 1 + 1 = 0 + MT_N"
      using NM by linarith+
    then show "MT_N - 1 < MT_N" "twist (s2 ! (MT_N - 1 - (MT_N - MT_M))) (s2 ! (MT_N - 1)) (s2 ! 0) = twist (x (MT_N - 1 + MT_M)) (x (MT_N - 1)) (x (MT_N - 1 + 1))"
      using half_newD[OF s2, of "MT_N - 1 - (MT_N - MT_M)"] half_newD[OF s2, of "MT_N - 1"] half_newD[OF s2, of 0] by simp_all
  qed
  then show ?thesis unfolding reload_state_def s1_def[symmetric] s2_def[symmetric] Let_def using NM by simp
qed

section \<open>The generator walks along the recurrence\<close>

text \<open>The state holds a block of \<open>x\<close> and the next word to hand out is \<open>x k\<close>.\<close>

definition mt_at :: "(nat \<Rightarrow> 64 word) \<Rightarrow> nat \<Rightarrow> mtrand \<Rightarrow> bool" where
  "mt_at x k g \<longleftrightarrow> length (mr_state g) = MT_N \<and> 0 \<le> mr_left g \<and> mr_left g \<le> int MT_N \<and> mr_next g = int MT_N - mr_left g \<and>
     (\<exists>b. (\<forall>i<MT_N. mr_state g ! i = x (b + i)) \<and> int b + mr_next g = int k)"

lemma reload_at:
  assumes "mt_rec x" "length (mr_state g) = MT_N" "\<forall>i<MT_N. mr_state g ! i = x (b + i)"
  shows "mt_at x (b + MT_N) (reload g)"
proof -
  have "half_new (\<lambda>n. x (b + n)) 0 (mr_state g)" using assms(2,3) by (simp add: half_new_def)
  from reload_new[OF mt_rec_shift[OF assms(1)] this]
  have "length (reload_state (mr_state g)) = MT_N" "\<forall>i<MT_N. reload_state (mr_state g) ! i = x (b + MT_N + i)"
    by (simp_all add: half_new_def ac_simps)
  then show ?thesis unfolding mt_at_def reload_def by (intro conjI exI[of _ "b + MT_N"]) simp_all
qed

lemma randInt_at:
  assumes x: "mt_rec x" and g: "mt_at x k g"
  shows "\<exists>g'. randInt g = Inr (temper (x k), g') \<and> mt_at x (Suc k) g'"
proof -
  define g1 where "g1 = (if mr_left g = 0 then reload g else g)"
  have "mt_at x k g1 \<and> 0 < mr_left g1"
  proof (cases "mr_left g = 0")
    case True
    have g': "length (mr_state g) = MT_N" "mr_next g = int MT_N" "\<exists>b. (\<forall>i<MT_N. mr_state g ! i = x (b + i)) \<and> int b + mr_next g = int k"
      using g True unfolding mt_at_def by (simp, simp, blast)
    then obtain b where b: "\<forall>i<MT_N. mr_state g ! i = x (b + i)" "int b + mr_next g = int k" by blast
    then have "k = b + MT_N" using g'(2) by simp
    then show ?thesis using reload_at[OF x g'(1) b(1)] True by (simp add: g1_def reload_def MT_N_def)
  qed (use g in \<open>auto simp: g1_def mt_at_def\<close>)
  then have g1: "length (mr_state g1) = MT_N" "0 < mr_left g1" "mr_left g1 \<le> int MT_N" "mr_next g1 = int MT_N - mr_left g1"
    "\<exists>b. (\<forall>i<MT_N. mr_state g1 ! i = x (b + i)) \<and> int b + mr_next g1 = int k" unfolding mt_at_def by meson+
  then obtain c where "\<forall>i<MT_N. mr_state g1 ! i = x (c + i)" "int c + mr_next g1 = int k" by blast
  note b = g1(1-4) this
  have n: "0 \<le> mr_next g1" "mr_next g1 < int (length (mr_state g1))" "nat (mr_next g1) < MT_N" "c + nat (mr_next g1) = k"
    using b by linarith+
  then have "mr_state g1 ! nat (mr_next g1) = x k" using b(5) by metis
  then have "randInt g = Inr (temper (x k), g1\<lparr>mr_left := mr_left g1 - 1, mr_next := mr_next g1 + 1\<rparr>)"
    using n unfolding randInt_def g1_def[symmetric] Let_def by simp
  moreover have "mt_at x (Suc k) (g1\<lparr>mr_left := mr_left g1 - 1, mr_next := mr_next g1 + 1\<rparr>)"
    using b n unfolding mt_at_def by (intro conjI exI[of _ c]) simp_all
  ultimately show ?thesis by blast
qed

text \<open>The first \<open>n\<close> numbers.\<close>

fun draws :: "nat \<Rightarrow> mtrand \<Rightarrow> (64 word list \<times> mtrand) result" where
  "draws 0 g = Inr ([], g)"
| "draws (Suc n) g = rbind (randInt g) (\<lambda>(r, g'). rbind (draws n g') (\<lambda>(rs, g''). Inr (r # rs, g'')))"

lemma draws_at:
  "mt_rec x \<Longrightarrow> mt_at x k g \<Longrightarrow> \<exists>g'. draws n g = Inr (map (\<lambda>i. temper (x (k + i))) [0..<n], g') \<and> mt_at x (k + n) g'"
proof (induction n arbitrary: k g)
  case (Suc n)
  obtain g1 where g1: "randInt g = Inr (temper (x k), g1)" "mt_at x (Suc k) g1" using randInt_at[OF Suc.prems] by blast
  obtain g' where g': "draws n g1 = Inr (map (\<lambda>i. temper (x (Suc k + i))) [0..<n], g')" "mt_at x (Suc k + n) g'"
    using Suc.IH[OF Suc.prems(1) g1(2)] by blast
  have "map (\<lambda>i. temper (x (k + i))) [0..<Suc n] = temper (x k) # map (\<lambda>i. temper (x (Suc k + i))) [0..<n]"
    unfolding map_upt_Suc by simp
  then show ?case using g1(1) g' by (simp del: upt_Suc)
qed simp

section \<open>Seeding\<close>

lemma initialize_ok: "length s = MT_N \<Longrightarrow> length (initialize seed s) = MT_N \<and> (\<forall>u\<in>set (initialize seed s). is32 u)"
proof -
  assume l: "length s = MT_N"
  define f where "f = (\<lambda>s i. s[i := low32 (1812433253 * (s ! (i - 1) XOR drop_bit 30 (s ! (i - 1))) + of_nat i)] :: 64 word list)"
  have "length (foldl f (s[0 := low32 seed]) [1..<m]) = MT_N \<and> (\<forall>i<m. is32 (foldl f (s[0 := low32 seed]) [1..<m] ! i))"
    if "1 \<le> m" "m \<le> MT_N" for m
    using that
  proof (induction m rule: dec_induct)
    case base
    then show ?case using l by simp
  next
    case (step m)
    then show ?case by (auto simp: f_def nth_list_update less_Suc_eq)
  qed
  from this[of MT_N] show ?thesis unfolding initialize_def f_def[symmetric] by (auto simp: MT_N_def in_set_conv_nth)
qed

lemma all_update: "\<forall>u\<in>set s. P u \<Longrightarrow> P v \<Longrightarrow> \<forall>u\<in>set (s[i := v]). P u"
  using set_update_subset_insert[of s i v] by blast

lemma seed_advance_ok:
  assumes "length s = MT_N" "\<forall>u\<in>set s. is32 u" "1 \<le> i" "i < MT_N" "seed_advance i s = (s', i')"
  shows "length s' = MT_N \<and> (\<forall>u\<in>set s'. is32 u) \<and> 1 \<le> i' \<and> i' < MT_N"
proof (cases "MT_N \<le> i + 1")
  case True
  have "is32 (s ! (MT_N - 1))" using assms(1,2) by (simp add: MT_N_def)
  then show ?thesis using True assms(1,5) all_update[OF assms(2), of "s ! (MT_N - 1)" 0] by (auto simp: seed_advance_def MT_N_def)
qed (use assms in \<open>auto simp: seed_advance_def\<close>)

lemma seed_mix_ok:
  "length s = MT_N \<Longrightarrow> \<forall>u\<in>set s. is32 u \<Longrightarrow> 1 \<le> i \<Longrightarrow> i < MT_N \<Longrightarrow> j < length big \<Longrightarrow>
   \<exists>s' i'. seed_mix big k i j s = Inr (s', i') \<and> length s' = MT_N \<and> (\<forall>u\<in>set s'. is32 u) \<and> 1 \<le> i' \<and> i' < MT_N"
proof (induction k arbitrary: i j s)
  case (Suc k)
  define v where "v = s ! i XOR ((s ! (i - 1) XOR drop_bit 30 (s ! (i - 1))) * 1664525)"
  obtain s1 i1 where a: "seed_advance i (s[i := low32 (v + (low32 (big ! j) + of_nat j))]) = (s1, i1)"
    by (cases "seed_advance i (s[i := low32 (v + (low32 (big ! j) + of_nat j))])")
  have "\<forall>u\<in>set (s[i := low32 (v + (low32 (big ! j) + of_nat j))]). is32 u" by (rule all_update[OF Suc.prems(2) is32_low32])
  from seed_advance_ok[OF _ this Suc.prems(3,4) a] have ok: "length s1 = MT_N" "\<forall>u\<in>set s1. is32 u" "1 \<le> i1" "i1 < MT_N"
    using Suc.prems(1) by simp_all
  have j: "(if length big \<le> j + 1 then 0 else j + 1) < length big" using Suc.prems(5) by auto
  have step: "seed_mix big (Suc k) i j s = seed_mix big k i1 (if length big \<le> j + 1 then 0 else j + 1) s1"
    unfolding seed_mix.simps(2) Let_def v_def[symmetric] a using Suc.prems(5) by simp
  show ?case unfolding step by (rule Suc.IH[OF ok j])
qed simp

lemma seed_finish_ok:
  "length s = MT_N \<Longrightarrow> \<forall>u\<in>set s. is32 u \<Longrightarrow> 1 \<le> i \<Longrightarrow> i < MT_N \<Longrightarrow>
   length (seed_finish k i s) = MT_N \<and> (\<forall>u\<in>set (seed_finish k i s). is32 u)"
proof (induction k arbitrary: i s)
  case (Suc k)
  define v where "v = s ! i XOR ((s ! (i - 1) XOR drop_bit 30 (s ! (i - 1))) * 1566083941)"
  obtain s1 i1 where a: "seed_advance i (s[i := low32 (v - of_nat i)]) = (s1, i1)"
    by (cases "seed_advance i (s[i := low32 (v - of_nat i)])")
  have "\<forall>u\<in>set (s[i := low32 (v - of_nat i)]). is32 u" by (rule all_update[OF Suc.prems(2) is32_low32])
  from seed_advance_ok[OF _ this Suc.prems(3,4) a] have ok: "length s1 = MT_N" "\<forall>u\<in>set s1. is32 u" "1 \<le> i1" "i1 < MT_N"
    using Suc.prems(1) by simp_all
  have step: "seed_finish (Suc k) i s = seed_finish k i1 s1" unfolding seed_finish.simps(2) Let_def v_def[symmetric] a by simp
  show ?case unfolding step by (rule Suc.IH[OF ok])
qed simp

lemma seeded_at:
  assumes "length s = MT_N"
  shows "mt_at (mt_seq s) MT_N (reload (g\<lparr>mr_state := s\<rparr>))"
  using reload_at[OF mt_seq_rec[of s], of "g\<lparr>mr_state := s\<rparr>" 0] assms by (simp add: mt_seq.simps[of s])

section \<open>Properties\<close>

text \<open>C20: The generator computes the recurrence it is named after: the n-th number after seeding is the
  tempered word n + 624 of the sequence that starts with the seeded state, however often the state was
  overwritten in place since; no access leaves the state, and every number fits 32 bits although the words
  have 64.\<close>

theorem twister_follows_recurrence:
  assumes "length (mr_state g) = MT_N"
  shows "\<exists>rs g'. draws n (seed_int seed g) = Inr (rs, g') \<and>
    rs = map (\<lambda>i. temper (mt_seq (initialize seed (mr_state g)) (MT_N + i))) [0..<n] \<and> list_all (\<lambda>r. unat r < 2 ^ 32) rs"
proof -
  let ?s = "initialize seed (mr_state g)"
  note s = initialize_ok[OF assms, of seed]
  have "is32 (temper (mt_seq ?s k))" for k using mt_seq_is32 s is32_temper by blast
  then have "unat (temper (mt_seq ?s k)) < 2 ^ 32" for k by (simp add: is32_unat)
  moreover have "\<exists>g'. draws n (seed_int seed g) = Inr (map (\<lambda>i. temper (mt_seq ?s (MT_N + i))) [0..<n], g')"
    using draws_at[OF mt_seq_rec seeded_at[of ?s g], of n] s by (auto simp: seed_int_def)
  ultimately show ?thesis by (auto simp: list_all_iff)
qed

theorem twister_follows_recurrence_witness:
  "\<exists>rs g'. draws 10000 (seed_int 123 \<lparr>mr_state = replicate 624 0, mr_next = 0, mr_left = 0\<rparr>) = Inr (rs, g') \<and>
    rs = map (\<lambda>i. temper (mt_seq (initialize 123 (replicate 624 0)) (MT_N + i))) [0..<10000] \<and> list_all (\<lambda>r. unat r < 2 ^ 32) rs"
  using twister_follows_recurrence[of "\<lparr>mr_state = replicate 624 0, mr_next = 0, mr_left = 0\<rparr>" 10000 123]
  by (simp only: mtrand.select_convs length_replicate MT_N_def simp_thms)

text \<open>C21: The generator can be saved and loaded, or copied: the loaded generator and the copy are the saved
  one, its \<open>pNext\<close> recomputed from \<open>left\<close>, after any number of draws from a seeded generator.\<close>

theorem save_then_load:
  assumes "length (mr_state g0) = MT_N" "draws n (seed_int seed g0) = Inr (rs, g)"
  shows "mt_load (mt_save g) = Inr g \<and> mt_copy g = g"
proof -
  have "mt_at (mt_seq (initialize seed (mr_state g0))) (MT_N + n) g"
    using draws_at[OF mt_seq_rec seeded_at[of "initialize seed (mr_state g0)" g0], of n] initialize_ok[OF assms(1)] assms(2)
    by (auto simp: seed_int_def)
  then have g: "length (mr_state g) = MT_N" "0 \<le> mr_left g" "mr_left g \<le> int MT_N" "mr_next g = int MT_N - mr_left g"
    by (simp_all add: mt_at_def)
  obtain l where l: "mr_left g = int l" "l \<le> 624" using g(2,3) by (metis MT_N_def nonneg_int_cases of_nat_le_iff)
  have "sint (ucast (of_nat l :: 64 word) :: 32 word) = int l"
    using l(2) by (simp add: unsigned_of_nat take_bit_nat_eq_self signed_of_nat signed_take_bit_int_eq_self)
  moreover have "(mr_state g @ [of_int (mr_left g)]) ! MT_N = of_nat l" using g(1) l(1) by (metis nth_append_length of_int_of_nat_eq)
  ultimately have "mt_load (mt_save g) = Inr \<lparr>mr_state = mr_state g, mr_next = int MT_N - mr_left g, mr_left = mr_left g\<rparr>"
    using g(1) l(1) by (simp add: mt_load_def mt_save_def Let_def)
  then show ?thesis using g(1,4) by (simp add: mt_copy_def)
qed

theorem save_then_load_witness:
  "\<exists>rs g. draws 0 (seed_int 123 \<lparr>mr_state = replicate 624 0, mr_next = 0, mr_left = 0\<rparr>) = Inr (rs, g) \<and>
    mt_load (mt_save g) = Inr g \<and> mt_copy g = g"
  using save_then_load[of "\<lparr>mr_state = replicate 624 0, mr_next = 0, mr_left = 0\<rparr>" 0 123 "[]"
      "seed_int 123 \<lparr>mr_state = replicate 624 0, mr_next = 0, mr_left = 0\<rparr>"]
  unfolding draws.simps mtrand.select_convs length_replicate MT_N_def by blast

text \<open>Seeding with an array reads only the array when it has a word, whatever its length, and gives a
  generator that walks along some sequence of the recurrence with 32-bit words; an empty array is read
  beyond its end.\<close>

theorem seed_array_outcome:
  assumes "length (mr_state g) = MT_N"
  shows "case seed_array big g of Inl e \<Rightarrow> big = [] \<and> e = OutOfBounds
    | Inr g' \<Rightarrow> big \<noteq> [] \<and> (\<exists>x. mt_rec x \<and> (\<forall>k. is32 (x k)) \<and> mt_at x MT_N g')"
proof (cases "big = []")
  case True
  have "0 < max MT_N (length big)" by (simp add: MT_N_def)
  then obtain k where "max MT_N (length big) = Suc k" using gr0_implies_Suc by blast
  then have "seed_array big g = Inl OutOfBounds" using True by (simp add: seed_array_def del: max.absorb1 max.absorb2 list.size(3))
  then show ?thesis using True by simp
next
  case False
  note i = initialize_ok[OF assms, of 19650218]
  obtain s j where s: "seed_mix big (max MT_N (length big)) 1 0 (initialize 19650218 (mr_state g)) = Inr (s, j)"
    "length s = MT_N" "\<forall>u\<in>set s. is32 u" "1 \<le> j" "j < MT_N"
    using seed_mix_ok[of "initialize 19650218 (mr_state g)" 1 0 big "max MT_N (length big)"] i False by (auto simp: MT_N_def)
  define t where "t = (seed_finish (MT_N - 1) j s)[0 := 0x80000000]"
  have f: "length (seed_finish (MT_N - 1) j s) = MT_N" "\<forall>u\<in>set (seed_finish (MT_N - 1) j s). is32 u"
    using seed_finish_ok[OF s(2,3,4,5)] by blast+
  have t: "length t = MT_N" "\<forall>u\<in>set t. is32 u" using f(1) all_update[OF f(2) is32_const(2), of 0] by (simp_all add: t_def)
  have "seed_array big g = Inr (reload (g\<lparr>mr_state := t\<rparr>))" unfolding seed_array_def s(1) t_def by simp
  moreover have "\<exists>x. mt_rec x \<and> (\<forall>k. is32 (x k)) \<and> mt_at x MT_N (reload (g\<lparr>mr_state := t\<rparr>))"
    using mt_seq_rec[of t] mt_seq_is32[OF t] seeded_at[OF t(1), of g] by blast
  ultimately show ?thesis using False by simp
qed

theorem seed_array_outcome_witness:
  "case seed_array [0x123, 0x234, 0x345, 0x456] \<lparr>mr_state = replicate 624 0, mr_next = 0, mr_left = 0\<rparr> of
      Inl e \<Rightarrow> [0x123, 0x234, 0x345, 0x456] = ([] :: 64 word list) \<and> e = OutOfBounds
    | Inr g' \<Rightarrow> [0x123, 0x234, 0x345, 0x456] \<noteq> ([] :: 64 word list) \<and> (\<exists>x. mt_rec x \<and> (\<forall>k. is32 (x k)) \<and> mt_at x MT_N g')"
  by (rule seed_array_outcome) (simp add: MT_N_def)

section \<open>The tempering\<close>

lemma xor_drop_inj:
  fixes u v :: "64 word"
  assumes "u XOR drop_bit n u = v XOR drop_bit n v" "0 < n"
  shows "u = v"
proof -
  have step: "bit u i = bit v i" if "bit u (i + n) = bit v (i + n)" "i < 64" for i
    using arg_cong[OF assms(1), of "\<lambda>w. bit w i"] that by (auto simp: bit_simps ac_simps)
  have "64 - i \<le> m \<Longrightarrow> bit u i = bit v i" for i m
  proof (induction m arbitrary: i)
    case 0
    then show ?case using bit_imp_le_length[of u i] bit_imp_le_length[of v i] by auto
  next
    case (Suc m)
    show ?case
    proof (cases "i < 64")
      case True
      then show ?thesis using step[OF Suc.IH[of "i + n"]] Suc.prems assms(2) by simp
    next
      case False
      then show ?thesis using bit_imp_le_length[of u i] bit_imp_le_length[of v i] by auto
    qed
  qed
  then show ?thesis by (intro bit_eqI) blast
qed

lemma xor_push_inj:
  fixes u v :: "64 word"
  assumes "u XOR (push_bit n u AND m) = v XOR (push_bit n v AND m)" "0 < n"
  shows "u = v"
proof -
  have "i < 64 \<Longrightarrow> bit u i = bit v i" for i
  proof (induction i rule: less_induct)
    case (less i)
    have "i < n \<or> bit u (i - n) = bit v (i - n)" using less assms(2) by (cases "i < n") auto
    then show ?case using arg_cong[OF assms(1), of "\<lambda>w. bit w i"] less.prems by (auto simp: bit_simps)
  qed
  then show ?thesis by (intro bit_eqI) auto
qed

text \<open>The tempering loses nothing: different state words give different random numbers, so that the
  numbers are as equidistributed as the words of the recurrence.\<close>

theorem temper_injective: "inj temper"
proof (rule injI)
  fix u v assume "temper u = temper v"
  then show "u = v"
    unfolding temper_def Let_def by (drule_tac xor_drop_inj, simp) (drule xor_push_inj, simp, drule xor_push_inj, simp, drule xor_drop_inj, simp)
qed

section \<open>Ranges\<close>

lemma draw_at:
  assumes "mt_rec x" "mt_at x k g"
  shows "\<exists>g'. draw f g = Inr (f (temper (x k)), g') \<and> mt_at x (Suc k) g'"
  using randInt_at[OF assms] by (auto simp: draw_def)

lemma unsigned_real_ge_0 [simp]: "0 \<le> (unsigned (w :: 64 word) :: real)"
  by (metis of_nat_0_le_iff of_nat_unat)

lemma unit_ranges:
  assumes "is32 u"
  shows "real (unat u) * (1 / 4294967295) \<in> {0..1}" "real (unat u) * (1 / 4294967296) \<in> {0..<1}"
    "(real (unat u) + 1 / 2) * (1 / 4294967296) \<in> {0<..<1}"
proof -
  have "unat u < 2 ^ 32" using assms by (simp add: is32_unat)
  then have "unat u \<le> 4294967295" by simp
  then have "real (unat u) \<le> real 4294967295" by (simp only: of_nat_le_iff)
  then have "real (unat u) \<le> 4294967295" by simp
  then show "real (unat u) * (1 / 4294967295) \<in> {0..1}" "real (unat u) * (1 / 4294967296) \<in> {0..<1}"
    "(real (unat u) + 1 / 2) * (1 / 4294967296) \<in> {0<..<1}" using of_nat_0_le_iff[of "unat u", where 'a=real]
    by (simp_all add: add_nonneg_pos del: of_nat_0_le_iff)
qed

lemma rand53_range:
  assumes "is32 a" "is32 b"
  shows "(real (unat (drop_bit 5 a)) * 67108864 + real (unat (drop_bit 6 b))) * (1 / 9007199254740992) \<in> {0..<1}"
proof -
  have a: "unat a < 2 ^ 32" "unat b < 2 ^ 32" using assms by (simp_all add: is32_unat)
  have "unat (drop_bit 5 a) = unat a div 2 ^ 5" "unat (drop_bit 6 b) = unat b div 2 ^ 6"
    unfolding unat_drop_bit_eq by (rule drop_bit_eq_div)+
  then have "unat (drop_bit 5 a) \<le> 134217727" "unat (drop_bit 6 b) \<le> 67108863" using a by simp_all
  then have "unat (drop_bit 5 a) * 67108864 + unat (drop_bit 6 b) \<le> 134217727 * 67108864 + 67108863"
    by (intro add_mono mult_right_mono) simp_all
  then have "real (unat (drop_bit 5 a) * 67108864 + unat (drop_bit 6 b)) \<le> real (134217727 * 67108864 + 67108863)" by (simp only: of_nat_le_iff)
  then show ?thesis by simp
qed

text \<open>Each access function stays in the interval its comment gives, at every point of every seeded
  generator, and succeeds there.\<close>

theorem access_ranges:
  assumes "length (mr_state g0) = MT_N" "draws n (seed_int seed g0) = Inr (rs, g)"
  shows "\<exists>r1 r2 r3 r4. map_sum (\<lambda>e. e) fst (mt_rand g) = Inr r1 \<and> map_sum (\<lambda>e. e) fst (randExc g) = Inr r2 \<and>
    map_sum (\<lambda>e. e) fst (randDblExc g) = Inr r3 \<and> map_sum (\<lambda>e. e) fst (rand53 g) = Inr r4 \<and>
    r1 \<in> {0..1} \<and> r2 \<in> {0..<1} \<and> r3 \<in> {0<..<1} \<and> r4 \<in> {0..<1}"
proof -
  define x where "x = mt_seq (initialize seed (mr_state g0))"
  have x: "mt_rec x" by (simp add: x_def mt_seq_rec)
  have i: "is32 (temper (x k))" for k using mt_seq_is32 initialize_ok[OF assms(1)] is32_temper by (simp add: x_def)
  have g: "mt_at x (MT_N + n) g"
    using draws_at[OF x seeded_at[of "initialize seed (mr_state g0)" g0, folded x_def], of n] initialize_ok[OF assms(1)] assms(2)
    by (auto simp: seed_int_def)
  obtain g1 where g1: "randInt g = Inr (temper (x (MT_N + n)), g1)" "mt_at x (Suc (MT_N + n)) g1" using randInt_at[OF x g] by blast
  obtain g2 where g2: "randInt g1 = Inr (temper (x (Suc (MT_N + n))), g2)" using randInt_at[OF x g1(2)] by blast
  have "map_sum (\<lambda>e. e) fst (mt_rand g) = Inr (real (unat (temper (x (MT_N + n)))) * (1 / 4294967295))"
    "map_sum (\<lambda>e. e) fst (randExc g) = Inr (real (unat (temper (x (MT_N + n)))) * (1 / 4294967296))"
    "map_sum (\<lambda>e. e) fst (randDblExc g) = Inr ((real (unat (temper (x (MT_N + n)))) + 1 / 2) * (1 / 4294967296))"
    "map_sum (\<lambda>e. e) fst (rand53 g) = Inr ((real (unat (drop_bit 5 (temper (x (MT_N + n))))) * 67108864 +
      real (unat (drop_bit 6 (temper (x (Suc (MT_N + n))))))) * (1 / 9007199254740992))"
    unfolding mt_rand_def randExc_def randDblExc_def rand53_def draw_def
    by (simp_all only: g1(1) g2 rbind_Inr prod.case map_sum.simps fst_conv)
  then show ?thesis
    using unit_ranges[OF i[of "MT_N + n"]] rand53_range[OF i[of "MT_N + n"] i[of "Suc (MT_N + n)"]] by blast
qed

theorem access_ranges_witness:
  "\<exists>rs g r1 r2 r3 r4. draws 0 (seed_int 123 \<lparr>mr_state = replicate 624 0, mr_next = 0, mr_left = 0\<rparr>) = Inr (rs, g) \<and>
    map_sum (\<lambda>e. e) fst (mt_rand g) = Inr r1 \<and> map_sum (\<lambda>e. e) fst (randExc g) = Inr r2 \<and>
    map_sum (\<lambda>e. e) fst (randDblExc g) = Inr r3 \<and> map_sum (\<lambda>e. e) fst (rand53 g) = Inr r4 \<and>
    r1 \<in> {0..1} \<and> r2 \<in> {0..<1} \<and> r3 \<in> {0<..<1} \<and> r4 \<in> {0..<1}"
  using access_ranges[of "\<lparr>mr_state = replicate 624 0, mr_next = 0, mr_left = 0\<rparr>" 0 123 "[]"
      "seed_int 123 \<lparr>mr_state = replicate 624 0, mr_next = 0, mr_left = 0\<rparr>"]
  unfolding draws.simps mtrand.select_convs length_replicate MT_N_def by blast

end
