(* ===== verification/Sim_Program.thy ===== *)
theory Sim_Program
  imports Monte_Carlo Mersenne_Twister
begin

text \<open>
  The simulation program \<open>security/0_loss_probability/monte_carlo/sim.cpp\<close> as it runs: the loop of
  \<open>sim_monte_carlo\<close> with the generator of \<open>mtrand.h\<close> drawn once for every activation, and \<open>main\<close>, which
  seeds the generator with 123 and simulates the five tracker sizes one after the other with it.  The
  theorems relate the program to the loop of \<open>Monte_Carlo\<close>, whose draws are given.  Doubles are reals.
\<close>

section \<open>The program\<close>

definition mt_below :: "nat \<Rightarrow> real \<Rightarrow> bool" where
  "mt_below trefi r \<longleftrightarrow> r < 1 / real trefi"

definition prog_body :: "nat \<Rightarrow> nat \<Rightarrow> mtrand \<Rightarrow> mc_tracker \<Rightarrow> (mtrand \<times> mc_tracker) result" where
  "prog_body trefi act_count g t =
     rbind (if act_count mod trefi = 0 then do_refresh t else Inr t)
       (\<lambda>t1. rbind (mt_rand g) (\<lambda>(r, g').
          if mt_below trefi r
          then (let pos = act_count mod trefi; addr = pos in
                rbind (mc_tracker_insert t1 addr pos) (\<lambda>t2. Inr (g', t2)))
          else Inr (g', t1)))"

function prog_loop :: "nat \<Rightarrow> nat \<Rightarrow> nat \<Rightarrow> mtrand \<Rightarrow> mc_tracker \<Rightarrow> (mtrand \<times> mc_tracker) result" where
  "prog_loop max_iter trefi act_count g t =
     (if trefi = 0 then Inl DivideByZero
      else if act_count div trefi < max_iter then
        (case prog_body trefi act_count g t of
           Inl e \<Rightarrow> Inl e
         | Inr (g', t') \<Rightarrow> prog_loop max_iter trefi (act_count + 1) g' t')
      else Inr (g, t))"
  by pat_completeness auto
termination
  by (relation "measure (\<lambda>(max_iter, trefi, act_count, g, t). trefi * max_iter - act_count)")
     (auto simp: div_less_iff_less_mult mult.commute intro!: diff_less_mono2)

declare prog_loop.simps [simp del]

definition prog_monte_carlo :: "nat \<Rightarrow> nat \<Rightarrow> nat \<Rightarrow> mtrand \<Rightarrow> (real \<times> mtrand) result" where
  "prog_monte_carlo max_iter trefi tracker_size g =
     rbind (prog_loop max_iter trefi 0 g (mc_tracker_new tracker_size))
       (\<lambda>(g', t). Inr (mc_get_loss_prob trefi t, g'))"

text \<open>\<open>main\<close>: the loop over the windows runs once, for the first of \<open>trefis\<close>.\<close>

definition sim_trefis :: "nat list" where "sim_trefis = [79, 40, 16]"
definition sim_sizes :: "nat list" where "sim_sizes = [1, 2, 4, 8, 16]"

fun prog_sizes :: "nat \<Rightarrow> nat \<Rightarrow> nat list \<Rightarrow> mtrand \<Rightarrow> (real list \<times> mtrand) result" where
  "prog_sizes max_iter trefi [] g = Inr ([], g)"
| "prog_sizes max_iter trefi (n # ns) g =
     rbind (prog_monte_carlo max_iter trefi n g) (\<lambda>(p, g'). rbind (prog_sizes max_iter trefi ns g') (\<lambda>(ps, g''). Inr (p # ps, g'')))"

definition prog_main :: "mtrand \<Rightarrow> (real list \<times> mtrand) result" where
  "prog_main g = prog_sizes MAX_ITER (sim_trefis ! 0) sim_sizes (seed_int 123 g)"

section \<open>The draws\<close>

text \<open>Which activations the sequence selects, from its word \<open>b\<close> on.\<close>

definition seq_hits :: "(nat \<Rightarrow> 64 word) \<Rightarrow> nat \<Rightarrow> nat \<Rightarrow> nat \<Rightarrow> bool" where
  "seq_hits x trefi b j = mt_below trefi (real (unat (temper (x (b + j)))) * (1 / 4294967295))"

lemma mt_rand_at:
  assumes "mt_rec x" "mt_at x k g"
  shows "\<exists>g'. mt_rand g = Inr (real (unat (temper (x k))) * (1 / 4294967295), g') \<and> mt_at x (Suc k) g'"
  unfolding mt_rand_def by (rule draw_at[OF assms])

lemma prog_body_sim:
  assumes "mt_rec x" "mt_at x (b + k) g" "sim_body trefi (seq_hits x trefi b) k t = Inr t'"
  shows "\<exists>g'. prog_body trefi k g t = Inr (g', t') \<and> mt_at x (Suc (b + k)) g'"
proof -
  obtain g' where g': "mt_rand g = Inr (real (unat (temper (x (b + k)))) * (1 / 4294967295), g')" "mt_at x (Suc (b + k)) g'"
    using mt_rand_at[OF assms(1,2)] by blast
  have "prog_body trefi k g t = rbind (sim_body trefi (seq_hits x trefi b) k t) (\<lambda>t2. Inr (g', t2))"
    unfolding prog_body_def sim_body_def seq_hits_def rbind_assoc g'(1) rbind_Inr prod.case Let_def
    by (rule arg_cong[where f = "rbind _"], rule ext) simp
  then show ?thesis using g'(2) assms(3) by simp
qed

lemma prog_loop_sim:
  "0 < trefi \<Longrightarrow> mt_rec x \<Longrightarrow> mt_at x (b + k) g \<Longrightarrow> k \<le> trefi * max_iter \<Longrightarrow>
    sim_loop max_iter trefi (seq_hits x trefi b) k t = Inr t' \<Longrightarrow>
    \<exists>g'. prog_loop max_iter trefi k g t = Inr (g', t') \<and> mt_at x (b + trefi * max_iter) g'"
proof (induction max_iter trefi "seq_hits x trefi b" k t arbitrary: g rule: sim_loop.induct)
  case (1 max_iter trefi k t)
  have lt: "k div trefi < max_iter \<longleftrightarrow> k < trefi * max_iter"
    using "1.prems"(1) by (simp add: div_less_iff_less_mult mult.commute)
  show ?case
  proof (cases "k div trefi < max_iter")
    case True
    obtain t1 where t1: "sim_body trefi (seq_hits x trefi b) k t = Inr t1" "sim_loop max_iter trefi (seq_hits x trefi b) (k + 1) t1 = Inr t'"
      using "1.prems"(1,5) True by (subst (asm) sim_loop.simps) (simp split: sum.splits if_splits)
    obtain g1 where g1: "prog_body trefi k g t = Inr (g1, t1)" "mt_at x (b + (k + 1)) g1"
      using prog_body_sim[OF "1.prems"(2,3) t1(1)] by auto
    have k: "k + 1 \<le> trefi * max_iter" using True lt by simp
    obtain g' where "prog_loop max_iter trefi (k + 1) g1 t1 = Inr (g', t')" "mt_at x (b + trefi * max_iter) g'"
      using "1.hyps"[OF _ True t1(1) "1.prems"(1,2) g1(2) k t1(2)] "1.prems"(1) by auto
    then show ?thesis using "1.prems"(1) True g1(1) by (subst prog_loop.simps) simp
  next
    case False
    then have "k = trefi * max_iter" using lt "1.prems"(4) by simp
    moreover have "t' = t" using "1.prems"(1,5) False by (subst (asm) sim_loop.simps) simp
    ultimately show ?thesis using "1.prems"(1,3) False by (subst prog_loop.simps) simp
  qed
qed

lemma prog_monte_carlo_sim:
  assumes "0 < trefi" "trefi \<le> MAX_POS" "0 < n" "n < 2147483648" "mt_rec x" "mt_at x b g"
  shows "\<exists>p g'. prog_monte_carlo max_iter trefi n g = Inr (p, g') \<and> mt_at x (b + trefi * max_iter) g' \<and>
    sim_monte_carlo max_iter trefi (seq_hits x trefi b) n = Inr p \<and> 0 \<le> p \<and> p \<le> 1"
proof -
  obtain t where t: "sim_loop max_iter trefi (seq_hits x trefi b) 0 (mc_tracker_new n) = Inr t" "mc_wf t"
    using sim_loop_spec[OF mc_new_wf[OF assms(3,4)] assms(1,2)] by blast
  obtain g' where "prog_loop max_iter trefi 0 g (mc_tracker_new n) = Inr (g', t)" "mt_at x (b + trefi * max_iter) g'"
    using prog_loop_sim[OF assms(1,5) _ _ t(1), of g] assms(6) by auto
  then show ?thesis
    using t mc_loss_max_bounds[OF t(2), of "[0..<trefi]" 0] assms(2)
    by (simp add: prog_monte_carlo_def sim_monte_carlo_def mc_get_loss_prob_def)
qed

lemma prog_sizes_sim:
  assumes "0 < trefi" "trefi \<le> MAX_POS" "mt_rec x"
  shows "list_all (\<lambda>n. 0 < n \<and> n < 2147483648) ns \<Longrightarrow> mt_at x b g \<Longrightarrow>
    \<exists>ps g'. prog_sizes max_iter trefi ns g = Inr (ps, g') \<and> list_all (\<lambda>p. 0 \<le> p \<and> p \<le> 1) ps \<and>
      map (\<lambda>i. sim_monte_carlo max_iter trefi (seq_hits x trefi (b + i * (trefi * max_iter))) (ns ! i)) [0..<length ns] = map Inr ps"
proof (induction ns arbitrary: b g)
  case (Cons n ns)
  let ?m = "trefi * max_iter"
  obtain p g1 where p: "prog_monte_carlo max_iter trefi n g = Inr (p, g1)" "mt_at x (b + ?m) g1"
    "sim_monte_carlo max_iter trefi (seq_hits x trefi b) n = Inr p" "0 \<le> p \<and> p \<le> 1"
    using prog_monte_carlo_sim[OF assms(1,2) _ _ assms(3) Cons.prems(2), of n max_iter] Cons.prems(1) by auto
  obtain ps g' where ps: "prog_sizes max_iter trefi ns g1 = Inr (ps, g')" "list_all (\<lambda>p. 0 \<le> p \<and> p \<le> 1) ps"
    "map (\<lambda>i. sim_monte_carlo max_iter trefi (seq_hits x trefi (b + ?m + i * ?m)) (ns ! i)) [0..<length ns] = map Inr ps"
    using Cons.IH[OF _ p(2)] Cons.prems(1) by auto
  have "map (\<lambda>i. sim_monte_carlo max_iter trefi (seq_hits x trefi (b + i * ?m)) ((n # ns) ! i)) [0..<length (n # ns)] = map Inr (p # ps)"
    unfolding length_Cons map_upt_Suc list.map mult_Suc add.assoc[symmetric] nth_Cons_0 nth_Cons_Suc mult_0 add_0_right p(3) ps(3) by (rule refl)
  then show ?case using p(1,4) ps(1,2) by (simp del: upt_Suc)
qed simp

section \<open>Properties\<close>

text \<open>C19: The program: \<open>sim.cpp\<close> seeds the twister with 123 and finishes, no index of the generator or of the
  trackers out of range; the five loss probabilities it prints are probabilities, and the i-th is what the
  loop of the simulation gives when the activations selected are those whose draw, the tempered words of
  the twister's recurrence from 624 + i times the length of a simulation on, is below 1/79: every
  activation takes one number, and each tracker size continues where the last one stopped.\<close>

theorem program_simulates_twister:
  assumes "length (mr_state g) = MT_N"
  shows "\<exists>ps g'. prog_main g = Inr (ps, g') \<and> list_all (\<lambda>p. 0 \<le> p \<and> p \<le> 1) ps \<and>
    map (\<lambda>i. sim_monte_carlo MAX_ITER 79
        (seq_hits (mt_seq (initialize 123 (mr_state g))) 79 (MT_N + i * (79 * MAX_ITER))) (sim_sizes ! i)) [0..<5] = map Inr ps"
proof -
  have sizes: "list_all (\<lambda>n. 0 < n \<and> n < 2147483648) sim_sizes" "length sim_sizes = 5" by (simp_all add: sim_sizes_def)
  have tr: "sim_trefis ! 0 = 79" "0 < (79 :: nat)" "79 \<le> MAX_POS" by (simp_all add: sim_trefis_def MAX_POS_def)
  have at: "mt_at (mt_seq (initialize 123 (mr_state g))) MT_N (seed_int 123 g)"
    using seeded_at[of "initialize 123 (mr_state g)" g] initialize_ok[OF assms] by (simp add: seed_int_def)
  show ?thesis
    using prog_sizes_sim[OF tr(2,3) mt_seq_rec sizes(1) at, of MAX_ITER] unfolding prog_main_def tr(1) sizes(2) .
qed

theorem program_simulates_twister_witness:
  "\<exists>ps g'. prog_main \<lparr>mr_state = replicate 624 0, mr_next = 0, mr_left = 0\<rparr> = Inr (ps, g') \<and>
    list_all (\<lambda>p. 0 \<le> p \<and> p \<le> 1) ps \<and>
    map (\<lambda>i. sim_monte_carlo MAX_ITER 79
        (seq_hits (mt_seq (initialize 123 (replicate 624 0))) 79 (MT_N + i * (79 * MAX_ITER))) (sim_sizes ! i)) [0..<5] = map Inr ps"
  using program_simulates_twister[of "\<lparr>mr_state = replicate 624 0, mr_next = 0, mr_left = 0\<rparr>"]
  by (simp only: mtrand.select_convs length_replicate MT_N_def simp_thms)

end
