(* ===== verification/Throttle_Effect.thy ===== *)
theory Throttle_Effect
  imports Ctrl_Safety
begin

text \<open>
  What a decision of BlockHammer does in the memory controller.  \<open>MemCtrl::doBurstAccess\<close> copies the delay
  \<open>MC_delay\<close> into the packet together with the table delay, where only the response reads it: the lemmas
  show that a burst on the DRAM depends on a decision through its bubble, bank and bus delays alone, and
  BlockHammer's are zero.
\<close>

section \<open>Packets without a decision\<close>

text \<open>The packet with the decision members of \<open>MemPacket\<close> as its constructor sets them.\<close>

definition undecided :: "mem_packet \<Rightarrow> mem_packet" where
  "undecided p = p\<lparr>mp_rh_injectDelay := False, mp_rh_bubbleSize := 0, mp_rh_SRAMDelay := 0, mp_rh_bankDelay := 0,
     mp_rh_busDelay := 0, mp_rh_defense := rh_none\<rparr>"

definition delays_nothing :: "mem_packet \<Rightarrow> bool" where
  "delays_nothing p \<longleftrightarrow> mp_rh_bubbleSize p = 0 \<and> mp_rh_bankDelay p = 0 \<and> mp_rh_busDelay p = 0"

lemma undecided_sel [simp]:
  "mp_rank (undecided p) = mp_rank p" "mp_bank (undecided p) = mp_bank p" "mp_row (undecided p) = mp_row p"
  "mp_read (undecided p) = mp_read p" "mp_bankId (undecided p) = mp_bankId p" "mp_readyTime (undecided p) = mp_readyTime p"
  "mp_entryTime (undecided p) = mp_entryTime p" "mp_size (undecided p) = mp_size p" "mp_dram (undecided p) = mp_dram p"
  "\<not> mp_rh_injectDelay (undecided p)"
  "(undecided p)\<lparr>mp_readyTime := t\<rparr> = undecided (p\<lparr>mp_readyTime := t\<rparr>)"
  by (simp_all add: undecided_def)

lemma undecided_idem [simp]: "undecided (undecided p) = undecided p"
  by (simp add: undecided_def)

lemma undecided_apply [simp]: "undecided (apply_decision m dec p) = undecided p"
  by (simp add: undecided_def apply_decision_def)

lemma delays_nothing_ready [simp]: "delays_nothing (p\<lparr>mp_readyTime := t\<rparr>) = delays_nothing p"
  by (simp add: delays_nothing_def)

section \<open>A burst that does not read the decision\<close>

lemma obind_assoc: "obind (obind m f) g = obind m (\<lambda>x. obind (f x) g)"
  by (simp add: obind_def split: option.split sum.split)

lemma obind_if: "obind (if b then x else y) f = (if b then obind x f else obind y f)"
  by simp

lemma scan_queue_undecided: "scan_queue (undecided p) ps st = scan_queue p ps st"
proof (induction ps arbitrary: st)
  case (Cons q ps)
  then show ?case by (cases st) (simp add: Let_def)
qed simp

lemma scan_queues_undecided: "scan_queues (undecided p) qs st = scan_queues p qs st"
  by (induction qs arbitrary: st) (simp_all add: Let_def scan_queue_undecided)

lemma burst_cmd_undecided:
  "delays_nothing p \<Longrightarrow> burst_cmd d W now B r (undecided p) N = burst_cmd d W now B r p N"
  by (simp add: burst_cmd_def delays_nothing_def Let_def)

lemma auto_precharge_undecided: "auto_precharge d k (undecided p) others = auto_precharge d k p others"
  by (simp only: auto_precharge_def scan_queues_undecided)

lemma burst_bank_undecided: "burst_bank d (undecided p) c = burst_bank d p c"
  by (rule ext) (simp only: burst_bank_def undecided_sel)

lemma burst_finish_undecided:
  "burst_finish d W now B r (undecided p) others c = burst_finish d W now B r p others c"
  by (simp only: burst_finish_def undecided_sel auto_precharge_undecided burst_bank_undecided)

lemma burst_stats_undecided: "burst_stats d s (undecided p) hit c = burst_stats d s p hit c"
  by (simp add: burst_stats_def)

lemma doBurst_undecided:
  assumes "delays_nothing p"
  shows "dram_doBurstAccess d W now B s (undecided p) N others =
    obind (dram_doBurstAccess d W now B s p N others) (\<lambda>(B', s', p', act, c, nb). ok (B', s', undecided p', act, c, nb))"
proof -
  have z: "mp_rh_bankDelay p = 0" "mp_rh_busDelay p = 0" using assms by (simp_all add: delays_nothing_def)
  show ?thesis
    by (simp only: dram_doBurstAccess_def Let_def split_def obind_if obind_assoc obind_failed obind_ok fst_conv snd_conv
        undecided_sel burst_cmd_undecided[OF assms] burst_finish_undecided burst_stats_undecided z simp_thms if_False add_0_right if_cancel)
qed

lemma doBurst_packet:
  assumes "dram_doBurstAccess d W now B s p N others = ok (B', s', p', act, c, nb)"
  shows "\<exists>t. p' = p\<lparr>mp_readyTime := t\<rparr>"
  using assms unfolding dram_doBurstAccess_def Let_def
  by (auto simp only: obind_eq_ok split_def split: if_splits)

section \<open>The controller with BlockHammer\<close>

lemma bh_access_decision:
  assumes "bh_access f now row bank rank ch = Inr f'"
  shows "d_delay (bh_decision f') = 0 \<and> d_bank_delay (bh_decision f') = 0 \<and> d_bus_delay (bh_decision f') = 0"
  using assms unfolding bh_access_def Let_def
  by (auto simp: rbind_eq_Inr_iff resetDecision_def split: if_splits)

text \<open>The counter of a row is chosen by bank and row number alone: the same row of another rank shares it.\<close>

lemma bh_access_ignores_rank: "bh_access f now row bank rank ch = bh_access f now row bank rank' ch'"
  by (simp only: bh_access_def)

lemma rh_check_blockhammer:
  assumes "ct_rh_defense c = Some (BH f)" "delays_nothing p" "rh_check rnd c now p act = Inr (c1, p1)"
  shows "delays_nothing p1 \<and> undecided p1 = undecided p \<and> (\<exists>f'. c1 = c\<lparr>ct_rh_defense := Some (BH f')\<rparr> \<and>
    (if act then bh_access f now (mp_row p) (mp_bank p) (mp_rank p) 0 = Inr f' \<and>
       mp_rh_SRAMDelay p1 = d_SRAM_delay (bh_decision f') + d_MC_delay (bh_decision f') else f' = f))"
proof (cases act)
  case True
  obtain f' where f': "bh_access f now (mp_row p) (mp_bank p) (mp_rank p) 0 = Inr f'" "c1 = c\<lparr>ct_rh_defense := Some (BH f')\<rparr>"
    "p1 = apply_decision (ct_rh_mitigation c) (bh_decision f') p"
    using assms(1,3) True by (auto simp: rh_check_def defense_access_def rbind_eq_Inr_iff)
  then show ?thesis using True bh_access_decision[OF f'(1)] by (auto simp: delays_nothing_def apply_decision_def undecided_def)
next
  case False
  have "c\<lparr>ct_rh_defense := Some (BH f)\<rparr> = c" using assms(1) by simp
  moreover have "c1 = c" "p1 = p" using assms(1,3) False by (simp_all add: rh_check_def)
  ultimately show ?thesis using assms(2) False by (intro conjI exI[of _ f]) simp_all
qed

lemma burst_done_undecided:
  assumes "c2 = c1\<lparr>ct_rh_defense := None\<rparr>"
  shows "burst_done c2 (undecided p) nb off = (burst_done c1 p nb off)\<lparr>ct_rh_defense := None\<rparr>"
  unfolding assms burst_done_def Let_def undecided_sel by (cases "mp_read p") (rule controller.equality; simp)+

lemma dram_burst_undecided:
  assumes "ct_rh_defense c = Some (BH f)" "delays_nothing p" "ct_dram c = Some (d, s)"
    and "dram_burst rnd c now p others = ok (c', p')"
  shows "dram_burst rnd (c\<lparr>ct_rh_defense := None\<rparr>) now (undecided p) others = ok (c'\<lparr>ct_rh_defense := None\<rparr>, undecided p') \<and>
    (checkBurstACT s p \<longrightarrow> (\<exists>f'. bh_access f now (mp_row p) (mp_bank p) (mp_rank p) 0 = Inr f' \<and>
       ct_rh_defense c' = Some (BH f') \<and> mp_rh_SRAMDelay p' = d_SRAM_delay (bh_decision f') + d_MC_delay (bh_decision f')))"
proof -
  let ?act = "checkBurstACT s p"
  have rng: "mp_rank p < length (dr_ranks s)" "mp_bank p < length (rk_banks (dr_ranks s ! mp_rank p))"
    using assms(4) unfolding dram_burst_def assms(3) by (auto split: if_splits)
  obtain c1 p1 where h: "rh_check rnd c now p ?act = Inr (c1, p1)"
    using assms(4) rng unfolding dram_burst_def assms(3) by (cases "rh_check rnd c now p ?act") auto
  obtain f' where f': "delays_nothing p1" "undecided p1 = undecided p" "c1 = c\<lparr>ct_rh_defense := Some (BH f')\<rparr>"
    "?act \<Longrightarrow> bh_access f now (mp_row p) (mp_bank p) (mp_rank p) 0 = Inr f' \<and>
       mp_rh_SRAMDelay p1 = d_SRAM_delay (bh_decision f') + d_MC_delay (bh_decision f')"
    using rh_check_blockhammer[OF assms(1,2) h] by (auto split: if_splits)
  have bubble: "rh_bubble b p1 = 0" "rh_bubble b (undecided p) = 0" for b
    using f'(1) by (simp_all add: rh_bubble_def delays_nothing_def undecided_def)
  obtain B s' p2 cmd_at nb where b: "dram_doBurstAccess d (ct_commandWindow c) now (ct_burstTicks c) s p1 (ct_nextBurstAt c) others
      = ok (B, s', p2, ?act, cmd_at, nb)"
    "(c', p') = (burst_done (c1\<lparr>ct_burstTicks := B, ct_dram := Some (d, s'),
        ct_nvm := (case ct_nvm c1 of None \<Rightarrow> None | Some (nd, ns) \<Rightarrow> Some (nd, nvm_addRankToRankDelay nd ns cmd_at))\<rparr>)
        p2 nb (commandOffset d), p2)"
    using assms(4) rng unfolding dram_burst_def assms(3)
    by (auto simp: obind_eq_ok h bubble f'(3) Let_def split: if_splits)
  have "dram_doBurstAccess d (ct_commandWindow c) now (ct_burstTicks c) s (undecided p) (ct_nextBurstAt c) others
      = ok (B, s', undecided p2, ?act, cmd_at, nb)"
    using doBurst_undecided[OF f'(1), of d "ct_commandWindow c" now "ct_burstTicks c" s "ct_nextBurstAt c" others] f'(2) b(1) by simp
  moreover have "checkBurstACT s (undecided p) = ?act" by (simp add: checkBurstACT_def packet_bank_def)
  ultimately have "dram_burst rnd (c\<lparr>ct_rh_defense := None\<rparr>) now (undecided p) others = ok (c'\<lparr>ct_rh_defense := None\<rparr>, undecided p')"
    using rng assms(3) prod.inject[THEN iffD1, OF b(2)] by (simp add: dram_burst_def rh_check_def bubble Let_def) (rule burst_done_undecided, simp add: f'(3))
  moreover have "mp_rh_SRAMDelay p2 = mp_rh_SRAMDelay p1" using doBurst_packet[OF b(1)] by auto
  moreover have "ct_rh_defense c' = Some (BH f')" using b(2) f'(3) by (simp add: burst_done_def Let_def)
  ultimately show ?thesis using f'(4) b(2) by auto
qed

section \<open>Properties\<close>

text \<open>C17: In the controller BlockHammer delays responses, never activations: when a burst on the DRAM activates a
  row, BlockHammer counts it and its delay is in the packet's response delay, and the DRAM (its banks, the
  activation with its tick, the command slots), the time of the next burst and the packet's ready time are
  those of the same burst without a defense.  So the controller holds back no activation of a row: only a
  requestor that waits for its responses is slowed, and the delays whose being obeyed the guarantee of
  \<open>Block_Hammer\<close> assumes are not enforced between the activations of a row.\<close>

theorem blockhammer_delays_only_responses:
  assumes "ct_rh_defense c = Some (BH f)" "delays_nothing p" "mp_dram p" "ct_dram c = Some (d, s)" "checkBurstACT s p"
    and "ctrl_doBurstAccess rnd c now p others = ok (c', p')"
  shows "\<exists>f'. bh_access f now (mp_row p) (mp_bank p) (mp_rank p) 0 = Inr f' \<and> ct_rh_defense c' = Some (BH f') \<and>
    mp_rh_SRAMDelay p' = d_SRAM_delay (bh_decision f') + d_MC_delay (bh_decision f') \<and>
    ctrl_doBurstAccess rnd (c\<lparr>ct_rh_defense := None\<rparr>) now (undecided p) others = ok (c'\<lparr>ct_rh_defense := None\<rparr>, undecided p')"
proof -
  let ?c = "c\<lparr>ct_burstTicks := pruneBurstTick (ct_burstTicks c) now\<rparr>"
  have "dram_burst rnd ?c now p others = ok (c', p')" using assms(3,6) by (simp add: ctrl_doBurstAccess_def)
  moreover have "ct_rh_defense ?c = Some (BH f)" "ct_dram ?c = Some (d, s)" using assms(1,4) by simp_all
  ultimately have "dram_burst rnd (?c\<lparr>ct_rh_defense := None\<rparr>) now (undecided p) others = ok (c'\<lparr>ct_rh_defense := None\<rparr>, undecided p') \<and>
    (\<exists>f'. bh_access f now (mp_row p) (mp_bank p) (mp_rank p) 0 = Inr f' \<and>
       ct_rh_defense c' = Some (BH f') \<and> mp_rh_SRAMDelay p' = d_SRAM_delay (bh_decision f') + d_MC_delay (bh_decision f'))"
    using dram_burst_undecided[of ?c f p d s rnd now others c' p'] assms(2,5) by blast
  moreover have "?c\<lparr>ct_rh_defense := None\<rparr> = c\<lparr>ct_rh_defense := None, ct_burstTicks := pruneBurstTick (ct_burstTicks c) now\<rparr>"
    by simp
  ultimately show ?thesis using assms(3) by (simp add: ctrl_doBurstAccess_def del: controller.update_convs)
qed

definition example_hammered :: controller where
  "example_hammered = (example_controller (dram_start 2 16 4 2) (example_ctrl False) None)
     \<lparr>ct_rh_mitigation := ''BH'', ct_rh_defense := Some (BH (bh_new undefined 40 4 20 16 2 1))\<rparr>"

theorem blockhammer_delays_only_responses_witness:
  "\<exists>c' p' f'. ctrl_doBurstAccess (\<lambda>_. 0) example_hammered 7 (example_burst 3 2) [[]] = ok (c', p') \<and>
    bh_access (bh_new undefined 40 4 20 16 2 1) 7 2 3 1 0 = Inr f' \<and> ct_rh_defense c' = Some (BH f') \<and>
    mp_rh_SRAMDelay p' = d_SRAM_delay (bh_decision f') + d_MC_delay (bh_decision f') \<and>
    ctrl_doBurstAccess (\<lambda>_. 0) (example_hammered\<lparr>ct_rh_defense := None\<rparr>) 7 (undecided (example_burst 3 2)) [[]] =
      ok (c'\<lparr>ct_rh_defense := None\<rparr>, undecided p')"
proof -
  let ?s = "dram_start 2 16 4 2" and ?p = "example_burst 3 2" and ?f = "bh_new undefined 40 4 20 16 2 1"
  let ?c = "example_hammered\<lparr>ct_burstTicks := pruneBurstTick (ct_burstTicks example_hammered) 7\<rparr>"
  have wf: "dram_wf example_dram_params ?s" using dram_start_wf[of example_dram_params 2 16 4] by (simp add: example_dram_params_def)
  have pre: "burst_pre ?s ?p" by (rule example_burst_pre) (simp_all add: NO_ROW_def)
  have act: "checkBurstACT ?s ?p"
    by (simp add: checkBurstACT_def packet_bank_def dram_start_def Rank_new_def Bank_new_def example_burst_def MemPacket_new_def NO_ROW_def)
  have c: "ct_dram ?c = Some (example_dram_params, ?s)" "ct_nvm ?c = None" "ct_rh_defense ?c = Some (BH ?f)"
    by (simp_all add: example_hammered_def example_controller_def)
  have bus: "bus_ok example_dram_params (ct_commandWindow ?c) (ct_burstTicks ?c)"
    using prune_bus_ok[OF example_bus_ok] by (simp add: example_hammered_def example_controller_def)
  have p: "\<not> mp_rh_injectDelay ?p" "mp_dram ?p" "(0::nat) < 7" "dp_tCL example_dram_params + dp_tBURST example_dram_params \<le> 90000"
    "delays_nothing ?p" "mp_row ?p = 2" "mp_bank ?p = 3" "mp_rank ?p = 1"
    by (simp_all add: example_burst_def MemPacket_new_def example_dram_params_def delays_nothing_def)
  have "bh_inv ?f (\<lambda>_. 0)" by (simp add: bh_inv_def bh_new_def)
  then obtain f' where f': "bh_access ?f 7 2 3 1 0 = Inr f'"
    using bh_access_inv[of ?f "\<lambda>_. 0" 7 _ 3 2] bh_access_ignores_rank[of ?f 7 2 3 1 0 0 0] by (auto simp: bh_new_def u32_def bh_rows_def)
  then have r: "defense_ready (\<lambda>_. 0) (ct_rh_defense ?c) 7 ?p"
    unfolding defense_ready_def c(3) by (simp add: defense_access_def p(6-8))
  obtain c' p' where "dram_burst (\<lambda>_. 0) ?c 7 ?p [[]] = ok (c', p')"
    using dram_burst_ok[OF c(1,2) wf bus pre p(1,3,4) r, of "[[]]"] by blast
  then have run: "ctrl_doBurstAccess (\<lambda>_. 0) example_hammered 7 ?p [[]] = ok (c', p')"
    using p(2) by (simp add: ctrl_doBurstAccess_def)
  have "ct_rh_defense example_hammered = Some (BH ?f)" "ct_dram example_hammered = Some (example_dram_params, ?s)"
    by (simp_all add: example_hammered_def example_controller_def)
  from blockhammer_delays_only_responses[OF this(1) p(5,2) this(2) act run] show ?thesis
    using run unfolding p(6-8) by blast
qed

end
